(* ===== verification/Ringside_Prelude.thy ===== *)
theory Ringside_Prelude
  imports Complex_Main "HOL-Library.Multiset"
begin

text \<open>
  Shared vocabulary of the development: the exceptions of the Python sources as values,
  results as sums, Python's ceiling division, and the list and set lemmas that several
  components use. The collection \<open>py_defs\<close> holds the unfolding equations of the small
  arithmetic helpers.
\<close>

section \<open>Errors as values\<close>

named_theorems py_defs

datatype py_error = ValueError | RuntimeError | IndexError | KeyError | TypeError | AssertionError | StopIteration | ZeroDivisionError | AttributeError
  | OSError | OverflowError | LookupError

type_synonym 'a py = "py_error + 'a"

definition py_guard :: "bool \<Rightarrow> py_error \<Rightarrow> 'a py \<Rightarrow> 'a py" where
  "py_guard bad e k = (if bad then Inl e else k)"

definition py_bind :: "'a py \<Rightarrow> ('a \<Rightarrow> 'b py) \<Rightarrow> 'b py" where
  "py_bind r k = (case r of Inl e \<Rightarrow> Inl e | Inr x \<Rightarrow> k x)"

lemma py_guard_simps [simp]:
  "py_guard True e k = Inl e"
  "py_guard False e k = k"
  by (simp_all add: py_guard_def)

lemma py_guard_Inr [simp]: "py_guard b e k = Inr x \<longleftrightarrow> \<not> b \<and> k = Inr x"
  by (simp add: py_guard_def)

lemma py_bind_simps [simp]:
  "py_bind (Inl e) k = Inl e"
  "py_bind (Inr x) k = k x"
  by (simp_all add: py_bind_def)

lemma py_bind_Inr [simp]: "py_bind r k = Inr y \<longleftrightarrow> (\<exists>x. r = Inr x \<and> k x = Inr y)"
  by (cases r) (auto simp: py_bind_def)

text \<open>A list comprehension whose element may raise.\<close>

fun py_map :: "('a \<Rightarrow> 'b py) \<Rightarrow> 'a list \<Rightarrow> 'b list py" where
  "py_map f [] = Inr []"
| "py_map f (x # xs) = py_bind (f x) (\<lambda>y. py_bind (py_map f xs) (\<lambda>ys. Inr (y # ys)))"

lemma py_map_Inr: "py_map f xs = Inr ys \<longleftrightarrow> list_all2 (\<lambda>x y. f x = Inr y) xs ys"
  by (induction xs arbitrary: ys) (auto simp: list_all2_Cons1)

lemma py_map_total: "(\<And>x. x \<in> set xs \<Longrightarrow> f x = Inr (g x)) \<Longrightarrow> py_map f xs = Inr (map g xs)"
  by (induction xs) auto

text \<open>The exceptions a result can carry.\<close>

named_theorems only_intro

definition raises_only :: "py_error set \<Rightarrow> 'a py \<Rightarrow> bool" where
  "raises_only E r \<longleftrightarrow> (\<forall>e. r = Inl e \<longrightarrow> e \<in> E)"

lemma raises_only_Inr [only_intro]: "raises_only E (Inr x)"
  and raises_only_Inl [only_intro]: "e \<in> E \<Longrightarrow> raises_only E (Inl e)"
  and raises_only_guard [only_intro]: "e \<in> E \<Longrightarrow> raises_only E k \<Longrightarrow> raises_only E (py_guard b e k)"
  by (auto simp: raises_only_def py_guard_def)

lemma raises_only_bind [only_intro]:
  "raises_only E r \<Longrightarrow> (\<And>x. r = Inr x \<Longrightarrow> raises_only E (k x)) \<Longrightarrow> raises_only E (py_bind r k)"
  by (cases r) (auto simp: raises_only_def)

lemma raises_only_if [only_intro]: "raises_only E a \<Longrightarrow> raises_only E b \<Longrightarrow> raises_only E (if c then a else b)"
  by simp

lemma raises_only_mono: "raises_only E r \<Longrightarrow> E \<subseteq> F \<Longrightarrow> raises_only F r"
  by (auto simp: raises_only_def)

text \<open>A vote: every rank gathers what each rank raised, and raises itself when any did.\<close>

definition error_of :: "'a py \<Rightarrow> py_error option" where
  "error_of r = (case r of Inl e \<Rightarrow> Some e | Inr _ \<Rightarrow> None)"

definition stage_vote :: "py_error option list \<Rightarrow> unit py" where
  "stage_vote errors = py_guard (list_ex (\<lambda>e. e \<noteq> None) errors) RuntimeError (Inr ())"

lemma error_of_None: "error_of r = None \<longleftrightarrow> (\<exists>x. r = Inr x)"
  by (cases r) (simp_all add: error_of_def)

lemma stage_vote_cases: "stage_vote es = (if \<forall>e \<in> set es. e = None then Inr () else Inl RuntimeError)"
  by (auto simp: stage_vote_def py_guard_def list_ex_iff)

section \<open>Integer helpers\<close>

text \<open>Python's \<open>-(-a // b)\<close>: division rounded towards plus infinity.\<close>

definition cdiv :: "int \<Rightarrow> int \<Rightarrow> int" where
  [py_defs]: "cdiv a b = - ((- a) div b)"

lemma cdiv_eq:
  assumes b: "0 < b"
  shows "cdiv a b = (a + b - 1) div b"
proof -
  have "a + b - 1 = b * cdiv a b + (b - 1 - (- a) mod b)"
    by (simp add: cdiv_def minus_div_mult_eq_mod [symmetric] algebra_simps)
  moreover have "0 \<le> b - 1 - (- a) mod b" "b - 1 - (- a) mod b < b"
    using pos_mod_bound [OF b, of "- a"] pos_mod_sign [OF b, of "- a"] by linarith+
  ultimately have "(a + b - 1) div b = cdiv a b"
    by (rule int_div_pos_eq)
  then show ?thesis by simp
qed


lemma div_bounds:
  assumes "0 < (b::int)"
  shows "a div b * b \<le> a" "a < a div b * b + b"
proof -
  have "a div b * b + a mod b = a" by (rule div_mult_mod_eq)
  then show "a div b * b \<le> a" "a < a div b * b + b"
    using pos_mod_sign [OF assms, of a] pos_mod_bound [OF assms, of a] by linarith+
qed

lemma cdiv_bounds:
  assumes "0 < b"
  shows "a \<le> cdiv a b * b" "cdiv a b * b < a + b"
proof -
  have "b * cdiv a b + (a + b - 1) mod b = a + b - 1" unfolding cdiv_eq [OF assms] by (rule mult_div_mod_eq)
  then show "a \<le> cdiv a b * b" "cdiv a b * b < a + b"
    using pos_mod_sign [OF assms, of "a + b - 1"] pos_mod_bound [OF assms, of "a + b - 1"]
    by (simp_all add: mult.commute)
qed

lemma cdiv_le_iff: "0 < b \<Longrightarrow> cdiv a b \<le> k \<longleftrightarrow> a \<le> k * b"
proof
  assume b: "0 < b" and "cdiv a b \<le> k"
  then have "cdiv a b * b \<le> k * b" by simp
  with cdiv_bounds(1) [OF b, of a] show "a \<le> k * b" by linarith
next
  assume b: "0 < b" and a: "a \<le> k * b"
  then have "cdiv a b * b < (k + 1) * b" using cdiv_bounds(2) [OF b, of a] by (simp add: algebra_simps)
  with b show "cdiv a b \<le> k" by (simp add: mult_less_cancel_right)
qed

lemma cdiv_mono: "0 < b \<Longrightarrow> a \<le> a' \<Longrightarrow> cdiv a b \<le> cdiv a' b"
  using cdiv_bounds(1) [of b a'] by (simp add: cdiv_le_iff)

lemma cdiv_pos: "0 < b \<Longrightarrow> 0 < a \<Longrightarrow> 0 < cdiv a b"
  using cdiv_le_iff [of b a 0] by linarith


section \<open>Environment strings\<close>

text \<open>\<open>str.strip()\<close> on ASCII text, decimal digits, and \<open>int(s)\<close> of a digit string.\<close>

definition py_space :: "char \<Rightarrow> bool" where
  "py_space c = (let n = (of_char c :: nat) in n = 32 \<or> 9 \<le> n \<and> n \<le> 13 \<or> 28 \<le> n \<and> n \<le> 31)"

definition py_strip :: "string \<Rightarrow> string" where
  "py_strip s = rev (dropWhile py_space (rev (dropWhile py_space s)))"

definition py_digit :: "char \<Rightarrow> bool" where
  "py_digit c = (let n = (of_char c :: nat) in 48 \<le> n \<and> n \<le> 57)"

definition py_nat :: "string \<Rightarrow> nat" where
  "py_nat s = foldl (\<lambda>n c. 10 * n + (of_char c - 48)) 0 s"

definition env_or :: "string option \<Rightarrow> string \<Rightarrow> string" where
  "env_or v d = (let s = py_strip (case v of None \<Rightarrow> d | Some x \<Rightarrow> x) in if s = [] then d else s)"

fun split_on :: "'a \<Rightarrow> 'a list \<Rightarrow> 'a list list" where
  "split_on c [] = [[]]"
| "split_on c (x # xs) =
     (if x = c then [] # split_on c xs
      else case split_on c xs of [] \<Rightarrow> [[x]] | p # ps \<Rightarrow> (x # p) # ps)"

type_synonym environ = "string \<Rightarrow> string option"

definition env_get :: "environ \<Rightarrow> string \<Rightarrow> string \<Rightarrow> string" where
  "env_get env key d = (case env key of None \<Rightarrow> d | Some v \<Rightarrow> v)"

text \<open>\<open>int(s)\<close> on ASCII text: surrounding white space, a sign, digit groups joined by single underscores,
  at most 4300 digits.\<close>

definition c_space :: "char \<Rightarrow> bool" where
  "c_space c = (let n = (of_char c :: nat) in n = 32 \<or> 9 \<le> n \<and> n \<le> 13)"

definition py_int :: "string \<Rightarrow> int py" where
  "py_int s =
     (let t = rev (dropWhile c_space (rev (dropWhile c_space s)));
          signed = (t \<noteq> [] \<and> hd t \<in> {CHR ''+'', CHR ''-''});
          parts = split_on (CHR ''_'') (if signed then tl t else t)
      in py_guard (\<not> list_all (\<lambda>p. p \<noteq> [] \<and> list_all py_digit p) parts \<or> 4300 < length (concat parts)) ValueError
           (Inr ((if signed \<and> hd t = CHR ''-'' then -1 else 1) * int (py_nat (concat parts)))))"

definition env_int :: "environ \<Rightarrow> string \<Rightarrow> int \<Rightarrow> int py" where
  "env_int env key d = (case env key of None \<Rightarrow> Inr d | Some v \<Rightarrow> py_int v)"

section \<open>Dictionaries in insertion order\<close>

text \<open>A dictionary whose order is read is the list of its items; storing under a key that is present
  keeps the key's place, a new key goes last.\<close>

fun dict_put :: "'k \<Rightarrow> 'v \<Rightarrow> ('k \<times> 'v) list \<Rightarrow> ('k \<times> 'v) list" where
  "dict_put k v [] = [(k, v)]"
| "dict_put k v (kv # d) = (if fst kv = k then (k, v) # d else kv # dict_put k v d)"

definition dict_del :: "'k \<Rightarrow> ('k \<times> 'v) list \<Rightarrow> ('k \<times> 'v) list" where
  "dict_del k d = filter (\<lambda>kv. fst kv \<noteq> k) d"

text \<open>\<open>OrderedDict.move_to_end\<close>.\<close>

definition dict_to_end :: "'k \<Rightarrow> ('k \<times> 'v) list \<Rightarrow> ('k \<times> 'v) list" where
  "dict_to_end k d = dict_del k d @ filter (\<lambda>kv. fst kv = k) d"

lemma map_of_dict_put [simp]: "map_of (dict_put k v d) = (map_of d)(k \<mapsto> v)"
  by (induction d) (auto simp: fun_eq_iff)

lemma keys_dict_put: "map fst (dict_put k v d) = (if k \<in> fst ` set d then map fst d else map fst d @ [k])"
  by (induction d) auto

lemma set_dict_put: "distinct (map fst d) \<Longrightarrow> set (dict_put k v d) = {kv \<in> set d. fst kv \<noteq> k} \<union> {(k, v)}"
proof (induction d)
  case (Cons kv d)
  show ?case
  proof (cases "fst kv = k")
    case True
    then have "k \<notin> fst ` set d" using Cons.prems by simp
    then have "fst x \<noteq> k" if "x \<in> set d" for x using that by (auto simp: image_iff)
    with True show ?thesis by auto
  next
    case False
    then show ?thesis using Cons by auto
  qed
qed simp

lemma distinct_dict_put: "distinct (map fst d) \<Longrightarrow> distinct (map fst (dict_put k v d))"
  by (auto simp: keys_dict_put)

lemma set_dict_del [simp]: "set (dict_del k d) = {kv \<in> set d. fst kv \<noteq> k}"
  by (auto simp: dict_del_def)

lemma map_of_dict_del [simp]: "map_of (dict_del k d) = (map_of d)(k := None)"
  unfolding dict_del_def by (induction d) (auto simp: fun_eq_iff)

lemma distinct_dict_del: "distinct (map fst d) \<Longrightarrow> distinct (map fst (dict_del k d))"
  unfolding dict_del_def by (metis distinct_map_filter)

lemma length_dict_del: "distinct (map fst d) \<Longrightarrow> k \<in> fst ` set d \<Longrightarrow> Suc (length (dict_del k d)) = length d"
  unfolding dict_del_def
proof (induction d)
  case (Cons kv d)
  show ?case
  proof (cases "fst kv = k")
    case True
    then have "k \<notin> fst ` set d" using Cons.prems(1) by simp
    then have "filter (\<lambda>kv. fst kv \<noteq> k) d = d" by (auto simp: filter_id_conv image_iff)
    with True show ?thesis by simp
  next
    case False
    then have "k \<in> fst ` set d" "distinct (map fst d)" using Cons.prems by auto
    with False Cons.IH show ?thesis by simp
  qed
qed simp

lemma length_dict_del_le: "length (dict_del k d) \<le> length d"
  by (simp add: dict_del_def)

lemma set_dict_to_end [simp]: "set (dict_to_end k d) = set d"
  by (auto simp: dict_to_end_def)

lemma length_dict_to_end [simp]: "length (dict_to_end k d) = length d"
  unfolding dict_to_end_def dict_del_def by (induction d) auto

lemma distinct_dict_to_end: "distinct (map fst d) \<Longrightarrow> distinct (map fst (dict_to_end k d))"
  unfolding dict_to_end_def dict_del_def map_append distinct_append
  by (auto simp: distinct_map_filter)

lemma map_of_dict_to_end:
  assumes "distinct (map fst d)"
  shows "map_of (dict_to_end k d) = map_of d"
proof
  fix x
  have "map_of (dict_to_end k d) x = Some v \<longleftrightarrow> map_of d x = Some v" for v
    using assms distinct_dict_to_end [OF assms, of k] by (simp only: map_of_eq_Some_iff set_dict_to_end)
  then show "map_of (dict_to_end k d) x = map_of d x" by (metis option.exhaust)
qed

end
