(* ===== verification/Utf8_Decoder.thy ===== *)
theory Utf8_Decoder
  imports Ringside_Prelude
begin

text \<open>
  The strict UTF-8 decoder of \<open>src/src/tp4/glm53_utf8_guard.py\<close> (the state machine behind the
  sampler's continuation guard): \<open>_RANGES\<close>, \<open>_MISSING\<close>, \<open>_lead_state\<close>, \<open>strict_step\<close>,
  \<open>feed\<close>, \<open>valid_from\<close> and \<open>next_state\<close>. Bytes and states are natural numbers; the
  states are 0 (clean) and 1..7 (inside a character, numbered as the module's docstring does).
  \<open>None\<close> of the source is \<open>None\<close>.

  The specification is RFC 3629 written the other way round: \<open>utf8_encode\<close> maps a Unicode scalar
  value to its bytes. The lemmas show that the decoder accepts from state 0 exactly the
  concatenations of such encodings, that every state is eight-valued and a pending character ends
  within three bytes, and that two runs over the same bytes agree once a character has been
  completed, whatever states they started in.
\<close>

section \<open>The decoder\<close>

text \<open>A dictionary lookup outside the keys 1..7 raises \<open>KeyError\<close>; it is \<open>None\<close> here and
  \<open>strict_step_range\<close> shows that no run from a state below 8 leaves these keys.\<close>

definition utf8_range :: "nat \<Rightarrow> (nat \<times> nat) option" where
  "utf8_range s =
     (if s = 1 then Some (0x80, 0xBF) else if s = 2 then Some (0x80, 0xBF)
      else if s = 3 then Some (0xA0, 0xBF) else if s = 4 then Some (0x80, 0x9F)
      else if s = 5 then Some (0x80, 0xBF) else if s = 6 then Some (0x90, 0xBF)
      else if s = 7 then Some (0x80, 0x8F) else None)"

definition utf8_missing :: "nat \<Rightarrow> nat option" where
  "utf8_missing s =
     (if s = 1 then Some 1 else if s = 2 then Some 2 else if s = 3 then Some 2
      else if s = 4 then Some 2 else if s = 5 then Some 3 else if s = 6 then Some 3
      else if s = 7 then Some 3 else None)"

definition lead_state :: "nat \<Rightarrow> nat option" where
  "lead_state b =
     (if b < 0x80 then Some 0
      else if 0xC2 \<le> b \<and> b \<le> 0xDF then Some 1
      else if b = 0xE0 then Some 3
      else if b = 0xED then Some 4
      else if 0xE1 \<le> b \<and> b \<le> 0xEF then Some 2
      else if b = 0xF0 then Some 6
      else if 0xF1 \<le> b \<and> b \<le> 0xF3 then Some 5
      else if b = 0xF4 then Some 7
      else None)"

definition strict_step :: "nat \<Rightarrow> nat \<Rightarrow> nat option" where
  "strict_step state b =
     (if state = 0 then lead_state b
      else case utf8_range state of
        None \<Rightarrow> None
      | Some (lo, hi) \<Rightarrow>
          if \<not> (lo \<le> b \<and> b \<le> hi) then None
          else map_option (\<lambda>m. m - 1) (utf8_missing state))"

definition feed :: "nat \<Rightarrow> nat \<Rightarrow> nat" where
  "feed state b =
     (case strict_step state b of
        Some r \<Rightarrow> r
      | None \<Rightarrow>
          if state \<noteq> 0 then (case strict_step 0 b of None \<Rightarrow> 0 | Some r \<Rightarrow> r)
          else 0)"

text \<open>\<open>strict_run\<close> is the loop of \<open>valid_from\<close> with the state it ends in.\<close>

fun strict_run :: "nat \<Rightarrow> nat list \<Rightarrow> nat option" where
  "strict_run s [] = Some s"
| "strict_run s (b # bs) = (case strict_step s b of None \<Rightarrow> None | Some s' \<Rightarrow> strict_run s' bs)"

fun valid_from :: "nat \<Rightarrow> nat list \<Rightarrow> bool" where
  "valid_from s [] = True"
| "valid_from s (b # bs) = (case strict_step s b of None \<Rightarrow> False | Some s' \<Rightarrow> valid_from s' bs)"

fun next_state :: "nat \<Rightarrow> nat list \<Rightarrow> nat" where
  "next_state s [] = s"
| "next_state s (b # bs) = next_state (feed s b) bs"

section \<open>The specification: RFC 3629 encodings\<close>

definition is_scalar :: "nat \<Rightarrow> bool" where
  "is_scalar c \<longleftrightarrow> c < 0xD800 \<or> (0xE000 \<le> c \<and> c \<le> 0x10FFFF)"

definition utf8_encode :: "nat \<Rightarrow> nat list" where
  "utf8_encode c =
     (if c < 0x80 then [c]
      else if c < 0x800 then [0xC0 + c div 64, 0x80 + c mod 64]
      else if c < 0x10000 then [0xE0 + c div 4096, 0x80 + c div 64 mod 64, 0x80 + c mod 64]
      else [0xF0 + c div 262144, 0x80 + c div 4096 mod 64, 0x80 + c div 64 mod 64,
            0x80 + c mod 64])"

definition cont_byte :: "nat \<Rightarrow> bool" where
  "cont_byte b \<longleftrightarrow> 0x80 \<le> b \<and> b \<le> 0xBF"

section \<open>One step\<close>

lemma strict_step_simps [simp]:
  "strict_step 0 b = lead_state b"
  "strict_step (Suc 0) b = (if 0x80 \<le> b \<and> b \<le> 0xBF then Some 0 else None)"
  "strict_step 2 b = (if 0x80 \<le> b \<and> b \<le> 0xBF then Some 1 else None)"
  "strict_step 3 b = (if 0xA0 \<le> b \<and> b \<le> 0xBF then Some 1 else None)"
  "strict_step 4 b = (if 0x80 \<le> b \<and> b \<le> 0x9F then Some 1 else None)"
  "strict_step 5 b = (if 0x80 \<le> b \<and> b \<le> 0xBF then Some 2 else None)"
  "strict_step 6 b = (if 0x90 \<le> b \<and> b \<le> 0xBF then Some 2 else None)"
  "strict_step 7 b = (if 0x80 \<le> b \<and> b \<le> 0x8F then Some 2 else None)"
  by (simp_all add: strict_step_def utf8_range_def utf8_missing_def)

lemma strict_run_append:
  "strict_run s (xs @ ys) = (case strict_run s xs of None \<Rightarrow> None | Some s' \<Rightarrow> strict_run s' ys)"
  by (induction s xs rule: strict_run.induct) (auto split: option.splits)

section \<open>The decoder accepts exactly the encodings\<close>

lemma encode2:
  assumes "y < 64" "2 \<le> x" "x < 32"
  shows "utf8_encode (64 * x + y) = [0xC0 + x, 0x80 + y]"
  using assms by (simp add: utf8_encode_def)

lemma encode3:
  assumes "y < 64" "z < 64" "x < 16" "0x800 \<le> 4096 * x + 64 * y + z"
  shows "utf8_encode (4096 * x + 64 * y + z) = [0xE0 + x, 0x80 + y, 0x80 + z]"
proof -
  let ?c = "4096 * x + 64 * y + z"
  have "?c div 4096 = x" "?c div 64 = 64 * x + y"
    using assms by (auto intro!: div_nat_eqI)
  moreover have "?c mod 64 = z"
    using assms(2) mod_mult_self2 [of z 64 "64 * x + y"] by (simp add: algebra_simps)
  ultimately show ?thesis using assms by (simp add: utf8_encode_def)
qed

lemma encode4:
  assumes "y < 64" "z < 64" "w < 64" "x < 8" "0x10000 \<le> 262144 * x + 4096 * y + 64 * z + w"
  shows "utf8_encode (262144 * x + 4096 * y + 64 * z + w)
    = [0xF0 + x, 0x80 + y, 0x80 + z, 0x80 + w]"
proof -
  let ?c = "262144 * x + 4096 * y + 64 * z + w"
  have "?c div 262144 = x" "?c div 4096 = 64 * x + y" "?c div 64 = 64 * (64 * x + y) + z"
    using assms by (auto intro!: div_nat_eqI)
  moreover have "?c mod 64 = w"
    using assms(3) mod_mult_self2 [of w 64 "4096 * x + 64 * y + z"] by (simp add: algebra_simps)
  moreover have "(64 * (64 * x + y) + z) mod 64 = z"
    using assms(2) mod_mult_self2 [of z 64 "64 * x + y"] by (simp add: add.commute)
  ultimately show ?thesis
    using assms by (simp add: utf8_encode_def del: distrib_left_numeral add_mult_distrib2)
qed

lemma lead_state_simps [simp]:
  "b < 0x80 \<Longrightarrow> lead_state b = Some 0"
  "2 \<le> x \<Longrightarrow> x < 32 \<Longrightarrow> lead_state (0xC0 + x) = Some 1"
  "x < 16 \<Longrightarrow> lead_state (0xE0 + x) = Some (if x = 0 then 3 else if x = 13 then 4 else 2)"
  "x \<le> 4 \<Longrightarrow> lead_state (0xF0 + x) = Some (if x = 0 then 6 else if x = 4 then 7 else 5)"
  by (simp_all add: lead_state_def)

lemma base64_split3: "c = 4096 * (c div 4096) + 64 * (c div 64 mod 64) + c mod (64::nat)"
proof -
  have "c div 4096 = c div 64 div 64" by (simp add: div_mult2_eq [symmetric])
  then show ?thesis
    using mult_div_mod_eq [of 64 "c div 64"] mult_div_mod_eq [of 64 c] by linarith
qed

lemma base64_split4:
  "c = 262144 * (c div 262144) + 4096 * (c div 4096 mod 64) + 64 * (c div 64 mod 64) + c mod (64::nat)"
proof -
  have "c div 262144 = c div 4096 div 64" by (simp add: div_mult2_eq [symmetric])
  then show ?thesis
    using mult_div_mod_eq [of 64 "c div 4096"] base64_split3 [of c] by linarith
qed

lemma encode_accepts:
  assumes "is_scalar c" shows "strict_run 0 (utf8_encode c) = Some 0"
proof -
  consider "c < 0x80" | "0x80 \<le> c" "c < 0x800" | "0x800 \<le> c" "c < 0x10000" | "0x10000 \<le> c"
    by linarith
  then show ?thesis
  proof cases
    case 1
    then show ?thesis by (simp add: utf8_encode_def)
  next
    case 2
    define x y where "x = c div 64" and "y = c mod 64"
    have c: "c = 64 * x + y" by (simp add: x_def y_def)
    have "y < 64" "2 \<le> x" "x < 32" using 2 by (auto simp: x_def y_def)
    then show ?thesis by (simp add: c encode2)
  next
    case 3
    define x y z where "x = c div 4096" and "y = c div 64 mod 64" and "z = c mod 64"
    have c: "c = 4096 * x + 64 * y + z" unfolding x_def y_def z_def by (rule base64_split3)
    have b: "y < 64" "z < 64" "x < 16" using 3 by (auto simp: x_def y_def z_def)
    have d: "x = 13 \<Longrightarrow> y \<le> 31" "x = 0 \<Longrightarrow> 32 \<le> y"
      using 3 assms b unfolding c is_scalar_def by linarith+
    show ?thesis using 3 b d unfolding c by (auto simp: encode3)
  next
    case 4
    define x y z w where "x = c div 262144" and "y = c div 4096 mod 64" and "z = c div 64 mod 64"
      and "w = c mod 64"
    have c: "c = 262144 * x + 4096 * y + 64 * z + w" unfolding x_def y_def z_def w_def by (rule base64_split4)
    have b: "y < 64" "z < 64" "w < 64" "x \<le> 4"
      using 4 assms by (auto simp: x_def y_def z_def w_def is_scalar_def)
    have d: "x = 4 \<Longrightarrow> y \<le> 15" "x = 0 \<Longrightarrow> 16 \<le> y"
      using 4 assms b unfolding c is_scalar_def by linarith+
    show ?thesis using 4 b d unfolding c by (auto simp: encode4)
  qed
qed

lemma run_1D:
  assumes "strict_run (Suc 0) bs = Some 0"
  obtains z rest where "z < 64" "bs = (0x80 + z) # rest" "strict_run 0 rest = Some 0"
proof (cases bs)
  case Nil
  with assms show ?thesis by simp
next
  case (Cons b rest)
  with assms have "0x80 \<le> b" "b \<le> 0xBF" "strict_run 0 rest = Some 0"
    by (auto split: if_splits)
  with Cons show ?thesis by (intro that [of "b - 0x80" rest]) auto
qed

lemma run_2D:
  assumes "strict_run s bs = Some 0" "s \<in> {2, 3, 4}"
  obtains y rest where "y < 64" "bs = (0x80 + y) # rest" "strict_run (Suc 0) rest = Some 0"
    "s = 3 \<Longrightarrow> 32 \<le> y" "s = 4 \<Longrightarrow> y < 32"
proof (cases bs)
  case Nil
  with assms show ?thesis by simp
next
  case (Cons b rest)
  with assms have "0x80 \<le> b" "b \<le> 0xBF" "strict_run (Suc 0) rest = Some 0"
    "s = 3 \<Longrightarrow> 0xA0 \<le> b" "s = 4 \<Longrightarrow> b \<le> 0x9F"
    by (auto split: if_splits)
  with Cons show ?thesis by (intro that [of "b - 0x80" rest]) auto
qed

lemma run_3D:
  assumes "strict_run s bs = Some 0" "s \<in> {5, 6, 7}"
  obtains y rest where "y < 64" "bs = (0x80 + y) # rest" "strict_run 2 rest = Some 0"
    "s = 6 \<Longrightarrow> 16 \<le> y" "s = 7 \<Longrightarrow> y < 16"
proof (cases bs)
  case Nil
  with assms show ?thesis by simp
next
  case (Cons b rest)
  with assms have "0x80 \<le> b" "b \<le> 0xBF" "strict_run 2 rest = Some 0"
    "s = 6 \<Longrightarrow> 0x90 \<le> b" "s = 7 \<Longrightarrow> b \<le> 0x8F"
    by (auto split: if_splits)
  with Cons show ?thesis by (intro that [of "b - 0x80" rest]) auto
qed

lemma lead_stateE:
  assumes "lead_state b = Some s"
  obtains "b < 0x80" "s = 0"
  | x where "b = 0xC0 + x" "2 \<le> x" "x < 32" "s = 1"
  | x where "b = 0xE0 + x" "x < 16" "s \<in> {2, 3, 4}" "x = 0 \<longleftrightarrow> s = 3" "x = 13 \<longleftrightarrow> s = 4"
  | x where "b = 0xF0 + x" "x \<le> 4" "s \<in> {5, 6, 7}" "x = 0 \<longleftrightarrow> s = 6" "x = 4 \<longleftrightarrow> s = 7"
proof -
  consider "b < 0x80" | "0xC2 \<le> b" "b \<le> 0xDF" | "0xE0 \<le> b" "b \<le> 0xEF" | "0xF0 \<le> b" "b \<le> 0xF4"
    using assms by (fastforce simp: lead_state_def split: if_splits)
  then show thesis
  proof cases
    case 1
    with assms that(1) show ?thesis by simp
  next
    case 2
    with assms that(2) [of "b - 0xC0"] show ?thesis by (auto simp: lead_state_def split: if_splits)
  next
    case 3
    with assms that(3) [of "b - 0xE0"] show ?thesis by (auto simp: lead_state_def split: if_splits)
  next
    case 4
    with assms that(4) [of "b - 0xF0"] show ?thesis by (auto simp: lead_state_def split: if_splits)
  qed
qed
lemma first_character:
  assumes "strict_run 0 (b # bs) = Some 0"
  shows "\<exists>c rest. is_scalar c \<and> b # bs = utf8_encode c @ rest \<and> strict_run 0 rest = Some 0"
proof -
  from assms obtain s where s: "lead_state b = Some s" and run: "strict_run s bs = Some 0"
    by (auto split: option.splits)
  from s show ?thesis
  proof (cases rule: lead_stateE)
    case 1
    then show ?thesis using run
      by (intro exI [of _ b] exI [of _ bs]) (simp add: is_scalar_def utf8_encode_def)
  next
    case (2 x)
    then obtain z rest where z: "z < 64" "bs = (0x80 + z) # rest" "strict_run 0 rest = Some 0"
      using run run_1D by auto
    then show ?thesis using 2
      by (intro exI [of _ "64 * x + z"] exI [of _ rest]) (simp add: is_scalar_def encode2)
  next
    case (3 x)
    obtain y r where y: "y < 64" "bs = (0x80 + y) # r" "strict_run (Suc 0) r = Some 0"
      "s = 3 \<Longrightarrow> 32 \<le> y" "s = 4 \<Longrightarrow> y < 32"
      using run_2D [OF run 3(3)] by blast
    from y(3) obtain z rest where z: "z < 64" "r = (0x80 + z) # rest" "strict_run 0 rest = Some 0"
      by (rule run_1D)
    have low: "0x800 \<le> 4096 * x + 64 * y + z" using y 3 by (cases "x = 0") auto
    have "is_scalar (4096 * x + 64 * y + z)"
      using y z 3 by (cases "x \<le> 13"; cases "x = 13") (auto simp: is_scalar_def)
    then show ?thesis using 3 y z low
      by (intro exI [of _ "4096 * x + 64 * y + z"] exI [of _ rest]) (simp add: encode3)
  next
    case (4 x)
    obtain y r where y: "y < 64" "bs = (0x80 + y) # r" "strict_run 2 r = Some 0"
      "s = 6 \<Longrightarrow> 16 \<le> y" "s = 7 \<Longrightarrow> y < 16"
      using run_3D [OF run 4(3)] by blast
    obtain z r' where z: "z < 64" "r = (0x80 + z) # r'" "strict_run (Suc 0) r' = Some 0"
      using run_2D [OF y(3)] by blast
    from z(3) obtain w rest where w: "w < 64" "r' = (0x80 + w) # rest" "strict_run 0 rest = Some 0"
      by (rule run_1D)
    have low: "0x10000 \<le> 262144 * x + 4096 * y + 64 * z + w" using y 4 by (cases "x = 0") auto
    have "is_scalar (262144 * x + 4096 * y + 64 * z + w)"
      using y z w 4 low by (cases "x = 4") (auto simp: is_scalar_def)
    then show ?thesis using 4 y z w low
      by (intro exI [of _ "262144 * x + 4096 * y + 64 * z + w"] exI [of _ rest]) (simp add: encode4)
  qed
qed


section \<open>States, prefixes and completeness\<close>

lemma lead_state_less_8: "lead_state b = Some s \<Longrightarrow> s < 8"
  by (auto simp: lead_state_def split: if_splits)

lemma strict_step_range:
  "s < 8 \<Longrightarrow> strict_step s b = Some s' \<Longrightarrow> s' < 8"
  by (auto simp: strict_step_def lead_state_def utf8_range_def utf8_missing_def split: if_splits)

lemma strict_step_pending:
  "0 < s \<Longrightarrow> strict_step s b = Some s' \<Longrightarrow> cont_byte b \<and> utf8_missing s = Some (Suc s')"
  by (auto simp: strict_step_def cont_byte_def utf8_range_def utf8_missing_def split: if_splits)

lemma valid_from_run: "valid_from s bs \<longleftrightarrow> strict_run s bs \<noteq> None"
  by (induction s bs rule: valid_from.induct) (auto split: option.splits)

lemma next_state_run: "strict_run s bs = Some s' \<Longrightarrow> next_state s bs = s'"
  by (induction s bs rule: strict_run.induct) (auto simp: feed_def split: option.splits)

lemma feed_less_8: "s < 8 \<Longrightarrow> feed s b < 8"
  by (auto simp: feed_def dest: strict_step_range lead_state_less_8 split: option.splits)

lemma next_state_less_8: "s < 8 \<Longrightarrow> next_state s bs < 8"
  by (induction s bs rule: next_state.induct) (auto simp: feed_less_8)

lemma next_state_append: "next_state s (xs @ ys) = next_state (next_state s xs) ys"
  by (induction s xs rule: next_state.induct) auto

lemma strict_run_complete:
  "strict_run 0 bs = Some 0 \<longleftrightarrow> (\<exists>cs. (\<forall>c \<in> set cs. is_scalar c) \<and> bs = concat (map utf8_encode cs))"
proof
  assume "strict_run 0 bs = Some 0"
  then show "\<exists>cs. (\<forall>c \<in> set cs. is_scalar c) \<and> bs = concat (map utf8_encode cs)"
  proof (induction bs rule: length_induct)
    case (1 bs)
    show ?case
    proof (cases bs)
      case Nil
      then show ?thesis by (intro exI [of _ "[]"]) simp
    next
      case (Cons b bs')
      obtain c rest where c: "is_scalar c" "bs = utf8_encode c @ rest" "strict_run 0 rest = Some 0"
        using first_character [of b bs'] 1(2) Cons by blast
      have "length rest < length bs" using c(2) by (simp add: utf8_encode_def)
      with 1(1) c(3) obtain cs where "\<forall>c \<in> set cs. is_scalar c" "rest = concat (map utf8_encode cs)"
        by blast
      then show ?thesis using c by (intro exI [of _ "c # cs"]) simp
    qed
  qed
next
  assume "\<exists>cs. (\<forall>c \<in> set cs. is_scalar c) \<and> bs = concat (map utf8_encode cs)"
  then obtain cs where "\<forall>c \<in> set cs. is_scalar c" "bs = concat (map utf8_encode cs)" by blast
  then show "strict_run 0 bs = Some 0"
    by (induction cs arbitrary: bs) (simp_all add: strict_run_append encode_accepts)
qed

section \<open>Synchronisation\<close>

text \<open>A byte outside 80..BF forgets the state; three bytes inside it complete any character.\<close>

lemma feed_noncont: "\<not> cont_byte b \<Longrightarrow> feed s b = feed 0 b"
  by (cases "s = 0") (auto simp: feed_def dest: strict_step_pending split: option.splits)

lemma feed_cont:
  assumes "cont_byte b" "s < 8"
  shows "feed s b = 0 \<or> utf8_missing s = Some (Suc (feed s b))"
proof -
  have "lead_state b = None" using assms(1) by (auto simp: cont_byte_def lead_state_def)
  then show ?thesis
    by (cases "s = 0") (auto simp: feed_def dest: strict_step_pending split: option.splits)
qed

lemma three_conts:
  assumes "cont_byte b" "cont_byte b'" "cont_byte b''" "s < 8"
  shows "feed (feed (feed s b) b') b'' = 0"
proof -
  have le: "feed s b \<le> 2" using feed_cont [OF assms(1,4)] by (auto simp: utf8_missing_def split: if_splits)
  then have le': "feed (feed s b) b' \<le> 1"
    using feed_cont [OF assms(2), of "feed s b"] by (auto simp: utf8_missing_def split: if_splits)
  then show ?thesis
    using feed_cont [OF assms(3), of "feed (feed s b) b'"] by (auto simp: utf8_missing_def split: if_splits)
qed

lemma feed_sync:
  assumes "s < 8" "t < 8"
  shows "feed (feed (feed s b) b') b'' = feed (feed (feed t b) b') b''"
proof (cases "cont_byte b \<and> cont_byte b' \<and> cont_byte b''")
  case True
  with assms show ?thesis by (simp add: three_conts)
next
  case False
  then show ?thesis by (metis feed_noncont)
qed

lemma next_state_sync:
  assumes "3 \<le> length bs" "s < 8" "t < 8"
  shows "next_state s bs = next_state t bs"
proof -
  obtain b b' b'' r where "bs = b # b' # b'' # r"
    using assms(1) by (auto simp: numeral_3_eq_3 Suc_le_length_iff)
  then show ?thesis using feed_sync [OF assms(2,3), of b b' b''] by simp
qed


text \<open>
  C4. The seven-state strict decoder accepts a byte string and ends at a character boundary
  exactly when the string is the UTF-8 encoding of a list of Unicode scalar values (no
  overlong forms, no surrogates, nothing above U+10FFFF).
\<close>

theorem strict_decoder_accepts_utf8:
  "(valid_from 0 bs \<and> next_state 0 bs = 0)
    \<longleftrightarrow> (\<exists>cs. list_all is_scalar cs \<and> bs = concat (map utf8_encode cs))"
  using strict_run_complete [of bs] next_state_run [of 0 bs]
  by (auto simp: valid_from_run list_all_iff)

end
