(* ===== verification/Utf8_Guard.thy ===== *)
theory Utf8_Guard
  imports Utf8_Decoder
begin

unbundle bit_operations_syntax

text \<open>
  The sampler's UTF-8 continuation guard (\<open>src/src/tp4/glm53_utf8_guard.py\<close>): the byte-level
  BPE alphabet and the per-token byte table, the validity and next-state tables, the fold pairs,
  and the two kernels as functions of one row: \<open>utf8_state_row\<close> is \<open>_utf8_state_kernel\<close>
  (state of the row, support check, folding) and \<open>utf8_mask_block\<close> is \<open>_utf8_mask_kernel\<close>
  (one vocabulary block of one row). A logit is minus infinity or a finite value of an abstract
  type; the device's \<open>max\<close>/\<open>log\<close>/\<open>exp\<close> combination is the parameter \<open>lae\<close>. NaN logits
  are not modelled.
\<close>

section \<open>The byte-level alphabet and the token table\<close>

definition b2u_base :: "nat list" where
  "b2u_base = [33..<127] @ [161..<173] @ [174..<256]"

fun b2u_extend :: "nat list \<Rightarrow> nat \<Rightarrow> nat list \<Rightarrow> nat list \<Rightarrow> nat list \<times> nat list" where
  "b2u_extend [] n bs cs = (bs, cs)"
| "b2u_extend (b # rest) n bs cs =
     (if b \<notin> set bs then b2u_extend rest (Suc n) (bs @ [b]) (cs @ [256 + n])
      else b2u_extend rest n bs cs)"

definition bytes_to_unicode :: "(nat \<times> nat) list" where
  "bytes_to_unicode =
     (case b2u_extend [0..<256] 0 b2u_base b2u_base of (bs, cs) \<Rightarrow> zip bs cs)"

text \<open>\<open>tokenizer.json\<close> as far as the source reads it: the model's vocabulary (token string as
  code points, id) and the added tokens.\<close>

record added_token =
  added_id :: nat
  added_special :: bool
  added_content :: "nat list"

record tokenizer =
  tok_vocab :: "(nat list \<times> nat) list"
  tok_added :: "added_token list"

definition byte_decoder :: "nat \<rightharpoonup> nat" where
  "byte_decoder = map_of (map prod.swap bytes_to_unicode)"

definition put_vocab :: "nat \<Rightarrow> nat list option list \<Rightarrow> nat list \<times> nat \<Rightarrow> nat list option list" where
  "put_vocab V out e =
     (case e of (s, i) \<Rightarrow> if i < V then out[i := those (map byte_decoder s)] else out)"

definition put_added :: "nat \<Rightarrow> nat list option list \<Rightarrow> added_token \<Rightarrow> nat list option list" where
  "put_added V out a =
     (if added_id a < V
      then out[added_id a :=
                 (if added_special a then None
                  else Some (concat (map utf8_encode (added_content a))))]
      else out)"

definition token_bytes :: "tokenizer \<Rightarrow> nat \<Rightarrow> nat list option list" where
  "token_bytes t V =
     foldl (put_added V) (foldl (put_vocab V) (replicate V None) (tok_vocab t)) (tok_added t)"

section \<open>The tables\<close>

definition valid_bits :: "nat list option \<Rightarrow> nat" where
  "valid_bits d =
     (case d of None \<Rightarrow> 1
      | Some data \<Rightarrow> horner_sum of_bool 2 (map (\<lambda>s. valid_from s data) [0..<8]))"

definition next_entry :: "nat \<Rightarrow> nat list option \<Rightarrow> nat" where
  "next_entry s d = (case d of None \<Rightarrow> 0 | Some data \<Rightarrow> next_state s data)"

definition build_table :: "nat list option list \<Rightarrow> nat list \<times> nat list list" where
  "build_table tb = (map valid_bits tb, map (\<lambda>s. map (next_entry s) tb) [0..<8])"

definition first_id :: "nat list option list \<Rightarrow> nat list \<Rightarrow> nat option" where
  "first_id tb d = map_option fst (find (\<lambda>e. snd e = Some d) (enumerate 0 tb))"

definition cont_prefix :: "nat list \<Rightarrow> nat" where
  "cont_prefix d = length (takeWhile cont_byte d)"

definition fold_entries ::
  "nat list option list \<Rightarrow> nat list \<Rightarrow> nat list list \<Rightarrow> nat \<Rightarrow> nat list \<Rightarrow> (nat \<times> nat \<times> int) list" where
  "fold_entries tb valid nxt i d =
     (let k = cont_prefix d in
      if 0 < k \<and> k < length d
      then (case first_id tb (take k d) of
          None \<Rightarrow> []
        | Some p \<Rightarrow>
            map (\<lambda>s. (i, p, int s))
              (filter (\<lambda>s. bit (valid ! i) s \<and> utf8_missing s = Some k \<and> nxt ! s ! i \<noteq> 0) [1..<8]))
      else [])"

definition fold_pairs ::
  "nat list option list \<Rightarrow> nat list \<Rightarrow> nat list list \<Rightarrow> (nat \<times> nat \<times> int) list" where
  "fold_pairs tb valid nxt =
     concat (map (\<lambda>(i, e). case e of None \<Rightarrow> [] | Some d \<Rightarrow> fold_entries tb valid nxt i d)
       (enumerate 0 tb))"

section \<open>The guard's state\<close>

record guard =
  g_vocab :: nat
  g_valid :: "nat list"
  g_next :: "nat list list"
  g_folds :: "(nat \<times> nat \<times> int) list"
  g_valid_ids :: "nat list list"
  g_valid_n :: "nat list"
  g_binv :: "nat list"
  g_n_binv :: nat
  g_mode :: nat
  g_greedy :: bool
  g_conflicts :: nat
  g_calls :: nat
  g_reported :: nat
  g_last_states :: "int list option"

definition maxv :: nat where
  "maxv = 256"

definition state_ids :: "nat list \<Rightarrow> nat \<Rightarrow> nat \<Rightarrow> nat list" where
  "state_ids valid V st = (if st = 0 then [] else filter (\<lambda>i. bit (valid ! i) st) [0..<V])"

definition guard_record :: "nat list option list \<Rightarrow> bool \<Rightarrow> nat \<Rightarrow> bool \<Rightarrow> guard" where
  "guard_record tb fold_on mode greedy =
     (let V = length tb;
          (valid, nxt) = build_table tb;
          pairs = (if fold_on then fold_pairs tb valid nxt else []);
          ids = map (state_ids valid V) [0..<8];
          binv = filter (\<lambda>i. \<not> bit (valid ! i) 0) [0..<V]
      in \<lparr>g_vocab = V, g_valid = valid, g_next = nxt,
          g_folds = (if pairs = [] then [(0, 0, - 1)] else pairs),
          g_valid_ids = map (\<lambda>x. x @ replicate (maxv - length x) 0) ids,
          g_valid_n = map length ids,
          g_binv = (if binv = [] then [0] else binv),
          g_n_binv = max 1 (length binv),
          g_mode = mode, g_greedy = greedy,
          g_conflicts = 0, g_calls = 0, g_reported = 0, g_last_states = None\<rparr>)"

definition guard_init :: "nat list option list \<Rightarrow> bool \<Rightarrow> nat \<Rightarrow> bool \<Rightarrow> guard py" where
  "guard_init tb fold_on mode greedy =
     (let g = guard_record tb fold_on mode greedy
      in py_guard (\<not> list_all (\<lambda>n. n \<le> maxv) (g_valid_n g)) AssertionError (Inr g))"

section \<open>The state kernel, one row\<close>

datatype 'l logit = NegInf | Fin 'l

text \<open>The table lookup of one token id, out-of-vocabulary ids resetting to the clean state.\<close>

definition tok_step :: "guard \<Rightarrow> nat \<Rightarrow> int \<Rightarrow> nat" where
  "tok_step g s tok =
     (if 0 \<le> tok \<and> tok < int (g_vocab g) then g_next g ! s ! nat tok else 0)"

definition committed_state :: "guard \<Rightarrow> int list \<Rightarrow> nat" where
  "committed_state g toks =
     foldl (\<lambda>s i. let pos = int (length toks) - 4 + int i
                  in if 0 \<le> pos then tok_step g s (toks ! nat pos) else s) 0 [0..<4]"

definition row_state :: "guard \<Rightarrow> nat \<Rightarrow> int list \<Rightarrow> int list \<Rightarrow> nat \<Rightarrow> nat \<Rightarrow> nat" where
  "row_state g max_drafts toks input_ids row j =
     foldl (\<lambda>s i. if i \<le> j then tok_step g s (input_ids ! (row - j + i)) else s)
       (committed_state g toks) [1..<max_drafts + 1]"

definition fold_one ::
  "('l logit \<Rightarrow> 'l logit \<Rightarrow> 'l logit) \<Rightarrow> nat \<Rightarrow> 'l logit list \<times> int \<Rightarrow> nat \<times> nat \<times> int
   \<Rightarrow> 'l logit list \<times> int" where
  "fold_one lae out acc f =
     (case acc of (x, folded) \<Rightarrow> case f of (mt, pt, fs) \<Rightarrow>
        if fs = int out \<and> x ! mt \<noteq> NegInf
        then (x[pt := lae (x ! mt) (x ! pt), mt := NegInf], 16)
        else (x, folded))"

definition has_support :: "guard \<Rightarrow> nat \<Rightarrow> 'l logit list \<Rightarrow> bool" where
  "has_support g out x =
     list_ex (\<lambda>i. x ! i \<noteq> NegInf) (take (g_valid_n g ! out) (g_valid_ids g ! out))"

text \<open>Result: the audit state, the mask code, the row's logits and the conflicts it adds.
  The temperature is \<open>None\<close> when it is not a number.\<close>

definition utf8_state_row ::
  "guard \<Rightarrow> ('l logit \<Rightarrow> 'l logit \<Rightarrow> 'l logit) \<Rightarrow> nat \<Rightarrow> rat option \<Rightarrow> 'l logit list
   \<Rightarrow> int \<times> nat \<times> 'l logit list \<times> nat" where
  "utf8_state_row g lae s temp x =
     (let out = (if g_greedy g then s else if temp = Some 0 then 0 else s);
          guarded = (if g_greedy g then temp \<noteq> None else temp \<noteq> Some 0);
          code = (if g_mode g = 2 \<and> guarded \<and> out = 0 then 8 else 0)
      in if out = 0 then (0, code, x, 0)
         else if has_support g out x
         then (let (x', folded) = foldl (fold_one lae out) (x, 0) (g_folds g)
               in (int out OR folded, out, x', 0))
         else (- int out, code, x, 1))"

section \<open>The mask kernel, one row and one vocabulary block\<close>

definition utf8_mask_block :: "guard \<Rightarrow> nat \<Rightarrow> nat \<Rightarrow> nat \<Rightarrow> 'l logit list \<Rightarrow> 'l logit list" where
  "utf8_mask_block g B code blk x =
     (let x1 = (if 0 < code \<and> code < 8
                then map (\<lambda>(i, v). if blk * B \<le> i \<and> i < blk * B + B \<and> i < g_vocab g
                                      \<and> \<not> bit (g_valid g ! i) code then NegInf else v)
                       (enumerate 0 x)
                else x)
      in if code = 8 \<and> blk = 0
         then foldl (\<lambda>y i. y[i := NegInf]) x1 (take (g_n_binv g) (g_binv g))
         else x1)"

definition utf8_mask_row :: "guard \<Rightarrow> nat \<Rightarrow> nat \<Rightarrow> 'l logit list \<Rightarrow> 'l logit list" where
  "utf8_mask_row g B code x =
     foldl (\<lambda>y blk. utf8_mask_block g B code blk y) x [0..<nat (cdiv (int (g_vocab g)) (int B))]"

section \<open>The launch\<close>

text \<open>One logits row with what its programs load: the request's committed tokens and
  temperature, the row's index and local position.\<close>

record 'l guard_row =
  r_logits :: "'l logit list"
  r_toks :: "int list"
  r_temp :: "rat option"
  r_pos :: nat

definition guard_row ::
  "guard \<Rightarrow> ('l logit \<Rightarrow> 'l logit \<Rightarrow> 'l logit) \<Rightarrow> nat \<Rightarrow> int list \<Rightarrow> nat \<Rightarrow> 'l guard_row
   \<Rightarrow> int \<times> 'l logit list \<times> nat" where
  "guard_row g lae max_drafts input_ids row r =
     (let s = row_state g max_drafts (r_toks r) input_ids row (r_pos r);
          (st, code, x, c) = utf8_state_row g lae s (r_temp r) (r_logits r)
      in (st, utf8_mask_row g 8192 code x, c))"

definition guard_apply ::
  "guard \<Rightarrow> ('l logit \<Rightarrow> 'l logit \<Rightarrow> 'l logit) \<Rightarrow> nat \<Rightarrow> int list \<Rightarrow> 'l guard_row list
   \<Rightarrow> guard \<times> int list \<times> 'l logit list list" where
  "guard_apply g lae max_drafts input_ids rows =
     (let res = map (\<lambda>(row, r). guard_row g lae max_drafts input_ids row r) (enumerate 0 rows);
          states = map fst res;
          conflicts = g_conflicts g + sum_list (map (snd \<circ> snd) res);
          calls = Suc (g_calls g);
          reported = (if calls mod 256 = 0 \<and> g_reported g < conflicts then conflicts
                      else g_reported g)
      in (g\<lparr>g_conflicts := conflicts, g_last_states := Some states, g_calls := calls,
            g_reported := reported\<rparr>,
          states, map (fst \<circ> snd) res))"


section \<open>The table laws\<close>

text \<open>
  What the kernels rely on: the tables they load are those of the byte table \<open>tb\<close>. The kernel
  lemmas are proved under these laws and reused on every record the constructor builds.
\<close>

locale guard_tables =
  fixes g :: guard and tb :: "nat list option list"
  assumes vocab: "g_vocab g = length tb"
    and valid_bit: "i < length tb \<Longrightarrow> s < 8 \<Longrightarrow>
      bit (g_valid g ! i) s \<longleftrightarrow> (case tb ! i of None \<Rightarrow> s = 0 | Some d \<Rightarrow> valid_from s d)"
    and next_tab: "i < length tb \<Longrightarrow> s < 8 \<Longrightarrow> g_next g ! s ! i = next_entry s (tb ! i)"
    and support_ids: "0 < s \<Longrightarrow> s < 8 \<Longrightarrow>
      set (take (g_valid_n g ! s) (g_valid_ids g ! s)) = {i. i < length tb \<and> bit (g_valid g ! i) s}"
    and fold_entry: "(i, p, c) \<in> set (g_folds g) \<Longrightarrow> c = int s \<Longrightarrow> 0 < s \<Longrightarrow>
      i < length tb \<and> p < length tb \<and> bit (g_valid g ! i) s
      \<and> (\<exists>d. tb ! i = Some d \<and> cont_prefix d < length d \<and> utf8_missing s = Some (cont_prefix d)
              \<and> tb ! p = Some (take (cont_prefix d) d))"
begin
end

lemma bit_valid_bits:
  "s < 8 \<Longrightarrow> bit (valid_bits d) s \<longleftrightarrow> (case d of None \<Rightarrow> s = 0 | Some data \<Rightarrow> valid_from s data)"
  by (simp add: valid_bits_def bit_horner_sum_bit_iff bit_Suc_0_iff split: option.split)

lemma first_id_Some: "first_id tb d = Some p \<Longrightarrow> p < length tb \<and> tb ! p = Some d"
  by (auto simp: first_id_def find_Some_iff enumerate_eq_zip)

lemma first_id_ex: "Some d \<in> set tb \<Longrightarrow> \<exists>p. first_id tb d = Some p"
proof -
  assume "Some d \<in> set tb"
  then obtain i where "i < length tb" "tb ! i = Some d"
    by (auto simp: in_set_conv_nth)
  then have "(i, Some d) \<in> set (enumerate 0 tb)"
    by (simp add: in_set_enumerate_eq)
  then have "find (\<lambda>e. snd e = Some d) (enumerate 0 tb) \<noteq> None"
    unfolding find_None_iff by (intro notI) (auto dest: spec [of _ "(i, Some d)"])
  then show ?thesis by (auto simp: first_id_def)
qed

lemma fold_entries_None: "first_id tb (take (cont_prefix d) d) = None \<Longrightarrow> fold_entries tb valid nxt i d = []"
  unfolding fold_entries_def Let_def by simp

lemma fold_entries_short: "\<not> (0 < cont_prefix d \<and> cont_prefix d < length d) \<Longrightarrow> fold_entries tb valid nxt i d = []"
  unfolding fold_entries_def Let_def by (simp only: if_False)

lemma fold_entries_Some:
  "0 < cont_prefix d \<and> cont_prefix d < length d \<Longrightarrow> first_id tb (take (cont_prefix d) d) = Some q \<Longrightarrow>
   fold_entries tb valid nxt i d = map (\<lambda>s. (i, q, int s))
     (filter (\<lambda>s. bit (valid ! i) s \<and> utf8_missing s = Some (cont_prefix d) \<and> nxt ! s ! i \<noteq> 0) [1..<8])"
  unfolding fold_entries_def Let_def by simp

definition fold_at :: "nat list \<Rightarrow> nat list list \<Rightarrow> nat \<Rightarrow> nat list \<Rightarrow> nat \<Rightarrow> bool" where
  "fold_at valid nxt i d s \<longleftrightarrow> 0 < s \<and> s < 8 \<and> bit (valid ! i) s
     \<and> utf8_missing s = Some (cont_prefix d) \<and> nxt ! s ! i \<noteq> 0"

lemma fold_entries_iff:
  "(j, p, c) \<in> set (fold_entries tb valid nxt i d) \<longleftrightarrow>
     j = i \<and> 0 < cont_prefix d \<and> cont_prefix d < length d
     \<and> first_id tb (take (cont_prefix d) d) = Some p
     \<and> (\<exists>s. c = int s \<and> fold_at valid nxt i d s)"
proof (cases "(0 < cont_prefix d \<and> cont_prefix d < length d) \<and> first_id tb (take (cont_prefix d) d) \<noteq> None")
  case True
  then obtain q where "first_id tb (take (cont_prefix d) d) = Some q" by blast
  with True show ?thesis
    by (auto simp: fold_entries_Some fold_at_def image_iff)
next
  case False
  then have "fold_entries tb valid nxt i d = []"
    using fold_entries_None fold_entries_short by blast
  with False show ?thesis by auto
qed

lemma fold_pairs_iff:
  "(i, p, c) \<in> set (fold_pairs tb valid nxt) \<longleftrightarrow>
     (\<exists>d. i < length tb \<and> tb ! i = Some d \<and> (i, p, c) \<in> set (fold_entries tb valid nxt i d))"
proof
  assume "(i, p, c) \<in> set (fold_pairs tb valid nxt)"
  then obtain j d where "j < length tb" "tb ! j = Some d" "(i, p, c) \<in> set (fold_entries tb valid nxt j d)"
    by (auto simp: fold_pairs_def in_set_enumerate_eq split: option.splits)
  then show "\<exists>d. i < length tb \<and> tb ! i = Some d \<and> (i, p, c) \<in> set (fold_entries tb valid nxt i d)"
    by (metis fold_entries_iff)
next
  assume "\<exists>d. i < length tb \<and> tb ! i = Some d \<and> (i, p, c) \<in> set (fold_entries tb valid nxt i d)"
  then show "(i, p, c) \<in> set (fold_pairs tb valid nxt)"
    by (force simp: fold_pairs_def in_set_enumerate_eq)
qed

lemma guard_record_tables:
  "guard_tables (guard_record tb fold_on mode greedy) tb"
proof
  let ?g = "guard_record tb fold_on mode greedy"
  show "g_vocab ?g = length tb"
    by (simp add: guard_record_def build_table_def Let_def)
  show vb: "bit (g_valid ?g ! i) s \<longleftrightarrow> (case tb ! i of None \<Rightarrow> s = 0 | Some d \<Rightarrow> valid_from s d)"
    if "i < length tb" "s < 8" for i s
    using that by (simp add: guard_record_def build_table_def Let_def bit_valid_bits)
  show "g_next ?g ! s ! i = next_entry s (tb ! i)" if "i < length tb" "s < 8" for i s
    using that by (simp add: guard_record_def build_table_def Let_def)
  show "set (take (g_valid_n ?g ! s) (g_valid_ids ?g ! s)) = {i. i < length tb \<and> bit (g_valid ?g ! i) s}"
    if "0 < s" "s < 8" for s
    using that by (auto simp: guard_record_def build_table_def Let_def state_ids_def)
  show "i < length tb \<and> p < length tb \<and> bit (g_valid ?g ! i) s
      \<and> (\<exists>d. tb ! i = Some d \<and> cont_prefix d < length d \<and> utf8_missing s = Some (cont_prefix d)
              \<and> tb ! p = Some (take (cont_prefix d) d))"
    if "(i, p, c) \<in> set (g_folds ?g)" "c = int s" "0 < s" for i p c s
  proof -
    have "(i, p, c) \<in> set (fold_pairs tb (g_valid ?g) (g_next ?g))"
      using that by (auto simp: guard_record_def build_table_def Let_def split: if_splits)
    with that show ?thesis by (auto simp: fold_pairs_iff fold_entries_iff fold_at_def dest: first_id_Some)
  qed
qed

section \<open>Rows as decoder runs\<close>

definition seq_step :: "nat list option list \<Rightarrow> nat \<Rightarrow> int \<Rightarrow> nat" where
  "seq_step tb s tok =
     (if 0 \<le> tok \<and> tok < int (length tb) then next_entry s (tb ! nat tok) else 0)"

definition seq_state :: "nat list option list \<Rightarrow> nat \<Rightarrow> int list \<Rightarrow> nat" where
  "seq_state tb s toks = foldl (seq_step tb) s toks"

lemma next_entry_less_8: "s < 8 \<Longrightarrow> next_entry s d < 8"
  by (simp add: next_entry_def next_state_less_8 split: option.split)

lemma seq_step_less_8: "s < 8 \<Longrightarrow> seq_step tb s tok < 8"
  by (simp add: seq_step_def next_entry_less_8)

lemma seq_state_less_8: "s < 8 \<Longrightarrow> seq_state tb s toks < 8"
  unfolding seq_state_def by (induction toks arbitrary: s) (simp_all add: seq_step_less_8)

lemma seq_state_append: "seq_state tb s (xs @ ys) = seq_state tb (seq_state tb s xs) ys"
  by (simp add: seq_state_def)

text \<open>Two runs over the same tokens have merged, or both have decoded the same bytes, at least
  one per token.\<close>

lemma seq_state_bytes:
  assumes "Some [] \<notin> set tb"
  shows "seq_state tb s l = seq_state tb t l
    \<or> (\<exists>d. length l \<le> length d \<and> seq_state tb s l = next_state s d \<and> seq_state tb t l = next_state t d)"
proof (induction l rule: rev_induct)
  case Nil
  show ?case by (auto simp: seq_state_def intro: exI [of _ "[]"])
next
  case (snoc tok l)
  show ?case
  proof (cases "0 \<le> tok \<and> tok < int (length tb) \<and> tb ! nat tok \<noteq> None")
    case False
    then have "seq_step tb a tok = 0" for a
      by (auto simp: seq_step_def next_entry_def)
    then show ?thesis by (simp add: seq_state_def)
  next
    case True
    then obtain e where e: "tb ! nat tok = Some e" by auto
    with True have step: "seq_step tb a tok = next_state a e" for a
      by (simp add: seq_step_def next_entry_def)
    have "Some e \<in> set tb" using True e by (metis nat_less_iff nth_mem)
    with assms have "e \<noteq> []" by auto
    then have len: "1 \<le> length e" by (cases e) auto
    from snoc show ?thesis
    proof (elim disjE exE conjE)
      assume "seq_state tb s l = seq_state tb t l"
      then show ?thesis by (simp add: seq_state_def)
    next
      fix d assume d: "length l \<le> length d" "seq_state tb s l = next_state s d"
        "seq_state tb t l = next_state t d"
      have "length (l @ [tok]) \<le> length (d @ e)" using d(1) len by simp
      moreover have "seq_state tb a (l @ [tok]) = next_state a (d @ e)"
        if "seq_state tb a l = next_state a d" for a
        using that by (simp add: seq_state_def step next_state_append)
      ultimately show ?thesis using d(2,3) by blast
    qed
  qed
qed

lemma seq_state_sync:
  assumes "Some [] \<notin> set tb" "3 \<le> length l" "s < 8" "t < 8"
  shows "seq_state tb s l = seq_state tb t l"
  using seq_state_bytes [OF assms(1), of s l t] next_state_sync assms(2-4)
  by (metis order_trans)

definition committed_via :: "(nat \<Rightarrow> int \<Rightarrow> nat) \<Rightarrow> int list \<Rightarrow> nat" where
  "committed_via f toks = foldl (\<lambda>s i. let pos = int (length toks) - 4 + int i
                  in if 0 \<le> pos then f s (toks ! nat pos) else s) 0 [0..<4]"

lemma committed_last4: "committed_via f toks = foldl f 0 (drop (length toks - 4) toks)"
proof (cases "4 \<le> length toks")
  case True
  define p where "p = take (length toks - 4) toks"
  obtain a b c d where q: "drop (length toks - 4) toks = [a, b, c, d]"
  proof -
    have "length (drop (length toks - 4) toks) = Suc (Suc (Suc (Suc 0)))" using True by simp
    then show thesis using that by (auto simp only: length_Suc_conv length_0_conv)
  qed
  have t: "toks = p @ [a, b, c, d]" unfolding p_def by (metis append_take_drop_id q)
  have l: "length toks = length p + 4" using t by simp
  have n: "nat (int (length p) + int i) = length p + i" for i by simp
  have "toks ! length p = a" "toks ! Suc (length p) = b" "toks ! Suc (Suc (length p)) = c"
    "toks ! Suc (Suc (Suc (length p))) = d"
    by (simp_all add: t nth_append)
  then show ?thesis unfolding committed_via_def q
    using n [of 0] n [of 1] n [of 2] n [of 3]
    by (simp add: l Let_def upt_rec numeral_2_eq_2 numeral_3_eq_3 )
next
  case False
  then consider "toks = []" | a where "toks = [a]" | a b where "toks = [a, b]"
    | a b c where "toks = [a, b, c]"
    by (auto simp: not_le neq_Nil_conv numeral_nat less_Suc_eq length_Suc_conv)
  then show ?thesis
    by cases (simp_all add: committed_via_def Let_def upt_rec)
qed

lemma committed_state_via: "committed_state g toks = committed_via (tok_step g) toks"
  by (simp add: committed_state_def committed_via_def)

lemma foldl_guarded:
  assumes "j \<le> n"
  shows "foldl (\<lambda>s i. if i \<le> j then f s (h i) else s) s [1..<n + 1] = foldl f s (map h [1..<j + 1])"
proof -
  have split: "[1..<n + 1] = [1..<j + 1] @ [j + 1..<n + 1]"
    using upt_add_eq_append [of 1 "j + 1" "n - j"] assms by simp
  have "foldl (\<lambda>s i. if i \<le> j then f s (h i) else s) t [j + 1..<m] = t" for t m
    by (induction m) auto
  moreover have "foldl (\<lambda>s i. if i \<le> j then f s (h i) else s) t [1..<k + 1] = foldl f t (map h [1..<k + 1])"
    if "k \<le> j" for t k
    using that by (induction k) auto
  ultimately show ?thesis unfolding split by simp
qed

context guard_tables
begin

lemma tok_step_seq: "s < 8 \<Longrightarrow> tok_step g s tok = seq_step tb s tok"
  using next_tab [of "nat tok" s] by (auto simp: tok_step_def seq_step_def vocab nat_less_iff)

lemma foldl_tok_step: "s < 8 \<Longrightarrow> foldl (tok_step g) s l = seq_state tb s l"
  unfolding seq_state_def
  by (induction l arbitrary: s) (simp_all add: tok_step_seq seq_step_less_8)

lemma committed_state_seq:
  assumes "Some [] \<notin> set tb"
  shows "committed_state g toks = seq_state tb 0 toks"
proof -
  let ?k = "length toks - 4"
  have "committed_state g toks = seq_state tb 0 (drop ?k toks)"
    by (simp add: committed_state_via committed_last4 foldl_tok_step)
  also have "\<dots> = seq_state tb (seq_state tb 0 (take ?k toks)) (drop ?k toks)"
  proof (cases "4 \<le> length toks")
    case True
    then show ?thesis using assms by (intro seq_state_sync) (auto simp: seq_state_less_8)
  next
    case False
    then show ?thesis by (simp add: seq_state_def)
  qed
  also have "\<dots> = seq_state tb 0 toks"
    by (metis append_take_drop_id seq_state_append)
  finally show ?thesis .
qed

lemma row_state_seq:
  assumes "Some [] \<notin> set tb" "j \<le> max_drafts"
  shows "row_state g max_drafts toks input_ids row j
    = seq_state tb 0 (toks @ map (\<lambda>i. input_ids ! (row - j + i)) [1..<j + 1])"
  unfolding row_state_def foldl_guarded [OF assms(2), of "tok_step g"]
  by (simp add: committed_state_seq assms(1) foldl_tok_step seq_state_append seq_state_less_8)

end

section \<open>Folding and masking one row\<close>


lemma length_mask_block [simp]: "length (utf8_mask_block g B code blk x) = length x"
proof -
  have "length (foldl (\<lambda>y i. y[i := NegInf]) y is) = length y" for y :: "'a logit list" and "is"
    by (induction "is" arbitrary: y) auto
  then show ?thesis by (simp add: utf8_mask_block_def Let_def)
qed

lemma mask_block_nth:
  assumes "0 < code" "code < 8" "i < length x"
  shows "utf8_mask_block g B code blk x ! i =
    (if blk * B \<le> i \<and> i < blk * B + B \<and> i < g_vocab g \<and> \<not> bit (g_valid g ! i) code
     then NegInf else x ! i)"
  using assms by (simp add: utf8_mask_block_def Let_def nth_enumerate_eq)

definition mask_blocks :: "guard \<Rightarrow> nat \<Rightarrow> nat \<Rightarrow> nat \<Rightarrow> 'l logit list \<Rightarrow> 'l logit list" where
  "mask_blocks g B code n x = foldl (\<lambda>y blk. utf8_mask_block g B code blk y) x [0..<n]"

lemma length_mask_blocks [simp]: "length (mask_blocks g B code n x) = length x"
  by (induction n) (simp_all add: mask_blocks_def)

lemma mask_blocks_nth:
  assumes "0 < code" "code < 8" "i < length x"
  shows "mask_blocks g B code n x ! i =
    (if i < n * B \<and> i < g_vocab g \<and> \<not> bit (g_valid g ! i) code then NegInf else x ! i)"
proof (induction n)
  case 0
  then show ?case by (simp add: mask_blocks_def)
next
  case (Suc n)
  have "mask_blocks g B code (Suc n) x = utf8_mask_block g B code n (mask_blocks g B code n x)"
    by (simp add: mask_blocks_def)
  then show ?case using assms Suc by (auto simp: mask_block_nth add.commute)
qed

lemma utf8_mask_row_blocks:
  "utf8_mask_row g B code x = mask_blocks g B code (nat (cdiv (int (g_vocab g)) (int B))) x"
  by (simp add: utf8_mask_row_def mask_blocks_def)

lemma blocks_cover: "0 < B \<Longrightarrow> V \<le> nat (cdiv (int V) (int B)) * B"
proof -
  assume B: "0 < B"
  have "(- int V) div int B * int B \<le> - int V"
    using minus_mod_eq_div_mult [of "- int V" "int B"] pos_mod_sign [of "int B" "- int V"] B by linarith
  then have "int V \<le> cdiv (int V) (int B) * int B" by (simp add: cdiv_def)
  also have "\<dots> \<le> int (nat (cdiv (int V) (int B)) * B)" by (simp add: mult_right_mono)
  finally show ?thesis by linarith
qed

text \<open>The block grid covers the vocabulary: a pending row loses exactly its invalid tokens.\<close>

lemma utf8_mask_row_nth:
  assumes "0 < B" "0 < code" "code < 8" "i < length x"
  shows "utf8_mask_row g B code x ! i =
    (if i < g_vocab g \<and> \<not> bit (g_valid g ! i) code then NegInf else x ! i)"
  using blocks_cover [OF assms(1), of "g_vocab g"]
  by (auto simp: utf8_mask_row_blocks mask_blocks_nth assms)

lemma length_utf8_mask_row [simp]: "length (utf8_mask_row g B code x) = length x"
  by (simp add: utf8_mask_row_blocks)

lemma utf8_mask_row_0: "utf8_mask_row g B 0 x = x"
proof -
  have "mask_blocks g B 0 n x = x" for n
    by (induction n) (simp_all add: mask_blocks_def utf8_mask_block_def)
  then show ?thesis by (simp add: utf8_mask_row_blocks)
qed

lemma cont_prefix_take: "cont_prefix (take (cont_prefix d) d) = length (take (cont_prefix d) d)"
  by (simp add: cont_prefix_def takeWhile_eq_take [symmetric] )

lemma valid_from_take: "valid_from s d \<Longrightarrow> valid_from s (take k d)"
  by (induction s d arbitrary: k rule: valid_from.induct) (auto simp: take_Cons split: option.splits nat.splits)

lemma length_fold_one [simp]: "length (fst (fold_one lae out acc f)) = length (fst acc)"
  by (cases acc; cases f) (simp add: fold_one_def)

definition fold_row ::
  "('l logit \<Rightarrow> 'l logit \<Rightarrow> 'l logit) \<Rightarrow> nat \<Rightarrow> 'l logit list \<Rightarrow> (nat \<times> nat \<times> int) list \<Rightarrow> 'l logit list \<times> int" where
  "fold_row lae out x fs = foldl (fold_one lae out) (x, 0) fs"

lemma fold_row_snoc: "fold_row lae out x (fs @ [f]) = fold_one lae out (fold_row lae out x fs) f"
  by (simp add: fold_row_def)

lemma length_fold_row [simp]: "length (fst (fold_row lae out x fs)) = length x"
  by (induction fs rule: rev_induct) (simp_all add: fold_row_snoc, simp add: fold_row_def)

definition tok_ok :: "guard \<Rightarrow> nat \<Rightarrow> nat \<Rightarrow> bool" where
  "tok_ok g s i \<longleftrightarrow> i < g_vocab g \<and> bit (g_valid g ! i) s"

context guard_tables
begin

lemma tok_ok_data: "tok_ok g s i \<Longrightarrow> 0 < s \<Longrightarrow> s < 8 \<Longrightarrow> \<exists>d. tb ! i = Some d \<and> valid_from s d"
  using valid_bit [of i s] by (auto simp: tok_ok_def vocab split: option.splits)

lemma fold_prefix:
  assumes "(i, p, int s) \<in> set (g_folds g)" "0 < s" "s < 8"
  shows "tok_ok g s p \<and> (\<forall>q c. (p, q, int s) \<notin> set (g_folds g))"
proof -
  obtain d where d: "i < length tb" "p < length tb" "bit (g_valid g ! i) s" "tb ! i = Some d"
    "cont_prefix d < length d" "tb ! p = Some (take (cont_prefix d) d)"
    using fold_entry [OF assms(1) refl assms(2)] by blast
  have "valid_from s d" using valid_bit [OF d(1) assms(3)] d(3,4) by simp
  then have "tok_ok g s p"
    using valid_bit [OF d(2) assms(3)] d(2,6) by (simp add: tok_ok_def vocab valid_from_take)
  moreover have "(p, q, int s) \<notin> set (g_folds g)" for q
    using fold_entry [of p q "int s" s] assms(2) d(6) cont_prefix_take [of d] by auto
  ultimately show ?thesis by blast
qed

lemma fold_row_sound:
  assumes lae: "\<And>a b. a \<noteq> NegInf \<Longrightarrow> lae a b \<noteq> NegInf"
    and s: "0 < s" "s < 8" and len: "length x = length tb"
    and sup: "\<exists>i. tok_ok g s i \<and> x ! i \<noteq> NegInf"
    and fs: "set fs \<subseteq> set (g_folds g)"
  shows "(\<exists>i. tok_ok g s i \<and> fst (fold_row lae s x fs) ! i \<noteq> NegInf)
    \<and> (\<forall>i p. (i, p, int s) \<in> set fs \<longrightarrow> fst (fold_row lae s x fs) ! i = NegInf)"
  using fs
proof (induction fs rule: rev_induct)
  case Nil
  then show ?case using sup by (simp add: fold_row_def)
next
  case (snoc f fs)
  obtain mt pt c where f: "f = (mt, pt, c)" by (cases f)
  obtain y a where y: "fold_row lae s x fs = (y, a)" by fastforce
  from snoc y have IH: "\<exists>i. tok_ok g s i \<and> y ! i \<noteq> NegInf"
    "\<And>i p. (i, p, int s) \<in> set fs \<Longrightarrow> y ! i = NegInf" by auto
  have ly: "length y = length tb" using length_fold_row [of lae s x fs] y len by simp
  show ?case
  proof (cases "c = int s \<and> y ! mt \<noteq> NegInf")
    case False
    then have "fold_row lae s x (fs @ [f]) = (y, a)"
      using False y f by (auto simp: fold_row_snoc fold_one_def)
    then show ?thesis using IH False f by auto
  next
    case True
    then have mem: "(mt, pt, int s) \<in> set (g_folds g)" using snoc(2) f by auto
    note pt = fold_prefix [OF mem s]
    then have ne: "pt \<noteq> mt" using mem by auto
    have mt: "mt < length tb" using fold_entry [OF mem refl s(1)] by blast
    have row: "fst (fold_row lae s x (fs @ [f])) = y[pt := lae (y ! mt) (y ! pt), mt := NegInf]"
      using True y f by (simp add: fold_row_snoc fold_one_def)
    have "tok_ok g s pt \<and> fst (fold_row lae s x (fs @ [f])) ! pt \<noteq> NegInf"
      using pt ne True ly lae by (auto simp: row tok_ok_def vocab)
    moreover have "fst (fold_row lae s x (fs @ [f])) ! i = NegInf" if "(i, p, int s) \<in> set (fs @ [f])" for i p
    proof (cases "i = mt")
      case True
      then show ?thesis using mt ly by (simp add: row)
    next
      case False
      then have "(i, p, int s) \<in> set fs" using that f by auto
      moreover from this have "i \<noteq> pt" using pt snoc(2) by auto
      ultimately show ?thesis using IH(2) False by (simp add: row)
    qed
    ultimately show ?thesis by blast
  qed
qed

lemma has_support_iff:
  assumes "0 < s" "s < 8"
  shows "has_support g s x \<longleftrightarrow> (\<exists>i. tok_ok g s i \<and> x ! i \<noteq> NegInf)"
  using support_ids [OF assms] by (auto simp: has_support_def list_ex_iff tok_ok_def vocab)

end


definition missing_of :: "nat \<Rightarrow> nat" where
  "missing_of s = (case utf8_missing s of None \<Rightarrow> 0 | Some m \<Rightarrow> m)"

lemma missing_of_small: "s \<le> 2 \<Longrightarrow> missing_of s = s"
  by (auto simp: missing_of_def utf8_missing_def)

lemma missing_of_le_3: "missing_of s \<le> 3"
  by (auto simp: missing_of_def utf8_missing_def)

lemma missing_of_pos: "0 < s \<Longrightarrow> s < 8 \<Longrightarrow> 0 < missing_of s"
  by (auto simp: missing_of_def utf8_missing_def)

lemma utf8_missing_of: "0 < s \<Longrightarrow> s < 8 \<Longrightarrow> utf8_missing s = Some (missing_of s)"
  by (auto simp: missing_of_def utf8_missing_def)

lemma pending_step:
  assumes "strict_step s b = Some s'" "0 < s"
  shows "cont_byte b" "missing_of s = Suc s'" "s' \<le> 2" "missing_of s' = s'" "feed s b = s'"
proof -
  show "cont_byte b" and m: "missing_of s = Suc s'"
    using strict_step_pending [OF assms(2,1)] by (auto simp: missing_of_def)
  show le: "s' \<le> 2" using m missing_of_le_3 [of s] by simp
  show "missing_of s' = s'" using le by (rule missing_of_small)
  show "feed s b = s'" using assms by (simp add: feed_def)
qed

text \<open>A valid continuation of a pending character either consists of continuation bytes, which
  count the missing bytes down, or completes the character with exactly the missing bytes.\<close>

lemma pending_continuation:
  assumes "valid_from s d" "0 < s" "d \<noteq> []"
  shows "(cont_prefix d < length d \<and> missing_of s = cont_prefix d)
    \<or> (length d \<le> missing_of s \<and> next_state s d = missing_of s - length d)"
  using assms
proof (induction d arbitrary: s)
  case Nil
  then show ?case by simp
next
  case (Cons b d)
  then obtain s' where s': "strict_step s b = Some s'" "valid_from s' d"
    by (auto split: option.splits)
  note st = pending_step [OF s'(1) Cons.prems(2)]
  show ?case
  proof (cases "d = []")
    case True
    then show ?thesis using st by simp
  next
    case False
    show ?thesis
    proof (cases "s' = 0")
      case True
      then have "\<not> cont_byte (hd d)"
        using s'(2) False by (cases d) (auto simp: lead_state_def cont_byte_def split: option.splits if_splits)
      then have "cont_prefix (b # d) = 1" using st(1) False by (cases d) (auto simp: cont_prefix_def)
      then show ?thesis using st(2) True False by (cases d) auto
    next
      case False
      with Cons.IH [OF s'(2)] \<open>d \<noteq> []\<close>
      have "(cont_prefix d < length d \<and> missing_of s' = cont_prefix d)
        \<or> (length d \<le> missing_of s' \<and> next_state s' d = missing_of s' - length d)" by blast
      then show ?thesis using st by (auto simp: cont_prefix_def)
    qed
  qed
qed


section \<open>The guard built from a byte table\<close>


interpretation built: guard_tables "guard_record tb fold_on mode greedy" tb
  for tb fold_on mode greedy
  by (rule guard_record_tables)

lemma b2u_extend_eq:
  "distinct rest \<Longrightarrow> b2u_extend rest n bs cs =
     (let fs = filter (\<lambda>b. b \<notin> set bs) rest in (bs @ fs, cs @ map ((+) 256) [n..<n + length fs]))"
proof (induction rest n bs cs rule: b2u_extend.induct)
  case (1 n bs cs)
  then show ?case by simp
next
  case (2 b rest n bs cs)
  show ?case
  proof (cases "b \<in> set bs")
    case True
    with 2 show ?thesis by (simp add: Let_def)
  next
    case False
    have "filter (\<lambda>a. a \<notin> set (bs @ [b])) rest = filter (\<lambda>a. a \<notin> set bs) rest"
      using 2(3) by (intro filter_cong) auto
    moreover have "[n..<n + Suc k] = n # [Suc n..<Suc n + k]" for k
      by (simp add: upt_conv_Cons del: upt_Suc)
    ultimately show ?thesis using False 2 by (simp add: Let_def del: upt_Suc)
  qed
qed

lemma bytes_to_unicode_eq:
  "bytes_to_unicode = (let fs = filter (\<lambda>b. b \<notin> set b2u_base) [0..<256]
     in zip (b2u_base @ fs) (b2u_base @ map ((+) 256) [0..<length fs]))"
  unfolding bytes_to_unicode_def by (subst b2u_extend_eq) (simp_all add: Let_def)

lemma distinct_b2u_base: "distinct b2u_base" and set_b2u_base: "set b2u_base \<subseteq> {0..<256}"
  by (auto simp: b2u_base_def)

text \<open>
  The byte-level BPE alphabet lists every byte exactly once with pairwise different
  characters, and the decoding dictionary built from it inverts it.
\<close>

theorem byte_alphabet_bijective:
  "(byte_decoder c = Some b \<longleftrightarrow> (b, c) \<in> set bytes_to_unicode)
   \<and> distinct (map snd bytes_to_unicode)
   \<and> mset (map fst bytes_to_unicode) = mset [0..<256]"
proof -
  define fs where "fs = filter (\<lambda>b. b \<notin> set b2u_base) [0..<256]"
  define cs where "cs = b2u_base @ map ((+) 256) [0..<length fs]"
  have z: "bytes_to_unicode = zip (b2u_base @ fs) cs"
    by (simp add: bytes_to_unicode_eq Let_def fs_def cs_def)
  have len: "length (b2u_base @ fs) = length cs" by (simp add: cs_def)
  have dc: "distinct cs"
    using distinct_b2u_base set_b2u_base by (auto simp: cs_def distinct_map)
  have db: "distinct (b2u_base @ fs)" "set (b2u_base @ fs) = set [0..<256]"
    using distinct_b2u_base set_b2u_base by (auto simp: fs_def)
  have "mset (b2u_base @ fs) = mset [0..<256]"
    using db by (simp only: set_eq_iff_mset_eq_distinct distinct_upt)
  moreover have "map prod.swap bytes_to_unicode = zip cs (b2u_base @ fs)"
    unfolding z by (subst zip_commute) (simp add: o_def split_beta)
  ultimately show ?thesis
    using dc len unfolding byte_decoder_def z
    by (auto simp: map_of_eq_Some_iff in_set_zip simp del: mset_append)
qed

text \<open>
  C3. The state kernel, which looks only at the last four committed tokens and then at the
  drafts before its row, computes the state the decoder reaches over the request's whole token
  history followed by those drafts.
\<close>

theorem row_state_is_decoder_state:
  assumes "Some [] \<notin> set tb" and "j \<le> max_drafts"
  shows "row_state (guard_record tb fold_on mode greedy) max_drafts toks input_ids row j
    = seq_state tb 0 (toks @ map (\<lambda>i. input_ids ! (row - j + i)) [1..<j + 1])"
  using assms by (rule built.row_state_seq)

lemma guard_record_sel [simp]:
  "g_vocab (guard_record tb fold_on mode greedy) = length tb"
  "g_mode (guard_record tb fold_on mode greedy) = mode"
  "g_greedy (guard_record tb fold_on mode greedy) = greedy"
  by (simp_all add: guard_record_def build_table_def Let_def)

lemma row_state_less_8: "row_state (guard_record tb fold_on mode greedy) md toks ids row j < 8"
proof -
  let ?g = "guard_record tb fold_on mode greedy"
  have st: "tok_step ?g s t < 8" if "s < 8" for s t
    using that by (simp add: built.tok_step_seq seq_step_less_8)
  have c: "committed_state ?g toks < 8"
    using built.foldl_tok_step by (simp add: committed_state_via committed_last4 seq_state_less_8)
  have fl: "foldl f s xs < (8::nat)" if "s < 8" "\<And>s x. s < 8 \<Longrightarrow> f s x < 8"
    for f and s and xs :: "nat list"
    using that by (induction xs arbitrary: s) auto
  have "(if i \<le> j then tok_step ?g s t else s) < 8" if "s < 8" for s i t
    using st [OF that, of t] that by (cases "i \<le> j") (simp_all only: if_True if_False)
  then show ?thesis unfolding row_state_def by (intro fl c)
qed

text \<open>A row whose audit state is positive was pending, had support, and was folded and masked.\<close>

lemma state_row_engaged:
  assumes "utf8_state_row g lae s temp x = (st, code, x', c)" "0 < st"
  shows "0 < s" "code = s" "has_support g s x" "x' = fst (fold_row lae s x (g_folds g))"
proof -
  define out where "out = (if g_greedy g then s else if temp = Some 0 then 0 else s)"
  define code0 where "code0 = (if g_mode g = 2 \<and> (if g_greedy g then temp \<noteq> None else temp \<noteq> Some 0)
    \<and> out = 0 then 8 else (0::nat))"
  have e: "(st, code, x', c) = (if out = 0 then (0, code0, x, 0)
         else if has_support g out x
         then (let (x', folded) = foldl (fold_one lae out) (x, 0) (g_folds g)
               in (int out OR folded, out, x', 0))
         else (- int out, code0, x, 1))"
    using assms(1) [symmetric] unfolding utf8_state_row_def Let_def out_def code0_def .
  have o: "out \<noteq> 0 \<and> has_support g out x"
  proof (rule ccontr)
    assume n: "\<not> (out \<noteq> 0 \<and> has_support g out x)"
    have "st \<le> 0"
    proof (cases "out = 0")
      case True
      then show ?thesis using e by simp
    next
      case False
      with n have "\<not> has_support g out x" by simp
      with e False show ?thesis by simp
    qed
    with assms(2) show False by simp
  qed
  then have os: "out = s" by (auto simp: out_def split: if_splits)
  obtain y f where yf: "foldl (fold_one lae out) (x, 0) (g_folds g) = (y, f)" by force
  from e o yf have "code = out" "x' = y" by simp_all
  with yf o os show "0 < s" "code = s" "has_support g s x" "x' = fst (fold_row lae s x (g_folds g))"
    unfolding fold_row_def by simp_all
qed

lemma guard_row_engaged:
  assumes "0 < fst (guard_row g lae md ids row r)"
  defines "s \<equiv> row_state g md (r_toks r) ids row (r_pos r)"
  shows "0 < s" "has_support g s (r_logits r)"
    "fst (snd (guard_row g lae md ids row r))
      = utf8_mask_row g 8192 s (fst (fold_row lae s (r_logits r) (g_folds g)))"
proof -
  obtain st code x' c where e: "utf8_state_row g lae s (r_temp r) (r_logits r) = (st, code, x', c)"
    by (metis prod_cases4)
  then have "0 < st" using assms(1) by (simp add: guard_row_def s_def [symmetric])
  from state_row_engaged [OF e this] e show "0 < s" "has_support g s (r_logits r)"
    "fst (snd (guard_row g lae md ids row r))
      = utf8_mask_row g 8192 s (fst (fold_row lae s (r_logits r) (g_folds g)))"
    by (simp_all add: guard_row_def s_def [symmetric])
qed

text \<open>
  C1. For any vocabulary byte table, when the guard engages on a logits row (its audit state
  is positive), every token whose logit is still finite after folding and masking continues
  the pending UTF-8 character without a strict-decoder error, and at least one token keeps a
  finite logit.
\<close>

theorem guard_row_sound:
  fixes tb :: "nat list option list" and fold_on :: bool and mode :: nat and greedy :: bool
  defines "g \<equiv> guard_record tb fold_on mode greedy"
  assumes lae: "\<And>a b. a \<noteq> NegInf \<Longrightarrow> lae a b \<noteq> NegInf"
    and len: "length (r_logits r) = length tb"
    and engaged: "0 < fst (guard_row g lae md ids row r)"
  shows "(\<forall>i < length tb. fst (snd (guard_row g lae md ids row r)) ! i \<noteq> NegInf \<longrightarrow>
            (\<exists>d. tb ! i = Some d \<and> valid_from (row_state g md (r_toks r) ids row (r_pos r)) d))
       \<and> (\<exists>i < length tb. fst (snd (guard_row g lae md ids row r)) ! i \<noteq> NegInf)"
proof -
  let ?s = "row_state g md (r_toks r) ids row (r_pos r)"
  let ?y = "fst (fold_row lae ?s (r_logits r) (g_folds g))"
  note en = guard_row_engaged [OF engaged]
  have s: "0 < ?s" "?s < 8" using en(1) row_state_less_8 by (simp_all add: g_def)
  have V: "g_vocab g = length tb" by (simp add: g_def)
  have res: "fst (snd (guard_row g lae md ids row r)) ! i =
      (if \<not> tok_ok g ?s i then NegInf else ?y ! i)" if "i < length tb" for i
    using that s len by (simp add: en(3) utf8_mask_row_nth tok_ok_def V)
  have "\<exists>i. tok_ok g ?s i \<and> ?y ! i \<noteq> NegInf"
    using built.fold_row_sound [OF lae s len, where fs = "g_folds g"] en(2) s
    by (simp add: g_def built.has_support_iff)
  moreover have "\<exists>d. tb ! i = Some d \<and> valid_from ?s d" if "tok_ok g ?s i" for i
    using that s by (simp add: g_def built.tok_ok_data)
  moreover have "i < length tb" if "tok_ok g ?s i" for i
    using that by (simp add: tok_ok_def g_def)
  ultimately show ?thesis using res by metis
qed

text \<open>
  A greedy row without the greedy option, and a row at a character boundary outside mode
  2, leave the guard with audit state 0, their logits unchanged and no conflict counted.
\<close>

theorem guard_row_untouched:
  assumes "(\<not> g_greedy g \<and> r_temp r = Some 0)
    \<or> (g_mode g \<noteq> 2 \<and> row_state g md (r_toks r) ids row (r_pos r) = 0)"
  shows "guard_row g lae md ids row r = (0, r_logits r, 0)"
  using assms by (auto simp: guard_row_def utf8_state_row_def Let_def utf8_mask_row_0)

text \<open>One sampled token: a row in pending state \<open>s\<close> is engaged and masked with folding on, a
  token with a finite logit is drawn and moves the decoder to \<open>s'\<close>.\<close>

inductive sampled :: "nat list option list \<Rightarrow> nat \<Rightarrow> nat \<Rightarrow> bool" for tb where
  draw: "g = guard_record tb True mode greedy \<Longrightarrow> length x = length tb \<Longrightarrow>
     (\<And>a b. a \<noteq> NegInf \<Longrightarrow> lae a b \<noteq> NegInf) \<Longrightarrow>
     utf8_state_row g lae s temp (x :: nat logit list) = (st, code, y, c) \<Longrightarrow> 0 < st \<Longrightarrow> s < 8 \<Longrightarrow>
     i < length tb \<Longrightarrow> utf8_mask_row g 8192 code y ! i \<noteq> NegInf \<Longrightarrow>
     sampled tb s (next_entry s (tb ! i))"


text \<open>The vocabulary holds the completing prefix of every token that has one.\<close>

definition prefix_closed :: "nat list option list \<Rightarrow> bool" where
  "prefix_closed tb = list_all (\<lambda>e. case e of None \<Rightarrow> True
     | Some d \<Rightarrow> cont_prefix d = 0 \<or> Some (take (cont_prefix d) d) \<in> set tb) tb"

lemma folded_token:
  assumes "i < length tb" "tb ! i = Some d" "valid_from s d" "0 < s" "s < 8"
    "cont_prefix d < length d" "missing_of s = cont_prefix d" "next_state s d \<noteq> 0" "prefix_closed tb"
  shows "\<exists>p. (i, p, int s) \<in> set (g_folds (guard_record tb True mode greedy))"
proof -
  let ?valid = "map valid_bits tb" and ?nxt = "map (\<lambda>s. map (next_entry s) tb) [0..<8]"
  have "0 < cont_prefix d" using assms(7) missing_of_pos [OF assms(4,5)] by simp
  moreover from this have "Some (take (cont_prefix d) d) \<in> set tb"
    using assms(1,2,9) by (auto simp: prefix_closed_def list_all_length split: option.splits)
  then obtain p where "first_id tb (take (cont_prefix d) d) = Some p" using first_id_ex by blast
  moreover have "fold_at ?valid ?nxt i d s"
    using assms utf8_missing_of [OF assms(4,5)] by (simp add: fold_at_def bit_valid_bits next_entry_def)
  ultimately have "(i, p, int s) \<in> set (fold_pairs tb ?valid ?nxt)"
    using assms(1,2,6) unfolding fold_pairs_iff fold_entries_iff by blast
  then show ?thesis by (auto simp: guard_record_def build_table_def Let_def)
qed

lemma guard_draw_shrinks_aux:
  fixes tb :: "nat list option list" and mode :: nat and greedy :: bool
  defines "g \<equiv> guard_record tb True mode greedy"
  assumes lae: "\<And>a b. a \<noteq> NegInf \<Longrightarrow> lae a b \<noteq> NegInf"
    and len: "length x = length tb"
    and row: "utf8_state_row g lae s temp x = (st, code, y, c)" and eng: "0 < st" and s8: "s < 8"
    and drawn: "i < length tb" "utf8_mask_row g 8192 code y ! i \<noteq> NegInf"
    and tb: "Some [] \<notin> set tb" "prefix_closed tb"
  shows "missing_of (next_entry s (tb ! i)) < missing_of s"
proof -
  note en = state_row_engaged [OF row eng]
  have V: "g_vocab g = length tb" by (simp add: g_def)
  have ok: "tok_ok g s i" and y: "y ! i \<noteq> NegInf"
    using drawn en(1,2) s8 len by (auto simp: en(4) utf8_mask_row_nth tok_ok_def V split: if_splits)
  from built.tok_ok_data [OF ok [unfolded g_def] en(1) s8]
  obtain d where d: "tb ! i = Some d" "valid_from s d" by blast
  have "d \<noteq> []" using tb(1) drawn(1) d(1) by (metis nth_mem)
  have fold: "(i, p, int s) \<notin> set (g_folds g)" for p
  proof -
    have "\<exists>i. tok_ok g s i \<and> x ! i \<noteq> NegInf"
      using en(3) unfolding g_def built.has_support_iff [OF en(1) s8] .
    note fs = built.fold_row_sound [where lae = lae and tb = tb and fold_on = True and mode = mode
        and greedy = greedy and fs = "g_folds g", folded g_def, OF lae en(1) s8 len this subset_refl]
    have "\<forall>i p. (i, p, int s) \<in> set (g_folds g) \<longrightarrow> fst (fold_row lae s x (g_folds g)) ! i = NegInf"
      
      by (rule conjunct2 [OF fs])
    then show ?thesis using y en(4) by blast
  qed
  from pending_continuation [OF d(2) en(1) \<open>d \<noteq> []\<close>] show ?thesis
  proof
    assume k: "cont_prefix d < length d \<and> missing_of s = cont_prefix d"
    then have "next_state s d = 0"
      using folded_token [OF drawn(1) d en(1) s8 _ _ _ tb(2)] fold unfolding g_def by blast
    then show ?thesis
      using d(1) missing_of_pos [OF en(1) s8] by (simp add: next_entry_def missing_of_small)
  next
    assume k: "length d \<le> missing_of s \<and> next_state s d = missing_of s - length d"
    then have "next_state s d < missing_of s" "next_state s d \<le> 2"
      using \<open>d \<noteq> []\<close> missing_of_le_3 [of s] by (cases d; simp)+
    then show ?thesis using d(1) by (simp add: next_entry_def missing_of_small)
  qed
qed

lemma sampled_shrinks:
  assumes "sampled tb s s'" "Some [] \<notin> set tb" "prefix_closed tb"
  shows "missing_of s' < missing_of s"
  using assms(1)
proof cases
  case (draw g mode greedy x lae temp st code y c i)
  show ?thesis unfolding draw(1)
    by (rule guard_draw_shrinks_aux [OF draw(4) draw(3) draw(5) [unfolded draw(2)] draw(6) draw(7)
         draw(8) draw(9) [unfolded draw(2)] assms(2,3)])
qed

text \<open>
  C2. With folding on, in a vocabulary that holds the completing prefix of every mixed token
  and no empty token, each token drawn from a guarded row strictly lowers the number of
  missing bytes, so after n guarded draws at least n of the missing bytes are there: a pending
  character is finished within three draws.
\<close>

theorem guard_completes_character:
  assumes "(sampled tb ^^ n) s s'" "Some [] \<notin> set tb" "prefix_closed tb"
  shows "n + missing_of s' \<le> missing_of s"
  using assms(1)
proof (induction n arbitrary: s')
  case 0
  then show ?case by simp
next
  case (Suc n)
  then obtain t where "(sampled tb ^^ n) s t" "sampled tb t s'" by auto
  with Suc.IH [of t] sampled_shrinks [OF _ assms(2,3), of t s'] show ?case by simp
qed



section \<open>The counters of the launch\<close>

lemma state_row_conflict:
  "case utf8_state_row g lae s temp x of (st, code, y, c) \<Rightarrow> c = (if st < 0 then 1 else 0)"
proof -
  have pos: "0 \<le> snd (foldl (fold_one lae out) (x, 0) fs)" for out fs
    by (induction fs rule: rev_induct) (auto simp: fold_one_def split: prod.splits)
  define out where "out = (if g_greedy g then s else if temp = Some 0 then 0 else s)"
  obtain y f where yf: "foldl (fold_one lae out) (x, 0) (g_folds g) = (y, f)" by force
  with pos [of out "g_folds g"] have "0 \<le> int out OR f" by simp
  with yf show ?thesis
    unfolding utf8_state_row_def Let_def out_def [symmetric]
    by (cases "out = 0"; cases "has_support g out x") simp_all
qed

lemma guard_row_conflict: "snd (snd (guard_row g lae md ids row r)) = of_bool (fst (guard_row g lae md ids row r) < 0)"
proof -
  obtain st code y c where "utf8_state_row g lae (row_state g md (r_toks r) ids row (r_pos r))
     (r_temp r) (r_logits r) = (st, code, y, c)" by (metis prod_cases4)
  then show ?thesis
    using state_row_conflict [of g lae "row_state g md (r_toks r) ids row (r_pos r)" "r_temp r" "r_logits r"]
    by (simp add: guard_row_def)
qed

lemma sum_list_of_bool: "(\<Sum>x\<leftarrow>xs. of_bool (P x)) = length (filter P xs)"
  by (induction xs) auto

text \<open>
  One launch yields one state and one logits row per input row, raises the conflict
  counter by exactly the number of rows reported with a negative state, counts the call, and
  moves the reported counter only to the current conflict count.
\<close>

theorem guard_apply_counts:
  "case guard_apply g lae md ids rows of (g', states, ys) \<Rightarrow>
     length states = length rows \<and> length ys = length rows
     \<and> g_calls g' = Suc (g_calls g)
     \<and> g_conflicts g' = g_conflicts g + length (filter (\<lambda>st. st < 0) states)
     \<and> g_last_states g' = Some states
     \<and> g_reported g' \<in> {g_reported g, g_conflicts g'}"
proof -
  define res where "res = map (\<lambda>(row, r). guard_row g lae md ids row r) (enumerate 0 rows)"
  have "map (snd \<circ> snd) res = map (\<lambda>z. of_bool (fst z < 0)) res"
    by (simp add: res_def guard_row_conflict split_beta)
  then have "sum_list (map (snd \<circ> snd) res) = length (filter (\<lambda>st. st < 0) (map fst res))"
    by (simp only: sum_list_of_bool filter_map o_def length_map)
  moreover have "length res = length rows" by (simp add: res_def)
  ultimately show ?thesis
    unfolding guard_apply_def res_def [symmetric] Let_def by simp
qed


section \<open>A concrete vocabulary\<close>

text \<open>A vocabulary with the bytes of the euro sign, one merged token and an ASCII letter.\<close>

definition demo_tb :: "nat list option list" where
  "demo_tb = [Some [226], Some [130], Some [172], Some [172, 226], Some [65]]"

definition demo_row :: "nat guard_row" where
  "demo_row = \<lparr>r_logits = replicate 5 (Fin 0), r_toks = [4, 0], r_temp = None, r_pos = 1\<rparr>"

lemma demo_guard:
  "row_state (guard_record demo_tb True 1 True) 1 (r_toks demo_row) [0, 1] 1 1 = 1"
  by code_simp

lemma demo_engaged: "guard_row (guard_record demo_tb True 1 True) (\<lambda>a b. a) 1 [0, 1] 1 demo_row 
  = (17, [NegInf, Fin 0, Fin 0, NegInf, NegInf], 0)"
  by code_simp
theorem guard_row_sound_witness:
  "\<exists>d. demo_tb ! 2 = Some d \<and> valid_from 1 d"
proof -
  let ?g = "guard_record demo_tb True 1 True"
  have l: "length (r_logits demo_row) = length demo_tb" by (simp add: demo_row_def demo_tb_def)
  have e: "0 < fst (guard_row ?g (\<lambda>a b. a) 1 [0, 1] 1 demo_row)" unfolding demo_engaged by simp
  have p: "r_pos demo_row = 1" by (simp add: demo_row_def)
  show ?thesis
    using conjunct1 [OF guard_row_sound [OF _ l e]] unfolding demo_engaged demo_guard p
    by (auto simp: demo_tb_def dest!: spec [of _ 2])
qed

theorem guard_row_untouched_witness:
  "guard_row (guard_record demo_tb True 1 False) (\<lambda>a b. a) 1 [0, 1] 1 (demo_row\<lparr>r_temp := Some 0\<rparr>)
     = (0, replicate 5 (Fin 0), 0)"
  using guard_row_untouched [of "guard_record demo_tb True 1 False" "demo_row\<lparr>r_temp := Some 0\<rparr>"
      1 "[0, 1]" 1 "\<lambda>a b. a"]
  by (simp add: demo_row_def)

theorem row_state_is_decoder_state_witness:
  "row_state (guard_record demo_tb True 1 True) 1 [4, 0] [0, 1] 1 1 = seq_state demo_tb 0 [4, 0, 1]"
  using row_state_is_decoder_state [of demo_tb 1 1 True 1 True "[4, 0]" "[0, 1]" 1]
  by (simp add: demo_tb_def upt_rec)

lemma demo_sampled: "sampled demo_tb 1 0"
proof -
  have "utf8_state_row (guard_record demo_tb True 1 True) (\<lambda>a b. a) 1 None (replicate 5 (Fin (0::nat)))
    = (17, 1, [Fin 0, Fin 0, Fin 0, NegInf, Fin 0], 0)" by code_simp
  moreover have "utf8_mask_row (guard_record demo_tb True 1 True) 8192 1
     [Fin (0::nat), Fin 0, Fin 0, NegInf, Fin 0] ! 2 \<noteq> NegInf" by code_simp
  moreover have "next_entry 1 (demo_tb ! 2) = 0" by code_simp
  ultimately show ?thesis
    using sampled.draw [of _ demo_tb 1 True "replicate 5 (Fin 0)" "\<lambda>a b. a" 1 None 17 1
       "[Fin 0, Fin 0, Fin 0, NegInf, Fin 0]" 0 2]
    by (simp add: demo_tb_def)
qed

theorem guard_completes_character_witness: "1 + missing_of 0 \<le> missing_of 1"
proof (rule guard_completes_character)
  show "(sampled demo_tb ^^ 1) 1 0" using demo_sampled by (simp only: relpowp_1)
qed (simp_all add: demo_tb_def prefix_closed_def cont_prefix_def cont_byte_def)

end
