(* ===== verification/Ring_Protocol.thy ===== *)
theory Ring_Protocol
  imports Ringside_Prelude
begin

text \<open>
  The contract of the two-direction prefill ring (\<open>src/src/tp4/glm53_prefill_rdma/protocol.py\<close>):
  topology, the cut of a call into chunks, the send steps of each direction, the merged list of GPU
  work items with its binary-search indexing, and the chunks an item waits for. Python's integers
  are \<open>int\<close>; \<open>math.ceil(a / b)\<close> is \<open>cdiv a b\<close>, which it equals for every size the layout admits
  (at most \<open>2 ^ 16\<close> rows, where the quotient of two integers rounds to an integer only if it is one).
\<close>

section \<open>Topology\<close>

definition WORLD :: int where [simp]: "WORLD = 4"
definition HIDDEN :: int where [simp]: "HIDDEN = 4096"
definition ROW_BYTES :: int where [simp]: "ROW_BYTES = HIDDEN * 2"
definition FLAG_STRIDE :: int where [simp]: "FLAG_STRIDE = 64"
definition KIND_RS :: int where [simp]: "KIND_RS = 1"
definition KIND_AG :: int where [simp]: "KIND_AG = 2"

datatype dir = FWD | BWD

datatype src = SRC_RAW | SRC_RED | SRC_RELAY

datatype item = ITEM_STAGE_F | ITEM_STAGE_B | ITEM_OUT_A | ITEM_OUT_B
  | ITEM_OUT_PREV | ITEM_OUT_NEXT | ITEM_OUT_FARF | ITEM_OUT_FARB

datatype piece = FA0 | FB1 | FA1 | FB2 | FA2 | BB1 | BB2 | G0F | G1F | G0Bhi | G0Blo | G1B

definition direct_path :: "int \<Rightarrow> int \<Rightarrow> int \<Rightarrow> int py" where
  "direct_path a b lane =
     (let lo = min a b; hi = max a b;
          f1 = (lo, hi) \<in> {(0, 1), (2, 3)};
          f0 = (lo, hi) \<in> {(1, 2), (0, 3)}
      in py_guard (\<not> (f0 \<or> f1) \<or> lane \<notin> {0, 1}) ValueError
           (Inr ((if f1 then 1 else 0) + 2 * lane)))"

definition nxt :: "int \<Rightarrow> int" where "nxt rank = (rank + 1) mod WORLD"
definition prv :: "int \<Rightarrow> int" where "prv rank = (rank + WORLD - 1) mod WORLD"

definition send_hca :: "int \<Rightarrow> dir \<Rightarrow> int py" where
  "send_hca rank d = (if d = FWD then direct_path rank (nxt rank) 0 else direct_path rank (prv rank) 1)"

definition recv_hca :: "int \<Rightarrow> dir \<Rightarrow> int py" where
  "recv_hca rank d = (if d = FWD then direct_path rank (prv rank) 0 else direct_path rank (nxt rank) 1)"

section \<open>Geometry\<close>

record Geometry =
  kind :: int
  rows :: int
  q :: int
  cr :: int
  nc :: int
  na :: int
  nb1 :: int
  nh :: int

definition nb :: "Geometry \<Rightarrow> int" where
  "nb g = nc g - na g"

definition chunk_rows :: "Geometry \<Rightarrow> int \<Rightarrow> (int \<times> int) py" where
  "chunk_rows g k =
     py_guard (\<not> (0 \<le> k \<and> k < nc g)) IndexError (Inr (k * q g div nc g, (k + 1) * q g div nc g))"

definition steps :: "Geometry \<Rightarrow> dir \<Rightarrow> int" where
  "steps g d =
     (if kind g = KIND_RS then (if d = FWD then 3 * na g + nb g else 2 * nb g)
      else nc g + (if d = FWD then nh g else nc g - nh g))"

definition staged :: "Geometry \<Rightarrow> dir \<Rightarrow> int" where
  "staged g d = (if kind g = KIND_RS then steps g d else nc g)"

definition items :: "Geometry \<Rightarrow> int" where
  "items g = (if kind g = KIND_RS then 4 * nc g else 5 * nc g)"

definition geometry :: "int \<Rightarrow> int \<Rightarrow> int \<Rightarrow> Geometry py" where
  "geometry knd rws cr_max =
     py_guard (knd \<notin> {KIND_RS, KIND_AG} \<or> rws \<le> 0 \<or> rws mod WORLD \<noteq> 0 \<or> cr_max < 1) ValueError
       (let q = rws div WORLD;
            nc = min (4 * cdiv (cdiv q cr_max) 4) q;
            cr = cdiv q nc;
            na = nc div 4;
            nb1 = (nc - na) div 2;
            nh = nc div 2
        in Inr \<lparr>kind = knd, rows = rws, q = q, cr = cr, nc = nc, na = na, nb1 = nb1, nh = nh\<rparr>)"

section \<open>Send steps\<close>

record Step =
  piece :: piece
  chunk :: int
  src :: src
  blk_off :: int
  dep :: int

definition mk_step :: "piece \<Rightarrow> int \<Rightarrow> src \<Rightarrow> int \<Rightarrow> int \<Rightarrow> Step" where
  [simp]: "mk_step p c s b e = \<lparr>piece = p, chunk = c, src = s, blk_off = b, dep = e\<rparr>"

definition rs_fwd_step :: "Geometry \<Rightarrow> int \<Rightarrow> Step" where
  "rs_fwd_step g s0 =
     (if s0 < na g then mk_step FA0 s0 SRC_RAW (- 1) (- 1)
      else let s1 = s0 - na g in
        if s1 < nb1 g then mk_step FB1 (na g + s1) SRC_RAW 1 (- 1)
        else let s2 = s1 - nb1 g in
          if s2 < na g then mk_step FA1 s2 SRC_RED (- 2) s2
          else let s3 = s2 - na g in
            if s3 < nb g - nb1 g then mk_step FB2 (na g + nb1 g + s3) SRC_RAW 1 (- 1)
            else let s4 = s3 - (nb g - nb1 g) in
              mk_step FA2 s4 SRC_RED 1 (na g + nb1 g + s4))"

definition rs_bwd_step :: "Geometry \<Rightarrow> int \<Rightarrow> Step" where
  "rs_bwd_step g s0 =
     (if s0 < nb g then mk_step BB1 (na g + s0) SRC_RAW (- 2) (- 1)
      else let s1 = s0 - nb g in mk_step BB2 (na g + s1) SRC_RED (- 1) s1)"

definition ag_fwd_step :: "Geometry \<Rightarrow> int \<Rightarrow> Step" where
  "ag_fwd_step g s0 =
     (if s0 < nc g then mk_step G0F s0 SRC_RAW 0 (- 1)
      else let s1 = s0 - nc g in mk_step G1F s1 SRC_RELAY 0 s1)"

definition ag_bwd_step :: "Geometry \<Rightarrow> int \<Rightarrow> Step" where
  "ag_bwd_step g s0 =
     (if s0 < nc g - nh g then mk_step G0Bhi (nh g + s0) SRC_RAW 0 (- 1)
      else let s1 = s0 - (nc g - nh g) in
        if s1 < nh g then mk_step G0Blo s1 SRC_RAW 0 (- 1)
        else let s2 = s1 - nh g in mk_step G1B (nh g + s2) SRC_RELAY 0 s2)"

definition send_step :: "Geometry \<Rightarrow> dir \<Rightarrow> int \<Rightarrow> Step py" where
  "send_step g d s =
     py_guard (\<not> (0 \<le> s \<and> s < steps g d)) IndexError
       (Inr (if kind g = KIND_RS
             then (if d = FWD then rs_fwd_step g s else rs_bwd_step g s)
             else (if d = FWD then ag_fwd_step g s else ag_bwd_step g s)))"

definition fb_step :: "Geometry \<Rightarrow> int \<Rightarrow> int" where
  "fb_step g c = (if c < nb1 g then na g + c else 2 * na g + c)"

section \<open>The merged work list\<close>

type_synonym streams = "(item \<times> int \<times> int) list"

definition streams_of :: "Geometry \<Rightarrow> streams" where
  "streams_of g =
     (if kind g = KIND_RS
      then [(ITEM_STAGE_F, 0, steps g FWD), (ITEM_STAGE_B, 0, steps g BWD),
            (ITEM_OUT_B, nb g + 1, nb g), (ITEM_OUT_A, 2 * na g + nb g + 1, na g)]
      else [(ITEM_STAGE_F, 0, nc g), (ITEM_STAGE_B, 0, nc g),
            (ITEM_OUT_PREV, 1, nc g), (ITEM_OUT_NEXT, 1, nc g),
            (ITEM_OUT_FARF, nc g + 1, nh g), (ITEM_OUT_FARB, nc g + 1, nc g - nh g)])"

definition items_before :: "streams \<Rightarrow> int \<Rightarrow> int" where
  "items_before sts t = (\<Sum>(_, start, cnt) \<leftarrow> sts. min (max (t - start) 0) cnt)"

function item_search :: "streams \<Rightarrow> int \<Rightarrow> int \<Rightarrow> int \<Rightarrow> int" where
  "item_search sts i lo hi =
     (if hi - lo > 1
      then let mid = (lo + hi) div 2 in
        if items_before sts mid \<le> i then item_search sts i mid hi else item_search sts i lo mid
      else lo)"
  by pat_completeness auto
termination by (relation "measure (\<lambda>(_, _, lo, hi). nat (hi - lo))") auto

declare item_search.simps [simp del]

fun item_scan :: "streams \<Rightarrow> int \<Rightarrow> int \<Rightarrow> (item \<times> int \<times> int) py" where
  "item_scan [] lo k = Inl AssertionError"
| "item_scan ((knd, start, cnt) # sts) lo k =
     (if start \<le> lo \<and> lo < start + cnt
      then (if k = 0 then Inr (knd, lo - start, lo) else item_scan sts lo (k - 1))
      else item_scan sts lo k)"

definition item_at :: "Geometry \<Rightarrow> int \<Rightarrow> (item \<times> int \<times> int) py" where
  "item_at g i =
     (let sts = streams_of g; total = (\<Sum>(_, _, c) \<leftarrow> sts. c) in
      py_guard (\<not> (0 \<le> i \<and> i < total)) IndexError
        (let lo = item_search sts i 0 (Max (set (map (\<lambda>(_, start, cnt). start + cnt) sts)))
         in item_scan sts lo (i - items_before sts lo)))"

definition step_deps :: "Geometry \<Rightarrow> dir \<Rightarrow> int \<Rightarrow> (dir \<times> int) list py" where
  "step_deps g d j =
     py_bind (send_step g d j) (\<lambda>st. Inr (if src st = SRC_RED then [(d, dep st)] else []))"

definition item_deps :: "Geometry \<Rightarrow> item \<Rightarrow> int \<Rightarrow> (dir \<times> int) list py" where
  "item_deps g knd j =
     (case knd of
        ITEM_STAGE_F \<Rightarrow> step_deps g FWD j
      | ITEM_STAGE_B \<Rightarrow> step_deps g BWD j
      | ITEM_OUT_A \<Rightarrow> Inr [(FWD, 2 * na g + nb g + j)]
      | ITEM_OUT_B \<Rightarrow> Inr [(BWD, nb g + j), (FWD, fb_step g j)]
      | ITEM_OUT_PREV \<Rightarrow> Inr [(FWD, j)]
      | ITEM_OUT_NEXT \<Rightarrow> Inr [(BWD, j)]
      | ITEM_OUT_FARF \<Rightarrow> Inr [(FWD, nc g + j)]
      | ITEM_OUT_FARB \<Rightarrow> Inr [(BWD, nc g + j)])"

definition out_next_chunk :: "Geometry \<Rightarrow> int \<Rightarrow> int" where
  "out_next_chunk g s = (if s < nc g - nh g then nh g + s else s - (nc g - nh g))"


section \<open>Facts of a valid geometry\<close>

definition geometry_wf :: "Geometry \<Rightarrow> int \<Rightarrow> bool" where
  "geometry_wf g cr_max \<longleftrightarrow>
     kind g \<in> {KIND_RS, KIND_AG} \<and> rows g = WORLD * q g \<and> 1 \<le> nc g \<and> nc g \<le> q g
     \<and> cr g = cdiv (q g) (nc g) \<and> cr g \<le> cr_max
     \<and> na g = nc g div 4 \<and> nb1 g = (nc g - na g) div 2 \<and> nh g = nc g div 2
     \<and> nc g = min (4 * cdiv (cdiv (q g) cr_max) 4) (q g) \<and> (4 dvd nc g \<or> nc g = q g)"

lemma geometry_wf:
  assumes "geometry k r cm = Inr g"
  shows "geometry_wf g cm" "kind g = k" "rows g = r" "0 < cm" "0 < r" "r mod 4 = 0"
proof -
  from assms have h: "k \<in> {KIND_RS, KIND_AG}" "0 < r" "r mod 4 = 0" "1 \<le> cm"
    unfolding geometry_def by auto
  define qq where "qq = r div 4"
  define c4 where "c4 = 4 * cdiv (cdiv qq cm) 4"
  define n where "n = min c4 qq"
  have qq: "1 \<le> qq" "r = 4 * qq" using h(2,3) unfolding qq_def by presburger+
  have c1: "cdiv qq cm \<le> c4" using cdiv_bounds(1) [of 4 "cdiv qq cm"] by (simp add: c4_def)
  have "0 < cdiv qq cm" using cdiv_pos [of cm qq] h(4) qq(1) by linarith
  then have n: "1 \<le> n" "n \<le> qq" using c1 qq(1) by (simp_all add: n_def)
  have "qq \<le> cm * n"
  proof (cases "c4 \<le> qq")
    case True
    then have "cdiv qq cm \<le> n" using c1 by (simp add: n_def)
    then show ?thesis using h(4) by (simp add: cdiv_le_iff mult.commute)
  next
    case False
    then have "n = qq" by (simp add: n_def)
    then show ?thesis using h(4) qq(1) mult_le_mono1 mult_right_mono [of 1 cm qq] by simp
  qed
  then have cr: "cdiv qq n \<le> cm" using n by (simp add: cdiv_le_iff)
  have g: "g = \<lparr>kind = k, rows = r, q = qq, cr = cdiv qq n, nc = n, na = n div 4,
      nb1 = (n - n div 4) div 2, nh = n div 2\<rparr>"
    using assms h unfolding geometry_def Let_def qq_def c4_def n_def WORLD_def
    by (simp only: py_guard_Inr sum.inject)
  have "4 dvd n \<or> n = qq" by (auto simp: n_def c4_def min_def)
  with h qq n cr show "geometry_wf g cm"
    by (simp add: geometry_wf_def g n_def c4_def)
  show "kind g = k" "rows g = r" "0 < cm" "0 < r" "r mod 4 = 0" using h by (simp_all add: g)
qed

lemma geometry_wf_bounds:
  assumes "geometry_wf g cm"
  shows "0 \<le> na g" "0 < nb g" "0 \<le> nb1 g" "nb1 g \<le> nb g" "0 \<le> nh g" "nh g \<le> nc g - nh g" "0 < nc g"
    "na g + nb g = nc g" "na g \<le> nb g - nb1 g" "na g \<le> nb1 g" "4 * na g \<le> nc g" "nc g < 4 * na g + 4"
proof -
  from assms have e: "1 \<le> nc g" "na g = nc g div 4" "nb1 g = (nc g - na g) div 2" "nh g = nc g div 2"
    unfolding geometry_wf_def by blast+
  show "0 \<le> na g" "0 < nb g" "0 \<le> nb1 g" "nb1 g \<le> nb g" "0 \<le> nh g" "nh g \<le> nc g - nh g" "0 < nc g"
    "na g + nb g = nc g" "na g \<le> nb g - nb1 g" "na g \<le> nb1 g" "4 * na g \<le> nc g" "nc g < 4 * na g + 4"
    unfolding nb_def using e by presburger+
qed

lemma scaled_step:
  assumes "0 < n" "n \<le> (m::int)"
  shows "(k + 1) * m div n - k * m div n \<le> cdiv m n" "m div n \<le> (k + 1) * m div n - k * m div n"
    "cdiv m n \<le> m div n + 1"
proof -
  define a b where "a = k * m div n" and "b = (k + 1) * m div n"
  have a: "a * n \<le> k * m" "k * m < a * n + n" and b: "b * n \<le> k * m + m" "k * m + m < b * n + n"
    using div_bounds [OF assms(1), of "k * m"] div_bounds [OF assms(1), of "(k + 1) * m"]
    unfolding a_def [symmetric] b_def [symmetric] by (simp_all add: distrib_right)
  have d: "m div n * n \<le> m" "m < m div n * n + n"
    using div_bounds [OF assms(1), of m] by blast+
  have c: "m \<le> cdiv m n * n" "cdiv m n * n < m + n" using cdiv_bounds [OF assms(1), of m] by blast+
  have "(b - a) * n < (cdiv m n + 1) * n" using a b c by (simp add: algebra_simps)
  then show "b - a \<le> cdiv m n" using assms(1) by (simp add: mult_less_cancel_right)
  have "(m div n) * n < (b - a + 1) * n" using a b d by (simp add: algebra_simps)
  then show "m div n \<le> b - a" using assms(1) by (simp add: mult_less_cancel_right)
  have "cdiv m n * n < (m div n + 2) * n" using c d by (simp add: algebra_simps)
  then show "cdiv m n \<le> m div n + 1" using assms(1) by (simp add: mult_less_cancel_right)
qed

text \<open>
  The chunks of a block partition its rows in order, each has between one row and the
  slot size, and their sizes differ by at most one row.
\<close>

theorem chunks_partition_block:
  assumes "geometry knd rws cr_max = Inr g"
  shows "\<exists>bound. bound 0 = 0 \<and> bound (nc g) = q g \<and> 4 * q g = rws \<and> cr g \<le> cr_max
    \<and> (\<forall>k \<in> {0..<nc g}. chunk_rows g k = Inr (bound k, bound (k + 1))
         \<and> 1 \<le> bound (k + 1) - bound k \<and> bound (k + 1) - bound k \<le> cr g
         \<and> bound (k + 1) - bound k \<in> {q g div nc g, q g div nc g + 1})"
proof (intro exI conjI ballI)
  let ?bound = "\<lambda>k. k * q g div nc g"
  note wf = geometry_wf [OF assms]
  have w: "1 \<le> nc g" "nc g \<le> q g" "cr g = cdiv (q g) (nc g)" "rows g = 4 * q g"
    using wf(1) unfolding geometry_wf_def WORLD_def by blast+
  show "cr g \<le> cr_max" using wf(1) unfolding geometry_wf_def by blast
  show "?bound 0 = 0" "?bound (nc g) = q g" "4 * q g = rws" using wf(3) w by simp_all
  fix k assume k: "k \<in> {0..<nc g}"
  then show "chunk_rows g k = Inr (?bound k, ?bound (k + 1))" by (simp add: chunk_rows_def)
  have one: "1 \<le> q g div nc g" using w(1,2) by (simp add: pos_imp_zdiv_pos_iff int_one_le_iff_zero_less)
  have st: "?bound (k + 1) - ?bound k \<le> cr g" "q g div nc g \<le> ?bound (k + 1) - ?bound k"
    "cr g \<le> q g div nc g + 1"
    using scaled_step(1,2) [of "nc g" "q g" k] scaled_step(3) [of "nc g" "q g"] w by simp_all
  show "1 \<le> ?bound (k + 1) - ?bound k" "?bound (k + 1) - ?bound k \<le> cr g"
    "?bound (k + 1) - ?bound k \<in> {q g div nc g, q g div nc g + 1}"
    using st one by auto
qed

theorem directions_balanced:
  assumes "geometry knd rws cr_max = Inr g" "4 dvd nc g"
  shows "steps g FWD = steps g BWD \<and> 2 * steps g FWD = 3 * nc g"
proof -
  note wf = geometry_wf [OF assms(1)]
  from wf(1) have e: "na g = nc g div 4" "nh g = nc g div 2" unfolding geometry_wf_def by blast+
  obtain m where m: "nc g = 4 * m" using assms(2) by auto
  show ?thesis unfolding steps_def nb_def e m by simp
qed


section \<open>The merged list is the merge\<close>

text \<open>Reference: at each step the items of the streams that are active then, in stream order; the
  work list is their concatenation.\<close>

definition active :: "streams \<Rightarrow> int \<Rightarrow> (item \<times> int \<times> int) list" where
  "active sts t = map (\<lambda>(knd, start, cnt). (knd, t - start, t))
     (filter (\<lambda>(knd, start, cnt). start \<le> t \<and> t < start + cnt) sts)"

definition merged :: "streams \<Rightarrow> nat \<Rightarrow> (item \<times> int \<times> int) list" where
  "merged sts n = concat (map (\<lambda>t. active sts (int t)) [0..<n])"

definition streams_ok :: "streams \<Rightarrow> bool" where
  "streams_ok sts \<longleftrightarrow> list_all (\<lambda>(_, start, cnt). 0 \<le> start \<and> 0 \<le> cnt) sts"

lemma merged_Suc: "merged sts (Suc n) = merged sts n @ active sts (int n)"
  by (simp add: merged_def)

lemma items_before_Cons [simp]:
  "items_before ((k, start, cnt) # sts) t = min (max (t - start) 0) cnt + items_before sts t"
  by (simp add: items_before_def)

lemma items_before_Suc:
  "streams_ok sts \<Longrightarrow> items_before sts (t + 1) = items_before sts t + int (length (active sts t))"
  by (induction sts) (auto simp: streams_ok_def active_def items_before_def)

lemma items_before_0: "streams_ok sts \<Longrightarrow> items_before sts 0 = 0"
  by (induction sts) (auto simp: streams_ok_def items_before_def)

lemma items_before_merged: "streams_ok sts \<Longrightarrow> items_before sts (int n) = int (length (merged sts n))"
proof (induction n)
  case 0
  then show ?case by (simp add: items_before_0 merged_def)
next
  case (Suc n)
  then show ?case using items_before_Suc [of sts "int n"] by (simp add: merged_Suc add.commute)
qed

lemma item_scan_active:
  "0 \<le> k \<Longrightarrow> k < int (length (active sts lo)) \<Longrightarrow> item_scan sts lo k = Inr (active sts lo ! nat k)"
proof (induction sts lo k rule: item_scan.induct)
  case (1 lo k)
  then show ?case by (simp add: active_def)
next
  case (2 knd start cnt sts lo k)
  show ?case
  proof (cases "start \<le> lo \<and> lo < start + cnt")
    case True
    then have a: "active ((knd, start, cnt) # sts) lo = (knd, lo - start, lo) # active sts lo"
      by (simp add: active_def)
    show ?thesis
    proof (cases "k = 0")
      case True
      then show ?thesis using a \<open>start \<le> lo \<and> lo < start + cnt\<close> by simp
    next
      case False
      then have "nat k = Suc (nat (k - 1))" using 2(3) by simp
      with 2 a False True show ?thesis by simp
    qed
  next
    case False
    then have "active ((knd, start, cnt) # sts) lo = active sts lo" by (auto simp: active_def)
    moreover have "item_scan ((knd, start, cnt) # sts) lo k = item_scan sts lo k" using False by auto
    ultimately show ?thesis using 2(2) [OF False 2(3)] 2(4) by simp
  qed
qed

lemma item_search_between:
  "lo < hi \<Longrightarrow> items_before sts lo \<le> i \<Longrightarrow> i < items_before sts hi \<Longrightarrow>
   lo \<le> item_search sts i lo hi \<and> item_search sts i lo hi < hi
   \<and> items_before sts (item_search sts i lo hi) \<le> i
   \<and> i < items_before sts (item_search sts i lo hi + 1)"
proof (induction sts i lo hi rule: item_search.induct)
  case (1 sts i lo hi)
  define mid where "mid = (lo + hi) div 2"
  show ?case
  proof (cases "hi - lo > 1")
    case True
    then have m: "lo < mid" "mid < hi" unfolding mid_def by auto
    show ?thesis
    proof (cases "items_before sts mid \<le> i")
      case le: True
      then have "item_search sts i lo hi = item_search sts i mid hi"
        using True by (subst item_search.simps) (simp add: mid_def Let_def)
      with 1(1) [OF True mid_def le m(2) le 1(5)] m show ?thesis by simp
    next
      case gt: False
      then have "item_search sts i lo hi = item_search sts i lo mid"
        using True by (subst item_search.simps) (simp add: mid_def Let_def)
      with 1(2) [OF True mid_def gt m(1) 1(4)] gt m show ?thesis by simp
    qed
  next
    case False
    then have "hi = lo + 1" using 1(3) by simp
    moreover have "item_search sts i lo hi = lo" using False by (subst item_search.simps) simp
    ultimately show ?thesis using 1(4,5) by simp
  qed
qed

lemma merged_prefix: "n \<le> m \<Longrightarrow> \<exists>zs. merged sts m = merged sts n @ zs"
  by (induction m) (auto simp: merged_Suc le_Suc_eq)

lemma merged_nth:
  assumes "n < m" "length (merged sts n) \<le> i" "i < length (merged sts (Suc n))"
  shows "merged sts m ! i = active sts (int n) ! (i - length (merged sts n))"
proof -
  obtain zs where zs: "merged sts m = merged sts (Suc n) @ zs"
    using merged_prefix [of "Suc n" m] assms(1) by auto
  moreover have "i - length (merged sts n) < length (active sts (int n))"
    using assms(2,3) by (simp add: merged_Suc)
  ultimately show ?thesis using assms(2) by (simp add: nth_append merged_Suc)
qed

definition last_step :: "streams \<Rightarrow> int" where
  "last_step sts = Max (set (map (\<lambda>(_, start, cnt). start + cnt) sts))"

lemma items_before_last:
  assumes "streams_ok sts" "last_step sts \<le> t"
  shows "items_before sts t = (\<Sum>(_, _, c) \<leftarrow> sts. c)"
proof -
  have "start + cnt \<le> t" if "(k, start, cnt) \<in> set sts" for k start cnt
  proof -
    have "start + cnt \<le> last_step sts" unfolding last_step_def using that by (intro Max_ge) force+
    with assms(2) show ?thesis by simp
  qed
  then have "map (\<lambda>(_, start, cnt). min (max (t - start) 0) cnt) sts = map (\<lambda>(_, _, c). c) sts"
    using assms(1) by (force simp: streams_ok_def list_all_iff)
  then show ?thesis unfolding items_before_def by (rule arg_cong)
qed

lemma item_at_merged_aux:
  fixes g :: Geometry
  defines "sts \<equiv> streams_of g"
  assumes ok: "streams_ok sts" and ne: "0 \<le> last_step sts" and i: "0 \<le> i" "i < (\<Sum>(_, _, c) \<leftarrow> sts. c)"
  shows "item_at g i = Inr (merged sts (nat (last_step sts)) ! nat i)"
proof -
  let ?T = "last_step sts"
  have tot: "items_before sts ?T = (\<Sum>(_, _, c) \<leftarrow> sts. c)" using items_before_last [OF ok] by simp
  have "?T \<noteq> 0" using tot items_before_0 [OF ok] i by auto
  define lo where "lo = item_search sts i 0 ?T"
  have lo: "0 \<le> lo" "lo < ?T" "items_before sts lo \<le> i" "i < items_before sts (lo + 1)"
    using item_search_between [of 0 ?T sts i] ne \<open>?T \<noteq> 0\<close> items_before_0 [OF ok] i tot
    unfolding lo_def by auto
  define n where "n = nat lo"
  have n: "lo = int n" "n < nat ?T" using lo unfolding n_def by auto
  have len: "items_before sts lo = int (length (merged sts n))"
    "items_before sts (lo + 1) = int (length (merged sts (Suc n)))"
    using items_before_merged [OF ok, of n] items_before_merged [OF ok, of "Suc n"] by (simp_all add: n add.commute)
  have "merged sts (nat ?T) ! nat i = active sts lo ! (nat i - length (merged sts n))"
    unfolding n(1) using n(2) lo(3,4) len by (intro merged_nth) auto
  moreover have "item_scan sts lo (i - items_before sts lo) = Inr (active sts lo ! nat (i - items_before sts lo))"
    using lo(3,4) items_before_Suc [OF ok, of lo] by (intro item_scan_active) auto
  moreover have "nat (i - items_before sts lo) = nat i - length (merged sts n)" using len by auto
  ultimately show ?thesis
    using i unfolding item_at_def sts_def [symmetric] last_step_def [symmetric] Let_def lo_def [symmetric]
    by simp
qed

lemma streams_total: "(\<Sum>(_, _, c) \<leftarrow> streams_of g. c) = items g" if "geometry_wf g cm"
  using that unfolding streams_of_def items_def steps_def nb_def geometry_wf_def by auto

lemma streams_of_ok: "geometry_wf g cm \<Longrightarrow> streams_ok (streams_of g)"
  using geometry_wf_bounds [of g cm] by (simp add: streams_ok_def streams_of_def steps_def)

lemma last_step_nonneg: "geometry_wf g cm \<Longrightarrow> 0 \<le> last_step (streams_of g)"
  using geometry_wf_bounds [of g cm]
  by (simp add: last_step_def streams_of_def steps_def Max_ge_iff)

definition work_list :: "Geometry \<Rightarrow> (item \<times> int \<times> int) list" where
  "work_list g = merged (streams_of g) (nat (last_step (streams_of g)))"

lemma length_work_list:
  assumes "geometry_wf g cm"
  shows "int (length (work_list g)) = items g"
  using items_before_merged [OF streams_of_ok [OF assms], of "nat (last_step (streams_of g))"]
    items_before_last [OF streams_of_ok [OF assms], of "last_step (streams_of g)"]
    last_step_nonneg [OF assms] streams_total [OF assms]
  by (simp add: work_list_def)

text \<open>
  The kernel's closed-form lookup item_at (binary search over step counts) is indexing
  into the reference merge of all item streams by step, and raises IndexError exactly outside
  it; the merge has items() entries.
\<close>

theorem item_at_enumerates_merge:
  assumes "geometry knd rws cr_max = Inr g"
  shows "int (length (work_list g)) = items g
    \<and> item_at g i = (if 0 \<le> i \<and> i < items g then Inr (work_list g ! nat i) else Inl IndexError)"
proof -
  note wf = geometry_wf(1) [OF assms]
  have "item_at g i = Inl IndexError" if "\<not> (0 \<le> i \<and> i < items g)"
    using that streams_total [OF wf] by (simp add: item_at_def Let_def)
  moreover have "item_at g i = Inr (work_list g ! nat i)" if "0 \<le> i" "i < items g"
    using item_at_merged_aux [OF streams_of_ok [OF wf] last_step_nonneg [OF wf] that(1)] that(2)
      streams_total [OF wf] by (simp add: work_list_def)
  ultimately show ?thesis using length_work_list [OF wf] by simp
qed

section \<open>Cables\<close>

lemma rank_cases: "r \<in> {0..<WORLD} \<Longrightarrow> r = 0 \<or> r = 1 \<or> r = 2 \<or> r = (3::int)"
  by auto

theorem hca_paths_match:
  assumes "r \<in> {0..<WORLD}"
  shows "send_hca r FWD = recv_hca (nxt r) FWD \<and> send_hca r BWD = recv_hca (prv r) BWD
    \<and> (\<exists>h. send_hca r FWD = Inr h \<and> h \<in> {0, 1}) \<and> (\<exists>h. send_hca r BWD = Inr h \<and> h \<in> {2, 3})
    \<and> send_hca r FWD \<noteq> recv_hca r FWD"
  using rank_cases [OF assms]
  by (elim disjE) (simp_all add: send_hca_def recv_hca_def nxt_def prv_def direct_path_def)

theorem hca_paths_match_witness:
  "send_hca 3 FWD = recv_hca 0 FWD"
  using hca_paths_match [of 3] by (simp add: nxt_def)

theorem chunks_partition_block_witness:
  "\<exists>g. geometry KIND_AG 28 2 = Inr g \<and> cr g \<le> 2"
proof -
  obtain g where g: "geometry KIND_AG 28 2 = Inr g" by (simp add: geometry_def Let_def cdiv_def)
  from chunks_partition_block [OF this] g show ?thesis by blast
qed

theorem directions_balanced_witness:
  "\<exists>g. geometry KIND_RS 512 32 = Inr g \<and> steps g FWD = 6"
proof -
  obtain g where g: "geometry KIND_RS 512 32 = Inr g" and n: "nc g = 4" by (simp add: geometry_def Let_def cdiv_def)
  from directions_balanced [OF g] g n show ?thesis by auto
qed

theorem item_at_enumerates_merge_witness:
  "\<exists>g. geometry KIND_RS 512 32 = Inr g \<and> length (work_list g) = 16"
proof -
  obtain g where g: "geometry KIND_RS 512 32 = Inr g" and n: "items g = 16"
    by (simp add: geometry_def Let_def cdiv_def items_def)
  from item_at_enumerates_merge [OF g, of 0] g n show ?thesis by auto
qed

end
