(* ===== verification/Ring_Schedule.thy ===== *)
theory Ring_Schedule
  imports Ring_Protocol
begin

text \<open>
  Why the ring never deadlocks: every chunk a work item waits for is staged by an item at a strictly
  earlier place of every rank's list, so four ranks that fetch in list order and keep any positive
  number of items in flight always make progress.
\<close>

section \<open>Every wait points backwards\<close>

lemma merged_iff:
  assumes "streams_ok sts"
  shows "(k, j, t) \<in> set (merged sts n) \<longleftrightarrow>
    t < int n \<and> (\<exists>start cnt. (k, start, cnt) \<in> set sts \<and> j = t - start \<and> start \<le> t \<and> t < start + cnt)"
proof -
  have pos: "0 \<le> t" if "(k, start, cnt) \<in> set sts" "start \<le> t" for start cnt
    using assms that by (auto simp: streams_ok_def list_all_iff)
  have "(k, j, t) \<in> set (active sts u) \<longleftrightarrow> t = u \<and>
      (\<exists>start cnt. (k, start, cnt) \<in> set sts \<and> j = t - start \<and> start \<le> t \<and> t < start + cnt)" for u
    unfolding active_def by force
  moreover have "(k, j, t) \<in> set (merged sts n) \<longleftrightarrow> (\<exists>m < n. (k, j, t) \<in> set (active sts (int m)))"
    by (auto simp: merged_def)
  moreover have "(\<exists>m < n. t = int m) \<longleftrightarrow> t < int n" if "0 \<le> t"
    using that zero_le_imp_eq_int [OF that] by auto
  ultimately show ?thesis using pos by blast
qed

lemma sorted_merged: "sorted (map (snd \<circ> snd) (merged sts n))"
proof (induction n)
  case 0
  then show ?case by (simp add: merged_def)
next
  case (Suc n)
  have all: "t = int n" if "t \<in> set (map (snd \<circ> snd) (active sts (int n)))" for t
    using that by (auto simp: active_def)
  have "map (snd \<circ> snd) (active sts (int n)) = replicate (length (active sts (int n))) (int n)"
    by (rule replicate_eqI) (use all in auto)
  then have "sorted (map (snd \<circ> snd) (active sts (int n)))" by (metis sorted_replicate)
  moreover have "t \<le> int n" if "t \<in> set (map (snd \<circ> snd) (merged sts n))" for t
    using that by (auto simp: merged_def active_def)
  ultimately show ?case using Suc all unfolding merged_Suc map_append sorted_append by fastforce
qed

lemma work_list_iff:
  assumes "geometry_wf g cm"
  shows "(k, j, t) \<in> set (work_list g) \<longleftrightarrow>
    (\<exists>start cnt. (k, start, cnt) \<in> set (streams_of g) \<and> t = start + j \<and> 0 \<le> j \<and> j < cnt)"
proof -
  have "t < last_step (streams_of g)" if "(k, start, cnt) \<in> set (streams_of g)" "t < start + cnt" for start cnt
  proof -
    have "start + cnt \<le> last_step (streams_of g)" unfolding last_step_def using that(1) by (intro Max_ge) force+
    with that(2) show ?thesis by simp
  qed
  then show ?thesis
    unfolding work_list_def merged_iff [OF streams_of_ok [OF assms]] using last_step_nonneg [OF assms] by fastforce
qed

lemma earlier_index:
  assumes "(k', j', t') \<in> set (work_list g)" "work_list g ! i = (k, j, t)" "i < length (work_list g)" "t' < t"
  shows "\<exists>i' < i. work_list g ! i' = (k', j', t')"
proof -
  obtain i' where i': "i' < length (work_list g)" "work_list g ! i' = (k', j', t')"
    using assms(1) by (auto simp: in_set_conv_nth)
  have "\<not> i \<le> i'"
  proof
    assume "i \<le> i'"
    then have "map (snd \<circ> snd) (work_list g) ! i \<le> map (snd \<circ> snd) (work_list g) ! i'"
      using sorted_merged i'(1) unfolding work_list_def by (intro sorted_nth_mono) auto
    with i' assms(2-4) show False by simp
  qed
  with i' show ?thesis by (intro exI [of _ i']) auto
qed

definition stage_item :: "dir \<Rightarrow> item" where
  "stage_item d = (if d = FWD then ITEM_STAGE_F else ITEM_STAGE_B)"

lemma stage_in_work_list:
  assumes "geometry_wf g cm" "0 \<le> s" "s < staged g d"
  shows "(stage_item d, s, s) \<in> set (work_list g)"
  using assms(2,3) unfolding work_list_iff [OF assms(1)]
  by (cases d) (auto simp: streams_of_def staged_def stage_item_def)

text \<open>The staged chunk a send step stands for: itself, or the upstream chunk a relay passes on.\<close>

definition origin_step :: "Geometry \<Rightarrow> dir \<Rightarrow> int \<Rightarrow> int" where
  "origin_step g d s = (if s < staged g d then s else
     (case send_step g d s of Inl _ \<Rightarrow> s | Inr st \<Rightarrow> dep st))"

lemma rs_deps_earlier:
  assumes "geometry_wf g cm" "kind g = KIND_RS" "(k, j, t) \<in> set (work_list g)"
  shows "\<exists>deps. item_deps g k j = Inr deps \<and> (\<forall>(d, s) \<in> set deps. 0 \<le> s \<and> s < staged g d \<and> s < t)"
proof -
  note b = geometry_wf_bounds [OF assms(1)]
  have st: "steps g FWD = 3 * na g + nb g" "steps g BWD = 2 * nb g" using assms(2) by (simp_all add: steps_def)
  from assms(2,3) consider
      "k = ITEM_STAGE_F" "t = j" "0 \<le> j" "j < 3 * na g + nb g"
    | "k = ITEM_STAGE_B" "t = j" "0 \<le> j" "j < 2 * nb g"
    | "k = ITEM_OUT_B" "t = nb g + 1 + j" "0 \<le> j" "j < nb g"
    | "k = ITEM_OUT_A" "t = 2 * na g + nb g + 1 + j" "0 \<le> j" "j < na g"
    unfolding work_list_iff [OF assms(1)] by (auto simp: streams_of_def st)
  then show ?thesis
  proof cases
    case 1
    then show ?thesis using b assms(2)
      by (simp add: item_deps_def step_deps_def send_step_def st rs_fwd_step_def Let_def staged_def)
  next
    case 2
    then show ?thesis using b assms(2)
      by (simp add: item_deps_def step_deps_def send_step_def st rs_bwd_step_def Let_def staged_def)
  next
    case 3
    then show ?thesis using b(1,2,4,8,9,10) assms(2)
      by (cases "j < nb1 g") (simp_all add: item_deps_def fb_step_def st staged_def)
  next
    case 4
    then show ?thesis using b assms(2) by (simp add: item_deps_def st staged_def)
  qed
qed

lemma ag_deps_earlier:
  assumes "geometry_wf g cm" "kind g = KIND_AG" "(k, j, t) \<in> set (work_list g)"
  shows "\<exists>deps. item_deps g k j = Inr deps
    \<and> (\<forall>(d, s) \<in> set deps. 0 \<le> s \<and> s < steps g d \<and> 0 \<le> origin_step g d s
         \<and> origin_step g d s < staged g d \<and> origin_step g d s \<le> s \<and> s < t)"
proof -
  note b = geometry_wf_bounds [OF assms(1)]
  have st: "steps g FWD = nc g + nh g" "steps g BWD = nc g + (nc g - nh g)" "staged g FWD = nc g" "staged g BWD = nc g"
    using assms(2) by (simp_all add: steps_def staged_def)
  from assms(2,3) consider
      "k = ITEM_STAGE_F" "t = j" "0 \<le> j" "j < nc g"
    | "k = ITEM_STAGE_B" "t = j" "0 \<le> j" "j < nc g"
    | "k = ITEM_OUT_PREV" "t = 1 + j" "0 \<le> j" "j < nc g"
    | "k = ITEM_OUT_NEXT" "t = 1 + j" "0 \<le> j" "j < nc g"
    | "k = ITEM_OUT_FARF" "t = nc g + 1 + j" "0 \<le> j" "j < nh g"
    | "k = ITEM_OUT_FARB" "t = nc g + 1 + j" "0 \<le> j" "j < nc g - nh g"
    unfolding work_list_iff [OF assms(1)] by (auto simp: streams_of_def)
  then show ?thesis
    using b assms(2)
    by cases (simp_all add: item_deps_def step_deps_def send_step_def ag_fwd_step_def ag_bwd_step_def
        origin_step_def st Let_def)
qed


section \<open>Four ranks working through their lists\<close>

text \<open>Each rank fetches its items in list order, has at most \<open>grid\<close> of them in flight, and finishes an
  item once the chunks it waits for have arrived from its upstream neighbours. A staged chunk has
  left a rank when its staging item is finished; a relayed one when the upstream chunk it passes on has.\<close>

record ring_state =
  fetched :: "int \<Rightarrow> nat"
  finished :: "int \<Rightarrow> nat set"

definition upstream :: "int \<Rightarrow> dir \<Rightarrow> int" where
  "upstream r d = (if d = FWD then prv r else nxt r)"

definition staged_by :: "Geometry \<Rightarrow> ring_state \<Rightarrow> int \<Rightarrow> dir \<Rightarrow> int \<Rightarrow> bool" where
  "staged_by g \<sigma> r d s = (\<exists>i \<in> finished \<sigma> r. work_list g ! i = (stage_item d, s, s))"

definition arrived :: "Geometry \<Rightarrow> ring_state \<Rightarrow> int \<Rightarrow> dir \<Rightarrow> int \<Rightarrow> bool" where
  "arrived g \<sigma> r d s =
     (let u = upstream r d in
      if s < staged g d then staged_by g \<sigma> u d s
      else staged_by g \<sigma> (upstream u d) d (origin_step g d s))"

definition ready :: "Geometry \<Rightarrow> ring_state \<Rightarrow> int \<Rightarrow> nat \<Rightarrow> bool" where
  "ready g \<sigma> r i =
     (case work_list g ! i of (k, j, t) \<Rightarrow>
        (case item_deps g k j of Inl _ \<Rightarrow> False
         | Inr deps \<Rightarrow> list_all (\<lambda>(d, s). arrived g \<sigma> r d s) deps))"

definition ring_start :: ring_state where
  "ring_start = \<lparr>fetched = (\<lambda>_. 0), finished = (\<lambda>_. {})\<rparr>"

inductive ring_step :: "Geometry \<Rightarrow> nat \<Rightarrow> ring_state \<Rightarrow> ring_state \<Rightarrow> bool" for g grid where
  fetch: "r \<in> {0..<WORLD} \<Longrightarrow> fetched \<sigma> r < length (work_list g) \<Longrightarrow>
    fetched \<sigma> r - card (finished \<sigma> r) < grid \<Longrightarrow>
    ring_step g grid \<sigma> (\<sigma>\<lparr>fetched := (fetched \<sigma>)(r := Suc (fetched \<sigma> r))\<rparr>)"
| finish: "r \<in> {0..<WORLD} \<Longrightarrow> i < fetched \<sigma> r \<Longrightarrow> i \<notin> finished \<sigma> r \<Longrightarrow> ready g \<sigma> r i \<Longrightarrow>
    ring_step g grid \<sigma> (\<sigma>\<lparr>finished := (finished \<sigma>)(r := insert i (finished \<sigma> r))\<rparr>)"

definition ring_inv :: "Geometry \<Rightarrow> ring_state \<Rightarrow> bool" where
  "ring_inv g \<sigma> \<longleftrightarrow> (\<forall>r. finished \<sigma> r \<subseteq> {..<fetched \<sigma> r} \<and> fetched \<sigma> r \<le> length (work_list g))"

definition ring_complete :: "Geometry \<Rightarrow> ring_state \<Rightarrow> bool" where
  "ring_complete g \<sigma> \<longleftrightarrow> (\<forall>r \<in> {0..<WORLD}. finished \<sigma> r = {..<length (work_list g)})"

definition ring_work :: "ring_state \<Rightarrow> nat" where
  "ring_work \<sigma> = (\<Sum>r \<in> {0..<WORLD}. fetched \<sigma> r + card (finished \<sigma> r))"

lemma ring_inv_start: "ring_inv g ring_start"
  by (simp add: ring_inv_def ring_start_def)

lemma ring_inv_step: "ring_step g grid \<sigma> \<sigma>' \<Longrightarrow> ring_inv g \<sigma> \<Longrightarrow> ring_inv g \<sigma>'"
  by (induction rule: ring_step.induct) (fastforce simp: ring_inv_def)+

lemma ring_inv_finite: "ring_inv g \<sigma> \<Longrightarrow> finite (finished \<sigma> r)"
  unfolding ring_inv_def by (meson finite_lessThan finite_subset)

lemma ring_work_update:
  "r \<in> {0..<WORLD} \<Longrightarrow> (\<Sum>x \<in> {0..<WORLD}. if x = r then f x + 1 else f x) = Suc (\<Sum>x \<in> {0..<WORLD}. f x :: nat)"
  by (simp add: sum.remove [of _ r] cong: if_cong)

lemma ring_work_step:
  assumes "ring_step g grid \<sigma> \<sigma>'" "ring_inv g \<sigma>"
  shows "ring_work \<sigma>' = Suc (ring_work \<sigma>)"
  using assms(1)
proof cases
  case (fetch r)
  have "ring_work \<sigma>' = (\<Sum>x \<in> {0..<WORLD}. if x = r then (fetched \<sigma> x + card (finished \<sigma> x)) + 1
      else fetched \<sigma> x + card (finished \<sigma> x))"
    unfolding ring_work_def fetch(1) by (rule sum.cong) auto
  then show ?thesis using ring_work_update [OF fetch(2)] by (simp add: ring_work_def)
next
  case (finish r i)
  have "ring_work \<sigma>' = (\<Sum>x \<in> {0..<WORLD}. if x = r then (fetched \<sigma> x + card (finished \<sigma> x)) + 1
      else fetched \<sigma> x + card (finished \<sigma> x))"
    unfolding ring_work_def finish(1) using finish(4) ring_inv_finite [OF assms(2)]
    by (intro sum.cong) auto
  then show ?thesis using ring_work_update [OF finish(2)] by (simp add: ring_work_def)
qed

lemma ring_work_bound:
  assumes "ring_inv g \<sigma>"
  shows "ring_work \<sigma> \<le> 8 * length (work_list g)"
proof -
  let ?N = "length (work_list g)"
  have "fetched \<sigma> r + card (finished \<sigma> r) \<le> 2 * ?N" for r
  proof -
    have "finished \<sigma> r \<subseteq> {..<?N}" "fetched \<sigma> r \<le> ?N"
      using assms unfolding ring_inv_def by (meson lessThan_subset_iff order_trans)+
    then have "card (finished \<sigma> r) \<le> ?N" using card_mono [of "{..<?N}" "finished \<sigma> r"] by simp
    with \<open>fetched \<sigma> r \<le> ?N\<close> show ?thesis by simp
  qed
  then have "ring_work \<sigma> \<le> (\<Sum>r \<in> {0..<WORLD}. 2 * ?N)" unfolding ring_work_def by (intro sum_mono)
  then show ?thesis by simp
qed

lemma item_deps_earlier:
  assumes "geometry_wf g cm" "(k, j, t) \<in> set (work_list g)"
  shows "\<exists>deps. item_deps g k j = Inr deps \<and> (\<forall>(d, s) \<in> set deps.
    0 \<le> origin_step g d s \<and> origin_step g d s < staged g d \<and> origin_step g d s < t)"
proof (cases "kind g = KIND_RS")
  case True
  from rs_deps_earlier [OF assms(1) True assms(2)] show ?thesis by (auto simp: origin_step_def)
next
  case False
  then have "kind g = KIND_AG" using assms(1) by (simp add: geometry_wf_def)
  from ag_deps_earlier [OF assms(1) this assms(2)] show ?thesis by fastforce
qed

lemma upstream_rank: "upstream r d \<in> {0..<WORLD}"
  by (simp add: upstream_def prv_def nxt_def)

lemma ready_if_earlier_done:
  assumes wf: "geometry_wf g cm" and i: "i < length (work_list g)"
    and dn: "\<forall>r \<in> {0..<WORLD}. {..<i} \<subseteq> finished \<sigma> r"
  shows "ready g \<sigma> r i"
proof -
  obtain k j t where kjt: "work_list g ! i = (k, j, t)" by (metis prod_cases3)
  then have mem: "(k, j, t) \<in> set (work_list g)" using i nth_mem by fastforce
  from item_deps_earlier [OF wf mem] obtain deps where deps: "item_deps g k j = Inr deps"
    and e: "\<And>d s. (d, s) \<in> set deps \<Longrightarrow> 0 \<le> origin_step g d s \<and> origin_step g d s < staged g d
      \<and> origin_step g d s < t" by blast
  have st: "staged_by g \<sigma> u d (origin_step g d s)" if ds: "(d, s) \<in> set deps" and u: "u \<in> {0..<WORLD}" for d s u
  proof -
    have "(stage_item d, origin_step g d s, origin_step g d s) \<in> set (work_list g)"
      using stage_in_work_list [OF wf] e [OF ds] by blast
    from earlier_index [OF this kjt i] e [OF ds] obtain i'
      where "i' < i" "work_list g ! i' = (stage_item d, origin_step g d s, origin_step g d s)" by blast
    with dn u show ?thesis unfolding staged_by_def by blast
  qed
  have "arrived g \<sigma> r d s" if "(d, s) \<in> set deps" for d s
    using st [OF that upstream_rank] by (auto simp: arrived_def Let_def origin_step_def split: if_splits)
  then show ?thesis using kjt deps by (auto simp: ready_def list_all_iff)
qed

lemma ring_progress:
  assumes wf: "geometry_wf g cm" and inv: "ring_inv g \<sigma>" and grid: "0 < grid" and inc: "\<not> ring_complete g \<sigma>"
  shows "\<exists>\<sigma>'. ring_step g grid \<sigma> \<sigma>'"
proof -
  let ?N = "length (work_list g)"
  let ?P = "\<lambda>i. i < ?N \<and> (\<exists>r \<in> {0..<WORLD}. i \<notin> finished \<sigma> r)"
  have sub: "finished \<sigma> r \<subseteq> {..<fetched \<sigma> r}" "fetched \<sigma> r \<le> ?N" for r
    using inv unfolding ring_inv_def by blast+
  obtain r0 where r0: "r0 \<in> {0..<WORLD}" "finished \<sigma> r0 \<noteq> {..<?N}" using inc unfolding ring_complete_def by blast
  have "finished \<sigma> r0 \<subseteq> {..<?N}" using sub(1) [of r0] sub(2) [of r0] by auto
  with r0 have "\<exists>i. ?P i" by blast
  then have P: "?P (LEAST i. ?P i)" by (rule LeastI_ex)
  define i where "i = (LEAST i. ?P i)"
  obtain r where r: "r \<in> {0..<WORLD}" "i \<notin> finished \<sigma> r" and iN: "i < ?N" using P unfolding i_def by blast
  have dn: "\<forall>r' \<in> {0..<WORLD}. {..<i} \<subseteq> finished \<sigma> r'"
  proof (intro ballI subsetI)
    fix r' j assume r': "r' \<in> {0..<WORLD}" and "j \<in> {..<i}"
    then have "\<not> ?P j" using not_less_Least [of j ?P] unfolding i_def by blast
    with iN \<open>j \<in> {..<i}\<close> r' show "j \<in> finished \<sigma> r'" by auto
  qed
  show ?thesis
  proof (cases "i < fetched \<sigma> r")
    case True
    from ring_step.finish [OF r(1) True r(2) ready_if_earlier_done [OF wf iN dn]] show ?thesis by blast
  next
    case False
    have lo: "{..<i} \<subseteq> finished \<sigma> r" using dn r(1) by blast
    with sub(1) [of r] have "i \<le> fetched \<sigma> r" by (meson lessThan_subset_iff order_trans)
    with False have fi: "fetched \<sigma> r = i" by simp
    with lo sub(1) [of r] have "finished \<sigma> r = {..<fetched \<sigma> r}" by blast
    then have "fetched \<sigma> r < ?N" "fetched \<sigma> r - card (finished \<sigma> r) < grid" using iN grid fi by simp_all
    from ring_step.fetch [OF r(1) this] show ?thesis by blast
  qed
qed

text \<open>
  C6. Four ranks that fetch the merged work list in order, keep at most a positive number of
  items in flight and wait for the chunks item_deps names always make progress: every
  reachable state is complete or has a step, and no run is longer than twice the total number
  of items.
\<close>

theorem ring_never_deadlocks:
  assumes "geometry knd rws cr_max = Inr g" "0 < grid" "(ring_step g grid ^^ n) ring_start \<sigma>"
  shows "n \<le> 8 * length (work_list g)
    \<and> (ring_complete g \<sigma> \<or> (\<exists>\<sigma>'. ring_step g grid \<sigma> \<sigma>'))"
proof -
  have "ring_inv g \<sigma> \<and> ring_work \<sigma> = n"
    using assms(3)
  proof (induction n arbitrary: \<sigma>)
    case 0
    then show ?case by (auto simp: ring_inv_start) (simp add: ring_work_def ring_start_def)
  next
    case (Suc n)
    then obtain \<tau> where "(ring_step g grid ^^ n) ring_start \<tau>" "ring_step g grid \<tau> \<sigma>" by auto
    with Suc.IH [of \<tau>] show ?case using ring_inv_step ring_work_step by metis
  qed
  with ring_work_bound ring_progress [OF geometry_wf(1) [OF assms(1)] _ assms(2)] show ?thesis by blast
qed

theorem ring_never_deadlocks_witness:
  "\<exists>g \<sigma>'. geometry KIND_AG 512 32 = Inr g \<and> ring_step g 1 ring_start \<sigma>'"
proof -
  obtain g where g: "geometry KIND_AG 512 32 = Inr g" and n: "items g = 20"
    by (simp add: geometry_def Let_def cdiv_def items_def)
  have "length (work_list g) = 20" using length_work_list [OF geometry_wf(1) [OF g]] n by simp
  then have "0 \<notin> finished ring_start 0" "0 \<in> {..<length (work_list g)}" "(0::int) \<in> {0..<WORLD}"
    by (simp_all add: ring_start_def)
  then have "\<not> ring_complete g ring_start" unfolding ring_complete_def by blast
  moreover have "(ring_step g 1 ^^ 0) ring_start ring_start" by simp
  ultimately show ?thesis using ring_never_deadlocks [OF g, of 1 0 ring_start] g by auto
qed

end
