(* ===== verification/Ring_Values.thy ===== *)
theory Ring_Values
  imports Ring_Schedule
begin

text \<open>
  What the chunks carry: the reduce-scatter's outputs have NCCL's association of the four
  contributions, the all-gather's outputs are exact copies, each block and chunk written once.
\<close>

section \<open>Values on the ring\<close>

text \<open>NCCL's association of the four contributions to one element of a block, for any addition.\<close>

definition nccl_ring_rs_value :: "('a \<Rightarrow> 'a \<Rightarrow> 'a) \<Rightarrow> (int \<Rightarrow> 'a) \<Rightarrow> int \<Rightarrow> 'a" where
  "nccl_ring_rs_value add values j =
     foldl (\<lambda>s k. add s (values ((j + k) mod WORLD))) (values ((j + 1) mod WORLD)) [2, 3, 4]"

text \<open>The value of the chunk a rank sends at a step: its own block, the sum of what it received and
  its own block, or what it received. \<open>x r b c\<close> is rank \<open>r\<close>'s input of chunk \<open>c\<close> of block \<open>b\<close>.\<close>

function sent_value :: "Geometry \<Rightarrow> ('a \<Rightarrow> 'a \<Rightarrow> 'a) \<Rightarrow> (int \<Rightarrow> int \<Rightarrow> int \<Rightarrow> 'a) \<Rightarrow> int \<Rightarrow> dir \<Rightarrow> int \<Rightarrow> 'a py" where
  "sent_value g add x r d s =
     py_bind (send_step g d s) (\<lambda>st.
       let own = x r ((r + blk_off st) mod WORLD) (chunk st) in
       case src st of
         SRC_RAW \<Rightarrow> Inr own
       | SRC_RED \<Rightarrow> if 0 \<le> dep st \<and> dep st < s then py_bind (sent_value g add x (upstream r d) d (dep st)) (\<lambda>v. Inr (add v own))
                   else Inl RuntimeError
       | SRC_RELAY \<Rightarrow> if 0 \<le> dep st \<and> dep st < s then sent_value g add x (upstream r d) d (dep st) else Inl RuntimeError)"
  by pat_completeness auto
termination by (relation "measure (\<lambda>(g, add, x, r, d, s). nat s)") auto

declare sent_value.simps [simp del]

definition received :: "Geometry \<Rightarrow> ('a \<Rightarrow> 'a \<Rightarrow> 'a) \<Rightarrow> (int \<Rightarrow> int \<Rightarrow> int \<Rightarrow> 'a) \<Rightarrow> int \<Rightarrow> dir \<Rightarrow> int \<Rightarrow> 'a py" where
  "received g add x r d s = sent_value g add x (upstream r d) d s"

text \<open>What an output item of a reduce-scatter writes: the chunks it waits for, added in the order of
  the list, then the rank's own contribution.\<close>

definition rs_output :: "Geometry \<Rightarrow> ('a \<Rightarrow> 'a \<Rightarrow> 'a) \<Rightarrow> (int \<Rightarrow> int \<Rightarrow> int \<Rightarrow> 'a) \<Rightarrow> int \<Rightarrow> int \<Rightarrow> 'a py" where
  "rs_output g add x r c =
     (if c < na g
      then py_bind (item_deps g ITEM_OUT_A c) (\<lambda>deps.
        py_bind (received g add x r (fst (hd deps)) (snd (hd deps))) (\<lambda>v. Inr (add v (x r r c))))
      else py_bind (item_deps g ITEM_OUT_B (c - na g)) (\<lambda>deps.
        py_bind (received g add x r (fst (deps ! 0)) (snd (deps ! 0))) (\<lambda>v.
          py_bind (received g add x r (fst (deps ! 1)) (snd (deps ! 1))) (\<lambda>w.
            Inr (add (add v w) (x r r c))))))"

lemma ex_dir: "(\<exists>d. P d) \<longleftrightarrow> P FWD \<or> P BWD"
  by (metis dir.exhaust)

lemma sent_raw: 
  assumes "send_step g d s = Inr st" "src st = SRC_RAW"
  shows "sent_value g add x r d s = Inr (x r ((r + blk_off st) mod WORLD) (chunk st))"
  using assms by (subst sent_value.simps) (simp add: Let_def)

lemma sent_red:
  assumes "send_step g d s = Inr st" "src st = SRC_RED" "0 \<le> dep st" "dep st < s"
    "sent_value g add x (upstream r d) d (dep st) = Inr v"
  shows "sent_value g add x r d s = Inr (add v (x r ((r + blk_off st) mod WORLD) (chunk st)))"
  using assms by (subst sent_value.simps) (simp add: Let_def)

lemma sent_relay:
  assumes "send_step g d s = Inr st" "src st = SRC_RELAY" "0 \<le> dep st" "dep st < s"
  shows "sent_value g add x r d s = sent_value g add x (upstream r d) d (dep st)"
  using assms by (subst sent_value.simps) (simp add: Let_def)

lemma rs_chain_A:
  assumes wf: "geometry_wf g cm" and rs: "kind g = KIND_RS" and c: "0 \<le> c" "c < na g"
  shows "sent_value g add x r FWD c = Inr (x r ((r - 1) mod WORLD) c)"
    "sent_value g add x r FWD (na g + nb1 g + c)
      = Inr (add (x (prv r) ((prv r - 1) mod WORLD) c) (x r ((r - 2) mod WORLD) c))"
    "sent_value g add x r FWD (2 * na g + nb g + c)
      = Inr (add (add (x (prv (prv r)) ((prv (prv r) - 1) mod WORLD) c) (x (prv r) ((prv r - 2) mod WORLD) c))
               (x r ((r + 1) mod WORLD) c))"
proof -
  note b = geometry_wf_bounds [OF wf]
  have st: "steps g FWD = 3 * na g + nb g" using rs by (simp add: steps_def)
  have s0: "send_step g FWD c = Inr (mk_step FA0 c SRC_RAW (- 1) (- 1))"
    using b c rs by (simp add: send_step_def st rs_fwd_step_def)
  have s1: "send_step g FWD (na g + nb1 g + c) = Inr (mk_step FA1 c SRC_RED (- 2) c)"
    using b c rs by (simp add: send_step_def st rs_fwd_step_def Let_def)
  have s2: "send_step g FWD (2 * na g + nb g + c) = Inr (mk_step FA2 c SRC_RED 1 (na g + nb1 g + c))"
    using b c rs by (simp add: send_step_def st rs_fwd_step_def Let_def)
  show v0: "sent_value g add x r FWD c = Inr (x r ((r - 1) mod WORLD) c)" for r
    using sent_raw [OF s0] by simp
  have lt: "c < na g + nb1 g + c" "na g + nb1 g + c < 2 * na g + nb g + c" using b c by linarith+
  show v1: "sent_value g add x r FWD (na g + nb1 g + c)
      = Inr (add (x (prv r) ((prv r - 1) mod WORLD) c) (x r ((r - 2) mod WORLD) c))" for r
    using sent_red [OF s1, of add x r] v0 [of "prv r"] lt c by (simp add: upstream_def)
  show "sent_value g add x r FWD (2 * na g + nb g + c)
      = Inr (add (add (x (prv (prv r)) ((prv (prv r) - 1) mod WORLD) c) (x (prv r) ((prv r - 2) mod WORLD) c))
               (x r ((r + 1) mod WORLD) c))"
    using sent_red [OF s2, of add x r] v1 [of "prv r"] lt b c by (simp add: upstream_def)
qed

lemma rs_chain_B:
  assumes wf: "geometry_wf g cm" and rs: "kind g = KIND_RS" and c: "0 \<le> c" "c < nb g"
  shows "sent_value g add x r BWD (nb g + c)
      = Inr (add (x (nxt r) ((nxt r - 2) mod WORLD) (na g + c)) (x r ((r - 1) mod WORLD) (na g + c)))"
    "sent_value g add x r FWD (fb_step g c) = Inr (x r ((r + 1) mod WORLD) (na g + c))"
proof -
  note b = geometry_wf_bounds [OF wf]
  have st: "steps g FWD = 3 * na g + nb g" "steps g BWD = 2 * nb g" using rs by (simp_all add: steps_def)
  have s0: "send_step g BWD c = Inr (mk_step BB1 (na g + c) SRC_RAW (- 2) (- 1))"
    using b c rs by (simp add: send_step_def st rs_bwd_step_def)
  have s1: "send_step g BWD (nb g + c) = Inr (mk_step BB2 (na g + c) SRC_RED (- 1) c)"
    using b c rs by (simp add: send_step_def st rs_bwd_step_def Let_def)
  have v0: "sent_value g add x r BWD c = Inr (x r ((r - 2) mod WORLD) (na g + c))" for r
    using sent_raw [OF s0] by simp
  show "sent_value g add x r BWD (nb g + c)
      = Inr (add (x (nxt r) ((nxt r - 2) mod WORLD) (na g + c)) (x r ((r - 1) mod WORLD) (na g + c)))"
    using sent_red [OF s1, of add x r] v0 [of "nxt r"] b c by (simp add: upstream_def)
  have "\<exists>p. send_step g FWD (fb_step g c) = Inr (mk_step p (na g + c) SRC_RAW 1 (- 1))"
  proof (cases "c < nb1 g")
    case True
    then have "send_step g FWD (fb_step g c) = Inr (mk_step FB1 (na g + c) SRC_RAW 1 (- 1))"
      using b(1,2,4,8) c rs by (simp add: send_step_def st rs_fwd_step_def Let_def fb_step_def)
    then show ?thesis by blast
  next
    case False
    then have "send_step g FWD (fb_step g c) = Inr (mk_step FB2 (na g + c) SRC_RAW 1 (- 1))"
      using b(1,2,3,4,8,9,10) c rs by (simp add: send_step_def st rs_fwd_step_def Let_def fb_step_def)
    then show ?thesis by blast
  qed
  then show "sent_value g add x r FWD (fb_step g c) = Inr (x r ((r + 1) mod WORLD) (na g + c))"
    using sent_raw by fastforce
qed

text \<open>
  C7. For any commutative addition, the value a rank writes for each chunk of its block at the
  end of the two-chain reduce-scatter is exactly NCCL's ring association
  ((x[j+1]+x[j+2])+x[j+3])+x[j] of the four contributions.
\<close>

theorem reduce_scatter_is_nccl:
  assumes "geometry KIND_RS rws cr_max = Inr g" "r \<in> {0..<WORLD}" "0 \<le> c" "c < nc g"
    and comm: "\<And>a b. add a b = add b a"
  shows "rs_output g add x r c = Inr (nccl_ring_rs_value add (\<lambda>rank. x rank r c) r)"
proof -
  note wf = geometry_wf(1,2) [OF assms(1)] and b = geometry_wf_bounds [OF geometry_wf(1) [OF assms(1)]]
  show ?thesis
  proof (cases "c < na g")
    case True
    from rs_chain_A(3) [OF wf assms(3) True, of add x "prv r"] True rank_cases [OF assms(2)]
    show ?thesis
      by (auto simp: rs_output_def item_deps_def received_def upstream_def nccl_ring_rs_value_def prv_def)
  next
    case False
    then have c: "0 \<le> c - na g" "c - na g < nb g" using b assms(4) by auto
    from rs_chain_B(1) [OF wf c, of add x "nxt r"] rs_chain_B(2) [OF wf c, of add x "prv r"] False rank_cases [OF assms(2)]
      comm [of "x (nxt (nxt r)) r c" "x (nxt r) r c"]
    show ?thesis
      by (auto simp: rs_output_def item_deps_def received_def upstream_def nccl_ring_rs_value_def prv_def nxt_def)
  qed
qed

section \<open>All-gather: exact copies\<close>

text \<open>Where an output item of an all-gather writes: the block and the chunk.\<close>

definition ag_target :: "Geometry \<Rightarrow> int \<Rightarrow> item \<Rightarrow> int \<Rightarrow> int \<times> int" where
  "ag_target g r k j =
     (case k of
        ITEM_OUT_PREV \<Rightarrow> (prv r, j)
      | ITEM_OUT_NEXT \<Rightarrow> (nxt r, out_next_chunk g j)
      | ITEM_OUT_FARF \<Rightarrow> (prv (prv r), j)
      | ITEM_OUT_FARB \<Rightarrow> (nxt (nxt r), nh g + j)
      | _ \<Rightarrow> (r, j))"

definition ag_outputs :: "Geometry \<Rightarrow> (item \<times> int) set" where
  "ag_outputs g = {(k, j). k \<notin> {ITEM_STAGE_F, ITEM_STAGE_B} \<and> (\<exists>t. (k, j, t) \<in> set (work_list g))}"

lemma ag_outputs_iff:
  assumes "geometry_wf g cm" "kind g = KIND_AG"
  shows "(k, j) \<in> ag_outputs g \<longleftrightarrow> 0 \<le> j \<and>
    (k = ITEM_OUT_PREV \<and> j < nc g \<or> k = ITEM_OUT_NEXT \<and> j < nc g
     \<or> k = ITEM_OUT_FARF \<and> j < nh g \<or> k = ITEM_OUT_FARB \<and> j < nc g - nh g)"
  using assms(2) unfolding ag_outputs_def work_list_iff [OF assms(1)] by (auto simp: streams_of_def)

lemma ag_sent:
  assumes wf: "geometry_wf g cm" and ag: "kind g = KIND_AG"
  shows "0 \<le> s \<Longrightarrow> s < nc g \<Longrightarrow> sent_value g add x r FWD s = Inr (x r (r mod WORLD) s)"
    "0 \<le> s \<Longrightarrow> s < nc g \<Longrightarrow> sent_value g add x r BWD s = Inr (x r (r mod WORLD) (out_next_chunk g s))"
    "0 \<le> s \<Longrightarrow> s < nh g \<Longrightarrow> sent_value g add x r FWD (nc g + s) = Inr (x (prv r) (prv r mod WORLD) s)"
    "0 \<le> s \<Longrightarrow> s < nc g - nh g \<Longrightarrow>
      sent_value g add x r BWD (nc g + s) = Inr (x (nxt r) (nxt r mod WORLD) (nh g + s))"
proof -
  note b = geometry_wf_bounds [OF wf]
  have st: "steps g FWD = nc g + nh g" "steps g BWD = nc g + (nc g - nh g)" using ag by (simp_all add: steps_def)
  show f: "0 \<le> s \<Longrightarrow> s < nc g \<Longrightarrow> sent_value g add x r FWD s = Inr (x r (r mod WORLD) s)" for s r
    using b ag by (subst sent_raw [of _ _ _ "mk_step G0F s SRC_RAW 0 (- 1)"])
      (simp_all add: send_step_def st ag_fwd_step_def)
  show w: "0 \<le> s \<Longrightarrow> s < nc g \<Longrightarrow> sent_value g add x r BWD s = Inr (x r (r mod WORLD) (out_next_chunk g s))" for s r
  proof -
    assume s: "0 \<le> s" "s < nc g"
    have "\<exists>p. send_step g BWD s = Inr (mk_step p (out_next_chunk g s) SRC_RAW 0 (- 1))"
      using s b ag by (cases "s < nc g - nh g")
        (auto simp: send_step_def st ag_bwd_step_def out_next_chunk_def Let_def)
    then show ?thesis using sent_raw by fastforce
  qed
  show "0 \<le> s \<Longrightarrow> s < nh g \<Longrightarrow> sent_value g add x r FWD (nc g + s) = Inr (x (prv r) (prv r mod WORLD) s)"
    using b ag f [of s "prv r"]
    by (subst sent_relay [of _ _ _ "mk_step G1F s SRC_RELAY 0 s"])
      (simp_all add: send_step_def st ag_fwd_step_def Let_def upstream_def)
  show "0 \<le> s \<Longrightarrow> s < nc g - nh g \<Longrightarrow>
      sent_value g add x r BWD (nc g + s) = Inr (x (nxt r) (nxt r mod WORLD) (nh g + s))"
    using b ag w [of s "nxt r"]
    by (subst sent_relay [of _ _ _ "mk_step G1B (nh g + s) SRC_RELAY 0 s"])
      (simp_all add: send_step_def st ag_bwd_step_def Let_def upstream_def out_next_chunk_def)
qed

lemma out_next_chunk_bij: "0 \<le> nh g \<Longrightarrow> nh g \<le> nc g \<Longrightarrow> bij_betw (out_next_chunk g) {0..<nc g} {0..<nc g}"
  by (rule bij_betw_byWitness [where f' = "\<lambda>c. if c < nh g then c + (nc g - nh g) else c - nh g"])
    (auto simp: out_next_chunk_def)

text \<open>
  In the all-gather the output items of a rank write every chunk of the three other blocks
  exactly once, and each writes an exact copy of what the block's owner contributed.
\<close>

theorem all_gather_copies:
  assumes "geometry KIND_AG rws cr_max = Inr g" "r \<in> {0..<WORLD}"
  shows "bij_betw (\<lambda>(k, j). ag_target g r k j) (ag_outputs g) (({0..<WORLD} - {r}) \<times> {0..<nc g})
    \<and> (\<forall>(k, j) \<in> ag_outputs g. \<exists>d s. item_deps g k j = Inr [(d, s)]
         \<and> received g add x r d s = (case ag_target g r k j of (b, c) \<Rightarrow> Inr (x b b c)))"
proof
  note wf = geometry_wf(1,2) [OF assms(1)] and b = geometry_wf_bounds [OF geometry_wf(1) [OF assms(1)]]
  let ?O = "\<lambda>k. {j. (k, j) \<in> ag_outputs g}"
  have rk: "{0..<WORLD} - {r} = {prv r, nxt r, prv (prv r)}" "nxt (nxt r) = prv (prv r)"
    "prv r \<noteq> nxt r" "prv r \<noteq> prv (prv r)" "nxt r \<noteq> prv (prv r)"
    using rank_cases [OF assms(2)] by (auto simp: prv_def nxt_def)
  have nxtc: "out_next_chunk g j \<in> {0..<nc g}" if "j \<in> {0..<nc g}" for j
    using that b by (auto simp: out_next_chunk_def)
  let ?bwdk = "\<lambda>(t, c). if t = prv r then (ITEM_OUT_PREV, c)
      else if t = nxt r then (ITEM_OUT_NEXT, if c < nh g then c + (nc g - nh g) else c - nh g)
      else if c < nh g then (ITEM_OUT_FARF, c) else (ITEM_OUT_FARB, c - nh g)"
  show "bij_betw (\<lambda>(k, j). ag_target g r k j) (ag_outputs g) (({0..<WORLD} - {r}) \<times> {0..<nc g})"
    unfolding rk(1)
  proof (rule bij_betw_byWitness [where f' = ?bwdk])
    show "\<forall>a \<in> ag_outputs g. ?bwdk (case a of (k, j) \<Rightarrow> ag_target g r k j) = a"
      using rk b by (clarsimp simp: ag_outputs_iff [OF wf]) (elim disjE; simp add: ag_target_def out_next_chunk_def)
    show "\<forall>a \<in> {prv r, nxt r, prv (prv r)} \<times> {0..<nc g}. (case ?bwdk a of (k, j) \<Rightarrow> ag_target g r k j) = a"
      using rk(2-5) b(5,6) by (auto simp: ag_target_def out_next_chunk_def)
    show "(\<lambda>(k, j). ag_target g r k j) ` ag_outputs g \<subseteq> {prv r, nxt r, prv (prv r)} \<times> {0..<nc g}"
      using rk b nxtc by (clarsimp simp: ag_outputs_iff [OF wf]) (elim disjE; simp add: ag_target_def)
    show "?bwdk ` ({prv r, nxt r, prv (prv r)} \<times> {0..<nc g}) \<subseteq> ag_outputs g"
      using rk(2-5) b(5,6) by (auto simp: ag_outputs_iff [OF wf])
  qed
  have rm: "prv r mod 4 = prv r" "nxt r mod 4 = nxt r" "prv (prv r) mod 4 = prv (prv r)"
     "nxt (nxt r) mod 4 = nxt (nxt r)" by (simp_all add: prv_def nxt_def)
  show "\<forall>(k, j) \<in> ag_outputs g. \<exists>d s. item_deps g k j = Inr [(d, s)]
         \<and> received g add x r d s = (case ag_target g r k j of (b, c) \<Rightarrow> Inr (x b b c))"
    using b
    by (auto simp: ex_dir ag_outputs_iff [OF wf] item_deps_def received_def upstream_def ag_target_def rm
        ag_sent [OF wf])
qed

theorem reduce_scatter_is_nccl_witness:
  "\<exists>g. geometry KIND_RS 512 32 = Inr g \<and> rs_output g (+) (\<lambda>r b c. 10 ^ nat r * (c + 1)) 2 1 = Inr (2222 :: int)"
proof -
  obtain g where g: "geometry KIND_RS 512 32 = Inr g" and n: "nc g = 4"
    by (simp add: geometry_def Let_def cdiv_def)
  from reduce_scatter_is_nccl [OF g, of 2 1 "(+)" "\<lambda>r b c. 10 ^ nat r * (c + 1) :: int"] g n
  show ?thesis by (auto simp: nccl_ring_rs_value_def add.commute)
qed

theorem all_gather_copies_witness:
  "\<exists>g. geometry KIND_AG 512 32 = Inr g
     \<and> bij_betw (\<lambda>(k, j). ag_target g 1 k j) (ag_outputs g) (({0..<WORLD} - {1}) \<times> {0..<nc g})"
proof -
  obtain g where g: "geometry KIND_AG 512 32 = Inr g" by (simp add: geometry_def Let_def cdiv_def)
  from all_gather_copies [OF g, of 1] g show ?thesis by auto
qed

end
