(* ===== verification/Ring_Region.thy ===== *)
theory Ring_Region
  imports Ring_Protocol
begin

text \<open>
  The byte layout of a rank's registered region and the host-side call sequencer
  (\<open>Layout\<close>, \<open>Call\<close> and \<open>Sequencer\<close> of \<open>protocol.py\<close>).
\<close>

section \<open>The host region\<close>

definition nc_max :: "int \<Rightarrow> int \<Rightarrow> int" where
  "nc_max max_rws cm = (let q = max_rws div WORLD in 4 * cdiv (cdiv q cm) 4)"

record Layout =
  max_rows :: int
  cr_max :: int
  nslot :: int

definition layout :: "int \<Rightarrow> int \<Rightarrow> int \<Rightarrow> Layout py" where
  "layout mr cm ns =
     py_guard (mr mod WORLD \<noteq> 0 \<or> \<not> (0 < mr \<and> mr \<le> push_bit 16 1)) ValueError
       (py_guard (\<not> (1 \<le> cm \<and> cm \<le> 1024) \<or> \<not> (2 \<le> ns \<and> ns \<le> 4096)) ValueError
         (Inr \<lparr>max_rows = mr, cr_max = cm, nslot = ns\<rparr>))"

definition dir_ix :: "dir \<Rightarrow> int" where
  "dir_ix d = (if d = FWD then 0 else 1)"

definition steps_cap :: "Layout \<Rightarrow> int" where
  "steps_cap l = (3 * nc_max (max_rows l) (cr_max l)) div 2 + 2"

definition chunk_bytes :: "Layout \<Rightarrow> int" where
  "chunk_bytes l = cr_max l * ROW_BYTES"

definition dir_recv_bytes :: "Layout \<Rightarrow> int" where
  "dir_recv_bytes l = steps_cap l * chunk_bytes l"

definition recv_off :: "Layout \<Rightarrow> int \<Rightarrow> dir \<Rightarrow> int" where
  "recv_off l parity d = (parity * 2 + dir_ix d) * dir_recv_bytes l"

definition rflag_off :: "Layout \<Rightarrow> int" where
  "rflag_off l = 2 * 2 * dir_recv_bytes l"

definition rflag :: "Layout \<Rightarrow> int \<Rightarrow> dir \<Rightarrow> int \<Rightarrow> int" where
  "rflag l parity d s = rflag_off l + ((parity * 2 + dir_ix d) * steps_cap l + s) * FLAG_STRIDE"

definition stage_off :: "Layout \<Rightarrow> int" where
  "stage_off l = rflag_off l + 2 * 2 * steps_cap l * FLAG_STRIDE"

definition stage :: "Layout \<Rightarrow> dir \<Rightarrow> int \<Rightarrow> int" where
  "stage l d slot = stage_off l + (dir_ix d * nslot l + slot) * chunk_bytes l"

definition ready_off :: "Layout \<Rightarrow> int" where
  "ready_off l = stage_off l + 2 * nslot l * chunk_bytes l"

definition ready_word :: "Layout \<Rightarrow> dir \<Rightarrow> int \<Rightarrow> int" where
  "ready_word l d slot = ready_off l + (dir_ix d * nslot l + slot) * FLAG_STRIDE"

definition ctrl_off :: "Layout \<Rightarrow> int" where
  "ctrl_off l = ready_off l + 2 * nslot l * FLAG_STRIDE"

definition send_done :: "Layout \<Rightarrow> dir \<Rightarrow> int" where
  "send_done l d = ctrl_off l + dir_ix d * FLAG_STRIDE"

definition poison_off :: "Layout \<Rightarrow> int" where
  "poison_off l = ctrl_off l + 2 * FLAG_STRIDE"

definition total :: "Layout \<Rightarrow> int" where
  "total l = (let raw = ctrl_off l + 4096 in (raw + push_bit 20 2 - 1) div push_bit 20 2 * push_bit 20 2)"

text \<open>The areas a call touches, as byte intervals: a receive slot and its flag per parity,
  direction and step, a staging slot and its ready word per direction, and the control words.\<close>

datatype area = RecvSlot int dir int | RecvFlag int dir int | StageSlot dir int | ReadyWord dir int
  | SendDone dir | Poison

fun area_ok :: "Layout \<Rightarrow> area \<Rightarrow> bool" where
  "area_ok l (RecvSlot p d s) = (p \<in> {0, 1} \<and> 0 \<le> s \<and> s < steps_cap l)"
| "area_ok l (RecvFlag p d s) = (p \<in> {0, 1} \<and> 0 \<le> s \<and> s < steps_cap l)"
| "area_ok l (StageSlot d s) = (0 \<le> s \<and> s < nslot l)"
| "area_ok l (ReadyWord d s) = (0 \<le> s \<and> s < nslot l)"
| "area_ok l (SendDone d) = True"
| "area_ok l Poison = True"

fun area_start :: "Layout \<Rightarrow> area \<Rightarrow> int" where
  "area_start l (RecvSlot p d s) = recv_off l p d + s * chunk_bytes l"
| "area_start l (RecvFlag p d s) = rflag l p d s"
| "area_start l (StageSlot d s) = stage l d s"
| "area_start l (ReadyWord d s) = ready_word l d s"
| "area_start l (SendDone d) = send_done l d"
| "area_start l Poison = poison_off l"

fun area_size :: "Layout \<Rightarrow> area \<Rightarrow> int" where
  "area_size l (RecvSlot p d s) = chunk_bytes l"
| "area_size l (StageSlot d s) = chunk_bytes l"
| "area_size l _ = FLAG_STRIDE"

text \<open>Each area is a slot of one of five consecutive arrays; slots of an array do not overlap.\<close>

fun area_array :: "area \<Rightarrow> nat" where
  "area_array (RecvSlot p d s) = 0"
| "area_array (RecvFlag p d s) = 1"
| "area_array (StageSlot d s) = 2"
| "area_array (ReadyWord d s) = 3"
| "area_array (SendDone d) = 4"
| "area_array Poison = 4"

definition cell :: "int \<Rightarrow> int \<Rightarrow> int \<Rightarrow> int" where
  "cell n k s = k * n + s"

fun area_index :: "Layout \<Rightarrow> area \<Rightarrow> int" where
  "area_index l (RecvSlot p d s) = cell (steps_cap l) (cell 2 p (dir_ix d)) s"
| "area_index l (RecvFlag p d s) = cell (steps_cap l) (cell 2 p (dir_ix d)) s"
| "area_index l (StageSlot d s) = cell (nslot l) (dir_ix d) s"
| "area_index l (ReadyWord d s) = cell (nslot l) (dir_ix d) s"
| "area_index l (SendDone d) = dir_ix d"
| "area_index l Poison = 2"

definition array_base :: "Layout \<Rightarrow> nat \<Rightarrow> int" where
  "array_base l k = (if k = 0 then 0 else if k = 1 then rflag_off l else if k = 2 then stage_off l
     else if k = 3 then ready_off l else ctrl_off l)"

definition array_stride :: "Layout \<Rightarrow> nat \<Rightarrow> int" where
  "array_stride l k = (if k = 0 \<or> k = 2 then chunk_bytes l else FLAG_STRIDE)"

definition array_slots :: "Layout \<Rightarrow> nat \<Rightarrow> int" where
  "array_slots l k = (if k < 2 then 4 * steps_cap l else if k < 4 then 2 * nslot l else 64)"

lemma cell_range: "0 \<le> s \<Longrightarrow> s < n \<Longrightarrow> 0 \<le> k \<Longrightarrow> k < m \<Longrightarrow> 0 \<le> cell n k s \<and> cell n k s < m * n"
proof -
  assume h: "0 \<le> s" "s < n" "0 \<le> k" "k < m"
  then have "(k + 1) * n \<le> m * n" by (intro mult_right_mono) auto
  with h show ?thesis by (simp add: distrib_right cell_def)
qed

lemma cell_div: "0 \<le> s \<Longrightarrow> s < n \<Longrightarrow> cell n k s div n = k"
  by (simp add: cell_def)

lemma cell_inj: "0 \<le> s \<Longrightarrow> s < n \<Longrightarrow> 0 \<le> s' \<Longrightarrow> s' < n \<Longrightarrow> cell n k s = cell n k' s' \<longleftrightarrow> k = k' \<and> s = s'"
proof
  assume h: "0 \<le> s" "s < n" "0 \<le> s'" "s' < n" and e: "cell n k s = cell n k' s'"
  from e have "k = k'" using cell_div [OF h(1,2), of k] cell_div [OF h(3,4), of k'] by simp
  with e show "k = k' \<and> s = s'" by (simp add: cell_def)
qed simp

lemma dir_ix_range: "0 \<le> dir_ix d" "dir_ix d < 2"
  by (simp_all add: dir_ix_def)

lemma dir_ix_inj: "dir_ix d = dir_ix d' \<longleftrightarrow> d = d'"
  by (cases d; cases d'; simp add: dir_ix_def)

lemma area_slot:
  "area_start l a = array_base l (area_array a) + area_index l a * array_stride l (area_array a)"
  "area_size l a = array_stride l (area_array a)"
  by (cases a; simp add: array_base_def array_stride_def recv_off_def rflag_def stage_def ready_word_def
      send_done_def poison_off_def dir_recv_bytes_def distrib_right cell_def)+

lemma area_index_range:
  assumes "area_ok l a"
  shows "0 \<le> area_index l a \<and> area_index l a < array_slots l (area_array a)"
proof (cases a)
  case (RecvSlot p d s)
  then have "0 \<le> cell 2 p (dir_ix d) \<and> cell 2 p (dir_ix d) < 2 * 2"
    using assms dir_ix_range by (intro cell_range) auto
  then show ?thesis using assms cell_range [of s "steps_cap l" "cell 2 p (dir_ix d)" 4] RecvSlot
    by (simp add: array_slots_def)
next
  case (RecvFlag p d s)
  then have "0 \<le> cell 2 p (dir_ix d) \<and> cell 2 p (dir_ix d) < 2 * 2"
    using assms dir_ix_range by (intro cell_range) auto
  then show ?thesis using assms cell_range [of s "steps_cap l" "cell 2 p (dir_ix d)" 4] RecvFlag
    by (simp add: array_slots_def)
next
  case (StageSlot d s)
  then show ?thesis using assms cell_range [of s "nslot l" "dir_ix d" 2] dir_ix_range by (simp add: array_slots_def)
next
  case (ReadyWord d s)
  then show ?thesis using assms cell_range [of s "nslot l" "dir_ix d" 2] dir_ix_range by (simp add: array_slots_def)
next
  case (SendDone d)
  then show ?thesis using dir_ix_range [of d] by (simp add: array_slots_def)
next
  case Poison
  then show ?thesis by (simp add: array_slots_def)
qed

lemma area_index_inj:
  assumes "area_ok l a" "area_ok l b" "area_array a = area_array b" "area_index l a = area_index l b"
  shows "a = b"
  using assms dir_ix_range
  by (cases a; cases b; simp add: cell_inj dir_ix_inj; simp add: dir_ix_def split: if_splits)

lemma array_end:
  assumes "0 \<le> nslot l" "0 \<le> steps_cap l" "0 \<le> chunk_bytes l" "k < 5"
  shows "0 \<le> array_base l k" "array_base l k + array_slots l k * array_stride l k \<le> ctrl_off l + 4096"
    "k < m \<Longrightarrow> m < 5 \<Longrightarrow> array_base l k + array_slots l k * array_stride l k \<le> array_base l m"
proof -
  have p: "0 \<le> steps_cap l * chunk_bytes l" "0 \<le> nslot l * chunk_bytes l" using assms by simp_all
  have o: "rflag_off l = 4 * (steps_cap l * chunk_bytes l)" "stage_off l = rflag_off l + 256 * steps_cap l"
    "ready_off l = stage_off l + 2 * (nslot l * chunk_bytes l)" "ctrl_off l = ready_off l + 128 * nslot l"
    by (simp_all add: rflag_off_def dir_recv_bytes_def stage_off_def ready_off_def ctrl_off_def)
  from \<open>k < 5\<close> have k: "k = 0 \<or> k = 1 \<or> k = 2 \<or> k = 3 \<or> k = 4" by auto
  show "0 \<le> array_base l k" using k p assms o by (auto simp: array_base_def)
  have e: "array_slots l 0 * array_stride l 0 = 4 * (steps_cap l * chunk_bytes l)"
    "array_slots l 1 * array_stride l 1 = 256 * steps_cap l"
    "array_slots l 2 * array_stride l 2 = 2 * (nslot l * chunk_bytes l)"
    "array_slots l 3 * array_stride l 3 = 128 * nslot l"
    "array_slots l 4 * array_stride l 4 = 4096"
    by (simp_all add: array_slots_def array_stride_def)
  have base: "array_base l 0 = 0" "array_base l 1 = rflag_off l" "array_base l 2 = stage_off l"
    "array_base l 3 = ready_off l" "array_base l 4 = ctrl_off l" by (simp_all add: array_base_def)
  show "array_base l k + array_slots l k * array_stride l k \<le> ctrl_off l + 4096"
    using k p assms(1-3) e base o by (elim disjE; simp only:; linarith)
  assume km: "k < m" and "m < 5"
  have "array_base l i + array_slots l i * array_stride l i \<le> array_base l (i + n)" if "i + n < 5" "0 < n" for i n
  proof -
    from that have "(i = 0 \<and> (n = 1 \<or> n = 2 \<or> n = 3 \<or> n = 4)) \<or> (i = 1 \<and> (n = 1 \<or> n = 2 \<or> n = 3))
      \<or> (i = 2 \<and> (n = 1 \<or> n = 2)) \<or> (i = 3 \<and> n = 1)" by arith
    then show ?thesis
      by (elim disjE conjE; use p assms(1-3) e base o in \<open>simp add: numeral_eq_Suc\<close>)
  qed
  from this [of k "m - k"] km \<open>m < 5\<close>
  show "array_base l k + array_slots l k * array_stride l k \<le> array_base l m" by simp
qed

text \<open>
  All receive slots, flags, staging slots, ready words and control words of the
  registered region lie inside its total size and are pairwise disjoint.
\<close>

theorem region_areas_disjoint:
  assumes "layout mr cm ns = Inr l" "area_ok l a" "area_ok l b" "a \<noteq> b"
  shows "0 \<le> area_start l a \<and> area_start l a + area_size l a \<le> total l
    \<and> (area_start l a + area_size l a \<le> area_start l b \<or> area_start l b + area_size l b \<le> area_start l a)"
proof -
  from assms(1) have l: "0 < max_rows l" "max_rows l mod 4 = 0" "1 \<le> cr_max l" "2 \<le> nslot l"
    by (auto simp: layout_def)
  have "1 \<le> max_rows l div 4" using l(1,2) by presburger
  then have "0 < cdiv (cdiv (max_rows l div 4) (cr_max l)) 4" using l(3) by (intro cdiv_pos) auto
  then have nn: "0 \<le> nslot l" "0 \<le> steps_cap l" "0 \<le> chunk_bytes l"
    using l by (simp_all add: steps_cap_def nc_max_def Let_def chunk_bytes_def)
  have arr: "area_array z < 5" for z by (cases z) simp_all
  have stp: "0 \<le> array_stride l k" for k using nn by (simp add: array_stride_def)
  have fits: "array_base l (area_array z) \<le> area_start l z
      \<and> area_start l z + area_size l z \<le> array_base l (area_array z) + array_slots l (area_array z) * array_stride l (area_array z)"
    if "area_ok l z" for z
  proof -
    note r = area_index_range [OF that]
    have "(area_index l z + 1) * array_stride l (area_array z) \<le> array_slots l (area_array z) * array_stride l (area_array z)"
      using r stp by (intro mult_right_mono) auto
    then show ?thesis using r stp [of "area_array z"] by (simp add: area_slot distrib_right)
  qed
  have "0 \<le> area_start l a" "area_start l a + area_size l a \<le> ctrl_off l + 4096"
    using fits [OF assms(2)] array_end(1,2) [OF nn arr [of a]] by linarith+
  moreover have "ctrl_off l + 4096 \<le> total l"
    using div_bounds(2) [of "push_bit 20 2" "ctrl_off l + 4096 + push_bit 20 2 - 1"]
    by (simp add: total_def Let_def push_bit_eq_mult)
  moreover have "area_start l x + area_size l x \<le> area_start l y"
    if "area_ok l x" "area_ok l y" "area_array x < area_array y" for x y
    using fits [OF that(1)] fits [OF that(2)] array_end(3) [OF nn arr [of x] that(3) arr] by linarith
  moreover have "area_start l x + area_size l x \<le> area_start l y"
    if "area_array x = area_array y" "area_index l x < area_index l y" for x y
  proof -
    have "(area_index l x + 1) * array_stride l (area_array y) \<le> area_index l y * array_stride l (area_array y)"
      using that stp by (intro mult_right_mono) auto
    then show ?thesis using that(1) by (simp add: area_slot distrib_right)
  qed
  moreover have "area_array a = area_array b \<longrightarrow> area_index l a \<noteq> area_index l b"
    using area_index_inj assms(2-4) by blast
  ultimately show ?thesis using assms(2,3) by (metis linorder_neqE_nat linorder_neqE order_trans)
qed

section \<open>The sequencer\<close>

record Call =
  geom :: Geometry
  seq :: int
  stage_base :: "int \<times> int"
  work_base :: int

record Sequencer =
  s_layout :: Layout
  s_grid :: int
  s_parts :: int
  s_seq :: int
  s_stage_next :: "int \<times> int"
  s_work_next :: int

definition parity :: "Call \<Rightarrow> int" where
  "parity c = and (seq c) 1"

definition sequencer :: "Layout \<Rightarrow> int \<Rightarrow> int \<Rightarrow> Sequencer" where
  "sequencer l grid parts = \<lparr>s_layout = l, s_grid = grid, s_parts = parts, s_seq = 0, s_stage_next = (0, 0), s_work_next = 0\<rparr>"

definition next_call :: "Sequencer \<Rightarrow> int \<Rightarrow> int \<Rightarrow> Sequencer \<times> Call py" where
  "next_call z knd rws =
     (if rws > max_rows (s_layout z) then (z, Inl ValueError)
      else case geometry knd rws (cr_max (s_layout z)) of
        Inl e \<Rightarrow> (z, Inl e)
      | Inr g \<Rightarrow>
          if \<not> max (steps g FWD) (steps g BWD) \<le> steps_cap (s_layout z) then (z, Inl AssertionError)
          else let z1 = z\<lparr>s_seq := s_seq z + 1\<rparr> in
            if s_seq z1 \<ge> push_bit 31 1 then (z1, Inl RuntimeError)
            else (z1\<lparr>s_stage_next := (fst (s_stage_next z) + staged g FWD, snd (s_stage_next z) + staged g BWD),
                     s_work_next := s_work_next z + (items g * s_parts z + s_grid z)\<rparr>,
                  Inr \<lparr>geom = g, seq = s_seq z1, stage_base = s_stage_next z, work_base = s_work_next z\<rparr>))"

lemma steps_within_cap:
  assumes "geometry knd rws cm = Inr g" "rws \<le> mr" "cm = cr_max l" "mr = max_rows l"
  shows "steps g d \<le> steps_cap l" "0 \<le> steps g d"
proof -
  note wf = geometry_wf [OF assms(1)]
  note b = geometry_wf_bounds [OF wf(1)]
  have "q g \<le> mr div 4" using wf(1,3) assms(2) unfolding geometry_wf_def WORLD_def by presburger
  then have "cdiv (cdiv (q g) cm) 4 \<le> cdiv (cdiv (mr div 4) cm) 4"
    using wf(4) by (intro cdiv_mono) auto
  moreover have "nc g \<le> 4 * cdiv (cdiv (q g) cm) 4" using wf(1) unfolding geometry_wf_def by linarith
  ultimately have n: "nc g \<le> nc_max mr cm" by (simp add: nc_max_def Let_def)
  have "na g = nc g div 4" "nh g = nc g div 2" using wf(1) unfolding geometry_wf_def by blast+
  then have "2 * steps g d \<le> 3 * nc g + 3" using b unfolding steps_def nb_def by auto
  then show "steps g d \<le> steps_cap l" using n assms(3,4) unfolding steps_cap_def by simp
  show "0 \<le> steps g d" using b unfolding steps_def by auto
qed

fun run_calls :: "Sequencer \<Rightarrow> (int \<times> int) list \<Rightarrow> Call list" where
  "run_calls z [] = []"
| "run_calls z ((k, n) # cs) = (case next_call z k n of
     (z', Inl e) \<Rightarrow> run_calls z' cs | (z', Inr c) \<Rightarrow> c # run_calls z' cs)"

text \<open>
  With a valid kind and row count and sequence numbers left, issuing a call neither
  raises nor trips its steps_cap assertion, and yields a call with the expected number and
  bases.
\<close>

theorem next_call_total:
  assumes "s_seq z + 1 < push_bit 31 1" "knd \<in> {KIND_RS, KIND_AG}" "0 < rws" "rws mod WORLD = 0"
    "rws \<le> max_rows (s_layout z)" "1 \<le> cr_max (s_layout z)"
  shows "\<exists>z' c. next_call z knd rws = (z', Inr c) \<and> kind (geom c) = knd \<and> rows (geom c) = rws
    \<and> seq c = s_seq z + 1 \<and> s_seq z' = seq c \<and> stage_base c = s_stage_next z \<and> work_base c = s_work_next z"
proof -
  obtain g where g: "geometry knd rws (cr_max (s_layout z)) = Inr g"
    using assms(2-6) by (auto simp: geometry_def Let_def)
  from steps_within_cap [OF g assms(5) refl refl] geometry_wf(2,3) [OF g] g assms(1,5) show ?thesis
    by (auto simp: next_call_def Let_def)
qed


lemma next_call_Inr:
  assumes "next_call z k n = (z', Inr c)"
  shows "seq c = s_seq z + 1" "stage_base c = s_stage_next z" "work_base c = s_work_next z"
    "s_seq z' = seq c" "s_work_next z' = work_base c + (items (geom c) * s_parts z + s_grid z)"
    "s_stage_next z' = (fst (stage_base c) + staged (geom c) FWD, snd (stage_base c) + staged (geom c) BWD)"
    "s_layout z' = s_layout z" "s_parts z' = s_parts z" "s_grid z' = s_grid z" "seq c < push_bit 31 1"
    "geometry k n (cr_max (s_layout z)) = Inr (geom c)" "n \<le> max_rows (s_layout z)"
  using assms by (auto simp: next_call_def Let_def split: if_splits sum.splits)

lemma next_call_Inl:
  assumes "next_call z k n = (z', Inl e)"
  shows "z' = z \<or> (push_bit 31 1 \<le> s_seq z' \<and> s_stage_next z' = s_stage_next z)"
  using assms by (auto simp: next_call_def Let_def split: if_splits sum.splits)

lemma run_calls_exhausted: "push_bit 31 1 \<le> s_seq z + 1 \<Longrightarrow> run_calls z cs = []"
proof (induction z cs rule: run_calls.induct)
  case (2 z k n cs)
  obtain z' res where e: "next_call z k n = (z', res)" by force
  have "res \<noteq> Inr c" for c using next_call_Inr(1,10) [of z k n z' c] e 2(3) by auto
  then obtain er where res: "res = Inl er" by (cases res) auto
  from next_call_Inl [OF e [unfolded res]] 2(3) have "push_bit 31 1 \<le> s_seq z' + 1" by auto
  with 2(1) [OF e [symmetric] res] e res show ?case by simp
qed simp

lemma run_calls_first:
  "run_calls z cs = c # rest \<Longrightarrow> seq c = s_seq z + 1 \<and> stage_base c = s_stage_next z \<and> work_base c = s_work_next z"
proof (induction z cs rule: run_calls.induct)
  case (2 z k n cs)
  obtain z' res where e: "next_call z k n = (z', res)" by force
  show ?case
  proof (cases res)
    case (Inl er)
    then have "z' = z" using next_call_Inl [of z k n z' er] e 2(3) run_calls_exhausted [of z' cs] by auto
    with 2(1) [OF e [symmetric] Inl] 2(3) e Inl show ?thesis by simp
  next
    case (Inr d)
    then have "c = d" using 2(3) e by simp
    then show ?thesis using next_call_Inr [of z k n z' d] e Inr by simp
  qed
qed simp

text \<open>
  Consecutive calls issued by the sequencer have consecutive numbers, opposite parity,
  and staging and work ranges that start exactly where the previous call's end.
\<close>

theorem calls_do_not_overlap:
  assumes "Suc i < length (run_calls z cs)"
  shows "let c = run_calls z cs ! i; c' = run_calls z cs ! Suc i in
     seq c' = seq c + 1
     \<and> parity c' = 1 - parity c
     \<and> stage_base c' = (fst (stage_base c) + staged (geom c) FWD, snd (stage_base c) + staged (geom c) BWD)
     \<and> work_base c' = work_base c + items (geom c) * s_parts z + s_grid z"
  using assms
proof (induction z cs arbitrary: i rule: run_calls.induct)
  case (2 z k n cs)
  obtain z' res where e: "next_call z k n = (z', res)" by force
  show ?case
  proof (cases res)
    case (Inl er)
    then have "z' = z \<or> run_calls z' cs = []"
      using next_call_Inl [of z k n z' er] e run_calls_exhausted [of z' cs] by auto
    with 2(1) [OF e [symmetric] Inl, of i] 2(3) e Inl show ?thesis by auto
  next
    case (Inr c)
    note nx = next_call_Inr [OF e [unfolded Inr]]
    have run: "run_calls z ((k, n) # cs) = c # run_calls z' cs" using e Inr by simp
    show ?thesis
    proof (cases i)
      case 0
      then obtain c' rest where r: "run_calls z' cs = c' # rest" using 2(3) run by (cases "run_calls z' cs") auto
      from run_calls_first [OF r] nx have "seq c' = seq c + 1" by simp
      then have "parity c' = 1 - parity c" by (simp add: parity_def and_one_eq) presburger
      with run_calls_first [OF r] nx 0 run r show ?thesis by simp
    next
      case (Suc i')
      with 2(2) [OF e [symmetric] Inr, of i'] 2(3) run nx show ?thesis by simp
    qed
  qed
qed simp

theorem region_areas_disjoint_witness:
  "\<exists>l. layout 14336 32 16 = Inr l
     \<and> area_start l (RecvSlot 0 FWD 0) + area_size l (RecvSlot 0 FWD 0) \<le> total l"
proof -
  obtain l where l: "layout 14336 32 16 = Inr l" and p: "0 < steps_cap l"
    by (simp add: layout_def push_bit_eq_mult steps_cap_def nc_max_def cdiv_def Let_def)
  from region_areas_disjoint [OF l, of "RecvSlot 0 FWD 0" Poison] l p show ?thesis by auto
qed

theorem next_call_total_witness:
  "\<exists>l z' c. layout 14336 32 16 = Inr l \<and> next_call (sequencer l 32 4) KIND_RS 512 = (z', Inr c) \<and> seq c = 1"
proof -
  obtain l where l: "layout 14336 32 16 = Inr l" and m: "max_rows l = 14336" "cr_max l = 32"
    by (simp add: layout_def push_bit_eq_mult)
  from next_call_total [of "sequencer l 32 4" KIND_RS 512] l m show ?thesis
    by (auto simp: sequencer_def push_bit_eq_mult)
qed

theorem calls_do_not_overlap_witness:
  "let z = sequencer \<lparr>max_rows = 14336, cr_max = 32, nslot = 16\<rparr> 32 4;
       cs = run_calls z [(KIND_RS, 512), (7, 512), (KIND_AG, 512)]
   in Suc 0 < length cs \<and> seq (cs ! Suc 0) = seq (cs ! 0) + 1"
proof -
  define z where "z = sequencer \<lparr>max_rows = 14336, cr_max = 32, nslot = 16\<rparr> 32 4"
  define cs where "cs = run_calls z [(KIND_RS, 512), (7, 512), (KIND_AG, 512)]"
  have ok: "layout 14336 32 16 = Inr \<lparr>max_rows = 14336, cr_max = 32, nslot = 16\<rparr>"
    by (simp add: layout_def push_bit_eq_mult)
  obtain z1 c1 where c1: "next_call z KIND_RS 512 = (z1, Inr c1)"
    using next_call_total [of z KIND_RS 512] by (auto simp: z_def sequencer_def push_bit_eq_mult)
  note n1 = next_call_Inr [OF c1]
  have bad: "next_call z1 7 512 = (z1, Inl ValueError)"
    using n1(7) by (simp add: next_call_def geometry_def z_def sequencer_def)
  obtain z2 c2 where c2: "next_call z1 KIND_AG 512 = (z2, Inr c2)"
    using next_call_total [of z1 KIND_AG 512] n1(1,4,7) by (auto simp: z_def sequencer_def push_bit_eq_mult)
  have "cs = [c1, c2]" using c1 bad c2 by (simp add: cs_def)
  then have "Suc 0 < length cs" by simp
  moreover from calls_do_not_overlap [OF this [unfolded cs_def]]
  have "seq (cs ! Suc 0) = seq (cs ! 0) + 1" unfolding Let_def cs_def by blast
  ultimately show ?thesis unfolding Let_def z_def [symmetric] cs_def [symmetric] by blast
qed

end
