(* ===== verification/Bf16_Word.thy ===== *)
theory Bf16_Word
  imports Ringside_Prelude "HOL-Library.Word"
begin

unbundle bit_operations_syntax

text \<open>
  Rounding a binary32 pattern to BF16 (\<open>bf16_round\<close> of \<open>protocol.py\<close>), on 32-bit words.
\<close>

definition bf16_round :: "32 word \<Rightarrow> 32 word" where
  "bf16_round bits =
     (if bits AND 0x7F800000 = 0x7F800000
      then (bits AND 0xFFFF0000) OR (if bits AND 0x7FFFFF \<noteq> 0 then 0x400000 else 0)
      else (bits + 0x7FFF + (drop_bit 16 bits AND 1)) AND 0xFFFF0000)"

lemma unat_word32: "unat (w :: 32 word) < 4294967296"
proof -
  have "unat w < 2 ^ LENGTH(32)" by (rule unsigned_less)
  then show ?thesis by simp
qed

lemma high_half: "w AND 0xFFFF0000 = push_bit 16 (drop_bit 16 (w :: 32 word))"
proof -
  have "(0xFFFF0000 :: 32 word) = NOT (mask 16)" by (simp add: mask_eq_exp_minus_1)
  then have "w AND 0xFFFF0000 = w AND NOT (mask 16)" by (simp only:)
  also have "\<dots> = push_bit 16 (drop_bit 16 w)"
    by (rule bit_word_eqI) (auto simp: bit_simps)
  finally show ?thesis .
qed

lemma unat_high_half: "unat (w AND 0xFFFF0000 :: 32 word) = unat w div 65536 * 65536"
proof -
  have "unat (push_bit 16 (drop_bit 16 w)) = take_bit 32 (unat w div 65536 * 65536)"
    unfolding unsigned_push_bit_eq unat_drop_bit_eq by (simp add: push_bit_eq_mult drop_bit_eq_div)
  moreover have "unat w div 65536 * 65536 < 2 ^ 32" using unat_word32 [of w] by simp
  ultimately show ?thesis by (simp only: high_half take_bit_nat_eq_self)
qed

lemma exponent_bits:
  "w AND 0x7F800000 = (0x7F800000 :: 32 word) \<longleftrightarrow> unat w div 2 ^ 23 mod 2 ^ 8 = 255"
proof -
  have m: "(0x7F800000 :: 32 word) = push_bit 23 (mask 8)" by (simp add: mask_eq_exp_minus_1 push_bit_eq_mult)
  have "w AND push_bit 23 (mask 8) = push_bit 23 (mask 8) \<longleftrightarrow> (\<forall>n < 8. bit w (23 + n))"
  proof
    assume e: "w AND push_bit 23 (mask 8) = push_bit 23 (mask 8)"
    show "\<forall>n < 8. bit w (23 + n)"
    proof (intro allI impI)
      fix n :: nat assume "n < 8"
      then have "bit (push_bit 23 (mask 8) :: 32 word) (23 + n)" by (simp add: bit_simps)
      with e show "bit w (23 + n)" by (metis bit_and_iff)
    qed
  next
    assume a: "\<forall>n < 8. bit w (23 + n)"
    show "w AND push_bit 23 (mask 8) = push_bit 23 (mask 8)"
    proof (rule bit_word_eqI)
      fix n assume "n < LENGTH(32)"
      show "bit (w AND push_bit 23 (mask 8)) n = bit (push_bit 23 (mask 8) :: 32 word) n"
        using a [rule_format, of "n - 23"] by (auto simp: bit_simps)
    qed
  qed
  also have "\<dots> \<longleftrightarrow> take_bit 8 (drop_bit 23 w) = (mask 8 :: 32 word)"
    by (simp add: bit_eq_iff bit_simps) (metis less_trans numeral_less_iff rel_simps(29) semiring_norm(76) semiring_norm(78) semiring_norm(80) semiring_norm(81))
  also have "\<dots> \<longleftrightarrow> unat (take_bit 8 (drop_bit 23 w)) = unat (mask 8 :: 32 word)"
    by (simp add: word_unat_eq_iff)
  also have "unat (take_bit 8 (drop_bit 23 w)) = unat w div 2 ^ 23 mod 2 ^ 8"
    unfolding unsigned_take_bit_eq unat_drop_bit_eq by (simp add: drop_bit_eq_div take_bit_eq_mod)
  also have "unat (mask 8 :: 32 word) = 255" by (simp add: mask_eq_exp_minus_1)
  finally show ?thesis unfolding m .
qed

lemma lsb_nat: "unat (drop_bit 16 (w :: 32 word) AND 1) = unat w div 65536 mod 2"
  unfolding and_one_eq unat_mod unat_drop_bit_eq by (simp add: drop_bit_eq_div)

text \<open>Rounding of a finite pattern in terms of its unsigned value: up from half, ties to even.\<close>

lemma bf16_round_finite:
  assumes "bits AND 0x7F800000 \<noteq> (0x7F800000 :: 32 word)"
  shows "unat (bf16_round bits) = (unat bits + 32767 + unat bits div 65536 mod 2) div 65536 * 65536"
proof -
  have "unat bits div 2 ^ 23 mod 2 ^ 8 \<noteq> 255" using assms unfolding exponent_bits .
  moreover have "unat bits div 2 ^ 23 = 511" if "511 * 2 ^ 23 \<le> unat bits"
    using that unat_word32 [of bits] by (intro div_nat_eqI) simp_all
  ultimately have lt: "unat bits < 511 * 2 ^ 23" by (cases "511 * 2 ^ 23 \<le> unat bits") auto
  have "unat (bits + 0x7FFF + (drop_bit 16 bits AND 1)) = unat bits + 32767 + unat bits div 65536 mod 2"
  proof -
    have "unat (bits + 0x7FFF + (drop_bit 16 bits AND 1)) =
        (unat bits + 32767 + unat bits div 65536 mod 2) mod 2 ^ 32"
      by (simp add: unat_word_ariths lsb_nat mod_simps)
    moreover have "unat bits div 65536 mod 2 < 2" by simp
    ultimately show ?thesis using lt by simp
  qed
  then show ?thesis using assms by (simp add: bf16_round_def unat_high_half)
qed

text \<open>
  C23. Rounding a finite binary32 pattern to BF16 clears the low half, moves the pattern by at
  most half a unit, breaks ties to even and fixes BF16 patterns.
\<close>

theorem bf16_round_nearest_even:
  assumes "bits AND 0x7F800000 \<noteq> (0x7F800000 :: 32 word)"
  shows "unat (bf16_round bits) mod 65536 = 0
    \<and> \<bar>int (unat (bf16_round bits)) - int (unat bits)\<bar> \<le> 32768
    \<and> (unat bits mod 65536 = 32768 \<longrightarrow> even (unat (bf16_round bits) div 65536))
    \<and> (unat bits mod 65536 = 0 \<longrightarrow> bf16_round bits = bits)"
proof -
  define k l where "k = unat bits div 65536" and "l = unat bits mod 65536"
  have u: "unat bits = 65536 * k + l" "l < 65536" by (simp_all add: k_def l_def)
  have "k mod 2 < 2" by simp
  then have r: "unat (bf16_round bits) = (if l + k mod 2 \<le> 32768 then k else k + 1) * 65536"
    using u(2) unfolding bf16_round_finite [OF assms] k_def [symmetric] u(1)
    by (auto intro!: div_nat_eqI)
  show ?thesis
  proof (intro conjI impI)
    show "unat (bf16_round bits) mod 65536 = 0" by (simp add: r)
    show "\<bar>int (unat (bf16_round bits)) - int (unat bits)\<bar> \<le> 32768"
      using u \<open>k mod 2 < 2\<close> by (auto simp: r)
    assume "unat bits mod 65536 = 32768"
    then show "even (unat (bf16_round bits) div 65536)" by (simp add: r l_def [symmetric]) presburger
  next
    assume "unat bits mod 65536 = 0"
    then have "unat (bf16_round bits) = unat bits"
      using u \<open>k mod 2 < 2\<close> by (simp add: r l_def [symmetric])
    then show "bf16_round bits = bits" by (simp only: word_unat_eq_iff)
  qed
qed

theorem bf16_round_nearest_even_witness: "bf16_round 0x3F810000 = 0x3F810000"
  using bf16_round_nearest_even [of "0x3F810000"] by simp

end
