(* ===== verification/Speedup_Geometry.thy ===== *)
theory Speedup_Geometry
  imports Ringside_Prelude
begin

text \<open>
  The immutable shape of the speedup lane and what is derived from it: \<open>geometry.py\<close> (slot and
  proposal-length bounds, capture axes), \<open>adaptive_chunk.py\<close> (the prefill cap by decoder count),
  \<open>DecodeShape\<close> and \<open>decode_shapes\<close> of \<open>policy.py\<close>, and the graph descriptors of \<open>graphs.py\<close>,
  all under \<open>src/src/tp4/glm53_speedup\<close>.
\<close>

section \<open>Geometry and capture axes\<close>

record speed_geometry =
  max_requests :: int
  max_k :: int

definition speed_geometry :: "int \<Rightarrow> int \<Rightarrow> speed_geometry py" where
  "speed_geometry mr mk =
     py_guard (\<not> (1 \<le> mr \<and> mr \<le> 16)) ValueError
       (py_guard (\<not> (1 \<le> mk \<and> mk \<le> 8)) ValueError (Inr \<lparr>max_requests = mr, max_k = mk\<rparr>))"

definition geometry_ks :: "speed_geometry \<Rightarrow> int list" where
  "geometry_ks g = [1..max_k g]"

definition runtime_geometry :: "string option \<Rightarrow> int \<Rightarrow> int \<Rightarrow> speed_geometry py" where
  "runtime_geometry selector_env mr mk =
     py_bind (speed_geometry mr mk) (\<lambda>g.
       let selector = (case selector_env of None \<Rightarrow> ''0'' | Some s \<Rightarrow> s) in
       py_guard (selector \<notin> {''0'', ''1''}) ValueError
         (py_guard (selector \<noteq> ''1'' \<and> g \<noteq> \<lparr>max_requests = 6, max_k = 4\<rparr>) ValueError (Inr g)))"

definition capture_axis :: "int list option \<Rightarrow> int \<Rightarrow> int list py" where
  "capture_axis values limit =
     (case values of None \<Rightarrow> Inr [1..limit]
      | Some vs \<Rightarrow>
          py_guard (vs = []) ValueError
            (py_guard (\<not> list_all (\<lambda>x. 1 \<le> x \<and> x \<le> limit) vs \<or> sort (remdups vs) \<noteq> vs) ValueError (Inr vs)))"

definition capture_axes ::
  "int \<Rightarrow> int \<Rightarrow> int list option \<Rightarrow> int list option \<Rightarrow> (int list \<times> int list) py" where
  "capture_axes mr mk requests ks =
     py_bind (speed_geometry mr mk) (\<lambda>_.
       py_bind (capture_axis requests mr) (\<lambda>rs.
         py_bind (capture_axis ks mk) (\<lambda>kk.
           py_guard (mk \<notin> set kk) ValueError (Inr (rs, kk)))))"

text \<open>\<open>s.isdecimal() and str(int(s)) == s\<close> of the source: digits without a leading zero.\<close>

definition canonical_nat :: "string \<Rightarrow> bool" where
  "canonical_nat s \<longleftrightarrow> s \<noteq> [] \<and> list_all py_digit s \<and> (s = ''0'' \<or> hd s \<noteq> CHR ''0'')"

definition read_axis :: "string option \<Rightarrow> int list option py" where
  "read_axis v =
     (case v of None \<Rightarrow> Inr None
      | Some s \<Rightarrow> py_guard (s = [] \<or> \<not> list_all canonical_nat (split_on (CHR '','') s)) ValueError
                    (Inr (Some (map (int \<circ> py_nat) (split_on (CHR '','') s)))))"

definition capture_axes_from_env ::
  "string option \<Rightarrow> string option \<Rightarrow> int \<Rightarrow> int \<Rightarrow> (int list \<times> int list) py" where
  "capture_axes_from_env requests_env ks_env mr mk =
     py_bind (read_axis requests_env) (\<lambda>rs. py_bind (read_axis ks_env) (\<lambda>kk. capture_axes mr mk rs kk))"

section \<open>The adaptive prefill cap\<close>

definition chunk_cap :: "int \<Rightarrow> int \<Rightarrow> bool \<Rightarrow> int \<Rightarrow> int py" where
  "chunk_cap configured decoders enabled mr =
     py_bind (speed_geometry mr 4) (\<lambda>_.
       py_guard (\<not> (0 \<le> decoders \<and> decoders \<le> mr)) ValueError
         (if \<not> enabled then Inr configured
          else py_guard (configured \<noteq> 4608) ValueError (Inr (if 5 \<le> decoders then 2304 else 4608))))"

section \<open>Decode shapes\<close>

record decode_shape =
  concurrency :: int
  shape_k :: int

definition shape_query_len :: "decode_shape \<Rightarrow> int" where
  "shape_query_len s = shape_k s + 1"

definition shape_tokens :: "decode_shape \<Rightarrow> int" where
  "shape_tokens s = concurrency s * shape_query_len s"

definition decode_shapes ::
  "string \<Rightarrow> int \<Rightarrow> int \<Rightarrow> int list option \<Rightarrow> int list option \<Rightarrow> decode_shape list py" where
  "decode_shapes scope mr mk requests ks =
     py_guard (scope \<notin> {''off'', ''c1c2'', ''all''}) ValueError
       (py_bind (capture_axes mr mk requests ks) (\<lambda>(rs, kk). Inr
         (concat (map (\<lambda>c. map (\<lambda>k. \<lparr>concurrency = c, shape_k = k\<rparr>)
            (if c \<in> set rs \<and> (scope = ''all'' \<or> scope = ''c1c2'' \<and> c \<le> 2) then kk else [mk])) [1..mr]))))"

section \<open>Graph descriptors\<close>

datatype cg_mode = FULL | PIECEWISE | NO_GRAPH

record descriptor =
  cg_mode :: cg_mode
  d_num_tokens :: int
  d_num_reqs :: int
  d_uniform :: "int option"
  d_max_query :: "int option"

definition eligible_descriptor ::
  "bool \<Rightarrow> descriptor \<Rightarrow> int \<Rightarrow> int \<Rightarrow> int option \<Rightarrow> int \<Rightarrow> bool" where
  "eligible_descriptor tails d requests tokens query max_query =
     (if tails \<and> cg_mode d = PIECEWISE \<and> d_num_tokens d \<in> {64, 128}
      then requests = 1 \<and> tokens = d_num_tokens d \<and> max_query = tokens
           \<and> (query = None \<or> query = Some (d_num_tokens d))
      else True)"

text \<open>What \<open>extend_candidates\<close> reads of the graph manager and of the environment.\<close>

record graph_manager =
  model_manager :: bool
  decode_query_len :: int
  config_spec_tokens :: "int option"
  max_num_reqs :: int
  tp_size :: int
  varlen_decode :: bool
  decode_mode :: cg_mode
  mixed_mode :: cg_mode
  use_breakable :: bool

record graph_env =
  env_capture :: string
  env_tails :: bool
  env_joint :: string
  env_geometry :: "string option"
  env_requests :: "string option"
  env_ks :: "string option"

type_synonym by_mode = "cg_mode \<Rightarrow> descriptor list"

definition add_descriptor :: "cg_mode \<Rightarrow> by_mode \<Rightarrow> descriptor \<Rightarrow> by_mode" where
  "add_descriptor m b d = (if d \<in> set (b m) then b else b(m := b m @ [d]))"

definition shape_descriptor :: "decode_shape \<Rightarrow> descriptor" where
  "shape_descriptor s =
     \<lparr>cg_mode = FULL, d_num_tokens = shape_tokens s, d_num_reqs = concurrency s,
      d_uniform = Some (shape_query_len s), d_max_query = None\<rparr>"

definition tail_descriptor :: "int \<Rightarrow> descriptor" where
  "tail_descriptor n =
     \<lparr>cg_mode = PIECEWISE, d_num_tokens = n, d_num_reqs = 1, d_uniform = None, d_max_query = Some n\<rparr>"

definition add_shapes :: "by_mode \<Rightarrow> decode_shape list \<Rightarrow> by_mode" where
  "add_shapes b shapes = foldl (\<lambda>b s. add_descriptor FULL b (shape_descriptor s)) b shapes"

definition add_tails :: "by_mode \<Rightarrow> by_mode" where
  "add_tails b = foldl (\<lambda>b n. add_descriptor PIECEWISE b (tail_descriptor n)) b [64, 128]"

text \<open>The checks before the first descriptor is added, and the geometry they establish.\<close>

definition extend_checks :: "graph_env \<Rightarrow> graph_manager \<Rightarrow> speed_geometry py" where
  "extend_checks v m =
     py_guard (env_joint v \<notin> {''0'', ''1''}) ValueError
       (let k = (case config_spec_tokens m of None \<Rightarrow> decode_query_len m - 1 | Some k \<Rightarrow> k) in
        py_guard (decode_query_len m \<noteq> k + 1) ValueError
          (py_bind (runtime_geometry (env_geometry v) (max_num_reqs m) k) (\<lambda>g.
             py_guard (tp_size m \<notin> {2, 4}) ValueError
               (py_guard (env_joint v = ''1'' \<and> (tp_size m \<noteq> 4 \<or> g \<noteq> \<lparr>max_requests = 6, max_k = 4\<rparr>)) ValueError
                 (py_guard (env_joint v = ''1'' \<and> (env_capture v \<noteq> ''all'' \<or> env_tails v)) ValueError
                   (py_guard (varlen_decode m) ValueError (Inr g)))))))"

definition extend_full :: "graph_env \<Rightarrow> graph_manager \<Rightarrow> speed_geometry \<Rightarrow> by_mode \<Rightarrow> by_mode py" where
  "extend_full v m g b =
     (if env_capture v = ''off'' then Inr b
      else py_guard (decode_mode m \<noteq> FULL) ValueError
        (py_bind (capture_axes_from_env (env_requests v) (env_ks v) (max_requests g) (max_k g)) (\<lambda>(rs, kk).
          py_bind (decode_shapes (env_capture v) (max_requests g) (max_k g) (Some rs) (Some kk)) (\<lambda>shapes.
            Inr (add_shapes b shapes)))))"

definition extend_tails :: "graph_env \<Rightarrow> graph_manager \<Rightarrow> by_mode \<Rightarrow> by_mode py" where
  "extend_tails v m b =
     (if \<not> env_tails v then Inr b
      else py_guard (mixed_mode m \<noteq> PIECEWISE) ValueError
        (py_guard (\<not> use_breakable m) ValueError (Inr (add_tails b))))"

text \<open>The candidate lists after the call, and how it ended: a failed tail check leaves the decode
  descriptors that were added before it.\<close>

definition extend_candidates :: "graph_env \<Rightarrow> graph_manager \<Rightarrow> by_mode \<Rightarrow> by_mode \<times> unit py" where
  "extend_candidates v m b =
     (if \<not> model_manager m \<or> (env_capture v = ''off'' \<and> \<not> env_tails v) then (b, Inr ())
      else case extend_checks v m of Inl e \<Rightarrow> (b, Inl e)
      | Inr g \<Rightarrow> (case extend_full v m g b of Inl e \<Rightarrow> (b, Inl e)
        | Inr b1 \<Rightarrow> (case extend_tails v m b1 of Inl e \<Rightarrow> (b1, Inl e) | Inr b2 \<Rightarrow> (b2, Inr ()))))"

section \<open>Properties\<close>

lemma capture_axis_Inr:
  assumes "capture_axis v limit = Inr xs" "1 \<le> limit"
  shows "xs \<noteq> []" "sorted xs" "distinct xs" "\<forall>x \<in> set xs. 1 \<le> x \<and> x \<le> limit"
proof -
  have s: "sorted xs \<and> distinct xs" if "sort (remdups xs) = xs" for xs :: "int list"
    using that by (metis distinct_remdups distinct_sort sorted_sort)
  show "xs \<noteq> []" "sorted xs" "distinct xs" "\<forall>x \<in> set xs. 1 \<le> x \<and> x \<le> limit"
    using assms s by (auto simp: capture_axis_def list_all_iff split: option.splits)
qed

lemma capture_axes_Inr:
  assumes "capture_axes mr mk rq ks = Inr (rs, kk)"
  shows "capture_axis rq mr = Inr rs" "capture_axis ks mk = Inr kk" "mk \<in> set kk"
    "1 \<le> mr" "mr \<le> 16" "1 \<le> mk" "mk \<le> 8"
  using assms by (auto simp: capture_axes_def speed_geometry_def)

lemma decode_shapes_mem:
  assumes "capture_axes mr mk rq ks = Inr (rs, kk)" "decode_shapes scope mr mk rq ks = Inr shapes"
  shows "s \<in> set shapes \<longleftrightarrow> concurrency s \<in> {1..mr} \<and> shape_k s \<in>
    set (if concurrency s \<in> set rs \<and> (scope = ''all'' \<or> scope = ''c1c2'' \<and> concurrency s \<le> 2) then kk else [mk])"
proof -
  let ?ks = "\<lambda>c. if c \<in> set rs \<and> (scope = ''all'' \<or> scope = ''c1c2'' \<and> c \<le> 2) then kk else [mk]"
  have sh: "shapes = concat (map (\<lambda>c. map (\<lambda>k. \<lparr>concurrency = c, shape_k = k\<rparr>) (?ks c)) [1..mr])"
    using assms unfolding decode_shapes_def by simp
  have "s \<in> set (concat (map (\<lambda>c. map (\<lambda>k. \<lparr>concurrency = c, shape_k = k\<rparr>) (f c)) cs))
      \<longleftrightarrow> concurrency s \<in> set cs \<and> shape_k s \<in> set (f (concurrency s))" for f and cs :: "int list"
    by (cases s) auto
  from this [of ?ks "[1..mr]"] show ?thesis unfolding sh set_upto .
qed

text \<open>
  The decode shapes are distinct, within the geometry and its token bound, and contain
  the native K for every concurrency.
\<close>

theorem decode_shapes_complete:
  assumes "decode_shapes scope mr mk rq ks = Inr shapes"
  shows "distinct shapes
    \<and> (\<forall>s \<in> set shapes. 1 \<le> concurrency s \<and> concurrency s \<le> mr \<and> 1 \<le> shape_k s \<and> shape_k s \<le> mk
         \<and> shape_tokens s \<le> mr * (mk + 1))
    \<and> (\<forall>c. 1 \<le> c \<and> c \<le> mr \<longrightarrow> \<lparr>concurrency = c, shape_k = mk\<rparr> \<in> set shapes)
    \<and> (scope = ''off'' \<longrightarrow> (\<forall>s \<in> set shapes. shape_k s = mk))"
proof -
  obtain rs kk where ax: "capture_axes mr mk rq ks = Inr (rs, kk)"
    and sh: "shapes = concat (map (\<lambda>c. map (\<lambda>k. \<lparr>concurrency = c, shape_k = k\<rparr>)
            (if c \<in> set rs \<and> (scope = ''all'' \<or> scope = ''c1c2'' \<and> c \<le> 2) then kk else [mk])) [1..mr])"
    using assms unfolding decode_shapes_def by auto
  note A = capture_axes_Inr [OF ax]
  note K = capture_axis_Inr [OF A(2) A(6)]
  let ?ks = "\<lambda>c. if c \<in> set rs \<and> (scope = ''all'' \<or> scope = ''c1c2'' \<and> c \<le> 2) then kk else [mk]"
  have mem: "s \<in> set shapes \<longleftrightarrow> concurrency s \<in> {1..mr} \<and> shape_k s \<in> set (?ks (concurrency s))" for s
    using decode_shapes_mem [OF ax assms] .
  have ks: "\<forall>k \<in> set (?ks c). 1 \<le> k \<and> k \<le> mk" "mk \<in> set (?ks c)" "distinct (?ks c)" for c using K A by auto
  have "distinct shapes"
    unfolding sh using ks(3) K(1) by (intro distinct_concat) (auto simp: distinct_map inj_on_def)
  moreover have "shape_tokens s \<le> mr * (mk + 1)" if "s \<in> set shapes" for s
  proof -
    have "concurrency s * (shape_k s + 1) \<le> mr * (mk + 1)"
      using that ks(1) A unfolding mem by (intro mult_mono) force+
    then show ?thesis by (simp add: shape_tokens_def shape_query_len_def)
  qed
  moreover have "1 \<le> concurrency s \<and> concurrency s \<le> mr \<and> 1 \<le> shape_k s \<and> shape_k s \<le> mk
      \<and> (scope = ''off'' \<longrightarrow> shape_k s = mk)" if "s \<in> set shapes" for s
    using that ks(1) [of "concurrency s"] unfolding mem by auto
  moreover have "\<lparr>concurrency = c, shape_k = mk\<rparr> \<in> set shapes" if "1 \<le> c" "c \<le> mr" for c
    using that ks(2) [of c] unfolding mem by simp
  ultimately show ?thesis by blast
qed

theorem chunk_cap_values:
  assumes "chunk_cap configured decoders enabled mr = Inr cap"
  shows "cap \<le> configured \<and> (cap \<noteq> configured \<longrightarrow> 5 \<le> decoders \<and> cap = 2304)
    \<and> (enabled \<longrightarrow> configured = 4608 \<and> cap \<in> {2304, 4608})"
  using assms by (auto simp: chunk_cap_def split: if_splits)

theorem tail_graph_exact:
  assumes "cg_mode d = PIECEWISE" "d_num_tokens d \<in> {64, 128}" "eligible_descriptor True d requests tokens query mq"
  shows "requests = 1 \<and> tokens = d_num_tokens d \<and> mq = tokens \<and> query \<in> {None, Some tokens}"
  using assms by (auto simp: eligible_descriptor_def)

lemma add_descriptor_mono: "set (b m) \<subseteq> set (add_descriptor m' b d m)"
  by (auto simp: add_descriptor_def)

lemma add_descriptor_distinct: "distinct (b m) \<Longrightarrow> distinct (add_descriptor m' b d m)"
  by (auto simp: add_descriptor_def)

lemma foldl_add_descriptor:
  "set (b m) \<subseteq> set (foldl (\<lambda>b x. add_descriptor m' b (f x)) b xs m)
   \<and> (distinct (b m) \<longrightarrow> distinct (foldl (\<lambda>b x. add_descriptor m' b (f x)) b xs m))
   \<and> set (foldl (\<lambda>b x. add_descriptor m' b (f x)) b xs m') = set (b m') \<union> f ` set xs"
proof (induction xs arbitrary: b)
  case (Cons x xs)
  have "set (add_descriptor m' b (f x) m') = insert (f x) (set (b m'))" by (auto simp: add_descriptor_def)
  with Cons [of "add_descriptor m' b (f x)"] add_descriptor_mono [of b m m' "f x"]
    add_descriptor_distinct [of b m m' "f x"] show ?case by auto
qed simp

text \<open>Whatever happens, no candidate is lost and none is listed twice; when the call succeeds with an
  active scope, every shape of the scope has its full-graph descriptor.\<close>

text \<open>
  Extending the capture candidates never removes or duplicates a descriptor, and on
  success every decode shape of the scope has its full graph descriptor.
\<close>

theorem extend_candidates_safe:
  assumes "extend_candidates v m b = (b', res)" "\<forall>k. distinct (b k)"
  shows "(\<forall>k. set (b k) \<subseteq> set (b' k) \<and> distinct (b' k))
    \<and> (res = Inr () \<and> model_manager m \<and> env_capture v \<noteq> ''off'' \<longrightarrow>
        (\<exists>g shapes rs kk. extend_checks v m = Inr g
          \<and> decode_shapes (env_capture v) (max_requests g) (max_k g) (Some rs) (Some kk) = Inr shapes
          \<and> (\<forall>s \<in> set shapes. shape_descriptor s \<in> set (b' FULL))))"
proof -
  have tails: "set (c k) \<subseteq> set (add_tails c k) \<and> (distinct (c k) \<longrightarrow> distinct (add_tails c k))" for c k
    using foldl_add_descriptor [where m' = PIECEWISE and b = c and m = k and f = tail_descriptor and xs = "[64, 128]"]
    unfolding add_tails_def by blast
  have shapes: "set (c k) \<subseteq> set (add_shapes c ss k) \<and> (distinct (c k) \<longrightarrow> distinct (add_shapes c ss k))" for c k ss
    using foldl_add_descriptor [where m' = FULL and b = c and m = k and f = shape_descriptor and xs = ss]
    unfolding add_shapes_def by blast
  have full: "\<forall>s \<in> set ss. shape_descriptor s \<in> set (add_shapes c ss FULL)" for c ss
    using foldl_add_descriptor [where m' = FULL and b = c and m = FULL and f = shape_descriptor and xs = ss]
    unfolding add_shapes_def by blast
  show ?thesis
  proof (cases "\<not> model_manager m \<or> (env_capture v = ''off'' \<and> \<not> env_tails v)")
    case True
    then show ?thesis using assms by (auto simp: extend_candidates_def)
  next
    case False
    show ?thesis
    proof (cases "extend_checks v m")
      case (Inl e)
      then show ?thesis using assms False by (auto simp: extend_candidates_def)
    next
      case (Inr g)
      show ?thesis
      proof (cases "extend_full v m g b")
        case (Inl e)
        then show ?thesis using assms False Inr by (auto simp: extend_candidates_def)
      next
        case b1: (Inr b1)
        have 1: "(env_capture v = ''off'' \<and> b1 = b) \<or> (\<exists>rs kk ss. b1 = add_shapes b ss
            \<and> decode_shapes (env_capture v) (max_requests g) (max_k g) (Some rs) (Some kk) = Inr ss)"
          using b1 by (auto simp: extend_full_def split: if_splits)
        have 2: "(b' = b1 \<and> (res = Inr () \<longrightarrow> \<not> env_tails v)) \<or> b' = add_tails b1"
          using assms(1) False Inr b1 by (auto simp: extend_candidates_def extend_tails_def split: if_splits sum.splits)
        have m1: "set (b k) \<subseteq> set (b1 k) \<and> distinct (b1 k)" for k using 1 shapes assms(2) by blast
        have m2: "set (b1 k) \<subseteq> set (b' k) \<and> distinct (b' k)" for k using 2 tails m1 by blast
        have "\<exists>rs kk ss. decode_shapes (env_capture v) (max_requests g) (max_k g) (Some rs) (Some kk) = Inr ss
          \<and> (\<forall>s \<in> set ss. shape_descriptor s \<in> set (b' FULL))"
          if "env_capture v \<noteq> ''off''"
          using 1 full m2 [of FULL] that by blast
        then show ?thesis using m1 m2 Inr by blast
      qed
    qed
  qed
qed

section \<open>Concrete instances\<close>

theorem decode_shapes_complete_witness:
  "\<exists>shapes. decode_shapes ''c1c2'' 6 4 None None = Inr shapes \<and> \<lparr>concurrency = 6, shape_k = 4\<rparr> \<in> set shapes"
proof -
  obtain shapes where s: "decode_shapes ''c1c2'' 6 4 None None = Inr shapes"
    by (simp add: decode_shapes_def capture_axes_def capture_axis_def speed_geometry_def)
  from decode_shapes_complete [OF s] s show ?thesis by auto
qed

theorem chunk_cap_values_witness: "chunk_cap 4608 5 True 6 = Inr 2304"
proof -
  obtain cap where c: "chunk_cap 4608 5 True 6 = Inr cap" and "cap \<noteq> 4608"
    by (simp add: chunk_cap_def speed_geometry_def)
  with chunk_cap_values [OF c] show ?thesis by simp
qed

theorem tail_graph_exact_witness:
  "\<not> eligible_descriptor True \<lparr>cg_mode = PIECEWISE, d_num_tokens = 64, d_num_reqs = 1, d_uniform = None,
      d_max_query = Some 64\<rparr> 1 63 None 63"
  using tail_graph_exact [of "\<lparr>cg_mode = PIECEWISE, d_num_tokens = 64, d_num_reqs = 1, d_uniform = None,
      d_max_query = Some 64\<rparr>" 1 63 None 63] by auto

definition demo_manager :: graph_manager where
  "demo_manager = \<lparr>model_manager = True, decode_query_len = 5, config_spec_tokens = None, max_num_reqs = 6,
     tp_size = 4, varlen_decode = False, decode_mode = FULL, mixed_mode = PIECEWISE, use_breakable = True\<rparr>"

definition demo_env :: graph_env where
  "demo_env = \<lparr>env_capture = ''all'', env_tails = True, env_joint = ''0'', env_geometry = None,
     env_requests = None, env_ks = Some ''1,2,4''\<rparr>"

theorem extend_candidates_safe_witness:
  "\<exists>b'. extend_candidates demo_env demo_manager (\<lambda>_. []) = (b', Inr ()) \<and> (\<forall>k. distinct (b' k))"
proof -
  obtain b' res where e: "extend_candidates demo_env demo_manager (\<lambda>_. []) = (b', res)" by force
  have "isl (snd (extend_candidates demo_env demo_manager (\<lambda>_. []))) = False" by code_simp
  with e have "res = Inr ()" by (cases res) auto
  with extend_candidates_safe [OF e] e show ?thesis by auto
qed

end
