(* ===== verification/Float64.thy ===== *)
theory Float64
  imports Ringside_Prelude "HOL-Library.Log_Nat"
begin

text \<open>
  Python's floats as the policy uses them: a finite binary64 value is the rational it denotes, and an
  operation is the exact result rounded to nearest, ties to even, with 53 bits and the smallest
  exponent of the subnormals. Overflow to infinity is not modelled; the policy's values stay far
  below it.
\<close>

definition ilog2 :: "rat \<Rightarrow> int" where
  "ilog2 x = (case quotient_of x of (p, r) \<Rightarrow>
     let d = bitlen p - bitlen r in if power_int 2 d \<le> x then d else d - 1)"

definition round_half_even :: "rat \<Rightarrow> int" where
  "round_half_even x =
     (let f = \<lfloor>x\<rfloor>; r = x - of_int f
      in if r < 1 / 2 then f else if 1 / 2 < r then f + 1 else if even f then f else f + 1)"

definition fl64 :: "rat \<Rightarrow> rat" where
  "fl64 x =
     (if x = 0 then 0
      else let u = power_int 2 (max (ilog2 \<bar>x\<bar> - 52) (- 1074))
           in sgn x * (of_int (round_half_even (\<bar>x\<bar> / u)) * u))"

text \<open>The doubles nearest to the literals \<open>.8\<close> and \<open>.2\<close>.\<close>

definition lit_08 :: rat where "lit_08 = 3602879701896397 / 4503599627370496"
definition lit_02 :: rat where "lit_02 = 3602879701896397 / 18014398509481984"

lemma lit_08_nearest: "fl64 (8 / 10) = lit_08" and lit_02_nearest: "fl64 (2 / 10) = lit_02"
  by code_simp+

section \<open>Rounding\<close>

lemma round_half_even_of_int [simp]: "round_half_even (of_int n) = n"
  by (simp add: round_half_even_def Let_def)

lemma round_half_even_mono:
  assumes "x \<le> y"
  shows "round_half_even x \<le> round_half_even y"
proof (cases "\<lfloor>x\<rfloor> = \<lfloor>y\<rfloor>")
  case True
  then show ?thesis using assms unfolding round_half_even_def Let_def by auto
next
  case False
  then have "\<lfloor>x\<rfloor> + 1 \<le> \<lfloor>y\<rfloor>" using floor_mono [OF assms] by linarith
  moreover have "round_half_even x \<le> \<lfloor>x\<rfloor> + 1" "\<lfloor>y\<rfloor> \<le> round_half_even y"
    unfolding round_half_even_def Let_def by auto
  ultimately show ?thesis by linarith
qed

lemma bitlen_bounds_rat:
  assumes "0 < p"
  shows "power_int 2 (bitlen p - 1) \<le> (of_int p :: rat)" "of_int p < (power_int 2 (bitlen p) :: rat)"
proof -
  have b: "0 < bitlen p" "2 ^ nat (bitlen p - 1) \<le> p" "p < 2 ^ nat (bitlen p)"
    using bitlen_bounds [OF assms] assms bitlen_nonneg [of p] bitlen_eq_zero_iff [of p] by linarith+
  have i: "power_int 2 (bitlen p - 1) = (of_int (2 ^ nat (bitlen p - 1)) :: rat)"
    "power_int 2 (bitlen p) = (of_int (2 ^ nat (bitlen p)) :: rat)"
    using b(1) by (simp_all add: power_int_def)
  show "power_int 2 (bitlen p - 1) \<le> (of_int p :: rat)" "of_int p < (power_int 2 (bitlen p) :: rat)"
    unfolding i of_int_le_iff of_int_less_iff by (fact b(2) b(3))+
qed

lemma ilog2_bounds:
  assumes "0 < x"
  shows "power_int 2 (ilog2 x) \<le> x" "x < power_int 2 (ilog2 x + 1)"
proof -
  obtain p r where pr: "quotient_of x = (p, r)" by force
  then have x: "x = of_int p / of_int r" and r: "0 < r" by (auto dest: quotient_of_div quotient_of_denom_pos)
  then have p: "0 < p" using assms by (simp add: zero_less_divide_iff)
  let ?d = "bitlen p - bitlen r"
  note bp = bitlen_bounds_rat [OF p] and br = bitlen_bounds_rat [OF r]
  have "x < power_int 2 (bitlen p) / power_int 2 (bitlen r - 1)"
    unfolding x using bp br r p by (intro frac_less) auto
  then have hi: "x < power_int 2 (?d + 1)" by (simp add: power_int_diff power_int_add)
  have "power_int 2 (bitlen p - 1) / power_int 2 (bitlen r) \<le> x"
    unfolding x using bp br r p by (intro frac_le) auto
  then have lo: "power_int 2 (?d - 1) \<le> x" by (simp add: power_int_diff power_int_add)
  show "power_int 2 (ilog2 x) \<le> x" "x < power_int 2 (ilog2 x + 1)"
    using hi lo by (auto simp: ilog2_def pr Let_def)
qed

lemma ilog2_mono: "0 < x \<Longrightarrow> x \<le> y \<Longrightarrow> ilog2 x \<le> ilog2 y"
proof (rule ccontr)
  assume h: "0 < x" "x \<le> y" "\<not> ilog2 x \<le> ilog2 y"
  then have "power_int 2 (ilog2 y + 1) \<le> (power_int 2 (ilog2 x) :: rat)" by (intro power_int_increasing) auto
  with ilog2_bounds [of x] ilog2_bounds [of y] h show False by linarith
qed

definition ulp :: "rat \<Rightarrow> rat" where
  "ulp x = power_int 2 (max (ilog2 x - 52) (- 1074))"

lemma ulp_pos [simp]: "0 < ulp x"
  by (simp add: ulp_def)

lemma ulp_nonneg [simp]: "0 \<le> ulp x"
  by (simp add: less_imp_le)

lemma fl64_pos: "0 < x \<Longrightarrow> fl64 x = of_int (round_half_even (x / ulp x)) * ulp x"
  by (simp add: fl64_def ulp_def Let_def)

lemma fl64_0 [simp]: "fl64 0 = 0"
  by (simp add: fl64_def)

lemma fl64_grid:
  assumes "0 < x" "x = of_int n * ulp x"
  shows "fl64 x = x"
proof -
  have "x / ulp x = of_int n" using assms(2) ulp_pos [of x] by (metis nonzero_mult_div_cancel_right less_irrefl)
  then show ?thesis using assms by (simp add: fl64_pos)
qed

text \<open>Rounding stays on the same side of a power of two.\<close>

lemma fl64_le_pow:
  assumes "0 < x" "x \<le> power_int 2 m" "ilog2 x < m" "- 1074 \<le> m"
  shows "fl64 x \<le> power_int 2 m"
proof -
  define k where "k = nat (m - max (ilog2 x - 52) (- 1074))"
  have "m = int k + max (ilog2 x - 52) (- 1074)" using assms(3,4) unfolding k_def by auto
  then have pw: "power_int 2 m = of_int (2 ^ k) * ulp x"
    unfolding ulp_def by (simp add: power_int_add)
  have "x / ulp x \<le> of_int (2 ^ k)" using assms(2) ulp_pos [of x] unfolding pw by (simp add: pos_divide_le_eq)
  then have "round_half_even (x / ulp x) \<le> 2 ^ k"
    using round_half_even_mono [of "x / ulp x" "of_int (2 ^ k)"] by (simp only: round_half_even_of_int)
  then have "of_int (round_half_even (x / ulp x)) * ulp x \<le> of_int (2 ^ k) * ulp x"
    using ulp_pos [of x] by (intro mult_right_mono) (simp_all only: of_int_le_iff less_imp_le)
  then show ?thesis using assms(1) pw by (simp add: fl64_pos)
qed

lemma fl64_ge_pow:
  assumes "0 < x" "power_int 2 (ilog2 x) \<le> x" "- 1022 \<le> ilog2 x"
  shows "power_int 2 (ilog2 x) \<le> fl64 x"
proof -
  have u: "ulp x = power_int 2 (ilog2 x - 52)" using assms(3) by (simp add: ulp_def)
  have pw: "power_int 2 (ilog2 x) = of_int (2 ^ 52) * ulp x"
    unfolding u by (simp add: power_int_diff)
  have "of_int (2 ^ 52) \<le> x / ulp x" using assms(2) ulp_pos [of x] unfolding pw by (simp add: pos_le_divide_eq)
  then have "2 ^ 52 \<le> round_half_even (x / ulp x)"
    using round_half_even_mono [of "of_int (2 ^ 52)" "x / ulp x"] by (simp only: round_half_even_of_int)
  then have "of_int (2 ^ 52) * ulp x \<le> of_int (round_half_even (x / ulp x)) * ulp x"
    using ulp_pos [of x] by (intro mult_right_mono) (simp_all only: of_int_le_iff less_imp_le)
  then show ?thesis using assms(1) pw by (simp add: fl64_pos)
qed

lemma fl64_nonneg: "0 \<le> x \<Longrightarrow> 0 \<le> fl64 x"
proof (cases "x = 0")
  case False
  assume "0 \<le> x"
  with False have x: "0 < x" by simp
  then have "0 \<le> x / ulp x" using ulp_pos [of x] by (simp add: less_imp_le)
  then have "0 \<le> round_half_even (x / ulp x)"
    using round_half_even_mono [of 0 "x / ulp x"] round_half_even_of_int [of 0] by simp
  then show ?thesis using x ulp_pos [of x] by (simp add: fl64_pos less_imp_le)
qed simp

lemma fl64_mono:
  assumes "0 \<le> x" "x \<le> y"
  shows "fl64 x \<le> fl64 y"
proof (cases "x = 0")
  case True
  then show ?thesis using assms fl64_nonneg by simp
next
  case False
  then have x: "0 < x" and y: "0 < y" using assms by auto
  have il: "ilog2 x \<le> ilog2 y" using ilog2_mono [OF x assms(2)] .
  show ?thesis
  proof (cases "ulp x = ulp y")
    case True
    have "x / ulp y \<le> y / ulp y" using assms(2) ulp_pos [of y] by (intro divide_right_mono) auto
    then have "round_half_even (x / ulp y) \<le> round_half_even (y / ulp y)" by (rule round_half_even_mono)
    then show ?thesis
      using x y ulp_pos [of y] True by (simp add: fl64_pos mult_right_mono less_imp_le)
  next
    case False
    then have "ilog2 x \<noteq> ilog2 y" unfolding ulp_def by metis
    with il have lt1: "ilog2 x < ilog2 y" by simp
    have lt2: "- 1022 \<le> ilog2 y"
    proof (rule ccontr)
      assume "\<not> - 1022 \<le> ilog2 y"
      with il have "max (ilog2 x - 52) (- 1074) = - 1074" "max (ilog2 y - 52) (- 1074) = - 1074" by auto
      with False show False unfolding ulp_def by simp
    qed
    note lt = lt1 lt2
    have "x \<le> power_int 2 (ilog2 y)"
    proof -
      have "power_int 2 (ilog2 x + 1) \<le> (power_int 2 (ilog2 y) :: rat)" using lt(1) by (intro power_int_increasing) auto
      with ilog2_bounds(2) [OF x] show ?thesis by linarith
    qed
    then have "fl64 x \<le> power_int 2 (ilog2 y)" using x lt by (intro fl64_le_pow) auto
    also have "\<dots> \<le> fl64 y" using y lt(2) ilog2_bounds(1) [OF y] by (intro fl64_ge_pow)
    finally show ?thesis .
  qed
qed

lemma fl64_of_nat:
  assumes "n \<le> 2 ^ 53"
  shows "fl64 (of_nat n) = of_nat n"
proof (cases "n = 0")
  case False
  then have n: "0 < (of_nat n :: rat)" by simp
  have lo: "0 \<le> ilog2 (of_nat n)"
  proof (rule ccontr)
    assume "\<not> 0 \<le> ilog2 (of_nat n)"
    then have "power_int 2 (ilog2 (of_nat n) + 1) \<le> (power_int 2 0 :: rat)" by (intro power_int_increasing) auto
    then have "(of_nat n :: rat) < 1" using ilog2_bounds(2) [OF n] by simp
    with False show False by simp
  qed
  show ?thesis
  proof (cases "ilog2 (of_nat n) \<le> 52")
    case True
    define k where "k = nat (52 - ilog2 (of_nat n))"
    have u: "ulp (of_nat n) = power_int 2 (- int k)"
      using True lo unfolding ulp_def k_def by (simp add: max_def)
    have "of_nat n = of_int (int n * 2 ^ k) * ulp (of_nat n)"
      unfolding u by (simp add: power_int_minus)
    then show ?thesis using n by (intro fl64_grid)
  next
    case False
    have "power_int 2 53 \<le> (power_int 2 (ilog2 (of_nat n)) :: rat)"
      using False by (intro power_int_increasing) auto
    also have "\<dots> \<le> of_nat n" by (rule ilog2_bounds(1) [OF n])
    finally have "(2 ^ 53 :: rat) \<le> of_nat n" by simp
    then have "of_nat (2 ^ 53) \<le> (of_nat n :: rat)" by simp
    then have "n = 2 ^ 53" using assms unfolding of_nat_le_iff by simp
    then have "(of_nat n :: rat) = 2 ^ 53" by simp
    then show ?thesis by (simp only:) code_simp
  qed
qed simp

lemma ilog2_eq:
  assumes "0 < x" "power_int 2 e \<le> x" "x < power_int 2 (e + 1)"
  shows "ilog2 x = e"
proof (rule antisym; rule ccontr)
  note b = ilog2_bounds [OF assms(1)]
  assume "\<not> ilog2 x \<le> e"
  then have "power_int 2 (e + 1) \<le> (power_int 2 (ilog2 x) :: rat)" by (intro power_int_increasing) auto
  with b assms show False by linarith
next
  note b = ilog2_bounds [OF assms(1)]
  assume "\<not> e \<le> ilog2 x"
  then have "power_int 2 (ilog2 x + 1) \<le> (power_int 2 e :: rat)" by (intro power_int_increasing) auto
  with b assms show False by linarith
qed

lemma power_int_nat_diff: "a \<le> b \<Longrightarrow> power_int 2 b = (of_int (2 ^ nat (b - a)) * power_int 2 a :: rat)"
  by (simp add: power_int_add [symmetric] flip: power_int_of_nat)

lemma fl64_idem:
  assumes "0 \<le> x"
  shows "fl64 (fl64 x) = fl64 x"
proof (cases "x = 0 \<or> fl64 x = 0")
  case True
  then show ?thesis by auto
next
  case False
  define y n where "y = fl64 x" and "n = round_half_even (x / ulp x)"
  have x: "0 < x" using False assms by simp
  have y: "0 < y" using False fl64_nonneg [OF assms] by (simp add: y_def)
  have yn: "y = of_int n * ulp x" using x by (simp add: y_def n_def fl64_pos)
  show ?thesis unfolding y_def [symmetric]
  proof (cases "ilog2 y \<le> ilog2 x")
    case True
    then have "ulp x = of_int (2 ^ nat (max (ilog2 x - 52) (- 1074) - max (ilog2 y - 52) (- 1074))) * ulp y"
      unfolding ulp_def by (intro power_int_nat_diff) auto
    then have "y = of_int (n * 2 ^ nat (max (ilog2 x - 52) (- 1074) - max (ilog2 y - 52) (- 1074))) * ulp y"
      using yn by simp
    with y show "fl64 y = y" by (rule fl64_grid)
  next
    case up: False
    show "fl64 y = y"
    proof (cases "- 1074 \<le> ilog2 x + 1")
      case True
      have "fl64 x \<le> power_int 2 (ilog2 x + 1)"
        using x True ilog2_bounds(2) [OF x] by (intro fl64_le_pow) auto
      moreover have "power_int 2 (ilog2 x + 1) \<le> (power_int 2 (ilog2 y) :: rat)"
        using up by (intro power_int_increasing) auto
      ultimately have e: "y = power_int 2 (ilog2 x + 1)" using ilog2_bounds(1) [OF y] unfolding y_def by linarith
      have "ilog2 y = ilog2 x + 1" using y by (intro ilog2_eq) (simp_all add: e power_int_add)
      with True have "power_int 2 (ilog2 y)
          = (of_int (2 ^ nat (ilog2 y - max (ilog2 y - 52) (- 1074))) * power_int 2 (max (ilog2 y - 52) (- 1074)) :: rat)"
        by (intro power_int_nat_diff) auto
      then have "y = of_int (2 ^ nat (ilog2 y - max (ilog2 y - 52) (- 1074))) * ulp y"
        unfolding ulp_def using e \<open>ilog2 y = ilog2 x + 1\<close> by simp
      with y show ?thesis by (rule fl64_grid)
    next
      case False
      have "x < power_int 2 (ilog2 x + 1)" by (rule ilog2_bounds(2) [OF x])
      also have "\<dots> \<le> power_int 2 (- 1075)" using False by (intro power_int_increasing) auto
      finally have "x / ulp x < 1 / 2" using False by (simp add: ulp_def max_def power_int_minus divide_simps)
      moreover from this have "\<lfloor>x / ulp x\<rfloor> = 0" using x by (intro floor_unique) (simp, linarith)
      ultimately have "round_half_even (x / ulp x) = 0"
        unfolding round_half_even_def Let_def by simp
      with y yn show ?thesis by (simp add: n_def)
    qed
  qed
qed

end
