(* ===== verification/Request_History.thy ===== *)
theory Request_History
  imports Float64
begin

text \<open>
  Per-request acceptance history (\<open>RequestHistory\<close> and \<open>expected_yield\<close> of
  \<open>src/src/tp4/glm53_speedup/policy.py\<close>). The summation of a list of floats by \<open>sum()\<close> differs
  between interpreter versions (3.12 compensates), so it is the parameter \<open>fsum\<close> where it occurs.
\<close>

record history =
  h_steps :: nat
  accepted_ema :: rat
  survival :: "rat list"
  observations :: "nat list"
  h_max_k :: int

definition history_new :: "int \<Rightarrow> history py" where
  "history_new k =
     py_guard (\<not> (1 \<le> k \<and> k \<le> 8)) ValueError
       (Inr \<lparr>h_steps = 0, accepted_ema = of_int k, survival = replicate (nat k) 1,
             observations = replicate (nat k) 0, h_max_k = k\<rparr>)"

definition ema_step :: "rat \<Rightarrow> rat \<Rightarrow> rat" where
  "ema_step old x = fl64 (fl64 (lit_08 * old) + fl64 (lit_02 * x))"

definition history_observe :: "history \<Rightarrow> int \<Rightarrow> int \<Rightarrow> history py" where
  "history_observe h proposed accepted =
     py_guard (\<not> (1 \<le> proposed \<and> proposed \<le> h_max_k h) \<or> \<not> (0 \<le> accepted \<and> accepted \<le> proposed)) ValueError
       (Inr (h\<lparr>accepted_ema := (if proposed = h_max_k h then ema_step (accepted_ema h) (of_int accepted)
                               else accepted_ema h),
               survival := map (\<lambda>(j, p). if int j < proposed then ema_step p (if int j < accepted then 1 else 0) else p)
                             (enumerate 0 (survival h)),
               observations := map (\<lambda>(j, n). if int j < proposed then Suc n else n) (enumerate 0 (observations h)),
               h_steps := Suc (h_steps h)\<rparr>))"

fun expected_sum :: "rat \<Rightarrow> rat \<Rightarrow> rat list \<Rightarrow> rat" where
  "expected_sum running tot [] = tot"
| "expected_sum running tot (p # ps) =
     expected_sum (min running p) (fl64 (tot + min running p)) ps"

definition expected_tokens :: "history \<Rightarrow> int \<Rightarrow> rat" where
  "expected_tokens h k = expected_sum 1 1 (take (nat k) (survival h))"

definition expected_yield :: "(rat list \<Rightarrow> rat) \<Rightarrow> int list \<Rightarrow> int \<Rightarrow> rat py" where
  "expected_yield fsum lengths k =
     py_guard (k \<notin> {1, 2, 3, 4}) ValueError
       (py_guard (lengths = []) ValueError
         (py_guard (\<not> list_all (\<lambda>v. 0 \<le> v \<and> v \<le> 4) lengths) ValueError
           (Inr (fl64 (1 + fsum (map (\<lambda>j. fl64 (of_nat (length (filter (\<lambda>l. j \<le> l) lengths)) / of_nat (length lengths)))
                              [1..k]))))))"

section \<open>What the estimator needs of rounding\<close>

locale float_rounding =
  fixes rnd :: "rat \<Rightarrow> rat"
  assumes rnd_mono: "0 \<le> x \<Longrightarrow> x \<le> y \<Longrightarrow> rnd x \<le> rnd y"
    and rnd_nat: "n \<le> 16 \<Longrightarrow> rnd (of_nat n) = of_nat n"
    and rnd_idem: "0 \<le> x \<Longrightarrow> rnd (rnd x) = rnd x"
    and rnd_blend: "rnd (rnd lit_08 + rnd lit_02) = 1"
begin

lemma rnd_0: "rnd 0 = 0"
  using rnd_nat [of 0] by simp

lemma rnd_1: "rnd 1 = 1"
  using rnd_nat [of 1] by simp

lemma rnd_nonneg: "0 \<le> x \<Longrightarrow> 0 \<le> rnd x"
  using rnd_mono [of 0 x] rnd_0 by simp

lemma rnd_le_nat: "0 \<le> x \<Longrightarrow> x \<le> of_nat n \<Longrightarrow> n \<le> 16 \<Longrightarrow> rnd x \<le> of_nat n"
  using rnd_mono [of x "of_nat n"] rnd_nat [of n] by simp

lemma blend_nonneg: "0 \<le> p \<Longrightarrow> 0 \<le> x \<Longrightarrow> 0 \<le> rnd (rnd (lit_08 * p) + rnd (lit_02 * x))"
  by (intro rnd_nonneg add_nonneg_nonneg) (simp_all add: lit_08_def lit_02_def)

lemma blend_unit:
  assumes "0 \<le> p" "p \<le> 1" "0 \<le> x" "x \<le> 1"
  shows "rnd (rnd (lit_08 * p) + rnd (lit_02 * x)) \<le> 1"
proof -
  have "rnd (lit_08 * p) \<le> rnd lit_08" "rnd (lit_02 * x) \<le> rnd lit_02"
    using assms by (auto intro!: rnd_mono simp: lit_08_def lit_02_def)
  then have "rnd (rnd (lit_08 * p) + rnd (lit_02 * x)) \<le> rnd (rnd lit_08 + rnd lit_02)"
    using assms by (intro rnd_mono add_nonneg_nonneg rnd_nonneg add_mono) (simp_all add: lit_08_def lit_02_def)
  then show ?thesis using rnd_blend by simp
qed

lemma add_unit_bounds:
  assumes "of_nat n \<le> t" "0 \<le> r" "r \<le> 1" "t \<le> of_nat m" "m < 16" "n \<le> 16"
  shows "of_nat n \<le> rnd (t + r)" "rnd (t + r) \<le> of_nat (Suc m)"
proof -
  have "rnd (of_nat n) \<le> rnd (t + r)" using assms by (intro rnd_mono) auto
  then show "of_nat n \<le> rnd (t + r)" using rnd_nat assms(6) by simp
  show "rnd (t + r) \<le> of_nat (Suc m)" using assms by (intro rnd_le_nat) auto
qed

end

interpretation f64: float_rounding fl64
proof
  show "fl64 (fl64 lit_08 + fl64 lit_02) = 1" by code_simp
qed (auto intro: fl64_mono fl64_of_nat fl64_idem)

section \<open>The history invariant\<close>

definition history_wf :: "history \<Rightarrow> bool" where
  "history_wf h \<longleftrightarrow> 1 \<le> h_max_k h \<and> h_max_k h \<le> 8
     \<and> length (survival h) = nat (h_max_k h) \<and> length (observations h) = nat (h_max_k h)
     \<and> list_all (\<lambda>p. 0 \<le> p \<and> p \<le> 1) (survival h) \<and> 0 \<le> accepted_ema h
     \<and> list_all (\<lambda>n. n \<le> h_steps h) (observations h)"

lemma ema_step_unit: "0 \<le> p \<Longrightarrow> p \<le> 1 \<Longrightarrow> 0 \<le> x \<Longrightarrow> x \<le> 1 \<Longrightarrow> 0 \<le> ema_step p x \<and> ema_step p x \<le> 1"
  unfolding ema_step_def using f64.blend_nonneg f64.blend_unit by blast

lemma history_new_wf: "history_new k = Inr h \<Longrightarrow> history_wf h"
  by (auto simp: history_new_def history_wf_def list_all_length)

lemma history_observe_step:
  assumes "history_wf h" "history_observe h p a = Inr h'"
  shows "history_wf h' \<and> h_max_k h' = h_max_k h \<and> h_steps h' = Suc (h_steps h)
    \<and> (p < h_max_k h \<longrightarrow> accepted_ema h' = accepted_ema h)
    \<and> (\<forall>j < length (survival h). p \<le> int j \<longrightarrow> survival h' ! j = survival h ! j)"
proof -
  from assms(2) have ok: "1 \<le> p" "p \<le> h_max_k h" "0 \<le> a" "a \<le> p"
    and h': "h' = h\<lparr>accepted_ema := (if p = h_max_k h then ema_step (accepted_ema h) (of_int a) else accepted_ema h),
               survival := map (\<lambda>(j, q). if int j < p then ema_step q (if int j < a then 1 else 0) else q)
                             (enumerate 0 (survival h)),
               observations := map (\<lambda>(j, n). if int j < p then Suc n else n) (enumerate 0 (observations h)),
               h_steps := Suc (h_steps h)\<rparr>"
    unfolding history_observe_def by auto
  have s: "0 \<le> survival h' ! j \<and> survival h' ! j \<le> 1" if "j < length (survival h)" for j
    using that assms(1) ema_step_unit [of "survival h ! j"]
    by (simp add: h' nth_enumerate_eq history_wf_def list_all_length)
  have o: "observations h' ! j \<le> h_steps h'" if "j < length (observations h)" for j
    using that assms(1) by (auto simp: h' nth_enumerate_eq history_wf_def list_all_length le_SucI)
  have e: "0 \<le> accepted_ema h'"
    using assms(1) ok f64.blend_nonneg by (simp add: h' history_wf_def ema_step_def)
  have "history_wf h'"
    using assms(1) s o e unfolding history_wf_def list_all_length by (simp add: h')
  then show ?thesis by (simp add: h' nth_enumerate_eq)
qed

theorem history_observe_invariant:
  assumes "history_wf h" "history_observe h p a = Inr h'"
  shows "history_wf h' \<and> h_max_k h' = h_max_k h \<and> h_steps h' = Suc (h_steps h)
    \<and> (p < h_max_k h \<longrightarrow> accepted_ema h' = accepted_ema h)
    \<and> (\<forall>j < length (survival h). p \<le> int j \<longrightarrow> survival h' ! j = survival h ! j)"
  by (rule history_observe_step [OF assms])

lemma expected_sum_bounds:
  assumes "list_all (\<lambda>p. 0 \<le> p \<and> p \<le> 1) ps" "0 \<le> r" "r \<le> 1" "1 \<le> t" "t \<le> of_nat m" "m + length ps \<le> 16"
  shows "1 \<le> expected_sum r t ps \<and> expected_sum r t ps \<le> of_nat (m + length ps)"
  using assms
proof (induction ps arbitrary: r t m)
  case (Cons p ps)
  have r: "0 \<le> min r p" "min r p \<le> 1" using Cons.prems by auto
  have "1 \<le> fl64 (t + min r p)" "fl64 (t + min r p) \<le> of_nat (Suc m)"
    using f64.add_unit_bounds [of 1 t "min r p" m] r Cons.prems by auto
  with Cons.IH [of "min r p" "fl64 (t + min r p)" "Suc m"] Cons.prems r show ?case by simp
qed simp

lemma expected_sum_float: "fl64 t = t \<Longrightarrow> 0 \<le> t \<Longrightarrow> 0 \<le> r \<Longrightarrow> list_all (\<lambda>p. 0 \<le> p) ps \<Longrightarrow>
    fl64 (expected_sum r t ps) = expected_sum r t ps"
proof (induction ps arbitrary: r t)
  case (Cons p ps)
  then show ?case using f64.rnd_idem [of "t + min r p"] f64.rnd_nonneg [of "t + min r p"] by simp
qed simp

lemma expected_sum_append:
  "expected_sum r t (xs @ ys) = expected_sum (foldl min r xs) (expected_sum r t xs) ys"
  by (induction xs arbitrary: r t) auto

text \<open>
  In binary64 arithmetic the expected number of tokens for k drafts is between 1 and k+1
  and does not decrease with k.
\<close>

theorem expected_tokens_bounds:
  assumes "history_wf h" "0 \<le> k" "k < h_max_k h"
  shows "1 \<le> expected_tokens h k \<and> expected_tokens h k \<le> of_int k + 1
    \<and> expected_tokens h k \<le> expected_tokens h (k + 1)"
proof -
  let ?s = "survival h"
  have len: "nat k < length ?s" and sz: "length ?s \<le> 8"
    using assms unfolding history_wf_def by linarith+
  have u: "list_all (\<lambda>p. 0 \<le> p \<and> p \<le> 1) (take n ?s)" for n
    using assms(1) unfolding history_wf_def list_all_iff by (meson in_set_takeD)
  have b: "1 \<le> expected_sum 1 1 (take n ?s) \<and> expected_sum 1 1 (take n ?s) \<le> of_nat (1 + n)" if "n \<le> length ?s" for n
    using expected_sum_bounds [OF u, of 1 1 1 n] that sz by (simp add: min_absorb2)
  have r: "0 \<le> foldl min 1 ps \<and> foldl min 1 ps \<le> 1" if "list_all (\<lambda>p. 0 \<le> p \<and> p \<le> 1) ps" for ps :: "rat list"
    using that by (induction ps rule: rev_induct) auto
  let ?E = "expected_sum 1 1 (take (nat k) ?s)" and ?r = "min (foldl min 1 (take (nat k) ?s)) (?s ! nat k)"
  have "take (Suc (nat k)) ?s = take (nat k) ?s @ [?s ! nat k]" using len by (rule take_Suc_conv_app_nth)
  then have step: "expected_sum 1 1 (take (Suc (nat k)) ?s) = fl64 (?E + ?r)"
    by (simp add: expected_sum_append)
  have "list_all (\<lambda>p. 0 \<le> p) (take (nat k) ?s)" using u [of "nat k"] by (auto simp: list_all_iff)
  then have idem: "fl64 ?E = ?E" by (intro expected_sum_float) (auto simp: f64.rnd_1)
  have "0 \<le> ?s ! nat k" using u [of "Suc (nat k)"] len by (auto simp: list_all_length)
  then have "0 \<le> ?r" using r [OF u] by simp
  moreover have "1 \<le> ?E" using b [of "nat k"] len by simp
  ultimately have "fl64 ?E \<le> fl64 (?E + ?r)" by (intro f64.rnd_mono) auto
  then have "?E \<le> expected_sum 1 1 (take (Suc (nat k)) ?s)" using idem step by simp
  moreover have "nat (k + 1) = Suc (nat k)" using assms(2) by simp
  ultimately show ?thesis
    using b [of "nat k"] len assms(2) by (simp add: expected_tokens_def)
qed

theorem history_observe_invariant_witness:
  "\<exists>h h'. history_new 4 = Inr h \<and> history_observe h 4 2 = Inr h' \<and> history_wf h'"
proof -
  obtain h where h: "history_new 4 = Inr h" by (simp add: history_new_def)
  then obtain h' where h': "history_observe h 4 2 = Inr h'" by (auto simp: history_new_def history_observe_def)
  from history_observe_invariant [OF history_new_wf [OF h] h'] h h' show ?thesis by blast
qed

theorem expected_tokens_bounds_witness:
  "\<exists>h. history_new 4 = Inr h \<and> expected_tokens h 3 \<le> expected_tokens h 4"
proof -
  obtain h where h: "history_new 4 = Inr h" "h_max_k h = 4" by (simp add: history_new_def)
  from expected_tokens_bounds [OF history_new_wf [OF h(1)], of 3] h show ?thesis by auto
qed

end
