(* ===== verification/Cost_Table.thy ===== *)
theory Cost_Table
  imports Float64
begin

text \<open>
  Measured cost tables (\<open>reject_test_costs\<close> and \<open>CostTable\<close> of
  \<open>src/src/tp4/glm53_speedup/policy.py\<close>). A decoded JSON document is the datatype \<open>json\<close>; an object
  is the list of its fields with distinct names. Numbers are finite rationals or the one value
  \<open>JNonFinite\<close> for the infinities and NaN that Python's decoder accepts.
\<close>

datatype json = JNull | JBool bool | JInt int | JFloat rat | JNonFinite | JStr string
  | JList "json list" | JObj "(string \<times> json) list"

fun json_truth :: "json \<Rightarrow> bool" where
  "json_truth JNull = False"
| "json_truth (JBool b) = b"
| "json_truth (JInt n) = (n \<noteq> 0)"
| "json_truth (JFloat x) = (x \<noteq> 0)"
| "json_truth JNonFinite = True"
| "json_truth (JStr s) = (s \<noteq> [])"
| "json_truth (JList xs) = (xs \<noteq> [])"
| "json_truth (JObj kvs) = (kvs \<noteq> [])"

definition json_get :: "(string \<times> json) list \<Rightarrow> string \<Rightarrow> json \<Rightarrow> json" where
  "json_get d k dflt = (case map_of d k of None \<Rightarrow> dflt | Some v \<Rightarrow> v)"

text \<open>\<open>lower().replace("-", "_")\<close> on ASCII text.\<close>

definition lower_char :: "char \<Rightarrow> char" where
  "lower_char c = (let n = (of_char c :: nat) in
     if 65 \<le> n \<and> n \<le> 90 then char_of (n + 32) else if n = 45 then char_of (95 :: nat) else c)"

definition marker :: "string \<Rightarrow> string" where
  "marker s = map lower_char s"

definition starts_with :: "string \<Rightarrow> string \<Rightarrow> bool" where
  "starts_with p s = (take (length p) s = p)"

fun contains :: "string \<Rightarrow> string \<Rightarrow> bool" where
  "contains p [] = (p = [])"
| "contains p (c # s) = (starts_with p (c # s) \<or> contains p s)"

definition test_field :: "string \<Rightarrow> json \<Rightarrow> bool" where
  "test_field k v =
     (let name = marker k in
      (name \<in> {''synthetic'', ''fixture'', ''test_only'', ''capture_only'', ''cpu_only''} \<and> json_truth v)
      \<or> (name \<in> {''measurement_origin'', ''capture'', ''status'', ''origin''}
         \<and> (case v of JStr s \<Rightarrow>
              (let m = marker s in starts_with ''cpu_'' m \<or> starts_with ''synthetic'' m \<or> starts_with ''fixture'' m
                 \<or> contains ''test_only'' m \<or> contains ''capture_only'' m)
            | _ \<Rightarrow> False)))"

fun test_labelled :: "json \<Rightarrow> bool" where
  "test_labelled (JObj kvs) = list_ex (\<lambda>kv. test_field (fst kv) (snd kv) \<or> test_labelled (snd kv)) kvs"
| "test_labelled (JList xs) = list_ex test_labelled xs"
| "test_labelled _ = False"

definition reject_test_costs :: "json \<Rightarrow> unit py" where
  "reject_test_costs v = py_guard (test_labelled v) ValueError (Inr ())"

section \<open>Tables\<close>

definition KS :: "int list" where "KS = [1, 2, 3, 4]"
definition CONTEXTS :: "int list" where "CONTEXTS = [8192, 32768, 131072]"
definition default_headroom :: int where "default_headroom = 256"

record cost_table =
  costs :: "((int \<times> int \<times> int) \<times> rat) list"
  execution_kind :: string
  output_headroom :: int
  compatibility_identity :: json

definition hex64 :: "string \<Rightarrow> bool" where
  "hex64 s \<longleftrightarrow> length s = 64 \<and> list_all (\<lambda>c. py_digit c \<or> (97 \<le> (of_char c :: nat) \<and> (of_char c :: nat) \<le> 102)) s"

fun json_number :: "json \<Rightarrow> rat option" where
  "json_number (JInt n) = Some (of_int n)"
| "json_number (JFloat x) = Some x"
| "json_number _ = None"

definition positive_number :: "json \<Rightarrow> bool" where
  "positive_number v = (case json_number v of None \<Rightarrow> False | Some x \<Rightarrow> 0 < x)"

definition is_int_in :: "(int \<Rightarrow> bool) \<Rightarrow> json \<Rightarrow> bool" where
  "is_int_in P v = (case v of JInt n \<Rightarrow> P n | _ \<Rightarrow> False)"

definition int_of :: "json \<Rightarrow> int" where
  "int_of v = (case v of JInt n \<Rightarrow> n | _ \<Rightarrow> 0)"

definition equals_int :: "json \<Rightarrow> int \<Rightarrow> bool" where
  "equals_int v k = (case v of JInt n \<Rightarrow> n = k | JFloat x \<Rightarrow> x = of_int k | JBool b \<Rightarrow> k = of_bool b | _ \<Rightarrow> False)"

definition float_median :: "rat list \<Rightarrow> rat" where
  "float_median xs =
     (let s = sort xs; n = length xs
      in if odd n then s ! (n div 2) else fl64 (fl64 (s ! (n div 2 - 1) + s ! (n div 2)) / 2))"

definition lit_1e9 :: rat where "lit_1e9 = 4835703278458517 / 4835703278458516698824704"

definition isclose :: "rat \<Rightarrow> rat \<Rightarrow> bool" where
  "isclose a b =
     (a = b \<or> (let d = fl64 \<bar>b - a\<bar> in d \<le> fl64 (lit_1e9 * \<bar>b\<bar>) \<or> d \<le> fl64 (lit_1e9 * \<bar>a\<bar>)))"

definition samples_match :: "json \<Rightarrow> int \<Rightarrow> rat \<Rightarrow> bool" where
  "samples_match timings samples ms =
     (case timings of
        JList ts \<Rightarrow> int (length ts) = samples \<and> list_all positive_number ts
          \<and> isclose (float_median (map (\<lambda>t. the (json_number t)) ts)) ms
      | _ \<Rightarrow> False)"

text \<open>One row: its key and its cost, with the code's checks in order.\<close>

definition cost_row :: "bool \<Rightarrow> string \<Rightarrow> ((int \<times> int \<times> int) \<times> rat) list \<Rightarrow> json \<Rightarrow> ((int \<times> int \<times> int) \<times> rat) py" where
  "cost_row require_k4 kind acc row =
     (case row of
        JObj r \<Rightarrow>
          let c = json_get r ''concurrency'' JNull; k = json_get r ''k'' JNull;
              ctx = json_get r ''context_tokens'' JNull; ms = json_get r ''median_ms'' JNull;
              samples = json_get r ''samples'' JNull;
              key = (int_of c, int_of ctx, int_of k)
          in py_guard (\<not> (is_int_in (\<lambda>n. 1 \<le> n \<and> n \<le> 6) c \<and> is_int_in (\<lambda>n. n \<in> set KS) k
                \<and> is_int_in (\<lambda>n. n \<in> set CONTEXTS) ctx \<and> positive_number ms
                \<and> is_int_in (\<lambda>n. 5 \<le> n) samples \<and> json_get r ''graph'' JNull = JStr ''FULL'')) ValueError
            (py_guard (key \<in> set (map fst acc)) ValueError
              (py_guard (kind = ''native_k'' \<and> json_get r ''native_k'' JNull \<noteq> JNull
                    \<and> \<not> equals_int (json_get r ''native_k'' JNull) (int_of k)) ValueError
                (py_guard (require_k4 \<and>
                      (json_get r ''execution_kind'' (JStr kind) \<noteq> JStr kind
                       \<or> map_of r ''native_k'' \<noteq> None
                       \<or> json_get r ''proposal_k'' (JInt 4) \<noteq> JInt 4
                       \<or> json_get r ''target_trim_k'' (JInt (int_of k)) \<noteq> JInt (int_of k))) ValueError
                  (py_guard (require_k4 \<and> (case map_of r ''whole_step_ms'' of None \<Rightarrow> False
                        | Some ts \<Rightarrow> \<not> samples_match ts (int_of samples) (the (json_number ms)))) ValueError
                    (Inr (key, fl64 (the (json_number ms))))))))
      | _ \<Rightarrow> Inl ValueError)"

fun cost_rows :: "bool \<Rightarrow> string \<Rightarrow> ((int \<times> int \<times> int) \<times> rat) list \<Rightarrow> json list \<Rightarrow> ((int \<times> int \<times> int) \<times> rat) list py" where
  "cost_rows rq kind acc [] = Inr acc"
| "cost_rows rq kind acc (row # rows) =
     (case cost_row rq kind acc row of Inl e \<Rightarrow> Inl e | Inr kv \<Rightarrow> cost_rows rq kind (acc @ [kv]) rows)"

definition receipts_hashed :: "json \<Rightarrow> bool" where
  "receipts_hashed v =
     (case v of JObj kvs \<Rightarrow> list_all (\<lambda>kv. fst kv \<noteq> []
         \<and> (case snd kv of JStr s \<Rightarrow> hex64 s | _ \<Rightarrow> False)) kvs
      | _ \<Rightarrow> False)"

definition activation_ok :: "(string \<times> json) list \<Rightarrow> bool" where
  "activation_ok d =
     (json_get d ''measurement_origin'' JNull = JStr ''gpu_runtime''
      \<and> json_get d ''compatibility_contract'' JNull = JStr ''glm53.cost.compatibility.v1''
      \<and> (case json_get d ''compatibility_identity'' JNull of JStr s \<Rightarrow> hex64 s | _ \<Rightarrow> False)
      \<and> receipts_hashed (json_get d ''source_receipts'' JNull))"

definition relabelled :: "(string \<times> json) list \<Rightarrow> bool" where
  "relabelled d =
     (json_get d ''compatibility_identity'' JNull \<noteq> JNull
      \<and> json_truth (json_get d ''runtime_identity'' JNull)
      \<and> json_get d ''compatibility_identity'' JNull \<noteq> json_get d ''runtime_identity'' JNull
      \<and> json_get d ''historical_runtime_identity'' JNull = JNull)"

definition from_document :: "json \<Rightarrow> bool \<Rightarrow> cost_table py" where
  "from_document document require_k4 =
     (case document of
        JObj d \<Rightarrow>
          py_bind (reject_test_costs document) (\<lambda>_.
            let identity = json_get d ''compatibility_identity'' (json_get d ''runtime_identity'' JNull);
                kind = json_get d ''execution_kind'' (JStr ''unspecified_legacy'');
                headroom = json_get d ''output_headroom_tokens'' (JInt default_headroom);
                rows = json_get d ''rows'' JNull
            in py_guard (json_get d ''schema'' JNull \<noteq> JStr ''glm53.speedup.costs.v1'') ValueError
              (py_guard (json_get d ''measurement'' JNull \<noteq> JStr ''whole_step_ms'') ValueError
                (py_guard (\<not> json_truth identity \<or> \<not> json_truth (json_get d ''source_receipts'' JNull)) ValueError
                  (py_guard (\<not> (case identity of JStr s \<Rightarrow> s \<noteq> [] | _ \<Rightarrow> False)) ValueError
                    (py_guard (relabelled d) ValueError
                      (py_guard (kind \<notin> JStr ` {''unspecified_legacy'', ''k4_drafter_trimmed'', ''native_k''}) ValueError
                        (py_guard (require_k4 \<and> (kind \<noteq> JStr ''k4_drafter_trimmed'' \<or> \<not> activation_ok d)) ValueError
                          (py_guard (\<not> is_int_in (\<lambda>n. 0 \<le> n \<and> n \<le> 2048) headroom) ValueError
                            (case rows of
                               JList (r # rs) \<Rightarrow>
                                 (let kd = (case kind of JStr s \<Rightarrow> s | _ \<Rightarrow> []) in
                                  py_bind (cost_rows require_k4 kd [] (r # rs)) (\<lambda>cs.
                                    Inr \<lparr>costs = cs, execution_kind = kd, output_headroom = int_of headroom,
                                         compatibility_identity = identity\<rparr>))
                             | _ \<Rightarrow> Inl ValueError)))))))))
      | _ \<Rightarrow> Inl ValueError)"

section \<open>Curves\<close>

definition cost_of :: "cost_table \<Rightarrow> int \<Rightarrow> int \<Rightarrow> int \<Rightarrow> rat option" where
  "cost_of t c ctx k = map_of (costs t) (c, ctx, k)"

definition measured_context :: "cost_table \<Rightarrow> int \<Rightarrow> bool" where
  "measured_context t ctx = list_ex (\<lambda>kv. fst (snd (fst kv)) = ctx) (costs t)"

definition curve_bucket :: "cost_table \<Rightarrow> int \<Rightarrow> int \<Rightarrow> bool \<Rightarrow> int option" where
  "curve_bucket t ctx headroom incl =
     (let allowance = (if headroom \<noteq> 0 \<or> incl then output_headroom t else 0)
      in find (\<lambda>cand. measured_context t cand \<and> ctx + headroom \<le> cand + allowance) CONTEXTS)"

definition curve :: "cost_table \<Rightarrow> int \<Rightarrow> int \<Rightarrow> int \<Rightarrow> bool \<Rightarrow> (int \<times> rat) list option" where
  "curve t c ctx headroom incl =
     (if \<not> (1 \<le> c \<and> c \<le> 6) \<or> ctx < 0 \<or> headroom < 0 then None
      else case curve_bucket t ctx headroom incl of None \<Rightarrow> None
      | Some b \<Rightarrow>
          if list_ex (\<lambda>k. cost_of t c b k = None) KS then None
          else Some (map (\<lambda>k. (k, the (cost_of t c b k))) KS))"

definition eligible_concurrencies :: "cost_table \<Rightarrow> int \<Rightarrow> int list" where
  "eligible_concurrencies t ctx = filter (\<lambda>c. curve t c ctx 0 False \<noteq> None) [1..6]"

section \<open>Properties\<close>

definition cost_key_ok :: "(int \<times> int \<times> int) \<times> rat \<Rightarrow> bool" where
  "cost_key_ok kv = (case kv of ((c, ctx, k), ms) \<Rightarrow>
     1 \<le> c \<and> c \<le> 6 \<and> ctx \<in> set CONTEXTS \<and> k \<in> set KS \<and> 0 \<le> ms)"

lemma is_int_in_int_of: "is_int_in P v \<Longrightarrow> P (int_of v)"
  by (simp add: is_int_in_def int_of_def split: json.splits)

lemma cost_row_Inr:
  assumes "cost_row rq kind acc row = Inr kv"
  shows "cost_key_ok kv" "fst kv \<notin> set (map fst acc)"
proof -
  obtain r where row: "row = JObj r" using assms by (cases row) (auto simp: cost_row_def)
  define c where "c = json_get r ''concurrency'' JNull"
  define k where "k = json_get r ''k'' JNull"
  define ctx where "ctx = json_get r ''context_tokens'' JNull"
  define ms where "ms = json_get r ''median_ms'' JNull"
  note a = assms [unfolded row cost_row_def json.case Let_def py_guard_Inr, folded c_def k_def ctx_def ms_def]
  have i: "is_int_in (\<lambda>n. 1 \<le> n \<and> n \<le> 6) c" "is_int_in (\<lambda>n. n \<in> set KS) k"
    "is_int_in (\<lambda>n. n \<in> set CONTEXTS) ctx" "positive_number ms" using a by blast+
  have kv: "kv = ((int_of c, int_of ctx, int_of k), fl64 (the (json_number ms)))"
    "(int_of c, int_of ctx, int_of k) \<notin> set (map fst acc)"
    using a by simp_all
  obtain x where "json_number ms = Some x" "0 < x" using i(4) by (auto simp: positive_number_def split: option.splits)
  then have "0 \<le> fl64 (the (json_number ms))" by (simp add: fl64_nonneg)
  with i(1-3) [THEN is_int_in_int_of] show "cost_key_ok kv" by (simp add: kv(1) cost_key_ok_def)
  show "fst kv \<notin> set (map fst acc)" using kv by simp
qed

lemma cost_rows_Inr:
  assumes "cost_rows rq kind acc rows = Inr cs" "list_all cost_key_ok acc" "distinct (map fst acc)"
  shows "list_all cost_key_ok cs" "distinct (map fst cs)" "length cs = length acc + length rows"
  using assms
proof (induction rows arbitrary: acc)
  case (Cons row rows)
  {
    case 1
    then obtain kv where kv: "cost_row rq kind acc row = Inr kv" "cost_rows rq kind (acc @ [kv]) rows = Inr cs"
      by (auto split: sum.splits)
    show ?case using Cons.IH(1) [OF kv(2)] 1 cost_row_Inr [OF kv(1)] by simp
  next
    case 2
    then obtain kv where kv: "cost_row rq kind acc row = Inr kv" "cost_rows rq kind (acc @ [kv]) rows = Inr cs"
      by (auto split: sum.splits)
    show ?case using Cons.IH(2) [OF kv(2)] 2 cost_row_Inr [OF kv(1)] by simp
  next
    case 3
    then obtain kv where kv: "cost_row rq kind acc row = Inr kv" "cost_rows rq kind (acc @ [kv]) rows = Inr cs"
      by (auto split: sum.splits)
    show ?case using Cons.IH(3) [OF kv(2)] 3 cost_row_Inr [OF kv(1)] by simp
  }
qed simp_all

lemma from_document_Inr:
  assumes "from_document document rq = Inr t"
  obtains d rows kd where "document = JObj d" "\<not> test_labelled document" "rows \<noteq> []"
    "cost_rows rq kd [] rows = Inr (costs t)" "execution_kind t = kd"
    "0 \<le> output_headroom t" "output_headroom t \<le> 2048" "rq \<longrightarrow> kd = ''k4_drafter_trimmed'' \<and> activation_ok d"
proof -
  obtain d where d: "document = JObj d" using assms by (cases document) (simp_all add: from_document_def)
  define kind where "kind = json_get d ''execution_kind'' (JStr ''unspecified_legacy'')"
  define hr where "hr = json_get d ''output_headroom_tokens'' (JInt default_headroom)"
  define rows where "rows = json_get d ''rows'' JNull"
  define kd where "kd = (case kind of JStr s \<Rightarrow> s | _ \<Rightarrow> [])"
  note a = assms [unfolded d from_document_def json.case Let_def py_guard_Inr py_bind_Inr,
    folded kind_def hr_def rows_def, folded kd_def]
  have lab: "\<not> test_labelled document" using a by (auto simp: reject_test_costs_def d)
  have hr: "is_int_in (\<lambda>n. 0 \<le> n \<and> n \<le> 2048) hr" using a by blast
  have act: "rq \<longrightarrow> kind = JStr ''k4_drafter_trimmed'' \<and> activation_ok d" using a by blast
  obtain r rs cs where rs: "rows = JList (r # rs)" "cost_rows rq kd [] (r # rs) = Inr cs" "costs t = cs"
    "execution_kind t = kd" "output_headroom t = int_of hr"
    using a by (auto split: json.splits list.splits)
  show ?thesis
    by (rule that [of d "r # rs" kd]) (use d lab rs act hr [THEN is_int_in_int_of] in \<open>simp_all add: kd_def\<close>)
qed

text \<open>The properties below: what an accepted document guarantees.\<close>

text \<open>
  C22. A cost document that loads gives a non-empty table with distinct keys in the qualified
  ranges, a headroom of 0 to 2048, carries no test label, and under activation is a K4
  drafter-trimmed table.
\<close>

theorem cost_document_sound:
  assumes "from_document document require_k4 = Inr t"
  shows "list_all cost_key_ok (costs t) \<and> distinct (map fst (costs t)) \<and> costs t \<noteq> []
    \<and> 0 \<le> output_headroom t \<and> output_headroom t \<le> 2048 \<and> \<not> test_labelled document
    \<and> (require_k4 \<longrightarrow> execution_kind t = ''k4_drafter_trimmed'')"
proof -
  obtain d rows kd where D: "\<not> test_labelled document" "rows \<noteq> []"
    "cost_rows require_k4 kd [] rows = Inr (costs t)" "execution_kind t = kd"
    "0 \<le> output_headroom t" "output_headroom t \<le> 2048" "require_k4 \<longrightarrow> kd = ''k4_drafter_trimmed'' \<and> activation_ok d"
    using assms by (elim from_document_Inr)
  have "list_all cost_key_ok (costs t)" "distinct (map fst (costs t))" "length (costs t) = length rows"
    using cost_rows_Inr [OF D(3)] by simp_all
  with D show ?thesis by auto
qed

definition demo_row :: "int \<Rightarrow> json" where
  "demo_row k = JObj [(''concurrency'', JInt 1), (''k'', JInt k), (''context_tokens'', JInt 8192),
     (''median_ms'', JInt (20 + k)), (''samples'', JInt 5), (''graph'', JStr ''FULL'')]"

definition demo_document :: json where
  "demo_document = JObj [(''schema'', JStr ''glm53.speedup.costs.v1''), (''measurement'', JStr ''whole_step_ms''),
     (''runtime_identity'', JStr ''id''), (''source_receipts'', JObj [(''a'', JStr ''b'')]),
     (''rows'', JList (map demo_row KS))]"

definition demo_costs :: cost_table where
  "demo_costs = \<lparr>costs = map (\<lambda>k. ((1, 8192, k), 20 + of_int k)) KS, execution_kind = ''unspecified_legacy'',
     output_headroom = 256, compatibility_identity = JStr ''id''\<rparr>"

lemma demo_document_loads: "from_document demo_document False = Inr demo_costs"
  by code_simp

theorem cost_document_sound_witness:
  "costs demo_costs \<noteq> [] \<and> \<not> test_labelled demo_document"
  using cost_document_sound [OF demo_document_loads] by simp

text \<open>Every field at every depth, with its name.\<close>

fun all_fields :: "json \<Rightarrow> (string \<times> json) list" where
  "all_fields (JObj kvs) = concat (map (\<lambda>kv. kv # all_fields (snd kv)) kvs)"
| "all_fields (JList xs) = concat (map all_fields xs)"
| "all_fields _ = []"

lemma list_ex_concat_map: "list_ex P (concat (map f xs)) \<longleftrightarrow> list_ex (\<lambda>x. list_ex P (f x)) xs"
  by (induction xs) simp_all

lemma test_labelled_fields: "test_labelled v \<longleftrightarrow> list_ex (\<lambda>(k, x). test_field k x) (all_fields v)"
proof (induction v rule: test_labelled.induct)
  case (1 kvs)
  have "list_ex (\<lambda>kv. test_field (fst kv) (snd kv) \<or> test_labelled (snd kv)) kvs
      \<longleftrightarrow> list_ex (\<lambda>kv. list_ex (\<lambda>(k, x). test_field k x) (kv # all_fields (snd kv))) kvs"
    by (rule list_ex_cong) (use 1 in \<open>auto simp: case_prod_beta'\<close>)
  then show ?case by (simp add: list_ex_concat_map)
next
  case (2 xs)
  have "list_ex test_labelled xs \<longleftrightarrow> list_ex (\<lambda>x. list_ex (\<lambda>(k, x). test_field k x) (all_fields x)) xs"
    by (rule list_ex_cong) (use 2 in simp_all)
  then show ?case by (simp add: list_ex_concat_map)
qed simp_all

theorem test_labels_found_at_any_depth:
  "reject_test_costs v = (if list_ex (\<lambda>(k, x). test_field k x) (all_fields v) then Inl ValueError else Inr ())"
  by (simp add: reject_test_costs_def py_guard_def test_labelled_fields)

text \<open>
  A curve is returned only for a measured context that covers the requested length within
  the recorded headroom, is the smallest such context, and has all four measured costs.
\<close>

theorem curve_covers_context:
  assumes "curve t c ctx headroom incl = Some m"
  shows "1 \<le> c \<and> c \<le> 6 \<and> map fst m = KS
    \<and> (\<exists>b \<in> set CONTEXTS. measured_context t b \<and> (\<forall>k \<in> set KS. map_of m k = cost_of t c b k \<and> map_of m k \<noteq> None)
         \<and> ctx + headroom \<le> b + (if headroom \<noteq> 0 \<or> incl then output_headroom t else 0)
         \<and> (\<forall>b' \<in> set CONTEXTS. b' < b \<and> measured_context t b' \<longrightarrow>
               b' + (if headroom \<noteq> 0 \<or> incl then output_headroom t else 0) < ctx + headroom))"
proof -
  define al where "al = (if headroom \<noteq> 0 \<or> incl then output_headroom t else 0)"
  define P where "P cand \<longleftrightarrow> measured_context t cand \<and> ctx + headroom \<le> cand + al" for cand
  have c: "1 \<le> c" "c \<le> 6" using assms by (simp_all add: curve_def split: if_splits)
  obtain b where b: "find P CONTEXTS = Some b" and m: "m = map (\<lambda>k. (k, the (cost_of t c b k))) KS"
    and ex: "\<not> list_ex (\<lambda>k. cost_of t c b k = None) KS"
    using assms unfolding curve_def curve_bucket_def Let_def al_def [symmetric] P_def [symmetric, abs_def]
    by (auto split: if_splits option.splits)
  have "P b" using b by (auto simp: find_Some_iff)
  have bin: "b \<in> set CONTEXTS" using b by (auto simp: find_Some_iff)
  have least: "\<not> P b'" if "b' \<in> set CONTEXTS" "b' < b" for b'
    using b that by (auto simp: CONTEXTS_def split: if_splits)
  have least': "b' + al < ctx + headroom" if "b' \<in> set CONTEXTS" "b' < b" "measured_context t b'" for b'
    using least [OF that(1,2)] that(3) by (simp add: P_def)
  have look: "map_of m k = cost_of t c b k \<and> map_of m k \<noteq> None" if "k \<in> set KS" for k
    using that ex by (auto simp: m KS_def)
  have "map fst m = KS" by (simp add: m KS_def)
  moreover have "measured_context t b" "ctx + headroom \<le> b + al" using \<open>P b\<close> by (simp_all add: P_def)
  ultimately show ?thesis unfolding al_def [symmetric] using c bin least' look by blast
qed

theorem curve_covers_context_witness:
  "1 \<le> (1::int) \<and> curve demo_costs 1 8400 0 True = Some [(1, 21), (2, 22), (3, 23), (4, 24)]
   \<and> curve demo_costs 1 8400 0 False = None"
proof -
  have e: "curve demo_costs 1 8400 0 True = Some [(1, 21), (2, 22), (3, 23), (4, 24)]" by code_simp
  moreover have "curve demo_costs 1 8400 0 False = None" by code_simp
  ultimately show ?thesis using curve_covers_context [OF e] by blast
qed

end
