(* ===== verification/Engine_Model.thy ===== *)
theory Engine_Model
  imports Ringside_Prelude
begin

text \<open>
  What the speedup policies read of the engine's scheduler and of its requests. The engine itself is
  not part of the repository; the fields are the attributes that \<open>src/src/tp4/glm53_speedup\<close>
  reads. Request ids are compared and sorted only, so they are numbers here.
\<close>

type_synonym rid = nat

datatype status = RUNNING | WAITING | PREEMPTED | OTHER_STATUS

record request =
  request_id :: rid
  status :: status
  num_prompt_tokens :: int
  num_tokens :: int
  num_computed_tokens :: int
  prompt_token_ids :: "int list"
  output_token_ids :: "int list"
  has_encoder_inputs :: bool
  num_output_placeholders :: int
  num_stale_output_tokens :: int

record engine =
  running :: "request list"
  waiting :: "request list"
  skipped_waiting :: "request list"
  max_num_running_reqs :: int
  num_waiting_for_streaming_input :: int
  num_spec_tokens :: int
  draft_slots :: int
  max_num_batched_tokens :: int
  max_num_scheduled_tokens :: int

text \<open>Resumed requests may be replaying previous output after eviction.\<close>

definition prefill_end_of :: "request \<Rightarrow> int" where
  "prefill_end_of r = max (num_prompt_tokens r) (num_tokens r - 1)"

definition is_prefilling :: "request \<Rightarrow> bool" where
  "is_prefilling r \<longleftrightarrow> num_computed_tokens r < prefill_end_of r"

definition by_id :: "request list \<Rightarrow> rid \<rightharpoonup> request" where
  "by_id rs = map_of (rev (map (\<lambda>r. (request_id r, r)) rs))"

definition ids_of :: "request list \<Rightarrow> rid set" where
  "ids_of rs = set (map request_id rs)"

lemma by_id_Some: "by_id rs i = Some r \<Longrightarrow> r \<in> set rs \<and> request_id r = i"
  unfolding by_id_def by (auto dest!: map_of_SomeD)

lemma by_id_ex: "i \<in> ids_of rs \<Longrightarrow> \<exists>r. by_id rs i = Some r"
  unfolding by_id_def ids_of_def
  by (metis (no_types, lifting) domD dom_map_of_conv_image_fst fst_conv image_cong image_image set_map set_rev)

section \<open>A concrete engine\<close>

text \<open>Two long prompts, the first two blocks in, the second one block in, and one decoder.\<close>

definition demo_request :: "rid \<Rightarrow> int \<Rightarrow> int \<Rightarrow> request" where
  "demo_request i prompt computed =
     \<lparr>request_id = i, status = RUNNING, num_prompt_tokens = prompt, num_tokens = prompt,
      num_computed_tokens = computed, prompt_token_ids = [1, 154841], output_token_ids = [],
      has_encoder_inputs = False, num_output_placeholders = 0, num_stale_output_tokens = 0\<rparr>"

definition demo_engine :: "request list \<Rightarrow> engine" where
  "demo_engine rs =
     \<lparr>running = rs, waiting = [], skipped_waiting = [], max_num_running_reqs = 6,
      num_waiting_for_streaming_input = 0, num_spec_tokens = 4, draft_slots = 1,
      max_num_batched_tokens = 14336, max_num_scheduled_tokens = 14336\<rparr>"

definition demo_pair :: engine where
  "demo_pair = demo_engine [demo_request 1 40000 4608, demo_request 2 40000 2304, demo_request 3 100 100]"

definition demo_single :: engine where
  "demo_single = demo_engine [demo_request 1 40000 4608, demo_request 3 100 100]"

end
