(* ===== verification/Saturation_Growth.thy ===== *)
theory Saturation_Growth
  imports Engine_Model
begin

text \<open>
  \<open>SaturationGrowth\<close> of \<open>src/src/tp4/glm53_speedup/policy.py\<close>: the batch-wide proposal cap grows from
  4 to 7 on verified full acceptances and falls back to 4 on the first doubt.
\<close>

datatype growth_reason = Saturation_Ema4 | Saturation_Fallback | Saturation_Hold | Saturation_Grow

record growth =
  cap :: int
  members :: "rid list"
  streaks :: "rid \<rightharpoonup> nat"
  pending :: "rid set"
  active :: bool
  rejected :: bool

definition required :: nat where "required = 8"

definition growth_reset :: growth where
  "growth_reset = \<lparr>cap = 4, members = [], streaks = Map.empty, pending = {}, active = False, rejected = False\<rparr>"

definition zero_streaks :: "rid list \<Rightarrow> (rid \<rightharpoonup> nat)" where
  "zero_streaks ms = (\<lambda>r. if r \<in> set ms then Some 0 else None)"

definition growth_restart :: "rid list \<Rightarrow> growth" where
  "growth_restart ms = growth_reset\<lparr>members := ms, streaks := zero_streaks ms\<rparr>"

definition streak :: "growth \<Rightarrow> rid \<Rightarrow> nat" where
  "streak g r = (case streaks g r of None \<Rightarrow> 0 | Some n \<Rightarrow> n)"

definition growth_choose :: "growth \<Rightarrow> rid list \<Rightarrow> int \<Rightarrow> growth \<times> int \<times> growth_reason" where
  "growth_choose g ms baseline =
     (let g1 = (if ms \<noteq> members g \<or> baseline < 4 then growth_restart ms else g);
          lapsed = pending g1 \<noteq> {} \<and> 4 < cap g1;
          g2 = (if lapsed then growth_restart ms else g1);
          g3 = g2\<lparr>streaks := (\<lambda>r. if r \<in> pending g2 then Some 0 else streaks g2 r), pending := {}, rejected := False\<rparr>
      in if baseline < 4 then (g3, baseline, Saturation_Ema4)
         else let reason = (if rejected g \<or> lapsed then Saturation_Fallback else Saturation_Hold);
                  grow = cap g3 < 7 \<and> ms \<noteq> [] \<and> list_all (\<lambda>r. required \<le> streak g3 r) ms;
                  g4 = (if grow then g3\<lparr>cap := cap g3 + 1, streaks := zero_streaks ms\<rparr> else g3)
              in (g4\<lparr>active := True, pending := set ms\<rparr>, cap g4, if grow then Saturation_Grow else reason))"

definition growth_fall :: "growth \<Rightarrow> rid \<Rightarrow> growth" where
  "growth_fall g r =
     (if 4 < cap g then (growth_restart (members g))\<lparr>rejected := True\<rparr>
      else g\<lparr>streaks := (streaks g)(r \<mapsto> 0)\<rparr>)"

definition growth_observe :: "growth \<Rightarrow> rid \<Rightarrow> int \<Rightarrow> int \<Rightarrow> growth" where
  "growth_observe g r proposed accepted =
     (if \<not> active g \<or> r \<notin> set (members g) then g
      else if r \<notin> pending g then growth_fall g r
      else let g1 = g\<lparr>pending := pending g - {r}\<rparr> in
        if proposed \<noteq> cap g \<or> accepted \<noteq> proposed then growth_fall g1 r
        else g1\<lparr>streaks := (streaks g)(r \<mapsto> min required (streak g r + 1))\<rparr>)"

section \<open>Evidence\<close>

datatype growth_event = Reset | Choose "rid list" int | Observe rid int int

fun growth_op :: "growth \<Rightarrow> growth_event \<Rightarrow> growth" where
  "growth_op g Reset = growth_reset"
| "growth_op g (Choose ms b) = fst (growth_choose g ms b)"
| "growth_op g (Observe r p a) = growth_observe g r p a"

definition growth_run :: "growth_event list \<Rightarrow> growth" where
  "growth_run ops = foldl growth_op growth_reset ops"

text \<open>The observations of \<open>r\<close> that report a fully accepted draft of at least four tokens.\<close>

definition full_accepts :: "rid \<Rightarrow> growth_event list \<Rightarrow> nat" where
  "full_accepts r ops =
     length (filter (\<lambda>op. case op of Observe r' p a \<Rightarrow> r' = r \<and> a = p \<and> 4 \<le> p | _ \<Rightarrow> False) ops)"

definition growth_inv :: "growth \<Rightarrow> bool" where
  "growth_inv g \<longleftrightarrow> 4 \<le> cap g \<and> cap g \<le> 7 \<and> pending g \<subseteq> set (members g)
     \<and> (\<forall>r. streak g r \<le> required) \<and> dom (streaks g) = set (members g)"

definition evidence :: "growth \<Rightarrow> rid \<Rightarrow> int" where
  "evidence g r = int required * (cap g - 4) + int (streak g r)"

lemma streak_zero [simp]: "streak (g\<lparr>streaks := zero_streaks ms\<rparr>) r = 0"
  by (simp add: streak_def zero_streaks_def)

lemma restart_facts [simp]:
  "cap (growth_restart ms) = 4" "members (growth_restart ms) = ms" "pending (growth_restart ms) = {}"
  "streak (growth_restart ms) r = 0" "dom (streaks (growth_restart ms)) = set ms"
  "streak (growth_restart ms\<lparr>rejected := True\<rparr>) r = 0"
  by (auto simp: growth_restart_def growth_reset_def streak_def zero_streaks_def dom_def)

lemma restart_inv: "growth_inv (growth_restart ms)" and reset_inv: "growth_inv growth_reset"
  by (simp_all add: growth_inv_def) (simp_all add: growth_reset_def streak_def)

lemma restart_evidence [simp]: "evidence (growth_restart ms) r = 0"
  by (simp add: evidence_def)

text \<open>The state after the restarts and the cleared debts of a choice.\<close>

definition choose_base :: "growth \<Rightarrow> rid list \<Rightarrow> int \<Rightarrow> growth" where
  "choose_base g ms b =
     (let g1 = (if ms \<noteq> members g \<or> b < 4 then growth_restart ms else g);
          g2 = (if pending g1 \<noteq> {} \<and> 4 < cap g1 then growth_restart ms else g1)
      in g2\<lparr>streaks := (\<lambda>r. if r \<in> pending g2 then Some 0 else streaks g2 r), pending := {}, rejected := False\<rparr>)"

lemma choose_base_props:
  assumes "growth_inv g"
  shows "growth_inv (choose_base g ms b)" "evidence (choose_base g ms b) r \<le> max 0 (evidence g r)"
    "ms = members g \<or> evidence (choose_base g ms b) r \<le> 0" "members (choose_base g ms b) = ms"
    "cap (choose_base g ms b) \<in> {4, cap g}" "pending (choose_base g ms b) = {}"
proof -
  define g1 where "g1 = (if ms \<noteq> members g \<or> b < 4 then growth_restart ms else g)"
  define g2 where "g2 = (if pending g1 \<noteq> {} \<and> 4 < cap g1 then growth_restart ms else g1)"
  define g3 where "g3 = g2\<lparr>streaks := (\<lambda>r. if r \<in> pending g2 then Some 0 else streaks g2 r), pending := {}, rejected := False\<rparr>"
  have e: "choose_base g ms b = g3" unfolding choose_base_def g1_def g2_def g3_def Let_def by (rule refl)
  have cases: "g2 = growth_restart ms \<or> (g2 = g \<and> members g = ms)"
    unfolding g2_def g1_def by (cases "ms \<noteq> members g \<or> b < 4") auto
  then have i2: "growth_inv g2" "members g2 = ms" "cap g2 \<in> {4, cap g}" using assms restart_inv by auto
  have s3: "streak g3 r \<le> streak g2 r" "cap g3 = cap g2" "members g3 = ms" "pending g3 = {}" for r
    using i2 by (auto simp: g3_def streak_def)
  have "dom (streaks g3) = set ms" using i2 unfolding growth_inv_def by (auto simp: g3_def dom_def split: if_splits)
  then show "growth_inv (choose_base g ms b)"
    using i2(1) s3 unfolding e growth_inv_def by (metis empty_subsetI order_trans)
  show "members (choose_base g ms b) = ms" "cap (choose_base g ms b) \<in> {4, cap g}" "pending (choose_base g ms b) = {}"
    using s3 i2 by (simp_all add: e)
  have "evidence g3 r \<le> evidence g2 r" using s3 by (simp add: evidence_def)
  then show "evidence (choose_base g ms b) r \<le> max 0 (evidence g r)"
    "ms = members g \<or> evidence (choose_base g ms b) r \<le> 0"
    using cases unfolding e by auto
qed

lemma growth_choose_base:
  "growth_choose g ms b =
     (let g3 = choose_base g ms b in
      if b < 4 then (g3, b, Saturation_Ema4)
      else let grow = cap g3 < 7 \<and> ms \<noteq> [] \<and> list_all (\<lambda>r. required \<le> streak g3 r) ms;
               g4 = (if grow then g3\<lparr>cap := cap g3 + 1, streaks := zero_streaks ms\<rparr> else g3)
           in (g4\<lparr>active := True, pending := set ms\<rparr>, cap g4,
               snd (snd (growth_choose g ms b))))"
  unfolding growth_choose_def choose_base_def Let_def by (simp split: if_splits)

lemma growth_choose_step:
  assumes "growth_inv g"
  shows "growth_inv (fst (growth_choose g ms b))" "members (fst (growth_choose g ms b)) = ms"
    "r \<in> set ms \<Longrightarrow> evidence (fst (growth_choose g ms b)) r \<le> max 0 (evidence g r)"
    "r \<in> set ms \<Longrightarrow> ms = members g \<or> evidence (fst (growth_choose g ms b)) r \<le> 0"
proof -
  note B = choose_base_props [OF assms, of ms b]
  define g3 where "g3 = choose_base g ms b"
  define grow where "grow \<longleftrightarrow> cap g3 < 7 \<and> ms \<noteq> [] \<and> list_all (\<lambda>r. required \<le> streak g3 r) ms"
  define g4 where "g4 = (if grow then g3\<lparr>cap := cap g3 + 1, streaks := zero_streaks ms\<rparr> else g3)"
  define g5 where "g5 = (if b < 4 then g3 else g4\<lparr>active := True, pending := set ms\<rparr>)"
  have e: "fst (growth_choose g ms b) = g5"
    by (subst growth_choose_base) (simp add: g3_def g4_def g5_def grow_def Let_def)
  have i3: "growth_inv g3" "members g3 = ms" using B by (simp_all add: g3_def)
  have d: "dom (zero_streaks ms) = set ms" by (auto simp: zero_streaks_def dom_def)
  have i4: "growth_inv g4 \<and> members g4 = ms"
  proof (cases grow)
    case True
    then show ?thesis using i3 d unfolding growth_inv_def by (simp add: g4_def grow_def)
  next
    case False
    then show ?thesis using i3 by (simp add: g4_def)
  qed
  then show "growth_inv (fst (growth_choose g ms b))" "members (fst (growth_choose g ms b)) = ms"
    unfolding e g5_def using i3 by (auto simp: growth_inv_def streak_def)
  assume r: "r \<in> set ms"
  have "evidence g4 r \<le> evidence g3 r"
  proof (cases grow)
    case True
    then have "required \<le> streak g3 r" using r by (auto simp: grow_def list_all_iff)
    then show ?thesis using True by (simp add: g4_def evidence_def algebra_simps)
  next
    case False
    then show ?thesis by (simp add: g4_def)
  qed
  moreover have "evidence g5 r \<le> max (evidence g3 r) (evidence g4 r)"
    by (simp add: g5_def evidence_def streak_def)
  ultimately have "evidence g5 r \<le> evidence g3 r" by simp
  then show "evidence (fst (growth_choose g ms b)) r \<le> max 0 (evidence g r)"
    "ms = members g \<or> evidence (fst (growth_choose g ms b)) r \<le> 0"
    using B(2,3) [of r] unfolding e g3_def by linarith+
qed

lemma growth_fall_props:
  assumes "growth_inv g" "r \<in> set (members g)"
  shows "growth_inv (growth_fall g r)" "members (growth_fall g r) = members g"
    "evidence (growth_fall g r) r' \<le> evidence g r'" "0 \<le> evidence g r'"
    "cap (growth_fall g r) = 4" "evidence (growth_fall g r) r = 0"
proof -
  have i: "4 \<le> cap g" "cap g \<le> 7" "pending g \<subseteq> set (members g)" "\<And>r. streak g r \<le> required" "dom (streaks g) = set (members g)"
    using assms(1) unfolding growth_inv_def by blast+
  show "0 \<le> evidence g r'" using i(1) by (simp add: evidence_def)
  show "members (growth_fall g r) = members g" "cap (growth_fall g r) = 4"
    using i(1) by (auto simp: growth_fall_def)
  show "growth_inv (growth_fall g r)"
  proof (cases "4 < cap g")
    case True
    then show ?thesis by (simp add: growth_fall_def growth_inv_def)
  next
    case False
    then show ?thesis using i assms(2) by (auto simp: growth_fall_def growth_inv_def streak_def)
  qed
  show "evidence (growth_fall g r) r' \<le> evidence g r'" "evidence (growth_fall g r) r = 0"
  proof -
    have "evidence (growth_fall g r) r' \<le> evidence g r' \<and> evidence (growth_fall g r) r = 0"
    proof (cases "4 < cap g")
      case True
      then show ?thesis by (simp add: growth_fall_def evidence_def)
    next
      case False
      then show ?thesis using i(1) by (auto simp: growth_fall_def evidence_def streak_def)
    qed
    then show "evidence (growth_fall g r) r' \<le> evidence g r'" "evidence (growth_fall g r) r = 0" by blast+
  qed
qed

lemma growth_observe_step:
  assumes "growth_inv g"
  shows "growth_inv (growth_observe g r p a)" "members (growth_observe g r p a) = members g"
    "evidence (growth_observe g r p a) r' \<le> evidence g r' + of_bool (r' = r \<and> a = p \<and> 4 \<le> p)"
proof -
  consider (idle) "growth_observe g r p a = g"
    | (dup) "r \<in> set (members g)" "growth_observe g r p a = growth_fall g r"
    | (bad) "r \<in> set (members g)" "growth_observe g r p a = growth_fall (g\<lparr>pending := pending g - {r}\<rparr>) r"
    | (good) "r \<in> set (members g)" "p = cap g" "a = p"
        "growth_observe g r p a = g\<lparr>pending := pending g - {r}, streaks := (streaks g)(r \<mapsto> min required (streak g r + 1))\<rparr>"
  proof (cases "\<not> active g \<or> r \<notin> set (members g)")
    case True
    then show ?thesis using that(1) by (simp add: growth_observe_def)
  next
    case m: False
    show ?thesis
    proof (cases "r \<in> pending g")
      case False
      then show ?thesis using that(2) m by (simp add: growth_observe_def)
    next
      case True
      then show ?thesis using that(3,4) m
        by (cases "p \<noteq> cap g \<or> a \<noteq> p") (simp_all add: growth_observe_def Let_def)
    qed
  qed
  then have "growth_inv (growth_observe g r p a) \<and> members (growth_observe g r p a) = members g
    \<and> evidence (growth_observe g r p a) r' \<le> evidence g r' + of_bool (r' = r \<and> a = p \<and> 4 \<le> p)"
  proof cases
    case idle
    with assms show ?thesis by simp
  next
    case dup
    with growth_fall_props [OF assms dup(1)] show ?thesis by (simp add: add_increasing2)
  next
    case bad
    let ?g = "g\<lparr>pending := pending g - {r}\<rparr>"
    have i: "growth_inv ?g" using assms unfolding growth_inv_def by (auto simp: streak_def)
    have "evidence ?g r' = evidence g r'" by (simp add: evidence_def streak_def)
    then have "evidence (growth_observe g r p a) r' \<le> evidence g r'"
      using bad growth_fall_props(3) [OF i, of r r'] by simp
    moreover have "growth_inv (growth_observe g r p a)" "members (growth_observe g r p a) = members g"
      using bad growth_fall_props(1,2) [OF i, of r] by simp_all
    ultimately show ?thesis by (simp add: add_increasing2)
  next
    case good
    define h where "h = g\<lparr>pending := pending g - {r}, streaks := (streaks g)(r \<mapsto> min required (streak g r + 1))\<rparr>"
    have st: "streak h x = (if x = r then min required (streak g r + 1) else streak g x)" for x
      unfolding h_def by (simp add: streak_def)
    have "growth_inv h" using assms st good(1) unfolding growth_inv_def by (auto simp: h_def)
    moreover have "evidence h r' \<le> evidence g r' + of_bool (r' = r \<and> a = p \<and> 4 \<le> p)"
      using assms st [of r'] good(2,3) by (auto simp: evidence_def growth_inv_def h_def)
    moreover have "members h = members g" by (simp add: h_def)
    ultimately show ?thesis unfolding good(4) h_def [symmetric] by blast
  qed
  then show "growth_inv (growth_observe g r p a)" "members (growth_observe g r p a) = members g"
    "evidence (growth_observe g r p a) r' \<le> evidence g r' + of_bool (r' = r \<and> a = p \<and> 4 \<le> p)" by blast+
qed

lemma full_accepts_snoc:
  "full_accepts r (ops @ [op]) = full_accepts r ops
     + (case op of Observe r' p a \<Rightarrow> of_bool (r = r' \<and> a = p \<and> 4 \<le> p) | _ \<Rightarrow> 0)"
  by (auto simp: full_accepts_def split: growth_event.splits)

text \<open>
  After any sequence of resets, choices and observations, every member of the batch has
  reported at least eight fully accepted drafts for each step the cap is above four, and the
  state is well formed.
\<close>

theorem growth_needs_evidence:
  "growth_inv (growth_run ops)
   \<and> (\<forall>r \<in> set (members (growth_run ops)). evidence (growth_run ops) r \<le> int (full_accepts r ops))"
proof (induction ops rule: rev_induct)
  case Nil
  show ?case by (simp add: growth_run_def reset_inv) (simp add: growth_reset_def)
next
  case (snoc op ops)
  let ?g = "growth_run ops"
  have run: "growth_run (ops @ [op]) = growth_op ?g op" by (simp add: growth_run_def)
  from snoc have i: "growth_inv ?g" and e: "\<And>r. r \<in> set (members ?g) \<Longrightarrow> evidence ?g r \<le> int (full_accepts r ops)" by auto
  show ?case
  proof (cases op)
    case Reset
    have "members growth_reset = []" by (simp add: growth_reset_def)
    then show ?thesis using run Reset reset_inv by simp
  next
    case (Choose ms b)
    note C = growth_choose_step [OF i, where ms = ms and b = b]
    have "evidence (fst (growth_choose ?g ms b)) r \<le> int (full_accepts r ops)" if "r \<in> set ms" for r
      using C(3) [OF that] C(4) [OF that] e [of r] that by (cases "ms = members ?g") auto
    then show ?thesis using C(1,2) run Choose by (simp add: full_accepts_snoc)
  next
    case (Observe r p a)
    note O = growth_observe_step [OF i, of r p a]
    have "evidence (growth_observe ?g r p a) x \<le> int (full_accepts x (ops @ [Observe r p a]))"
      if "x \<in> set (members ?g)" for x
      using O(3) [of x] e [OF that] by (auto simp: full_accepts_snoc of_bool_def)
    then show ?thesis using O(1,2) run Observe by simp
  qed
qed

theorem growth_doubt_falls_back:
  assumes "growth_inv g" "active g" "r \<in> set (members g)"
    "r \<notin> pending g \<or> p \<noteq> cap g \<or> a \<noteq> p"
  shows "cap (growth_observe g r p a) = 4 \<and> streak (growth_observe g r p a) r = 0"
proof -
  let ?g = "g\<lparr>pending := pending g - {r}\<rparr>"
  have i: "growth_inv ?g" using assms(1) unfolding growth_inv_def by (auto simp: streak_def)
  have "growth_observe g r p a = growth_fall g r \<or> growth_observe g r p a = growth_fall ?g r"
    using assms(2-4) by (auto simp: growth_observe_def Let_def)
  then show ?thesis
    using growth_fall_props(5,6) [OF assms(1,3)] growth_fall_props(5,6) [OF i, of r] assms(3)
    by (auto simp: evidence_def)
qed

theorem growth_doubt_falls_back_witness:
  "cap (growth_observe (fst (growth_choose growth_reset [1, 2] 4)) 1 4 3) = 4"
proof -
  have "growth_inv (fst (growth_choose growth_reset [1, 2] 4))"
    using growth_choose_step(1) [OF reset_inv] .
  moreover have "active (fst (growth_choose growth_reset [1, 2] 4))" "members (fst (growth_choose growth_reset [1, 2] 4)) = [1, 2]"
    using growth_choose_step(2) [OF reset_inv, of "[1, 2]" 4] by (simp_all add: growth_choose_def Let_def)
  ultimately show ?thesis
    using growth_doubt_falls_back [of "fst (growth_choose growth_reset [1, 2] 4)" 1 4 3] by simp
qed

definition demo_growth_ops :: "growth_event list" where
  "demo_growth_ops = concat (replicate 8 [Choose [1] 4, Observe 1 4 4]) @ [Choose [1] 4]"

theorem growth_needs_evidence_witness:
  "cap (growth_run demo_growth_ops) = 5 \<and> members (growth_run demo_growth_ops) = [1]
   \<and> evidence (growth_run demo_growth_ops) 1 \<le> int (full_accepts 1 demo_growth_ops) \<and> full_accepts 1 demo_growth_ops = 8"
proof -
  have m: "members (growth_run demo_growth_ops) = [1]" by code_simp
  have "cap (growth_run demo_growth_ops) = 5" "full_accepts 1 demo_growth_ops = 8" by code_simp+
  with m growth_needs_evidence [of demo_growth_ops] show ?thesis by simp
qed

end
