(* ===== verification/Speedup_Policy.thy ===== *)
theory Speedup_Policy
  imports Speedup_Geometry Request_History Cost_Table Saturation_Growth
begin

text \<open>
  \<open>Settings\<close>, \<open>Decision\<close>, \<open>Policy\<close> and \<open>trim_batch\<close> of \<open>src/src/tp4/glm53_speedup/policy.py\<close>: the choice
  of the proposal length \<open>k\<close> for a whole decode batch. In the modes \<open>ema4\<close> and \<open>saturation\<close> a policy holds a
  second policy of its own class, its \<open>baseline\<close>, whose mode is \<open>ema\<close> and which holds none; so a policy is
  here its \<open>core\<close> and, in those modes, the core of the baseline with the growth state.
  A mapping from request ids to contexts is the list of its items. Where a call raises after
  it has inserted a fresh history (\<open>setdefault\<close>), the model drops that insertion with the state: a later call
  would insert the same fresh history.
\<close>

section \<open>Settings\<close>

record settings =
  s_mode :: string
  forced_k :: int
  s_scope :: string
  s_max_requests :: int
  s_max_k :: int
  capture_requests :: "int list option"
  capture_ks :: "int list option"

definition settings_axes :: "settings \<Rightarrow> (int list \<times> int list) py" where
  "settings_axes S = capture_axes (s_max_requests S) (s_max_k S) (capture_requests S) (capture_ks S)"

definition settings_check :: "settings \<Rightarrow> unit py" where
  "settings_check S =
     py_guard (s_mode S \<notin> {''off'', ''forced'', ''ema'', ''cost'', ''ema4'', ''saturation''}) ValueError
       (py_bind (speed_geometry (s_max_requests S) (s_max_k S)) (\<lambda>g.
         py_guard (forced_k S \<notin> set (geometry_ks g)) ValueError
           (py_bind (decode_shapes (s_scope S) (s_max_requests S) (s_max_k S) (capture_requests S) (capture_ks S)) (\<lambda>_.
             py_bind (settings_axes S) (\<lambda>(cs, ks).
               py_guard (s_mode S = ''forced'' \<and> forced_k S \<notin> set ks) ValueError
                 (py_guard (s_mode S \<in> {''ema4'', ''saturation''}
                     \<and> (s_max_k S \<noteq> 7 \<or> s_scope S \<noteq> ''all'' \<or> forced_k S \<noteq> 7
                        \<or> cs \<noteq> [1..s_max_requests S] \<or> ks \<noteq> [1..7])) ValueError
                   (py_guard (s_mode S = ''cost'' \<and> (s_max_k S \<noteq> 4 \<or> 6 < s_max_requests S \<or> ks \<noteq> KS)) ValueError
                     (py_guard (s_mode S \<noteq> ''off'' \<and> s_scope S = ''off'') ValueError (Inr ())))))))))"

record decision =
  dec_k :: int
  dec_reason :: string
  dec_shape :: "decode_shape option"

definition decision_of :: "settings \<Rightarrow> int \<Rightarrow> int \<Rightarrow> string \<Rightarrow> decision" where
  "decision_of S c k reason = \<lparr>dec_k = k, dec_reason = reason,
     dec_shape = (if 1 \<le> c \<and> c \<le> s_max_requests S then Some \<lparr>concurrency = c, shape_k = k\<rparr> else None)\<rparr>"

section \<open>The core of a policy\<close>

record core =
  p_settings :: settings
  p_costs :: "cost_table option"
  p_requests :: "rid \<rightharpoonup> history"
  current_k :: int
  pending_k :: int
  pending_count :: nat
  p_steps :: nat
  p_members :: "rid list"

definition core_new :: "settings \<Rightarrow> cost_table option \<Rightarrow> core" where
  "core_new S ct = \<lparr>p_settings = S, p_costs = ct, p_requests = Map.empty, current_k = s_max_k S,
     pending_k = s_max_k S, pending_count = 0, p_steps = 0, p_members = []\<rparr>"

definition core_discard :: "core \<Rightarrow> rid \<Rightarrow> core" where
  "core_discard p r = p\<lparr>p_requests := (p_requests p)(r := None)\<rparr>"

definition core_retain :: "core \<Rightarrow> rid list \<Rightarrow> core" where
  "core_retain p live = p\<lparr>p_requests := p_requests p |` set live\<rparr>"

definition core_observe :: "core \<Rightarrow> rid \<Rightarrow> int \<Rightarrow> int \<Rightarrow> core py" where
  "core_observe p r proposed accepted =
     py_bind (history_new (s_max_k (p_settings p))) (\<lambda>fresh.
       let h = (case p_requests p r of None \<Rightarrow> fresh | Some h \<Rightarrow> h) in
       py_bind (history_observe h proposed accepted) (\<lambda>h'. Inr (p\<lparr>p_requests := (p_requests p)(r \<mapsto> h')\<rparr>)))"

definition enter_members :: "core \<Rightarrow> rid list \<Rightarrow> core" where
  "enter_members p ms =
     (if ms = p_members p then p
      else p\<lparr>p_members := ms, current_k := s_max_k (p_settings p), pending_k := s_max_k (p_settings p),
             pending_count := 0\<rparr>)"

definition setdefault_all :: "core \<Rightarrow> history \<Rightarrow> rid list \<Rightarrow> core" where
  "setdefault_all p fresh ms =
     p\<lparr>p_requests := (\<lambda>r. if r \<in> set ms \<and> p_requests p r = None then Some fresh else p_requests p r)\<rparr>"

definition histories_of :: "core \<Rightarrow> rid list \<Rightarrow> history list" where
  "histories_of p ms = map (\<lambda>r. the (p_requests p r)) ms"

definition ema_want :: "int \<Rightarrow> history \<Rightarrow> int" where
  "ema_want mk h = max 1 (min mk \<lceil>fl64 (accepted_ema h + 1)\<rceil>)"

text \<open>\<open>max(KS, key=lambda k: (score(k), k))\<close>: the last of the best scores.\<close>

definition best_k :: "(int \<Rightarrow> rat) \<Rightarrow> int" where
  "best_k score = foldl (\<lambda>b k. if score b < score k \<or> score b = score k \<and> b < k then k else b) (hd KS) (tl KS)"

definition cost_score :: "(rat list \<Rightarrow> rat) \<Rightarrow> (int \<times> rat) list \<Rightarrow> history list \<Rightarrow> int \<Rightarrow> rat" where
  "cost_score fsum m hs k = fl64 (fsum (map (\<lambda>h. expected_tokens h k) hs) / the (map_of m k))"

text \<open>The wanted length, or the reason why the full length is kept.\<close>

definition desired_k ::
  "(rat list \<Rightarrow> rat) \<Rightarrow> core \<Rightarrow> (rid \<times> int) list \<Rightarrow> history list \<Rightarrow> string + int" where
  "desired_k fsum p ctxs hs =
     (let S = p_settings p; c = int (length ctxs) in
      if s_mode S = ''ema'' then Inr (Max (set (map (ema_want (s_max_k S)) hs)))
      else case p_costs p of
        None \<Rightarrow> Inl ''unqualified_cost_curve''
      | Some t \<Rightarrow>
          if execution_kind t = ''native_k'' then Inl ''cost_execution_kind_mismatch''
          else case curve t c (Max (set (map snd ctxs))) 0 True of
            None \<Rightarrow> Inl ''unqualified_cost_curve''
          | Some m \<Rightarrow> Inr (best_k (cost_score fsum m hs)))"

text \<open>The hysteresis: four equal wishes in a row move the current length.\<close>

definition settle :: "core \<Rightarrow> int \<Rightarrow> core" where
  "settle p d =
     (if d = current_k p then p\<lparr>pending_count := 0\<rparr>
      else let n = (if d = pending_k p then pending_count p + 1 else 1) in
        if 4 \<le> n then p\<lparr>pending_k := d, current_k := d, pending_count := 0\<rparr>
        else p\<lparr>pending_k := d, pending_count := n\<rparr>)"

definition core_choose ::
  "(rat list \<Rightarrow> rat) \<Rightarrow> core \<Rightarrow> (rid \<times> int) list \<Rightarrow> bool \<Rightarrow> (core \<times> decision) py" where
  "core_choose fsum p ctxs mixed =
     (let S = p_settings p; c = int (length ctxs); mk = s_max_k S; ms = sort (map fst ctxs) in
      if s_mode S = ''off'' then Inr (p, decision_of S c mk ''disabled'')
      else if \<not> (1 \<le> c \<and> c \<le> s_max_requests S) \<or> mixed
        then Inr (p, decision_of S c mk ''mixed_or_unsupported_batch'')
      else py_bind (settings_axes S) (\<lambda>(cc, ck).
        if c \<notin> set cc \<or> s_scope S = ''c1c2'' \<and> 2 < c then Inr (p, decision_of S c mk ''outside_capture_scope'')
        else let p1 = enter_members p ms in
          if s_mode S = ''forced'' then Inr (p1, decision_of S c (forced_k S) ''forced'')
          else py_bind (history_new mk) (\<lambda>fresh.
            let p2 = (setdefault_all p1 fresh ms)\<lparr>p_steps := p_steps p1 + 1\<rparr>; hs = histories_of p2 ms in
            if list_ex (\<lambda>h. h_steps h < 8) hs then Inr (p2, decision_of S c mk ''warmup'')
            else if p_steps p2 mod 16 = 0 then Inr (p2, decision_of S c mk ''full_length_probe'')
            else case desired_k fsum p2 ctxs hs of
                Inl reason \<Rightarrow> Inr (p2, decision_of S c mk reason)
              | Inr d \<Rightarrow> (case find (\<lambda>k. d \<le> k) ck of
                    None \<Rightarrow> Inl StopIteration
                  | Some k \<Rightarrow> let p3 = settle p2 k in Inr (p3, decision_of S c (current_k p3) (s_mode S))))))"

section \<open>The policy with its extension\<close>

record policy =
  main :: core
  extension :: "(core \<times> growth) option"

definition ema4_settings :: "settings \<Rightarrow> settings" where
  "ema4_settings S = \<lparr>s_mode = ''ema'', forced_k = 4, s_scope = ''all'', s_max_requests = s_max_requests S,
     s_max_k = 4, capture_requests = None, capture_ks = None\<rparr>"

definition reset_extension :: "core \<Rightarrow> policy" where
  "reset_extension p = \<lparr>main = p, extension =
     (if s_mode (p_settings p) \<in> {''ema4'', ''saturation''}
      then Some (core_new (ema4_settings (p_settings p)) None, growth_reset) else None)\<rparr>"

definition policy_new :: "settings \<Rightarrow> cost_table option \<Rightarrow> policy" where
  "policy_new S ct = reset_extension (core_new S ct)"

definition policy_discard :: "policy \<Rightarrow> rid \<Rightarrow> policy" where
  "policy_discard p r = \<lparr>main = core_discard (main p) r,
     extension = (case extension p of None \<Rightarrow> None | Some (b, g) \<Rightarrow> Some (core_discard b r, growth_reset))\<rparr>"

definition policy_retain :: "policy \<Rightarrow> rid list \<Rightarrow> policy" where
  "policy_retain p live = \<lparr>main = core_retain (main p) live,
     extension = (case extension p of None \<Rightarrow> None
       | Some (b, g) \<Rightarrow> Some (core_retain b live, if set (members g) \<subseteq> set live then g else growth_reset))\<rparr>"

text \<open>\<open>costs\<close> is \<open>None\<close> where the caller keeps the table it has.\<close>

definition policy_configure :: "policy \<Rightarrow> settings \<Rightarrow> cost_table option option \<Rightarrow> policy py" where
  "policy_configure p S new_costs =
     (let S0 = p_settings (main p); ct = (case new_costs of None \<Rightarrow> p_costs (main p) | Some t \<Rightarrow> t) in
      py_guard ((s_max_k S, s_max_requests S, capture_requests S, capture_ks S)
                \<noteq> (s_max_k S0, s_max_requests S0, capture_requests S0, capture_ks S0)) ValueError
        (Inr (if S \<noteq> S0 \<or> ct \<noteq> p_costs (main p)
              then reset_extension ((main p)\<lparr>p_settings := S, p_costs := ct, current_k := s_max_k S,
                     pending_k := s_max_k S, pending_count := 0\<rparr>)
              else p)))"

definition policy_observe :: "policy \<Rightarrow> rid \<Rightarrow> int \<Rightarrow> int \<Rightarrow> policy py" where
  "policy_observe p r proposed accepted =
     py_bind (core_observe (main p) r proposed accepted) (\<lambda>m.
       case extension p of
         None \<Rightarrow> Inr (p\<lparr>main := m\<rparr>)
       | Some (b, g) \<Rightarrow> py_bind (core_observe b r (min proposed 4) (min accepted 4)) (\<lambda>b'.
           Inr \<lparr>main = m, extension = Some (b',
             if s_mode (p_settings m) = ''saturation'' then growth_observe g r proposed accepted else g)\<rparr>))"

fun growth_text :: "growth_reason \<Rightarrow> string" where
  "growth_text Saturation_Ema4 = ''saturation_ema4''"
| "growth_text Saturation_Fallback = ''saturation_fallback''"
| "growth_text Saturation_Hold = ''saturation_hold''"
| "growth_text Saturation_Grow = ''saturation_grow''"

definition policy_choose ::
  "(rat list \<Rightarrow> rat) \<Rightarrow> policy \<Rightarrow> (rid \<times> int) list \<Rightarrow> bool \<Rightarrow> (policy \<times> decision) py" where
  "policy_choose fsum p ctxs mixed =
     (let S = p_settings (main p); c = int (length ctxs) in
      case extension p of
        None \<Rightarrow> py_bind (core_choose fsum (main p) ctxs mixed) (\<lambda>(m, d). Inr (p\<lparr>main := m\<rparr>, d))
      | Some (b, g) \<Rightarrow>
          if \<not> (1 \<le> c \<and> c \<le> s_max_requests S) \<or> mixed
          then Inr (p\<lparr>extension := Some (b, growth_reset)\<rparr>, decision_of S c (s_max_k S) ''mixed_or_unsupported_batch'')
          else py_bind (core_choose fsum b ctxs False) (\<lambda>(b', base).
            if s_mode S = ''ema4''
            then Inr (p\<lparr>extension := Some (b', g)\<rparr>, decision_of S c (dec_k base) (''ema4_'' @ dec_reason base))
            else let (g', k, reason) = growth_choose g (sort (map fst ctxs)) (dec_k base)
                 in Inr (p\<lparr>extension := Some (b', g')\<rparr>, decision_of S c k (growth_text reason))))"

section \<open>Trimming a batch\<close>

definition trim_batch ::
  "(rid \<times> int) list \<Rightarrow> (rid \<rightharpoonup> int list) \<Rightarrow> int \<Rightarrow> int \<Rightarrow> ((rid \<times> int) list \<times> (rid \<rightharpoonup> int list) \<times> int) py" where
  "trim_batch counts drafts k mk =
     py_bind (speed_geometry 1 mk) (\<lambda>g.
       py_guard (k \<notin> set (geometry_ks g)) ValueError
         (py_guard (counts = [] \<or> list_ex (\<lambda>(r, n). case drafts r of None \<Rightarrow> True
               | Some ds \<Rightarrow> n \<noteq> int (length ds) + 1 \<or> int (length ds) < k) counts) ValueError
           (Inr (map (\<lambda>(r, n). (r, k + 1)) counts,
                 foldl (\<lambda>m (r, n). m(r \<mapsto> take (nat k) (the (m r)))) drafts counts,
                 fst (foldl (\<lambda>(removed, m) (r, n). (removed + int (length (the (m r))) - k, m(r \<mapsto> take (nat k) (the (m r)))))
                   (0, drafts) counts)))))"

section \<open>Invariants\<close>

definition captured_ks :: "settings \<Rightarrow> int list" where
  "captured_ks S = (case settings_axes S of Inl e \<Rightarrow> [] | Inr (cs, ks) \<Rightarrow> ks)"

definition core_inv :: "core \<Rightarrow> bool" where
  "core_inv p \<longleftrightarrow> settings_check (p_settings p) = Inr () \<and> current_k p \<in> set (captured_ks (p_settings p))
     \<and> pending_count p < 4
     \<and> (\<forall>r h. p_requests p r = Some h \<longrightarrow> history_wf h \<and> h_max_k h = s_max_k (p_settings p))"

definition policy_inv :: "policy \<Rightarrow> bool" where
  "policy_inv p \<longleftrightarrow> core_inv (main p)
     \<and> (case extension p of
          None \<Rightarrow> s_mode (p_settings (main p)) \<notin> {''ema4'', ''saturation''}
        | Some (b, g) \<Rightarrow> s_mode (p_settings (main p)) \<in> {''ema4'', ''saturation''} \<and> core_inv b
            \<and> p_settings b = ema4_settings (p_settings (main p)) \<and> growth_inv g)"

lemma settings_ok:
  assumes "settings_check S = Inr ()"
  obtains cs ks where "settings_axes S = Inr (cs, ks)" "captured_ks S = ks" "s_max_k S \<in> set ks"
    "\<forall>k \<in> set ks. 1 \<le> k \<and> k \<le> s_max_k S" "1 \<le> s_max_k S" "s_max_k S \<le> 8" "1 \<le> s_max_requests S" "s_max_requests S \<le> 16"
    "\<forall>c \<in> set cs. 1 \<le> c \<and> c \<le> s_max_requests S"
    "s_mode S = ''forced'' \<longrightarrow> forced_k S \<in> set ks"
    "s_mode S \<in> {''ema4'', ''saturation''} \<longrightarrow> s_max_k S = 7 \<and> s_scope S = ''all'' \<and> cs = [1..s_max_requests S] \<and> ks = [1..7]"
    "s_mode S = ''cost'' \<longrightarrow> s_max_k S = 4" "s_mode S \<noteq> ''off'' \<longrightarrow> s_scope S \<noteq> ''off''"
    "s_scope S \<in> {''off'', ''c1c2'', ''all''}"
    "s_mode S \<in> {''off'', ''forced'', ''ema'', ''cost'', ''ema4'', ''saturation''}"
proof -
  from assms obtain cs ks where ax: "settings_axes S = Inr (cs, ks)"
    unfolding settings_check_def by auto
  note A = capture_axes_Inr [OF ax [unfolded settings_axes_def]]
  note R = capture_axis_Inr(4) [OF A(1) A(4)] and K = capture_axis_Inr(4) [OF A(2) A(6)]
  note a = assms [unfolded settings_check_def py_bind_Inr py_guard_Inr ax]
  show ?thesis
    by (rule that [OF ax _ A(3) K A(6) A(7) A(4) A(5) R])
      (use a in \<open>auto simp: captured_ks_def ax decode_shapes_def\<close>)
qed

lemma settings_captured_ks:
  assumes "settings_check S = Inr ()"
  shows "s_max_k S \<in> set (captured_ks S)" "k \<in> set (captured_ks S) \<Longrightarrow> 1 \<le> k \<and> k \<le> s_max_k S"
    "1 \<le> s_max_k S" "s_max_k S \<le> 8"
  using settings_ok [OF assms] by metis+

lemma ema4_settings_ok:
  assumes "settings_check S = Inr ()"
  shows "settings_check (ema4_settings S) = Inr ()" "captured_ks (ema4_settings S) = [1..4]"
    "settings_axes (ema4_settings S) = Inr ([1..s_max_requests S], [1..4])"
proof -
  have r: "1 \<le> s_max_requests S" "s_max_requests S \<le> 16" using settings_ok [OF assms] by metis+
  then show ax: "settings_axes (ema4_settings S) = Inr ([1..s_max_requests S], [1..4])"
    by (simp add: settings_axes_def ema4_settings_def capture_axes_def speed_geometry_def capture_axis_def)
  show "captured_ks (ema4_settings S) = [1..4]" by (simp add: captured_ks_def ax)
  have c: "capture_axes (s_max_requests S) 4 None None = Inr ([1..s_max_requests S], [1..4])"
    using r by (simp add: capture_axes_def speed_geometry_def capture_axis_def)
  show "settings_check (ema4_settings S) = Inr ()"
    using r ax c by (simp add: settings_check_def ema4_settings_def speed_geometry_def geometry_ks_def decode_shapes_def)
qed

lemma core_new_inv: "settings_check S = Inr () \<Longrightarrow> core_inv (core_new S ct)"
  by (simp add: core_inv_def core_new_def settings_captured_ks)

lemma reset_extension_inv: "core_inv p \<Longrightarrow> policy_inv (reset_extension p)"
  using core_new_inv [OF ema4_settings_ok(1)] unfolding policy_inv_def reset_extension_def
  by (auto simp: core_inv_def core_new_def reset_inv)

lemma settle_inv: "core_inv p \<Longrightarrow> k \<in> set (captured_ks (p_settings p)) \<Longrightarrow> core_inv (settle p k)"
  by (auto simp: core_inv_def settle_def Let_def)

lemma settle_settings [simp]: "p_settings (settle p k) = p_settings p"
  by (simp add: settle_def Let_def)

lemma enter_members_inv: "core_inv p \<Longrightarrow> core_inv (enter_members p ms)"
  by (auto simp: core_inv_def enter_members_def settings_captured_ks)

lemma enter_members_settings [simp]: "p_settings (enter_members p ms) = p_settings p"
  by (simp add: enter_members_def)

lemma history_new_ok: "1 \<le> k \<Longrightarrow> k \<le> 8 \<Longrightarrow> \<exists>h. history_new k = Inr h \<and> history_wf h \<and> h_max_k h = k"
  using history_new_wf [of k] by (auto simp: history_new_def)

lemma setdefault_all_inv:
  assumes "core_inv p" "history_wf fresh" "h_max_k fresh = s_max_k (p_settings p)"
  shows "core_inv ((setdefault_all p fresh ms)\<lparr>p_steps := n\<rparr>)"
    "\<forall>h \<in> set (histories_of ((setdefault_all p fresh ms)\<lparr>p_steps := n\<rparr>) ms). history_wf h"
proof -
  let ?q = "(setdefault_all p fresh ms)\<lparr>p_steps := n\<rparr>"
  have req: "history_wf h \<and> h_max_k h = s_max_k (p_settings p)" if "p_requests ?q r = Some h" for r h
    using assms that by (auto simp: core_inv_def setdefault_all_def split: if_splits)
  show "core_inv ?q" using assms(1) req unfolding core_inv_def by (simp add: setdefault_all_def)
  have "p_requests ?q r \<noteq> None" if "r \<in> set ms" for r using that by (simp add: setdefault_all_def)
  then show "\<forall>h \<in> set (histories_of ?q ms). history_wf h" using req by (force simp: histories_of_def)
qed

lemma setdefault_all_settings [simp]: "p_settings (setdefault_all p fresh ms) = p_settings p"
  by (simp add: setdefault_all_def)

lemma best_k_range: "best_k score \<in> {1, 2, 3, 4}"
  by (simp add: best_k_def KS_def)

lemma desired_k_le:
  assumes "core_inv p" "desired_k fsum p ctxs hs = Inr d" "hs \<noteq> []" "s_mode (p_settings p) \<notin> {''off'', ''forced''}"
  shows "d \<le> s_max_k (p_settings p)"
proof (cases "s_mode (p_settings p) = ''ema''")
  case True
  then have "d = Max (set (map (ema_want (s_max_k (p_settings p))) hs))" using assms(2) by (simp add: desired_k_def Let_def)
  moreover have "ema_want (s_max_k (p_settings p)) h \<le> s_max_k (p_settings p)" for h
    using assms(1) by (simp add: ema_want_def core_inv_def settings_captured_ks)
  ultimately show ?thesis using assms(3) by simp
next
  case False
  then obtain s where "d = best_k s"
    using assms(2) by (auto simp: desired_k_def Let_def split: option.splits if_splits)
  then have "d \<le> 4" using best_k_range [of s] by auto
  moreover have "4 \<le> s_max_k (p_settings p)"
  proof -
    have "settings_check (p_settings p) = Inr ()" using assms(1) by (simp add: core_inv_def)
    then obtain cs ks where "s_mode (p_settings p) \<in> {''ema4'', ''saturation''} \<longrightarrow> s_max_k (p_settings p) = 7
        \<and> s_scope (p_settings p) = ''all'' \<and> cs = [1..s_max_requests (p_settings p)] \<and> ks = [1..7]"
      "s_mode (p_settings p) = ''cost'' \<longrightarrow> s_max_k (p_settings p) = 4"
      "s_mode (p_settings p) \<in> {''off'', ''forced'', ''ema'', ''cost'', ''ema4'', ''saturation''}"
      by (rule settings_ok)
    then show ?thesis using assms(4) False by force
  qed
  ultimately show ?thesis by simp
qed

definition allowed_k :: "settings \<Rightarrow> int \<Rightarrow> int \<Rightarrow> bool" where
  "allowed_k S c k \<longleftrightarrow> k = s_max_k S
     \<or> (k \<in> set (captured_ks S) \<and> (case settings_axes S of Inl e \<Rightarrow> False | Inr (cs, ks) \<Rightarrow> c \<in> set cs)
        \<and> (s_scope S = ''all'' \<or> s_scope S = ''c1c2'' \<and> c \<le> 2))"

lemma allowed_max [simp]: "allowed_k S c (s_max_k S)"
  by (simp add: allowed_k_def)

lemma core_choose_unsupported:
  assumes "mixed \<or> \<not> (1 \<le> int (length ctxs) \<and> int (length ctxs) \<le> s_max_requests (p_settings p))"
  shows "\<exists>reason. core_choose fsum p ctxs mixed
    = Inr (p, decision_of (p_settings p) (int (length ctxs)) (s_max_k (p_settings p)) reason)"
proof -
  have t: "(\<not> (1 \<le> int (length ctxs) \<and> int (length ctxs) \<le> s_max_requests (p_settings p)) \<or> mixed) = True"
    using assms by blast
  show ?thesis unfolding core_choose_def Let_def t if_True by (cases "s_mode (p_settings p) = ''off''") auto
qed

lemma core_choose_ok:
  assumes "core_inv p"
  shows "\<exists>p' k reason. core_choose fsum p ctxs mixed = Inr (p', decision_of (p_settings p) (int (length ctxs)) k reason)
    \<and> core_inv p' \<and> p_settings p' = p_settings p \<and> allowed_k (p_settings p) (int (length ctxs)) k"
proof -
  define S c ms where "S = p_settings p" and "c = int (length ctxs)" and "ms = sort (map fst ctxs)"
  have ok: "settings_check S = Inr ()" using assms by (simp add: core_inv_def S_def)
  obtain cs ks where ax: "settings_axes S = Inr (cs, ks)" "captured_ks S = ks" "s_max_k S \<in> set ks"
    and fk: "s_mode S = ''forced'' \<longrightarrow> forced_k S \<in> set ks" and sc: "s_mode S \<noteq> ''off'' \<longrightarrow> s_scope S \<noteq> ''off''"
    "s_scope S \<in> {''off'', ''c1c2'', ''all''}"
    using settings_ok [OF ok] by metis
  obtain fresh where fr: "history_new (s_max_k S) = Inr fresh" "history_wf fresh" "h_max_k fresh = s_max_k S"
    using history_new_ok settings_captured_ks(3,4) [OF ok] by blast
  define p1 where "p1 = enter_members p ms"
  define p2 where "p2 = (setdefault_all p1 fresh ms)\<lparr>p_steps := p_steps p1 + 1\<rparr>"
  define hs where "hs = histories_of p2 ms"
  have i1: "core_inv p1" "p_settings p1 = S" using assms by (simp_all add: p1_def enter_members_inv S_def)
  have i2: "core_inv p2" "p_settings p2 = S"
    using setdefault_all_inv(1) [OF i1(1) fr(2)] fr(3) i1(2) by (simp_all add: p2_def)
  consider (early) "s_mode S = ''off'' \<or> \<not> (1 \<le> c \<and> c \<le> s_max_requests S) \<or> mixed \<or> c \<notin> set cs \<or> s_scope S = ''c1c2'' \<and> 2 < c"
    | (late) "s_mode S \<noteq> ''off''" "1 \<le> c" "c \<le> s_max_requests S" "\<not> mixed" "c \<in> set cs" "\<not> (s_scope S = ''c1c2'' \<and> 2 < c)"
    by blast
  then show ?thesis
  proof cases
    case early
    have "\<exists>reason. core_choose fsum p ctxs mixed = Inr (p, decision_of S c (s_max_k S) reason)"
    proof (cases "s_mode S = ''off'' \<or> \<not> (1 \<le> c \<and> c \<le> s_max_requests S) \<or> mixed")
      case True
      then show ?thesis using core_choose_unsupported [of mixed ctxs p fsum]
        unfolding S_def c_def by (auto simp: core_choose_def Let_def)
    next
      case False
      then have f: "s_mode S \<noteq> ''off''" "(\<not> (1 \<le> c \<and> c \<le> s_max_requests S) \<or> mixed) = False" by blast+
      have t: "(c \<notin> set cs \<or> s_scope S = ''c1c2'' \<and> 2 < c) = True" using early False by blast
      show ?thesis
        unfolding core_choose_def Let_def S_def [symmetric] c_def [symmetric] ax(1) py_bind_simps case_prod_conv f(2) t
        by (intro exI [of _ "''outside_capture_scope''"]) (simp only: f(1) if_True if_False)
    qed
    then show ?thesis using assms unfolding S_def [symmetric] c_def [symmetric] by (metis S_def allowed_max)
  next
    case late
    have all: "allowed_k S c k" if "k \<in> set ks" for k
      using late sc that ax by (auto simp: allowed_k_def)
    have l: "(s_mode S = ''off'') = False" "(\<not> (1 \<le> c \<and> c \<le> s_max_requests S) \<or> mixed) = False"
      "(c \<notin> set cs \<or> s_scope S = ''c1c2'' \<and> 2 < c) = False" using late by blast+
    have step: "core_choose fsum p ctxs mixed =
        (if s_mode S = ''forced'' then Inr (p1, decision_of S c (forced_k S) ''forced'')
          else if list_ex (\<lambda>h. h_steps h < 8) hs then Inr (p2, decision_of S c (s_max_k S) ''warmup'')
          else if p_steps p2 mod 16 = 0 then Inr (p2, decision_of S c (s_max_k S) ''full_length_probe'')
          else case desired_k fsum p2 ctxs hs of
                Inl reason \<Rightarrow> Inr (p2, decision_of S c (s_max_k S) reason)
              | Inr d \<Rightarrow> (case find (\<lambda>k. d \<le> k) ks of
                    None \<Rightarrow> Inl StopIteration
                  | Some k \<Rightarrow> Inr (settle p2 k, decision_of S c (current_k (settle p2 k)) (s_mode S))))"
      unfolding core_choose_def Let_def S_def [symmetric] c_def [symmetric] ms_def [symmetric] ax(1)
        p1_def [symmetric] fr(1) py_bind_simps case_prod_conv p2_def [symmetric] hs_def [symmetric] l if_False
      by (rule refl)
    have "length hs = length ctxs" by (simp add: hs_def histories_of_def ms_def)
    then have "hs \<noteq> []" using late(2) by (auto simp: c_def)
    show ?thesis
    proof (cases "s_mode S = ''forced'' \<or> list_ex (\<lambda>h. h_steps h < 8) hs \<or> p_steps p2 mod 16 = 0")
      case True
      then show ?thesis using i1 i2 all fk unfolding step S_def [symmetric] c_def [symmetric] by auto
    next
      case False
      show ?thesis
      proof (cases "desired_k fsum p2 ctxs hs")
        case (Inl reason)
        then show ?thesis using i2 False unfolding step S_def [symmetric] c_def [symmetric] by auto
      next
        case (Inr d)
        have "d \<le> s_max_k S"
          using desired_k_le [OF i2(1) Inr \<open>hs \<noteq> []\<close>] late(1) False i2(2) by simp
        with ax(3) obtain k where k: "find (\<lambda>k. d \<le> k) ks = Some k"
          by (cases "find (\<lambda>k. d \<le> k) ks") (auto simp: find_None_iff)
        then have "k \<in> set ks" by (metis find_Some_iff nth_mem)
        then have "core_inv (settle p2 k)" using settle_inv [OF i2(1)] i2(2) ax(2) by simp
        moreover from this have "current_k (settle p2 k) \<in> set ks" using i2(2) ax(2) by (simp add: core_inv_def)
        ultimately show ?thesis
          using i2 False k Inr all unfolding step S_def [symmetric] c_def [symmetric] by auto
      qed
    qed
  qed
qed


lemma allowed_captured:
  assumes "settings_check S = Inr ()" "1 \<le> c" "c \<le> s_max_requests S" "allowed_k S c k"
  shows "\<exists>shapes. decode_shapes (s_scope S) (s_max_requests S) (s_max_k S) (capture_requests S) (capture_ks S) = Inr shapes
    \<and> \<lparr>concurrency = c, shape_k = k\<rparr> \<in> set shapes"
proof -
  obtain cs ks where ax: "settings_axes S = Inr (cs, ks)" "captured_ks S = ks" "s_max_k S \<in> set ks"
    using settings_ok [OF assms(1)] by metis
  obtain shapes where sh: "decode_shapes (s_scope S) (s_max_requests S) (s_max_k S) (capture_requests S) (capture_ks S) = Inr shapes"
    using assms(1) unfolding settings_check_def by auto
  note m = decode_shapes_mem [OF ax(1) [unfolded settings_axes_def] sh, of "\<lparr>concurrency = c, shape_k = k\<rparr>"]
  have "\<lparr>concurrency = c, shape_k = k\<rparr> \<in> set shapes"
    unfolding m using assms(2-4) ax by (auto simp: allowed_k_def)
  with sh show ?thesis by blast
qed

lemma allowed_range: "settings_check S = Inr () \<Longrightarrow> allowed_k S c k \<Longrightarrow> 1 \<le> k \<and> k \<le> s_max_k S"
  using settings_captured_ks by (auto simp: allowed_k_def)

lemma growth_choose_k:
  "fst (snd (growth_choose g ms b)) = (if b < 4 then b else cap (fst (growth_choose g ms b)))"
  by (simp add: growth_choose_def Let_def)

lemma policy_choose_ok:
  assumes "policy_inv p"
  shows "\<exists>p' k reason. policy_choose fsum p ctxs mixed
      = Inr (p', decision_of (p_settings (main p)) (int (length ctxs)) k reason)
    \<and> policy_inv p' \<and> p_settings (main p') = p_settings (main p)
    \<and> allowed_k (p_settings (main p)) (int (length ctxs)) k
    \<and> (mixed \<or> \<not> (1 \<le> int (length ctxs) \<and> int (length ctxs) \<le> s_max_requests (p_settings (main p)))
        \<longrightarrow> k = s_max_k (p_settings (main p)))"
proof -
  define S c where "S = p_settings (main p)" and "c = int (length ctxs)"
  have ok: "settings_check S = Inr ()" using assms by (simp add: policy_inv_def core_inv_def S_def)
  show ?thesis
  proof (cases "extension p")
    case None
    have i: "core_inv (main p)" "s_mode S \<notin> {''ema4'', ''saturation''}"
      using assms None by (auto simp: policy_inv_def S_def)
    obtain m k reason where m: "core_choose fsum (main p) ctxs mixed = Inr (m, decision_of S c k reason)"
      "core_inv m" "p_settings m = S" "allowed_k S c k"
      using core_choose_ok [OF i(1)] unfolding S_def c_def by blast
    have "policy_choose fsum p ctxs mixed = Inr (p\<lparr>main := m\<rparr>, decision_of S c k reason)"
      using None m(1) by (simp add: policy_choose_def Let_def)
    moreover have "policy_inv (p\<lparr>main := m\<rparr>)" using m i None by (simp add: policy_inv_def)
    moreover have "k = s_max_k S" if "mixed \<or> \<not> (1 \<le> c \<and> c \<le> s_max_requests S)"
      using core_choose_unsupported [of mixed ctxs "main p" fsum] that m(1)
      unfolding S_def [symmetric] c_def [symmetric] by (auto simp: decision_of_def)
    ultimately show ?thesis using m(3,4) unfolding S_def [symmetric] c_def [symmetric]
      by (intro exI [of _ "p\<lparr>main := m\<rparr>"] exI [of _ k] exI [of _ reason]) simp
  next
    case (Some e)
    obtain b g where e: "extension p = Some (b, g)" using Some by (cases e) simp
    have i: "s_mode S \<in> {''ema4'', ''saturation''}" "core_inv b" "p_settings b = ema4_settings S" "growth_inv g" "core_inv (main p)"
      using assms e by (auto simp: policy_inv_def S_def)
    obtain cs ks where S7: "s_mode S \<in> {''ema4'', ''saturation''} \<longrightarrow> s_max_k S = 7 \<and> s_scope S = ''all''
        \<and> cs = [1..s_max_requests S] \<and> ks = [1..7]" "settings_axes S = Inr (cs, ks)" "captured_ks S = ks"
      by (rule settings_ok [OF ok])
    have all: "allowed_k S c k" if "1 \<le> c" "c \<le> s_max_requests S" "1 \<le> k" "k \<le> 7" for k
      using that S7 i(1) by (auto simp: allowed_k_def)
    show ?thesis
    proof (cases "\<not> (1 \<le> c \<and> c \<le> s_max_requests S) \<or> mixed")
      case True
      have "policy_choose fsum p ctxs mixed = Inr (p\<lparr>extension := Some (b, growth_reset)\<rparr>,
          decision_of S c (s_max_k S) ''mixed_or_unsupported_batch'')"
        unfolding policy_choose_def Let_def e S_def [symmetric] c_def [symmetric] option.case case_prod_conv
        using True by (simp only: if_True simp_thms)
      moreover have "policy_inv (p\<lparr>extension := Some (b, growth_reset)\<rparr>)"
        using i unfolding policy_inv_def by (simp add: S_def reset_inv)
      ultimately show ?thesis unfolding S_def [symmetric] c_def [symmetric]
        by (intro exI [of _ "p\<lparr>extension := Some (b, growth_reset)\<rparr>"] exI [of _ "s_max_k S"]
          exI [of _ "''mixed_or_unsupported_batch''"]) (simp add: S_def)
    next
      case False
      obtain b' k reason where B: "core_choose fsum b ctxs False = Inr (b', decision_of (p_settings b) c k reason)"
        "core_inv b'" "p_settings b' = p_settings b" "allowed_k (p_settings b) c k"
        using core_choose_ok [OF i(2)] unfolding c_def by blast
      have k: "1 \<le> k" "k \<le> 4" using allowed_range [OF ema4_settings_ok(1) [OF ok]] B(4) i(3)
        by (auto simp: ema4_settings_def)
      define g' where "g' = fst (growth_choose g (sort (map fst ctxs)) k)"
      define k' where "k' = fst (snd (growth_choose g (sort (map fst ctxs)) k))"
      define e' where "e' = (if s_mode S = ''ema4'' then (b', g) else (b', g'))"
      define kk where "kk = (if s_mode S = ''ema4'' then k else k')"
      have g': "growth_inv g'" using growth_choose_step(1) [OF i(4)] by (simp add: g'_def)
      then have "1 \<le> k'" "k' \<le> 7" using k growth_choose_k [of g "sort (map fst ctxs)" k]
        by (auto simp: k'_def g'_def growth_inv_def)
      then have "allowed_k S c kk" using all False k by (simp add: kk_def)
      moreover have "\<exists>r. policy_choose fsum p ctxs mixed = Inr (p\<lparr>extension := Some e'\<rparr>, decision_of S c kk r)"
        using False unfolding policy_choose_def Let_def e S_def [symmetric] c_def [symmetric] option.case case_prod_conv
        by (cases "s_mode S = ''ema4''")
          (auto simp: B(1) e'_def kk_def g'_def k'_def case_prod_beta decision_of_def)
      moreover have "policy_inv (p\<lparr>extension := Some e'\<rparr>)"
        using i B g' unfolding policy_inv_def by (simp add: S_def e'_def)
      ultimately show ?thesis using False unfolding S_def [symmetric] c_def [symmetric]
        by (metis S_def policy.select_convs(1) policy.surjective policy.update_convs(2))
    qed
  qed
qed

section \<open>Properties\<close>


definition demo_settings :: settings where
  "demo_settings = \<lparr>s_mode = ''saturation'', forced_k = 7, s_scope = ''all'', s_max_requests = 6, s_max_k = 7,
     capture_requests = None, capture_ks = None\<rparr>"

lemma demo_settings_ok: "settings_check demo_settings = Inr ()"
  by code_simp

lemma demo_policy_inv: "policy_inv (policy_new demo_settings None)"
  unfolding policy_new_def by (intro reset_extension_inv core_new_inv demo_settings_ok)


text \<open>The hysteresis over a run of wishes.\<close>

lemma settle_count:
  assumes "pending_count p < 4"
    "pending_count p \<le> length ds" "list_all (\<lambda>d. d = pending_k p) (drop (length ds - pending_count p) ds)"
  shows "pending_count (settle p d) < 4 \<and> pending_count (settle p d) \<le> length (ds @ [d])
    \<and> list_all (\<lambda>x. x = pending_k (settle p d)) (drop (length (ds @ [d]) - pending_count (settle p d)) (ds @ [d]))
    \<and> (current_k (settle p d) \<noteq> current_k p \<longrightarrow> pending_count p = 3 \<and> d = pending_k p \<and> current_k (settle p d) = d)"
  using assms by (auto simp: settle_def Let_def Suc_diff_le)

text \<open>
  The current length differs after a run of wishes only if four consecutive wishes equal
  to the new length occurred in the run.
\<close>

theorem length_moves_after_four_equal_wishes:
  assumes "pending_count p = 0" "current_k (foldl settle p ds) \<noteq> current_k p"
  shows "\<exists>i. i + 4 \<le> length ds \<and> take 4 (drop i ds) = replicate 4 (current_k (foldl settle p ds))"
proof -
  have inv: "pending_count (foldl settle p ds) < 4 \<and> pending_count (foldl settle p ds) \<le> length ds
      \<and> list_all (\<lambda>d. d = pending_k (foldl settle p ds)) (drop (length ds - pending_count (foldl settle p ds)) ds)"
    for ds
  proof (induction ds rule: rev_induct)
    case (snoc d ds)
    then show ?case using settle_count [of "foldl settle p ds" ds d] by simp
  qed (simp add: assms(1))
  show ?thesis using assms(2)
  proof (induction ds rule: rev_induct)
    case (snoc d ds)
    let ?q = "foldl settle p ds"
    show ?case
    proof (cases "current_k (settle ?q d) = current_k ?q")
      case True
      then obtain i where "i + 4 \<le> length ds" "take 4 (drop i ds) = replicate 4 (current_k ?q)"
        using snoc by auto
      then show ?thesis using True by (intro exI [of _ i]) simp
    next
      case False
      note c = settle_count [of ?q ds d]
      have q: "pending_count ?q = 3" "d = pending_k ?q" "current_k (settle ?q d) = d"
        using c inv [of ds] False by blast+
      define i where "i = length ds - 3"
      have i: "i + 3 = length ds" "list_all (\<lambda>x. x = d) (drop i ds)"
        using inv [of ds] q by (simp_all add: i_def)
      then have "drop i ds = replicate 3 d"
        by (intro replicate_eqI) (auto simp: list_all_iff)
      then have "take 4 (drop i (ds @ [d])) = replicate 4 d"
        using i(1) by (simp add: eval_nat_numeral)
      then show ?thesis using i(1) q(3) by (intro exI [of _ i]) simp
    qed
  qed simp
qed

theorem length_moves_after_four_equal_wishes_witness:
  "current_k (foldl settle (core_new demo_settings None) [3, 2, 2, 2, 2]) = 2"
proof -
  have e: "current_k (foldl settle (core_new demo_settings None) [3, 2, 2, 2, 2]) = 2"
    by (simp add: core_new_def demo_settings_def settle_def)
  have "pending_count (core_new demo_settings None) = 0"
    "current_k (foldl settle (core_new demo_settings None) [3, 2, 2, 2, 2]) \<noteq> current_k (core_new demo_settings None)"
    unfolding e by (simp_all add: core_new_def demo_settings_def)
  from length_moves_after_four_equal_wishes [OF this] e show ?thesis by blast
qed

lemma configure_inv:
  assumes "policy_inv p" "settings_check S = Inr ()" "policy_configure p S ct = Inr p'"
  shows "policy_inv p'"
proof (cases "S \<noteq> p_settings (main p) \<or> (case ct of None \<Rightarrow> p_costs (main p) | Some t \<Rightarrow> t) \<noteq> p_costs (main p)")
  case True
  let ?q = "(main p)\<lparr>p_settings := S, p_costs := (case ct of None \<Rightarrow> p_costs (main p) | Some t \<Rightarrow> t),
    current_k := s_max_k S, pending_k := s_max_k S, pending_count := 0\<rparr>"
  have e: "p' = reset_extension ?q" "s_max_k S = s_max_k (p_settings (main p))"
    using assms(3) True unfolding policy_configure_def Let_def py_guard_Inr by auto
  have "core_inv ?q" using assms(1,2) e(2) settings_captured_ks(1) [OF assms(2)]
    by (simp add: policy_inv_def core_inv_def)
  then show ?thesis unfolding e(1) by (rule reset_extension_inv)
next
  case False
  then show ?thesis using assms by (simp add: policy_configure_def Let_def)
qed

lemma core_observe_ok:
  assumes "core_inv p" "1 \<le> a" "a \<le> s_max_k (p_settings p)" "0 \<le> n" "n \<le> a"
  shows "\<exists>p'. core_observe p r a n = Inr p' \<and> core_inv p' \<and> p_settings p' = p_settings p
    \<and> (\<exists>h. p_requests p' r = Some h \<and> h_steps h = Suc (case p_requests p r of None \<Rightarrow> 0 | Some h0 \<Rightarrow> h_steps h0))"
proof -
  have ok: "settings_check (p_settings p) = Inr ()" using assms(1) by (simp add: core_inv_def)
  obtain fresh where fr: "history_new (s_max_k (p_settings p)) = Inr fresh" "history_wf fresh" "h_max_k fresh = s_max_k (p_settings p)"
    using history_new_ok settings_captured_ks(3,4) [OF ok] by blast
  have fs: "h_steps fresh = 0" using fr(1) by (auto simp: history_new_def)
  define h where "h = (case p_requests p r of None \<Rightarrow> fresh | Some h \<Rightarrow> h)"
  have h: "history_wf h" "h_max_k h = s_max_k (p_settings p)"
    using assms(1) fr by (auto simp: h_def core_inv_def split: option.splits)
  then obtain h' where h': "history_observe h a n = Inr h'" using assms by (auto simp: history_observe_def)
  note w = history_observe_step [OF h(1) h']
  have "core_observe p r a n = Inr (p\<lparr>p_requests := (p_requests p)(r \<mapsto> h')\<rparr>)"
    using fr(1) h' by (simp add: core_observe_def h_def)
  moreover have "core_inv (p\<lparr>p_requests := (p_requests p)(r \<mapsto> h')\<rparr>)"
    using assms(1) w h by (simp add: core_inv_def)
  ultimately show ?thesis using w fs by (auto simp: h_def split: option.splits)
qed

text \<open>
  Observing a legal acceptance never raises, keeps the policy invariant including its
  baseline and growth state, and counts exactly one step for the request.
\<close>

theorem policy_observe_total:
  assumes "policy_inv p" "1 \<le> proposed" "proposed \<le> s_max_k (p_settings (main p))" "0 \<le> accepted" "accepted \<le> proposed"
  shows "\<exists>p'. policy_observe p r proposed accepted = Inr p' \<and> policy_inv p'
    \<and> (\<exists>h. p_requests (main p') r = Some h
         \<and> h_steps h = Suc (case p_requests (main p) r of None \<Rightarrow> 0 | Some h0 \<Rightarrow> h_steps h0))"
proof -
  have i: "core_inv (main p)" using assms(1) by (simp add: policy_inv_def)
  obtain m where m: "core_observe (main p) r proposed accepted = Inr m" "core_inv m" "p_settings m = p_settings (main p)"
    "\<exists>h. p_requests m r = Some h \<and> h_steps h = Suc (case p_requests (main p) r of None \<Rightarrow> 0 | Some h0 \<Rightarrow> h_steps h0)"
    using core_observe_ok [OF i assms(2-5)] by blast
  show ?thesis
  proof (cases "extension p")
    case None
    then show ?thesis using m assms(1) by (simp add: policy_observe_def policy_inv_def)
  next
    case (Some e)
    obtain b g where e: "extension p = Some (b, g)" using Some by (cases e) simp
    have b: "core_inv b" "p_settings b = ema4_settings (p_settings (main p))" "growth_inv g"
      using assms(1) e by (auto simp: policy_inv_def)
    have "min proposed 4 \<le> s_max_k (p_settings b)" unfolding b(2) by (simp add: ema4_settings_def)
    then obtain b' where b': "core_observe b r (min proposed 4) (min accepted 4) = Inr b'" "core_inv b'" "p_settings b' = p_settings b"
      using core_observe_ok [OF b(1), of "min proposed 4" "min accepted 4" r] assms(2-5) min.mono [OF assms(5) order_refl, of 4]
      by auto
    then show ?thesis using m assms(1) e b growth_observe_step(1) [OF b(3)]
      by (simp add: policy_observe_def policy_inv_def)
  qed
qed

theorem policy_observe_total_witness:
  "\<exists>p'. policy_observe (policy_new demo_settings None) 3 5 5 = Inr p' \<and> policy_inv p'"
  using policy_observe_total [OF demo_policy_inv, of 5 5 3]
  by (auto simp: policy_new_def reset_extension_def core_new_def demo_settings_def)

text \<open>Retaining keeps only live requests, in every table.\<close>

lemma policy_retain_ok:
  assumes "policy_inv p"
  shows "policy_inv (policy_retain p live) \<and> dom (p_requests (main (policy_retain p live))) \<subseteq> set live
    \<and> (\<forall>b g. extension (policy_retain p live) = Some (b, g) \<longrightarrow>
          dom (p_requests b) \<subseteq> set live \<and> set (members g) \<subseteq> set live)
    \<and> (\<forall>r \<in> set live. p_requests (main (policy_retain p live)) r = p_requests (main p) r)"
proof -
  have c: "core_inv (core_retain q live)" if "core_inv q" for q
    using that unfolding core_inv_def core_retain_def restrict_map_def by (auto split: if_splits)
  have d: "dom (p_requests (core_retain q live)) \<subseteq> set live" "p_settings (core_retain q live) = p_settings q"
    "r \<in> set live \<Longrightarrow> p_requests (core_retain q live) r = p_requests q r" for q r
    by (simp_all add: core_retain_def)
  have m: "main (policy_retain p live) = core_retain (main p) live" by (simp add: policy_retain_def)
  show ?thesis
  proof (cases "extension p")
    case None
    then have "extension (policy_retain p live) = None" by (simp add: policy_retain_def)
    then show ?thesis using assms None c d unfolding policy_inv_def m by simp
  next
    case (Some e)
    obtain b g where e: "extension p = Some (b, g)" using Some by (cases e) simp
    define g' where "g' = (if set (members g) \<subseteq> set live then g else growth_reset)"
    have x: "extension (policy_retain p live) = Some (core_retain b live, g')" by (simp add: policy_retain_def e g'_def)
    have b: "core_inv b" "p_settings b = ema4_settings (p_settings (main p))" "growth_inv g"
      "s_mode (p_settings (main p)) \<in> {''ema4'', ''saturation''}" "core_inv (main p)"
      using assms e by (auto simp: policy_inv_def)
    have "members growth_reset = []" by (simp add: growth_reset_def)
    then have g': "growth_inv g'" "set (members g') \<subseteq> set live" using b(3) reset_inv by (simp_all add: g'_def)
    have "policy_inv (policy_retain p live)"
      using c [OF b(1)] c [OF b(5)] b(2,4) d(2) g'(1) unfolding policy_inv_def m x option.case case_prod_conv by simp
    then show ?thesis using d g'(2) unfolding m x by simp
  qed
qed

theorem retain_forgets_dead_requests:
  assumes "policy_inv p"
  shows "policy_inv (policy_retain p live) \<and> dom (p_requests (main (policy_retain p live))) \<subseteq> set live
    \<and> (\<forall>b g. extension (policy_retain p live) = Some (b, g) \<longrightarrow>
          dom (p_requests b) \<subseteq> set live \<and> set (members g) \<subseteq> set live)
    \<and> (\<forall>r \<in> set live. p_requests (main (policy_retain p live)) r = p_requests (main p) r)"
  by (rule policy_retain_ok [OF assms])

theorem retain_forgets_dead_requests_witness:
  "dom (p_requests (main (policy_retain (policy_new demo_settings None) [1]))) \<subseteq> {1}"
  using retain_forgets_dead_requests [OF demo_policy_inv, of "[1]"] by simp

text \<open>Trimming.\<close>

lemma foldl_trim:
  assumes "distinct (map fst counts)" "\<forall>x \<in> set counts. drafts (fst x) \<noteq> None"
  shows "foldl (\<lambda>m (r, n). m(r \<mapsto> take k (the (m r)))) drafts counts
      = (\<lambda>r. if r \<in> fst ` set counts then map_option (take k) (drafts r) else drafts r)"
    "fst (foldl (\<lambda>(removed, m) (r, n). (removed + int (length (the (m r))) - j, m(r \<mapsto> take k (the (m r))))) (z, drafts) counts)
      = z + (\<Sum>(r, n) \<leftarrow> counts. int (length (the (drafts r))) - j)"
  using assms
proof (induction counts arbitrary: drafts z)
  case (Cons c counts)
  obtain r n where c: "c = (r, n)" by (cases c) simp
  {
    case 1
    let ?d = "drafts(r \<mapsto> take k (the (drafts r)))"
    have d: "\<forall>x \<in> set counts. ?d (fst x) \<noteq> None"
    proof
      fix x
      assume "x \<in> set counts"
      with 1(2) have "drafts (fst x) \<noteq> None" by (meson list.set_intros(2))
      then show "?d (fst x) \<noteq> None" by simp
    qed
    obtain ds where ds: "drafts r = Some ds" using 1(2) c by auto
    have "r \<notin> fst ` set counts" "distinct (map fst counts)" using 1(1) c by auto
    then show ?case
      unfolding c foldl.simps case_prod_conv Cons.IH(1) [OF \<open>distinct (map fst counts)\<close> d]
      by (intro ext) (simp add: ds)
  next
    case 2
    let ?d = "drafts(r \<mapsto> take k (the (drafts r)))"
    have d: "\<forall>x \<in> set counts. ?d (fst x) \<noteq> None"
    proof
      fix x
      assume "x \<in> set counts"
      with 2(2) have "drafts (fst x) \<noteq> None" by (meson list.set_intros(2))
      then show "?d (fst x) \<noteq> None" by simp
    qed
    have "(\<Sum>(r, n) \<leftarrow> counts. int (length (the (?d r))) - j) = (\<Sum>(r, n) \<leftarrow> counts. int (length (the (drafts r))) - j)"
      using 2 c by (intro arg_cong [of _ _ sum_list] map_cong) force+
    then show ?case using Cons.IH(2) [OF _ d] 2(1) c by simp
  }
qed simp_all

lemma trim_batch_ok:
  assumes "trim_batch counts drafts k mk = Inr (counts', drafts', removed)" "distinct (map fst counts)"
  shows "1 \<le> k \<and> k \<le> mk \<and> map fst counts' = map fst counts \<and> (\<forall>(r, n) \<in> set counts'. n = k + 1)
    \<and> (\<forall>r \<in> fst ` set counts. \<exists>ds. drafts r = Some ds \<and> drafts' r = Some (take (nat k) ds) \<and> int (length (take (nat k) ds)) = k)
    \<and> (\<forall>r. r \<notin> fst ` set counts \<longrightarrow> drafts' r = drafts r)
    \<and> 0 \<le> removed \<and> removed = sum_list (map snd counts) - sum_list (map snd counts')"
proof -
  define F where "F = foldl (\<lambda>m (r, n). m(r \<mapsto> take (nat k) (the (m r)))) drafts counts"
  have a: "k \<in> {1..mk}" "counts \<noteq> []"
    and ok: "\<forall>(r, n) \<in> set counts. \<exists>ds. drafts r = Some ds \<and> n = int (length ds) + 1 \<and> k \<le> int (length ds)"
    and e: "counts' = map (\<lambda>(r, n). (r, k + 1)) counts" "drafts' = F"
      "removed = fst (foldl (\<lambda>(removed, m) (r, n). (removed + int (length (the (m r))) - k,
         m(r \<mapsto> take (nat k) (the (m r))))) (0, drafts) counts)"
    using assms(1) unfolding trim_batch_def F_def [symmetric]
    by (auto simp: speed_geometry_def geometry_ks_def list_ex_iff split: option.splits)
  have some: "\<forall>x \<in> set counts. drafts (fst x) \<noteq> None" using ok by fastforce
  note F = foldl_trim [OF assms(2) some, where k = "nat k"]
  have "drafts' = (\<lambda>r. if r \<in> fst ` set counts then map_option (take (nat k)) (drafts r) else drafts r)"
    unfolding e(2) F_def F(1) ..
  moreover have rem: "removed = (\<Sum>(r, n) \<leftarrow> counts. int (length (the (drafts r))) - k)"
    unfolding e(3) F(2) by simp
  moreover have "0 \<le> (\<Sum>(r, n) \<leftarrow> counts. int (length (the (drafts r))) - k)"
    using ok by (intro sum_list_nonneg) force
  moreover have "(\<Sum>(r, n) \<leftarrow> cs. int (length (the (drafts r))) - k) = sum_list (map snd cs) - sum_list (map snd (map (\<lambda>(r, n). (r, k + 1)) cs))"
    if "set cs \<subseteq> set counts" for cs
    using that ok by (induction cs) fastforce+
  moreover have "\<exists>ds. drafts r = Some ds \<and> map_option (take (nat k)) (drafts r) = Some (take (nat k) ds) \<and> int (length (take (nat k) ds)) = k"
    if "r \<in> fst ` set counts" for r
    using that ok a(1) by fastforce
  ultimately show ?thesis using a(1) unfolding e(1) by (auto simp: comp_def case_prod_beta)
qed

text \<open>
  A successful trim leaves every request of the batch with exactly k draft tokens, the
  first ones it had, and k+1 scheduled tokens, touches no other request, and reports exactly
  the number of tokens it removed.
\<close>

theorem trim_makes_uniform_batch:
  assumes "trim_batch counts drafts k mk = Inr (counts', drafts', removed)" "distinct (map fst counts)"
  shows "1 \<le> k \<and> k \<le> mk \<and> map fst counts' = map fst counts \<and> (\<forall>(r, n) \<in> set counts'. n = k + 1)
    \<and> (\<forall>r \<in> fst ` set counts. \<exists>ds. drafts r = Some ds \<and> drafts' r = Some (take (nat k) ds) \<and> int (length (take (nat k) ds)) = k)
    \<and> (\<forall>r. r \<notin> fst ` set counts \<longrightarrow> drafts' r = drafts r)
    \<and> 0 \<le> removed \<and> removed = sum_list (map snd counts) - sum_list (map snd counts')"
  by (rule trim_batch_ok [OF assms])

theorem trim_makes_uniform_batch_witness:
  "case trim_batch [(1, 5), (2, 4)] [1 \<mapsto> [7, 8, 9, 10], 2 \<mapsto> [5, 6, 7]] 2 4 of Inl e \<Rightarrow> False
   | Inr (c, d, removed) \<Rightarrow> removed = 3 \<and> c = [(1, 3), (2, 3)]"
proof -
  obtain d where e: "trim_batch [(1, 5), (2, 4)] [1 \<mapsto> [7, 8, 9, 10], 2 \<mapsto> [5, 6, 7]] 2 4 = Inr ([(1, 3), (2, 3)], d, 3)"
    by (simp add: trim_batch_def speed_geometry_def geometry_ks_def)
  from trim_makes_uniform_batch [OF e] e show ?thesis by simp
qed

end
