(* ===== verification/Fair_Prefill.thy ===== *)
theory Fair_Prefill
  imports Engine_Model
begin

text \<open>
  The fair mixed-prefill planner (\<open>src/src/tp4/glm53_speedup/fair_prefill.py\<close>): \<open>plan\<close> computes one
  step's grants, \<open>defer_for_decode\<close> withholds them, \<open>limit\<close> reads them and \<open>observe\<close> rotates the queue
  and keeps the debt of bypassed long requests.
\<close>

datatype fair_reason = Off | SoloOriginalBudget | ContendedRoundRobin | ContendedAged
  | ContendedShortTailFirst | SplitDecodeRepay

record fair =
  block_size :: int
  queue :: "rid list"
  deferred_long :: "rid set"
  eligible_long :: "rid set"
  grants :: "(rid \<rightharpoonup> int) option"
  decode_reserved :: int
  fair_reason :: fair_reason

definition fair_init :: "int \<Rightarrow> fair py" where
  "fair_init bs = py_guard (bs \<le> 0) ValueError
     (Inr \<lparr>block_size = bs, queue = [], deferred_long = {}, eligible_long = {}, grants = None,
           decode_reserved = 0, fair_reason = Off\<rparr>)"

definition validate_cap :: "fair \<Rightarrow> int \<Rightarrow> unit py" where
  "validate_cap f cap =
     py_guard (cap \<noteq> 0 \<and> (cap < block_size f \<or> cap mod block_size f \<noteq> 0)) ValueError (Inr ())"

definition allowance_for :: "int \<Rightarrow> int \<Rightarrow> request \<Rightarrow> int \<Rightarrow> int \<Rightarrow> int" where
  "allowance_for bs slots r tokens scratch =
     (let start = num_computed_tokens r;
          end = prefill_end_of r;
          a = min tokens (min (scratch - slots) (max 0 (end - start)));
          b = (if start + a < end then (start + a) div bs * bs - start else a)
      in max 0 b)"

text \<open>The prefills a plan considers: the running ones and as many ready waiters as there are slots.\<close>

definition plan_prefills :: "engine \<Rightarrow> (request \<Rightarrow> bool) \<Rightarrow> request list" where
  "plan_prefills e pre =
     (let slots = max 0 (max_num_running_reqs e - int (length (running e)) - num_waiting_for_streaming_input e);
          ready = filter (\<lambda>r. status r \<in> {WAITING, PREEMPTED}) (skipped_waiting e @ waiting e)
      in filter pre (running e) @ take (nat slots) ready)"

definition plan_queue :: "rid list \<Rightarrow> request list \<Rightarrow> rid list" where
  "plan_queue qu prefills =
     (let kept = filter (\<lambda>i. i \<in> ids_of prefills) qu
      in kept @ map request_id (filter (\<lambda>r. request_id r \<notin> set kept) prefills))"

definition is_tail :: "int \<Rightarrow> int \<Rightarrow> int \<Rightarrow> int \<Rightarrow> request \<Rightarrow> bool" where
  "is_tail bs slots budget inputs r =
     (let remaining = prefill_end_of r - num_computed_tokens r
      in 0 < remaining \<and> remaining < bs \<and> allowance_for bs slots r budget inputs = remaining)"

definition lookup_request :: "(rid \<rightharpoonup> request) \<Rightarrow> (request \<Rightarrow> 'a) \<Rightarrow> rid \<Rightarrow> 'a \<Rightarrow> 'a" where
  "lookup_request m f i d = (case m i of None \<Rightarrow> d | Some r \<Rightarrow> f r)"

definition grant_one ::
  "int \<Rightarrow> int \<Rightarrow> (rid \<rightharpoonup> request) \<Rightarrow> (rid \<rightharpoonup> int) \<times> int \<times> int \<Rightarrow> rid \<Rightarrow> (rid \<rightharpoonup> int) \<times> int \<times> int" where
  "grant_one bs slots m acc i =
     (case acc of (gs, budget, inputs) \<Rightarrow>
        let a = lookup_request m (\<lambda>r. allowance_for bs slots r budget inputs) i 0
        in if a \<le> 0 then acc else (gs(i \<mapsto> a), budget - a, inputs - (a + slots)))"

text \<open>The order of the offers: bypassed long requests, then short terminal tails, then the rest.\<close>

definition plan_order :: "rid list \<Rightarrow> rid set \<Rightarrow> rid set \<Rightarrow> rid list \<Rightarrow> rid list" where
  "plan_order qu deferred eligible tails =
     (let priority = filter (\<lambda>i. i \<in> deferred \<and> i \<in> eligible) qu @ tails
      in priority @ filter (\<lambda>i. i \<notin> set priority) qu)"

text \<open>The reservation for \<open>n\<close> decoders, and what it leaves for prefill tokens and draft inputs.\<close>

definition plan_reserved :: "engine \<Rightarrow> int \<Rightarrow> int" where
  "plan_reserved e n = n * (num_spec_tokens e + 1)"

definition plan_inputs :: "engine \<Rightarrow> int \<Rightarrow> int" where
  "plan_inputs e n = max_num_batched_tokens e - (plan_reserved e n + n * draft_slots e)"

definition plan_budget :: "engine \<Rightarrow> int \<Rightarrow> int \<Rightarrow> int" where
  "plan_budget e cap n = min cap (max_num_scheduled_tokens e - plan_reserved e n)"

definition plan_tail :: "int \<Rightarrow> engine \<Rightarrow> int \<Rightarrow> int \<Rightarrow> (rid \<rightharpoonup> request) \<Rightarrow> rid \<Rightarrow> bool" where
  "plan_tail bs e cap n m i =
     lookup_request m (is_tail bs (draft_slots e) (plan_budget e cap n) (plan_inputs e n)) i False"

definition plan_possible :: "int \<Rightarrow> engine \<Rightarrow> int \<Rightarrow> int \<Rightarrow> (rid \<rightharpoonup> request) \<Rightarrow> rid \<Rightarrow> bool" where
  "plan_possible bs e cap n m i =
     lookup_request m (\<lambda>r. 0 < allowance_for bs (draft_slots e) r (plan_budget e cap n) (plan_inputs e n)) i False"

definition plan_tails :: "int \<Rightarrow> engine \<Rightarrow> int \<Rightarrow> int \<Rightarrow> (rid \<rightharpoonup> request) \<Rightarrow> rid list \<Rightarrow> rid list" where
  "plan_tails bs e cap n m qu = filter (plan_tail bs e cap n m) qu"

definition plan_eligible :: "int \<Rightarrow> engine \<Rightarrow> int \<Rightarrow> int \<Rightarrow> (rid \<rightharpoonup> request) \<Rightarrow> rid list \<Rightarrow> rid set" where
  "plan_eligible bs e cap n m qu =
     set (filter (\<lambda>i. \<not> plan_tail bs e cap n m i \<and> plan_possible bs e cap n m i) qu)"

definition plan_grants ::
  "int \<Rightarrow> engine \<Rightarrow> int \<Rightarrow> int \<Rightarrow> request list \<Rightarrow> rid list \<Rightarrow> (rid \<rightharpoonup> int) \<times> int \<times> int" where
  "plan_grants bs e cap n ps order =
     foldl (grant_one bs (draft_slots e) (by_id ps))
       (\<lambda>i. if i \<in> ids_of ps then Some 0 else None, plan_budget e cap n, plan_inputs e n) order"

definition plan_contended :: "fair \<Rightarrow> engine \<Rightarrow> int \<Rightarrow> int \<Rightarrow> request list \<Rightarrow> fair" where
  "plan_contended f1 e cap n ps =
     (let bs = block_size f1; m = by_id ps; qu = queue f1;
          tails = plan_tails bs e cap n m qu;
          eligible = plan_eligible bs e cap n m qu;
          protected = filter (\<lambda>i. i \<in> deferred_long f1 \<and> i \<in> eligible) qu
      in f1\<lparr>grants := Some (fst (plan_grants bs e cap n ps (plan_order qu (deferred_long f1) eligible tails))),
            decode_reserved := plan_reserved e n, eligible_long := eligible,
            fair_reason := (if tails = [] then ContendedRoundRobin
                            else if protected = [] then ContendedShortTailFirst else ContendedAged)\<rparr>)"

definition plan :: "fair \<Rightarrow> engine \<Rightarrow> int \<Rightarrow> (request \<Rightarrow> bool) \<Rightarrow> fair py" where
  "plan f e cap pre =
     py_bind (validate_cap f cap) (\<lambda>_. Inr (
       let f0 = f\<lparr>grants := None, decode_reserved := 0, fair_reason := Off, eligible_long := {}\<rparr> in
       if cap = 0 then f0\<lparr>queue := [], deferred_long := {}\<rparr>
       else let decoders = filter (\<lambda>r. \<not> pre r) (running e);
                prefills = plan_prefills e pre;
                f1 = f0\<lparr>queue := plan_queue (queue f) prefills,
                        deferred_long := deferred_long f \<inter> ids_of prefills\<rparr>
       in if decoders = [] \<and> length prefills \<le> 1 then f1\<lparr>fair_reason := SoloOriginalBudget\<rparr>
          else plan_contended f1 e cap (int (length decoders)) prefills))"

definition defer_for_decode :: "fair \<Rightarrow> int \<Rightarrow> fair" where
  "defer_for_decode f reserved =
     f\<lparr>grants := Some Map.empty, decode_reserved := reserved, fair_reason := SplitDecodeRepay,
       eligible_long := {}\<rparr>"

definition grant_of :: "fair \<Rightarrow> rid \<Rightarrow> int" where
  "grant_of f i = (case grants f of None \<Rightarrow> 0 | Some gs \<Rightarrow> (case gs i of None \<Rightarrow> 0 | Some a \<Rightarrow> a))"

definition fair_limit :: "fair \<Rightarrow> request \<Rightarrow> int \<Rightarrow> int" where
  "fair_limit f r n =
     (case grants f of None \<Rightarrow> n
      | Some gs \<Rightarrow> min n (case gs (request_id r) of None \<Rightarrow> 0 | Some a \<Rightarrow> a))"

definition count_of :: "(rid \<rightharpoonup> int) \<Rightarrow> rid \<Rightarrow> int" where
  "count_of counts i = (case counts i of None \<Rightarrow> 0 | Some n \<Rightarrow> n)"

definition offered :: "fair \<Rightarrow> (rid \<rightharpoonup> int) \<Rightarrow> rid list" where
  "offered f counts = filter (\<lambda>i. 0 < count_of counts i \<or> 0 < grant_of f i) (queue f)"

definition fair_observe :: "fair \<Rightarrow> (rid \<rightharpoonup> int) \<Rightarrow> fair" where
  "fair_observe f counts =
     (let off = offered f counts
      in f\<lparr>deferred_long := (deferred_long f \<union> (eligible_long f - set off)) - set off,
           queue := filter (\<lambda>i. i \<notin> set off) (queue f) @ off\<rparr>)"

section \<open>One allowance\<close>

lemma allowance_nonneg: "0 \<le> allowance_for bs slots r tokens scratch"
  unfolding allowance_for_def Let_def by (rule max.cobounded1)

lemma allowance_pos:
  assumes "0 < allowance_for bs slots r tokens scratch" "0 < bs"
  defines "a \<equiv> allowance_for bs slots r tokens scratch"
  shows "a \<le> tokens" "a \<le> scratch - slots" "num_computed_tokens r + a \<le> prefill_end_of r"
    "num_computed_tokens r + a = prefill_end_of r \<or> bs dvd num_computed_tokens r + a"
proof -
  define s e where "s = num_computed_tokens r" and "e = prefill_end_of r"
  define c where "c = min tokens (min (scratch - slots) (max 0 (e - s)))"
  have a: "a = max 0 (if s + c < e then (s + c) div bs * bs - s else c)"
    unfolding a_def allowance_for_def Let_def c_def s_def e_def by (rule refl)
  have c: "c \<le> tokens" "c \<le> scratch - slots" "c \<le> max 0 (e - s)"
    unfolding c_def by (rule min.cobounded1 min.coboundedI2 order_refl)+
  have fl: "(s + c) div bs * bs \<le> s + c" using div_bounds(1) [OF assms(2)] .
  have pos: "0 < a" using assms(1) by (simp add: a_def)
  then have ac: "a \<le> c" using a fl by (auto split: if_splits)
  show "a \<le> tokens" "a \<le> scratch - slots" using ac c by linarith+
  have "s + c \<le> e \<or> c \<le> 0" using c(3) by (auto simp: max_def split: if_splits)
  then show "num_computed_tokens r + a \<le> prefill_end_of r" using ac pos unfolding s_def e_def by auto
  show "num_computed_tokens r + a = prefill_end_of r \<or> bs dvd num_computed_tokens r + a"
  proof (cases "s + c < e")
    case True
    then have "s + a = (s + c) div bs * bs" using a pos by simp
    then show ?thesis unfolding s_def by (metis dvd_triv_right)
  next
    case False
    then have "a = c" using a pos by auto
    with False \<open>s + c \<le> e \<or> c \<le> 0\<close> pos show ?thesis unfolding s_def e_def by auto
  qed
qed

section \<open>The grant loop\<close>

definition grant_val :: "(rid \<rightharpoonup> int) \<Rightarrow> rid \<Rightarrow> int" where
  "grant_val gs i = (case gs i of None \<Rightarrow> 0 | Some a \<Rightarrow> a)"

definition grant_ok :: "int \<Rightarrow> (rid \<rightharpoonup> request) \<Rightarrow> rid \<Rightarrow> int \<Rightarrow> bool" where
  "grant_ok bs m i a \<longleftrightarrow> (\<exists>r. m i = Some r \<and> num_computed_tokens r + a \<le> prefill_end_of r
     \<and> (num_computed_tokens r + a = prefill_end_of r \<or> bs dvd num_computed_tokens r + a))"

lemma grant_one_cases:
  assumes "0 < bs"
  obtains "grant_one bs slots m (gs, b, inp) i = (gs, b, inp)"
  | a where "0 < a" "a \<le> b" "a + slots \<le> inp" "grant_ok bs m i a"
      "grant_one bs slots m (gs, b, inp) i = (gs(i \<mapsto> a), b - a, inp - (a + slots))"
proof (cases "lookup_request m (\<lambda>r. allowance_for bs slots r b inp) i 0 \<le> 0")
  case True
  then show ?thesis using that(1) by (simp add: grant_one_def Let_def)
next
  case False
  then obtain r where r: "m i = Some r" by (auto simp: lookup_request_def split: option.splits)
  let ?a = "allowance_for bs slots r b inp"
  have pos: "0 < ?a" using False r by (simp add: lookup_request_def)
  note ap = allowance_pos [OF pos assms]
  show ?thesis
    by (rule that(2) [of ?a]) (use pos ap r in \<open>auto simp: grant_ok_def grant_one_def lookup_request_def Let_def\<close>)
qed

lemma grant_loop:
  assumes "0 < bs" "distinct order" "\<forall>i \<in> set order. gs0 i = Some 0"
    "foldl (grant_one bs slots m) (gs0, b, inp) order = (gs, b', inp')"
  shows "(\<Sum>i \<in> set order. grant_val gs i) = b - b' \<and> b' \<le> b \<and> (0 \<le> b \<longrightarrow> 0 \<le> b')
    \<and> (b < 0 \<longrightarrow> b' = b)
    \<and> (0 \<le> inp \<longrightarrow> 0 \<le> inp')
    \<and> (\<Sum>i \<in> set order. if 0 < grant_val gs i then grant_val gs i + slots else 0) = inp - inp'
    \<and> (\<forall>i \<in> set order. \<exists>a \<ge> 0. gs i = Some a \<and> (0 < a \<longrightarrow> grant_ok bs m i a))
    \<and> (\<forall>i. i \<notin> set order \<longrightarrow> gs i = gs0 i)"
  using assms(2-4)
proof (induction order arbitrary: gs b' inp' rule: rev_induct)
  case Nil
  then show ?case by simp
next
  case (snoc i order)
  obtain g1 b1 i1 where f: "foldl (grant_one bs slots m) (gs0, b, inp) order = (g1, b1, i1)"
    by (metis prod_cases3)
  have ni: "i \<notin> set order" using snoc.prems(1) by simp
  note IH = snoc.IH [OF _ _ f]
  have IH: "(\<Sum>i \<in> set order. grant_val g1 i) = b - b1" "b1 \<le> b" "0 \<le> b \<longrightarrow> 0 \<le> b1" "b < 0 \<longrightarrow> b1 = b"
    "0 \<le> inp \<longrightarrow> 0 \<le> i1"
    "(\<Sum>i \<in> set order. if 0 < grant_val g1 i then grant_val g1 i + slots else 0) = inp - i1"
    "\<forall>i \<in> set order. \<exists>a \<ge> 0. g1 i = Some a \<and> (0 < a \<longrightarrow> grant_ok bs m i a)"
    "\<forall>i. i \<notin> set order \<longrightarrow> g1 i = gs0 i"
    using IH snoc.prems(1,2) by auto
  have gi: "g1 i = Some 0" using IH(8) ni snoc.prems(2) by simp
  have step: "grant_one bs slots m (g1, b1, i1) i = (gs, b', inp')" using snoc.prems(3) f by simp
  show ?case
  proof (rule grant_one_cases [OF assms(1), of slots m g1 b1 i1 i])
    assume "grant_one bs slots m (g1, b1, i1) i = (g1, b1, i1)"
    with step have "gs = g1" "b' = b1" "inp' = i1" by simp_all
    with IH gi ni show ?thesis by (auto simp: grant_val_def)
  next
    fix a assume a: "0 < a" "a \<le> b1" "a + slots \<le> i1" "grant_ok bs m i a"
      "grant_one bs slots m (g1, b1, i1) i = (g1(i \<mapsto> a), b1 - a, i1 - (a + slots))"
    with step have e: "gs = g1(i \<mapsto> a)" "b' = b1 - a" "inp' = i1 - (a + slots)" by simp_all
    have vi: "grant_val gs i = a" by (simp add: e grant_val_def)
    have vo: "\<And>j. j \<in> set order \<Longrightarrow> grant_val gs j = grant_val g1 j" using ni by (auto simp: e grant_val_def)
    have s1: "(\<Sum>j \<in> set (order @ [i]). grant_val gs j) = a + (\<Sum>j \<in> set order. grant_val g1 j)"
      using ni vi vo by (simp cong: sum.cong)
    have s2: "(\<Sum>j \<in> set (order @ [i]). if 0 < grant_val gs j then grant_val gs j + slots else 0)
       = (a + slots) + (\<Sum>j \<in> set order. if 0 < grant_val g1 j then grant_val g1 j + slots else 0)"
      using ni vi vo a(1) by (auto intro!: sum.cong)
    have nb: "0 \<le> b" using a IH(4) by auto
    show ?thesis
      unfolding s1 s2 using IH a e nb ni by auto
  qed
qed

lemma filter_compl_set: "set (filter P xs @ filter (\<lambda>i. i \<notin> set (filter P xs)) xs) = set xs"
  by auto

lemma plan_order_props:
  assumes "distinct qu" "eligible \<inter> set tails = {}" "set tails \<subseteq> set qu" "distinct tails"
  shows "distinct (plan_order qu deferred eligible tails)" "set (plan_order qu deferred eligible tails) = set qu"
  using assms by (auto simp: plan_order_def Let_def)

lemma plan_queue_props:
  assumes "distinct qu" "distinct (map request_id ps)"
  shows "distinct (plan_queue qu ps)" "set (plan_queue qu ps) = ids_of ps"
proof -
  have "distinct (map request_id (filter P ps))" for P using assms(2) by (simp add: distinct_map_filter)
  then show "distinct (plan_queue qu ps)" using assms(1) by (auto simp: plan_queue_def Let_def)
  show "set (plan_queue qu ps) = ids_of ps" by (auto simp: plan_queue_def Let_def ids_of_def)
qed

lemma plan_Inr:
  assumes "plan f e cap pre = Inr f'" "cap \<noteq> 0" "grants f' = Some gs"
  defines "n \<equiv> int (length (filter (\<lambda>r. \<not> pre r) (running e)))" and "ps \<equiv> plan_prefills e pre"
  defines "m \<equiv> by_id ps"
  shows "queue f' = plan_queue (queue f) ps" "deferred_long f' = deferred_long f \<inter> ids_of ps"
    "block_size f' = block_size f" "decode_reserved f' = plan_reserved e n"
    "eligible_long f' = plan_eligible (block_size f) e cap n m (queue f')"
    "gs = fst (plan_grants (block_size f) e cap n ps (plan_order (queue f') (deferred_long f') (eligible_long f')
            (plan_tails (block_size f) e cap n m (queue f'))))"
proof -
  define f1 where "f1 = f\<lparr>grants := None, decode_reserved := 0, fair_reason := Off, eligible_long := {},
      queue := plan_queue (queue f) ps, deferred_long := deferred_long f \<inter> ids_of ps\<rparr>"
  have "f' = plan_contended f1 e cap n ps"
    using assms(1-3) unfolding plan_def Let_def n_def ps_def f1_def by (auto split: if_splits)
  then show "queue f' = plan_queue (queue f) ps" "deferred_long f' = deferred_long f \<inter> ids_of ps"
    "block_size f' = block_size f" "decode_reserved f' = plan_reserved e n"
    "eligible_long f' = plan_eligible (block_size f) e cap n m (queue f')"
    "gs = fst (plan_grants (block_size f) e cap n ps (plan_order (queue f') (deferred_long f') (eligible_long f')
            (plan_tails (block_size f) e cap n m (queue f'))))"
    using assms(3) unfolding plan_contended_def Let_def m_def f1_def by simp_all
qed

lemma plan_prefills_distinct:
  "distinct (map request_id (running e @ skipped_waiting e @ waiting e)) \<Longrightarrow>
   distinct (map request_id (plan_prefills e pre))"
proof -
  let ?ready = "filter (\<lambda>r. status r \<in> {WAITING, PREEMPTED}) (skipped_waiting e @ waiting e)"
  assume d: "distinct (map request_id (running e @ skipped_waiting e @ waiting e))"
  then have "distinct (map request_id (filter pre (running e)))" "distinct (map request_id ?ready)"
    using distinct_map_filter [of request_id "skipped_waiting e @ waiting e"] by (auto simp: distinct_map_filter)
  moreover have "distinct (map request_id (take k ?ready))" for k
    using \<open>distinct (map request_id ?ready)\<close> by (metis distinct_take take_map)
  moreover have "set (map request_id (filter pre (running e))) \<inter> set (map request_id (take k ?ready)) = {}" for k
    using d by (auto dest!: in_set_takeD)
  ultimately show ?thesis unfolding plan_prefills_def Let_def map_append distinct_append by blast
qed

lemma contended_order:
  assumes "plan f e cap pre = Inr f'" "cap \<noteq> 0" "grants f' = Some gs" "distinct (queue f)"
    "distinct (map request_id (running e @ skipped_waiting e @ waiting e))"
  defines "n \<equiv> int (length (filter (\<lambda>r. \<not> pre r) (running e)))" and "ps \<equiv> plan_prefills e pre"
  defines "order \<equiv> plan_order (queue f') (deferred_long f') (eligible_long f')
            (plan_tails (block_size f) e cap n (by_id ps) (queue f'))"
  shows "distinct order" "set order = ids_of ps" "distinct (queue f')" "set (queue f') = ids_of ps"
    "\<exists>b inp. plan_grants (block_size f) e cap n ps order = (gs, b, inp)"
proof -
  note P = plan_Inr [OF assms(1-3), folded n_def ps_def]
  note qp = plan_queue_props [OF assms(4) plan_prefills_distinct [OF assms(5)], of pre, folded ps_def]
  show q: "distinct (queue f')" "set (queue f') = ids_of ps" using qp P(1) by simp_all
  let ?tails = "plan_tails (block_size f) e cap n (by_id ps) (queue f')"
  have "eligible_long f' \<inter> set ?tails = {}" "set ?tails \<subseteq> set (queue f')" "distinct ?tails"
    using q(1) unfolding P(5) plan_eligible_def plan_tails_def by auto
  note op = plan_order_props [OF q(1) this, of "deferred_long f'"]
  show "distinct order" "set order = ids_of ps" using op q(2) by (simp_all add: order_def)
  show "\<exists>b inp. plan_grants (block_size f) e cap n ps order = (gs, b, inp)"
    using P(6) unfolding order_def by (metis prod.collapse)
qed

lemma plan_grants_ok:
  assumes "plan f e cap pre = Inr f'" "grants f' = Some gs" "0 < block_size f" "0 < cap" "distinct (queue f)"
    "distinct (map request_id (running e @ skipped_waiting e @ waiting e))"
  shows "dom gs = ids_of (plan_prefills e pre)
    \<and> (\<forall>i. 0 \<le> grant_val gs i)
    \<and> (\<Sum>i \<in> dom gs. grant_val gs i) \<le> cap
    \<and> decode_reserved f' + (\<Sum>i \<in> dom gs. grant_val gs i) \<le> max (max_num_scheduled_tokens e) (decode_reserved f')
    \<and> (\<forall>i. 0 < grant_val gs i \<longrightarrow> grant_ok (block_size f) (by_id (plan_prefills e pre)) i (grant_val gs i))"
proof -
  define n where "n = int (length (filter (\<lambda>r. \<not> pre r) (running e)))"
  have c: "cap \<noteq> 0" using assms(4) by simp
  note P = plan_Inr [OF assms(1) c assms(2), folded n_def]
  note O = contended_order [OF assms(1) c assms(2,5,6), folded n_def]
  define order where "order = plan_order (queue f') (deferred_long f') (eligible_long f')
            (plan_tails (block_size f) e cap n (by_id (plan_prefills e pre)) (queue f'))"
  note O = O [folded order_def]
  obtain b inp where g: "plan_grants (block_size f) e cap n (plan_prefills e pre) order = (gs, b, inp)" using O(5) by blast
  note L = grant_loop [OF assms(3) O(1) _ g [unfolded plan_grants_def]]
  have L: "(\<Sum>i \<in> set order. grant_val gs i) = plan_budget e cap n - b" "b \<le> plan_budget e cap n"
    "0 \<le> plan_budget e cap n \<longrightarrow> 0 \<le> b" "plan_budget e cap n < 0 \<longrightarrow> b = plan_budget e cap n"
    "\<forall>i \<in> set order. \<exists>a \<ge> 0. gs i = Some a \<and> (0 < a \<longrightarrow> grant_ok (block_size f) (by_id (plan_prefills e pre)) i a)"
    "\<forall>i. i \<notin> set order \<longrightarrow> gs i = None"
    using L O(2) by simp_all
  have d: "dom gs = set order" using L(5,6) by fastforce
  have "0 \<le> grant_val gs i \<and> (0 < grant_val gs i \<longrightarrow> grant_ok (block_size f) (by_id (plan_prefills e pre)) i (grant_val gs i))" for i
    using L(5,6) by (cases "i \<in> set order") (fastforce simp: grant_val_def)+
  moreover have "(\<Sum>i \<in> dom gs. grant_val gs i) \<le> max 0 (plan_budget e cap n)" using L(1-4) d by auto
  ultimately show ?thesis using d O(2) P(4) assms(4) by (auto simp: plan_budget_def)
qed


section \<open>Bypassed long requests\<close>

definition place :: "rid \<Rightarrow> rid list \<Rightarrow> nat" where
  "place r qu = length (takeWhile (\<lambda>i. i \<noteq> r) qu)"

text \<open>One contended turn in which the eligible long request \<open>r\<close> gets no offer and no tokens.\<close>

inductive bypassed :: "rid \<Rightarrow> fair \<Rightarrow> fair \<Rightarrow> bool" for r where
  turn: "plan f e cap pre = Inr f1 \<Longrightarrow> 0 < cap \<Longrightarrow> grants f1 = Some gs \<Longrightarrow>
    distinct (map request_id (running e @ skipped_waiting e @ waiting e)) \<Longrightarrow>
    r \<in> eligible_long f1 \<Longrightarrow> r \<notin> set (offered f1 counts) \<Longrightarrow>
    bypassed r f (fair_observe f1 counts)"

lemma place_split: "r \<in> set qu \<Longrightarrow> \<exists>zs. qu = takeWhile (\<lambda>i. i \<noteq> r) qu @ r # zs"
proof -
  assume "r \<in> set qu"
  then obtain ys zs where y: "qu = ys @ r # zs" "r \<notin> set ys" by (auto dest: split_list_first)
  then have "takeWhile (\<lambda>i. i \<noteq> r) qu = ys" by (subst y(1), subst takeWhile_append2) auto
  with y(1) show ?thesis by auto
qed

lemma place_append: "r \<notin> set xs \<Longrightarrow> place r (xs @ r # zs) = length xs"
  unfolding place_def by (subst takeWhile_append2) auto

lemma place_filter:
  assumes "r \<in> set qu" "P r"
  shows "place r (filter P qu @ ys) = length (filter P (takeWhile (\<lambda>i. i \<noteq> r) qu))"
proof -
  obtain zs where zs: "qu = takeWhile (\<lambda>i. i \<noteq> r) qu @ r # zs" using place_split [OF assms(1)] by blast
  have "filter P qu @ ys = filter P (takeWhile (\<lambda>i. i \<noteq> r) qu) @ r # (filter P zs @ ys)"
    by (subst zs) (simp add: assms(2))
  moreover have "r \<notin> set (filter P (takeWhile (\<lambda>i. i \<noteq> r) qu))" by (auto dest: set_takeWhileD)
  ultimately show ?thesis using place_append by simp
qed

lemma place_filter_le: "r \<in> set qu \<Longrightarrow> P r \<Longrightarrow> place r (filter P qu @ ys) \<le> place r qu"
  by (simp add: place_filter) (simp add: place_def)

lemma place_filter_less:
  assumes "r \<in> set qu" "P r" "h \<in> set (takeWhile (\<lambda>i. i \<noteq> r) qu)" "\<not> P h"
  shows "place r (filter P qu @ ys) < place r qu"
  using assms length_filter_less [of h "takeWhile (\<lambda>i. i \<noteq> r) qu" P]
  by (simp add: place_filter) (simp add: place_def)

lemma filter_first:
  assumes "r \<in> set qu" "P r" "filter P qu = h # hs" "h \<noteq> r"
  shows "h \<in> set (takeWhile (\<lambda>i. i \<noteq> r) qu)"
proof -
  obtain zs where zs: "qu = takeWhile (\<lambda>i. i \<noteq> r) qu @ r # zs" using place_split [OF assms(1)] by blast
  then have f: "filter P qu = filter P (takeWhile (\<lambda>i. i \<noteq> r) qu) @ r # filter P zs"
    using assms(2) by (metis filter.simps(2) filter_append)
  then show ?thesis
  proof (cases "filter P (takeWhile (\<lambda>i. i \<noteq> r) qu)")
    case Nil
    with f assms(3,4) show ?thesis by simp
  next
    case (Cons a as)
    with f assms(3) have "h \<in> set (filter P (takeWhile (\<lambda>i. i \<noteq> r) qu))" by simp
    then show ?thesis by simp
  qed
qed

lemma grant_loop_keeps: "h \<notin> set order \<Longrightarrow> fst (foldl (grant_one bs slots m) acc order) h = fst acc h"
proof (induction order arbitrary: acc)
  case (Cons i order)
  then have "fst (grant_one bs slots m acc i) h = fst acc h"
    by (cases acc) (auto simp: grant_one_def Let_def)
  with Cons show ?case by simp
qed simp

lemma first_offer_granted:
  assumes "distinct (h # order)" "plan_possible bs e cap n (by_id ps) h"
  shows "0 < grant_val (fst (plan_grants bs e cap n ps (h # order))) h"
proof -
  obtain r where r: "by_id ps h = Some r" and
    pos: "0 < allowance_for bs (draft_slots e) r (plan_budget e cap n) (plan_inputs e n)"
    using assms(2) by (auto simp: plan_possible_def lookup_request_def split: option.splits)
  have "h \<notin> set order" using assms(1) by simp
  then show ?thesis
    using pos r by (simp add: plan_grants_def grant_loop_keeps grant_one_def lookup_request_def grant_val_def Let_def)
qed

lemma bypassed_step:
  assumes "bypassed r f f2" "distinct (queue f)"
  shows "r \<in> deferred_long f2" "r \<in> set (queue f2)" "distinct (queue f2)"
    "r \<in> deferred_long f \<Longrightarrow> r \<in> set (queue f) \<Longrightarrow> place r (queue f2) < place r (queue f)"
proof -
  from assms(1) obtain e cap pre f1 gs counts where
    p: "plan f e cap pre = Inr f1" "0 < cap" "grants f1 = Some gs"
    and de: "distinct (map request_id (running e @ skipped_waiting e @ waiting e))"
    and el: "r \<in> eligible_long f1" and no: "r \<notin> set (offered f1 counts)" and f2: "f2 = fair_observe f1 counts"
    by cases blast
  have c: "cap \<noteq> 0" using p(2) by simp
  define n where "n = int (length (filter (\<lambda>r. \<not> pre r) (running e)))"
  define ps where "ps = plan_prefills e pre"
  note P = plan_Inr [OF p(1) c p(3), folded n_def ps_def]
  define order where "order = plan_order (queue f1) (deferred_long f1) (eligible_long f1)
            (plan_tails (block_size f) e cap n (by_id ps) (queue f1))"
  note O = contended_order [OF p(1) c p(3) assms(2) de, folded n_def ps_def, folded order_def]
  have q: "r \<in> set (queue f1)" using el P(5) by (auto simp: plan_eligible_def)
  show "r \<in> deferred_long f2" using el no by (simp add: f2 fair_observe_def Let_def)
  show "r \<in> set (queue f2)" using q no by (simp add: f2 fair_observe_def Let_def)
  show "distinct (queue f2)" using O(3) by (auto simp: f2 fair_observe_def Let_def offered_def)
  assume d: "r \<in> deferred_long f" and rq: "r \<in> set (queue f)"
  have ids: "r \<in> ids_of ps" using q O(4) by simp
  then have d1: "r \<in> deferred_long f1" using d P(2) by simp
  let ?prot = "filter (\<lambda>i. i \<in> deferred_long f1 \<and> i \<in> eligible_long f1) (queue f1)"
  have "r \<in> set ?prot" using q d1 el by simp
  then obtain h hs where h: "?prot = h # hs" by (cases ?prot) auto
  then obtain rest where ord: "order = h # rest" by (simp add: order_def plan_order_def Let_def)
  have "h \<in> set ?prot" using h by simp
  then have hel: "h \<in> eligible_long f1" and hq: "h \<in> set (queue f1)" by simp_all
  then have "plan_possible (block_size f) e cap n (by_id ps) h" using P(5) by (auto simp: plan_eligible_def)
  then have "0 < grant_val gs h"
    using first_offer_granted [of h rest] O(1) P(6) unfolding order_def [symmetric] ord by simp
  then have hoff: "h \<in> set (offered f1 counts)"
    using hq p(3) by (simp add: offered_def grant_of_def grant_val_def)
  then have "h \<noteq> r" using no by blast
  have hb: "h \<in> set (takeWhile (\<lambda>i. i \<noteq> r) (queue f1))"
    by (rule filter_first [OF q _ h \<open>h \<noteq> r\<close>]) (use d1 el in blast)
  have "place r (queue f2) < place r (queue f1)"
  proof -
    have "queue f2 = filter (\<lambda>i. i \<notin> set (offered f1 counts)) (queue f1) @ offered f1 counts"
      by (simp add: f2 fair_observe_def Let_def)
    then show ?thesis
      by (simp only:) (rule place_filter_less [OF q _ hb], use no hoff in auto)
  qed
  also have "place r (queue f1) \<le> place r (queue f)"
    unfolding P(1) plan_queue_def Let_def by (rule place_filter_le [where P = "\<lambda>i. i \<in> ids_of ps", OF rq ids])
  finally show "place r (queue f2) < place r (queue f)" .
qed

text \<open>
  C21. A deferred long request can be bypassed at most as many times as there are requests
  before it in the queue: each bypass moves it strictly forward.
\<close>

theorem deferred_request_bypass_bound:
  assumes "(bypassed r ^^ n) f f'" "r \<in> deferred_long f" "r \<in> set (queue f)" "distinct (queue f)"
  shows "n + place r (queue f') \<le> place r (queue f)"
proof -
  have "n + place r (queue f') \<le> place r (queue f) \<and> r \<in> deferred_long f' \<and> r \<in> set (queue f') \<and> distinct (queue f')"
    using assms(1)
  proof (induction n arbitrary: f')
    case 0
    with assms(2-4) show ?case by simp
  next
    case (Suc n)
    then obtain t where t: "(bypassed r ^^ n) f t" "bypassed r t f'" by auto
    note IH = Suc.IH [OF t(1)]
    with bypassed_step [OF t(2)] show ?case by auto
  qed
  then show ?thesis by simp
qed

theorem fair_limit_bounds:
  "fair_limit f r n \<le> n \<and> (grants f \<noteq> None \<longrightarrow> fair_limit f r n \<le> max 0 (grant_of f (request_id r)))
    \<and> fair_limit (defer_for_decode f k) r n \<le> 0
    \<and> queue (defer_for_decode f k) = queue f \<and> deferred_long (defer_for_decode f k) = deferred_long f"
  by (auto simp: fair_limit_def grant_of_def defer_for_decode_def split: option.splits)

theorem solo_prefill_unlimited:
  assumes "validate_cap f cap = Inr ()" "list_all pre (running e)" "length (plan_prefills e pre) \<le> 1"
  shows "\<exists>f'. plan f e cap pre = Inr f' \<and> grants f' = None \<and> decode_reserved f' = 0 \<and> fair_limit f' r n = n"
proof -
  have "filter (\<lambda>r. \<not> pre r) (running e) = []" using assms(2) by (simp add: filter_empty_conv list_all_iff)
  with assms(1,3) show ?thesis by (auto simp: plan_def fair_limit_def Let_def)
qed

section \<open>Concrete plans\<close>

definition demo_fair :: fair where
  "demo_fair = \<lparr>block_size = 2304, queue = [1, 2], deferred_long = {1, 2}, eligible_long = {},
     grants = None, decode_reserved = 0, fair_reason = Off\<rparr>"

definition plan_check :: "fair py \<Rightarrow> rid \<Rightarrow> bool" where
  "plan_check res r = (case res of Inl _ \<Rightarrow> False
     | Inr f \<Rightarrow> (case grants f of None \<Rightarrow> False | Some _ \<Rightarrow> True) \<and> r \<in> eligible_long f
                \<and> r \<notin> set (offered f Map.empty))"

lemma demo_plan_check: "plan_check (plan demo_fair demo_pair 2304 is_prefilling) 2"
  by code_simp

lemma demo_plan:
  obtains f1 gs where "plan demo_fair demo_pair 2304 is_prefilling = Inr f1" "grants f1 = Some gs"
    "2 \<in> eligible_long f1" "2 \<notin> set (offered f1 Map.empty)"
  using demo_plan_check by (auto simp: plan_check_def split: sum.splits option.splits)

lemma demo_pair_distinct:
  "distinct (map request_id (running demo_pair @ skipped_waiting demo_pair @ waiting demo_pair))"
  by (simp add: demo_pair_def demo_engine_def demo_request_def)


theorem deferred_request_bypass_bound_witness:
  "\<exists>f'. bypassed 2 demo_fair f' \<and> 1 + place 2 (queue f') \<le> 1"
proof (rule demo_plan)
  fix f1 gs assume p: "plan demo_fair demo_pair 2304 is_prefilling = Inr f1" "grants f1 = Some gs"
    "2 \<in> eligible_long f1" "2 \<notin> set (offered f1 Map.empty)"
  have b: "bypassed 2 demo_fair (fair_observe f1 Map.empty)"
    by (rule bypassed.turn [OF p(1) _ p(2) demo_pair_distinct p(3,4)]) simp
  then have "(bypassed 2 ^^ 1) demo_fair (fair_observe f1 Map.empty)" by (simp only: relpowp_1)
  from deferred_request_bypass_bound [OF this] b show ?thesis
    by (auto simp: demo_fair_def place_def)
qed

theorem solo_prefill_unlimited_witness:
  "\<exists>f'. plan demo_fair (demo_engine [demo_request 1 40000 4608]) 2304 is_prefilling = Inr f'
     \<and> fair_limit f' (demo_request 1 40000 4608) 14336 = 14336"
  using solo_prefill_unlimited [of demo_fair 2304 is_prefilling "demo_engine [demo_request 1 40000 4608]"
      "demo_request 1 40000 4608" 14336]
  by (auto simp: demo_fair_def validate_cap_def demo_engine_def demo_request_def is_prefilling_def
      prefill_end_of_def plan_prefills_def)

end
