(* ===== verification/Split_Cadence.thy ===== *)
theory Split_Cadence
  imports Engine_Model
begin

text \<open>
  The prefill/decode cadence (\<open>src/src/tp4/glm53_speedup/cadence.py\<close>): after one known nonfinal
  prefill-only offer the decoders are owed a decode-only turn; newly started decoders may convert a
  prefill-only turn (first-token repay) or a bounded run of them (first-content burst).
\<close>

section \<open>Selectors\<close>

definition THINK_START :: int where "THINK_START = 154841"
definition THINK_END :: int where "THINK_END = 154842"
definition max_burst :: nat where "max_burst = 16"

definition cadence_selectors :: "string option \<Rightarrow> string option \<Rightarrow> (bool \<times> nat) py" where
  "cadence_selectors repay_env burst_env =
     (let repay = env_or repay_env ''0''; burst = env_or burst_env ''0'' in
      py_guard (repay \<notin> {''0'', ''1''}) ValueError
        (py_guard (\<not> (length burst \<in> {1, 2} \<and> list_all py_digit burst) \<or> max_burst < py_nat burst) ValueError
          (py_guard (py_nat burst \<noteq> 0 \<and> repay = ''1'') ValueError
            (Inr (repay = ''1'', py_nat burst)))))"

definition thinking :: "request \<Rightarrow> bool" where
  "thinking r \<longleftrightarrow> prompt_token_ids r \<noteq> [] \<and> last (prompt_token_ids r) = THINK_START"

fun content_after :: "int list \<Rightarrow> bool" where
  "content_after [] = False"
| "content_after (t # ts) = (if t = THINK_END then ts \<noteq> [] else content_after ts)"

definition has_content :: "request \<Rightarrow> bool" where
  "has_content r = content_after (output_token_ids r)"

section \<open>State\<close>

datatype phase = Mixed_Fallback | Decode | Prefill

datatype cad_reason = Initial | No_Eligible_Pair | Repay_Prefill_Offer | First_Token_Repay
  | First_Content_Burst | One_Known_Nonfinal

record cadence =
  owed_decode :: "rid set"
  allowed :: "rid set option"
  phase :: phase
  cad_reason :: cad_reason
  decoder_ids :: "rid set"
  prefill_id :: "rid option"
  prefill_start :: "int option"
  prefill_end :: "int option"
  first_token_repay :: bool
  first_content_burst :: nat
  known_decoders :: "rid set"
  first_debt :: "rid set"
  burst_owed :: "rid \<rightharpoonup> nat"
  burst_run :: nat

definition cadence_init :: "bool \<times> nat \<Rightarrow> cadence" where
  "cadence_init sel =
     \<lparr>owed_decode = {}, allowed = None, phase = Mixed_Fallback, cad_reason = Initial, decoder_ids = {},
      prefill_id = None, prefill_start = None, prefill_end = None,
      first_token_repay = fst sel, first_content_burst = snd sel,
      known_decoders = {}, first_debt = {}, burst_owed = Map.empty, burst_run = 0\<rparr>"

definition owed_after :: "cadence \<Rightarrow> request list \<Rightarrow> rid set \<Rightarrow> (rid \<rightharpoonup> nat)" where
  "owed_after c rs new = (\<lambda>i.
     let content = (case by_id rs i of None \<Rightarrow> False | Some r \<Rightarrow> has_content r);
         think = (case by_id rs i of None \<Rightarrow> False | Some r \<Rightarrow> thinking r)
     in if i \<in> new \<and> think \<and> \<not> content then Some 0
        else case burst_owed c i of None \<Rightarrow> None
        | Some n \<Rightarrow> if i \<notin> decoder_ids c \<or> first_content_burst c \<le> n \<or> content then None else Some n)"

definition track_new_decoders :: "cadence \<Rightarrow> request list \<Rightarrow> (request \<Rightarrow> bool) \<Rightarrow> cadence" where
  "track_new_decoders c rs pre =
     (let new = decoder_ids c - known_decoders c;
          c1 = c\<lparr>known_decoders := decoder_ids c\<rparr>;
          c2 = (if first_token_repay c
                then c1\<lparr>first_debt := (first_debt c \<inter> decoder_ids c) \<union> new\<rparr> else c1)
      in if first_content_burst c \<noteq> 0
         then c2\<lparr>burst_owed := owed_after c rs new,
                 burst_run := (if list_ex pre rs then burst_run c else 0)\<rparr>
         else c2)"

definition nonfinal_prefill :: "request list \<Rightarrow> int \<Rightarrow> request \<Rightarrow> bool" where
  "nonfinal_prefill rs cap r \<longleftrightarrow>
     status r = RUNNING \<and> num_tokens r = num_prompt_tokens r \<and> 0 < num_computed_tokens r
     \<and> num_computed_tokens r + cap < num_prompt_tokens r
     \<and> list_all (\<lambda>x. \<not> has_encoder_inputs x \<and> num_output_placeholders x = 0 \<and> num_stale_output_tokens x = 0) rs"

definition decode_turn :: "cadence \<Rightarrow> cad_reason \<Rightarrow> cadence" where
  "decode_turn c why = c\<lparr>phase := Decode, cad_reason := why, allowed := Some (decoder_ids c)\<rparr>"

definition begin_turn :: "cadence \<Rightarrow> engine \<Rightarrow> int \<Rightarrow> (request \<Rightarrow> bool) \<Rightarrow> cadence" where
  "begin_turn c0 e cap pre =
     (let decoders = ids_of (filter (\<lambda>r. \<not> pre r) (running e));
          c1 = c0\<lparr>allowed := None, phase := Mixed_Fallback, cad_reason := No_Eligible_Pair,
                  prefill_id := None, prefill_start := None, prefill_end := None,
                  decoder_ids := decoders, owed_decode := owed_decode c0 \<inter> decoders\<rparr>;
          c = (if first_token_repay c1 \<or> first_content_burst c1 \<noteq> 0
               then track_new_decoders c1 (running e) pre else c1)
      in if owed_decode c \<noteq> {} then decode_turn c Repay_Prefill_Offer
         else if decoders = {} \<or> waiting e \<noteq> [] \<or> skipped_waiting e \<noteq> [] then c
         else case filter pre (running e) of
           [r] \<Rightarrow>
             if \<not> nonfinal_prefill (running e) cap r then c
             else if first_debt c \<noteq> {} then decode_turn c First_Token_Repay
             else if dom (burst_owed c) \<noteq> {} \<and> burst_run c < first_content_burst c
                  then decode_turn c First_Content_Burst
             else c\<lparr>prefill_id := Some (request_id r), prefill_start := Some (num_computed_tokens r),
                    prefill_end := Some (num_prompt_tokens r), phase := Prefill,
                    cad_reason := One_Known_Nonfinal, allowed := Some {request_id r}\<rparr>
         | _ \<Rightarrow> c)"

definition cad_limit :: "cadence \<Rightarrow> request \<Rightarrow> int \<Rightarrow> int" where
  "cad_limit c r n = (case allowed c of None \<Rightarrow> n | Some s \<Rightarrow> if request_id r \<in> s then n else 0)"

definition cad_deferred :: "cadence \<Rightarrow> request \<Rightarrow> bool" where
  "cad_deferred c r = (case allowed c of None \<Rightarrow> False | Some s \<Rightarrow> request_id r \<notin> s)"

definition positive :: "(rid \<rightharpoonup> int) \<Rightarrow> rid set" where
  "positive counts = {i. \<exists>n. counts i = Some n \<and> 0 < n}"

definition observe_turn :: "cadence \<Rightarrow> (rid \<rightharpoonup> int) \<Rightarrow> cadence" where
  "observe_turn c counts =
     (let c1 = (case phase c of
                  Prefill \<Rightarrow> c\<lparr>owed_decode := decoder_ids c\<rparr>
                | Decode \<Rightarrow> c\<lparr>owed_decode := owed_decode c - positive counts\<rparr>
                | Mixed_Fallback \<Rightarrow> c);
          c2 = (if first_token_repay c1
                then (if cad_reason c1 = First_Token_Repay then c1\<lparr>first_debt := {}\<rparr>
                      else if phase c1 \<noteq> Prefill
                      then c1\<lparr>first_debt := first_debt c1 - (positive counts \<inter> decoder_ids c1)\<rparr>
                      else c1)
                else c1)
      in if first_content_burst c2 \<noteq> 0
         then (if cad_reason c2 = First_Content_Burst
               then c2\<lparr>burst_run := Suc (burst_run c2),
                       burst_owed := (\<lambda>i. map_option Suc (burst_owed c2 i))\<rparr>
               else if phase c2 = Prefill then c2\<lparr>burst_run := 0\<rparr> else c2)
         else c2)"

section \<open>What a turn may be\<close>

lemma track_keeps [simp]:
  "owed_decode (track_new_decoders c rs pre) = owed_decode c"
  "decoder_ids (track_new_decoders c rs pre) = decoder_ids c"
  "phase (track_new_decoders c rs pre) = phase c"
  "cad_reason (track_new_decoders c rs pre) = cad_reason c"
  "allowed (track_new_decoders c rs pre) = allowed c"
  "first_token_repay (track_new_decoders c rs pre) = first_token_repay c"
  "first_content_burst (track_new_decoders c rs pre) = first_content_burst c"
  by (simp_all add: track_new_decoders_def Let_def)

text \<open>The state in which the choice of the turn is made.\<close>

definition tracked :: "cadence \<Rightarrow> engine \<Rightarrow> (request \<Rightarrow> bool) \<Rightarrow> cadence" where
  "tracked c0 e pre =
     (let decoders = ids_of (filter (\<lambda>r. \<not> pre r) (running e));
          c1 = c0\<lparr>allowed := None, phase := Mixed_Fallback, cad_reason := No_Eligible_Pair,
                  prefill_id := None, prefill_start := None, prefill_end := None,
                  decoder_ids := decoders, owed_decode := owed_decode c0 \<inter> decoders\<rparr>
      in if first_token_repay c1 \<or> first_content_burst c1 \<noteq> 0
         then track_new_decoders c1 (running e) pre else c1)"

lemma tracked_keeps [simp]:
  "decoder_ids (tracked c e pre) = ids_of (filter (\<lambda>r. \<not> pre r) (running e))"
  "owed_decode (tracked c e pre) = owed_decode c \<inter> ids_of (filter (\<lambda>r. \<not> pre r) (running e))"
  "phase (tracked c e pre) = Mixed_Fallback" "allowed (tracked c e pre) = None"
  "cad_reason (tracked c e pre) = No_Eligible_Pair"
  "first_token_repay (tracked c e pre) = first_token_repay c"
  "first_content_burst (tracked c e pre) = first_content_burst c"
  by (simp_all add: tracked_def Let_def)

lemma begin_turn_cases:
  obtains (repay) "owed_decode (tracked c e pre) \<noteq> {}" "begin_turn c e cap pre = decode_turn (tracked c e pre) Repay_Prefill_Offer"
  | (mixed) "owed_decode (tracked c e pre) = {}" "begin_turn c e cap pre = tracked c e pre"
  | (debt) r where "owed_decode (tracked c e pre) = {}" "filter pre (running e) = [r]"
      "decoder_ids (tracked c e pre) \<noteq> {}" "first_debt (tracked c e pre) \<noteq> {}"
      "begin_turn c e cap pre = decode_turn (tracked c e pre) First_Token_Repay"
  | (burst) r where "owed_decode (tracked c e pre) = {}" "filter pre (running e) = [r]"
      "decoder_ids (tracked c e pre) \<noteq> {}" "first_debt (tracked c e pre) = {}"
      "burst_run (tracked c e pre) < first_content_burst c"
      "begin_turn c e cap pre = decode_turn (tracked c e pre) First_Content_Burst"
  | (prefill) r where "owed_decode (tracked c e pre) = {}" "filter pre (running e) = [r]"
      "nonfinal_prefill (running e) cap r" "decoder_ids (tracked c e pre) \<noteq> {}" "waiting e = []" "skipped_waiting e = []"
      "first_debt (tracked c e pre) = {}"
      "dom (burst_owed (tracked c e pre)) = {} \<or> first_content_burst c \<le> burst_run (tracked c e pre)"
      "begin_turn c e cap pre = (tracked c e pre)\<lparr>prefill_id := Some (request_id r),
          prefill_start := Some (num_computed_tokens r), prefill_end := Some (num_prompt_tokens r),
          phase := Prefill, cad_reason := One_Known_Nonfinal, allowed := Some {request_id r}\<rparr>"
proof -
  define d where "d = tracked c e pre"
  have dk: "first_content_burst d = first_content_burst c" by (simp add: d_def)
  have b: "begin_turn c e cap pre =
     (if owed_decode d \<noteq> {} then decode_turn d Repay_Prefill_Offer
         else if decoder_ids d = {} \<or> waiting e \<noteq> [] \<or> skipped_waiting e \<noteq> [] then d
         else case filter pre (running e) of
           [r] \<Rightarrow>
             if \<not> nonfinal_prefill (running e) cap r then d
             else if first_debt d \<noteq> {} then decode_turn d First_Token_Repay
             else if dom (burst_owed d) \<noteq> {} \<and> burst_run d < first_content_burst d
                  then decode_turn d First_Content_Burst
             else d\<lparr>prefill_id := Some (request_id r), prefill_start := Some (num_computed_tokens r),
                    prefill_end := Some (num_prompt_tokens r), phase := Prefill,
                    cad_reason := One_Known_Nonfinal, allowed := Some {request_id r}\<rparr>
         | _ \<Rightarrow> d)"
    unfolding d_def tracked_keeps(1) unfolding begin_turn_def tracked_def Let_def by (rule refl)
  show ?thesis
  proof (cases "owed_decode d = {}")
    case False
    then show ?thesis using repay b unfolding d_def by simp
  next
    case owed: True
    show ?thesis
    proof (cases "decoder_ids d = {} \<or> waiting e \<noteq> [] \<or> skipped_waiting e \<noteq> [] \<or> (\<nexists>r. filter pre (running e) = [r])")
      case True
      have "begin_turn c e cap pre = d"
      proof (cases "decoder_ids d = {} \<or> waiting e \<noteq> [] \<or> skipped_waiting e \<noteq> []")
        case True
        then show ?thesis unfolding b using owed by simp
      next
        case False
        with \<open>_ \<or> _\<close> have none: "\<nexists>r. filter pre (running e) = [r]" by blast
        have "(case xs of [r] \<Rightarrow> F r | _ \<Rightarrow> d) = d" if "\<nexists>r. xs = [r]" for xs :: "request list" and F
          using that by (cases xs rule: list.exhaust; cases "tl xs") auto
        from this [OF none] show ?thesis unfolding b using owed False by simp
      qed
      then show ?thesis using mixed owed unfolding d_def by blast
    next
      case False
      then obtain r where r: "filter pre (running e) = [r]" and f: "decoder_ids d \<noteq> {}" "waiting e = []" "skipped_waiting e = []"
        by blast
      show ?thesis
      proof (cases "nonfinal_prefill (running e) cap r")
        case nf: True
        show ?thesis
        proof (cases "first_debt d = {}")
          case fd: True
          show ?thesis
          proof (cases "dom (burst_owed d) \<noteq> {} \<and> burst_run d < first_content_burst d")
            case True
            then have "begin_turn c e cap pre = decode_turn d First_Content_Burst" using b owed f r nf fd by simp
            then show ?thesis using burst [of r] owed r f fd True dk unfolding d_def by simp
          next
            case False
            then have "begin_turn c e cap pre = d\<lparr>prefill_id := Some (request_id r),
              prefill_start := Some (num_computed_tokens r), prefill_end := Some (num_prompt_tokens r),
              phase := Prefill, cad_reason := One_Known_Nonfinal, allowed := Some {request_id r}\<rparr>"
              using b owed f r nf fd by (simp only: False if_False list.case) simp
            moreover have "dom (burst_owed d) = {} \<or> first_content_burst c \<le> burst_run d"
              using False unfolding dk by (metis not_le)
            ultimately show ?thesis using prefill [of r, folded d_def] owed r f nf fd by blast
          qed
        next
          case fd: False
          then have "begin_turn c e cap pre = decode_turn d First_Token_Repay" using b owed f r nf by simp
          then show ?thesis using debt [of r] owed r f fd unfolding d_def by simp
        qed
      next
        case False
        then have "begin_turn c e cap pre = d" using b owed f r by simp
        then show ?thesis using mixed owed unfolding d_def by blast
      qed
    qed
  qed
qed

text \<open>
  A prefill-only turn is opened only with exactly one running prefill, some decoder, no
  waiting request, and a chunk that cannot finish the prompt.
\<close>

theorem prefill_only_offer_is_nonfinal:
  assumes "phase (begin_turn c e cap pre) = Prefill"
  shows "\<exists>r. filter pre (running e) = [r] \<and> nonfinal_prefill (running e) cap r
    \<and> allowed (begin_turn c e cap pre) = Some {request_id r}
    \<and> decoder_ids (begin_turn c e cap pre) \<noteq> {} \<and> waiting e = [] \<and> skipped_waiting e = []
    \<and> num_computed_tokens r + cap < num_prompt_tokens r"
  by (rule begin_turn_cases [of c e pre cap]) (use assms in \<open>auto simp: decode_turn_def nonfinal_prefill_def\<close>)

text \<open>
  Whatever the prefill-only turn scheduled, the next turn in which one of its decoders
  still runs is a decode-only turn that allows exactly the decoders.
\<close>

theorem prefill_offer_is_repaid:
  assumes "phase (begin_turn c e cap pre) = Prefill"
    and "ids_of (filter (\<lambda>r. \<not> pre r) (running e')) \<inter> decoder_ids (begin_turn c e cap pre) \<noteq> {}"
  shows "phase (begin_turn (observe_turn (begin_turn c e cap pre) counts) e' cap' pre) = Decode
    \<and> allowed (begin_turn (observe_turn (begin_turn c e cap pre) counts) e' cap' pre)
        = Some (ids_of (filter (\<lambda>r. \<not> pre r) (running e')))"
proof -
  let ?o = "observe_turn (begin_turn c e cap pre) counts"
  have "owed_decode ?o = decoder_ids (begin_turn c e cap pre)"
    using assms(1) by (simp add: observe_turn_def Let_def)
  then have "owed_decode (tracked ?o e' pre) \<noteq> {}" using assms(2) by auto
  then show ?thesis
    by (rule_tac begin_turn_cases [of ?o e' pre cap']) (auto simp: decode_turn_def)
qed

theorem decode_turn_limits:
  assumes "phase (begin_turn c e cap pre) = Decode" "distinct (map request_id (running e))" "r \<in> set (running e)"
  shows "cad_limit (begin_turn c e cap pre) r n = (if pre r then 0 else n)
    \<and> (cad_deferred (begin_turn c e cap pre) r \<longleftrightarrow> pre r)"
proof -
  have "allowed (begin_turn c e cap pre) = Some (ids_of (filter (\<lambda>r. \<not> pre r) (running e)))"
    by (rule begin_turn_cases [of c e pre cap]) (use assms(1) in \<open>auto simp: decode_turn_def\<close>)
  moreover have "request_id r \<in> ids_of (filter (\<lambda>r. \<not> pre r) (running e)) \<longleftrightarrow> \<not> pre r"
    using assms(2,3) by (auto simp: ids_of_def distinct_map inj_on_def)
  ultimately show ?thesis by (simp add: cad_limit_def cad_deferred_def)
qed

section \<open>Bounded conversions\<close>

text \<open>One turn whose prefill-only offer was converted for a decoder without visible content.\<close>

inductive converted :: "cadence \<Rightarrow> cadence \<Rightarrow> bool" where
  convert: "cad_reason (begin_turn c e cap pre) = First_Content_Burst \<Longrightarrow>
    converted c (observe_turn (begin_turn c e cap pre) counts)"

lemma converted_step:
  assumes "converted c c'"
  shows "burst_run c' = Suc (burst_run c)" "first_content_burst c' = first_content_burst c"
    "burst_run c < first_content_burst c"
proof -
  from assms obtain e cap pre counts where
    why: "cad_reason (begin_turn c e cap pre) = First_Content_Burst"
    and c': "c' = observe_turn (begin_turn c e cap pre) counts" by cases blast
  obtain r where r: "filter pre (running e) = [r]" "burst_run (tracked c e pre) < first_content_burst c"
    "begin_turn c e cap pre = decode_turn (tracked c e pre) First_Content_Burst"
    by (rule begin_turn_cases [of c e pre cap]) (use why in \<open>auto simp: decode_turn_def\<close>)
  have "list_ex pre (running e)" using r(1) by (metis filter_eq_Cons_iff in_set_conv_decomp list_ex_iff)
  then have "burst_run (tracked c e pre) = burst_run c"
    by (simp add: tracked_def track_new_decoders_def Let_def)
  with r show "burst_run c' = Suc (burst_run c)" "first_content_burst c' = first_content_burst c"
    "burst_run c < first_content_burst c"
    by (auto simp: c' observe_turn_def decode_turn_def Let_def)
qed

text \<open>
  Between two prefill-only offers at most N converted turns run in a row for first-
  content bursts.
\<close>

theorem burst_conversions_bounded:
  assumes "(converted ^^ n) c c'" "burst_run c \<le> first_content_burst c"
  shows "n + burst_run c = burst_run c' \<and> n \<le> first_content_burst c - burst_run c"
proof -
  have "burst_run c' = n + burst_run c \<and> burst_run c' \<le> first_content_burst c \<and> first_content_burst c' = first_content_burst c"
    using assms(1)
  proof (induction n arbitrary: c')
    case 0
    with assms(2) show ?case by simp
  next
    case (Suc n)
    then obtain d where "(converted ^^ n) c d" "converted d c'" by auto
    with Suc.IH [of d] converted_step [of d c'] show ?case by simp
  qed
  then show ?thesis by arith
qed

text \<open>A first-token repay settles every debt: the next such turn needs a decoder that started since.\<close>

theorem first_token_repay_once_per_wave:
  assumes "cad_reason (begin_turn c e cap pre) = First_Token_Repay" "first_token_repay c"
    "cad_reason (begin_turn (observe_turn (begin_turn c e cap pre) counts) e' cap' pre) = First_Token_Repay"
  shows "\<not> ids_of (filter (\<lambda>r. \<not> pre r) (running e')) \<subseteq> ids_of (filter (\<lambda>r. \<not> pre r) (running e))"
proof -
  let ?b = "begin_turn c e cap pre"
  let ?o = "observe_turn ?b counts"
  have b: "?b = decode_turn (tracked c e pre) First_Token_Repay"
    by (rule begin_turn_cases [of c e pre cap]) (use assms(1) in \<open>auto simp: decode_turn_def\<close>)
  have "known_decoders (tracked c e pre) = ids_of (filter (\<lambda>r. \<not> pre r) (running e))"
    using assms(2) by (simp add: tracked_def track_new_decoders_def Let_def)
  then have k: "known_decoders ?o = ids_of (filter (\<lambda>r. \<not> pre r) (running e))" "first_debt ?o = {}" "first_token_repay ?o"
    using assms(2) by (simp_all add: observe_turn_def b decode_turn_def Let_def)
  have "first_debt (tracked ?o e' pre) \<noteq> {}"
    by (rule begin_turn_cases [of ?o e' pre cap']) (use assms(3) in \<open>auto simp: decode_turn_def\<close>)
  moreover have "first_debt (tracked ?o e' pre) = ids_of (filter (\<lambda>r. \<not> pre r) (running e')) - known_decoders ?o"
    using k(2,3) by (simp add: tracked_def track_new_decoders_def Let_def)
  ultimately show ?thesis using k(1) by blast
qed

theorem cadence_selectors_exclusive:
  assumes "cadence_selectors a b = Inr (repay, burst)"
  shows "burst \<le> max_burst \<and> \<not> (repay \<and> burst \<noteq> 0)"
  using assms by (auto simp: cadence_selectors_def Let_def)

section \<open>Concrete turns\<close>

definition demo_cadence :: "bool \<Rightarrow> nat \<Rightarrow> cadence" where
  "demo_cadence repay burst = cadence_init (repay, burst)"

lemma demo_prefill_turn:
  "begin_turn (demo_cadence False 0) demo_single 4608 is_prefilling =
    (tracked (demo_cadence False 0) demo_single is_prefilling)\<lparr>prefill_id := Some 1, prefill_start := Some 4608,
      prefill_end := Some 40000, phase := Prefill, cad_reason := One_Known_Nonfinal, allowed := Some {1}\<rparr>"
  by (simp add: begin_turn_def tracked_def demo_cadence_def cadence_init_def demo_single_def demo_engine_def
      demo_request_def is_prefilling_def prefill_end_of_def ids_of_def nonfinal_prefill_def Let_def)

theorem prefill_only_offer_is_nonfinal_witness:
  "\<exists>r. filter is_prefilling (running demo_single) = [r] \<and> num_computed_tokens r + 4608 < num_prompt_tokens r"
  using prefill_only_offer_is_nonfinal [of "demo_cadence False 0" demo_single 4608 is_prefilling]
  by (auto simp: demo_prefill_turn)

theorem prefill_offer_is_repaid_witness:
  "phase (begin_turn (observe_turn (begin_turn (demo_cadence False 0) demo_single 4608 is_prefilling) Map.empty)
     demo_single 4608 is_prefilling) = Decode"
proof -
  have "3 \<in> ids_of (filter (\<lambda>r. \<not> is_prefilling r) (running demo_single))"
    by (simp add: demo_single_def demo_engine_def demo_request_def is_prefilling_def prefill_end_of_def ids_of_def)
  then show ?thesis
    using prefill_offer_is_repaid [of "demo_cadence False 0" demo_single 4608 is_prefilling demo_single Map.empty 4608]
    by (auto simp: demo_prefill_turn)
qed

lemmas demo_turn_defs = begin_turn_def demo_cadence_def cadence_init_def demo_single_def demo_engine_def
  demo_request_def is_prefilling_def prefill_end_of_def ids_of_def nonfinal_prefill_def Let_def
  track_new_decoders_def decode_turn_def

lemma demo_burst_turn: "cad_reason (begin_turn (demo_cadence False 2) demo_single 4608 is_prefilling) = First_Content_Burst"
  by (auto simp: demo_turn_defs owed_after_def thinking_def has_content_def by_id_def THINK_START_def fun_eq_iff)

lemma demo_repay_turn: "cad_reason (begin_turn (demo_cadence True 0) demo_single 4608 is_prefilling) = First_Token_Repay"
  by (simp add: demo_turn_defs)

definition demo_joined :: engine where
  "demo_joined = demo_engine [demo_request 1 40000 4608, demo_request 3 100 100, demo_request 4 100 100]"

lemma demo_second_repay:
  "cad_reason (begin_turn (observe_turn (begin_turn (demo_cadence True 0) demo_single 4608 is_prefilling) Map.empty)
     demo_joined 4608 is_prefilling) = First_Token_Repay"
  by (simp add: demo_turn_defs demo_joined_def observe_turn_def positive_def)

theorem decode_turn_limits_witness:
  "cad_limit (begin_turn (demo_cadence True 0) demo_single 4608 is_prefilling) (demo_request 1 40000 4608) 14336 = 0"
proof -
  have "phase (begin_turn (demo_cadence True 0) demo_single 4608 is_prefilling) = Decode"
    by (simp add: demo_turn_defs)
  from decode_turn_limits [OF this, of "demo_request 1 40000 4608" 14336] show ?thesis
    by (simp add: demo_single_def demo_engine_def demo_request_def is_prefilling_def prefill_end_of_def)
qed

theorem burst_conversions_bounded_witness:
  "\<exists>c'. converted (demo_cadence False 2) c' \<and> burst_run c' = 1"
proof -
  have "(converted ^^ 1) (demo_cadence False 2)
     (observe_turn (begin_turn (demo_cadence False 2) demo_single 4608 is_prefilling) Map.empty)"
    using converted.convert [OF demo_burst_turn] by (simp only: relpowp_1)
  from burst_conversions_bounded [OF this] converted.convert [OF demo_burst_turn] show ?thesis
    by (auto simp: demo_cadence_def cadence_init_def)
qed

theorem first_token_repay_once_per_wave_witness:
  "\<not> ids_of (filter (\<lambda>r. \<not> is_prefilling r) (running demo_joined))
     \<subseteq> ids_of (filter (\<lambda>r. \<not> is_prefilling r) (running demo_single))"
  by (rule first_token_repay_once_per_wave [OF demo_repay_turn _ demo_second_repay])
    (simp add: demo_cadence_def cadence_init_def)

theorem cadence_selectors_exclusive_witness:
  "cadence_selectors None (Some '' 12'') = Inr (False, 12) \<and> 12 \<le> max_burst"
proof -
  have "cadence_selectors None (Some '' 12'') = Inr (False, 12)" by code_simp
  with cadence_selectors_exclusive [OF this] show ?thesis by simp
qed

end
