(* ===== verification/Speedup_Bridge.thy ===== *)
theory Speedup_Bridge
  imports Speedup_Policy Fair_Prefill Split_Cadence
begin

text \<open>
  The scheduler-side bridge (\<open>src/src/tp4/glm53_speedup/scheduler.py\<close>): how the engine's scheduler calls the
  fair planner, the cadence and the length policy within one step. \<open>order_running\<close> opens the step,
  \<open>prefill_limit\<close>, \<open>defer_waiting\<close> and \<open>alignment_limit\<close> are asked per request, \<open>select\<close> closes it and trims the
  drafts, \<open>refresh\<close> reads the runtime override. The environment is a function from names to values. What a call reads
  of the file system is an argument: each \<open>stat\<close> and each read is a value of its own, because a file can change
  between them. The log lines and the boundary trace are left out.
\<close>

section \<open>Bounded reads and JSON objects\<close>

type_synonym stamp = "int \<times> int \<times> int \<times> int \<times> int"

text \<open>One file descriptor's observations: regular file, stamp (its last part is the size), the bytes read (at most
  one more than the limit), the stamp after, and the path's stamp after.\<close>

definition stamp_size :: "stamp \<Rightarrow> int" where
  "stamp_size st = (case st of (_, _, _, _, sz) \<Rightarrow> sz)"

definition read_bounded :: "int \<Rightarrow> bool \<Rightarrow> stamp \<Rightarrow> string \<Rightarrow> stamp \<Rightarrow> stamp \<Rightarrow> (string \<times> stamp) py" where
  "read_bounded limit regular before content after at_path =
     (let raw = take (nat (limit + 1)) content in
      py_guard (\<not> regular \<or> limit < stamp_size before) ValueError
        (py_guard (limit < int (length raw) \<or> int (length raw) \<noteq> stamp_size before \<or> before \<noteq> after \<or> before \<noteq> at_path)
          ValueError (Inr (raw, before))))"

text \<open>\<open>object_pairs_hook=_unique_object\<close>: a decoded tree in which a field repeats is refused.\<close>

fun unique_object :: "json \<Rightarrow> bool" where
  "unique_object (JObj kvs) \<longleftrightarrow> distinct (map fst kvs) \<and> list_all (\<lambda>kv. unique_object (snd kv)) kvs"
| "unique_object (JList xs) \<longleftrightarrow> list_all unique_object xs"
| "unique_object _ \<longleftrightarrow> True"

definition load_unique :: "json \<Rightarrow> json py" where
  "load_unique v = py_guard (\<not> unique_object v) ValueError (Inr v)"

definition json_hex64 :: "json \<Rightarrow> bool" where
  "json_hex64 v = (case v of JStr s \<Rightarrow> hex64 s | _ \<Rightarrow> False)"

text \<open>\<open>load_cost_table\<close> after its bounded read: \<open>digest\<close> is the SHA256 of the bytes and \<open>raw\<close> their JSON tree.\<close>

definition load_cost_table :: "json \<Rightarrow> json \<Rightarrow> bool \<Rightarrow> (json \<times> json) py \<Rightarrow> cost_table py" where
  "load_cost_table identity expected require_k4 reading =
     py_guard (require_k4 \<and> (\<not> json_hex64 identity \<or> \<not> json_hex64 expected)) ValueError
       (py_bind reading (\<lambda>(digest, raw).
         py_guard (expected \<noteq> JNull \<and> digest \<noteq> expected) ValueError
           (py_bind (load_unique raw) (\<lambda>document.
             case document of
               JObj d \<Rightarrow>
                 (let table_identity = (if require_k4 then json_get d ''compatibility_identity'' JNull
                        else json_get d ''compatibility_identity'' (json_get d ''runtime_identity'' JNull))
                  in py_guard (\<not> json_truth identity \<or> table_identity \<noteq> identity) ValueError
                       (from_document document require_k4))
             | _ \<Rightarrow> Inl ValueError))))"

section \<open>State\<close>

record bridge =
  br_scope :: string
  br_override :: string
  cost_reload :: bool
  costs_path :: string
  br_max_k :: int
  br_max_requests :: int
  br_requests :: "int list"
  br_ks :: "int list"
  br_policy :: policy
  br_stamp :: "stamp option"
  last_poll :: rat
  br_decision :: "decision option"
  log_every :: int
  br_step :: nat
  acceptance :: "(rid \<times> int \<times> int) list"
  scheduled_counts :: "(rid \<times> int) list"
  prefill_requests :: "rid list"
  prefill_adaptive :: bool
  br_cadence :: "cadence option"
  split_adaptive :: bool
  runtime_prefill :: bool
  br_fair :: "fair option"
  split_fair :: bool
  prefill_cap :: int
  adaptive_chunk :: bool
  effective_cap :: int

definition make_settings :: "bridge \<Rightarrow> string \<Rightarrow> int \<Rightarrow> settings" where
  "make_settings b mode k = \<lparr>s_mode = mode, forced_k = k, s_scope = br_scope b, s_max_requests = br_max_requests b,
     s_max_k = br_max_k b, capture_requests = Some (br_requests b), capture_ks = Some (br_ks b)\<rparr>"

definition bridge_settings :: "bridge \<Rightarrow> string \<Rightarrow> int \<Rightarrow> settings py" where
  "bridge_settings b mode k = py_bind (settings_check (make_settings b mode k)) (\<lambda>_. Inr (make_settings b mode k))"

definition static_modes :: "string set" where
  "static_modes = {''off'', ''ema'', ''forced'', ''ema4'', ''saturation''}"

definition costs_in_play :: "bridge \<Rightarrow> bool" where
  "costs_in_play b \<longleftrightarrow> cost_reload b \<or> costs_path b \<noteq> []"

definition validate_prefill_adaptive :: "bridge \<Rightarrow> settings \<Rightarrow> int \<Rightarrow> unit py" where
  "validate_prefill_adaptive b S c =
     (let rest = (if \<not> (c \<noteq> 0 \<or> br_fair b \<noteq> None) \<or> s_mode S = ''off'' \<and> forced_k S = br_max_k b then Inr ()
            else py_guard (\<not> prefill_adaptive b \<or> s_mode S \<notin> {''ema'', ''forced'', ''ema4'', ''saturation''}
                 \<or> br_scope b \<noteq> ''all'' \<or> c \<noteq> 4608 \<or> runtime_prefill b \<or> costs_in_play b
                 \<or> s_mode S \<in> {''ema'', ''ema4'', ''saturation''} \<and> forced_k S \<noteq> br_max_k b) ValueError (Inr ()))
      in if split_fair b then
           py_guard (s_mode S \<notin> static_modes \<or> s_mode S \<noteq> ''forced'' \<and> forced_k S \<noteq> br_max_k b
                 \<or> br_scope b \<noteq> ''all'' \<or> c \<noteq> 4608 \<or> br_fair b = None \<or> split_adaptive b \<or> \<not> prefill_adaptive b
                 \<or> runtime_prefill b \<or> costs_in_play b) ValueError rest
         else if br_cadence b \<noteq> None \<and> split_adaptive b then
           py_guard (s_mode S \<notin> static_modes \<or> s_mode S \<noteq> ''forced'' \<and> forced_k S \<noteq> br_max_k b
                 \<or> br_scope b \<noteq> ''all'' \<or> c \<noteq> 4608 \<or> br_fair b \<noteq> None \<or> \<not> prefill_adaptive b
                 \<or> runtime_prefill b \<or> costs_in_play b) ValueError rest
         else if br_cadence b \<noteq> None then
           py_guard (s_mode S \<noteq> ''off'' \<or> forced_k S \<noteq> br_max_k b \<or> br_scope b \<noteq> ''off'' \<or> c \<noteq> 4608
                 \<or> br_fair b \<noteq> None \<or> prefill_adaptive b \<or> runtime_prefill b \<or> costs_in_play b) ValueError rest
         else rest)"

section \<open>The runtime override\<close>

text \<open>What one poll reads: the clock, the override's first stamp, its bounded read (JSON tree and stamp), its
  last stamp, and for a cost table the resolved path, stamps and reading before and after.\<close>

record poll =
  poll_now :: rat
  poll_stat :: "stamp py"
  poll_body :: "(json \<times> stamp) py"
  poll_stat_after :: "stamp py"
  cost_absolute :: bool
  cost_resolved :: string
  cost_stat :: "stamp py"
  cost_reading :: "(json \<times> json) py"
  cost_resolved_after :: string
  cost_stat_after :: "stamp py"

definition cost_fields :: "string set" where
  "cost_fields = {''costs_path'', ''cost_identity'', ''cost_sha256''}"

definition override_fields :: "bridge \<Rightarrow> string set" where
  "override_fields b = {''mode'', ''forced_k''} \<union> (if runtime_prefill b then {''mixed_prefill_tokens''} else {})
     \<union> (if cost_reload b then cost_fields else {})"

definition prefill_caps :: "int set" where
  "prefill_caps = {0, 2304, 4608, 6912, 9216}"

definition json_settings :: "bridge \<Rightarrow> json \<Rightarrow> json \<Rightarrow> settings py" where
  "json_settings b mode k =
     (case (mode, k) of (JStr m, JInt n) \<Rightarrow> bridge_settings b m n | _ \<Rightarrow> Inl ValueError)"

text \<open>The table an override selects.\<close>

definition override_costs :: "bridge \<Rightarrow> poll \<Rightarrow> (string \<times> json) list \<Rightarrow> settings \<Rightarrow> cost_table option py" where
  "override_costs b io d S =
     (if \<not> cost_reload b then Inr (p_costs (main (br_policy b)))
      else if s_mode S = ''cost'' then
        py_guard (set (map fst d) \<noteq> {''mode''} \<union> cost_fields) ValueError
          (let selected = json_get d ''costs_path'' JNull in
           py_guard (selected \<noteq> JStr (costs_path b) \<or> costs_path b = [] \<or> \<not> cost_absolute io
               \<or> cost_resolved io \<noteq> costs_path b) ValueError
             (py_bind (cost_stat io) (\<lambda>st.
               py_bind (load_cost_table (json_get d ''cost_identity'' JNull) (json_get d ''cost_sha256'' JNull) True (cost_reading io)) (\<lambda>t.
                 py_guard (cost_resolved_after io \<noteq> costs_path b) ValueError
                   (py_bind (cost_stat_after io) (\<lambda>st'. py_guard (st' \<noteq> st) ValueError (Inr (Some t))))))))
      else py_guard (set (map fst d) \<inter> cost_fields \<noteq> {}) ValueError (Inr None))"

text \<open>What an override object \<open>d\<close> read at stamp \<open>st\<close> does.\<close>

definition apply_override :: "bridge \<Rightarrow> poll \<Rightarrow> (string \<times> json) list \<Rightarrow> stamp \<Rightarrow> bridge py" where
  "apply_override b io d st =
     (let c = json_get d ''mixed_prefill_tokens'' (JInt 0) in
      py_guard (\<not> set (map fst d) \<subseteq> override_fields b) ValueError
        (py_guard (\<not> is_int_in (\<lambda>n. n \<in> prefill_caps) c) ValueError
          (py_bind (json_settings b (json_get d ''mode'' (JStr ''off'')) (json_get d ''forced_k'' (JInt (br_max_k b)))) (\<lambda>S.
            let eff = (if runtime_prefill b then int_of c else prefill_cap b) in
            py_bind (validate_prefill_adaptive b S eff) (\<lambda>_.
              py_bind (case br_fair b of None \<Rightarrow> Inr () | Some f \<Rightarrow> validate_cap f eff) (\<lambda>_.
                py_bind (override_costs b io d S) (\<lambda>ct.
                  py_bind (poll_stat_after io) (\<lambda>st1.
                    py_guard (st1 \<noteq> st) ValueError
                      (py_bind (policy_configure (br_policy b) S (if cost_reload b then Some ct else None)) (\<lambda>p.
                        Inr (b\<lparr>br_policy := p, br_stamp := Some st, prefill_cap := eff\<rparr>)))))))))))"

text \<open>The \<open>try\<close> block. \<open>Inr None\<close> is its early return.\<close>

definition try_refresh :: "bridge \<Rightarrow> poll \<Rightarrow> bridge option py" where
  "try_refresh b io =
     py_guard (br_override b = []) ValueError
       (py_bind (poll_stat io) (\<lambda>st0.
         if Some st0 = br_stamp b \<and> \<not> cost_reload b then Inr None
         else py_bind (poll_body io) (\<lambda>(raw, st).
           py_bind (load_unique raw) (\<lambda>data.
             case data of
               JObj d \<Rightarrow> py_bind (apply_override b io d st) (\<lambda>b'. Inr (Some b'))
             | _ \<Rightarrow> Inl ValueError))))"

text \<open>The \<open>except\<close> clause: every failure turns the experiment off.\<close>

definition fail_off :: "bridge \<Rightarrow> bridge py" where
  "fail_off b =
     py_bind (bridge_settings b ''off'' (br_max_k b)) (\<lambda>S.
       py_bind (policy_configure (br_policy b) S (if cost_reload b then Some None else None)) (\<lambda>p.
         Inr (b\<lparr>br_policy := p, br_stamp := None, prefill_cap := (if runtime_prefill b then 0 else prefill_cap b)\<rparr>)))"

definition refresh :: "bridge \<Rightarrow> poll \<Rightarrow> bridge py" where
  "refresh b io =
     (if poll_now io - last_poll b < 1 then Inr b
      else if br_override b = [] \<and> \<not> cost_reload b then Inr b
      else let b1 = b\<lparr>last_poll := poll_now io\<rparr> in
        case try_refresh b1 io of
          Inr None \<Rightarrow> Inr b1
        | Inr (Some b2) \<Rightarrow> Inr b2
        | Inl e \<Rightarrow> (if e \<in> {OSError, ValueError, TypeError, OverflowError, RuntimeError} then fail_off b1 else Inl e))"

section \<open>One step\<close>

definition idle_bridge :: "bridge \<Rightarrow> bool" where
  "idle_bridge b \<longleftrightarrow> br_scope b = ''off'' \<and> br_override b = [] \<and> log_every b = 0"

definition mixed_batch ::
  "bridge \<Rightarrow> (rid \<rightharpoonup> request) \<Rightarrow> (rid \<times> int) list \<Rightarrow> (rid \<rightharpoonup> int list) \<Rightarrow> bool" where
  "mixed_batch b reqs cnts drafts \<longleftrightarrow>
     list_ex (\<lambda>(r, n). (case reqs r of None \<Rightarrow> False | Some q \<Rightarrow> is_prefilling q)
       \<or> (case drafts r of None \<Rightarrow> True | Some ds \<Rightarrow> n \<noteq> int (length ds) + 1 \<or> int (length ds) \<noteq> br_max_k b)) cnts"

definition observe_step :: "bridge \<Rightarrow> (rid \<times> int) list \<Rightarrow> bridge" where
  "observe_step b cnts =
     (let cad = map_option (\<lambda>c. observe_turn c (map_of cnts)) (br_cadence b);
          withheld = split_fair b \<and> (case cad of None \<Rightarrow> False | Some c \<Rightarrow> phase c = Decode)
      in b\<lparr>br_cadence := cad,
           br_fair := (if withheld then br_fair b else map_option (\<lambda>f. fair_observe f (map_of cnts)) (br_fair b))\<rparr>)"

text \<open>\<open>select\<close>: \<open>reqs\<close> is the engine's table of requests, \<open>preempted\<close> the ids preempted in the step.\<close>

definition select ::
  "(rat list \<Rightarrow> rat) \<Rightarrow> bridge \<Rightarrow> poll \<Rightarrow> (rid \<times> request) list \<Rightarrow> (rid \<times> int) list \<Rightarrow> (rid \<rightharpoonup> int list) \<Rightarrow> rid list
     \<Rightarrow> (bridge \<times> (rid \<times> int) list \<times> (rid \<rightharpoonup> int list)) py" where
  "select fsum b io reqs cnts drafts preempted =
     (let b1 = observe_step b cnts in
      if idle_bridge b1 then Inr (b1, cnts, drafts)
      else py_bind (refresh b1 io) (\<lambda>b2.
        let p = foldl policy_discard (policy_retain (br_policy b2) (map fst reqs)) preempted in
        py_guard (\<not> list_all (\<lambda>(r, n). map_of reqs r \<noteq> None) cnts) KeyError
          (let ctxs = map (\<lambda>(r, n). (r, num_computed_tokens (the (map_of reqs r)))) cnts;
               mixed = mixed_batch b2 (map_of reqs) cnts drafts
           in py_bind (policy_choose fsum p ctxs mixed) (\<lambda>(p', d).
             py_bind (if \<not> mixed \<and> dec_k d < br_max_k b2
                      then py_bind (trim_batch cnts drafts (dec_k d) (br_max_k b2)) (\<lambda>(c', d', removed). Inr (c', d'))
                      else Inr (cnts, drafts)) (\<lambda>(cnts', drafts').
               Inr (b2\<lparr>br_policy := p', br_decision := Some d, scheduled_counts := cnts',
                       prefill_requests := filter (\<lambda>r. is_prefilling (the (map_of reqs r))) (map fst cnts'),
                       br_step := br_step b2 + 1, acceptance := []\<rparr>, cnts', drafts'))))))"

definition bridge_observe :: "bridge \<Rightarrow> rid \<Rightarrow> int \<Rightarrow> int \<Rightarrow> bool \<Rightarrow> bridge py" where
  "bridge_observe b r proposed accepted stale =
     (if idle_bridge b then Inr b
      else if stale then Inr (b\<lparr>br_policy := policy_discard (br_policy b) r\<rparr>)
      else py_bind (policy_observe (br_policy b) r proposed accepted) (\<lambda>p.
        Inr (b\<lparr>br_policy := p, acceptance := acceptance b @ [(r, proposed, accepted)]\<rparr>)))"

definition prefill_limit :: "bridge \<Rightarrow> engine \<Rightarrow> request \<Rightarrow> int \<Rightarrow> int" where
  "prefill_limit b e r n =
     (let n1 = (case br_cadence b of None \<Rightarrow> n | Some c \<Rightarrow> cad_limit c r n) in
      if prefill_cap b = 0 \<or> \<not> is_prefilling r then n1
      else case br_fair b of
          Some f \<Rightarrow> fair_limit f r n1
        | None \<Rightarrow> if filter (\<lambda>q. \<not> is_prefilling q) (running e) = [] then n1 else min n1 (prefill_cap b))"

definition defer_waiting :: "bridge \<Rightarrow> request \<Rightarrow> bool" where
  "defer_waiting b r =
     (if (case br_cadence b of None \<Rightarrow> False | Some c \<Rightarrow> cad_deferred c r) then True
      else prefill_cap b \<noteq> 0 \<and> (case br_fair b of None \<Rightarrow> False
        | Some f \<Rightarrow> (case grants f of None \<Rightarrow> False | Some gs \<Rightarrow> gs (request_id r) = Some 0)))"

text \<open>\<open>order_running\<close> with the fair planner \<open>f\<close>, and in general. It returns the bridge and the engine with the order of
  its running list.\<close>

definition order_fair :: "bridge \<Rightarrow> fair \<Rightarrow> engine \<Rightarrow> (bridge \<times> engine) py" where
  "order_fair b f e =
     (let n = int (length (filter (\<lambda>q. \<not> is_prefilling q) (running e))) in
      py_bind (chunk_cap (prefill_cap b) n (adaptive_chunk b) (br_max_requests b)) (\<lambda>eff.
        let cad = (if split_fair b then map_option (\<lambda>c. begin_turn c e eff is_prefilling) (br_cadence b) else br_cadence b);
            leave = (\<lambda>f'. Inr (b\<lparr>effective_cap := eff, br_cadence := cad, br_fair := Some f'\<rparr>, e))
        in if split_fair b \<and> map_option phase cad = Some Decode
           then leave (defer_for_decode f (int (card (decoder_ids (the cad))) * (num_spec_tokens e + 1)))
           else py_bind (plan f e eff is_prefilling) leave))"

definition order_running :: "bridge \<Rightarrow> poll \<Rightarrow> engine \<Rightarrow> (bridge \<times> engine) py" where
  "order_running b0 io e =
     py_bind (if runtime_prefill b0 then refresh b0 io else Inr b0) (\<lambda>b.
       case br_fair b of
         Some f \<Rightarrow> order_fair b f e
       | None \<Rightarrow>
           (let e1 = (if prefill_cap b \<noteq> 0
                      then e\<lparr>running := filter (\<lambda>q. \<not> is_prefilling q) (running e) @ filter is_prefilling (running e)\<rparr> else e)
            in Inr (b\<lparr>br_cadence := map_option (\<lambda>c. begin_turn c e1 (prefill_cap b) is_prefilling) (br_cadence b)\<rparr>, e1)))"

definition alignment_limit :: "bridge \<Rightarrow> engine \<Rightarrow> request \<Rightarrow> int \<Rightarrow> int" where
  "alignment_limit b e r n = (if br_fair b \<noteq> None then n else prefill_limit b e r n)"

section \<open>Which exceptions can occur\<close>

lemma raises_only_prod [only_intro]:
  "(\<And>a b. x = (a, b) \<Longrightarrow> raises_only E (f a b)) \<Longrightarrow> raises_only E (case x of (a, b) \<Rightarrow> f a b)"
  by (cases x) simp

lemma raises_only_option [only_intro]:
  "raises_only E a \<Longrightarrow> (\<And>y. x = Some y \<Longrightarrow> raises_only E (f y)) \<Longrightarrow> raises_only E (case x of None \<Rightarrow> a | Some y \<Rightarrow> f y)"
  by (cases x) simp_all

lemma raises_only_sum [only_intro]:
  "(\<And>y. x = Inl y \<Longrightarrow> raises_only E (g y)) \<Longrightarrow> (\<And>y. x = Inr y \<Longrightarrow> raises_only E (f y)) \<Longrightarrow>
     raises_only E (case x of Inl y \<Rightarrow> g y | Inr y \<Rightarrow> f y)"
  by (cases x) simp_all

lemma raises_only_Inl_self: "raises_only E r \<Longrightarrow> r = Inl e \<Longrightarrow> e \<in> E"
  by (simp add: raises_only_def)

lemma capture_axes_only: "raises_only {ValueError} (capture_axes mr mk rq ks)"
  unfolding capture_axes_def speed_geometry_def capture_axis_def by (intro only_intro singletonI)

lemma settings_check_only: "raises_only {ValueError} (settings_check S)"
  unfolding settings_check_def settings_axes_def decode_shapes_def speed_geometry_def
  by (intro only_intro singletonI capture_axes_only)

lemma bridge_settings_only: "raises_only {ValueError} (bridge_settings b m k)"
  unfolding bridge_settings_def by (intro only_intro settings_check_only)

lemma json_settings_only: "raises_only {ValueError} (json_settings b m k)"
  unfolding json_settings_def
  using bridge_settings_only by (cases m; cases k) (simp_all add: raises_only_def)

lemma cost_row_only: "raises_only {ValueError} (cost_row rq kind acc row)"
  unfolding cost_row_def Let_def by (cases row) (auto intro!: only_intro)

lemma cost_rows_only: "raises_only {ValueError} (cost_rows rq kind acc rows)"
proof (induction rows arbitrary: acc)
  case (Cons row rows)
  then show ?case using cost_row_only [of rq kind acc row]
    by (cases "cost_row rq kind acc row") (auto simp: raises_only_def)
qed (simp add: raises_only_def)

lemma from_document_only: "raises_only {ValueError} (from_document document rq)"
proof (cases document)
  case (JObj d)
  have rows: "raises_only {ValueError} (case json_get d ''rows'' JNull of
      JList (r # rs) \<Rightarrow> py_bind (cost_rows rq k [] (r # rs)) f | _ \<Rightarrow> Inl ValueError)"
    if "\<And>x. raises_only {ValueError} (f x)" for k and f :: "_ \<Rightarrow> cost_table py"
  proof (cases "json_get d ''rows'' JNull")
    case (JList l)
    show ?thesis
    proof (cases l)
      case (Cons r rs)
      show ?thesis unfolding JList json.case Cons list.case by (intro only_intro cost_rows_only that)
    qed (simp add: JList raises_only_def)
  qed (auto intro!: only_intro)
  show ?thesis unfolding from_document_def JObj json.case Let_def reject_test_costs_def
    by (intro only_intro singletonI rows)
qed (simp_all add: from_document_def raises_only_def)

lemma load_cost_table_only:
  assumes "ValueError \<in> E" "raises_only E reading"
  shows "raises_only E (load_cost_table i x rq reading)"
proof -
  have d: "raises_only E (case v of JObj d \<Rightarrow> py_guard (c d) ValueError (from_document v rq) | _ \<Rightarrow> Inl ValueError)" for c v
    using assms(1) raises_only_mono [OF from_document_only, of E]
    by (cases v) (auto intro!: only_intro)
  show ?thesis unfolding load_cost_table_def load_unique_def Let_def
    by (intro only_intro assms d)
qed

text \<open>The exceptions that the override reader catches, and what it may be handed by the file system.\<close>

definition caught :: "py_error set" where
  "caught = {OSError, ValueError, TypeError, OverflowError, RuntimeError}"

definition poll_errors_caught :: "poll \<Rightarrow> bool" where
  "poll_errors_caught io \<longleftrightarrow> raises_only caught (poll_stat io) \<and> raises_only caught (poll_body io)
     \<and> raises_only caught (poll_stat_after io) \<and> raises_only caught (cost_stat io)
     \<and> raises_only caught (cost_reading io) \<and> raises_only caught (cost_stat_after io)"

lemma value_caught: "ValueError \<in> caught" "{ValueError} \<subseteq> caught"
  by (simp_all add: caught_def)

lemma validate_prefill_adaptive_only: "raises_only {ValueError} (validate_prefill_adaptive b S c)"
  unfolding validate_prefill_adaptive_def Let_def by (intro only_intro singletonI)

lemma policy_configure_only: "raises_only {ValueError} (policy_configure p S ct)"
  unfolding policy_configure_def Let_def by (intro only_intro singletonI)

lemma override_costs_only:
  assumes "poll_errors_caught io"
  shows "raises_only caught (override_costs b io d S)"
  using assms unfolding override_costs_def Let_def poll_errors_caught_def
  by (intro only_intro value_caught load_cost_table_only) blast+

lemma apply_override_only:
  assumes "poll_errors_caught io"
  shows "raises_only caught (apply_override b io d st)"
proof -
  note v = raises_only_mono [OF _ value_caught(2)]
  have f: "raises_only caught (case br_fair b of None \<Rightarrow> Inr () | Some f \<Rightarrow> validate_cap f c)" for c
    unfolding validate_cap_def by (intro only_intro value_caught)
  have s: "raises_only caught (poll_stat_after io)" using assms by (simp add: poll_errors_caught_def)
  show ?thesis unfolding apply_override_def Let_def
    by (intro only_intro value_caught f s v [OF json_settings_only] v [OF validate_prefill_adaptive_only]
        v [OF policy_configure_only] override_costs_only assms)
qed

lemma try_refresh_only:
  assumes "poll_errors_caught io"
  shows "raises_only caught (try_refresh b io)"
proof -
  have j: "raises_only caught (case v of JObj d \<Rightarrow> py_bind (apply_override b io d st) (\<lambda>b'. Inr (Some b')) | _ \<Rightarrow> Inl ValueError)" for v st
  proof (cases v)
    case (JObj d)
    show ?thesis unfolding JObj json.case by (intro only_intro apply_override_only assms)
  qed (simp_all add: raises_only_def value_caught)
  have s: "raises_only caught (poll_stat io)" "raises_only caught (poll_body io)"
    using assms by (simp_all add: poll_errors_caught_def)
  show ?thesis unfolding try_refresh_def load_unique_def by (intro only_intro value_caught s j)
qed


section \<open>The bridge's invariant\<close>

definition same_geometry :: "bridge \<Rightarrow> settings \<Rightarrow> bool" where
  "same_geometry b S \<longleftrightarrow> s_scope S = br_scope b \<and> s_max_requests S = br_max_requests b \<and> s_max_k S = br_max_k b
     \<and> capture_requests S = Some (br_requests b) \<and> capture_ks S = Some (br_ks b)"

definition bridge_inv :: "bridge \<Rightarrow> bool" where
  "bridge_inv b \<longleftrightarrow> policy_inv (br_policy b) \<and> same_geometry b (p_settings (main (br_policy b)))
     \<and> settings_check (make_settings b ''off'' (br_max_k b)) = Inr ()"

lemma make_settings_geometry: "same_geometry b (make_settings b m k)"
  by (simp add: same_geometry_def make_settings_def)

lemma configure_settings: "policy_configure p S ct = Inr p' \<Longrightarrow> p_settings (main p') = S"
  by (auto simp: policy_configure_def Let_def reset_extension_def)

lemma configure_costs: "policy_configure p S (Some ct) = Inr p' \<Longrightarrow> p_costs (main p') = ct"
  by (auto simp: policy_configure_def Let_def reset_extension_def)

lemma same_geometry_fields:
  "same_geometry b S \<Longrightarrow> same_geometry (b\<lparr>br_policy := p, br_stamp := st, prefill_cap := c\<rparr>) S"
  "make_settings (b\<lparr>br_policy := p, br_stamp := st, prefill_cap := c\<rparr>) m k = make_settings b m k"
  "same_geometry (b\<lparr>last_poll := t\<rparr>) S \<longleftrightarrow> same_geometry b S" "make_settings (b\<lparr>last_poll := t\<rparr>) m k = make_settings b m k"
  by (simp_all add: same_geometry_def make_settings_def)

lemma apply_override_inv:
  assumes "bridge_inv b" "apply_override b io d st = Inr b'"
  shows "bridge_inv b'"
proof -
  obtain S c p where S: "json_settings b (json_get d ''mode'' (JStr ''off'')) (json_get d ''forced_k'' (JInt (br_max_k b))) = Inr S"
    and p: "policy_configure (br_policy b) S c = Inr p"
    and b': "\<exists>eff. b' = b\<lparr>br_policy := p, br_stamp := Some st, prefill_cap := eff\<rparr>"
    using assms(2) unfolding apply_override_def Let_def py_guard_Inr py_bind_Inr by blast
  obtain m k where mk: "S = make_settings b m k" "settings_check S = Inr ()"
    using S unfolding json_settings_def bridge_settings_def by (auto split: json.splits)
  have "policy_inv p" using configure_inv [OF _ mk(2) p] assms(1) by (simp add: bridge_inv_def)
  moreover have "same_geometry b (p_settings (main p))"
    using configure_settings [OF p] mk(1) make_settings_geometry by simp
  ultimately show ?thesis using b' assms(1) by (auto simp: bridge_inv_def same_geometry_fields)
qed

lemma fail_off_ok:
  assumes "bridge_inv b"
  shows "\<exists>b'. fail_off b = Inr b' \<and> bridge_inv b' \<and> s_mode (p_settings (main (br_policy b'))) = ''off'' \<and> br_stamp b' = None
    \<and> (runtime_prefill b \<longrightarrow> prefill_cap b' = 0) \<and> (cost_reload b \<longrightarrow> p_costs (main (br_policy b')) = None)"
proof -
  let ?S = "make_settings b ''off'' (br_max_k b)" and ?c = "if cost_reload b then Some None else None"
  have ok: "settings_check ?S = Inr ()" and pi: "policy_inv (br_policy b)"
    and g: "same_geometry b (p_settings (main (br_policy b)))" using assms by (simp_all add: bridge_inv_def)
  have "\<exists>p. policy_configure (br_policy b) ?S ?c = Inr p"
    using g unfolding policy_configure_def Let_def same_geometry_def make_settings_def by (simp add: py_guard_def)
  then obtain p where p: "policy_configure (br_policy b) ?S ?c = Inr p" by blast
  let ?b = "b\<lparr>br_policy := p, br_stamp := None, prefill_cap := (if runtime_prefill b then 0 else prefill_cap b)\<rparr>"
  have "fail_off b = Inr ?b" unfolding fail_off_def bridge_settings_def ok py_bind_simps p ..
  moreover have "bridge_inv ?b"
    using configure_inv [OF pi ok p] configure_settings [OF p] make_settings_geometry [of b "''off''" "br_max_k b"] ok
    unfolding bridge_inv_def by (simp add: same_geometry_fields)
  moreover have "s_mode (p_settings (main p)) = ''off''" using configure_settings [OF p] by (simp add: make_settings_def)
  moreover have "cost_reload b \<longrightarrow> p_costs (main p) = None" using configure_costs p by fastforce
  ultimately show ?thesis by (intro exI [of _ ?b]) simp
qed

definition poll_due :: "bridge \<Rightarrow> poll \<Rightarrow> bool" where
  "poll_due b io \<longleftrightarrow> 1 \<le> poll_now io - last_poll b \<and> (br_override b \<noteq> [] \<or> cost_reload b)"

lemma try_refresh_Some:
  assumes "try_refresh b io = Inr (Some b2)"
  shows "\<exists>d st. apply_override b io d st = Inr b2"
proof -
  let ?body = "py_bind (poll_body io) (\<lambda>(raw, st). py_bind (load_unique raw) (\<lambda>data.
    case data of JObj d \<Rightarrow> py_bind (apply_override b io d st) (\<lambda>b'. Inr (Some b')) | _ \<Rightarrow> Inl ValueError))"
  have "?body = Inr (Some b2)"
  proof (cases "poll_stat io")
    case (Inl e)
    then show ?thesis using assms by (simp add: try_refresh_def)
  next
    case (Inr st0)
    show ?thesis
    proof (cases "Some st0 = br_stamp b \<and> \<not> cost_reload b")
      case True
      then show ?thesis using assms unfolding try_refresh_def Inr py_bind_simps by (simp only: if_True) simp
    next
      case False
      show ?thesis using assms unfolding try_refresh_def Inr py_bind_simps py_guard_Inr
        by (simp only: if_not_P [OF False])
    qed
  qed
  then obtain rs where rs: "(case rs of (raw, st) \<Rightarrow> py_bind (load_unique raw) (\<lambda>data.
    case data of JObj d \<Rightarrow> py_bind (apply_override b io d st) (\<lambda>b'. Inr (Some b')) | _ \<Rightarrow> Inl ValueError)) = Inr (Some b2)"
    unfolding py_bind_Inr by blast
  obtain raw st where "rs = (raw, st)" by (rule prod.exhaust)
  with rs obtain data where v: "(case data of JObj d \<Rightarrow> py_bind (apply_override b io d st) (\<lambda>b'. Inr (Some b')) | _ \<Rightarrow> Inl ValueError)
      = Inr (Some b2)"
    unfolding py_bind_Inr by (simp only: case_prod_conv py_bind_Inr) blast
  show ?thesis
  proof (cases data)
    case (JObj d)
    show ?thesis using v unfolding JObj json.case py_bind_Inr by blast
  qed (use v in simp_all)
qed

lemma refresh_frame:
  assumes "refresh b io = Inr b'"
  shows "\<exists>p st c t. b' = b\<lparr>br_policy := p, br_stamp := st, prefill_cap := c, last_poll := t\<rparr>"
proof -
  let ?b1 = "b\<lparr>last_poll := poll_now io\<rparr>"
  have ov: "\<exists>p st c t. b2 = b\<lparr>br_policy := p, br_stamp := st, prefill_cap := c, last_poll := t\<rparr>"
    if ap: "apply_override ?b1 io d st = Inr b2" for d st b2
  proof -
    have "\<exists>p c. b2 = ?b1\<lparr>br_policy := p, br_stamp := Some st, prefill_cap := c\<rparr>"
      using ap unfolding apply_override_def Let_def py_guard_Inr py_bind_Inr by blast
    then obtain p c where e: "b2 = ?b1\<lparr>br_policy := p, br_stamp := Some st, prefill_cap := c\<rparr>" by blast
    show ?thesis unfolding e
      by (intro exI [of _ p] exI [of _ "Some st"] exI [of _ c] exI [of _ "poll_now io"]) simp
  qed
  have off: "\<exists>p st c t. b2 = b\<lparr>br_policy := p, br_stamp := st, prefill_cap := c, last_poll := t\<rparr>"
    if f: "fail_off ?b1 = Inr b2" for b2
  proof -
    obtain p c where e: "b2 = ?b1\<lparr>br_policy := p, br_stamp := None, prefill_cap := c\<rparr>"
      using f unfolding fail_off_def py_bind_Inr by blast
    show ?thesis unfolding e
      by (intro exI [of _ p] exI [of _ None] exI [of _ c] exI [of _ "poll_now io"]) simp
  qed
  have id: "\<exists>p st c t. b\<lparr>last_poll := u\<rparr> = b\<lparr>br_policy := p, br_stamp := st, prefill_cap := c, last_poll := t\<rparr>" for u
    by (intro exI [of _ "br_policy b"] exI [of _ "br_stamp b"] exI [of _ "prefill_cap b"] exI [of _ u]) simp
  show ?thesis
  proof (cases "poll_now io - last_poll b < 1 \<or> br_override b = [] \<and> \<not> cost_reload b")
    case True
    then have "b' = b" using assms by (cases "poll_now io - last_poll b < 1") (auto simp: refresh_def)
    then show ?thesis using id [of "last_poll b"] by simp
  next
    case False
    then have "(poll_now io - last_poll b < 1) = False" "(br_override b = [] \<and> \<not> cost_reload b) = False" by blast+
    note r = assms [unfolded refresh_def Let_def this if_False]
    show ?thesis
    proof (cases "try_refresh ?b1 io")
      case (Inl e)
      then have "fail_off ?b1 = Inr b'" using r by (auto split: if_splits)
      then show ?thesis by (rule off)
    next
      case (Inr x)
      show ?thesis
      proof (cases x)
        case None
        then have "b' = ?b1" using r Inr by simp
        then show ?thesis using id by blast
      next
        case (Some b2)
        then have e: "b' = b2" using r Inr by simp
        obtain d st where "apply_override ?b1 io d st = Inr b2" using try_refresh_Some Inr Some by blast
        then show ?thesis unfolding e by (rule ov)
      qed
    qed
  qed
qed

lemma refresh_ok:
  assumes "bridge_inv b" "poll_errors_caught io"
  shows "\<exists>b'. refresh b io = Inr b' \<and> bridge_inv b'
    \<and> (poll_due b io \<and> (\<exists>e. try_refresh (b\<lparr>last_poll := poll_now io\<rparr>) io = Inl e) \<longrightarrow>
         s_mode (p_settings (main (br_policy b'))) = ''off'' \<and> br_stamp b' = None
         \<and> (runtime_prefill b \<longrightarrow> prefill_cap b' = 0) \<and> (cost_reload b \<longrightarrow> p_costs (main (br_policy b')) = None))"
proof (cases "poll_due b io")
  case False
  then have "refresh b io = Inr b" by (auto simp: refresh_def poll_due_def)
  with False assms(1) show ?thesis by simp
next
  case True
  let ?b1 = "b\<lparr>last_poll := poll_now io\<rparr>"
  have i1: "bridge_inv ?b1" using assms(1) by (simp add: bridge_inv_def same_geometry_fields)
  have step: "refresh b io = (case try_refresh ?b1 io of
          Inr None \<Rightarrow> Inr ?b1
        | Inr (Some b2) \<Rightarrow> Inr b2
        | Inl e \<Rightarrow> (if e \<in> caught then fail_off ?b1 else Inl e))"
  proof -
    have "(poll_now io - last_poll b < 1) = False" "(br_override b = [] \<and> \<not> cost_reload b) = False"
      using True by (auto simp: poll_due_def)
    then show ?thesis by (simp only: refresh_def Let_def if_False caught_def)
  qed
  show ?thesis
  proof (cases "try_refresh ?b1 io")
    case (Inl e)
    then have "e \<in> caught" using raises_only_Inl_self [OF try_refresh_only [OF assms(2)]] by blast
    then have "refresh b io = fail_off ?b1" using step Inl by simp
    with fail_off_ok [OF i1] show ?thesis by auto
  next
    case (Inr r)
    show ?thesis
    proof (cases r)
      case None
      then show ?thesis using step Inr i1 by simp
    next
      case (Some b2)
      then obtain d st where "apply_override ?b1 io d st = Inr b2" using Inr try_refresh_Some by blast
      then have "bridge_inv b2" using apply_override_inv [OF i1] by blast
      then show ?thesis using step Inr Some by simp
    qed
  qed
qed

text \<open>
  C24. A poll of the runtime override never raises on a well-formed bridge; every failure of
  reading, decoding, checking or configuring turns the experiment off: mode off, no stamp, no
  runtime cap and, under cost reload, no cost table.
\<close>

theorem refresh_fails_safe:
  assumes "bridge_inv b" "poll_errors_caught io"
  shows "\<exists>b'. refresh b io = Inr b' \<and> bridge_inv b'
    \<and> (poll_due b io \<and> (\<exists>e. try_refresh (b\<lparr>last_poll := poll_now io\<rparr>) io = Inl e) \<longrightarrow>
         s_mode (p_settings (main (br_policy b'))) = ''off'' \<and> br_stamp b' = None
         \<and> (runtime_prefill b \<longrightarrow> prefill_cap b' = 0) \<and> (cost_reload b \<longrightarrow> p_costs (main (br_policy b')) = None))"
  by (rule refresh_ok [OF assms])

lemma policy_discard_ok:
  assumes "policy_inv p"
  shows "policy_inv (policy_discard p r)" "p_settings (main (policy_discard p r)) = p_settings (main p)"
proof -
  have c: "core_inv (core_discard q r)" if "core_inv q" for q
    using that by (auto simp: core_inv_def core_discard_def)
  have s: "p_settings (core_discard q r) = p_settings q" for q by (simp add: core_discard_def)
  show "p_settings (main (policy_discard p r)) = p_settings (main p)" by (simp add: policy_discard_def s)
  show "policy_inv (policy_discard p r)"
  proof (cases "extension p")
    case None
    then show ?thesis using assms c s unfolding policy_inv_def policy_discard_def by simp
  next
    case (Some e)
    then show ?thesis using assms c s reset_inv unfolding policy_inv_def policy_discard_def
      by (cases e) simp
  qed
qed

lemma policy_discards_ok:
  assumes "policy_inv p"
  shows "policy_inv (foldl policy_discard p rs) \<and> p_settings (main (foldl policy_discard p rs)) = p_settings (main p)"
  using assms policy_discard_ok by (induction rs arbitrary: p) auto

lemma policy_retain_settings: "p_settings (main (policy_retain p live)) = p_settings (main p)"
  by (simp add: policy_retain_def core_retain_def)

lemma observe_step_inv: "bridge_inv b \<Longrightarrow> bridge_inv (observe_step b cnts)"
  by (simp add: bridge_inv_def same_geometry_def make_settings_def observe_step_def Let_def)


section \<open>Closing a step\<close>

lemma trim_batch_total:
  assumes "1 \<le> k" "k \<le> mk" "mk \<le> 8" "counts \<noteq> []"
    "\<forall>(r, n) \<in> set counts. \<exists>ds. drafts r = Some ds \<and> n = int (length ds) + 1 \<and> k \<le> int (length ds)"
  shows "\<exists>c d m. trim_batch counts drafts k mk = Inr (c, d, m)"
proof -
  have "\<not> list_ex (\<lambda>(r, n). case drafts r of None \<Rightarrow> True | Some ds \<Rightarrow> n \<noteq> int (length ds) + 1 \<or> int (length ds) < k) counts"
    using assms(5) by (fastforce simp: list_ex_iff)
  then show ?thesis using assms(1-4) by (simp add: trim_batch_def speed_geometry_def geometry_ks_def)
qed

lemma trim_batch_uniform:
  assumes "trim_batch counts drafts k mk = Inr (c, d, m)" "distinct (map fst counts)"
  shows "map fst c = map fst counts" "\<forall>(r, n) \<in> set c. n = k + 1"
    "\<forall>r \<in> fst ` set counts. \<exists>ds. drafts r = Some ds \<and> d r = Some (take (nat k) ds) \<and> int (length (take (nat k) ds)) = k"
  using trim_batch_ok [OF assms] by blast+

text \<open>
  From every well-formed bridge that is not idle, closing a step never raises, keeps the
  invariant, records the decision and the counts, and either leaves the batch as it was (a
  mixed batch gets the native length) or trims every request to exactly the chosen length plus
  one, and the shape it then runs is a captured decode shape.
\<close>

theorem select_trims_uniformly:
  assumes "bridge_inv b" "poll_errors_caught io" "distinct (map fst cnts)" "\<forall>r \<in> fst ` set cnts. map_of reqs r \<noteq> None"
    "\<not> idle_bridge b"
  shows "\<exists>b' cnts' drafts' d. select fsum b io reqs cnts drafts preempted = Inr (b', cnts', drafts')
    \<and> bridge_inv b' \<and> br_decision b' = Some d \<and> scheduled_counts b' = cnts' \<and> br_step b' = br_step b + 1
    \<and> (let S = p_settings (main (br_policy b')); c = int (length cnts) in
        (cnts', drafts') = (cnts, drafts) \<and> (mixed_batch b (map_of reqs) cnts drafts \<longrightarrow> dec_k d = br_max_k b)
        \<or> (\<not> mixed_batch b (map_of reqs) cnts drafts \<and> 1 \<le> dec_k d \<and> dec_k d < br_max_k b
           \<and> (\<exists>shapes. decode_shapes (s_scope S) (s_max_requests S) (s_max_k S) (capture_requests S) (capture_ks S) = Inr shapes
                \<and> \<lparr>concurrency = c, shape_k = dec_k d\<rparr> \<in> set shapes)
           \<and> map fst cnts' = map fst cnts \<and> (\<forall>(r, n) \<in> set cnts'. n = dec_k d + 1)
           \<and> (\<forall>r \<in> fst ` set cnts. \<exists>ds. drafts r = Some ds \<and> drafts' r = Some (take (nat (dec_k d)) ds)
                \<and> int (length (take (nat (dec_k d)) ds)) = dec_k d)))"
proof -
  define b1 where "b1 = observe_step b cnts"
  have b1: "bridge_inv b1" "\<not> idle_bridge b1" "br_max_k b1 = br_max_k b" "br_step b1 = br_step b"
    using observe_step_inv [OF assms(1)] assms(5) by (simp_all add: b1_def observe_step_def Let_def idle_bridge_def)
  obtain b2 where b2: "refresh b1 io = Inr b2" "bridge_inv b2" using refresh_ok [OF b1(1) assms(2)] by blast
  have f2: "br_max_k b2 = br_max_k b" "br_step b2 = br_step b" using refresh_frame [OF b2(1)] b1 by auto
  define p where "p = foldl policy_discard (policy_retain (br_policy b2) (map fst reqs)) preempted"
  define S where "S = p_settings (main (br_policy b2))"
  have pi: "policy_inv (br_policy b2)" and geo: "same_geometry b2 S" using b2(2) by (simp_all add: bridge_inv_def S_def)
  have ok: "settings_check S = Inr ()" using pi by (simp add: policy_inv_def core_inv_def S_def)
  have p: "policy_inv p" "p_settings (main p) = S"
    using policy_discards_ok [of "policy_retain (br_policy b2) (map fst reqs)" preempted]
      policy_retain_ok [OF pi] policy_retain_settings unfolding p_def S_def by auto
  define ctxs where "ctxs = map (\<lambda>(r, n). (r, num_computed_tokens (the (map_of reqs r)))) cnts"
  define mx where "mx = mixed_batch b2 (map_of reqs) cnts drafts"
  have mx: "mx = mixed_batch b (map_of reqs) cnts drafts" unfolding mx_def mixed_batch_def f2(1) ..
  have lc: "length ctxs = length cnts" by (simp add: ctxs_def)
  obtain p' k reason where ch: "policy_choose fsum p ctxs mx = Inr (p', decision_of S (int (length cnts)) k reason)"
    "policy_inv p'" "p_settings (main p') = S" "allowed_k S (int (length cnts)) k"
    "mx \<or> \<not> (1 \<le> int (length cnts) \<and> int (length cnts) \<le> s_max_requests S) \<longrightarrow> k = s_max_k S"
    using policy_choose_ok [OF p(1), of fsum ctxs mx] unfolding p(2) lc by blast
  have k: "1 \<le> k" "k \<le> br_max_k b" and mk: "s_max_k S = br_max_k b" "br_max_k b \<le> 8"
    using allowed_range [OF ok ch(4)] settings_captured_ks(4) [OF ok] geo f2(1) by (simp_all add: same_geometry_def)
  define d where "d = decision_of S (int (length cnts)) k reason"
  have dk: "dec_k d = k" by (simp add: d_def decision_of_def)
  let ?trim = "\<not> mx \<and> dec_k d < br_max_k b2"
  define out where "out = (if ?trim then py_bind (trim_batch cnts drafts (dec_k d) (br_max_k b2)) (\<lambda>(c', d', removed). Inr (c', d'))
      else Inr (cnts, drafts))"
  have have_all: "list_all (\<lambda>(r, n). map_of reqs r \<noteq> None) cnts" using assms(4) by (force simp: list_all_iff)
  have "\<exists>c' d'. out = Inr (c', d') \<and> ((c', d') = (cnts, drafts) \<and> (mx \<longrightarrow> k = br_max_k b)
      \<or> \<not> mx \<and> k < br_max_k b \<and> 1 \<le> int (length cnts) \<and> int (length cnts) \<le> s_max_requests S
        \<and> map fst c' = map fst cnts \<and> (\<forall>(r, n) \<in> set c'. n = k + 1)
        \<and> (\<forall>r \<in> fst ` set cnts. \<exists>ds. drafts r = Some ds \<and> d' r = Some (take (nat k) ds) \<and> int (length (take (nat k) ds)) = k))"
  proof (cases ?trim)
    case False
    then show ?thesis using ch(5) mk by (auto simp: out_def)
  next
    case True
    then have kk: "\<not> mx" "k < br_max_k b" using dk f2(1) by auto
    have c: "1 \<le> int (length cnts)" "int (length cnts) \<le> s_max_requests S" using ch(5) kk mk by auto
    have full: "\<exists>ds. drafts r = Some ds \<and> n = int (length ds) + 1 \<and> k \<le> int (length ds)" if "(r, n) \<in> set cnts" for r n
    proof -
      have "\<not> (case drafts r of None \<Rightarrow> True | Some ds \<Rightarrow> n \<noteq> int (length ds) + 1 \<or> int (length ds) \<noteq> br_max_k b)"
        using kk(1) that unfolding mx mixed_batch_def list_ex_iff by blast
      then show ?thesis using k by (auto split: option.splits)
    qed
    obtain c' d' m where t: "trim_batch cnts drafts k (br_max_k b) = Inr (c', d', m)"
      using trim_batch_total [OF k mk(2), of cnts drafts] full c(1) by fastforce
    have "out = Inr (c', d')" using True t dk f2(1) by (simp add: out_def)
    then show ?thesis using trim_batch_uniform [OF t assms(3)] kk c by blast
  qed
  then obtain c' d' where out: "out = Inr (c', d')" and oc: "(c', d') = (cnts, drafts) \<and> (mx \<longrightarrow> k = br_max_k b)
      \<or> \<not> mx \<and> k < br_max_k b \<and> 1 \<le> int (length cnts) \<and> int (length cnts) \<le> s_max_requests S
        \<and> map fst c' = map fst cnts \<and> (\<forall>(r, n) \<in> set c'. n = k + 1)
        \<and> (\<forall>r \<in> fst ` set cnts. \<exists>ds. drafts r = Some ds \<and> d' r = Some (take (nat k) ds) \<and> int (length (take (nat k) ds)) = k)"
    by blast
  define b' where "b' = b2\<lparr>br_policy := p', br_decision := Some d, scheduled_counts := c',
                       prefill_requests := filter (\<lambda>r. is_prefilling (the (map_of reqs r))) (map fst c'),
                       br_step := br_step b2 + 1, acceptance := []\<rparr>"
  have sel: "select fsum b io reqs cnts drafts preempted = Inr (b', c', d')"
    unfolding select_def Let_def b1_def [symmetric] b2(1) py_bind_simps p_def [symmetric] ctxs_def [symmetric]
      mx_def [symmetric] ch(1) d_def [symmetric] case_prod_conv out_def [symmetric] out b'_def
    using b1(2) have_all by simp
  have inv: "bridge_inv b'" using b2(2) ch(2,3) S_def unfolding bridge_inv_def b'_def
    by (simp add: same_geometry_def make_settings_def)
  have shapes: "\<exists>shapes. decode_shapes (s_scope S) (s_max_requests S) (s_max_k S) (capture_requests S) (capture_ks S) = Inr shapes
      \<and> \<lparr>concurrency = int (length cnts), shape_k = k\<rparr> \<in> set shapes"
    if "1 \<le> int (length cnts)" "int (length cnts) \<le> s_max_requests S"
    using allowed_captured [OF ok that ch(4)] .
  have S': "p_settings (main (br_policy b')) = S" by (simp add: b'_def ch(3))
  have fields: "br_decision b' = Some d" "scheduled_counts b' = c'" "br_step b' = br_step b + 1"
    by (simp_all add: b'_def f2(2))
  show ?thesis
    unfolding mx [symmetric]
    apply (intro exI [of _ b'] exI [of _ c'] exI [of _ d'] exI [of _ d] conjI sel inv fields)
    unfolding S' Let_def dk
    using oc shapes k by blast
qed

section \<open>Opening a step\<close>

text \<open>What \<open>order_running\<close> does in the fair lane, without the runtime poll.\<close>

lemma order_running_fair:
  assumes "order_running b io e = Inr (b', e')" "\<not> runtime_prefill b" "br_fair b = Some f"
  obtains eff cad f' where "e' = e" "b' = b\<lparr>effective_cap := eff, br_cadence := cad, br_fair := Some f'\<rparr>"
    "chunk_cap (prefill_cap b) (int (length (filter (\<lambda>q. \<not> is_prefilling q) (running e)))) (adaptive_chunk b) (br_max_requests b) = Inr eff"
    "cad = (if split_fair b then map_option (\<lambda>c. begin_turn c e eff is_prefilling) (br_cadence b) else br_cadence b)"
    "if split_fair b \<and> map_option phase cad = Some Decode
     then f' = defer_for_decode f (int (card (decoder_ids (the cad))) * (num_spec_tokens e + 1))
     else plan f e eff is_prefilling = Inr f'"
proof -
  have o: "order_fair b f e = Inr (b', e')" using assms by (simp add: order_running_def)
  obtain eff where eff: "chunk_cap (prefill_cap b) (int (length (filter (\<lambda>q. \<not> is_prefilling q) (running e)))) (adaptive_chunk b) (br_max_requests b) = Inr eff"
    using o unfolding order_fair_def Let_def py_bind_Inr by blast
  define cad where "cad = (if split_fair b then map_option (\<lambda>c. begin_turn c e eff is_prefilling) (br_cadence b) else br_cadence b)"
  define leave where "leave = (\<lambda>f'. Inr (b\<lparr>effective_cap := eff, br_cadence := cad, br_fair := Some f'\<rparr>, e) :: (bridge \<times> engine) py)"
  have r: "(if split_fair b \<and> map_option phase cad = Some Decode
      then leave (defer_for_decode f (int (card (decoder_ids (the cad))) * (num_spec_tokens e + 1)))
      else py_bind (plan f e eff is_prefilling) leave) = Inr (b', e')"
    using o [unfolded order_fair_def Let_def eff py_bind_simps] unfolding leave_def cad_def .
  obtain f' where "leave f' = Inr (b', e')"
    "if split_fair b \<and> map_option phase cad = Some Decode
     then f' = defer_for_decode f (int (card (decoder_ids (the cad))) * (num_spec_tokens e + 1))
     else plan f e eff is_prefilling = Inr f'"
  proof (cases "split_fair b \<and> map_option phase cad = Some Decode")
    case True
    then show ?thesis using r that by (simp only: if_True simp_thms)
  next
    case False
    then show ?thesis using r that by (simp only: if_False py_bind_Inr) blast
  qed
  then show thesis using that eff cad_def unfolding leave_def by blast
qed

text \<open>
  In a decode-only turn of the split/fair arm every running prefill gets limit 0, every
  decoder its whole count, and exactly the requests that are not decoders are deferred.
\<close>

theorem decode_turn_serves_only_decoders:
  assumes "order_running b io e = Inr (b', e')" "\<not> runtime_prefill b" "split_fair b" "br_fair b = Some f"
    "br_cadence b' = Some c" "phase c = Decode" "distinct (map request_id (running e))" "r \<in> set (running e)"
  shows "prefill_limit b' e' r n = (if is_prefilling r then 0 else n)
    \<and> defer_waiting b' w = (request_id w \<notin> decoder_ids c)"
proof -
  obtain eff cad f' where O: "b' = b\<lparr>effective_cap := eff, br_cadence := cad, br_fair := Some f'\<rparr>"
    "cad = (if split_fair b then map_option (\<lambda>c. begin_turn c e eff is_prefilling) (br_cadence b) else br_cadence b)"
    "if split_fair b \<and> map_option phase cad = Some Decode
          then f' = defer_for_decode f (int (card (decoder_ids (the cad))) * (num_spec_tokens e + 1))
          else plan f e eff is_prefilling = Inr f'"
    by (rule order_running_fair [OF assms(1,2,4)]) (rule that; assumption)
  have cad: "cad = Some c" using O(1) assms(5) by simp
  then obtain c0 where c0: "c = begin_turn c0 e eff is_prefilling" using O(2) assms(3) by auto
  have f': "grants f' = Some Map.empty" using O(3) assms(3,6) cad by (simp add: defer_for_decode_def)
  have L: "cad_limit c r n = (if is_prefilling r then 0 else n)"
    using decode_turn_limits [OF assms(6) [unfolded c0] assms(7,8)] c0 by simp
  have "prefill_limit b' e' r n = (if is_prefilling r then 0 else n)"
    using L f' cad unfolding O(1) prefill_limit_def by (simp add: fair_limit_def Let_def)
  moreover have al: "allowed c = Some (decoder_ids c)"
    unfolding c0 by (rule begin_turn_cases [of c0 e is_prefilling eff]) (use assms(6) in \<open>auto simp: c0 decode_turn_def\<close>)
  ultimately show ?thesis using f' cad unfolding O(1) defer_waiting_def by (auto simp: cad_deferred_def)
qed

lemma chunk_cap_le: "chunk_cap c n a mr = Inr eff \<Longrightarrow> eff \<le> c"
  by (auto simp: chunk_cap_def split: if_splits)

text \<open>
  After opening a step in the fair lane the prefill tokens all planned requests may take
  together are at most the effective cap, which is at most the configured cap.
\<close>

theorem step_prefill_within_cap:
  assumes "order_running b io e = Inr (b', e')" "\<not> runtime_prefill b" "br_fair b = Some f"
    "0 < block_size f" "distinct (queue f)" "0 < effective_cap b'"
    "distinct (map request_id (running e @ skipped_waiting e @ waiting e))"
    "br_fair b' = Some f'" "grants f' = Some gs"
  shows "(\<Sum>r \<in> {r \<in> set (plan_prefills e is_prefilling). is_prefilling r}. prefill_limit b' e' r (offer r)) \<le> effective_cap b'
    \<and> effective_cap b' \<le> prefill_cap b"
proof -
  obtain eff cad f1 where O: "b' = b\<lparr>effective_cap := eff, br_cadence := cad, br_fair := Some f1\<rparr>"
    "chunk_cap (prefill_cap b) (int (length (filter (\<lambda>q. \<not> is_prefilling q) (running e)))) (adaptive_chunk b) (br_max_requests b) = Inr eff"
    "if split_fair b \<and> map_option phase cad = Some Decode
          then f1 = defer_for_decode f (int (card (decoder_ids (the cad))) * (num_spec_tokens e + 1))
          else plan f e eff is_prefilling = Inr f1"
    by (rule order_running_fair [OF assms(1-3)]) (rule that; assumption)
  have f1: "f1 = f'" "effective_cap b' = eff" using O(1) assms(8) by simp_all
  have eff: "0 < eff" "eff \<le> prefill_cap b" using chunk_cap_le [OF O(2)] assms(6) f1(2) by simp_all
  let ?A = "{r \<in> set (plan_prefills e is_prefilling). is_prefilling r}"
  have sub: "plan_prefills e is_prefilling = filter is_prefilling (running e) @ take k (filter (\<lambda>r. status r \<in> {WAITING, PREEMPTED}) (skipped_waiting e @ waiting e))"
    if "k = nat (max 0 (max_num_running_reqs e - int (length (running e)) - num_waiting_for_streaming_input e))" for k
    using that by (simp add: plan_prefills_def Let_def)
  have inj: "inj_on request_id (set (plan_prefills e is_prefilling))"
  proof -
    have "set (plan_prefills e is_prefilling) \<subseteq> set (running e @ skipped_waiting e @ waiting e)"
      unfolding sub [OF refl] by (auto dest!: in_set_takeD)
    then show ?thesis using assms(7) unfolding distinct_map by (blast intro: inj_on_subset)
  qed
  have nn: "0 \<le> grant_val gs i" and tot: "(\<Sum>i \<in> ids_of (plan_prefills e is_prefilling). grant_val gs i) \<le> eff" for i
  proof -
    show "0 \<le> grant_val gs i"
    proof (cases "split_fair b \<and> map_option phase cad = Some Decode")
      case True
      then show ?thesis using O(3) f1(1) assms(9) by (auto simp: defer_for_decode_def grant_val_def)
    next
      case False
      then have "plan f e eff is_prefilling = Inr f'" using O(3) f1(1) by auto
      from plan_grants_ok [OF this assms(9,4) eff(1) assms(5,7)] show ?thesis by blast
    qed
    show "(\<Sum>i \<in> ids_of (plan_prefills e is_prefilling). grant_val gs i) \<le> eff"
    proof (cases "split_fair b \<and> map_option phase cad = Some Decode")
      case True
      then show ?thesis using O(3) f1(1) assms(9) eff(1) by (auto simp: defer_for_decode_def grant_val_def)
    next
      case False
      then have "plan f e eff is_prefilling = Inr f'" using O(3) f1(1) by auto
      from plan_grants_ok [OF this assms(9,4) eff(1) assms(5,7)]
      have D: "dom gs = ids_of (plan_prefills e is_prefilling)" and T: "sum (grant_val gs) (dom gs) \<le> eff" by blast+
      show ?thesis using T unfolding D .
    qed
  qed
  have lim: "prefill_limit b' e' r (offer r) \<le> grant_val gs (request_id r)" if "r \<in> ?A" for r
  proof -
    have "prefill_limit b' e' r (offer r) = fair_limit f' r (case cad of None \<Rightarrow> offer r | Some c \<Rightarrow> cad_limit c r (offer r))"
      using that eff O(1) f1(1) by (simp add: prefill_limit_def Let_def)
    then show ?thesis using assms(9) by (simp add: fair_limit_def grant_val_def min.coboundedI2 split: option.splits)
  qed
  have "(\<Sum>r \<in> ?A. prefill_limit b' e' r (offer r)) \<le> (\<Sum>r \<in> ?A. grant_val gs (request_id r))"
    by (rule sum_mono) (rule lim)
  also have "\<dots> \<le> (\<Sum>r \<in> set (plan_prefills e is_prefilling). grant_val gs (request_id r))"
    by (rule sum_mono2) (auto simp: nn)
  also have "\<dots> = (\<Sum>i \<in> ids_of (plan_prefills e is_prefilling). grant_val gs i)"
    unfolding ids_of_def set_map by (simp add: sum.reindex [OF inj])
  finally show ?thesis using tot eff f1(2) by linarith
qed

section \<open>Witnesses\<close>

definition demo_bridge :: "string \<Rightarrow> bridge" where
  "demo_bridge mode = \<lparr>br_scope = ''all'', br_override = ''/o.json'', cost_reload = False, costs_path = [], br_max_k = 7,
     br_max_requests = 6, br_requests = [1..6], br_ks = [1..7],
     br_policy = policy_new \<lparr>s_mode = mode, forced_k = 7, s_scope = ''all'', s_max_requests = 6, s_max_k = 7,
       capture_requests = Some [1..6], capture_ks = Some [1..7]\<rparr> None,
     br_stamp = None, last_poll = 0, br_decision = None, log_every = 0, br_step = 0, acceptance = [],
     scheduled_counts = [], prefill_requests = [], prefill_adaptive = True, br_cadence = Some (cadence_init (True, 0)),
     split_adaptive = False, runtime_prefill = False,
     br_fair = Some \<lparr>block_size = 2304, queue = [], deferred_long = {}, eligible_long = {}, grants = None,
           decode_reserved = 0, fair_reason = Off\<rparr>,
     split_fair = True, prefill_cap = 4608, adaptive_chunk = False, effective_cap = 4608\<rparr>"

definition demo_poll :: poll where
  "demo_poll = \<lparr>poll_now = 5, poll_stat = Inl OSError, poll_body = Inl OSError, poll_stat_after = Inl OSError,
     cost_absolute = False, cost_resolved = [], cost_stat = Inl OSError, cost_reading = Inl OSError,
     cost_resolved_after = [], cost_stat_after = Inl OSError\<rparr>"

lemma demo_poll_caught: "poll_errors_caught demo_poll"
  by (simp add: poll_errors_caught_def demo_poll_def raises_only_def caught_def)

lemma demo_bridge_settings:
  "settings_check \<lparr>s_mode = ''ema'', forced_k = 7, s_scope = ''all'', s_max_requests = 6, s_max_k = 7,
       capture_requests = Some [1..6], capture_ks = Some [1..7]\<rparr> = Inr ()"
  "settings_check \<lparr>s_mode = ''off'', forced_k = 7, s_scope = ''all'', s_max_requests = 6, s_max_k = 7,
       capture_requests = Some [1..6], capture_ks = Some [1..7]\<rparr> = Inr ()"
  by code_simp+

lemma demo_bridge_inv: "bridge_inv (demo_bridge ''ema'')"
proof -
  let ?S = "\<lparr>s_mode = ''ema'', forced_k = 7, s_scope = ''all'', s_max_requests = 6, s_max_k = 7,
       capture_requests = Some [1..6], capture_ks = Some [1..7]\<rparr>"
  have "policy_inv (policy_new ?S None)"
    unfolding policy_new_def by (intro reset_extension_inv core_new_inv demo_bridge_settings)
  moreover have "p_settings (main (policy_new ?S None)) = ?S"
    by (simp add: policy_new_def reset_extension_def core_new_def)
  ultimately show ?thesis using demo_bridge_settings(2)
    by (simp add: bridge_inv_def same_geometry_def make_settings_def demo_bridge_def)
qed

theorem refresh_fails_safe_witness:
  "\<exists>b'. refresh (demo_bridge ''ema'') demo_poll = Inr b' \<and> s_mode (p_settings (main (br_policy b'))) = ''off''"
proof -
  have d: "poll_due (demo_bridge ''ema'') demo_poll" by (simp add: poll_due_def demo_bridge_def demo_poll_def)
  have "try_refresh ((demo_bridge ''ema'')\<lparr>last_poll := poll_now demo_poll\<rparr>) demo_poll = Inl OSError"
    by (simp add: try_refresh_def demo_bridge_def demo_poll_def)
  with d refresh_fails_safe [OF demo_bridge_inv demo_poll_caught] show ?thesis by blast
qed

theorem select_trims_uniformly_witness:
  "\<exists>b' c d. select sum_list (demo_bridge ''ema'') demo_poll [(3, demo_request 3 100 100)] [(3, 8)] [3 \<mapsto> [1, 2, 3, 4, 5, 6, 7]] []
     = Inr (b', c, d) \<and> bridge_inv b'"
proof -
  have a: "distinct (map fst [(3 :: rid, 8 :: int)])" by simp
  have r: "\<forall>r \<in> fst ` set [(3 :: rid, 8 :: int)]. map_of [(3, demo_request 3 100 100)] r \<noteq> None" by simp
  have i: "\<not> idle_bridge (demo_bridge ''ema'')" by (simp add: idle_bridge_def demo_bridge_def)
  from select_trims_uniformly [OF demo_bridge_inv demo_poll_caught a r i] show ?thesis by blast
qed

definition demo_owed :: bridge where
  "demo_owed = (demo_bridge ''ema'')\<lparr>br_cadence := Some ((cadence_init (True, 0))\<lparr>owed_decode := {3}\<rparr>)\<rparr>"

theorem decode_turn_serves_only_decoders_witness:
  "\<exists>b'. order_running demo_owed demo_poll demo_single = Inr (b', demo_single)
     \<and> prefill_limit b' demo_single (demo_request 1 40000 4608) 4608 = 0"
proof -
  have m: "demo_request 1 40000 4608 \<in> set (running demo_single)" "distinct (map request_id (running demo_single))"
    by (simp_all add: demo_single_def demo_engine_def demo_request_def)
  have p: "is_prefilling (demo_request 1 40000 4608)" "\<not> is_prefilling (demo_request 3 100 100)"
    by (simp_all add: demo_request_def is_prefilling_def prefill_end_of_def)
  define c where "c = begin_turn ((cadence_init (True, 0))\<lparr>owed_decode := {3}\<rparr>) demo_single 4608 is_prefilling"
  have ph: "phase c = Decode"
    using p by (simp add: c_def begin_turn_def Let_def demo_single_def demo_engine_def ids_of_def cadence_init_def
        track_new_decoders_def decode_turn_def demo_request_def)
  let ?f = "\<lparr>block_size = 2304, queue = [], deferred_long = {}, eligible_long = {}, grants = None,
           decode_reserved = 0, fair_reason = Off\<rparr>"
  obtain b' where o: "order_running demo_owed demo_poll demo_single = Inr (b', demo_single)" "br_cadence b' = Some c"
    using p ph unfolding c_def
    by (simp add: order_running_def order_fair_def demo_owed_def demo_bridge_def Let_def chunk_cap_def speed_geometry_def demo_single_def demo_engine_def)
  have s: "\<not> runtime_prefill demo_owed" "split_fair demo_owed" "br_fair demo_owed = Some ?f"
    by (simp_all add: demo_owed_def demo_bridge_def)
  from decode_turn_serves_only_decoders [OF o(1) s o(2) ph m(2,1), of 4608] o(1) p show ?thesis by auto
qed

definition demo_fair_bridge :: bridge where
  "demo_fair_bridge = (demo_bridge ''ema'')\<lparr>br_cadence := None, br_fair := Some demo_fair, split_fair := False, prefill_cap := 2304\<rparr>"

theorem step_prefill_within_cap_witness:
  "\<exists>b'. order_running demo_fair_bridge demo_poll demo_pair = Inr (b', demo_pair)
     \<and> (\<Sum>r \<in> {r \<in> set (plan_prefills demo_pair is_prefilling). is_prefilling r}. prefill_limit b' demo_pair r 14336) \<le> 2304"
proof (rule demo_plan)
  fix f1 gs assume p: "plan demo_fair demo_pair 2304 is_prefilling = Inr f1" "grants f1 = Some gs"
  let ?b = "demo_fair_bridge\<lparr>effective_cap := 2304, br_cadence := None, br_fair := Some f1\<rparr>"
  have s: "\<not> runtime_prefill demo_fair_bridge" "br_fair demo_fair_bridge = Some demo_fair" "prefill_cap demo_fair_bridge = 2304"
    "adaptive_chunk demo_fair_bridge = False" "split_fair demo_fair_bridge = False" "br_cadence demo_fair_bridge = None" "br_max_requests demo_fair_bridge = 6"
    "effective_cap ?b = 2304" "br_fair ?b = Some f1"
    by (simp_all add: demo_fair_bridge_def demo_bridge_def)
  have c: "chunk_cap 2304 (int (length (filter (\<lambda>q. \<not> is_prefilling q) (running demo_pair)))) False 6 = Inr 2304"
    by (simp add: chunk_cap_def speed_geometry_def demo_pair_def demo_engine_def demo_request_def is_prefilling_def prefill_end_of_def)
  have o: "order_running demo_fair_bridge demo_poll demo_pair = Inr (?b, demo_pair)"
    unfolding order_running_def order_fair_def using s c p(1) by (simp add: Let_def)
  have d: "distinct (queue demo_fair)" "0 < block_size demo_fair" by (simp_all add: demo_fair_def)
  from step_prefill_within_cap [OF o s(1,2) d(2,1) _ _ s(9) p(2), of "\<lambda>_. 14336"] demo_pair_distinct s(3,8) o
  show ?thesis by auto
qed

end
