(* ===== verification/Bridge_Startup.thy ===== *)
theory Bridge_Startup
  imports Speedup_Bridge
begin

text \<open>
  How the scheduler bridge is built at boot (\<open>SchedulerBridge.__init__\<close> of
  \<open>src/src/tp4/glm53_speedup/scheduler.py\<close>): the selectors of the environment, the engine configuration they are
  checked against, and which combinations are refused. The environment is a function from names to values.
  The engine configuration is a record of what the constructor reads; an optional field stands for a
  \<open>getattr\<close> with a default. \<open>table\<close> is what reading and decoding the static cost file gives.
\<close>

section \<open>Environment values\<close>

text \<open>A selector that must be \<open>0\<close> or \<open>1\<close>.\<close>

definition env_switch :: "environ \<Rightarrow> string \<Rightarrow> bool py" where
  "env_switch env key =
     py_guard (env_get env key ''0'' \<notin> {''0'', ''1''}) ValueError (Inr (env_get env key ''0'' = ''1''))"

section \<open>The engine configuration\<close>

record engine_config =
  ec_spec_tokens :: int
  ec_max_running :: int
  ec_block_size :: int
  ec_max_num_seqs :: "int option"
  ec_cfg_spec_tokens :: "int option"
  ec_v2_runner :: bool
  ec_tp :: int
  ec_pp :: int
  ec_dp :: "int option"
  ec_async :: "bool option"
  ec_sampled_per_step :: int
  ec_speculative :: "(string \<times> string list) option"
  ec_dynamic_sd :: bool
  ec_policy :: "string option"
  ec_mamba_split :: bool
  ec_max_batched :: int
  ec_connectors :: bool
  ec_encoder_decoder :: bool
  ec_lora :: bool

definition or_else :: "'a option \<Rightarrow> 'a \<Rightarrow> 'a" where
  "or_else v d = (case v of None \<Rightarrow> d | Some x \<Rightarrow> x)"

definition needs_geometry :: "environ \<Rightarrow> string \<Rightarrow> string \<Rightarrow> bool" where
  "needs_geometry env scope mode \<longleftrightarrow>
     scope \<noteq> ''off'' \<or> mode \<noteq> ''off'' \<or> env_get env ''GLM53_SPEEDUP_GEOMETRY'' ''0'' \<noteq> ''0''
     \<or> list_ex (\<lambda>key. env_get env key ''0'' \<noteq> ''0'')
         [''GLM53_SPEEDUP_MIXED_PREFILL'', ''GLM53_SPEEDUP_MIXED_PREFILL_RUNTIME'', ''GLM53_SPEEDUP_MIXED_PREFILL_FAIR'',
          ''GLM53_SPEEDUP_SPLIT_CADENCE'', ''GLM53_SPEEDUP_SPLIT_FAIR'']"

text \<open>The checks an enabled bridge makes of the engine.\<close>

definition enabled_checks :: "environ \<Rightarrow> engine_config \<Rightarrow> int \<Rightarrow> int \<Rightarrow> bool \<Rightarrow> unit py" where
  "enabled_checks env ec mr mk fair =
     py_bind (runtime_geometry (env ''GLM53_SPEEDUP_GEOMETRY'') mr mk) (\<lambda>_.
       py_guard (or_else (ec_max_num_seqs ec) mr \<noteq> mr \<or> or_else (ec_cfg_spec_tokens ec) mk \<noteq> mk) ValueError
         (py_guard (\<not> ec_v2_runner ec \<or> ec_tp ec \<notin> {2, 4} \<or> ec_pp ec \<noteq> 1 \<or> or_else (ec_async ec) False
              \<or> ec_sampled_per_step ec \<noteq> 1) ValueError
           (py_guard (case ec_speculative ec of None \<Rightarrow> True
                | Some (speculator, archs) \<Rightarrow> speculator \<noteq> ''dflash'' \<or> ''DFlash2DraftModel'' \<notin> set archs) ValueError
             (py_guard (ec_dynamic_sd ec) ValueError
               (py_guard (fair \<and> or_else (ec_policy ec) '''' \<noteq> ''FCFS'') ValueError
                 (py_guard (fair \<and> \<not> ec_mamba_split ec) ValueError (Inr ())))))))"

definition split_checks :: "engine_config \<Rightarrow> unit py" where
  "split_checks ec =
     py_guard (ec_tp ec \<notin> {2, 4} \<or> or_else (ec_dp ec) 1 \<noteq> 1 \<or> or_else (ec_policy ec) '''' \<noteq> ''FCFS''
       \<or> \<not> ec_mamba_split ec \<or> ec_block_size ec \<noteq> (if ec_tp ec = 2 then 4608 else 2304)
       \<or> ec_max_batched ec \<noteq> 14336 \<or> ec_connectors ec \<or> ec_encoder_decoder ec \<or> ec_lora ec) ValueError (Inr ())"

text \<open>The static cost table of a bridge without cost reload.\<close>

definition static_costs :: "environ \<Rightarrow> json py \<Rightarrow> cost_table py" where
  "static_costs env table =
     py_bind table (\<lambda>document.
       case document of
         JObj d \<Rightarrow>
           (let identity = env_get env ''GLM53_SPEEDUP_COST_IDENTITY'' '''';
                table_identity = json_get d ''compatibility_identity'' (json_get d ''runtime_identity'' JNull)
            in py_guard (identity = [] \<or> table_identity \<noteq> JStr identity) ValueError (from_document document False))
       | _ \<Rightarrow> Inl AttributeError)"

section \<open>The constructor\<close>

text \<open>The scope, the mode and the captured geometry, as the settings of the first policy.\<close>

definition boot_settings :: "environ \<Rightarrow> engine_config \<Rightarrow> settings py" where
  "boot_settings env ec =
     (let scope = env_get env ''GLM53_SPEEDUP_CAPTURE'' ''off'';
          reload = (env_get env ''GLM53_SPEEDUP_COST_RELOAD'' ''0'' = ''1'');
          mode0 = env_get env ''GLM53_SPEEDUP_MODE'' ''off'';
          mode = (if reload \<and> mode0 = ''cost'' then ''off'' else mode0);
          geo = needs_geometry env scope mode;
          mk = (if geo then ec_spec_tokens ec else 4);
          mr = (if geo then ec_max_running ec else 6)
      in py_bind (capture_axes_from_env (env ''GLM53_SPEEDUP_CAPTURE_REQUESTS'') (env ''GLM53_SPEEDUP_CAPTURE_KS'') mr mk) (\<lambda>(rs, kk).
         py_bind (env_int env ''GLM53_SPEEDUP_K'' mk) (\<lambda>k.
         let S = \<lparr>s_mode = mode, forced_k = k, s_scope = scope, s_max_requests = mr, s_max_k = mk,
                  capture_requests = Some rs, capture_ks = Some kk\<rparr> in
         py_bind (settings_check S) (\<lambda>_. Inr S))))"

definition boot_fair :: "environ \<Rightarrow> engine_config \<Rightarrow> fair option py" where
  "boot_fair env ec =
     (if env_get env ''GLM53_SPEEDUP_MIXED_PREFILL_FAIR'' ''0'' = ''1''
      then py_bind (fair_init (ec_block_size ec)) (\<lambda>f. Inr (Some f)) else Inr None)"

definition fair_cap_check :: "fair option \<Rightarrow> int \<Rightarrow> unit py" where
  "fair_cap_check fair c = (case fair of None \<Rightarrow> Inr () | Some f \<Rightarrow> validate_cap f c)"

text \<open>The bridge before its checks against the engine.\<close>

definition bridge_parse :: "environ \<Rightarrow> engine_config \<Rightarrow> bool \<times> nat \<Rightarrow> bridge py" where
  "bridge_parse env ec sel =
     py_bind (boot_settings env ec) (\<lambda>S.
     py_bind (env_int env ''GLM53_SPEEDUP_LOG_EVERY'' 0) (\<lambda>every.
     py_bind (env_int env ''GLM53_SPEEDUP_BOUNDARY_TRACE_MAX'' 512) (\<lambda>trace_max.
     py_guard (trace_max \<le> 0) ValueError
     (py_bind (env_switch env ''GLM53_SPEEDUP_PREFILL_ADAPTIVE'') (\<lambda>composition.
     py_bind (env_switch env ''GLM53_SPEEDUP_SPLIT_CADENCE'') (\<lambda>split.
     py_bind (env_switch env ''GLM53_SPEEDUP_SPLIT_ADAPTIVE'') (\<lambda>adaptive.
     py_guard (adaptive \<and> \<not> split) ValueError
     (py_bind (boot_fair env ec) (\<lambda>fair.
     py_bind (env_switch env ''GLM53_SPEEDUP_SPLIT_FAIR'') (\<lambda>both.
     py_bind (env_int env ''GLM53_SPEEDUP_MIXED_PREFILL'' 0) (\<lambda>c.
     py_guard (c \<notin> prefill_caps) ValueError
     (py_bind (fair_cap_check fair c) (\<lambda>_.
     Inr \<lparr>br_scope = s_scope S, br_override = env_get env ''GLM53_SPEEDUP_OVERRIDE'' '''',
          cost_reload = (env_get env ''GLM53_SPEEDUP_COST_RELOAD'' ''0'' = ''1''),
          costs_path = env_get env ''GLM53_SPEEDUP_COSTS'' '''', br_max_k = s_max_k S, br_max_requests = s_max_requests S,
          br_requests = the (capture_requests S), br_ks = the (capture_ks S), br_policy = policy_new S None,
          br_stamp = None, last_poll = 0, br_decision = None, log_every = every, br_step = 0, acceptance = [],
          scheduled_counts = [], prefill_requests = [], prefill_adaptive = composition,
          br_cadence = (if split then Some (cadence_init sel) else None), split_adaptive = adaptive,
          runtime_prefill = (env_get env ''GLM53_SPEEDUP_MIXED_PREFILL_RUNTIME'' ''0'' = ''1''), br_fair = fair,
          split_fair = both, prefill_cap = c, adaptive_chunk = False, effective_cap = c\<rparr>)))))))))))))"

definition bridge_enabled :: "bridge \<Rightarrow> bool" where
  "bridge_enabled b \<longleftrightarrow> br_scope b \<noteq> ''off'' \<or> prefill_cap b \<noteq> 0 \<or> runtime_prefill b \<or> br_fair b \<noteq> None
     \<or> br_cadence b \<noteq> None \<or> split_fair b"

definition adaptive_checks :: "bridge \<Rightarrow> unit py" where
  "adaptive_checks b =
     py_guard (adaptive_chunk b \<and> (\<not> split_fair b \<or> br_fair b = None \<or> runtime_prefill b \<or> prefill_cap b \<noteq> 4608)) ValueError
       (if adaptive_chunk b then fair_cap_check (br_fair b) 2304 else Inr ())"

definition load_static :: "environ \<Rightarrow> json py \<Rightarrow> bridge \<Rightarrow> bridge py" where
  "load_static env table b =
     (if costs_path b \<noteq> [] \<and> \<not> cost_reload b
      then py_bind (static_costs env table) (\<lambda>ct.
             Inr (b\<lparr>br_policy := (br_policy b)\<lparr>main := (main (br_policy b))\<lparr>p_costs := Some ct\<rparr>\<rparr>\<rparr>))
      else Inr b)"

definition bridge_new :: "environ \<Rightarrow> engine_config \<Rightarrow> bool \<times> nat \<Rightarrow> json py \<Rightarrow> bridge py" where
  "bridge_new env ec sel table =
     py_bind (bridge_parse env ec sel) (\<lambda>b.
     py_bind (if bridge_enabled b then enabled_checks env ec (br_max_requests b) (br_max_k b) (br_fair b \<noteq> None) else Inr ()) (\<lambda>_.
     py_bind (if br_cadence b \<noteq> None \<or> split_fair b then split_checks ec else Inr ()) (\<lambda>_.
     py_bind (validate_prefill_adaptive b (p_settings (main (br_policy b))) (prefill_cap b)) (\<lambda>_.
     py_bind (env_switch env ''GLM53_ADAPTIVE_FAIR_CHUNK'') (\<lambda>chunk.
     py_bind (adaptive_checks (b\<lparr>adaptive_chunk := chunk\<rparr>)) (\<lambda>_.
     load_static env table (b\<lparr>adaptive_chunk := chunk\<rparr>)))))))"

section \<open>What a started bridge satisfies\<close>

lemma settings_off_ok:
  assumes "settings_check S = Inr ()"
  shows "settings_check (S\<lparr>s_mode := ''off'', forced_k := s_max_k S\<rparr>) = Inr ()"
  using assms settings_captured_ks(3) [OF assms]
  by (auto simp: settings_check_def settings_axes_def speed_geometry_def geometry_ks_def)

definition startup_consistent :: "bridge \<Rightarrow> bool" where
  "startup_consistent b \<longleftrightarrow>
     prefill_cap b \<in> prefill_caps \<and> effective_cap b = prefill_cap b
     \<and> (\<forall>f. br_fair b = Some f \<longrightarrow> queue f = [] \<and> grants f = None \<and> 0 < block_size f \<and> validate_cap f (prefill_cap b) = Inr ())
     \<and> (split_fair b \<longrightarrow> br_fair b \<noteq> None \<and> prefill_cap b = 4608 \<and> br_scope b = ''all'' \<and> \<not> runtime_prefill b \<and> \<not> costs_in_play b)
     \<and> (br_cadence b \<noteq> None \<longrightarrow> prefill_cap b = 4608 \<and> \<not> runtime_prefill b \<and> \<not> costs_in_play b)
     \<and> (adaptive_chunk b \<longrightarrow> split_fair b \<and> (\<exists>f. br_fair b = Some f \<and> validate_cap f 2304 = Inr ()))
     \<and> 1 \<le> br_max_requests b \<and> br_max_requests b \<le> 16"

lemma bridge_parse_ok:
  assumes "bridge_parse env ec sel = Inr b"
  shows "bridge_inv b" "prefill_cap b \<in> prefill_caps" "effective_cap b = prefill_cap b" "\<not> adaptive_chunk b"
    "\<forall>f. br_fair b = Some f \<longrightarrow> queue f = [] \<and> grants f = None \<and> 0 < block_size f \<and> validate_cap f (prefill_cap b) = Inr ()"
    "1 \<le> br_max_requests b" "br_max_requests b \<le> 16"
proof -
  obtain S where S': "boot_settings env ec = Inr S" and b: "br_policy b = policy_new S None"
      "br_scope b = s_scope S" "br_max_k b = s_max_k S" "br_max_requests b = s_max_requests S"
      "br_requests b = the (capture_requests S)" "br_ks b = the (capture_ks S)"
    and r: "prefill_cap b \<in> prefill_caps" "effective_cap b = prefill_cap b" "\<not> adaptive_chunk b"
      "boot_fair env ec = Inr (br_fair b)" "fair_cap_check (br_fair b) (prefill_cap b) = Inr ()"
    using assms unfolding bridge_parse_def py_bind_Inr py_guard_Inr by clarsimp
  have S: "settings_check S = Inr ()" and cap: "capture_requests S \<noteq> None" "capture_ks S \<noteq> None"
    using S' unfolding boot_settings_def Let_def py_bind_Inr split_paired_Ex case_prod_conv by auto
  have b0: "same_geometry b S" using b cap by (simp add: same_geometry_def)
  have fair: "fair_init (ec_block_size ec) = Inr f \<and> validate_cap f (prefill_cap b) = Inr ()" if "br_fair b = Some f" for f
    using r(4,5) that unfolding boot_fair_def fair_cap_check_def by (auto split: if_splits)
  show "prefill_cap b \<in> prefill_caps" "effective_cap b = prefill_cap b" "\<not> adaptive_chunk b" by (fact r(1), fact r(2), fact r(3))
  show "\<forall>f. br_fair b = Some f \<longrightarrow> queue f = [] \<and> grants f = None \<and> 0 < block_size f \<and> validate_cap f (prefill_cap b) = Inr ()"
    using fair by (auto simp: fair_init_def)
  have s: "p_settings (main (policy_new S None)) = S"
    by (simp add: policy_new_def reset_extension_def core_new_def)
  have "make_settings b ''off'' (br_max_k b) = S\<lparr>s_mode := ''off'', forced_k := s_max_k S\<rparr>"
    using b0 by (simp add: make_settings_def same_geometry_def)
  then have "settings_check (make_settings b ''off'' (br_max_k b)) = Inr ()" using settings_off_ok [OF S] by simp
  moreover have "policy_inv (policy_new S None)" unfolding policy_new_def by (intro reset_extension_inv core_new_inv S)
  ultimately show "bridge_inv b" using b0 b(1) s by (simp add: bridge_inv_def)
  show "1 \<le> br_max_requests b" "br_max_requests b \<le> 16" using settings_ok [OF S] b0 by (metis same_geometry_def)+
qed

lemma adaptive_update: "startup_consistent (b\<lparr>br_policy := p\<rparr>) = startup_consistent b"
  by (simp add: startup_consistent_def costs_in_play_def)

lemma costs_inv: "policy_inv (p\<lparr>main := (main p)\<lparr>p_costs := c\<rparr>\<rparr>) = policy_inv p"
  by (cases "extension p") (auto simp: policy_inv_def core_inv_def)

text \<open>
  C25. A bridge that constructs from an environment and an engine configuration is well formed
  and consistent: its cap is one of the five and a multiple of the block size under fair
  prefill, the split/fair and cadence arms have the static 4608 cap and no costs, and the
  adaptive chunk runs only on a valid split/fair arm.
\<close>

theorem startup_establishes_invariant:
  assumes "bridge_new env ec sel table = Inr b"
  shows "bridge_inv b \<and> startup_consistent b"
proof -
  obtain b0 where b0: "bridge_parse env ec sel = Inr b0" by (use assms in \<open>auto simp: bridge_new_def\<close>)
  obtain chunk u v where c: "validate_prefill_adaptive b0 (p_settings (main (br_policy b0))) (prefill_cap b0) = Inr u"
    "adaptive_checks (b0\<lparr>adaptive_chunk := chunk\<rparr>) = Inr v" "load_static env table (b0\<lparr>adaptive_chunk := chunk\<rparr>) = Inr b"
    using assms unfolding bridge_new_def b0 py_bind_simps py_bind_Inr by blast
  let ?b1 = "b0\<lparr>adaptive_chunk := chunk\<rparr>"
  note p = bridge_parse_ok [OF b0]
  have i1: "bridge_inv ?b1" using p(1) by (simp add: bridge_inv_def same_geometry_def make_settings_def)
  have v: "split_fair b0 \<longrightarrow> br_fair b0 \<noteq> None \<and> prefill_cap b0 = 4608 \<and> br_scope b0 = ''all'' \<and> \<not> runtime_prefill b0 \<and> \<not> costs_in_play b0"
    "br_cadence b0 \<noteq> None \<longrightarrow> prefill_cap b0 = 4608 \<and> \<not> runtime_prefill b0 \<and> \<not> costs_in_play b0"
  proof -
    note c2 = c(1) [unfolded validate_prefill_adaptive_def Let_def]
    have sf: "br_fair b0 \<noteq> None \<and> prefill_cap b0 = 4608 \<and> br_scope b0 = ''all'' \<and> \<not> runtime_prefill b0 \<and> \<not> costs_in_play b0"
      if "split_fair b0" using c2 by (simp only: that if_True py_guard_Inr) (drule conjunct1, simp only: de_Morgan_disj not_not simp_thms)
    then show "split_fair b0 \<longrightarrow> br_fair b0 \<noteq> None \<and> prefill_cap b0 = 4608 \<and> br_scope b0 = ''all'' \<and> \<not> runtime_prefill b0 \<and> \<not> costs_in_play b0" ..
    have cd: "prefill_cap b0 = 4608 \<and> \<not> runtime_prefill b0 \<and> \<not> costs_in_play b0"
      if "\<not> split_fair b0" "br_cadence b0 \<noteq> None"
    proof (cases "split_adaptive b0")
      case True
      then show ?thesis using c2 by (simp only: that if_True if_False simp_thms py_guard_Inr) (drule conjunct1, simp only: de_Morgan_disj not_not simp_thms)
    next
      case False
      then show ?thesis using c2 by (simp only: that if_True if_False simp_thms py_guard_Inr) (drule conjunct1, simp only: de_Morgan_disj not_not simp_thms)
    qed
    show "br_cadence b0 \<noteq> None \<longrightarrow> prefill_cap b0 = 4608 \<and> \<not> runtime_prefill b0 \<and> \<not> costs_in_play b0" using sf cd by blast
  qed
  have a: "chunk \<longrightarrow> split_fair b0 \<and> (\<exists>f. br_fair b0 = Some f \<and> validate_cap f 2304 = Inr ())"
    using c(2) unfolding adaptive_checks_def fair_cap_check_def by (cases chunk; cases "br_fair b0") simp_all
  have s1: "startup_consistent ?b1" using p(2-) v a by (simp add: startup_consistent_def costs_in_play_def)
  show ?thesis
  proof (cases "b = ?b1")
    case True
    then show ?thesis using i1 s1 by simp
  next
    case False
    then obtain ct where b: "b = ?b1\<lparr>br_policy := (br_policy ?b1)\<lparr>main := (main (br_policy ?b1))\<lparr>p_costs := Some ct\<rparr>\<rparr>\<rparr>"
      using c(3) unfolding load_static_def py_bind_Inr by (cases "costs_path ?b1 \<noteq> [] \<and> \<not> cost_reload ?b1") auto
    have "bridge_inv b" using i1 unfolding b by (simp add: bridge_inv_def costs_inv same_geometry_def make_settings_def)
    then show ?thesis using s1 unfolding b adaptive_update by simp
  qed
qed

definition plain_settings :: settings where
  "plain_settings = \<lparr>s_mode = ''off'', forced_k = 4, s_scope = ''off'', s_max_requests = 6, s_max_k = 4,
     capture_requests = Some [1..6], capture_ks = Some [1..4]\<rparr>"

definition plain_bridge :: bridge where
  "plain_bridge = \<lparr>br_scope = ''off'', br_override = [], cost_reload = False, costs_path = [], br_max_k = 4,
     br_max_requests = 6, br_requests = [1..6], br_ks = [1..4], br_policy = policy_new plain_settings None,
     br_stamp = None, last_poll = 0, br_decision = None, log_every = 0, br_step = 0, acceptance = [],
     scheduled_counts = [], prefill_requests = [], prefill_adaptive = False, br_cadence = None, split_adaptive = False,
     runtime_prefill = False, br_fair = None, split_fair = False, prefill_cap = 0, adaptive_chunk = False, effective_cap = 0\<rparr>"

lemma plain_axes: "capture_axes 6 4 None None = Inr ([1..6], [1..4])"
  by (simp add: capture_axes_def speed_geometry_def capture_axis_def)

lemma plain_settings_ok: "settings_check plain_settings = Inr ()"
  by code_simp

lemma unset_boot: "boot_settings (\<lambda>_. None) ec = Inr plain_settings"
  using plain_settings_ok [unfolded plain_settings_def]
  by (simp add: boot_settings_def Let_def env_get_def needs_geometry_def capture_axes_from_env_def read_axis_def plain_axes
      env_int_def plain_settings_def)

lemma unset_bridge: "bridge_new (\<lambda>_. None) ec sel table = Inr plain_bridge"
proof -
  have p: "bridge_parse (\<lambda>_. None) ec sel = Inr plain_bridge"
    unfolding bridge_parse_def unset_boot
    by (simp add: env_int_def env_switch_def env_get_def boot_fair_def fair_cap_check_def prefill_caps_def
        plain_bridge_def plain_settings_def)
  have v: "validate_prefill_adaptive plain_bridge (p_settings (main (br_policy plain_bridge))) (prefill_cap plain_bridge) = Inr ()"
    by (simp add: validate_prefill_adaptive_def plain_bridge_def)
  have s: "\<not> bridge_enabled plain_bridge" "br_cadence plain_bridge = None" "\<not> split_fair plain_bridge"
    "plain_bridge\<lparr>adaptive_chunk := False\<rparr> = plain_bridge" "\<not> adaptive_chunk plain_bridge" "costs_path plain_bridge = []"
    by (simp_all add: bridge_enabled_def plain_bridge_def)
  show ?thesis unfolding bridge_new_def p by (simp add: s v env_switch_def env_get_def adaptive_checks_def load_static_def)
qed

text \<open>
  With no variable set the bridge constructs for every engine and changes nothing: the
  running order, every limit, every deferral and the counts and drafts of a step stay as they
  are.
\<close>

theorem unset_environment_is_inert:
  "\<exists>b. bridge_new (\<lambda>_. None) ec sel table = Inr b \<and> order_running b io e = Inr (b, e)
     \<and> prefill_limit b e r n = n \<and> alignment_limit b e r n = n \<and> \<not> defer_waiting b r
     \<and> select fsum b io reqs cnts drafts preempted = Inr (b, cnts, drafts)"
proof (intro exI [of _ plain_bridge] conjI unset_bridge)
  have f: "runtime_prefill plain_bridge = False" "br_fair plain_bridge = None" "prefill_cap plain_bridge = 0"
    "br_cadence plain_bridge = None" "plain_bridge\<lparr>br_cadence := None\<rparr> = plain_bridge"
    "plain_bridge\<lparr>br_cadence := None, br_fair := None\<rparr> = plain_bridge" "plain_bridge\<lparr>br_fair := None\<rparr> = plain_bridge" "idle_bridge plain_bridge"
    by (simp_all add: plain_bridge_def idle_bridge_def)
  show "order_running plain_bridge io e = Inr (plain_bridge, e)" by (simp add: order_running_def f)
  show l: "prefill_limit plain_bridge e r n = n" by (simp add: prefill_limit_def f)
  show "alignment_limit plain_bridge e r n = n" by (simp add: alignment_limit_def l)
  show "\<not> defer_waiting plain_bridge r" by (simp add: defer_waiting_def f)
  show "select fsum plain_bridge io reqs cnts drafts preempted = Inr (plain_bridge, cnts, drafts)"
  proof -
    have "observe_step plain_bridge cnts = plain_bridge" by (simp add: observe_step_def f)
    then show ?thesis by (simp only: select_def Let_def f if_True)
  qed
qed

section \<open>A production configuration\<close>

definition prod_env :: environ where
  "prod_env = [''GLM53_SPEEDUP_CAPTURE'' \<mapsto> ''all'', ''GLM53_SPEEDUP_MODE'' \<mapsto> ''ema'', ''GLM53_SPEEDUP_GEOMETRY'' \<mapsto> ''1'',
     ''GLM53_SPEEDUP_MIXED_PREFILL'' \<mapsto> ''4608'', ''GLM53_SPEEDUP_MIXED_PREFILL_FAIR'' \<mapsto> ''1'',
     ''GLM53_SPEEDUP_SPLIT_CADENCE'' \<mapsto> ''1'', ''GLM53_SPEEDUP_SPLIT_FAIR'' \<mapsto> ''1'',
     ''GLM53_SPEEDUP_PREFILL_ADAPTIVE'' \<mapsto> ''1'', ''GLM53_ADAPTIVE_FAIR_CHUNK'' \<mapsto> ''1'']"

definition prod_engine :: engine_config where
  "prod_engine = \<lparr>ec_spec_tokens = 7, ec_max_running = 6, ec_block_size = 2304, ec_max_num_seqs = Some 6,
     ec_cfg_spec_tokens = Some 7, ec_v2_runner = True, ec_tp = 4, ec_pp = 1, ec_dp = Some 1, ec_async = None,
     ec_sampled_per_step = 1, ec_speculative = Some (''dflash'', [''DFlash2DraftModel'']), ec_dynamic_sd = False,
     ec_policy = Some ''FCFS'', ec_mamba_split = True, ec_max_batched = 14336, ec_connectors = False,
     ec_encoder_decoder = False, ec_lora = False\<rparr>"

definition started :: "bridge py \<Rightarrow> bool" where
  "started r = (case r of Inl _ \<Rightarrow> False | Inr b \<Rightarrow> adaptive_chunk b)"

lemma prod_starts: "started (bridge_new prod_env prod_engine (True, 0) (Inl OSError))"
  by code_simp

theorem startup_establishes_invariant_witness:
  "\<exists>b. bridge_new prod_env prod_engine (True, 0) (Inl OSError) = Inr b \<and> adaptive_chunk b \<and> prefill_cap b = 4608"
proof -
  obtain b where b: "bridge_new prod_env prod_engine (True, 0) (Inl OSError) = Inr b" "adaptive_chunk b"
    using prod_starts by (auto simp: started_def split: sum.splits)
  with startup_establishes_invariant [OF b(1)] show ?thesis by (auto simp: startup_consistent_def)
qed

end
