(* ===== verification/Kda_Checkpoint.thy ===== *)
theory Kda_Checkpoint
  imports Ringside_Prelude
begin

text \<open>
  Where a prefill chunk ends and which recurrent states it exports from inside:
  \<open>src/src/tp4/glm53_kda_ckpt_plan.py\<close> (exports on the block grid) and the policy half of
  \<open>src/src/tp4/glm53_replay_boundary.py\<close> (the boundary a replay of the prompt can hit, and the plan that
  also exports there). A plan is a start, an end and the exported positions.
\<close>

section \<open>Block-grid plans\<close>

definition CHUNK_TOKENS :: int where "CHUNK_TOKENS = 16"

type_synonym ckpt_plan = "int \<times> int \<times> int list"

text \<open>The stops inside the chunk in order: \<open>sorted({int(s) for s in stops if start < s < end})\<close>.\<close>

definition inner_stops :: "int \<Rightarrow> int \<Rightarrow> int list \<Rightarrow> int list" where
  "inner_stops start fin stops = sort (remdups (filter (\<lambda>s. start < s \<and> s < fin) stops))"

text \<open>The loop over the stops: an exportable stop is collected, the first other one ends the chunk.\<close>

fun walk_stops :: "(int \<Rightarrow> bool) \<Rightarrow> nat \<Rightarrow> int \<Rightarrow> int list \<Rightarrow> int list \<Rightarrow> int \<times> int list" where
  "walk_stops exportable max_exports fin exports [] = (fin, exports)"
| "walk_stops exportable max_exports fin exports (stop # stops) =
     (if exportable stop \<and> length exports < max_exports
      then walk_stops exportable max_exports fin (exports @ [stop]) stops
      else (stop, exports))"

definition on_tile :: "int \<Rightarrow> int \<Rightarrow> bool" where
  "on_tile start p \<longleftrightarrow> (p - start) mod CHUNK_TOKENS = 0"

definition plan_chunk :: "int \<Rightarrow> int \<Rightarrow> int list \<Rightarrow> int \<Rightarrow> nat \<Rightarrow> (int \<times> int list) py" where
  "plan_chunk start fin stops grid max_exports =
     py_guard (grid \<le> 0 \<or> grid mod CHUNK_TOKENS \<noteq> 0) ValueError
       (Inr (walk_stops (\<lambda>s. s mod grid = 0 \<and> on_tile start s) max_exports fin [] (inner_stops start fin stops)))"

definition column :: "int \<Rightarrow> int \<Rightarrow> int" where
  "column block_size p = cdiv p block_size - 1"

definition validate_plan :: "ckpt_plan \<Rightarrow> int \<Rightarrow> ckpt_plan py" where
  "validate_plan pl block_size =
     (case pl of (start, fin, exports) \<Rightarrow>
        py_guard (\<not> (0 \<le> start \<and> start < fin) \<or> start mod CHUNK_TOKENS \<noteq> 0) ValueError
          (py_guard (exports = [] \<or> exports \<noteq> sort (remdups exports)) ValueError
            (py_guard (block_size = 0) ZeroDivisionError
              (let columns = map (column block_size) exports in
               py_guard (list_ex (\<lambda>p. \<not> (start < p \<and> p < fin) \<or> \<not> on_tile start p) exports) ValueError
                 (py_guard (\<not> distinct columns \<or> column block_size fin \<in> set columns) ValueError
                   (Inr (start, fin, exports)))))))"

definition export_columns :: "ckpt_plan \<Rightarrow> int \<Rightarrow> int list py" where
  "export_columns pl block_size =
     py_bind (validate_plan pl block_size) (\<lambda>(_, _, exports). Inr (map (column block_size) exports))"

text \<open>The worker's rows: \<open>plans\<close> is the dictionary in its order, \<open>req_ids\<close> the batch.\<close>

definition row_index :: "'r list \<Rightarrow> 'r \<Rightarrow> nat option" where
  "row_index req_ids rid = map_of (rev (zip req_ids [0..<length req_ids])) rid"

fun rows_fill :: "'r list \<Rightarrow> int list \<Rightarrow> int list \<Rightarrow> ckpt_plan option list \<Rightarrow> ('r \<times> ckpt_plan) list \<Rightarrow> ckpt_plan option list py" where
  "rows_fill req_ids computed scheduled rows [] = Inr rows"
| "rows_fill req_ids computed scheduled rows ((rid, (start, fin, exports)) # plans) =
     (case row_index req_ids rid of
        None \<Rightarrow> Inl ValueError
      | Some i \<Rightarrow>
          py_guard (length computed \<le> i \<or> computed ! i = start \<and> length scheduled \<le> i) IndexError
            (py_guard (computed ! i \<noteq> start \<or> scheduled ! i \<noteq> fin - start) ValueError
              (rows_fill req_ids computed scheduled (rows[i := Some (start, fin, exports)]) plans)))"

definition rows_for_batch :: "('r \<times> ckpt_plan) list \<Rightarrow> 'r list \<Rightarrow> int list \<Rightarrow> int list \<Rightarrow> ckpt_plan option list py" where
  "rows_for_batch plans req_ids computed scheduled =
     rows_fill req_ids computed scheduled (replicate (length req_ids) None) plans"

section \<open>The replay boundary\<close>

definition replay_boundary :: "int \<Rightarrow> int \<Rightarrow> int py" where
  "replay_boundary num_prompt unit =
     py_guard (unit \<le> 0) ValueError (Inr (max 0 ((num_prompt - 1) div unit * unit - unit)))"

record boundary =
  b_tokens :: int
  b_stop :: int

text \<open>What the decision reads of the scheduler and of the request.\<close>

record rb_scheduler =
  rb_on :: bool
  rb_block_size :: int
  hash_block_size :: int

record rb_request =
  rb_output_tokens :: int
  rb_tokens :: int
  rb_prompt_tokens :: int
  rb_encoder_inputs :: bool
  rb_boundary :: "int option"

text \<open>The request is returned with the boundary the managers read from it.\<close>

definition request_boundary ::
  "rb_scheduler \<Rightarrow> rb_request \<Rightarrow> int \<Rightarrow> int \<Rightarrow> int \<Rightarrow> (rb_request \<times> boundary option) py" where
  "request_boundary s r block_size last_cache external =
     (if \<not> rb_on s then Inr (r, None)
      else if block_size \<noteq> rb_block_size s \<or> external \<noteq> 0 \<or> rb_output_tokens r \<noteq> 0
        \<or> rb_tokens r \<noteq> rb_prompt_tokens r \<or> rb_encoder_inputs r then Inr (r, None)
      else py_bind (replay_boundary (rb_prompt_tokens r) (hash_block_size s)) (\<lambda>tokens.
        if tokens \<le> 0 then Inr (r, None)
        else Inr (r\<lparr>rb_boundary := Some tokens\<rparr>,
               Some \<lparr>b_tokens = tokens,
                     b_stop = (if last_cache < tokens \<and> tokens < rb_prompt_tokens r then tokens else 0)\<rparr>)))"

definition boundary_clash :: "int \<Rightarrow> int \<Rightarrow> int \<Rightarrow> int list \<Rightarrow> bool" where
  "boundary_clash grid bnd stop_at exports \<longleftrightarrow>
     bnd \<in> set exports \<and>
       (column grid bnd = column grid stop_at
        \<or> 1 < length (filter (\<lambda>c. c = column grid bnd) (map (column grid) exports)))"

definition plan_chunk_boundary ::
  "int \<Rightarrow> int \<Rightarrow> int list \<Rightarrow> int \<Rightarrow> int \<Rightarrow> nat \<Rightarrow> (int \<times> int list) py" where
  "plan_chunk_boundary start fin stops grid bnd max_exports =
     py_guard (grid \<le> 0 \<or> grid mod CHUNK_TOKENS \<noteq> 0) ValueError
       (let (stop_at, exports) = walk_stops (\<lambda>s. (s mod grid = 0 \<or> s = bnd) \<and> on_tile start s) max_exports fin []
              (inner_stops start fin stops)
        in Inr (if boundary_clash grid bnd stop_at exports then (bnd, filter (\<lambda>p. p < bnd) exports)
                else (stop_at, exports)))"

section \<open>The walk\<close>

lemma inner_stops_props:
  "sorted (inner_stops a b ss)" "distinct (inner_stops a b ss)"
  "s \<in> set (inner_stops a b ss) \<longleftrightarrow> s \<in> set ss \<and> a < s \<and> s < b"
  by (auto simp: inner_stops_def)

text \<open>The exports are the stops before the end of the chunk, all exportable, within the bound.\<close>

lemma walk_stops_props:
  assumes "walk_stops ok n fin exports stops = (e, ex)" "sorted stops" "distinct stops" "\<forall>s \<in> set stops. s < fin"
    "length exports \<le> n"
  shows "ex = exports @ takeWhile (\<lambda>s. s < e) stops" "list_all ok (takeWhile (\<lambda>s. s < e) stops)" "length ex \<le> n"
    "e = fin \<or> e \<in> set stops" "e \<le> fin" "filter (\<lambda>s. s < e) stops = takeWhile (\<lambda>s. s < e) stops"
proof -
  have "ex = exports @ takeWhile (\<lambda>s. s < e) stops \<and> list_all ok (takeWhile (\<lambda>s. s < e) stops) \<and> length ex \<le> n
      \<and> (e = fin \<or> e \<in> set stops) \<and> e \<le> fin"
    using assms
  proof (induction stops arbitrary: exports)
    case (Cons s stops)
    show ?case
    proof (cases "ok s \<and> length exports < n")
      case True
      with Cons.prems have w: "walk_stops ok n fin (exports @ [s]) stops = (e, ex)" by simp
      note ih = Cons.IH [OF w] 
      have pre: "sorted stops" "distinct stops" "\<forall>x \<in> set stops. x < fin" "length (exports @ [s]) \<le> n"
        using Cons.prems True by auto
      have "s < e"
      proof (cases "e = fin")
        case False
        with ih [OF pre] have "e \<in> set stops" by blast
        with Cons.prems(2,3) show ?thesis by (auto simp: order_less_le)
      qed (use Cons.prems(4) in simp)
      with ih [OF pre] True show ?thesis by auto
    next
      case False
      with Cons.prems show ?thesis by auto
    qed
  qed auto
  then show "ex = exports @ takeWhile (\<lambda>s. s < e) stops" "list_all ok (takeWhile (\<lambda>s. s < e) stops)" "length ex \<le> n"
    "e = fin \<or> e \<in> set stops" "e \<le> fin" by blast+
  show "filter (\<lambda>s. s < e) stops = takeWhile (\<lambda>s. s < e) stops"
    using assms(2)
  proof (induction stops)
    case (Cons a ss)
    show ?case
    proof (cases "a < e")
      case False
      then have "\<forall>x \<in> set ss. \<not> x < e" using Cons.prems by force
      with False show ?thesis by (simp add: filter_False)
    qed (use Cons in simp)
  qed simp
qed

lemma column_mono: "0 < g \<Longrightarrow> a \<le> b \<Longrightarrow> column g a \<le> column g b"
  using cdiv_mono [of g a b] by (simp add: column_def)

lemma column_grid_less:
  assumes "0 < g" "p mod g = 0" "p < e"
  shows "column g p < column g e"
proof -
  obtain k where p: "p = k * g" using assms(2) by (metis mod_0_imp_dvd dvd_div_mult_self)
  have "cdiv p g \<le> k" using assms(1) p by (simp add: cdiv_le_iff)
  moreover have "\<not> cdiv e g \<le> k" using assms p by (simp add: cdiv_le_iff)
  ultimately show ?thesis by (simp add: column_def)
qed

text \<open>What a walk over the inner stops yields.\<close>

lemma inner_walk:
  assumes w: "walk_stops ok n fin [] (inner_stops start fin stops) = (e, ex)" and "start < fin"
  shows "start < e" "e \<le> fin" "e = fin \<or> e \<in> set stops" "length ex \<le> n" "sorted ex" "distinct ex"
    "p \<in> set ex \<longleftrightarrow> p \<in> set stops \<and> start < p \<and> p < e" "p \<in> set ex \<Longrightarrow> ok p"
proof -
  note I = inner_stops_props [where a = start and b = fin and ss = stops]
  have lt: "\<forall>s \<in> set (inner_stops start fin stops). s < fin" using I(3) by blast
  note W = walk_stops_props [OF w I(1,2) lt]
  have ex: "ex = filter (\<lambda>s. s < e) (inner_stops start fin stops)" using W(1,6) by simp
  show "e \<le> fin" "e = fin \<or> e \<in> set stops" "length ex \<le> n" using W(3-5) I(3) by auto
  show "start < e" using W(4) I(3) assms(2) by auto
  show "sorted ex" "distinct ex" unfolding ex using I(1,2) by (simp_all add: sorted_wrt_filter)
  show p: "p \<in> set ex \<longleftrightarrow> p \<in> set stops \<and> start < p \<and> p < e"
    using \<open>e \<le> fin\<close> unfolding ex set_filter mem_Collect_eq I(3) by auto
  show "p \<in> set ex \<Longrightarrow> ok p" using W(1,2) by (simp add: list_all_iff)
qed

lemma sort_remdups_id: "sorted xs \<Longrightarrow> distinct xs \<Longrightarrow> sort (remdups xs) = xs"
  by (simp add: distinct_remdups_id sorted_sort_id)

text \<open>A plan whose exports are interior, on the tiles, with distinct columns below the last one, validates.\<close>

lemma validate_planI:
  assumes "0 \<le> start" "start < fin" "start mod CHUNK_TOKENS = 0" "ex \<noteq> []" "sorted ex" "distinct ex" "block \<noteq> 0"
    "\<And>p. p \<in> set ex \<Longrightarrow> start < p \<and> p < fin \<and> on_tile start p \<and> column block p \<noteq> column block fin"
    "inj_on (column block) (set ex)"
  shows "validate_plan (start, fin, ex) block = Inr (start, fin, ex)"
proof -
  have "column block fin \<notin> set (map (column block) ex)" using assms(8) by (metis (no_types) image_iff set_map)
  moreover have "\<not> list_ex (\<lambda>p. \<not> (start < p \<and> p < fin) \<or> \<not> on_tile start p) ex"
    using assms(8) by (auto simp: list_ex_iff)
  ultimately show ?thesis
    using assms(1-7,9) sort_remdups_id [OF assms(5,6)]
    by (simp add: validate_plan_def Let_def distinct_map py_guard_def)
qed

section \<open>Properties\<close>

text \<open>
  The planner runs past a mandatory stop only by exporting it: every stop inside the
  chunk up to its end is exported or is the end, the exports are on the grid and the tile,
  within the bound, and from an aligned start the plan passes the worker's validation.
\<close>

theorem plan_chunk_keeps_every_stop:
  assumes "plan_chunk start fin stops grid max_exports = Inr (e, ex)" "start < fin"
  shows "start < e \<and> e \<le> fin \<and> (e = fin \<or> e \<in> set stops) \<and> length ex \<le> max_exports \<and> sorted ex \<and> distinct ex
    \<and> set ex = {s \<in> set stops. start < s \<and> s < e}
    \<and> (\<forall>p \<in> set ex. p mod grid = 0 \<and> (p - start) mod 16 = 0)
    \<and> (0 \<le> start \<and> start mod 16 = 0 \<and> ex \<noteq> [] \<longrightarrow> validate_plan (start, e, ex) grid = Inr (start, e, ex))"
proof -
  have g: "0 < grid" and w: "walk_stops (\<lambda>s. s mod grid = 0 \<and> on_tile start s) max_exports fin [] (inner_stops start fin stops) = (e, ex)"
    using assms(1) by (auto simp: plan_chunk_def)
  note I = inner_walk [OF w assms(2)]
  have ok: "p mod grid = 0 \<and> on_tile start p" if "p \<in> set ex" for p using I(8) that by blast
  have less: "column grid p < column grid x" if "p \<in> set ex" "p < x" for p x
    using ok [OF that(1)] column_grid_less [OF g, of p x] that(2) by simp
  have inj: "inj_on (column grid) (set ex)"
    using less by (intro inj_onI) (metis linorder_neqE_linordered_idom order_less_irrefl)
  have v: "validate_plan (start, e, ex) grid = Inr (start, e, ex)" if "0 \<le> start" "start mod 16 = 0" "ex \<noteq> []"
    using that I(1,5,6,7) ok less inj g
    by (intro validate_planI) (auto simp: CHUNK_TOKENS_def order_less_imp_not_eq)
  have s: "set ex = {s \<in> set stops. start < s \<and> s < e}" using I(7) by blast
  have t: "\<forall>p \<in> set ex. p mod grid = 0 \<and> (p - start) mod 16 = 0" using ok unfolding on_tile_def CHUNK_TOKENS_def by blast
  show ?thesis using I(1-6) s t v by (intro conjI impI) (assumption | (elim conjE, assumption))+
qed

theorem plan_chunk_keeps_every_stop_witness:
  "plan_chunk 2304 9216 [4608, 7000, 6912, 11520] 2304 4 = Inr (7000, [4608, 6912])
   \<and> validate_plan (2304, 7000, [4608, 6912]) 2304 = Inr (2304, 7000, [4608, 6912])"
proof -
  have e: "plan_chunk 2304 9216 [4608, 7000, 6912, 11520] 2304 4 = Inr (7000, [4608, 6912])" by code_simp
  from plan_chunk_keeps_every_stop [OF e] e show ?thesis by simp
qed

text \<open>With the replay boundary among the stops.\<close>

text \<open>
  C26. Every plan with exports that the replay-boundary planner makes from an aligned start
  passes the worker's validation: sorted, interior, on the tile, in pairwise different columns
  none of which is the final one.
\<close>

theorem boundary_plan_is_valid:
  assumes "plan_chunk_boundary start fin stops grid bnd max_exports = Inr (e, ex)" "0 \<le> start" "start < fin" "start mod 16 = 0"
  shows "start < e \<and> e \<le> fin \<and> (e = fin \<or> e \<in> set stops) \<and> set ex = {s \<in> set stops. start < s \<and> s < e}
    \<and> (\<forall>p \<in> set ex. (p mod grid = 0 \<or> p = bnd) \<and> (p - start) mod 16 = 0)
    \<and> length ex \<le> max_exports
    \<and> (ex \<noteq> [] \<longrightarrow> validate_plan (start, e, ex) grid = Inr (start, e, ex))"
proof -
  obtain e0 ex0 where w: "walk_stops (\<lambda>s. (s mod grid = 0 \<or> s = bnd) \<and> on_tile start s) max_exports fin []
      (inner_stops start fin stops) = (e0, ex0)" by fastforce
  have g: "0 < grid" and r: "(e, ex) = (if boundary_clash grid bnd e0 ex0 then (bnd, filter (\<lambda>p. p < bnd) ex0) else (e0, ex0))"
    using assms(1) w by (auto simp: plan_chunk_boundary_def Let_def)
  note I = inner_walk [OF w assms(3)]
  have ok: "(p mod grid = 0 \<or> p = bnd) \<and> on_tile start p" if "p \<in> set ex0" for p using I(8) that by blast
  have less: "column grid p < column grid x" if "p \<in> set ex0" "p \<noteq> bnd" "p < x" for p x
    using ok [OF that(1)] that(2) column_grid_less [OF g _ that(3)] by simp
  have len: "length ex \<le> max_exports"
    using r I(4) by (auto split: if_splits intro: order_trans [OF length_filter_le])
  have cl: "bnd \<in> set ex0" if "boundary_clash grid bnd e0 ex0" using that by (simp add: boundary_clash_def)
  have sub: "set ex \<subseteq> set ex0" "sorted ex" "distinct ex"
    using r I(5,6) by (auto split: if_splits simp: sorted_wrt_filter)
  have core: "start < e" "e \<le> fin" "e = fin \<or> e \<in> set stops" "set ex = {s \<in> set stops. start < s \<and> s < e}"
  proof -
    have "start < e \<and> e \<le> fin \<and> (e = fin \<or> e \<in> set stops) \<and> set ex = {s \<in> set stops. start < s \<and> s < e}"
    proof (cases "boundary_clash grid bnd e0 ex0")
      case True
      then have b: "bnd \<in> set stops" "start < bnd" "bnd < e0" using cl I(7) by blast+
      have "e = bnd" "ex = filter (\<lambda>p. p < bnd) ex0" using r True by simp_all
      moreover from this have "set ex = {s \<in> set stops. start < s \<and> s < e}"
        using b(3) by (intro set_eqI) (simp add: I(7), linarith)
      moreover have "bnd \<le> fin" using b(3) I(2) by linarith
      ultimately show ?thesis using b by simp
    next
      case False
      then have "e = e0" "ex = ex0" using r by simp_all
      then show ?thesis using I(1,2,3,7) by auto
    qed
    then show "start < e" "e \<le> fin" "e = fin \<or> e \<in> set stops" "set ex = {s \<in> set stops. start < s \<and> s < e}" by blast+
  qed
  have lt: "column grid p < column grid e" if "p \<in> set ex" for p
  proof (cases "p = bnd")
    case True
    with r that have nc: "\<not> boundary_clash grid bnd e0 ex0" "e = e0" "ex = ex0" by (auto split: if_splits)
    have "column grid bnd \<noteq> column grid e0" using nc(1,3) that True by (simp add: boundary_clash_def)
    moreover have "column grid bnd \<le> column grid e0"
      using that True core(4) nc by (intro column_mono [OF g]) auto
    ultimately show ?thesis using True nc(2) by simp
  next
    case False
    then show ?thesis using less that sub(1) core(4) by blast
  qed
  have inj: "inj_on (column grid) (set ex)"
  proof (rule inj_onI)
    fix p x
    assume px: "p \<in> set ex" "x \<in> set ex" "column grid p = column grid x"
    show "p = x"
    proof (rule ccontr)
      assume "p \<noteq> x"
      then consider "p < x" | "x < p" by linarith
      then have b: "bnd \<in> set ex \<and> (\<exists>y \<in> set ex. y \<noteq> bnd \<and> column grid y = column grid bnd)"
        using less [of p x] less [of x p] px sub(1) by (cases) (metis order_less_irrefl subsetD)+
      then have nc: "\<not> boundary_clash grid bnd e0 ex0" "ex = ex0" using r by (auto split: if_splits)
      obtain y where y: "y \<in> set ex0" "y \<noteq> bnd" "column grid y = column grid bnd" using b nc(2) by blast
      let ?f = "filter (\<lambda>p. column grid p = column grid bnd) ex0"
      have "{y, bnd} \<subseteq> set ?f" using y b nc(2) by auto
      then have "2 \<le> card (set ?f)" using y(2) by (metis List.finite_set card_2_iff card_mono)
      then have "2 \<le> length ?f" using card_length order_trans by blast
      then show False using nc(1) b nc(2) by (simp add: boundary_clash_def filter_map comp_def)
    qed
  qed
  have v: "validate_plan (start, e, ex) grid = Inr (start, e, ex)" if "ex \<noteq> []"
    using that assms(2,4) core sub ok lt inj g
    by (intro validate_planI) (auto simp: CHUNK_TOKENS_def order_less_imp_not_eq)
  have t: "\<forall>p \<in> set ex. (p mod grid = 0 \<or> p = bnd) \<and> (p - start) mod 16 = 0"
    using ok sub(1) unfolding on_tile_def CHUNK_TOKENS_def by blast
  show ?thesis using core len v t by (intro conjI impI) assumption+
qed

theorem boundary_plan_is_valid_witness:
  "plan_chunk_boundary 0 6912 [2304, 3456, 4608] 2304 3456 4 = Inr (3456, [2304])"
proof -
  have e: "plan_chunk_boundary 0 6912 [2304, 3456, 4608] 2304 3456 4 = Inr (3456, [2304])" by code_simp
  from boundary_plan_is_valid [OF e] e show ?thesis by simp
qed

text \<open>
  The replay boundary is the largest multiple of the unit that leaves one more unit and
  one token of the prompt behind it, and 0 when there is none.
\<close>

theorem replay_boundary_is_longest:
  assumes "replay_boundary num_prompt unit = Inr r"
  shows "0 \<le> r \<and> r mod unit = 0 \<and> (0 < r \<longrightarrow> r + unit \<le> num_prompt - 1)
    \<and> (\<forall>t. 0 \<le> t \<and> t mod unit = 0 \<and> t + unit \<le> num_prompt - 1 \<longrightarrow> t \<le> r)"
proof -
  have u: "0 < unit" and r: "r = max 0 ((num_prompt - 1) div unit * unit - unit)"
    using assms by (auto simp: replay_boundary_def)
  have "t \<le> (num_prompt - 1) div unit * unit - unit" if t: "t mod unit = 0" "t + unit \<le> num_prompt - 1" for t
  proof -
    have "(t + unit) div unit \<le> (num_prompt - 1) div unit" using t(2) u by (intro zdiv_mono1)
    then have "(t + unit) div unit * unit \<le> (num_prompt - 1) div unit * unit" using u by simp
    moreover have "(t + unit) mod unit = 0" using t(1) by simp
    then have "(t + unit) div unit * unit = t + unit" by (metis add.right_neutral div_mult_mod_eq)
    ultimately show ?thesis by simp
  qed
  then have "\<forall>t. 0 \<le> t \<and> t mod unit = 0 \<and> t + unit \<le> num_prompt - 1 \<longrightarrow> t \<le> r" unfolding r by (metis max.coboundedI2)
  moreover have "0 < r \<longrightarrow> r + unit \<le> num_prompt - 1" using div_bounds(1) [OF u, of "num_prompt - 1"] unfolding r by auto
  moreover have "r mod unit = 0"
  proof -
    have "((num_prompt - 1) div unit * unit - unit) mod unit = 0" by (simp add: mod_diff_eq [symmetric])
    then show ?thesis unfolding r by (simp add: max_def)
  qed
  moreover have "0 \<le> r" unfolding r by simp
  ultimately show ?thesis by blast
qed

theorem replay_boundary_is_longest_witness: "replay_boundary 5000 1152 = Inr 3456"
proof -
  have e: "replay_boundary 5000 1152 = Inr 3456" by code_simp
  from replay_boundary_is_longest [OF e] e show ?thesis by simp
qed

text \<open>The rows the worker reads are the plans of their requests.\<close>

lemma row_index_Some: "row_index ids rid = Some i \<Longrightarrow> i < length ids \<and> ids ! i = rid"
  by (auto simp: row_index_def dest!: map_of_SomeD simp: set_zip)

lemma rows_fill_Inr:
  assumes "rows_fill ids computed scheduled rows plans = Inr out" "length rows = length ids" "distinct ids" "distinct (map fst plans)"
  shows "length out = length ids \<and> (\<forall>i < length ids.
      (case map_of plans (ids ! i) of
         None \<Rightarrow> out ! i = rows ! i
       | Some pl \<Rightarrow> out ! i = Some pl \<and> computed ! i = fst pl \<and> scheduled ! i = fst (snd pl) - fst pl))
    \<and> fst ` set plans \<subseteq> set ids"
  using assms
proof (induction plans arbitrary: rows)
  case (Cons p plans)
  obtain rid start fin ex where p: "p = (rid, (start, fin, ex))" by (cases p) auto
  obtain i where i: "row_index ids rid = Some i" "computed ! i = start" "scheduled ! i = fin - start"
    and rest: "rows_fill ids computed scheduled (rows[i := Some (start, fin, ex)]) plans = Inr out"
    using Cons.prems(1) unfolding p by (auto split: option.splits)
  have ii: "i < length ids" "ids ! i = rid" using row_index_Some [OF i(1)] by auto
  have ih: "length out = length ids \<and> (\<forall>j < length ids.
      (case map_of plans (ids ! j) of
         None \<Rightarrow> out ! j = rows[i := Some (start, fin, ex)] ! j
       | Some pl \<Rightarrow> out ! j = Some pl \<and> computed ! j = fst pl \<and> scheduled ! j = fst (snd pl) - fst pl))
    \<and> fst ` set plans \<subseteq> set ids"
    using Cons.IH [OF rest] Cons.prems by simp
  have new: "map_of plans rid = None" using Cons.prems(4) p by (simp add: map_of_eq_None_iff)
  show ?case
  proof (intro conjI allI impI)
    show "length out = length ids" using ih by blast
    have "rid \<in> set ids" using ii nth_mem by blast
    then show "fst ` set (p # plans) \<subseteq> set ids" using ih p by simp
  next
    fix j assume j: "j < length ids"
    show "case map_of (p # plans) (ids ! j) of None \<Rightarrow> out ! j = rows ! j
      | Some pl \<Rightarrow> out ! j = Some pl \<and> computed ! j = fst pl \<and> scheduled ! j = fst (snd pl) - fst pl"
    proof (cases "j = i")
      case True
      then have "out ! j = rows[i := Some (start, fin, ex)] ! j" using ih j new ii by fastforce
      then show ?thesis using True ii i Cons.prems(2) p by simp
    next
      case False
      then have "ids ! j \<noteq> rid" using ii j Cons.prems(3) nth_eq_iff_index_eq by blast
      then show ?thesis using ih [THEN conjunct2, THEN conjunct1, rule_format, OF j] False p
        by (cases "map_of plans (ids ! j)") simp_all
    qed
  qed
qed (simp split: option.splits)

text \<open>
  The worker's rows hold each plan at the row of its request and nothing elsewhere, and
  only when every plan agrees with the computed and scheduled counts.
\<close>

theorem worker_rows_match_plans:
  assumes "rows_for_batch plans ids computed scheduled = Inr rows" "distinct ids" "distinct (map fst plans)"
  shows "length rows = length ids \<and> fst ` set plans \<subseteq> set ids
    \<and> (\<forall>i < length ids. rows ! i = map_of plans (ids ! i)
         \<and> (\<forall>start fin ex. rows ! i = Some (start, fin, ex) \<longrightarrow> computed ! i = start \<and> computed ! i + scheduled ! i = fin))"
proof -
  note F = rows_fill_Inr [OF assms(1) [unfolded rows_for_batch_def] length_replicate assms(2,3)]
  have "rows ! i = map_of plans (ids ! i)
      \<and> (\<forall>start fin ex. rows ! i = Some (start, fin, ex) \<longrightarrow> computed ! i = start \<and> computed ! i + scheduled ! i = fin)"
    if "i < length ids" for i
    using F that by (cases "map_of plans (ids ! i)") auto
  with F show ?thesis by blast
qed

theorem worker_rows_match_plans_witness:
  "rows_for_batch [(7 :: nat, (0, 6912, [2304]))] [3, 7] [5, 0] [5, 6912] = Inr [None, Some (0, 6912, [2304])]"
proof -
  have e: "rows_for_batch [(7 :: nat, (0, 6912, [2304]))] [3, 7] [5, 0] [5, 6912] = Inr [None, Some (0, 6912, [2304])]"
    by code_simp
  from worker_rows_match_plans [OF e] e show ?thesis by simp
qed

end
