(* ===== verification/Boundary_Registry.thy ===== *)
theory Boundary_Registry
  imports Ringside_Prelude
begin

text \<open>
  The registry of retained boundary states (\<open>Entry\<close> and \<open>Registry\<close> of
  \<open>src/src/tp4/glm53_replay_boundary.py\<close>): it records which cache block holds the state of a prefix for each
  recurrent group, judges a hit before it is used, and bounds the number of prefixes. The engine's block pool is
  not part of the repository: its operations are the parameter \<open>P\<close> and the hash of a prefix within a group is the
  parameter \<open>mk\<close>. Clock readings are arguments. The counters are kept; their log lines are not.
\<close>

section \<open>The pool and the registry\<close>

text \<open>A block object: its block id and its identity (\<open>is\<close> compares identities).\<close>

record block =
  block_id :: nat
  block_obj :: nat

text \<open>The pool operations the registry calls. \<open>extra_hashes\<close> is \<open>cached_block_hashes_by_block\<close>.\<close>

record ('p, 'h) pool_ops =
  contain :: "'p \<Rightarrow> 'h \<Rightarrow> nat \<Rightarrow> bool"
  pop_entry :: "'p \<Rightarrow> 'h \<Rightarrow> nat \<Rightarrow> 'p"
  remove_hashes :: "'p \<Rightarrow> nat \<Rightarrow> 'p"
  primary_hash :: "'p \<Rightarrow> nat \<Rightarrow> 'h option"
  null_block :: "'p \<Rightarrow> nat \<Rightarrow> bool"
  extra_hashes :: "'p \<Rightarrow> nat \<Rightarrow> 'h set option"
  set_extra :: "'p \<Rightarrow> nat \<Rightarrow> 'h set option \<Rightarrow> 'p"

record 'k entry =
  e_key :: 'k
  e_tokens :: int
  e_request :: string
  e_path :: string
  e_blocks :: "(nat \<times> int \<times> block \<times> nat) list"
  e_created :: int
  e_last_used :: int

definition entry_groups :: "'k entry \<Rightarrow> int set" where
  "entry_groups e = (\<lambda>(i, gid, b, ep). gid) ` set (e_blocks e)"

record counters =
  captures :: nat
  complete :: nat
  admits :: nat
  invalid :: nat
  evicted :: nat
  dead :: nat
  moves :: nat
  native :: nat

record ('p, 'k) registry =
  cap :: int
  num_groups :: nat
  pool :: 'p
  entries :: "('k \<times> 'k entry) list"
  tags :: "nat \<rightharpoonup> nat \<times> 'k \<times> int"
  epoch :: nat
  counts :: counters

definition registry_new :: "int \<Rightarrow> int list \<Rightarrow> 'p \<Rightarrow> ('p, 'k) registry" where
  "registry_new c group_ids p =
     \<lparr>cap = c, num_groups = length group_ids, pool = p, entries = [], tags = Map.empty, epoch = 0,
      counts = \<lparr>captures = 0, complete = 0, admits = 0, invalid = 0, evicted = 0, dead = 0, moves = 0, native = 0\<rparr>\<rparr>"

section \<open>Operations\<close>

definition entry_valid ::
  "('p, 'h) pool_ops \<Rightarrow> ('k \<Rightarrow> int \<Rightarrow> 'h) \<Rightarrow> ('p, 'k) registry \<Rightarrow> 'k entry \<Rightarrow> int \<Rightarrow> block \<Rightarrow> bool" where
  "entry_valid P mk reg e gid b =
     (case map_of (e_blocks e) (block_id b) of
        None \<Rightarrow> False
      | Some (g, rb, ep) \<Rightarrow> g = gid \<and> block_obj rb = block_obj b \<and> \<not> null_block P (pool reg) (block_id b)
          \<and> tags reg (block_id b) = Some (ep, e_key e, e_tokens e)
          \<and> contain P (pool reg) (mk (e_key e) gid) (block_id b))"

text \<open>One recorded block leaves the pool's map, and its tag goes if it is this entry's.\<close>

definition uncache :: "('p, 'h) pool_ops \<Rightarrow> 'p \<Rightarrow> 'h \<Rightarrow> nat \<Rightarrow> 'p" where
  "uncache P p kg i =
     (if \<not> contain P p kg i then p
      else if primary_hash P p i = Some kg then remove_hashes P p i
      else let q = pop_entry P p kg i in
        case extra_hashes P q i of None \<Rightarrow> q
        | Some hs \<Rightarrow> set_extra P q i (if hs - {kg} = {} then None else Some (hs - {kg})))"

definition drop_block ::
  "('p, 'h) pool_ops \<Rightarrow> ('k \<Rightarrow> int \<Rightarrow> 'h) \<Rightarrow> 'k entry \<Rightarrow> ('p, 'k) registry \<Rightarrow> int \<times> block \<times> nat \<Rightarrow> ('p, 'k) registry py" where
  "drop_block P mk e reg item =
     (case item of (gid, b, ep) \<Rightarrow>
        let kg = mk (e_key e) gid; i = block_id b; q = uncache P (pool reg) kg i in
        py_guard (contain P (pool reg) kg i \<and> contain P q kg i) RuntimeError
          (Inr (reg\<lparr>pool := q,
             tags := (if tags reg i = Some (ep, e_key e, e_tokens e) then (tags reg)(i := None) else tags reg)\<rparr>)))"

fun drop_blocks ::
  "('p, 'h) pool_ops \<Rightarrow> ('k \<Rightarrow> int \<Rightarrow> 'h) \<Rightarrow> 'k entry \<Rightarrow> ('p, 'k) registry \<Rightarrow> (int \<times> block \<times> nat) list \<Rightarrow> ('p, 'k) registry py" where
  "drop_blocks P mk e reg [] = Inr reg"
| "drop_blocks P mk e reg (x # xs) = py_bind (drop_block P mk e reg x) (\<lambda>r. drop_blocks P mk e r xs)"

definition drop_entry ::
  "('p, 'h) pool_ops \<Rightarrow> ('k \<Rightarrow> int \<Rightarrow> 'h) \<Rightarrow> ('p, 'k) registry \<Rightarrow> 'k entry \<Rightarrow> ('p, 'k) registry py" where
  "drop_entry P mk reg e =
     py_bind (drop_blocks P mk e reg (map snd (e_blocks e))) (\<lambda>r. Inr (r\<lparr>entries := dict_del (e_key e) (entries r)\<rparr>))"

definition entry_dead ::
  "('p, 'h) pool_ops \<Rightarrow> ('k \<Rightarrow> int \<Rightarrow> 'h) \<Rightarrow> ('p, 'k) registry \<Rightarrow> 'k entry \<Rightarrow> bool" where
  "entry_dead P mk reg e \<longleftrightarrow>
     card (set (map (\<lambda>(i, gid, b, ep). gid) (filter (\<lambda>(i, gid, b, ep). entry_valid P mk reg e gid b) (e_blocks e))))
       < num_groups reg"

text \<open>The first loop of \<open>_enforce_cap\<close> runs over the entries as they were; the second drops the least
  recently used one. Every round of the second loop either drops an entry or stops, so the number of
  entries bounds its rounds.\<close>

fun drop_dead ::
  "('p, 'h) pool_ops \<Rightarrow> ('k \<Rightarrow> int \<Rightarrow> 'h) \<Rightarrow> 'k \<Rightarrow> ('p, 'k) registry \<Rightarrow> 'k entry list \<Rightarrow> ('p, 'k) registry py" where
  "drop_dead P mk keep reg [] = Inr reg"
| "drop_dead P mk keep reg (e # es) =
     (if int (length (entries reg)) \<le> cap reg then Inr reg
      else if e_key e \<noteq> keep \<and> entry_dead P mk reg e
      then py_bind (drop_entry P mk (reg\<lparr>counts := (counts reg)\<lparr>dead := dead (counts reg) + 1\<rparr>\<rparr>) e)
             (\<lambda>r. drop_dead P mk keep r es)
      else drop_dead P mk keep reg es)"

fun evict_oldest ::
  "('p, 'h) pool_ops \<Rightarrow> ('k \<Rightarrow> int \<Rightarrow> 'h) \<Rightarrow> 'k \<Rightarrow> nat \<Rightarrow> ('p, 'k) registry \<Rightarrow> ('p, 'k) registry py" where
  "evict_oldest P mk keep 0 reg = Inr reg"
| "evict_oldest P mk keep (Suc n) reg =
     (if int (length (entries reg)) \<le> cap reg then Inr reg
      else let reg1 = (case entries reg of [] \<Rightarrow> reg
                 | (k, e) # _ \<Rightarrow> if e_key e = keep then reg\<lparr>entries := dict_to_end keep (entries reg)\<rparr> else reg)
        in case entries reg1 of [] \<Rightarrow> Inl StopIteration
           | (k, e) # _ \<Rightarrow>
               if e_key e = keep then Inr reg1
               else py_bind (drop_entry P mk (reg1\<lparr>counts := (counts reg1)\<lparr>evicted := evicted (counts reg1) + 1\<rparr>\<rparr>) e)
                      (evict_oldest P mk keep n))"

definition enforce_cap ::
  "('p, 'h) pool_ops \<Rightarrow> ('k \<Rightarrow> int \<Rightarrow> 'h) \<Rightarrow> 'k \<Rightarrow> ('p, 'k) registry \<Rightarrow> ('p, 'k) registry py" where
  "enforce_cap P mk keep reg =
     (if int (length (entries reg)) \<le> cap reg then Inr reg
      else py_bind (drop_dead P mk keep reg (map snd (entries reg))) (\<lambda>r.
        evict_oldest P mk keep (Suc (length (entries r))) r))"

text \<open>\<open>record\<close>: a group registered \<open>b\<close> under \<open>key\<close>.\<close>

definition entry_for :: "('p, 'k) registry \<Rightarrow> 'k \<Rightarrow> int \<Rightarrow> string \<Rightarrow> string \<Rightarrow> int \<Rightarrow> 'k entry" where
  "entry_for reg key tokens request_id path now =
     (case map_of (entries reg) key of
        Some e \<Rightarrow> e
      | None \<Rightarrow> \<lparr>e_key = key, e_tokens = tokens, e_request = request_id, e_path = path, e_blocks = [],
                 e_created = now, e_last_used = 0\<rparr>)"

definition record_into ::
  "('p, 'k) registry \<Rightarrow> 'k \<Rightarrow> int \<Rightarrow> string \<Rightarrow> int \<Rightarrow> block \<Rightarrow> string \<Rightarrow> int \<Rightarrow> ('p, 'k) registry" where
  "record_into reg key tokens request_id gid b path now =
     (let e = entry_for reg key tokens request_id path now;
          fresh = (map_of (entries reg) key = None);
          was_complete = (card (entry_groups e) = num_groups reg);
          ep = epoch reg + 1;
          e' = e\<lparr>e_blocks := dict_put (block_id b) (gid, b, ep) (e_blocks e), e_last_used := now\<rparr>;
          now_complete = (\<not> was_complete \<and> card (entry_groups e') = num_groups reg)
      in reg\<lparr>entries := dict_to_end key (dict_put key e' (entries reg)),
             tags := (tags reg)(block_id b \<mapsto> (ep, key, tokens)), epoch := ep,
             counts := (counts reg)\<lparr>captures := captures (counts reg) + of_bool fresh,
                                    complete := complete (counts reg) + of_bool now_complete\<rparr>\<rparr>)"

definition registry_record ::
  "('p, 'h) pool_ops \<Rightarrow> ('k \<Rightarrow> int \<Rightarrow> 'h) \<Rightarrow> ('p, 'k) registry \<Rightarrow> 'k \<Rightarrow> int \<Rightarrow> string \<Rightarrow> int \<Rightarrow> block \<Rightarrow> string \<Rightarrow> int
     \<Rightarrow> ('p, 'k) registry py" where
  "registry_record P mk reg key tokens request_id gid b path now =
     py_bind (case map_of (entries reg) key of
                Some e \<Rightarrow> if e_tokens e \<noteq> tokens then drop_entry P mk reg e else Inr reg
              | None \<Rightarrow> Inr reg)
       (\<lambda>r. enforce_cap P mk key (record_into r key tokens request_id gid b path now))"

text \<open>\<open>moved\<close>: the copy-on-write moved a recorded state from \<open>src\<close> to \<open>dst\<close>.\<close>

definition registry_moved :: "('p, 'k) registry \<Rightarrow> block \<Rightarrow> block \<Rightarrow> int \<Rightarrow> ('p, 'k) registry" where
  "registry_moved reg src dst gid =
     (case tags reg (block_id src) of
        None \<Rightarrow> reg
      | Some (ep, key, tokens) \<Rightarrow>
          (case map_of (entries reg) key of
             None \<Rightarrow> reg
           | Some e \<Rightarrow>
               (case map_of (e_blocks e) (block_id src) of
                  None \<Rightarrow> reg
                | Some (g, rb, rep) \<Rightarrow>
                    if g \<noteq> gid \<or> block_obj rb \<noteq> block_obj src \<or> rep \<noteq> ep then reg
                    else reg\<lparr>entries := dict_put key
                               (e\<lparr>e_blocks := dict_put (block_id dst) (gid, dst, ep) (dict_del (block_id src) (e_blocks e))\<rparr>)
                               (entries reg),
                             tags := ((tags reg)(block_id dst \<mapsto> (ep, key, tokens)))(block_id src := None),
                             counts := (counts reg)\<lparr>moves := moves (counts reg) + 1\<rparr>\<rparr>)))"

definition judged_blocks :: "'k entry \<Rightarrow> block list \<Rightarrow> int list \<Rightarrow> (int \<times> block) list" where
  "judged_blocks e blocks group_ids =
     filter (\<lambda>(gid, b). map_of (e_blocks e) (block_id b) \<noteq> None) (zip group_ids blocks)"

definition registry_admit ::
  "('p, 'h) pool_ops \<Rightarrow> ('k \<Rightarrow> int \<Rightarrow> 'h) \<Rightarrow> ('p, 'k) registry \<Rightarrow> 'k \<Rightarrow> block list \<Rightarrow> int list \<Rightarrow> int
     \<Rightarrow> (('p, 'k) registry \<times> bool) py" where
  "registry_admit P mk reg key blocks group_ids now =
     (case map_of (entries reg) key of
        None \<Rightarrow> Inr (reg, True)
      | Some e \<Rightarrow>
          let judged = judged_blocks e blocks group_ids in
          if \<not> list_all (\<lambda>(gid, b). entry_valid P mk reg e gid b) judged
          then py_bind (drop_entry P mk (reg\<lparr>counts := (counts reg)\<lparr>invalid := invalid (counts reg) + 1\<rparr>\<rparr>) e)
                 (\<lambda>r. Inr (r, False))
          else
            let reg1 = (if length judged < length group_ids
                        then reg\<lparr>counts := (counts reg)\<lparr>native := native (counts reg) + 1\<rparr>\<rparr> else reg)
            in if length judged < length group_ids \<and> judged = [] then Inr (reg1, True)
               else Inr (reg1\<lparr>entries := dict_to_end key (dict_put key (e\<lparr>e_last_used := now\<rparr>) (entries reg1)),
                              counts := (counts reg1)\<lparr>admits := admits (counts reg1) + 1\<rparr>\<rparr>, True))"

fun clear_entries ::
  "('p, 'h) pool_ops \<Rightarrow> ('k \<Rightarrow> int \<Rightarrow> 'h) \<Rightarrow> ('p, 'k) registry \<Rightarrow> 'k entry list \<Rightarrow> ('p, 'k) registry py" where
  "clear_entries P mk reg [] = Inr reg"
| "clear_entries P mk reg (e # es) = py_bind (drop_entry P mk reg e) (\<lambda>r. clear_entries P mk r es)"

definition registry_clear ::
  "('p, 'h) pool_ops \<Rightarrow> ('k \<Rightarrow> int \<Rightarrow> 'h) \<Rightarrow> ('p, 'k) registry \<Rightarrow> ('p, 'k) registry py" where
  "registry_clear P mk reg = clear_entries P mk reg (map snd (entries reg))"

section \<open>Laws of the pool and the invariant\<close>

text \<open>What the registry relies on: the three operations never add an entry; taking all hashes of a block, or one
  entry, removes what they name; bookkeeping of the extra hashes does not touch the map.\<close>

definition pool_laws :: "('p, 'h) pool_ops \<Rightarrow> bool" where
  "pool_laws P \<longleftrightarrow>
     (\<forall>p i h j. contain P (remove_hashes P p i) h j \<longrightarrow> contain P p h j \<and> j \<noteq> i)
     \<and> (\<forall>p h i h' j. contain P (pop_entry P p h i) h' j \<longrightarrow> contain P p h' j \<and> \<not> (h' = h \<and> j = i))
     \<and> (\<forall>p i x h j. contain P (set_extra P p i x) h j \<longleftrightarrow> contain P p h j)"

definition registry_inv :: "('p, 'k) registry \<Rightarrow> bool" where
  "registry_inv reg \<longleftrightarrow> distinct (map fst (entries reg))
     \<and> (\<forall>(k, e) \<in> set (entries reg). e_key e = k \<and> distinct (map fst (e_blocks e))
          \<and> (\<forall>(i, gid, b, ep) \<in> set (e_blocks e). block_id b = i))"

lemma uncache_contain:
  assumes "pool_laws P" "contain P (uncache P p kg i) h j"
  shows "contain P p h j" "\<not> (h = kg \<and> j = i)"
proof -
  have rm: "contain P (remove_hashes P p i) h j \<Longrightarrow> contain P p h j \<and> j \<noteq> i"
    and pop: "contain P (pop_entry P p kg i) h j \<Longrightarrow> contain P p h j \<and> \<not> (h = kg \<and> j = i)"
    and ex: "\<And>q x. contain P (set_extra P q i x) h j = contain P q h j"
    using assms(1) unfolding pool_laws_def by blast+
  have "contain P p h j \<and> \<not> (h = kg \<and> j = i)"
  proof (cases "contain P p kg i")
    case True
    show ?thesis
    proof (cases "primary_hash P p i = Some kg")
      case p: True
      then show ?thesis using assms(2) rm True by (auto simp: uncache_def)
    next
      case False
      have "contain P (pop_entry P p kg i) h j"
        using assms(2) True False ex by (cases "extra_hashes P (pop_entry P p kg i) i") (auto simp: uncache_def Let_def)
      then show ?thesis by (rule pop)
    qed
  next
    case False
    then show ?thesis using assms(2) by (auto simp: uncache_def)
  qed
  then show "contain P p h j" "\<not> (h = kg \<and> j = i)" by blast+
qed

text \<open>What dropping leaves unchanged, and what it removes.\<close>

definition dropped_from :: "('p, 'h) pool_ops \<Rightarrow> ('p, 'k) registry \<Rightarrow> ('p, 'k) registry \<Rightarrow> bool" where
  "dropped_from P reg r \<longleftrightarrow> cap r = cap reg \<and> num_groups r = num_groups reg \<and> counts r = counts reg \<and> epoch r = epoch reg
     \<and> (\<forall>h j. contain P (pool r) h j \<longrightarrow> contain P (pool reg) h j)
     \<and> (\<forall>i. tags r i \<in> {None, tags reg i})"

lemma dropped_from_refl: "dropped_from P reg reg"
  by (simp add: dropped_from_def)

lemma dropped_from_trans: "dropped_from P a b \<Longrightarrow> dropped_from P b c \<Longrightarrow> dropped_from P a c"
  unfolding dropped_from_def by (metis insertCI insertE singletonD)

lemma drop_block_ok:
  assumes "pool_laws P"
  shows "\<exists>r. drop_block P mk e reg (gid, b, ep) = Inr r \<and> entries r = entries reg \<and> dropped_from P reg r
    \<and> \<not> contain P (pool r) (mk (e_key e) gid) (block_id b)"
proof -
  have n: "\<not> contain P (uncache P p kg i) kg i" for p kg i using uncache_contain(2) [OF assms] by blast
  then show ?thesis using uncache_contain(1) [OF assms] unfolding drop_block_def dropped_from_def Let_def
    by (auto simp: py_guard_def)
qed

lemma drop_blocks_ok:
  assumes "pool_laws P"
  shows "\<exists>r. drop_blocks P mk e reg xs = Inr r \<and> entries r = entries reg \<and> dropped_from P reg r
    \<and> (\<forall>(gid, b, ep) \<in> set xs. \<not> contain P (pool r) (mk (e_key e) gid) (block_id b))"
proof (induction xs arbitrary: reg)
  case Nil
  show ?case by (simp add: dropped_from_refl)
next
  case (Cons x xs)
  obtain gid b ep where x: "x = (gid, b, ep)" by (cases x)
  obtain r1 where r1: "drop_block P mk e reg x = Inr r1" "entries r1 = entries reg" "dropped_from P reg r1"
    "\<not> contain P (pool r1) (mk (e_key e) gid) (block_id b)"
    using drop_block_ok [OF assms] unfolding x by blast
  obtain r where r: "drop_blocks P mk e r1 xs = Inr r" "entries r = entries r1" "dropped_from P r1 r"
    "\<forall>(gid, b, ep) \<in> set xs. \<not> contain P (pool r) (mk (e_key e) gid) (block_id b)"
    using Cons.IH by blast
  have "\<not> contain P (pool r) (mk (e_key e) gid) (block_id b)" using r(3) r1(4) unfolding dropped_from_def by blast
  then show ?case using r r1 dropped_from_trans [OF r1(3) r(3)] by (simp add: x)
qed

lemma drop_entry_ok:
  assumes "pool_laws P"
  shows "\<exists>r. drop_entry P mk reg e = Inr r \<and> entries r = dict_del (e_key e) (entries reg) \<and> dropped_from P reg r
    \<and> (\<forall>(i, gid, b, ep) \<in> set (e_blocks e). \<not> contain P (pool r) (mk (e_key e) gid) (block_id b))"
proof -
  obtain r where r: "drop_blocks P mk e reg (map snd (e_blocks e)) = Inr r" "entries r = entries reg" "dropped_from P reg r"
    "\<forall>(gid, b, ep) \<in> set (map snd (e_blocks e)). \<not> contain P (pool r) (mk (e_key e) gid) (block_id b)"
    using drop_blocks_ok [OF assms] by blast
  let ?r = "r\<lparr>entries := dict_del (e_key e) (entries r)\<rparr>"
  have "drop_entry P mk reg e = Inr ?r" using r(1) by (simp add: drop_entry_def)
  moreover have "dropped_from P reg ?r" using r(3) by (simp add: dropped_from_def)
  moreover have "\<forall>(i, gid, b, ep) \<in> set (e_blocks e). \<not> contain P (pool ?r) (mk (e_key e) gid) (block_id b)"
    using r(4) by force
  ultimately show ?thesis using r(2) by (intro exI [of _ ?r]) simp
qed

lemma inv_dict_del:
  assumes "registry_inv reg" "entries r = dict_del k (entries reg)"
  shows "registry_inv r"
  using assms by (auto simp: registry_inv_def distinct_dict_del)

lemma inv_entries: "registry_inv reg \<Longrightarrow> entries r = entries reg \<Longrightarrow> registry_inv r"
  by (simp add: registry_inv_def)

lemma inv_to_end: "registry_inv reg \<Longrightarrow> entries r = dict_to_end k (entries reg) \<Longrightarrow> registry_inv r"
  by (simp add: registry_inv_def distinct_dict_to_end)

lemma inv_put:
  assumes "registry_inv reg" "entries r = dict_to_end k (dict_put k e (entries reg))" "e_key e = k"
    "distinct (map fst (e_blocks e))" "\<forall>(i, gid, b, ep) \<in> set (e_blocks e). block_id b = i"
  shows "registry_inv r"
  using assms set_dict_put [of "entries reg" k e] distinct_dict_put [of "entries reg" k e]
  unfolding registry_inv_def by (auto simp: distinct_dict_to_end)

lemma inv_entry: "registry_inv reg \<Longrightarrow> map_of (entries reg) k = Some e \<Longrightarrow>
    e_key e = k \<and> distinct (map fst (e_blocks e)) \<and> (\<forall>(i, gid, b, ep) \<in> set (e_blocks e). block_id b = i)"
  unfolding registry_inv_def by (drule map_of_SomeD) auto

section \<open>Keeping within the bound\<close>

lemma drop_dead_ok:
  assumes "pool_laws P" "registry_inv reg" "keep \<in> fst ` set (entries reg)"
  shows "\<exists>r. drop_dead P mk keep reg es = Inr r \<and> registry_inv r \<and> keep \<in> fst ` set (entries r) \<and> cap r = cap reg
    \<and> set (entries r) \<subseteq> set (entries reg) \<and> map_of (entries r) keep = map_of (entries reg) keep"
  using assms(2,3)
proof (induction es arbitrary: reg)
  case (Cons e es)
  show ?case
  proof (cases "int (length (entries reg)) \<le> cap reg")
    case False
    show ?thesis
    proof (cases "e_key e \<noteq> keep \<and> entry_dead P mk reg e")
      case True
      let ?reg = "reg\<lparr>counts := (counts reg)\<lparr>dead := dead (counts reg) + 1\<rparr>\<rparr>"
      obtain r1 where r1: "drop_entry P mk ?reg e = Inr r1" "entries r1 = dict_del (e_key e) (entries reg)" "dropped_from P ?reg r1"
        using drop_entry_ok [OF assms(1), of mk ?reg e] by auto
      have i1: "registry_inv r1" using inv_dict_del [OF Cons.prems(1) r1(2)] .
      have k1: "keep \<in> fst ` set (entries r1)" using Cons.prems(2) True by (force simp: r1(2))
      have c1: "cap r1 = cap reg" using r1(3) by (simp add: dropped_from_def)
      obtain r where r: "drop_dead P mk keep r1 es = Inr r" "registry_inv r" "keep \<in> fst ` set (entries r)" "cap r = cap r1"
        "set (entries r) \<subseteq> set (entries r1)" "map_of (entries r) keep = map_of (entries r1) keep"
        using Cons.IH [OF i1 k1] by blast
      then show ?thesis using False True r1 c1 by auto
    next
      case keepe: False
      then have "drop_dead P mk keep reg (e # es) = drop_dead P mk keep reg es" using False by auto
      then show ?thesis using Cons.IH [OF Cons.prems] by (simp only:)
    qed
  qed (use Cons in simp)
qed simp

lemma evict_oldest_ok:
  assumes "pool_laws P" "registry_inv reg" "keep \<in> fst ` set (entries reg)" "length (entries reg) < n"
  shows "\<exists>r. evict_oldest P mk keep n reg = Inr r \<and> registry_inv r \<and> keep \<in> fst ` set (entries r) \<and> cap r = cap reg
    \<and> int (length (entries r)) \<le> max 1 (cap reg)
    \<and> set (entries r) \<subseteq> set (entries reg) \<and> map_of (entries r) keep = map_of (entries reg) keep"
  using assms(2-4)
proof (induction n arbitrary: reg)
  case (Suc n)
  show ?case
  proof (cases "int (length (entries reg)) \<le> cap reg")
    case True
    then show ?thesis using Suc.prems by (simp add: max.coboundedI2)
  next
    case False
    define reg1 where "reg1 = (case entries reg of [] \<Rightarrow> reg
      | (k, e) # _ \<Rightarrow> if e_key e = keep then reg\<lparr>entries := dict_to_end keep (entries reg)\<rparr> else reg)"
    have reg1: "registry_inv reg1" "set (entries reg1) = set (entries reg)" "cap reg1 = cap reg"
      "length (entries reg1) = length (entries reg)" "map_of (entries reg1) keep = map_of (entries reg) keep"
    proof -
      have "reg1 = reg \<or> reg1 = reg\<lparr>entries := dict_to_end keep (entries reg)\<rparr>"
        unfolding reg1_def by (auto split: list.splits)
      moreover have "map_of (dict_to_end keep (entries reg)) = map_of (entries reg)"
        using Suc.prems(1) by (intro map_of_dict_to_end) (simp add: registry_inv_def)
      moreover have "registry_inv (reg\<lparr>entries := dict_to_end keep (entries reg)\<rparr>)"
        by (rule inv_to_end [OF Suc.prems(1)]) simp
      ultimately show "registry_inv reg1" "set (entries reg1) = set (entries reg)" "cap reg1 = cap reg"
        "length (entries reg1) = length (entries reg)" "map_of (entries reg1) keep = map_of (entries reg) keep"
        using Suc.prems(1) by auto
    qed
    have step: "evict_oldest P mk keep (Suc n) reg = (case entries reg1 of [] \<Rightarrow> Inl StopIteration
           | (k, e) # _ \<Rightarrow>
               if e_key e = keep then Inr reg1
               else py_bind (drop_entry P mk (reg1\<lparr>counts := (counts reg1)\<lparr>evicted := evicted (counts reg1) + 1\<rparr>\<rparr>) e)
                      (evict_oldest P mk keep n))"
      using False unfolding reg1_def by (simp add: Let_def)
    obtain k e rest where es: "entries reg1 = (k, e) # rest"
      using Suc.prems(2) reg1(2) by (metis empty_iff image_empty list.exhaust list.set(1) surj_pair)
    have ek: "e_key e = k" using reg1(1) es by (simp add: registry_inv_def)
    show ?thesis
    proof (cases "e_key e = keep")
      case True
      have "entries reg1 = [(k, e)]"
      proof (cases "entries reg")
        case (Cons ke ess)
        obtain k0 e0 where ke: "ke = (k0, e0)" by (cases ke)
        have "e_key e0 = k0" using Suc.prems(1) Cons ke by (simp add: registry_inv_def)
        show ?thesis
        proof (cases "k0 = keep")
          case t: True
          have "k0 \<notin> fst ` set ess" using Suc.prems(1) Cons ke by (simp add: registry_inv_def)
          then have n: "fst x \<noteq> keep" if "x \<in> set ess" for x using that t by (auto simp: image_iff)
          have "filter (\<lambda>kv. fst kv \<noteq> keep) ess = ess" "filter (\<lambda>kv. fst kv = keep) ess = []"
            using n by (auto simp: filter_id_conv filter_empty_conv)
          then have "dict_to_end keep (entries reg) = ess @ [(k0, e0)]"
            using Cons ke t by (simp add: dict_to_end_def dict_del_def)
          then have e1: "entries reg1 = ess @ [(k0, e0)]" using Cons ke t \<open>e_key e0 = k0\<close> by (simp add: reg1_def)
          show ?thesis
          proof (cases ess)
            case (Cons a as)
            then have "k = fst a" using e1 es by auto
            then have "k \<in> fst ` set ess" using Cons by simp
            with \<open>k0 \<notin> fst ` set ess\<close> t True ek show ?thesis by simp
          qed (use e1 es in simp)
        next
          case False
          then have "entries reg1 = entries reg" using Cons ke \<open>e_key e0 = k0\<close> by (simp add: reg1_def)
          then show ?thesis using False True ek es Cons ke by simp
        qed
      qed (use Suc.prems(2) in simp)
      then have "int (length (entries reg1)) \<le> max 1 (cap reg)" by simp
      then show ?thesis using step es True reg1 Suc.prems(2) by simp
    next
      case nk: False
      let ?reg = "reg1\<lparr>counts := (counts reg1)\<lparr>evicted := evicted (counts reg1) + 1\<rparr>\<rparr>"
      obtain r1 where r1: "drop_entry P mk ?reg e = Inr r1" "entries r1 = dict_del (e_key e) (entries reg1)" "dropped_from P ?reg r1"
        using drop_entry_ok [OF assms(1), of mk ?reg e] by auto
      have i1: "registry_inv r1" using inv_dict_del [OF reg1(1) r1(2)] .
      have k1: "keep \<in> fst ` set (entries r1)" using Suc.prems(2) reg1(2) nk by (force simp: r1(2))
      have "Suc (length (dict_del (e_key e) (entries reg1))) = length (entries reg1)"
        using reg1(1) es ek by (intro length_dict_del) (auto simp: registry_inv_def)
      then have l1: "length (entries r1) < n" using Suc.prems(3) reg1(4) r1(2) by simp
      have c1: "cap r1 = cap reg" using r1(3) reg1(3) by (simp add: dropped_from_def)
      obtain r where r: "evict_oldest P mk keep n r1 = Inr r" "registry_inv r" "keep \<in> fst ` set (entries r)" "cap r = cap r1"
        "int (length (entries r)) \<le> max 1 (cap r1)" "set (entries r) \<subseteq> set (entries r1)"
        "map_of (entries r) keep = map_of (entries r1) keep"
        using Suc.IH [OF i1 k1 l1] by blast
      have "map_of (entries r1) keep = map_of (entries reg) keep" using r1(2) nk reg1(5) by simp
      then show ?thesis using step es nk r1 r c1 reg1 by auto
    qed
  qed
qed simp

lemma enforce_cap_ok:
  assumes "pool_laws P" "registry_inv reg" "keep \<in> fst ` set (entries reg)"
  shows "\<exists>r. enforce_cap P mk keep reg = Inr r \<and> registry_inv r \<and> keep \<in> fst ` set (entries r) \<and> cap r = cap reg
    \<and> int (length (entries r)) \<le> max 1 (cap reg)
    \<and> set (entries r) \<subseteq> set (entries reg) \<and> map_of (entries r) keep = map_of (entries reg) keep"
proof (cases "int (length (entries reg)) \<le> cap reg")
  case True
  then show ?thesis using assms by (simp add: enforce_cap_def max.coboundedI2)
next
  case False
  obtain r1 where r1: "drop_dead P mk keep reg (map snd (entries reg)) = Inr r1" "registry_inv r1"
    "keep \<in> fst ` set (entries r1)" "cap r1 = cap reg" "set (entries r1) \<subseteq> set (entries reg)"
    "map_of (entries r1) keep = map_of (entries reg) keep"
    using drop_dead_ok [OF assms] by blast
  obtain r where r: "evict_oldest P mk keep (Suc (length (entries r1))) r1 = Inr r" "registry_inv r"
    "keep \<in> fst ` set (entries r)" "cap r = cap r1" "int (length (entries r)) \<le> max 1 (cap r1)"
    "set (entries r) \<subseteq> set (entries r1)" "map_of (entries r) keep = map_of (entries r1) keep"
    using evict_oldest_ok [OF assms(1) r1(2,3) lessI] by blast
  have "enforce_cap P mk keep reg = Inr r"
    unfolding enforce_cap_def r1(1) py_bind_simps r(1) using False by simp
  then show ?thesis using r1 r by auto
qed


section \<open>Properties\<close>

lemma record_into_props:
  assumes "registry_inv reg" "\<forall>e. map_of (entries reg) key = Some e \<longrightarrow> e_tokens e = tokens"
  shows "registry_inv (record_into reg key tokens req gid b path now)"
    "key \<in> fst ` set (entries (record_into reg key tokens req gid b path now))"
    "cap (record_into reg key tokens req gid b path now) = cap reg"
    "pool (record_into reg key tokens req gid b path now) = pool reg"
    "\<exists>e. map_of (entries (record_into reg key tokens req gid b path now)) key = Some e
       \<and> e_key e = key \<and> e_tokens e = tokens
       \<and> map_of (e_blocks e) (block_id b) = Some (gid, b, Suc (epoch reg))"
    "tags (record_into reg key tokens req gid b path now) (block_id b) = Some (Suc (epoch reg), key, tokens)"
proof -
  define e where "e = entry_for reg key tokens req path now"
  define e' where "e' = e\<lparr>e_blocks := dict_put (block_id b) (gid, b, Suc (epoch reg)) (e_blocks e), e_last_used := now\<rparr>"
  let ?r = "record_into reg key tokens req gid b path now"
  have ent: "entries ?r = dict_to_end key (dict_put key e' (entries reg))"
    by (simp add: record_into_def Let_def e'_def e_def)
  have e: "e_key e = key \<and> distinct (map fst (e_blocks e)) \<and> (\<forall>(i, gid, b, ep) \<in> set (e_blocks e). block_id b = i)"
    "e_tokens e = tokens"
    using inv_entry [OF assms(1), of key] assms(2) by (auto simp: e_def entry_for_def split: option.splits)
  show "registry_inv ?r"
    using e set_dict_put [of "e_blocks e" "block_id b"] 
    by (intro inv_put [OF assms(1) ent]) (auto simp: e'_def distinct_dict_put)
  show "key \<in> fst ` set (entries ?r)"
    using keys_dict_put [of key e' "entries reg"] unfolding ent set_dict_to_end
    by (metis image_set in_set_conv_decomp list.set_map)
  show "cap ?r = cap reg" "pool ?r = pool reg" "tags ?r (block_id b) = Some (Suc (epoch reg), key, tokens)"
    by (simp_all add: record_into_def Let_def)
  have d: "distinct (map fst (dict_put key e' (entries reg)))"
    using assms(1) by (simp add: registry_inv_def distinct_dict_put)
  have "map_of (entries ?r) key = Some e'" unfolding ent map_of_dict_to_end [OF d] by simp
  then show "\<exists>e. map_of (entries ?r) key = Some e \<and> e_key e = key \<and> e_tokens e = tokens
       \<and> map_of (e_blocks e) (block_id b) = Some (gid, b, Suc (epoch reg))"
    using e by (intro exI [of _ e']) (simp add: e'_def)
qed

lemma registry_record_ok:
  assumes "pool_laws P" "registry_inv reg"
  shows "\<exists>r. registry_record P mk reg key tokens req gid b path now = Inr r \<and> registry_inv r
    \<and> int (length (entries r)) \<le> max 1 (cap reg)
    \<and> (\<exists>e. map_of (entries r) key = Some e \<and> e_tokens e = tokens \<and> fst (the (map_of (e_blocks e) (block_id b))) = gid)"
proof -
  obtain r0 where r0: "(case map_of (entries reg) key of
        Some e \<Rightarrow> if e_tokens e \<noteq> tokens then drop_entry P mk reg e else Inr reg
      | None \<Rightarrow> Inr reg) = Inr r0"
    and i0: "registry_inv r0" "cap r0 = cap reg" "\<forall>e. map_of (entries r0) key = Some e \<longrightarrow> e_tokens e = tokens"
  proof (cases "map_of (entries reg) key")
    case None
    then show ?thesis using that [of reg] assms(2) by simp
  next
    case (Some e)
    show ?thesis
    proof (cases "e_tokens e = tokens")
      case True
      then show ?thesis using that [of reg] assms(2) Some by simp
    next
      case False
      obtain r where r: "drop_entry P mk reg e = Inr r" "entries r = dict_del (e_key e) (entries reg)" "dropped_from P reg r"
        using drop_entry_ok [OF assms(1)] by blast
      have "e_key e = key" using inv_entry [OF assms(2) Some] by blast
      then show ?thesis using that [of r] False Some r inv_dict_del [OF assms(2) r(2)]
        by (simp add: dropped_from_def)
    qed
  qed
  note R = record_into_props [OF i0(1,3), of req gid b path now]
  obtain r where r: "enforce_cap P mk key (record_into r0 key tokens req gid b path now) = Inr r" "registry_inv r"
    "int (length (entries r)) \<le> max 1 (cap (record_into r0 key tokens req gid b path now))"
    "map_of (entries r) key = map_of (entries (record_into r0 key tokens req gid b path now)) key"
    using enforce_cap_ok [OF assms(1) R(1,2)] by blast
  have "registry_record P mk reg key tokens req gid b path now = Inr r"
    unfolding registry_record_def r0 py_bind_simps r(1) ..
  then show ?thesis using r R(3,5) i0(2) by fastforce
qed


text \<open>A pool as a finite map from hashes to sets of block ids.\<close>

definition demo_pool :: "((nat \<times> int \<Rightarrow> nat \<Rightarrow> bool), nat \<times> int) pool_ops" where
  "demo_pool = \<lparr>contain = (\<lambda>p h i. p h i), pop_entry = (\<lambda>p h i h' j. p h' j \<and> \<not> (h' = h \<and> j = i)),
     remove_hashes = (\<lambda>p i h j. p h j \<and> j \<noteq> i), primary_hash = (\<lambda>p i. if p (7, 0) i then Some (7, 0) else None),
     null_block = (\<lambda>p i. i = 0), extra_hashes = (\<lambda>p i. None), set_extra = (\<lambda>p i x. p)\<rparr>"

lemma demo_pool_laws: "pool_laws demo_pool"
  by (simp add: pool_laws_def demo_pool_def)

definition demo_registry :: "((nat \<times> int \<Rightarrow> nat \<Rightarrow> bool), nat) registry" where
  "demo_registry = registry_new 2 [0] (\<lambda>h i. h = (7, 0) \<and> i = 5)"

lemma registry_new_inv: "registry_inv (registry_new c gs p)"
  by (simp add: registry_inv_def registry_new_def)


text \<open>
  An admitted hit has only recorded blocks that are still valid; a refused one leaves
  none of the entry's recorded blocks in the pool's map under the boundary's hash, and the
  entry is gone.
\<close>

theorem admitted_blocks_are_valid:
  assumes "pool_laws P" "registry_inv reg"
  shows "\<exists>r ok. registry_admit P mk reg key blocks group_ids now = Inr (r, ok) \<and> registry_inv r
    \<and> (ok \<longrightarrow> pool r = pool reg \<and> fst ` set (entries r) = fst ` set (entries reg)
         \<and> (\<forall>e gid b. map_of (entries reg) key = Some e \<and> (gid, b) \<in> set (zip group_ids blocks)
              \<and> map_of (e_blocks e) (block_id b) \<noteq> None \<longrightarrow> entry_valid P mk reg e gid b))
    \<and> (\<not> ok \<longrightarrow> (\<exists>e. map_of (entries reg) key = Some e \<and> map_of (entries r) key = None
         \<and> (\<forall>(i, gid, b, ep) \<in> set (e_blocks e). \<not> contain P (pool r) (mk key gid) i)))"
proof (cases "map_of (entries reg) key")
  case None
  then show ?thesis using assms(2) by (intro exI [of _ reg] exI [of _ True]) (simp add: registry_admit_def)
next
  case (Some e)
  note E = inv_entry [OF assms(2) Some]
  let ?j = "judged_blocks e blocks group_ids"
  show ?thesis
  proof (cases "list_all (\<lambda>(gid, b). entry_valid P mk reg e gid b) ?j")
    case False
    let ?reg = "reg\<lparr>counts := (counts reg)\<lparr>invalid := invalid (counts reg) + 1\<rparr>\<rparr>"
    obtain r where r: "drop_entry P mk ?reg e = Inr r" "entries r = dict_del (e_key e) (entries reg)"
      "\<forall>(i, gid, b, ep) \<in> set (e_blocks e). \<not> contain P (pool r) (mk (e_key e) gid) (block_id b)"
      using drop_entry_ok [OF assms(1), of mk ?reg e] by auto
    have "registry_admit P mk reg key blocks group_ids now = Inr (r, False)"
      unfolding registry_admit_def Some option.case Let_def r(1) py_bind_simps using False by simp
    moreover have "map_of (entries r) key = None" using r(2) E by simp
    moreover have "\<forall>(i, gid, b, ep) \<in> set (e_blocks e). \<not> contain P (pool r) (mk key gid) i" using r(3) E by fastforce
    ultimately show ?thesis using inv_dict_del [OF assms(2) r(2)] Some by blast
  next
    case True
    let ?c = "length ?j < length group_ids"
    define reg1 where "reg1 = (if ?c then reg\<lparr>counts := (counts reg)\<lparr>native := native (counts reg) + 1\<rparr>\<rparr> else reg)"
    define reg2 where "reg2 = reg1\<lparr>entries := dict_to_end key (dict_put key (e\<lparr>e_last_used := now\<rparr>) (entries reg1)),
                              counts := (counts reg1)\<lparr>admits := admits (counts reg1) + 1\<rparr>\<rparr>"
    have e1: "entries reg1 = entries reg" "pool reg1 = pool reg" by (simp_all add: reg1_def)
    have adm: "registry_admit P mk reg key blocks group_ids now = Inr (if ?c \<and> ?j = [] then reg1 else reg2, True)"
      unfolding registry_admit_def Some option.case Let_def reg2_def reg1_def using True by simp
    have i1: "registry_inv reg1" using inv_entries [OF assms(2) e1(1)] .
    have ent2: "entries reg2 = dict_to_end key (dict_put key (e\<lparr>e_last_used := now\<rparr>) (entries reg))" by (simp add: reg2_def e1)
    have i2: "registry_inv reg2" using E by (intro inv_put [OF assms(2) ent2]) auto
    have k: "key \<in> fst ` set (entries reg)" using map_of_SomeD [OF Some] by force
    have "set (map fst (dict_put key (e\<lparr>e_last_used := now\<rparr>) (entries reg))) = fst ` set (entries reg)"
      unfolding keys_dict_put using k by simp
    then have k2: "fst ` set (entries reg2) = fst ` set (entries reg)" unfolding ent2 set_dict_to_end by simp
    have p2: "pool reg2 = pool reg" by (simp add: reg2_def e1)
    have "entry_valid P mk reg e gid b" if "(gid, b) \<in> set (zip group_ids blocks)" "map_of (e_blocks e) (block_id b) \<noteq> None" for gid b
      using True that by (fastforce simp: judged_blocks_def list_all_iff)
    then show ?thesis using adm i1 i2 k2 p2 e1 Some by (cases "?c \<and> ?j = []") auto
  qed
qed

theorem admitted_blocks_are_valid_witness:
  "case registry_record demo_pool (\<lambda>k g. (k, g)) demo_registry 7 1152 ''a'' 0 \<lparr>block_id = 5, block_obj = 1\<rparr> ''export'' 3 of
     Inl e \<Rightarrow> False
   | Inr reg \<Rightarrow> (\<exists>r ok. registry_admit demo_pool (\<lambda>k g. (k, g)) reg 7 [\<lparr>block_id = 5, block_obj = 1\<rparr>] [0] 4 = Inr (r, ok) \<and> registry_inv r)"
proof -
  obtain reg where reg: "registry_record demo_pool (\<lambda>k g. (k, g)) demo_registry 7 1152 ''a'' 0
      \<lparr>block_id = 5, block_obj = 1\<rparr> ''export'' 3 = Inr reg" "registry_inv reg"
    using registry_record_ok [OF demo_pool_laws registry_new_inv, of "\<lambda>k g. (k, g)" 2 "[0]" "\<lambda>h i. h = (7, 0) \<and> i = 5"
      7 1152 "''a''" 0 "\<lparr>block_id = 5, block_obj = 1\<rparr>" "''export''" 3]
    unfolding demo_registry_def by (elim exE conjE)
  have "\<exists>r ok. registry_admit demo_pool (\<lambda>k g. (k, g)) reg 7 [\<lparr>block_id = 5, block_obj = 1\<rparr>] [0] 4 = Inr (r, ok) \<and> registry_inv r"
    using admitted_blocks_are_valid [OF demo_pool_laws reg(2), of "\<lambda>k g. (k, g)" 7 "[\<lparr>block_id = 5, block_obj = 1\<rparr>]" "[0]" 4]
    by (elim exE conjE) (intro exI conjI)
  then show ?thesis unfolding reg(1) sum.case .
qed

text \<open>A recorded block whose pool entry is there is a valid hit, and stays one when it is moved.\<close>

lemma record_into_valid:
  assumes "registry_inv reg" "\<forall>e. map_of (entries reg) key = Some e \<longrightarrow> e_tokens e = tokens"
    "contain P (pool reg) (mk key gid) (block_id b)" "\<not> null_block P (pool reg) (block_id b)"
  shows "\<exists>e. map_of (entries (record_into reg key tokens req gid b path now)) key = Some e
    \<and> entry_valid P mk (record_into reg key tokens req gid b path now) e gid b"
proof -
  note R = record_into_props [OF assms(1,2), of req gid b path now]
  obtain e where "map_of (entries (record_into reg key tokens req gid b path now)) key = Some e" "e_key e = key" "e_tokens e = tokens"
    "map_of (e_blocks e) (block_id b) = Some (gid, b, Suc (epoch reg))" using R(5) by blast
  then show ?thesis using assms(3,4) R(4,6) by (intro exI [of _ e]) (simp add: entry_valid_def)
qed

text \<open>
  A copy-on-write move carries the recorded state to the new block: once the pool maps
  it, it is valid, and the old block is no longer recorded.
\<close>

theorem moved_block_stays_valid:
  assumes "registry_inv reg" "map_of (entries reg) key = Some e" "entry_valid P mk reg e gid b"
    "map_of (e_blocks e) (block_id d) = None" "contain P q (mk key gid) (block_id d)" "\<not> null_block P q (block_id d)"
  shows "\<exists>e'. map_of (entries (registry_moved reg b d gid)) key = Some e'
    \<and> entry_valid P mk (registry_moved reg b d gid\<lparr>pool := q\<rparr>) e' gid d
    \<and> \<not> entry_valid P mk (registry_moved reg b d gid\<lparr>pool := q\<rparr>) e' gid b
    \<and> entry_groups e' = entry_groups e"
proof -
  note E = inv_entry [OF assms(1,2)]
  obtain rb ep where v: "map_of (e_blocks e) (block_id b) = Some (gid, rb, ep)" "block_obj rb = block_obj b"
    "tags reg (block_id b) = Some (ep, e_key e, e_tokens e)"
    using assms(3) by (auto simp: entry_valid_def split: option.splits)
  define e' where "e' = e\<lparr>e_blocks := dict_put (block_id d) (gid, d, ep) (dict_del (block_id b) (e_blocks e))\<rparr>"
  have m: "registry_moved reg b d gid = reg\<lparr>entries := dict_put key e' (entries reg),
      tags := ((tags reg)(block_id d \<mapsto> (ep, key, e_tokens e)))(block_id b := None),
      counts := (counts reg)\<lparr>moves := moves (counts reg) + 1\<rparr>\<rparr>"
    using v assms(2) E by (simp add: registry_moved_def e'_def)
  have n: "block_id d \<noteq> block_id b" using v(1) assms(4) by auto
  have "map_of (entries (registry_moved reg b d gid)) key = Some e'" by (simp add: m)
  moreover have "entry_valid P mk (registry_moved reg b d gid\<lparr>pool := q\<rparr>) e' gid d"
    using assms(5,6) n E by (simp add: m entry_valid_def e'_def)
  moreover have "\<not> entry_valid P mk (registry_moved reg b d gid\<lparr>pool := q\<rparr>) e' gid b"
    using n by (simp add: m entry_valid_def e'_def)
  moreover have "entry_groups e' = entry_groups e"
  proof -
    let ?d = "dict_del (block_id b) (e_blocks e)"
    have src: "(block_id b, gid, rb, ep) \<in> set (e_blocks e)" using map_of_SomeD [OF v(1)] .
    have only: "x = (block_id b, gid, rb, ep)" if "x \<in> set (e_blocks e)" "fst x = block_id b" for x
      using that src E by (metis eq_key_imp_eq_value prod.collapse)
    have "block_id d \<notin> fst ` set ?d" using assms(4) by (auto simp: map_of_eq_None_iff)
    then have "{kv \<in> set ?d. fst kv \<noteq> block_id d} = set ?d" by (auto simp: image_iff)
    then have "set (dict_put (block_id d) (gid, d, ep) ?d) = set ?d \<union> {(block_id d, gid, d, ep)}"
      using set_dict_put [OF distinct_dict_del [OF E [THEN conjunct2, THEN conjunct1], where k = "block_id b"],
        where k = "block_id d" and v = "(gid, d, ep)"]
      by (simp only: )
    then have "set (e_blocks e') = {x \<in> set (e_blocks e). fst x \<noteq> block_id b} \<union> {(block_id d, gid, d, ep)}"
      by (simp add: e'_def)
    then have "entry_groups e' = (\<lambda>(i, gid, b, ep). gid) ` {x \<in> set (e_blocks e). fst x \<noteq> block_id b} \<union> {gid}"
      by (simp add: entry_groups_def)
    moreover have "set (e_blocks e) = {x \<in> set (e_blocks e). fst x \<noteq> block_id b} \<union> {(block_id b, gid, rb, ep)}"
    proof (rule set_eqI)
      fix x
      show "x \<in> set (e_blocks e) \<longleftrightarrow> x \<in> {x \<in> set (e_blocks e). fst x \<noteq> block_id b} \<union> {(block_id b, gid, rb, ep)}"
        using only [of x] src by (cases "fst x = block_id b") auto
    qed
    then have "entry_groups e = (\<lambda>(i, gid, b, ep). gid) ` ({x \<in> set (e_blocks e). fst x \<noteq> block_id b} \<union> {(block_id b, gid, rb, ep)})"
      unfolding entry_groups_def by (rule arg_cong)
    ultimately show ?thesis by simp
  qed
  ultimately show ?thesis by blast
qed


theorem moved_block_stays_valid_witness:
  "\<exists>e reg q. entry_valid demo_pool (\<lambda>k g. (k, g)) (registry_moved reg \<lparr>block_id = 5, block_obj = 1\<rparr> \<lparr>block_id = 6, block_obj = 2\<rparr> 0\<lparr>pool := q\<rparr>)
     e 0 \<lparr>block_id = 6, block_obj = 2\<rparr>"
proof -
  let ?b = "\<lparr>block_id = 5, block_obj = 1\<rparr>" and ?reg = "record_into demo_registry 7 1152 ''a'' 0 \<lparr>block_id = 5, block_obj = 1\<rparr> ''export'' 3"
  have i: "registry_inv demo_registry" unfolding demo_registry_def by (rule registry_new_inv)
  have n: "\<forall>e. map_of (entries demo_registry) 7 = Some e \<longrightarrow> e_tokens e = 1152"
    by (simp add: demo_registry_def registry_new_def)
  have c: "contain demo_pool (pool demo_registry) (7, 0) (block_id ?b)" "\<not> null_block demo_pool (pool demo_registry) (block_id ?b)"
    by (simp_all add: demo_registry_def registry_new_def demo_pool_def)
  obtain e where e: "map_of (entries ?reg) 7 = Some e" "entry_valid demo_pool (\<lambda>k g. (k, g)) ?reg e 0 ?b"
    using record_into_valid [OF i n, of demo_pool "\<lambda>k g. (k, g)" 0 ?b "''a''" "''export''" 3] c by auto
  have "e_blocks e = [(5, 0, ?b, 1)]"
    using e(1) by (simp add: record_into_def Let_def entry_for_def demo_registry_def registry_new_def dict_to_end_def dict_del_def)
       (auto split: if_splits)
  then have "map_of (e_blocks e) (block_id \<lparr>block_id = 6, block_obj = 2\<rparr>) = None" by simp
  moreover have "contain demo_pool (\<lambda>h i. i = 6) (7, 0) (block_id \<lparr>block_id = 6, block_obj = 2\<rparr>)"
    "\<not> null_block demo_pool (\<lambda>h i. i = 6) (block_id \<lparr>block_id = 6, block_obj = 2\<rparr>)" by (simp_all add: demo_pool_def)
  ultimately show ?thesis
    using moved_block_stays_valid [OF record_into_props(1) [OF i n] e(1,2)] by blast
qed

end
