(* ===== verification/Topk_Canonical.thy ===== *)
theory Topk_Canonical
  imports Ringside_Prelude "HOL-Library.Extended_Nat"
begin

text \<open>
  The canonical order of a top-k selection (\<open>src/src/tp4/deterministic_sparse_topk.py\<close>). A selector has picked the
  \<open>K\<close> best scores of a row in some order; the kernels keep only their least score, the threshold, and recover
  the selection by two scans over tiles of \<open>B\<close> columns: counts of larger and equal scores per tile, then a
  scatter that writes each kept column to its place. A program instance handles one row and one tile; instances of a
  launch run in any order, so a launch takes the order as an argument. Scores are a linear order with a
  greatest element (the padding value infinity; NaN is not modelled). Memory that no instance has written is the argument
  \<open>junk\<close>.
\<close>

section \<open>One row\<close>

record 'v topk_row =
  scores :: "'v list"
  row_start :: int
  row_end :: int
  ids :: "int list"

definition valid_col :: "'v topk_row \<Rightarrow> nat \<Rightarrow> bool" where
  "valid_col r c \<longleftrightarrow> c < length (scores r) \<and> row_start r \<le> int c \<and> int c < row_end r"

definition selected_scores :: "'v::{linorder,order_top} topk_row \<Rightarrow> 'v list" where
  "selected_scores r = map (\<lambda>i. if 0 \<le> i \<and> row_start r + i < row_end r then scores r ! nat (row_start r + i) else top) (ids r)"

definition threshold_of :: "'v::{linorder,order_top} topk_row \<Rightarrow> 'v" where
  "threshold_of r = foldr min (selected_scores r) top"

definition tile_cols :: "nat \<Rightarrow> nat \<Rightarrow> nat list" where
  "tile_cols B t = [t * B..<t * B + B]"

definition above :: "'v::linorder topk_row \<Rightarrow> 'v \<Rightarrow> nat \<Rightarrow> bool" where
  "above r thr c \<longleftrightarrow> valid_col r c \<and> thr < scores r ! c"

definition tied :: "'v::linorder topk_row \<Rightarrow> 'v \<Rightarrow> nat \<Rightarrow> bool" where
  "tied r thr c \<longleftrightarrow> valid_col r c \<and> scores r ! c = thr"

definition tile_counts :: "'v::linorder topk_row \<Rightarrow> 'v \<Rightarrow> nat \<Rightarrow> nat \<Rightarrow> nat \<times> nat" where
  "tile_counts r thr B t = (length (filter (above r thr) (tile_cols B t)), length (filter (tied r thr) (tile_cols B t)))"

text \<open>The two counting kernels. The second one returns at once for tiles past the row's end.\<close>

definition skipped :: "'v topk_row \<Rightarrow> nat \<Rightarrow> nat \<Rightarrow> bool" where
  "skipped r B t \<longleftrightarrow> 0 < t \<and> row_end r \<le> int (t * B)"

definition counts_fused :: "'v::{linorder,order_top} topk_row \<Rightarrow> nat \<Rightarrow> nat \<Rightarrow> (nat \<times> nat) list" where
  "counts_fused r B T = map (tile_counts r (threshold_of r) B) [0..<T]"

definition counts_thr :: "'v::linorder topk_row \<Rightarrow> 'v \<Rightarrow> nat \<Rightarrow> nat \<Rightarrow> (nat \<Rightarrow> nat \<times> nat) \<Rightarrow> (nat \<times> nat) list" where
  "counts_thr r thr B T junk = map (\<lambda>t. if skipped r B t then junk t else tile_counts r thr B t) [0..<T]"

text \<open>How many tiles the counts of the second kernel are read from.\<close>

definition live_tiles :: "'v topk_row \<Rightarrow> nat \<Rightarrow> nat \<Rightarrow> nat" where
  "live_tiles r B T = nat (max (min ((row_end r + int B - 1) div int B) (int T)) 1)"

text \<open>What the scatter of one tile writes: place and id of each kept column, with the running counts
  inside the tile. \<open>cs\<close> holds the counts that are read.\<close>

definition scatter_writes :: "'v::linorder topk_row \<Rightarrow> 'v \<Rightarrow> nat \<Rightarrow> (nat \<times> nat) list \<Rightarrow> nat \<Rightarrow> nat \<Rightarrow> (nat \<times> int) list" where
  "scatter_writes r thr K cs B t =
     (let gt_total = sum_list (map fst cs);
          gt_before = sum_list (map fst (take t cs));
          eq_before = sum_list (map snd (take t cs));
          tie_slots = K - gt_total;
          cols = tile_cols B t;
          tie_rank = (\<lambda>i. eq_before + length (filter (tied r thr) (take (Suc i) cols)));
          keep = (\<lambda>i. above r thr (cols ! i) \<or> tied r thr (cols ! i) \<and> tie_rank i \<le> tie_slots);
          dest = (\<lambda>i. gt_before + min eq_before tie_slots + length (filter keep [0..<Suc i]) - 1)
      in map (\<lambda>i. (dest i, int (cols ! i) - row_start r)) (filter (\<lambda>i. keep i \<and> dest i < K) [0..<B]))"

definition put_all :: "int list \<Rightarrow> (nat \<times> int) list \<Rightarrow> int list" where
  "put_all = foldl (\<lambda>out (d, v). out[d := v])"

text \<open>Tile 0 also clears the places past the row's length.\<close>

definition cleared :: "'v topk_row \<Rightarrow> nat \<Rightarrow> (nat \<times> int) list" where
  "cleared r K = map (\<lambda>p. (p, -1)) (filter (\<lambda>p. min (int K) (row_end r - row_start r) \<le> int p) [0..<K])"

definition scatter_tile :: "'v::linorder topk_row \<Rightarrow> 'v \<Rightarrow> nat \<Rightarrow> (nat \<times> nat) list \<Rightarrow> nat \<Rightarrow> nat \<Rightarrow> (nat \<times> int) list" where
  "scatter_tile r thr K cs B t = scatter_writes r thr K cs B t @ (if t = 0 then cleared r K else [])"

definition scatter_skip :: "'v::linorder topk_row \<Rightarrow> 'v \<Rightarrow> nat \<Rightarrow> (nat \<times> nat) list \<Rightarrow> nat \<Rightarrow> nat \<Rightarrow> nat \<Rightarrow> (nat \<times> int) list" where
  "scatter_skip r thr K cs B T t = (if skipped r B t then [] else scatter_tile r thr K (take (live_tiles r B T) cs) B t)"

section \<open>The launches\<close>

definition fused_path :: "'v::{linorder,order_top} topk_row \<Rightarrow> nat \<Rightarrow> nat \<Rightarrow> nat \<Rightarrow> nat list \<Rightarrow> int list" where
  "fused_path r K B T order =
     put_all (ids r) (concat (map (scatter_tile r (threshold_of r) K (counts_fused r B T) B) order))"

definition threshold_path ::
  "'v::{linorder,order_top} topk_row \<Rightarrow> nat \<Rightarrow> nat \<Rightarrow> nat \<Rightarrow> nat list \<Rightarrow> (nat \<Rightarrow> nat \<times> nat) \<Rightarrow> int list" where
  "threshold_path r K B T order junk =
     put_all (ids r) (concat (map (scatter_skip r (threshold_of r) K (counts_thr r (threshold_of r) B T junk) B T) order))"

text \<open>\<open>canonicalize_topk\<close> over all rows of width \<open>n\<close>. Without starts every row starts at 0.\<close>

definition canonicalize_topk ::
  "nat \<Rightarrow> nat \<Rightarrow> nat \<Rightarrow> nat list \<Rightarrow> (nat \<Rightarrow> nat \<times> nat) \<Rightarrow> 'v::{linorder,order_top} list list \<Rightarrow> int list option \<Rightarrow> int list
     \<Rightarrow> int list list \<Rightarrow> int list list py" where
  "canonicalize_topk small n k order junk ss starts ends outs =
     (if ss = [] then Inr outs
      else py_guard (k \<notin> {512, 1024, 2048}) AssertionError
        (let tiles = nat (cdiv (int n) 1024);
             row = (\<lambda>i. \<lparr>scores = ss ! i, row_start = (case starts of None \<Rightarrow> 0 | Some st \<Rightarrow> st ! i), row_end = ends ! i, ids = outs ! i\<rparr>)
         in Inr (map (\<lambda>i. if length ss \<le> small then fused_path (row i) k 1024 tiles order
                          else threshold_path (row i) k 1024 tiles order junk) [0..<length ss])))"

section \<open>The canonical selection\<close>

text \<open>The specification: a column is selected when fewer than \<open>K\<close> columns of the row beat it, by a larger score
  or by the same score at a lower index. The ids are ascending and padded with \<open>-1\<close>.\<close>

definition beats :: "'v::linorder topk_row \<Rightarrow> nat \<Rightarrow> nat \<Rightarrow> bool" where
  "beats r d c \<longleftrightarrow> scores r ! c < scores r ! d \<or> scores r ! d = scores r ! c \<and> d < c"

definition row_cols :: "'v topk_row \<Rightarrow> nat list" where
  "row_cols r = filter (valid_col r) [0..<length (scores r)]"

definition canonical :: "'v::linorder topk_row \<Rightarrow> nat \<Rightarrow> int list" where
  "canonical r K =
     (let best = filter (\<lambda>c. length (filter (\<lambda>d. beats r d c) (row_cols r)) < K) (row_cols r)
      in map (\<lambda>c. int c - row_start r) best @ replicate (K - length best) (-1))"

text \<open>What the selector promises: its non-negative ids are distinct columns of the row, as many as \<open>K\<close> allows, no
  column outside has a larger score than one inside, and the other places hold \<open>-1\<close>.\<close>

definition picked :: "'v topk_row \<Rightarrow> nat list" where
  "picked r = map (\<lambda>i. nat (row_start r + i)) (filter (\<lambda>i. 0 \<le> i) (ids r))"

definition exact_selection :: "'v::linorder topk_row \<Rightarrow> nat \<Rightarrow> bool" where
  "exact_selection r K \<longleftrightarrow>
     length (ids r) = K \<and> 0 \<le> row_start r \<and> row_end r \<le> int (length (scores r))
     \<and> (\<forall>i \<in> set (ids r). i = -1 \<or> 0 \<le> i \<and> row_start r + i < row_end r)
     \<and> distinct (picked r) \<and> length (picked r) = min K (length (row_cols r))
     \<and> (\<forall>c \<in> set (row_cols r). \<forall>d \<in> set (picked r). c \<notin> set (picked r) \<longrightarrow> scores r ! c \<le> scores r ! d)"

section \<open>Filtering a prefix of the columns\<close>

lemma map_shift: "map (\<lambda>i. a + i) [0..<k] = [a..<a + k]"
  by (induction k) simp_all

lemma filter_prefix_length: "a \<le> b \<Longrightarrow> length (filter P [0..<a]) \<le> length (filter P [0..<b])"
  by (metis filter_append le_add1 length_append upt_add_eq_append le_add_diff_inverse zero_le)

lemma filter_nth_prefix:
  assumes "P c" "c < n"
  shows "length (filter P [0..<c]) < length (filter P [0..<n])" "filter P [0..<n] ! length (filter P [0..<c]) = c"
proof -
  have "[0..<n] = [0..<c] @ c # [Suc c..<n]" using assms(2) upt_add_eq_append [of 0 c "n - c"] upt_conv_Cons [of c n] by simp
  then have e: "filter P [0..<n] = filter P [0..<c] @ c # filter P [Suc c..<n]" using assms(1) by simp
  show "length (filter P [0..<c]) < length (filter P [0..<n])" "filter P [0..<n] ! length (filter P [0..<c]) = c"
    unfolding e by (simp_all add: nth_append)
qed

lemma filter_prefix_inj:
  assumes "P c" "P d" "length (filter P [0..<c]) = length (filter P [0..<d])"
  shows "c = d"
proof (rule ccontr)
  assume "c \<noteq> d"
  then consider "c < d" | "d < c" by linarith
  then show False
  proof cases
    case 1
    then show False using filter_nth_prefix(1) [of P c d] assms by simp
  next
    case 2
    then show False using filter_nth_prefix(1) [of P d c] assms by simp
  qed
qed

lemma filter_upt_split: "length (filter P [0..<a + k]) = length (filter P [0..<a]) + length (filter P [a..<a + k])"
  unfolding upt_add_eq_append [of 0 a k, OF le0] by simp

text \<open>The first \<open>s\<close> columns with a property, and the columns of another one, counted together.\<close>

lemma filter_first_length:
  assumes "\<And>c. \<not> (P c \<and> Q c)"
  shows "length (filter (\<lambda>c. P c \<or> Q c \<and> length (filter Q [0..<Suc c]) \<le> s) [0..<n])
    = length (filter P [0..<n]) + min (length (filter Q [0..<n])) s"
proof (induction n)
  case (Suc n)
  consider "P n" "\<not> Q n" | "\<not> P n" "Q n" | "\<not> P n" "\<not> Q n" using assms by blast
  then show ?case
  proof cases
    case 1
    then show ?thesis using Suc by (simp only: upt_Suc_append le0 filter_append) simp
  next
    case 2
    then show ?thesis using Suc by (cases "length (filter Q [0..<n]) < s") simp_all
  next
    case 3
    then show ?thesis using Suc by (simp only: upt_Suc_append le0 filter_append) simp
  qed
qed simp

section \<open>The tiles\<close>

lemma tile_sum: "sum_list (map (\<lambda>t. length (filter P (tile_cols B t))) [0..<T]) = length (filter P [0..<T * B])"
proof (induction T)
  case (Suc T)
  have "length (filter P [0..<Suc T * B]) = length (filter P [0..<T * B]) + length (filter P [T * B..<T * B + B])"
    using filter_upt_split [of P "T * B" B] by (simp only: mult_Suc add.commute [of B])
  then show ?case using Suc by (simp add: tile_cols_def)
qed simp

lemma tile_counts_sums:
  assumes "t \<le> T"
  shows "sum_list (map fst (take t (map (tile_counts r thr B) [0..<T]))) = length (filter (above r thr) [0..<t * B])"
    "sum_list (map snd (take t (map (tile_counts r thr B) [0..<T]))) = length (filter (tied r thr) [0..<t * B])"
  using assms by (simp_all add: take_map tile_counts_def o_def tile_sum)

text \<open>Which columns a launch keeps.\<close>

definition kept :: "'v::linorder topk_row \<Rightarrow> 'v \<Rightarrow> nat \<Rightarrow> nat \<Rightarrow> bool" where
  "kept r thr K c \<longleftrightarrow> above r thr c \<or> tied r thr c
     \<and> length (filter (tied r thr) [0..<Suc c]) \<le> K - length (filter (above r thr) [0..<length (scores r)])"

lemma kept_length:
  "length (filter (kept r thr K) [0..<n]) = length (filter (above r thr) [0..<n])
     + min (length (filter (tied r thr) [0..<n])) (K - length (filter (above r thr) [0..<length (scores r)]))"
  unfolding kept_def by (rule filter_first_length) (auto simp: above_def tied_def)

lemma above_bound: "length (scores r) \<le> n \<Longrightarrow> filter (above r thr) [0..<n] = filter (above r thr) [0..<length (scores r)]"
proof -
  assume "length (scores r) \<le> n"
  then obtain k where n: "n = length (scores r) + k" using le_Suc_ex by blast
  have "filter (above r thr) [length (scores r)..<length (scores r) + k] = []" by (simp add: filter_empty_conv above_def valid_col_def)
  moreover have "[0..<n] = [0..<length (scores r)] @ [length (scores r)..<length (scores r) + k]"
    unfolding n by (rule upt_add_eq_append) simp
  ultimately show ?thesis by (simp only: filter_append append_Nil2)
qed

lemma take_tile: "i \<le> B \<Longrightarrow> take i (tile_cols B t) = [t * B..<t * B + i]"
  by (simp add: tile_cols_def take_upt)

text \<open>The writes of a tile: each kept column goes to the number of kept columns before it.\<close>

lemma scatter_writes_eq:
  assumes gt: "sum_list (map fst cs) = length (filter (above r thr) [0..<length (scores r)])"
    and before: "sum_list (map fst (take t cs)) = length (filter (above r thr) [0..<t * B])"
      "sum_list (map snd (take t cs)) = length (filter (tied r thr) [0..<t * B])"
  shows "scatter_writes r thr K cs B t =
    map (\<lambda>c. (length (filter (kept r thr K) [0..<c]), int c - row_start r))
      (filter (\<lambda>c. kept r thr K c \<and> length (filter (kept r thr K) [0..<c]) < K) [t * B..<t * B + B])"
proof -
  let ?k = "kept r thr K"
  have nth: "tile_cols B t ! i = t * B + i" if "i < B" for i using that by (simp add: tile_cols_def)
  have rank: "length (filter (tied r thr) [0..<t * B]) + length (filter (tied r thr) (take (Suc i) (tile_cols B t)))
      = length (filter (tied r thr) [0..<Suc (t * B + i)])" if "i < B" for i
    using that take_tile [of "Suc i" B t] filter_upt_split [of "tied r thr" "t * B" "Suc i"] by simp
  define keep where "keep = (\<lambda>i. above r thr (tile_cols B t ! i) \<or> tied r thr (tile_cols B t ! i)
      \<and> sum_list (map snd (take t cs)) + length (filter (tied r thr) (take (Suc i) (tile_cols B t))) \<le> K - sum_list (map fst cs))"
  have keep: "keep i = ?k (t * B + i)" if "i < B" for i
    unfolding keep_def kept_def nth [OF that] gt before rank [OF that] by simp
  have run: "length (filter keep [0..<Suc i]) = length (filter ?k [t * B..<t * B + Suc i])" if "i < B" for i
  proof -
    have "filter keep [0..<Suc i] = filter (\<lambda>j. ?k (t * B + j)) [0..<Suc i]"
      using keep that by (intro filter_cong) auto
    moreover have "map (\<lambda>j. t * B + j) [0..<Suc i] = [t * B..<t * B + Suc i]" by (rule map_shift)
    ultimately show ?thesis by (metis (no_types, lifting) comp_def filter_cong filter_map length_map)
  qed
  define dest where "dest = (\<lambda>i. sum_list (map fst (take t cs)) + min (sum_list (map snd (take t cs))) (K - sum_list (map fst cs))
      + length (filter keep [0..<Suc i]) - 1)"
  have dest: "dest i = length (filter ?k [0..<t * B + i])" if "i < B" "keep i" for i
  proof -
    have "dest i = length (filter ?k [0..<t * B]) + length (filter ?k [t * B..<t * B + Suc i]) - 1"
      unfolding dest_def run [OF that(1)] kept_length [of r thr K "t * B"] gt before by simp
    also have "\<dots> = length (filter ?k [0..<Suc (t * B + i)]) - 1" using filter_upt_split [of ?k "t * B" "Suc i"] by simp
    also have "\<dots> = length (filter ?k [0..<t * B + i])" using that keep by simp
    finally show ?thesis .
  qed
  have "scatter_writes r thr K cs B t = map (\<lambda>i. (dest i, int (tile_cols B t ! i) - row_start r)) (filter (\<lambda>i. keep i \<and> dest i < K) [0..<B])"
    unfolding scatter_writes_def Let_def dest_def keep_def by simp
  also have "\<dots> = map (\<lambda>i. (length (filter ?k [0..<t * B + i]), int (t * B + i) - row_start r))
      (filter (\<lambda>i. ?k (t * B + i) \<and> length (filter ?k [0..<t * B + i]) < K) [0..<B])"
    using dest keep nth by (intro map_cong filter_cong) auto
  also have "\<dots> = map (\<lambda>c. (length (filter ?k [0..<c]), int c - row_start r))
      (filter (\<lambda>c. ?k c \<and> length (filter ?k [0..<c]) < K) (map (\<lambda>i. t * B + i) [0..<B]))"
    by (simp add: filter_map o_def)
  also have "map (\<lambda>i. t * B + i) [0..<B] = [t * B..<t * B + B]" by (rule map_shift)
  finally show ?thesis .
qed

section \<open>A launch\<close>

lemma put_all_simps [simp]: "put_all out [] = out" "put_all out ((d, v) # ws) = put_all (out[d := v]) ws"
  by (simp_all add: put_all_def)

lemma put_all_length [simp]: "length (put_all out ws) = length out"
  by (induction ws arbitrary: out) (auto simp: put_all_def)

lemma put_all_other: "p \<notin> fst ` set ws \<Longrightarrow> put_all out ws ! p = out ! p"
  by (induction ws arbitrary: out) auto

lemma put_all_written:
  assumes "(p, v) \<in> set ws" "\<And>v'. (p, v') \<in> set ws \<Longrightarrow> v' = v" "p < length out"
  shows "put_all out ws ! p = v"
  using assms
proof (induction ws arbitrary: out)
  case (Cons w ws)
  obtain d x where w: "w = (d, x)" by force
  show ?case
  proof (cases "(p, v) \<in> set ws")
    case True
    have "put_all (out[d := x]) ws ! p = v"
    proof (rule Cons.IH [OF True])
      show "v' = v" if "(p, v') \<in> set ws" for v' using Cons.prems(2) that by simp
    qed (use Cons.prems(3) in simp)
    then show ?thesis by (simp add: w)
  next
    case False
    then have e: "d = p" "x = v" using Cons.prems(1) w by auto
    have "p \<notin> fst ` set ws"
    proof
      assume "p \<in> fst ` set ws"
      then obtain v' where "(p, v') \<in> set ws" by force
      with Cons.prems(2) [of v'] False show False by simp
    qed
    then show ?thesis using put_all_other [of p ws "out[p := v]"] Cons.prems(3) w e by simp
  qed
qed simp

definition write_of :: "'v::linorder topk_row \<Rightarrow> 'v \<Rightarrow> nat \<Rightarrow> nat \<Rightarrow> nat \<times> int" where
  "write_of r thr K c = (length (filter (kept r thr K) [0..<c]), int c - row_start r)"

definition kept_in :: "'v::linorder topk_row \<Rightarrow> 'v \<Rightarrow> nat \<Rightarrow> nat \<Rightarrow> nat \<Rightarrow> nat list" where
  "kept_in r thr K B t = filter (\<lambda>c. kept r thr K c \<and> length (filter (kept r thr K) [0..<c]) < K) [t * B..<t * B + B]"

lemma kept_col: "kept r thr K c \<Longrightarrow> c < length (scores r)"
  by (auto simp: kept_def above_def tied_def valid_col_def)

text \<open>Whatever the order of the instances, the row ends with the kept columns in ascending order.\<close>

lemma grid_result:
  fixes r :: "'v::{linorder,order_top} topk_row" and thr :: 'v and K :: nat
  defines "lst \<equiv> filter (kept r thr K) [0..<length (scores r)]"
  assumes order: "set order = {..<T}" "0 < T" "length (scores r) \<le> T * B"
    and W: "\<And>t. t < T \<Longrightarrow> set (W t) = write_of r thr K ` set (kept_in r thr K B t) \<union> (if t = 0 then set (cleared r K) else {})"
    and len: "length out = K" "length lst \<le> K" "min (int K) (row_end r - row_start r) = int (length lst)"
  shows "put_all out (concat (map W order)) = map (\<lambda>c. int c - row_start r) lst @ replicate (K - length lst) (-1)"
proof -
  let ?k = "kept r thr K"
  let ?ws = "concat (map W order)"
  have ws: "set ?ws = (\<Union>t < T. set (W t))" using order(1) by auto
  have B: "0 < B \<or> lst = []" using order(3) by (cases B) (auto simp: lst_def)
  have place: "length (filter ?k [0..<c]) < length lst \<and> lst ! length (filter ?k [0..<c]) = c" if "?k c" for c
    using filter_nth_prefix [of ?k c "length (scores r)"] that kept_col [OF that] unfolding lst_def by blast
  have from_W: "(p < length lst \<and> v = int (lst ! p) - row_start r) \<or> (length lst \<le> p \<and> p < K \<and> v = -1)" if pv: "(p, v) \<in> set ?ws" for p v
  proof -
    obtain t where t: "t < T" "(p, v) \<in> set (W t)" using pv unfolding ws by blast
    show ?thesis
    proof (cases "(p, v) \<in> write_of r thr K ` set (kept_in r thr K B t)")
      case True
      then obtain c where "?k c" "p = length (filter ?k [0..<c])" "v = int c - row_start r"
        by (auto simp: write_of_def kept_in_def)
      then show ?thesis using place by simp
    next
      case False
      then have "(p, v) \<in> set (cleared r K)" using t W [OF t(1)] by (auto split: if_splits)
      then show ?thesis using len(3) by (auto simp: cleared_def)
    qed
  qed
  have writ: "(p, int (lst ! p) - row_start r) \<in> set ?ws" if p: "p < length lst" for p
  proof -
    let ?c = "lst ! p"
    have c: "?k ?c" "?c < length (scores r)" using p nth_mem [OF p] by (auto simp: lst_def)
    have "length (filter ?k [0..<?c]) = p"
      using place [OF c(1)] p nth_eq_iff_index_eq [of lst "length (filter ?k [0..<?c])" p] by (auto simp: lst_def)
    moreover have b: "0 < B" using B p by auto
    define t where "t = ?c div B"
    have t: "t < T" using c(2) order(3) b unfolding t_def by (meson less_mult_imp_div_less order_less_le_trans)
    have "?c \<in> set [t * B..<t * B + B]" unfolding t_def using b
      by (metis add.commute atLeastLessThan_iff div_mult_mod_eq le_add1 mod_less_divisor nat_add_left_cancel_less set_upt)
    ultimately have "write_of r thr K ?c = (p, int ?c - row_start r)" "?c \<in> set (kept_in r thr K B t)"
      using c(1) p len(2) by (auto simp: write_of_def kept_in_def)
    then have "(p, int ?c - row_start r) \<in> set (W t)" using W [OF t] by (metis UnI1 imageI)
    then show ?thesis using t unfolding ws by blast
  qed
  have clear: "(p, -1) \<in> set ?ws" if p: "length lst \<le> p" "p < K" for p
  proof -
    have "(p, -1) \<in> set (cleared r K)" using p len(3) by (auto simp: cleared_def)
    then have "(p, -1) \<in> set (W 0)" using W [OF order(2)] by simp
    then show ?thesis using order(2) unfolding ws by blast
  qed
  show ?thesis
  proof (rule nth_equalityI)
    show "length (put_all out ?ws) = length (map (\<lambda>c. int c - row_start r) lst @ replicate (K - length lst) (-1))"
      using len by simp
    fix p assume "p < length (put_all out ?ws)"
    then have p: "p < K" "p < length out" using len(1) by simp_all
    show "put_all out ?ws ! p = (map (\<lambda>c. int c - row_start r) lst @ replicate (K - length lst) (-1)) ! p"
    proof (cases "p < length lst")
      case True
      have "put_all out ?ws ! p = int (lst ! p) - row_start r"
      proof (rule put_all_written [OF writ [OF True] _ p(2)])
        fix v' assume "(p, v') \<in> set ?ws"
        then show "v' = int (lst ! p) - row_start r" using from_W True by fastforce
      qed
      then show ?thesis using True by (simp add: nth_append)
    next
      case False
      have "put_all out ?ws ! p = -1"
      proof (rule put_all_written [OF clear _ p(2)])
        show "length lst \<le> p" "p < K" using False p by simp_all
        fix v' assume "(p, v') \<in> set ?ws"
        then show "v' = -1" using from_W False by fastforce
      qed
      then show ?thesis using False p len(1) by (simp add: nth_append)
    qed
  qed
qed

section \<open>The threshold\<close>

lemma foldr_min_le: "x \<in> set xs \<Longrightarrow> foldr min xs (top :: 'v::{linorder,order_top}) \<le> x"
  by (induction xs) (auto simp: min.coboundedI2)

lemma foldr_min_mem: "xs \<noteq> [] \<Longrightarrow> foldr min xs (top :: 'v::{linorder,order_top}) \<in> set xs"
proof (induction xs)
  case (Cons x xs)
  then show ?case by (cases "xs = []") (auto simp: min_def)
qed simp

lemma foldr_min_filter:
  "foldr min (map (\<lambda>i. if P i then f i else (top :: 'v::{linorder,order_top})) xs) top = foldr min (map f (filter P xs)) top"
  by (induction xs) auto

lemma threshold_picked:
  assumes "exact_selection r K"
  shows "threshold_of r = foldr min (map (\<lambda>c. scores r ! c) (picked r)) top"
proof -
  have "filter (\<lambda>i. 0 \<le> i \<and> row_start r + i < row_end r) (ids r) = filter (\<lambda>i. 0 \<le> i) (ids r)"
    using assms by (intro filter_cong) (auto simp: exact_selection_def)
  then show ?thesis unfolding threshold_of_def selected_scores_def foldr_min_filter picked_def by (simp add: o_def)
qed

lemma picked_cols:
  assumes "exact_selection r K"
  shows "set (picked r) \<subseteq> set (row_cols r)"
proof
  fix c assume "c \<in> set (picked r)"
  then obtain i where i: "i \<in> set (ids r)" "0 \<le> i" "c = nat (row_start r + i)" by (auto simp: picked_def)
  then have "row_start r + i < row_end r" using assms by (auto simp: exact_selection_def)
  then show "c \<in> set (row_cols r)" using assms i by (auto simp: row_cols_def valid_col_def exact_selection_def)
qed

lemma row_cols_upt:
  assumes "0 \<le> row_start r" "row_end r \<le> int (length (scores r))"
  shows "row_cols r = [nat (row_start r)..<nat (row_end r)]"
proof (rule sorted_distinct_set_unique)
  show "set (row_cols r) = set [nat (row_start r)..<nat (row_end r)]"
    using assms by (auto simp: row_cols_def valid_col_def)
qed (simp_all add: row_cols_def sorted_wrt_filter)

section \<open>The kept columns are the best ones\<close>

lemma row_cols_card: "length (row_cols r) = card (set (row_cols r))"
  by (rule distinct_card [symmetric]) (simp add: row_cols_def)

lemma filter_cols_card: "length (filter P (row_cols r)) = card {c \<in> set (row_cols r). P c}"
proof -
  have "distinct (filter P (row_cols r))" by (simp add: row_cols_def)
  then show ?thesis by (metis distinct_card set_filter)
qed

lemma filter_valid:
  assumes "\<And>c. Q c \<Longrightarrow> valid_col r c" "n \<le> length (scores r)"
  shows "length (filter Q [0..<n]) = card {c \<in> set (row_cols r). Q c \<and> c < n}"
proof -
  have "{c \<in> set (row_cols r). Q c \<and> c < n} = set (filter Q [0..<n])"
    using assms by (auto simp: row_cols_def valid_col_def)
  then show ?thesis by (metis distinct_card distinct_filter distinct_upt)
qed

lemma exact_facts:
  assumes E: "exact_selection r K" and "0 < K"
  defines "thr \<equiv> threshold_of r" and "V \<equiv> set (row_cols r)" and "P \<equiv> set (picked r)"
  shows "P \<subseteq> V" "card P = min K (card V)" "\<forall>d \<in> P. thr \<le> scores r ! d" "\<forall>c \<in> V. thr < scores r ! c \<longrightarrow> c \<in> P"
proof -
  show sub: "P \<subseteq> V" unfolding P_def V_def by (rule picked_cols [OF E])
  have "length (row_cols r) = card V" unfolding V_def by (rule row_cols_card)
  moreover have "length (picked r) = card P" using E unfolding P_def by (simp add: exact_selection_def distinct_card)
  ultimately show cp: "card P = min K (card V)" using E by (simp add: exact_selection_def)
  show low: "\<forall>d \<in> P. thr \<le> scores r ! d"
    unfolding thr_def threshold_picked [OF E] P_def by (auto intro!: foldr_min_le)
  show "\<forall>c \<in> V. thr < scores r ! c \<longrightarrow> c \<in> P"
  proof (intro ballI impI, rule ccontr)
    fix c assume c: "c \<in> V" "thr < scores r ! c" "c \<notin> P"
    have "finite V" by (simp add: V_def)
    then have "0 < card V" using c(1) by (auto simp: card_gt_0_iff)
    then have "P \<noteq> {}" using cp assms(2) by auto
    then have "map (\<lambda>c. scores r ! c) (picked r) \<noteq> []" by (auto simp: P_def)
    from foldr_min_mem [OF this] obtain d where d: "d \<in> P" "scores r ! d = thr"
      unfolding thr_def threshold_picked [OF E] P_def by auto
    have "scores r ! c \<le> scores r ! d" using E c d(1) unfolding exact_selection_def V_def P_def by blast
    then show False using c(2) d(2) by simp
  qed
qed

lemma kept_is_best:
  assumes E: "exact_selection r K" and "0 < K" and c: "c \<in> set (row_cols r)"
  shows "kept r (threshold_of r) K c \<longleftrightarrow> length (filter (\<lambda>d. beats r d c) (row_cols r)) < K"
proof -
  define thr V P where "thr = threshold_of r" and "V = set (row_cols r)" and "P = set (picked r)"
  note F = exact_facts [OF assms(1,2), folded thr_def V_def P_def]
  define G where "G = {d \<in> V. thr < scores r ! d}"
  have fin: "finite V" "finite P" "finite G" by (simp_all add: V_def P_def G_def)
  have GP: "G \<subseteq> P" using F(4) by (auto simp: G_def)
  have gK: "card G \<le> K" using card_mono [OF fin(2) GP] F(2) by simp
  have cV: "c \<in> V" "valid_col r c" "c < length (scores r)" using c by (auto simp: V_def row_cols_def)
  have gt: "length (filter (above r thr) [0..<length (scores r)]) = card G"
    by (subst filter_valid) (auto simp: above_def G_def V_def row_cols_def valid_col_def intro!: arg_cong [where f = card])
  have tie: "length (filter (tied r thr) [0..<Suc c]) = card {d \<in> V. scores r ! d = thr \<and> d \<le> c}"
    using cV by (subst filter_valid) (auto simp: tied_def V_def row_cols_def valid_col_def intro!: arg_cong [where f = card])
  have b: "length (filter (\<lambda>d. beats r d c) (row_cols r)) = card {d \<in> V. beats r d c}"
    by (simp add: filter_cols_card V_def)
  consider "thr < scores r ! c" | "scores r ! c = thr" | "scores r ! c < thr" by fastforce
  then show ?thesis
  proof cases
    case 1
    have "{d \<in> V. beats r d c} \<subseteq> G - {c}" using 1 by (auto simp: beats_def G_def)
    then have "card {d \<in> V. beats r d c} \<le> card (G - {c})" using fin by (intro card_mono) auto
    moreover have "c \<in> G" using 1 cV by (simp add: G_def)
    then have "card (G - {c}) < card G" using fin by (intro psubset_card_mono) auto
    ultimately have "card {d \<in> V. beats r d c} < K" using gK by simp
    then show ?thesis using 1 cV b by (simp add: kept_def above_def thr_def)
  next
    case 2
    define T where "T = {d \<in> V. scores r ! d = thr \<and> d \<le> c}"
    have cT: "c \<in> T" "finite T" using 2 cV fin by (auto simp: T_def)
    have e: "{d \<in> V. beats r d c} = G \<union> (T - {c})" using 2 by (auto simp: beats_def G_def T_def)
    have "card (G \<union> (T - {c})) = card G + card (T - {c})"
      using fin cT(2) by (intro card_Un_disjoint) (auto simp: G_def T_def)
    also have "card (T - {c}) = card T - 1" using cT by simp
    finally have s: "card {d \<in> V. beats r d c} = card G + (card T - 1)" using e by simp
    have "0 < card T" using cT by (auto simp: card_gt_0_iff)
    then have "card G + (card T - 1) < K \<longleftrightarrow> card T \<le> K - card G" using gK by linarith
    moreover have "kept r thr K c \<longleftrightarrow> card T \<le> K - card G"
      using 2 cV by (simp add: kept_def above_def tied_def gt tie T_def del: upt_Suc)
    ultimately show ?thesis unfolding b s thr_def by simp
  next
    case 3
    have "c \<notin> P" using 3 F(3) by force
    then have "P \<noteq> V" using cV by blast
    then have "card P = K" using F(1,2) fin by (metis card_subset_eq min_def)
    moreover have "P \<subseteq> {d \<in> V. beats r d c}" using F(1,3) 3 by (force simp: beats_def)
    then have "card P \<le> card {d \<in> V. beats r d c}" using fin by (intro card_mono) auto
    ultimately have "\<not> card {d \<in> V. beats r d c} < K" by simp
    moreover have "\<not> kept r thr K c" using 3 by (auto simp: kept_def above_def tied_def)
    ultimately show ?thesis using b by (simp add: thr_def)
  qed
qed

lemma kept_count:
  assumes E: "exact_selection r K" and "0 < K"
  shows "length (filter (kept r (threshold_of r) K) [0..<length (scores r)]) = min K (length (row_cols r))"
proof -
  define thr V P where "thr = threshold_of r" and "V = set (row_cols r)" and "P = set (picked r)"
  note F = exact_facts [OF assms(1,2), folded thr_def V_def P_def]
  define G where "G = {d \<in> V. thr < scores r ! d}"
  define Q where "Q = {d \<in> V. scores r ! d = thr}"
  have fin: "finite V" "finite P" "finite G" "finite Q" by (simp_all add: V_def P_def G_def Q_def)
  have gt: "length (filter (above r thr) [0..<length (scores r)]) = card G"
    by (subst filter_valid) (auto simp: above_def G_def V_def row_cols_def valid_col_def intro!: arg_cong [where f = card])
  have eq: "length (filter (tied r thr) [0..<length (scores r)]) = card Q"
    by (subst filter_valid) (auto simp: tied_def Q_def V_def row_cols_def valid_col_def intro!: arg_cong [where f = card])
  have "G \<subseteq> P" using F(4) by (auto simp: G_def)
  then have gK: "card G \<le> K" using card_mono [OF fin(2)] F(2) by (metis min.bounded_iff)
  have "P \<subseteq> G \<union> Q" using F(1,3) by (force simp: G_def Q_def)
  then have lo: "card P \<le> card (G \<union> Q)" using fin by (intro card_mono) auto
  have hi: "card (G \<union> Q) \<le> card V" using fin by (intro card_mono) (auto simp: G_def Q_def)
  have "card (G \<union> Q) = card G + card Q" using fin by (intro card_Un_disjoint) (auto simp: G_def Q_def)
  then have "card G + min (card Q) (K - card G) = min K (card V)" using lo hi gK F(2) by linarith
  moreover have "length (row_cols r) = card V" unfolding V_def by (rule row_cols_card)
  ultimately show ?thesis unfolding thr_def [symmetric] kept_length gt eq by simp
qed

lemma canonical_kept:
  assumes "exact_selection r K" "0 < K"
  defines "lst \<equiv> filter (kept r (threshold_of r) K) [0..<length (scores r)]"
  shows "canonical r K = map (\<lambda>c. int c - row_start r) lst @ replicate (K - length lst) (-1)"
proof -
  have "lst = filter (kept r (threshold_of r) K) (row_cols r)"
    unfolding lst_def row_cols_def filter_filter
    by (rule filter_cong) (auto simp: kept_def above_def tied_def)
  also have "\<dots> = filter (\<lambda>c. length (filter (\<lambda>d. beats r d c) (row_cols r)) < K) (row_cols r)"
    by (rule filter_cong) (use kept_is_best [OF assms(1,2)] in auto)
  finally show ?thesis by (simp add: canonical_def Let_def)
qed

section \<open>The two paths\<close>

lemma row_cols_length:
  assumes "exact_selection r K"
  shows "int (length (row_cols r)) = max 0 (row_end r - row_start r)"
proof -
  have b: "0 \<le> row_start r" "row_end r \<le> int (length (scores r))" using assms by (simp_all add: exact_selection_def)
  show ?thesis unfolding row_cols_upt [OF b] length_upt using b(1) by (cases "row_start r \<le> row_end r") simp_all
qed

lemma set_scatter:
  assumes "sum_list (map fst cs) = length (filter (above r thr) [0..<length (scores r)])"
    "sum_list (map fst (take t cs)) = length (filter (above r thr) [0..<t * B])"
    "sum_list (map snd (take t cs)) = length (filter (tied r thr) [0..<t * B])"
  shows "set (scatter_tile r thr K cs B t) = write_of r thr K ` set (kept_in r thr K B t) \<union> (if t = 0 then set (cleared r K) else {})"
  unfolding scatter_tile_def scatter_writes_eq [OF assms] kept_in_def write_of_def by auto

lemma above_all:
  assumes "length (scores r) \<le> T * B"
  shows "sum_list (map fst (map (tile_counts r thr B) [0..<T])) = length (filter (above r thr) [0..<length (scores r)])"
  using tile_counts_sums(1) [of T T r thr B] above_bound [OF assms, of thr] by simp

lemma launch_result:
  assumes E: "exact_selection r K" "0 < K" and order: "set order = {..<T}" "length (scores r) \<le> T * B"
    and W: "\<And>t. t < T \<Longrightarrow> set (W t) = write_of r (threshold_of r) K ` set (kept_in r (threshold_of r) K B t)
        \<union> (if t = 0 then set (cleared r K) else {})"
  shows "put_all (ids r) (concat (map W order)) = canonical r K"
proof (cases "T = 0")
  case True
  then have o: "order = []" and n: "scores r = []" using order by auto
  have e: "row_end r \<le> 0" "0 \<le> row_start r" "length (ids r) = K" "\<forall>i \<in> set (ids r). i = -1 \<or> 0 \<le> i \<and> row_start r + i < row_end r"
    using E(1) n by (simp_all add: exact_selection_def)
  then have "\<forall>i \<in> set (ids r). i = -1" by force
  then have "ids r = replicate K (-1)" using e(3) by (intro replicate_eqI) auto
  moreover have "canonical r K = replicate K (-1)" using n by (simp add: canonical_def row_cols_def)
  ultimately show ?thesis using o by simp
next
  case False
  have len: "length (filter (kept r (threshold_of r) K) [0..<length (scores r)]) = min K (length (row_cols r))"
    by (rule kept_count [OF E])
  have m: "min (int K) (row_end r - row_start r) \<le> int (min K (length (row_cols r)))"
    "int (min K (length (row_cols r))) = max 0 (min (int K) (row_end r - row_start r))"
    using row_cols_length [OF E(1)] by auto
  define hi where "hi = max (row_start r) (row_end r)"
  have clear: "set (cleared r K) = set (cleared (r\<lparr>row_end := hi\<rparr>) K)"
    unfolding cleared_def hi_def by (auto simp: min_def max_def)
  show ?thesis
  proof (cases "row_start r \<le> row_end r")
    case True
    then have "min (int K) (row_end r - row_start r) = int (length (filter (kept r (threshold_of r) K) [0..<length (scores r)]))"
      unfolding len m(2) by simp
    with grid_result [OF order(1) _ order(2) W, of "ids r"] False E(1) len canonical_kept [OF E] show ?thesis
      by (simp add: exact_selection_def)
  next
    case short: False
    have none: "row_cols r = []" using short by (auto simp: row_cols_def filter_empty_conv valid_col_def)
    have nk: "\<not> kept r (threshold_of r) K c" for c
      using none by (auto simp: kept_def above_def tied_def row_cols_def filter_empty_conv valid_col_def)
    have ws: "set (concat (map W order)) = {(p, -1) | p. p < K}"
      using W order(1) False short nk by (auto simp: kept_in_def cleared_def min_def)
    have "put_all (ids r) (concat (map W order)) = replicate K (-1)"
    proof (rule nth_equalityI)
      show "length (put_all (ids r) (concat (map W order))) = length (replicate K (-1::int))"
        using E(1) by (simp add: exact_selection_def)
      fix p assume "p < length (put_all (ids r) (concat (map W order)))"
      then have p: "p < length (ids r)" "p < K" using E(1) by (simp_all add: exact_selection_def)
      have "put_all (ids r) (concat (map W order)) ! p = -1"
        by (rule put_all_written [OF _ _ p(1)]) (use p(2) in \<open>auto simp only: ws mem_Collect_eq prod.inject\<close>)
      then show "put_all (ids r) (concat (map W order)) ! p = replicate K (-1) ! p" using p(2) by simp
    qed
    then show ?thesis by (simp add: canonical_def none)
  qed
qed

lemma fused_canonical:
  assumes "exact_selection r K" "0 < K" "set order = {..<T}" "length (scores r) \<le> T * B"
  shows "fused_path r K B T order = canonical r K"
  unfolding fused_path_def
proof (rule launch_result [OF assms])
  fix t assume "t < T"
  then have t: "t \<le> T" by simp
  show "set (scatter_tile r (threshold_of r) K (counts_fused r B T) B t)
      = write_of r (threshold_of r) K ` set (kept_in r (threshold_of r) K B t) \<union> (if t = 0 then set (cleared r K) else {})"
    unfolding counts_fused_def by (rule set_scatter [OF above_all [OF assms(4)] tile_counts_sums [OF t]])
qed

lemma less_div_iff:
  assumes "0 < (b :: int)"
  shows "x < a div b \<longleftrightarrow> (x + 1) * b \<le> a"
proof
  assume "x < a div b"
  then have "(x + 1) * b \<le> a div b * b" using assms by (intro mult_right_mono) auto
  also have "\<dots> \<le> a" by (rule div_bounds [OF assms])
  finally show "(x + 1) * b \<le> a" .
next
  assume "(x + 1) * b \<le> a"
  also have "a < a div b * b + b" by (rule div_bounds [OF assms])
  finally have "(x + 1) * b < (a div b + 1) * b" by (simp add: algebra_simps)
  then show "x < a div b" using assms by (simp add: mult_less_cancel_right)
qed

lemma live_tiles_props:
  assumes "0 < B" "0 < T"
  shows "1 \<le> live_tiles r B T" "live_tiles r B T \<le> T" "t < T \<Longrightarrow> t < live_tiles r B T \<longleftrightarrow> \<not> skipped r B t"
proof -
  show "1 \<le> live_tiles r B T" "live_tiles r B T \<le> T" using assms by (auto simp: live_tiles_def)
  assume t: "t < T"
  have "int t < (row_end r + int B - 1) div int B \<longleftrightarrow> int (t * B) < row_end r"
  proof -
    have "int t < (row_end r + int B - 1) div int B \<longleftrightarrow> (int t + 1) * int B \<le> row_end r + int B - 1"
      by (rule less_div_iff) (use assms(1) in simp)
    also have "\<dots> \<longleftrightarrow> int (t * B) < row_end r" by (simp add: algebra_simps) linarith
    finally show ?thesis .
  qed
  then show "t < live_tiles r B T \<longleftrightarrow> \<not> skipped r B t"
    using t by (auto simp: live_tiles_def skipped_def)
qed

lemma above_live:
  assumes "length (scores r) \<le> T * B" "0 < B" "0 < T"
  shows "filter (above r thr) [0..<live_tiles r B T * B] = filter (above r thr) [0..<length (scores r)]"
proof (rule sorted_distinct_set_unique)
  show "set (filter (above r thr) [0..<live_tiles r B T * B]) = set (filter (above r thr) [0..<length (scores r)])"
  proof -
    have "c < live_tiles r B T * B" if "above r thr c" for c
    proof -
      have c: "c < length (scores r)" "int c < row_end r" using that by (auto simp: above_def valid_col_def)
      let ?t = "c div B"
      have t: "?t < T" using c(1) assms(1) by (meson less_mult_imp_div_less order_less_le_trans)
      have "?t * B \<le> c" by (rule div_times_less_eq_dividend)
      then have "int (?t * B) \<le> int c" by (simp only: of_nat_le_iff)
      then have "int (?t * B) < row_end r" using c(2) by linarith
      then have "\<not> skipped r B ?t" unfolding skipped_def by linarith
      then have "?t < live_tiles r B T" using live_tiles_props(3) [OF assms(2,3) t] by blast
      then show ?thesis using assms(2) by (simp add: div_less_iff_less_mult)
    qed
    moreover have "c < length (scores r)" if "above r thr c" for c using that by (auto simp: above_def valid_col_def)
    ultimately show ?thesis by auto
  qed
qed (simp_all add: sorted_wrt_filter)

lemma counts_live:
  assumes "0 < B" "0 < T"
  shows "take (live_tiles r B T) (counts_thr r thr B T junk) = map (tile_counts r thr B) [0..<live_tiles r B T]"
proof -
  note L = live_tiles_props [OF assms, where r = r]
  have "take (live_tiles r B T) (counts_thr r thr B T junk)
      = map (\<lambda>t. if skipped r B t then junk t else tile_counts r thr B t) [0..<live_tiles r B T]"
    unfolding counts_thr_def take_map using take_upt [of 0 "live_tiles r B T" T] L(2) by simp
  also have "\<dots> = map (tile_counts r thr B) [0..<live_tiles r B T]"
  proof (intro map_cong refl)
    fix t assume "t \<in> set [0..<live_tiles r B T]"
    then have "\<not> skipped r B t" using L(2) L(3) [of t] by simp
    then show "(if skipped r B t then junk t else tile_counts r thr B t) = tile_counts r thr B t" by simp
  qed
  finally show ?thesis .
qed

lemma threshold_canonical:
  assumes "exact_selection r K" "0 < K" "set order = {..<T}" "length (scores r) \<le> T * B" "0 < B"
  shows "threshold_path r K B T order junk = canonical r K"
  unfolding threshold_path_def
proof (rule launch_result [OF assms(1-4)])
  fix t assume t: "t < T"
  then have T: "0 < T" by simp
  note L = live_tiles_props [OF assms(5) T, where r = r]
  let ?thr = "threshold_of r"
  show "set (scatter_skip r ?thr K (counts_thr r ?thr B T junk) B T t)
      = write_of r ?thr K ` set (kept_in r ?thr K B t) \<union> (if t = 0 then set (cleared r K) else {})"
  proof (cases "skipped r B t")
    case True
    have "\<not> kept r ?thr K c" if "t * B \<le> c" for c
    proof -
      have "int (t * B) \<le> int c" using that by (simp only: of_nat_le_iff)
      then have "\<not> int c < row_end r" using True unfolding skipped_def by linarith
      then show ?thesis by (auto simp: kept_def above_def tied_def valid_col_def)
    qed
    then have "kept_in r ?thr K B t = []" by (auto simp: kept_in_def filter_empty_conv)
    then show ?thesis using True by (auto simp: scatter_skip_def skipped_def)
  next
    case False
    then have tl: "t < live_tiles r B T" using L(3) [OF t] by simp
    let ?cs = "map (tile_counts r ?thr B) [0..<live_tiles r B T]"
    have "sum_list (map fst ?cs) = length (filter (above r ?thr) [0..<length (scores r)])"
      using tile_counts_sums(1) [of "live_tiles r B T" "live_tiles r B T" r ?thr B] above_live [OF assms(4,5) T] by simp
    from set_scatter [OF this tile_counts_sums] tl False show ?thesis
      unfolding scatter_skip_def counts_live [OF assms(5) T] by simp
  qed
qed

theorem kernels_canonicalize:
  assumes "exact_selection r K" "0 < K" "set order = {..<T}" "length (scores r) \<le> T * B" "0 < B"
  shows "fused_path r K B T order = canonical r K \<and> threshold_path r K B T order junk = canonical r K"
  using fused_canonical [OF assms(1-4)] threshold_canonical [OF assms] by blast

text \<open>A whole call: every row ends in canonical order on either path, whatever the switch, the order of
  the instances and the contents of fresh memory.\<close>

text \<open>
  C29. For every row whose selection is exact, canonicalize_topk leaves the canonical
  selection in its output row, on the fused path and on the threshold path alike: the k best
  columns, lower index first among ties, in ascending order relative to the row's start, then
  -1.
\<close>

theorem canonicalize_topk_rows:
  assumes "k \<in> {512, 1024, 2048}" "\<forall>s \<in> set ss. length s = n" "set order = {..<nat (cdiv (int n) 1024)}"
    and "\<forall>i < length ss. exact_selection
      \<lparr>scores = ss ! i, row_start = (case starts of None \<Rightarrow> 0 | Some st \<Rightarrow> st ! i), row_end = fins ! i, ids = outs ! i\<rparr> k"
    and "length outs = length ss"
  shows "canonicalize_topk small n k order junk ss starts fins outs = Inr (map (\<lambda>i. canonical
      \<lparr>scores = ss ! i, row_start = (case starts of None \<Rightarrow> 0 | Some st \<Rightarrow> st ! i), row_end = fins ! i, ids = outs ! i\<rparr> k) [0..<length ss])"
proof (cases "ss = []")
  case True
  then show ?thesis using assms(5) by (simp add: canonicalize_topk_def)
next
  case False
  let ?T = "nat (cdiv (int n) 1024)"
  have T: "n \<le> ?T * 1024" using cdiv_bounds(1) [of 1024 "int n"] by linarith
  let ?row = "\<lambda>i. \<lparr>scores = ss ! i, row_start = (case starts of None \<Rightarrow> 0 | Some st \<Rightarrow> st ! i), row_end = fins ! i, ids = outs ! i\<rparr>"
  have k: "0 < k" using assms(1) by auto
  have r: "fused_path (?row i) k 1024 ?T order = canonical (?row i) k
      \<and> threshold_path (?row i) k 1024 ?T order junk = canonical (?row i) k" if "i < length ss" for i
  proof -
    have "length (scores (?row i)) \<le> ?T * 1024" using that assms(2) T by simp
    moreover have "exact_selection (?row i) k" using that assms(4) by blast
    ultimately show ?thesis using fused_canonical threshold_canonical k assms(3) by (metis zero_less_numeral)
  qed
  have "map (\<lambda>i. if length ss \<le> small then fused_path (?row i) k 1024 ?T order else threshold_path (?row i) k 1024 ?T order junk) [0..<length ss]
      = map (\<lambda>i. canonical (?row i) k) [0..<length ss]"
    using r by (intro map_cong) auto
  moreover have "(k \<notin> {512, 1024, 2048}) = False" using assms(1) by blast
  ultimately show ?thesis using False unfolding canonicalize_topk_def Let_def by (simp only: if_False py_guard_simps)
qed

section \<open>An example row\<close>

text \<open>Eight columns of which 1 to 6 count, three places, tiles of two columns run backwards; the selector broke a tie
  the other way.\<close>

definition demo_row :: "enat topk_row" where
  "demo_row = \<lparr>scores = map enat [9, 4, 7, 4, 4, 5, 1, 9], row_start = 1, row_end = 7, ids = [4, 1, 3]\<rparr>"

lemma demo_exact: "exact_selection demo_row 3"
  by (simp add: exact_selection_def demo_row_def picked_def row_cols_def valid_col_def upt_rec)

theorem kernels_canonicalize_witness:
  "fused_path demo_row 3 2 4 [3, 1, 0, 2] = [0, 1, 4] \<and> threshold_path demo_row 3 2 4 [3, 1, 0, 2] (\<lambda>_. (77, 88)) = [0, 1, 4]"
proof -
  have c: "canonical demo_row 3 = [0, 1, 4]"
    by (simp add: canonical_def demo_row_def row_cols_def valid_col_def beats_def upt_rec Let_def)
  have "set [3, 1, 0, 2] = {..<(4::nat)}" by auto
  from kernels_canonicalize [OF demo_exact _ this, of 2 "\<lambda>_. (77, 88)"] show ?thesis
    unfolding c by (simp add: demo_row_def)
qed

theorem canonicalize_topk_rows_witness:
  "canonicalize_topk 16 3 512 [0] (\<lambda>_. (0, 0)) [map enat [5, 6, 5]] None [3] [[2, 0, 1] @ replicate 509 (-1)]
     = Inr [[0, 1, 2] @ replicate 509 (-1)]"
proof -
  let ?r = "\<lparr>scores = map enat [5, 6, 5], row_start = 0, row_end = 3, ids = [2, 0, 1] @ replicate 509 (-1)\<rparr>"
  have p: "picked ?r = [2, 0, 1]" by (simp add: picked_def filter_replicate)
  have rc: "row_cols ?r = [0, 1, 2]" by (simp add: row_cols_def valid_col_def upt_rec)
  have e: "exact_selection ?r 512" unfolding exact_selection_def p rc by (auto simp: set_replicate_conv_if)
  have c: "canonical ?r 512 = [0, 1, 2] @ replicate 509 (-1)"
    unfolding canonical_def rc Let_def by (simp add: beats_def)
  have o: "set [0] = {..<nat (cdiv (int 3) 1024)}" by (auto simp: cdiv_def)
  from canonicalize_topk_rows [OF _ _ o, of 512 "[map enat [5, 6, 5]]" None "[3]" "[[2, 0, 1] @ replicate 509 (-1)]" 16 "\<lambda>_. (0, 0)"] e c
  show ?thesis by simp
qed

end
