(* ===== verification/Row_Split.thy ===== *)
theory Row_Split
  imports Ringside_Prelude
begin

text \<open>
  The indexer's prefill row split (\<open>src/src/tp4/glm53_indexer_rowsplit.py\<close>): every rank selects for its own
  contiguous, tile-aligned share of a chunk's rows, and the ranks gather equal-sized buffers. The served kernels (logits,
  top-k and the canonical order) are parameters; what the split relies on is that they work row by row. The environment
  is a function from names to values. The log lines are left out.
\<close>

section \<open>Settings\<close>

definition row_split_selector :: string where "row_split_selector = ''GLM53_INDEXER_ROW_SPLIT''"
definition MIN_ROWS_ENV :: string where "MIN_ROWS_ENV = ''GLM53_INDEXER_ROW_SPLIT_MIN_ROWS''"
definition MIN_POOLS_ENV :: string where "MIN_POOLS_ENV = ''GLM53_INDEXER_ROW_SPLIT_MIN_POOLS''"
definition TILE_ENV :: string where "TILE_ENV = ''GLM53_INDEXER_ROW_SPLIT_TILE''"
definition CHECK_ENV :: string where "CHECK_ENV = ''GLM53_INDEXER_ROW_SPLIT_CHECK''"

definition DEFAULT_MIN_ROWS :: int where "DEFAULT_MIN_ROWS = 1024"
definition DEFAULT_MIN_POOLS :: int where "DEFAULT_MIN_POOLS = 4096"
definition DEFAULT_TILE :: int where "DEFAULT_TILE = 64"

record split_settings =
  enabled :: bool
  min_rows :: int
  min_pools :: int
  tile :: int
  check_on :: bool

definition stripped :: "(string \<Rightarrow> string option) \<Rightarrow> string \<Rightarrow> string" where
  "stripped env name = py_strip (case env name of None \<Rightarrow> [] | Some v \<Rightarrow> v)"

text \<open>\<open>_int\<close> on ASCII text, where \<open>isdigit\<close> means decimal digits.\<close>

definition int_env :: "(string \<Rightarrow> string option) \<Rightarrow> string \<Rightarrow> int \<Rightarrow> int \<Rightarrow> int \<Rightarrow> int py" where
  "int_env env name d lo hi =
     (let raw = stripped env name in
      if raw = [] then Inr d
      else py_guard (\<not> list_all py_digit raw) ValueError
        (let v = int (py_nat raw) in py_guard (\<not> (lo \<le> v \<and> v \<le> hi)) ValueError (Inr v)))"

definition parse_settings :: "(string \<Rightarrow> string option) \<Rightarrow> split_settings py" where
  "parse_settings env =
     (let raw = stripped env row_split_selector; check = stripped env CHECK_ENV in
      py_guard (raw \<notin> {[], ''0'', ''1''}) ValueError
        (py_guard (check \<notin> {[], ''0'', ''1''}) ValueError
          (py_bind (int_env env TILE_ENV DEFAULT_TILE 16 4096) (\<lambda>t.
            py_guard (and t (t - 1) \<noteq> 0) ValueError
              (py_bind (int_env env MIN_ROWS_ENV DEFAULT_MIN_ROWS 1 (push_bit 24 1)) (\<lambda>rs.
                py_bind (int_env env MIN_POOLS_ENV DEFAULT_MIN_POOLS 1 (push_bit 24 1)) (\<lambda>ps.
                  Inr \<lparr>enabled = (raw = ''1''), min_rows = rs, min_pools = ps, tile = t, check_on = (check = ''1'')\<rparr>)))))))"

section \<open>The row ranges\<close>

definition partition_rows :: "int \<Rightarrow> int \<Rightarrow> int \<Rightarrow> int \<Rightarrow> (int \<times> int \<times> int) py" where
  "partition_rows rows world rank ts =
     py_guard (rows < 0 \<or> world < 1 \<or> \<not> (0 \<le> rank \<and> rank < world) \<or> ts < 1) ValueError
       (let extent = cdiv rows (world * ts) * ts;
            start = min rows (rank * extent)
        in Inr (start, min rows (start + extent), extent))"

definition engages :: "split_settings \<Rightarrow> int \<Rightarrow> int \<Rightarrow> int \<Rightarrow> int \<Rightarrow> bool \<Rightarrow> bool \<Rightarrow> bool \<Rightarrow> int option \<Rightarrow> bool" where
  "engages s rows pools index_kpool world capturing cuda fp8_cache local_pools \<longleftrightarrow>
     enabled s \<and> cuda \<and> fp8_cache \<and> \<not> capturing \<and> 1 < index_kpool \<and> 1 < world
     \<and> min_rows s \<le> rows \<and> min_pools s \<le> pools \<and> (local_pools = None \<or> local_pools = Some pools)"

definition split_rows ::
  "int \<Rightarrow> int \<Rightarrow> int \<Rightarrow> int \<Rightarrow> (int \<Rightarrow> int \<Rightarrow> int \<Rightarrow> 'a list) \<Rightarrow> ('a list \<Rightarrow> 'a list) \<Rightarrow> 'a list py" where
  "split_rows rows world rank ts local_select gather =
     py_bind (partition_rows rows world rank ts) (\<lambda>(start, stop, extent).
       let part = local_select start stop extent in
       py_guard (int (length part) \<noteq> extent) RuntimeError
         (let full = gather part in
          py_guard (int (length full) \<noteq> world * extent) RuntimeError (Inr (take (nat rows) full))))"

section \<open>One call of a rank\<close>

text \<open>The served kernels. \<open>topk\<close> and \<open>canon\<close> fill an output buffer from the scores and the bounds of its rows.\<close>

record ('s, 'r) kernels =
  logits :: "int \<Rightarrow> int \<Rightarrow> 's list"
  topk :: "'s list \<Rightarrow> int list \<Rightarrow> int list \<Rightarrow> 'r list \<Rightarrow> 'r list"
  canon :: "'s list \<Rightarrow> int list \<Rightarrow> int list \<Rightarrow> 'r list \<Rightarrow> 'r list"

definition slice :: "int \<Rightarrow> int \<Rightarrow> 'a list \<Rightarrow> 'a list" where
  "slice start stop xs = take (nat (stop - start)) (drop (nat start) xs)"

text \<open>\<open>blank\<close> is a row of \<open>-1\<close>.\<close>

definition local_select ::
  "('s, 'r) kernels \<Rightarrow> 'r \<Rightarrow> int list \<Rightarrow> int list \<Rightarrow> int \<Rightarrow> int \<Rightarrow> int \<Rightarrow> 'r list" where
  "local_select k blank starts fins start stop extent =
     (let buf = replicate (nat extent) blank; n = stop - start in
      if 0 < n
      then let sc = logits k start stop; st = slice start stop starts; fi = slice start stop fins;
               out = topk k sc st fi (take (nat n) buf)
           in canon k sc st fi out @ drop (nat n) buf
      else buf)"

record row_split =
  rs_settings :: split_settings
  rs_rank :: int
  rs_world :: int
  engaged :: nat
  check_calls :: nat
  mismatched :: nat

text \<open>\<open>RowSplit.plan\<close>: what it reads of a prefill chunk; \<open>local_seq\<close> is \<open>None\<close> when the chunk has no such attribute.\<close>

record chunk_info =
  token_start :: int
  token_end :: int
  total_seq_lens :: int
  local_seq :: "int option"

definition plan_split :: "row_split \<Rightarrow> chunk_info \<Rightarrow> int \<Rightarrow> bool \<Rightarrow> bool \<Rightarrow> bool \<Rightarrow> bool" where
  "plan_split st chunk index_kpool fp8_cache capturing cuda =
     engages (rs_settings st) (token_end chunk - token_start chunk) (total_seq_lens chunk) index_kpool (rs_world st)
       capturing cuda fp8_cache (local_seq chunk)"

definition differing :: "'a list \<Rightarrow> 'a list \<Rightarrow> nat" where
  "differing xs ys = length (filter (\<lambda>(x, y). x \<noteq> y) (zip xs ys))"

definition select_rows ::
  "('s, 'r) kernels \<Rightarrow> 'r \<Rightarrow> ('r list \<Rightarrow> 'r list) \<Rightarrow> row_split \<Rightarrow> int \<Rightarrow> int list \<Rightarrow> int list \<Rightarrow> (row_split \<times> 'r list) py" where
  "select_rows k blank gather st rows starts fins =
     py_bind (split_rows rows (rs_world st) (rs_rank st) (tile (rs_settings st)) (local_select k blank starts fins) gather)
       (\<lambda>result.
         let st1 = st\<lparr>engaged := engaged st + 1\<rparr> in
         if check_on (rs_settings st)
         then let full = local_select k blank starts fins 0 rows rows in
              Inr (st1\<lparr>check_calls := check_calls st1 + 1, mismatched := mismatched st1 + differing full result\<rparr>, result)
         else Inr (st1, result))"

section \<open>The vote\<close>

definition settings_key :: "split_settings \<Rightarrow> bool \<times> int \<times> int \<times> int \<times> bool" where
  "settings_key s = (enabled s, min_rows s, min_pools s, tile s, check_on s)"

text \<open>What a rank does with the gathered keys.\<close>

definition vote :: "split_settings \<Rightarrow> (bool \<times> int \<times> int \<times> int \<times> bool) list \<Rightarrow> unit py" where
  "vote s items = py_guard (list_ex (\<lambda>i. i \<noteq> settings_key s) items) RuntimeError (Inr ())"

definition build_runtime :: "(string \<Rightarrow> string option) \<Rightarrow> int \<Rightarrow> int \<Rightarrow> (bool \<times> int \<times> int \<times> int \<times> bool) list \<Rightarrow> row_split py" where
  "build_runtime env rank world items =
     py_bind (parse_settings env) (\<lambda>s.
       py_guard (\<not> enabled s) RuntimeError
         (py_bind (vote s items) (\<lambda>_.
           Inr \<lparr>rs_settings = s, rs_rank = rank, rs_world = world, engaged = 0, check_calls = 0, mismatched = 0\<rparr>)))"

section \<open>The ranges\<close>

lemma int_env_range:
  assumes "int_env env name d lo hi = Inr v" "lo \<le> d" "d \<le> hi"
  shows "lo \<le> v" "v \<le> hi"
  using assms by (auto simp: int_env_def Let_def split: if_splits)

lemma parse_settings_range:
  assumes "parse_settings env = Inr s"
  shows "16 \<le> tile s" "tile s \<le> 4096" "and (tile s) (tile s - 1) = 0" "1 \<le> min_rows s" "1 \<le> min_pools s"
proof -
  obtain t rs ps where i: "int_env env TILE_ENV DEFAULT_TILE 16 4096 = Inr t" "and t (t - 1) = 0"
    "int_env env MIN_ROWS_ENV DEFAULT_MIN_ROWS 1 (push_bit 24 1) = Inr rs"
    "int_env env MIN_POOLS_ENV DEFAULT_MIN_POOLS 1 (push_bit 24 1) = Inr ps" and s: "tile s = t" "min_rows s = rs" "min_pools s = ps"
    using assms unfolding parse_settings_def Let_def py_guard_Inr py_bind_Inr by auto
  show "16 \<le> tile s" "tile s \<le> 4096" using int_env_range [OF i(1)] s by (simp_all add: DEFAULT_TILE_def)
  show "and (tile s) (tile s - 1) = 0" using i(2) s by simp
  show "1 \<le> min_rows s" using int_env_range [OF i(3)] s by (simp add: DEFAULT_MIN_ROWS_def push_bit_eq_mult)
  show "1 \<le> min_pools s" using int_env_range [OF i(4)] s by (simp add: DEFAULT_MIN_POOLS_def push_bit_eq_mult)
qed

lemma extent_covers:
  assumes "0 < (world :: int)" "0 < ts"
  shows "rows \<le> world * (cdiv rows (world * ts) * ts)"
  using cdiv_bounds(1) [of "world * ts" rows] assms by (simp add: algebra_simps)

text \<open>Consecutive ranks have adjacent ranges that together are the chunk.\<close>

lemma partition_ranges:
  assumes "0 \<le> rows" "0 < world" "0 < ts"
  obtains extent where "0 \<le> extent" "extent mod ts = 0" "rows \<le> world * extent"
    "\<And>rank. 0 \<le> rank \<Longrightarrow> rank < world \<Longrightarrow>
       partition_rows rows world rank ts = Inr (min rows (rank * extent), min rows ((rank + 1) * extent), extent)"
proof
  let ?e = "cdiv rows (world * ts) * ts"
  have "0 \<le> cdiv rows (world * ts)" using cdiv_mono [of "world * ts" 0 rows] assms by (simp add: cdiv_def)
  then show e: "0 \<le> ?e" using assms by simp
  show "?e mod ts = 0" by simp
  show "rows \<le> world * ?e" by (rule extent_covers [OF assms(2,3)])
  show "partition_rows rows world rank ts = Inr (min rows (rank * ?e), min rows ((rank + 1) * ?e), ?e)"
    if "0 \<le> rank" "rank < world" for rank
  proof -
    have "min rows (min rows (rank * ?e) + ?e) = min rows ((rank + 1) * ?e)" using e by (auto simp: min_def algebra_simps)
    then show ?thesis using assms that unfolding partition_rows_def Let_def by simp
  qed
qed

section \<open>The split selection is the full one\<close>

text \<open>Row-wise kernels: the scores of a range are the scores of its rows, and top-k followed by the canonical order
  gives each row's own result, whatever the buffer held.\<close>

definition row_wise :: "('s, 'r) kernels \<Rightarrow> (nat \<Rightarrow> 's) \<Rightarrow> ('s \<Rightarrow> int \<Rightarrow> int \<Rightarrow> 'r) \<Rightarrow> bool" where
  "row_wise k score sel \<longleftrightarrow>
     (\<forall>s e. 0 \<le> s \<and> s \<le> e \<longrightarrow> logits k s e = map score [nat s..<nat e])
     \<and> (\<forall>sc st fi buf. length st = length sc \<and> length fi = length sc \<and> length buf = length sc \<longrightarrow>
          canon k sc st fi (topk k sc st fi buf) = map (\<lambda>i. sel (sc ! i) (st ! i) (fi ! i)) [0..<length sc])"

lemma local_select_rows:
  assumes "row_wise k score sel" "0 \<le> start" "start \<le> stop" "stop \<le> start + extent" "stop \<le> int (length starts)" "length fins = length starts"
  shows "local_select k blank starts fins start stop extent
    = map (\<lambda>i. sel (score i) (starts ! i) (fins ! i)) [nat start..<nat stop] @ replicate (nat extent - nat (stop - start)) blank"
proof (cases "0 < stop - start")
  case False
  then show ?thesis using assms by (simp add: local_select_def)
next
  case True
  let ?n = "nat (stop - start)"
  have n: "nat stop = nat start + ?n" using assms by linarith
  have len: "length (slice start stop starts) = ?n" "length (slice start stop fins) = ?n"
    using assms by (auto simp: slice_def)
  have sc: "logits k start stop = map score [nat start..<nat stop]" using assms by (auto simp: row_wise_def)
  then have ls: "length (logits k start stop) = ?n" using n by simp
  have "canon k (logits k start stop) (slice start stop starts) (slice start stop fins)
      (topk k (logits k start stop) (slice start stop starts) (slice start stop fins) (take ?n (replicate (nat extent) blank)))
    = map (\<lambda>i. sel (logits k start stop ! i) (slice start stop starts ! i) (slice start stop fins ! i)) [0..<?n]"
    using assms len ls by (auto simp: row_wise_def)
  also have "\<dots> = map (\<lambda>i. sel (score i) (starts ! i) (fins ! i)) [nat start..<nat stop]"
  proof (rule nth_equalityI)
    fix j assume "j < length (map (\<lambda>i. sel (logits k start stop ! i) (slice start stop starts ! i) (slice start stop fins ! i)) [0..<?n])"
    then have "j < ?n" by simp
    then show "map (\<lambda>i. sel (logits k start stop ! i) (slice start stop starts ! i) (slice start stop fins ! i)) [0..<?n] ! j
        = map (\<lambda>i. sel (score i) (starts ! i) (fins ! i)) [nat start..<nat stop] ! j"
      using assms n sc by (simp add: slice_def)
  qed (use n in simp)
  finally show ?thesis using True unfolding local_select_def Let_def by simp
qed

text \<open>The buffers of all ranks in order.\<close>

definition gathered ::
  "('s, 'r) kernels \<Rightarrow> 'r \<Rightarrow> int list \<Rightarrow> int list \<Rightarrow> int \<Rightarrow> nat \<Rightarrow> int \<Rightarrow> 'r list" where
  "gathered k blank starts fins rows world ts =
     concat (map (\<lambda>rank. case partition_rows rows (int world) (int rank) ts of
       Inr (start, stop, extent) \<Rightarrow> local_select k blank starts fins start stop extent | Inl _ \<Rightarrow> []) [0..<world])"

lemma concat_shares:
  fixes rows ext :: nat
  shows "concat (map (\<lambda>w. map f [min rows (w * ext)..<min rows ((w + 1) * ext)]
      @ replicate (ext - (min rows ((w + 1) * ext) - min rows (w * ext))) b) [0..<world])
    = map f [0..<min rows (world * ext)] @ replicate (world * ext - min rows (world * ext)) b"
proof (induction world)
  case (Suc w)
  have up: "[0..<min rows (w * ext)] @ [min rows (w * ext)..<min rows ((w + 1) * ext)] = [0..<min rows (Suc w * ext)]"
    using upt_add_eq_append [of 0 "min rows (w * ext)" "min rows ((w + 1) * ext) - min rows (w * ext)"] by (simp add: min_def)
  show ?case
  proof (cases "rows \<le> w * ext")
    case True
    then have m: "min rows (w * ext) = rows" "min rows ((w + 1) * ext) = rows" "min rows (Suc w * ext) = rows" by simp_all
    have "replicate (w * ext - rows) b @ replicate ext b = replicate (Suc w * ext - rows) b"
      using True by (simp add: replicate_add [symmetric])
    moreover have "rows \<le> ext + w * ext" using True by simp
    ultimately show ?thesis using Suc True by (simp add: min_absorb1)
  next
    case False
    then have m: "min rows (w * ext) = w * ext" by simp
    have z: "replicate (w * ext - min rows (w * ext)) b = []" using m by simp
    have c: "ext - (min rows ((w + 1) * ext) - min rows (w * ext)) = Suc w * ext - min rows (Suc w * ext)"
      using False unfolding m by (auto simp: min_def)
    show ?thesis using Suc up unfolding upt_Suc_append [OF le0] map_append concat_append z
      by (simp only: c append_Nil2 concat.simps list.map append_Nil up map_append [symmetric] append_assoc [symmetric])
  qed
qed simp

lemma gathered_rows:
  assumes K: "row_wise k score sel" and "0 < ts" "0 \<le> rows" "0 < world"
    and len: "length starts = nat rows" "length fins = nat rows"
  obtains extent where "0 \<le> extent" "rows \<le> int world * extent"
    "gathered k blank starts fins rows world ts
      = map (\<lambda>i. sel (score i) (starts ! i) (fins ! i)) [0..<nat rows] @ replicate (nat (int world * extent - rows)) blank"
    "\<And>rank. rank < world \<Longrightarrow> \<exists>start stop. partition_rows rows (int world) (int rank) ts = Inr (start, stop, extent)
      \<and> length (local_select k blank starts fins start stop extent) = nat extent"
proof -
  obtain e where e: "0 \<le> e" "rows \<le> int world * e"
    "\<And>rank. 0 \<le> rank \<Longrightarrow> rank < int world \<Longrightarrow>
       partition_rows rows (int world) rank ts = Inr (min rows (rank * e), min rows ((rank + 1) * e), e)"
    using partition_ranges [OF assms(3) _ assms(2), of "int world"] assms(4) by auto
  define R E where "R = nat rows" and "E = nat e"
  have RE: "rows = int R" "e = int E" using e(1) assms(3) by (simp_all add: R_def E_def)
  let ?f = "\<lambda>i. sel (score i) (starts ! i) (fins ! i)"
  have loc: "local_select k blank starts fins (min rows (int w * e)) (min rows ((int w + 1) * e)) e
      = map ?f [min R (w * E)..<min R ((w + 1) * E)] @ replicate (E - (min R ((w + 1) * E) - min R (w * E))) blank" for w
  proof -
    have m: "min rows (int w * e) = int (min R (w * E))" "min rows ((int w + 1) * e) = int (min R ((w + 1) * E))"
      unfolding RE by (simp_all add: min_def algebra_simps flip: of_nat_mult of_nat_add)
    have o: "min R (w * E) \<le> min R ((w + 1) * E)" "min R ((w + 1) * E) \<le> min R (w * E) + E" by (simp_all add: min_def)
    have "local_select k blank starts fins (int (min R (w * E))) (int (min R ((w + 1) * E))) (int E)
      = map ?f [nat (int (min R (w * E)))..<nat (int (min R ((w + 1) * E)))]
        @ replicate (nat (int E) - nat (int (min R ((w + 1) * E)) - int (min R (w * E)))) blank"
      by (rule local_select_rows [OF K]) (use o len in \<open>simp_all add: R_def [symmetric]\<close>)
    then show ?thesis unfolding m unfolding RE(2) using o by (simp only: nat_int of_nat_diff [symmetric])
  qed
  have g: "gathered k blank starts fins rows world ts = map ?f [0..<min R (world * E)] @ replicate (world * E - min R (world * E)) blank"
  proof -
    have "gathered k blank starts fins rows world ts
        = concat (map (\<lambda>w. local_select k blank starts fins (min rows (int w * e)) (min rows ((int w + 1) * e)) e) [0..<world])"
      unfolding gathered_def using e(3) by (intro arg_cong [where f = concat] map_cong refl) simp
    then show ?thesis unfolding loc concat_shares .
  qed
  have c: "R \<le> world * E" using e(2) unfolding RE by (simp flip: of_nat_mult)
  have "nat (int world * e - rows) = world * E - R" unfolding RE by (simp add: nat_diff_distrib flip: of_nat_mult)
  then have "gathered k blank starts fins rows world ts = map ?f [0..<nat rows] @ replicate (nat (int world * e - rows)) blank"
    using g c by (simp add: R_def)
  moreover have "\<exists>start stop. partition_rows rows (int world) (int rank) ts = Inr (start, stop, e)
      \<and> length (local_select k blank starts fins start stop e) = nat e" if "rank < world" for rank
  proof (intro exI conjI)
    show "partition_rows rows (int world) (int rank) ts = Inr (min rows (int rank * e), min rows ((int rank + 1) * e), e)"
      using e(3) [of "int rank"] that by simp
    have "min R ((rank + 1) * E) - min R (rank * E) \<le> E" by (auto simp: min_def)
    then show "length (local_select k blank starts fins (min rows (int rank * e)) (min rows ((int rank + 1) * e)) e) = nat e"
      unfolding loc using RE(2) by simp
  qed
  ultimately show thesis using that e(1,2) by blast
qed


section \<open>An example\<close>

definition demo_kernels :: "(nat, nat) kernels" where
  "demo_kernels = \<lparr>logits = (\<lambda>s e. map (\<lambda>i. i * i) [nat s..<nat e]), topk = (\<lambda>sc st fi buf. sc), canon = (\<lambda>sc st fi buf. map Suc buf)\<rparr>"

lemma demo_row_wise: "row_wise demo_kernels (\<lambda>i. i * i) (\<lambda>s a b. Suc s)"
  by (auto simp: row_wise_def demo_kernels_def intro: nth_equalityI)

definition demo_split :: row_split where
  "demo_split = \<lparr>rs_settings = \<lparr>enabled = True, min_rows = 1, min_pools = 1, tile = 16, check_on = True\<rparr>, rs_rank = 2, rs_world = 3,
     engaged = 0, check_calls = 0, mismatched = 0\<rparr>"


end
