(* ===== verification/Greedy_Verify.thy ===== *)
theory Greedy_Verify
  imports Ringside_Prelude "HOL-Library.Log_Nat" "HOL-Library.Option_ord"
begin

text \<open>
  Greedy verification of drafts without gathering the logits (\<open>src/src/tp4/glm53_greedy_verify.py\<close>): each rank finds
  the maximum of its vocabulary shard and its lowest index, the ranks gather these pairs, and the drafts of a
  request are accepted while they equal the global argmax. A logit is an option: \<open>None\<close> is NaN, and the values
  are a linear order with a least element (minus infinity). The engine's head, its collective and its rejection
  bookkeeping are parameters. The log lines are left out.
\<close>

section \<open>The shard kernel\<close>

definition clean :: "'v::order_bot option \<Rightarrow> 'v" where
  "clean x = (case x of None \<Rightarrow> bot | Some v \<Rightarrow> v)"

text \<open>A maximum and its lowest place in a block of \<open>n\<close> lanes, scanned from the left.\<close>

fun block_max :: "(nat \<Rightarrow> 'v::linorder) \<Rightarrow> nat \<Rightarrow> 'v \<times> nat" where
  "block_max f 0 = (f 0, 0)"
| "block_max f (Suc n) = (let (v, i) = block_max f n in if v < f (Suc n) then (f (Suc n), Suc n) else (v, i))"

text \<open>The loop over the blocks: lanes past the shard's real columns read minus infinity.\<close>

fun local_argmax :: "'v::{linorder,order_bot} option list \<Rightarrow> nat \<Rightarrow> nat \<Rightarrow> nat list \<Rightarrow> 'v \<times> nat \<Rightarrow> 'v \<times> nat" where
  "local_argmax row n_real B [] best = best"
| "local_argmax row n_real B (start # starts) (best_v, best_i) =
     (let (v, i) = block_max (\<lambda>j. if start + j < n_real then clean (row ! (start + j)) else bot) (B - 1)
      in local_argmax row n_real B starts (if best_v < v then (v, start + i) else (best_v, best_i)))"

text \<open>Indices travel as binary32: 24 significant bits, rounded to nearest, ties to even.\<close>

definition f32_nat :: "nat \<Rightarrow> nat" where
  "f32_nat n =
     (let k = floorlog 2 n - 24; q = n div 2 ^ k; r = n mod 2 ^ k
      in if 2 * r < 2 ^ k \<or> 2 * r = 2 ^ k \<and> even q then q * 2 ^ k else (q + 1) * 2 ^ k)"

definition argmax_kernel :: "'v::{linorder,order_bot} option list \<Rightarrow> nat \<Rightarrow> nat \<Rightarrow> nat \<Rightarrow> 'v \<times> nat" where
  "argmax_kernel row n_real vocab_start B =
     (case local_argmax row n_real B (map (\<lambda>b. b * B) [0..<(n_real + B - 1) div B]) (bot, 0) of
        (v, i) \<Rightarrow> (v, f32_nat (i + vocab_start)))"

definition local_pairs :: "'v::{linorder,order_bot} option list list \<Rightarrow> nat \<Rightarrow> nat \<Rightarrow> nat \<Rightarrow> ('v \<times> nat) list py" where
  "local_pairs logits width n_real vocab_start =
     py_guard (\<not> (0 < n_real \<and> n_real \<le> width)) AssertionError
       (Inr (map (\<lambda>row. argmax_kernel row n_real vocab_start 4096) logits))"

section \<open>Combining the ranks\<close>

text \<open>\<open>argmax\<close> returns the first place of the greatest value.\<close>

definition first_argmax :: "'v::linorder list \<Rightarrow> nat" where
  "first_argmax xs = snd (block_max (\<lambda>i. xs ! i) (length xs - 1))"

definition combine_pairs :: "('v::linorder \<times> nat) list list \<Rightarrow> nat list" where
  "combine_pairs rows = map (\<lambda>pairs. snd (pairs ! first_argmax (map fst pairs))) rows"

section \<open>Accepting drafts\<close>

text \<open>One request: \<open>row\<close> is its row of sampled tokens, \<open>t\<close> its target argmaxes and \<open>d\<close> its drafts. The state is the flag, the
  accepted length and the row.\<close>

definition accept_step :: "(nat \<Rightarrow> int) \<Rightarrow> (nat \<Rightarrow> int) \<Rightarrow> nat \<Rightarrow> bool \<times> nat \<times> int list \<Rightarrow> bool \<times> nat \<times> int list" where
  "accept_step t d i s =
     (case s of (verifying, n, row) \<Rightarrow>
        let ok_draft = (0 \<le> d i); draft = max 0 (d i) in
        if verifying
        then let accepted = (t i = draft \<and> ok_draft)
             in (accepted, n + of_bool accepted, row[i := (if accepted then draft else t i)])
        else s)"

definition greedy_accept_kernel :: "(nat \<Rightarrow> int) \<Rightarrow> (nat \<Rightarrow> int) \<Rightarrow> nat \<Rightarrow> int list \<Rightarrow> int list \<times> int" where
  "greedy_accept_kernel t d num_draft row =
     (case fold (accept_step t d) [0..<num_draft] (True, 0, row) of
        (verifying, n, row') \<Rightarrow> (row'[n := t n], int n + 1))"

definition greedy_accept ::
  "int list \<Rightarrow> int list \<Rightarrow> nat list \<Rightarrow> nat \<Rightarrow> nat \<Rightarrow> (nat \<Rightarrow> int list) \<Rightarrow> (int list \<times> int) list" where
  "greedy_accept target draft cu num_reqs steps junk =
     map (\<lambda>q. greedy_accept_kernel (\<lambda>i. target ! (cu ! q + i)) (\<lambda>i. draft ! (cu ! q + i + 1)) (cu ! Suc q - cu ! q - 1)
            (take (steps + 1) (junk q))) [0..<num_reqs]"

section \<open>Eligibility and the step\<close>

text \<open>What the head check reads of the model that owns the logits processor and the head.\<close>

record head_info =
  scale_one :: bool
  no_soft_cap :: bool
  logits_as_input :: bool
  has_shard_indices :: bool
  head_tp :: nat
  group_tp :: nat
  vocab_begin :: nat
  vocab_end :: nat

definition head_ok :: "head_info option \<Rightarrow> bool" where
  "head_ok h = (case h of None \<Rightarrow> False
     | Some x \<Rightarrow> scale_one x \<and> no_soft_cap x \<and> \<not> logits_as_input x \<and> has_shard_indices x \<and> head_tp x = group_tp x
         \<and> vocab_begin x < vocab_end x)"

text \<open>What \<open>eligible\<close> reads; \<open>readable\<close> is false when an attribute is missing.\<close>

record verify_batch =
  readable :: bool
  no_grammar :: bool
  no_sharder :: bool
  num_reqs :: nat
  num_draft_tokens :: nat
  has_rejection :: bool
  has_speculator :: bool
  has_sampler :: bool
  draft_logits :: bool
  synthetic_rates :: bool
  block_verification :: bool
  sampler_adaptive :: bool
  runner_adaptive :: bool
  compute_nans :: bool
  trace_replay :: bool
  sampling_mask :: bool
  logprobs :: bool
  temperatures :: "rat list"
  needs_processing :: "bool list"

record verify_state =
  vs_engaged :: bool
  vs_fast :: nat
  vs_fallback :: nat
  vs_head :: "head_info option option"

definition head_of :: "verify_state \<Rightarrow> head_info option \<Rightarrow> verify_state \<times> head_info option" where
  "head_of s found =
     (case vs_head s of
        Some h \<Rightarrow> (s, h)
      | None \<Rightarrow> let h = (if head_ok found then found else None) in (s\<lparr>vs_head := Some h\<rparr>, h))"

definition batch_ok :: "verify_batch \<Rightarrow> bool" where
  "batch_ok b \<longleftrightarrow> readable b \<and> no_grammar b \<and> no_sharder b \<and> 0 < num_reqs b \<and> 0 < num_draft_tokens b
     \<and> has_rejection b \<and> has_speculator b \<and> has_sampler b \<and> \<not> draft_logits b \<and> \<not> synthetic_rates b \<and> \<not> block_verification b
     \<and> \<not> sampler_adaptive b \<and> \<not> runner_adaptive b \<and> \<not> compute_nans b \<and> \<not> trace_replay b \<and> \<not> sampling_mask b \<and> \<not> logprobs b
     \<and> list_all (\<lambda>x. x = 0) (temperatures b) \<and> \<not> list_ex id (needs_processing b)"

definition eligible :: "verify_state \<Rightarrow> verify_batch \<Rightarrow> head_info option \<Rightarrow> verify_state \<times> bool" where
  "eligible s b found =
     (let (s1, ok) = (if batch_ok b then let (s', h) = head_of s found in (s', h \<noteq> None) else (s, False))
      in (if ok then s1 else s1\<lparr>vs_fallback := vs_fallback s1 + 1\<rparr>, ok))"

text \<open>\<open>verify\<close>: \<open>shards\<close> are the logits rows of each rank with the rank's vocabulary range, in rank order.\<close>

definition verify_argmax :: "('v::{linorder,order_bot} option list list \<times> nat \<times> nat \<times> nat) list \<Rightarrow> nat \<Rightarrow> nat list py" where
  "verify_argmax shards rows =
     (if list_ex (\<lambda>(logits, width, lo, hi). \<not> (lo < hi \<and> hi - lo \<le> width)) shards then Inl AssertionError
      else let pairs = map (\<lambda>(logits, width, lo, hi). map (\<lambda>row. argmax_kernel row (hi - lo) lo 4096) logits) shards
           in Inr (combine_pairs (map (\<lambda>m. map (\<lambda>p. p ! m) pairs) [0..<rows])))"

definition verify ::
  "verify_state \<Rightarrow> ('v::{linorder,order_bot} option list list \<times> nat \<times> nat \<times> nat) list \<Rightarrow> int list \<Rightarrow> nat list \<Rightarrow> nat list \<Rightarrow> nat \<Rightarrow> nat
     \<Rightarrow> (nat \<Rightarrow> int list) \<Rightarrow> (verify_state \<times> (int list \<times> int) list) py" where
  "verify s shards input_ids logits_indices cu reqs steps junk =
     py_bind (verify_argmax shards (length logits_indices)) (\<lambda>am.
       Inr (s\<lparr>vs_fast := vs_fast s + 1, vs_engaged := True\<rparr>,
            greedy_accept (map int am) (map (\<lambda>i. input_ids ! i) logits_indices) cu reqs steps junk))"

section \<open>Maxima\<close>

text \<open>The first place of a maximum among \<open>n + 1\<close> values.\<close>

definition first_max :: "(nat \<Rightarrow> 'v::linorder) \<Rightarrow> nat \<Rightarrow> nat \<Rightarrow> bool" where
  "first_max f n i \<longleftrightarrow> i \<le> n \<and> (\<forall>j \<le> n. f j \<le> f i) \<and> (\<forall>j < i. f j < f i)"

lemma block_max_first: "fst (block_max f n) = f (snd (block_max f n)) \<and> first_max f n (snd (block_max f n))"
proof (induction n)
  case (Suc n)
  obtain v i where b: "block_max f n = (v, i)" by force
  then have IH: "v = f i" "first_max f n i" using Suc by simp_all
  show ?case
  proof (cases "v < f (Suc n)")
    case True
    have "f j < f (Suc n)" if "j < Suc n" for j
    proof -
      have "f j \<le> f i" using IH(2) that by (simp add: first_max_def)
      also have "f i < f (Suc n)" using True IH(1) by simp
      finally show ?thesis .
    qed
    then show ?thesis using b True by (auto simp: first_max_def le_Suc_eq less_imp_le)
  next
    case False
    then show ?thesis using b IH by (auto simp: first_max_def le_Suc_eq)
  qed
qed (simp add: first_max_def)

lemma first_max_unique: "first_max f n i \<Longrightarrow> first_max f n j \<Longrightarrow> i = j"
  unfolding first_max_def by (metis leD linorder_neqE_nat order_less_imp_le order_le_less_trans)

lemma f32_nat_exact: "n < 2 ^ 24 \<Longrightarrow> f32_nat n = n"
proof -
  assume "n < 2 ^ 24"
  then have "floorlog 2 n \<le> 24" by (simp add: floorlog_le_iff)
  then show ?thesis by (simp add: f32_nat_def)
qed

lemma first_max_append:
  assumes "first_max f m i" "first_max (\<lambda>j. f (Suc m + j)) n k"
  shows "first_max f (Suc m + n) (if f i < f (Suc m + k) then Suc m + k else i)"
proof -
  have le: "f j \<le> f i" if "j \<le> m" for j using assms(1) that by (simp add: first_max_def)
  have le2: "f j \<le> f (Suc m + k)" if "Suc m \<le> j" "j \<le> Suc m + n" for j
    using assms(2) that by (auto simp: first_max_def dest!: le_Suc_ex)
  have lt2: "f j < f (Suc m + k)" if "Suc m \<le> j" "j < Suc m + k" for j
    using assms(2) that by (auto simp: first_max_def dest!: le_Suc_ex)
  have k: "k \<le> n" "i \<le> m" using assms by (simp_all add: first_max_def)
  show ?thesis
  proof (cases "f i < f (Suc m + k)")
    case True
    have "f j \<le> f (Suc m + k)" if "j \<le> Suc m + n" for j
      using le [of j] le2 [of j] True that by (cases "j \<le> m") (auto simp: not_le intro: order_trans less_imp_le)
    moreover have "f j < f (Suc m + k)" if "j < Suc m + k" for j
      using le [of j] lt2 [of j] True that by (cases "j \<le> m") (auto simp: not_le)
    ultimately show ?thesis using True k by (simp add: first_max_def)
  next
    case False
    have "f j \<le> f i" if "j \<le> Suc m + n" for j
      using le [of j] le2 [of j] False that by (cases "j \<le> m") (auto simp: not_le not_less)
    then show ?thesis using False k assms(1) by (simp add: first_max_def)
  qed
qed

lemma local_argmax_append:
  "local_argmax row n B (xs @ ys) best = local_argmax row n B ys (local_argmax row n B xs best)"
  by (induction row n B xs best rule: local_argmax.induct) (simp_all add: Let_def split_beta)

definition lane :: "'v::order_bot option list \<Rightarrow> nat \<Rightarrow> nat \<Rightarrow> 'v" where
  "lane row n j = (if j < n then clean (row ! j) else bot)"

lemma local_argmax_first:
  fixes row :: "'v::{linorder,order_bot} option list"
  assumes "0 < B" "0 < nb"
  shows "\<exists>i. local_argmax row n B (map (\<lambda>b. b * B) [0..<nb]) (bot, 0) = (lane row n i, i) \<and> first_max (lane row n) (nb * B - 1) i"
  using assms(2)
proof (induction nb rule: nat_induct_non_zero)
  case 1
  obtain k where k: "block_max (lane row n) (B - 1) = (lane row n k, k)" "first_max (lane row n) (B - 1) k"
    using block_max_first [of "lane row n" "B - 1"] by (metis prod.collapse)
  have b: "block_max (\<lambda>j. if 0 + j < n then clean (row ! (0 + j)) else bot) (B - 1) = (lane row n k, k)"
  proof -
    have "(\<lambda>j. if 0 + j < n then clean (row ! (0 + j)) else bot) = lane row n" by (rule ext) (simp add: lane_def)
    then show ?thesis using k(1) by (simp only:)
  qed
  show ?case
  proof (cases "bot < lane row n k")
    case True
    then show ?thesis using k(2) b by (simp add: Let_def)
  next
    case False
    then have z: "lane row n k = bot" using bot.not_eq_extremum by blast
    then have "lane row n j = bot" if "j \<le> B - 1" for j using k(2) that by (metis first_max_def bot.extremum_unique)
    then have "first_max (lane row n) (B - 1) 0" by (simp add: first_max_def)
    moreover have "lane row n 0 = bot" using k(2) z by (metis first_max_def bot.extremum_unique le0)
    ultimately show ?thesis using False b by (intro exI [of _ 0]) (simp add: Let_def)
  qed
next
  case (Suc nb)
  obtain i where i: "local_argmax row n B (map (\<lambda>b. b * B) [0..<nb]) (bot, 0) = (lane row n i, i)" "first_max (lane row n) (nb * B - 1) i"
    using Suc.IH by blast
  define g where "g = (\<lambda>j. lane row n (Suc (nb * B - 1) + j))"
  have s: "Suc (nb * B - 1) = nb * B" using Suc.hyps assms(1) by simp
  obtain k where k: "block_max g (B - 1) = (g k, k)" "first_max g (B - 1) k"
    using block_max_first [of g "B - 1"] by (metis prod.collapse)
  have b: "block_max (\<lambda>j. if nb * B + j < n then clean (row ! (nb * B + j)) else bot) (B - 1) = (lane row n (nb * B + k), k)"
    using k(1) unfolding g_def s by (simp add: lane_def [abs_def])
  have l: "local_argmax row n B (map (\<lambda>b. b * B) [0..<Suc nb]) (bot, 0)
      = (if lane row n i < lane row n (nb * B + k) then (lane row n (nb * B + k), nb * B + k) else (lane row n i, i))"
    unfolding upt_Suc_append [OF le0] map_append local_argmax_append i(1) by (simp add: b Let_def del: One_nat_def)
  have "nb * B + (B - 1) = Suc nb * B - 1" using assms(1) by simp
  then have "first_max (lane row n) (Suc nb * B - 1) (if lane row n i < lane row n (nb * B + k) then nb * B + k else i)"
    using first_max_append [OF i(2), of "B - 1" k] k(2) unfolding g_def s by simp
  then show ?case unfolding l by (intro exI [of _ "if lane row n i < lane row n (nb * B + k) then nb * B + k else i"]) simp
qed

text \<open>The kernel's pair for the columns of one shard.\<close>

lemma argmax_kernel_first:
  fixes row :: "'v::{linorder,order_bot} option list"
  assumes "0 < B" "0 < n" "n + lo \<le> 2 ^ 24"
  shows "\<exists>i. argmax_kernel row n lo B = (clean (row ! i), i + lo) \<and> first_max (\<lambda>j. clean (row ! j)) (n - 1) i"
proof -
  let ?nb = "(n + B - 1) div B"
  have nb: "0 < ?nb" using assms by (simp add: div_greater_zero_iff)
  have cover: "n \<le> ?nb * B"
  proof -
    have "n + B - 1 < ?nb * B + B" using assms(1) by (metis div_mult_mod_eq mod_less_divisor nat_add_left_cancel_less)
    then show ?thesis by linarith
  qed
  obtain i where i: "local_argmax row n B (map (\<lambda>b. b * B) [0..<?nb]) (bot, 0) = (lane row n i, i)"
    "first_max (lane row n) (?nb * B - 1) i" using local_argmax_first [OF assms(1) nb] by blast
  have "i < n"
  proof (rule ccontr)
    assume "\<not> i < n"
    then have "lane row n i = bot" "0 < i" using assms(2) by (simp_all add: lane_def)
    moreover have "lane row n 0 < lane row n i" using i(2) \<open>0 < i\<close> by (simp add: first_max_def)
    ultimately show False by simp
  qed
  have "first_max (\<lambda>j. clean (row ! j)) (n - 1) i"
    unfolding first_max_def
  proof (intro conjI allI impI)
    show "i \<le> n - 1" using \<open>i < n\<close> by simp
    fix j assume "j \<le> n - 1"
    then have "j < n" "j \<le> ?nb * B - 1" using assms(2) cover by simp_all
    then have "lane row n j \<le> lane row n i" using i(2) by (simp add: first_max_def)
    then show "clean (row ! j) \<le> clean (row ! i)" using \<open>j < n\<close> \<open>i < n\<close> by (simp add: lane_def)
  next
    fix j assume "j < i"
    then have "lane row n j < lane row n i" using i(2) by (simp add: first_max_def)
    then show "clean (row ! j) < clean (row ! i)" using \<open>j < i\<close> \<open>i < n\<close> by (simp add: lane_def)
  qed
  moreover have "f32_nat (i + lo) = i + lo" using \<open>i < n\<close> assms(3) by (intro f32_nat_exact) simp
  ultimately show ?thesis using i(1) \<open>i < n\<close> by (auto simp: argmax_kernel_def lane_def)
qed

text \<open>Adjacent ranges, the first maximum of each, and the first range with the greatest one.\<close>

lemma range_of:
  fixes s :: "nat \<Rightarrow> nat"
  assumes "s 0 = 0" "\<forall>k < n. s k < s (Suc k)" "j < s n"
  shows "\<exists>k < n. s k \<le> j \<and> j < s (Suc k)"
  using assms
proof (induction n)
  case (Suc n)
  show ?case
  proof (cases "j < s n")
    case True
    then show ?thesis using Suc by (metis less_SucI)
  next
    case False
    then show ?thesis using Suc.prems by (intro exI [of _ n]) simp
  qed
qed simp

lemma first_max_ranges:
  fixes s :: "nat \<Rightarrow> nat"
  assumes "s 0 = 0" "\<forall>k < n. s k < s (Suc k)" "0 < n"
    and pick: "\<forall>k < n. first_max (\<lambda>j. F (s k + j)) (s (Suc k) - s k - 1) (p k)"
    and best: "first_max (\<lambda>k. F (s k + p k)) (n - 1) b"
  shows "first_max F (s n - 1) (s b + p b)"
proof -
  have mono: "s a \<le> s c" if "a \<le> c" "c \<le> n" for a c
    using that
  proof (induction c)
    case (Suc c)
    show ?case
    proof (cases "a = Suc c")
      case False
      then have "s a \<le> s c" using Suc by simp
      also have "s c < s (Suc c)" using assms(2) Suc.prems by simp
      finally show ?thesis by simp
    qed simp
  qed simp
  have "b \<le> n - 1" using best by (simp add: first_max_def)
  then have b: "b < n" using assms(3) by linarith
  have inside: "F j \<le> F (s k + p k)" if k: "k < n" "s k \<le> j" "j < s (Suc k)" for j k
  proof -
    obtain d where d: "j = s k + d" using k(2) le_Suc_ex by blast
    then have "d \<le> s (Suc k) - s k - 1" using k(3) by simp
    then show ?thesis using pick k(1) unfolding d first_max_def by blast
  qed
  have before: "F j < F (s k + p k)" if k: "k < n" "s k \<le> j" "j < s k + p k" for j k
  proof -
    obtain d where d: "j = s k + d" using k(2) le_Suc_ex by blast
    then show ?thesis using pick k(1,3) unfolding d first_max_def by auto
  qed
  have pb: "p b \<le> s (Suc b) - s b - 1" using pick b by (simp add: first_max_def)
  show ?thesis
    unfolding first_max_def
  proof (intro conjI allI impI)
    have "s b < s (Suc b)" "s (Suc b) \<le> s n" using assms(2) b mono [of "Suc b" n] by auto
    then show in_range: "s b + p b \<le> s n - 1" using pb by linarith
    fix j assume "j \<le> s n - 1"
    moreover have "0 < s n" using assms(1,2,3) mono [of 1 n] by (metis One_nat_def Suc_leI gr_zeroI less_le_trans not_less_zero order_refl)
    ultimately have "j < s n" by linarith
    then obtain k where k: "k < n" "s k \<le> j" "j < s (Suc k)" using range_of [OF assms(1,2)] by blast
    then have "F j \<le> F (s k + p k)" by (rule inside)
    also have "\<dots> \<le> F (s b + p b)" using best k(1) by (simp add: first_max_def)
    finally show "F j \<le> F (s b + p b)" .
  next
    fix j assume j: "j < s b + p b"
    have "s b < s (Suc b)" using assms(2) b by blast
    then have js: "j < s (Suc b)" using j pb by linarith
    then have "j < s n" using mono [of "Suc b" n] b by linarith
    then obtain k where k: "k < n" "s k \<le> j" "j < s (Suc k)" using range_of [OF assms(1,2)] by blast
    have "k \<le> b"
    proof (rule ccontr)
      assume "\<not> k \<le> b"
      then have "s (Suc b) \<le> s k" using k(1) by (intro mono) auto
      then show False using js k(2) by simp
    qed
    show "F j < F (s b + p b)"
    proof (cases "k = b")
      case True
      then show ?thesis using before [OF k(1,2)] j by simp
    next
      case False
      then have "F (s k + p k) < F (s b + p b)" using best \<open>k \<le> b\<close> by (simp add: first_max_def)
      then show ?thesis using inside [OF k] by (rule order_le_less_trans [rotated])
    qed
  qed
qed

section \<open>The accepted prefix\<close>

definition accepts :: "(nat \<Rightarrow> int) \<Rightarrow> (nat \<Rightarrow> int) \<Rightarrow> nat \<Rightarrow> bool" where
  "accepts t d i \<longleftrightarrow> 0 \<le> d i \<and> t i = d i"

fun accepted_prefix :: "(nat \<Rightarrow> int) \<Rightarrow> (nat \<Rightarrow> int) \<Rightarrow> nat \<Rightarrow> nat" where
  "accepted_prefix t d 0 = 0"
| "accepted_prefix t d (Suc n) =
     (if accepted_prefix t d n = n \<and> accepts t d n then Suc n else accepted_prefix t d n)"

lemma accepted_prefix_le: "accepted_prefix t d n \<le> n"
  by (induction n) auto

lemma accepted_prefix_accepts: "i < accepted_prefix t d n \<Longrightarrow> accepts t d i"
  by (induction n) (auto simp: less_Suc_eq split: if_splits)

lemma accepted_prefix_maximal: "accepted_prefix t d n < n \<Longrightarrow> \<not> accepts t d (accepted_prefix t d n)"
proof (induction n)
  case (Suc n)
  then show ?case using accepted_prefix_le [of t d n] by (cases "accepted_prefix t d n = n") (auto split: if_splits)
qed simp

lemma accept_loop:
  assumes "n < length row"
  shows "\<exists>row'. fold (accept_step t d) [0..<n] (True, 0, row) = (accepted_prefix t d n = n, accepted_prefix t d n, row')
    \<and> length row' = length row \<and> (\<forall>i < accepted_prefix t d n. row' ! i = t i)"
  using assms
proof (induction n)
  case (Suc n)
  obtain row' where r: "fold (accept_step t d) [0..<n] (True, 0, row) = (accepted_prefix t d n = n, accepted_prefix t d n, row')"
    "length row' = length row" "\<forall>i < accepted_prefix t d n. row' ! i = t i" using Suc by auto
  have f: "fold (accept_step t d) [0..<Suc n] (True, 0, row) = accept_step t d n (accepted_prefix t d n = n, accepted_prefix t d n, row')"
    using r(1) by simp
  show ?case
  proof (cases "accepted_prefix t d n = n")
    case True
    show ?thesis
    proof (cases "accepts t d n")
      case acc: True
      then have "accept_step t d n (True, n, row') = (True, Suc n, row'[n := t n])"
        by (simp add: accept_step_def accepts_def Let_def max_def)
      moreover have "row'[n := t n] ! i = t i" if "i < Suc n" for i
      proof (cases "i = n")
        case False
        then show ?thesis using r(3) True that by (simp del: fold_simps)
      qed (use r(2) Suc.prems in simp)
      moreover have "fold (accept_step t d) [0..<Suc n] (True, 0, row) = accept_step t d n (True, n, row')"
        using f True by (simp only: simp_thms)
      moreover have "accepted_prefix t d (Suc n) = Suc n" using True acc by simp
      ultimately have A: "fold (accept_step t d) [0..<Suc n] (True, 0, row) = (accepted_prefix t d (Suc n) = Suc n, accepted_prefix t d (Suc n), row'[n := t n])"
        "\<forall>i < accepted_prefix t d (Suc n). row'[n := t n] ! i = t i" by simp_all
      have "length (row'[n := t n]) = length row" using r(2) by simp
      with A show ?thesis by blast
    next
      case rej: False
      then have "(t n = max 0 (d n) \<and> 0 \<le> d n) = False" by (auto simp: accepts_def)
      then have "accept_step t d n (True, n, row') = (False, n, row'[n := t n])"
        by (simp only: accept_step_def case_prod_conv Let_def if_True if_False of_bool_eq add_0_right)
      moreover have "fold (accept_step t d) [0..<Suc n] (True, 0, row) = accept_step t d n (True, n, row')"
        using f True by (simp only: simp_thms)
      moreover have "accepted_prefix t d (Suc n) = n" using True rej by simp
      moreover have "row'[n := t n] ! i = t i" if "i < n" for i using r(3) True that by simp
      ultimately have A: "fold (accept_step t d) [0..<Suc n] (True, 0, row) = (accepted_prefix t d (Suc n) = Suc n, accepted_prefix t d (Suc n), row'[n := t n])"
        "\<forall>i < accepted_prefix t d (Suc n). row'[n := t n] ! i = t i" by simp_all
      have "length (row'[n := t n]) = length row" using r(2) by simp
      with A show ?thesis by blast
    qed
  next
    case False
    then have "accept_step t d n (False, accepted_prefix t d n, row') = (False, accepted_prefix t d n, row')"
      by (simp add: accept_step_def Let_def)
    moreover have "accepted_prefix t d n \<noteq> Suc n" using accepted_prefix_le [of t d n] by simp
    ultimately show ?thesis using f False r by simp
  qed
qed simp

lemma greedy_accept_row:
  assumes "n < length row"
  obtains row' where "greedy_accept_kernel t d n row = (row', int (accepted_prefix t d n) + 1)"
    "length row' = length row" "\<forall>i \<le> accepted_prefix t d n. row' ! i = t i"
proof -
  obtain row' where r: "fold (accept_step t d) [0..<n] (True, 0, row) = (accepted_prefix t d n = n, accepted_prefix t d n, row')"
    "length row' = length row" "\<forall>i < accepted_prefix t d n. row' ! i = t i" using accept_loop [OF assms] by blast
  let ?a = "accepted_prefix t d n"
  have "?a < length row'" using accepted_prefix_le [of t d n] assms r(2) by linarith
  then have "\<forall>i \<le> ?a. row'[?a := t ?a] ! i = t i" using r(3) by (auto simp: le_less)
  moreover have "greedy_accept_kernel t d n row = (row'[?a := t ?a], int ?a + 1)" by (simp add: greedy_accept_kernel_def r(1))
  ultimately show thesis using that r(2) by simp
qed

section \<open>The sharded argmax\<close>

text \<open>Rank \<open>k\<close> holds the columns from \<open>s k\<close> to \<open>s (k + 1)\<close> of the full logits.\<close>

definition shard_of ::
  "(nat \<Rightarrow> nat \<Rightarrow> 'v option) \<Rightarrow> nat \<Rightarrow> nat \<Rightarrow> nat \<Rightarrow> 'v option list list \<times> nat \<times> nat \<times> nat \<Rightarrow> bool" where
  "shard_of full rows lo hi sh \<longleftrightarrow>
     (case sh of (lg, w, a, b) \<Rightarrow> a = lo \<and> b = hi \<and> lo < hi \<and> hi - lo \<le> w
        \<and> (\<forall>m < rows. m < length lg \<and> (\<forall>j < hi - lo. lg ! m ! j = full m (lo + j))))"

lemma sharded_argmax:
  fixes full :: "nat \<Rightarrow> nat \<Rightarrow> 'v::{linorder,order_bot} option"
  assumes "shards \<noteq> []" "s 0 = 0" "s (length shards) \<le> 2 ^ 24"
    and "\<forall>k < length shards. shard_of full rows (s k) (s (Suc k)) (shards ! k)"
  shows "\<exists>am. verify_argmax shards rows = Inr am \<and> length am = rows
    \<and> (\<forall>m < rows. first_max (\<lambda>j. clean (full m j)) (s (length shards) - 1) (am ! m))"
proof -
  let ?n = "length shards"
  have inc: "\<forall>k < ?n. s k < s (Suc k)" using assms(4) by (force simp: shard_of_def)
  have top: "s (Suc k) \<le> 2 ^ 24" if "k < ?n" for k
  proof -
    have "s (Suc k) \<le> s (Suc k + m)" if "Suc k + m \<le> ?n" for m
      using that
    proof (induction m)
      case (Suc m)
      then have "s (Suc k) \<le> s (Suc k + m)" by simp
      also have "s (Suc k + m) < s (Suc (Suc k + m))" using inc Suc.prems by simp
      finally show ?case by simp
    qed simp
    moreover have "Suc k + (?n - Suc k) = ?n" using that by simp
    ultimately have "s (Suc k) \<le> s ?n" by (metis order_refl)
    then show ?thesis using assms(3) by linarith
  qed
  define pairs where "pairs = map (\<lambda>(logits, width, lo, hi). map (\<lambda>row. argmax_kernel row (hi - lo) lo 4096) logits) shards"
  have ok: "\<not> list_ex (\<lambda>(logits, width, lo, hi). \<not> (lo < hi \<and> hi - lo \<le> width)) shards"
  proof -
    have "lo < hi \<and> hi - lo \<le> width" if "(logits, width, lo, hi) \<in> set shards" for logits width lo hi
      using that assms(4) by (auto simp: in_set_conv_nth shard_of_def split: prod.splits)
    then show ?thesis by (auto simp: list_ex_iff)
  qed
  define am where "am = combine_pairs (map (\<lambda>m. map (\<lambda>p. p ! m) pairs) [0..<rows])"
  have v: "verify_argmax shards rows = Inr am" using ok by (simp add: verify_argmax_def am_def pairs_def)
  have "first_max (\<lambda>j. clean (full m j)) (s ?n - 1) (am ! m)" if m: "m < rows" for m
  proof -
    let ?F = "\<lambda>j. clean (full m j)"
    have "\<exists>i. pairs ! k ! m = (?F (s k + i), s k + i) \<and> first_max (\<lambda>j. ?F (s k + j)) (s (Suc k) - s k - 1) i" if k: "k < ?n" for k
    proof -
      obtain lg w where sh: "shards ! k = (lg, w, s k, s (Suc k))" "m < length lg" "\<forall>j < s (Suc k) - s k. lg ! m ! j = full m (s k + j)"
        using assms(4) k m by (cases "shards ! k") (auto simp: shard_of_def)
      have w: "0 < s (Suc k) - s k" "s (Suc k) - s k + s k \<le> 2 ^ 24" using inc k top by (auto simp: less_imp_le)
      obtain i where i: "argmax_kernel (lg ! m) (s (Suc k) - s k) (s k) 4096 = (clean (lg ! m ! i), i + s k)"
        "first_max (\<lambda>j. clean (lg ! m ! j)) (s (Suc k) - s k - 1) i"
        using argmax_kernel_first [of 4096 "s (Suc k) - s k" "s k" "lg ! m"] w by auto
      have c: "clean (lg ! m ! j) = ?F (s k + j)" if "j \<le> s (Suc k) - s k - 1" for j
        using sh(3) w(1) that by simp
      have "i \<le> s (Suc k) - s k - 1" using i(2) by (simp add: first_max_def)
      then have "first_max (\<lambda>j. ?F (s k + j)) (s (Suc k) - s k - 1) i" "clean (lg ! m ! i) = ?F (s k + i)"
        using i(2) c by (auto simp: first_max_def)
      moreover have "pairs ! k ! m = argmax_kernel (lg ! m) (s (Suc k) - s k) (s k) 4096"
        using k sh by (simp add: pairs_def)
      ultimately show ?thesis using i(1) by (intro exI [of _ i]) (simp add: add.commute)
    qed
    then obtain p where p: "\<forall>k < ?n. pairs ! k ! m = (?F (s k + p k), s k + p k)
        \<and> first_max (\<lambda>j. ?F (s k + j)) (s (Suc k) - s k - 1) (p k)" by metis
    let ?row = "map (\<lambda>q. q ! m) pairs"
    have lp: "length pairs = ?n" by (simp add: pairs_def)
    define b where "b = first_argmax (map fst ?row)"
    have fm: "first_max (\<lambda>k. map fst ?row ! k) (?n - 1) b"
      using block_max_first [of "\<lambda>i. map fst ?row ! i" "?n - 1"] unfolding b_def first_argmax_def by (simp add: lp del: map_map)
    have nth: "map fst ?row ! k = ?F (s k + p k)" if "k \<le> ?n - 1" for k
    proof -
      have "k < ?n" using that assms(1) by (cases shards) auto
      then show ?thesis using p lp by simp
    qed
    have bn: "b \<le> ?n - 1" using fm by (simp add: first_max_def)
    then have "b < ?n" using assms(1) by (cases shards) auto
    have "first_max (\<lambda>k. ?F (s k + p k)) (?n - 1) b"
      unfolding first_max_def
    proof (intro conjI allI impI)
      show "b \<le> ?n - 1" by (rule bn)
      show "?F (s j + p j) \<le> ?F (s b + p b)" if "j \<le> ?n - 1" for j
        using fm nth [OF that] nth [OF bn] that unfolding first_max_def by metis
      show "?F (s j + p j) < ?F (s b + p b)" if "j < b" for j
      proof -
        have "j \<le> ?n - 1" using that bn by linarith
        then show ?thesis using fm nth [of j] nth [OF bn] that unfolding first_max_def by metis
      qed
    qed
    then have "first_max ?F (s ?n - 1) (s b + p b)"
      using first_max_ranges [of s ?n ?F p b] assms(1,2) inc p by simp
    moreover have "am ! m = s b + p b"
      using m \<open>b < ?n\<close> p lp by (simp add: am_def combine_pairs_def b_def [symmetric] del: map_map)
    ultimately show ?thesis by simp
  qed
  moreover have "length am = rows" by (simp add: am_def combine_pairs_def)
  ultimately show ?thesis using v by blast
qed

section \<open>A whole step\<close>

text \<open>
  C28. On shards that cover the vocabulary and agree on the row count, verification from the
  (value, index) pairs emits for each request exactly the tokens greedy decoding of the full
  logits would: the accepted draft prefix, then the full row's first argmax, and its count.
\<close>

theorem verify_is_greedy_decoding:
  fixes full :: "nat \<Rightarrow> nat \<Rightarrow> 'v::{linorder,order_bot} option"
  assumes "shards \<noteq> []" "s 0 = 0" "s (length shards) \<le> 2 ^ 24"
    and "\<forall>k < length shards. shard_of full (length logits_indices) (s k) (s (Suc k)) (shards ! k)"
    and "\<forall>q < reqs. cu ! q < cu ! Suc q \<and> cu ! Suc q \<le> length logits_indices \<and> cu ! Suc q - cu ! q \<le> steps + 1 \<and> steps < length (junk q)"
  shows "\<exists>st' out. verify st shards input_ids logits_indices cu reqs steps junk = Inr (st', out) \<and> length out = reqs
    \<and> (\<forall>q < reqs. \<exists>toks n. out ! q = (toks, int n + 1) \<and> n < cu ! Suc q - cu ! q
         \<and> (\<forall>i \<le> n. 0 \<le> toks ! i \<and> first_max (\<lambda>j. clean (full (cu ! q + i) j)) (s (length shards) - 1) (nat (toks ! i)))
         \<and> (\<forall>i < n. toks ! i = input_ids ! (logits_indices ! (cu ! q + i + 1)))
         \<and> (n < cu ! Suc q - cu ! q - 1 \<longrightarrow> toks ! n \<noteq> input_ids ! (logits_indices ! (cu ! q + n + 1))))"
proof -
  obtain am where am: "verify_argmax shards (length logits_indices) = Inr am" "length am = length logits_indices"
    "\<forall>m < length logits_indices. first_max (\<lambda>j. clean (full m j)) (s (length shards) - 1) (am ! m)"
    using sharded_argmax [OF assms(1-4)] by blast
  define dr where "dr = map (\<lambda>i. input_ids ! i) logits_indices"
  define out where "out = greedy_accept (map int am) dr cu reqs steps junk"
  have v: "verify st shards input_ids logits_indices cu reqs steps junk = Inr (st\<lparr>vs_fast := vs_fast st + 1, vs_engaged := True\<rparr>, out)"
    by (simp add: verify_def am(1) out_def dr_def)
  have lo: "length out = reqs" by (simp add: out_def greedy_accept_def)
  have "\<exists>toks n. out ! q = (toks, int n + 1) \<and> n < cu ! Suc q - cu ! q
         \<and> (\<forall>i \<le> n. 0 \<le> toks ! i \<and> first_max (\<lambda>j. clean (full (cu ! q + i) j)) (s (length shards) - 1) (nat (toks ! i)))
         \<and> (\<forall>i < n. toks ! i = input_ids ! (logits_indices ! (cu ! q + i + 1)))
         \<and> (n < cu ! Suc q - cu ! q - 1 \<longrightarrow> toks ! n \<noteq> input_ids ! (logits_indices ! (cu ! q + n + 1)))" if q: "q < reqs" for q
  proof -
    define t where "t = (\<lambda>i. map int am ! (cu ! q + i))"
    define d where "d = (\<lambda>i. dr ! (cu ! q + i + 1))"
    define k where "k = cu ! Suc q - cu ! q - 1"
    have c: "cu ! q < cu ! Suc q" "cu ! Suc q \<le> length logits_indices" "k \<le> steps" "steps < length (junk q)"
      using assms(5) q by (auto simp: k_def)
    have "k < length (take (steps + 1) (junk q))" using c by simp
    then obtain row where row: "greedy_accept_kernel t d k (take (steps + 1) (junk q)) = (row, int (accepted_prefix t d k) + 1)"
      "\<forall>i \<le> accepted_prefix t d k. row ! i = t i" by (rule greedy_accept_row)
    let ?n = "accepted_prefix t d k"
    have n: "?n \<le> k" by (rule accepted_prefix_le)
    have o: "out ! q = (row, int ?n + 1)"
      using q row(1) by (simp add: out_def greedy_accept_def t_def d_def k_def)
    have t: "t i = int (am ! (cu ! q + i))" if "i \<le> k" for i
    proof -
      have "cu ! q + i < length am" using that c am(2) by (simp add: k_def)
      then show ?thesis by (simp add: t_def)
    qed
    have d: "d i = input_ids ! (logits_indices ! (cu ! q + i + 1))" if "i < k" for i
    proof -
      have "cu ! q + i + 1 < length logits_indices" using that c by (simp add: k_def)
      then show ?thesis by (simp add: d_def dr_def)
    qed
    have "0 \<le> row ! i \<and> first_max (\<lambda>j. clean (full (cu ! q + i) j)) (s (length shards) - 1) (nat (row ! i))" if "i \<le> ?n" for i
    proof -
      have "cu ! q + i < length logits_indices" using that n c by (simp add: k_def)
      then show ?thesis using am(3) row(2) t [of i] that n by simp
    qed
    moreover have "row ! i = input_ids ! (logits_indices ! (cu ! q + i + 1))" if "i < ?n" for i
      using accepted_prefix_accepts [OF that] row(2) d [of i] that n by (simp add: accepts_def)
    moreover have "row ! ?n \<noteq> input_ids ! (logits_indices ! (cu ! q + ?n + 1))" if "?n < k"
    proof -
      have "\<not> accepts t d ?n" using that by (rule accepted_prefix_maximal)
      moreover have "0 \<le> t ?n" using t [of ?n] n by simp
      ultimately have "t ?n \<noteq> d ?n" by (auto simp: accepts_def)
      then show ?thesis using row(2) d [OF that] by simp
    qed
    moreover have "?n < cu ! Suc q - cu ! q" using n c(1) unfolding k_def by linarith
    ultimately show ?thesis using o unfolding k_def [symmetric] by blast
  qed
  then show ?thesis using v lo by blast
qed

section \<open>An example\<close>

text \<open>Two ranks with three and two columns, three rows of one request with two drafts; the first draft is
  right and the second is not. A NaN and a tie across the ranks occur.\<close>

definition demo_full :: "nat \<Rightarrow> nat \<Rightarrow> nat option" where
  "demo_full m j = (map (map Some) [[1, 5, 2, 5, 0], [0, 0, 7, 1, 9], [3, 3, 3, 3, 3]])[1 := [Some 0, None, Some 7, Some 1, Some 9]] ! m ! j"

definition demo_shards :: "(nat option list list \<times> nat \<times> nat \<times> nat) list" where
  "demo_shards = [(map (\<lambda>m. map (demo_full m) [0, 1, 2]) [0, 1, 2], 3, 0, 3), (map (\<lambda>m. map (demo_full m) [3, 4] @ [None]) [0, 1, 2], 3, 3, 5)]"

theorem verify_is_greedy_decoding_witness:
  "\<exists>st' toks. verify \<lparr>vs_engaged = False, vs_fast = 0, vs_fallback = 0, vs_head = None\<rparr> demo_shards [50, 1, 2] [0, 1, 2] [0, 3] 1 2 (\<lambda>_. [8, 8, 8])
     = Inr (st', [(toks, 2)]) \<and> toks ! 0 = 1 \<and> toks ! 1 = 4"
proof -
  define s where "s = (\<lambda>k :: nat. [0, 3, 5] ! k :: nat)"
  have sh: "\<forall>k < length demo_shards. shard_of demo_full (length [0, 1, 2 :: nat]) (s k) (s (Suc k)) (demo_shards ! k)"
    by (simp add: demo_shards_def shard_of_def s_def less_Suc_eq numeral_nat nth_append)
  have b: "demo_shards \<noteq> []" "s 0 = 0" "s (length demo_shards) \<le> 2 ^ 24" "s (length demo_shards) = 5"
    by (simp_all add: demo_shards_def s_def)
  let ?st = "\<lparr>vs_engaged = False, vs_fast = 0, vs_fallback = 0, vs_head = None\<rparr>"
  obtain st' out where v: "verify ?st demo_shards [50, 1, 2] [0, 1, 2] [0, 3] 1 2 (\<lambda>_. [8, 8, 8]) = Inr (st', out)" "length out = 1"
    "\<exists>toks n. out ! 0 = (toks, int n + 1) \<and> n < 3
       \<and> (\<forall>i \<le> n. 0 \<le> toks ! i \<and> first_max (\<lambda>j. clean (demo_full i j)) 4 (nat (toks ! i)))
       \<and> (\<forall>i < n. toks ! i = [50, 1, 2] ! ([0, 1, 2] ! (i + 1)))
       \<and> (n < 2 \<longrightarrow> toks ! n \<noteq> [50, 1, 2] ! ([0, 1, 2] ! (n + 1)))"
    using verify_is_greedy_decoding [OF b(1-3) sh, of 1 "[0, 3]" 2 "\<lambda>_. [8, 8, 8]" ?st "[50, 1, 2]"] b(4) by auto
  then obtain toks n where o: "out = [(toks, int n + 1)]" "n < 3"
    "\<forall>i \<le> n. 0 \<le> toks ! i \<and> first_max (\<lambda>j. clean (demo_full i j)) 4 (nat (toks ! i))"
    "\<forall>i < n. toks ! i = [50, 1, 2] ! ([0, 1, 2] ! (i + 1))" "n < 2 \<longrightarrow> toks ! n \<noteq> [50, 1, 2] ! ([0, 1, 2] ! (n + 1))"
    by (cases out) auto
  have f: "first_max (\<lambda>j. clean (demo_full 0 j)) 4 1" "first_max (\<lambda>j. clean (demo_full 1 j)) 4 4"
  proof -
    have "snd (block_max (\<lambda>j. clean (demo_full 0 j)) 4) = 1" "snd (block_max (\<lambda>j. clean (demo_full 1 j)) 4) = 4" by code_simp+
    then show "first_max (\<lambda>j. clean (demo_full 0 j)) 4 1" "first_max (\<lambda>j. clean (demo_full 1 j)) 4 4"
      using block_max_first [of "\<lambda>j. clean (demo_full 0 j)" 4] block_max_first [of "\<lambda>j. clean (demo_full 1 j)" 4] by simp_all
  qed
  have "nat (toks ! 0) = 1" "0 \<le> toks ! 0" using first_max_unique [OF _ f(1), of "nat (toks ! 0)"] o(3) by blast+
  then have t0: "toks ! 0 = 1" by linarith
  have "n \<noteq> 0"
  proof
    assume "n = 0"
    with o(5) t0 show False by simp
  qed
  then have n1: "1 \<le> n" by simp
  then have "nat (toks ! 1) = 4" "0 \<le> toks ! 1" using first_max_unique [OF _ f(2), of "nat (toks ! 1)"] o(3) by blast+
  then have t1: "toks ! 1 = 4" by linarith
  have "n \<noteq> 2"
  proof
    assume "n = 2"
    with o(4) t1 show False by simp
  qed
  then have "n = 1" using n1 o(2) by simp
  then show ?thesis using v(1) o(1) t0 t1 by simp
qed

end
