(* ===== verification/Mhc_Ownership.thy ===== *)
theory Mhc_Ownership
  imports Ringside_Prelude
begin

text \<open>
  Prefill ownership of the mHC rows (\<open>src/src/tp4/vllm/models/glm5next/nvidia/mhc_prefill_sharding.py\<close>): the
  configuration vote at boot, the admission vote of every forward, and the ownership object that cuts the rows of a
  forward into four equal shares for one reduce-scatter and one all-gather per half layer. A tensor is the list
  of its rows with the properties the code tests; rows are a parameter. The collectives (PyNccl or the prefill ring), the
  model and its layers enter as values and records. Log lines are left out, their counters are kept.
\<close>

section \<open>Configuration\<close>

definition MAX_ROWS :: int where "MAX_ROWS = 14336"
definition MIN_ROWS_DEFAULT :: string where "MIN_ROWS_DEFAULT = ''1024''"

definition parse_min_rows :: "string \<Rightarrow> int py" where
  "parse_min_rows raw =
     py_bind (py_int raw) (\<lambda>v. py_guard (\<not> (1 \<le> v \<and> v \<le> MAX_ROWS)) RuntimeError (Inr v))"

record mhc_config =
  mc_tp :: int
  mc_dcp :: int
  mc_pp :: int
  mc_dp :: int
  mc_pcp :: int
  mc_expert_parallel :: bool
  mc_eplb :: bool
  mc_sequence_moe :: bool
  mc_max_batched :: int
  mc_async :: bool
  mc_capture_sizes :: "int list"

definition validate_config :: "mhc_config \<Rightarrow> int \<Rightarrow> unit py" where
  "validate_config c min_rows =
     py_guard (mc_tp c \<noteq> 4 \<or> mc_dcp c \<noteq> 1 \<or> mc_pp c \<noteq> 1 \<or> mc_dp c \<noteq> 1 \<or> mc_pcp c \<noteq> 1
         \<or> mc_expert_parallel c \<or> mc_eplb c \<or> mc_sequence_moe c) RuntimeError
       (py_guard (mc_max_batched c \<noteq> MAX_ROWS) RuntimeError
         (py_guard (mc_async c) RuntimeError
           (py_guard (list_ex (\<lambda>size. min_rows \<le> size) (mc_capture_sizes c)) RuntimeError (Inr ()))))"

text \<open>The four raw selectors of a rank and what its own checks say.\<close>

type_synonym raw_selectors = "string \<times> string \<times> string \<times> string"

definition raw_of :: "environ \<Rightarrow> raw_selectors" where
  "raw_of env =
     (let raw_min = env_get env ''GLM53_MHC_PREFILL_MIN_ROWS'' MIN_ROWS_DEFAULT in
      (env_get env ''GLM53_MHC_PREFILL_SHARD'' ''0'', raw_min, env_get env ''GLM53_MHC_PREFILL_RDMA'' ''0'',
       env_get env ''GLM53_MHC_PREFILL_RDMA_MIN_ROWS'' raw_min))"

definition configure_checks :: "raw_selectors \<Rightarrow> mhc_config py \<Rightarrow> (int \<times> int) py" where
  "configure_checks raws config =
     (case raws of (raw, raw_min, raw_rdma, raw_rdma_min) \<Rightarrow>
        py_guard (raw \<notin> {''0'', ''1''}) RuntimeError
          (py_guard (raw_rdma \<notin> {''0'', ''1''}) RuntimeError
            (py_bind (parse_min_rows raw_min) (\<lambda>min_rows.
              py_bind (parse_min_rows raw_rdma_min) (\<lambda>rdma_min.
                py_guard (raw_rdma = ''1'' \<and> (raw \<noteq> ''1'' \<or> rdma_min < min_rows)) RuntimeError
                  (py_bind (if raw = ''1'' then py_bind config (\<lambda>c. validate_config c min_rows) else Inr ()) (\<lambda>_.
                    Inr (min_rows, rdma_min))))))))"

definition config_vote :: "environ \<Rightarrow> mhc_config py \<Rightarrow> raw_selectors \<times> py_error option" where
  "config_vote env config =
     (raw_of env, case configure_checks (raw_of env) config of Inl e \<Rightarrow> Some e | Inr _ \<Rightarrow> None)"

record mhc_model =
  mhc_enabled :: bool
  mhc_min_rows :: int
  mhc_rdma :: bool
  mhc_rdma_min_rows :: int

text \<open>\<open>configure\<close> after the votes are gathered, the rank's own among them; \<open>comm_ok\<close> says the PyNccl communicator is the active one.\<close>

definition configure :: "environ \<Rightarrow> mhc_config py \<Rightarrow> (raw_selectors \<times> py_error option) list \<Rightarrow> bool \<Rightarrow> mhc_model py" where
  "configure env config votes comm_ok =
     (case configure_checks (raw_of env) config of
        Inl e \<Rightarrow> Inl (if e \<in> {AttributeError, RuntimeError, ValueError} then RuntimeError else e)
      | Inr (min_rows, rdma_min) \<Rightarrow>
          py_guard (list_ex (\<lambda>v. v \<noteq> (raw_of env, None)) votes) RuntimeError
            (case raw_of env of (raw, _, raw_rdma, _) \<Rightarrow>
               py_guard (raw = ''1'' \<and> raw_rdma = ''1'' \<and> \<not> comm_ok) RuntimeError
                 (Inr \<lparr>mhc_enabled = (raw = ''1''), mhc_min_rows = min_rows,
                       mhc_rdma = (raw = ''1'' \<and> raw_rdma = ''1''), mhc_rdma_min_rows = rdma_min\<rparr>)))"

section \<open>What a forward must look like\<close>

datatype fallback = No_Metadata | Metadata_Type | Metadata_Rows | Below_Threshold | Hidden_Geometry

text \<open>A metadata owner's four counts; \<open>None\<close> is a field that is not an integer.\<close>

record metadata_item =
  mi_prefill :: "int option"
  mi_decode :: "int option"
  mi_spec :: "int option"
  mi_actual :: "int option"

fun metadata_items :: "(string \<rightharpoonup> metadata_item) \<Rightarrow> string list \<Rightarrow> int \<Rightarrow> fallback option" where
  "metadata_items metadata [] rows = None"
| "metadata_items metadata (name # names) rows =
     (case metadata name of
        None \<Rightarrow> Some Metadata_Type
      | Some item \<Rightarrow>
          (case (mi_prefill item, mi_decode item, mi_spec item, mi_actual item) of
             (Some p, Some d, Some s, Some n) \<Rightarrow>
               if n \<noteq> rows \<or> p + d + s \<noteq> rows then Some Metadata_Rows else metadata_items metadata names rows
           | _ \<Rightarrow> Some Metadata_Type))"

definition batch_metadata :: "(string \<rightharpoonup> metadata_item) option \<Rightarrow> string list \<Rightarrow> int \<Rightarrow> fallback option" where
  "batch_metadata metadata names rows =
     (case metadata of
        None \<Rightarrow> Some No_Metadata
      | Some m \<Rightarrow> if names = [] then Some No_Metadata else metadata_items m names rows)"

record moe_info =
  moe_tp :: int
  moe_dp :: int
  moe_ep :: int
  moe_pcp :: int
  moe_sequence_parallel :: bool
  moe_skip_reduce :: bool
  moe_all2all :: bool
  moe_fused_reduced :: bool
  moe_output_transform :: bool
  moe_input_transform :: bool
  moe_zero_expert :: bool

definition validate_moe_deferral :: "moe_info \<Rightarrow> unit py" where
  "validate_moe_deferral c =
     py_guard (moe_tp c \<noteq> 4 \<or> moe_dp c \<noteq> 1 \<or> moe_ep c \<noteq> 1 \<or> moe_pcp c \<noteq> 1 \<or> moe_sequence_parallel c \<or> moe_skip_reduce c
       \<or> moe_all2all c \<or> moe_fused_reduced c \<or> moe_output_transform c \<or> moe_input_transform c \<or> moe_zero_expert c)
       RuntimeError (Inr ())"

record projection =
  pr_row_parallel :: bool
  pr_tp :: int
  pr_reduces :: bool
  pr_bias :: bool

datatype attention = Linear_Attention string | MLA_Attention bool | Other_Attention
datatype feed_forward = MoE bool moe_info | Dense projection

record layer =
  ly_mhc :: bool
  ly_mtp :: bool
  ly_index :: int
  ly_layers :: int
  ly_n :: int
  ly_attn :: attention
  ly_proj :: projection
  ly_ff :: feed_forward

definition reducing :: "projection \<Rightarrow> bool" where
  "reducing p \<longleftrightarrow> pr_row_parallel p \<and> pr_tp p = 4 \<and> pr_reduces p \<and> \<not> pr_bias p"

fun validate_layers :: "int \<Rightarrow> layer list \<Rightarrow> string list \<Rightarrow> string list py" where
  "validate_layers i [] names = Inr names"
| "validate_layers i (l # ls) names =
     py_guard (\<not> ly_mhc l \<or> ly_mtp l \<or> ly_index l \<noteq> i \<or> ly_layers l \<noteq> 45 \<or> ly_n l \<noteq> 4) RuntimeError
       (py_bind (case ly_attn l of
                   Linear_Attention prefix \<Rightarrow> Inr (names @ [prefix])
                 | MLA_Attention wrapped \<Rightarrow> py_guard (\<not> wrapped) RuntimeError (Inr names)
                 | Other_Attention \<Rightarrow> Inl RuntimeError) (\<lambda>names'.
         py_guard (\<not> reducing (ly_proj l)) RuntimeError
           (py_bind (case ly_ff l of
                       MoE runner moe \<Rightarrow> py_guard (\<not> runner) RuntimeError (validate_moe_deferral moe)
                     | Dense p \<Rightarrow> py_guard (\<not> reducing p) RuntimeError (Inr ())) (\<lambda>_.
             validate_layers (i + 1) ls names'))))"

definition validate_model :: "mhc_config \<Rightarrow> int \<Rightarrow> bool \<Rightarrow> layer list \<Rightarrow> string list py" where
  "validate_model config min_rows sequence_parallel layers =
     py_bind (validate_config config min_rows) (\<lambda>_.
       py_guard (sequence_parallel \<or> length layers \<noteq> 45) RuntimeError
         (py_bind (validate_layers 0 layers []) (\<lambda>names. py_guard (names = []) RuntimeError (Inr names))))"

section \<open>Ownership of rows\<close>

record 'r tensor =
  t_rows :: "'r list"
  t_cuda :: bool
  t_device :: nat
  t_bf16 :: bool
  t_contiguous :: bool
  t_hidden :: bool

record ownership =
  ow_rank :: int
  ow_rows :: int
  rs_count :: int
  ag_count :: int
  ow_rdma :: bool
  owner_rows :: int
  padded_rows :: int
  valid_rows :: int

definition own_new :: "int \<Rightarrow> int \<Rightarrow> bool \<Rightarrow> ownership py" where
  "own_new rank rows rdma =
     py_guard (\<not> (1 \<le> rows \<and> rows \<le> MAX_ROWS) \<or> rank \<notin> {0, 1, 2, 3}) RuntimeError
       (let q = cdiv rows 4 in
        Inr \<lparr>ow_rank = rank, ow_rows = rows, rs_count = 0, ag_count = 0, ow_rdma = rdma, owner_rows = q,
             padded_rows = 4 * q, valid_rows = max 0 (min q (rows - rank * q))\<rparr>)"

definition rows_of :: "int \<Rightarrow> int \<Rightarrow> 'r list \<Rightarrow> 'r list" where
  "rows_of lo n xs = take (nat n) (drop (nat lo) xs)"

text \<open>\<open>zero\<close> is a row of zeros.\<close>

definition local_view :: "'r \<Rightarrow> ownership \<Rightarrow> 'r list \<Rightarrow> 'r list py" where
  "local_view zero w xs =
     py_guard (int (length xs) \<noteq> ow_rows w) RuntimeError
       (let q = owner_rows w; lo = ow_rank w * q in
        Inr (if lo + q \<le> ow_rows w then rows_of lo q xs
             else rows_of lo (valid_rows w) xs @ replicate (nat (q - valid_rows w)) zero))"

record communicator =
  cm_available :: bool
  cm_disabled :: bool
  cm_device :: nat

definition check_rows :: "communicator \<Rightarrow> 'r tensor \<Rightarrow> int \<Rightarrow> unit py" where
  "check_rows c t n =
     py_guard (\<not> cm_available c \<or> cm_disabled c) RuntimeError
       (py_guard (int (length (t_rows t)) \<noteq> n \<or> \<not> t_cuda t \<or> t_device t \<noteq> cm_device c \<or> \<not> t_bf16 t \<or> \<not> t_contiguous t)
         RuntimeError (Inr ()))"

text \<open>The buffer a rank sends: the partial rows with zero rows up to a multiple of four.\<close>

definition padded :: "'r \<Rightarrow> ownership \<Rightarrow> 'r list \<Rightarrow> 'r list" where
  "padded zero w xs = (if padded_rows w \<noteq> ow_rows w then xs @ replicate (nat (padded_rows w - ow_rows w)) zero else xs)"

definition reduce_scatter :: "'r \<Rightarrow> ('r list \<Rightarrow> 'r list) \<Rightarrow> communicator \<Rightarrow> ownership \<Rightarrow> 'r tensor \<Rightarrow> (ownership \<times> 'r tensor) py" where
  "reduce_scatter zero collective c w partial =
     py_bind (check_rows c partial (ow_rows w)) (\<lambda>_.
       py_guard (\<not> t_hidden partial) RuntimeError
         (Inr (w\<lparr>rs_count := rs_count w + 1\<rparr>, partial\<lparr>t_rows := collective (padded zero w (t_rows partial))\<rparr>)))"

definition all_gather :: "('r list \<Rightarrow> 'r list) \<Rightarrow> communicator \<Rightarrow> ownership \<Rightarrow> 'r tensor \<Rightarrow> (ownership \<times> 'r tensor) py" where
  "all_gather collective c w owned =
     py_bind (check_rows c owned (owner_rows w)) (\<lambda>_.
       let full = collective (t_rows owned) in
       Inr (w\<lparr>ag_count := ag_count w + 1\<rparr>,
            owned\<lparr>t_rows := (if padded_rows w = ow_rows w then full else take (nat (ow_rows w)) full)\<rparr>))"

record totals =
  tt_engaged :: int
  tt_rows :: int
  tt_padded :: int
  tt_fallback :: int
  tt_rdma :: int

definition finish :: "ownership \<Rightarrow> totals \<Rightarrow> int \<Rightarrow> int \<Rightarrow> totals py" where
  "finish w t layers auxiliary =
     py_guard (rs_count w \<noteq> 2 * layers \<or> ag_count w \<noteq> 2 * layers + auxiliary) RuntimeError
       (Inr (t\<lparr>tt_engaged := tt_engaged t + 1, tt_rows := tt_rows t + ow_rows w,
               tt_padded := tt_padded t + of_bool (padded_rows w \<noteq> ow_rows w), tt_rdma := tt_rdma t + of_bool (ow_rdma w)\<rparr>))"

section \<open>Admission\<close>

type_synonym ballot = "bool \<times> int \<times> py_error option"

text \<open>\<open>None\<close> is a malformed vote.\<close>

definition agree_admission :: "ballot option list \<Rightarrow> bool py" where
  "agree_admission votes =
     py_guard (length votes \<noteq> 4 \<or> None \<in> set votes) RuntimeError
       (let vs = map the votes in
        py_guard (list_ex (\<lambda>(e, r, err). err \<noteq> None) vs) RuntimeError
          (py_guard (card ((\<lambda>(e, r, err). (e, r)) ` set vs) \<noteq> 1) RuntimeError (Inr (fst (hd vs)))))"

text \<open>What one rank sees of a forward.\<close>

record forward =
  fw_compiling :: bool
  fw_capturing :: bool
  fw_context :: bool
  fw_graph_mode :: bool
  fw_ubatch :: bool
  fw_world :: int
  fw_rank :: int
  fw_hidden :: "unit tensor"
  fw_positions :: int
  fw_metadata :: "(string \<rightharpoonup> metadata_item) option"
  fw_comm :: "(communicator \<times> int \<times> int) option"
  fw_sm121 :: bool

text \<open>The \<open>try\<close> block: eligibility, reason and the communicator.\<close>

definition eligibility ::
  "mhc_model \<Rightarrow> mhc_config py \<Rightarrow> bool \<Rightarrow> layer list \<Rightarrow> forward \<Rightarrow> (bool \<times> fallback option) py" where
  "eligibility m config sp layers f =
     (let rows = int (length (t_rows (fw_hidden f))) in
      if \<not> (mhc_min_rows m \<le> rows \<and> rows \<le> MAX_ROWS) then Inr (False, Some Below_Threshold)
      else py_bind config (\<lambda>c. py_bind (validate_model c (mhc_min_rows m) sp layers) (\<lambda>names.
        let reason0 = batch_metadata (fw_metadata f) names rows;
            h = fw_hidden f;
            reason = (if reason0 = None \<and> \<not> (t_hidden h \<and> fw_positions f = rows \<and> t_cuda h \<and> t_bf16 h \<and> t_contiguous h)
                      then Some Hidden_Geometry else reason0)
        in if reason \<noteq> None then Inr (False, reason)
           else py_guard (case fw_comm f of None \<Rightarrow> True
                  | Some (c, world, rank) \<Rightarrow> \<not> cm_available c \<or> cm_disabled c \<or> world \<noteq> 4 \<or> rank \<noteq> fw_rank f
                      \<or> cm_device c \<noteq> t_device h) RuntimeError
                  (py_guard (\<not> fw_sm121 f) RuntimeError (Inr (True, None))))))"

definition admission_vote :: "mhc_model \<Rightarrow> mhc_config py \<Rightarrow> bool \<Rightarrow> layer list \<Rightarrow> forward \<Rightarrow> ballot py" where
  "admission_vote m config sp layers f =
     (let rows = int (length (t_rows (fw_hidden f))) in
      case eligibility m config sp layers f of
        Inr (ok, _) \<Rightarrow> Inr (ok, rows, None)
      | Inl e \<Rightarrow> if e \<in> {AttributeError, RuntimeError} then Inr (False, rows, Some e) else Inl e)"

text \<open>A forward that never votes.\<close>

definition not_offered :: "mhc_model \<Rightarrow> forward \<Rightarrow> bool" where
  "not_offered m f \<longleftrightarrow> \<not> mhc_enabled m \<or> fw_compiling f \<or> fw_capturing f \<or> \<not> fw_context f \<or> fw_graph_mode f \<or> fw_ubatch f"

text \<open>After the vote: the ownership, or \<open>None\<close> for the served path, with the fallback counted.\<close>

definition admit_forward ::
  "mhc_model \<Rightarrow> forward \<Rightarrow> fallback option \<Rightarrow> ballot option list \<Rightarrow> totals \<Rightarrow> (totals \<times> ownership option) py" where
  "admit_forward m f reason votes t =
     py_bind (agree_admission votes) (\<lambda>ok.
       let rows = int (length (t_rows (fw_hidden f))) in
       if \<not> ok then Inr (t\<lparr>tt_fallback := tt_fallback t + of_bool (reason \<noteq> Some Below_Threshold)\<rparr>, None)
       else py_bind (own_new (fw_rank f) rows (mhc_rdma m \<and> mhc_rdma_min_rows m \<le> rows)) (\<lambda>w. Inr (t, Some w)))"

definition maybe_create ::
  "mhc_model \<Rightarrow> mhc_config py \<Rightarrow> bool \<Rightarrow> layer list \<Rightarrow> forward \<Rightarrow> (ballot \<Rightarrow> ballot option list) \<Rightarrow> totals
     \<Rightarrow> (totals \<times> ownership option) py" where
  "maybe_create m config sp layers f gather t =
     (if not_offered m f then Inr (t, None)
      else py_guard (fw_world f \<noteq> 4) RuntimeError
        (py_bind (admission_vote m config sp layers f) (\<lambda>v.
          admit_forward m f (case eligibility m config sp layers f of Inr (_, r) \<Rightarrow> r | Inl _ \<Rightarrow> Some Below_Threshold)
            (gather v) t)))"

section \<open>Shares of the rows\<close>

lemma own_new_Inr:
  assumes "own_new rank rows rdma = Inr w"
  shows "ow_rows w = rows" "ow_rank w = rank" "owner_rows w = cdiv rows 4" "padded_rows w = 4 * cdiv rows 4"
    "rs_count w = 0" "ag_count w = 0" "1 \<le> rows" "0 \<le> rank" "rank \<le> 3"
    "valid_rows w = max 0 (min (cdiv rows 4) (rows - rank * cdiv rows 4))"
  using assms by (auto simp: own_new_def Let_def)

lemma quarter_bounds:
  assumes "1 \<le> rows"
  shows "rows \<le> 4 * cdiv rows 4" "4 * cdiv rows 4 < rows + 4" "1 \<le> cdiv rows 4"
  using cdiv_bounds [of 4 rows] assms by linarith+

lemma padded_eq:
  assumes "own_new rank rows rdma = Inr w" "int (length xs) = rows"
  shows "padded zero w xs = xs @ replicate (nat (4 * cdiv rows 4 - rows)) zero" "length (padded zero w xs) = nat (4 * cdiv rows 4)"
  using own_new_Inr [OF assms(1)] quarter_bounds [of rows] assms(2) by (auto simp: padded_def)

text \<open>A rank's view is its share of the padded rows.\<close>

lemma local_view_share:
  assumes "own_new rank rows rdma = Inr w" "int (length xs) = rows"
  shows "local_view zero w xs = Inr (rows_of (rank * cdiv rows 4) (cdiv rows 4) (padded zero w xs))"
proof -
  note o = own_new_Inr [OF assms(1)]
  note q = quarter_bounds [OF o(7)]
  let ?q = "cdiv rows 4"
  have lo: "0 \<le> rank * ?q" using o(8) q by simp
  have le: "rank * ?q \<le> 3 * ?q" using o(9) q by (intro mult_right_mono) auto
  show ?thesis
  proof (cases "rank * ?q + ?q \<le> rows")
    case True
    have "rows_of (rank * ?q) ?q (xs @ replicate (nat (4 * ?q - rows)) zero) = rows_of (rank * ?q) ?q xs"
      using True assms(2) lo q by (simp add: rows_of_def)
    then show ?thesis using True assms(2) o padded_eq(1) [OF assms] by (simp add: local_view_def Let_def)
  next
    case False
    define v where "v = max 0 (min ?q (rows - rank * ?q))"
    have pad: "rows_of (rank * ?q) ?q (xs @ replicate (nat (4 * ?q - rows)) zero)
      = rows_of (rank * ?q) v xs @ replicate (nat (?q - v)) zero"
    proof (cases "rank * ?q \<le> rows")
      case t: True
      then have v: "v = rows - rank * ?q" using False q by (simp add: v_def)
      define Q L R where "Q = nat ?q" and "L = nat (rank * ?q)" and "R = nat rows"
      have n: "?q = int Q" "rank * ?q = int L" "rows = int R" using q lo o(7) by (simp_all add: Q_def L_def R_def)
      have f: "L \<le> R" "R < L + Q" "L \<le> 3 * Q" "R \<le> 4 * Q" using t False le q(1) n by linarith+
      have x: "length xs = R" using assms(2) by (simp add: R_def)
      have "min (Q - (R - L)) (4 * Q - R) = Q - (R - L)" using f by linarith
      then have m: "min Q (R - L) = R - L" "take Q (replicate (4 * Q - R) zero) = replicate (min Q (4 * Q - R)) zero" using f by simp_all
      have g: "nat (4 * ?q - rows) = 4 * Q - R" "nat (?q - v) = Q - (R - L)" "nat v = R - L" unfolding v using n f by linarith+
      show ?thesis unfolding rows_of_def g Q_def [symmetric] L_def [symmetric] using f x by (simp add: min_def)
    next
      case f: False
      then have v: "v = 0" using q by (simp add: v_def)
      have "length xs \<le> nat (rank * ?q)" using f assms(2) by simp
      moreover have "nat ?q \<le> nat (4 * ?q - rows) + length xs - nat (rank * ?q)" using le lo f q assms(2) by linarith
      ultimately show ?thesis unfolding rows_of_def v by (simp add: min_def)
    qed
    then show ?thesis using False assms(2) o padded_eq(1) [OF assms] by (simp add: local_view_def Let_def v_def)
  qed
qed

lemma rows_of_length: "0 \<le> lo \<Longrightarrow> lo + n \<le> int (length xs) \<Longrightarrow> length (rows_of lo n xs) = nat n"
  by (simp add: rows_of_def)

lemma concat_rows_of:
  fixes q :: int
  assumes "0 \<le> q" "length xs = nat (4 * q)"
  shows "concat (map (\<lambda>j. rows_of (int j * q) q xs) [0..<4]) = xs"
proof -
  define Q where "Q = nat q"
  have q: "q = int Q" using assms(1) by (simp add: Q_def)
  have r: "rows_of (int j * q) q xs = take Q (drop (j * Q) xs)" for j
    by (simp add: rows_of_def q nat_mult_distrib)
  have "concat (map (\<lambda>j. take Q (drop (j * Q) xs)) [0..<n]) = take (n * Q) xs" for n
  proof (induction n)
    case (Suc n)
    have "Suc n * Q = n * Q + Q" by simp
    then show ?case using Suc by (simp only: take_add upt_Suc_append le0 map_append concat_append list.map concat.simps append_Nil2)
  qed simp
  from this [of 4] show ?thesis using assms(2) q unfolding r by simp
qed

text \<open>Four lists of rows added row by row.\<close>

definition sum_rows :: "('r \<Rightarrow> 'r \<Rightarrow> 'r \<Rightarrow> 'r \<Rightarrow> 'r) \<Rightarrow> 'r list list \<Rightarrow> 'r list" where
  "sum_rows add xss = map (\<lambda>i. add (xss ! 0 ! i) (xss ! 1 ! i) (xss ! 2 ! i) (xss ! 3 ! i)) [0..<length (xss ! 0)]"

lemma sum_rows_padded:
  assumes "own_new rank rows rdma = Inr w" "\<forall>j < 4. int (length (P j)) = rows"
  shows "length (sum_rows add (map (\<lambda>j. padded zero w (P j)) [0..<4])) = nat (4 * cdiv rows 4)"
    "take (nat rows) (sum_rows add (map (\<lambda>j. padded zero w (P j)) [0..<4])) = sum_rows add (map P [0..<4])"
proof -
  let ?xss = "map (\<lambda>j. padded zero w (P j)) [0..<4]"
  have at: "?xss ! j = padded zero w (P j)" "map P [0..<4] ! j = P j" if "j < 4" for j using that by simp_all
  have lp: "length (P 0) = nat rows" using assms(2) by force
  have l0: "length (?xss ! 0) = nat (4 * cdiv rows 4)"
    unfolding at(1) [of 0, simplified] using padded_eq(2) [OF assms(1), of "P 0"] assms(2) by simp
  have le: "nat rows \<le> nat (4 * cdiv rows 4)" using quarter_bounds(1) [OF own_new_Inr(7) [OF assms(1)]] by simp
  show l: "length (sum_rows add ?xss) = nat (4 * cdiv rows 4)" unfolding sum_rows_def length_map length_upt l0 by simp
  have p: "?xss ! j ! i = map P [0..<4] ! j ! i" if "j < 4" "i < nat rows" for i j
  proof -
    have "length (P j) = nat rows" using assms(2) that(1) by force
    then show ?thesis unfolding at [OF that(1)] using padded_eq(1) [OF assms(1), of "P j"] assms(2) that by (simp add: nth_append)
  qed
  show "take (nat rows) (sum_rows add ?xss) = sum_rows add (map P [0..<4])"
  proof (rule nth_equalityI)
    show "length (take (nat rows) (sum_rows add ?xss)) = length (sum_rows add (map P [0..<4]))"
      using l le lp unfolding sum_rows_def length_map length_upt length_take at(2) [of 0, simplified] l0 by simp
    fix i assume "i < length (take (nat rows) (sum_rows add ?xss))"
    then have i: "i < nat rows" "i < nat (4 * cdiv rows 4)" using l by simp_all
    have "sum_rows add ?xss ! i = add (?xss ! 0 ! i) (?xss ! 1 ! i) (?xss ! 2 ! i) (?xss ! 3 ! i)"
      unfolding sum_rows_def l0 using i(2) by (subst nth_map) simp_all
    moreover have "sum_rows add (map P [0..<4]) ! i = add (map P [0..<4] ! 0 ! i) (map P [0..<4] ! 1 ! i) (map P [0..<4] ! 2 ! i) (map P [0..<4] ! 3 ! i)"
      unfolding sum_rows_def using i(1) lp by (subst nth_map) simp_all
    ultimately show "take (nat rows) (sum_rows add ?xss) ! i = sum_rows add (map P [0..<4]) ! i"
      using i(1) p [of 0 i] p [of 1 i] p [of 2 i] p [of 3 i] by simp
  qed
qed


section \<open>Votes\<close>

lemma agree_unanimous:
  assumes "agree_admission votes = Inr ok"
  shows "\<exists>rows. votes = replicate 4 (Some (ok, rows, None))"
proof -
  let ?vs = "map the votes"
  have l: "length votes = 4" "None \<notin> set votes" and e: "\<forall>(a, r, err) \<in> set ?vs. err = None"
    and c: "card ((\<lambda>(a, r, err). (a, r)) ` set ?vs) = 1" and ok: "ok = fst (hd ?vs)"
    using assms by (auto simp: agree_admission_def list_ex_iff Let_def)
  obtain x where x: "(\<lambda>(a, r, err). (a, r)) ` set ?vs = {x}" using c by (meson card_1_singletonE)
  have v: "v = Some (fst x, snd x, None)" if vm: "v \<in> set votes" for v
  proof -
    obtain a r err where v: "v = Some (a, r, err)" proof -
      have "v \<noteq> None" using vm l(2) by metis
      then show ?thesis using that by (cases v) auto
    qed
    then have m: "(a, r, err) \<in> set ?vs" using vm by force
    then have "(a, r) = x" using x by force
    moreover have "err = None" using e m by blast
    ultimately show ?thesis using v by auto
  qed
  then have r: "votes = replicate 4 (Some (fst x, snd x, None))" using l(1) by (intro replicate_eqI) auto
  then have "ok = fst x" unfolding ok by (simp add: numeral_nat)
  then show ?thesis using r by blast
qed

text \<open>
  If one rank admits a forward from a set of gathered votes then no rank voted an error,
  all voted the same eligibility and row count, and every rank that reads the votes decides
  the same.
\<close>

theorem admission_is_unanimous:
  assumes "agree_admission votes = Inr ok"
  shows "\<exists>rows. votes = replicate 4 (Some (ok, rows, None))"
  by (rule agree_unanimous [OF assms])

text \<open>
  A rank that configures has the same four raw selectors as every other rank and no rank
  reported an error; with sharding on, the engine configuration passed the checks.
\<close>

theorem configuration_is_unanimous:
  assumes "configure env config votes comm_ok = Inr m"
  shows "set votes \<subseteq> {(raw_of env, None)} \<and> 1 \<le> mhc_min_rows m \<and> mhc_min_rows m \<le> MAX_ROWS
    \<and> (mhc_rdma m \<longrightarrow> mhc_enabled m \<and> comm_ok \<and> mhc_min_rows m \<le> mhc_rdma_min_rows m)
    \<and> (mhc_enabled m \<longrightarrow> (\<exists>c. config = Inr c \<and> mc_tp c = 4 \<and> (\<forall>size \<in> set (mc_capture_sizes c). size < mhc_min_rows m)))"
proof -
  obtain raw raw_min raw_rdma raw_rdma_min where r: "raw_of env = (raw, raw_min, raw_rdma, raw_rdma_min)"
    using prod_cases4 by blast
  obtain mr rm where c: "configure_checks (raw_of env) config = Inr (mr, rm)"
    using assms by (cases "configure_checks (raw_of env) config") (auto simp: configure_def)
  have d: "list_all (\<lambda>v. v = (raw_of env, None)) votes" "\<not> (raw = ''1'' \<and> raw_rdma = ''1'' \<and> \<not> comm_ok)"
    "m = \<lparr>mhc_enabled = (raw = ''1''), mhc_min_rows = mr, mhc_rdma = (raw = ''1'' \<and> raw_rdma = ''1''), mhc_rdma_min_rows = rm\<rparr>"
    using assms c r by (auto simp: configure_def list_all_iff list_ex_iff)
  have k: "1 \<le> mr" "mr \<le> MAX_ROWS" "\<not> (raw_rdma = ''1'' \<and> (raw \<noteq> ''1'' \<or> rm < mr))"
    and v: "(if raw = ''1'' then py_bind config (\<lambda>c. validate_config c mr) else Inr ()) = Inr ()"
    using c unfolding r configure_checks_def parse_min_rows_def by auto
  have "\<exists>c. config = Inr c \<and> mc_tp c = 4 \<and> (\<forall>size \<in> set (mc_capture_sizes c). size < mr)" if "raw = ''1''"
    using v that by (auto simp: validate_config_def list_ex_iff not_le)
  then show ?thesis using d k by (auto simp: list_all_iff not_less)
qed

text \<open>A rank takes the ownership path exactly when all four voted for it with its row count.\<close>

text \<open>
  A rank takes ownership of a forward only when every rank was eligible with the same
  number of rows; then the ownership has the forward's rows and at most the maximum.
\<close>

theorem ownership_needs_every_rank:
  assumes "maybe_create m config sp layers f gather t = Inr (t', Some w)"
  shows "\<exists>v. admission_vote m config sp layers f = Inr v \<and> (\<exists>rows. gather v = replicate 4 (Some (True, rows, None)))
    \<and> mhc_enabled m \<and> \<not> fw_capturing f \<and> ow_rank w = fw_rank f \<and> ow_rows w = int (length (t_rows (fw_hidden f)))
    \<and> ow_rows w \<le> padded_rows w \<and> padded_rows w = 4 * owner_rows w \<and> t' = t"
proof -
  have n: "\<not> not_offered m f" using assms by (auto simp: maybe_create_def)
  obtain v where v: "admission_vote m config sp layers f = Inr v"
    "admit_forward m f (case eligibility m config sp layers f of Inr (_, r) \<Rightarrow> r | Inl _ \<Rightarrow> Some Below_Threshold) (gather v) t = Inr (t', Some w)"
    using assms n unfolding maybe_create_def by auto
  obtain ok where a: "agree_admission (gather v) = Inr ok" using v(2) by (auto simp: admit_forward_def)
  have ok: ok using v(2) a by (auto simp: admit_forward_def Let_def split: if_splits)
  have g: "\<exists>rows. gather v = replicate 4 (Some (True, rows, None))" using agree_unanimous [OF a] ok by simp
  have w: "own_new (fw_rank f) (int (length (t_rows (fw_hidden f)))) (mhc_rdma m \<and> mhc_rdma_min_rows m \<le> int (length (t_rows (fw_hidden f)))) = Inr w"
    "t' = t"
    using v(2) a ok by (auto simp: admit_forward_def Let_def)
  note o = own_new_Inr [OF w(1)]
  show ?thesis using v(1) g n o(1-4) quarter_bounds(1) [OF o(7)] w(2) by (intro exI [of _ v]) (simp add: not_offered_def)
qed

section \<open>Examples\<close>

definition demo_comm :: communicator where
  "demo_comm = \<lparr>cm_available = True, cm_disabled = False, cm_device = 0\<rparr>"

definition demo_tensor :: "'r list \<Rightarrow> 'r tensor" where
  "demo_tensor xs = \<lparr>t_rows = xs, t_cuda = True, t_device = 0, t_bf16 = True, t_contiguous = True, t_hidden = True\<rparr>"

definition demo_partial :: "nat \<Rightarrow> nat list" where
  "demo_partial j = map (\<lambda>i. 10 * i + j) [0..<6]"


theorem admission_is_unanimous_witness:
  "agree_admission (replicate 4 (Some (True, 2000, None))) = Inr True
     \<and> (\<exists>rows. replicate 4 (Some (True, 2000 :: int, None :: py_error option)) = replicate 4 (Some (True, rows, None)))"
proof -
  have "agree_admission (replicate 4 (Some (True, 2000, None))) = Inr True" by code_simp
  from admission_is_unanimous [OF this] this show ?thesis by simp
qed

definition demo_config :: mhc_config where
  "demo_config = \<lparr>mc_tp = 4, mc_dcp = 1, mc_pp = 1, mc_dp = 1, mc_pcp = 1, mc_expert_parallel = False, mc_eplb = False,
     mc_sequence_moe = False, mc_max_batched = 14336, mc_async = False, mc_capture_sizes = [1, 8, 48]\<rparr>"

definition demo_env :: environ where
  "demo_env = [''GLM53_MHC_PREFILL_SHARD'' \<mapsto> ''1'', ''GLM53_MHC_PREFILL_RDMA'' \<mapsto> ''1'']"

theorem configuration_is_unanimous_witness:
  "\<exists>m. configure demo_env (Inr demo_config) (replicate 4 (raw_of demo_env, None)) True = Inr m \<and> mhc_min_rows m \<le> mhc_rdma_min_rows m"
proof -
  have "(case configure demo_env (Inr demo_config) (replicate 4 (raw_of demo_env, None)) True of Inl _ \<Rightarrow> False | Inr m \<Rightarrow> mhc_rdma m)"
    by code_simp
  then obtain m where m: "configure demo_env (Inr demo_config) (replicate 4 (raw_of demo_env, None)) True = Inr m" "mhc_rdma m"
    by (auto split: sum.splits)
  from configuration_is_unanimous [OF m(1)] m show ?thesis by blast
qed

definition demo_mhc_layer :: "int \<Rightarrow> layer" where
  "demo_mhc_layer i =
     (let p = \<lparr>pr_row_parallel = True, pr_tp = 4, pr_reduces = True, pr_bias = False\<rparr> in
      \<lparr>ly_mhc = True, ly_mtp = False, ly_index = i, ly_layers = 45, ly_n = 4, ly_attn = Linear_Attention ''kda'', ly_proj = p, ly_ff = Dense p\<rparr>)"

definition demo_forward :: forward where
  "demo_forward = \<lparr>fw_compiling = False, fw_capturing = False, fw_context = True, fw_graph_mode = False, fw_ubatch = False,
     fw_world = 4, fw_rank = 2, fw_hidden = demo_tensor (replicate 6 ()), fw_positions = 6,
     fw_metadata = Some [''kda'' \<mapsto> \<lparr>mi_prefill = Some 4, mi_decode = Some 2, mi_spec = Some 0, mi_actual = Some 6\<rparr>],
     fw_comm = Some (demo_comm, 4, 2), fw_sm121 = True\<rparr>"

definition demo_mhc :: mhc_model where
  "demo_mhc = \<lparr>mhc_enabled = True, mhc_min_rows = 5, mhc_rdma = False, mhc_rdma_min_rows = 5\<rparr>"

definition demo_owned :: "ownership option" where
  "demo_owned = (case maybe_create demo_mhc (Inr (demo_config\<lparr>mc_capture_sizes := [1]\<rparr>)) False (map demo_mhc_layer [0..44])
     demo_forward (\<lambda>v. replicate 4 (Some v)) \<lparr>tt_engaged = 0, tt_rows = 0, tt_padded = 0, tt_fallback = 0, tt_rdma = 0\<rparr> of
       Inr (_, w) \<Rightarrow> w | Inl _ \<Rightarrow> None)"

theorem ownership_needs_every_rank_witness:
  "\<exists>w. demo_owned = Some w \<and> ow_rows w = 6 \<and> ow_rank w = 2 \<and> ow_rows w \<le> padded_rows w"
proof -
  have "demo_owned \<noteq> None" by code_simp
  then obtain w t where w: "maybe_create demo_mhc (Inr (demo_config\<lparr>mc_capture_sizes := [1]\<rparr>)) False (map demo_mhc_layer [0..44])
     demo_forward (\<lambda>v. replicate 4 (Some v)) \<lparr>tt_engaged = 0, tt_rows = 0, tt_padded = 0, tt_fallback = 0, tt_rdma = 0\<rparr> = Inr (t, Some w)"
    "demo_owned = Some w" by (auto simp: demo_owned_def split: sum.splits option.splits)
  from ownership_needs_every_rank [OF w(1)] w(2) show ?thesis by (auto simp: demo_forward_def demo_tensor_def)
qed

end
