(* ===== verification/Site_Render.thy ===== *)
theory Site_Render
  imports Ringside_Prelude "HOL-Library.Sublist" "HOL-Library.Char_ord" "HOL-Library.List_Lexorder"
begin

text \<open>
  The launch renderer (\<open>src/launch/render.py\<close>): reading a site file, the per-rank values, the optional steering
  variant and the rendered argv of one rank. Text is ASCII; a site is a map from names to values. Reading the files
  and printing the result are left to \<open>main\<close>.
\<close>

section \<open>Placeholders\<close>

text \<open>The characters of \<open>[A-Z0-9_:./-]\<close>. \<open>braced ok s\<close> matches \<open>${...}\<close> at the head of \<open>s\<close>; no key character is
  a closing brace, so the greedy match is the only one.\<close>

definition key_char :: "char \<Rightarrow> bool" where
  "key_char c = (let n = (of_char c :: nat) in 65 \<le> n \<and> n \<le> 90 \<or> 48 \<le> n \<and> n \<le> 57 \<or> n \<in> {95, 58, 46, 47, 45})"

definition braced :: "(char \<Rightarrow> bool) \<Rightarrow> string \<Rightarrow> (string \<times> string) option" where
  "braced ok s =
     (if take 2 s = ''${'' \<and> takeWhile ok (drop 2 s) \<noteq> [] \<and> take 1 (dropWhile ok (drop 2 s)) = ''}''
      then Some (takeWhile ok (drop 2 s), drop 1 (dropWhile ok (drop 2 s)))
      else None)"

datatype part = Lit char | Key string

lemma length_dropWhile_less: "length (dropWhile P xs) \<le> length xs"
  by (induction xs) auto

lemma braced_Some:
  assumes "braced ok s = Some (k, rest)"
  obtains s' where "s = ''${'' @ s'" "k = takeWhile ok s'" "k \<noteq> []" "dropWhile ok s' = ''}'' @ rest"
proof -
  have b: "take 2 s = ''${''" "take 1 (dropWhile ok (drop 2 s)) = ''}''" "k = takeWhile ok (drop 2 s)" "k \<noteq> []"
    "rest = drop 1 (dropWhile ok (drop 2 s))"
    using assms unfolding braced_def by (simp_all split: if_splits)
  have "s = ''${'' @ drop 2 s" "dropWhile ok (drop 2 s) = ''}'' @ rest"
    using append_take_drop_id [of 2 s] append_take_drop_id [of 1 "dropWhile ok (drop 2 s)"] unfolding b(1,2) b(5) by simp_all
  then show thesis using that b(3,4) by blast
qed

lemma braced_shorter: "braced ok s = Some (k, rest) \<Longrightarrow> length rest < length s"
proof (erule braced_Some)
  fix s' assume "s = ''${'' @ s'" "dropWhile ok s' = ''}'' @ rest"
  then show ?thesis using length_dropWhile_less [of ok s'] by simp
qed

function placeholders :: "string \<Rightarrow> part list" where
  "placeholders [] = []"
| "placeholders (c # cs) =
     (case braced key_char (c # cs) of
        None \<Rightarrow> Lit c # placeholders cs
      | Some (k, rest) \<Rightarrow> Key k # placeholders rest)"
  by pat_completeness auto

termination
  by (relation "measure length") (auto dest: braced_shorter)

section \<open>The profile and its options\<close>

record profile =
  topology :: string
  ranks :: int
  image_id :: string
  argv_template :: "string list"
  head_args :: "string list"
  worker_args :: "string list"
  site_variables :: "string list"

definition site_get :: "environ \<Rightarrow> string \<Rightarrow> string" where
  "site_get site key = env_get site key []"

definition WEIGHTLESS_SITE :: string where "WEIGHTLESS_SITE = ''SWITCHLESS_WEIGHTLESS_DIR''"

definition WEIGHTLESS_MODEL_DST :: string where
  "WEIGHTLESS_MODEL_DST = ''/usr/local/lib/python3.12/dist-packages/vllm/models/glm5next/nvidia/model.py''"

definition WEIGHTLESS_VECTOR_DST :: string where "WEIGHTLESS_VECTOR_DST = ''/opt/weightless/control.gguf''"

definition WEIGHTLESS_ENV :: "string list" where
  "WEIGHTLESS_ENV =
     [''WEIGHTLESS_STEER_PATH='' @ WEIGHTLESS_VECTOR_DST, ''WEIGHTLESS_STEER_ALPHA=2.0'', ''WEIGHTLESS_STEER_HOOK=post_layer'',
      ''WEIGHTLESS_VECTOR_SHA256=0ccce6b748f87da81505ff2bc3ca82429110940b6c0def60063d304785ccc00c'']"

definition model_mounts :: "string list \<Rightarrow> nat list" where
  "model_mounts argv = filter (\<lambda>i. argv ! i = ''--mount'' \<and> sublist ('',dst='' @ WEIGHTLESS_MODEL_DST @ '','') (argv ! (i + 1) @ '',''))
     [0..<length argv - 1]"

definition weightless_extra :: "string list" where
  "weightless_extra =
     [''--mount'', ''type=bind,src=${'' @ WEIGHTLESS_SITE @ ''}/control.gguf,dst='' @ WEIGHTLESS_VECTOR_DST @ '',readonly'']
     @ concat (map (\<lambda>e. [''-e'', e]) WEIGHTLESS_ENV)"

definition with_options :: "profile \<Rightarrow> environ \<Rightarrow> profile py" where
  "with_options p site =
     (if site_get site WEIGHTLESS_SITE = [] then Inr p
      else py_guard (topology p \<noteq> ''tp4'') ValueError
        (let argv = argv_template p; hits = model_mounts argv in
         if list_ex (prefix ''WEIGHTLESS_'') argv then Inr p
         else py_guard (length hits \<noteq> 1) ValueError
           (let argv1 = argv[hd hits + 1 := ''type=bind,src=${'' @ WEIGHTLESS_SITE @ ''}/model.py,dst='' @ WEIGHTLESS_MODEL_DST @ '',readonly''];
                before = takeWhile (\<lambda>t. t \<noteq> image_id p) argv1
            in py_guard (image_id p \<notin> set argv1) ValueError
                 (Inr (p\<lparr>argv_template := before @ weightless_extra @ drop (length before) argv1,
                         site_variables := sort (remdups (WEIGHTLESS_SITE # site_variables p))\<rparr>)))))"

section \<open>Reading a site file\<close>

text \<open>\<open>re.split(r'\s+#', raw, maxsplit=1)[0]\<close>.\<close>

fun cut_comment :: "string \<Rightarrow> string" where
  "cut_comment [] = []"
| "cut_comment (c # cs) = (if py_space c \<and> take 1 (dropWhile py_space cs) = ''#'' then [] else c # cut_comment cs)"

definition quote_char :: "char \<Rightarrow> bool" where
  "quote_char c \<longleftrightarrow> c = CHR 0x22 \<or> c = CHR 0x27"

definition site_value :: "string \<Rightarrow> string py" where
  "site_value raw0 =
     (let raw = py_strip raw0 in
      if raw \<noteq> [] \<and> quote_char (hd raw)
      then let body = takeWhile (\<lambda>c. c \<noteq> hd raw) (tl raw);
               after = dropWhile (\<lambda>c. c \<noteq> hd raw) (tl raw);
               rest = py_strip (drop 1 after)
           in py_guard (after = [] \<or> (rest \<noteq> [] \<and> take 1 rest \<noteq> ''#'')) ValueError (Inr body)
      else Inr (py_strip (cut_comment raw)))"

text \<open>\<open>str.splitlines\<close>; the flag says the last character was a carriage return.\<close>

definition line_break :: "char \<Rightarrow> bool" where
  "line_break c = (let n = (of_char c :: nat) in 10 \<le> n \<and> n \<le> 13 \<or> 28 \<le> n \<and> n \<le> 30)"

fun lines_from :: "bool \<Rightarrow> string \<Rightarrow> string \<Rightarrow> string list" where
  "lines_from cr acc [] = (if acc = [] then [] else [rev acc])"
| "lines_from cr acc (c # cs) =
     (if cr \<and> c = CHR 0x0A then lines_from False [] cs
      else if line_break c then rev acc # lines_from (c = CHR 0x0D) [] cs
      else lines_from False (c # acc) cs)"

definition site_key :: "string \<Rightarrow> bool" where
  "site_key k =
     (k \<noteq> [] \<and> (let n = (of_char (hd k) :: nat) in 65 \<le> n \<and> n \<le> 90)
      \<and> list_all (\<lambda>c. let n = (of_char c :: nat) in 65 \<le> n \<and> n \<le> 90 \<or> 48 \<le> n \<and> n \<le> 57 \<or> n = 95) k)"

definition read_line :: "string \<Rightarrow> environ \<Rightarrow> environ py" where
  "read_line l values =
     (let line = py_strip l in
      if line = [] \<or> hd line = CHR ''#'' then Inr values
      else let key = py_strip (takeWhile (\<lambda>c. c \<noteq> CHR ''='') line);
               after = dropWhile (\<lambda>c. c \<noteq> CHR ''='') line
           in py_guard (after = [] \<or> \<not> site_key key) ValueError
                (py_bind (site_value (tl after)) (\<lambda>v. Inr (values(key \<mapsto> v)))))"

fun read_lines :: "string list \<Rightarrow> environ \<Rightarrow> environ py" where
  "read_lines [] values = Inr values"
| "read_lines (l # ls) values = py_bind (read_line l values) (read_lines ls)"

definition read_site :: "string \<Rightarrow> environ py" where
  "read_site text = read_lines (lines_from False [] text) Map.empty"

section \<open>Values of one rank\<close>

text \<open>\<open>str(n)\<close>.\<close>

fun dec :: "nat \<Rightarrow> string" where
  "dec n = (if n < 10 then [char_of (48 + n)] else dec (n div 10) @ [char_of (48 + n mod 10)])"

declare dec.simps [simp del]

definition comma_items :: "string \<Rightarrow> string list" where
  "comma_items s = filter (\<lambda>x. x \<noteq> []) (map py_strip (split_on (CHR '','') s))"

definition rstrip_slash :: "string \<Rightarrow> string" where
  "rstrip_slash s = rev (dropWhile (\<lambda>c. c = CHR ''/'') (rev s))"

definition rank_key :: "nat \<Rightarrow> string \<Rightarrow> string" where
  "rank_key rank ending = ''SWITCHLESS_RANK'' @ dec rank @ ending"

definition host_ip :: "environ \<Rightarrow> nat \<Rightarrow> int \<Rightarrow> environ py" where
  "host_ip site rank n =
     (let ips = comma_items (site_get site ''SWITCHLESS_RANK_HOST_IPS'');
          explicit = site_get site (rank_key rank ''_HOST_IP'')
      in if explicit \<noteq> [] then Inr (site(''SWITCHLESS_RANK_HOST_IP'' \<mapsto> explicit))
         else if ips \<noteq> []
         then py_guard (int (length ips) \<noteq> n) ValueError
                (py_guard (length ips \<le> rank) IndexError (Inr (site(''SWITCHLESS_RANK_HOST_IP'' \<mapsto> ips ! rank))))
         else Inr site)"

definition rank_dir :: "environ \<Rightarrow> nat \<Rightarrow> string \<Rightarrow> environ \<Rightarrow> environ" where
  "rank_dir site rank stem out =
     (let explicit = site_get site (rank_key rank (stem @ ''_DIR''));
          root = site_get site (''SWITCHLESS'' @ stem @ ''_ROOT'')
      in if explicit \<noteq> [] then out(''SWITCHLESS'' @ stem @ ''_DIR'' \<mapsto> explicit)
         else if root \<noteq> [] then out(''SWITCHLESS'' @ stem @ ''_DIR'' \<mapsto> rstrip_slash root @ ''/rank'' @ dec rank)
         else out)"

definition rank_values :: "environ \<Rightarrow> nat \<Rightarrow> int \<Rightarrow> environ py" where
  "rank_values site rank n =
     py_bind (host_ip site rank n) (\<lambda>out.
       let out1 = rank_dir site rank ''_PROFILES'' (rank_dir site rank ''_JIT_CACHE'' out);
           name = site_get site (rank_key rank ''_CONTAINER_NAME'')
       in Inr (out1(''SWITCHLESS_CONTAINER_NAME'' \<mapsto>
                 (if name \<noteq> [] then name else env_get site ''SWITCHLESS_CONTAINER_PREFIX'' ''switchless'' @ ''-rank'' @ dec rank),
               ''RANK'' \<mapsto> dec rank,
               ''OVERLAY_ROOT'' \<mapsto> site_get site ''SWITCHLESS_OVERLAY_ROOT'')))"

section \<open>Rendering\<close>

definition control_char :: "char \<Rightarrow> bool" where
  "control_char c = (let n = (of_char c :: nat) in n < 32 \<or> n = 127)"

definition expand_roles :: "profile \<Rightarrow> bool \<Rightarrow> string list \<Rightarrow> string list" where
  "expand_roles p head argv = concat (map (\<lambda>t. if t = ''${ROLE_ARGS}'' then if head then head_args p else worker_args p else [t]) argv)"

definition part_text :: "environ \<Rightarrow> part \<Rightarrow> string" where
  "part_text values x = (case x of Lit c \<Rightarrow> [c] | Key k \<Rightarrow> site_get values k)"

definition substitute :: "environ \<Rightarrow> string \<Rightarrow> string" where
  "substitute values t = concat (map (part_text values) (placeholders t))"

text \<open>A key that is missing, or whose value must not appear where it is used.\<close>

definition missing_key :: "environ \<Rightarrow> part \<Rightarrow> bool" where
  "missing_key values x = (case x of Lit c \<Rightarrow> False | Key k \<Rightarrow> site_get values k = [])"

definition bad_key :: "environ \<Rightarrow> bool \<Rightarrow> part \<Rightarrow> bool" where
  "bad_key values in_mount x =
     (case x of Lit c \<Rightarrow> False
      | Key k \<Rightarrow> list_ex control_char (site_get values k) \<or> in_mount \<and> CHR '','' \<in> set (site_get values k))"

definition in_mount_at :: "string list \<Rightarrow> nat \<Rightarrow> bool" where
  "in_mount_at tokens i \<longleftrightarrow> 0 < i \<and> tokens ! (i - 1) = ''--mount''"

definition hex_char :: "char \<Rightarrow> bool" where
  "hex_char c = (let n = (of_char c :: nat) in 48 \<le> n \<and> n \<le> 57 \<or> 97 \<le> n \<and> n \<le> 102)"

definition digest_ref :: "string \<Rightarrow> bool" where
  "digest_ref s \<longleftrightarrow> take 7 s = ''sha256:'' \<and> length (drop 7 s) = 64 \<and> list_all hex_char (drop 7 s)"

definition pinned_image :: "string \<Rightarrow> bool" where
  "pinned_image s =
     (let name = takeWhile (\<lambda>c. c \<noteq> CHR 0x40 \<and> \<not> py_space c) s; after = dropWhile (\<lambda>c. c \<noteq> CHR 0x40 \<and> \<not> py_space c) s
      in digest_ref s \<or> name \<noteq> [] \<and> take 1 after = [CHR 0x40] \<and> digest_ref (drop 1 after))"

definition render_tokens :: "environ \<Rightarrow> string list \<Rightarrow> string list py" where
  "render_tokens values tokens =
     (let parts = map placeholders tokens in
      py_guard (list_ex (list_ex (missing_key values)) parts
          \<or> list_ex (\<lambda>i. list_ex (bad_key values (in_mount_at tokens i)) (parts ! i)) [0..<length tokens]) ValueError
        (Inr (map (substitute values) tokens)))"

definition render :: "profile \<Rightarrow> environ \<Rightarrow> int \<Rightarrow> string list py" where
  "render p0 site rank =
     py_bind (with_options p0 site) (\<lambda>p.
       py_guard (\<not> (0 \<le> rank \<and> rank < ranks p)) ValueError
         (py_bind (rank_values site (nat rank) (ranks p)) (\<lambda>values.
           let image = site_get site ''SWITCHLESS_IMAGE''; tokens = expand_roles p (rank = 0) (argv_template p) in
           py_bind (render_tokens values tokens) (\<lambda>out.
             py_guard (image \<noteq> [] \<and> \<not> pinned_image image) ValueError
               (Inr (if image \<noteq> [] then map (\<lambda>t. if t = image_id p then image else t) out else out))))))"

section \<open>Stripping and splitting\<close>

lemma py_strip_id: "s \<noteq> [] \<Longrightarrow> \<not> py_space (hd s) \<Longrightarrow> \<not> py_space (last s) \<Longrightarrow> py_strip s = s"
  by (metis dropWhile_eq_self_iff hd_rev py_strip_def rev_rev_ident)

lemma py_strip_head:
  assumes "\<not> py_space c"
  shows "\<exists>t. py_strip (c # s) = c # t"
proof -
  have "dropWhile py_space (r @ [c]) = dropWhile py_space r @ [c]" for r
    using assms by (induction r) auto
  then show ?thesis using assms by (simp add: py_strip_def)
qed

lemma split_on_nonempty [simp]: "split_on c s \<noteq> []"
  by (induction s) (auto split: list.splits)

lemma split_on_none: "c \<notin> set s \<Longrightarrow> split_on c s = [s]"
  by (induction s) auto

lemma split_on_append: "c \<notin> set s \<Longrightarrow> split_on c (s @ c # t) = s # split_on c t"
  by (induction s) auto

section \<open>Placeholders\<close>

lemma key_char_not: "key_char c \<Longrightarrow> c \<noteq> CHR '','' \<and> c \<noteq> CHR ''$'' \<and> c \<noteq> CHR ''='' \<and> \<not> control_char c"
  by (auto simp: key_char_def control_char_def Let_def)

text \<open>The text a part stands for in the template.\<close>

definition part_source :: "part \<Rightarrow> string" where
  "part_source x = (case x of Lit c \<Rightarrow> [c] | Key k \<Rightarrow> ''${'' @ k @ ''}'')"

lemma part_simps [simp]:
  "part_source (Lit c) = [c]" "part_source (Key k) = ''${'' @ k @ ''}''"
  "part_text values (Lit c) = [c]" "part_text values (Key k) = site_get values k"
  by (simp_all add: part_source_def part_text_def)

lemma braced_source:
  assumes "braced ok s = Some (k, rest)"
  shows "s = ''${'' @ k @ ''}'' @ rest" "k \<noteq> []" "list_all ok k"
proof -
  obtain s' where s: "s = ''${'' @ s'" "k = takeWhile ok s'" "k \<noteq> []" "dropWhile ok s' = ''}'' @ rest"
    using braced_Some [OF assms] by blast
  show "s = ''${'' @ k @ ''}'' @ rest" unfolding s(1,2) using takeWhile_dropWhile_id [of ok s'] s(4) by simp
  show "k \<noteq> []" by (rule s(3))
  show "list_all ok k" unfolding s(2) by (auto simp: list_all_iff dest: set_takeWhileD)
qed

lemma placeholders_source: "concat (map part_source (placeholders s)) = s"
proof (induction s rule: placeholders.induct)
  case (2 c cs)
  show ?case
  proof (cases "braced key_char (c # cs)")
    case None
    then show ?thesis using 2(1) by simp
  next
    case (Some kr)
    obtain k rest where kr: "kr = (k, rest)" by fastforce
    have "concat (map part_source (placeholders rest)) = rest" using 2(2) Some kr by blast
    then show ?thesis using Some kr braced_source(1) [of key_char "c # cs" k rest] by simp
  qed
qed simp

lemma placeholders_keys: "Key k \<in> set (placeholders s) \<Longrightarrow> k \<noteq> [] \<and> list_all key_char k"
proof (induction s rule: placeholders.induct)
  case (2 c cs)
  show ?case
  proof (cases "braced key_char (c # cs)")
    case None
    then show ?thesis using 2 by simp
  next
    case (Some kr)
    obtain k' rest where kr: "kr = (k', rest)" by fastforce
    have "k = k' \<or> Key k \<in> set (placeholders rest)" using 2(3) Some kr by simp
    then show ?thesis using 2(2) Some kr braced_source(2,3) [of key_char "c # cs" k' rest] by blast
  qed
qed simp

lemma count_list_append [simp]: "count_list (xs @ ys) x = count_list xs x + count_list ys x"
  by (induction xs) auto

lemma count_concat_map: "count_list (concat (map f xs)) c = sum_list (map (\<lambda>x. count_list (f x) c) xs)"
  by (induction xs) auto

lemma substitute_count:
  assumes "c \<notin> set ''${}''" "\<not> key_char c" "list_all (\<lambda>x. case x of Lit _ \<Rightarrow> True | Key k \<Rightarrow> c \<notin> set (site_get values k)) (placeholders t)"
  shows "count_list (substitute values t) c = count_list t c"
proof -
  have "count_list (part_text values x) c = count_list (part_source x) c" if x: "x \<in> set (placeholders t)" for x
  proof (cases x)
    case (Lit d)
    then show ?thesis by simp
  next
    case (Key k)
    then have "c \<notin> set k" using placeholders_keys [of k t] x assms(2) by (auto simp: list_all_iff)
    moreover have "c \<notin> set (site_get values k)" using assms(3) x Key by (auto simp: list_all_iff)
    ultimately show ?thesis using Key assms(1) by (auto simp: count_list_0_iff)
  qed
  then have "count_list (substitute values t) c = count_list (concat (map part_source (placeholders t))) c"
    unfolding substitute_def count_concat_map by (intro arg_cong [where f = sum_list] map_cong) auto
  then show ?thesis unfolding placeholders_source .
qed

text \<open>A token without a dollar sign is rendered as it is.\<close>

lemma braced_dollar: "braced ok s \<noteq> None \<Longrightarrow> CHR ''$'' \<in> set s"
  by (cases "braced ok s") (use braced_source(1) [of ok s] in fastforce)+

lemma placeholders_plain: "CHR ''$'' \<notin> set s \<Longrightarrow> placeholders s = map Lit s"
proof (induction s)
  case (Cons c cs)
  then have "braced key_char (c # cs) = None" using braced_dollar [of key_char "c # cs"] by blast
  then show ?case using Cons by simp
qed simp

lemma substitute_plain: "CHR ''$'' \<notin> set s \<Longrightarrow> substitute values s = s"
  unfolding substitute_def by (simp add: placeholders_plain o_def)

lemma substitute_control:
  assumes "\<not> list_ex (bad_key values m) (placeholders t)" "c \<in> set (substitute values t)" "control_char c"
  shows "c \<in> set t"
proof -
  have "list_all (\<lambda>x. case x of Lit _ \<Rightarrow> True | Key k \<Rightarrow> c \<notin> set (site_get values k)) (placeholders t)"
    using assms(1,3) by (auto simp: list_ex_iff list_all_iff bad_key_def split: part.splits)
  moreover have "c \<notin> set ''${}''" "\<not> key_char c" using assms(3) key_char_not [of c] by (auto simp: control_char_def Let_def)
  ultimately have "count_list (substitute values t) c = count_list t c" by (intro substitute_count)
  then show ?thesis using assms(2) by (metis count_list_0_iff)
qed

lemma substitute_commas:
  assumes "\<not> list_ex (bad_key values True) (placeholders t)"
  shows "count_list (substitute values t) (CHR '','') = count_list t (CHR '','')"
proof (rule substitute_count)
  show "list_all (\<lambda>x. case x of Lit _ \<Rightarrow> True | Key k \<Rightarrow> CHR '','' \<notin> set (site_get values k)) (placeholders t)"
    using assms by (auto simp: list_ex_iff list_all_iff bad_key_def split: part.splits)
qed (simp_all add: key_char_def)

section \<open>What a rendered argv is\<close>

lemma render_tokens_Inr:
  assumes "render_tokens values tokens = Inr out"
  shows "out = map (substitute values) tokens"
    and "i < length tokens \<Longrightarrow> \<not> list_ex (missing_key values) (placeholders (tokens ! i))"
    and "i < length tokens \<Longrightarrow> \<not> list_ex (bad_key values (in_mount_at tokens i)) (placeholders (tokens ! i))"
  using assms by (auto simp: render_tokens_def Let_def list_ex_iff)

lemma render_Inr:
  assumes "render p site rank = Inr out"
  shows "\<exists>q values s. with_options p site = Inr q \<and> 0 \<le> rank \<and> rank < ranks q \<and> rank_values site (nat rank) (ranks q) = Inr values
    \<and> render_tokens values (expand_roles q (rank = 0) (argv_template q)) = Inr s
    \<and> (site_get site ''SWITCHLESS_IMAGE'' \<noteq> [] \<longrightarrow> pinned_image (site_get site ''SWITCHLESS_IMAGE''))
    \<and> out = (if site_get site ''SWITCHLESS_IMAGE'' \<noteq> []
         then map (\<lambda>t. if t = image_id q then site_get site ''SWITCHLESS_IMAGE'' else t) s else s)"
  using assms unfolding render_def Let_def by auto


end
