(* ===== verification/Compose_Service.thy ===== *)
theory Compose_Service
  imports Site_Render
begin

text \<open>
  The Compose renderer (\<open>src/launch/compose.py\<close>): the argv template of the baked image turned into a Compose
  service that refers to site values by name, the \<open>.env\<close> file of a rank that defines these names, and the plan the
  launch script reads. The JSON text of a project and the files it writes are left to \<open>main\<close>; the constant service
  that builds the source image is left out.
\<close>

section \<open>The baked profile\<close>

definition build_image :: "environ \<Rightarrow> profile \<Rightarrow> string" where
  "build_image site p =
     (let v = site_get site ''SWITCHLESS_BUILD_IMAGE'' in if v \<noteq> [] then v else ''glm53-switchless:'' @ topology p)"

fun baked_tokens :: "string \<Rightarrow> string \<Rightarrow> string list \<Rightarrow> string list py" where
  "baked_tokens old img [] = Inr []"
| "baked_tokens old img [t] =
     (if t = ''--mount'' then Inl IndexError else Inr [if t = old then img else t])"
| "baked_tokens old img (t # m # ts) =
     (if t = ''--mount'' \<and> prefix ''type=bind,src=${OVERLAY_ROOT}/'' m then baked_tokens old img ts
      else py_bind (baked_tokens old img (m # ts)) (\<lambda>r. Inr ((if t = old then img else t) # r)))"

definition baked_profile :: "profile \<Rightarrow> string \<Rightarrow> profile py" where
  "baked_profile p img =
     py_bind (baked_tokens (image_id p) img (argv_template p)) (\<lambda>out. Inr (p\<lparr>argv_template := out, image_id := img\<rparr>))"

definition without_image :: "environ \<Rightarrow> environ" where
  "without_image site = site(''SWITCHLESS_IMAGE'' := None)"

definition baked_argv :: "profile \<Rightarrow> environ \<Rightarrow> int \<Rightarrow> string option \<Rightarrow> string list py" where
  "baked_argv p site rank image0 =
     (let img = (case image0 of Some i \<Rightarrow> if i \<noteq> [] then i else build_image site p | None \<Rightarrow> build_image site p);
          site' = without_image site
      in py_bind (with_options p site') (\<lambda>q. py_bind (baked_profile q img) (\<lambda>b. render b site' rank)))"

section \<open>Tokens\<close>

definition compose_part :: "part \<Rightarrow> string py" where
  "compose_part x =
     (case x of
        Lit c \<Rightarrow> Inr (if c = CHR ''$'' then ''$$'' else [c])
      | Key k \<Rightarrow> let key = (if k = ''RANK'' then ''SWITCHLESS_RANK'' else k) in
          py_guard (\<not> prefix ''SWITCHLESS_'' key) ValueError (Inr (''${'' @ key @ ''}'')))"

definition compose_token :: "string \<Rightarrow> string py" where
  "compose_token t = py_bind (py_map compose_part (placeholders t)) (\<lambda>ps. Inr (concat ps))"

definition name_char :: "char \<Rightarrow> bool" where
  "name_char c = (let n = (of_char c :: nat) in 65 \<le> n \<and> n \<le> 90 \<or> 48 \<le> n \<and> n \<le> 57 \<or> n = 95)"

text \<open>Compose's interpolation.\<close>

function resolve :: "environ \<Rightarrow> string \<Rightarrow> string py" where
  "resolve env [] = Inr []"
| "resolve env (c # cs) =
     (if take 2 (c # cs) = ''$$'' then py_bind (resolve env (drop 1 cs)) (\<lambda>r. Inr (CHR ''$'' # r))
      else case braced name_char (c # cs) of
        Some (k, rest) \<Rightarrow>
          (case env k of None \<Rightarrow> Inl KeyError | Some v \<Rightarrow> py_bind (resolve env rest) (\<lambda>r. Inr (v @ r)))
      | None \<Rightarrow> py_bind (resolve env cs) (\<lambda>r. Inr (c # r)))"
  by pat_completeness auto

termination
  by (relation "measure (\<lambda>(env, s). length s)") (auto dest: braced_shorter)

section \<open>The service\<close>

definition parse_mount :: "string \<Rightarrow> (string \<times> string \<times> bool) py" where
  "parse_mount value =
     (let parts = split_on (CHR '','') value; readonly = (last parts = ''readonly'');
          opts = (if readonly then butlast parts else parts);
          kv = map_of (rev (map (\<lambda>p. (takeWhile (\<lambda>c. c \<noteq> CHR ''='') p, drop 1 (dropWhile (\<lambda>c. c \<noteq> CHR ''='') p))) opts))
      in py_guard (list_ex (\<lambda>p. CHR ''='' \<notin> set p) opts) ValueError
           (py_guard (kv ''type'' \<noteq> Some ''bind'' \<or> set (map (takeWhile (\<lambda>c. c \<noteq> CHR ''='')) opts) \<noteq> {''type'', ''src'', ''dst''}) ValueError
             (Inr (the (kv ''src''), the (kv ''dst''), readonly))))"

record service =
  sv_image :: string
  sv_context :: string
  sv_target :: string
  sv_environment :: "string list"
  sv_volumes :: "(string \<times> string \<times> bool) list"
  sv_name :: "string option"
  sv_network :: "string option"
  sv_ipc :: "string option"
  sv_gpus :: bool
  sv_cap_add :: "string list"
  sv_security_opt :: "string list"
  sv_devices :: "string list"
  sv_ulimits :: "(string \<times> int \<times> int) list"
  sv_shm_size :: "string option"
  sv_labels :: "string list"
  sv_command :: "string list"

definition VALUE_FLAGS :: "string list" where
  "VALUE_FLAGS = [''--name'', ''--network'', ''--ipc'', ''--gpus'', ''--cap-add'', ''--security-opt'', ''--device'', ''--ulimit'',
     ''--shm-size'', ''--label'', ''--mount'', ''-e'']"

definition cut_at :: "char \<Rightarrow> string \<Rightarrow> string \<times> string" where
  "cut_at d s = (takeWhile (\<lambda>c. c \<noteq> d) s, drop 1 (dropWhile (\<lambda>c. c \<noteq> d) s))"

definition ulimit_of :: "string \<Rightarrow> (string \<times> int \<times> int) py" where
  "ulimit_of value =
     (let (name, limits) = cut_at (CHR ''='') value; (soft, hard) = cut_at (CHR '':'') limits in
      py_bind (py_int soft) (\<lambda>a. py_bind (py_int (if hard \<noteq> [] then hard else soft)) (\<lambda>b. Inr (name, a, b))))"

definition put_option :: "string \<Rightarrow> string \<Rightarrow> service \<Rightarrow> service py" where
  "put_option flag value s =
     (if flag = ''-e'' then Inr (s\<lparr>sv_environment := sv_environment s @ [value]\<rparr>)
      else if flag = ''--mount'' then py_bind (parse_mount value) (\<lambda>v. Inr (s\<lparr>sv_volumes := sv_volumes s @ [v]\<rparr>))
      else if flag = ''--name'' then Inr (s\<lparr>sv_name := Some value\<rparr>)
      else if flag = ''--network'' then Inr (s\<lparr>sv_network := Some value\<rparr>)
      else if flag = ''--ipc'' then Inr (s\<lparr>sv_ipc := Some value\<rparr>)
      else if flag = ''--gpus'' then py_guard (value \<noteq> ''all'') ValueError (Inr (s\<lparr>sv_gpus := True\<rparr>))
      else if flag = ''--cap-add'' then Inr (s\<lparr>sv_cap_add := sv_cap_add s @ [value]\<rparr>)
      else if flag = ''--security-opt'' then Inr (s\<lparr>sv_security_opt := sv_security_opt s @ [value]\<rparr>)
      else if flag = ''--device'' then Inr (s\<lparr>sv_devices := sv_devices s @ [value @ '':'' @ value]\<rparr>)
      else if flag = ''--ulimit'' then py_bind (ulimit_of value) (\<lambda>(n, l). Inr (s\<lparr>sv_ulimits := dict_put n l (sv_ulimits s)\<rparr>))
      else if flag = ''--shm-size'' then Inr (s\<lparr>sv_shm_size := Some value\<rparr>)
      else Inr (s\<lparr>sv_labels := sv_labels s @ [value]\<rparr>))"

text \<open>The options between \<open>docker run\<close> and the image; an option without a value would read the image.\<close>

fun service_opts :: "string \<Rightarrow> string list \<Rightarrow> service \<Rightarrow> service py" where
  "service_opts img [] s = Inr s"
| "service_opts img [flag] s =
     (if flag = ''-d'' then Inr s
      else py_guard (flag \<notin> set VALUE_FLAGS) ValueError
        (py_bind (compose_token img) (\<lambda>value. put_option flag value s)))"
| "service_opts img (flag # v # opts) s =
     (if flag = ''-d'' then service_opts img (v # opts) s
      else py_guard (flag \<notin> set VALUE_FLAGS) ValueError
        (py_bind (compose_token v) (\<lambda>value. py_bind (put_option flag value s) (service_opts img opts))))"

definition service_new :: "profile \<Rightarrow> string \<Rightarrow> service" where
  "service_new p context =
     \<lparr>sv_image = ''${SWITCHLESS_BUILD_IMAGE}'', sv_context = context, sv_target = ''profile-'' @ topology p, sv_environment = [],
      sv_volumes = [], sv_name = None, sv_network = None, sv_ipc = None, sv_gpus = False, sv_cap_add = [], sv_security_opt = [],
      sv_devices = [], sv_ulimits = [], sv_shm_size = None, sv_labels = [], sv_command = []\<rparr>"

definition service_of :: "profile \<Rightarrow> int \<Rightarrow> string \<Rightarrow> string \<Rightarrow> service py" where
  "service_of p rank img context =
     py_bind (baked_profile p img) (\<lambda>b.
       let argv = expand_roles b (rank = 0) (argv_template b);
           fin = length (takeWhile (\<lambda>t. t \<noteq> img) argv)
       in py_guard (take 2 argv \<noteq> [''docker'', ''run''] \<or> count_list argv img \<noteq> 1) ValueError
            (py_bind (service_opts img (take (fin - 2) (drop 2 argv)) (service_new p context)) (\<lambda>s.
              py_bind (py_map compose_token (drop (fin + 1) argv)) (\<lambda>command. Inr (s\<lparr>sv_command := command\<rparr>)))))"

section \<open>The project of a rank\<close>

definition env_values :: "profile \<Rightarrow> environ \<Rightarrow> nat \<Rightarrow> string \<Rightarrow> (string \<times> string) list py" where
  "env_values p site rank img =
     py_bind (rank_values site rank (ranks p)) (\<lambda>values.
       Inr (fold (\<lambda>k. dict_put k (site_get values k)) (sort (remdups (site_variables p)))
              [(''SWITCHLESS_BUILD_IMAGE'', img), (''SWITCHLESS_RANK'', dec rank)]))"

definition env_line :: "string \<times> string \<Rightarrow> string py" where
  "env_line kv = py_guard (CHR 0x27 \<in> set (snd kv) \<or> CHR 0x0A \<in> set (snd kv)) ValueError (Inr (fst kv @ ''='' @ [CHR 0x27] @ snd kv @ [CHR 0x27]))"

definition env_head :: "string \<Rightarrow> nat \<Rightarrow> string list" where
  "env_head name rank =
     [''# Rendered by launch/compose.py for rank '' @ dec rank @ '' of the '' @ name @ '' profile from the site file.'',
      ''# Site data: keep it out of Git. Docker Compose reads this file from the project directory.'']"

definition end_lines :: "string list \<Rightarrow> string" where
  "end_lines ls = concat (map (\<lambda>l. l @ [CHR 0x0A]) ls)"

definition env_text :: "string \<Rightarrow> nat \<Rightarrow> (string \<times> string) list \<Rightarrow> string py" where
  "env_text name rank values =
     py_bind (py_map env_line values) (\<lambda>ls. Inr (end_lines (env_head name rank @ ls)))"

definition project :: "profile \<Rightarrow> environ \<Rightarrow> nat \<Rightarrow> string \<Rightarrow> (string \<times> service \<times> (string \<times> string) list) py" where
  "project p0 site rank context =
     (let img = build_image site p0 in
      py_bind (with_options p0 site) (\<lambda>p.
        py_bind (baked_profile p img) (\<lambda>b.
          py_bind (render b (without_image site) (int rank)) (\<lambda>argv.
            py_bind (service_of p (int rank) img context) (\<lambda>s.
              py_bind (env_values p site rank img) (\<lambda>env.
                Inr (''switchless-'' @ topology p @ ''-rank'' @ dec rank, s, env)))))))"

section \<open>The launch plan\<close>

definition split_list_of :: "environ \<Rightarrow> string \<Rightarrow> int \<Rightarrow> string list py" where
  "split_list_of site key n =
     (let items = comma_items (site_get site key) in
      py_guard (items \<noteq> [] \<and> int (length items) \<noteq> n) ValueError (Inr items))"

definition path_join :: "string \<Rightarrow> string \<Rightarrow> string" where
  "path_join d x = (if d \<noteq> [] \<and> last d = CHR ''/'' then d @ x else d @ ''/'' @ x)"

definition model_name :: "string list \<Rightarrow> string py" where
  "model_name argv =
     (let i = length (takeWhile (\<lambda>t. t \<noteq> ''--served-model-name'') argv) in
      py_guard (length argv \<le> i) ValueError (py_guard (length argv \<le> i + 1) IndexError (Inr (argv ! (i + 1)))))"

definition need :: "environ \<Rightarrow> string \<Rightarrow> string py" where
  "need values key = (case values key of None \<Rightarrow> Inl KeyError | Some v \<Rightarrow> Inr v)"

definition rank_row ::
  "profile \<Rightarrow> environ \<Rightarrow> string \<Rightarrow> string \<Rightarrow> string \<Rightarrow> string list \<Rightarrow> string list \<Rightarrow> nat \<Rightarrow> string list py" where
  "rank_row p site img out_dir remote targets share rank =
     py_bind (baked_argv p site (int rank) (Some img)) (\<lambda>argv.
       let explicit = site_get site (rank_key rank ''_SSH'');
           target = (if explicit \<noteq> [] then explicit else if targets \<noteq> [] then targets ! rank else [])
       in py_guard (target = []) ValueError
            (py_bind (rank_values site rank (ranks p)) (\<lambda>v.
              py_bind (py_map (need v) [''SWITCHLESS_CONTAINER_NAME'', ''SWITCHLESS_JIT_CACHE_DIR'', ''SWITCHLESS_PROFILES_DIR'',
                  ''SWITCHLESS_HF_CACHE_DIR'', ''SWITCHLESS_MODEL_DIR'', ''SWITCHLESS_DRAFTER_REPO_DIR'']) (\<lambda>vs.
                Inr ([''rank'', dec rank, target, path_join out_dir (''rank'' @ dec rank),
                      remote @ ''/deploy/'' @ topology p @ ''/rank'' @ dec rank] @ vs @ [if share \<noteq> [] then share ! rank else ''-''])))))"

definition after_at :: "string \<Rightarrow> string" where
  "after_at s = rev (takeWhile (\<lambda>c. c \<noteq> CHR 0x40) (rev s))"

definition plan_rows :: "profile \<Rightarrow> environ \<Rightarrow> string \<Rightarrow> string \<Rightarrow> string list list py" where
  "plan_rows p site out_dir repo_root =
     py_bind (split_list_of site ''SWITCHLESS_SSH_TARGETS'' (ranks p)) (\<lambda>ssh.
       py_bind (if ssh \<noteq> [] then Inr ssh else split_list_of site ''SWITCHLESS_RANK_HOST_IPS'' (ranks p)) (\<lambda>targets.
         py_bind (split_list_of site ''SWITCHLESS_SHARE_TARGETS'' (ranks p)) (\<lambda>share.
           let repo = site_get site ''SWITCHLESS_REMOTE_REPO''; remote = (if repo \<noteq> [] then repo else repo_root);
               img = build_image site p; host = site_get site ''SWITCHLESS_API_HOST''
           in py_bind (model_name (argv_template p)) (\<lambda>model.
             py_bind (py_map (rank_row p site img out_dir remote targets share) [0..<nat (ranks p)]) (\<lambda>rows.
               py_guard (host = [] \<and> rows = []) AttributeError
                 (Inr ([[''profile'', topology p], [''image'', img], [''remote_repo'', remote],
                        [''api_port'', site_get site ''SWITCHLESS_API_PORT''], [''model_name'', model]]
                     @ rows @ [[''api_host'', if host \<noteq> [] then host else after_at (hd rows ! 2)]])))))))"

definition join_with :: "char \<Rightarrow> string list \<Rightarrow> string" where
  "join_with c xs = (case xs of [] \<Rightarrow> [] | x # r \<Rightarrow> x @ concat (map (\<lambda>y. c # y) r))"

definition launch_plan :: "profile \<Rightarrow> environ \<Rightarrow> string \<Rightarrow> string \<Rightarrow> string py" where
  "launch_plan p site out_dir repo_root =
     py_bind (plan_rows p site out_dir repo_root) (\<lambda>rows.
       py_guard (list_ex (list_ex (\<lambda>x. CHR 0x09 \<in> set x \<or> CHR 0x0A \<in> set x)) rows) ValueError
         (Inr (join_with (CHR 0x0A) (map (join_with (CHR 0x09)) rows) @ [CHR 0x0A])))"

section \<open>The \<open>.env\<close> file is a site file\<close>

lemma lines_from_line:
  assumes "\<not> list_ex line_break l"
  shows "lines_from False acc (l @ CHR 0x0A # rest) = (rev acc @ l) # lines_from False [] rest"
  using assms by (induction l arbitrary: acc) (auto simp: line_break_def)

lemma lines_of_end_lines: "\<forall>l \<in> set ls. \<not> list_ex line_break l \<Longrightarrow> lines_from False [] (end_lines ls) = ls"
proof (induction ls)
  case (Cons l ls)
  then show ?case using lines_from_line [of l "[]" "end_lines ls"] by (simp add: end_lines_def)
qed (simp add: end_lines_def)

lemma read_lines_append: "read_lines (ls @ ms) vs = py_bind (read_lines ls vs) (read_lines ms)"
proof (induction ls arbitrary: vs)
  case (Cons l ls)
  then show ?case by (cases "read_line l vs") simp_all
qed simp

lemma dec_digits: "list_all py_digit (dec n)"
proof (induction n rule: dec.induct)
  case (1 n)
  have "py_digit (char_of (48 + m))" if "m < 10" for m :: nat using that by (simp add: py_digit_def)
  then have d: "list_all py_digit [char_of (48 + n)]" if "n < 10" using that by simp
  have "py_digit (char_of (48 + n mod 10))" by (simp add: py_digit_def)
  then have "list_all py_digit (dec (n div 10) @ [char_of (48 + n mod 10)])" if "\<not> n < 10" using 1 that by (simp del: dec.simps)
  then show ?case using d by (subst dec.simps) (simp del: dec.simps)
qed

lemma dec_no_break: "\<not> list_ex line_break (dec n)"
  using dec_digits [of n] by (auto simp: list_all_iff list_ex_iff py_digit_def line_break_def Let_def)

lemma site_key_plain:
  assumes "site_key k"
  shows "k \<noteq> []" "CHR ''='' \<notin> set k" "\<not> py_space (hd k)" "\<not> py_space (last k)" "hd k \<noteq> CHR ''#''" "\<not> list_ex line_break k"
proof -
  have c: "c \<noteq> CHR ''='' \<and> \<not> py_space c \<and> c \<noteq> CHR ''#'' \<and> \<not> line_break c" if "c \<in> set k" for c
    using assms that unfolding site_key_def list_all_iff
    by (auto simp: py_space_def line_break_def Let_def dest!: bspec [of _ _ c])
  show "k \<noteq> []" using assms by (simp add: site_key_def)
  then show "\<not> py_space (hd k)" "\<not> py_space (last k)" "hd k \<noteq> CHR ''#''" using c by simp_all
  show "CHR ''='' \<notin> set k" "\<not> list_ex line_break k" using c by (auto simp: list_ex_iff)
qed

lemma site_value_quoted:
  assumes "CHR 0x27 \<notin> set v"
  shows "site_value (CHR 0x27 # v @ [CHR 0x27]) = Inr v"
proof -
  have "py_strip (CHR 0x27 # v @ [CHR 0x27]) = CHR 0x27 # v @ [CHR 0x27]" by (rule py_strip_id) (auto simp: py_space_def)
  moreover have "takeWhile (\<lambda>c. c \<noteq> CHR 0x27) (v @ [CHR 0x27]) = v" "dropWhile (\<lambda>c. c \<noteq> CHR 0x27) (v @ [CHR 0x27]) = [CHR 0x27]"
    using assms by (induction v) auto
  ultimately show ?thesis unfolding site_value_def Let_def by (simp add: quote_char_def py_strip_def)
qed

lemma read_env_line:
  assumes "site_key k" "env_line (k, v) = Inr l"
  shows "read_line l vs = Inr (vs(k \<mapsto> v))"
proof -
  note k = site_key_plain [OF assms(1)]
  have q: "CHR 0x27 \<notin> set v" and l: "l = k @ ''='' @ [CHR 0x27] @ v @ [CHR 0x27]" using assms(2) by (simp_all add: env_line_def)
  have s: "py_strip l = l" unfolding l by (rule py_strip_id) (use k in \<open>auto simp: py_space_def\<close>)
  have "takeWhile (\<lambda>c. c \<noteq> CHR ''='') l = k" "dropWhile (\<lambda>c. c \<noteq> CHR ''='') l = ''='' @ [CHR 0x27] @ v @ [CHR 0x27]"
    unfolding l using k(2) by (induction k) auto
  moreover have "py_strip k = k" using k by (intro py_strip_id)
  moreover have "l \<noteq> []" "hd l \<noteq> CHR ''#''" using k by (auto simp: l)
  ultimately show ?thesis using assms(1) site_value_quoted [OF q] by (simp add: read_line_def s)
qed

lemma read_comment: "read_line (CHR ''#'' # l) vs = Inr vs"
proof -
  obtain t where "py_strip (CHR ''#'' # l) = CHR ''#'' # t" using py_strip_head [of "CHR ''#''" l] by (auto simp: py_space_def)
  then show ?thesis by (simp add: read_line_def)
qed

definition put_item :: "string \<times> string \<Rightarrow> environ \<Rightarrow> environ" where
  "put_item kv m = m(fst kv \<mapsto> snd kv)"

lemma read_env_lines:
  assumes "\<forall>k \<in> fst ` set kvs. site_key k" "py_map env_line kvs = Inr ls"
  shows "read_lines ls vs = Inr (fold put_item kvs vs)"
  using assms
proof (induction kvs arbitrary: ls vs)
  case (Cons kv kvs)
  obtain k v where kv: "kv = (k, v)" by fastforce
  obtain l ls' where ls: "env_line (k, v) = Inr l" "py_map env_line kvs = Inr ls'" "ls = [l] @ ls'" using Cons.prems(2) kv by auto
  have "read_line l vs = Inr (put_item kv vs)"
    using Cons.prems(1) kv ls(1) unfolding put_item_def fst_conv snd_conv by (intro read_env_line) auto
  moreover have "read_lines ls' (put_item kv vs) = Inr (fold put_item kvs (put_item kv vs))"
    using Cons.IH [OF _ ls(2)] Cons.prems(1) by simp
  ultimately show ?case unfolding ls(3) by simp
qed simp

lemma fold_updates: "distinct (map fst kvs) \<Longrightarrow> fold put_item kvs vs = vs ++ map_of kvs"
proof (induction kvs arbitrary: vs)
  case (Cons kv kvs)
  obtain k v where kv: "kv = (k, v)" by fastforce
  have "k \<notin> dom (map_of kvs)" using Cons.prems kv by (auto simp: dom_map_of_conv_image_fst)
  then have "vs(k \<mapsto> v) ++ map_of kvs = vs ++ (map_of kvs)(k \<mapsto> v)"
    by (auto simp: fun_eq_iff map_add_def split: option.splits)
  moreover have "put_item kv vs = vs(k \<mapsto> v)" by (simp add: kv put_item_def)
  ultimately show ?case using Cons.IH [of "put_item kv vs"] Cons.prems kv by (simp del: fun_upd_apply)
qed simp

lemma line_break_text [simp]: "list_ex line_break (a @ b) \<longleftrightarrow> list_ex line_break a \<or> list_ex line_break b"
  by (simp add: list_ex_iff bex_Un)

lemma head_breaks:
  assumes "\<not> list_ex line_break name"
  shows "\<forall>l \<in> set (env_head name rank). \<not> list_ex line_break l"
proof -
  have l: "\<forall>l \<in> set [a @ dec rank @ b @ name @ c, d]. \<not> list_ex line_break l"
    if "\<not> list_ex line_break a" "\<not> list_ex line_break b" "\<not> list_ex line_break c" "\<not> list_ex line_break d" for a b c d
    using that assms dec_no_break [of rank] by simp
  show ?thesis unfolding env_head_def by (rule l) (simp_all add: line_break_def)
qed

text \<open>
  C34. The .env text that compose writes, when its values hold no line break, is read back by
  the site-file reader as exactly the values written.
\<close>

theorem env_file_reads_back:
  assumes "env_text name rank kvs = Inr text" "distinct (map fst kvs)" "\<forall>k \<in> fst ` set kvs. site_key k"
    and "\<forall>v \<in> snd ` set kvs. \<not> list_ex line_break v" "\<not> list_ex line_break name"
  shows "read_site text = Inr (map_of kvs)"
proof -
  obtain ls where ls: "py_map env_line kvs = Inr ls" "text = end_lines (env_head name rank @ ls)"
    using assms(1) by (auto simp: env_text_def)
  have "\<not> list_ex line_break l" if l: "l \<in> set ls" for l
  proof -
    obtain j where j: "j < length ls" "l = ls ! j" using l by (metis in_set_conv_nth)
    have a: "list_all2 (\<lambda>x y. env_line x = Inr y) kvs ls" using ls(1) by (simp add: py_map_Inr)
    obtain k v where kv: "kvs ! j = (k, v)" by fastforce
    have kv: "(k, v) \<in> set kvs" "env_line (k, v) = Inr l"
      using list_all2_nthD2 [OF a j(1)] list_all2_lengthD [OF a] j kv nth_mem [of j kvs] by simp_all
    have m: "k \<in> fst ` set kvs" "v \<in> snd ` set kvs" using kv(1) by force+
    have "l = k @ ''='' @ [CHR 0x27] @ v @ [CHR 0x27]" using kv(2) by (simp add: env_line_def)
    moreover have "\<not> list_ex line_break k" "\<not> list_ex line_break v"
      using assms(3,4) m site_key_plain(6) by blast+
    moreover have "\<not> line_break CHR ''=''" "\<not> line_break CHR 0x27" by (simp_all add: line_break_def)
    ultimately show ?thesis by simp
  qed
  moreover have "\<forall>l \<in> set (env_head name rank). \<not> list_ex line_break l"
    by (rule head_breaks [OF assms(5)])
  ultimately have "lines_from False [] text = env_head name rank @ ls" unfolding ls(2) by (intro lines_of_end_lines) auto
  moreover have "read_lines (env_head name rank) Map.empty = Inr Map.empty"
    by (simp add: env_head_def read_comment)
  ultimately show ?thesis
    using read_env_lines [OF assms(3) ls(1), of Map.empty] fold_updates [OF assms(2)]
    unfolding read_site_def by (simp add: read_lines_append)
qed

section \<open>Tokens resolve to what the renderer writes\<close>

definition compose_key :: "string \<Rightarrow> string" where
  "compose_key k = (if k = ''RANK'' then ''SWITCHLESS_RANK'' else k)"

definition part_code :: "part \<Rightarrow> string" where
  "part_code x = (case x of Lit c \<Rightarrow> if c = CHR ''$'' then ''$$'' else [c] | Key k \<Rightarrow> ''${'' @ compose_key k @ ''}'')"

definition code :: "part list \<Rightarrow> string" where "code ps = concat (map part_code ps)"

definition render_text :: "environ \<Rightarrow> part list \<Rightarrow> string" where "render_text vs ps = concat (map (part_text vs) ps)"

lemma code_simps [simp]:
  "part_code (Lit c) = (if c = CHR ''$'' then ''$$'' else [c])" "part_code (Key k) = ''${'' @ compose_key k @ ''}''"
  "code [] = []" "code (x # ps) = part_code x @ code ps" "code (ps @ qs) = code ps @ code qs"
  "render_text vs [] = []" "render_text vs (x # ps) = part_text vs x @ render_text vs ps" "render_text vs (ps @ qs) = render_text vs ps @ render_text vs qs"
  by (simp_all add: part_code_def code_def render_text_def)

lemma compose_token_Inr: "compose_token t = Inr u \<Longrightarrow> u = code (placeholders t)"
proof -
  have e: "compose_part x = Inr y \<Longrightarrow> y = part_code x" for x y
    by (cases x) (auto simp: compose_part_def compose_key_def Let_def split: if_splits)
  have "py_map compose_part ps = Inr ys \<Longrightarrow> concat ys = code ps" for ps ys
    by (induction ps arbitrary: ys) (auto dest: e)
  then show "compose_token t = Inr u \<Longrightarrow> u = code (placeholders t)" by (auto simp: compose_token_def)
qed

text \<open>A part whose name the \<open>.env\<close> defines with the renderer's value.\<close>

definition defined :: "environ \<Rightarrow> environ \<Rightarrow> part \<Rightarrow> bool" where
  "defined env vs x = (case x of Lit c \<Rightarrow> True
     | Key k \<Rightarrow> k \<noteq> [] \<and> list_all name_char (compose_key k) \<and> env (compose_key k) = Some (site_get vs k))"

lemma braced_key:
  assumes "k \<noteq> []" "list_all ok k" "\<not> ok (CHR ''}'')"
  shows "braced ok (''${'' @ k @ ''}'' @ rest) = Some (k, rest)"
proof -
  have "takeWhile ok (k @ ''}'' @ rest) = k" "dropWhile ok (k @ ''}'' @ rest) = ''}'' @ rest"
    using assms(2,3) by (induction k) auto
  then show ?thesis using assms(1) by (simp add: braced_def)
qed

lemma resolve_code: "\<forall>x \<in> set ps. defined env vs x \<Longrightarrow> resolve env (code ps @ rest) = py_bind (resolve env rest) (\<lambda>r. Inr (render_text vs ps @ r))"
proof (induction ps)
  case Nil
  then show ?case by (cases "resolve env rest") simp_all
next
  case (Cons x ps)
  have ih: "resolve env (code ps @ rest) = py_bind (resolve env rest) (\<lambda>r. Inr (render_text vs ps @ r))" using Cons by simp
  show ?case
  proof (cases x)
    case (Lit c)
    have "braced name_char (c # s) = None" if "c \<noteq> CHR ''$''" for s using that by (simp add: braced_def)
    then show ?thesis using ih Lit by (cases "resolve env rest") simp_all
  next
    case (Key k)
    have d: "compose_key k \<noteq> []" "list_all name_char (compose_key k)" "env (compose_key k) = Some (site_get vs k)"
      using Cons.prems Key by (simp_all add: defined_def compose_key_def)
    have b: "braced name_char (CHR ''$'' # CHR ''{'' # compose_key k @ CHR ''}'' # code ps @ rest) = Some (compose_key k, code ps @ rest)"
      using braced_key [OF d(1,2), of "code ps @ rest"] by (simp add: name_char_def)
    show ?thesis unfolding Key using ih b d(3) by (cases "resolve env rest") simp_all
  qed
qed

lemma resolve_defined: "\<forall>x \<in> set ps. defined env vs x \<Longrightarrow> resolve env (code ps) = Inr (render_text vs ps)"
  using resolve_code [of ps env vs "[]"] by simp

lemma resolve_token:
  assumes "compose_token t = Inr u" "\<forall>x \<in> set (placeholders t). defined env vs x"
  shows "resolve env u = Inr (substitute vs t)"
  using resolve_defined [OF assms(2)] unfolding compose_token_Inr [OF assms(1)] by (simp add: substitute_def render_text_def)

section \<open>Mounts\<close>

lemma split_on_plain: "d \<notin> set s \<Longrightarrow> split_on d (s @ t) = (case split_on d t of [] \<Rightarrow> [] | p # r \<Rightarrow> (s @ p) # r)"
  by (induction s) (auto split: list.splits)

lemma split_on_concat:
  assumes "f y = [d]" "\<forall>x \<in> set ps. x \<noteq> y \<longrightarrow> d \<notin> set (f x)"
  shows "split_on d (concat (map f ps)) = map (\<lambda>q. concat (map f q)) (split_on y ps)"
  using assms(2)
proof (induction ps)
  case (Cons x ps)
  then have ih: "split_on d (concat (map f ps)) = map (\<lambda>q. concat (map f q)) (split_on y ps)" by simp
  show ?case
  proof (cases "x = y")
    case True
    then show ?thesis using ih assms(1) by simp
  next
    case False
    then have "d \<notin> set (f x)" using Cons.prems by simp
    then show ?thesis using ih False by (cases "split_on y ps") (simp_all add: split_on_plain)
  qed
qed simp

lemma split_on_parts: "q \<in> set (split_on y ps) \<Longrightarrow> set q \<subseteq> set ps"
proof (induction ps arbitrary: q)
  case (Cons x ps)
  then show ?case by (cases "split_on y ps") (fastforce split: if_splits)+
qed simp

lemma code_plain: "CHR ''$'' \<notin> set (code q) \<Longrightarrow> render_text vs q = code q"
proof (induction q)
  case (Cons x q)
  then show ?case by (cases x) (auto split: if_splits)
qed simp

lemma code_key_value:
  assumes "takeWhile (\<lambda>c. c \<noteq> CHR ''='') (code q) = k" "CHR ''='' \<in> set (code q)" "CHR ''$'' \<notin> set k"
  shows "\<exists>q'. set q' \<subseteq> set q \<and> code q = k @ ''='' @ code q' \<and> render_text vs q = k @ ''='' @ render_text vs q'"
  using assms
proof (induction q arbitrary: k)
  case (Cons x q)
  show ?case
  proof (cases x)
    case (Lit c)
    have c: "c \<noteq> CHR ''$''" using Cons.prems Lit by auto
    show ?thesis
    proof (cases "c = CHR ''=''")
      case True
      then have "k = []" using Cons.prems(1) Lit c by simp
      then show ?thesis using True Lit by (intro exI [of _ q]) auto
    next
      case False
      define k' where "k' = takeWhile (\<lambda>c. c \<noteq> CHR ''='') (code q)"
      have k: "k = c # k'" using Cons.prems(1) Lit c False by (simp add: k'_def)
      have "CHR ''='' \<in> set (code q)" "CHR ''$'' \<notin> set k'" using Cons.prems(2,3) Lit c False k by simp_all
      then obtain q' where "set q' \<subseteq> set q" "code q = k' @ ''='' @ code q'" "render_text vs q = k' @ ''='' @ render_text vs q'"
        using Cons.IH [OF k'_def [symmetric]] by blast
      then show ?thesis using k Lit c by (intro exI [of _ q']) auto
    qed
  next
    case (Key n)
    then show ?thesis using Cons.prems by auto
  qed
qed simp

definition mount_key :: "string \<Rightarrow> string" where "mount_key = takeWhile (\<lambda>c. c \<noteq> CHR ''='')"
definition mount_value :: "string \<Rightarrow> string" where "mount_value p = drop 1 (dropWhile (\<lambda>c. c \<noteq> CHR ''='') p)"

lemma parse_mount_Inr:
  "parse_mount v = Inr (a, b, ro) \<longleftrightarrow>
     (let parts = split_on (CHR '','') v; opts = (if ro then butlast parts else parts);
          kv = map_of (rev (map (\<lambda>p. (mount_key p, mount_value p)) opts))
      in ro = (last parts = ''readonly'') \<and> (\<forall>p \<in> set opts. CHR ''='' \<in> set p) \<and> kv ''type'' = Some ''bind''
         \<and> mount_key ` set opts = {''type'', ''src'', ''dst''} \<and> a = the (kv ''src'') \<and> b = the (kv ''dst''))"
proof -
  have "py_guard b e k = Inr x \<longleftrightarrow> \<not> b \<and> k = Inr x" for b e k and x :: "string \<times> string \<times> bool" by simp
  then show ?thesis
    unfolding parse_mount_def Let_def mount_key_def [symmetric] mount_value_def [symmetric]
    by (auto simp: list_ex_iff)
qed

lemma mount_split: "mount_key (k @ ''='' @ r) = k \<and> mount_value (k @ ''='' @ r) = r" if "CHR ''='' \<notin> set k"
  using that unfolding mount_key_def mount_value_def by (induction k) auto

lemma map_of_values: "map_of (map (\<lambda>q. (kf q, f (g q))) qs) k = map_option f (map_of (map (\<lambda>q. (kf q, g q)) qs) k)"
  by (induction qs) auto

lemma parse_mount_code:
  assumes "parse_mount (code ps) = Inr (a, b, ro)" "\<forall>x \<in> set ps. defined env vs x" "\<not> list_ex (bad_key vs True) ps"
  shows "\<exists>a' b'. parse_mount (render_text vs ps) = Inr (a', b', ro) \<and> resolve env a = Inr a' \<and> resolve env b = Inr b'"
proof -
  define qs where "qs = split_on (Lit (CHR '','')) ps"
  define opts where "opts = (if ro then butlast qs else qs)"
  have qs0: "qs \<noteq> []" by (simp add: qs_def)
  have sub: "set q \<subseteq> set ps" if "q \<in> set qs" for q using that unfolding qs_def by (rule split_on_parts)
  have oq: "set opts \<subseteq> set qs" by (auto simp: opts_def dest: in_set_butlastD)
  have c1: "CHR '','' \<notin> set (part_code x)" if "x \<in> set ps" "x \<noteq> Lit (CHR '','')" for x
  proof (cases x)
    case (Key k)
    have "\<not> name_char (CHR '','')" by (simp add: name_char_def)
    then have "CHR '','' \<notin> set (compose_key k)" using assms(2) that(1) Key by (auto simp: defined_def list_all_iff)
    then show ?thesis using Key by simp
  qed (use that(2) in simp)
  have e: "split_on (CHR '','') (code ps) = map code qs"
    unfolding code_def qs_def using c1 by (intro split_on_concat) auto
  have c2: "CHR '','' \<notin> set (part_text vs x)" if "x \<in> set ps" "x \<noteq> Lit (CHR '','')" for x
  proof -
    have "\<not> bad_key vs True x" using that(1) assms(3) by (auto simp: list_ex_iff)
    then show ?thesis using that(2) by (cases x) (auto simp: bad_key_def)
  qed
  have v: "split_on (CHR '','') (render_text vs ps) = map (render_text vs) qs"
    unfolding render_text_def qs_def using c2 by (intro split_on_concat) auto
  have eo: "(if ro then butlast (map code qs) else map code qs) = map code opts" by (simp add: opts_def map_butlast)
  have vo: "(if ro then butlast (map (render_text vs) qs) else map (render_text vs) qs) = map (render_text vs) opts"
    by (simp add: opts_def map_butlast)
  have p: "ro = (last (map code qs) = ''readonly'')" "\<forall>q \<in> set opts. CHR ''='' \<in> set (code q)"
    "map_of (rev (map (\<lambda>p. (mount_key p, mount_value p)) (map code opts))) ''type'' = Some ''bind''"
    "mount_key ` set (map code opts) = {''type'', ''src'', ''dst''}"
    "a = the (map_of (rev (map (\<lambda>p. (mount_key p, mount_value p)) (map code opts))) ''src'')"
    "b = the (map_of (rev (map (\<lambda>p. (mount_key p, mount_value p)) (map code opts))) ''dst'')"
    using assms(1) unfolding parse_mount_Inr e Let_def eo by simp_all
  have "\<exists>q'. set q' \<subseteq> set q \<and> code q = mount_key (code q) @ ''='' @ code q'
      \<and> render_text vs q = mount_key (code q) @ ''='' @ render_text vs q'" if q: "q \<in> set opts" for q
  proof (rule code_key_value)
    show "takeWhile (\<lambda>c. c \<noteq> CHR ''='') (code q) = mount_key (code q)" by (simp add: mount_key_def)
    show "CHR ''='' \<in> set (code q)" using p(2) q by blast
    have "mount_key (code q) \<in> {''type'', ''src'', ''dst''}" unfolding p(4) [symmetric] using q by simp
    then show "CHR ''$'' \<notin> set (mount_key (code q))" by auto
  qed
  then obtain g where g: "\<And>q. q \<in> set opts \<Longrightarrow> set (g q) \<subseteq> set q \<and> code q = mount_key (code q) @ ''='' @ code (g q)
      \<and> render_text vs q = mount_key (code q) @ ''='' @ render_text vs (g q)" by metis
  have ne: "CHR ''='' \<notin> set (mount_key s)" for s unfolding mount_key_def by (auto dest: set_takeWhileD)
  have ke: "mount_value (code q) = code (g q)" if "q \<in> set opts" for q
    using mount_split [OF ne [of "code q"], of "code (g q)"] g [OF that] by metis
  have kv: "mount_key (render_text vs q) = mount_key (code q)" "mount_value (render_text vs q) = render_text vs (g q)" if "q \<in> set opts" for q
    using mount_split [OF ne [of "code q"], of "render_text vs (g q)"] g [OF that] by metis+
  define R where "R = map_of (map (\<lambda>q. (mount_key (code q), g q)) (rev opts))"
  have RE: "map_of (rev (map (\<lambda>p. (mount_key p, mount_value p)) (map code opts))) = (\<lambda>k. map_option code (R k))"
  proof
    fix k
    have "rev (map (\<lambda>p. (mount_key p, mount_value p)) (map code opts)) = map (\<lambda>q. (mount_key (code q), code (g q))) (rev opts)"
      using ke by (simp add: rev_map)
    then show "map_of (rev (map (\<lambda>p. (mount_key p, mount_value p)) (map code opts))) k = map_option code (R k)"
      unfolding R_def using map_of_values [of "\<lambda>q. mount_key (code q)" code g "rev opts" k] by simp
  qed
  have RV: "map_of (rev (map (\<lambda>p. (mount_key p, mount_value p)) (map (render_text vs) opts))) = (\<lambda>k. map_option (render_text vs) (R k))"
  proof
    fix k
    have "rev (map (\<lambda>p. (mount_key p, mount_value p)) (map (render_text vs) opts)) = map (\<lambda>q. (mount_key (code q), render_text vs (g q))) (rev opts)"
      using kv by (simp add: rev_map)
    then show "map_of (rev (map (\<lambda>p. (mount_key p, mount_value p)) (map (render_text vs) opts))) k = map_option (render_text vs) (R k)"
      unfolding R_def using map_of_values [of "\<lambda>q. mount_key (code q)" "render_text vs" g "rev opts" k] by simp
  qed
  have "(''type'' :: string) \<in> dom R" "(''src'' :: string) \<in> dom R" "(''dst'' :: string) \<in> dom R"
    using p(4) unfolding R_def dom_map_of_conv_image_fst by (auto simp: image_image)
  then obtain rt rs rd where r: "R ''type'' = Some rt" "R ''src'' = Some rs" "R ''dst'' = Some rd" by blast
  have inR: "set r \<subseteq> set ps" if R: "R k = Some r" for k r
  proof -
    obtain q where "q \<in> set opts" "r = g q" using map_of_SomeD [OF R [unfolded R_def]] by auto
    then show ?thesis using g sub oq by blast
  qed
  have bind: "render_text vs rt = ''bind''"
  proof -
    have "code rt = ''bind''" using p(3) unfolding RE using r(1) by simp
    then show ?thesis using code_plain [of rt vs] by simp
  qed
  have keys: "mount_key ` set (map (render_text vs) opts) = mount_key ` set (map code opts)" using kv by (auto simp: image_iff)
  have ro: "ro = (last (map (render_text vs) qs) = ''readonly'')"
  proof (cases ro)
    case True
    then have "code (last qs) = ''readonly''" using p(1) qs0 by (simp add: last_map)
    then show ?thesis using True code_plain [of "last qs" vs] qs0 by (simp add: last_map)
  next
    case False
    then have "last qs \<in> set opts" using qs0 by (simp add: opts_def)
    then have "CHR ''='' \<in> set (render_text vs (last qs))" using g by fastforce
    then have "render_text vs (last qs) \<noteq> ''readonly''" by auto
    then show ?thesis using False qs0 by (simp add: last_map)
  qed
  have "parse_mount (render_text vs ps) = Inr (render_text vs rs, render_text vs rd, ro)"
    unfolding parse_mount_Inr v Let_def vo RV keys p(4) using ro r bind g by fastforce
  moreover have "resolve env a = Inr (render_text vs rs)" "resolve env b = Inr (render_text vs rd)"
    unfolding p(5,6) RE using r inR [OF r(2)] inR [OF r(3)] assms(2) by (auto intro: resolve_defined)
  ultimately show ?thesis by blast
qed

section \<open>The options\<close>

fun option_pairs :: "string \<Rightarrow> string list \<Rightarrow> (string \<times> string) list" where
  "option_pairs img [] = []"
| "option_pairs img [f] = (if f = ''-d'' then [] else [(f, img)])"
| "option_pairs img (f # v # ts) = (if f = ''-d'' then option_pairs img (v # ts) else (f, v) # option_pairs img ts)"

fun put_options :: "(string \<times> string) list \<Rightarrow> service \<Rightarrow> service py" where
  "put_options [] s = Inr s"
| "put_options (p # ps) s = py_bind (put_option (fst p) (snd p) s) (put_options ps)"

definition values_of :: "string \<Rightarrow> (string \<times> string) list \<Rightarrow> string list" where
  "values_of f ps = map snd (filter (\<lambda>p. fst p = f) ps)"

lemma values_of_simps [simp]:
  "values_of f [] = []" "values_of f (p # ps) = (if fst p = f then snd p # values_of f ps else values_of f ps)"
  by (simp_all add: values_of_def)

definition encoded :: "string \<times> string \<Rightarrow> string \<times> string \<Rightarrow> bool" where
  "encoded p e \<longleftrightarrow> fst e = fst p \<and> fst p \<in> set VALUE_FLAGS \<and> compose_token (snd p) = Inr (snd e)"

lemma service_opts_pairs:
  "service_opts img opts s = Inr s' \<Longrightarrow> \<exists>es. list_all2 encoded (option_pairs img opts) es \<and> put_options es s = Inr s'"
proof (induction img opts s rule: service_opts.induct)
  case (1 img s)
  then show ?case by simp
next
  case (2 img flag s)
  show ?case
  proof (cases "flag = ''-d''")
    case False
    then obtain u where "compose_token img = Inr u" "put_option flag u s = Inr s'" "flag \<in> set VALUE_FLAGS" using 2 by auto
    then show ?thesis using False by (intro exI [of _ "[(flag, u)]"]) (simp add: encoded_def)
  qed (use 2 in simp)
next
  case (3 img flag v opts s)
  show ?case
  proof (cases "flag = ''-d''")
    case True
    then show ?thesis using 3(1) 3(3) by simp
  next
    case False
    then obtain u s1 where u: "compose_token v = Inr u" "put_option flag u s = Inr s1" "service_opts img opts s1 = Inr s'" "flag \<in> set VALUE_FLAGS"
      using 3(3) by auto
    obtain es where "list_all2 encoded (option_pairs img opts) es" "put_options es s1 = Inr s'" using 3(2) False u by blast
    moreover have "encoded (flag, v) (flag, u)" using u by (simp add: encoded_def)
    ultimately show ?thesis using False u by (intro exI [of _ "(flag, u) # es"]) simp
  qed
qed

section \<open>What the loop collects\<close>

definition single :: "string option \<Rightarrow> string list \<Rightarrow> string option" where
  "single v xs = (if xs = [] then v else Some (last xs))"

definition collected :: "service \<Rightarrow> (string \<times> string) list \<Rightarrow> service \<Rightarrow> bool" where
  "collected s es s' \<longleftrightarrow>
     sv_environment s' = sv_environment s @ values_of ''-e'' es
     \<and> sv_cap_add s' = sv_cap_add s @ values_of ''--cap-add'' es
     \<and> sv_security_opt s' = sv_security_opt s @ values_of ''--security-opt'' es
     \<and> sv_labels s' = sv_labels s @ values_of ''--label'' es
     \<and> sv_devices s' = sv_devices s @ map (\<lambda>v. v @ '':'' @ v) (values_of ''--device'' es)
     \<and> sv_name s' = single (sv_name s) (values_of ''--name'' es)
     \<and> sv_network s' = single (sv_network s) (values_of ''--network'' es)
     \<and> sv_ipc s' = single (sv_ipc s) (values_of ''--ipc'' es)
     \<and> sv_shm_size s' = single (sv_shm_size s) (values_of ''--shm-size'' es)
     \<and> (sv_gpus s' \<longleftrightarrow> sv_gpus s \<or> values_of ''--gpus'' es \<noteq> []) \<and> set (values_of ''--gpus'' es) \<subseteq> {''all''}
     \<and> sv_image s' = sv_image s
     \<and> (\<exists>ms. sv_volumes s' = sv_volumes s @ ms \<and> list_all2 (\<lambda>v m. parse_mount v = Inr m) (values_of ''--mount'' es) ms)"

lemma put_option_simps:
  "put_option ''-e'' v s = Inr (s\<lparr>sv_environment := sv_environment s @ [v]\<rparr>)"
  "put_option ''--mount'' v s = py_bind (parse_mount v) (\<lambda>m. Inr (s\<lparr>sv_volumes := sv_volumes s @ [m]\<rparr>))"
  "put_option ''--name'' v s = Inr (s\<lparr>sv_name := Some v\<rparr>)"
  "put_option ''--network'' v s = Inr (s\<lparr>sv_network := Some v\<rparr>)"
  "put_option ''--ipc'' v s = Inr (s\<lparr>sv_ipc := Some v\<rparr>)"
  "put_option ''--gpus'' v s = py_guard (v \<noteq> ''all'') ValueError (Inr (s\<lparr>sv_gpus := True\<rparr>))"
  "put_option ''--cap-add'' v s = Inr (s\<lparr>sv_cap_add := sv_cap_add s @ [v]\<rparr>)"
  "put_option ''--security-opt'' v s = Inr (s\<lparr>sv_security_opt := sv_security_opt s @ [v]\<rparr>)"
  "put_option ''--device'' v s = Inr (s\<lparr>sv_devices := sv_devices s @ [v @ '':'' @ v]\<rparr>)"
  "put_option ''--ulimit'' v s = py_bind (ulimit_of v) (\<lambda>(n, l). Inr (s\<lparr>sv_ulimits := dict_put n l (sv_ulimits s)\<rparr>))"
  "put_option ''--shm-size'' v s = Inr (s\<lparr>sv_shm_size := Some v\<rparr>)"
  "put_option ''--label'' v s = Inr (s\<lparr>sv_labels := sv_labels s @ [v]\<rparr>)"
  by (simp_all add: put_option_def)

lemma put_option_collected:
  assumes "put_option f v s = Inr s'" "f \<in> set VALUE_FLAGS"
  shows "collected s [(f, v)] s'"
proof -
  have "f = ''--name'' \<or> f = ''--network'' \<or> f = ''--ipc'' \<or> f = ''--gpus'' \<or> f = ''--cap-add'' \<or> f = ''--security-opt''
      \<or> f = ''--device'' \<or> f = ''--ulimit'' \<or> f = ''--shm-size'' \<or> f = ''--label'' \<or> f = ''--mount'' \<or> f = ''-e''"
    using assms(2) by (simp only: VALUE_FLAGS_def list.set insert_iff empty_iff simp_thms)
  then show ?thesis
  proof (elim disjE)
    assume f: "f = ''--mount''"
    then obtain m where m: "parse_mount v = Inr m" "s' = s\<lparr>sv_volumes := sv_volumes s @ [m]\<rparr>"
      using assms(1) by (auto simp: put_option_simps)
    then have "list_all2 (\<lambda>v m. parse_mount v = Inr m) (values_of ''--mount'' [(f, v)]) [m]" using f by simp
    then show ?thesis using f m(2) unfolding collected_def single_def by simp
  next
    assume f: "f = ''--ulimit''"
    then obtain n l where "s' = s\<lparr>sv_ulimits := dict_put n l (sv_ulimits s)\<rparr>"
      using assms(1) by (auto simp: put_option_simps split: prod.splits)
    then show ?thesis using f by (simp add: collected_def single_def)
  next
    assume f: "f = ''--gpus''"
    then have "s' = s\<lparr>sv_gpus := True\<rparr>" "v = ''all''" using assms(1) by (simp_all add: put_option_simps)
    then show ?thesis using f by (simp add: collected_def single_def)
  qed (use assms(1) [symmetric] in \<open>simp_all add: put_option_simps collected_def single_def\<close>)
qed

lemma values_of_append [simp]: "values_of f (ps @ qs) = values_of f ps @ values_of f qs"
  by (simp add: values_of_def)

lemma single_append [simp]: "single (single v xs) ys = single v (xs @ ys)"
  by (simp add: single_def)

lemma collected_trans:
  assumes "collected s es s1" "collected s1 fs s2"
  shows "collected s (es @ fs) s2"
proof -
  obtain ms where ms: "sv_volumes s1 = sv_volumes s @ ms" "list_all2 (\<lambda>v m. parse_mount v = Inr m) (values_of ''--mount'' es) ms"
    using assms(1) unfolding collected_def by blast
  obtain ns where ns: "sv_volumes s2 = sv_volumes s1 @ ns" "list_all2 (\<lambda>v m. parse_mount v = Inr m) (values_of ''--mount'' fs) ns"
    using assms(2) unfolding collected_def by blast
  have "\<exists>ms. sv_volumes s2 = sv_volumes s @ ms \<and> list_all2 (\<lambda>v m. parse_mount v = Inr m) (values_of ''--mount'' (es @ fs)) ms"
    using ms ns by (intro exI [of _ "ms @ ns"]) (simp add: list_all2_appendI)
  then show ?thesis using assms unfolding collected_def by simp
qed

lemma put_options_collected:
  "put_options es s = Inr s' \<Longrightarrow> fst ` set es \<subseteq> set VALUE_FLAGS \<Longrightarrow> collected s es s'"
proof (induction es arbitrary: s)
  case Nil
  then show ?case by (simp add: collected_def single_def)
next
  case (Cons p es)
  then obtain s1 where s1: "put_option (fst p) (snd p) s = Inr s1" "put_options es s1 = Inr s'" by auto
  have "collected s [(fst p, snd p)] s1" using s1(1) Cons.prems(2) by (intro put_option_collected) auto
  moreover have "collected s1 es s'" using Cons s1(2) by simp
  ultimately show ?case using collected_trans by fastforce
qed

section \<open>The service is the rendered argv\<close>

lemma encoded_flags: "list_all2 encoded ps es \<Longrightarrow> fst ` set es = fst ` set ps \<and> fst ` set ps \<subseteq> set VALUE_FLAGS"
  by (induction rule: list_all2_induct) (auto simp: encoded_def)

lemma encoded_values: "list_all2 encoded ps es \<Longrightarrow> list_all2 (\<lambda>t u. compose_token t = Inr u) (values_of f ps) (values_of f es)"
  by (induction rule: list_all2_induct) (auto simp: encoded_def)

definition rendered :: "environ \<Rightarrow> (string \<times> string) list \<Rightarrow> (string \<times> string) list" where
  "rendered vs ps = map (\<lambda>p. (fst p, substitute vs (snd p))) ps"

lemma values_of_rendered: "values_of f (rendered vs ps) = map (substitute vs) (values_of f ps)"
  by (induction ps) (auto simp: rendered_def)

lemma flag_plain: "f \<in> set VALUE_FLAGS \<union> {''-d'', ''docker'', ''run''} \<Longrightarrow> substitute vs f = f"
  by (intro substitute_plain) (auto simp: VALUE_FLAGS_def)

lemma option_pairs_rendered:
  "fst ` set (option_pairs img opts) \<subseteq> set VALUE_FLAGS \<Longrightarrow>
     option_pairs (substitute vs img) (map (substitute vs) opts) = rendered vs (option_pairs img opts)"
proof (induction img opts rule: option_pairs.induct)
  case (2 img f)
  then show ?case using flag_plain [of f vs] flag_plain [of "''-d''" vs] by (auto simp: rendered_def VALUE_FLAGS_def)
next
  case (3 img f v ts)
  show ?case
  proof (cases "f = ''-d''")
    case True
    then show ?thesis using 3 flag_plain [of "''-d''" vs] by simp
  next
    case False
    then have "substitute vs f = f" using 3(3) by (intro flag_plain) auto
    then show ?thesis using 3 False by (simp add: rendered_def)
  qed
qed (simp add: rendered_def)

lemma option_pairs_adjacent: "(f, v) \<in> set (option_pairs img opts) \<Longrightarrow> \<exists>xs ys. opts @ [img] = xs @ f # v # ys"
proof (induction img opts rule: option_pairs.induct)
  case (2 img g)
  then show ?case by (auto split: if_splits)
next
  case (3 img g w ts)
  show ?case
  proof (cases "g = ''-d''")
    case True
    then obtain xs ys where "(w # ts) @ [img] = xs @ f # v # ys" using 3 by auto
    then show ?thesis by (intro exI [of _ "g # xs"] exI [of _ ys]) simp
  next
    case False
    show ?thesis
    proof (cases "(f, v) = (g, w)")
      case True
      then show ?thesis by (intro exI [of _ "[]"] exI [of _ "ts @ [img]"]) simp
    next
      case ne: False
      then obtain xs ys where "ts @ [img] = xs @ f # v # ys" using 3 False by auto
      then show ?thesis by (intro exI [of _ "g # w # xs"] exI [of _ ys]) simp
    qed
  qed
qed simp

text \<open>What Compose starts, once it has replaced the names, against the options of a \<open>docker run\<close>.\<close>

definition same_option :: "environ \<Rightarrow> string option \<Rightarrow> string list \<Rightarrow> bool" where
  "same_option env v xs = (case v of None \<Rightarrow> xs = [] | Some u \<Rightarrow> xs \<noteq> [] \<and> resolve env u = Inr (last xs))"

definition resolve_mount :: "environ \<Rightarrow> string \<times> string \<times> bool \<Rightarrow> (string \<times> string \<times> bool) py" where
  "resolve_mount env m = py_bind (resolve env (fst m)) (\<lambda>a. py_bind (resolve env (fst (snd m))) (\<lambda>b. Inr (a, b, snd (snd m))))"

definition same_container :: "environ \<Rightarrow> service \<Rightarrow> (string \<times> string) list \<Rightarrow> bool" where
  "same_container env s ps \<longleftrightarrow>
     py_map (resolve env) (sv_environment s) = Inr (values_of ''-e'' ps)
     \<and> py_map (resolve_mount env) (sv_volumes s) = py_map parse_mount (values_of ''--mount'' ps) \<and> (\<exists>ms. py_map parse_mount (values_of ''--mount'' ps) = Inr ms)
     \<and> py_map (resolve env) (sv_cap_add s) = Inr (values_of ''--cap-add'' ps)
     \<and> py_map (resolve env) (sv_security_opt s) = Inr (values_of ''--security-opt'' ps)
     \<and> py_map (resolve env) (sv_labels s) = Inr (values_of ''--label'' ps)
     \<and> py_map (resolve env) (sv_devices s) = Inr (map (\<lambda>v. v @ '':'' @ v) (values_of ''--device'' ps))
     \<and> same_option env (sv_name s) (values_of ''--name'' ps) \<and> same_option env (sv_network s) (values_of ''--network'' ps)
     \<and> same_option env (sv_ipc s) (values_of ''--ipc'' ps) \<and> same_option env (sv_shm_size s) (values_of ''--shm-size'' ps)
     \<and> (sv_gpus s \<longleftrightarrow> values_of ''--gpus'' ps \<noteq> []) \<and> set (values_of ''--gpus'' ps) \<subseteq> {''all''}"

lemma resolved_values:
  assumes "list_all2 encoded ps es" "\<forall>t \<in> snd ` set ps. \<forall>x \<in> set (placeholders t). defined env vs x"
  shows "py_map (resolve env) (values_of f es) = Inr (values_of f (rendered vs ps))"
proof -
  have "list_all2 (\<lambda>t u. compose_token t = Inr u) (values_of f ps) (values_of f es)" by (rule encoded_values [OF assms(1)])
  moreover have "\<forall>t \<in> set (values_of f ps). \<forall>x \<in> set (placeholders t). defined env vs x"
    using assms(2) by (auto simp: values_of_def)
  ultimately have "list_all2 (\<lambda>u w. resolve env u = Inr w) (values_of f es) (map (substitute vs) (values_of f ps))"
    by (induction rule: list_all2_induct) (auto intro: resolve_token)
  then show ?thesis by (simp add: py_map_Inr values_of_rendered)
qed

lemma resolved_devices:
  assumes "list_all2 encoded ps es" "\<forall>t \<in> snd ` set ps. \<forall>x \<in> set (placeholders t). defined env vs x"
  shows "py_map (resolve env) (map (\<lambda>v. v @ '':'' @ v) (values_of f es)) = Inr (map (\<lambda>v. v @ '':'' @ v) (values_of f (rendered vs ps)))"
proof -
  have r: "resolve env (u @ '':'' @ u) = Inr (substitute vs t @ '':'' @ substitute vs t)"
    if "compose_token t = Inr u" "\<forall>x \<in> set (placeholders t). defined env vs x" for t u
  proof -
    have "u @ '':'' @ u = code (placeholders t @ [Lit (CHR '':'')] @ placeholders t)" using compose_token_Inr [OF that(1)] by simp
    moreover have "\<forall>x \<in> set (placeholders t @ [Lit (CHR '':'')] @ placeholders t). defined env vs x" using that(2) by (auto simp: defined_def)
    ultimately show ?thesis
      using resolve_defined [of "placeholders t @ [Lit (CHR '':'')] @ placeholders t" env vs] by (simp add: substitute_def render_text_def)
  qed
  have "list_all2 (\<lambda>t u. compose_token t = Inr u) (values_of f ps) (values_of f es)" by (rule encoded_values [OF assms(1)])
  moreover have "\<forall>t \<in> set (values_of f ps). \<forall>x \<in> set (placeholders t). defined env vs x"
    using assms(2) by (auto simp: values_of_def)
  ultimately have "list_all2 (\<lambda>u w. resolve env (u @ '':'' @ u) = Inr w) (values_of f es)
      (map (\<lambda>v. v @ '':'' @ v) (map (substitute vs) (values_of f ps)))"
  proof (induction rule: list_all2_induct)
    case (Cons t ts u us)
    then show ?case using r [of t u] by simp
  qed simp
  then have "list_all2 (\<lambda>u w. resolve env u = Inr w) (map (\<lambda>v. v @ '':'' @ v) (values_of f es))
      (map (\<lambda>v. v @ '':'' @ v) (map (substitute vs) (values_of f ps)))"
    by (simp add: list_all2_map1)
  then show ?thesis by (simp add: py_map_Inr values_of_rendered)
qed

lemma resolved_mounts:
  assumes "list_all2 encoded ps es" "\<forall>t \<in> snd ` set ps. \<forall>x \<in> set (placeholders t). defined env vs x"
    and "\<forall>t \<in> set (values_of ''--mount'' ps). \<not> list_ex (bad_key vs True) (placeholders t)"
    and "list_all2 (\<lambda>v m. parse_mount v = Inr m) (values_of ''--mount'' es) ms"
  shows "\<exists>ns. py_map (resolve_mount env) ms = Inr ns \<and> py_map parse_mount (values_of ''--mount'' (rendered vs ps)) = Inr ns"
proof -
  have "list_all2 (\<lambda>t u. compose_token t = Inr u) (values_of ''--mount'' ps) (values_of ''--mount'' es)" by (rule encoded_values [OF assms(1)])
  moreover have "\<forall>t \<in> set (values_of ''--mount'' ps). \<forall>x \<in> set (placeholders t). defined env vs x"
    using assms(2) by (auto simp: values_of_def)
  ultimately have "\<exists>ns. py_map (resolve_mount env) ms = Inr ns \<and> py_map parse_mount (map (substitute vs) (values_of ''--mount'' ps)) = Inr ns"
    using assms(3,4)
  proof (induction arbitrary: ms rule: list_all2_induct)
    case (Cons t ts u us)
    then obtain m ms' where ms: "ms = m # ms'" "parse_mount u = Inr m" "list_all2 (\<lambda>v m. parse_mount v = Inr m) us ms'"
      by (auto simp: list_all2_Cons1)
    obtain ns where ns: "py_map (resolve_mount env) ms' = Inr ns" "py_map parse_mount (map (substitute vs) ts) = Inr ns"
      using Cons.IH [OF _ _ ms(3)] Cons.prems(1,2) by auto
    obtain a b ro where m: "m = (a, b, ro)" by (cases m)
    have "parse_mount (code (placeholders t)) = Inr (a, b, ro)" using ms(2) m compose_token_Inr [OF Cons.hyps(1)] by simp
    then obtain a' b' where "parse_mount (substitute vs t) = Inr (a', b', ro)" "resolve env a = Inr a'" "resolve env b = Inr b'"
      using parse_mount_code [of "placeholders t" a b ro env vs] Cons.prems(1,2) by (auto simp: substitute_def render_text_def)
    then have "resolve_mount env m = Inr (a', b', ro)" by (simp add: m resolve_mount_def)
    then show ?case using ns ms(1) \<open>parse_mount (substitute vs t) = Inr (a', b', ro)\<close> by simp
  qed simp
  then show ?thesis by (simp add: values_of_rendered)
qed

lemma resolved_single:
  assumes "py_map (resolve env) us = Inr xs"
  shows "same_option env (single None us) xs"
proof -
  have l: "list_all2 (\<lambda>u w. resolve env u = Inr w) us xs" using assms by (simp add: py_map_Inr)
  show ?thesis
  proof (cases "us = []")
    case False
    then have "xs \<noteq> []" using list_all2_lengthD [OF l] by auto
    moreover have "resolve env (last us) = Inr (last xs)"
      using list_all2_nthD [OF l, of "length us - 1"] False calculation list_all2_lengthD [OF l] by (simp add: last_conv_nth)
    ultimately show ?thesis using False by (simp add: same_option_def single_def)
  qed (use l in \<open>simp add: same_option_def single_def\<close>)
qed

lemma all_plain: "CHR ''$'' \<notin> set ''all''" by simp

lemma same_container_pairs:
  assumes "collected s0 es s" "sv_environment s0 = []" "sv_volumes s0 = []" "sv_cap_add s0 = []" "sv_security_opt s0 = []"
    "sv_labels s0 = []" "sv_devices s0 = []" "sv_name s0 = None" "sv_network s0 = None" "sv_ipc s0 = None" "sv_shm_size s0 = None" "\<not> sv_gpus s0"
    and "list_all2 encoded ps es" "\<forall>t \<in> snd ` set ps. \<forall>x \<in> set (placeholders t). defined env vs x"
    and "\<forall>t \<in> set (values_of ''--mount'' ps). \<not> list_ex (bad_key vs True) (placeholders t)"
  shows "same_container env s (rendered vs ps)"
proof -
  note r = resolved_values [OF assms(13,14)]
  have f: "sv_environment s = values_of ''-e'' es" "sv_cap_add s = values_of ''--cap-add'' es"
    "sv_security_opt s = values_of ''--security-opt'' es" "sv_labels s = values_of ''--label'' es"
    "sv_devices s = map (\<lambda>v. v @ '':'' @ v) (values_of ''--device'' es)"
    "sv_name s = single None (values_of ''--name'' es)" "sv_network s = single None (values_of ''--network'' es)"
    "sv_ipc s = single None (values_of ''--ipc'' es)" "sv_shm_size s = single None (values_of ''--shm-size'' es)"
    "sv_gpus s \<longleftrightarrow> values_of ''--gpus'' es \<noteq> []" "set (values_of ''--gpus'' es) \<subseteq> {''all''}"
    using assms(1-12) unfolding collected_def by simp_all
  obtain ms where ms: "sv_volumes s = ms" "list_all2 (\<lambda>v m. parse_mount v = Inr m) (values_of ''--mount'' es) ms"
    using assms(1,3) unfolding collected_def by auto
  have g: "values_of ''--gpus'' (rendered vs ps) = values_of ''--gpus'' es"
  proof -
    have "list_all2 (\<lambda>t u. compose_token t = Inr u) (values_of ''--gpus'' ps) (values_of ''--gpus'' es)" by (rule encoded_values [OF assms(13)])
    then have "map (substitute vs) (values_of ''--gpus'' ps) = values_of ''--gpus'' es" using f(11)
    proof (induction rule: list_all2_induct)
      case (Cons t ts u us)
      have "u = code (placeholders t)" "u = ''all''" using compose_token_Inr [OF Cons.hyps(1)] Cons.prems by simp_all
      then have "CHR ''$'' \<notin> set (code (placeholders t))" by (metis all_plain)
      then have "substitute vs t = code (placeholders t)" using code_plain [of "placeholders t" vs] unfolding substitute_def render_text_def by blast
      then have "substitute vs t = u" using \<open>u = code (placeholders t)\<close> by simp
      then show ?case using Cons by simp
    qed simp
    then show ?thesis by (simp add: values_of_rendered)
  qed
  obtain ns where ns: "py_map (resolve_mount env) ms = Inr ns" "py_map parse_mount (values_of ''--mount'' (rendered vs ps)) = Inr ns"
    using resolved_mounts [OF assms(13-15) ms(2)] by blast
  show ?thesis
    unfolding same_container_def f(1-10) ms(1) g ns
    by (intro conjI r resolved_devices [OF assms(13,14)] resolved_single [OF r] f(11) refl exI [of _ ns])
qed

section \<open>A whole project\<close>

lemma with_options_without_image: "with_options p (without_image site) = with_options p site"
  by (simp add: with_options_def site_get_def env_get_def without_image_def WEIGHTLESS_SITE_def)

lemma build_image_without_image: "build_image (without_image site) p = build_image site p"
  by (simp add: build_image_def site_get_def env_get_def without_image_def)

lemma rank_values_RANK: "rank_values site rank n = Inr vs \<Longrightarrow> site_get vs ''RANK'' = dec rank"
  by (auto simp: rank_values_def site_get_def env_get_def Let_def)

lemma with_options_image: "with_options p site = Inr q \<Longrightarrow> image_id q = image_id p \<and> topology q = topology p"
  by (auto simp: with_options_def Let_def split: if_splits)

lemma baked_tokens_keep:
  "baked_tokens old img ts = Inr out \<Longrightarrow> t \<in> set ts \<Longrightarrow> t \<noteq> old \<Longrightarrow> t \<noteq> ''--mount'' \<Longrightarrow> \<not> prefix ''type='' t \<Longrightarrow> t \<in> set out"
proof (induction old img ts arbitrary: out rule: baked_tokens.induct)
  case (3 old img t0 m ts)
  show ?case
  proof (cases "t0 = ''--mount'' \<and> prefix ''type=bind,src=${OVERLAY_ROOT}/'' m")
    case True
    then have "prefix ''type='' m" by (auto simp: prefix_def)
    then have "t \<in> set ts" using True 3(4,6,7) by auto
    then show ?thesis using 3(1) [OF True] 3(3,5-7) True by simp
  next
    case False
    then obtain r where r: "baked_tokens old img (m # ts) = Inr r" "out = (if t0 = old then img else t0) # r" using 3(3) by auto
    then show ?thesis using 3(2) [OF False r(1)] 3(4-7) by auto
  qed
qed (auto split: if_splits)

text \<open>The second pass over the options changes nothing: the variables of the first are there.\<close>

lemma with_options_idem:
  assumes "with_options p site = Inr q" "baked_profile q img = Inr b" "\<not> prefix ''WEIGHTLESS_'' (image_id p)"
  shows "with_options b site = Inr b"
proof (cases "site_get site WEIGHTLESS_SITE = []")
  case False
  have t: "topology p = ''tp4''" using assms(1) False by (auto simp: with_options_def)
  have w: "\<exists>t \<in> set (argv_template q). prefix ''WEIGHTLESS_'' t"
  proof (cases "list_ex (prefix ''WEIGHTLESS_'') (argv_template p)")
    case True
    then have "q = p" using assms(1) False by (auto simp: with_options_def Let_def)
    then show ?thesis using True by (simp add: list_ex_iff)
  next
    case nw: False
    then have "\<exists>x y. argv_template q = x @ weightless_extra @ y"
      using assms(1) False by (clarsimp simp: with_options_def Let_def) blast
    moreover have "''WEIGHTLESS_STEER_ALPHA=2.0'' \<in> set weightless_extra" by (simp add: weightless_extra_def WEIGHTLESS_ENV_def)
    ultimately have "''WEIGHTLESS_STEER_ALPHA=2.0'' \<in> set (argv_template q)" by auto
    then show ?thesis by (intro bexI) (simp_all add: prefix_def)
  qed
  then obtain t where t0: "t \<in> set (argv_template q)" "prefix ''WEIGHTLESS_'' t" by blast
  obtain out where b: "baked_tokens (image_id q) img (argv_template q) = Inr out" "b = q\<lparr>argv_template := out, image_id := img\<rparr>"
    using assms(2) by (auto simp: baked_profile_def)
  have "t \<noteq> image_id q" using t0(2) assms(3) with_options_image [OF assms(1)] by auto
  moreover have "t \<noteq> ''--mount''" "\<not> prefix ''type='' t" using t0(2) by (auto simp: prefix_def)
  ultimately have "t \<in> set out" using baked_tokens_keep [OF b(1) t0(1)] by blast
  then have "list_ex (prefix ''WEIGHTLESS_'') (argv_template b)" using t0(2) b(2) by (auto simp: list_ex_iff)
  moreover have "topology b = ''tp4''" using t with_options_image [OF assms(1)] b(2) by simp
  ultimately show ?thesis using False by (simp add: with_options_def Let_def)
qed (simp add: with_options_def)

lemma env_values_keys:
  assumes "env_values p site rank img = Inr env" "rank_values site rank (ranks p) = Inr vs"
    and "''SWITCHLESS_RANK'' \<notin> set (site_variables p)" "''SWITCHLESS_BUILD_IMAGE'' \<notin> set (site_variables p)"
  shows "k \<in> set (site_variables p) \<Longrightarrow> map_of env k = Some (site_get vs k)"
    and "map_of env ''SWITCHLESS_RANK'' = Some (dec rank)" "map_of env ''SWITCHLESS_BUILD_IMAGE'' = Some img"
    and "distinct (map fst env)" "fst ` set env = set (site_variables p) \<union> {''SWITCHLESS_RANK'', ''SWITCHLESS_BUILD_IMAGE''}"
proof -
  let ?d0 = "[(''SWITCHLESS_BUILD_IMAGE'', img), (''SWITCHLESS_RANK'', dec rank)]"
  have e: "env = fold (\<lambda>k. dict_put k (site_get vs k)) (sort (remdups (site_variables p))) ?d0"
    using assms(1,2) by (simp add: env_values_def)
  have f: "map_of (fold (\<lambda>k. dict_put k (site_get vs k)) ks d) = (\<lambda>k. if k \<in> set ks then Some (site_get vs k) else map_of d k)" for ks d
    by (induction ks arbitrary: d) (auto simp: fun_eq_iff)
  have g: "distinct (map fst d) \<Longrightarrow> distinct (map fst (fold (\<lambda>k. dict_put k (site_get vs k)) ks d))
      \<and> fst ` set (fold (\<lambda>k. dict_put k (site_get vs k)) ks d) = set ks \<union> fst ` set d" for ks and d :: "(string \<times> string) list"
  proof (induction ks arbitrary: d)
    case (Cons k ks)
    have "distinct (map fst (dict_put k (site_get vs k) d))" by (rule distinct_dict_put [OF Cons.prems])
    moreover have "fst ` set (dict_put k (site_get vs k) d) = insert k (fst ` set d)"
      unfolding set_map [symmetric] keys_dict_put by auto
    ultimately show ?case using Cons.IH by simp
  qed simp
  show "k \<in> set (site_variables p) \<Longrightarrow> map_of env k = Some (site_get vs k)" unfolding e f by simp
  show "map_of env ''SWITCHLESS_RANK'' = Some (dec rank)" unfolding e f using assms(3) by simp
  show "map_of env ''SWITCHLESS_BUILD_IMAGE'' = Some img" unfolding e f using assms(4) by simp
  have d0: "distinct (map fst ?d0)" by simp
  show "distinct (map fst env)" unfolding e using g [OF d0] by blast
  show "fst ` set env = set (site_variables p) \<union> {''SWITCHLESS_RANK'', ''SWITCHLESS_BUILD_IMAGE''}"
    unfolding e using g [OF d0, of "sort (remdups (site_variables p))"] by auto
qed

lemma site_get_without: "k \<noteq> ''SWITCHLESS_IMAGE'' \<Longrightarrow> site_get (without_image site) k = site_get site k"
  by (simp add: site_get_def env_get_def without_image_def)

lemma rank_key_not_image: "rank_key rank e \<noteq> ''SWITCHLESS_IMAGE''"
  by (simp add: rank_key_def)

lemma without_image_upd: "k \<noteq> ''SWITCHLESS_IMAGE'' \<Longrightarrow> (without_image m)(k \<mapsto> v) = without_image (m(k \<mapsto> v))"
  by (auto simp: without_image_def fun_eq_iff)

lemma host_ip_without: "host_ip (without_image site) rank n = py_bind (host_ip site rank n) (\<lambda>v. Inr (without_image v))"
proof -
  have k: "site_get (without_image site) ''SWITCHLESS_RANK_HOST_IPS'' = site_get site ''SWITCHLESS_RANK_HOST_IPS''"
    "site_get (without_image site) (rank_key rank ''_HOST_IP'') = site_get site (rank_key rank ''_HOST_IP'')"
    by (simp_all add: site_get_without rank_key_not_image)
  have u: "(without_image m)(''SWITCHLESS_RANK_HOST_IP'' \<mapsto> v) = without_image (m(''SWITCHLESS_RANK_HOST_IP'' \<mapsto> v))" for m v
    by (rule without_image_upd) simp
  show ?thesis unfolding host_ip_def Let_def k u by (simp add: py_guard_def)
qed

lemma rank_dir_without:
  assumes "''SWITCHLESS'' @ stem @ ''_ROOT'' \<noteq> ''SWITCHLESS_IMAGE''" "''SWITCHLESS'' @ stem @ ''_DIR'' \<noteq> ''SWITCHLESS_IMAGE''"
  shows "rank_dir (without_image site) rank stem (without_image m) = without_image (rank_dir site rank stem m)"
proof -
  have k: "site_get (without_image site) (rank_key rank (stem @ ''_DIR'')) = site_get site (rank_key rank (stem @ ''_DIR''))"
    "site_get (without_image site) (''SWITCHLESS'' @ stem @ ''_ROOT'') = site_get site (''SWITCHLESS'' @ stem @ ''_ROOT'')"
    by (simp_all add: site_get_without rank_key_not_image assms(1))
  show ?thesis unfolding rank_dir_def Let_def k without_image_upd [OF assms(2)] by simp
qed

lemma rank_values_without:
  assumes "rank_values (without_image site) rank n = Inr vs'" "rank_values site rank n = Inr vs" "k \<noteq> ''SWITCHLESS_IMAGE''"
  shows "site_get vs' k = site_get vs k"
proof -
  have u: "(without_image m)(a \<mapsto> x, ''RANK'' \<mapsto> y, ''OVERLAY_ROOT'' \<mapsto> z) = without_image (m(a \<mapsto> x, ''RANK'' \<mapsto> y, ''OVERLAY_ROOT'' \<mapsto> z))"
    if "a \<noteq> ''SWITCHLESS_IMAGE''" for m a x y z
    using that by (auto simp: without_image_def fun_eq_iff)
  have g: "site_get (without_image site) (rank_key rank ''_CONTAINER_NAME'') = site_get site (rank_key rank ''_CONTAINER_NAME'')"
    "env_get (without_image site) ''SWITCHLESS_CONTAINER_PREFIX'' ''switchless'' = env_get site ''SWITCHLESS_CONTAINER_PREFIX'' ''switchless''"
    "site_get (without_image site) ''SWITCHLESS_OVERLAY_ROOT'' = site_get site ''SWITCHLESS_OVERLAY_ROOT''"
    by (simp_all add: site_get_without rank_key_not_image) (simp add: env_get_def without_image_def)
  have "rank_values (without_image site) rank n = py_bind (rank_values site rank n) (\<lambda>v. Inr (without_image v))"
    unfolding rank_values_def host_ip_without Let_def g
    by (cases "host_ip site rank n") (simp_all add: rank_dir_without u)
  then have "vs' = without_image vs" using assms(1,2) by simp
  then show ?thesis using site_get_without [OF assms(3)] by simp
qed

lemma site_key_names: "site_key k \<Longrightarrow> k \<noteq> [] \<and> list_all name_char k"
  by (simp add: site_key_def list_all_iff name_char_def)

lemma list_at_split:
  assumes "x \<in> set xs"
  shows "xs = takeWhile (\<lambda>t. t \<noteq> x) xs @ x # drop (length (takeWhile (\<lambda>t. t \<noteq> x) xs) + 1) xs"
proof -
  have d: "dropWhile (\<lambda>t. t \<noteq> x) xs = x # drop (length (takeWhile (\<lambda>t. t \<noteq> x) xs) + 1) xs"
    using assms by (induction xs) auto
  show ?thesis using takeWhile_dropWhile_id [of "\<lambda>t. t \<noteq> x" xs] unfolding d by simp
qed

lemma service_of_Inr:
  assumes "service_of q rank img context = Inr s" "baked_profile q img = Inr b" "img \<notin> {''docker'', ''run''}"
  shows "\<exists>opts cmd s1. expand_roles b (rank = 0) (argv_template b) = [''docker'', ''run''] @ opts @ img # cmd
    \<and> service_opts img opts (service_new q context) = Inr s1
    \<and> py_map compose_token cmd = Inr (sv_command s) \<and> s = s1\<lparr>sv_command := sv_command s\<rparr>"
proof -
  define T where "T = expand_roles b (rank = 0) (argv_template b)"
  define n where "n = length (takeWhile (\<lambda>t. t \<noteq> img) T)"
  obtain s1 cmd' where s: "take 2 T = [''docker'', ''run'']" "count_list T img = 1"
    "service_opts img (take (n - 2) (drop 2 T)) (service_new q context) = Inr s1"
    "py_map compose_token (drop (n + 1) T) = Inr cmd'" "s = s1\<lparr>sv_command := cmd'\<rparr>"
    using assms(1,2) by (auto simp: service_of_def Let_def T_def n_def)
  have t: "T = [''docker'', ''run''] @ drop 2 T" using append_take_drop_id [of 2 T] s(1) by simp
  have "img \<in> set T" using s(2) by (metis count_list_0_iff zero_neq_one)
  then have m: "img \<in> set (drop 2 T)" using t assms(3) by (metis Un_iff empty_iff insert_iff list.set set_append)
  have w: "takeWhile (\<lambda>t. t \<noteq> img) T = [''docker'', ''run''] @ takeWhile (\<lambda>t. t \<noteq> img) (drop 2 T)"
  proof -
    have "takeWhile (\<lambda>t. t \<noteq> img) ([''docker'', ''run''] @ r) = [''docker'', ''run''] @ takeWhile (\<lambda>t. t \<noteq> img) r" for r
      using assms(3) by auto
    from this [of "drop 2 T"] show ?thesis unfolding t [symmetric] .
  qed
  have n: "n - 2 = length (takeWhile (\<lambda>t. t \<noteq> img) (drop 2 T))" "n + 1 = length (takeWhile (\<lambda>t. t \<noteq> img) (drop 2 T)) + 1 + 2"
    unfolding n_def w by simp_all
  have o: "take (n - 2) (drop 2 T) = takeWhile (\<lambda>t. t \<noteq> img) (drop 2 T)" unfolding n(1) by (metis takeWhile_eq_take)
  have c: "drop (n + 1) T = drop (length (takeWhile (\<lambda>t. t \<noteq> img) (drop 2 T)) + 1) (drop 2 T)" unfolding n(2) drop_drop by simp
  have "drop 2 T = take (n - 2) (drop 2 T) @ img # drop (n + 1) T" unfolding o c by (rule list_at_split [OF m])
  then have "T = [''docker'', ''run''] @ take (n - 2) (drop 2 T) @ img # drop (n + 1) T" using t by metis
  then show ?thesis using s(3-5) unfolding T_def [symmetric]
    by (intro exI [of _ "take (n - 2) (drop 2 T)"] exI [of _ "drop (n + 1) T"] exI [of _ s1]) simp
qed

definition names_known :: "profile \<Rightarrow> string list \<Rightarrow> bool" where
  "names_known q tokens \<longleftrightarrow>
     (\<forall>k \<in> set (site_variables q). site_key k \<and> k \<notin> {''SWITCHLESS_RANK'', ''SWITCHLESS_BUILD_IMAGE'', ''SWITCHLESS_IMAGE''})
     \<and> list_all (\<lambda>t. list_all (\<lambda>x. case x of Lit c \<Rightarrow> True | Key k \<Rightarrow> k = ''RANK'' \<or> k \<in> set (site_variables q)) (placeholders t)) tokens"

lemma known_defined:
  assumes "names_known q tokens" "t \<in> set tokens" "x \<in> set (placeholders t)"
    and "env_values q site rank img = Inr env" "rank_values site rank (ranks q) = Inr vs" "rank_values (without_image site) rank (ranks q) = Inr vs'"
  shows "defined (map_of env) vs' x"
proof (cases x)
  case (Key k)
  have n: "''SWITCHLESS_RANK'' \<notin> set (site_variables q)" "''SWITCHLESS_BUILD_IMAGE'' \<notin> set (site_variables q)"
    "''SWITCHLESS_IMAGE'' \<notin> set (site_variables q)" and sk: "\<And>k. k \<in> set (site_variables q) \<Longrightarrow> site_key k"
    using assms(1) by (auto simp: names_known_def)
  note e = env_values_keys [OF assms(4,5) n(1,2)]
  have k: "k = ''RANK'' \<or> k \<in> set (site_variables q)" using assms(1-3) Key by (fastforce simp: names_known_def list_all_iff)
  show ?thesis
  proof (cases "k = ''RANK''")
    case True
    have "list_all name_char ''SWITCHLESS_RANK''" by (simp add: name_char_def)
    then show ?thesis using True Key e(2) rank_values_RANK [OF assms(6)] by (simp add: defined_def compose_key_def)
  next
    case False
    then have v: "k \<in> set (site_variables q)" using k by blast
    then have "k \<noteq> ''SWITCHLESS_IMAGE''" using n(3) by auto
    then have "site_get vs' k = site_get vs k" by (rule rank_values_without [OF assms(6,5)])
    then show ?thesis using False Key e(1) [OF v] site_key_names [OF sk [OF v]] by (simp add: defined_def compose_key_def)
  qed
qed (simp add: defined_def)

text \<open>
  C32. The Compose service of a rank, once Compose has replaced the names from the rank's
  .env, starts what the rendered docker run starts: the same environment, mounts, devices,
  capabilities, security options, labels, name, network, IPC, shared memory, GPUs, image and
  command, in order (ulimits are not compared).
\<close>

theorem compose_runs_the_same_container:
  assumes "project p site rank context = Inr (name, s, env)" "with_options p site = Inr q" "baked_profile q (build_image site p) = Inr b"
    and "names_known q (expand_roles b (rank = 0) (argv_template b))" "\<not> prefix ''WEIGHTLESS_'' (image_id p)"
    and "CHR ''$'' \<notin> set (build_image site p)" "build_image site p \<notin> {''docker'', ''run''}"
  shows "\<exists>opts cmd. baked_argv p site (int rank) None = Inr ([''docker'', ''run''] @ opts @ build_image site p # cmd)
    \<and> same_container (map_of env) s (option_pairs (build_image site p) opts)
    \<and> py_map (resolve (map_of env)) (sv_command s) = Inr cmd \<and> resolve (map_of env) (sv_image s) = Inr (build_image site p)"
proof -
  define img where "img = build_image site p"
  define T where "T = expand_roles b (rank = 0) (argv_template b)"
  obtain out where out: "render b (without_image site) (int rank) = Inr out" "service_of q (int rank) img context = Inr s"
    "env_values q site rank img = Inr env"
    using assms(1-3) unfolding project_def Let_def img_def [symmetric] by auto
  have i: "with_options b (without_image site) = Inr b"
    unfolding with_options_without_image by (rule with_options_idem [OF assms(2,3,5)])
  have ns: "site_get (without_image site) ''SWITCHLESS_IMAGE'' = []" by (simp add: site_get_def env_get_def without_image_def)
  have rb: "ranks b = ranks q" using assms(3) by (auto simp: baked_profile_def)
  obtain vs' where vs': "rank_values (without_image site) rank (ranks q) = Inr vs'" "render_tokens vs' T = Inr out"
    using render_Inr [OF out(1)] i ns rb by (auto simp: T_def)
  obtain vs where vs: "rank_values site rank (ranks q) = Inr vs" using out(3) by (auto simp: env_values_def)
  note rt = render_tokens_Inr [OF vs'(2)]
  have d: "defined (map_of env) vs' x" if "t \<in> set T" "x \<in> set (placeholders t)" for t x
    using known_defined [OF assms(4)] that out(3) vs vs'(1) unfolding T_def by blast
  obtain opts cmd s1 where o: "T = [''docker'', ''run''] @ opts @ img # cmd" "service_opts img opts (service_new q context) = Inr s1"
    "py_map compose_token cmd = Inr (sv_command s)" "s = s1\<lparr>sv_command := sv_command s\<rparr>"
    using service_of_Inr [OF out(2)] assms(3,7) unfolding img_def [symmetric] by (auto simp: T_def)
  have im: "substitute vs' img = img" using assms(6) by (simp add: img_def substitute_plain)
  have dr: "substitute vs' ''docker'' = ''docker''" "substitute vs' ''run'' = ''run''" by (simp_all add: flag_plain)
  have ou: "out = [''docker'', ''run''] @ map (substitute vs') opts @ img # map (substitute vs') cmd"
    unfolding rt(1) o(1) by (simp add: im dr)
  have ba: "baked_argv p site (int rank) None = Inr out"
    unfolding baked_argv_def Let_def option.case build_image_without_image with_options_without_image
    using assms(2,3) out(1) by (simp add: img_def)
  obtain es where es: "list_all2 encoded (option_pairs img opts) es" "put_options es (service_new q context) = Inr s1"
    using service_opts_pairs [OF o(2)] by blast
  have fl: "fst ` set (option_pairs img opts) \<subseteq> set VALUE_FLAGS" "fst ` set es \<subseteq> set VALUE_FLAGS"
    using encoded_flags [OF es(1)] by blast+
  have adj: "\<exists>xs ys. T = xs @ f # t # ys" if p: "(f, t) \<in> set (option_pairs img opts)" for f t
  proof -
    obtain xs ys where "opts @ [img] = xs @ f # t # ys" using option_pairs_adjacent [OF p] by blast
    then have "T = ([''docker'', ''run''] @ xs) @ f # t # (ys @ cmd)" unfolding o(1) by simp
    then show ?thesis by blast
  qed
  have dd: "\<forall>t \<in> snd ` set (option_pairs img opts). \<forall>x \<in> set (placeholders t). defined (map_of env) vs' x"
  proof (intro ballI)
    fix t x assume "t \<in> snd ` set (option_pairs img opts)" "x \<in> set (placeholders t)"
    moreover then obtain f where "(f, t) \<in> set (option_pairs img opts)" by auto
    then have "t \<in> set T" using adj by fastforce
    ultimately show "defined (map_of env) vs' x" using d by blast
  qed
  have mm: "\<forall>t \<in> set (values_of ''--mount'' (option_pairs img opts)). \<not> list_ex (bad_key vs' True) (placeholders t)"
  proof
    fix t assume "t \<in> set (values_of ''--mount'' (option_pairs img opts))"
    then have "(''--mount'', t) \<in> set (option_pairs img opts)" by (auto simp: values_of_def)
    then obtain xs ys where x: "T = xs @ ''--mount'' # t # ys" using adj by blast
    have "T ! Suc (length xs) = t" "in_mount_at T (Suc (length xs))" "Suc (length xs) < length T"
      unfolding x in_mount_at_def by (simp_all add: nth_append)
    then show "\<not> list_ex (bad_key vs' True) (placeholders t)" using rt(3) [of "Suc (length xs)"] by simp
  qed
  have "collected (service_new q context) es s1" by (rule put_options_collected [OF es(2) fl(2)])
  then have sc1: "same_container (map_of env) s1 (rendered vs' (option_pairs img opts))"
    by (rule same_container_pairs) (simp_all add: service_new_def es(1) dd mm)
  have si1: "sv_image s1 = ''${SWITCHLESS_BUILD_IMAGE}''"
    using put_options_collected [OF es(2) fl(2)] by (simp add: collected_def service_new_def)
  have f: "sv_environment s = sv_environment s1" "sv_volumes s = sv_volumes s1" "sv_cap_add s = sv_cap_add s1" "sv_image s = sv_image s1"
    "sv_security_opt s = sv_security_opt s1" "sv_labels s = sv_labels s1" "sv_devices s = sv_devices s1" "sv_name s = sv_name s1"
    "sv_network s = sv_network s1" "sv_ipc s = sv_ipc s1" "sv_shm_size s = sv_shm_size s1" "sv_gpus s = sv_gpus s1"
    by (subst o(4), simp)+
  have sc: "same_container (map_of env) s (option_pairs img (map (substitute vs') opts))"
    using sc1 option_pairs_rendered [OF fl(1), of vs'] unfolding im same_container_def f by simp
  have cm: "py_map (resolve (map_of env)) (sv_command s) = Inr (map (substitute vs') cmd)"
  proof -
    have dc: "\<forall>x \<in> set (placeholders (cmd ! i)). defined (map_of env) vs' x" if "i < length cmd" for i
      using d [of "cmd ! i"] nth_mem [OF that] unfolding o(1) by auto
    have "list_all2 (\<lambda>t u. compose_token t = Inr u) cmd (sv_command s)" using o(3) by (simp add: py_map_Inr)
    then have "list_all2 (\<lambda>u w. resolve (map_of env) u = Inr w) (sv_command s) (map (substitute vs') cmd)"
      using dc resolve_token by (simp add: list_all2_conv_all_nth)
    then show ?thesis by (simp add: py_map_Inr)
  qed
  have "braced name_char ''${SWITCHLESS_BUILD_IMAGE}'' = Some (''SWITCHLESS_BUILD_IMAGE'', [])"
    by (simp add: braced_def name_char_def)
  moreover have "map_of env ''SWITCHLESS_BUILD_IMAGE'' = Some img"
    using env_values_keys(3) [OF out(3) vs] assms(4) by (auto simp: names_known_def)
  ultimately have "resolve (map_of env) (sv_image s) = Inr img" unfolding f(4) si1 by simp
  then show ?thesis using ba sc cm unfolding ou img_def by blast
qed

section \<open>The launch plan reads back\<close>

lemma join_with_Cons: "xs \<noteq> [] \<Longrightarrow> join_with c (x # xs) = x @ c # join_with c xs"
  by (cases xs) (simp_all add: join_with_def)

lemma split_join: "xs \<noteq> [] \<Longrightarrow> \<forall>x \<in> set xs. c \<notin> set x \<Longrightarrow> split_on c (join_with c xs) = xs"
proof (induction xs)
  case (Cons x xs)
  show ?case
  proof (cases "xs = []")
    case True
    then show ?thesis using Cons.prems by (simp add: join_with_def split_on_none)
  next
    case False
    then show ?thesis using Cons by (simp add: join_with_Cons split_on_append)
  qed
qed simp

lemma join_with_last: "xs \<noteq> [] \<Longrightarrow> join_with c xs @ [c] = join_with c (xs @ [[]])"
  by (induction xs rule: list_nonempty_induct) (simp_all add: join_with_def)

lemma join_with_set: "set (join_with c xs) \<subseteq> insert c (\<Union> (set ` set xs))"
  by (cases xs) (auto simp: join_with_def)

lemma rank_row_Inr:
  assumes "rank_row p site img out_dir remote targets share rank = Inr row"
  shows "length row = 12 \<and> row ! 0 = ''rank'' \<and> row ! 1 = dec rank \<and> row ! 2 \<noteq> []
    \<and> (\<exists>argv. baked_argv p site (int rank) (Some img) = Inr argv)"
proof -
  have l: "length ys = length xs" if "py_map f xs = Inr ys" for f :: "string \<Rightarrow> string py" and xs ys
    using that by (auto simp: py_map_Inr dest: list_all2_lengthD)
  show ?thesis
    using assms unfolding rank_row_def Let_def by (auto dest!: l simp del: py_map.simps)
qed

lemma plan_rows_Inr:
  assumes "plan_rows p site out_dir repo_root = Inr rows"
  shows "\<exists>head ranked host. rows = head @ ranked @ [[''api_host'', host]] \<and> length head = 5 \<and> (\<forall>r \<in> set head. length r = 2)
    \<and> length ranked = nat (ranks p) \<and> (\<forall>i < nat (ranks p). length (ranked ! i) = 12 \<and> ranked ! i ! 0 = ''rank'' \<and> ranked ! i ! 1 = dec i
        \<and> ranked ! i ! 2 \<noteq> [] \<and> (\<exists>argv. baked_argv p site (int i) (Some (build_image site p)) = Inr argv))"
proof -
  obtain remote targets share ranked model host where r0:
    "rows = [[''profile'', topology p], [''image'', build_image site p], [''remote_repo'', remote],
       [''api_port'', site_get site ''SWITCHLESS_API_PORT''], [''model_name'', model]] @ ranked @ [[''api_host'', host]]"
    "py_map (rank_row p site (build_image site p) out_dir remote targets share) [0..<nat (ranks p)] = Inr ranked"
    using assms unfolding plan_rows_def Let_def py_bind_Inr py_guard_Inr sum.inject by blast
  define head where "head = [[''profile'', topology p], [''image'', build_image site p], [''remote_repo'', remote],
       [''api_port'', site_get site ''SWITCHLESS_API_PORT''], [''model_name'', model]]"
  have r: "rows = head @ ranked @ [[''api_host'', host]]" "length head = 5" "\<forall>r \<in> set head. length r = 2"
    "py_map (rank_row p site (build_image site p) out_dir remote targets share) [0..<nat (ranks p)] = Inr ranked"
    using r0 by (simp_all add: head_def)
  have a: "list_all2 (\<lambda>i row. rank_row p site (build_image site p) out_dir remote targets share i = Inr row) [0..<nat (ranks p)] ranked"
    using r(4) by (simp add: py_map_Inr)
  have row: "rank_row p site (build_image site p) out_dir remote targets share i = Inr (ranked ! i)" if "i < nat (ranks p)" for i
    using list_all2_nthD [OF a, of i] that by simp
  have "\<forall>i < nat (ranks p). length (ranked ! i) = 12 \<and> ranked ! i ! 0 = ''rank'' \<and> ranked ! i ! 1 = dec i
        \<and> ranked ! i ! 2 \<noteq> [] \<and> (\<exists>argv. baked_argv p site (int i) (Some (build_image site p)) = Inr argv)"
    using rank_row_Inr [OF row] by blast
  moreover have "length ranked = nat (ranks p)" using list_all2_lengthD [OF a] by simp
  ultimately show ?thesis using r(1-3) by blast
qed

text \<open>
  A launch plan splits at line ends and tabs into exactly the rows it was made from; it
  has one row per rank, in order, each with a target, and only for ranks whose argv renders.
\<close>

theorem plan_reads_back:
  assumes "launch_plan p site out_dir repo_root = Inr text"
  shows "\<exists>rows ranked. plan_rows p site out_dir repo_root = Inr rows
    \<and> map (split_on (CHR 0x09)) (butlast (split_on (CHR 0x0A) text)) = rows \<and> last (split_on (CHR 0x0A) text) = []
    \<and> filter (\<lambda>r. length r = 12) rows = ranked \<and> length ranked = nat (ranks p)
    \<and> (\<forall>i < nat (ranks p). ranked ! i ! 0 = ''rank'' \<and> ranked ! i ! 1 = dec i \<and> ranked ! i ! 2 \<noteq> []
        \<and> (\<exists>argv. baked_argv p site (int i) (Some (build_image site p)) = Inr argv))"
proof -
  obtain rows where rows: "plan_rows p site out_dir repo_root = Inr rows"
    "\<forall>r \<in> set rows. \<forall>x \<in> set r. CHR 0x09 \<notin> set x \<and> CHR 0x0A \<notin> set x"
    "text = join_with (CHR 0x0A) (map (join_with (CHR 0x09)) rows) @ [CHR 0x0A]"
    using assms by (auto simp: launch_plan_def list_ex_iff)
  obtain head ranked host where h: "rows = head @ ranked @ [[''api_host'', host]]" "length head = 5" "\<forall>r \<in> set head. length r = 2"
    "length ranked = nat (ranks p)" "\<forall>i < nat (ranks p). length (ranked ! i) = 12 \<and> ranked ! i ! 0 = ''rank'' \<and> ranked ! i ! 1 = dec i
        \<and> ranked ! i ! 2 \<noteq> [] \<and> (\<exists>argv. baked_argv p site (int i) (Some (build_image site p)) = Inr argv)"
    using plan_rows_Inr [OF rows(1)] by blast
  have ne: "r \<noteq> []" if rr: "r \<in> set rows" for r
  proof -
    consider "r \<in> set head" | "r \<in> set ranked" | "r = [''api_host'', host]" using rr unfolding h(1) by auto
    then have "length r = 2 \<or> length r = 12" using h(3-5) by cases (auto simp: in_set_conv_nth)
    then show ?thesis by auto
  qed
  have "CHR 0x0A \<notin> set (join_with (CHR 0x09) r)" if "r \<in> set rows" for r
    using join_with_set [of "CHR 0x09" r] rows(2) that by auto
  then have "split_on (CHR 0x0A) text = map (join_with (CHR 0x09)) rows @ [[]]"
    unfolding rows(3) using h(1) by (subst join_with_last) (auto intro!: split_join)
  moreover have "map (split_on (CHR 0x09)) (map (join_with (CHR 0x09)) rows) = rows"
    using rows(2) ne by (simp add: map_idI split_join)
  moreover have "filter (\<lambda>r. length r = 12) rows = ranked"
  proof -
    have "filter (\<lambda>r. length r = 12) head = []" using h(3) by (simp add: filter_empty_conv)
    moreover have "filter (\<lambda>r. length r = 12) ranked = ranked" using h(4,5) by (auto simp: filter_id_conv in_set_conv_nth)
    ultimately show ?thesis unfolding h(1) by simp
  qed
  ultimately show ?thesis using rows(1) h(4,5) by auto
qed

section \<open>A small profile\<close>

definition demo_profile :: profile where
  "demo_profile = \<lparr>topology = ''tp4'', ranks = 2, image_id = ''sha256:ab'',
     argv_template = [''docker'', ''run'', ''-d'', ''--mount'', ''type=bind,src=${OVERLAY_ROOT}/x,dst=/x'', ''--name'', ''${SWITCHLESS_CONTAINER_NAME}'',
       ''--mount'', ''type=bind,src=${SWITCHLESS_MODEL_DIR},dst=/m,readonly'', ''-e'', ''IP=${SWITCHLESS_RANK_HOST_IP}'', ''sha256:ab'',
       ''--served-model-name'', ''glm'', ''--node-rank'', ''${RANK}'', ''${ROLE_ARGS}''],
     head_args = [''--port'', ''80''], worker_args = [''--headless''],
     site_variables = [''SWITCHLESS_CONTAINER_NAME'', ''SWITCHLESS_MODEL_DIR'', ''SWITCHLESS_RANK_HOST_IP'']\<rparr>"

definition demo_site :: environ where
  "demo_site = Map.empty(''SWITCHLESS_MODEL_DIR'' \<mapsto> ''/srv/m'', ''SWITCHLESS_RANK_HOST_IPS'' \<mapsto> ''10.0.0.1, 10.0.0.2'',
     ''SWITCHLESS_JIT_CACHE_ROOT'' \<mapsto> ''/j/'', ''SWITCHLESS_PROFILES_ROOT'' \<mapsto> ''/p'', ''SWITCHLESS_HF_CACHE_DIR'' \<mapsto> ''/h'',
     ''SWITCHLESS_DRAFTER_REPO_DIR'' \<mapsto> ''/d'', ''SWITCHLESS_OVERLAY_ROOT'' \<mapsto> ''/o'')"

lemma isl_Inr: "\<not> isl r \<Longrightarrow> \<exists>x. r = Inr x"
  by (cases r) auto

theorem plan_reads_back_witness:
  "\<exists>text. launch_plan demo_profile demo_site ''/out'' ''/repo'' = Inr text
     \<and> length (filter (\<lambda>r. length r = 12) (map (split_on (CHR 0x09)) (butlast (split_on (CHR 0x0A) text)))) = 2"
proof -
  have "\<not> isl (launch_plan demo_profile demo_site ''/out'' ''/repo'')" by code_simp
  then obtain doc where t: "launch_plan demo_profile demo_site ''/out'' ''/repo'' = Inr doc" using isl_Inr by blast
  show ?thesis using plan_reads_back [OF t] t by (auto simp: demo_profile_def)
qed

theorem env_file_reads_back_witness:
  "\<exists>text. env_text ''tp4'' 1 [(''SWITCHLESS_RANK'', ''1''), (''SWITCHLESS_MODEL_DIR'', ''/a b#c'')] = Inr text
     \<and> read_site text = Inr [''SWITCHLESS_RANK'' \<mapsto> ''1'', ''SWITCHLESS_MODEL_DIR'' \<mapsto> ''/a b#c'']"
proof -
  have "\<not> isl (env_text ''tp4'' 1 [(''SWITCHLESS_RANK'', ''1''), (''SWITCHLESS_MODEL_DIR'', ''/a b#c'')])" by code_simp
  then obtain doc where t: "env_text ''tp4'' 1 [(''SWITCHLESS_RANK'', ''1''), (''SWITCHLESS_MODEL_DIR'', ''/a b#c'')] = Inr doc"
    using isl_Inr by blast
  have h: "site_key ''SWITCHLESS_RANK''" "site_key ''SWITCHLESS_MODEL_DIR''" "\<not> list_ex line_break ''1''" "\<not> list_ex line_break ''/a b#c''"
    "\<not> list_ex line_break ''tp4''" by code_simp+
  have m: "map_of [(''SWITCHLESS_RANK'', ''1''), (''SWITCHLESS_MODEL_DIR'', ''/a b#c'')]
      = [''SWITCHLESS_RANK'' \<mapsto> ''1'', ''SWITCHLESS_MODEL_DIR'' \<mapsto> ''/a b#c'']" by auto
  show ?thesis using env_file_reads_back [OF t] t h unfolding m by simp
qed


theorem compose_runs_the_same_container_witness:
  "\<exists>name s env opts cmd. project demo_profile demo_site 0 ''ctx'' = Inr (name, s, env)
     \<and> baked_argv demo_profile demo_site 0 None = Inr ([''docker'', ''run''] @ opts @ ''glm53-switchless:tp4'' # cmd)
     \<and> same_container (map_of env) s (option_pairs ''glm53-switchless:tp4'' opts) \<and> py_map (resolve (map_of env)) (sv_command s) = Inr cmd"
proof -
  have "\<not> isl (project demo_profile demo_site 0 ''ctx'')" by code_simp
  then obtain name s env where p: "project demo_profile demo_site 0 ''ctx'' = Inr (name, s, env)" using isl_Inr by (metis prod_cases3)
  have q: "with_options demo_profile demo_site = Inr demo_profile" by code_simp
  have i: "build_image demo_site demo_profile = ''glm53-switchless:tp4''" by code_simp
  define b where "b = demo_profile\<lparr>argv_template := projr (baked_tokens ''sha256:ab'' ''glm53-switchless:tp4'' (argv_template demo_profile)),
    image_id := ''glm53-switchless:tp4''\<rparr>"
  have b: "baked_profile demo_profile (build_image demo_site demo_profile) = Inr b" unfolding i b_def by code_simp
  have n: "names_known demo_profile (expand_roles b True (argv_template b))" unfolding b_def by code_simp
  have w: "\<not> prefix ''WEIGHTLESS_'' (image_id demo_profile)" by code_simp
  show ?thesis using compose_runs_the_same_container [OF p q b _ w] n p unfolding i by auto
qed

end
