(* ===== verification/Lean_Kernel.thy ===== *)
theory Lean_Kernel
  imports Ringside_Prelude "HOL-Library.Word"
begin

unbundle bit_operations_syntax

text \<open>
  The small all-reduce of four ranks: its topology (\<open>src/src/tp4/glm53_lean_allreduce/protocol.py\<close>), the path map handed
  to the RDMA proxy (\<open>_proxy.py\<close>) and the kernel of one launch (\<open>_lean_cute.py\<close>). A pack is a value of any type and
  \<open>add\<close> is the rounded addition of two packs. The threads of a launch run in any order; a chunk that a neighbour has
  announced is in the receive slot, and waits that time out are not modelled.
\<close>

section \<open>Topology\<close>

definition WORLD_TP :: int where "WORLD_TP = 4"

definition DIRECT_PATHS :: "int \<times> int \<Rightarrow> int list option" where
  "DIRECT_PATHS = map_of [((0, 1), [1, 3]), ((1, 0), [1, 3]), ((1, 2), [0, 2]), ((2, 1), [0, 2]),
     ((2, 3), [1, 3]), ((3, 2), [1, 3]), ((3, 0), [0, 2]), ((0, 3), [0, 2])]"

definition peer :: "int \<Rightarrow> int \<Rightarrow> int py" where
  "peer rank ph =
     py_guard (\<not> (0 \<le> rank \<and> rank < WORLD_TP) \<or> ph \<notin> {1, 2}) ValueError (Inr (if ph = 1 then rank XOR 1 else 3 - rank))"

definition pair_local_rank :: "int \<Rightarrow> int \<Rightarrow> int py" where
  "pair_local_rank rank ph = py_bind (peer rank ph) (\<lambda>_. Inr (if ph = 1 then rank AND 1 else if rank < 2 then 0 else 1))"

definition pair_map :: "int \<Rightarrow> int \<Rightarrow> int list list py" where
  "pair_map rank ph =
     py_bind (pair_local_rank rank ph) (\<lambda>local. py_bind (peer rank ph) (\<lambda>p.
       case DIRECT_PATHS (rank, p) of None \<Rightarrow> Inl KeyError
       | Some paths \<Rightarrow> Inr (if local = 0 then [[], paths] else [paths, []])))"

definition canonical_reduce :: "('v \<Rightarrow> 'v \<Rightarrow> 'v) \<Rightarrow> 'v \<Rightarrow> 'v \<Rightarrow> 'v \<Rightarrow> 'v \<Rightarrow> 'v" where
  "canonical_reduce add a b c d = add (add a b) (add c d)"

section \<open>The path map\<close>

definition peer_path_count :: "int \<Rightarrow> int \<Rightarrow> int \<Rightarrow> int \<Rightarrow> int" where
  "peer_path_count world rank p opposite =
     (if p = rank then 0 else if world = 2 then opposite else if world = 4 \<and> (p - rank) mod world = 2 then opposite else 2)"

definition flatten_entry :: "int \<Rightarrow> int \<Rightarrow> int \<Rightarrow> int \<Rightarrow> int list \<Rightarrow> int list py" where
  "flatten_entry world rank opposite p paths =
     py_guard (p = rank \<and> list_ex (\<lambda>hca. 0 \<le> hca) paths) ValueError
       (py_guard (p \<noteq> rank \<and> int (length paths) \<noteq> peer_path_count world rank p opposite) ValueError
         (let vals = map (\<lambda>hca. if hca < 0 then 255 else hca) paths in
          py_guard (4 < length vals) ValueError (Inr (vals @ replicate (4 - length vals) 255))))"

definition flatten_peer_hca_map :: "int list list \<Rightarrow> int \<Rightarrow> int \<Rightarrow> int \<Rightarrow> int list py" where
  "flatten_peer_hca_map m world rank opposite =
     py_guard (opposite \<notin> {2, 4}) ValueError
       (py_guard (int (length m) \<noteq> world) ValueError
         (py_bind (py_map (\<lambda>(p, paths). flatten_entry world rank opposite (int p) paths) (enumerate 0 m)) (\<lambda>es. Inr (concat es))))"

section \<open>One launch\<close>

text \<open>The launcher's checks, the range of a chunk, its sequence number and slot.\<close>

definition launcher_ok :: "nat \<Rightarrow> nat \<Rightarrow> bool" where
  "launcher_ok slots chunks \<longleftrightarrow> chunks \<in> {1, 2, 4} \<and> int slots AND (int slots - 1) = 0 \<and> 2 * chunks \<le> slots"

definition chunk_lo :: "nat \<Rightarrow> nat \<Rightarrow> nat \<Rightarrow> nat" where
  "chunk_lo packs chunks c = packs * c div chunks"

definition seq_of :: "32 word \<Rightarrow> nat \<Rightarrow> 32 word" where
  "seq_of epoch c = epoch + of_nat (c + 1)"

definition slot_of :: "nat \<Rightarrow> 32 word \<Rightarrow> nat" where
  "slot_of slots seq = unat (seq AND (of_nat slots - 1))"

text \<open>The positions a thread visits.\<close>

function strided :: "nat \<Rightarrow> nat \<Rightarrow> nat \<Rightarrow> nat list" where
  "strided pos hi stride = (if pos < hi \<and> 0 < stride then pos # strided (pos + stride) hi stride else [])"
  by pat_completeness auto

termination
  by (relation "measure (\<lambda>(pos, hi, stride). hi - pos)") auto

declare strided.simps [simp del]

definition thread_positions :: "nat \<Rightarrow> nat \<Rightarrow> nat \<Rightarrow> nat \<Rightarrow> nat \<times> nat \<Rightarrow> nat list" where
  "thread_positions grid threads lo hi bt = strided (lo + (fst bt * threads + snd bt)) hi (grid * threads)"

text \<open>All threads of the grid run \<open>f\<close> on their positions and write the result at the position relative to \<open>to\<close>.\<close>

definition grid_write ::
  "(nat \<times> nat) list \<Rightarrow> nat \<Rightarrow> nat \<Rightarrow> nat \<Rightarrow> nat \<Rightarrow> nat \<Rightarrow> (nat \<Rightarrow> 'v) \<Rightarrow> 'v list \<Rightarrow> 'v list" where
  "grid_write order grid threads lo hi to f buf =
     fold (\<lambda>pos b. b[pos - to := f pos]) (concat (map (thread_positions grid threads lo hi) order)) buf"

text \<open>What the launch of one rank reads besides its input: slots' old contents and the order of the threads.\<close>

record 'v launch_env =
  le_order :: "(nat \<times> nat) list"
  le_grid :: nat
  le_threads :: nat
  le_chunks :: nat
  le_send1 :: "nat \<Rightarrow> 'v list"
  le_send2 :: "nat \<Rightarrow> 'v list"
  le_out :: "'v list"

definition chunk_write :: "'v launch_env \<Rightarrow> nat \<Rightarrow> nat \<Rightarrow> bool \<Rightarrow> (nat \<Rightarrow> 'v) \<Rightarrow> 'v list \<Rightarrow> 'v list" where
  "chunk_write e packs c relative f buf =
     (let lo = chunk_lo packs (le_chunks e) c; hi = chunk_lo packs (le_chunks e) (c + 1) in
      grid_write (le_order e) (le_grid e) (le_threads e) lo hi (if relative then lo else 0) f buf)"

definition round1 :: "'v launch_env \<Rightarrow> 'v list \<Rightarrow> nat \<Rightarrow> 'v list" where
  "round1 e xs c = chunk_write e (length xs) c True (\<lambda>pos. xs ! pos) (le_send1 e c)"

definition round2 :: "('v \<Rightarrow> 'v \<Rightarrow> 'v) \<Rightarrow> 'v launch_env \<Rightarrow> int \<Rightarrow> 'v list \<Rightarrow> 'v list \<Rightarrow> nat \<Rightarrow> 'v list" where
  "round2 add e rank xs recv c =
     (let lo = chunk_lo (length xs) (le_chunks e) c in
      chunk_write e (length xs) c True
        (\<lambda>pos. if rank AND 1 = 0 then add (xs ! pos) (recv ! (pos - lo)) else add (recv ! (pos - lo)) (xs ! pos)) (le_send2 e c))"

definition round3 :: "('v \<Rightarrow> 'v \<Rightarrow> 'v) \<Rightarrow> 'v launch_env \<Rightarrow> int \<Rightarrow> nat \<Rightarrow> 'v list \<Rightarrow> 'v list \<Rightarrow> nat \<Rightarrow> 'v list \<Rightarrow> 'v list" where
  "round3 add e rank packs pair recv c out =
     (let lo = chunk_lo packs (le_chunks e) c in
      chunk_write e packs c False
        (\<lambda>pos. if rank < 2 then add (pair ! (pos - lo)) (recv ! (pos - lo)) else add (recv ! (pos - lo)) (pair ! (pos - lo))) out)"

text \<open>The four ranks of a launch: what a rank receives in a round is what its neighbour of the round staged.\<close>

definition staged1 :: "(int \<Rightarrow> 'v launch_env) \<Rightarrow> (int \<Rightarrow> 'v list) \<Rightarrow> int \<Rightarrow> nat \<Rightarrow> 'v list" where
  "staged1 env xs r c = round1 (env r) (xs r) c"

definition staged2 :: "('v \<Rightarrow> 'v \<Rightarrow> 'v) \<Rightarrow> (int \<Rightarrow> 'v launch_env) \<Rightarrow> (int \<Rightarrow> 'v list) \<Rightarrow> int \<Rightarrow> nat \<Rightarrow> 'v list" where
  "staged2 add env xs r c = round2 add (env r) r (xs r) (staged1 env xs (projr (peer r 1)) c) c"

definition lean_launch :: "('v \<Rightarrow> 'v \<Rightarrow> 'v) \<Rightarrow> 32 word \<Rightarrow> (int \<Rightarrow> 'v launch_env) \<Rightarrow> (int \<Rightarrow> 'v list) \<Rightarrow> int \<Rightarrow> 'v list" where
  "lean_launch add poison env xs r =
     (if poison = 0
      then fold (\<lambda>c. round3 add (env r) r (length (xs r)) (staged2 add env xs r c) (staged2 add env xs (projr (peer r 2)) c) c)
             [0..<le_chunks (env r)] (le_out (env r))
      else le_out (env r))"

section \<open>Electing the last block\<close>

text \<open>Each block adds one to the counter and publishes when the new value is a multiple of the grid.\<close>

definition arrive :: "nat \<Rightarrow> 32 word \<Rightarrow> 32 word \<times> bool" where
  "arrive grid counter = (counter + 1, (counter + 1) mod of_nat grid = 0)"

fun arrivals :: "nat \<Rightarrow> nat \<Rightarrow> 32 word \<Rightarrow> 32 word \<times> bool list" where
  "arrivals grid 0 counter = (counter, [])"
| "arrivals grid (Suc n) counter =
     (let (c, b) = arrive grid counter; (c', bs) = arrivals grid n c in (c', b # bs))"


section \<open>Positions and writes\<close>

lemma set_strided: "0 < stride \<Longrightarrow> set (strided pos hi stride) = {p. pos \<le> p \<and> p < hi \<and> stride dvd p - pos}"
proof (induction pos hi stride rule: strided.induct)
  case (1 pos hi stride)
  show ?case
  proof (cases "pos < hi")
    case True
    have a: "p = pos \<or> pos + stride \<le> p \<and> stride dvd p - (pos + stride)" if p: "pos \<le> p" "stride dvd p - pos" for p
    proof -
      obtain k where k: "p - pos = stride * k" using p(2) by (rule dvdE)
      show ?thesis
      proof (cases k)
        case 0
        then show ?thesis using k p(1) by simp
      next
        case (Suc m)
        then have "p = pos + stride + stride * m" using k p(1) by simp
        then show ?thesis by simp
      qed
    qed
    have b: "stride dvd p - pos" if "pos + stride \<le> p" "stride dvd p - (pos + stride)" for p
    proof -
      have "p - pos = (p - (pos + stride)) + stride" using that(1) by simp
      then show ?thesis using that(2) by (metis dvd_add dvd_refl)
    qed
    have "set (strided pos hi stride) = insert pos (set (strided (pos + stride) hi stride))"
      using True 1(2) by (subst strided.simps) simp
    also have "\<dots> = insert pos {p. pos + stride \<le> p \<and> p < hi \<and> stride dvd p - (pos + stride)}" using 1 True by simp
    also have "\<dots> = {p. pos \<le> p \<and> p < hi \<and> stride dvd p - pos}"
    proof (intro set_eqI)
      fix p show "p \<in> insert pos {p. pos + stride \<le> p \<and> p < hi \<and> stride dvd p - (pos + stride)} \<longleftrightarrow> p \<in> {p. pos \<le> p \<and> p < hi \<and> stride dvd p - pos}"
        using a [of p] b [of p] True by (cases "p = pos") auto
    qed
    finally show ?thesis .
  next
    case False
    then show ?thesis by (subst strided.simps) auto
  qed
qed

lemma grid_positions:
  assumes "set order = {..<grid} \<times> {..<threads}" "0 < grid" "0 < threads"
  shows "set (concat (map (thread_positions grid threads lo hi) order)) = {lo..<hi}"
proof -
  have s: "0 < grid * threads" using assms by simp
  have p: "set (thread_positions grid threads lo hi bt) =
      {p. lo + (fst bt * threads + snd bt) \<le> p \<and> p < hi \<and> grid * threads dvd p - (lo + (fst bt * threads + snd bt))}" for bt
    unfolding thread_positions_def by (rule set_strided [OF s])
  have "\<exists>bt \<in> set order. p \<in> set (thread_positions grid threads lo hi bt)" if "lo \<le> p" "p < hi" for p
  proof
    let ?i = "(p - lo) mod (grid * threads)"
    have i: "?i < grid * threads" using s by simp
    have e: "?i div threads * threads + ?i mod threads = ?i" by (rule div_mult_mod_eq)
    have "?i div threads < grid" using i by (simp add: less_mult_imp_div_less)
    then show "(?i div threads, ?i mod threads) \<in> set order" using assms by simp
    have "?i \<le> p - lo" by (rule mod_less_eq_dividend)
    then have "lo + ?i \<le> p" "p - (lo + ?i) = (p - lo) - ?i" using that(1) by linarith+
    moreover have "grid * threads dvd (p - lo) - ?i" by (rule dvd_minus_mod)
    ultimately show "p \<in> set (thread_positions grid threads lo hi (?i div threads, ?i mod threads))"
      unfolding p fst_conv snd_conv e using that(2) by simp
  qed
  moreover have "set (thread_positions grid threads lo hi bt) \<subseteq> {lo..<hi}" for bt unfolding p by auto
  ultimately show ?thesis by fastforce
qed

lemma fold_writes:
  assumes "\<forall>p \<in> set ps. to \<le> p"
  shows "length (fold (\<lambda>pos b. b[pos - to := f pos]) ps buf) = length buf"
    and "j < length buf \<Longrightarrow> fold (\<lambda>pos b. b[pos - to := f pos]) ps buf ! j = (if j + to \<in> set ps then f (j + to) else buf ! j)"
proof -
  show l: "length (fold (\<lambda>pos b. b[pos - to := f pos]) ps buf) = length buf"
    by (induction ps arbitrary: buf) auto
  show "j < length buf \<Longrightarrow> fold (\<lambda>pos b. b[pos - to := f pos]) ps buf ! j = (if j + to \<in> set ps then f (j + to) else buf ! j)"
    using assms
  proof (induction ps rule: rev_induct)
    case (snoc p ps)
    have "length (fold (\<lambda>pos b. b[pos - to := f pos]) ps buf) = length buf" by (induction ps arbitrary: buf) auto
    then show ?case using snoc by (auto simp: nth_list_update)
  qed simp
qed

definition legal_env :: "'v launch_env \<Rightarrow> nat \<Rightarrow> nat \<Rightarrow> bool" where
  "legal_env e packs chunks \<longleftrightarrow>
     set (le_order e) = {..<le_grid e} \<times> {..<le_threads e} \<and> 0 < le_grid e \<and> 0 < le_threads e \<and> le_chunks e = chunks \<and> 0 < chunks
     \<and> (\<forall>c < chunks. chunk_lo packs chunks (c + 1) - chunk_lo packs chunks c \<le> length (le_send1 e c)
          \<and> chunk_lo packs chunks (c + 1) - chunk_lo packs chunks c \<le> length (le_send2 e c)) \<and> length (le_out e) = packs"

lemma chunk_lo_mono: "c \<le> d \<Longrightarrow> chunk_lo packs chunks c \<le> chunk_lo packs chunks d"
  by (simp add: chunk_lo_def div_le_mono)

lemma chunk_lo_ends: "chunk_lo packs chunks 0 = 0" "0 < chunks \<Longrightarrow> chunk_lo packs chunks chunks = packs"
  by (simp_all add: chunk_lo_def)

lemma chunk_write:
  assumes "legal_env e packs chunks" "chunk_lo packs chunks (c + 1) - (if relative then chunk_lo packs chunks c else 0) \<le> length buf"
  shows "length (chunk_write e packs c relative f buf) = length buf"
    and "j < length buf \<Longrightarrow> chunk_write e packs c relative f buf ! j =
      (let pos = (if relative then chunk_lo packs chunks c else 0) + j in
       if chunk_lo packs chunks c \<le> pos \<and> pos < chunk_lo packs chunks (c + 1) then f pos else buf ! j)"
proof -
  let ?to = "if relative then chunk_lo packs chunks c else 0"
  let ?ps = "concat (map (thread_positions (le_grid e) (le_threads e) (chunk_lo packs chunks c) (chunk_lo packs chunks (c + 1))) (le_order e))"
  have ps: "set ?ps = {chunk_lo packs chunks c..<chunk_lo packs chunks (c + 1)}"
    by (rule grid_positions) (use assms(1) in \<open>simp_all add: legal_env_def\<close>)
  have w: "chunk_write e packs c relative f buf = fold (\<lambda>pos b. b[pos - ?to := f pos]) ?ps buf"
    using assms(1) by (simp add: chunk_write_def grid_write_def Let_def legal_env_def)
  have t: "\<forall>p \<in> set ?ps. ?to \<le> p" unfolding ps by simp
  show "length (chunk_write e packs c relative f buf) = length buf" unfolding w by (rule fold_writes(1) [OF t])
  show "j < length buf \<Longrightarrow> chunk_write e packs c relative f buf ! j =
      (let pos = ?to + j in if chunk_lo packs chunks c \<le> pos \<and> pos < chunk_lo packs chunks (c + 1) then f pos else buf ! j)"
    unfolding w fold_writes(2) [OF t] ps Let_def by (simp add: add.commute)
qed

section \<open>Every rank gets the canonical sum\<close>

lemma peer_simps: "peer 0 1 = Inr 1" "peer 1 1 = Inr 0" "peer 2 1 = Inr 3" "peer 3 1 = Inr 2"
  "peer 0 2 = Inr 3" "peer 1 2 = Inr 2" "peer 2 2 = Inr 1" "peer 3 2 = Inr 0"
  by (simp_all add: peer_def WORLD_TP_def)

definition pair_sum :: "('v \<Rightarrow> 'v \<Rightarrow> 'v) \<Rightarrow> (int \<Rightarrow> 'v list) \<Rightarrow> int \<Rightarrow> nat \<Rightarrow> 'v" where
  "pair_sum add xs r i = (if r < 2 then add (xs 0 ! i) (xs 1 ! i) else add (xs 2 ! i) (xs 3 ! i))"

lemma staged1_at:
  assumes "legal_env (env r) packs chunks" "length (xs r) = packs" "c < chunks"
    and "chunk_lo packs chunks c \<le> pos" "pos < chunk_lo packs chunks (c + 1)"
  shows "staged1 env xs r c ! (pos - chunk_lo packs chunks c) = xs r ! pos"
proof -
  have l: "chunk_lo packs chunks (c + 1) - chunk_lo packs chunks c \<le> length (le_send1 (env r) c)" using assms(1,3) by (simp add: legal_env_def)
  then show ?thesis
    unfolding staged1_def round1_def assms(2)
    using chunk_write(2) [OF assms(1), of c True "le_send1 (env r) c" "pos - chunk_lo packs chunks c"] assms(4,5)
    by (simp add: Let_def)
qed

lemma staged2_at:
  assumes "\<forall>r \<in> {0, 1, 2, 3}. legal_env (env r) packs chunks \<and> length (xs r) = packs" "r \<in> {0, 1, 2, 3}" "c < chunks"
    and "chunk_lo packs chunks c \<le> pos" "pos < chunk_lo packs chunks (c + 1)"
  shows "staged2 add env xs r c ! (pos - chunk_lo packs chunks c) = pair_sum add xs r pos"
proof -
  have e: "legal_env (env r) packs chunks" "length (xs r) = packs" using assms(1,2) by blast+
  have lc: "le_chunks (env r) = chunks" using e(1) by (simp add: legal_env_def)
  have s: "staged1 env xs q c ! (pos - chunk_lo packs chunks c) = xs q ! pos" if "q \<in> {0, 1, 2, 3}" for q
    using staged1_at [of env q packs chunks xs c pos] assms(1,3-5) that by blast
  have l: "chunk_lo packs chunks (c + 1) - chunk_lo packs chunks c \<le> length (le_send2 (env r) c)" using e(1) assms(3) by (simp add: legal_env_def)
  have "staged2 add env xs r c ! (pos - chunk_lo packs chunks c) =
      (if r AND 1 = 0 then add (xs r ! pos) (staged1 env xs (projr (peer r 1)) c ! (pos - chunk_lo packs chunks c))
       else add (staged1 env xs (projr (peer r 1)) c ! (pos - chunk_lo packs chunks c)) (xs r ! pos))"
    unfolding staged2_def round2_def e(2) lc Let_def
    using chunk_write(2) [OF e(1), of c True "le_send2 (env r) c" "pos - chunk_lo packs chunks c"] l assms(4,5)
    by (simp add: Let_def)
  also have "\<dots> = pair_sum add xs r pos"
    using assms(2) by (elim insertE emptyE) (simp_all add: peer_simps pair_sum_def s)
  finally show ?thesis .
qed

text \<open>
  C35. When all four ranks launch, whatever the order of the threads and the old contents of
  the buffers, each rank's output is at every pack the canonical sum (x0+x1)+(x2+x3) in rank
  order, so the ranks agree bit for bit.
\<close>

theorem lean_launch_is_canonical:
  assumes "\<forall>r \<in> {0, 1, 2, 3}. legal_env (env r) packs chunks \<and> length (xs r) = packs" "r \<in> {0, 1, 2, 3}"
  shows "lean_launch add 0 env xs r = map (\<lambda>i. canonical_reduce add (xs 0 ! i) (xs 1 ! i) (xs 2 ! i) (xs 3 ! i)) [0..<packs]"
proof -
  let ?v = "\<lambda>i. canonical_reduce add (xs 0 ! i) (xs 1 ! i) (xs 2 ! i) (xs 3 ! i)"
  have e: "legal_env (env r) packs chunks" "length (xs r) = packs" using assms by blast+
  have lc: "le_chunks (env r) = chunks" "0 < chunks" and lo: "length (le_out (env r)) = packs" using e(1) by (simp_all add: legal_env_def)
  define step where "step = (\<lambda>c. round3 add (env r) r packs (staged2 add env xs r c) (staged2 add env xs (projr (peer r 2)) c) c)"
  have step: "length (step c out) = packs \<and> (\<forall>i < packs. step c out ! i =
      (if chunk_lo packs chunks c \<le> i \<and> i < chunk_lo packs chunks (c + 1) then ?v i else out ! i))"
    if "c < chunks" "length out = packs" for c out
  proof -
    have hi: "chunk_lo packs chunks (c + 1) \<le> packs" using chunk_lo_mono [of "c + 1" chunks packs chunks] chunk_lo_ends(2) [OF lc(2)] that(1) by simp
    have v: "(if r < 2 then add (staged2 add env xs r c ! (i - chunk_lo packs chunks c)) (staged2 add env xs (projr (peer r 2)) c ! (i - chunk_lo packs chunks c))
        else add (staged2 add env xs (projr (peer r 2)) c ! (i - chunk_lo packs chunks c)) (staged2 add env xs r c ! (i - chunk_lo packs chunks c))) = ?v i"
      if i: "chunk_lo packs chunks c \<le> i" "i < chunk_lo packs chunks (c + 1)" for i
    proof -
      have s: "staged2 add env xs q c ! (i - chunk_lo packs chunks c) = pair_sum add xs q i" if "q \<in> {0, 1, 2, 3}" for q
        using staged2_at [OF assms(1) that \<open>c < chunks\<close> i] .
      show ?thesis using assms(2) by (elim insertE emptyE) (simp_all add: peer_simps pair_sum_def canonical_reduce_def s)
    qed
    have w: "length (step c out) = length out"
      "\<And>j. j < length out \<Longrightarrow> step c out ! j = (if chunk_lo packs chunks c \<le> j \<and> j < chunk_lo packs chunks (c + 1)
        then (if r < 2 then add (staged2 add env xs r c ! (j - chunk_lo packs chunks c)) (staged2 add env xs (projr (peer r 2)) c ! (j - chunk_lo packs chunks c))
          else add (staged2 add env xs (projr (peer r 2)) c ! (j - chunk_lo packs chunks c)) (staged2 add env xs r c ! (j - chunk_lo packs chunks c)))
        else out ! j)"
      unfolding step_def round3_def Let_def lc(1)
      using chunk_write [OF e(1), of c False out] hi that(2) by (simp_all add: Let_def)
    then show ?thesis using that(2) v by simp
  qed
  have "length (fold step [0..<n] (le_out (env r))) = packs \<and> (\<forall>i < chunk_lo packs chunks n. fold step [0..<n] (le_out (env r)) ! i = ?v i)"
    if "n \<le> chunks" for n
    using that
  proof (induction n)
    case 0
    then show ?case using lo by (simp add: chunk_lo_ends)
  next
    case (Suc n)
    let ?o = "fold step [0..<n] (le_out (env r))"
    have ih: "length ?o = packs" "\<forall>i < chunk_lo packs chunks n. ?o ! i = ?v i" using Suc by simp_all
    have s: "length (step n ?o) = packs" "\<forall>i < packs. step n ?o ! i =
        (if chunk_lo packs chunks n \<le> i \<and> i < chunk_lo packs chunks (n + 1) then ?v i else ?o ! i)"
      using step [of n ?o] ih(1) Suc.prems by simp_all
    have hi: "chunk_lo packs chunks (Suc n) \<le> packs" using chunk_lo_mono [of "Suc n" chunks packs chunks] chunk_lo_ends(2) [OF lc(2)] Suc.prems by simp
    have "step n ?o ! i = ?v i" if "i < chunk_lo packs chunks (Suc n)" for i
      using s(2) ih(2) that hi by (cases "i < chunk_lo packs chunks n") auto
    then show ?case using s(1) by simp
  qed
  from this [of chunks] have f: "length (fold step [0..<chunks] (le_out (env r))) = packs"
    "\<forall>i < packs. fold step [0..<chunks] (le_out (env r)) ! i = ?v i"
    using chunk_lo_ends(2) [OF lc(2)] by simp_all
  have "lean_launch add 0 env xs r = fold step [0..<chunks] (le_out (env r))"
    by (simp add: lean_launch_def step_def lc(1) e(2))
  then show ?thesis using f by (simp add: list_eq_iff_nth_eq)
qed


section \<open>Exactly one block publishes\<close>

lemma unat_add_mod:
  assumes "g dvd 2 ^ 32"
  shows "unat (c + of_nat n :: 32 word) mod g = (unat c + n) mod g"
proof -
  have "unat (c + of_nat n :: 32 word) = (unat c + n) mod 2 ^ 32"
    by (simp add: unat_word_ariths unat_of_nat mod_add_right_eq)
  then show ?thesis using mod_mod_cancel [OF assms] by simp
qed

lemma arrive_iff:
  assumes "0 < g" "g dvd 2 ^ 32" "g < 2 ^ 32"
  shows "(c :: 32 word) mod of_nat g = 0 \<longleftrightarrow> g dvd unat c"
proof -
  have "unat (of_nat g :: 32 word) = g" using assms(3) by (simp add: unat_of_nat)
  then have "unat (c mod of_nat g) = unat c mod g" by (simp add: unat_mod)
  then show ?thesis by (metis mod_0_imp_dvd dvd_imp_mod_0 unat_eq_0)
qed

lemma arrivals_eq:
  assumes "0 < g" "g dvd 2 ^ 32" "g < 2 ^ 32"
  shows "arrivals g n c = (c + of_nat n, map (\<lambda>i. g dvd unat c + i + 1) [0..<n])"
proof (induction n arbitrary: c)
  case (Suc n)
  have d: "g dvd unat (c + of_nat k) \<longleftrightarrow> g dvd unat c + k" for k
    using unat_add_mod [OF assms(2), of c k] by (simp add: dvd_eq_mod_eq_0)
  have a: "arrive g c = (c + 1, g dvd unat c + 1)" using d [of 1] by (simp add: arrive_def arrive_iff [OF assms])
  have s: "g dvd unat (c + 1) + i + 1 \<longleftrightarrow> g dvd unat c + (i + 1) + 1" for i
  proof -
    have "unat (c + 1) mod g = (unat c + 1) mod g" using unat_add_mod [OF assms(2), of c 1] by simp
    then have "(unat (c + 1) + (i + 1)) mod g = (unat c + 1 + (i + 1)) mod g" by (metis mod_add_left_eq)
    then show ?thesis by (simp add: dvd_eq_mod_eq_0 add.assoc add.commute)
  qed
  have "[0..<Suc n] = 0 # map Suc [0..<n]" by (simp add: upt_conv_Cons map_Suc_upt)
  then show ?case using Suc [of "c + 1"] a s by (simp add: o_def add.assoc add.left_commute del: upt_Suc)
qed simp

text \<open>
  Starting from a staging counter that is a multiple of a grid dividing 2^32, exactly the
  last of the arriving blocks publishes and the counter is again a multiple, wrap-around
  included.
\<close>

theorem one_block_publishes:
  assumes "0 < g" "g dvd 2 ^ 32" "g < 2 ^ 32" "c mod of_nat g = 0"
  shows "arrivals g g c = (c + of_nat g, replicate (g - 1) False @ [True]) \<and> (c + of_nat g) mod of_nat g = 0"
proof -
  have c: "g dvd unat c" using assms(4) unfolding arrive_iff [OF assms(1-3)] .
  have "g dvd unat c + i + 1 \<longleftrightarrow> g dvd i + 1" for i using dvd_add_right_iff [OF c, of "i + 1"] by (simp add: add.assoc)
  moreover have "g dvd i + 1 \<longleftrightarrow> i = g - 1" if "i < g" for i
  proof
    assume "g dvd i + 1"
    then have "g \<le> i + 1" by (rule dvd_imp_le) simp
    then show "i = g - 1" using that by simp
  qed (use assms(1) in simp)
  ultimately have "map (\<lambda>i. g dvd unat c + i + 1) [0..<g] = map (\<lambda>i. i = g - 1) [0..<g]" by (intro map_cong) auto
  also have "\<dots> = map (\<lambda>i. i = g - 1) ([0..<g - 1] @ [g - 1])" using assms(1) by (cases g) simp_all
  also have "\<dots> = replicate (g - 1) False @ [True]"
    by (auto simp: list_eq_iff_nth_eq nth_append)
  finally have m: "map (\<lambda>i. g dvd unat c + i + 1) [0..<g] = replicate (g - 1) False @ [True]" .
  have "g dvd unat (c + of_nat g)"
    using unat_add_mod [OF assms(2), of c g] c by (simp add: dvd_eq_mod_eq_0)
  then show ?thesis using m arrivals_eq [OF assms(1-3), of g c] arrive_iff [OF assms(1-3)] by simp
qed

section \<open>Live sequence numbers have slots of their own\<close>

lemma power_of_two: "0 < x \<Longrightarrow> int x AND (int x - 1) = 0 \<Longrightarrow> \<exists>k. x = 2 ^ k"
proof (induction x rule: less_induct)
  case (less x)
  have r: "int x AND (int x - 1) = of_bool (odd (int x) \<and> odd (int x - 1)) + 2 * ((int x div 2) AND ((int x - 1) div 2))"
    by (rule and_rec)
  show ?case
  proof (cases "even x")
    case True
    then obtain y where y: "x = 2 * y" by (rule evenE)
    have "int x div 2 = int y" "(int x - 1) div 2 = int y - 1" using y by linarith+
    then have "int y AND (int y - 1) = 0" using r less.prems(2) y by simp
    then obtain k where "y = 2 ^ k" using less.IH [of y] y less.prems(1) by auto
    then show ?thesis using y by (intro exI [of _ "Suc k"]) simp
  next
    case False
    then obtain y where y: "x = 2 * y + 1" by (rule oddE)
    have "int x div 2 = int y" "(int x - 1) div 2 = int y" using y by simp_all
    then have "y = 0" using r less.prems(2) y by simp
    then show ?thesis using y by (intro exI [of _ 0]) simp
  qed
qed

lemma slot_of_mod:
  assumes "slots = 2 ^ k" "slots < 2 ^ 32"
  shows "slot_of slots q = unat q mod slots"
proof -
  have "(of_nat slots :: 32 word) - 1 = mask k" by (simp add: assms(1) mask_eq_exp_minus_1)
  then have "slot_of slots q = unat (take_bit k q)" by (simp add: slot_of_def take_bit_eq_mask)
  also have "\<dots> = take_bit k (unat q)" by (simp add: unsigned_take_bit_eq)
  finally show ?thesis by (simp add: take_bit_eq_mod assms(1))
qed

theorem live_slots_distinct:
  assumes "launcher_ok slots chunks" "slots < 2 ^ 32" "i < 2 * chunks" "j < 2 * chunks" "i \<noteq> j"
  shows "slot_of slots (seq_of epoch i) \<noteq> slot_of slots (seq_of epoch j) \<and> slot_of slots (seq_of epoch i) < slots"
proof -
  have s: "0 < slots" "2 * chunks \<le> slots" and a: "int slots AND (int slots - 1) = 0" using assms(1) by (auto simp: launcher_ok_def)
  obtain k where k: "slots = 2 ^ k" using power_of_two [OF s(1) a] by blast
  have "k < 32" using assms(2) k by (metis power_less_imp_less_exp one_less_numeral_iff semiring_norm(76))
  then have d: "slots dvd 2 ^ 32" unfolding k by (metis le_imp_power_dvd less_imp_le_nat)
  have m: "slot_of slots (seq_of epoch n) = (unat epoch + (n + 1)) mod slots" for n
    unfolding slot_of_mod [OF k assms(2)] seq_of_def by (rule unat_add_mod [OF d])
  have "(unat epoch + (i + 1)) mod slots \<noteq> (unat epoch + (j + 1)) mod slots"
  proof
    assume "(unat epoch + (i + 1)) mod slots = (unat epoch + (j + 1)) mod slots"
    then have "(int (unat epoch) + (int i + 1)) mod int slots = (int (unat epoch) + (int j + 1)) mod int slots"
      by (metis (no_types, lifting) of_nat_1 of_nat_add zmod_int)
    then have "int slots dvd int i - int j" by (simp add: mod_eq_dvd_iff)
    moreover have "\<bar>int i - int j\<bar> < int slots" using assms(3,4) s(2) by linarith
    ultimately have "int i - int j = 0" by (metis dvd_imp_le_int not_less abs_of_nonneg of_nat_0_le_iff)
    then show False using assms(5) by simp
  qed
  then show ?thesis unfolding m using s(1) by simp
qed

section \<open>The pair contexts follow the cables\<close>

definition neighbours :: "int \<Rightarrow> int \<Rightarrow> bool" where
  "neighbours a b \<longleftrightarrow> (b - a) mod 4 \<in> {1, 3}"

definition pair_context :: "int \<Rightarrow> int \<Rightarrow> (int \<times> int \<times> int list) py" where
  "pair_context rank ph =
     py_bind (peer rank ph) (\<lambda>p. py_bind (pair_local_rank rank ph) (\<lambda>l. py_bind (pair_map rank ph) (\<lambda>m.
       py_bind (flatten_peer_hca_map m 2 l 2) (\<lambda>bytes. Inr (p, l, bytes)))))"

theorem pair_contexts_match:
  "list_all (\<lambda>(rank, ph). \<exists>p l a b. pair_context rank ph = Inr (p, l, if l = 0 then replicate 4 255 @ [a, b, 255, 255] else [a, b, 255, 255] @ replicate 4 255)
      \<and> neighbours rank p
      \<and> pair_context p ph = Inr (rank, 1 - l, if l = 0 then [a, b, 255, 255] @ replicate 4 255 else replicate 4 255 @ [a, b, 255, 255])
      \<and> l \<in> {0, 1} \<and> {a, b} \<subseteq> {0, 1, 2, 3} \<and> a \<noteq> b)
     [(0, 1), (1, 1), (2, 1), (3, 1), (0, 2), (1, 2), (2, 2), (3, 2)]"
  by (simp add: pair_context_def peer_def pair_local_rank_def pair_map_def DIRECT_PATHS_def WORLD_TP_def flatten_peer_hca_map_def
      flatten_entry_def peer_path_count_def neighbours_def numeral_nat py_guard_def)

section \<open>Examples\<close>

definition demo_env :: "int \<Rightarrow> nat launch_env" where
  "demo_env r = \<lparr>le_order = [(1, 0), (0, 0)], le_grid = 2, le_threads = 1, le_chunks = 2, le_send1 = (\<lambda>c. [9, 9]), le_send2 = (\<lambda>c. [8, 8]), le_out = [7, 7, 7]\<rparr>"

definition demo_inputs :: "int \<Rightarrow> nat list" where
  "demo_inputs r = map (\<lambda>i. nat r * 10 + i) [0..<3]"

theorem lean_launch_is_canonical_witness:
  "lean_launch (\<lambda>a b. 2 * a + b) 0 demo_env demo_inputs 2 = [90, 99, 108]"
proof -
  have ch: "chunk_lo 3 2 (c + 1) - chunk_lo 3 2 c \<le> 2" if c: "c < 2" for c
  proof -
    have "c = 0 \<or> c = 1" using c by arith
    then show ?thesis by (elim disjE) (simp_all add: chunk_lo_def)
  qed
  have "set [(1, 0), (0, 0)] = {..<2 :: nat} \<times> {..<1 :: nat}"
    by (simp add: lessThan_Suc lessThan_nat_numeral)
  then have "legal_env (demo_env r) 3 2" for r
    unfolding legal_env_def using ch by (simp add: demo_env_def numeral_2_eq_2)
  moreover have "length (demo_inputs r) = 3" for r by (simp add: demo_inputs_def)
  ultimately have "lean_launch (\<lambda>a b. 2 * a + b) 0 demo_env demo_inputs 2
      = map (\<lambda>i. canonical_reduce (\<lambda>a b. 2 * a + b) (demo_inputs 0 ! i) (demo_inputs 1 ! i) (demo_inputs 2 ! i) (demo_inputs 3 ! i)) [0..<3]"
    by (intro lean_launch_is_canonical [where chunks = 2]) auto
  also have "\<dots> = [90, 99, 108]" by code_simp
  finally show ?thesis .
qed

theorem one_block_publishes_witness: "arrivals 4 4 (- 4) = (0, [False, False, False, True])"
proof -
  have r: "replicate (4 - 1) False @ [True] = [False, False, False, True]" by code_simp
  have "(- 4 :: 32 word) mod of_nat 4 = 0" by simp
  then show ?thesis using one_block_publishes [of 4 "- 4"] r by simp
qed

theorem live_slots_distinct_witness: "slot_of 4 (seq_of (- 1) 0) \<noteq> slot_of 4 (seq_of (- 1) 3)"
proof -
  have "launcher_ok 4 2" by (simp add: launcher_ok_def)
  then show ?thesis using live_slots_distinct [of 4 2 0 3 "- 1"] by simp
qed

section \<open>Doorbells, waits and the epoch of one rank\<close>

text \<open>
  A control block holds the doorbell's sequence and length, the error sequence and rank, and a length per slot. The blocks of
  a launch are taken together: \<open>timed ph c\<close> says that the wait for chunk \<open>c\<close> of the neighbour of exchange \<open>ph\<close> ran out.
\<close>

record ctrl =
  ct_seq :: "32 word"
  ct_bytes :: "32 word"
  ct_error :: "32 word"
  ct_rank :: "32 word"
  ct_slot_bytes :: "32 word list"

record 'v lean_run =
  lr_ctrl1 :: ctrl
  lr_ctrl2 :: ctrl
  lr_poison :: "32 word"
  lr_epoch :: "32 word"
  lr_sent :: "nat \<Rightarrow> 'v list"
  lr_pair :: "nat \<Rightarrow> 'v list"
  lr_result :: "'v list"

definition chunk_nbytes :: "nat \<Rightarrow> nat \<Rightarrow> nat \<Rightarrow> 32 word" where
  "chunk_nbytes packs chunks c = of_nat (chunk_lo packs chunks (c + 1) - chunk_lo packs chunks c) * 16"

definition ring_doorbell :: "nat \<Rightarrow> 32 word \<Rightarrow> 32 word \<Rightarrow> ctrl \<Rightarrow> ctrl" where
  "ring_doorbell slots seq nbytes k =
     k\<lparr>ct_bytes := nbytes, ct_slot_bytes := (ct_slot_bytes k)[slot_of slots seq := nbytes], ct_seq := seq\<rparr>"

definition wait_failed :: "32 word \<Rightarrow> 32 word \<Rightarrow> ctrl \<Rightarrow> ctrl" where
  "wait_failed seq who k = k\<lparr>ct_rank := who, ct_error := seq\<rparr>"

definition run_round1 :: "nat \<Rightarrow> 'v launch_env \<Rightarrow> 'v list \<Rightarrow> 32 word \<Rightarrow> nat \<Rightarrow> 'v lean_run \<Rightarrow> 'v lean_run" where
  "run_round1 slots e xs epoch c s =
     s\<lparr>lr_sent := (lr_sent s)(c := round1 e xs c),
       lr_ctrl1 := ring_doorbell slots (seq_of epoch c) (chunk_nbytes (length xs) (le_chunks e) c) (lr_ctrl1 s)\<rparr>"

definition run_round2 ::
  "('v \<Rightarrow> 'v \<Rightarrow> 'v) \<Rightarrow> nat \<Rightarrow> 'v launch_env \<Rightarrow> int \<Rightarrow> 'v list \<Rightarrow> (nat \<Rightarrow> nat \<Rightarrow> bool) \<Rightarrow> (nat \<Rightarrow> 'v list) \<Rightarrow> 32 word \<Rightarrow>
    nat \<Rightarrow> 'v lean_run \<Rightarrow> 'v lean_run" where
  "run_round2 add slots e rank xs timed recv epoch c s =
     (let seq = seq_of epoch c;
          s = (if timed 1 c then s\<lparr>lr_ctrl1 := wait_failed seq (1 - of_int (rank AND 1)) (lr_ctrl1 s), lr_poison := seq\<rparr> else s);
          s = (if lr_poison s = 0 then s\<lparr>lr_pair := (lr_pair s)(c := round2 add e rank xs (recv c) c)\<rparr> else s)
      in if ct_error (lr_ctrl1 s) = 0
         then s\<lparr>lr_ctrl2 := ring_doorbell slots seq (chunk_nbytes (length xs) (le_chunks e) c) (lr_ctrl2 s)\<rparr> else s)"

definition run_round3 ::
  "('v \<Rightarrow> 'v \<Rightarrow> 'v) \<Rightarrow> 'v launch_env \<Rightarrow> int \<Rightarrow> 'v list \<Rightarrow> (nat \<Rightarrow> nat \<Rightarrow> bool) \<Rightarrow> (nat \<Rightarrow> 'v list) \<Rightarrow> 32 word \<Rightarrow>
    nat \<Rightarrow> 'v lean_run \<Rightarrow> 'v lean_run" where
  "run_round3 add e rank xs timed recv epoch c s =
     (let seq = seq_of epoch c;
          s = (if timed 2 c then s\<lparr>lr_ctrl2 := wait_failed seq (if rank < 2 then 1 else 0) (lr_ctrl2 s), lr_poison := seq\<rparr> else s)
      in if lr_poison s = 0 then s\<lparr>lr_result := round3 add e rank (length xs) (lr_pair s c) (recv c) c (lr_result s)\<rparr> else s)"

definition rank_launch ::
  "('v \<Rightarrow> 'v \<Rightarrow> 'v) \<Rightarrow> nat \<Rightarrow> 'v launch_env \<Rightarrow> int \<Rightarrow> 'v list \<Rightarrow> (nat \<Rightarrow> nat \<Rightarrow> bool) \<Rightarrow> (nat \<Rightarrow> 'v list) \<Rightarrow> (nat \<Rightarrow> 'v list) \<Rightarrow>
    'v lean_run \<Rightarrow> 'v lean_run" where
  "rank_launch add slots e rank xs timed recv1 recv2 s =
     (if lr_poison s = 0
      then let epoch = lr_epoch s; cs = [0..<le_chunks e];
               s = fold (run_round1 slots e xs epoch) cs s;
               s = fold (run_round2 add slots e rank xs timed recv1 epoch) cs s;
               s = fold (run_round3 add e rank xs timed recv2 epoch) cs s
           in if ct_error (lr_ctrl1 s) = 0 \<and> ct_error (lr_ctrl2 s) = 0 then s\<lparr>lr_epoch := epoch + of_nat (le_chunks e)\<rparr> else s
      else s)"

text \<open>The folds of a launch without a wait that runs out.\<close>

definition quiet :: "'v lean_run \<Rightarrow> bool" where
  "quiet s \<longleftrightarrow> lr_poison s = 0 \<and> ct_error (lr_ctrl1 s) = 0 \<and> ct_error (lr_ctrl2 s) = 0"

definition failed :: "'v lean_run \<Rightarrow> bool" where
  "failed s \<longleftrightarrow> lr_poison s \<noteq> 0 \<and> (ct_error (lr_ctrl1 s) \<noteq> 0 \<or> ct_error (lr_ctrl2 s) \<noteq> 0)"

lemma quiet_result [simp]: "quiet (s\<lparr>lr_result := out\<rparr>) = quiet s"
  by (simp add: quiet_def)

lemma round1_keeps:
  "quiet (run_round1 slots e xs epoch c s) = quiet s" "lr_epoch (run_round1 slots e xs epoch c s) = lr_epoch s"
  "lr_result (run_round1 slots e xs epoch c s) = lr_result s" "lr_pair (run_round1 slots e xs epoch c s) = lr_pair s"
  by (simp_all add: run_round1_def quiet_def ring_doorbell_def)

lemma round1_run:
  "quiet (fold (run_round1 slots e xs epoch) cs s) = quiet s" "lr_epoch (fold (run_round1 slots e xs epoch) cs s) = lr_epoch s"
  "lr_result (fold (run_round1 slots e xs epoch) cs s) = lr_result s"
  by (induction cs arbitrary: s) (simp_all add: round1_keeps)

lemma round2_quiet:
  assumes "quiet s" "\<not> timed 1 c"
  shows "quiet (run_round2 add slots e rank xs timed recv epoch c s)"
    "lr_result (run_round2 add slots e rank xs timed recv epoch c s) = lr_result s"
    "lr_pair (run_round2 add slots e rank xs timed recv epoch c s) = (lr_pair s)(c := round2 add e rank xs (recv c) c)"
    "ct_seq (lr_ctrl2 (run_round2 add slots e rank xs timed recv epoch c s)) = seq_of epoch c"
  using assms by (simp_all add: run_round2_def quiet_def ring_doorbell_def Let_def)

lemma round2_run:
  assumes "quiet s" "\<forall>c < n. \<not> timed 1 c"
  shows "quiet (fold (run_round2 add slots e rank xs timed recv epoch) [0..<n] s)
    \<and> lr_result (fold (run_round2 add slots e rank xs timed recv epoch) [0..<n] s) = lr_result s
    \<and> (\<forall>c < n. lr_pair (fold (run_round2 add slots e rank xs timed recv epoch) [0..<n] s) c = round2 add e rank xs (recv c) c)"
  using assms
proof (induction n)
  case (Suc n)
  then show ?case by (auto simp: round2_quiet less_Suc_eq)
qed simp

lemma round3_quiet:
  assumes "quiet s" "\<not> timed 2 c"
  shows "run_round3 add e rank xs timed recv epoch c s = s\<lparr>lr_result := round3 add e rank (length xs) (lr_pair s c) (recv c) c (lr_result s)\<rparr>"
    "quiet (run_round3 add e rank xs timed recv epoch c s)"
  using assms by (simp_all add: run_round3_def quiet_def Let_def)

lemma round3_run:
  assumes "quiet s" "\<forall>c < n. \<not> timed 2 c"
  shows "quiet (fold (run_round3 add e rank xs timed recv epoch) [0..<n] s)
    \<and> lr_pair (fold (run_round3 add e rank xs timed recv epoch) [0..<n] s) = lr_pair s
    \<and> lr_result (fold (run_round3 add e rank xs timed recv epoch) [0..<n] s)
      = fold (\<lambda>c. round3 add e rank (length xs) (lr_pair s c) (recv c) c) [0..<n] (lr_result s)"
  using assms
proof (induction n)
  case (Suc n)
  then show ?case by (simp add: round3_quiet)
qed simp

lemma fold_pairs:
  assumes "\<forall>c \<in> set cs. p c = q c"
  shows "fold (\<lambda>c. f (p c) c) cs a = fold (\<lambda>c. f (q c) c) cs a"
  using assms by (induction cs arbitrary: a) simp_all

theorem healthy_launch_completes:
  assumes "lr_poison s = 0" "ct_error (lr_ctrl1 s) = 0" "ct_error (lr_ctrl2 s) = 0"
    and "\<forall>c < le_chunks (env r). \<not> timed 1 c \<and> \<not> timed 2 c"
    and "lr_result s = le_out (env r)" "recv1 = staged1 env xs (projr (peer r 1))" "recv2 = staged2 add env xs (projr (peer r 2))"
    and "s' = rank_launch add slots (env r) r (xs r) timed recv1 recv2 s"
  shows "lr_result s' = lean_launch add 0 env xs r \<and> lr_epoch s' = lr_epoch s + of_nat (le_chunks (env r)) \<and> lr_poison s' = 0"
proof -
  let ?n = "le_chunks (env r)" and ?e = "env r"
  define s1 where "s1 = fold (run_round1 slots ?e (xs r) (lr_epoch s)) [0..<?n] s"
  define s2 where "s2 = fold (run_round2 add slots ?e r (xs r) timed recv1 (lr_epoch s)) [0..<?n] s1"
  define s3 where "s3 = fold (run_round3 add ?e r (xs r) timed recv2 (lr_epoch s)) [0..<?n] s2"
  have "quiet s" using assms(1-3) by (simp add: quiet_def)
  then have q1: "quiet s1" "lr_result s1 = lr_result s" by (simp_all add: s1_def round1_run)
  have q2: "quiet s2" "lr_result s2 = lr_result s" and p2: "\<forall>c < ?n. lr_pair s2 c = round2 add ?e r (xs r) (recv1 c) c"
    using round2_run [OF q1(1), of ?n timed] assms(4) q1(2) by (simp_all add: s2_def)
  have q3: "quiet s3" "lr_result s3 = fold (\<lambda>c. round3 add ?e r (length (xs r)) (lr_pair s2 c) (recv2 c) c) [0..<?n] (le_out ?e)"
    using round3_run [OF q2(1), of ?n timed] assms(4,5) q2(2) by (simp_all add: s3_def)
  have "s' = s3\<lparr>lr_epoch := lr_epoch s + of_nat ?n\<rparr>"
    using q3(1) assms(1) by (simp add: assms(8) rank_launch_def s1_def [symmetric] s2_def [symmetric] s3_def [symmetric] quiet_def)
  moreover have "lr_result s3 = lean_launch add 0 env xs r"
    unfolding q3(2) lean_launch_def assms(6,7)
    using fold_pairs [of "[0..<?n]" "lr_pair s2" "staged2 add env xs r"
        "\<lambda>p c. round3 add ?e r (length (xs r)) p (staged2 add env xs (projr (peer r 2)) c) c"] p2
    by (simp add: staged2_def assms(6))
  ultimately show ?thesis using q3(1) by (simp add: quiet_def)
qed

lemma failed_persists:
  assumes "failed s" "seq_of epoch c \<noteq> 0"
  shows "failed (run_round2 add slots e rank xs timed recv epoch c s)" "failed (run_round3 add e rank xs timed recv epoch c s)"
    "lr_result (run_round2 add slots e rank xs timed recv epoch c s) = lr_result s"
    "lr_result (run_round3 add e rank xs timed recv epoch c s) = lr_result s"
  using assms by (auto simp: failed_def run_round2_def run_round3_def Let_def wait_failed_def ring_doorbell_def)

lemma timed_out_fails:
  assumes "seq_of epoch c \<noteq> 0"
  shows "timed 1 c \<Longrightarrow> failed (run_round2 add slots e rank xs timed recv epoch c s)"
    "timed 2 c \<Longrightarrow> failed (run_round3 add e rank xs timed recv epoch c s)"
  using assms by (auto simp: failed_def run_round2_def run_round3_def Let_def wait_failed_def ring_doorbell_def)

lemma round2_epoch: "lr_epoch (run_round2 add slots e rank xs timed recv epoch c s) = lr_epoch s"
  "lr_result (run_round2 add slots e rank xs timed recv epoch c s) = lr_result s"
  "lr_epoch (run_round3 add e rank xs timed recv epoch c s) = lr_epoch s"
  by (simp_all add: run_round2_def run_round3_def Let_def)

lemma fold_keeps: "\<forall>c s. f (g c s) = f s \<Longrightarrow> f (fold g cs s) = f s"
  by (induction cs arbitrary: s) simp_all

lemma fold_failed:
  assumes "\<forall>c \<in> set cs. \<forall>s. failed s \<longrightarrow> failed (g c s) \<and> f (g c s) = f s" "failed s"
  shows "failed (fold g cs s) \<and> f (fold g cs s) = f s"
  using assms by (induction cs arbitrary: s) simp_all

lemma fold_becomes_failed:
  assumes "\<forall>c \<in> set cs. \<forall>s. failed s \<longrightarrow> failed (g c s)" "d \<in> set cs" "\<forall>s. failed (g d s)"
  shows "failed (fold g cs s)"
  using assms
proof (induction cs arbitrary: s)
  case (Cons c cs)
  show ?case
  proof (cases "c = d")
    case True
    then show ?thesis using fold_failed [of cs g "\<lambda>_. ()" "g d s"] Cons.prems by simp
  next
    case False
    then show ?thesis using Cons by simp
  qed
qed simp


text \<open>Sequence 0 follows the largest one: the words that should hold the failure then hold the value of no failure.\<close>

theorem wrapped_sequence_hides_timeout:
  assumes "quiet s" "le_chunks e = 1" "lr_epoch s = - 1"
  shows "quiet (rank_launch add slots e rank xs (\<lambda>_ _. True) recv1 recv2 s)
    \<and> lr_epoch (rank_launch add slots e rank xs (\<lambda>_ _. True) recv1 recv2 s) = 0"
  using assms
  by (simp add: rank_launch_def run_round1_def run_round2_def run_round3_def Let_def wait_failed_def ring_doorbell_def quiet_def seq_of_def)

definition demo_ctrl :: ctrl where
  "demo_ctrl = \<lparr>ct_seq = 0, ct_bytes = 0, ct_error = 0, ct_rank = 0, ct_slot_bytes = [0, 0, 0, 0]\<rparr>"

definition demo_run :: "nat lean_run" where
  "demo_run = \<lparr>lr_ctrl1 = demo_ctrl, lr_ctrl2 = demo_ctrl, lr_poison = 0, lr_epoch = 6, lr_sent = (\<lambda>_. []), lr_pair = (\<lambda>_. []), lr_result = [7, 7, 7]\<rparr>"

theorem healthy_launch_completes_witness:
  "lr_result (rank_launch (\<lambda>a b. 2 * a + b) 4 (demo_env 0) 0 (demo_inputs 0) (\<lambda>_ _. False)
      (staged1 demo_env demo_inputs 1) (staged2 (\<lambda>a b. 2 * a + b) demo_env demo_inputs 3) demo_run) = [90, 99, 108]"
proof -
  have p: "projr (peer 0 1) = 1" "projr (peer 0 2) = 3" by code_simp+
  have d: "lr_poison demo_run = 0" "ct_error (lr_ctrl1 demo_run) = 0" "ct_error (lr_ctrl2 demo_run) = 0" "lr_result demo_run = le_out (demo_env 0)"
    by (simp_all add: demo_run_def demo_ctrl_def demo_env_def)
  have "lean_launch (\<lambda>a b. 2 * a + b) 0 demo_env demo_inputs 0 = [90, 99, 108]" by code_simp
  then show ?thesis
    using healthy_launch_completes [OF d(1-3), of demo_env 0 "\<lambda>_ _. False" "staged1 demo_env demo_inputs 1" demo_inputs
        "staged2 (\<lambda>a b. 2 * a + b) demo_env demo_inputs 3" "\<lambda>a b. 2 * a + b" _ 4] d(4) p by simp
qed


end
