(* ===== verification/Lean_Runtime.thy ===== *)
theory Lean_Runtime
  imports Lean_Kernel
begin

unbundle bit_operations_syntax

text \<open>
  The runtime of the small all-reduce (\<open>src/src/tp4/glm53_lean_allreduce/lean_tp4.py\<close>): its voted construction and
  the host side of one call, from the tensor's eligibility to the words of the counter array that the launch uses.
  CUDA, the proxies and the other ranks enter as values; the lock makes calls sequential. An error without a message
  would not count as a vote against; every check here carries one.
\<close>

section \<open>Configuration\<close>

definition PACK_BYTES :: int where "PACK_BYTES = 16"
definition MAX_BYTES :: int where "MAX_BYTES = 2 * 1024 * 1024"
definition MAX_CHUNKS :: int where "MAX_CHUNKS = 2"

fun bit_len :: "nat \<Rightarrow> nat" where
  "bit_len n = (if n = 0 then 0 else Suc (bit_len (n div 2)))"

declare bit_len.simps [simp del]

definition launch_grid :: "int \<Rightarrow> int \<Rightarrow> int \<Rightarrow> int" where
  "launch_grid packs threads max_blocks =
     (let required = max 1 ((packs + 2 * threads - 1) div (2 * threads)) in min (2 ^ bit_len (nat (required - 1))) max_blocks)"

record lean_config =
  lc_max_bytes :: int
  lc_threads :: int
  lc_blocks :: int
  lc_spin_limit :: int
  lc_chunks :: int
  lc_chunk_min :: int

definition lean_config_of :: "environ \<Rightarrow> int \<Rightarrow> int \<Rightarrow> int \<Rightarrow> int \<Rightarrow> int option \<Rightarrow> int option \<Rightarrow> lean_config py" where
  "lean_config_of env max_bytes threads blocks spin chunks chunk_min =
     py_bind (case chunks of Some c \<Rightarrow> Inr c | None \<Rightarrow> env_int env ''GLM53_LEAN_CHUNKS'' 1) (\<lambda>c.
       py_bind (case chunk_min of Some m \<Rightarrow> Inr m | None \<Rightarrow> env_int env ''GLM53_LEAN_CHUNK_MIN_BYTES'' 262144) (\<lambda>m.
         Inr \<lparr>lc_max_bytes = max_bytes, lc_threads = threads, lc_blocks = blocks, lc_spin_limit = spin, lc_chunks = c, lc_chunk_min = m\<rparr>))"

record lean_node =
  nd_world :: int
  nd_rank :: int
  nd_cuda :: bool
  nd_integrated :: bool
  nd_rdma :: bool
  nd_hcas :: bool

definition preflight :: "environ \<Rightarrow> lean_config \<Rightarrow> lean_node \<Rightarrow> unit py" where
  "preflight env c nd =
     py_guard (nd_world nd \<noteq> WORLD_TP \<or> \<not> (0 \<le> nd_rank nd \<and> nd_rank nd < WORLD_TP)) ValueError
      (py_guard (\<not> nd_cuda nd) ValueError
       (py_guard (\<not> nd_integrated nd) ValueError
        (py_guard (\<not> nd_rdma nd) ValueError
         (py_guard (lc_max_bytes c < PACK_BYTES \<or> MAX_BYTES < lc_max_bytes c) ValueError
          (py_guard (lc_threads c mod 32 \<noteq> 0 \<or> lc_threads c < 32 \<or> 1024 < lc_threads c) ValueError
           (py_guard (lc_blocks c < 1 \<or> lc_blocks c AND (lc_blocks c - 1) \<noteq> 0) ValueError
            (py_guard (lc_spin_limit c < 1) ValueError
             (py_guard (lc_chunks c \<notin> {1, MAX_CHUNKS} \<or> lc_chunk_min c < 64 * 1024) ValueError
              (py_bind (env_int env ''NCCL_IB_GID_INDEX'' 3) (\<lambda>gid.
                py_guard (gid < 0) ValueError (py_guard (\<not> nd_hcas nd) ValueError (Inr ()))))))))))))"

definition slot_bytes_of :: "lean_config \<Rightarrow> int" where
  "slot_bytes_of c = (lc_max_bytes c + 4095) div 4096 * 4096"

definition counter_classes :: "lean_config \<Rightarrow> nat" where
  "counter_classes c = bit_len (nat (lc_blocks c))"

definition counter_words :: "lean_config \<Rightarrow> nat" where
  "counter_words c = 2 + (2 * nat MAX_CHUNKS + 1) * counter_classes c"

section \<open>Construction\<close>

datatype dtype = BFloat16 | Float16 | Float32 | Other_Dtype

type_synonym launcher_key = "dtype \<times> int \<times> int \<times> nat \<times> int \<times> int \<times> nat"

record lean =
  ln_cfg :: lean_config
  ln_rank :: int
  ln_device :: nat
  ln_slots :: nat
  ln_flag_stride :: int
  ln_closed :: bool
  ln_capture_id :: int
  ln_capture_stream :: "nat option"
  ln_last_stream :: "nat option"
  ln_scratch :: bool
  ln_failed :: "bool list"
  ln_poison :: "int list"
  ln_prepared :: "launcher_key list"

definition geometry_of :: "lean_config \<Rightarrow> int list" where
  "geometry_of c = [slot_bytes_of c, lc_max_bytes c, lc_spin_limit c, lc_threads c, lc_blocks c, lc_chunks c, lc_chunk_min c]"

text \<open>The allocation of one rank, given what the proxy library lays out.\<close>

definition allocate :: "(nat \<times> int) py \<Rightarrow> (nat \<times> int) py" where
  "allocate laid = py_bind laid (\<lambda>(slots, stride). py_guard (int slots < 2 * MAX_CHUNKS) RuntimeError (Inr (slots, stride)))"

text \<open>\<open>pre\<close>, \<open>alloc\<close>, \<open>conn\<close> and \<open>geos\<close> are what the rank gathers at each stage, its own value among them.\<close>

definition lean_new ::
  "environ \<Rightarrow> lean_config \<Rightarrow> lean_node \<Rightarrow> nat \<Rightarrow> (nat \<times> int) py
     \<Rightarrow> py_error option list \<Rightarrow> py_error option list \<Rightarrow> int list list \<Rightarrow> py_error option list \<Rightarrow> lean py" where
  "lean_new env c nd device laid pre alloc geos conn =
     py_bind (stage_vote pre) (\<lambda>_.
       py_bind (stage_vote alloc) (\<lambda>_.
         py_guard (list_ex (\<lambda>g. g \<noteq> geometry_of c) geos) RuntimeError
           (py_bind (stage_vote conn) (\<lambda>_.
             py_bind (allocate laid) (\<lambda>(slots, stride).
               Inr \<lparr>ln_cfg = c, ln_rank = nd_rank nd, ln_device = device, ln_slots = slots, ln_flag_stride = stride, ln_closed = False,
                 ln_capture_id = 0, ln_capture_stream = None, ln_last_stream = None, ln_scratch = False,
                 ln_failed = [False, False], ln_poison = [0, 0], ln_prepared = []\<rparr>)))))"

section \<open>One call\<close>

record tensor_info =
  tn_cuda :: bool
  tn_device :: nat
  tn_contiguous :: bool
  tn_dtype :: dtype
  tn_numel :: int
  tn_element :: int
  tn_ptr :: int

definition tensor_bytes :: "tensor_info \<Rightarrow> int" where
  "tensor_bytes t = tn_numel t * tn_element t"

definition should_allreduce :: "lean \<Rightarrow> tensor_info \<Rightarrow> bool py" where
  "should_allreduce st t =
     py_guard (ln_closed st) RuntimeError
       (Inr (tn_cuda t \<and> tn_device t = ln_device st \<and> tn_contiguous t \<and> tn_dtype t \<noteq> Other_Dtype
             \<and> 0 < tensor_bytes t \<and> tensor_bytes t \<le> lc_max_bytes (ln_cfg st) \<and> tensor_bytes t mod PACK_BYTES = 0))"

definition check_health :: "lean \<Rightarrow> unit py" where
  "check_health st =
     py_guard (list_ex (\<lambda>(f, p). f \<or> p \<noteq> 0) (zip (ln_failed st) (ln_poison st))) RuntimeError (Inr ())"

text \<open>The watchdog: the exit code it ends the worker with.\<close>

definition watch_health :: "lean \<Rightarrow> int option" where
  "watch_health st = (case check_health st of Inl _ \<Rightarrow> Some 86 | Inr _ \<Rightarrow> None)"

definition chunks_for :: "lean \<Rightarrow> int \<Rightarrow> int" where
  "chunks_for st nbytes = (if 1 < lc_chunks (ln_cfg st) \<and> lc_chunk_min (ln_cfg st) \<le> nbytes then lc_chunks (ln_cfg st) else 1)"

definition choose_chunks :: "lean \<Rightarrow> int \<Rightarrow> int option \<Rightarrow> int py" where
  "choose_chunks st nbytes forced =
     (case forced of
        None \<Rightarrow> Inr (chunks_for st nbytes)
      | Some c \<Rightarrow> py_guard (c \<notin> {1, lc_chunks (ln_cfg st)} \<or> 1 < c \<and> nbytes < 64 * 1024) ValueError (Inr c))"

definition launcher_key :: "lean \<Rightarrow> dtype \<Rightarrow> int \<Rightarrow> launcher_key" where
  "launcher_key st d chunks = (d, ln_rank st, lc_threads (ln_cfg st), ln_slots st, ln_flag_stride st, chunks, ln_device st)"

definition get_launcher :: "lean \<Rightarrow> launcher_key \<Rightarrow> int \<Rightarrow> lean py" where
  "get_launcher st key chunks =
     (if key \<in> set (ln_prepared st) then Inr st
      else py_guard (\<not> launcher_ok (ln_slots st) (nat chunks)) ValueError (Inr (st\<lparr>ln_prepared := key # ln_prepared st\<rparr>)))"

definition ensure_scratch :: "lean \<Rightarrow> bool \<Rightarrow> lean py" where
  "ensure_scratch st capturing =
     (if ln_scratch st then Inr st else py_guard capturing RuntimeError (Inr (st\<lparr>ln_scratch := True\<rparr>)))"

definition prepare :: "lean \<Rightarrow> bool \<Rightarrow> dtype list \<Rightarrow> lean py" where
  "prepare st capturing dtypes =
     py_guard capturing RuntimeError
       (py_bind (fold (\<lambda>(d, c) r. py_bind r (\<lambda>s. py_guard (d = Other_Dtype) KeyError (get_launcher s (launcher_key s d c) c)))
            (List.product dtypes (if lc_chunks (ln_cfg st) = 1 then [1] else [1, lc_chunks (ln_cfg st)])) (Inr st))
          (\<lambda>s. ensure_scratch s False))"

text \<open>\<open>info\<close> is the identifier of the capture, if CUDA can tell it. The result says whether the stream must wait.\<close>

definition order_streams :: "lean \<Rightarrow> bool \<Rightarrow> nat \<Rightarrow> int option \<Rightarrow> (lean \<times> bool) py" where
  "order_streams st capturing current info =
     (if capturing
      then (case info of
              None \<Rightarrow> Inl RuntimeError
            | Some i \<Rightarrow>
                if i \<noteq> ln_capture_id st then Inr (st\<lparr>ln_capture_id := i, ln_capture_stream := Some current\<rparr>, False)
                else py_guard (ln_capture_stream st \<noteq> Some current) RuntimeError (Inr (st, False)))
      else Inr (st, ln_last_stream st \<noteq> None \<and> ln_last_stream st \<noteq> Some current))"

text \<open>The words of the counter array that grid class \<open>k\<close> uses.\<close>

definition stage1_word :: "nat \<Rightarrow> nat \<Rightarrow> nat" where "stage1_word k c = 1 + k * nat MAX_CHUNKS + c"
definition stage2_word :: "nat \<Rightarrow> nat \<Rightarrow> nat \<Rightarrow> nat" where "stage2_word n k c = 1 + n * nat MAX_CHUNKS + k * nat MAX_CHUNKS + c"
definition tail_word :: "nat \<Rightarrow> nat \<Rightarrow> nat" where "tail_word n k = 1 + 2 * n * nat MAX_CHUNKS + k"
definition poison_word :: "nat \<Rightarrow> nat" where "poison_word n = 1 + (2 * nat MAX_CHUNKS + 1) * n"

record launch_args =
  la_from_scratch :: bool
  la_to_scratch :: bool
  la_packs :: int
  la_nbytes :: int
  la_chunks :: int
  la_grid :: int
  la_class :: nat
  la_stage1 :: nat
  la_stage2 :: nat
  la_tail :: nat
  la_poison :: nat
  la_wait :: bool

definition launch_of :: "lean \<Rightarrow> tensor_info \<Rightarrow> int \<Rightarrow> int \<Rightarrow> bool \<Rightarrow> launch_args" where
  "launch_of st t out_ptr chunks wait =
     (let nbytes = tensor_bytes t; grid = launch_grid (nbytes div PACK_BYTES) (lc_threads (ln_cfg st)) (lc_blocks (ln_cfg st));
          k = bit_len (nat grid) - 1; n = counter_classes (ln_cfg st)
      in \<lparr>la_from_scratch = (tn_ptr t mod PACK_BYTES \<noteq> 0), la_to_scratch = (out_ptr mod PACK_BYTES \<noteq> 0),
          la_packs = nbytes div PACK_BYTES, la_nbytes = nbytes, la_chunks = chunks, la_grid = grid, la_class = k,
          la_stage1 = stage1_word k 0, la_stage2 = stage2_word n k 0, la_tail = tail_word n k, la_poison = poison_word n,
          la_wait = wait\<rparr>)"

definition scratch_for :: "lean \<Rightarrow> tensor_info \<Rightarrow> int \<Rightarrow> bool \<Rightarrow> lean py" where
  "scratch_for st t out_ptr capturing =
     (if tn_ptr t mod PACK_BYTES \<noteq> 0 \<or> out_ptr mod PACK_BYTES \<noteq> 0 then ensure_scratch st capturing else Inr st)"

definition after_launch :: "lean \<Rightarrow> bool \<Rightarrow> nat \<Rightarrow> bool list \<times> int list \<Rightarrow> lean" where
  "after_launch st capturing current health =
     st\<lparr>ln_failed := fst health, ln_poison := snd health, ln_last_stream := (if capturing then ln_last_stream st else Some current)\<rparr>"

text \<open>\<open>after\<close> is the health the call finds once it has launched: the proxies' and the poison words.\<close>

definition all_reduce ::
  "lean \<Rightarrow> tensor_info \<Rightarrow> int option \<Rightarrow> bool \<Rightarrow> nat \<Rightarrow> int option \<Rightarrow> int \<Rightarrow> bool list \<times> int list \<Rightarrow> (lean \<times> launch_args) py" where
  "all_reduce st t forced capturing current info out_ptr after =
     py_bind (check_health st) (\<lambda>_.
      py_bind (should_allreduce st t) (\<lambda>ok.
       py_guard (\<not> ok) ValueError
        (py_bind (choose_chunks st (tensor_bytes t) forced) (\<lambda>chunks.
          let key = launcher_key st (tn_dtype t) chunks in
          py_guard (capturing \<and> key \<notin> set (ln_prepared st)) RuntimeError
           (py_bind (get_launcher st key chunks) (\<lambda>s1.
            py_bind (order_streams s1 capturing current info) (\<lambda>(s2, wait).
             py_bind (scratch_for s2 t out_ptr capturing) (\<lambda>s3.
              let s4 = after_launch s3 capturing current after in
              py_bind (if capturing then Inr () else check_health s4) (\<lambda>_. Inr (s4, launch_of st t out_ptr chunks wait))))))))))"

definition lean_close :: "lean \<Rightarrow> lean" where
  "lean_close st = (if ln_closed st then st else st\<lparr>ln_closed := True, ln_failed := []\<rparr>)"


section \<open>What construction establishes\<close>

definition lean_ok :: "lean \<Rightarrow> bool" where
  "lean_ok st \<longleftrightarrow> (let c = ln_cfg st in
     PACK_BYTES \<le> lc_max_bytes c \<and> lc_max_bytes c \<le> MAX_BYTES \<and> lc_threads c mod 32 = 0 \<and> 32 \<le> lc_threads c \<and> lc_threads c \<le> 1024
     \<and> (\<exists>k. lc_blocks c = 2 ^ k) \<and> 1 \<le> lc_spin_limit c \<and> lc_chunks c \<in> {1, MAX_CHUNKS} \<and> 64 * 1024 \<le> lc_chunk_min c
     \<and> 2 * nat MAX_CHUNKS \<le> ln_slots st \<and> 0 \<le> ln_rank st \<and> ln_rank st < WORLD_TP)"

lemma preflight_Inr:
  assumes "preflight env c nd = Inr u"
  shows "0 \<le> nd_rank nd" "nd_rank nd < WORLD_TP" "PACK_BYTES \<le> lc_max_bytes c" "lc_max_bytes c \<le> MAX_BYTES"
    "lc_threads c mod 32 = 0" "32 \<le> lc_threads c" "lc_threads c \<le> 1024" "\<exists>k. lc_blocks c = 2 ^ k" "1 \<le> lc_spin_limit c"
    "lc_chunks c \<in> {1, MAX_CHUNKS}" "64 * 1024 \<le> lc_chunk_min c"
proof -
  have b: "1 \<le> lc_blocks c" "lc_blocks c AND (lc_blocks c - 1) = 0" using assms by (auto simp: preflight_def)
  have "int (nat (lc_blocks c)) AND (int (nat (lc_blocks c)) - 1) = 0" using b by simp
  then obtain k where "nat (lc_blocks c) = 2 ^ k" using power_of_two [of "nat (lc_blocks c)"] b(1) by auto
  then have "lc_blocks c = 2 ^ k" using b(1) by (metis nat_0_le int_nat_eq of_nat_numeral of_nat_power zero_le_one order_trans)
  then show "\<exists>k. lc_blocks c = 2 ^ k" by blast
qed (use assms in \<open>auto simp: preflight_def\<close>)

lemma all_equal_set:
  assumes "x \<in> A" "\<forall>y \<in> A. y = a"
  shows "A = {a}"
proof -
  have e: "y = a" if "y \<in> A" for y by (rule bspec [OF assms(2) that])
  have "a \<in> A" using assms(1) e [OF assms(1)] by simp
  then have "{a} \<subseteq> A" by simp
  moreover have "A \<subseteq> {a}"
  proof
    fix y assume "y \<in> A"
    then show "y \<in> {a}" unfolding singleton_iff by (rule e)
  qed
  ultimately show ?thesis by (rule equalityI [rotated])
qed

theorem construction_is_unanimous:
  assumes "lean_new env c nd device laid pre alloc geos conn = Inr st"
    and "error_of (preflight env c nd) \<in> set pre" "error_of (allocate laid) \<in> set alloc" "geometry_of c \<in> set geos"
  shows "lean_ok st \<and> set pre = {None} \<and> set alloc = {None} \<and> set geos = {geometry_of c} \<and> set conn \<subseteq> {None}
    \<and> preflight env c nd = Inr () \<and> check_health st = Inr ()"
proof -
  obtain slots stride where n: "\<forall>e \<in> set pre. e = None" "\<forall>e \<in> set alloc. e = None" "\<forall>g \<in> set geos. g = geometry_of c"
    "\<forall>e \<in> set conn. e = None" "allocate laid = Inr (slots, stride)"
    "st = \<lparr>ln_cfg = c, ln_rank = nd_rank nd, ln_device = device, ln_slots = slots, ln_flag_stride = stride, ln_closed = False,
       ln_capture_id = 0, ln_capture_stream = None, ln_last_stream = None, ln_scratch = False,
       ln_failed = [False, False], ln_poison = [0, 0], ln_prepared = []\<rparr>"
    using assms(1) by (auto simp: lean_new_def stage_vote_def list_ex_iff)
  have "error_of (preflight env c nd) = None" using assms(2) n(1) by blast
  then have p: "preflight env c nd = Inr ()" by (cases "preflight env c nd") (auto simp: error_of_def)
  have s: "2 * nat MAX_CHUNKS \<le> slots" using n(5) by (auto simp: allocate_def MAX_CHUNKS_def)
  note pf = preflight_Inr [OF p]
  have "lean_ok st" unfolding lean_ok_def n(6) Let_def using pf s by simp
  moreover have "check_health st = Inr ()" unfolding n(6) check_health_def by simp
  moreover have "set pre = {None}" by (rule all_equal_set [OF assms(2) n(1)])
  moreover have "set alloc = {None}" by (rule all_equal_set [OF assms(3) n(2)])
  moreover have "set geos = {geometry_of c}" by (rule all_equal_set [OF assms(4) n(3)])
  moreover have "set conn \<subseteq> {None}" using n(4) by (simp add: subset_iff)
  ultimately show ?thesis using p by blast
qed

section \<open>Grids and counters\<close>

lemma bit_len_power: "0 < n \<Longrightarrow> 2 ^ (bit_len n - 1) \<le> n \<and> n < 2 ^ bit_len n \<and> 0 < bit_len n"
proof (induction n rule: bit_len.induct)
  case (1 n)
  show ?case
  proof (cases "n = 1")
    case True
    then show ?thesis by (simp add: bit_len.simps [of "Suc 0"] bit_len.simps [of 0])
  next
    case False
    then have ih: "2 ^ (bit_len (n div 2) - 1) \<le> n div 2 \<and> n div 2 < 2 ^ bit_len (n div 2) \<and> 0 < bit_len (n div 2)" using 1 by simp
    have b: "bit_len n = Suc (bit_len (n div 2))" using 1(2) by (subst bit_len.simps) simp
    have "(2::nat) ^ bit_len (n div 2) = 2 * 2 ^ (bit_len (n div 2) - 1)" using ih by (cases "bit_len (n div 2)") simp_all
    then have "2 ^ bit_len (n div 2) \<le> n" "n < 2 * 2 ^ bit_len (n div 2)" using ih by linarith+
    then show ?thesis unfolding b by simp
  qed
qed

lemma bit_len_of_power [simp]: "bit_len (2 ^ k) = Suc k"
proof -
  have b: "2 ^ (bit_len (2 ^ k) - 1) \<le> (2::nat) ^ k" "(2::nat) ^ k < 2 ^ bit_len (2 ^ k)" "0 < bit_len (2 ^ k)"
    using bit_len_power [of "2 ^ k"] by simp_all
  have "bit_len (2 ^ k) - 1 \<le> k" "k < bit_len (2 ^ k)" using b(1,2) by simp_all
  then show ?thesis by simp
qed

lemma launch_grid_power:
  assumes "blocks = 2 ^ b"
  shows "\<exists>k \<le> b. launch_grid packs threads blocks = 2 ^ k"
proof -
  let ?j = "bit_len (nat (max 1 ((packs + 2 * threads - 1) div (2 * threads)) - 1))"
  have "min (2 ^ ?j) (2 ^ b) = (2 :: int) ^ min ?j b" by (auto simp: min_def)
  then show ?thesis unfolding launch_grid_def Let_def assms by (intro exI [of _ "min ?j b"]) simp
qed

text \<open>Every word of the counter array belongs to one purpose.\<close>

definition all_words :: "nat \<Rightarrow> nat list" where
  "all_words n = [0] @ concat (map (\<lambda>k. [stage1_word k 0, stage1_word k 1]) [0..<n])
     @ concat (map (\<lambda>k. [stage2_word n k 0, stage2_word n k 1]) [0..<n]) @ map (tail_word n) [0..<n] @ [poison_word n]"

theorem counter_words_partition: "all_words n = [0..<2 + (2 * nat MAX_CHUNKS + 1) * n]"
proof -
  have c: "concat (map (\<lambda>k. [b + k * 2, b + k * 2 + 1]) [0..<n]) = [b..<b + 2 * n]" for b
    by (induction n) (simp_all add: upt_conv_Cons [symmetric] mult.commute upt_Suc_append)
  have s1: "concat (map (\<lambda>k. [stage1_word k 0, stage1_word k 1]) [0..<n]) = [1..<1 + 2 * n]"
    using c [of 1] by (simp add: stage1_word_def MAX_CHUNKS_def)
  have s2: "concat (map (\<lambda>k. [stage2_word n k 0, stage2_word n k 1]) [0..<n]) = [1 + 2 * n..<1 + 4 * n]"
    using c [of "1 + 2 * n"] by (simp add: stage2_word_def MAX_CHUNKS_def mult.commute)
  have t: "map (tail_word n) [0..<n] = [1 + 4 * n..<1 + 5 * n]"
  proof -
    have m: "map (\<lambda>k. b + k) [0..<n] = [b..<b + n]" for b by (simp add: map_add_upt add.commute)
    have "tail_word n = (\<lambda>k. 1 + 4 * n + k)" by (simp add: fun_eq_iff tail_word_def MAX_CHUNKS_def)
    moreover have "1 + 4 * n + n = 1 + 5 * n" by simp
    ultimately show ?thesis using m [of "1 + 4 * n"] by metis
  qed
  have "[0..<2 + 5 * n] = [0..<1] @ [1..<1 + 2 * n] @ [1 + 2 * n..<1 + 4 * n] @ [1 + 4 * n..<1 + 5 * n] @ [1 + 5 * n..<2 + 5 * n]"
  proof -
    have u: "[a..<c] = [a..<b] @ [b..<c]" if "a \<le> b" "b \<le> c" for a b c :: nat
      using upt_add_eq_append [OF that(1), of "c - b"] that(2) by simp
    show ?thesis using u [of 0 1 "2 + 5 * n"] u [of 1 "1 + 2 * n" "2 + 5 * n"] u [of "1 + 2 * n" "1 + 4 * n" "2 + 5 * n"]
      u [of "1 + 4 * n" "1 + 5 * n" "2 + 5 * n"] by (simp del: upt_Suc)
  qed
  then show ?thesis unfolding all_words_def s1 s2 t by (simp add: poison_word_def MAX_CHUNKS_def)
qed


section \<open>A call\<close>

lemma order_streams_Inr:
  assumes "order_streams st capturing current info = Inr (st', wait)"
  shows "ln_cfg st' = ln_cfg st" "ln_slots st' = ln_slots st" "ln_rank st' = ln_rank st" "ln_prepared st' = ln_prepared st"
    "ln_last_stream st' = ln_last_stream st" "ln_closed st' = ln_closed st" "ln_scratch st' = ln_scratch st"
    "capturing \<Longrightarrow> info = Some (ln_capture_id st') \<and> ln_capture_stream st' = Some current"
    "\<not> capturing \<Longrightarrow> st' = st \<and> wait = (ln_last_stream st \<noteq> None \<and> ln_last_stream st \<noteq> Some current)"
  using assms by (auto simp: order_streams_def split: if_splits option.splits)

lemma get_launcher_Inr:
  assumes "get_launcher st key chunks = Inr st'"
  shows "ln_cfg st' = ln_cfg st" "ln_slots st' = ln_slots st" "ln_rank st' = ln_rank st" "ln_closed st' = ln_closed st"
    "ln_last_stream st' = ln_last_stream st" "ln_capture_id st' = ln_capture_id st" "ln_capture_stream st' = ln_capture_stream st"
    "ln_scratch st' = ln_scratch st" "key \<in> set (ln_prepared st')"
  using assms by (auto simp: get_launcher_def split: if_splits)

lemma ensure_scratch_Inr:
  assumes "ensure_scratch st capturing = Inr st'"
  shows "st' = st\<lparr>ln_scratch := True\<rparr>" "capturing \<Longrightarrow> ln_scratch st"
  using assms by (auto simp: ensure_scratch_def split: if_splits)

text \<open>The steps of a successful call.\<close>

lemma all_reduce_Inr:
  assumes "all_reduce st t forced capturing current info out_ptr after = Inr (st', la)"
  shows "\<exists>chunks s1 s2 s3 wait. check_health st = Inr () \<and> should_allreduce st t = Inr True \<and> choose_chunks st (tensor_bytes t) forced = Inr chunks
    \<and> (capturing \<longrightarrow> launcher_key st (tn_dtype t) chunks \<in> set (ln_prepared st))
    \<and> get_launcher st (launcher_key st (tn_dtype t) chunks) chunks = Inr s1
    \<and> order_streams s1 capturing current info = Inr (s2, wait)
    \<and> scratch_for s2 t out_ptr capturing = Inr s3 \<and> st' = after_launch s3 capturing current after
    \<and> (\<not> capturing \<longrightarrow> check_health st' = Inr ()) \<and> la = launch_of st t out_ptr chunks wait"
proof -
  obtain chunks s1 s2 s3 wait u where "check_health st = Inr ()" "should_allreduce st t = Inr True" "choose_chunks st (tensor_bytes t) forced = Inr chunks"
    "\<not> (capturing \<and> launcher_key st (tn_dtype t) chunks \<notin> set (ln_prepared st))"
    "get_launcher st (launcher_key st (tn_dtype t) chunks) chunks = Inr s1" "order_streams s1 capturing current info = Inr (s2, wait)"
    "scratch_for s2 t out_ptr capturing = Inr s3"
    "(if capturing then Inr () else check_health (after_launch s3 capturing current after)) = Inr u"
    "(after_launch s3 capturing current after, launch_of st t out_ptr chunks wait) = (st', la)"
    using assms unfolding all_reduce_def Let_def by fastforce
  then show ?thesis by auto
qed

text \<open>The largest chunk of a message fits a slot of the proxy.\<close>

lemma slot_fits: "n \<le> lc_max_bytes c \<Longrightarrow> n \<le> slot_bytes_of c"
proof -
  assume n: "n \<le> lc_max_bytes c"
  have "lc_max_bytes c + 4095 < (lc_max_bytes c + 4095) div 4096 * 4096 + 4096" by (rule div_bounds) simp
  then show ?thesis using n by (simp add: slot_bytes_of_def)
qed

text \<open>
  A call that launches on a runtime built by the constructor stays within every bound the
  kernel and the proxy rely on: message size, slot size, chunks, grid, counter words, scratch
  and capture.
\<close>

theorem call_is_legal:
  assumes "lean_ok st" "all_reduce st t forced capturing current info out_ptr after = Inr (st', la)"
  shows "lean_ok st' \<and> la_nbytes la = tensor_bytes t \<and> la_packs la * PACK_BYTES = la_nbytes la \<and> 0 < la_nbytes la
    \<and> la_nbytes la \<le> slot_bytes_of (ln_cfg st) \<and> la_chunks la \<in> {1, lc_chunks (ln_cfg st)} \<and> (1 < la_chunks la \<longrightarrow> 64 * 1024 \<le> la_nbytes la)
    \<and> (\<exists>k. la_grid la = 2 ^ k) \<and> la_grid la \<le> lc_blocks (ln_cfg st) \<and> la_grid la = 2 ^ la_class la
    \<and> la_class la < counter_classes (ln_cfg st)
    \<and> distinct [0, la_stage1 la, la_stage1 la + 1, la_stage2 la, la_stage2 la + 1, la_tail la, la_poison la]
    \<and> list_all (\<lambda>w. w < counter_words (ln_cfg st)) [la_stage1 la + 1, la_stage2 la + 1, la_tail la, la_poison la]
    \<and> ((la_from_scratch la \<or> la_to_scratch la) \<longrightarrow> ln_scratch st')
    \<and> (capturing \<longrightarrow> (\<exists>chunks. launcher_key st (tn_dtype t) chunks \<in> set (ln_prepared st)) \<and> ln_capture_stream st' = Some current
         \<and> info = Some (ln_capture_id st'))"
proof -
  define c where "c = ln_cfg st"
  obtain chunks s1 s2 s3 wait where a: "should_allreduce st t = Inr True" "choose_chunks st (tensor_bytes t) forced = Inr chunks"
    "capturing \<longrightarrow> launcher_key st (tn_dtype t) chunks \<in> set (ln_prepared st)"
    "get_launcher st (launcher_key st (tn_dtype t) chunks) chunks = Inr s1" "order_streams s1 capturing current info = Inr (s2, wait)"
    "scratch_for s2 t out_ptr capturing = Inr s3" "st' = after_launch s3 capturing current after"
    "la = launch_of st t out_ptr chunks wait"
    using all_reduce_Inr [OF assms(2)] by blast
  note g = get_launcher_Inr [OF a(4)] and o = order_streams_Inr [OF a(5)]
  have s3: "ln_cfg s3 = c" "ln_slots s3 = ln_slots st" "ln_rank s3 = ln_rank st" "ln_capture_stream s3 = ln_capture_stream s2"
    "ln_capture_id s3 = ln_capture_id s2" "tn_ptr t mod PACK_BYTES \<noteq> 0 \<or> out_ptr mod PACK_BYTES \<noteq> 0 \<Longrightarrow> ln_scratch s3"
    using a(6) ensure_scratch_Inr [of s2 capturing s3] g o by (auto simp: c_def scratch_for_def split: if_splits)
  have ok: "lean_ok st'" using assms(1) unfolding lean_ok_def a(7) after_launch_def by (simp add: s3 c_def)
  obtain b where b: "lc_blocks c = 2 ^ b" using assms(1) by (auto simp: lean_ok_def Let_def c_def)
  obtain k where k: "k \<le> b" "launch_grid (tensor_bytes t div PACK_BYTES) (lc_threads c) (lc_blocks c) = 2 ^ k"
    using launch_grid_power [OF b] by blast
  have cl: "counter_classes c = Suc b" unfolding counter_classes_def b by (simp add: nat_power_eq)
  have kl: "bit_len (nat (2 ^ k)) - 1 = k" by (simp add: nat_power_eq)
  have l: "la_nbytes la = tensor_bytes t" "la_packs la = tensor_bytes t div PACK_BYTES" "la_chunks la = chunks" "la_grid la = 2 ^ k" "la_class la = k"
    "la_stage1 la = 1 + 2 * k" "la_stage2 la = 1 + 2 * Suc b + 2 * k" "la_tail la = 1 + 4 * Suc b + k" "la_poison la = 1 + 5 * Suc b"
    "la_from_scratch la = (tn_ptr t mod PACK_BYTES \<noteq> 0)" "la_to_scratch la = (out_ptr mod PACK_BYTES \<noteq> 0)"
    unfolding a(8) launch_of_def Let_def c_def [symmetric] k(2) kl cl
    by (simp_all add: stage1_word_def stage2_word_def tail_word_def poison_word_def MAX_CHUNKS_def)
  have n: "0 < tensor_bytes t" "tensor_bytes t \<le> lc_max_bytes c" "tensor_bytes t mod PACK_BYTES = 0"
    using a(1) by (auto simp: should_allreduce_def c_def)
  have ch: "chunks \<in> {1, lc_chunks c}" "1 < chunks \<longrightarrow> 64 * 1024 \<le> tensor_bytes t"
    using a(2) assms(1) by (auto simp: choose_chunks_def chunks_for_def lean_ok_def Let_def c_def split: option.splits if_splits)
  have w: "counter_words c = 2 + 5 * Suc b" by (simp add: counter_words_def cl MAX_CHUNKS_def)
  have p: "tensor_bytes t div PACK_BYTES * PACK_BYTES = tensor_bytes t" using n(3) by (simp add: mod_0_imp_dvd)
  have bl: "(2::int) ^ k \<le> 2 ^ b" using k(1) by simp
  have cap: "capturing \<longrightarrow> ln_capture_stream st' = Some current \<and> info = Some (ln_capture_id st')"
    using o(8) unfolding a(7) after_launch_def by (simp add: s3)
  show ?thesis
    unfolding c_def [symmetric] l w cl b list.pred_inject distinct.simps
    using ok n(1) slot_fits [OF n(2)] ch p bl k(1) s3(6) a(3) cap
    by (intro conjI) (auto simp: a(7) after_launch_def)
qed

theorem one_stream_per_capture:
  assumes "all_reduce st t forced True current (Some i) out_ptr after = Inr (st1, la1)"
    and "all_reduce st1 t' forced' True current' (Some i) out_ptr' after' = Inr (st2, la2)"
  shows "current' = current"
proof -
  have a: "\<exists>s1 s2 wait. order_streams s1 True c (Some i) = Inr (s2, wait) \<and> ln_capture_id s1 = ln_capture_id s
      \<and> ln_capture_stream s1 = ln_capture_stream s \<and> ln_capture_id s' = ln_capture_id s2 \<and> ln_capture_stream s' = ln_capture_stream s2"
    if al: "all_reduce s u f True c (Some i) q h = Inr (s', la)" for s u f c q h s' la
  proof -
    obtain chunks s1 s2 s3 wait where r: "get_launcher s (launcher_key s (tn_dtype u) chunks) chunks = Inr s1"
      "order_streams s1 True c (Some i) = Inr (s2, wait)" "scratch_for s2 u q True = Inr s3" "s' = after_launch s3 True c h"
      using all_reduce_Inr [OF al] by blast
    have "ln_capture_id s3 = ln_capture_id s2 \<and> ln_capture_stream s3 = ln_capture_stream s2"
      using r(3) ensure_scratch_Inr(1) [of s2 True s3] by (auto simp: scratch_for_def split: if_splits)
    then show ?thesis using get_launcher_Inr(6,7) [OF r(1)] r(2) unfolding r(4) after_launch_def by auto
  qed
  obtain s1 s2 wait where x: "order_streams s1 True current (Some i) = Inr (s2, wait) \<and> ln_capture_id s1 = ln_capture_id st
      \<and> ln_capture_stream s1 = ln_capture_stream st \<and> ln_capture_id st1 = ln_capture_id s2 \<and> ln_capture_stream st1 = ln_capture_stream s2"
    using a [OF assms(1)] by (elim exE) (rule that)
  obtain r1 r2 wait' where y: "order_streams r1 True current' (Some i) = Inr (r2, wait') \<and> ln_capture_id r1 = ln_capture_id st1
      \<and> ln_capture_stream r1 = ln_capture_stream st1 \<and> ln_capture_id st2 = ln_capture_id r2 \<and> ln_capture_stream st2 = ln_capture_stream r2"
    using a [OF assms(2)] by (elim exE) (rule that)
  have "ln_capture_id r1 = i" "ln_capture_stream r1 = Some current" using order_streams_Inr(8) [OF conjunct1 [OF x]] x y by simp_all
  then show ?thesis using conjunct1 [OF y] by (auto simp: order_streams_def)
qed

section \<open>Examples\<close>

definition demo_lean_config :: lean_config where
  "demo_lean_config = \<lparr>lc_max_bytes = 2097152, lc_threads = 512, lc_blocks = 8, lc_spin_limit = 20000000, lc_chunks = 2, lc_chunk_min = 262144\<rparr>"

definition demo_node :: lean_node where
  "demo_node = \<lparr>nd_world = 4, nd_rank = 2, nd_cuda = True, nd_integrated = True, nd_rdma = True, nd_hcas = True\<rparr>"

definition demo_lean :: lean where
  "demo_lean = projr (lean_new Map.empty demo_lean_config demo_node 0 (Inr (4, 64)) [None] [None] [geometry_of demo_lean_config] [None])"

definition demo_message :: tensor_info where
  "demo_message = \<lparr>tn_cuda = True, tn_device = 0, tn_contiguous = True, tn_dtype = BFloat16, tn_numel = 200000, tn_element = 2, tn_ptr = 8\<rparr>"

lemma demo_lean_new:
  "lean_new Map.empty demo_lean_config demo_node 0 (Inr (4, 64)) [None] [None] [geometry_of demo_lean_config] [None] = Inr demo_lean"
  unfolding demo_lean_def by code_simp

theorem construction_is_unanimous_witness: "lean_ok demo_lean \<and> preflight Map.empty demo_lean_config demo_node = Inr ()"
proof -
  have "error_of (preflight Map.empty demo_lean_config demo_node) = None" "error_of (allocate (Inr (4, 64))) = None" by code_simp+
  then show ?thesis using construction_is_unanimous [OF demo_lean_new] by simp
qed

lemma demo_lean_ok: "lean_ok demo_lean"
proof -
  have "ln_cfg demo_lean = demo_lean_config" "ln_slots demo_lean = 4" "ln_rank demo_lean = 2" by code_simp+
  moreover have "\<exists>k. (8::int) = 2 ^ k" by (rule exI [of _ 3]) simp
  ultimately show ?thesis unfolding lean_ok_def Let_def
    by (simp add: demo_lean_config_def PACK_BYTES_def MAX_BYTES_def MAX_CHUNKS_def WORLD_TP_def)
qed

theorem call_is_legal_witness:
  "\<exists>st' la. all_reduce demo_lean demo_message None False 7 None 0 ([False, False], [0, 0]) = Inr (st', la)
     \<and> la_packs la * 16 = 400000 \<and> la_chunks la = 2 \<and> la_grid la = 8 \<and> la_from_scratch la \<and> ln_scratch st' \<and> lean_ok st'"
proof -
  define r where "r = projr (all_reduce demo_lean demo_message None False 7 None 0 ([False, False], [0, 0]))"
  have r: "all_reduce demo_lean demo_message None False 7 None 0 ([False, False], [0, 0]) = Inr (fst r, snd r)" unfolding r_def by code_simp
  have v: "la_chunks (snd r) = 2" "la_grid (snd r) = 8" "la_from_scratch (snd r)" "tensor_bytes demo_message = 400000" unfolding r_def by code_simp+
  show ?thesis using call_is_legal [OF demo_lean_ok r] r v by (intro exI [of _ "fst r"] exI [of _ "snd r"]) (simp add: PACK_BYTES_def)
qed

theorem one_stream_per_capture_witness:
  "\<exists>st0 st1 st2 la1 la2. prepare demo_lean False [BFloat16] = Inr st0
     \<and> all_reduce st0 demo_message None True 5 (Some 1) 0 ([False, False], [0, 0]) = Inr (st1, la1)
     \<and> all_reduce st1 demo_message None True 5 (Some 1) 0 ([False, False], [0, 0]) = Inr (st2, la2)
     \<and> isl (all_reduce st1 demo_message None True 6 (Some 1) 0 ([False, False], [0, 0]))"
proof -
  define st0 where "st0 = projr (prepare demo_lean False [BFloat16])"
  define r where "r = projr (all_reduce st0 demo_message None True 5 (Some 1) 0 ([False, False], [0, 0]))"
  have p: "prepare demo_lean False [BFloat16] = Inr st0" unfolding st0_def by code_simp
  have a: "all_reduce st0 demo_message None True 5 (Some 1) 0 ([False, False], [0, 0]) = Inr (fst r, snd r)" unfolding r_def st0_def by code_simp
  have "\<not> isl (all_reduce (fst r) demo_message None True 5 (Some 1) 0 ([False, False], [0, 0]))" unfolding r_def st0_def by code_simp
  then obtain st2 la2 where b: "all_reduce (fst r) demo_message None True 5 (Some 1) 0 ([False, False], [0, 0]) = Inr (st2, la2)"
    by (cases "all_reduce (fst r) demo_message None True 5 (Some 1) 0 ([False, False], [0, 0])") auto
  have "all_reduce (fst r) demo_message None True 6 (Some 1) 0 ([False, False], [0, 0]) \<noteq> Inr (s, l)" for s l
    using one_stream_per_capture [OF a, of demo_message None 6 0 "([False, False], [0, 0])" s l] by auto
  then have "isl (all_reduce (fst r) demo_message None True 6 (Some 1) 0 ([False, False], [0, 0]))"
    by (cases "all_reduce (fst r) demo_message None True 6 (Some 1) 0 ([False, False], [0, 0])") auto
  then show ?thesis using p a b by blast
qed

end
