(* ===== verification/Ring_Runtime.thy ===== *)
theory Ring_Runtime
  imports Ring_Region
begin

text \<open>
  The runtime of the prefill ring (\<open>src/src/tp4/glm53_prefill_rdma/ring.py\<close>): its configuration, the voted construction on
  all four ranks, the checks of a collective call, health and close. The compiled library, CUDA and the device tree enter
  as values: what loading, creating, connecting and launching return. The lock makes calls sequential. The mapping
  statistics of the READY log line (\<open>region_backing\<close>), \<open>stats\<close> and the declarations of the library's signatures are left out.
\<close>

section \<open>Configuration\<close>

definition MEMORY :: "string list" where "MEMORY = [''pinned'', ''hostthp'']"

text \<open>The keyword arguments of the constructor.\<close>

record 'f ring_args =
  ra_rank :: int
  ra_max_rows :: int
  ra_chunk_rows :: "int option"
  ra_nslot :: "int option"
  ra_parts :: "int option"
  ra_grid :: "int option"
  ra_proxy_cpu :: "int option"
  ra_timeout :: "'f option"
  ra_memory :: "string option"
  ra_fatal :: bool

record 'f ring_config =
  rc_rank :: int
  rc_max_rows :: int
  rc_chunk_rows :: int
  rc_nslot :: int
  rc_parts :: int
  rc_grid :: int
  rc_proxy_cpu :: int
  rc_timeout :: 'f
  rc_memory :: string
  rc_fatal :: bool

definition int_option :: "environ \<Rightarrow> string \<Rightarrow> int \<Rightarrow> int option \<Rightarrow> int py" where
  "int_option env key d given = (case given of Some v \<Rightarrow> Inr v | None \<Rightarrow> env_int env key d)"

text \<open>\<open>to_float\<close> is Python's conversion of a string.\<close>

definition ring_config_of :: "(string \<Rightarrow> 'f py) \<Rightarrow> environ \<Rightarrow> 'f ring_args \<Rightarrow> 'f ring_config py" where
  "ring_config_of to_float env a =
     py_bind (int_option env ''GLM53_PRB_CHUNK_ROWS'' 32 (ra_chunk_rows a)) (\<lambda>chunk.
     py_bind (int_option env ''GLM53_PRB_SLOTS'' 16 (ra_nslot a)) (\<lambda>slots.
     py_bind (int_option env ''GLM53_PRB_PARTS'' 4 (ra_parts a)) (\<lambda>parts.
     py_bind (int_option env ''GLM53_PRB_GRID'' 32 (ra_grid a)) (\<lambda>grid.
     py_bind (int_option env ''GLM53_PRB_PROXY_CPU'' (- 1) (ra_proxy_cpu a)) (\<lambda>cpu.
     py_bind (case ra_timeout a of Some t \<Rightarrow> Inr t
              | None \<Rightarrow> to_float (case env ''GLM53_PRB_TIMEOUT_S'' of None \<Rightarrow> ''300'' | Some v \<Rightarrow> v)) (\<lambda>timeout.
       Inr \<lparr>rc_rank = ra_rank a, rc_max_rows = ra_max_rows a, rc_chunk_rows = chunk, rc_nslot = slots, rc_parts = parts,
            rc_grid = grid, rc_proxy_cpu = cpu, rc_timeout = timeout,
            rc_memory = (case ra_memory a of Some m \<Rightarrow> m
                         | None \<Rightarrow> (case env ''GLM53_PRB_MEMORY'' of None \<Rightarrow> ''hostthp'' | Some m \<Rightarrow> m)),
            rc_fatal = ra_fatal a\<rparr>))))))"

section \<open>Construction\<close>

text \<open>What a rank finds on its node, and what the library answers it. \<open>rr_context\<close> says whether \<open>prb_create\<close> returned a context.\<close>

record ('f, 'b) ring_rank =
  rr_env :: environ
  rr_args :: "'f ring_args"
  rr_world :: int
  rr_group_rank :: int
  rr_cuda :: bool
  rr_integrated :: bool
  rr_hcas :: bool
  rr_load :: "unit py"
  rr_context :: bool
  rr_blob :: "'b py"
  rr_connect :: "'b \<Rightarrow> 'b \<Rightarrow> unit py"
  rr_start :: "unit py"

definition ring_preflight :: "'f ring_config \<Rightarrow> ('f, 'b) ring_rank \<Rightarrow> unit py" where
  "ring_preflight c r =
     py_guard (rr_world r \<noteq> WORLD \<or> rr_group_rank r \<noteq> rc_rank c) ValueError
      (py_guard (\<not> rr_cuda r) ValueError
       (py_guard (\<not> rr_integrated r) ValueError
        (py_guard (\<not> rr_hcas r) ValueError
         (py_guard (rc_max_rows c mod WORLD \<noteq> 0 \<or> \<not> (1 \<le> rc_chunk_rows c \<and> rc_chunk_rows c \<le> 1024) \<or> rc_nslot c < 2
              \<or> \<not> (1 \<le> rc_parts c \<and> rc_parts c \<le> 64) \<or> \<not> (1 \<le> rc_grid c \<and> rc_grid c \<le> 64) \<or> rc_memory c \<notin> set MEMORY) ValueError
          (rr_load r)))))"

text \<open>The create stage of a rank: whether it leaves a context open, and its blob. \<open>to_ns\<close> is \<open>int(timeout * 1e9)\<close>.\<close>

definition ring_create :: "('f \<Rightarrow> int py) \<Rightarrow> 'f ring_config \<Rightarrow> ('f, 'b) ring_rank \<Rightarrow> bool \<times> 'b py" where
  "ring_create to_ns c r =
     (case py_bind (env_int (rr_env r) ''NCCL_IB_GID_INDEX'' 3) (\<lambda>_. to_ns (rc_timeout c)) of
        Inl e \<Rightarrow> (False, Inl e)
      | Inr _ \<Rightarrow> (rr_context r, py_guard (\<not> rr_context r) RuntimeError (rr_blob r)))"

definition ring_geometry :: "'f ring_config \<Rightarrow> int list \<times> 'f \<times> string" where
  "ring_geometry c = ([rc_chunk_rows c, rc_nslot c, rc_parts c, rc_grid c, rc_max_rows c], rc_timeout c, rc_memory c)"

definition ring_connect :: "'f ring_config list \<Rightarrow> 'b list \<Rightarrow> 'f ring_config \<Rightarrow> ('f, 'b) ring_rank \<Rightarrow> unit py" where
  "ring_connect cs blobs c r =
     py_guard (card (set (map ring_geometry cs)) \<noteq> 1) RuntimeError
       (py_bind (rr_connect r (blobs ! nat ((rc_rank c + 1) mod WORLD)) (blobs ! nat ((rc_rank c + WORLD - 1) mod WORLD)))
          (\<lambda>_. rr_start r))"

record 'f ring =
  rg_config :: "'f ring_config"
  rg_open :: bool
  rg_closed :: bool
  rg_watch :: bool
  rg_last_stream :: "nat option"
  rg_calls :: int

definition ring_init :: "'f ring_config \<Rightarrow> bool \<Rightarrow> 'f ring" where
  "ring_init c opened = \<lparr>rg_config = c, rg_open = opened, rg_closed = False, rg_watch = False, rg_last_stream = None, rg_calls = 0\<rparr>"

definition ring_close :: "'f ring \<Rightarrow> 'f ring" where
  "ring_close st = (if rg_open st \<and> \<not> rg_closed st then st\<lparr>rg_watch := False, rg_closed := True, rg_open := False\<rparr> else st\<lparr>rg_watch := False\<rparr>)"

text \<open>
  The outcome of the constructor on rank \<open>i\<close> of the four: \<open>Waits\<close> when it is left in a gather that a rank never reaches,
  \<open>Raised\<close> with what the rank still holds, or \<open>Ready\<close>.
\<close>

datatype 'f outcome = Waits | Raised py_error "'f ring option" | Ready "'f ring"

definition construct_rings :: "(string \<Rightarrow> 'f py) \<Rightarrow> ('f \<Rightarrow> int py) \<Rightarrow> ('f, 'b) ring_rank list \<Rightarrow> nat \<Rightarrow> 'f outcome" where
  "construct_rings to_float to_ns rs i =
     (let configs = map (\<lambda>r. ring_config_of to_float (rr_env r) (rr_args r)) rs in
      case configs ! i of Inl e \<Rightarrow> Raised e None
      | Inr c \<Rightarrow>
        if list_ex isl configs then Waits
        else let cs = map projr configs in
          case stage_vote (map2 (\<lambda>c r. error_of (ring_preflight c r)) cs rs) of
            Inl e \<Rightarrow> Raised e (Some (ring_init c False))
          | Inr _ \<Rightarrow>
            let made = map2 (ring_create to_ns) cs rs; st = ring_init c (fst (made ! i)) in
            case stage_vote (map (\<lambda>m. error_of (snd m)) made) of
              Inl e \<Rightarrow> Raised e (Some (ring_close st))
            | Inr _ \<Rightarrow>
              (case stage_vote (map2 (\<lambda>c r. error_of (ring_connect cs (map (projr \<circ> snd) made) c r)) cs rs) of
                 Inl e \<Rightarrow> Raised e (Some (ring_close st))
               | Inr _ \<Rightarrow> Ready (st\<lparr>rg_watch := rc_fatal c\<rparr>)))"

section \<open>Calls\<close>

text \<open>\<open>code\<close> is the library's verdict on a live context, 0 when it is well.\<close>

definition ring_health :: "'f ring \<Rightarrow> int \<Rightarrow> int" where
  "ring_health st code = (if rg_open st then code else 1)"

definition ring_check_health :: "'f ring \<Rightarrow> int \<Rightarrow> unit py" where
  "ring_check_health st code = py_guard (ring_health st code \<noteq> 0) RuntimeError (Inr ())"

text \<open>One look of the watchdog: the exit code it ends the worker with.\<close>

definition ring_watch :: "'f ring \<Rightarrow> int \<Rightarrow> int option" where
  "ring_watch st code = (if rg_watch st \<and> ring_health st code \<noteq> 0 then Some 86 else None)"

record ring_tensor =
  rt_cuda :: bool
  rt_device :: bool
  rt_bf16 :: bool
  rt_contiguous :: bool
  rt_shape :: "int list"

definition ring_tensor_ok :: "ring_tensor \<Rightarrow> bool" where
  "ring_tensor_ok t \<longleftrightarrow> rt_cuda t \<and> rt_device t \<and> rt_bf16 t \<and> rt_contiguous t \<and> length (rt_shape t) = 2 \<and> rt_shape t ! 1 = HIDDEN"

text \<open>\<open>rc\<close> is what \<open>prb_launch\<close> returns. The result says whether the stream waits for the event of the last call.\<close>

definition ring_launch ::
  "ring_tensor \<Rightarrow> ring_tensor \<Rightarrow> int \<Rightarrow> nat \<Rightarrow> bool \<Rightarrow> int \<Rightarrow> 'f ring \<Rightarrow> ('f ring \<times> bool) py" where
  "ring_launch inp out nrows current capturing rc st =
     py_guard (\<not> list_all ring_tensor_ok [inp, out]) RuntimeError
      (py_guard (nrows mod WORLD \<noteq> 0 \<or> \<not> (0 < nrows \<and> nrows \<le> rc_max_rows (rg_config st))) RuntimeError
       (py_guard (rg_closed st) RuntimeError
        (py_guard capturing RuntimeError
         (py_guard (rc \<noteq> 0) RuntimeError
           (Inr (st\<lparr>rg_last_stream := Some current, rg_calls := rg_calls st + 1\<rparr>,
                 rg_last_stream st \<noteq> None \<and> rg_last_stream st \<noteq> Some current))))))"

definition dim0 :: "ring_tensor \<Rightarrow> int py" where
  "dim0 t = (case rt_shape t of [] \<Rightarrow> Inl IndexError | n # _ \<Rightarrow> Inr n)"

definition ring_reduce_scatter :: "ring_tensor \<Rightarrow> ring_tensor \<Rightarrow> nat \<Rightarrow> bool \<Rightarrow> int \<Rightarrow> 'f ring \<Rightarrow> ('f ring \<times> bool) py" where
  "ring_reduce_scatter out inp current capturing rc st =
     py_bind (dim0 inp) (\<lambda>nrows. py_bind (dim0 out) (\<lambda>own.
       py_guard (own * WORLD \<noteq> nrows) RuntimeError (ring_launch inp out nrows current capturing rc st)))"

definition ring_all_gather :: "ring_tensor \<Rightarrow> ring_tensor \<Rightarrow> nat \<Rightarrow> bool \<Rightarrow> int \<Rightarrow> 'f ring \<Rightarrow> ('f ring \<times> bool) py" where
  "ring_all_gather out inp current capturing rc st =
     py_bind (dim0 out) (\<lambda>nrows. py_bind (dim0 inp) (\<lambda>own.
       py_guard (own * WORLD \<noteq> nrows) RuntimeError (ring_launch inp out nrows current capturing rc st)))"

section \<open>All ranks or none\<close>

text \<open>The three votes, as every rank counts them.\<close>

definition parsed :: "(string \<Rightarrow> 'f py) \<Rightarrow> ('f, 'b) ring_rank list \<Rightarrow> 'f ring_config list" where
  "parsed to_float rs = map (\<lambda>r. projr (ring_config_of to_float (rr_env r) (rr_args r))) rs"

definition all_parse :: "(string \<Rightarrow> 'f py) \<Rightarrow> ('f, 'b) ring_rank list \<Rightarrow> bool" where
  "all_parse to_float rs \<longleftrightarrow> (\<forall>r \<in> set rs. \<not> isl (ring_config_of to_float (rr_env r) (rr_args r)))"

lemma vote_passes: "stage_vote (map2 (\<lambda>c r. error_of (f c r)) cs rs) = (if \<forall>(c, r) \<in> set (zip cs rs). \<not> isl (f c r) then Inr () else Inl RuntimeError)"
proof -
  have e: "(error_of x = None) = (\<not> isl x)" for x :: "'d py" by (cases x) (simp_all add: error_of_def)
  show ?thesis by (simp add: stage_vote_cases case_prod_unfold e)
qed

lemma construct_parsed:
  assumes "all_parse to_float rs" "i < length rs"
  defines "cs \<equiv> parsed to_float rs"
  shows "construct_rings to_float to_ns rs i =
    (let st = ring_init (cs ! i) (fst (ring_create to_ns (cs ! i) (rs ! i))) in
     if \<not> (\<forall>(c, r) \<in> set (zip cs rs). \<not> isl (ring_preflight c r)) then Raised RuntimeError (Some (ring_init (cs ! i) False))
     else if \<not> ((\<forall>(c, r) \<in> set (zip cs rs). \<not> isl (snd (ring_create to_ns c r)))
        \<and> (\<forall>(c, r) \<in> set (zip cs rs). \<not> isl (ring_connect cs (map2 (\<lambda>c r. projr (snd (ring_create to_ns c r))) cs rs) c r)))
     then Raised RuntimeError (Some (ring_close st)) else Ready (st\<lparr>rg_watch := rc_fatal (cs ! i)\<rparr>))"
proof -
  let ?configs = "map (\<lambda>r. ring_config_of to_float (rr_env r) (rr_args r)) rs"
  have p: "\<not> list_ex isl ?configs" using assms(1) by (auto simp: list_ex_iff all_parse_def)
  have cs: "map projr ?configs = cs" by (simp add: cs_def parsed_def)
  have i: "?configs ! i = Inr (cs ! i)"
    using assms(1,2) by (auto simp: cs_def parsed_def all_parse_def intro!: sum.collapse(2) [symmetric])
  have l: "length cs = length rs" by (simp add: cs_def parsed_def)
  have m: "map (\<lambda>m. error_of (snd m)) (map2 (ring_create to_ns) cs rs) = map2 (\<lambda>c r. error_of (snd (ring_create to_ns c r))) cs rs"
    by (simp add: case_prod_unfold)
  have b: "map (projr \<circ> snd) (map2 (ring_create to_ns) cs rs) = map2 (\<lambda>c r. projr (snd (ring_create to_ns c r))) cs rs"
    by (simp add: case_prod_unfold)
  have f: "map2 (ring_create to_ns) cs rs ! i = ring_create to_ns (cs ! i) (rs ! i)" using assms(2) l by simp
  show ?thesis
    unfolding construct_rings_def Let_def i sum.case cs m b vote_passes f
    using p by simp
qed

text \<open>
  C37. When every rank can read its environment, the voted construction ends with an open ring
  on all four ranks or with an error and no open context on all four.
\<close>

theorem ring_all_or_none:
  assumes "all_parse to_float rs" "length rs = 4"
  shows "(\<forall>i < 4. \<exists>st. construct_rings to_float to_ns rs i = Ready st \<and> rg_open st \<and> \<not> rg_closed st)
    \<or> (\<forall>i < 4. \<exists>st. construct_rings to_float to_ns rs i = Raised RuntimeError (Some st) \<and> \<not> rg_open st)"
proof -
  let ?cs = "parsed to_float rs"
  have l: "length ?cs = 4" using assms(2) by (simp add: parsed_def)
  have o: "fst (ring_create to_ns (?cs ! i) (rs ! i))"
    if i: "i < 4" and c: "\<forall>(c, r) \<in> set (zip ?cs rs). \<not> isl (snd (ring_create to_ns c r))" for i
  proof -
    have "(?cs ! i, rs ! i) \<in> set (zip ?cs rs)" using i l assms(2) by (auto simp: set_zip)
    then have "\<not> isl (snd (ring_create to_ns (?cs ! i) (rs ! i)))" using c by blast
    then show ?thesis by (auto simp: ring_create_def py_guard_def split: sum.splits if_splits)
  qed
  have closed: "\<not> rg_open (ring_close (ring_init c b))" for c :: "'a ring_config" and b by (simp add: ring_close_def ring_init_def)
  have init: "\<not> rg_open (ring_init c False)" "rg_open (ring_init c True)" "\<not> rg_closed (ring_init c b)" for c :: "'a ring_config" and b
    by (simp_all add: ring_init_def)
  show ?thesis
    using construct_parsed [OF assms(1), of _ to_ns] assms(2) o closed init by (auto simp: Let_def)
qed

section \<open>What a ready ring guarantees\<close>

lemma ring_ready:
  assumes "construct_rings to_float to_ns rs i = Ready st" "i < length rs"
  defines "cs \<equiv> parsed to_float rs"
  shows "all_parse to_float rs" "rg_config st = cs ! i" "\<forall>j < length rs. ring_preflight (cs ! j) (rs ! j) = Inr ()"
    "\<forall>j < length rs. ring_geometry (cs ! j) = ring_geometry (cs ! i)" "rg_open st" "\<not> rg_closed st" "rg_watch st = rc_fatal (cs ! i)"
proof -
  let ?configs = "map (\<lambda>r. ring_config_of to_float (rr_env r) (rr_args r)) rs"
  show p: "all_parse to_float rs"
    using assms(1,2) by (auto simp: construct_rings_def all_parse_def Let_def list_ex_iff split: sum.splits if_splits)
  have l: "length cs = length rs" by (simp add: cs_def parsed_def)
  have z: "(cs ! j, rs ! j) \<in> set (zip cs rs)" if "j < length rs" for j using that l by (auto simp: set_zip)
  have c: "\<forall>(c, r) \<in> set (zip cs rs). \<not> isl (ring_preflight c r)"
    "\<forall>(c, r) \<in> set (zip cs rs). \<not> isl (snd (ring_create to_ns c r))"
    "\<forall>(c, r) \<in> set (zip cs rs). \<not> isl (ring_connect cs (map2 (\<lambda>c r. projr (snd (ring_create to_ns c r))) cs rs) c r)"
    and st: "st = (ring_init (cs ! i) (fst (ring_create to_ns (cs ! i) (rs ! i))))\<lparr>rg_watch := rc_fatal (cs ! i)\<rparr>"
    using assms(1) unfolding construct_parsed [OF p assms(2), folded cs_def] Let_def by (simp_all split: if_splits)
  show "rg_config st = cs ! i" "\<not> rg_closed st" "rg_watch st = rc_fatal (cs ! i)" by (simp_all add: st ring_init_def)
  have "\<not> isl (snd (ring_create to_ns (cs ! i) (rs ! i)))" using c(2) z [OF assms(2)] by blast
  then have "fst (ring_create to_ns (cs ! i) (rs ! i))" by (auto simp: ring_create_def py_guard_def split: sum.splits if_splits)
  then show "rg_open st" by (simp add: st ring_init_def)
  show "\<forall>j < length rs. ring_preflight (cs ! j) (rs ! j) = Inr ()"
  proof (intro allI impI)
    fix j assume j: "j < length rs"
    have "\<not> isl (ring_preflight (cs ! j) (rs ! j))" using c(1) z [OF j] by blast
    then show "ring_preflight (cs ! j) (rs ! j) = Inr ()" by (cases "ring_preflight (cs ! j) (rs ! j)") simp_all
  qed
  have "\<not> isl (ring_connect cs (map2 (\<lambda>c r. projr (snd (ring_create to_ns c r))) cs rs) (cs ! i) (rs ! i))" using c(3) z [OF assms(2)] by blast
  then have "card (set (map ring_geometry cs)) = 1" by (auto simp: ring_connect_def py_guard_def split: if_splits)
  then obtain g where g: "set (map ring_geometry cs) = {g}" by (rule card_1_singletonE)
  have "ring_geometry (cs ! j) = g" if j: "j < length rs" for j
  proof -
    have "ring_geometry (cs ! j) \<in> set (map ring_geometry cs)" using j l by simp
    then show ?thesis unfolding g by simp
  qed
  then show "\<forall>j < length rs. ring_geometry (cs ! j) = ring_geometry (cs ! i)" using assms(2) by simp
qed

lemma ring_preflight_Inr:
  assumes "ring_preflight c r = Inr u"
  shows "rc_max_rows c mod WORLD = 0" "1 \<le> rc_chunk_rows c" "rc_chunk_rows c \<le> 1024" "2 \<le> rc_nslot c" "rc_memory c \<in> set MEMORY"
    "rr_group_rank r = rc_rank c"
  using assms by (auto simp: ring_preflight_def)

lemma layout_Inr: "layout mr cm ns = Inr l \<Longrightarrow> max_rows l = mr \<and> cr_max l = cm \<and> nslot l = ns \<and> 1 \<le> cm"
  by (auto simp: layout_def)

text \<open>A collective call on a ring, of either kind.\<close>

definition ring_collective :: "int \<Rightarrow> ring_tensor \<Rightarrow> ring_tensor \<Rightarrow> nat \<Rightarrow> bool \<Rightarrow> int \<Rightarrow> 'f ring \<Rightarrow> ('f ring \<times> bool) py" where
  "ring_collective knd = (if knd = KIND_RS then ring_reduce_scatter else ring_all_gather)"

definition collective_rows :: "int \<Rightarrow> ring_tensor \<Rightarrow> ring_tensor \<Rightarrow> int" where
  "collective_rows knd out inp = (if knd = KIND_RS then rt_shape inp else rt_shape out) ! 0"

lemma ring_collective_Inr:
  assumes "ring_collective knd out inp current capturing rc st = Inr (st', wait)"
  shows "ring_launch inp out (collective_rows knd out inp) current capturing rc st = Inr (st', wait)"
    "collective_rows knd out inp = WORLD * (if knd = KIND_RS then rt_shape out else rt_shape inp) ! 0"
  using assms
  by (auto simp: ring_collective_def collective_rows_def ring_reduce_scatter_def ring_all_gather_def dim0_def split: list.splits if_splits)

lemma ring_launch_Inr:
  assumes "ring_launch inp out nrows current capturing rc st = Inr (st', wait)"
  shows "nrows mod WORLD = 0" "0 < nrows" "nrows \<le> rc_max_rows (rg_config st)" "\<not> rg_closed st" "\<not> capturing" "rc = 0"
    "st' = st\<lparr>rg_last_stream := Some current, rg_calls := rg_calls st + 1\<rparr>"
    "wait = (rg_last_stream st \<noteq> None \<and> rg_last_stream st \<noteq> Some current)"
  using assms unfolding ring_launch_def by auto

text \<open>
  A collective call that any rank of a constructed ring accepts is one the call sequencer
  accepts, with the region layout of any other rank: it issues the next sequence number for
  exactly the rows of the call.
\<close>

theorem ring_call_is_sequenced:
  assumes "construct_rings to_float to_ns rs i = Ready st0" "construct_rings to_float to_ns rs j = Ready st1" "i < length rs" "j < length rs"
    and "layout (rc_max_rows (rg_config st0)) (rc_chunk_rows (rg_config st0)) (rc_nslot (rg_config st0)) = Inr l"
    and "rg_config st = rg_config st1" "ring_collective knd out inp current capturing rc st = Inr (st', wait)"
    and "knd \<in> {KIND_RS, KIND_AG}" "s_layout z = l" "s_seq z + 1 < push_bit 31 1"
  shows "\<exists>z' c. next_call z knd (collective_rows knd out inp) = (z', Inr c) \<and> rows (geom c) = collective_rows knd out inp
    \<and> seq c = s_seq z + 1 \<and> rg_calls st' = rg_calls st + 1 \<and> rg_config st' = rg_config st"
proof -
  let ?n = "collective_rows knd out inp" and ?cs = "parsed to_float rs"
  note a = ring_ready [OF assms(1,3)] and b = ring_ready [OF assms(2,4)]
  have "ring_geometry (rg_config st1) = ring_geometry (rg_config st0)" using a(2,4) b(2) assms(4) by simp
  then have m: "rc_max_rows (rg_config st) = rc_max_rows (rg_config st0)" using assms(6) by (simp add: ring_geometry_def)
  note r = ring_launch_Inr [OF ring_collective_Inr(1) [OF assms(7)]]
  have l: "max_rows l = rc_max_rows (rg_config st0)" "1 \<le> cr_max l" using layout_Inr [OF assms(5)] by simp_all
  have "?n \<le> max_rows (s_layout z)" "1 \<le> cr_max (s_layout z)" using r(3) m l assms(9) by simp_all
  then obtain z' c where "next_call z knd ?n = (z', Inr c)" "rows (geom c) = ?n" "seq c = s_seq z + 1"
    using next_call_total [OF assms(10,8) r(2,1)] by blast
  then show ?thesis using r(7) by auto
qed

theorem closed_ring_refuses:
  assumes "rg_open st" "\<not> rg_closed st"
  shows "isl (ring_collective knd out inp current capturing rc (ring_close st)) \<and> ring_health (ring_close st) code = 1
    \<and> ring_close (ring_close st) = ring_close st \<and> ring_watch (ring_close st) code = None"
proof -
  have c: "rg_closed (ring_close st)" "\<not> rg_open (ring_close st)" "\<not> rg_watch (ring_close st)" using assms by (simp_all add: ring_close_def)
  have "ring_collective knd out inp current capturing rc (ring_close st) \<noteq> Inr (s, w)" for s w
    using ring_launch_Inr(4) [OF ring_collective_Inr(1)] c(1) by blast
  then have "isl (ring_collective knd out inp current capturing rc (ring_close st))"
    by (cases "ring_collective knd out inp current capturing rc (ring_close st)") auto
  then show ?thesis using assms c by (simp add: ring_close_def ring_health_def ring_watch_def)
qed

text \<open>The environment is read before the first vote: a rank that cannot parse it leaves the others waiting.\<close>

theorem unparsed_environment_strands_peers:
  assumes "i < length rs" "j < length rs" "ring_config_of to_float (rr_env (rs ! i)) (rr_args (rs ! i)) = Inl e"
    and "ring_config_of to_float (rr_env (rs ! j)) (rr_args (rs ! j)) = Inr c"
  shows "construct_rings to_float to_ns rs i = Raised e None \<and> construct_rings to_float to_ns rs j = Waits"
proof -
  have "isl (ring_config_of to_float (rr_env (rs ! i)) (rr_args (rs ! i)))" using assms(3) by simp
  then have "list_ex isl (map (\<lambda>r. ring_config_of to_float (rr_env r) (rr_args r)) rs)"
    using assms(1) by (auto simp: list_ex_iff intro: bexI [of _ "rs ! i"])
  then show ?thesis using assms by (simp add: construct_rings_def Let_def)
qed

section \<open>Examples\<close>

definition demo_args :: "int \<Rightarrow> int ring_args" where
  "demo_args r = \<lparr>ra_rank = r, ra_max_rows = 14336, ra_chunk_rows = None, ra_nslot = None, ra_parts = None, ra_grid = None,
     ra_proxy_cpu = None, ra_timeout = None, ra_memory = None, ra_fatal = True\<rparr>"

definition demo_rank :: "int \<Rightarrow> (int, nat) ring_rank" where
  "demo_rank r = \<lparr>rr_env = Map.empty, rr_args = demo_args r, rr_world = 4, rr_group_rank = r, rr_cuda = True, rr_integrated = True,
     rr_hcas = True, rr_load = Inr (), rr_context = True, rr_blob = Inr (nat r), rr_connect = (\<lambda>_ _. Inr ()), rr_start = Inr ()\<rparr>"

definition demo_ranks :: "(int, nat) ring_rank list" where
  "demo_ranks = map demo_rank [0, 1, 2, 3]"

definition demo_ring :: "int ring" where
  "demo_ring = (case construct_rings py_int Inr demo_ranks 0 of Ready st \<Rightarrow> st)"

theorem ring_all_or_none_witness:
  "\<exists>st. construct_rings py_int Inr demo_ranks 3 = Ready st \<and> rg_open st \<and> \<not> rg_closed st"
proof -
  have p: "all_parse py_int demo_ranks" unfolding all_parse_def demo_ranks_def by code_simp
  have l: "length demo_ranks = 4" by (simp add: demo_ranks_def)
  have "\<exists>st. construct_rings py_int Inr demo_ranks 0 = Ready st"
    by (rule exI [of _ demo_ring]) code_simp
  then have "construct_rings py_int Inr demo_ranks 0 \<noteq> Raised RuntimeError (Some st)" for st by auto
  then have "\<forall>i < 4. \<exists>st. construct_rings py_int Inr demo_ranks i = Ready st \<and> rg_open st \<and> \<not> rg_closed st"
    using ring_all_or_none [OF p l, of Inr] by (metis zero_less_numeral)
  then show ?thesis by simp
qed

definition demo_rows :: "int \<Rightarrow> ring_tensor" where
  "demo_rows n = \<lparr>rt_cuda = True, rt_device = True, rt_bf16 = True, rt_contiguous = True, rt_shape = [n, 4096]\<rparr>"

theorem ring_call_is_sequenced_witness:
  "\<exists>l z' c. layout 14336 32 16 = Inr l \<and> next_call (sequencer l 32 4) KIND_RS 4096 = (z', Inr c) \<and> rows (geom c) = 4096 \<and> seq c = 1"
proof -
  have r: "construct_rings py_int Inr demo_ranks 0 = Ready demo_ring" by code_simp
  define r' where "r' = projr (ring_collective KIND_RS (demo_rows 1024) (demo_rows 4096) 3 False 0 demo_ring)"
  have "ring_collective KIND_RS (demo_rows 1024) (demo_rows 4096) 3 False 0 demo_ring = Inr (fst r', snd r')" unfolding r'_def by code_simp
  moreover define l where "l = projr (layout 14336 32 16)"
  have l: "layout (rc_max_rows (rg_config demo_ring)) (rc_chunk_rows (rg_config demo_ring)) (rc_nslot (rg_config demo_ring)) = Inr l"
    "layout 14336 32 16 = Inr l" unfolding l_def by code_simp+
  moreover have "s_layout (sequencer l 32 4) = l" "s_seq (sequencer l 32 4) + 1 < push_bit 31 1" "s_seq (sequencer l 32 4) = 0"
    by (simp_all add: sequencer_def)
  moreover have "collective_rows KIND_RS (demo_rows 1024) (demo_rows 4096) = 4096" by code_simp
  ultimately have "\<exists>z' c. next_call (sequencer l 32 4) KIND_RS 4096 = (z', Inr c) \<and> rows (geom c) = 4096 \<and> seq c = 0 + 1"
    using ring_call_is_sequenced [OF r r _ _ l(1) refl, of KIND_RS "demo_rows 1024" "demo_rows 4096" 3 False 0 "fst r'" "snd r'" "sequencer l 32 4"]
    by (auto simp: demo_ranks_def)
  then show ?thesis using l(2) by auto
qed

end
