(* ===== verification/Kda_Bands.thy ===== *)
theory Kda_Bands
  imports Kda_Checkpoint
begin

text \<open>
  The prologue of the KDA prefill (the vendored
  \<open>src/docker/base/04-b12x-kda/b12x-kda-prefill-overlay/b12x/sequence/kda_prefill/_cute_kernels.py\<close>, whose digest
  \<open>src/src/tp4/glm53_kda_ckpt.py\<close> names as the one it runs on) under trusted metadata: the parallel prefix scan, tile
  counts, bands, ranks and window table of one call, and the plan's capacities (\<open>_policy.py\<close>, \<open>_impl.py\<close>). The threads of
  the one CTA are taken in turn, and the atomics of the rank pass in any order of the sequences. Table entries that the
  code leaves unwritten hold 0 here or are left out.
\<close>

section \<open>Capacities\<close>

definition tiles_capacity :: "int \<Rightarrow> int \<Rightarrow> int" where
  "tiles_capacity max_tokens max_seqs = cdiv max_tokens CHUNK_TOKENS + max_seqs"

record kda_plan =
  kp_max_tokens :: int
  kp_max_seqs :: int
  kp_window :: int

definition plan_tiles :: "kda_plan \<Rightarrow> int" where
  "plan_tiles p = tiles_capacity (kp_max_tokens p) (kp_max_seqs p)"

definition materialize_plan :: "int \<Rightarrow> int \<Rightarrow> int \<Rightarrow> kda_plan" where
  "materialize_plan max_tokens max_seqs window =
     \<lparr>kp_max_tokens = max_tokens, kp_max_seqs = max_seqs, kp_window = max 1 (min window (tiles_capacity max_tokens max_seqs))\<rparr>"

definition max_windows :: "kda_plan \<Rightarrow> int" where
  "max_windows p = cdiv (plan_tiles p) (kp_window p)"

definition recurrence_rows :: "kda_plan \<Rightarrow> int" where
  "recurrence_rows p = min (kp_max_seqs p) (kp_window p)"

definition launched_windows :: "kda_plan \<Rightarrow> int \<Rightarrow> int \<Rightarrow> int py" where
  "launched_windows p tokens seqs =
     py_guard (tokens < 0 \<or> kp_max_tokens p < tokens) ValueError
       (py_guard (seqs < 0 \<or> kp_max_seqs p < seqs) ValueError
         (Inr (max 1 (min (max_windows p) (cdiv (tiles_capacity tokens seqs) (kp_window p))))))"

section \<open>The exclusive scan\<close>

definition PROLOGUE_THREADS :: nat where "PROLOGUE_THREADS = 256"

text \<open>One thread: replaces its items by the sum of those before them in its block; the second result is the block's sum.\<close>

fun scan_items :: "nat \<Rightarrow> nat \<Rightarrow> nat \<Rightarrow> nat \<Rightarrow> nat list \<Rightarrow> nat list \<times> nat" where
  "scan_items i 0 len running vs = (vs, running)"
| "scan_items i (Suc n) len running vs =
     (if i < len then scan_items (Suc i) n len (running + vs ! i) (vs[i := running])
      else scan_items (Suc i) n len running vs)"

fun add_items :: "nat \<Rightarrow> nat \<Rightarrow> nat \<Rightarrow> nat \<Rightarrow> nat list \<Rightarrow> nat list" where
  "add_items i 0 len offset vs = vs"
| "add_items i (Suc n) len offset vs =
     add_items (Suc i) n len offset (if i < len then vs[i := vs ! i + offset] else vs)"

definition scan_blocks :: "nat \<Rightarrow> nat \<Rightarrow> nat list \<Rightarrow> nat list \<times> nat list" where
  "scan_blocks block len vs =
     fold (\<lambda>t (vs, totals). let (vs', r) = scan_items (t * block) block len 0 vs in (vs', totals @ [r])) [0..<PROLOGUE_THREADS] (vs, [])"

definition sums_step :: "nat \<Rightarrow> nat list \<Rightarrow> nat list" where
  "sums_step distance totals = map (\<lambda>t. totals ! t + (if distance \<le> t then totals ! (t - distance) else 0)) [0..<length totals]"

definition scan_sums :: "nat \<Rightarrow> nat list \<Rightarrow> nat list" where
  "scan_sums steps totals = fold (\<lambda>step. sums_step (2 ^ step)) [0..<steps] totals"

definition exclusive_scan :: "nat \<Rightarrow> nat \<Rightarrow> nat list \<Rightarrow> nat list \<times> nat" where
  "exclusive_scan entries len vs =
     (let block = (entries + PROLOGUE_THREADS - 1) div PROLOGUE_THREADS;
          (vs1, totals) = scan_blocks block len vs;
          done = scan_sums 8 totals
      in (fold (\<lambda>t. add_items (t * block) block len (done ! t - totals ! t)) [0..<PROLOGUE_THREADS] vs1,
          done ! (PROLOGUE_THREADS - 1)))"

section \<open>Bands and ranks\<close>

definition tile_count :: "nat \<Rightarrow> int list \<Rightarrow> nat \<Rightarrow> nat" where
  "tile_count cap cu s = min (nat ((max 0 (cu ! Suc s - cu ! s) + (CHUNK_TOKENS - 1)) div CHUNK_TOKENS)) cap"

definition seq_counts :: "nat \<Rightarrow> nat \<Rightarrow> int list \<Rightarrow> nat \<Rightarrow> nat list" where
  "seq_counts max_seqs cap cu live = map (\<lambda>s. if s < live then tile_count cap cu s else 0) [0..<max_seqs]"

definition histogram :: "nat \<Rightarrow> nat list \<Rightarrow> nat \<Rightarrow> nat list" where
  "histogram cap counts live = fold (\<lambda>s h. h[counts ! s := h ! (counts ! s) + 1]) [0..<live] (replicate (cap + 2) 0)"

definition more_table :: "nat \<Rightarrow> nat list \<Rightarrow> nat \<Rightarrow> nat list" where
  "more_table cap counts live =
     (let h = fst (exclusive_scan (cap + 2) (cap + 1) (histogram cap counts live))
      in map (\<lambda>l. if l < cap then live - h ! Suc l else 0) [0..<cap + 2])"

definition rank_step :: "nat list \<Rightarrow> nat list \<Rightarrow> nat \<Rightarrow> nat list \<times> nat list \<times> nat list \<Rightarrow> nat list \<times> nat list \<times> nat list" where
  "rank_step longer counts s st =
     (case st of (cursor, rank_of, by_rank) \<Rightarrow>
        let c = counts ! s; r = longer ! c + cursor ! c in (cursor[c := cursor ! c + 1], rank_of[s := r], by_rank[r := s]))"

definition rank_pass :: "nat \<Rightarrow> nat \<Rightarrow> nat list \<Rightarrow> nat list \<Rightarrow> nat list \<Rightarrow> nat list \<times> nat list" where
  "rank_pass max_seqs cap longer counts order =
     snd (fold (rank_step longer counts) order (replicate (cap + 2) 0, replicate max_seqs 0, replicate max_seqs 0))"

text \<open>The last band that starts at or before a position.\<close>

function band_search :: "nat list \<Rightarrow> nat \<Rightarrow> nat \<Rightarrow> nat \<Rightarrow> nat" where
  "band_search bands pos low high =
     (if 1 < high - low
      then let mid = (low + high) div 2 in if bands ! mid \<le> pos then band_search bands pos mid high else band_search bands pos low mid
      else low)"
  by pat_completeness auto

termination
  by (relation "measure (\<lambda>(bands, pos, low, high). high - low)") auto

declare band_search.simps [simp del]

record prologue =
  pg_counts :: "nat list"
  pg_more :: "nat list"
  pg_bands :: "nat list"
  pg_total :: nat
  pg_rank_of :: "nat list"
  pg_sorted :: "nat list"
  pg_windows :: "(nat \<times> nat) list"
  pg_pos_seq :: "int list"
  pg_pos_local :: "nat list"

definition run_prologue :: "nat \<Rightarrow> nat \<Rightarrow> nat \<Rightarrow> nat \<Rightarrow> int list \<Rightarrow> nat \<Rightarrow> nat list \<Rightarrow> prologue" where
  "run_prologue max_seqs cap window nwindows cu live order =
     (let counts = seq_counts max_seqs cap cu live;
          longer = more_table cap counts live;
          (bands, tot) = exclusive_scan (cap + 2) (cap + 2) longer;
          (rank_of, by_rank) = rank_pass max_seqs cap longer counts order;
          band_at = (\<lambda>pos. band_search bands pos 0 cap);
          live_tiles = min tot cap
      in \<lparr>pg_counts = counts, pg_more = longer, pg_bands = bands, pg_total = tot, pg_rank_of = rank_of, pg_sorted = by_rank,
          pg_windows = map (\<lambda>w. (band_at (w * window), w * window - bands ! band_at (w * window))) [0..<nwindows],
          pg_pos_seq = map (\<lambda>p. if p < live_tiles then int (by_rank ! (p - bands ! band_at p)) else - 1) [0..<cap],
          pg_pos_local = map band_at [0..<live_tiles]\<rparr>)"

section \<open>The scan is the prefix sum\<close>

lemma scan_items:
  assumes "len \<le> length vs"
  shows "length (fst (scan_items i n len running vs)) = length vs \<and>
    snd (scan_items i n len running vs) = running + (\<Sum>j = i..<min (i + n) len. vs ! j) \<and>
    (\<forall>j < length vs. fst (scan_items i n len running vs) ! j =
       (if i \<le> j \<and> j < i + n \<and> j < len then running + (\<Sum>k = i..<j. vs ! k) else vs ! j))"
  using assms
proof (induction n arbitrary: i running vs)
  case (Suc n)
  show ?case
  proof (cases "i < len")
    case True
    let ?ws = "vs[i := running]"
    have same: "?ws ! j = vs ! j" if "Suc i \<le> j" for j using that by simp
    have s: "(\<Sum>k = Suc i..<m. ?ws ! k) = (\<Sum>k = Suc i..<m. vs ! k)" for m by (rule sum.cong) (auto simp: same)
    have h: "(\<Sum>k = i..<m. vs ! k) = vs ! i + (\<Sum>k = Suc i..<m. vs ! k)" if "i < m" for m using that by (simp add: sum.atLeast_Suc_lessThan)
    have l: "len \<le> length ?ws" using Suc.prems by simp
    have i: "i < length vs" using True Suc.prems by simp
    note IH = Suc.IH [OF l, of "Suc i" "running + vs ! i"]
    show ?thesis
    proof (intro conjI allI impI)
      show "length (fst (scan_items i (Suc n) len running vs)) = length vs" using IH True by simp
      have "i < min (i + Suc n) len" using True by simp
      then show "snd (scan_items i (Suc n) len running vs) = running + (\<Sum>j = i..<min (i + Suc n) len. vs ! j)"
        using IH True by (simp add: s h)
      fix j assume j: "j < length vs"
      have "fst (scan_items i (Suc n) len running vs) ! j =
          (if Suc i \<le> j \<and> j < Suc i + n \<and> j < len then running + vs ! i + (\<Sum>k = Suc i..<j. vs ! k) else ?ws ! j)"
        using IH True j by (simp add: s)
      also have "\<dots> = (if i \<le> j \<and> j < i + Suc n \<and> j < len then running + (\<Sum>k = i..<j. vs ! k) else vs ! j)"
        using True i by (cases "j = i") (auto simp: h)
      finally show "fst (scan_items i (Suc n) len running vs) ! j = (if i \<le> j \<and> j < i + Suc n \<and> j < len then running + (\<Sum>k = i..<j. vs ! k) else vs ! j)" .
    qed
  next
    case False
    then show ?thesis using Suc.IH [OF Suc.prems, of "Suc i" running] by (simp add: min_absorb2)
  qed
qed simp

lemma add_items:
  assumes "len \<le> length vs"
  shows "length (add_items i n len off vs) = length vs \<and>
    (\<forall>j < length vs. add_items i n len off vs ! j = (if i \<le> j \<and> j < i + n \<and> j < len then vs ! j + off else vs ! j))"
  using assms
proof (induction n arbitrary: i vs)
  case (Suc n)
  let ?ws = "if i < len then vs[i := vs ! i + off] else vs"
  have "len \<le> length ?ws" "length ?ws = length vs" using Suc.prems by auto
  then have IH: "length (add_items (Suc i) n len off ?ws) = length vs"
    "\<And>j. j < length vs \<Longrightarrow> add_items (Suc i) n len off ?ws ! j = (if Suc i \<le> j \<and> j < Suc i + n \<and> j < len then ?ws ! j + off else ?ws ! j)"
    using Suc.IH [of ?ws "Suc i"] by simp_all
  have "add_items i (Suc n) len off vs ! j = (if i \<le> j \<and> j < i + Suc n \<and> j < len then vs ! j + off else vs ! j)" if j: "j < length vs" for j
    using IH(2) [OF j] j by (cases "j = i") auto
  then show ?case using IH(1) by simp
qed simp

lemma sums_step_length [simp]: "length (sums_step d bs) = length bs"
  by (simp add: sums_step_def)

lemma scan_sums_length [simp]: "length (scan_sums n bs) = length bs"
  by (induction n) (simp_all add: scan_sums_def)

lemma scan_sums:
  assumes "t < length bs"
  shows "scan_sums n bs ! t = (\<Sum>j = t + 1 - 2 ^ n..<t + 1. bs ! j)"
  using assms
proof (induction n arbitrary: t)
  case 0
  then show ?case by (simp add: scan_sums_def)
next
  case (Suc n)
  have "scan_sums (Suc n) bs = sums_step (2 ^ n) (scan_sums n bs)" by (simp add: scan_sums_def)
  then have e: "scan_sums (Suc n) bs ! t = scan_sums n bs ! t + (if 2 ^ n \<le> t then scan_sums n bs ! (t - 2 ^ n) else 0)"
    using Suc.prems by (simp add: sums_step_def)
  show ?case
  proof (cases "2 ^ n \<le> t")
    case True
    have "{t + 1 - 2 ^ Suc n..<t + 1} = {t - 2 ^ n + 1 - 2 ^ n..<t - 2 ^ n + 1} \<union> {t + 1 - 2 ^ n..<t + 1}" using True by auto
    moreover have "{t - 2 ^ n + 1 - 2 ^ n..<t - 2 ^ n + 1} \<inter> {t + 1 - 2 ^ n..<t + 1} = {}" using True by auto
    ultimately have "(\<Sum>j = t + 1 - 2 ^ Suc n..<t + 1. bs ! j) =
        (\<Sum>j = t - 2 ^ n + 1 - 2 ^ n..<t - 2 ^ n + 1. bs ! j) + (\<Sum>j = t + 1 - 2 ^ n..<t + 1. bs ! j)"
      by (simp add: sum.union_disjoint)
    moreover have "scan_sums (Suc n) bs ! t = scan_sums n bs ! t + scan_sums n bs ! (t - 2 ^ n)" using e True by simp
    moreover have "scan_sums n bs ! (t - 2 ^ n) = (\<Sum>j = t - 2 ^ n + 1 - 2 ^ n..<t - 2 ^ n + 1. bs ! j)"
      using Suc.prems by (intro Suc.IH) simp
    ultimately show ?thesis unfolding Suc.IH [OF Suc.prems] by (simp only: add.commute)
  next
    case False
    then have "t + 1 - 2 ^ Suc n = 0" "t + 1 - 2 ^ n = 0" by simp_all
    then show ?thesis using e Suc.IH [OF Suc.prems] False by simp
  qed
qed

text \<open>The blocks, then the offsets.\<close>

lemma scan_blocks:
  fixes len block m :: nat and vs :: "nat list"
  assumes "len \<le> length vs" "m \<le> PROLOGUE_THREADS"
  defines "r \<equiv> fold (\<lambda>t (vs, bs). let (vs', r) = scan_items (t * block) block len 0 vs in (vs', bs @ [r])) [0..<m] (vs, [])"
  shows "length (fst r) = length vs \<and> snd r = map (\<lambda>t. \<Sum>j = t * block..<min (t * block + block) len. vs ! j) [0..<m]
    \<and> (\<forall>j < length vs. fst r ! j = (if j < m * block \<and> j < len then \<Sum>k = j div block * block..<j. vs ! k else vs ! j))"
  unfolding r_def using assms(2)
proof (induction m)
  case (Suc m)
  let ?f = "\<lambda>t (vs, bs). let (vs', r) = scan_items (t * block) block len 0 vs in (vs', bs @ [r])"
  obtain ws bs where r: "fold ?f [0..<m] (vs, []) = (ws, bs)" by (rule prod.exhaust)
  note IH = Suc.IH [unfolded r fst_conv snd_conv]
  have ih: "length ws = length vs" "bs = map (\<lambda>t. \<Sum>j = t * block..<min (t * block + block) len. vs ! j) [0..<m]"
    "\<And>j. j < length vs \<Longrightarrow> ws ! j = (if j < m * block \<and> j < len then \<Sum>k = j div block * block..<j. vs ! k else vs ! j)"
    using IH Suc.prems by simp_all
  have same: "ws ! j = vs ! j" if "m * block \<le> j" "j < length vs" for j using ih(3) [OF that(2)] that(1) by simp
  have l: "len \<le> length ws" using assms(1) ih(1) by simp
  obtain ws' x where x: "scan_items (m * block) block len 0 ws = (ws', x)" by (rule prod.exhaust)
  have sum_same: "(\<Sum>k = m * block..<i. ws ! k) = (\<Sum>k = m * block..<i. vs ! k)" if "i \<le> length vs" for i
    by (rule sum.cong) (use same that in auto)
  have it: "length ws' = length vs" "x = (\<Sum>j = m * block..<min (m * block + block) len. vs ! j)"
    "\<And>j. j < length vs \<Longrightarrow> ws' ! j = (if m * block \<le> j \<and> j < m * block + block \<and> j < len then \<Sum>k = m * block..<j. vs ! k else ws ! j)"
    using scan_items [OF l, of "m * block" block 0] ih(1) assms(1) by (simp_all add: x sum_same)
  have f: "fold ?f [0..<Suc m] (vs, []) = (ws', bs @ [x])" using r x by (simp add: Let_def)
  have v: "ws' ! j = (if j < Suc m * block \<and> j < len then \<Sum>k = j div block * block..<j. vs ! k else vs ! j)" if j: "j < length vs" for j
  proof (cases "m * block \<le> j \<and> j < m * block + block \<and> j < len")
    case True
    then have "j div block = m" by (intro div_nat_eqI) (auto simp: algebra_simps)
    then show ?thesis using True it(3) [OF j] by (simp add: algebra_simps)
  next
    case False
    then have "j < Suc m * block \<and> j < len \<longleftrightarrow> j < m * block \<and> j < len" by (auto simp: algebra_simps)
    then show ?thesis using it(3) [OF j] ih(3) [OF j] False by simp
  qed
  show ?case unfolding f fst_conv snd_conv using it(1,2) ih(2) v by simp
qed simp

lemma add_blocks:
  fixes len block m :: nat and vs :: "nat list" and off :: "nat \<Rightarrow> nat"
  assumes "len \<le> length vs"
  defines "r \<equiv> fold (\<lambda>t. add_items (t * block) block len (off t)) [0..<m] vs"
  shows "length r = length vs \<and> (\<forall>j < length vs. r ! j = (if j < m * block \<and> j < len then vs ! j + off (j div block) else vs ! j))"
  unfolding r_def
proof (induction m)
  case (Suc m)
  let ?ws = "fold (\<lambda>t. add_items (t * block) block len (off t)) [0..<m] vs"
  have l: "len \<le> length ?ws" using Suc assms(1) by simp
  note it = add_items [OF l, of "m * block" block "off m"]
  have v: "add_items (m * block) block len (off m) ?ws ! j = (if j < Suc m * block \<and> j < len then vs ! j + off (j div block) else vs ! j)"
    if j: "j < length vs" for j
  proof (cases "m * block \<le> j \<and> j < m * block + block \<and> j < len")
    case True
    then have "j div block = m" by (intro div_nat_eqI) (auto simp: algebra_simps)
    then show ?thesis using True it Suc j by (simp add: algebra_simps)
  next
    case False
    then have "j < Suc m * block \<and> j < len \<longleftrightarrow> j < m * block \<and> j < len" by (auto simp: algebra_simps)
    then show ?thesis using it Suc j False by (auto simp: algebra_simps)
  qed
  show ?case using it Suc v by simp
qed simp

theorem exclusive_scan_is_prefix_sum:
  assumes "len \<le> length vs" "len \<le> entries"
  shows "snd (exclusive_scan entries len vs) = (\<Sum>j < len. vs ! j)
    \<and> length (fst (exclusive_scan entries len vs)) = length vs
    \<and> (\<forall>j < length vs. fst (exclusive_scan entries len vs) ! j = (if j < len then \<Sum>k < j. vs ! k else vs ! j))"
proof -
  let ?T = PROLOGUE_THREADS
  define B where "B = (entries + PROLOGUE_THREADS - 1) div PROLOGUE_THREADS"
  obtain ws bs where s: "scan_blocks B len vs = (ws, bs)" by (rule prod.exhaust)
  have "?T = 2 ^ 8" by (simp add: PROLOGUE_THREADS_def)
  have cover: "len \<le> ?T * B" using assms(2) by (simp add: B_def PROLOGUE_THREADS_def)
  have b: "length ws = length vs" "bs = map (\<lambda>t. \<Sum>j = t * B..<min (t * B + B) len. vs ! j) [0..<?T]"
    "\<And>j. j < length vs \<Longrightarrow> ws ! j = (if j < len then \<Sum>k = j div B * B..<j. vs ! k else vs ! j)"
    using scan_blocks [OF assms(1) order_refl, of B] s cover by (simp_all add: scan_blocks_def)
  have blocks: "(\<Sum>t < n. \<Sum>j = t * B..<min (t * B + B) len. vs ! j) = (\<Sum>j < min (n * B) len. vs ! j)" for n
  proof (induction n)
    case (Suc n)
    have "{..<min (n * B) len} \<union> {n * B..<min (n * B + B) len} = {..<min (Suc n * B) len}"
      "{..<min (n * B) len} \<inter> {n * B..<min (n * B + B) len} = {}" by auto
    then show ?case using Suc by (simp add: sum.union_disjoint [symmetric])
  qed simp
  define offs where "offs = (\<lambda>t. scan_sums 8 bs ! t - bs ! t)"
  have tot: "scan_sums 8 bs ! t = (\<Sum>j < min (Suc t * B) len. vs ! j)" if t: "t < ?T" for t
  proof -
    have z: "t + 1 - 2 ^ 8 = 0" using t by (simp add: PROLOGUE_THREADS_def)
    have "scan_sums 8 bs ! t = (\<Sum>j = t + 1 - 2 ^ 8..<t + 1. bs ! j)" using t b(2) by (intro scan_sums) simp
    also have "\<dots> = (\<Sum>i < Suc t. \<Sum>j = i * B..<min (i * B + B) len. vs ! j)"
      unfolding z using t b(2) by (intro sum.cong) (auto simp: lessThan_atLeast0)
    finally show ?thesis unfolding blocks .
  qed
  have off: "offs t = (\<Sum>j < min (t * B) len. vs ! j)" if t: "t < ?T" for t
  proof -
    have "{..<min (Suc t * B) len} = {..<min (t * B) len} \<union> {t * B..<min (t * B + B) len}"
      "{..<min (t * B) len} \<inter> {t * B..<min (t * B + B) len} = {}" by auto
    then have "(\<Sum>j < min (Suc t * B) len. vs ! j) = (\<Sum>j < min (t * B) len. vs ! j) + bs ! t"
      using t b(2) by (simp add: sum.union_disjoint)
    then show ?thesis using tot [OF t] by (simp add: offs_def)
  qed
  have l: "len \<le> length ws" using b(1) assms(1) by simp
  note a = add_blocks [OF l, of B offs ?T]
  have e: "exclusive_scan entries len vs = (fold (\<lambda>t. add_items (t * B) B len (offs t)) [0..<?T] ws, scan_sums 8 bs ! (?T - 1))"
    unfolding exclusive_scan_def Let_def B_def [symmetric] s prod.case offs_def by (rule refl)
  have v: "fold (\<lambda>t. add_items (t * B) B len (offs t)) [0..<?T] ws ! j = (if j < len then \<Sum>k < j. vs ! k else vs ! j)"
    if j: "j < length vs" for j
  proof (cases "j < len")
    case True
    then have B: "0 < B" "j < ?T * B" using cover by (auto intro: gr0I)
    then have d: "j div B < ?T" by (simp add: less_mult_imp_div_less)
    have le: "j div B * B \<le> j" by simp
    have "{..<j} = {..<j div B * B} \<union> {j div B * B..<j}" "{..<j div B * B} \<inter> {j div B * B..<j} = {}"
      by (auto intro: less_le_trans [OF _ le])
    then have "(\<Sum>k < j. vs ! k) = (\<Sum>k < j div B * B. vs ! k) + (\<Sum>k = j div B * B..<j. vs ! k)" by (metis finite_lessThan finite_atLeastLessThan sum.union_disjoint)
    moreover have "min (j div B * B) len = j div B * B" by (rule min_absorb1 [OF order_trans [OF le less_imp_le [OF True]]])
    ultimately show ?thesis using a True b(1) b(3) [of j] j B(2) off [OF d] by simp
  next
    case False
    then show ?thesis using a b(1) b(3) [of j] j by simp
  qed
  have "?T - 1 < ?T" "Suc (?T - 1) = ?T" by (simp_all add: PROLOGUE_THREADS_def)
  then have "scan_sums 8 bs ! (?T - 1) = (\<Sum>j < len. vs ! j)" using tot [of "?T - 1"] cover by (simp add: min_absorb2)
  then show ?thesis unfolding e fst_conv snd_conv using a b(1) v by simp
qed

section \<open>Bands and ranks are what they should be\<close>

text \<open>How many of \<open>n\<close> sequences have more than \<open>l\<close> tiles.\<close>

definition alive :: "(nat \<Rightarrow> nat) \<Rightarrow> nat \<Rightarrow> nat \<Rightarrow> nat" where
  "alive c n l = card {s. s < n \<and> l < c s}"

lemma alive_le: "alive c n l \<le> n"
  unfolding alive_def by (rule order_trans [OF card_mono [of "{..<n}"]]) auto

lemma alive_mono: "k \<le> l \<Longrightarrow> alive c n l \<le> alive c n k"
  unfolding alive_def by (rule card_mono) auto

lemma alive_split: "alive c n l = card {s. s < n \<and> c s = Suc l} + alive c n (Suc l)"
proof -
  have "{s. s < n \<and> l < c s} = {s. s < n \<and> c s = Suc l} \<union> {s. s < n \<and> Suc l < c s}" by auto
  then show ?thesis unfolding alive_def by (simp add: card_Un_disjoint disjoint_iff)
qed

lemma alive_none: "\<forall>s < n. c s \<le> cap \<Longrightarrow> cap \<le> l \<Longrightarrow> alive c n l = 0"
  unfolding alive_def by (auto simp: not_less)

lemma counts_upto: "(\<Sum>k < Suc l. card {s. s < n \<and> c s = k}) = n - alive c n l"
proof (induction l)
  case 0
  have "{..<n} = {s. s < n \<and> c s = 0} \<union> {s. s < n \<and> 0 < c s}" by auto
  then have "n = card {s. s < n \<and> c s = 0} + alive c n 0"
    unfolding alive_def by (metis (mono_tags, lifting) card_Un_disjoint card_lessThan disjoint_iff finite_Un finite_lessThan less_numeral_extra(3) mem_Collect_eq)
  then show ?case by simp
next
  case (Suc l)
  show ?case using Suc alive_split [of c n l] alive_le [of c n l] by simp
qed

lemma histogram:
  assumes "\<forall>s < n. counts ! s \<le> cap"
  shows "length (histogram cap counts n) = cap + 2 \<and> (\<forall>k < cap + 2. histogram cap counts n ! k = card {s. s < n \<and> counts ! s = k})"
  using assms
proof (induction n)
  case (Suc n)
  let ?h = "histogram cap counts n"
  have e: "histogram cap counts (Suc n) = ?h[counts ! n := ?h ! (counts ! n) + 1]" by (simp add: histogram_def)
  have ih: "length ?h = cap + 2" "\<forall>k < cap + 2. ?h ! k = card {s. s < n \<and> counts ! s = k}" using Suc by simp_all
  have c: "counts ! n < cap + 2" using Suc.prems by auto
  have "card {s. s < Suc n \<and> counts ! s = k} = card {s. s < n \<and> counts ! s = k} + (if counts ! n = k then 1 else 0)" for k
  proof -
    have "{s. s < Suc n \<and> counts ! s = k} = {s. s < n \<and> counts ! s = k} \<union> (if counts ! n = k then {n} else {})" by (auto simp: less_Suc_eq)
    then show ?thesis by (simp add: card_insert_if)
  qed
  then show ?case using ih c by (auto simp: e nth_list_update)
qed (simp add: histogram_def del: add_2_eq_Suc' replicate_Suc)

lemma more_table:
  assumes "\<forall>s < n. counts ! s \<le> cap"
  shows "length (more_table cap counts n) = cap + 2"
    and "l < cap + 2 \<Longrightarrow> more_table cap counts n ! l = alive ((!) counts) n l"
proof -
  let ?h = "histogram cap counts n" and ?s = "fst (exclusive_scan (cap + 2) (cap + 1) (histogram cap counts n))"
  note h = histogram [OF assms]
  have "cap + 1 \<le> length ?h" "cap + 1 \<le> cap + 2" using h by simp_all
  note s = exclusive_scan_is_prefix_sum [OF this]
  have p: "?s ! Suc l = n - alive ((!) counts) n l" if l: "l < cap" for l
  proof -
    have "?s ! Suc l = (\<Sum>k < Suc l. ?h ! k)" using s h l by simp
    also have "\<dots> = (\<Sum>k < Suc l. card {s. s < n \<and> counts ! s = k})" using h l by (intro sum.cong) auto
    finally show ?thesis unfolding counts_upto .
  qed
  show "length (more_table cap counts n) = cap + 2" by (simp add: more_table_def)
  show "more_table cap counts n ! l = alive ((!) counts) n l" if "l < cap + 2"
    using that p [of l] alive_le [of "(!) counts" n l] alive_none [OF assms, of l] by (simp add: more_table_def Let_def del: upt_Suc)
qed

definition band_start :: "(nat \<Rightarrow> nat) \<Rightarrow> nat \<Rightarrow> nat \<Rightarrow> nat" where
  "band_start c n l = (\<Sum>k < l. alive c n k)"

lemma band_table:
  assumes "\<forall>s < n. counts ! s \<le> cap"
  defines "r \<equiv> exclusive_scan (cap + 2) (cap + 2) (more_table cap counts n)"
  shows "length (fst r) = cap + 2" "l < cap + 2 \<Longrightarrow> fst r ! l = band_start ((!) counts) n l"
    "snd r = band_start ((!) counts) n cap"
proof -
  let ?m = "more_table cap counts n"
  note m = more_table [OF assms(1)]
  have "cap + 2 \<le> length ?m" "cap + 2 \<le> cap + 2" using m by simp_all
  note s = exclusive_scan_is_prefix_sum [OF this]
  show "length (fst r) = cap + 2" using s m(1) by (simp add: r_def)
  have sum: "(\<Sum>k < l. ?m ! k) = band_start ((!) counts) n l" if "l \<le> cap + 2" for l
    unfolding band_start_def using m(2) that by (intro sum.cong) auto
  show "l < cap + 2 \<Longrightarrow> fst r ! l = band_start ((!) counts) n l" using s m(1) sum [of l] by (simp add: r_def)
  have "snd r = band_start ((!) counts) n (cap + 2)" using s sum [of "cap + 2"] by (simp add: r_def)
  then show "snd r = band_start ((!) counts) n cap"
    using alive_none [OF assms(1), of cap] alive_none [OF assms(1), of "Suc cap"] by (simp add: band_start_def numeral_2_eq_2)
qed

text \<open>After the sequences \<open>ps\<close> of the rank pass.\<close>

definition ranks_ok :: "nat list \<Rightarrow> nat \<Rightarrow> nat \<Rightarrow> nat \<Rightarrow> nat list \<Rightarrow> nat list \<times> nat list \<times> nat list \<Rightarrow> bool" where
  "ranks_ok counts n max_seqs cap ps st \<longleftrightarrow> (case st of (cursor, rank_of, by_rank) \<Rightarrow>
     length cursor = cap + 2 \<and> length rank_of = max_seqs \<and> length by_rank = max_seqs
     \<and> (\<forall>k < cap + 2. cursor ! k = card {s \<in> set ps. counts ! s = k})
     \<and> (\<forall>s \<in> set ps. alive ((!) counts) n (counts ! s) \<le> rank_of ! s
          \<and> rank_of ! s < alive ((!) counts) n (counts ! s) + cursor ! (counts ! s) \<and> by_rank ! (rank_of ! s) = s))"

lemma alive_room:
  assumes "set ps \<subseteq> {..<n}" "k < c s" "s < n"
  shows "alive c n (c s) + card {s' \<in> set ps. c s' = c s} \<le> alive c n k"
proof -
  have "alive c n (c s) + card {s' \<in> set ps. c s' = c s} = card ({x. x < n \<and> c s < c x} \<union> {s' \<in> set ps. c s' = c s})"
    unfolding alive_def by (simp add: card_Un_disjoint disjoint_iff)
  also have "\<dots> \<le> alive c n k" unfolding alive_def using assms by (intro card_mono) auto
  finally show ?thesis .
qed

lemma rank_pass_ok:
  assumes "distinct ps" "set ps \<subseteq> {..<n}" "n \<le> max_seqs" "\<forall>s < n. counts ! s \<le> cap"
  shows "ranks_ok counts n max_seqs cap ps
    (fold (rank_step (more_table cap counts n) counts) ps (replicate (cap + 2) 0, replicate max_seqs 0, replicate max_seqs 0))"
  using assms(1,2)
proof (induction ps rule: rev_induct)
  case Nil
  then show ?case by (simp add: ranks_ok_def del: add_2_eq_Suc' replicate_Suc)
next
  case (snoc t ps)
  let ?c = "(!) counts" and ?m = "more_table cap counts n"
  let ?init = "(replicate (cap + 2) 0, replicate max_seqs 0, replicate max_seqs 0)"
  obtain cursor rank_of by_rank where st: "fold (rank_step ?m counts) ps ?init = (cursor, rank_of, by_rank)" by (metis prod_cases3)
  have ih: "length cursor = cap + 2" "length rank_of = max_seqs" "length by_rank = max_seqs"
    "\<And>k. k < cap + 2 \<Longrightarrow> cursor ! k = card {s \<in> set ps. counts ! s = k}"
    "\<And>s. s \<in> set ps \<Longrightarrow> alive ?c n (counts ! s) \<le> rank_of ! s"
    "\<And>s. s \<in> set ps \<Longrightarrow> rank_of ! s < alive ?c n (counts ! s) + cursor ! (counts ! s)"
    "\<And>s. s \<in> set ps \<Longrightarrow> by_rank ! (rank_of ! s) = s"
    using snoc st by (simp_all add: ranks_ok_def)
  have t: "t < n" "t \<notin> set ps" "counts ! t \<le> cap" "set ps \<subseteq> {..<n}" using snoc.prems assms(4) by auto
  let ?r = "alive ?c n (counts ! t) + cursor ! (counts ! t)"
  have step: "fold (rank_step ?m counts) (ps @ [t]) ?init = (cursor[counts ! t := cursor ! (counts ! t) + 1], rank_of[t := ?r], by_rank[?r := t])"
    using t(3) unfolding fold_append comp_apply st fold.simps id_apply rank_step_def prod.case Let_def
    by (simp add: more_table(2) [OF assms(4)])
  have cur: "cursor ! (counts ! s) = card {s' \<in> set ps. counts ! s' = counts ! s}" if "s < n" for s
    using ih(4) [of "counts ! s"] assms(4) that by auto
  have "{s' \<in> set (t # ps). counts ! s' = counts ! t} = insert t {s' \<in> set ps. counts ! s' = counts ! t}" by auto
  then have ins: "card {s' \<in> set (t # ps). counts ! s' = counts ! t} = Suc (card {s' \<in> set ps. counts ! s' = counts ! t})"
    using t(2) by simp
  have fresh: "rank_of ! s \<noteq> ?r" if s: "s \<in> set ps" for s
  proof (cases "counts ! s = counts ! t")
    case True
    then show ?thesis using ih(6) [OF s] by simp
  next
    case False
    have sn: "s < n" using s t(4) by auto
    show ?thesis
    proof (cases "counts ! s < counts ! t")
      case True
      have "?r < alive ?c n (counts ! t) + card {s' \<in> set (t # ps). counts ! s' = counts ! t}"
        unfolding ins cur [OF t(1)] by simp
      also have "\<dots> \<le> alive ?c n (counts ! s)" using t(1,4) True by (intro alive_room) auto
      finally show ?thesis using ih(5) [OF s] by simp
    next
      case False
      then have lt: "counts ! t < counts ! s" using \<open>counts ! s \<noteq> counts ! t\<close> by simp
      have "rank_of ! s < alive ?c n (counts ! s) + card {s' \<in> set ps. counts ! s' = counts ! s}" using ih(6) [OF s] cur [OF sn] by simp
      also have "\<dots> \<le> alive ?c n (counts ! t)" by (rule alive_room [of _ _ _ ?c, OF t(4) lt sn])
      finally show ?thesis by simp
    qed
  qed
  have rlt: "?r < max_seqs"
  proof -
    have "?r = card ({x. x < n \<and> counts ! t < counts ! x} \<union> {s' \<in> set ps. counts ! s' = counts ! t})"
      unfolding alive_def cur [OF t(1)] by (simp add: card_Un_disjoint disjoint_iff)
    also have "\<dots> \<le> card ({..<n} - {t})" using t by (intro card_mono) auto
    also have "\<dots> < n" using t(1) by simp
    finally show ?thesis using assms(3) by simp
  qed
  have curs: "cursor[counts ! t := cursor ! (counts ! t) + 1] ! k = card {s \<in> set (ps @ [t]). counts ! s = k}" if k: "k < cap + 2" for k
  proof -
    have "{s \<in> set (ps @ [t]). counts ! s = k} = {s \<in> set ps. counts ! s = k} \<union> (if counts ! t = k then {t} else {})" by auto
    then show ?thesis using k ih(1,4) t(2) by (simp add: nth_list_update)
  qed
  have all: "alive ?c n (counts ! s) \<le> rank_of[t := ?r] ! s \<and> rank_of[t := ?r] ! s < alive ?c n (counts ! s) + cursor[counts ! t := cursor ! (counts ! t) + 1] ! (counts ! s)
      \<and> by_rank[?r := t] ! (rank_of[t := ?r] ! s) = s" if s: "s \<in> set (ps @ [t])" for s
  proof (cases "s = t")
    case True
    then show ?thesis using ih(1-3) t(1,3) assms(3) rlt by simp
  next
    case False
    then have "s \<in> set ps" using s by simp
    then show ?thesis using ih(5-7) [of s] fresh [of s] False ih(1) t(3) by (auto simp: nth_list_update)
  qed
  show ?case unfolding step ranks_ok_def prod.case using ih(1-3) curs all by simp
qed

lemma band_search:
  assumes "low < high" "bands ! low \<le> pos" "pos < bands ! high"
  shows "low \<le> band_search bands pos low high \<and> band_search bands pos low high < high
    \<and> bands ! band_search bands pos low high \<le> pos \<and> pos < bands ! Suc (band_search bands pos low high)"
  using assms
proof (induction bands pos low high rule: band_search.induct)
  case (1 bands pos low high)
  show ?case
  proof (cases "1 < high - low")
    case True
    let ?mid = "(low + high) div 2"
    have m: "low < ?mid" "?mid < high" using True by auto
    show ?thesis
    proof (cases "bands ! ?mid \<le> pos")
      case t: True
      have "band_search bands pos low high = band_search bands pos ?mid high"
        by (subst band_search.simps) (use True t in \<open>simp add: Let_def\<close>)
      then show ?thesis using "1.IH"(1) [OF True refl t m(2) t "1.prems"(3)] m by simp
    next
      case f: False
      have "band_search bands pos low high = band_search bands pos low ?mid"
        by (subst band_search.simps) (use True f in \<open>simp add: Let_def\<close>)
      then show ?thesis using "1.IH"(2) [OF True refl f m(1) "1.prems"(2)] f m by simp
    qed
  next
    case False
    then have "high = Suc low" using "1.prems"(1) by simp
    then show ?thesis using "1.prems" by (subst (1 2 3 4) band_search.simps) simp
  qed
qed

section \<open>The interface of the prologue\<close>

definition tiles_before :: "nat \<Rightarrow> (nat \<Rightarrow> nat) \<Rightarrow> (nat \<Rightarrow> nat) \<Rightarrow> nat \<Rightarrow> nat \<Rightarrow> nat" where
  "tiles_before n c seq_at p r = card {l. l < c (seq_at r) \<and> band_start c n l + r < p}"

text \<open>
  What the kernels of a call rely on: \<open>n\<close> sequences of \<open>c\<close> tiles each, the bands' first positions, the sequence at a rank, and
  for each window the band and the rank of its first position.
\<close>

locale banding =
  fixes n cap window nwindows :: nat and c band seq_at :: "nat \<Rightarrow> nat" and first :: "nat \<Rightarrow> nat \<times> nat"
  assumes window_pos: "0 < window"
    and counts_le: "s < n \<Longrightarrow> c s \<le> cap"
    and band: "l \<le> cap + 1 \<Longrightarrow> band l = band_start c n l"
    and seq_bij: "bij_betw seq_at {..<n} {..<n}"
    and rank_alive: "r < n \<Longrightarrow> r < alive c n l \<longleftrightarrow> l < c (seq_at r)"
    and first_band: "w < nwindows \<Longrightarrow> w * window < band_start c n cap \<Longrightarrow>
      fst (first w) < cap \<and> band_start c n (fst (first w)) \<le> w * window \<and> w * window < band_start c n (Suc (fst (first w)))
      \<and> snd (first w) = w * window - band_start c n (fst (first w))"
begin

lemma band_Suc: "band_start c n (Suc l) = band_start c n l + alive c n l"
  by (simp add: band_start_def)

lemma band_mono: "l \<le> m \<Longrightarrow> band_start c n l \<le> band_start c n m"
  unfolding band_start_def by (rule sum_mono2) auto

text \<open>The position of a tile of a rank; a rank's tiles have growing positions.\<close>

lemma position_lt:
  assumes "r < alive c n l" "l < m"
  shows "band_start c n l + r < band_start c n m"
proof -
  have "band_start c n l + r < band_start c n (Suc l)" using assms(1) by (simp add: band_Suc)
  also have "\<dots> \<le> band_start c n m" using assms(2) by (intro band_mono) simp
  finally show ?thesis .
qed

lemma seq_at_lt: "r < n \<Longrightarrow> seq_at r < n"
  using seq_bij by (auto simp: bij_betw_def)

lemma position_total:
  assumes "r < n" "l < c (seq_at r)"
  shows "band_start c n l + r < band_start c n cap"
  using position_lt [of r l cap] rank_alive [OF assms(1)] assms(2) counts_le [OF seq_at_lt [OF assms(1)]] by simp

text \<open>How many tiles of a rank lie before a position.\<close>

abbreviation before :: "nat \<Rightarrow> nat \<Rightarrow> nat" where
  "before \<equiv> tiles_before n c seq_at"

lemma before_set:
  assumes "r < n"
  shows "{l. l < c (seq_at r) \<and> band_start c n l + r < p} = {..<before p r}"
proof -
  let ?S = "{l. l < c (seq_at r) \<and> band_start c n l + r < p}"
  have fin: "finite ?S" by simp
  have down: "k \<in> ?S" if "l \<in> ?S" "k < l" for k l
    using that band_mono [of k l] by auto
  have "?S = {..<card ?S}"
  proof (cases "?S = {}")
    case True
    then show ?thesis by (simp only: card.empty lessThan_0)
  next
    case False
    let ?m = "Max ?S"
    have m: "?m \<in> ?S" by (rule Max_in [OF fin False])
    have "?S = {..?m}"
    proof
      show "?S \<subseteq> {..?m}" using Max_ge [OF fin] by auto
      show "{..?m} \<subseteq> ?S"
      proof
        fix x assume "x \<in> {..?m}"
        then have "x = ?m \<or> x < ?m" by auto
        then show "x \<in> ?S" using m down [OF m] by blast
      qed
    qed
    then show ?thesis by (metis card_atMost lessThan_Suc_atMost)
  qed
  then show ?thesis unfolding tiles_before_def .
qed

lemma before_iff: "r < n \<Longrightarrow> l < before p r \<longleftrightarrow> l < c (seq_at r) \<and> band_start c n l + r < p"
  using before_set [of r p] by blast

lemma before_le: "r < n \<Longrightarrow> before p r \<le> c (seq_at r)"
  using before_iff [of r "c (seq_at r)" p] by (simp add: not_less [symmetric])

lemma before_mono: "p \<le> q \<Longrightarrow> before p r \<le> before q r"
  unfolding tiles_before_def by (rule card_mono) auto

lemma before_0 [simp]: "before 0 r = 0"
  by (simp add: tiles_before_def)

lemma before_all:
  assumes "r < n" "band_start c n cap \<le> p"
  shows "before p r = c (seq_at r)"
proof -
  have "{l. l < c (seq_at r) \<and> band_start c n l + r < p} = {..<c (seq_at r)}"
    using position_total [OF assms(1)] assms(2) by (auto intro: less_le_trans)
  then show ?thesis by (simp add: tiles_before_def)
qed

text \<open>The least tile at or after a position.\<close>

lemma before_eqI:
  assumes "r < n" "l \<le> c (seq_at r)" "\<And>k. k < l \<Longrightarrow> band_start c n k + r < p" "l < c (seq_at r) \<Longrightarrow> p \<le> band_start c n l + r"
  shows "before p r = l"
proof (rule linorder_cases)
  assume a: "before p r < l"
  then have "before p r < c (seq_at r) \<and> band_start c n (before p r) + r < p" using assms(2,3) by simp
  then show ?thesis using before_iff [OF assms(1), of "before p r" p] by simp
next
  assume "l < before p r"
  then show ?thesis using before_iff [OF assms(1), of l p] assms(4) by simp
qed

end

section \<open>The prologue provides it\<close>

text \<open>A run of the prologue: the live sequences fit the plan and the atomics happen in some order.\<close>

locale prologue_run =
  fixes max_seqs cap window nwindows live :: nat and cu :: "int list" and order :: "nat list"
  assumes window: "0 < window" and live: "live \<le> max_seqs" and order: "distinct order" "set order = {..<live}"
begin

abbreviation tables :: prologue where
  "tables \<equiv> run_prologue max_seqs cap window nwindows cu live order"

lemma counts: "s < live \<Longrightarrow> pg_counts tables ! s = tile_count cap cu s"
  using live by (simp add: run_prologue_def seq_counts_def Let_def split_def)

lemma counts_cap: "\<forall>s < live. seq_counts max_seqs cap cu live ! s \<le> cap"
  using live by (auto simp: seq_counts_def tile_count_def)

lemma alive_counts: "alive ((!) (seq_counts max_seqs cap cu live)) live = alive (tile_count cap cu) live"
proof
  fix l
  have "{s. s < live \<and> l < seq_counts max_seqs cap cu live ! s} = {s. s < live \<and> l < tile_count cap cu s}"
    using live by (auto simp: seq_counts_def)
  then show "alive ((!) (seq_counts max_seqs cap cu live)) live l = alive (tile_count cap cu) live l" by (simp add: alive_def)
qed

lemma band_counts: "band_start ((!) (seq_counts max_seqs cap cu live)) live = band_start (tile_count cap cu) live"
  by (simp add: band_start_def alive_counts fun_eq_iff)

lemma bands: "l < cap + 2 \<Longrightarrow> pg_bands tables ! l = band_start (tile_count cap cu) live l"
  and total: "pg_total tables = band_start (tile_count cap cu) live cap"
  using band_table(2,3) [OF counts_cap] by (simp_all add: run_prologue_def Let_def split_def band_counts)

lemma ranks:
  defines "rank \<equiv> (\<lambda>s. pg_rank_of tables ! s)" and "c \<equiv> tile_count cap cu"
  shows "s < live \<Longrightarrow> pg_sorted tables ! rank s = s" "s < live \<Longrightarrow> alive c live (c s) \<le> rank s"
    "s < live \<Longrightarrow> l < c s \<Longrightarrow> rank s < alive c live l" "s < live \<Longrightarrow> rank s < live"
proof -
  let ?counts = "seq_counts max_seqs cap cu live"
  obtain cursor where st: "fold (rank_step (more_table cap ?counts live) ?counts) order (replicate (cap + 2) 0, replicate max_seqs 0, replicate max_seqs 0)
      = (cursor, pg_rank_of tables, pg_sorted tables)"
    by (cases "fold (rank_step (more_table cap ?counts live) ?counts) order (replicate (cap + 2) 0, replicate max_seqs 0, replicate max_seqs 0)")
      (simp add: run_prologue_def rank_pass_def Let_def split_def)
  have e: "?counts ! s = c s" if "s < live" for s using that live by (simp add: seq_counts_def c_def)
  have ok: "ranks_ok ?counts live max_seqs cap order (cursor, pg_rank_of tables, pg_sorted tables)"
    using rank_pass_ok [OF order(1) equalityD1 [OF order(2)] live counts_cap] unfolding st .
  have a: "alive c live (c s) \<le> rank s" "rank s < alive c live (c s) + card {s' \<in> set order. ?counts ! s' = c s}" "pg_sorted tables ! rank s = s"
    if s: "s < live" for s
  proof -
    have k: "?counts ! s = c s" "c s < cap + 2" using e [OF s] counts_cap s by auto
    have "cursor ! c s = card {s' \<in> set order. ?counts ! s' = c s}" using ok k(2) unfolding ranks_ok_def by auto
    moreover have b: "\<forall>s \<in> set order. alive c live (?counts ! s) \<le> rank s \<and> rank s < alive c live (?counts ! s) + cursor ! (?counts ! s)
        \<and> pg_sorted tables ! rank s = s"
      using ok unfolding ranks_ok_def prod.case alive_counts rank_def c_def by (elim conjE)
    moreover have "s \<in> set order" using s order(2) by simp
    note bspec [OF b this, unfolded k(1)]
    ultimately show "alive c live (c s) \<le> rank s" "rank s < alive c live (c s) + card {s' \<in> set order. ?counts ! s' = c s}"
      "pg_sorted tables ! rank s = s" by simp_all
  qed
  have same: "{s' \<in> set order. ?counts ! s' = c s} = {s' \<in> set order. c s' = c s}" for s
    using order(2) e by auto
  show "s < live \<Longrightarrow> pg_sorted tables ! rank s = s" "s < live \<Longrightarrow> alive c live (c s) \<le> rank s" using a by simp_all
  show lt: "s < live \<Longrightarrow> l < c s \<Longrightarrow> rank s < alive c live l" for l
    using a(2) [of s, unfolded same] alive_room [of order live l c s] equalityD1 [OF order(2)] by linarith
  show "rank s < live" if s: "s < live"
  proof (cases "c s")
    case 0
    have "alive c live (c s) + card {s' \<in> set order. c s' = c s} = card ({x. x < live \<and> c s < c x} \<union> {s' \<in> set order. c s' = c s})"
      unfolding alive_def by (simp add: card_Un_disjoint disjoint_iff)
    also have "\<dots> \<le> card {..<live}" using order(2) by (intro card_mono) auto
    finally show ?thesis using a(2) [OF s, unfolded same] by simp
  next
    case (Suc k)
    then show ?thesis using lt [OF s, of k] alive_le [of c live k] by simp
  qed
qed

lemma rank_onto:
  assumes "r < live"
  obtains s where "s < live" "r = pg_rank_of tables ! s" "pg_sorted tables ! r = s"
proof -
  have inj: "inj_on (\<lambda>s. pg_rank_of tables ! s) {..<live}" by (rule inj_on_inverseI [of _ "\<lambda>r. pg_sorted tables ! r"]) (simp add: ranks(1))
  have "(\<lambda>s. pg_rank_of tables ! s) ` {..<live} \<subseteq> {..<live}" using ranks(4) by auto
  then have "r \<in> (\<lambda>s. pg_rank_of tables ! s) ` {..<live}" using assms inj by (simp add: endo_inj_surj)
  then show thesis using that ranks(1) by auto
qed

lemma sorted_bij: "bij_betw (\<lambda>r. pg_sorted tables ! r) {..<live} {..<live}"
proof (rule bij_betw_byWitness [of _ "\<lambda>s. pg_rank_of tables ! s"])
  show "\<forall>r \<in> {..<live}. pg_rank_of tables ! (pg_sorted tables ! r) = r" using rank_onto by (metis lessThan_iff)
  show "(\<lambda>r. pg_sorted tables ! r) ` {..<live} \<subseteq> {..<live}" using rank_onto by (metis image_subsetI lessThan_iff)
qed (use ranks(1,4) in auto)

lemma sorted_alive: "r < live \<Longrightarrow> r < alive (tile_count cap cu) live l \<longleftrightarrow> l < tile_count cap cu (pg_sorted tables ! r)"
proof -
  assume "r < live"
  then obtain s where s: "s < live" "r = pg_rank_of tables ! s" "pg_sorted tables ! r = s" by (rule rank_onto)
  show ?thesis
  proof
    assume a: "r < alive (tile_count cap cu) live l"
    show "l < tile_count cap cu (pg_sorted tables ! r)"
    proof (rule ccontr)
      assume "\<not> ?thesis"
      then have "alive (tile_count cap cu) live l \<le> alive (tile_count cap cu) live (tile_count cap cu s)" using s(3) by (intro alive_mono) simp
      then show False using a ranks(2) [OF s(1)] s(2) by simp
    qed
  next
    assume "l < tile_count cap cu (pg_sorted tables ! r)"
    then show "r < alive (tile_count cap cu) live l" using ranks(3) [OF s(1)] s(2,3) by simp
  qed
qed

lemma windows:
  assumes "w < nwindows" "w * window < band_start (tile_count cap cu) live cap"
  defines "a \<equiv> fst (pg_windows tables ! w)"
  shows "a < cap \<and> band_start (tile_count cap cu) live a \<le> w * window \<and> w * window < band_start (tile_count cap cu) live (Suc a)
    \<and> snd (pg_windows tables ! w) = w * window - band_start (tile_count cap cu) live a"
proof -
  have w: "pg_windows tables ! w = (band_search (pg_bands tables) (w * window) 0 cap, w * window - pg_bands tables ! band_search (pg_bands tables) (w * window) 0 cap)"
    using assms(1) by (simp add: run_prologue_def Let_def split_def)
  have c: "0 < cap" using assms(2) by (auto simp: band_start_def intro: gr0I)
  have "pg_bands tables ! 0 \<le> w * window" "w * window < pg_bands tables ! cap"
    using bands [of 0] bands [of cap] assms(2) by (simp_all add: band_start_def)
  note f = band_search [OF c this]
  then show ?thesis unfolding a_def w fst_conv snd_conv
    using bands [of "band_search (pg_bands tables) (w * window) 0 cap"] bands [of "Suc (band_search (pg_bands tables) (w * window) 0 cap)"] by simp
qed

end

sublocale prologue_run \<subseteq> banding live cap window nwindows "tile_count cap cu" "\<lambda>l. pg_bands tables ! l" "\<lambda>r. pg_sorted tables ! r" "\<lambda>w. pg_windows tables ! w"
proof
  show "s < live \<Longrightarrow> tile_count cap cu s \<le> cap" for s by (simp add: tile_count_def)
qed (use window bands sorted_bij sorted_alive windows in auto)

text \<open>The sequences in order of arrival are one order of the atomics.\<close>

interpretation arrival: prologue_run "max live max_seqs" cap "Suc window" nwindows live cu "[0..<live]"
  for max_seqs cap window nwindows live cu
  by unfold_locales (auto simp: atLeast0LessThan)

context prologue_run
begin

lemma tile_position:
  assumes "s < live" "l < tile_count cap cu s"
  shows "pg_bands tables ! l + pg_rank_of tables ! s < pg_total tables \<and> pg_bands tables ! l + pg_rank_of tables ! s < pg_bands tables ! Suc l
    \<and> pg_bands tables ! l = band_start (tile_count cap cu) live l \<and> pg_rank_of tables ! s < alive (tile_count cap cu) live l"
proof -
  let ?c = "tile_count cap cu"
  have l: "l < cap" using assms(2) by (simp add: tile_count_def)
  have r: "pg_rank_of tables ! s < alive ?c live l" by (rule ranks(3) [OF assms])
  have b: "pg_bands tables ! l = band_start ?c live l" "pg_bands tables ! Suc l = band_start ?c live (Suc l)" using bands l by simp_all
  show ?thesis unfolding b total using position_lt [OF r l] r by (simp add: band_Suc)
qed

lemma tile_position_inj:
  assumes "s < live" "l < tile_count cap cu s" "s' < live" "l' < tile_count cap cu s'"
    and "pg_bands tables ! l' + pg_rank_of tables ! s' = pg_bands tables ! l + pg_rank_of tables ! s"
  shows "s' = s \<and> l' = l"
proof -
  note a = tile_position [OF assms(1,2)] and b = tile_position [OF assms(3,4)]
  let ?B = "band_start (tile_count cap cu) live"
  have e: "?B l' + pg_rank_of tables ! s' = ?B l + pg_rank_of tables ! s" using assms(5) a b by metis
  have r: "pg_rank_of tables ! s < alive (tile_count cap cu) live l" "pg_rank_of tables ! s' < alive (tile_count cap cu) live l'"
    using a b by simp_all
  have "l' = l" using position_lt [OF r(1), of l'] position_lt [OF r(2), of l] e by (cases l l' rule: linorder_cases) simp_all
  then have "pg_rank_of tables ! s' = pg_rank_of tables ! s" using e by simp
  then show ?thesis using ranks(1) [OF assms(1)] ranks(1) [OF assms(3)] \<open>l' = l\<close> by metis
qed

lemma position_tables:
  assumes "s < live" "l < tile_count cap cu s" "pg_bands tables ! l + pg_rank_of tables ! s < cap"
  defines "p \<equiv> pg_bands tables ! l + pg_rank_of tables ! s"
  shows "pg_pos_seq tables ! p = int s \<and> pg_pos_local tables ! p = l"
proof -
  note a = tile_position [OF assms(1,2)]
  let ?at = "band_search (pg_bands tables) p 0 cap"
  have l: "l < cap" using assms(2) by (simp add: tile_count_def)
  have lt: "p < pg_total tables" using a by (simp add: p_def)
  have "pg_bands tables ! 0 \<le> p" "p < pg_bands tables ! cap" using bands [of 0] bands [of cap] lt total by (simp_all add: band_start_def)
  from band_search [OF _ this] have f: "?at < cap" "pg_bands tables ! ?at \<le> p" "p < pg_bands tables ! Suc ?at" using l by auto
  have mono: "pg_bands tables ! i \<le> pg_bands tables ! j" if "i \<le> j" "j \<le> cap" for i j
    using bands that band_mono [of i j] by simp
  have "?at = l"
  proof (rule linorder_cases)
    assume "?at < l"
    then have "pg_bands tables ! Suc ?at \<le> pg_bands tables ! l" using l by (intro mono) simp_all
    then show ?thesis using f(3) by (simp add: p_def)
  next
    assume "l < ?at"
    then have "pg_bands tables ! Suc l \<le> pg_bands tables ! ?at" using f(1) by (intro mono) simp_all
    then show ?thesis using f(2) a by (simp add: p_def)
  qed
  moreover have "pg_sorted tables ! (p - pg_bands tables ! l) = s" using ranks(1) [OF assms(1)] by (simp add: p_def)
  moreover have "pg_pos_seq tables ! p = int (pg_sorted tables ! (p - pg_bands tables ! ?at))" "pg_pos_local tables ! p = ?at"
    using lt assms(3) unfolding p_def [symmetric] by (simp_all add: run_prologue_def Let_def split_def)
  ultimately show ?thesis by simp
qed

end

text \<open>
  Every tile of a call has its own position below the total, inside the band of its index, and the position tables name it.
\<close>

text \<open>
  Every tile of a call has its own position below the total, inside the band of its
  index, and the position tables name it.
\<close>

theorem prologue_lays_out_tiles:
  assumes "0 < window" "live \<le> max_seqs" "distinct order" "set order = {..<live}" "s < live" "l < tile_count cap cu s"
    and "P = run_prologue max_seqs cap window nwindows cu live order" "p = pg_bands P ! l + pg_rank_of P ! s"
  shows "p < pg_total P \<and> p < pg_bands P ! Suc l \<and> pg_sorted P ! (pg_rank_of P ! s) = s
    \<and> (p < cap \<longrightarrow> pg_pos_seq P ! p = int s \<and> pg_pos_local P ! p = l)
    \<and> (\<forall>s' < live. \<forall>l' < tile_count cap cu s'. pg_bands P ! l' + pg_rank_of P ! s' = p \<longrightarrow> s' = s \<and> l' = l)"
proof -
  note run = prologue_run.intro [OF assms(1-4)]
  show ?thesis unfolding assms(7,8)
    using prologue_run.tile_position [OF run assms(5,6)] prologue_run.position_tables [OF run assms(5,6)]
      prologue_run.ranks(1) [OF run assms(5)] prologue_run.tile_position_inj [OF run assms(5,6)] by blast
qed

end
