(* ===== verification/Kda_Windows.thy ===== *)
theory Kda_Windows
  imports Kda_Bands Lean_Kernel
begin

text \<open>
  The recurrence kernel of the checkpointed KDA prefill (\<open>_RecurrenceCkptKernel\<close> in \<open>src/src/tp4/glm53_kda_ckpt.py\<close>): which
  tiles a grid row of a window runs, the tile loop with its checkpoint exports, the running state between windows, empty
  sequences and the poisoned output of a call with an error code. The model follows one head and value split: a state is a
  value of any type, and \<open>tile s l\<close> is the register arithmetic of tile \<open>l\<close> of sequence \<open>s\<close> (the tensor-core phases A to D),
  giving the next state and the tile's output rows. The grid rows of a window run in any order, each as a whole; the
  producer warp, the staging ring of a block and the ready flags are not modelled.
\<close>

section \<open>The tiles of a grid row\<close>

definition row_start :: "nat \<Rightarrow> nat \<Rightarrow> prologue \<Rightarrow> nat \<Rightarrow> nat \<Rightarrow> (nat \<times> nat) option" where
  "row_start cap window P w by_row =
     (let window_begin = w * window;
          tot = pg_bands P ! (cap + 1);
          (band_a, first) = pg_windows P ! w;
          seg1 = int (pg_bands P ! (band_a + 1)) - int window_begin;
          (first, seg1) = (if tot \<le> window_begin then (0, 0) else (first, seg1))
      in if int by_row < seg1 then Some (first + by_row, band_a)
         else if int by_row - seg1 < int first then Some (nat (int by_row - seg1), band_a + 1) else None)"

text \<open>The least staged entry whose position reaches the window's end.\<close>

function end_search :: "(nat \<Rightarrow> bool) \<Rightarrow> nat \<Rightarrow> nat \<Rightarrow> nat" where
  "end_search reached low high =
     (if low < high
      then let mid = (low + high) div 2 in if reached mid then end_search reached low mid else end_search reached (mid + 1) high
      else low)"
  by pat_completeness auto

termination
  by (relation "measure (\<lambda>(reached, low, high). high - low)") auto

declare end_search.simps [simp del]

text \<open>The sequence of a row, its first tile in the window and the one after its last.\<close>

definition row_span :: "nat \<Rightarrow> nat \<Rightarrow> int list \<Rightarrow> prologue \<Rightarrow> nat \<Rightarrow> nat \<Rightarrow> (nat \<times> nat \<times> nat) option" where
  "row_span cap window cu P w by_row =
     map_option (\<lambda>(rank, l).
       let s = pg_sorted P ! rank; tiles = tile_count cap cu s; l_begin = min l tiles;
           staged = (\<lambda>i. pg_bands P ! min (l_begin + i) (cap + 1));
           l_end = l_begin + end_search (\<lambda>i. (w + 1) * window \<le> staged i + rank) 0 (min (tiles - l_begin) window)
       in (s, l_begin, l_end)) (row_start cap window P w by_row)"

section \<open>The tile loop\<close>

record 's kda_call =
  kl_cu :: "int list"
  kl_initial :: "int list"
  kl_final :: "int list"
  kl_ckpts :: "(int \<times> int) list list"
  kl_null :: "int option"
  kl_zero :: 's

record ('s, 'o) kda_mem =
  km_slot :: "int \<Rightarrow> 's"
  km_out :: "nat \<Rightarrow> nat \<Rightarrow> 'o"

definition store :: "'s kda_call \<Rightarrow> int \<Rightarrow> 's \<Rightarrow> ('s, 'o) kda_mem \<Rightarrow> ('s, 'o) kda_mem" where
  "store k slot x m = (if kl_null k = Some slot then m else m\<lparr>km_slot := (km_slot m)(slot := x)\<rparr>)"

definition load_initial :: "'s kda_call \<Rightarrow> nat \<Rightarrow> ('s, 'o) kda_mem \<Rightarrow> 's" where
  "load_initial k s m = (if kl_null k = Some (kl_initial k ! s) then kl_zero k else km_slot m (kl_initial k ! s))"

definition export_ckpt :: "'s kda_call \<Rightarrow> nat \<Rightarrow> 's \<Rightarrow> int \<times> int \<Rightarrow> ('s, 'o) kda_mem \<Rightarrow> ('s, 'o) kda_mem" where
  "export_ckpt k l acc cp m =
     (if 0 < snd cp \<and> (int l + 1) * CHUNK_TOKENS = snd cp then store k (fst cp) acc m else m)"

definition tile_step ::
  "'s kda_call \<Rightarrow> (nat \<Rightarrow> nat \<Rightarrow> 's \<Rightarrow> 's \<times> 'o) \<Rightarrow> nat \<Rightarrow> nat \<Rightarrow> 's \<times> ('s, 'o) kda_mem \<Rightarrow> 's \<times> ('s, 'o) kda_mem" where
  "tile_step k tile s l am =
     (let (acc, rows) = tile s l (fst am);
          m = snd am\<lparr>km_out := (km_out (snd am))(s := (km_out (snd am) s)(l := rows))\<rparr>
      in (acc, fold (export_ckpt k l acc) (kl_ckpts k ! s) m))"

definition run_tiles ::
  "'s kda_call \<Rightarrow> (nat \<Rightarrow> nat \<Rightarrow> 's \<Rightarrow> 's \<times> 'o) \<Rightarrow> nat \<times> nat \<times> nat \<Rightarrow> ('s, 'o) kda_mem \<Rightarrow> ('s, 'o) kda_mem" where
  "run_tiles k tile sp m =
     (case sp of (s, l_begin, l_end) \<Rightarrow>
        if l_begin < l_end
        then let start = (if l_begin = 0 then load_initial k s m else km_slot m (kl_final k ! s));
                 (acc, m') = fold (tile_step k tile s) [l_begin..<l_end] (start, m)
             in store k (kl_final k ! s) acc m'
        else m)"

definition copy_empty :: "'s kda_call \<Rightarrow> nat \<Rightarrow> ('s, 'o) kda_mem \<Rightarrow> ('s, 'o) kda_mem" where
  "copy_empty k s m = store k (kl_final k ! s) (load_initial k s m) m"

definition empty_seqs :: "nat \<Rightarrow> prologue \<Rightarrow> nat \<Rightarrow> nat \<Rightarrow> nat \<Rightarrow> nat list" where
  "empty_seqs rows P live w by_row =
     (if w = 0 then map (\<lambda>r. pg_sorted P ! r) (strided (pg_bands P ! 1 + by_row) live rows) else [])"

definition grid_row ::
  "nat \<Rightarrow> nat \<Rightarrow> nat \<Rightarrow> nat \<Rightarrow> prologue \<Rightarrow> 's kda_call \<Rightarrow> (nat \<Rightarrow> nat \<Rightarrow> 's \<Rightarrow> 's \<times> 'o) \<Rightarrow> nat \<Rightarrow> nat \<Rightarrow> ('s, 'o) kda_mem \<Rightarrow> ('s, 'o) kda_mem" where
  "grid_row rows cap window live P k tile w by_row m =
     fold (copy_empty k) (empty_seqs rows P live w by_row)
       (case row_span cap window (kl_cu k) P w by_row of None \<Rightarrow> m | Some sp \<Rightarrow> run_tiles k tile sp m)"

section \<open>The windows of a call\<close>

text \<open>\<open>bad\<close> is the output of a call whose metadata did not pass; \<open>grid w\<close> is the order of the grid rows of window \<open>w\<close>.\<close>

definition launch_window ::
  "nat \<Rightarrow> nat \<Rightarrow> nat \<Rightarrow> nat \<Rightarrow> prologue \<Rightarrow> 's kda_call \<Rightarrow> (nat \<Rightarrow> nat \<Rightarrow> 's \<Rightarrow> 's \<times> 'o) \<Rightarrow> nat \<Rightarrow> 'o \<Rightarrow> (nat \<Rightarrow> nat list) \<Rightarrow> nat \<Rightarrow>
    ('s, 'o) kda_mem \<Rightarrow> ('s, 'o) kda_mem" where
  "launch_window rows cap window live P k tile error bad grid w m =
     (if error \<noteq> 0 then (if w = 0 then m\<lparr>km_out := (\<lambda>_ _. bad)\<rparr> else m)
      else fold (grid_row rows cap window live P k tile w) (grid w) m)"

definition run_windows ::
  "nat \<Rightarrow> nat \<Rightarrow> nat \<Rightarrow> nat \<Rightarrow> prologue \<Rightarrow> 's kda_call \<Rightarrow> (nat \<Rightarrow> nat \<Rightarrow> 's \<Rightarrow> 's \<times> 'o) \<Rightarrow> nat \<Rightarrow> 'o \<Rightarrow> (nat \<Rightarrow> nat list) \<Rightarrow> nat \<Rightarrow>
    ('s, 'o) kda_mem \<Rightarrow> ('s, 'o) kda_mem" where
  "run_windows rows cap window live P k tile error bad grid launched =
     fold (launch_window rows cap window live P k tile error bad grid) [0..<launched]"

section \<open>Searching the end\<close>

lemma end_search:
  assumes "low \<le> high" "\<forall>i < low. \<not> reached i" "\<forall>j < hi0. \<forall>i \<le> j. reached i \<longrightarrow> reached j" "high \<le> hi0"
    and "high < hi0 \<longrightarrow> reached high"
  shows "end_search reached low high \<le> high \<and> (\<forall>i < end_search reached low high. \<not> reached i)
    \<and> (end_search reached low high < hi0 \<longrightarrow> reached (end_search reached low high))"
  using assms
proof (induction reached low high rule: end_search.induct)
  case (1 reached low high)
  show ?case
  proof (cases "low < high")
    case True
    let ?mid = "(low + high) div 2"
    have m: "low \<le> ?mid" "?mid < high" "?mid \<le> hi0" "?mid < hi0" using True "1.prems"(4) by auto
    show ?thesis
    proof (cases "reached ?mid")
      case t: True
      have "end_search reached low high = end_search reached low ?mid"
        by (subst end_search.simps) (use True t in \<open>simp add: Let_def\<close>)
      then show ?thesis using "1.IH"(1) [OF True refl t m(1) "1.prems"(2,3) m(3)] m t by auto
    next
      case f: False
      have "end_search reached low high = end_search reached (?mid + 1) high"
        by (subst end_search.simps) (use True f in \<open>simp add: Let_def\<close>)
      moreover have "\<forall>i < ?mid + 1. \<not> reached i"
      proof (intro allI impI notI)
        fix i assume "i < ?mid + 1" "reached i"
        then show False using f "1.prems"(3) m(4) by auto
      qed
      moreover have "?mid + 1 \<le> high" using m(2) by simp
      ultimately show ?thesis using "1.IH"(2) [OF True refl f _ _ "1.prems"(3-5)] by simp
    qed
  next
    case False
    then show ?thesis using "1.prems" by (subst (1 2 3 4) end_search.simps) simp
  qed
qed

section \<open>Rows and windows\<close>

text \<open>What a grid row of a window runs, over the interface of the prologue.\<close>

context banding
begin

text \<open>The row of a rank in a window: its first tile there is the next one to run.\<close>

lemma row_start_before:
  assumes "w < nwindows" "row_start cap window P w by_row = Some (r, l)"
    and "\<forall>l \<le> cap + 1. pg_bands P ! l = band l" "pg_windows P ! w = first w"
  shows "w * window < band_start c n cap \<and> r < n \<and> before (w * window) r = l \<and> l \<le> c (seq_at r)
    \<and> (l < c (seq_at r) \<longrightarrow> band_start c n l + r = w * window + by_row)"
proof -
  let ?p = "w * window" and ?B = "band_start c n" and ?a = "fst (first w)"
  have tot: "pg_bands P ! (cap + 1) = ?B cap"
    using assms(3) band [of "cap + 1"] alive_none [of n c cap cap] counts_le by (simp add: band_Suc)
  have in_total: "?p < ?B cap"
    using assms(2) tot by (auto simp: row_start_def Let_def split: if_splits prod.splits)
  note f = first_band [OF assms(1) in_total]
  have seg: "pg_bands P ! (?a + 1) = ?B ?a + alive c n ?a" using assms(3) band [of "?a + 1"] f by (simp add: band_Suc)
  have fr: "snd (first w) = ?p - ?B ?a" "?B ?a \<le> ?p" "?p < ?B ?a + alive c n ?a" using f by (simp_all add: band_Suc)
  have cases: "r = snd (first w) + by_row \<and> l = ?a \<and> int by_row < int (?B ?a + alive c n ?a) - int ?p
      \<or> r = nat (int by_row - (int (?B ?a + alive c n ?a) - int ?p)) \<and> l = ?a + 1
        \<and> \<not> int by_row < int (?B ?a + alive c n ?a) - int ?p \<and> int by_row - (int (?B ?a + alive c n ?a) - int ?p) < int (snd (first w))"
    using assms(2) in_total tot seg unfolding row_start_def Let_def assms(4)
    by (simp add: split_beta split: if_splits)
  from cases show ?thesis
  proof (elim disjE conjE)
    assume k: "r = snd (first w) + by_row" "l = ?a" "int by_row < int (?B ?a + alive c n ?a) - int ?p"
    have r: "r < alive c n ?a" using k fr by linarith
    then have rn: "r < n" using alive_le [of c n ?a] by simp
    have l: "?a < c (seq_at r)" using rank_alive [OF rn] r by simp
    have pos: "?B ?a + r = ?p + by_row" using k(1) fr by simp
    have "before ?p r = ?a"
    proof (rule before_eqI [OF rn])
      show "?B k + r < ?p" if "k < ?a" for k
        using position_lt [of r k ?a] rank_alive [OF rn] that l fr(2) by (metis less_le_trans less_trans)
    qed (use l pos in auto)
    then show ?thesis using k(2) rn l pos in_total by simp
  next
    assume k: "r = nat (int by_row - (int (?B ?a + alive c n ?a) - int ?p))" "l = ?a + 1"
      "\<not> int by_row < int (?B ?a + alive c n ?a) - int ?p" "int by_row - (int (?B ?a + alive c n ?a) - int ?p) < int (snd (first w))"
    have r: "r < snd (first w)" using k by simp
    then have ra: "r < alive c n ?a" using fr by linarith
    then have rn: "r < n" using alive_le [of c n ?a] by simp
    have la: "?a < c (seq_at r)" using rank_alive [OF rn] ra by simp
    have "int r = int by_row - (int (?B ?a + alive c n ?a) - int ?p)" using k(1,3) by simp
    moreover have "?B (?a + 1) = ?B ?a + alive c n ?a" by (simp add: band_Suc)
    ultimately have pos: "?B (?a + 1) + r = ?p + by_row" by linarith
    have "before ?p r = ?a + 1"
    proof (rule before_eqI [OF rn])
      show "?B k + r < ?p" if "k < ?a + 1" for k
      proof (cases "k = ?a")
        case True
        show ?thesis unfolding True using r fr by linarith
      next
        case False
        then have "k < ?a" using that by simp
        then show ?thesis using position_lt [of r k ?a] rank_alive [OF rn] la fr(2) by (metis less_le_trans less_trans)
      qed
    qed (use la pos in auto)
    then show ?thesis using k(2) rn la pos in_total by simp
  qed
qed

text \<open>Every rank with a tile in the window has a row, and no two rows share a rank.\<close>

lemma row_start_onto:
  assumes "w < nwindows" "r < n" "before (w * window) r < before ((w + 1) * window) r"
    and "\<forall>l \<le> cap + 1. pg_bands P ! l = band l" "pg_windows P ! w = first w"
  shows "\<exists>by_row < min n window. row_start cap window P w by_row = Some (r, before (w * window) r)"
proof -
  let ?p = "w * window" and ?B = "band_start c n" and ?a = "fst (first w)" and ?l = "before (w * window) r"
  have l: "?l < c (seq_at r)" "?B ?l + r < (w + 1) * window" using before_iff [OF assms(2), of ?l "(w + 1) * window"] assms(3) by simp_all
  have ge: "?p \<le> ?B ?l + r" using before_iff [OF assms(2), of ?l ?p] l(1) by simp
  have in_total: "?p < ?B cap" using ge position_total [OF assms(2) l(1)] by simp
  have tot: "pg_bands P ! (cap + 1) = ?B cap"
    using assms(4) band [of "cap + 1"] alive_none [of n c cap cap] counts_le by (simp add: band_Suc)
  note f = first_band [OF assms(1) in_total]
  have seg: "pg_bands P ! (?a + 1) = ?B ?a + alive c n ?a" using assms(4) band [of "?a + 1"] f by (simp add: band_Suc)
  have fr: "snd (first w) = ?p - ?B ?a" "?B ?a \<le> ?p" "?p < ?B ?a + alive c n ?a" using f by (simp_all add: band_Suc)
  have rl: "r < alive c n ?l" using rank_alive [OF assms(2)] l(1) by simp
  have la: "?a \<le> ?l"
  proof (rule ccontr)
    assume "\<not> ?a \<le> ?l"
    then have "?B ?l + r < ?B ?a" using position_lt [OF rl, of ?a] by simp
    then show False using ge fr(2) by simp
  qed
  have ra: "r < alive c n ?a" using rl alive_mono [OF la, of c n] by simp
  define by_row where "by_row = ?B ?l + r - ?p"
  have "row_start cap window P w by_row = Some (r, ?l) \<and> by_row < n"
  proof (cases "snd (first w) \<le> r")
    case True
    have "before ?p r = ?a"
    proof (rule before_eqI [OF assms(2)])
      show "?a \<le> c (seq_at r)" using rank_alive [OF assms(2), of ?a] ra by simp
      show "?B k + r < ?p" if "k < ?a" for k
        using position_lt [of r k ?a] ra alive_mono [of k ?a c n] that fr(2) by simp
      show "?p \<le> ?B ?a + r" using True fr by simp
    qed
    then have e: "?l = ?a" .
    have "int by_row < int (?B ?a + alive c n ?a) - int ?p" "by_row < n" "r = snd (first w) + by_row"
      using ra fr True ge alive_le [of c n ?a] assms(2) unfolding by_row_def e by linarith+
    then show ?thesis using in_total tot seg unfolding row_start_def Let_def assms(5) e by (simp add: split_beta)
  next
    case False
    have "before ?p r = ?a + 1"
    proof (rule before_eqI [OF assms(2)])
      show "?a + 1 \<le> c (seq_at r)" using rank_alive [OF assms(2), of ?a] ra by simp
      show "?B k + r < ?p" if "k < ?a + 1" for k
      proof (cases "k = ?a")
        case True
        then show ?thesis using False fr by simp
      next
        case False
        then show ?thesis using position_lt [of r k ?a] ra alive_mono [of k ?a c n] that fr(2) by simp
      qed
      show "?p \<le> ?B (?a + 1) + r" using fr by (simp add: band_Suc)
    qed
    then have e: "?l = ?a + 1" .
    have b: "by_row = ?B ?a + alive c n ?a - ?p + r" using fr unfolding by_row_def e by (simp add: band_Suc)
    have "\<not> int by_row < int (?B ?a + alive c n ?a) - int ?p" "int by_row - (int (?B ?a + alive c n ?a) - int ?p) = int r"
      "by_row < n" using b fr False alive_le [of c n ?a] by linarith+
    then show ?thesis using in_total tot seg False unfolding row_start_def Let_def assms(5) e by (simp add: split_beta)
  qed
  moreover have "by_row < window" using l(2) ge by (simp add: by_row_def)
  ultimately show ?thesis by auto
qed

lemma row_start_inj:
  assumes "w < nwindows" "row_start cap window P w i = Some (r, l)" "row_start cap window P w j = Some (r, m)"
    and "\<forall>l \<le> cap + 1. pg_bands P ! l = band l" "pg_windows P ! w = first w" "l < c (seq_at r)"
  shows "i = j"
  using row_start_before [OF assms(1,2,4,5)] row_start_before [OF assms(1,3,4,5)] assms(6) by simp

end

locale prologue_tables = banding n cap window nwindows "tile_count cap cu" "\<lambda>l. pg_bands P ! l" "\<lambda>r. pg_sorted P ! r" "\<lambda>w. pg_windows P ! w"
  for n cap window nwindows :: nat and cu :: "int list" and P :: prologue
begin

abbreviation T :: "nat \<Rightarrow> nat" where
  "T r \<equiv> tile_count cap cu (pg_sorted P ! r)"

lemma tables: "\<forall>l \<le> cap + 1. pg_bands P ! l = pg_bands P ! l" by simp

text \<open>The tiles of a row are those of its rank whose positions lie in the window.\<close>

lemma row_span_end:
  assumes "r < n" "l \<le> T r" "l < T r \<Longrightarrow> p \<le> band_start (tile_count cap cu) n l + r" "\<And>k. k < l \<Longrightarrow> band_start (tile_count cap cu) n k + r < p"
  shows "l + end_search (\<lambda>i. p + window \<le> pg_bands P ! min (l + i) (cap + 1) + r) 0 (min (T r - l) window) = before (p + window) r"
proof -
  let ?c = "tile_count cap cu" and ?B = "band_start (tile_count cap cu) n"
  define reached where "reached = (\<lambda>i. p + window \<le> pg_bands P ! min (l + i) (cap + 1) + r)"
  define e where "e = end_search reached 0 (min (T r - l) window)"
  have cap: "T r \<le> cap" by (rule counts_le [OF seq_at_lt [OF assms(1)]])
  have R: "reached i \<longleftrightarrow> p + window \<le> ?B (l + i) + r" if "i \<le> T r - l" for i
  proof -
    have "l + i \<le> cap + 1" using that assms(2) cap by linarith
    then show ?thesis using band [of "l + i"] by (simp add: reached_def)
  qed
  have "e \<le> min (T r - l) window \<and> (\<forall>i < e. \<not> reached i) \<and> (e < min (T r - l) window \<longrightarrow> reached e)"
    unfolding e_def
  proof (rule end_search)
    show "\<forall>j < min (T r - l) window. \<forall>i \<le> j. reached i \<longrightarrow> reached j"
    proof (intro allI impI)
      fix i j assume j: "j < min (T r - l) window" and i: "i \<le> j" "reached i"
      have "j \<le> T r - l" "i \<le> T r - l" using i(1) j by simp_all
      then show "reached j" using i R band_mono [of "l + i" "l + j"] by simp
    qed
  qed simp_all
  then have e: "e \<le> T r - l" "e \<le> window" "\<And>i. i < e \<Longrightarrow> \<not> reached i" "e < T r - l \<Longrightarrow> e < window \<Longrightarrow> reached e" by simp_all
  have rise: "?B l + r + i \<le> ?B (l + i) + r" if "i \<le> T r - l" for i
    using that
  proof (induction i)
    case (Suc i)
    then have "r < alive ?c n (l + i)" using rank_alive [OF assms(1), of "l + i"] by simp
    then show ?case using Suc by (simp add: band_Suc)
  qed simp
  have "before (p + window) r = l + e"
  proof (rule before_eqI [OF assms(1)])
    show "l + e \<le> T r" using e(1) assms(2) by linarith
    show "?B k + r < p + window" if k: "k < l + e" for k
    proof (cases "k < l")
      case True
      then show ?thesis using assms(4) [of k] by simp
    next
      case False
      then have "k - l < e" using k by linarith
      then have "\<not> reached (k - l)" "k - l \<le> T r - l" using e(1,3) by simp_all
      then show ?thesis using R [of "k - l"] False by simp
    qed
    show "p + window \<le> ?B (l + e) + r" if lt: "l + e < T r"
    proof (cases "e < window")
      case True
      have "e < T r - l" using lt by simp
      from e(4) [OF this True] show ?thesis using R [OF e(1)] by simp
    next
      case False
      then have "e = window" using e(2) by simp
      then show ?thesis using rise [OF e(1)] assms(3) lt by simp
    qed
  qed
  then show ?thesis unfolding e_def reached_def by simp
qed

lemma row_span_before:
  assumes "w < nwindows" "row_span cap window cu P w by_row = Some (s, lb, le)"
  shows "\<exists>r < n. s = pg_sorted P ! r \<and> lb = before (w * window) r \<and> le = before ((w + 1) * window) r
    \<and> row_start cap window P w by_row = Some (r, lb)"
proof -
  obtain r l where r: "row_start cap window P w by_row = Some (r, l)" using assms(2) by (auto simp: row_span_def)
  note b = row_start_before [OF assms(1) r tables refl]
  have l: "l \<le> T r" using b by simp
  have lt: "w * window \<le> band_start (tile_count cap cu) n l + r" if "l < T r" using b that by simp
  have lo: "band_start (tile_count cap cu) n k + r < w * window" if "k < l" for k
    using before_iff [of r k "w * window"] b that by simp
  have "row_span cap window cu P w by_row = Some (pg_sorted P ! r, l, l + end_search (\<lambda>i. w * window + window \<le> pg_bands P ! min (l + i) (cap + 1) + r) 0 (min (T r - l) window))"
    using l by (simp add: row_span_def r Let_def min_absorb1 algebra_simps)
  then show ?thesis using assms(2) row_span_end [OF _ l lt lo] b r by (auto simp: algebra_simps)
qed

lemma row_span_onto:
  assumes "w < nwindows" "r < n" "before (w * window) r < before ((w + 1) * window) r"
  shows "\<exists>by_row < min n window. row_span cap window cu P w by_row = Some (pg_sorted P ! r, before (w * window) r, before ((w + 1) * window) r)"
proof -
  obtain by_row where b: "by_row < min n window" "row_start cap window P w by_row = Some (r, before (w * window) r)"
    using row_start_onto [OF assms tables refl] by blast
  obtain s lb le where sp: "row_span cap window cu P w by_row = Some (s, lb, le)" using b(2) by (simp add: row_span_def Let_def)
  obtain r' where r': "s = pg_sorted P ! r'" "lb = before (w * window) r'" "le = before ((w + 1) * window) r'"
    "row_start cap window P w by_row = Some (r', lb)" using row_span_before [OF assms(1) sp] by blast
  have "r' = r" using r'(4) b(2) by simp
  then show ?thesis using sp b(1) unfolding r'(1-3) by blast
qed

end

sublocale prologue_run \<subseteq> prologue_tables live cap window nwindows cu tables
  by unfold_locales

section \<open>The state after some tiles\<close>

definition tiles_state :: "'s kda_call \<Rightarrow> (nat \<Rightarrow> nat \<Rightarrow> 's \<Rightarrow> 's \<times> 'o) \<Rightarrow> ('s, 'o) kda_mem \<Rightarrow> nat \<Rightarrow> nat \<Rightarrow> 's" where
  "tiles_state k tile m s d = fold (\<lambda>l a. fst (tile s l a)) [0..<d] (load_initial k s m)"

definition tile_rows :: "'s kda_call \<Rightarrow> (nat \<Rightarrow> nat \<Rightarrow> 's \<Rightarrow> 's \<times> 'o) \<Rightarrow> ('s, 'o) kda_mem \<Rightarrow> nat \<Rightarrow> nat \<Rightarrow> 'o" where
  "tile_rows k tile m s l = snd (tile s l (tiles_state k tile m s l))"

lemma tiles_state_Suc: "tiles_state k tile m s (Suc d) = fst (tile s d (tiles_state k tile m s d))"
  by (simp add: tiles_state_def)

text \<open>The checkpoints of a sequence that count, and the slots it writes.\<close>

definition live_ckpts :: "'s kda_call \<Rightarrow> nat \<Rightarrow> (int \<times> int) set" where
  "live_ckpts k s = {cp \<in> set (kl_ckpts k ! s). 0 < snd cp \<and> kl_null k \<noteq> Some (fst cp)}"

definition final_slots :: "'s kda_call \<Rightarrow> nat \<Rightarrow> int set" where
  "final_slots k s = {x. x = kl_final k ! s \<and> kl_null k \<noteq> Some x}"

definition write_slots :: "'s kda_call \<Rightarrow> nat \<Rightarrow> int set" where
  "write_slots k s = final_slots k s \<union> fst ` live_ckpts k s"

lemma export_fold:
  "km_slot (fold (export_ckpt k l acc) cps m) x =
     (if \<exists>off. (x, off) \<in> set cps \<and> 0 < off \<and> (int l + 1) * CHUNK_TOKENS = off \<and> kl_null k \<noteq> Some x then acc else km_slot m x)"
  "km_out (fold (export_ckpt k l acc) cps m) = km_out m"
  by (induction cps arbitrary: m) (auto simp: export_ckpt_def store_def)

text \<open>What a call leaves of sequence \<open>s\<close> once \<open>d\<close> of its tiles have run, or its empty copy was made.\<close>

definition progress :: "'s kda_call \<Rightarrow> (nat \<Rightarrow> nat \<Rightarrow> 's \<Rightarrow> 's \<times> 'o) \<Rightarrow> ('s, 'o) kda_mem \<Rightarrow> nat \<Rightarrow> nat \<Rightarrow> bool \<Rightarrow> ('s, 'o) kda_mem \<Rightarrow> bool" where
  "progress k tile m0 s d copied m \<longleftrightarrow>
     (\<forall>x \<in> final_slots k s. km_slot m x = (if 0 < d \<or> copied then tiles_state k tile m0 s d else km_slot m0 x))
     \<and> (\<forall>(x, off) \<in> live_ckpts k s. km_slot m x = (if off \<le> CHUNK_TOKENS * int d then tiles_state k tile m0 s (nat (off div CHUNK_TOKENS)) else km_slot m0 x))
     \<and> (\<forall>l. km_out m s l = (if l < d then tile_rows k tile m0 s l else km_out m0 s l))
     \<and> (d = 0 \<and> \<not> copied \<longrightarrow> load_initial k s m = load_initial k s m0)"

definition only_writes :: "'s kda_call \<Rightarrow> nat \<Rightarrow> ('s, 'o) kda_mem \<Rightarrow> ('s, 'o) kda_mem \<Rightarrow> bool" where
  "only_writes k s m m' \<longleftrightarrow> (\<forall>x. x \<notin> write_slots k s \<longrightarrow> km_slot m' x = km_slot m x) \<and> (\<forall>s'. s' \<noteq> s \<longrightarrow> km_out m' s' = km_out m s')"

text \<open>The slots of a sequence: pairwise distinct targets, checkpoints at tile ends of its rows, and an initial slot no export overwrites.\<close>

definition slots_ok :: "'s kda_call \<Rightarrow> nat \<Rightarrow> nat \<Rightarrow> bool" where
  "slots_ok k s tiles \<longleftrightarrow>
     (\<forall>(x, off) \<in> live_ckpts k s. off mod CHUNK_TOKENS = 0 \<and> off \<le> CHUNK_TOKENS * int tiles \<and> x \<notin> final_slots k s
        \<and> (kl_null k = Some (kl_initial k ! s) \<or> x \<noteq> kl_initial k ! s))
     \<and> (\<forall>(x, off) \<in> live_ckpts k s. \<forall>(y, off') \<in> live_ckpts k s. x = y \<longrightarrow> off = off')"

lemma slots_okD:
  assumes "slots_ok k s tiles" "(x, off) \<in> live_ckpts k s"
  shows "off mod CHUNK_TOKENS = 0" "off \<le> CHUNK_TOKENS * int tiles" "x \<notin> final_slots k s" "0 < off"
    "kl_null k = Some (kl_initial k ! s) \<or> x \<noteq> kl_initial k ! s" "(x, off') \<in> live_ckpts k s \<Longrightarrow> off' = off"
  using assms unfolding slots_ok_def by (auto simp: live_ckpts_def)

text \<open>The tile loop, between two tiles.\<close>

definition looping :: "'s kda_call \<Rightarrow> (nat \<Rightarrow> nat \<Rightarrow> 's \<Rightarrow> 's \<times> 'o) \<Rightarrow> ('s, 'o) kda_mem \<Rightarrow> nat \<Rightarrow> nat \<Rightarrow> ('s, 'o) kda_mem \<Rightarrow> 's \<times> ('s, 'o) kda_mem \<Rightarrow> bool" where
  "looping k tile m0 s d m am \<longleftrightarrow>
     fst am = tiles_state k tile m0 s d
     \<and> (\<forall>(x, off) \<in> live_ckpts k s. km_slot (snd am) x = (if off \<le> CHUNK_TOKENS * int d then tiles_state k tile m0 s (nat (off div CHUNK_TOKENS)) else km_slot m0 x))
     \<and> (\<forall>l. km_out (snd am) s l = (if l < d then tile_rows k tile m0 s l else km_out m0 s l))
     \<and> (\<forall>x. x \<notin> fst ` live_ckpts k s \<longrightarrow> km_slot (snd am) x = km_slot m x) \<and> (\<forall>s'. s' \<noteq> s \<longrightarrow> km_out (snd am) s' = km_out m s')"

lemma tile_step_looping:
  assumes "slots_ok k s tiles" "looping k tile m0 s d m am"
  shows "looping k tile m0 s (Suc d) m (tile_step k tile s d am)"
proof -
  obtain acc rows where t: "tile s d (fst am) = (acc, rows)" by (rule prod.exhaust)
  have acc: "acc = tiles_state k tile m0 s (Suc d)" "rows = tile_rows k tile m0 s d"
    using assms(2) t by (simp_all add: looping_def tiles_state_Suc tile_rows_def)
  let ?m = "snd am\<lparr>km_out := (km_out (snd am))(s := (km_out (snd am) s)(d := rows))\<rparr>"
  have e: "tile_step k tile s d am = (acc, fold (export_ckpt k d acc) (kl_ckpts k ! s) ?m)"
    unfolding tile_step_def Let_def t by simp
  have slot: "km_slot (snd (tile_step k tile s d am)) x = (if \<exists>off. (x, off) \<in> live_ckpts k s \<and> (int d + 1) * CHUNK_TOKENS = off then acc else km_slot (snd am) x)" for x
    unfolding e snd_conv export_fold by (auto simp: live_ckpts_def)
  have out: "km_out (snd (tile_step k tile s d am)) = (km_out (snd am))(s := (km_out (snd am) s)(d := rows))"
    unfolding e snd_conv export_fold by simp
  have ck: "km_slot (snd (tile_step k tile s d am)) x = (if off \<le> CHUNK_TOKENS * int (Suc d) then tiles_state k tile m0 s (nat (off div CHUNK_TOKENS)) else km_slot m0 x)"
    if cp: "(x, off) \<in> live_ckpts k s" for x off
  proof (cases "off = (int d + 1) * CHUNK_TOKENS")
    case True
    then have "nat (off div CHUNK_TOKENS) = Suc d" by (simp add: CHUNK_TOKENS_def)
    then show ?thesis using cp True slot [of x] acc(1) by (auto simp: algebra_simps)
  next
    case False
    have "(\<exists>off. (x, off) \<in> live_ckpts k s \<and> (int d + 1) * CHUNK_TOKENS = off) = False"
      using slots_okD(6) [OF assms(1) cp] False by blast
    then have "km_slot (snd (tile_step k tile s d am)) x = km_slot (snd am) x" using slot [of x] by simp
    moreover have "off \<le> CHUNK_TOKENS * int (Suc d) \<longleftrightarrow> off \<le> CHUNK_TOKENS * int d"
      using slots_okD(1) [OF assms(1) cp] False by (auto simp: CHUNK_TOKENS_def)
    ultimately show ?thesis using assms(2) cp unfolding looping_def by auto
  qed
  have fr: "km_slot (snd (tile_step k tile s d am)) x = km_slot m x" if "x \<notin> fst ` live_ckpts k s" for x
    using that slot [of x] assms(2) unfolding looping_def by force
  have f: "fst (tile_step k tile s d am) = tiles_state k tile m0 s (Suc d)" unfolding e using acc(1) by simp
  have o: "\<forall>l. km_out (snd am) s l = (if l < d then tile_rows k tile m0 s l else km_out m0 s l)" "\<forall>s'. s' \<noteq> s \<longrightarrow> km_out (snd am) s' = km_out m s'"
    using assms(2) unfolding looping_def by simp_all
  show ?thesis unfolding looping_def
  proof (intro conjI)
    show "\<forall>(x, off) \<in> live_ckpts k s. km_slot (snd (tile_step k tile s d am)) x =
        (if off \<le> CHUNK_TOKENS * int (Suc d) then tiles_state k tile m0 s (nat (off div CHUNK_TOKENS)) else km_slot m0 x)"
      using ck by blast
    show "\<forall>l. km_out (snd (tile_step k tile s d am)) s l = (if l < Suc d then tile_rows k tile m0 s l else km_out m0 s l)"
      unfolding out using o(1) acc(2) by (auto simp: less_Suc_eq)
    show "\<forall>s'. s' \<noteq> s \<longrightarrow> km_out (snd (tile_step k tile s d am)) s' = km_out m s'" unfolding out using o(2) by simp
  qed (use f fr in blast)+
qed

lemma tile_loop:
  assumes "slots_ok k s tiles" "looping k tile m0 s lb m am" "lb \<le> le"
  shows "looping k tile m0 s le m (fold (tile_step k tile s) [lb..<le] am)"
  using assms(3)
proof (induction le)
  case (Suc le)
  show ?case
  proof (cases "lb = Suc le")
    case False
    then show ?thesis using Suc tile_step_looping [OF assms(1)] by simp
  qed (use assms(2) in simp)
qed (use assms(2) in simp)

lemma run_tiles_progress:
  assumes "slots_ok k s tiles" "progress k tile m0 s lb False m" "lb < le" "0 < lb \<longrightarrow> final_slots k s \<noteq> {}"
  shows "progress k tile m0 s le False (run_tiles k tile (s, lb, le) m)" "only_writes k s m (run_tiles k tile (s, lb, le) m)"
proof -
  let ?start = "if lb = 0 then load_initial k s m else km_slot m (kl_final k ! s)"
  have st: "?start = tiles_state k tile m0 s lb"
    using assms(2,4) by (auto simp: progress_def tiles_state_def final_slots_def)
  have "looping k tile m0 s lb m (?start, m)"
    unfolding looping_def fst_conv snd_conv st using assms(2) by (auto simp: progress_def)
  from tile_loop [OF assms(1) this] assms(3)
  have lp: "looping k tile m0 s le m (fold (tile_step k tile s) [lb..<le] (?start, m))" by simp
  obtain acc m' where am: "fold (tile_step k tile s) [lb..<le] (?start, m) = (acc, m')" by (rule prod.exhaust)
  note L = lp [unfolded am looping_def fst_conv snd_conv]
  have r: "run_tiles k tile (s, lb, le) m = store k (kl_final k ! s) acc m'"
    unfolding run_tiles_def prod.case Let_def am using assms(3) by simp
  have slot: "km_slot (run_tiles k tile (s, lb, le) m) x = (if x \<in> final_slots k s then acc else km_slot m' x)" for x
    unfolding r by (auto simp: store_def final_slots_def)
  have out: "km_out (run_tiles k tile (s, lb, le) m) = km_out m'" unfolding r by (simp add: store_def)
  have ck: "km_slot (run_tiles k tile (s, lb, le) m) x = (if off \<le> CHUNK_TOKENS * int le then tiles_state k tile m0 s (nat (off div CHUNK_TOKENS)) else km_slot m0 x)"
    if cp: "(x, off) \<in> live_ckpts k s" for x off
    using slots_okD(3) [OF assms(1) cp] slot [of x] L cp by auto
  show "progress k tile m0 s le False (run_tiles k tile (s, lb, le) m)"
    unfolding progress_def using slot ck out L assms(3) by auto
  show "only_writes k s m (run_tiles k tile (s, lb, le) m)"
    unfolding only_writes_def write_slots_def using slot out L by auto
qed

lemma copy_empty_progress:
  assumes "progress k tile m0 s 0 False m" "slots_ok k s 0"
  shows "progress k tile m0 s 0 True (copy_empty k s m)" "only_writes k s m (copy_empty k s m)"
proof -
  have none: "live_ckpts k s = {}"
  proof (rule equals0I)
    fix cp assume "cp \<in> live_ckpts k s"
    then have "(fst cp, snd cp) \<in> live_ckpts k s" by simp
    then show False using slots_okD(2,4) [OF assms(2)] by fastforce
  qed
  have slot: "km_slot (copy_empty k s m) x = (if x \<in> final_slots k s then load_initial k s m else km_slot m x)" for x
    by (auto simp: copy_empty_def store_def final_slots_def)
  have out: "km_out (copy_empty k s m) = km_out m" by (simp add: copy_empty_def store_def)
  show "progress k tile m0 s 0 True (copy_empty k s m)"
    using assms(1) unfolding progress_def none by (simp add: slot out tiles_state_def)
  show "only_writes k s m (copy_empty k s m)" unfolding only_writes_def write_slots_def using slot out by auto
qed

section \<open>One window\<close>

text \<open>What two sequences of a call owe each other.\<close>

definition call_ok :: "'s kda_call \<Rightarrow> nat \<Rightarrow> nat \<Rightarrow> bool" where
  "call_ok k n cap \<longleftrightarrow>
     (\<forall>s < n. slots_ok k s (tile_count cap (kl_cu k) s))
     \<and> (\<forall>s < n. \<forall>s' < n. s \<noteq> s' \<longrightarrow> write_slots k s \<inter> write_slots k s' = {}
          \<and> (kl_null k = Some (kl_initial k ! s) \<or> kl_initial k ! s \<notin> write_slots k s'))"

lemma progress_frame:
  assumes "progress k tile m0 s d b m" "only_writes k s' m m'" "s \<noteq> s'" "write_slots k s \<inter> write_slots k s' = {}"
    and "kl_null k = Some (kl_initial k ! s) \<or> kl_initial k ! s \<notin> write_slots k s'"
  shows "progress k tile m0 s d b m'"
proof -
  have w: "km_slot m' x = km_slot m x" if "x \<in> write_slots k s" for x
    using assms(2,4) that unfolding only_writes_def by blast
  have i: "load_initial k s m' = load_initial k s m"
    using assms(2,5) unfolding only_writes_def load_initial_def by auto
  have o: "km_out m' s = km_out m s" using assms(2,3) unfolding only_writes_def by blast
  have f: "x \<in> final_slots k s \<Longrightarrow> km_slot m' x = km_slot m x" "(x, off) \<in> live_ckpts k s \<Longrightarrow> km_slot m' x = km_slot m x" for x off
    by (rule w, force simp: write_slots_def)+
  show ?thesis using assms(1) unfolding progress_def i o by (auto simp: f)
qed

lemma only_writes_trans:
  "only_writes k s m m' \<Longrightarrow> x \<notin> write_slots k s \<Longrightarrow> km_slot m' x = km_slot m x"
  by (simp add: only_writes_def)

datatype kda_act = Tiles nat nat nat | Copy nat

fun act_seq :: "kda_act \<Rightarrow> nat" where
  "act_seq (Tiles s lb le) = s"
| "act_seq (Copy s) = s"

fun do_act :: "'s kda_call \<Rightarrow> (nat \<Rightarrow> nat \<Rightarrow> 's \<Rightarrow> 's \<times> 'o) \<Rightarrow> kda_act \<Rightarrow> ('s, 'o) kda_mem \<Rightarrow> ('s, 'o) kda_mem" where
  "do_act k tile (Tiles s lb le) m = run_tiles k tile (s, lb, le) m"
| "do_act k tile (Copy s) m = copy_empty k s m"

definition row_acts :: "nat \<Rightarrow> nat \<Rightarrow> nat \<Rightarrow> nat \<Rightarrow> prologue \<Rightarrow> int list \<Rightarrow> nat \<Rightarrow> nat \<Rightarrow> kda_act list" where
  "row_acts rows cap window live P cu w by_row =
     (case row_span cap window cu P w by_row of None \<Rightarrow> [] | Some (s, lb, le) \<Rightarrow> if lb < le then [Tiles s lb le] else [])
     @ map Copy (empty_seqs rows P live w by_row)"

lemma grid_row_acts:
  "grid_row rows cap window live P k tile w by_row m = fold (do_act k tile) (row_acts rows cap window live P (kl_cu k) w by_row) m"
proof -
  have "fold (copy_empty k) xs m = fold (do_act k tile) (map Copy xs) m" for xs m by (induction xs arbitrary: m) simp_all
  then show ?thesis
    unfolding grid_row_def row_acts_def by (cases "row_span cap window (kl_cu k) P w by_row") (auto simp: run_tiles_def)
qed

lemma fold_concat_map: "fold (\<lambda>i m. fold f (g i) m) xs m = fold f (concat (map g xs)) m"
  by (induction xs arbitrary: m) simp_all

lemma distinct_concat_map:
  assumes "distinct xs" "\<forall>i \<in> set xs. distinct (f i)" "\<forall>i \<in> set xs. \<forall>j \<in> set xs. i \<noteq> j \<longrightarrow> set (f i) \<inter> set (f j) = {}"
  shows "distinct (concat (map f xs))"
  using assms
proof (induction xs)
  case (Cons x xs)
  have "set (f x) \<inter> set (f j) = {}" if "j \<in> set xs" for j
    using Cons.prems(1,3) that by (metis distinct.simps(2) list.set_intros)
  then show ?case using Cons by (auto simp: disjoint_iff)
qed simp

lemma strided_distinct: "0 < stride \<Longrightarrow> distinct (strided pos hi stride)"
proof (induction pos hi stride rule: strided.induct)
  case (1 pos hi stride)
  have "pos \<notin> set (strided (pos + stride) hi stride)" using set_strided [OF 1(2), of "pos + stride" hi] 1(2) by simp
  then show ?case by (subst strided.simps) (use 1 in simp)
qed

text \<open>Steps on different sequences: each finds its sequence as the window found it, and leaves the others.\<close>

lemma fold_acts:
  assumes "distinct (map act_seq A)" "\<forall>a \<in> set A. act_seq a < n"
    and "\<And>a m. a \<in> set A \<Longrightarrow> before (act_seq a) m \<Longrightarrow> after (act_seq a) (f a m) \<and> only_writes k (act_seq a) m (f a m)"
    and "\<And>s s' m m'. s < n \<Longrightarrow> s' < n \<Longrightarrow> s \<noteq> s' \<Longrightarrow> only_writes k s' m m' \<Longrightarrow> before s m \<Longrightarrow> before s m'"
    and "\<And>s s' m m'. s < n \<Longrightarrow> s' < n \<Longrightarrow> s \<noteq> s' \<Longrightarrow> only_writes k s' m m' \<Longrightarrow> after s m \<Longrightarrow> after s m'"
    and "\<forall>s < n. s \<notin> D \<longrightarrow> before s m" "\<forall>s \<in> D. s < n \<and> after s m" "D \<inter> act_seq ` set A = {}"
    and "\<forall>x. (\<forall>s < n. x \<notin> write_slots k s) \<longrightarrow> km_slot m x = km_slot m0 x" "\<forall>s \<ge> n. km_out m s = km_out m0 s"
  shows "(\<forall>s < n. s \<notin> D \<union> act_seq ` set A \<longrightarrow> before s (fold f A m)) \<and> (\<forall>s \<in> D \<union> act_seq ` set A. after s (fold f A m))
    \<and> (\<forall>x. (\<forall>s < n. x \<notin> write_slots k s) \<longrightarrow> km_slot (fold f A m) x = km_slot m0 x) \<and> (\<forall>s \<ge> n. km_out (fold f A m) s = km_out m0 s)"
  using assms(1,2,3,6-10)
proof (induction A arbitrary: D m)
  case (Cons a A)
  let ?s = "act_seq a" and ?m = "f a m"
  have s: "?s < n" "?s \<notin> D" "?s \<notin> act_seq ` set A" using Cons.prems by auto
  have step: "after ?s ?m" "only_writes k ?s m ?m" using Cons.prems(3) [of a m] Cons.prems(4) s by simp_all
  have "(\<forall>s < n. s \<notin> insert ?s D \<union> act_seq ` set A \<longrightarrow> before s (fold f A ?m)) \<and> (\<forall>s \<in> insert ?s D \<union> act_seq ` set A. after s (fold f A ?m))
    \<and> (\<forall>x. (\<forall>s < n. x \<notin> write_slots k s) \<longrightarrow> km_slot (fold f A ?m) x = km_slot m0 x) \<and> (\<forall>s \<ge> n. km_out (fold f A ?m) s = km_out m0 s)"
  proof (rule Cons.IH)
    show "distinct (map act_seq A)" "\<forall>a \<in> set A. act_seq a < n" using Cons.prems by auto
    show "\<And>a m. a \<in> set A \<Longrightarrow> before (act_seq a) m \<Longrightarrow> after (act_seq a) (f a m) \<and> only_writes k (act_seq a) m (f a m)"
      using Cons.prems(3) by simp
    show "\<forall>s < n. s \<notin> insert ?s D \<longrightarrow> before s ?m" using assms(4) [OF _ s(1) _ step(2)] Cons.prems(4) by auto
    show "\<forall>s \<in> insert ?s D. s < n \<and> after s ?m"
    proof
      fix t assume "t \<in> insert ?s D"
      then show "t < n \<and> after t ?m" using step(1) s assms(5) [OF _ s(1) _ step(2), of t] Cons.prems(5) by (cases "t = ?s") auto
    qed
    show "insert ?s D \<inter> act_seq ` set A = {}" using Cons.prems(6) s by auto
    show "\<forall>x. (\<forall>s < n. x \<notin> write_slots k s) \<longrightarrow> km_slot ?m x = km_slot m0 x"
      using Cons.prems(7) step(2) s(1) by (auto simp: only_writes_def)
    show "\<forall>s \<ge> n. km_out ?m s = km_out m0 s" using Cons.prems(8) step(2) s(1) by (auto simp: only_writes_def)
  qed
  then show ?case by simp
qed auto

context prologue_tables
begin

lemma seq_inj: "r < n \<Longrightarrow> r' < n \<Longrightarrow> pg_sorted P ! r = pg_sorted P ! r' \<Longrightarrow> r = r'"
  using seq_bij unfolding bij_betw_def inj_on_def by blast

lemma rank_of_seq: "s < n \<Longrightarrow> \<exists>r < n. pg_sorted P ! r = s"
  using seq_bij unfolding bij_betw_def by (metis imageE lessThan_iff)

lemma tiled_seqs: "r < n \<Longrightarrow> pg_bands P ! 1 \<le> r \<longleftrightarrow> T r = 0"
  using band [of 1] rank_alive [of r 0] by (auto simp: band_start_def not_less [symmetric])

lemma row_acts_mem:
  assumes "w < nwindows" "0 < rows" "a \<in> set (row_acts rows cap window n P cu w by_row)"
  shows "\<exists>r < n. act_seq a = pg_sorted P ! r \<and>
    (a = Tiles (pg_sorted P ! r) (before (w * window) r) (before ((w + 1) * window) r) \<and> before (w * window) r < before ((w + 1) * window) r
        \<and> row_start cap window P w by_row = Some (r, before (w * window) r)
     \<or> a = Copy (pg_sorted P ! r) \<and> w = 0 \<and> T r = 0 \<and> r \<in> set (strided (pg_bands P ! 1 + by_row) n rows))"
proof (cases a)
  case (Tiles s lb le)
  then have sp: "row_span cap window cu P w by_row = Some (s, lb, le)" "lb < le"
    using assms(3) by (auto simp: row_acts_def split: option.splits if_splits)
  show ?thesis using row_span_before [OF assms(1) sp(1)] sp(2) Tiles by auto
next
  case (Copy s)
  then have "s \<in> set (empty_seqs rows P n w by_row)" using assms(3) by (auto simp: row_acts_def split: option.splits if_splits)
  then obtain r where r: "w = 0" "s = pg_sorted P ! r" "r \<in> set (strided (pg_bands P ! 1 + by_row) n rows)"
    by (auto simp: empty_seqs_def split: if_splits)
  have "pg_bands P ! 1 \<le> r" "r < n" using r(3) set_strided [OF assms(2)] by auto
  then show ?thesis using r Copy tiled_seqs [of r] by auto
qed

lemma row_acts_distinct:
  assumes "w < nwindows" "0 < rows"
  shows "distinct (map act_seq (row_acts rows cap window n P cu w by_row))"
proof -
  let ?tiles = "case row_span cap window cu P w by_row of None \<Rightarrow> [] | Some (s, lb, le) \<Rightarrow> if lb < le then [Tiles s lb le] else []"
  have "distinct (map act_seq ?tiles)" by (cases "row_span cap window cu P w by_row") auto
  moreover have c: "map act_seq (map Copy (empty_seqs rows P n w by_row)) = empty_seqs rows P n w by_row" by (simp add: comp_def)
  moreover have "distinct (empty_seqs rows P n w by_row)"
    using strided_distinct [OF assms(2)] set_strided [OF assms(2), of "pg_bands P ! 1 + by_row" n] seq_inj
    by (auto simp: empty_seqs_def distinct_map inj_on_def)
  moreover have "act_seq a \<noteq> act_seq b" if a: "a \<in> set ?tiles" and b: "b \<in> set (map Copy (empty_seqs rows P n w by_row))" for a b
  proof -
    have in_row: "a \<in> set (row_acts rows cap window n P cu w by_row)" "b \<in> set (row_acts rows cap window n P cu w by_row)"
      using a b by (auto simp: row_acts_def)
    obtain r r' where r: "r < n" "act_seq a = pg_sorted P ! r" "0 < T r" and r': "r' < n" "act_seq b = pg_sorted P ! r'" "T r' = 0"
    proof -
      obtain r where r: "r < n" "act_seq a = pg_sorted P ! r" "before (w * window) r < before ((w + 1) * window) r"
        using row_acts_mem [OF assms in_row(1)] a by (auto split: option.splits if_splits)
      have "0 < T r" using r(3) before_le [OF r(1), of "(w + 1) * window"] by linarith
      moreover obtain r' where "r' < n" "act_seq b = pg_sorted P ! r'" "T r' = 0" using row_acts_mem [OF assms in_row(2)] b by auto
      ultimately show thesis using that r by blast
    qed
    then show ?thesis using seq_inj [of r r'] by auto
  qed
  ultimately show ?thesis unfolding row_acts_def map_append distinct_append by fastforce
qed

lemma row_acts_rank:
  assumes "w < nwindows" "0 < rows" "a \<in> set (row_acts rows cap window n P cu w by_row)"
  obtains r where "r < n" "act_seq a = pg_sorted P ! r"
    "0 < T r \<and> row_start cap window P w by_row = Some (r, before (w * window) r) \<and> before (w * window) r < T r
     \<or> T r = 0 \<and> r \<in> set (strided (pg_bands P ! 1 + by_row) n rows)"
proof -
  obtain r where r: "r < n" "act_seq a = pg_sorted P ! r"
    "before (w * window) r < before ((w + 1) * window) r \<and> row_start cap window P w by_row = Some (r, before (w * window) r)
     \<or> T r = 0 \<and> r \<in> set (strided (pg_bands P ! 1 + by_row) n rows)"
    using row_acts_mem [OF assms] by blast
  have "before (w * window) r < before ((w + 1) * window) r \<Longrightarrow> 0 < T r \<and> before (w * window) r < T r"
    using before_le [OF r(1), of "(w + 1) * window"] by linarith
  then show thesis using that [OF r(1,2)] r(3) by blast
qed

lemma row_acts_disjoint:
  assumes "w < nwindows" "0 < rows" "i < rows" "j < rows" "i \<noteq> j"
  shows "set (map act_seq (row_acts rows cap window n P cu w i)) \<inter> set (map act_seq (row_acts rows cap window n P cu w j)) = {}"
proof (rule equals0I)
  fix s assume "s \<in> set (map act_seq (row_acts rows cap window n P cu w i)) \<inter> set (map act_seq (row_acts rows cap window n P cu w j))"
  then obtain a b where ab: "a \<in> set (row_acts rows cap window n P cu w i)" "b \<in> set (row_acts rows cap window n P cu w j)"
    "act_seq a = s" "act_seq b = s" by auto
  obtain r where r: "r < n" "act_seq a = pg_sorted P ! r" and
    ra: "0 < T r \<and> row_start cap window P w i = Some (r, before (w * window) r) \<and> before (w * window) r < T r \<or> T r = 0 \<and> r \<in> set (strided (pg_bands P ! 1 + i) n rows)"
    by (rule row_acts_rank [OF assms(1,2) ab(1)])
  obtain r' where r': "r' < n" "act_seq b = pg_sorted P ! r'" and
    rb: "0 < T r' \<and> row_start cap window P w j = Some (r', before (w * window) r') \<and> before (w * window) r' < T r' \<or> T r' = 0 \<and> r' \<in> set (strided (pg_bands P ! 1 + j) n rows)"
    by (rule row_acts_rank [OF assms(1,2) ab(2)])
  have e: "r' = r" using seq_inj [OF r(1) r'(1)] ab r r' by simp
  show False
  proof (cases "T r = 0")
    case True
    then have "r \<in> set (strided (pg_bands P ! 1 + i) n rows)" "r \<in> set (strided (pg_bands P ! 1 + j) n rows)" using ra rb e by auto
    then have d: "pg_bands P ! 1 + i \<le> r" "rows dvd r - (pg_bands P ! 1 + i)" "pg_bands P ! 1 + j \<le> r" "rows dvd r - (pg_bands P ! 1 + j)"
      by (simp_all add: set_strided [OF assms(2)])
    obtain x y where "r - (pg_bands P ! 1 + i) = rows * x" "r - (pg_bands P ! 1 + j) = rows * y" using d(2,4) by (elim dvdE)
    then have "i + rows * x = j + rows * y" using d(1,3) by linarith
    then have "(i + rows * x) mod rows = (j + rows * y) mod rows" by simp
    then show False using assms(3-5) by simp
  next
    case False
    then show False using row_start_inj [OF assms(1) _ _ tables refl, of i r "before (w * window) r" j] ra rb e assms(5) by auto
  qed
qed

end

section \<open>All windows\<close>

text \<open>A sequence whose first and last tile lie in different windows needs a final slot to rest in.\<close>

definition spans_ok :: "'s kda_call \<Rightarrow> nat \<Rightarrow> nat \<Rightarrow> nat \<Rightarrow> prologue \<Rightarrow> bool" where
  "spans_ok k n cap window P \<longleftrightarrow>
     (\<forall>s < n. let count = tile_count cap (kl_cu k) s; rank = pg_rank_of P ! s in
        0 < count \<and> rank div window \<noteq> (pg_bands P ! (count - 1) + rank) div window \<longrightarrow> final_slots k s \<noteq> {})"

definition grids_ok :: "nat \<Rightarrow> nat \<Rightarrow> (nat \<Rightarrow> nat list) \<Rightarrow> bool" where
  "grids_ok rows launched grid \<longleftrightarrow> (\<forall>w < launched. distinct (grid w) \<and> set (grid w) = {..<rows})"

lemma progress_start:
  assumes "slots_ok k s tiles"
  shows "progress k tile m0 s 0 False m0"
proof -
  have "\<not> off \<le> CHUNK_TOKENS * int 0" if "(x, off) \<in> live_ckpts k s" for x off using slots_okD(4) [OF assms that] by simp
  then show ?thesis unfolding progress_def by auto
qed

context prologue_tables
begin

definition window_inv :: "'s kda_call \<Rightarrow> (nat \<Rightarrow> nat \<Rightarrow> 's \<Rightarrow> 's \<times> 'o) \<Rightarrow> ('s, 'o) kda_mem \<Rightarrow> nat \<Rightarrow> ('s, 'o) kda_mem \<Rightarrow> bool" where
  "window_inv k tile m0 w m \<longleftrightarrow>
     (\<forall>r < n. progress k tile m0 (pg_sorted P ! r) (before (w * window) r) (0 < w \<and> T r = 0) m)
     \<and> (\<forall>x. (\<forall>s < n. x \<notin> write_slots k s) \<longrightarrow> km_slot m x = km_slot m0 x) \<and> (\<forall>s \<ge> n. km_out m s = km_out m0 s)"

lemma spans:
  assumes "spans_ok k n cap window P" "kl_cu k = cu" "r < n" "pg_rank_of P ! (pg_sorted P ! r) = r"
    and "0 < before (w * window) r" "before (w * window) r < T r"
  shows "final_slots k (pg_sorted P ! r) \<noteq> {}"
proof -
  let ?p = "w * window" and ?B = "band_start (tile_count cap cu) n"
  have first: "?B 0 + r < ?p" using before_iff [OF assms(3), of 0 ?p] assms(5) by simp
  then have "r div window < w" using window_pos by (simp add: band_start_def less_mult_imp_div_less)
  moreover have "\<not> T r - 1 < before ?p r" using assms(6) by linarith
  then have "?p \<le> ?B (T r - 1) + r" using before_iff [OF assms(3), of "T r - 1" ?p] assms(6) by simp
  then have "w \<le> (?B (T r - 1) + r) div window" using window_pos by (simp add: less_eq_div_iff_mult_less_eq)
  moreover have "pg_bands P ! (T r - 1) = ?B (T r - 1)" using band [of "T r - 1"] counts_le [OF seq_at_lt [OF assms(3)]] by simp
  ultimately have "r div window \<noteq> (pg_bands P ! (T r - 1) + r) div window" by simp
  then show ?thesis
    using assms(1,2,4,6) seq_at_lt [OF assms(3)] unfolding spans_ok_def Let_def by auto
qed

lemma launch_step:
  assumes "window_inv k tile m0 w m" "w < nwindows" "kl_cu k = cu" "call_ok k n cap" "spans_ok k n cap window P"
    and "\<forall>r < n. pg_rank_of P ! (pg_sorted P ! r) = r" "min n window \<le> rows" "distinct G" "set G = {..<rows}"
  shows "window_inv k tile m0 (Suc w) (fold (grid_row rows cap window n P k tile w) G m)"
proof (cases "n = 0")
  case True
  have "fold (grid_row rows cap window n P k tile w) G m = m"
  proof -
    have none: "band_start (tile_count cap cu) n l = 0" for l unfolding band_start_def alive_def using True by simp
    have "row_span cap window cu P w i = None" for i
      using row_span_before [OF assms(2), of i] True by (cases "row_span cap window cu P w i") auto
    moreover have "pg_bands P ! 1 = 0" using band [of 1] none by simp
    then have "empty_seqs rows P n w i = []" for i using True by (simp add: empty_seqs_def) (subst strided.simps, simp)
    ultimately have "grid_row rows cap window n P k tile w i m = m" for i and m :: "('a, 'b) kda_mem"
      by (simp add: grid_row_def assms(3))
    then show ?thesis by (induction G) simp_all
  qed
  then show ?thesis using assms(1) True unfolding window_inv_def by simp
next
  case False
  then have rows: "0 < rows" using assms(7) window_pos by (simp add: min_def split: if_splits)
  define A where "A = concat (map (row_acts rows cap window n P cu w) G)"
  define rk where "rk = (\<lambda>s. pg_rank_of P ! s)"
  have rk: "rk (pg_sorted P ! r) = r" if "r < n" for r using assms(6) that by (simp add: rk_def)
  have seq: "pg_sorted P ! rk s = s \<and> rk s < n" if "s < n" for s
    using rank_of_seq [OF that] rk by auto
  define pre where "pre = (\<lambda>s. progress k tile m0 s (before (w * window) (rk s)) (0 < w \<and> T (rk s) = 0))"
  define post where "post = (\<lambda>s. progress k tile m0 s (before (Suc w * window) (rk s)) (0 < Suc w \<and> T (rk s) = 0))"
  note call = assms(4) [unfolded call_ok_def]
  have mem: "\<exists>i \<in> set G. a \<in> set (row_acts rows cap window n P cu w i)" if "a \<in> set A" for a using that by (auto simp: A_def)
  have frame: "progress k tile m0 s d b m'" if "s < n" "s' < n" "s \<noteq> s'" "only_writes k s' m m'" "progress k tile m0 s d b m" for s s' d b m m'
    using progress_frame [OF that(5,4,3)] call that(1-3) by blast
  have A: "distinct (map act_seq A)"
  proof -
    have "map act_seq A = concat (map (\<lambda>i. map act_seq (row_acts rows cap window n P cu w i)) G)" by (simp add: A_def map_concat comp_def)
    also have "distinct \<dots>"
      by (rule distinct_concat_map [OF assms(8)])
        (use row_acts_distinct [OF assms(2) rows] row_acts_disjoint [OF assms(2) rows] assms(9) in auto)
    finally show ?thesis .
  qed
  have lt: "\<forall>a \<in> set A. act_seq a < n"
  proof
    fix a assume "a \<in> set A"
    then obtain i where "a \<in> set (row_acts rows cap window n P cu w i)" using mem by blast
    then obtain r where "r < n" "act_seq a = pg_sorted P ! r" using row_acts_mem [OF assms(2) rows] by blast
    then show "act_seq a < n" using seq_at_lt by simp
  qed
  have act: "post (act_seq a) (do_act k tile a m) \<and> only_writes k (act_seq a) m (do_act k tile a m)" if a: "a \<in> set A" and p: "pre (act_seq a) m" for a m
  proof -
    obtain i where i: "a \<in> set (row_acts rows cap window n P cu w i)" using mem [OF a] by blast
    obtain r where r: "r < n" "act_seq a = pg_sorted P ! r" and
      k: "a = Tiles (pg_sorted P ! r) (before (w * window) r) (before ((w + 1) * window) r) \<and> before (w * window) r < before ((w + 1) * window) r
        \<or> a = Copy (pg_sorted P ! r) \<and> w = 0 \<and> T r = 0" using row_acts_mem [OF assms(2) rows i] by blast
    have ok: "slots_ok k (pg_sorted P ! r) (T r)" using call seq_at_lt [OF r(1)] assms(3) by simp
    from k show ?thesis
    proof (elim disjE conjE)
      assume t: "a = Tiles (pg_sorted P ! r) (before (w * window) r) (before ((w + 1) * window) r)" "before (w * window) r < before ((w + 1) * window) r"
      have T: "T r \<noteq> 0" "before (w * window) r < T r" using t(2) before_le [OF r(1), of "(w + 1) * window"] by linarith+
      have p': "progress k tile m0 (pg_sorted P ! r) (before (w * window) r) False m" using p T(1) by (simp add: pre_def r(2) rk [OF r(1)])
      have sp: "0 < before (w * window) r \<longrightarrow> final_slots k (pg_sorted P ! r) \<noteq> {}"
        using spans [OF assms(5,3) r(1) _ _ T(2)] assms(6) r(1) by blast
      show ?thesis using run_tiles_progress [OF ok p' t(2) sp] T(1) by (simp add: post_def rk [OF r(1)] t(1))
    next
      assume c: "a = Copy (pg_sorted P ! r)" "w = 0" "T r = 0"
      have z: "before x r = 0" for x using before_le [OF r(1), of x] c(3) by simp
      have p': "progress k tile m0 (pg_sorted P ! r) 0 False m" using p c z by (simp add: pre_def rk [OF r(1)])
      have ok': "slots_ok k (pg_sorted P ! r) 0" using ok c(3) by simp
      show ?thesis using copy_empty_progress [OF p' ok'] c z by (simp add: post_def rk [OF r(1)])
    qed
  qed
  have f: "fold (grid_row rows cap window n P k tile w) G m = fold (do_act k tile) A m"
    unfolding A_def grid_row_acts [abs_def] assms(3) by (rule fold_concat_map)
  have start: "\<forall>s < n. pre s m"
  proof (intro allI impI)
    fix s assume "s < n"
    then show "pre s m" using assms(1) seq [of s] unfolding window_inv_def pre_def by metis
  qed
  have inv0: "\<forall>x. (\<forall>s < n. x \<notin> write_slots k s) \<longrightarrow> km_slot m x = km_slot m0 x" "\<forall>s \<ge> n. km_out m s = km_out m0 s"
    using assms(1) by (simp_all add: window_inv_def)
  have fin: "(\<forall>s < n. s \<notin> {} \<union> act_seq ` set A \<longrightarrow> pre s (fold (do_act k tile) A m)) \<and> (\<forall>s \<in> {} \<union> act_seq ` set A. post s (fold (do_act k tile) A m))
    \<and> (\<forall>x. (\<forall>s < n. x \<notin> write_slots k s) \<longrightarrow> km_slot (fold (do_act k tile) A m) x = km_slot m0 x) \<and> (\<forall>s \<ge> n. km_out (fold (do_act k tile) A m) s = km_out m0 s)"
    by (rule fold_acts [where before = pre and after = post, OF A lt act])
      (use frame start inv0 in \<open>auto simp: pre_def post_def\<close>)
  have in_A: "a \<in> set A" if "a \<in> set (row_acts rows cap window n P cu w i)" "i \<in> set G" for a i using that by (auto simp: A_def)
  have in_acts: "Tiles s lb le \<in> set (row_acts rows cap window n P cu w i)"
    if "row_span cap window cu P w i = Some (s, lb, le)" "lb < le" for s lb le i using that by (simp add: row_acts_def)
  have all: "post (pg_sorted P ! r) (fold (do_act k tile) A m)" if r: "r < n" for r
  proof (cases "pg_sorted P ! r \<in> act_seq ` set A")
    case True
    then show ?thesis using fin by blast
  next
    case nin: False
    have same: "before ((w + 1) * window) r = before (w * window) r"
    proof (rule ccontr)
      assume "before ((w + 1) * window) r \<noteq> before (w * window) r"
      moreover have "before (w * window) r \<le> before ((w + 1) * window) r" by (rule before_mono) simp
      ultimately have lt': "before (w * window) r < before ((w + 1) * window) r" by simp
      obtain i where i: "i < min n window" "row_span cap window cu P w i = Some (pg_sorted P ! r, before (w * window) r, before ((w + 1) * window) r)"
        using row_span_onto [OF assms(2) r lt'] by blast
      have "Tiles (pg_sorted P ! r) (before (w * window) r) (before ((w + 1) * window) r) \<in> set (row_acts rows cap window n P cu w i)"
        by (rule in_acts [OF i(2) lt'])
      moreover have "i \<in> set G" using less_le_trans [OF i(1) assms(7)] assms(9) by simp
      ultimately have "Tiles (pg_sorted P ! r) (before (w * window) r) (before ((w + 1) * window) r) \<in> set A" by (rule in_A)
      then show False using nin by force
    qed
    have copied: "(0 < w \<and> T r = 0) = (T r = 0)"
    proof (rule ccontr)
      assume "(0 < w \<and> T r = 0) \<noteq> (T r = 0)"
      then have z: "w = 0" "T r = 0" by auto
      have ge: "pg_bands P ! 1 \<le> r" using tiled_seqs [OF r] z(2) by simp
      define i where "i = (r - pg_bands P ! 1) mod rows"
      have i: "i < rows" using rows by (simp add: i_def)
      have "i \<le> r - pg_bands P ! 1" unfolding i_def by (rule mod_less_eq_dividend)
      then have le: "pg_bands P ! 1 + i \<le> r" "r - (pg_bands P ! 1 + i) = (r - pg_bands P ! 1) - i" using ge by linarith+
      have "rows dvd (r - pg_bands P ! 1) - i" unfolding i_def by (rule dvd_minus_mod)
      then have "r \<in> set (strided (pg_bands P ! 1 + i) n rows)" using le r by (simp add: set_strided [OF rows])
      then have "Copy (pg_sorted P ! r) \<in> set (row_acts rows cap window n P cu w i)" using z by (auto simp: row_acts_def empty_seqs_def)
      moreover have "i \<in> set G" using i assms(9) by simp
      ultimately have "Copy (pg_sorted P ! r) \<in> set A" by (rule in_A)
      then show False using nin by force
    qed
    have "pre (pg_sorted P ! r) (fold (do_act k tile) A m)" using fin nin seq_at_lt [OF r] by blast
    then show ?thesis using same copied by (simp add: pre_def post_def rk [OF r])
  qed
  show ?thesis
    unfolding f window_inv_def using fin all by (simp add: post_def rk)
qed

lemma windows_inv:
  assumes "kl_cu k = cu" "call_ok k n cap" "spans_ok k n cap window P" "\<forall>r < n. pg_rank_of P ! (pg_sorted P ! r) = r"
    and "min n window \<le> rows" "grids_ok rows launched grid" "launched \<le> nwindows" "w \<le> launched"
  shows "window_inv k tile m0 w (run_windows rows cap window n P k tile 0 bad grid w m0)"
  using assms(8)
proof (induction w)
  case 0
  have "progress k tile m0 (pg_sorted P ! r) 0 False m0" if "r < n" for r
    by (rule progress_start [of _ _ "T r"]) (use assms(1,2) seq_at_lt [OF that] in \<open>simp add: call_ok_def\<close>)
  then show ?case by (simp add: window_inv_def run_windows_def)
next
  case (Suc w)
  have G: "distinct (grid w)" "set (grid w) = {..<rows}" using assms(6) Suc.prems by (simp_all add: grids_ok_def)
  have "run_windows rows cap window n P k tile 0 bad grid (Suc w) m0
      = fold (grid_row rows cap window n P k tile w) (grid w) (run_windows rows cap window n P k tile 0 bad grid w m0)"
    by (simp add: run_windows_def launch_window_def)
  then show ?case using launch_step [OF Suc.IH _ assms(1-5) G] Suc.prems assms(7) by simp
qed

end

context prologue_run
begin

lemma call_result:
  assumes "call_ok k live cap" "spans_ok k live cap window tables" "grids_ok rows launched grid" "min live window \<le> rows" "kl_cu k = cu"
    and "0 < launched" "launched \<le> nwindows" "pg_total tables \<le> launched * window" "s < live"
    and "m = run_windows rows cap window live tables k tile 0 bad grid launched m0"
  shows "progress k tile m0 s (tile_count cap cu s) (tile_count cap cu s = 0) m \<and> (\<forall>x. (\<forall>s < live. x \<notin> write_slots k s) \<longrightarrow> km_slot m x = km_slot m0 x)"
proof -
  have r: "\<forall>r < live. pg_rank_of tables ! (pg_sorted tables ! r) = r" using rank_onto by metis
  have inv: "window_inv k tile m0 launched m"
    unfolding assms(10) by (rule windows_inv [OF assms(5,1,2) r assms(4,3,7) order_refl])
  obtain q where q: "q < live" "pg_sorted tables ! q = s" using rank_of_seq [OF assms(9)] by blast
  have "before (launched * window) q = tile_count cap cu s" using before_all [OF q(1)] assms(8) q(2) total by simp
  then show ?thesis using inv q assms(6) unfolding window_inv_def by auto
qed

end

lemma prefix_states:
  assumes "0 < window" "live \<le> max_seqs" "distinct order" "set order = {..<live}"
    and "P = run_prologue max_seqs cap window nwindows (kl_cu k) live order"
    and "call_ok k live cap" "spans_ok k live cap window P" "grids_ok rows launched grid" "min live window \<le> rows"
    and "0 < launched" "launched \<le> nwindows" "pg_total P \<le> launched * window"
    and "m = run_windows rows cap window live P k tile 0 bad grid launched m0" "s < live"
  shows "(\<forall>x \<in> final_slots k s. km_slot m x = tiles_state k tile m0 s (tile_count cap (kl_cu k) s))
    \<and> (\<forall>(x, off) \<in> live_ckpts k s. km_slot m x = tiles_state k tile m0 s (nat (off div CHUNK_TOKENS)))
    \<and> (\<forall>l < tile_count cap (kl_cu k) s. km_out m s l = tile_rows k tile m0 s l)
    \<and> (\<forall>x. (\<forall>s < live. x \<notin> write_slots k s) \<longrightarrow> km_slot m x = km_slot m0 x)"
proof -
  note run = prologue_run.intro [OF assms(1-4)]
  note res = prologue_run.call_result [OF run assms(6) _ assms(8,9) refl assms(10,11) _ assms(14), where m = m]
  have p: "progress k tile m0 s (tile_count cap (kl_cu k) s) (tile_count cap (kl_cu k) s = 0) m"
    and f: "\<forall>x. (\<forall>s < live. x \<notin> write_slots k s) \<longrightarrow> km_slot m x = km_slot m0 x"
    using res assms(5,7,12,13) by blast+
  have ok: "slots_ok k s (tile_count cap (kl_cu k) s)" using assms(6,14) by (simp add: call_ok_def)
  have "off \<le> CHUNK_TOKENS * int (tile_count cap (kl_cu k) s)" if "(x, off) \<in> live_ckpts k s" for x off
    by (rule slots_okD(2) [OF ok that])
  then show ?thesis using p f unfolding progress_def by (auto split: if_splits)
qed

text \<open>
  The recurrence of a call leaves in every final slot the state after all tiles of its sequence, in every checkpoint slot the state
  after the tiles before its offset, and touches no other slot; the output rows of a tile come from the state before it.
\<close>


section \<open>Examples\<close>

text \<open>Three sequences of 40, 0 and 17 rows: the first exports after 16 and 32 rows.\<close>

lemma alive_count: "alive c n l = length (filter (\<lambda>s. l < c s) [0..<n])"
proof -
  have eq: "{s. s < n \<and> l < c s} = set (filter (\<lambda>s. l < c s) [0..<n])" by auto
  show ?thesis unfolding alive_def eq by (rule distinct_card) simp
qed

definition demo_call :: "int kda_call" where
  "demo_call = \<lparr>kl_cu = [0, 40, 40, 57], kl_initial = [5, 0, 3], kl_final = [1, 2, 3], kl_ckpts = [[(6, 32), (7, 16)], [(0, 0), (0, 0)], [(0, 0), (0, 0)]],
     kl_null = Some 0, kl_zero = 0\<rparr>"

definition demo_tile :: "nat \<Rightarrow> nat \<Rightarrow> int \<Rightarrow> int \<times> int" where
  "demo_tile s l a = (10 * a + int l + 1, a)"

definition demo_mem :: "(int, int) kda_mem" where
  "demo_mem = \<lparr>km_slot = (\<lambda>x. x), km_out = (\<lambda>_ _. - 1)\<rparr>"

lemma demo_counts: "tile_count 8 (kl_cu demo_call) 0 = 3" "tile_count 8 (kl_cu demo_call) 1 = 0" "tile_count 8 (kl_cu demo_call) 2 = 2"
  by code_simp+

lemma below_3: "(s::nat) < 3 \<Longrightarrow> s = 0 \<or> s = 1 \<or> s = 2" by arith

lemma demo_sets:
  "live_ckpts demo_call 0 = {(6, 32), (7, 16)}" "live_ckpts demo_call 1 = {}" "live_ckpts demo_call 2 = {}"
  "final_slots demo_call 0 = {1}" "final_slots demo_call 1 = {2}" "final_slots demo_call 2 = {3}"
  by (auto simp: live_ckpts_def final_slots_def demo_call_def)

lemma demo_call_ok: "call_ok demo_call 3 8"
proof -
  have k: "kl_null demo_call = Some 0" "kl_initial demo_call ! 0 = 5" "kl_initial demo_call ! 1 = 0" "kl_initial demo_call ! 2 = 3" "kl_initial demo_call ! Suc 0 = 0"
    by (simp_all add: demo_call_def)
  have "slots_ok demo_call s (tile_count 8 (kl_cu demo_call) s)" if "s < 3" for s
    using below_3 [OF that]
    by (elim disjE) (simp_all only: demo_counts slots_ok_def demo_sets, simp_all add: k CHUNK_TOKENS_def)
  moreover have "write_slots demo_call s \<inter> write_slots demo_call s' = {} \<and> (kl_null demo_call = Some (kl_initial demo_call ! s) \<or> kl_initial demo_call ! s \<notin> write_slots demo_call s')"
    if "s < 3" "s' < 3" "s \<noteq> s'" for s s'
    using below_3 [OF that(1)] below_3 [OF that(2)] that(3)
    by (elim disjE) (simp_all only: write_slots_def demo_sets, simp_all add: k)
  ultimately show ?thesis unfolding call_ok_def by blast
qed

lemma demo_run: "distinct [2, 0, 1 :: nat]" "set [2, 0, 1 :: nat] = {..<3}"
  by auto

theorem prologue_lays_out_tiles_witness:
  "pg_bands (run_prologue 4 8 2 3 (kl_cu demo_call) 3 [2, 0, 1]) ! 2 + pg_rank_of (run_prologue 4 8 2 3 (kl_cu demo_call) 3 [2, 0, 1]) ! 0
     < pg_total (run_prologue 4 8 2 3 (kl_cu demo_call) 3 [2, 0, 1])"
  using prologue_lays_out_tiles [of 2 3 4 "[2, 0, 1]" 0 2 8 "kl_cu demo_call", OF _ _ demo_run _ _ refl refl] demo_counts by simp

lemma demo_call_spans: "spans_ok demo_call 3 8 2 P"
proof -
  have "final_slots demo_call s \<noteq> {}" if "s < 3" for s using below_3 [OF that] demo_sets by auto
  then show ?thesis by (simp add: spans_ok_def Let_def)
qed

lemma demo_call_total: "pg_total (run_prologue 4 8 2 3 (kl_cu demo_call) 3 [2, 0, 1]) \<le> 3 * 2"
proof -
  note run = prologue_run.intro [of 2 3 4 "[2, 0, 1]", OF _ _ demo_run]
  have "band_start (tile_count 8 (kl_cu demo_call)) 3 8 = 5" unfolding band_start_def alive_count by code_simp
  then show ?thesis using prologue_run.total [OF run, of 8 3 "kl_cu demo_call"] by simp
qed

lemma demo_grid: "grids_ok 2 3 (\<lambda>w. [1, 0])"
  by (auto simp: grids_ok_def)

lemma demo_states: "tiles_state demo_call demo_tile demo_mem 0 3 = 5123" "tiles_state demo_call demo_tile demo_mem 0 2 = 512"
    "tiles_state demo_call demo_tile demo_mem 0 1 = 51"
  by code_simp+


end
