(* ===== verification/Kda_Slots.thy ===== *)
theory Kda_Slots
  imports Kda_Windows
begin

text \<open>
  Metadata validation of the KDA prefill prologue (\<open>_PrologueKernel\<close> with \<open>validate\<close>, in the vendored
  \<open>src/docker/base/04-b12x-kda/b12x-kda-prefill-overlay/b12x/sequence/kda_prefill/_cute_kernels.py\<close>): the open-addressing
  table into which the threads of the CTA insert the state slots a call writes, and the error code. A step of the table is
  one compare-and-swap of one thread, and the threads interleave in any order up to the barrier that ends the pass. Keys
  are 32-bit words as in the code.
\<close>

section \<open>The table of written slots\<close>

unbundle bit_operations_syntax

fun bit_length :: "nat \<Rightarrow> nat" where
  "bit_length x = (if x = 0 then 0 else Suc (bit_length (x div 2)))"

declare bit_length.simps [simp del]

definition next_power_of_two :: "nat \<Rightarrow> nat" where
  "next_power_of_two v = push_bit (bit_length (v - 1)) 1"

definition duplicate_table_size :: "nat \<Rightarrow> nat" where
  "duplicate_table_size max_seqs = next_power_of_two (4 * max_seqs)"

definition slot_key :: "int \<Rightarrow> 32 word" where
  "slot_key slot = word_of_int slot AND 0x7FFFFFFF"

definition stored_key :: "int \<Rightarrow> 32 word" where
  "stored_key slot = slot_key slot + 1"

definition slot_home :: "nat \<Rightarrow> int \<Rightarrow> nat" where
  "slot_home n slot = unat (slot_key slot) AND (n - 1)"

definition next_cell :: "nat \<Rightarrow> nat \<Rightarrow> nat" where
  "next_cell n p = (p + 1) AND (n - 1)"

definition cas_global :: "32 word list \<Rightarrow> nat \<Rightarrow> 32 word \<Rightarrow> 32 word \<Rightarrow> 32 word \<times> 32 word list" where
  "cas_global cells p expected new = (cells ! p, if cells ! p = expected then cells[p := new] else cells)"

text \<open>A thread inserts the slots of \<open>pt_todo\<close> in turn and is about to try cell \<open>pt_pos\<close> for the first of them.\<close>

record probe_thread =
  pt_todo :: "int list"
  pt_pos :: nat

record slot_table =
  dt_cells :: "32 word list"
  dt_dup :: bool
  dt_threads :: "probe_thread list"

definition begin_probe :: "nat \<Rightarrow> int list \<Rightarrow> probe_thread" where
  "begin_probe n todo = \<lparr>pt_todo = todo, pt_pos = (case todo of [] \<Rightarrow> 0 | s # _ \<Rightarrow> slot_home n s)\<rparr>"

text \<open>One round of the loop of \<open>_insert\<close> in thread \<open>i\<close>; a slot that is present sets the duplicate flag.\<close>

definition insert_step :: "nat \<Rightarrow> nat \<Rightarrow> slot_table \<Rightarrow> slot_table" where
  "insert_step n i d =
     (case pt_todo (dt_threads d ! i) of [] \<Rightarrow> d
      | s # rest \<Rightarrow>
        let (previous, cells) = cas_global (dt_cells d) (pt_pos (dt_threads d ! i)) 0 (stored_key s)
        in if previous = 0 then d\<lparr>dt_cells := cells, dt_threads := (dt_threads d)[i := begin_probe n rest]\<rparr>
           else if previous = stored_key s then d\<lparr>dt_cells := cells, dt_dup := True, dt_threads := (dt_threads d)[i := begin_probe n rest]\<rparr>
           else d\<lparr>dt_cells := cells,
                  dt_threads := (dt_threads d)[i := (dt_threads d ! i)\<lparr>pt_pos := next_cell n (pt_pos (dt_threads d ! i))\<rparr>]\<rparr>)"

text \<open>The threads run in any order.\<close>

inductive insert_any :: "nat \<Rightarrow> slot_table \<Rightarrow> slot_table \<Rightarrow> bool" for n where
  probe: "i < length (dt_threads d) \<Longrightarrow> pt_todo (dt_threads d ! i) \<noteq> [] \<Longrightarrow> insert_any n d (insert_step n i d)"

inductive_cases insert_anyE: "insert_any n d d'"

definition insert_start :: "nat \<Rightarrow> int list list \<Rightarrow> slot_table" where
  "insert_start n todos = \<lparr>dt_cells = replicate n 0, dt_dup = False, dt_threads = map (begin_probe n) todos\<rparr>"

definition inserted :: "slot_table \<Rightarrow> bool" where
  "inserted d \<longleftrightarrow> (\<forall>th \<in> set (dt_threads d). pt_todo th = [])"

text \<open>The loop of \<open>_contains\<close>; a search that meets neither the slot nor an empty cell never returns.\<close>

partial_function (option) contains_from :: "32 word list \<Rightarrow> nat \<Rightarrow> 32 word \<Rightarrow> nat \<Rightarrow> bool option" where
  "contains_from cells n stored p =
     (if cells ! p = 0 then Some False
      else if cells ! p = stored then Some True
      else contains_from cells n stored (next_cell n p))"

definition contains_slot :: "32 word list \<Rightarrow> nat \<Rightarrow> int \<Rightarrow> bool option" where
  "contains_slot cells n slot = contains_from cells n (stored_key slot) (slot_home n slot)"

section \<open>Keys and cells\<close>

lemma less_bit_length: "x < 2 ^ bit_length x"
proof (induction x rule: bit_length.induct)
  case (1 x)
  show ?case
  proof (cases "x = 0")
    case False
    with 1 have "x div 2 < 2 ^ bit_length (x div 2)" by simp
    then have "x < 2 ^ Suc (bit_length (x div 2))" by simp
    then show ?thesis by (subst bit_length.simps) (simp add: False)
  qed (simp add: bit_length.simps)
qed

lemma next_power_of_two_pow: "next_power_of_two v = 2 ^ bit_length (v - 1)"
  by (simp add: next_power_of_two_def push_bit_eq_mult)

lemma next_power_of_two_le: "v \<le> next_power_of_two v"
  using less_bit_length [of "v - 1"] by (simp add: next_power_of_two_pow)

lemma slot_key_small: "unat (slot_key s) < 2 ^ 31"
proof -
  have "slot_key s \<le> 0x7FFFFFFF" by (simp add: slot_key_def word_and_le1)
  then show ?thesis by (simp add: word_le_nat_alt)
qed

lemma stored_key_nonzero [simp]: "stored_key s \<noteq> 0" "0 \<noteq> stored_key s"
proof -
  have "unat (stored_key s) = unat (slot_key s) + 1"
    using slot_key_small [of s] unfolding stored_key_def by (subst unat_add_lem [THEN iffD1]) simp_all
  then show "stored_key s \<noteq> 0" "0 \<noteq> stored_key s" by auto
qed

lemma slot_key_eq: "0 \<le> s \<Longrightarrow> s < 2 ^ 31 \<Longrightarrow> uint (slot_key s) = s"
proof -
  assume s: "0 \<le> s" "s < 2 ^ 31"
  have "take_bit 32 s = s" using s by (intro take_bit_int_eq_self) simp_all
  then have u: "uint (word_of_int s :: 32 word) = s" using s by (simp add: unsigned_of_int)
  have m: "uint (0x7FFFFFFF :: 32 word) = mask 31" by (simp add: mask_numeral)
  have "uint (slot_key s) = s AND mask 31" unfolding slot_key_def unsigned_and_eq u m by (rule refl)
  also have "\<dots> = take_bit 31 s" by (rule take_bit_eq_mask [symmetric])
  also have "\<dots> = s" using s by (rule take_bit_int_eq_self)
  finally show ?thesis .
qed

lemma and_pow: "(x::nat) AND (2 ^ k - 1) = x mod 2 ^ k"
  by (simp only: mask_eq_exp_minus_1 [symmetric] take_bit_eq_mask [symmetric] take_bit_eq_mod)

lemma stored_key_inj: "0 \<le> s \<Longrightarrow> s < 2 ^ 31 \<Longrightarrow> 0 \<le> s' \<Longrightarrow> s' < 2 ^ 31 \<Longrightarrow> stored_key s = stored_key s' \<longleftrightarrow> s = s'"
proof
  assume s: "0 \<le> s" "s < 2 ^ 31" "0 \<le> s'" "s' < 2 ^ 31" and k: "stored_key s = stored_key s'"
  from k have "slot_key s = slot_key s'" unfolding stored_key_def by (rule add_right_imp_eq)
  then show "s = s'" using slot_key_eq [OF s(1,2)] slot_key_eq [OF s(3,4)] by metis
qed simp

lemma stored_key_home: "stored_key s = stored_key s' \<Longrightarrow> slot_home n s = slot_home n s'"
  by (simp add: stored_key_def slot_home_def)

lemma mset_concat_update: "i < length xs \<Longrightarrow> mset (concat (xs[i := y])) + mset (xs ! i) = mset (concat xs) + mset y"
  by (induction xs arbitrary: i) (auto simp: less_Suc_eq_0_disj ac_simps)

text \<open>The cell a slot reaches after \<open>j\<close> tries.\<close>

definition probe_cell :: "nat \<Rightarrow> int \<Rightarrow> nat \<Rightarrow> nat" where
  "probe_cell n s j = (slot_home n s + j) mod n"

definition thread_ok :: "nat \<Rightarrow> 32 word list \<Rightarrow> probe_thread \<Rightarrow> bool" where
  "thread_ok n cells th \<longleftrightarrow>
     (\<forall>s rest. pt_todo th = s # rest \<longrightarrow>
        (\<exists>j < n. pt_pos th = probe_cell n s j \<and> (\<forall>i < j. cells ! probe_cell n s i \<noteq> 0 \<and> cells ! probe_cell n s i \<noteq> stored_key s)))"

text \<open>The table holds the keys of the slots \<open>D\<close> that were inserted, each reachable from its home without an empty cell.\<close>

definition table_ok :: "nat \<Rightarrow> int list \<Rightarrow> 32 word list \<Rightarrow> bool" where
  "table_ok n D cells \<longleftrightarrow>
     length cells = n
     \<and> (\<forall>p < n. cells ! p \<noteq> 0 \<longrightarrow> cells ! p \<in> stored_key ` set D)
     \<and> (\<forall>s \<in> set D. \<exists>j < n. cells ! probe_cell n s j = stored_key s \<and> (\<forall>i < j. cells ! probe_cell n s i \<noteq> 0))
     \<and> card {p. p < n \<and> cells ! p \<noteq> 0} \<le> length D"

definition sweep_ok :: "nat \<Rightarrow> int list \<Rightarrow> slot_table \<Rightarrow> bool" where
  "sweep_ok n slots d \<longleftrightarrow>
     (\<exists>D. table_ok n D (dt_cells d) \<and> (dt_dup d \<longleftrightarrow> \<not> distinct (map stored_key D))
        \<and> (\<forall>th \<in> set (dt_threads d). thread_ok n (dt_cells d) th)
        \<and> mset (concat (map pt_todo (dt_threads d))) + mset D = mset slots)"

text \<open>How many tries a thread can still make.\<close>

definition probe_work :: "nat \<Rightarrow> probe_thread \<Rightarrow> nat" where
  "probe_work n th = (case pt_todo th of [] \<Rightarrow> 0 | s # rest \<Rightarrow> n * length rest + (n - (pt_pos th + n - slot_home n s) mod n))"

definition table_work :: "nat \<Rightarrow> slot_table \<Rightarrow> nat" where
  "table_work n d = sum_list (map (probe_work n) (dt_threads d))"

locale probing =
  fixes n k :: nat
  assumes pow: "n = 2 ^ k"
begin

lemma pos: "0 < n" by (simp add: pow)

lemma home_lt: "slot_home n s < n"
  unfolding slot_home_def pow and_pow by simp

lemma next_cell: "next_cell n p = (p + 1) mod n"
  unfolding next_cell_def pow and_pow by (rule refl)

lemma cell_lt [simp]: "probe_cell n s j < n" using pos by (simp add: probe_cell_def)

lemma cell_0: "probe_cell n s 0 = slot_home n s" using home_lt by (simp add: probe_cell_def)

lemma cell_Suc: "next_cell n (probe_cell n s j) = probe_cell n s (Suc j)" by (simp add: next_cell probe_cell_def mod_Suc_eq)

lemma cell_onto: "p < n \<Longrightarrow> \<exists>j < n. probe_cell n s j = p"
proof -
  assume p: "p < n"
  have "probe_cell n s ((p + n - slot_home n s) mod n) = (slot_home n s + (p + n - slot_home n s)) mod n"
    by (simp add: probe_cell_def mod_add_right_eq)
  also have "\<dots> = p" using home_lt [of s] p by simp
  finally show ?thesis using pos by (intro exI [of _ "(p + n - slot_home n s) mod n"]) simp
qed

lemma cell_dist:
  assumes "j < n"
  shows "(probe_cell n s j + n - slot_home n s) mod n = j"
proof -
  have h: "slot_home n s < n" by (rule home_lt)
  have "(probe_cell n s j + n - slot_home n s) mod n = (probe_cell n s j + (n - slot_home n s)) mod n" using h by simp
  also have "\<dots> = (slot_home n s + j + (n - slot_home n s)) mod n" by (simp add: probe_cell_def mod_add_left_eq)
  also have "\<dots> = j" using h assms by simp
  finally show ?thesis .
qed

lemma begin_ok: "thread_ok n cells (begin_probe n todo)"
  unfolding thread_ok_def begin_probe_def using cell_0 pos by (auto intro!: exI [of _ 0])

lemma begin_work: "probe_work n (begin_probe n todo) = n * length todo"
proof (cases todo)
  case (Cons s rest)
  then show ?thesis using cell_dist [of 0 s] pos by (simp add: begin_probe_def probe_work_def cell_0)
qed (simp add: begin_probe_def probe_work_def)

lemma thread_ok_fill:
  assumes "thread_ok n cells th" "cells ! p = 0"
  shows "thread_ok n (cells[p := v]) th"
proof -
  have "cells[p := v] ! q = cells ! q" if "cells ! q \<noteq> 0" for q using assms(2) that by (cases "q = p") simp_all
  then show ?thesis using assms(1) unfolding thread_ok_def by metis
qed

lemma room:
  assumes "table_ok n D cells" "length D < n"
  shows "\<exists>j < n. cells ! probe_cell n s j = 0"
proof (rule ccontr)
  assume full: "\<not> ?thesis"
  have "{p. p < n \<and> cells ! p \<noteq> 0} = {..<n}" using full cell_onto [of _ s] by auto
  then show False using assms unfolding table_ok_def by simp
qed

text \<open>A try at an empty cell: the slot is new, and it is in the table afterwards.\<close>

lemma fill_empty:
  assumes t: "table_ok n D cells" and j: "j < n" "cells ! probe_cell n s j = 0"
    and clear: "\<forall>i < j. cells ! probe_cell n s i \<noteq> 0 \<and> cells ! probe_cell n s i \<noteq> stored_key s"
  shows "stored_key s \<notin> stored_key ` set D" "table_ok n (s # D) (cells[probe_cell n s j := stored_key s])"
proof -
  show new: "stored_key s \<notin> stored_key ` set D"
  proof
    assume "stored_key s \<in> stored_key ` set D"
    then obtain u where u: "u \<in> set D" "stored_key u = stored_key s" by auto
    then obtain i where i: "i < n" "cells ! probe_cell n u i = stored_key u" "\<forall>i' < i. cells ! probe_cell n u i' \<noteq> 0"
      using t unfolding table_ok_def by blast
    have same: "probe_cell n u q = probe_cell n s q" for q using stored_key_home [OF u(2)] by (simp add: probe_cell_def)
    consider "i < j" | "i = j" | "j < i" by linarith
    then show False using i j(2) clear u(2) unfolding same by cases auto
  qed
  have len: "length cells = n" using t by (simp add: table_ok_def)
  define p where "p = probe_cell n s j"
  have p: "p < length cells" "cells ! p = 0" using len j(2) by (simp_all add: p_def)
  have keep: "cells[p := stored_key s] ! q = cells ! q" if "cells ! q \<noteq> 0" for q using that p(2) by (cases "q = p") simp_all
  have at: "cells[p := stored_key s] ! p = stored_key s" using p(1) by simp
  have filled: "{q. q < n \<and> cells[p := stored_key s] ! q \<noteq> 0} = insert p {q. q < n \<and> cells ! q \<noteq> 0}"
    using p(1) len by (auto simp: nth_list_update)
  show "table_ok n (s # D) (cells[probe_cell n s j := stored_key s])"
    unfolding table_ok_def p_def [symmetric]
  proof (intro conjI ballI allI impI)
    show "length (cells[p := stored_key s]) = n" using len by simp
    fix q assume "q < n" "cells[p := stored_key s] ! q \<noteq> 0"
    then show "cells[p := stored_key s] ! q \<in> stored_key ` set (s # D)"
      using t at unfolding table_ok_def by (cases "q = p") auto
  next
    fix u assume u: "u \<in> set (s # D)"
    show "\<exists>i < n. cells[p := stored_key s] ! probe_cell n u i = stored_key u \<and> (\<forall>i' < i. cells[p := stored_key s] ! probe_cell n u i' \<noteq> 0)"
    proof (cases "u \<in> set D")
      case True
      then obtain i where i: "i < n" "cells ! probe_cell n u i = stored_key u" "\<forall>i' < i. cells ! probe_cell n u i' \<noteq> 0"
        using t unfolding table_ok_def by blast
      have "cells[p := stored_key s] ! probe_cell n u i = stored_key u" using keep i(2) by simp
      moreover have "\<forall>i' < i. cells[p := stored_key s] ! probe_cell n u i' \<noteq> 0" using keep i(3) by simp
      ultimately show ?thesis using i(1) by blast
    next
      case False
      then have "u = s" using u by simp
      moreover have "\<forall>i' < j. cells[p := stored_key s] ! probe_cell n s i' \<noteq> 0" using keep clear by simp
      ultimately show ?thesis using j(1) at p_def by blast
    qed
  next
    have "card {q. q < n \<and> cells[p := stored_key s] ! q \<noteq> 0} \<le> Suc (card {q. q < n \<and> cells ! q \<noteq> 0})"
      unfolding filled by (rule card_insert_le_m1 [of "Suc _", simplified]) simp_all
    then show "card {q. q < n \<and> cells[p := stored_key s] ! q \<noteq> 0} \<le> length (s # D)" using t unfolding table_ok_def by simp
  qed
qed

lemma again_ok: "table_ok n D cells \<Longrightarrow> stored_key s \<in> stored_key ` set D \<Longrightarrow> table_ok n (s # D) cells"
proof -
  assume t: "table_ok n D cells" and "stored_key s \<in> stored_key ` set D"
  then obtain u where u: "u \<in> set D" "stored_key u = stored_key s" by auto
  have "probe_cell n u q = probe_cell n s q" for q using stored_key_home [OF u(2)] by (simp add: probe_cell_def)
  moreover obtain j where "j < n" "cells ! probe_cell n u j = stored_key u" "\<forall>i < j. cells ! probe_cell n u i \<noteq> 0"
    using t u(1) unfolding table_ok_def by blast
  ultimately show "table_ok n (s # D) cells" using t u(2) unfolding table_ok_def by auto
qed

end

section \<open>Every interleaving\<close>

context probing
begin

text \<open>One try of thread \<open>i\<close>: either its slot is settled, or it moves on with one try less to go.\<close>

lemma step_cases:
  assumes ok: "table_ok n D (dt_cells d)" "length D < n" "thread_ok n (dt_cells d) (dt_threads d ! i)"
    and todo: "pt_todo (dt_threads d ! i) = s # rest"
  obtains (new) "stored_key s \<notin> stored_key ` set D"
      "insert_step n i d = d\<lparr>dt_cells := (dt_cells d)[pt_pos (dt_threads d ! i) := stored_key s], dt_threads := (dt_threads d)[i := begin_probe n rest]\<rparr>"
      "dt_cells d ! pt_pos (dt_threads d ! i) = 0" "table_ok n (s # D) ((dt_cells d)[pt_pos (dt_threads d ! i) := stored_key s])"
    | (old) "stored_key s \<in> stored_key ` set D" "insert_step n i d = d\<lparr>dt_dup := True, dt_threads := (dt_threads d)[i := begin_probe n rest]\<rparr>"
    | (on) th where "insert_step n i d = d\<lparr>dt_threads := (dt_threads d)[i := th]\<rparr>" "pt_todo th = s # rest"
      "thread_ok n (dt_cells d) th" "probe_work n th < probe_work n (dt_threads d ! i)"
proof -
  define cells where "cells = dt_cells d"
  obtain j where j: "j < n" "pt_pos (dt_threads d ! i) = probe_cell n s j"
    "\<forall>i < j. cells ! probe_cell n s i \<noteq> 0 \<and> cells ! probe_cell n s i \<noteq> stored_key s"
    using ok(3) todo unfolding thread_ok_def cells_def by blast
  have t: "table_ok n D cells" using ok(1) by (simp add: cells_def)
  consider "cells ! probe_cell n s j = 0" | "cells ! probe_cell n s j = stored_key s"
    | "cells ! probe_cell n s j \<noteq> 0" "cells ! probe_cell n s j \<noteq> stored_key s" by blast
  then show ?thesis
  proof cases
    case 1
    show ?thesis
      by (rule new) (use fill_empty [OF t j(1) 1 j(3)] 1 todo in \<open>simp_all add: insert_step_def cas_global_def j(2) cells_def [symmetric]\<close>)
  next
    case 2
    have "stored_key s \<in> stored_key ` set D" using t 2 cell_lt unfolding table_ok_def by (metis stored_key_nonzero(1))
    moreover have "insert_step n i d = d\<lparr>dt_dup := True, dt_threads := (dt_threads d)[i := begin_probe n rest]\<rparr>"
      using 2 todo by (simp add: insert_step_def cas_global_def j(2) cells_def)
    ultimately show ?thesis by (rule old)
  next
    case 3
    define th where "th = (dt_threads d ! i)\<lparr>pt_pos := probe_cell n s (Suc j)\<rparr>"
    have clear: "\<forall>i < Suc j. cells ! probe_cell n s i \<noteq> 0 \<and> cells ! probe_cell n s i \<noteq> stored_key s"
      using j(3) 3 by (auto simp: less_Suc_eq)
    obtain e where e: "e < n" "cells ! probe_cell n s e = 0" using room [OF t ok(2)] by blast
    have "\<not> e < Suc j" using clear e(2) by blast
    then have lt: "Suc j < n" using e(1) by linarith
    show ?thesis
    proof (rule on)
      show "insert_step n i d = d\<lparr>dt_threads := (dt_threads d)[i := th]\<rparr>"
        using 3 todo by (simp add: insert_step_def cas_global_def j(2) cells_def th_def cell_Suc)
      show "pt_todo th = s # rest" using todo by (simp add: th_def)
      show "thread_ok n (dt_cells d) th"
        using lt clear todo unfolding thread_ok_def th_def cells_def by auto
      show "probe_work n th < probe_work n (dt_threads d ! i)"
        using cell_dist [OF j(1), of s] cell_dist [OF lt, of s] lt todo by (simp add: probe_work_def th_def j(2))
    qed
  qed
qed

lemma work_update: "i < length ths \<Longrightarrow> probe_work n th < probe_work n (ths ! i) \<Longrightarrow>
    sum_list (map (probe_work n) (ths[i := th])) < sum_list (map (probe_work n) ths)"
  by (induction ths arbitrary: i) (auto split: nat.splits)

lemma todo_update:
  assumes "i < length ths" "pt_todo (ths ! i) = s # rest"
  shows "mset (concat (map pt_todo (ths[i := begin_probe n rest]))) + {#s#} = mset (concat (map pt_todo ths))"
proof -
  have "mset (concat ((map pt_todo ths)[i := rest])) + mset (s # rest) = mset (concat (map pt_todo ths)) + mset rest"
    using mset_concat_update [of i "map pt_todo ths" rest] assms by simp
  then show ?thesis by (simp add: map_update begin_probe_def)
qed

lemma settled_work:
  assumes "thread_ok n cells th" "pt_todo th = s # rest"
  shows "probe_work n (begin_probe n rest) < probe_work n th"
proof -
  obtain j where "j < n" "pt_pos th = probe_cell n s j" using assms unfolding thread_ok_def by blast
  then have "probe_work n th = n * length rest + (n - j)" "j < n" using cell_dist [of j s] assms(2) by (simp_all add: probe_work_def)
  then show ?thesis unfolding begin_work by simp
qed

lemma sweep_step:
  assumes "insert_any n d d'" "sweep_ok n slots d" "length slots < n"
  shows "sweep_ok n slots d' \<and> table_work n d' < table_work n d"
proof -
  obtain i where i: "i < length (dt_threads d)" "pt_todo (dt_threads d ! i) \<noteq> []" "d' = insert_step n i d"
    using assms(1) by (blast elim: insert_anyE)
  obtain s rest where todo: "pt_todo (dt_threads d ! i) = s # rest" using i(2) by (cases "pt_todo (dt_threads d ! i)") auto
  obtain D where D: "table_ok n D (dt_cells d)" "dt_dup d \<longleftrightarrow> \<not> distinct (map stored_key D)"
    "\<forall>th \<in> set (dt_threads d). thread_ok n (dt_cells d) th" "mset (concat (map pt_todo (dt_threads d))) + mset D = mset slots"
    using assms(2) unfolding sweep_ok_def by blast
  note upd = todo_update [OF i(1) todo]
  have th: "thread_ok n (dt_cells d) (dt_threads d ! i)" using D(3) i(1) by simp
  have "size (mset slots) = size (mset (concat (map pt_todo (dt_threads d)))) + length D" using D(4) by (metis size_mset size_union)
  then have room: "length D < n" using assms(3) by (simp only: size_mset)
  have ms: "mset (concat (map pt_todo ((dt_threads d)[i := begin_probe n rest]))) + mset (s # D) = mset slots"
    using D(4) upd by (metis add_mset_add_single mset.simps(2) union_mset_add_mset_left union_mset_add_mset_right)
  note settled = settled_work [OF th todo]
  show ?thesis
  proof (rule step_cases [OF D(1) room th todo], goal_cases)
    case 1
    let ?cells = "(dt_cells d)[pt_pos (dt_threads d ! i) := stored_key s]"
    have "\<forall>th \<in> set ((dt_threads d)[i := begin_probe n rest]). thread_ok n ?cells th"
      using D(3) begin_ok thread_ok_fill 1(3) by (auto dest!: set_update_subset_insert [THEN subsetD])
    then have "sweep_ok n slots d'" unfolding sweep_ok_def i(3) 1(2)
      using 1(1,4) D(2) ms by (intro exI [of _ "s # D"]) simp
    then show ?case using work_update [OF i(1) settled] unfolding table_work_def i(3) 1(2) by simp
  next
    case 2
    have "\<forall>th \<in> set ((dt_threads d)[i := begin_probe n rest]). thread_ok n (dt_cells d) th"
      using D(3) begin_ok by (auto dest!: set_update_subset_insert [THEN subsetD])
    then have "sweep_ok n slots d'" unfolding sweep_ok_def i(3) 2(2)
      using 2(1) again_ok [OF D(1) 2(1)] D(2) ms by (intro exI [of _ "s # D"]) simp
    then show ?case using work_update [OF i(1) settled] unfolding table_work_def i(3) 2(2) by simp
  next
    case (3 th')
    have "\<forall>th \<in> set ((dt_threads d)[i := th']). thread_ok n (dt_cells d) th"
      using D(3) 3(3) by (auto dest!: set_update_subset_insert [THEN subsetD])
    moreover have "(map pt_todo (dt_threads d))[i := s # rest] = map pt_todo (dt_threads d)"
      using i(1) todo by (metis length_map list_update_id nth_map)
    ultimately have "sweep_ok n slots d'" unfolding sweep_ok_def i(3) 3(1)
      using D(1,2,4) 3(2) by (intro exI [of _ D]) (simp add: map_update)
    then show ?case using work_update [OF i(1) 3(4)] unfolding table_work_def i(3) 3(1) by simp
  qed
qed

lemma sweep_runs:
  assumes "((insert_any n) ^^ m) d d'" "sweep_ok n slots d" "length slots < n"
  shows "sweep_ok n slots d' \<and> m + table_work n d' \<le> table_work n d"
  using assms(1)
proof (induction m arbitrary: d')
  case (Suc m)
  then obtain e where e: "((insert_any n) ^^ m) d e" "insert_any n e d'" by auto
  then show ?case using Suc.IH [OF e(1)] sweep_step [OF e(2) _ assms(3)] by fastforce
qed (use assms(2) in simp)

lemma sweep_start: "sweep_ok n (concat todos) (insert_start n todos)"
proof -
  have "table_ok n [] (replicate n 0)" by (simp add: table_ok_def)
  moreover have "map (pt_todo \<circ> begin_probe n) todos = todos" by (induction todos) (auto simp: begin_probe_def)
  ultimately show ?thesis unfolding sweep_ok_def insert_start_def by (intro exI [of _ "[]"]) (auto simp: begin_ok)
qed

lemma start_work: "table_work n (insert_start n todos) = n * length (concat todos)"
  by (induction todos) (simp_all add: table_work_def insert_start_def begin_work distrib_left)

lemma not_stuck: "\<not> inserted d \<Longrightarrow> \<exists>d'. insert_any n d d'"
  unfolding inserted_def by (metis in_set_conv_nth insert_any.probe)

text \<open>What the finished pass leaves.\<close>

lemma contains_from_path:
  assumes "table_ok n D cells" "length D < n" "j < n" "\<forall>i < j. cells ! probe_cell n s i \<noteq> 0 \<and> cells ! probe_cell n s i \<noteq> stored_key s"
  shows "contains_from cells n (stored_key s) (probe_cell n s j) = Some (stored_key s \<in> stored_key ` set D)"
  using assms(3,4)
proof (induction "n - j" arbitrary: j rule: less_induct)
  case less
  consider "cells ! probe_cell n s j = 0" | "cells ! probe_cell n s j = stored_key s"
    | "cells ! probe_cell n s j \<noteq> 0" "cells ! probe_cell n s j \<noteq> stored_key s" by blast
  then show ?case
  proof cases
    case 1
    then show ?thesis using fill_empty(1) [OF assms(1) less.prems(1) 1 less.prems(2)] by (subst contains_from.simps) simp
  next
    case 2
    have "stored_key s \<in> stored_key ` set D" using assms(1) 2 cell_lt unfolding table_ok_def by (metis stored_key_nonzero(1))
    then show ?thesis using 2 by (subst contains_from.simps) simp
  next
    case 3
    have clear: "\<forall>i < Suc j. cells ! probe_cell n s i \<noteq> 0 \<and> cells ! probe_cell n s i \<noteq> stored_key s"
      using less.prems(2) 3 by (auto simp: less_Suc_eq)
    obtain e where e: "e < n" "cells ! probe_cell n s e = 0" using room [OF assms(1,2)] by blast
    have "\<not> e < Suc j" using clear e(2) by blast
    then have lt: "Suc j < n" using e(1) by linarith
    show ?thesis using 3 less.hyps [OF _ lt clear] lt by (subst contains_from.simps) (simp add: cell_Suc)
  qed
qed

lemma swept:
  assumes "sweep_ok n slots d" "inserted d" "length slots < n"
  shows "dt_dup d \<longleftrightarrow> \<not> distinct (map stored_key slots)"
    and "contains_slot (dt_cells d) n s = Some (stored_key s \<in> stored_key ` set slots)"
proof -
  obtain D where D: "table_ok n D (dt_cells d)" "dt_dup d \<longleftrightarrow> \<not> distinct (map stored_key D)"
    "mset (concat (map pt_todo (dt_threads d))) + mset D = mset slots"
    using assms(1) unfolding sweep_ok_def by blast
  have nil: "concat (map pt_todo (dt_threads d)) = []" using assms(2) unfolding inserted_def by simp
  have m: "mset D = mset slots" using D(3) by (simp only: nil mset.simps add_0)
  then have "mset (map stored_key D) = mset (map stored_key slots)" by simp
  then show "dt_dup d \<longleftrightarrow> \<not> distinct (map stored_key slots)" using D(2) mset_eq_imp_distinct_iff by blast
  have "length D < n" "set D = set slots" using m assms(3) by (metis size_mset, metis set_mset_mset)
  then show "contains_slot (dt_cells d) n s = Some (stored_key s \<in> stored_key ` set slots)"
    using contains_from_path [OF D(1), of 0 s] pos unfolding contains_slot_def by (simp add: cell_0)
qed

end

interpretation dup_table: probing "duplicate_table_size max_seqs" "bit_length (4 * max_seqs - 1)" for max_seqs :: nat
  by unfold_locales (simp add: duplicate_table_size_def next_power_of_two_pow)

section \<open>The validating prologue\<close>

record slot_caps =
  sl_max_seqs :: nat
  sl_cap :: nat
  sl_null :: "int option"
  sl_limit :: int
  sl_seq_capacity :: int
  sl_token_capacity :: int

text \<open>The metadata of a call; \<open>sm_final\<close> is the strided view of the final indices.\<close>

record slot_meta =
  sm_cu :: "int list"
  sm_initial :: "int list"
  sm_final :: "int list"
  sm_ckpt :: "int list"
  sm_offset :: "int list"
  sm_seqs :: int
  sm_tokens :: int

definition bounded_seqs :: "slot_caps \<Rightarrow> slot_meta \<Rightarrow> nat" where
  "bounded_seqs c m = nat (max 0 (min (sm_seqs m) (sl_seq_capacity c)))"

definition is_null :: "slot_caps \<Rightarrow> int \<Rightarrow> bool" where
  "is_null c slot \<longleftrightarrow> sl_null c = Some slot"

definition slot_in_range :: "slot_caps \<Rightarrow> int \<Rightarrow> bool" where
  "slot_in_range c slot \<longleftrightarrow> \<not> (slot < 0 \<or> sl_limit c \<le> slot)"

text \<open>The slots a sequence inserts, and those of a thread's sequences in its order.\<close>

definition seq_writes :: "slot_caps \<Rightarrow> slot_meta \<Rightarrow> nat \<Rightarrow> int list" where
  "seq_writes c m s =
     (if \<not> is_null c (sm_final m ! s) \<and> slot_in_range c (sm_final m ! s) then [sm_final m ! s] else [])
     @ (if 0 < sm_offset m ! s \<and> \<not> is_null c (sm_ckpt m ! s) \<and> slot_in_range c (sm_ckpt m ! s) then [sm_ckpt m ! s] else [])"

definition thread_writes :: "slot_caps \<Rightarrow> slot_meta \<Rightarrow> nat \<Rightarrow> int list" where
  "thread_writes c m t = concat (map (seq_writes c m) (filter (\<lambda>s. s mod PROLOGUE_THREADS = t) [0..<bounded_seqs c m]))"

definition insert_begin :: "slot_caps \<Rightarrow> slot_meta \<Rightarrow> slot_table" where
  "insert_begin c m = insert_start (duplicate_table_size (sl_max_seqs c)) (map (thread_writes c m) [0..<PROLOGUE_THREADS])"

definition bad_counts :: "slot_caps \<Rightarrow> slot_meta \<Rightarrow> bool" where
  "bad_counts c m \<longleftrightarrow>
     sm_seqs m < 0 \<or> sl_seq_capacity c < sm_seqs m \<or> sm_tokens m < 0 \<or> sl_token_capacity c < sm_tokens m
     \<or> sm_cu m ! 0 \<noteq> 0 \<or> sm_cu m ! bounded_seqs c m \<noteq> sm_tokens m"

definition bad_rows :: "slot_meta \<Rightarrow> nat \<Rightarrow> bool" where
  "bad_rows m s \<longleftrightarrow> sm_cu m ! s < 0 \<or> sm_cu m ! Suc s < sm_cu m ! s \<or> sm_tokens m < sm_cu m ! Suc s"

definition bad_slots :: "slot_caps \<Rightarrow> slot_meta \<Rightarrow> nat \<Rightarrow> bool" where
  "bad_slots c m s \<longleftrightarrow>
     \<not> is_null c (sm_initial m ! s) \<and> \<not> slot_in_range c (sm_initial m ! s)
     \<or> \<not> is_null c (sm_final m ! s) \<and> \<not> slot_in_range c (sm_final m ! s)
     \<or> 0 < sm_offset m ! s \<and> \<not> is_null c (sm_ckpt m ! s) \<and> \<not> slot_in_range c (sm_ckpt m ! s)"

definition bad_offset :: "slot_meta \<Rightarrow> nat \<Rightarrow> bool" where
  "bad_offset m s \<longleftrightarrow> max 0 (sm_cu m ! Suc s - sm_cu m ! s) < sm_offset m ! s \<or> 0 < sm_offset m ! s \<and> sm_offset m ! s mod CHUNK_TOKENS \<noteq> 0"

text \<open>A sequence whose running state has nowhere to rest between two windows.\<close>

definition bad_span :: "slot_caps \<Rightarrow> slot_meta \<Rightarrow> nat \<Rightarrow> prologue \<Rightarrow> nat \<Rightarrow> bool" where
  "bad_span c m window P s \<longleftrightarrow>
     0 < pg_counts P ! s
     \<and> pg_rank_of P ! s div window \<noteq> (pg_bands P ! (pg_counts P ! s - 1) + pg_rank_of P ! s) div window
     \<and> is_null c (sm_final m ! s)"

definition initial_conflict :: "slot_caps \<Rightarrow> slot_meta \<Rightarrow> slot_table \<Rightarrow> nat \<Rightarrow> bool option" where
  "initial_conflict c m d s =
     (if \<not> is_null c (sm_initial m ! s) \<and> slot_in_range c (sm_initial m ! s) \<and> sm_initial m ! s \<noteq> sm_final m ! s
      then contains_slot (dt_cells d) (duplicate_table_size (sl_max_seqs c)) (sm_initial m ! s) else Some False)"

definition error_word :: "bool \<Rightarrow> bool \<Rightarrow> bool \<Rightarrow> bool \<Rightarrow> int" where
  "error_word duplicate counts slots offsets =
     of_bool duplicate OR push_bit 1 (of_bool counts) OR push_bit 2 (of_bool slots) OR push_bit 3 (of_bool offsets)"

text \<open>The published code, from the table the insertion pass left; \<open>None\<close> when a search never returns.\<close>

definition validate_code :: "slot_caps \<Rightarrow> slot_meta \<Rightarrow> nat \<Rightarrow> nat \<Rightarrow> prologue \<Rightarrow> slot_table \<Rightarrow> int option" where
  "validate_code c m window launched_tiles P d =
     map_option (\<lambda>conflicts.
        error_word (dt_dup d \<or> list_ex id conflicts)
          (bad_counts c m \<or> list_ex (bad_rows m) [0..<bounded_seqs c m] \<or> launched_tiles < pg_total P)
          (list_ex (\<lambda>s. bad_slots c m s \<or> bad_span c m window P s) [0..<bounded_seqs c m])
          (list_ex (bad_offset m) [0..<bounded_seqs c m]))
       (those (map (initial_conflict c m d) [0..<bounded_seqs c m]))"

text \<open>The contract: no slot is written twice, and none is read as another's initial state.\<close>

definition slots_disjoint :: "slot_caps \<Rightarrow> slot_meta \<Rightarrow> bool" where
  "slots_disjoint c m \<longleftrightarrow>
     distinct (concat (map (seq_writes c m) [0..<bounded_seqs c m]))
     \<and> (\<forall>s < bounded_seqs c m. \<not> is_null c (sm_initial m ! s) \<and> slot_in_range c (sm_initial m ! s) \<and> sm_initial m ! s \<noteq> sm_final m ! s
          \<longrightarrow> (\<forall>s' < bounded_seqs c m. sm_initial m ! s \<notin> set (seq_writes c m s')))"

definition call_accepted :: "slot_caps \<Rightarrow> slot_meta \<Rightarrow> nat \<Rightarrow> nat \<Rightarrow> prologue \<Rightarrow> bool" where
  "call_accepted c m window launched_tiles P \<longleftrightarrow>
     slots_disjoint c m \<and> \<not> bad_counts c m \<and> pg_total P \<le> launched_tiles
     \<and> (\<forall>s < bounded_seqs c m. \<not> bad_rows m s \<and> \<not> bad_slots c m s \<and> \<not> bad_span c m window P s \<and> \<not> bad_offset m s)"

section \<open>Facts about the pass\<close>

lemma error_word_zero: "error_word a b cc e = 0 \<longleftrightarrow> \<not> a \<and> \<not> b \<and> \<not> cc \<and> \<not> e"
  by (cases a; cases b; cases cc; cases e) (simp_all add: error_word_def)

lemma error_word_odd: "odd (error_word a b cc e) \<longleftrightarrow> a"
  by (cases a; cases b; cases cc; cases e) (simp_all add: error_word_def)

lemma those_total: "(\<And>x. x \<in> set xs \<Longrightarrow> f x = Some (g x)) \<Longrightarrow> those (map f xs) = Some (map g xs)"
  by (induction xs) simp_all

lemma mset_by_thread:
  assumes "0 < (T::nat)"
  shows "mset (concat (map (\<lambda>t. concat (map f (filter (\<lambda>s. s mod T = t) xs))) [0..<T])) = mset (concat (map f xs))"
proof (induction xs)
  case (Cons x xs)
  let ?A = "\<lambda>t. mset (concat (map f (filter (\<lambda>s. s mod T = t) xs)))"
  have "mset (concat (map (\<lambda>t. concat (map f (filter (\<lambda>s. s mod T = t) (x # xs)))) [0..<T]))
      = (\<Sum>t \<in> {0..<T}. (if t = x mod T then mset (f x) else {#}) + ?A t)"
    by (simp add: mset_concat comp_def interv_sum_list_conv_sum_set_nat) (rule sum.cong, auto simp: mset_concat)
  also have "\<dots> = mset (f x) + (\<Sum>t \<in> {0..<T}. ?A t)" using assms by (simp add: sum.distrib)
  also have "(\<Sum>t \<in> {0..<T}. ?A t) = mset (concat (map f xs))"
    using Cons by (simp add: mset_concat comp_def interv_sum_list_conv_sum_set_nat)
  finally show ?case by simp
qed (simp add: mset_concat comp_def)

lemma seq_writes_length: "length (concat (map (seq_writes c m) xs)) \<le> 2 * length xs"
  by (induction xs) (auto simp: seq_writes_def)

lemma seq_writes_range: "x \<in> set (seq_writes c m s) \<Longrightarrow> slot_in_range c x"
  by (auto simp: seq_writes_def split: if_splits)

definition all_writes :: "slot_caps \<Rightarrow> slot_meta \<Rightarrow> int list" where
  "all_writes c m = concat (map (thread_writes c m) [0..<PROLOGUE_THREADS])"

lemma all_writes_mset: "mset (all_writes c m) = mset (concat (map (seq_writes c m) [0..<bounded_seqs c m]))"
  unfolding all_writes_def thread_writes_def by (rule mset_by_thread) (simp add: PROLOGUE_THREADS_def)

lemma all_writes_room:
  assumes "0 < sl_max_seqs c" "bounded_seqs c m \<le> sl_max_seqs c"
  shows "length (all_writes c m) \<le> 2 * sl_max_seqs c" "length (all_writes c m) < duplicate_table_size (sl_max_seqs c)"
proof -
  have "length (all_writes c m) = length (concat (map (seq_writes c m) [0..<bounded_seqs c m]))"
    using all_writes_mset by (metis size_mset)
  then show le: "length (all_writes c m) \<le> 2 * sl_max_seqs c"
    using seq_writes_length [of c m "[0..<bounded_seqs c m]"] assms(2) by simp
  show "length (all_writes c m) < duplicate_table_size (sl_max_seqs c)"
    using le next_power_of_two_le [of "4 * sl_max_seqs c"] assms(1) by (simp add: duplicate_table_size_def)
qed

lemma insert_begin_ok: "sweep_ok (duplicate_table_size (sl_max_seqs c)) (all_writes c m) (insert_begin c m)"
  unfolding insert_begin_def all_writes_def by (rule dup_table.sweep_start)

text \<open>
  However the threads interleave, the insertion pass ends: a run has at most as many steps as cells times slots, and
  a state with a slot left to insert has a next step.
\<close>

text \<open>
  C16. However the threads of the validating prologue interleave, the insertion of the written
  slots ends: a run has at most table size times number of slots steps, and a state with a
  slot left to insert has a next step.
\<close>

theorem insert_pass_terminates:
  assumes "0 < sl_max_seqs c" "bounded_seqs c m \<le> sl_max_seqs c"
    and "((insert_any (duplicate_table_size (sl_max_seqs c))) ^^ steps) (insert_begin c m) d"
  shows "steps \<le> duplicate_table_size (sl_max_seqs c) * (2 * sl_max_seqs c)
    \<and> (inserted d \<or> (\<exists>d'. insert_any (duplicate_table_size (sl_max_seqs c)) d d'))"
proof -
  note room = all_writes_room [OF assms(1,2)]
  have "table_work (duplicate_table_size (sl_max_seqs c)) (insert_begin c m) = duplicate_table_size (sl_max_seqs c) * length (all_writes c m)"
    unfolding insert_begin_def all_writes_def by (rule dup_table.start_work)
  also have "\<dots> \<le> duplicate_table_size (sl_max_seqs c) * (2 * sl_max_seqs c)" using room(1) by (rule mult_le_mono2)
  finally show ?thesis
    using dup_table.sweep_runs [OF assms(3) insert_begin_ok room(2)] dup_table.not_stuck [of d] by fastforce
qed

lemma stored_key_inj_on:
  assumes "sl_limit c \<le> 2 ^ 31"
  shows "inj_on stored_key {x. slot_in_range c x}"
  using assms stored_key_inj by (auto simp: inj_on_def slot_in_range_def)

text \<open>
  The code a validating prologue publishes is the same for every interleaving of its threads: its searches return,
  bit 0 tells exactly whether two writes share a slot or a write hits a slot that is read, and it is zero exactly when
  the whole contract of the call holds.
\<close>


section \<open>What the recurrence needs\<close>

text \<open>The call the recurrence sees: one checkpoint per sequence.\<close>

definition one_ckpt_call :: "slot_caps \<Rightarrow> slot_meta \<Rightarrow> 's \<Rightarrow> 's kda_call" where
  "one_ckpt_call c m zero =
     \<lparr>kl_cu = sm_cu m, kl_initial = sm_initial m, kl_final = sm_final m,
      kl_ckpts = map (\<lambda>s. [(sm_ckpt m ! s, sm_offset m ! s)]) [0..<bounded_seqs c m], kl_null = sl_null c, kl_zero = zero\<rparr>"

lemma distinct_concat_parts:
  "distinct (concat (map f [0..<n])) \<Longrightarrow> s < n \<Longrightarrow> distinct (f s) \<and> (\<forall>s' < n. s \<noteq> s' \<longrightarrow> set (f s) \<inter> set (f s') = {})"
proof (induction n)
  case (Suc n)
  have d: "distinct (concat (map f [0..<n]))" "distinct (f n)" using Suc.prems(1) by simp_all
  have "(\<Union>a < n. set (f a)) \<inter> set (f n) = {}" using Suc.prems(1) by (simp add: atLeast0LessThan)
  then have far: "set (f a) \<inter> set (f n) = {}" if "a < n" for a using that by blast
  show ?case using d far Suc.IH [OF d(1)] Suc.prems(2) by (cases "s = n") (auto simp: less_Suc_eq Int_commute)
qed simp

lemma one_ckpt_sets:
  assumes "s < bounded_seqs c m"
  shows "live_ckpts (one_ckpt_call c m z) s = (if 0 < sm_offset m ! s \<and> \<not> is_null c (sm_ckpt m ! s) then {(sm_ckpt m ! s, sm_offset m ! s)} else {})"
    and "final_slots (one_ckpt_call c m z) s = (if is_null c (sm_final m ! s) then {} else {sm_final m ! s})"
  using assms by (auto simp: live_ckpts_def final_slots_def one_ckpt_call_def is_null_def)

lemma one_ckpt_writes:
  assumes "s < bounded_seqs c m" "\<not> bad_slots c m s"
  shows "write_slots (one_ckpt_call c m z) s = set (seq_writes c m s)"
  using assms(2) unfolding write_slots_def one_ckpt_sets [OF assms(1)] by (auto simp: seq_writes_def bad_slots_def)

lemma offset_within_tiles:
  assumes "\<not> bad_offset m s" "0 < sm_offset m ! s" "max 0 (sm_cu m ! Suc s - sm_cu m ! s) \<le> CHUNK_TOKENS * int cap"
  shows "sm_offset m ! s \<le> CHUNK_TOKENS * int (tile_count cap (sm_cu m) s)"
proof -
  let ?len = "max 0 (sm_cu m ! Suc s - sm_cu m ! s)"
  obtain q where q: "sm_offset m ! s = 16 * q" using assms(1,2) by (auto simp: bad_offset_def CHUNK_TOKENS_def)
  have le: "16 * q \<le> ?len" using assms(1) unfolding bad_offset_def q by linarith
  have "q \<le> (?len + 15) div 16" using le by linarith
  moreover have "q \<le> int cap" using le assms(3) by (simp add: CHUNK_TOKENS_def)
  ultimately have "q \<le> int (min (nat ((?len + 15) div 16)) cap)" by linarith
  then show ?thesis by (simp add: q tile_count_def CHUNK_TOKENS_def)
qed

text \<open>
  An accepted call meets every condition under which the recurrence is correct: exports at tile ends, no slot
  written twice or read after it is written, and a final slot for every sequence that spans windows.
\<close>

text \<open>
  C18. A call the validation accepts meets every condition under which the recurrence is
  correct: exports at tile ends, no slot written twice or read after it is written, and a
  final slot for every sequence that spans windows.
\<close>

theorem accepted_call_is_sound:
  assumes "call_accepted c m window launched_tiles P" "sl_token_capacity c \<le> CHUNK_TOKENS * int (sl_cap c)"
    and "sl_seq_capacity c \<le> int (sl_max_seqs c)"
    and "P = run_prologue (sl_max_seqs c) (sl_cap c) window nwindows (sm_cu m) (bounded_seqs c m) order"
  shows "call_ok (one_ckpt_call c m zero) (bounded_seqs c m) (sl_cap c)
    \<and> spans_ok (one_ckpt_call c m zero) (bounded_seqs c m) (sl_cap c) window P \<and> int (bounded_seqs c m) = sm_seqs m"
proof -
  define k where "k = one_ckpt_call c m zero"
  define n where "n = bounded_seqs c m"
  have ok: "slots_disjoint c m" "\<not> bad_counts c m"
    using assms(1) unfolding call_accepted_def by blast+
  have row: "\<not> bad_rows m s" "\<not> bad_slots c m s" "\<not> bad_span c m window P s" "\<not> bad_offset m s" if "s < n" for s
    using assms(1) that unfolding call_accepted_def n_def by blast+
  have counts: "0 \<le> sm_seqs m" "sm_seqs m \<le> sl_seq_capacity c" "0 \<le> sm_tokens m" "sm_tokens m \<le> sl_token_capacity c"
    using ok(2) unfolding bad_counts_def de_Morgan_disj not_less by blast+
  then have live: "int n = sm_seqs m" unfolding n_def bounded_seqs_def by linarith
  then have max: "n \<le> sl_max_seqs c" using counts assms(3) by linarith
  note sets = one_ckpt_sets [of _ c m zero, folded n_def k_def] and writes = one_ckpt_writes [of _ c m zero, folded n_def k_def]
  have d: "distinct (concat (map (seq_writes c m) [0..<n]))" using ok(1) by (simp add: slots_disjoint_def n_def)
  note parts = distinct_concat_parts [OF d]
  have reads: "kl_null k = Some (sm_initial m ! s) \<or> sm_initial m ! s \<notin> set (seq_writes c m s')"
    if s: "s < n" "s' < n" "s \<noteq> s' \<or> sm_initial m ! s \<noteq> sm_final m ! s" for s s'
  proof (cases "is_null c (sm_initial m ! s)")
    case False
    then have r: "slot_in_range c (sm_initial m ! s)" using row(2) [OF s(1)] by (simp add: bad_slots_def)
    show ?thesis
    proof (cases "sm_initial m ! s = sm_final m ! s")
      case True
      then have "sm_initial m ! s \<in> set (seq_writes c m s)" using False r by (simp add: seq_writes_def)
      then show ?thesis using parts [OF s(1)] s(2,3) True by blast
    next
      case distinct: False
      then show ?thesis using ok(1) False r s(1,2) unfolding slots_disjoint_def n_def [symmetric] by blast
    qed
  qed (simp add: k_def one_ckpt_call_def is_null_def)
  have initial: "kl_initial k ! s = sm_initial m ! s" for s by (simp add: k_def one_ckpt_call_def)
  have cu: "kl_cu k = sm_cu m" by (simp add: k_def one_ckpt_call_def)
  have slots: "slots_ok k s (tile_count (sl_cap c) (sm_cu m) s)" if s: "s < n" for s
  proof -
    have "sm_cu m ! Suc s - sm_cu m ! s \<le> sm_tokens m" using row(1) [OF s] by (simp add: bad_rows_def)
    then have len: "max 0 (sm_cu m ! Suc s - sm_cu m ! s) \<le> CHUNK_TOKENS * int (sl_cap c)"
      using counts assms(2) by linarith
    have "x \<notin> final_slots k s \<and> (kl_null k = Some (kl_initial k ! s) \<or> x \<noteq> kl_initial k ! s)
        \<and> off mod CHUNK_TOKENS = 0 \<and> off \<le> CHUNK_TOKENS * int (tile_count (sl_cap c) (sm_cu m) s)"
      if x: "(x, off) \<in> live_ckpts k s" for x off
    proof -
      have e: "x = sm_ckpt m ! s" "off = sm_offset m ! s" "0 < sm_offset m ! s" "\<not> is_null c x"
        using x sets(1) [OF s] by (auto split: if_splits)
      have r: "slot_in_range c x" using row(2) [OF s] e by (simp add: bad_slots_def)
      have "\<not> is_null c (sm_final m ! s) \<Longrightarrow> slot_in_range c (sm_final m ! s)" using row(2) [OF s] by (simp add: bad_slots_def)
      then have nf: "x \<notin> final_slots k s"
        using conjunct1 [OF parts [OF s]] e r sets(2) [OF s] by (auto simp: seq_writes_def)
      moreover have "kl_null k = Some (kl_initial k ! s) \<or> x \<noteq> kl_initial k ! s"
      proof (cases "sm_initial m ! s = sm_final m ! s")
        case True
        then show ?thesis using nf sets(2) [OF s] by (auto simp: initial k_def one_ckpt_call_def is_null_def split: if_splits)
      next
        case False
        have "x \<in> set (seq_writes c m s)" using e r by (simp add: seq_writes_def)
        then show ?thesis using reads [OF s s] False unfolding initial by blast
      qed
      ultimately show ?thesis using row(4) [OF s] offset_within_tiles [OF row(4) [OF s] e(3) len] e by (simp add: bad_offset_def)
    qed
    then show ?thesis using sets(1) [OF s] unfolding slots_ok_def by (auto split: if_splits)
  qed
  have "write_slots k s \<inter> write_slots k s' = {} \<and> (kl_null k = Some (kl_initial k ! s) \<or> kl_initial k ! s \<notin> write_slots k s')"
    if "s < n" "s' < n" "s \<noteq> s'" for s s'
    using parts [OF that(1)] reads that unfolding writes [OF that(1) row(2) [OF that(1)]] writes [OF that(2) row(2) [OF that(2)]] initial by blast
  then have "call_ok k n (sl_cap c)" using slots unfolding call_ok_def cu by blast
  moreover have "spans_ok k n (sl_cap c) window P"
  proof -
    have "pg_counts P ! s = tile_count (sl_cap c) (sm_cu m) s" if "s < n" for s
      using that max unfolding assms(4) by (simp add: run_prologue_def seq_counts_def Let_def n_def split: prod.splits)
    then show ?thesis
      using row(3) sets(2) unfolding spans_ok_def Let_def cu by (auto simp: bad_span_def)
  qed
  ultimately show ?thesis using live by (simp add: k_def n_def)
qed

section \<open>An accepted call\<close>

context probing
begin

lemma sweep_finishes:
  assumes "length slots < n" "sweep_ok n slots d"
  shows "\<exists>steps d'. ((insert_any n) ^^ steps) d d' \<and> inserted d'"
  using assms(2)
proof (induction "table_work n d" arbitrary: d rule: less_induct)
  case less
  show ?case
  proof (cases "inserted d")
    case True
    then show ?thesis by (intro exI [of _ 0]) auto
  next
    case False
    then obtain e where e: "insert_any n d e" using not_stuck by blast
    obtain steps d' where "((insert_any n) ^^ steps) e d'" "inserted d'"
      using less.hyps [of e] sweep_step [OF e less.prems assms(1)] by blast
    then show ?thesis using e relpowp_Suc_I2 [of "insert_any n" d e steps d'] by blast
  qed
qed

end

text \<open>Two sequences of 40 and 17 rows; the first exports after 32 rows.\<close>

definition demo_caps :: slot_caps where
  "demo_caps = \<lparr>sl_max_seqs = 2, sl_cap = 8, sl_null = Some 0, sl_limit = 8, sl_seq_capacity = 2, sl_token_capacity = 100\<rparr>"

definition demo_meta :: slot_meta where
  "demo_meta = \<lparr>sm_cu = [0, 40, 57], sm_initial = [5, 0], sm_final = [1, 3], sm_ckpt = [6, 0], sm_offset = [32, 0], sm_seqs = 2, sm_tokens = 57\<rparr>"

lemma demo_bounded: "bounded_seqs demo_caps demo_meta = 2" by code_simp

lemma demo_size: "duplicate_table_size 2 = 8" "sl_max_seqs demo_caps = 2" "sl_cap demo_caps = 8"
    "sl_token_capacity demo_caps = 100" "sl_seq_capacity demo_caps = 2"
  by code_simp+

lemma demo_finishes: "\<exists>steps d. ((insert_any 8) ^^ steps) (insert_begin demo_caps demo_meta) d \<and> inserted d"
  using dup_table.sweep_finishes [OF all_writes_room(2) insert_begin_ok, of demo_caps demo_meta]
  unfolding demo_size demo_bounded by simp

lemma demo_order: "distinct [1, 0 :: nat]" "set [1, 0 :: nat] = {..<2}"
  by auto

lemma demo_total: "pg_total (run_prologue 2 8 2 3 (sm_cu demo_meta) 2 [1, 0]) = 5"
proof -
  have "band_start (tile_count 8 (sm_cu demo_meta)) 2 8 = 5" unfolding band_start_def alive_count by code_simp
  then show ?thesis using prologue_run.total [OF prologue_run.intro [of 2 2 2 "[1, 0]", OF _ _ demo_order], of 8 3 "sm_cu demo_meta"] by simp
qed

lemma demo_accepted: "call_accepted demo_caps demo_meta 2 6 (run_prologue 2 8 2 3 (sm_cu demo_meta) 2 [1, 0])"
proof -
  have two: "(s::nat) < 2 \<Longrightarrow> s = 0 \<or> s = 1" for s by arith
  have w: "seq_writes demo_caps demo_meta 0 = [1, 6]" "seq_writes demo_caps demo_meta 1 = [3]" by code_simp+
  have d: "concat (map (seq_writes demo_caps demo_meta) [0..<2]) = [1, 6, 3]" by code_simp
  have "slots_disjoint demo_caps demo_meta"
    unfolding slots_disjoint_def demo_bounded d
  proof (intro conjI allI impI)
    fix s s' :: nat
    assume "s < 2" "s' < 2" and n: "\<not> is_null demo_caps (sm_initial demo_meta ! s) \<and> slot_in_range demo_caps (sm_initial demo_meta ! s)
      \<and> sm_initial demo_meta ! s \<noteq> sm_final demo_meta ! s"
    have "s = 0" using two [OF \<open>s < 2\<close>] n by (auto simp: is_null_def demo_caps_def demo_meta_def)
    then show "sm_initial demo_meta ! s \<notin> set (seq_writes demo_caps demo_meta s')"
      using two [OF \<open>s' < 2\<close>] w by (auto simp: demo_meta_def)
  qed simp
  moreover have "\<not> bad_counts demo_caps demo_meta" by code_simp
  moreover have "\<not> bad_rows demo_meta s \<and> \<not> bad_slots demo_caps demo_meta s \<and> \<not> bad_offset demo_meta s \<and> \<not> is_null demo_caps (sm_final demo_meta ! s)"
    if "s < 2" for s
    using two [OF that] by (elim disjE; hypsubst; code_simp)
  ultimately show ?thesis using demo_total unfolding call_accepted_def demo_bounded by (simp add: bad_span_def)
qed

theorem insert_pass_terminates_witness:
  "\<exists>steps d. ((insert_any 8) ^^ steps) (insert_begin demo_caps demo_meta) d \<and> inserted d \<and> steps \<le> 32"
proof -
  obtain steps d where run: "((insert_any 8) ^^ steps) (insert_begin demo_caps demo_meta) d" "inserted d" using demo_finishes by blast
  moreover have "steps \<le> 8 * (2 * 2)"
    using insert_pass_terminates [of demo_caps demo_meta steps d] run unfolding demo_size demo_bounded by simp
  ultimately show ?thesis by (intro exI [of _ steps] exI [of _ d]) simp
qed


theorem accepted_call_is_sound_witness:
  "call_ok (one_ckpt_call demo_caps demo_meta (0 :: int)) 2 8"
  using accepted_call_is_sound [OF demo_accepted, of 3 "[1, 0]" 0] unfolding demo_size demo_bounded CHUNK_TOKENS_def by auto

end
