(* ===== verification/Kda_Pipeline.thy ===== *)
theory Kda_Pipeline
  imports Kda_Slots
begin

text \<open>
  The host side of the checkpointed KDA prefill (\<open>src/src/tp4/glm53_kda_ckpt.py\<close>): \<open>make_checkpoints\<close> and the tables it hands to
  the recurrence, the shape checks, the launch cache with its capture guard, the conv history export, and the window
  pipeline of \<open>run_prefill_ckpt\<close> as the commands it enqueues on the main and the side stream. How long a command takes is
  free: an execution is any assignment of start and end times that the stream and event rules of CUDA allow.
\<close>

section \<open>The checkpoint plan of a call\<close>

definition MAX_CHECKPOINTS :: int where "MAX_CHECKPOINTS = 8"

text \<open>\<open>ck_conv\<close>: the rows, slots and columns of the conv export, as triples.\<close>

record checkpoints =
  ck_slots :: "int list list"
  ck_offsets :: "int list list"
  ck_max :: int
  ck_conv :: "(int \<times> int \<times> int) list option"

definition conv_triples :: "int \<Rightarrow> int \<Rightarrow> int \<Rightarrow> (int \<times> int \<times> int) list" where
  "conv_triples start offset slot = map (\<lambda>j. (start + offset - 3 + j, slot, j)) [0, 1, 2]"

text \<open>The pairs of one sequence: its table entries and its conv triples.\<close>

fun ckpt_pairs ::
  "int \<Rightarrow> int list option \<Rightarrow> bool \<Rightarrow> nat \<Rightarrow> int list \<Rightarrow> (int \<times> int) list \<Rightarrow> ((int \<times> int) list \<times> (int \<times> int \<times> int) list) py" where
  "ckpt_pairs null starts with_conv s seen [] = Inr ([], [])"
| "ckpt_pairs null starts with_conv s seen ((offset, slot) # pairs) =
     py_guard (offset \<le> 0 \<or> offset mod CHUNK_TOKENS \<noteq> 0 \<or> slot = null \<or> slot \<in> set seen) ValueError
       (py_guard (with_conv \<and> starts = None) ValueError
         (py_guard (with_conv \<and> length (the starts) \<le> s) IndexError
           (py_bind (ckpt_pairs null starts with_conv s (slot # seen) pairs) (\<lambda>(entries, conv).
              Inr ((slot, offset) # entries, (if with_conv then conv_triples (the starts ! s) offset slot else []) @ conv)))))"

fun ckpt_seqs ::
  "nat \<Rightarrow> int \<Rightarrow> int list option \<Rightarrow> bool \<Rightarrow> nat \<Rightarrow> (int \<times> int) list list \<Rightarrow> ((int \<times> int) list list \<times> (int \<times> int \<times> int) list) py" where
  "ckpt_seqs m null starts with_conv s [] = Inr ([], [])"
| "ckpt_seqs m null starts with_conv s (pairs # rest) =
     py_guard (m < length pairs) ValueError
       (py_bind (ckpt_pairs null starts with_conv s [] pairs) (\<lambda>(entries, conv).
          py_bind (ckpt_seqs m null starts with_conv (Suc s) rest) (\<lambda>(rows, convs).
            Inr ((entries @ replicate (m - length entries) (null, 0)) # rows, conv @ convs))))"

definition make_checkpoints :: "(int \<times> int) list list \<Rightarrow> int \<Rightarrow> int \<Rightarrow> int list option \<Rightarrow> bool \<Rightarrow> checkpoints py" where
  "make_checkpoints per_seq m null starts with_conv =
     py_guard (\<not> (1 \<le> m \<and> m \<le> MAX_CHECKPOINTS)) ValueError
       (py_bind (ckpt_seqs (nat m) null starts with_conv 0 per_seq) (\<lambda>(rows, conv).
          Inr \<lparr>ck_slots = map (map fst) rows, ck_offsets = map (map snd) rows, ck_max = m,
               ck_conv = (if with_conv \<and> conv \<noteq> [] then Some conv else None)\<rparr>))"

text \<open>The conv rows of the checkpoints, written one triple after the other.\<close>

definition export_conv_history :: "checkpoints \<Rightarrow> (int \<Rightarrow> 'r) \<Rightarrow> (int \<Rightarrow> int \<Rightarrow> 'r) \<Rightarrow> int \<Rightarrow> int \<Rightarrow> 'r" where
  "export_conv_history ck x conv_state =
     (case ck_conv ck of None \<Rightarrow> conv_state
      | Some triples \<Rightarrow> fold (\<lambda>(row, slot, col) st. st(slot := (st slot)(col := x row))) triples conv_state)"

section \<open>The host's checks\<close>

record kda_tensor =
  kt_shape :: "int list"
  kt_dtype :: string
  kt_contiguous :: bool
  kt_device :: string

record kda_binding =
  kb_validation :: string
  kb_seq_capacity :: int
  kb_index_dtype :: string
  kb_device :: string
  kb_max_windows :: int

definition check_tensor :: "kda_binding \<Rightarrow> int \<Rightarrow> kda_tensor \<Rightarrow> string \<Rightarrow> unit py" where
  "check_tensor b m t dtype =
     py_guard (kt_shape t \<noteq> [kb_seq_capacity b, m] \<or> kt_dtype t \<noteq> dtype \<or> \<not> kt_contiguous t) ValueError
       (py_guard (kt_device t \<noteq> kb_device b) ValueError (Inr ()))"

definition check_checkpoints :: "kda_binding \<Rightarrow> int \<Rightarrow> kda_tensor \<Rightarrow> kda_tensor \<Rightarrow> unit py" where
  "check_checkpoints b m slots offsets =
     py_guard (kb_validation b \<noteq> ''trusted'') ValueError
       (py_guard (\<not> (1 \<le> m \<and> m \<le> MAX_CHECKPOINTS)) ValueError
         (py_bind (check_tensor b m slots (kb_index_dtype b)) (\<lambda>_. check_tensor b m offsets ''int32'')))"

text \<open>The launch cache: a stream capture may only launch what was compiled and run before; \<open>frozen\<close> stops new compiles.\<close>

record 'k kda_cache =
  kc_compiled :: "'k list"
  kc_warmed :: "'k list"

definition launch_recurrence_ckpt :: "bool \<Rightarrow> bool \<Rightarrow> 'k \<Rightarrow> 'k kda_cache \<Rightarrow> unit py \<times> 'k kda_cache" where
  "launch_recurrence_ckpt capturing frozen key st =
     (if capturing \<and> (key \<notin> set (kc_compiled st) \<or> key \<notin> set (kc_warmed st)) then (Inl RuntimeError, st)
      else if key \<notin> set (kc_compiled st) \<and> frozen then (Inl RuntimeError, st)
      else let st = (if key \<in> set (kc_compiled st) then st else st\<lparr>kc_compiled := key # kc_compiled st\<rparr>)
           in (Inr (), if capturing \<or> key \<in> set (kc_warmed st) then st else st\<lparr>kc_warmed := key # kc_warmed st\<rparr>))"

section \<open>The two streams\<close>

datatype kda_stream = Main | Side

datatype kda_event = Fork | Prepared nat | Consumed nat

datatype kda_op = Prologue | Prepare nat | Recur nat | ConvHistory | Record kda_event | Wait kda_event

type_synonym kda_cmd = "kda_stream \<times> kda_op"

definition enqueue_prepare :: "nat \<Rightarrow> kda_cmd list" where
  "enqueue_prepare w =
     (if 2 \<le> w then [(Side, Wait (Consumed (w - 2)))] else []) @ [(Side, Prepare w), (Side, Record (Prepared w))]"

definition window_cmds :: "nat \<Rightarrow> nat \<Rightarrow> kda_cmd list" where
  "window_cmds launched w =
     [(Main, Wait (Prepared w)), (Main, Recur w), (Main, Record (Consumed w))]
     @ (if w + 1 < launched then enqueue_prepare (w + 1) else [])"

definition prefill_trace :: "nat \<Rightarrow> bool \<Rightarrow> kda_cmd list" where
  "prefill_trace launched conv =
     [(Main, Prologue), (Main, Record Fork), (Side, Wait Fork)] @ enqueue_prepare 0
     @ concat (map (window_cmds launched) [0..<launched]) @ (if conv then [(Main, ConvHistory)] else [])"

definition run_prefill_ckpt :: "kda_binding \<Rightarrow> int \<Rightarrow> kda_tensor \<Rightarrow> kda_tensor \<Rightarrow> int \<Rightarrow> bool \<Rightarrow> kda_cmd list py" where
  "run_prefill_ckpt b m slots offsets windows conv =
     py_bind (check_checkpoints b m slots offsets) (\<lambda>_.
       py_guard (windows < 1 \<or> kb_max_windows b < windows) ValueError (Inr (prefill_trace (nat windows) conv)))"

section \<open>What the tables ask for\<close>

lemma ckpt_pairs_result:
  assumes "ckpt_pairs null starts with_conv s seen pairs = Inr (entries, conv)"
  shows "entries = map (\<lambda>(offset, slot). (slot, offset)) pairs"
    and "conv = (if with_conv then concat (map (\<lambda>(offset, slot). conv_triples (the starts ! s) offset slot) pairs) else [])"
    and "\<forall>(offset, slot) \<in> set pairs. 0 < offset \<and> offset mod CHUNK_TOKENS = 0 \<and> slot \<noteq> null"
  using assms by (induction null starts with_conv s seen pairs arbitrary: entries conv rule: ckpt_pairs.induct) auto

lemma ckpt_pairs_distinct:
  assumes "ckpt_pairs null starts with_conv s seen pairs = Inr r"
  shows "distinct (map snd pairs) \<and> (\<forall>p \<in> set pairs. snd p \<notin> set seen)"
  using assms by (induction null starts with_conv s seen pairs arbitrary: r rule: ckpt_pairs.induct) auto

lemma ckpt_seqs_result:
  assumes "ckpt_seqs m null starts with_conv s per_seq = Inr (rows, conv)"
  shows "length rows = length per_seq
    \<and> (\<forall>i < length per_seq. rows ! i = map (\<lambda>(offset, slot). (slot, offset)) (per_seq ! i) @ replicate (m - length (per_seq ! i)) (null, 0)
        \<and> distinct (map snd (per_seq ! i)) \<and> (\<forall>(offset, slot) \<in> set (per_seq ! i). 0 < offset \<and> offset mod CHUNK_TOKENS = 0 \<and> slot \<noteq> null))
    \<and> (with_conv \<longrightarrow> set conv = (\<Union>i < length per_seq. \<Union>(offset, slot) \<in> set (per_seq ! i). set (conv_triples (the starts ! (s + i)) offset slot)))"
  using assms
proof (induction per_seq arbitrary: s rows conv)
  case (Cons pairs rest)
  obtain entries cv rows' convs where r: "ckpt_pairs null starts with_conv s [] pairs = Inr (entries, cv)"
    "ckpt_seqs m null starts with_conv (Suc s) rest = Inr (rows', convs)"
    "rows = (entries @ replicate (m - length entries) (null, 0)) # rows'" "conv = cv @ convs"
    using Cons.prems by auto
  note one = ckpt_pairs_result [OF r(1)] ckpt_pairs_distinct [OF r(1)]
  note IH = Cons.IH [OF r(2)]
  have sp: "(\<Union>i < length (pairs # rest). f i) = f 0 \<union> (\<Union>i < length rest. f (Suc i))" for f :: "nat \<Rightarrow> (int \<times> int \<times> int) set"
    by (simp add: lessThan_Suc_eq_insert_0)
  show ?case
  proof (intro conjI)
    show "length rows = length (pairs # rest)" using IH r(3) by simp
    show "\<forall>i < length (pairs # rest). rows ! i = map (\<lambda>(offset, slot). (slot, offset)) ((pairs # rest) ! i) @ replicate (m - length ((pairs # rest) ! i)) (null, 0)
        \<and> distinct (map snd ((pairs # rest) ! i)) \<and> (\<forall>(offset, slot) \<in> set ((pairs # rest) ! i). 0 < offset \<and> offset mod CHUNK_TOKENS = 0 \<and> slot \<noteq> null)"
    proof (intro allI impI)
      fix i assume "i < length (pairs # rest)"
      then show "rows ! i = map (\<lambda>(offset, slot). (slot, offset)) ((pairs # rest) ! i) @ replicate (m - length ((pairs # rest) ! i)) (null, 0)
        \<and> distinct (map snd ((pairs # rest) ! i)) \<and> (\<forall>(offset, slot) \<in> set ((pairs # rest) ! i). 0 < offset \<and> offset mod CHUNK_TOKENS = 0 \<and> slot \<noteq> null)"
        using conjunct1 [OF conjunct2 [OF IH]] conjunct1 [OF one(4)] one(1,3) unfolding r(3) by (cases i) simp_all
    qed
    show "with_conv \<longrightarrow> set conv = (\<Union>i < length (pairs # rest). \<Union>(offset, slot) \<in> set ((pairs # rest) ! i). set (conv_triples (the starts ! (s + i)) offset slot))"
      using IH one(2) unfolding sp r(4) by auto
  qed
qed simp

lemma export_fold_at:
  assumes "(row, slot, col) \<in> set ts" "\<forall>(row', slot', col') \<in> set ts. slot' = slot \<and> col' = col \<longrightarrow> row' = row"
  shows "fold (\<lambda>(row, slot, col) st. st(slot := (st slot)(col := x row))) ts st slot col = x row"
  using assms
proof (induction ts arbitrary: st rule: rev_induct)
  case (snoc t ts)
  obtain r s c where t: "t = (r, s, c)" by (cases t) auto
  show ?case
  proof (cases "s = slot \<and> c = col")
    case True
    then show ?thesis using snoc.prems(2) by (simp add: t)
  next
    case False
    then show ?thesis using snoc.IH snoc.prems by (auto simp: t)
  qed
qed simp

lemma made_tables:
  assumes "make_checkpoints per_seq m null starts with_conv = Inr ck" "s < length per_seq"
    and "kl_ckpts k = map2 zip (ck_slots ck) (ck_offsets ck)" "kl_null k = Some null"
  shows "live_ckpts k s = (\<lambda>(offset, slot). (slot, offset)) ` set (per_seq ! s)" "distinct (map snd (per_seq ! s))"
proof -
  obtain rows conv where r: "ckpt_seqs (nat m) null starts with_conv 0 per_seq = Inr (rows, conv)"
    "ck_slots ck = map (map fst) rows" "ck_offsets ck = map (map snd) rows"
    using assms(1) by (auto simp: make_checkpoints_def)
  note res = ckpt_seqs_result [OF r(1)]
  have "kl_ckpts k ! s = rows ! s" using conjunct1 [OF res] assms(2) by (simp add: assms(3) r(2,3) zip_map_fst_snd)
  then have row: "kl_ckpts k ! s = map (\<lambda>(offset, slot). (slot, offset)) (per_seq ! s) @ replicate (nat m - length (per_seq ! s)) (null, 0)"
    using res assms(2) by simp
  note tab = conjunct1 [OF conjunct2 [OF res], THEN spec, THEN mp, OF assms(2)]
  have ok: "\<forall>(offset, slot) \<in> set (per_seq ! s). 0 < offset \<and> slot \<noteq> null" using tab by auto
  show "live_ckpts k s = (\<lambda>(offset, slot). (slot, offset)) ` set (per_seq ! s)"
    unfolding live_ckpts_def row using ok by (auto simp: assms(4))
  show "distinct (map snd (per_seq ! s))" using tab by simp
qed

lemma made_conv:
  assumes "make_checkpoints per_seq m null (Some starts) True = Inr ck" "s < length per_seq" "(offset, slot) \<in> set (per_seq ! s)"
  obtains triples where "ck_conv ck = Some triples"
    "set triples = (\<Union>i < length per_seq. \<Union>(offset, slot) \<in> set (per_seq ! i). set (conv_triples (starts ! i) offset slot))"
proof -
  obtain rows conv where r: "ckpt_seqs (nat m) null (Some starts) True 0 per_seq = Inr (rows, conv)"
    "ck_conv ck = (if conv \<noteq> [] then Some conv else None)"
    using assms(1) by (auto simp: make_checkpoints_def)
  have c: "set conv = (\<Union>i < length per_seq. \<Union>(offset, slot) \<in> set (per_seq ! i). set (conv_triples (starts ! i) offset slot))"
    using ckpt_seqs_result [OF r(1)] by simp
  have "(starts ! s + offset - 3 + 0, slot, 0) \<in> set conv" unfolding c using assms(2,3) by (force simp: conv_triples_def)
  then have "conv \<noteq> []" by auto
  then show ?thesis using r(2) c that [of conv] by simp
qed

text \<open>
  A chunk whose checkpoints the host planned: after the recurrence and the conv export, every requested slot holds the
  recurrent state after exactly the rows before its offset, and its first three conv rows are the three rows before it.
\<close>


section \<open>Executions of the pipeline\<close>

definition before :: "'a list \<Rightarrow> 'a \<Rightarrow> 'a \<Rightarrow> bool" where
  "before xs x y \<longleftrightarrow> (\<exists>us vs ws. xs = us @ x # vs @ y # ws)"

text \<open>Start and end times of the commands: a stream runs its commands in order, and a wait starts after the event's last record ended.\<close>

definition executes :: "kda_cmd list \<Rightarrow> (kda_cmd \<Rightarrow> nat) \<Rightarrow> (kda_cmd \<Rightarrow> nat) \<Rightarrow> bool" where
  "executes cmds B F \<longleftrightarrow>
     (\<forall>x \<in> set cmds. B x \<le> F x)
     \<and> (\<forall>s a b. before cmds (s, a) (s, b) \<longrightarrow> F (s, a) \<le> B (s, b))
     \<and> (\<forall>us s e vs s' ws. cmds = us @ (s, Record e) # vs @ (s', Wait e) # ws \<and> (\<forall>t. (t, Record e) \<notin> set vs)
          \<longrightarrow> F (s, Record e) \<le> B (s', Wait e))"

text \<open>The place of a command in the host's order.\<close>

fun cmd_place :: "nat \<Rightarrow> kda_cmd \<Rightarrow> nat" where
  "cmd_place L (_, Prologue) = 0"
| "cmd_place L (_, Record Fork) = 1"
| "cmd_place L (_, Wait Fork) = 2"
| "cmd_place L (_, Wait (Consumed w)) = 10 * (w + 2) + 4"
| "cmd_place L (_, Prepare w) = 10 * w + 5"
| "cmd_place L (_, Record (Prepared w)) = 10 * w + 6"
| "cmd_place L (_, Wait (Prepared w)) = 10 * (w + 1) + 1"
| "cmd_place L (_, Recur w) = 10 * (w + 1) + 2"
| "cmd_place L (_, Record (Consumed w)) = 10 * (w + 1) + 3"
| "cmd_place L (_, ConvHistory) = 10 * (L + 2)"

lemma window_cmds_place: "x \<in> set (window_cmds L w) \<Longrightarrow> 10 * (w + 1) \<le> cmd_place L x \<and> cmd_place L x < 10 * (w + 2)"
  by (auto simp: window_cmds_def enqueue_prepare_def split: if_splits)

lemma window_cmds_sorted: "sorted_wrt (\<lambda>x y. cmd_place L x < cmd_place L y) (window_cmds L w)"
  by (simp add: window_cmds_def enqueue_prepare_def)

lemma windows_sorted:
  "sorted_wrt (\<lambda>x y. cmd_place L x < cmd_place L y) (concat (map (window_cmds L) [0..<n]))
   \<and> (\<forall>x \<in> set (concat (map (window_cmds L) [0..<n])). 10 \<le> cmd_place L x \<and> cmd_place L x < 10 * (n + 1))"
proof (induction n)
  case (Suc n)
  have "\<forall>x \<in> set (concat (map (window_cmds L) [0..<n])). \<forall>y \<in> set (window_cmds L n). cmd_place L x < cmd_place L y"
    using Suc window_cmds_place by (metis Suc_eq_plus1 order_less_le_trans)
  moreover have "\<forall>x \<in> set (concat (map (window_cmds L) [0..<Suc n])). 10 \<le> cmd_place L x \<and> cmd_place L x < 10 * (Suc n + 1)"
  proof
    fix x assume "x \<in> set (concat (map (window_cmds L) [0..<Suc n]))"
    then have "x \<in> set (concat (map (window_cmds L) [0..<n])) \<or> x \<in> set (window_cmds L n)" by auto
    then show "10 \<le> cmd_place L x \<and> cmd_place L x < 10 * (Suc n + 1)"
      using Suc window_cmds_place [of x L n] by fastforce
  qed
  ultimately show ?case using Suc window_cmds_sorted [of L n] by (simp add: sorted_wrt_append)
qed simp

lemma trace_sorted: "sorted_wrt (\<lambda>x y. cmd_place L x < cmd_place L y) (prefill_trace L conv)"
proof -
  note w = windows_sorted [of L L]
  have "\<forall>x \<in> set (concat (map (window_cmds L) [0..<L])). 10 \<le> cmd_place L x \<and> cmd_place L x < 10 * (L + 2)" using w by fastforce
  then show ?thesis
    using w unfolding prefill_trace_def enqueue_prepare_def sorted_wrt_append by (fastforce split: if_splits)
qed

lemma sorted_before:
  assumes "sorted_wrt (\<lambda>x y. r x < (r y :: nat)) xs" "x \<in> set xs" "y \<in> set xs" "r x < r y"
  shows "before xs x y"
proof -
  obtain us vs where xs: "xs = us @ y # vs" using split_list [OF assms(3)] by blast
  have "x \<in> set us" using assms(1,2,4) unfolding xs by (auto simp: sorted_wrt_append)
  then obtain us1 us2 where "us = us1 @ x # us2" using split_list by fastforce
  then show ?thesis unfolding before_def xs by auto
qed

lemma sorted_distinct: "sorted_wrt (\<lambda>x y. r x < (r y :: nat)) xs \<Longrightarrow> distinct xs"
  by (induction xs) auto

lemma trace_members:
  "w < L \<Longrightarrow> (Main, Wait (Prepared w)) \<in> set (prefill_trace L conv)" "w < L \<Longrightarrow> (Main, Recur w) \<in> set (prefill_trace L conv)"
  "w < L \<Longrightarrow> (Main, Record (Consumed w)) \<in> set (prefill_trace L conv)"
  "w + 2 < L \<Longrightarrow> (Side, Wait (Consumed w)) \<in> set (prefill_trace L conv)"
  "(Main, Prologue) \<in> set (prefill_trace L conv)" "(Main, Record Fork) \<in> set (prefill_trace L conv)" "(Side, Wait Fork) \<in> set (prefill_trace L conv)"
  "(Main, ConvHistory) \<in> set (prefill_trace L True)"
  unfolding prefill_trace_def window_cmds_def enqueue_prepare_def by (auto intro: bexI [of _ w] bexI [of _ "w + 1"])

lemma trace_prepares:
  assumes "w < L"
  shows "(Side, Prepare w) \<in> set (prefill_trace L conv)" "(Side, Record (Prepared w)) \<in> set (prefill_trace L conv)"
  using assms unfolding prefill_trace_def window_cmds_def enqueue_prepare_def by (cases w; auto intro: bexI [of _ "w - 1"])+

lemma record_stream: "(s, Record e) \<in> set (prefill_trace L conv) \<Longrightarrow> s = (case e of Prepared _ \<Rightarrow> Side | _ \<Rightarrow> Main)"
  by (auto simp: prefill_trace_def window_cmds_def enqueue_prepare_def split: if_splits)

lemma run_stream:
  assumes "executes (prefill_trace L conv) B F" "(s, a) \<in> set (prefill_trace L conv)" "(s, b) \<in> set (prefill_trace L conv)"
    and "cmd_place L (s, a) < cmd_place L (s, b)"
  shows "F (s, a) \<le> B (s, b)"
  using assms(1) sorted_before [OF trace_sorted assms(2-4)] unfolding executes_def by blast

lemma run_event:
  assumes "executes (prefill_trace L conv) B F" "(s, Record e) \<in> set (prefill_trace L conv)" "(s', Wait e) \<in> set (prefill_trace L conv)"
    and "cmd_place L (s, Record e) < cmd_place L (s', Wait e)"
  shows "F (s, Record e) \<le> B (s', Wait e)"
proof -
  obtain us vs ws where tr: "prefill_trace L conv = us @ (s, Record e) # vs @ (s', Wait e) # ws"
    using sorted_before [OF trace_sorted assms(2-4)] unfolding before_def by blast
  have "distinct (prefill_trace L conv)" using trace_sorted by (rule sorted_distinct)
  then have "(s, Record e) \<notin> set vs" unfolding tr by auto
  moreover have "t = s" if "(t, Record e) \<in> set (prefill_trace L conv)" for t
    using record_stream [OF that] record_stream [OF assms(2)] by simp
  ultimately have "(t, Record e) \<notin> set vs" for t using tr by (metis Un_iff in_set_conv_decomp set_append list.set_intros(2))
  then show ?thesis using assms(1) tr unfolding executes_def by blast
qed

lemma run_time: "executes (prefill_trace L conv) B F \<Longrightarrow> x \<in> set (prefill_trace L conv) \<Longrightarrow> B x \<le> F x"
  by (simp add: executes_def)

text \<open>
  Whatever the kernels' running times, the pipeline of a call with \<open>L\<close> windows never races: a window's tiles are prepared
  before its recurrence starts and no window that shares its half of the workspace is prepared from then until the recurrence
  ends; the recurrences run in order, and the conv history is exported after the last.
\<close>

text \<open>
  C15. Whatever the kernels' running times, a window's tiles are prepared before its
  recurrence starts, no window that shares its half of the workspace is prepared from then
  until the recurrence ends, the recurrences run in order, and the conv history is exported
  after the last.
\<close>

theorem pipeline_never_races:
  assumes "executes (prefill_trace L conv) B F" "w < L"
  shows "F (Side, Prepare w) \<le> B (Main, Recur w) \<and> F (Main, Prologue) \<le> B (Side, Prepare w)
    \<and> (\<forall>v < L. v \<noteq> w \<and> v mod 2 = w mod 2 \<longrightarrow> F (Side, Prepare v) \<le> B (Side, Prepare w) \<or> F (Main, Recur w) \<le> B (Side, Prepare v))
    \<and> (\<forall>v < w. F (Main, Recur v) \<le> B (Main, Recur w)) \<and> (conv \<longrightarrow> F (Main, Recur w) \<le> B (Main, ConvHistory))"
proof -
  let ?t = "set (prefill_trace L conv)"
  note st = run_stream [OF assms(1)] and ev = run_event [OF assms(1)] and tm = run_time [OF assms(1)]
  have "F (Side, Prepare w) \<le> B (Side, Record (Prepared w))" by (rule st) (use assms(2) trace_prepares in simp_all)
  also have "\<dots> \<le> F (Side, Record (Prepared w))" by (rule tm) (use assms(2) trace_prepares in simp)
  also have "\<dots> \<le> B (Main, Wait (Prepared w))" by (rule ev) (use assms(2) trace_prepares trace_members in simp_all)
  also have "\<dots> \<le> F (Main, Wait (Prepared w))" by (rule tm) (use assms(2) trace_members in simp)
  also have "\<dots> \<le> B (Main, Recur w)" by (rule st) (use assms(2) trace_members in simp_all)
  finally have 1: "F (Side, Prepare w) \<le> B (Main, Recur w)" .
  have "F (Main, Prologue) \<le> B (Main, Record Fork)" by (rule st) (use trace_members in simp_all)
  also have "\<dots> \<le> F (Main, Record Fork)" by (rule tm) (use trace_members in simp)
  also have "\<dots> \<le> B (Side, Wait Fork)" by (rule ev) (use trace_members in simp_all)
  also have "\<dots> \<le> F (Side, Wait Fork)" by (rule tm) (use trace_members in simp)
  also have "\<dots> \<le> B (Side, Prepare w)" by (rule st) (use assms(2) trace_prepares trace_members in simp_all)
  finally have 2: "F (Main, Prologue) \<le> B (Side, Prepare w)" .
  have free: "F (Main, Recur v) \<le> B (Side, Prepare u)" if "v + 2 \<le> u" "u < L" for u v
  proof -
    have v: "v < L" "v + 2 < L" using that by simp_all
    have "F (Main, Recur v) \<le> B (Main, Record (Consumed v))" by (rule st) (use v trace_members in simp_all)
    also have "\<dots> \<le> F (Main, Record (Consumed v))" by (rule tm) (use v trace_members in simp)
    also have "\<dots> \<le> B (Side, Wait (Consumed v))" by (rule ev) (use v trace_members in simp_all)
    also have "\<dots> \<le> F (Side, Wait (Consumed v))" by (rule tm) (use v trace_members in simp)
    also have "\<dots> \<le> B (Side, Prepare u)" by (rule st) (use that v trace_members trace_prepares in simp_all)
    finally show ?thesis .
  qed
  have 3: "F (Side, Prepare v) \<le> B (Side, Prepare w) \<or> F (Main, Recur w) \<le> B (Side, Prepare v)" if v: "v < L" "v \<noteq> w" "v mod 2 = w mod 2" for v
  proof (cases "v < w")
    case True
    then have "F (Side, Prepare v) \<le> B (Side, Prepare w)" by (intro st) (use v assms(2) trace_prepares in simp_all)
    then show ?thesis by blast
  next
    case False
    then have "w + 2 \<le> v" using v(2,3) by presburger
    then show ?thesis using free v(1) by blast
  qed
  have 4: "F (Main, Recur v) \<le> B (Main, Recur w)" if "v < w" for v
    by (rule st) (use that assms(2) trace_members in simp_all)
  have 5: "F (Main, Recur w) \<le> B (Main, ConvHistory)" if conv
    by (rule st) (use that assms(2) trace_members in simp_all)
  show ?thesis using 1 2 3 4 5 by blast
qed

section \<open>Examples\<close>

text \<open>Every command at its place in the host's order is an execution.\<close>

lemma host_order_executes: "executes (prefill_trace L conv) (cmd_place L) (cmd_place L)"
proof -
  have less: "cmd_place L x < cmd_place L y" if "prefill_trace L conv = us @ x # vs @ y # ws" for us x vs y ws
    using trace_sorted [of L conv] unfolding that by (simp add: sorted_wrt_append)
  have "cmd_place L (s, Record e) < cmd_place L (s', Wait e)"
    if "prefill_trace L conv = us @ (s, Record e) # vs @ (s', Wait e) # ws" for us s e vs s' ws
    using less [OF that] .
  then show ?thesis unfolding executes_def before_def using less by (meson order.refl less_imp_le)
qed

theorem pipeline_never_races_witness:
  "cmd_place 3 (Side, Prepare 2) \<le> cmd_place 3 (Main, Recur 2) \<and> cmd_place 3 (Main, Recur 0) \<le> cmd_place 3 (Main, Recur 2)"
  using pipeline_never_races [OF host_order_executes, of 2 3 True] by auto

definition demo_requests :: "(int \<times> int) list list" where
  "demo_requests = [[(32, 6), (16, 7)], [], []]"

definition demo_ckpt :: checkpoints where
  "demo_ckpt = \<lparr>ck_slots = [[6, 7], [0, 0], [0, 0]], ck_offsets = [[32, 16], [0, 0], [0, 0]], ck_max = 2,
     ck_conv = Some [(29, 6, 0), (30, 6, 1), (31, 6, 2), (13, 7, 0), (14, 7, 1), (15, 7, 2)]\<rparr>"

lemma demo_made: "make_checkpoints demo_requests 2 0 (Some [0, 40, 40]) True = Inr demo_ckpt"
  by code_simp

lemma demo_tables: "kl_ckpts demo_call = map2 zip (ck_slots demo_ckpt) (ck_offsets demo_ckpt)" "kl_null demo_call = Some 0"
  by code_simp+


end
