(* ===== verification/Tile_Major.thy ===== *)
theory Tile_Major
  imports Ringside_Prelude
begin

text \<open>
  The tile-major layout of the expert weights (\<open>src/src/tp4/b12x/moe/fused_moe/_tp4_tile_major.py\<close>): the order of the 8 KiB
  boxes, the byte ranges the kernel reads in both layouts, the repack of whole tensors and its inverse, and the in-place
  repack in blocks of experts. The numpy and the torch repack do the same reshape, transpose and index; one model stands
  for both. Sizes are natural numbers and bytes values of any type.
\<close>

section \<open>Geometry\<close>

definition TILE_ROWS :: nat where "TILE_ROWS = 128"
definition TILE_BYTES :: nat where "TILE_BYTES = 64"
definition BOX_BYTES :: nat where "BOX_BYTES = TILE_ROWS * TILE_BYTES"

record tile_geom =
  tg_k :: nat
  tg_n :: nat
  tg_e :: nat

definition tile_geometry :: "nat \<Rightarrow> nat \<Rightarrow> nat \<Rightarrow> tile_geom py" where
  "tile_geometry hidden intermediate experts =
     py_guard (hidden mod TILE_ROWS \<noteq> 0 \<or> intermediate mod TILE_ROWS \<noteq> 0 \<or> hidden mod 256 \<noteq> 0) ValueError
       (Inr \<lparr>tg_k = hidden, tg_n = intermediate, tg_e = experts\<rparr>)"

definition tg_kt :: "tile_geom \<Rightarrow> nat" where "tg_kt g = tg_k g div 128"
definition tg_g :: "tile_geom \<Rightarrow> nat" where "tg_g g = tg_n g div TILE_ROWS"
definition tg_ot :: "tile_geom \<Rightarrow> nat" where "tg_ot g = tg_k g div TILE_ROWS"
definition tg_st :: "tile_geom \<Rightarrow> nat" where "tg_st g = tg_n g div 128"
definition tg_rows13 :: "tile_geom \<Rightarrow> nat" where "tg_rows13 g = 2 * tg_n g"
definition tg_tiles13 :: "tile_geom \<Rightarrow> nat" where "tg_tiles13 g = 2 * tg_g g * tg_kt g"
definition tg_tiles2 :: "tile_geom \<Rightarrow> nat" where "tg_tiles2 g = tg_st g * tg_ot g"

section \<open>The tile-major order\<close>

definition w13_tile :: "tile_geom \<Rightarrow> nat \<Rightarrow> nat \<Rightarrow> nat py" where
  "w13_tile g n_tile k_tile =
     py_guard (\<not> n_tile < 2 * tg_g g \<or> \<not> k_tile < tg_kt g) ValueError
       (let s = n_tile mod tg_g g; pass_index = (if tg_g g \<le> n_tile then 0 else 1)
        in Inr ((s * 2 + pass_index) * tg_kt g + k_tile))"

definition w2_tile :: "tile_geom \<Rightarrow> nat \<Rightarrow> nat \<Rightarrow> nat py" where
  "w2_tile g out_tile slice_index =
     py_guard (\<not> out_tile < tg_ot g \<or> \<not> slice_index < tg_st g) ValueError (Inr (slice_index * tg_ot g + out_tile))"

text \<open>Gate, up and down bases of a slice.\<close>

definition kernel_bases :: "tile_geom \<Rightarrow> nat \<Rightarrow> nat \<times> nat \<times> nat" where
  "kernel_bases g s = (s * 2 * tg_kt g, s * 2 * tg_kt g + tg_kt g, s * tg_ot g)"

text \<open>One assignment \<open>perm[tile] = value\<close>; an index out of range raises.\<close>

definition put_tile :: "nat py \<Rightarrow> nat \<Rightarrow> nat option list py \<Rightarrow> nat option list py" where
  "put_tile tile v perm =
     py_bind perm (\<lambda>p. py_bind tile (\<lambda>t. py_guard (length p \<le> t) IndexError (Inr (p[t := Some v]))))"

definition finish_perm :: "nat option list py \<Rightarrow> nat list py" where
  "finish_perm perm = py_bind perm (\<lambda>p. py_guard (None \<in> set p) AssertionError (Inr (map the p)))"

definition w13_permutation :: "tile_geom \<Rightarrow> nat list py" where
  "w13_permutation g =
     finish_perm (fold (\<lambda>(n, k). put_tile (w13_tile g n k) (n * tg_kt g + k))
       (List.product [0..<2 * tg_g g] [0..<tg_kt g]) (Inr (replicate (tg_tiles13 g) None)))"

definition w2_permutation :: "tile_geom \<Rightarrow> nat list py" where
  "w2_permutation g =
     finish_perm (fold (\<lambda>(out_tile, s). put_tile (w2_tile g out_tile s) (out_tile * tg_st g + s))
       (List.product [0..<tg_ot g] [0..<tg_st g]) (Inr (replicate (tg_tiles2 g) None)))"

section \<open>Bytes\<close>

text \<open>The byte ranges (offset, length) a box reads.\<close>

definition stock_w13_box :: "tile_geom \<Rightarrow> nat \<Rightarrow> nat \<Rightarrow> (nat \<times> nat) list" where
  "stock_w13_box g n_tile k_tile =
     (let row_bytes = tg_k g div 2; base = n_tile * TILE_ROWS * row_bytes + k_tile * TILE_BYTES
      in map (\<lambda>r. (base + r * row_bytes, TILE_BYTES)) [0..<TILE_ROWS])"

definition stock_w2_box :: "tile_geom \<Rightarrow> nat \<Rightarrow> nat \<Rightarrow> (nat \<times> nat) list" where
  "stock_w2_box g out_tile slice_index =
     (let row_bytes = tg_n g div 2; base = out_tile * TILE_ROWS * row_bytes + slice_index * TILE_BYTES
      in map (\<lambda>r. (base + r * row_bytes, TILE_BYTES)) [0..<TILE_ROWS])"

definition tile_major_box :: "nat \<Rightarrow> (nat \<times> nat) list" where
  "tile_major_box t = [(t * BOX_BYTES, BOX_BYTES)]"

definition read_ranges :: "'b list \<Rightarrow> (nat \<times> nat) list \<Rightarrow> 'b list" where
  "read_ranges bytes rs = concat (map (\<lambda>(off, len). take len (drop off bytes)) rs)"

datatype weight = W13 | W2

text \<open>The boxes of a task: the stock coordinates and the tile-major index.\<close>

definition task_sequence :: "tile_geom \<Rightarrow> (weight \<times> (nat \<times> nat) \<times> nat py) list" where
  "task_sequence g = concat (map (\<lambda>s.
     map (\<lambda>k. (W13, (tg_g g + s, k), w13_tile g (tg_g g + s) k)) [0..<tg_kt g]
     @ map (\<lambda>k. (W13, (s, k), w13_tile g s k)) [0..<tg_kt g]
     @ map (\<lambda>out_tile. (W2, (out_tile, s), w2_tile g out_tile s)) [0..<tg_ot g]) [0..<tg_g g])"

section \<open>Repacking\<close>

text \<open>A byte tensor of experts, each the row-major bytes of its matrix.\<close>

record 'b experts =
  ex_rows :: nat
  ex_cols :: nat
  ex_bytes :: "'b list list"

text \<open>\<open>reshape(outer, TILE_ROWS, inner, TILE_BYTES).transpose(0, 2, 1, 3)\<close> of one expert, as its list of boxes, and back.\<close>

definition boxes_of :: "nat \<Rightarrow> nat \<Rightarrow> 'b list \<Rightarrow> 'b list list" where
  "boxes_of outer inner bytes =
     map (\<lambda>p. concat (map (\<lambda>r. take TILE_BYTES (drop (((p div inner * TILE_ROWS + r) * inner + p mod inner) * TILE_BYTES) bytes)) [0..<TILE_ROWS]))
       [0..<outer * inner]"

definition unbox :: "nat \<Rightarrow> nat \<Rightarrow> 'b list list \<Rightarrow> 'b list" where
  "unbox outer inner boxes =
     concat (map (\<lambda>x. take TILE_BYTES (drop (x div inner mod TILE_ROWS * TILE_BYTES) (boxes ! (x div inner div TILE_ROWS * inner + x mod inner))))
       [0..<outer * TILE_ROWS * inner])"

definition permute_boxes :: "nat \<Rightarrow> nat \<Rightarrow> nat list \<Rightarrow> 'b list \<Rightarrow> 'b list" where
  "permute_boxes outer inner perm bytes = concat (map (\<lambda>p. boxes_of outer inner bytes ! p) perm)"

definition repack_w13 :: "tile_geom \<Rightarrow> 'b experts \<Rightarrow> 'b experts py" where
  "repack_w13 g w =
     py_guard (ex_rows w \<noteq> tg_rows13 g \<or> ex_cols w \<noteq> tg_k g div 2) ValueError
       (py_bind (w13_permutation g) (\<lambda>perm.
          Inr \<lparr>ex_rows = tg_tiles13 g * TILE_ROWS, ex_cols = TILE_BYTES,
               ex_bytes = map (permute_boxes (2 * tg_g g) (tg_kt g) perm) (ex_bytes w)\<rparr>))"

definition repack_w2 :: "tile_geom \<Rightarrow> 'b experts \<Rightarrow> 'b experts py" where
  "repack_w2 g w =
     py_guard (ex_rows w \<noteq> tg_k g \<or> ex_cols w \<noteq> tg_n g div 2) ValueError
       (py_bind (w2_permutation g) (\<lambda>perm.
          Inr \<lparr>ex_rows = tg_tiles2 g * TILE_ROWS, ex_cols = TILE_BYTES,
               ex_bytes = map (permute_boxes (tg_ot g) (tg_st g) perm) (ex_bytes w)\<rparr>))"

text \<open>\<open>np.argsort\<close>.\<close>

definition argsort :: "nat list \<Rightarrow> nat list" where
  "argsort xs = sort_key (\<lambda>i. xs ! i) [0..<length xs]"

definition split_boxes :: "nat \<Rightarrow> 'b list \<Rightarrow> 'b list list" where
  "split_boxes n bytes = map (\<lambda>t. take BOX_BYTES (drop (t * BOX_BYTES) bytes)) [0..<n]"

definition unpack_w13 :: "tile_geom \<Rightarrow> 'b experts \<Rightarrow> 'b experts py" where
  "unpack_w13 g tm =
     py_bind (w13_permutation g) (\<lambda>perm.
       Inr \<lparr>ex_rows = tg_rows13 g, ex_cols = tg_k g div 2,
            ex_bytes = map (\<lambda>bytes. unbox (2 * tg_g g) (tg_kt g) (map (\<lambda>t. split_boxes (tg_tiles13 g) bytes ! t) (argsort perm))) (ex_bytes tm)\<rparr>)"

text \<open>The load-time repack: \<open>step\<close> experts at a time, written back over the block they came from.\<close>

fun repack_blocks :: "('b experts \<Rightarrow> 'b experts py) \<Rightarrow> nat \<Rightarrow> nat list \<Rightarrow> 'b experts \<Rightarrow> 'b experts py" where
  "repack_blocks repack step [] w = Inr w"
| "repack_blocks repack step (e0 # es) w =
     py_bind (repack (w\<lparr>ex_bytes := take step (drop e0 (ex_bytes w))\<rparr>)) (\<lambda>packed.
       repack_blocks repack step es (w\<lparr>ex_bytes := take e0 (ex_bytes w) @ ex_bytes packed @ drop (e0 + step) (ex_bytes w)\<rparr>))"

definition repack_inplace :: "('b experts \<Rightarrow> 'b experts py) \<Rightarrow> nat \<Rightarrow> 'b experts \<Rightarrow> 'b experts py" where
  "repack_inplace repack chunk_bytes w =
     (let e = length (ex_bytes w); per_expert = ex_rows w * ex_cols w
      in py_guard (e = 0) IndexError (py_guard (per_expert = 0) ZeroDivisionError
           (let step = max 1 (min e (chunk_bytes div per_expert))
            in py_bind (repack_blocks repack step (map (\<lambda>i. i * step) [0..<(e + step - 1) div step]) w) (\<lambda>r.
                 Inr (r\<lparr>ex_rows := per_expert div TILE_BYTES, ex_cols := TILE_BYTES\<rparr>)))))"

section \<open>Pieces of equal length\<close>

lemma concat_pieces:
  assumes "\<forall>i < n. length (f i) = m"
  shows "length (concat (map f [0..<n])) = n * m" "i < n \<Longrightarrow> take m (drop (i * m) (concat (map f [0..<n]))) = f i"
proof -
  have len: "length (concat (map f [0..<j])) = j * m" if "j \<le> n" for j
    using that assms by (induction j) (simp_all add: add.commute)
  then show "length (concat (map f [0..<n])) = n * m" by simp
  show "take m (drop (i * m) (concat (map f [0..<n]))) = f i" if i: "i < n"
  proof -
    have "[0..<n] = [0..<i] @ i # [Suc i..<n]" using i upt_conv_Cons [OF i] by (metis le0 le_add_diff_inverse less_imp_le upt_add_eq_append)
    then have "concat (map f [0..<n]) = concat (map f [0..<i]) @ f i @ concat (map f [Suc i..<n])" by simp
    then show ?thesis using len [of i] i assms by simp
  qed
qed

lemma pieces_whole: "length bytes = n * m \<Longrightarrow> concat (map (\<lambda>i. take m (drop (i * m) bytes)) [0..<n]) = bytes"
proof (induction n arbitrary: bytes)
  case (Suc n)
  have "map (\<lambda>i. take m (drop (i * m) bytes)) [0..<Suc n] = take m bytes # map (\<lambda>i. take m (drop (i * m) (drop m bytes))) [0..<n]"
    by (simp add: upt_conv_Cons map_Suc_upt [symmetric] add.commute del: upt_Suc)
  then show ?case using Suc.IH [of "drop m bytes"] Suc.prems by simp
qed simp

lemma argsort_inverse:
  assumes "mset xs = mset [0..<length xs]" "q < length xs"
  shows "argsort xs ! q < length xs" "xs ! (argsort xs ! q) = q"
proof -
  let ?a = "argsort xs"
  have len: "length ?a = length xs" by (simp add: argsort_def)
  have "mset (map ((!) xs) ?a) = mset (map ((!) xs) [0..<length xs])" by (simp add: argsort_def)
  also have "\<dots> = mset [0..<length xs]" using assms(1) by (simp add: map_nth)
  finally have "sort (map ((!) xs) ?a) = [0..<length xs]" by (intro properties_for_sort) simp_all
  moreover have "sorted (map ((!) xs) ?a)" by (simp add: argsort_def)
  ultimately have "map ((!) xs) ?a = [0..<length xs]" by (simp add: sorted_sort_id)
  then show "xs ! (?a ! q) = q" using assms(2) len by (metis nth_map nth_upt add_0)
  have "set ?a = {..<length xs}" by (simp add: argsort_def atLeast0LessThan)
  then show "?a ! q < length xs" using assms(2) len by (metis lessThan_iff nth_mem)
qed

section \<open>An order of boxes\<close>

text \<open>\<open>idx\<close> numbers the boxes of an outer-by-inner grid and \<open>inv\<close> takes a number back to the stock place.\<close>

lemma grid_less: "a < m \<Longrightarrow> i < n \<Longrightarrow> a * n + i < m * (n :: nat)"
proof -
  assume a: "a < m" "i < n"
  then have "Suc a * n \<le> m * n" by (intro mult_le_mono1) simp
  then show ?thesis using a(2) by simp
qed

locale tile_order =
  fixes outer inner :: nat and tile :: "nat \<Rightarrow> nat \<Rightarrow> nat py" and idx :: "nat \<Rightarrow> nat \<Rightarrow> nat" and inv :: "nat \<Rightarrow> nat"
  assumes tile: "a < outer \<Longrightarrow> i < inner \<Longrightarrow> tile a i = Inr (idx a i)"
    and idx_lt: "a < outer \<Longrightarrow> i < inner \<Longrightarrow> idx a i < outer * inner"
    and inv_lt: "t < outer * inner \<Longrightarrow> inv t < outer * inner"
    and idx_inv: "t < outer * inner \<Longrightarrow> idx (inv t div inner) (inv t mod inner) = t"
    and inv_idx: "a < outer \<Longrightarrow> i < inner \<Longrightarrow> inv (idx a i) = a * inner + i"
begin

definition order :: "nat list" where
  "order = map inv [0..<outer * inner]"

lemma order_length [simp]: "length order = outer * inner" by (simp add: order_def)

lemma split_place: "p < outer * inner \<Longrightarrow> p div inner < outer \<and> p mod inner < inner"
  by (cases "inner = 0") (simp_all add: less_mult_imp_div_less)

lemma fill:
  assumes "set ps \<subseteq> {..<outer} \<times> {..<inner}" "length p = outer * inner"
  shows "\<exists>q. fold (\<lambda>(a, i). put_tile (tile a i) (a * inner + i)) ps (Inr p) = Inr q \<and> length q = outer * inner
    \<and> (\<forall>t < outer * inner. q ! t = (if t \<in> (\<lambda>(a, i). idx a i) ` set ps then Some (inv t) else p ! t))"
  using assms
proof (induction ps arbitrary: p)
  case (Cons x ps)
  obtain a i where x: "x = (a, i)" by (cases x)
  have r: "a < outer" "i < inner" using Cons.prems(1) x by auto
  let ?p = "p[idx a i := Some (a * inner + i)]"
  have step: "put_tile (tile a i) (a * inner + i) (Inr p) = Inr ?p"
    using idx_lt [OF r] Cons.prems(2) by (simp add: put_tile_def tile [OF r] not_le)
  obtain q where q: "fold (\<lambda>(a, i). put_tile (tile a i) (a * inner + i)) ps (Inr ?p) = Inr q" "length q = outer * inner"
    "\<forall>t < outer * inner. q ! t = (if t \<in> (\<lambda>(a, i). idx a i) ` set ps then Some (inv t) else ?p ! t)"
    using Cons.IH [of ?p] Cons.prems by auto
  have "q ! t = (if t \<in> (\<lambda>(a, i). idx a i) ` set (x # ps) then Some (inv t) else p ! t)" if "t < outer * inner" for t
    using q(3) that inv_idx [OF r] Cons.prems(2) by (simp add: x nth_list_update)
  then show ?case using q(1,2) step by (simp add: x)
qed simp

lemma grid_full:
  assumes "t < outer * inner"
  shows "t \<in> (\<lambda>(a, i). idx a i) ` set (List.product [0..<outer] [0..<inner])"
proof -
  have "(inv t div inner, inv t mod inner) \<in> set (List.product [0..<outer] [0..<inner])"
    using split_place [OF inv_lt [OF assms]] by simp
  then show ?thesis using idx_inv [OF assms] by (force simp del: set_product)
qed

lemma permutation:
  "finish_perm (fold (\<lambda>(a, i). put_tile (tile a i) (a * inner + i)) (List.product [0..<outer] [0..<inner]) (Inr (replicate (outer * inner) None)))
     = Inr order"
proof -
  have sub: "set (List.product [0..<outer] [0..<inner]) \<subseteq> {..<outer} \<times> {..<inner}" by auto
  obtain q where q: "fold (\<lambda>(a, i). put_tile (tile a i) (a * inner + i)) (List.product [0..<outer] [0..<inner]) (Inr (replicate (outer * inner) None)) = Inr q"
    "length q = outer * inner"
    "\<forall>t < outer * inner. q ! t = (if t \<in> (\<lambda>(a, i). idx a i) ` set (List.product [0..<outer] [0..<inner]) then Some (inv t) else replicate (outer * inner) None ! t)"
    using fill [OF sub length_replicate] by blast
  have "q = map (\<lambda>t. Some (inv t)) [0..<outer * inner]"
    using q(2,3) grid_full by (intro nth_equalityI) simp_all
  then show ?thesis by (auto simp: finish_perm_def q(1) order_def comp_def)
qed

lemma order_mset: "mset order = mset [0..<length order]"
proof -
  have "inj_on inv {0..<outer * inner}"
    by (rule inj_on_inverseI [where g = "\<lambda>p. idx (p div inner) (p mod inner)"]) (simp add: idx_inv)
  moreover have "inv ` {0..<outer * inner} = {0..<outer * inner}"
  proof
    show "inv ` {0..<outer * inner} \<subseteq> {0..<outer * inner}" using inv_lt by auto
    show "{0..<outer * inner} \<subseteq> inv ` {0..<outer * inner}"
    proof
      fix p assume "p \<in> {0..<outer * inner}"
      then have s: "p div inner < outer" "p mod inner < inner" using split_place by auto
      then show "p \<in> inv ` {0..<outer * inner}"
        using inv_idx [OF s] idx_lt [OF s] by (intro image_eqI [of _ _ "idx (p div inner) (p mod inner)"]) simp_all
    qed
  qed
  ultimately have "image_mset inv (mset_set {0..<outer * inner}) = mset_set {0..<outer * inner}"
    using image_mset_mset_set [of inv "{0..<outer * inner}"] by simp
  then show ?thesis by (simp add: order_def)
qed

lemma box_bytes:
  assumes "a < outer" "i < inner"
  shows "boxes_of outer inner bytes ! (a * inner + i)
    = concat (map (\<lambda>r. take TILE_BYTES (drop (((a * TILE_ROWS + r) * inner + i) * TILE_BYTES) bytes)) [0..<TILE_ROWS])"
  using assms grid_less [OF assms] by (simp add: boxes_of_def)

lemma box_length:
  assumes "length bytes = outer * TILE_ROWS * inner * TILE_BYTES" "p < outer * inner"
  shows "length (boxes_of outer inner bytes ! p) = BOX_BYTES"
    and "r < TILE_ROWS \<Longrightarrow> take TILE_BYTES (drop (r * TILE_BYTES) (boxes_of outer inner bytes ! p))
        = take TILE_BYTES (drop (((p div inner * TILE_ROWS + r) * inner + p mod inner) * TILE_BYTES) bytes)"
proof -
  note s = split_place [OF assms(2)]
  have piece: "length (take TILE_BYTES (drop (((p div inner * TILE_ROWS + r) * inner + p mod inner) * TILE_BYTES) bytes)) = TILE_BYTES"
    if r: "r < TILE_ROWS" for r
  proof -
    have "p div inner * TILE_ROWS + r < outer * TILE_ROWS" using s r grid_less by simp
    then have "(p div inner * TILE_ROWS + r) * inner + p mod inner < outer * TILE_ROWS * inner" using s grid_less by simp
    then have "Suc ((p div inner * TILE_ROWS + r) * inner + p mod inner) * TILE_BYTES \<le> outer * TILE_ROWS * inner * TILE_BYTES"
      by (intro mult_le_mono1) simp
    then show ?thesis unfolding length_take length_drop assms(1) by simp
  qed
  have b: "boxes_of outer inner bytes ! p
      = concat (map (\<lambda>r. take TILE_BYTES (drop (((p div inner * TILE_ROWS + r) * inner + p mod inner) * TILE_BYTES) bytes)) [0..<TILE_ROWS])"
    using assms(2) by (simp add: boxes_of_def)
  show "length (boxes_of outer inner bytes ! p) = BOX_BYTES"
    unfolding b BOX_BYTES_def by (rule concat_pieces(1)) (use piece in blast)
  show "take TILE_BYTES (drop (r * TILE_BYTES) (boxes_of outer inner bytes ! p))
        = take TILE_BYTES (drop (((p div inner * TILE_ROWS + r) * inner + p mod inner) * TILE_BYTES) bytes)" if "r < TILE_ROWS"
    unfolding b by (rule concat_pieces(2)) (use piece that in blast)+
qed

lemma permuted:
  assumes "length bytes = outer * TILE_ROWS * inner * TILE_BYTES"
  shows "length (permute_boxes outer inner order bytes) = outer * inner * BOX_BYTES"
    and "t < outer * inner \<Longrightarrow> take BOX_BYTES (drop (t * BOX_BYTES) (permute_boxes outer inner order bytes)) = boxes_of outer inner bytes ! inv t"
proof -
  have p: "permute_boxes outer inner order bytes = concat (map (\<lambda>t. boxes_of outer inner bytes ! inv t) [0..<outer * inner])"
    by (simp add: permute_boxes_def order_def comp_def)
  have l: "\<forall>t < outer * inner. length (boxes_of outer inner bytes ! inv t) = BOX_BYTES" using box_length(1) [OF assms] inv_lt by simp
  show "length (permute_boxes outer inner order bytes) = outer * inner * BOX_BYTES" unfolding p by (rule concat_pieces(1) [OF l])
  show "t < outer * inner \<Longrightarrow> take BOX_BYTES (drop (t * BOX_BYTES) (permute_boxes outer inner order bytes)) = boxes_of outer inner bytes ! inv t"
    unfolding p by (rule concat_pieces(2) [OF l])
qed

lemma round_trip:
  assumes "length bytes = outer * TILE_ROWS * inner * TILE_BYTES"
  shows "unbox outer inner (map (\<lambda>t. split_boxes (outer * inner) (permute_boxes outer inner order bytes) ! t) (argsort order)) = bytes"
proof -
  let ?b = "map (\<lambda>t. split_boxes (outer * inner) (permute_boxes outer inner order bytes) ! t) (argsort order)"
  have pos: "0 < TILE_ROWS" by (simp add: TILE_ROWS_def)
  have box: "?b ! p = boxes_of outer inner bytes ! p" if p: "p < outer * inner" for p
  proof -
    note a = argsort_inverse [OF order_mset, of p]
    have "argsort order ! p < outer * inner" "inv (argsort order ! p) = p" using a p by (simp_all add: order_def)
    moreover have "length (argsort order) = outer * inner" by (simp add: argsort_def)
    ultimately show ?thesis using p permuted(2) [OF assms, of "argsort order ! p"] by (simp add: split_boxes_def)
  qed
  have "take TILE_BYTES (drop (x div inner mod TILE_ROWS * TILE_BYTES) (?b ! (x div inner div TILE_ROWS * inner + x mod inner)))
      = take TILE_BYTES (drop (x * TILE_BYTES) bytes)" if x: "x < outer * TILE_ROWS * inner" for x
  proof -
    have i: "0 < inner" using x by (cases inner) auto
    have "x div inner < outer * TILE_ROWS" using x by (rule less_mult_imp_div_less)
    then have o: "x div inner div TILE_ROWS < outer" by (rule less_mult_imp_div_less)
    have m: "x mod inner < inner" using i by simp
    let ?p = "x div inner div TILE_ROWS * inner + x mod inner"
    have p: "?p < outer * inner" "?p div inner = x div inner div TILE_ROWS" "?p mod inner = x mod inner"
      using grid_less [OF o m] i by simp_all
    have "x div inner mod TILE_ROWS < TILE_ROWS" using pos by simp
    then show ?thesis unfolding box [OF p(1)] by (subst box_length(2) [OF assms p(1)]) (simp_all add: p(2,3))
  qed
  then have "unbox outer inner ?b = concat (map (\<lambda>x. take TILE_BYTES (drop (x * TILE_BYTES) bytes)) [0..<outer * TILE_ROWS * inner])"
    unfolding unbox_def by (intro arg_cong [where f = concat] map_cong) simp_all
  then show ?thesis using pieces_whole [OF assms] by simp
qed

end

section \<open>The two weights\<close>

definition w13_index :: "tile_geom \<Rightarrow> nat \<Rightarrow> nat \<Rightarrow> nat" where
  "w13_index g n k = (n mod tg_g g * 2 + (if tg_g g \<le> n then 0 else 1)) * tg_kt g + k"

definition w13_stock :: "tile_geom \<Rightarrow> nat \<Rightarrow> nat" where
  "w13_stock g t = (t div tg_kt g div 2 + (if t div tg_kt g mod 2 = 0 then tg_g g else 0)) * tg_kt g + t mod tg_kt g"

definition w2_stock :: "tile_geom \<Rightarrow> nat \<Rightarrow> nat" where
  "w2_stock g t = t mod tg_ot g * tg_st g + t div tg_ot g"

lemma w13_place:
  assumes "n < 2 * tg_g g" "k < tg_kt g"
  shows "w13_index g n k div tg_kt g = n mod tg_g g * 2 + (if tg_g g \<le> n then 0 else 1)" "w13_index g n k mod tg_kt g = k"
    and "n mod tg_g g + (if tg_g g \<le> n then tg_g g else 0) = n" "n mod tg_g g < tg_g g"
proof -
  show "w13_index g n k div tg_kt g = n mod tg_g g * 2 + (if tg_g g \<le> n then 0 else 1)" "w13_index g n k mod tg_kt g = k"
    using assms(2) by (simp_all add: w13_index_def)
  show "n mod tg_g g < tg_g g" using assms(1) by (cases "tg_g g = 0") simp_all
  show "n mod tg_g g + (if tg_g g \<le> n then tg_g g else 0) = n"
  proof (cases "tg_g g \<le> n")
    case True
    then have "n mod tg_g g = n - tg_g g" using assms(1) by (simp add: le_mod_geq)
    then show ?thesis using True by simp
  qed simp
qed

interpretation w13_order: tile_order "2 * tg_g g" "tg_kt g" "w13_tile g" "w13_index g" "w13_stock g" for g
proof
  fix n k assume r: "n < 2 * tg_g g" "k < tg_kt g"
  note p = w13_place [OF r]
  show "w13_tile g n k = Inr (w13_index g n k)" using r by (simp add: w13_tile_def w13_index_def Let_def)
  show "w13_index g n k < 2 * tg_g g * tg_kt g"
    unfolding w13_index_def by (rule grid_less) (use p(4) r(2) in auto)
  show "w13_stock g (w13_index g n k) = n * tg_kt g + k"
  proof (cases "tg_g g \<le> n")
    case True
    then show ?thesis unfolding w13_stock_def p(1,2) using p(3) by simp
  next
    case False
    have "(x * 2 + 1) div 2 = x" "(x * 2 + 1) mod 2 \<noteq> 0" for x :: nat by presburger+
    then show ?thesis unfolding w13_stock_def p(1,2) using p(3) False by simp
  qed
next
  fix t assume t: "t < 2 * tg_g g * tg_kt g"
  then have kt: "0 < tg_kt g" by (cases "tg_kt g") auto
  have q: "t div tg_kt g < 2 * tg_g g" using t by (rule less_mult_imp_div_less)
  then have s: "t div tg_kt g div 2 < tg_g g" by simp
  define n where "n = t div tg_kt g div 2 + (if t div tg_kt g mod 2 = 0 then tg_g g else 0)"
  have n: "n < 2 * tg_g g" using s by (simp add: n_def)
  have stock: "w13_stock g t = n * tg_kt g + t mod tg_kt g" by (simp add: w13_stock_def n_def)
  show "w13_stock g t < 2 * tg_g g * tg_kt g" unfolding stock by (rule grid_less) (use n kt in simp_all)
  have d: "w13_stock g t div tg_kt g = n" "w13_stock g t mod tg_kt g = t mod tg_kt g" using kt by (simp_all add: stock)
  have "n mod tg_g g * 2 + (if tg_g g \<le> n then 0 else 1) = t div tg_kt g"
  proof (cases "t div tg_kt g mod 2 = 0")
    case True
    then have "n mod tg_g g = t div tg_kt g div 2" "tg_g g \<le> n" using s by (simp_all add: n_def)
    then show ?thesis using True by (simp add: minus_mod_eq_div_mult [symmetric])
  next
    case False
    then have "n mod tg_g g = t div tg_kt g div 2" "\<not> tg_g g \<le> n" using s by (simp_all add: n_def)
    moreover have "q div 2 * 2 + 1 = q" if "q mod 2 \<noteq> 0" for q :: nat using that by presburger
    ultimately show ?thesis using False by simp
  qed
  then show "w13_index g (w13_stock g t div tg_kt g) (w13_stock g t mod tg_kt g) = t"
    unfolding d w13_index_def by simp
qed

interpretation w2_order: tile_order "tg_ot g" "tg_st g" "w2_tile g" "\<lambda>a s. s * tg_ot g + a" "w2_stock g" for g
proof
  fix a s assume r: "a < tg_ot g" "s < tg_st g"
  show "w2_tile g a s = Inr (s * tg_ot g + a)" using r by (simp add: w2_tile_def)
  show "s * tg_ot g + a < tg_ot g * tg_st g" using grid_less [OF r(2,1)] by (simp add: mult.commute)
  show "w2_stock g (s * tg_ot g + a) = a * tg_st g + s" using r by (simp add: w2_stock_def)
next
  fix t assume t: "t < tg_ot g * tg_st g"
  then have o: "0 < tg_ot g" by (cases "tg_ot g") auto
  have s: "t div tg_ot g < tg_st g" using t by (simp add: mult.commute less_mult_imp_div_less)
  show "w2_stock g t < tg_ot g * tg_st g" unfolding w2_stock_def by (rule grid_less) (use o s in simp_all)
  show "w2_stock g t mod tg_st g * tg_ot g + w2_stock g t div tg_st g = t" using s by (simp add: w2_stock_def)
qed

lemma w13_permutation_eq: "w13_permutation g = Inr (w13_order.order g)"
  using w13_order.permutation [of g] by (simp add: w13_permutation_def tg_tiles13_def)

lemma w2_permutation_eq: "w2_permutation g = Inr (w2_order.order g)"
  using w2_order.permutation [of g] by (simp add: w2_permutation_def tg_tiles2_def mult.commute)

text \<open>What the constructor gives.\<close>

lemma geometry_sizes:
  assumes "tile_geometry hidden intermediate experts = Inr g"
  shows "tg_k g div 2 = tg_kt g * TILE_BYTES" "tg_n g div 2 = tg_st g * TILE_BYTES" "tg_k g = tg_ot g * TILE_ROWS" "tg_n g = tg_g g * TILE_ROWS"
    "tg_st g = tg_g g"
proof -
  have "tg_k g mod 128 = 0" "tg_n g mod 128 = 0" using assms by (auto simp: tile_geometry_def TILE_ROWS_def)
  then show "tg_k g div 2 = tg_kt g * TILE_BYTES" "tg_n g div 2 = tg_st g * TILE_BYTES" "tg_k g = tg_ot g * TILE_ROWS" "tg_n g = tg_g g * TILE_ROWS"
    "tg_st g = tg_g g"
    by (auto simp: tg_kt_def tg_st_def tg_ot_def tg_g_def TILE_ROWS_def TILE_BYTES_def)
qed

lemma w13_size:
  assumes "tile_geometry hidden intermediate experts = Inr g"
  shows "tg_rows13 g * (tg_k g div 2) = 2 * tg_g g * TILE_ROWS * tg_kt g * TILE_BYTES"
  unfolding tg_rows13_def geometry_sizes(1,4) [OF assms] by simp

lemma w2_size:
  assumes "tile_geometry hidden intermediate experts = Inr g"
  shows "tg_k g * (tg_n g div 2) = tg_ot g * TILE_ROWS * tg_st g * TILE_BYTES"
  unfolding geometry_sizes(2) [OF assms] geometry_sizes(3) [OF assms] by simp

definition well_shaped :: "'b experts \<Rightarrow> bool" where
  "well_shaped w \<longleftrightarrow> (\<forall>bytes \<in> set (ex_bytes w). length bytes = ex_rows w * ex_cols w)"

lemma stock_range_w13:
  assumes "tile_geometry hidden intermediate experts = Inr g"
  shows "read_ranges bytes (stock_w13_box g n k)
    = concat (map (\<lambda>r. take TILE_BYTES (drop (((n * TILE_ROWS + r) * tg_kt g + k) * TILE_BYTES) bytes)) [0..<TILE_ROWS])"
  unfolding read_ranges_def stock_w13_box_def Let_def geometry_sizes(1) [OF assms] by (simp add: comp_def algebra_simps)

lemma stock_range_w2:
  assumes "tile_geometry hidden intermediate experts = Inr g"
  shows "read_ranges bytes (stock_w2_box g a s)
    = concat (map (\<lambda>r. take TILE_BYTES (drop (((a * TILE_ROWS + r) * tg_st g + s) * TILE_BYTES) bytes)) [0..<TILE_ROWS])"
  unfolding read_ranges_def stock_w2_box_def Let_def geometry_sizes(2) [OF assms] by (simp add: comp_def algebra_simps)

text \<open>
  After the repack, the box the kernel reads at the tile-major index holds exactly the bytes of the stock box it stands
  for, for both weights and every expert.
\<close>

text \<open>
  C38. After the repack of both weights, the box the kernel reads at a tile-major index holds
  exactly the bytes of the stock box it stands for, for every expert and tile.
\<close>

theorem boxes_read_the_same_bytes:
  assumes "tile_geometry hidden intermediate experts = Inr g" "well_shaped w" "well_shaped v"
    and "repack_w13 g w = Inr tm" "repack_w2 g v = Inr tm2" "e < length (ex_bytes w)" "e < length (ex_bytes v)"
    and "n < 2 * tg_g g" "k < tg_kt g" "a < tg_ot g" "s < tg_st g"
  shows "\<exists>t u. w13_tile g n k = Inr t \<and> read_ranges (ex_bytes tm ! e) (tile_major_box t) = read_ranges (ex_bytes w ! e) (stock_w13_box g n k)
    \<and> w2_tile g a s = Inr u \<and> read_ranges (ex_bytes tm2 ! e) (tile_major_box u) = read_ranges (ex_bytes v ! e) (stock_w2_box g a s)"
proof -
  have w: "ex_rows w = tg_rows13 g" "ex_cols w = tg_k g div 2" "ex_bytes tm ! e = permute_boxes (2 * tg_g g) (tg_kt g) (w13_order.order g) (ex_bytes w ! e)"
    using assms(4,6) by (auto simp: repack_w13_def w13_permutation_eq)
  have v: "ex_rows v = tg_k g" "ex_cols v = tg_n g div 2" "ex_bytes tm2 ! e = permute_boxes (tg_ot g) (tg_st g) (w2_order.order g) (ex_bytes v ! e)"
    using assms(5,7) by (auto simp: repack_w2_def w2_permutation_eq)
  have lw: "length (ex_bytes w ! e) = 2 * tg_g g * TILE_ROWS * tg_kt g * TILE_BYTES"
    using assms(2,6) w13_size [OF assms(1)] by (simp add: well_shaped_def w(1,2))
  have lv: "length (ex_bytes v ! e) = tg_ot g * TILE_ROWS * tg_st g * TILE_BYTES"
    using assms(3,7) w2_size [OF assms(1)] by (simp add: well_shaped_def v(1,2))
  have "read_ranges (ex_bytes tm ! e) (tile_major_box (w13_index g n k)) = read_ranges (ex_bytes w ! e) (stock_w13_box g n k)"
    using w13_order.permuted(2) [OF lw w13_order.idx_lt [OF assms(8,9)]] w13_order.box_bytes [OF assms(8,9)] w13_order.inv_idx [OF assms(8,9)]
    unfolding stock_range_w13 [OF assms(1)] w(3) by (simp add: read_ranges_def tile_major_box_def)
  moreover have "read_ranges (ex_bytes tm2 ! e) (tile_major_box (s * tg_ot g + a)) = read_ranges (ex_bytes v ! e) (stock_w2_box g a s)"
    using w2_order.permuted(2) [OF lv w2_order.idx_lt [OF assms(10,11)]] w2_order.box_bytes [OF assms(10,11)] w2_order.inv_idx [OF assms(10,11)]
    unfolding stock_range_w2 [OF assms(1)] v(3) by (simp add: read_ranges_def tile_major_box_def)
  ultimately show ?thesis using w13_order.tile [OF assms(8,9)] w2_order.tile [OF assms(10,11)] by blast
qed

text \<open>Unpacking a repacked W13 gives the tensor back.\<close>

text \<open>Unpacking a repacked W13 gives the tensor back, byte for byte.\<close>

theorem w13_repack_round_trip:
  assumes "tile_geometry hidden intermediate experts = Inr g" "well_shaped w" "repack_w13 g w = Inr tm"
  shows "unpack_w13 g tm = Inr w"
proof -
  have w: "ex_rows w = tg_rows13 g" "ex_cols w = tg_k g div 2" "ex_bytes tm = map (permute_boxes (2 * tg_g g) (tg_kt g) (w13_order.order g)) (ex_bytes w)"
    using assms(3) by (auto simp: repack_w13_def w13_permutation_eq)
  have "unbox (2 * tg_g g) (tg_kt g) (map (\<lambda>t. split_boxes (tg_tiles13 g) (permute_boxes (2 * tg_g g) (tg_kt g) (w13_order.order g) bytes) ! t)
      (argsort (w13_order.order g))) = bytes" if "bytes \<in> set (ex_bytes w)" for bytes
    using w13_order.round_trip [of bytes g] that assms(2) w13_size [OF assms(1)] by (simp add: well_shaped_def w(1,2) tg_tiles13_def)
  then show ?thesis by (simp add: unpack_w13_def w13_permutation_eq w comp_def map_idI)
qed

text \<open>A task reads the tile-major boxes of each weight from the first to the last, one after the other.\<close>

lemma consecutive: "concat (map (\<lambda>s. map f [s * m..<Suc s * m]) [0..<n]) = map f [0..<n * m]"
proof (induction n)
  case (Suc n)
  then show ?case using upt_add_eq_append [of 0 "n * m" m] by (simp add: add.commute)
qed simp

theorem task_reads_in_order:
  assumes "tile_geometry hidden intermediate experts = Inr g"
  shows "map (snd \<circ> snd) (filter (\<lambda>b. fst b = W13) (task_sequence g)) = map Inr [0..<tg_tiles13 g]
    \<and> map (snd \<circ> snd) (filter (\<lambda>b. fst b = W2) (task_sequence g)) = map Inr [0..<tg_tiles2 g]"
proof
  let ?kt = "tg_kt g"
  have up: "map (\<lambda>k. Inr (b + k)) [0..<m] = map Inr [b..<b + m]" for b m :: nat
    by (induction m) simp_all
  have w13: "map (\<lambda>k. w13_tile g (tg_g g + s) k) [0..<?kt] @ map (\<lambda>k. w13_tile g s k) [0..<?kt] = map Inr [s * (2 * ?kt)..<Suc s * (2 * ?kt)]"
    if s: "s < tg_g g" for s
  proof -
    have "map (\<lambda>k. w13_tile g (tg_g g + s) k) [0..<?kt] = map (\<lambda>k. Inr (s * (2 * ?kt) + k)) [0..<?kt]"
      using s by (intro map_cong) (simp_all add: w13_order.tile w13_index_def)
    moreover have "map (\<lambda>k. w13_tile g s k) [0..<?kt] = map (\<lambda>k. Inr (s * (2 * ?kt) + ?kt + k)) [0..<?kt]"
      using s by (intro map_cong) (simp_all add: w13_order.tile w13_index_def add_mult_distrib)
    moreover have "[s * (2 * ?kt)..<Suc s * (2 * ?kt)] = [s * (2 * ?kt)..<s * (2 * ?kt) + ?kt] @ [s * (2 * ?kt) + ?kt..<s * (2 * ?kt) + ?kt + ?kt]"
      using upt_add_eq_append [of "s * (2 * ?kt)" "s * (2 * ?kt) + ?kt" ?kt] by (simp add: algebra_simps)
    ultimately show ?thesis unfolding up by simp
  qed
  have w2: "map (\<lambda>a. w2_tile g a s) [0..<tg_ot g] = map Inr [s * tg_ot g..<Suc s * tg_ot g]" if s: "s < tg_g g" for s
  proof -
    have "map (\<lambda>a. w2_tile g a s) [0..<tg_ot g] = map (\<lambda>a. Inr (s * tg_ot g + a)) [0..<tg_ot g]"
      using s geometry_sizes(5) [OF assms] by (intro map_cong) (simp_all add: w2_order.tile)
    then show ?thesis unfolding up by (simp add: add.commute)
  qed
  let ?slice = "\<lambda>s. map (\<lambda>k. (W13, (tg_g g + s, k), w13_tile g (tg_g g + s) k)) [0..<?kt] @ map (\<lambda>k. (W13, (s, k), w13_tile g s k)) [0..<?kt]
      @ map (\<lambda>a. (W2, (a, s), w2_tile g a s)) [0..<tg_ot g]"
  have each13: "map (snd \<circ> snd) (filter (\<lambda>b. fst b = W13) (?slice s)) = map Inr [s * (2 * ?kt)..<Suc s * (2 * ?kt)]" if "s < tg_g g" for s
    unfolding w13 [OF that, symmetric] by (simp add: filter_map comp_def)
  have each2: "map (snd \<circ> snd) (filter (\<lambda>b. fst b = W2) (?slice s)) = map Inr [s * tg_ot g..<Suc s * tg_ot g]" if "s < tg_g g" for s
    unfolding w2 [OF that, symmetric] by (simp add: filter_map comp_def)
  have "map (snd \<circ> snd) (filter (\<lambda>b. fst b = W13) (task_sequence g)) = concat (map (\<lambda>s. map Inr [s * (2 * ?kt)..<Suc s * (2 * ?kt)]) [0..<tg_g g])"
    unfolding task_sequence_def filter_concat map_concat map_map
    by (intro arg_cong [where f = concat] map_cong refl, unfold comp_def) (rule each13 [unfolded comp_def], simp)
  also have "\<dots> = map Inr [0..<tg_g g * (2 * ?kt)]" by (rule consecutive)
  also have "tg_g g * (2 * ?kt) = tg_tiles13 g" by (simp add: tg_tiles13_def)
  finally show "map (snd \<circ> snd) (filter (\<lambda>b. fst b = W13) (task_sequence g)) = map Inr [0..<tg_tiles13 g]" .
  have "map (snd \<circ> snd) (filter (\<lambda>b. fst b = W2) (task_sequence g)) = concat (map (\<lambda>s. map Inr [s * tg_ot g..<Suc s * tg_ot g]) [0..<tg_g g])"
    unfolding task_sequence_def filter_concat map_concat map_map
    by (intro arg_cong [where f = concat] map_cong refl, unfold comp_def) (rule each2 [unfolded comp_def], simp)
  also have "\<dots> = map Inr [0..<tg_g g * tg_ot g]" by (rule consecutive)
  also have "tg_g g * tg_ot g = tg_tiles2 g" by (simp add: tg_tiles2_def geometry_sizes(5) [OF assms])
  finally show "map (snd \<circ> snd) (filter (\<lambda>b. fst b = W2) (task_sequence g)) = map Inr [0..<tg_tiles2 g]" .
qed

section \<open>In place\<close>

lemma repack_blocks_whole:
  assumes "\<And>bs. repack (w\<lparr>ex_bytes := bs\<rparr>) = Inr \<lparr>ex_rows = r, ex_cols = c, ex_bytes = map f bs\<rparr>"
  shows "repack_blocks repack step (map (\<lambda>i. i * step) [j..<j + m]) (w\<lparr>ex_bytes := map f (take (j * step) bs) @ drop (j * step) bs\<rparr>)
    = Inr (w\<lparr>ex_bytes := map f (take ((j + m) * step) bs) @ drop ((j + m) * step) bs\<rparr>)"
proof (induction m arbitrary: j)
  case (Suc m)
  let ?done = "map f (take (j * step) bs)"
  have l: "length ?done = min (length bs) (j * step)" by simp
  have t: "take (j * step) (?done @ drop (j * step) bs) = ?done" by (simp add: min_def)
  have d: "drop (j * step) (?done @ drop (j * step) bs) = drop (j * step) bs" by (cases "j * step \<le> length bs") simp_all
  have "drop (j * step + step) (?done @ drop (j * step) bs) = drop step (drop (j * step) (?done @ drop (j * step) bs))" by (simp only: drop_drop add.commute)
  then have d2: "drop (j * step + step) (?done @ drop (j * step) bs) = drop (Suc j * step) bs" unfolding d by (simp add: add.commute)
  have more_done: "?done @ map f (take step (drop (j * step) bs)) = map f (take (Suc j * step) bs)" proof -
    have e: "Suc j * step = j * step + step" by simp
    show ?thesis unfolding e take_add map_append by (rule refl)
  qed
  have up: "[j..<j + Suc m] = j # [Suc j..<Suc j + m]" by (simp add: upt_conv_Cons)
  have one: "repack_blocks repack step (j * step # es) (w\<lparr>ex_bytes := cur\<rparr>)
      = repack_blocks repack step es (w\<lparr>ex_bytes := take (j * step) cur @ map f (take step (drop (j * step) cur)) @ drop (j * step + step) cur\<rparr>)" for es cur
    by (simp add: assms)
  show ?case
    unfolding up list.map one t d d2 append_assoc [symmetric] more_done using Suc.IH [of "Suc j"] by simp
qed simp

text \<open>The in-place repack in blocks of any size gives what the repack of the whole tensor gives.\<close>

text \<open>
  The in-place repack, in blocks of any number of bytes, gives what the repack of the
  whole tensor gives.
\<close>

theorem inplace_repack_is_whole:
  assumes "tile_geometry hidden intermediate experts = Inr g" "repack_w13 g w = Inr tm" "ex_bytes w \<noteq> []" "0 < ex_rows w * ex_cols w"
  shows "repack_inplace (repack_w13 g) chunk_bytes w = Inr tm"
proof -
  let ?f = "permute_boxes (2 * tg_g g) (tg_kt g) (w13_order.order g)"
  have s: "ex_rows w = tg_rows13 g" "ex_cols w = tg_k g div 2"
    and tm: "tm = \<lparr>ex_rows = tg_tiles13 g * TILE_ROWS, ex_cols = TILE_BYTES, ex_bytes = map ?f (ex_bytes w)\<rparr>"
    using assms(2) by (auto simp: repack_w13_def w13_permutation_eq)
  have each: "repack_w13 g (w\<lparr>ex_bytes := bs\<rparr>) = Inr \<lparr>ex_rows = tg_tiles13 g * TILE_ROWS, ex_cols = TILE_BYTES, ex_bytes = map ?f bs\<rparr>" for bs
    by (simp add: repack_w13_def w13_permutation_eq s)
  define step where "step = max 1 (min (length (ex_bytes w)) (chunk_bytes div (ex_rows w * ex_cols w)))"
  define m where "m = (length (ex_bytes w) + step - 1) div step"
  have step: "0 < step" by (simp add: step_def)
  have "length (ex_bytes w) + step - 1 < Suc m * step" unfolding m_def using step by (metis dividend_less_div_times mult.commute mult_Suc)
  then have m: "length (ex_bytes w) \<le> m * step" using step by simp
  have "repack_blocks (repack_w13 g) step (map (\<lambda>i. i * step) [0..<m]) w = Inr (w\<lparr>ex_bytes := map ?f (ex_bytes w)\<rparr>)"
    using repack_blocks_whole [OF each, of step 0 m "ex_bytes w"] m by simp
  moreover have "ex_rows w * ex_cols w div TILE_BYTES = tg_tiles13 g * TILE_ROWS"
    unfolding s w13_size [OF assms(1)] by (simp add: TILE_BYTES_def tg_tiles13_def algebra_simps)
  ultimately show ?thesis
    using assms(3,4) unfolding repack_inplace_def Let_def step_def [symmetric] m_def [symmetric] tm by simp
qed


section \<open>Examples\<close>

definition demo_geom :: tile_geom where
  "demo_geom = \<lparr>tg_k = 256, tg_n = 128, tg_e = 1\<rparr>"

lemma demo_geometry: "tile_geometry 256 128 1 = Inr demo_geom" by code_simp

definition demo_w13 :: "nat experts" where
  "demo_w13 = \<lparr>ex_rows = 256, ex_cols = 128, ex_bytes = [[0..<32768]]\<rparr>"

definition demo_w2 :: "nat experts" where
  "demo_w2 = \<lparr>ex_rows = 256, ex_cols = 64, ex_bytes = [[0..<16384]]\<rparr>"

lemma demo_tensor_shapes: "well_shaped demo_w13" "well_shaped demo_w2" "length (ex_bytes demo_w13) = 1" "length (ex_bytes demo_w2) = 1"
  by (simp_all add: well_shaped_def demo_w13_def demo_w2_def)

lemma demo_repacks: "\<exists>tm. repack_w13 demo_geom demo_w13 = Inr tm" "\<exists>tm. repack_w2 demo_geom demo_w2 = Inr tm"
  by (simp_all add: repack_w13_def repack_w2_def w13_permutation_eq w2_permutation_eq demo_geom_def demo_w13_def demo_w2_def tg_rows13_def)

lemma demo_geom_sizes: "tg_g demo_geom = 1" "tg_kt demo_geom = 2" "tg_ot demo_geom = 2" "tg_st demo_geom = 1"
  by code_simp+

theorem boxes_read_the_same_bytes_witness:
  "\<exists>tm tm2 t u. repack_w13 demo_geom demo_w13 = Inr tm \<and> repack_w2 demo_geom demo_w2 = Inr tm2
     \<and> read_ranges (ex_bytes tm ! 0) (tile_major_box t) = read_ranges (ex_bytes demo_w13 ! 0) (stock_w13_box demo_geom 1 1)
     \<and> read_ranges (ex_bytes tm2 ! 0) (tile_major_box u) = read_ranges (ex_bytes demo_w2 ! 0) (stock_w2_box demo_geom 1 0)"
proof -
  obtain tm tm2 where "repack_w13 demo_geom demo_w13 = Inr tm" "repack_w2 demo_geom demo_w2 = Inr tm2" using demo_repacks by blast
  then show ?thesis
    using boxes_read_the_same_bytes [OF demo_geometry demo_tensor_shapes(1,2), of tm tm2 0 1 1 1 0] demo_tensor_shapes demo_geom_sizes by auto
qed

theorem w13_repack_round_trip_witness:
  "\<exists>tm. repack_w13 demo_geom demo_w13 = Inr tm \<and> unpack_w13 demo_geom tm = Inr demo_w13"
  using demo_repacks(1) w13_repack_round_trip [OF demo_geometry demo_tensor_shapes(1)] by blast

theorem task_reads_in_order_witness:
  "map (snd \<circ> snd) (filter (\<lambda>b. fst b = W13) (task_sequence demo_geom)) = [Inr 0, Inr 1, Inr 2, Inr 3]"
  using task_reads_in_order [OF demo_geometry] demo_geom_sizes by (simp add: tg_tiles13_def upt_rec)

theorem inplace_repack_is_whole_witness:
  "repack_inplace (repack_w13 demo_geom) 1000 demo_w13 = repack_w13 demo_geom demo_w13"
proof -
  obtain tm where "repack_w13 demo_geom demo_w13 = Inr tm" using demo_repacks(1) by blast
  then show ?thesis using inplace_repack_is_whole [OF demo_geometry, of demo_w13 tm 1000] by (simp add: demo_w13_def)
qed

end
