(* ===== verification/Overlay_Build.thy ===== *)
theory Overlay_Build
  imports Ringside_Prelude "HOL-Library.Char_ord" "HOL-Library.List_Lexorder"
begin

text \<open>
  The overlay builder (\<open>src/sources/apply.py\<close>): every served file of a profile is patched from the base image, copied from
  the repository or taken from the supplied artefacts, checked against its recorded digest, written below the output
  directory and recorded in the receipt. The inputs are maps from paths to contents of any type; SHA-256 and
  \<open>git apply\<close> are parameters. Paths are ASCII; the text of a problem is its exception. Writing through a symbolic link that
  an earlier entry made, and a directory in the place of a file, are not modelled.
\<close>

section \<open>Paths and the Humming package\<close>

text \<open>The parts of a path below its base, without empty parts and \<open>.\<close>.\<close>

definition rel_parts :: "string \<Rightarrow> string list" where
  "rel_parts absolute = filter (\<lambda>p. p \<noteq> [] \<and> p \<noteq> ''.'') (split_on (CHR ''/'') (dropWhile (\<lambda>c. c = CHR ''/'') absolute))"

definition safe_join :: "string \<Rightarrow> string list py" where
  "safe_join absolute = py_guard (''..'' \<in> set (rel_parts absolute)) ValueError (Inr (rel_parts absolute))"

definition name_sep :: "char \<Rightarrow> bool" where
  "name_sep c \<longleftrightarrow> c \<in> {CHR ''-'', CHR ''_'', CHR ''.''}"

function dash_runs :: "string \<Rightarrow> string" where
  "dash_runs [] = []"
| "dash_runs (c # cs) = (if name_sep c then CHR ''-'' # dash_runs (dropWhile name_sep cs) else c # dash_runs cs)"
  by pat_completeness auto

termination
  by (relation "measure length") (auto simp: le_imp_less_Suc length_dropWhile_le)

definition ascii_lower :: "string \<Rightarrow> string" where
  "ascii_lower s = map (\<lambda>c. let n = (of_char c :: nat) in if 65 \<le> n \<and> n \<le> 90 then char_of (n + 32) else c) s"

definition canonical_name :: "string \<Rightarrow> string" where
  "canonical_name name = ascii_lower (dash_runs name)"

text \<open>The header lines of a METADATA file up to the first blank one; the first value of a key stays.\<close>

fun read_headers :: "string list \<Rightarrow> (string \<rightharpoonup> string) \<Rightarrow> (string \<rightharpoonup> string)" where
  "read_headers [] headers = headers"
| "read_headers (line # rest) headers =
     (if py_strip line = [] then headers
      else let key = ascii_lower (py_strip (takeWhile (\<lambda>c. c \<noteq> CHR '':'') line));
               value = py_strip (tl (dropWhile (\<lambda>c. c \<noteq> CHR '':'') line))
           in read_headers rest (if CHR '':'' \<in> set line \<and> headers key = None then headers(key \<mapsto> value) else headers))"

record 'd third_dir =
  td_files :: "string \<rightharpoonup> 'd"
  td_metadata :: "string list option"

record distribution =
  di_name :: string
  di_version :: string

section \<open>The manifest and the inputs\<close>

record file_entry =
  fe_source :: "string option"
  fe_sha :: string
  fe_per_rank :: "(string \<times> string) list"

record overlay_item =
  it_target :: string
  it_kind :: string
  it_sha :: string
  it_preimage :: string
  it_patch :: string
  it_source :: string
  it_source_dir :: "string option"
  it_dist :: "distribution option"
  it_files :: "(string \<times> file_entry) list"
  it_links :: "(string \<times> string) list"

text \<open>The digest and \<open>git apply\<close> (preimage, patch, name) are parameters; \<open>None\<close> is a failing \<open>git apply\<close>.\<close>

record 'd build_env =
  be_sha :: "'d \<Rightarrow> string"
  be_git :: "'d \<Rightarrow> 'd \<Rightarrow> string \<Rightarrow> 'd option"
  be_repo :: "string \<rightharpoonup> 'd"
  be_image :: "string list \<rightharpoonup> 'd"
  be_artefacts :: "(string \<rightharpoonup> 'd) option"
  be_third :: "(string \<rightharpoonup> 'd third_dir) option"
  be_rank :: "string option"
  be_allow :: bool
  be_install_root :: string

datatype 'd node = File 'd | Link string

record 'd overlay =
  ov_out :: "string list \<rightharpoonup> 'd node"
  ov_files :: "(string \<times> string \<times> string option) list"
  ov_problems :: "py_error list"

definition some_or :: "py_error \<Rightarrow> 'a option \<Rightarrow> 'a py" where
  "some_or e r = (case r of None \<Rightarrow> Inl e | Some x \<Rightarrow> Inr x)"

definition third_party_base :: "'d build_env \<Rightarrow> overlay_item \<Rightarrow> 'd third_dir py" where
  "third_party_base env it =
     py_guard (case it_source_dir it of None \<Rightarrow> True | Some d \<Rightarrow> d = [] \<or> CHR ''/'' \<in> set d \<or> d = ''.'' \<or> d = ''..'') ValueError
       (py_bind (some_or LookupError (be_third env)) (\<lambda>dirs.
          py_bind (some_or LookupError (dirs (the (it_source_dir it)))) (\<lambda>base.
            case it_dist it of None \<Rightarrow> Inr base
            | Some wanted \<Rightarrow>
                py_bind (some_or LookupError (td_metadata base)) (\<lambda>lines.
                  let headers = read_headers lines Map.empty
                  in py_guard (canonical_name (case headers ''name'' of None \<Rightarrow> [] | Some n \<Rightarrow> n) \<noteq> canonical_name (di_name wanted)
                       \<or> headers ''version'' \<noteq> Some (di_version wanted)) ValueError (Inr base)))))"

definition find_artefact :: "(string \<rightharpoonup> 'd) option \<Rightarrow> string \<Rightarrow> string \<Rightarrow> 'd option" where
  "find_artefact directory sha name =
     (case directory of None \<Rightarrow> None | Some d \<Rightarrow> (case d sha of Some x \<Rightarrow> Some x | None \<Rightarrow> d name))"

section \<open>One served file\<close>

text \<open>The bytes of a served file with the status and the digest to record.\<close>

type_synonym 'd fetched = "('d \<times> string \<times> string) py"

definition wanted_shas :: "'d build_env \<Rightarrow> file_entry \<Rightarrow> string list py" where
  "wanted_shas env f =
     (if fe_per_rank f = [] then Inr [fe_sha f]
      else case be_rank env of
        None \<Rightarrow> Inr (map snd (fe_per_rank f))
      | Some r \<Rightarrow> py_bind (some_or KeyError (map_of (fe_per_rank f) r)) (\<lambda>sha. Inr [sha]))"

fun first_some :: "'a option list \<Rightarrow> 'a option" where
  "first_some [] = None"
| "first_some (x # xs) = (case x of Some y \<Rightarrow> Some y | None \<Rightarrow> first_some xs)"

definition artefact_file :: "'d build_env \<Rightarrow> 'd third_dir option \<Rightarrow> string \<Rightarrow> file_entry \<Rightarrow> 'd fetched" where
  "artefact_file env base name f =
     (if fe_source f \<noteq> None \<and> fe_source f \<noteq> Some [] then
        py_bind (some_or OSError (be_repo env (the (fe_source f)))) (\<lambda>data.
          py_guard (be_sha env data \<noteq> fe_sha f) ValueError (Inr (data, ''copied'', fe_sha f)))
      else
        py_bind (wanted_shas env f) (\<lambda>wanted.
          py_bind (some_or LookupError
            (case base of Some b \<Rightarrow> td_files b name
             | None \<Rightarrow> first_some (map (\<lambda>w. find_artefact (be_artefacts env) w name) (sort (remdups wanted))))) (\<lambda>data.
            let status = (if be_sha env data \<in> set wanted then ''measured-artefact'' else ''rebuilt-artefact'')
            in py_guard (status = ''rebuilt-artefact'' \<and> \<not> be_allow env) ValueError (Inr (data, status, be_sha env data)))))"

definition patched_file :: "'d build_env \<Rightarrow> overlay_item \<Rightarrow> 'd fetched" where
  "patched_file env it =
     py_bind (safe_join (it_target it)) (\<lambda>src.
       py_bind (some_or LookupError (be_image env src)) (\<lambda>pre.
         py_guard (be_sha env pre \<noteq> it_preimage it) ValueError
           (py_bind (some_or OSError (be_repo env (it_patch it))) (\<lambda>patch.
             py_bind (some_or ValueError (be_git env pre patch (drop (length (be_install_root env)) (it_target it)))) (\<lambda>post.
               py_guard (be_sha env post \<noteq> it_sha it) ValueError (Inr (post, ''patched'', it_sha it)))))))"

definition copied_file :: "'d build_env \<Rightarrow> overlay_item \<Rightarrow> 'd fetched" where
  "copied_file env it =
     py_bind (some_or OSError (be_repo env (it_source it))) (\<lambda>data.
       py_guard (be_sha env data \<noteq> it_sha it) ValueError (Inr (data, ''copied'', it_sha it)))"

definition path_name :: "string \<Rightarrow> string" where
  "path_name target = (case rev (rel_parts target) of [] \<Rightarrow> [] | p # _ \<Rightarrow> p)"

section \<open>The overlay\<close>

definition is_lookup :: "py_error \<Rightarrow> bool" where
  "is_lookup e \<longleftrightarrow> e \<in> {LookupError, KeyError, IndexError}"

definition fail_target :: "string \<Rightarrow> py_error \<Rightarrow> 'd overlay \<Rightarrow> 'd overlay" where
  "fail_target target e ov =
     ov\<lparr>ov_problems := ov_problems ov @ [e], ov_files := dict_put target (if is_lookup e then ''missing'' else ''refused'', None) (ov_files ov)\<rparr>"

text \<open>Fetch, write and record one served file; an exception is recorded as a problem.\<close>

definition serve_file :: "string \<Rightarrow> 'd fetched \<Rightarrow> 'd overlay \<Rightarrow> 'd overlay" where
  "serve_file target r ov =
     (case py_bind r (\<lambda>(data, status, sha). py_bind (safe_join target) (\<lambda>p. Inr (p, data, status, sha))) of
        Inl e \<Rightarrow> fail_target target e ov
      | Inr (p, data, status, sha) \<Rightarrow>
          ov\<lparr>ov_out := (ov_out ov)(p \<mapsto> File data), ov_files := dict_put target (status, Some sha) (ov_files ov)\<rparr>)"

definition sub_target :: "overlay_item \<Rightarrow> string \<Rightarrow> string" where
  "sub_target it name = it_target it @ ''/'' @ name"

fun put_links :: "overlay_item \<Rightarrow> (string \<times> string) list \<Rightarrow> 'd overlay \<Rightarrow> 'd overlay \<times> unit py" where
  "put_links it [] ov = (ov, Inr ())"
| "put_links it ((link, dest) # rest) ov =
     (case safe_join (sub_target it link) of
        Inl e \<Rightarrow> (ov, Inl e)
      | Inr p \<Rightarrow> put_links it rest
          (ov\<lparr>ov_out := (ov_out ov)(p \<mapsto> Link dest), ov_files := dict_put (sub_target it link) (''symlink'', None) (ov_files ov)\<rparr>))"

definition is_dir_kind :: "string \<Rightarrow> bool" where
  "is_dir_kind kind \<longleftrightarrow> kind \<in> {''src-dir'', ''config-dir'', ''binary-dir'', ''third-party-dir''}"

definition dir_base :: "'d build_env \<Rightarrow> overlay_item \<Rightarrow> 'd third_dir option py" where
  "dir_base env it =
     (if it_kind it = ''third-party-dir'' then py_bind (third_party_base env it) (\<lambda>b. Inr (Some b)) else Inr None)"

definition build_dir :: "'d build_env \<Rightarrow> overlay_item \<Rightarrow> 'd overlay \<Rightarrow> 'd overlay" where
  "build_dir env it ov =
     (case dir_base env it of
        Inl e \<Rightarrow> fail_target (it_target it) e ov
      | Inr base \<Rightarrow>
          (case put_links it (it_links it) (fold (\<lambda>(name, f). serve_file (sub_target it name) (artefact_file env base name f)) (it_files it) ov) of
             (ov', Inl e) \<Rightarrow> fail_target (it_target it) e ov'
           | (ov', Inr _) \<Rightarrow> ov'))"

definition build_item :: "'d build_env \<Rightarrow> overlay_item \<Rightarrow> 'd overlay \<Rightarrow> 'd overlay" where
  "build_item env it ov =
     (if it_kind it = ''patch'' then serve_file (it_target it) (patched_file env it) ov
      else if it_kind it \<in> {''src'', ''template''} then serve_file (it_target it) (copied_file env it) ov
      else if it_kind it = ''binary'' then
        serve_file (it_target it) (artefact_file env None (path_name (it_target it)) \<lparr>fe_source = None, fe_sha = it_sha it, fe_per_rank = []\<rparr>) ov
      else if is_dir_kind (it_kind it) then build_dir env it ov
      else fail_target (it_target it) ValueError ov)"

definition build_overlay :: "'d build_env \<Rightarrow> overlay_item list \<Rightarrow> 'd overlay" where
  "build_overlay env items = fold (build_item env) items \<lparr>ov_out = Map.empty, ov_files = [], ov_problems = []\<rparr>"

definition exit_code :: "'d overlay \<Rightarrow> int" where
  "exit_code ov = (if ov_problems ov = [] then 0 else 1)"

section \<open>What a served file must be\<close>

definition accepted_shas :: "'d build_env \<Rightarrow> file_entry \<Rightarrow> string set" where
  "accepted_shas env f =
     (if fe_source f \<noteq> None \<and> fe_source f \<noteq> Some [] then {fe_sha f}
      else case wanted_shas env f of Inl _ \<Rightarrow> {} | Inr wanted \<Rightarrow> set wanted)"

text \<open>The files of an entry with the digests the manifest accepts, and every path the entry writes.\<close>

definition served :: "'d build_env \<Rightarrow> overlay_item \<Rightarrow> (string \<times> string set) list" where
  "served env it =
     (if is_dir_kind (it_kind it) then map (\<lambda>(name, f). (sub_target it name, accepted_shas env f)) (it_files it)
      else [(it_target it, {it_sha it})])"

definition item_targets :: "overlay_item \<Rightarrow> string list" where
  "item_targets it =
     (if is_dir_kind (it_kind it) then map (sub_target it \<circ> fst) (it_files it) @ map (sub_target it \<circ> fst) (it_links it)
      else [it_target it])"

definition verified :: "'d build_env \<Rightarrow> 'd overlay \<Rightarrow> string \<times> string set \<Rightarrow> bool" where
  "verified env ov x \<longleftrightarrow>
     (\<exists>data status. ov_out ov (rel_parts (fst x)) = Some (File data)
        \<and> map_of (ov_files ov) (fst x) = Some (status, Some (be_sha env data))
        \<and> (be_sha env data \<in> snd x \<or> status = ''rebuilt-artefact'' \<and> be_allow env))"

definition fetch_ok :: "'d build_env \<Rightarrow> string set \<Rightarrow> 'd fetched \<Rightarrow> bool" where
  "fetch_ok env acc r \<longleftrightarrow>
     (\<forall>data status sha. r = Inr (data, status, sha) \<longrightarrow>
        sha = be_sha env data \<and> (be_sha env data \<in> acc \<or> status = ''rebuilt-artefact'' \<and> be_allow env))"

lemma some_or_Inr [simp]: "some_or e r = Inr x \<longleftrightarrow> r = Some x"
  by (cases r) (simp_all add: some_or_def)

lemma artefact_ok: "fetch_ok env (accepted_shas env f) (artefact_file env base name f)"
  unfolding fetch_ok_def artefact_file_def accepted_shas_def by (auto simp: Let_def split: if_splits)

lemma patched_ok: "fetch_ok env {it_sha it} (patched_file env it)"
  unfolding fetch_ok_def patched_file_def by auto

lemma copied_ok: "fetch_ok env {it_sha it} (copied_file env it)"
  unfolding fetch_ok_def copied_file_def by auto

lemma binary_ok: "fetch_ok env {it_sha it} (artefact_file env base name \<lparr>fe_source = None, fe_sha = it_sha it, fe_per_rank = []\<rparr>)"
  using artefact_ok [of env "\<lparr>fe_source = None, fe_sha = it_sha it, fe_per_rank = []\<rparr>" base name]
  by (simp add: accepted_shas_def wanted_shas_def)

section \<open>Steps leave the rest alone\<close>

definition touches :: "string set \<Rightarrow> 'd overlay \<Rightarrow> 'd overlay \<Rightarrow> bool" where
  "touches T ov ov' \<longleftrightarrow>
     ov_problems ov = [] \<and> (\<forall>p. p \<notin> rel_parts ` T \<longrightarrow> ov_out ov' p = ov_out ov p) \<and> (\<forall>t. t \<notin> T \<longrightarrow> map_of (ov_files ov') t = map_of (ov_files ov) t)"

lemma touches_trans: "touches T ov ov' \<Longrightarrow> touches T' ov' ov'' \<Longrightarrow> touches (T \<union> T') ov ov''"
  unfolding touches_def by (simp add: image_Un)

lemma verified_frame: "verified env ov x \<Longrightarrow> touches T ov ov' \<Longrightarrow> rel_parts (fst x) \<notin> rel_parts ` T \<Longrightarrow> verified env ov' x"
proof -
  assume "verified env ov x" "touches T ov ov'" and n: "rel_parts (fst x) \<notin> rel_parts ` T"
  moreover have "fst x \<notin> T" using n by blast
  ultimately show "verified env ov' x" unfolding verified_def touches_def by simp
qed

lemma serve_file_ok:
  assumes "ov_problems (serve_file target r ov) = []" "fetch_ok env acc r"
  shows "touches {target} ov (serve_file target r ov)" "verified env (serve_file target r ov) (target, acc)"
proof -
  obtain data status sha p where r: "r = Inr (data, status, sha)" "safe_join target = Inr p"
  proof (cases "py_bind r (\<lambda>(data, status, sha). py_bind (safe_join target) (\<lambda>p. Inr (p, data, status, sha)))")
    case (Inl e)
    then show ?thesis using assms(1) by (simp add: serve_file_def fail_target_def)
  next
    case (Inr b)
    then show ?thesis using that by auto
  qed
  have p: "p = rel_parts target" using r(2) by (simp add: safe_join_def)
  have s: "serve_file target r ov = ov\<lparr>ov_out := (ov_out ov)(p \<mapsto> File data), ov_files := dict_put target (status, Some sha) (ov_files ov)\<rparr>"
    by (simp add: serve_file_def r)
  show "touches {target} ov (serve_file target r ov)" using assms(1) by (simp add: touches_def s p)
  show "verified env (serve_file target r ov) (target, acc)"
    using assms(2) r(1) unfolding fetch_ok_def verified_def s by (auto simp: p)
qed

lemma fail_target_problems [simp]: "ov_problems (fail_target t e ov) \<noteq> []"
  by (simp add: fail_target_def)

lemma serve_files_ok:
  assumes "ov_problems (fold (\<lambda>x. serve_file (tgt x) (fetch x)) xs ov) = []" "\<forall>x \<in> set xs. fetch_ok env (acc x) (fetch x)"
    and "distinct (map (rel_parts \<circ> tgt) xs)"
  shows "touches (tgt ` set xs) ov (fold (\<lambda>x. serve_file (tgt x) (fetch x)) xs ov)
    \<and> (\<forall>x \<in> set xs. verified env (fold (\<lambda>x. serve_file (tgt x) (fetch x)) xs ov) (tgt x, acc x))"
  using assms
proof (induction xs rule: rev_induct)
  case (snoc x xs)
  let ?o = "fold (\<lambda>x. serve_file (tgt x) (fetch x)) xs ov" and ?e = "fold (\<lambda>x. serve_file (tgt x) (fetch x)) (xs @ [x]) ov"
  have e: "?e = serve_file (tgt x) (fetch x) ?o" by simp
  have "fetch_ok env (acc x) (fetch x)" using snoc.prems(2) by simp
  note one = serve_file_ok [of "tgt x" "fetch x" ?o, folded e, OF snoc.prems(1) this]
  have "ov_problems ?o = []" using one(1) by (simp add: touches_def)
  then have IH: "touches (tgt ` set xs) ov ?o" "\<forall>y \<in> set xs. verified env ?o (tgt y, acc y)"
    using snoc.IH snoc.prems(2,3) by simp_all
  have apart: "rel_parts (tgt y) \<notin> rel_parts ` {tgt x}" if y: "y \<in> set xs" for y
  proof
    assume "rel_parts (tgt y) \<in> rel_parts ` {tgt x}"
    then have "rel_parts (tgt x) = (rel_parts \<circ> tgt) y" by simp
    moreover have "rel_parts (tgt x) \<notin> (rel_parts \<circ> tgt) ` set xs" using snoc.prems(3) by simp
    ultimately show False using y by (metis imageI)
  qed
  have "verified env ?e (tgt y, acc y)" if "y \<in> set xs" for y
    by (rule verified_frame [OF _ one(1)]) (use IH(2) that apart in simp_all)
  then have "\<forall>y \<in> set (xs @ [x]). verified env ?e (tgt y, acc y)" using one(2) by auto
  moreover have "tgt ` set (xs @ [x]) = tgt ` set xs \<union> {tgt x}" by auto
  ultimately show ?case using touches_trans [OF IH(1) one(1)] by metis
qed (simp add: touches_def)

lemma put_links_ok:
  assumes "put_links it ls ov = (ov', Inr u)" "ov_problems ov' = []"
  shows "touches ((sub_target it \<circ> fst) ` set ls) ov ov'"
  using assms
proof (induction ls arbitrary: ov)
  case (Cons l ls)
  obtain link dest where l: "l = (link, dest)" by (cases l)
  obtain p where p: "safe_join (sub_target it link) = Inr p" using Cons.prems(1) by (cases "safe_join (sub_target it link)") (auto simp: l)
  let ?o = "ov\<lparr>ov_out := (ov_out ov)(p \<mapsto> Link dest), ov_files := dict_put (sub_target it link) (''symlink'', None) (ov_files ov)\<rparr>"
  have IH: "touches ((sub_target it \<circ> fst) ` set ls) ?o ov'" using Cons.IH [of ?o] Cons.prems by (simp add: l p)
  have "p = rel_parts (sub_target it link)" using p by (simp add: safe_join_def)
  moreover have "ov_problems ov = []" using IH by (simp add: touches_def)
  ultimately have "touches {sub_target it link} ov ?o" by (simp add: touches_def)
  then show ?case using touches_trans [OF _ IH, of "{sub_target it link}" ov] by (simp add: l comp_def)
qed (simp add: touches_def)

lemma build_item_ok:
  assumes "ov_problems (build_item env it ov) = []" "distinct (map rel_parts (item_targets it))"
  shows "touches (set (item_targets it)) ov (build_item env it ov) \<and> (\<forall>x \<in> set (served env it). verified env (build_item env it ov) x)"
proof (cases "is_dir_kind (it_kind it)")
  case False
  have "\<exists>r. build_item env it ov = serve_file (it_target it) r ov \<and> fetch_ok env {it_sha it} r"
  proof (cases "it_kind it = ''patch''")
    case True
    then show ?thesis using patched_ok unfolding build_item_def by auto
  next
    case p: False
    show ?thesis
    proof (cases "it_kind it \<in> {''src'', ''template''}")
      case True
      then have "build_item env it ov = serve_file (it_target it) (copied_file env it) ov" unfolding build_item_def using p by simp
      then show ?thesis using copied_ok by blast
    next
      case s: False
      have "it_kind it = ''binary''" using assms(1) False p s by (simp add: build_item_def split: if_splits)
      then have "build_item env it ov = serve_file (it_target it)
          (artefact_file env None (path_name (it_target it)) \<lparr>fe_source = None, fe_sha = it_sha it, fe_per_rank = []\<rparr>) ov"
        by (simp add: build_item_def)
      then show ?thesis using binary_ok by blast
    qed
  qed
  then obtain r where r: "build_item env it ov = serve_file (it_target it) r ov" "fetch_ok env {it_sha it} r" by blast
  show ?thesis using serve_file_ok [of "it_target it" r ov env "{it_sha it}"] assms(1) r False by (simp add: item_targets_def served_def)
next
  case True
  then have k: "build_item env it ov = build_dir env it ov" by (auto simp: build_item_def is_dir_kind_def)
  have p: "ov_problems (build_dir env it ov) = []" using assms(1) k by simp
  obtain base where base: "dir_base env it = Inr base" using p by (cases "dir_base env it") (simp_all add: build_dir_def)
  let ?o = "fold (\<lambda>(name, f). serve_file (sub_target it name) (artefact_file env base name f)) (it_files it) ov"
  obtain ov' u where links: "put_links it (it_links it) ?o = (ov', Inr u)"
  proof (cases "put_links it (it_links it) ?o")
    case (Pair a b)
    then show ?thesis using p base that by (cases b) (simp_all add: build_dir_def)
  qed
  have b: "build_dir env it ov = ov'" by (simp add: build_dir_def base links)
  have t2: "touches ((sub_target it \<circ> fst) ` set (it_links it)) ?o ov'" by (rule put_links_ok [OF links]) (use p b in simp)
  have o: "?o = fold (\<lambda>x. serve_file (sub_target it (fst x)) (artefact_file env base (fst x) (snd x))) (it_files it) ov"
    by (simp add: case_prod_unfold)
  have targets: "item_targets it = map (sub_target it \<circ> fst) (it_files it) @ map (sub_target it \<circ> fst) (it_links it)"
    using True by (simp add: item_targets_def)
  have d: "distinct (map (rel_parts \<circ> (\<lambda>x. sub_target it (fst x))) (it_files it))"
    using assms(2) unfolding targets by (simp add: comp_def)
  have clean: "ov_problems ?o = []" using t2 by (simp add: touches_def)
  have files: "touches ((\<lambda>x. sub_target it (fst x)) ` set (it_files it)) ov ?o
      \<and> (\<forall>x \<in> set (it_files it). verified env ?o (sub_target it (fst x), accepted_shas env (snd x)))"
    unfolding o by (rule serve_files_ok [OF clean [unfolded o] _ d]) (use artefact_ok in blast)
  have apart: "rel_parts (sub_target it (fst x)) \<notin> rel_parts ` (sub_target it \<circ> fst) ` set (it_links it)" if "x \<in> set (it_files it)" for x
    using assms(2) that unfolding targets by (auto simp: comp_def)
  have "verified env ov' (sub_target it (fst x), accepted_shas env (snd x))" if "x \<in> set (it_files it)" for x
    by (rule verified_frame [OF _ t2]) (use files that apart in simp_all)
  then have "\<forall>x \<in> set (served env it). verified env ov' x" using True by (auto simp: served_def)
  moreover have "touches (set (item_targets it)) ov ov'"
    using touches_trans [OF conjunct1 [OF files] t2] by (simp add: targets image_image comp_def)
  ultimately show ?thesis unfolding k b by simp
qed

lemma served_targets: "x \<in> set (served env it) \<Longrightarrow> fst x \<in> set (item_targets it)"
  by (force simp: served_def item_targets_def split: if_splits)

lemma build_fold_ok:
  assumes "ov_problems (fold (build_item env) items s) = []" "distinct (map rel_parts (concat (map item_targets items)))"
  shows "touches (set (concat (map item_targets items))) s (fold (build_item env) items s)
    \<and> (\<forall>it \<in> set items. \<forall>x \<in> set (served env it). verified env (fold (build_item env) items s) x)"
  using assms
proof (induction items rule: rev_induct)
  case (snoc i items)
  let ?o = "fold (build_item env) items s"
  have d: "distinct (map rel_parts (item_targets i))" "distinct (map rel_parts (concat (map item_targets items)))" using snoc.prems(2) by simp_all
  have p: "ov_problems (build_item env i ?o) = []" using snoc.prems(1) by simp
  note one = build_item_ok [OF p d(1)]
  have "ov_problems ?o = []" using one by (simp add: touches_def)
  note IH = snoc.IH [OF this d(2)]
  have "verified env (build_item env i ?o) x" if x: "it \<in> set items" "x \<in> set (served env it)" for it x
  proof (rule verified_frame [OF _ conjunct1 [OF one]])
    show "verified env ?o x" using IH x by blast
    have "fst x \<in> set (concat (map item_targets items))" using served_targets [OF x(2)] x(1) by auto
    then have "rel_parts (fst x) \<in> rel_parts ` set (concat (map item_targets items))" by (rule imageI)
    moreover have "rel_parts ` set (concat (map item_targets items)) \<inter> rel_parts ` set (item_targets i) = {}" using snoc.prems(2) by simp
    ultimately show "rel_parts (fst x) \<notin> rel_parts ` set (item_targets i)" by blast
  qed
  then show ?case using one touches_trans [OF conjunct1 [OF IH] conjunct1 [OF one]] by (auto simp: Un_commute)
qed (simp add: touches_def)

text \<open>
  When the build exits with 0 and the profile's paths are distinct, every served file of every entry is in the overlay
  with contents whose digest is the recorded one, or is recorded as rebuilt under the option that allows it, and the
  receipt shows its digest.
\<close>

text \<open>
  C39. When the overlay build exits with 0 and the profile's paths are distinct, every served
  file is in the overlay with contents whose digest is the recorded one, or is recorded as
  rebuilt under the option that allows it, and the receipt shows its digest.
\<close>

theorem overlay_is_verified:
  assumes "exit_code (build_overlay env items) = 0" "distinct (map rel_parts (concat (map item_targets items)))" "it \<in> set items"
  shows "\<forall>x \<in> set (served env it). verified env (build_overlay env items) x"
  using build_fold_ok [of env items] assms unfolding build_overlay_def exit_code_def by (auto split: if_splits)

section \<open>Example\<close>

text \<open>Contents are strings and a digest is the content itself; one patched, one copied and one third-party file.\<close>

definition demo_build :: "string build_env" where
  "demo_build = \<lparr>be_sha = (\<lambda>d. d), be_git = (\<lambda>pre patch name. Some (pre @ patch)), be_repo = [''p'' \<mapsto> ''+'', ''src/a'' \<mapsto> ''A''],
     be_image = [[''opt'', ''x''] \<mapsto> ''X''], be_artefacts = None, be_third = Some [''h-1'' \<mapsto> \<lparr>td_files = [''f'' \<mapsto> ''F''],
       td_metadata = Some [''Name: My_Pkg'', ''Version: 1'']\<rparr>], be_rank = None, be_allow = False, be_install_root = ''/opt/''\<rparr>"

definition demo_entry :: overlay_item where
  "demo_entry = \<lparr>it_target = ''/opt/x'', it_kind = ''patch'', it_sha = ''X+'', it_preimage = ''X'', it_patch = ''p'', it_source = ''src/a'',
     it_source_dir = Some ''h-1'', it_dist = Some \<lparr>di_name = ''my-pkg'', di_version = ''1''\<rparr>,
     it_files = [(''f'', \<lparr>fe_source = None, fe_sha = ''F'', fe_per_rank = []\<rparr>)], it_links = [(''l'', ''f'')]\<rparr>"

definition demo_items :: "overlay_item list" where
  "demo_items = [demo_entry, demo_entry\<lparr>it_target := ''/opt/y'', it_kind := ''src'', it_sha := ''A''\<rparr>,
     demo_entry\<lparr>it_target := ''/opt/h'', it_kind := ''third-party-dir''\<rparr>]"

theorem overlay_is_verified_witness:
  "exit_code (build_overlay demo_build demo_items) = 0 \<and> verified demo_build (build_overlay demo_build demo_items) (''/opt/h/f'', {''F''})"
proof -
  have e: "exit_code (build_overlay demo_build demo_items) = 0" by code_simp
  have d: "distinct (map rel_parts (concat (map item_targets demo_items)))" by code_simp
  have "demo_entry\<lparr>it_target := ''/opt/h'', it_kind := ''third-party-dir''\<rparr> \<in> set demo_items" by (simp add: demo_items_def)
  note v = overlay_is_verified [OF e d this]
  have "served demo_build (demo_entry\<lparr>it_target := ''/opt/h'', it_kind := ''third-party-dir''\<rparr>) = [(''/opt/h/f'', {''F''})]"
    by (simp add: served_def is_dir_kind_def demo_entry_def sub_target_def accepted_shas_def wanted_shas_def)
  then show ?thesis using v e by simp
qed

end
