(* ===== verification/Recover_Ssm.thy ===== *)
theory Recover_Ssm
  imports Ringside_Prelude
begin

text \<open>
  The arithmetic of speculative verification and recovery (\<open>src/src/tp4/vllm/models/glm5next/nvidia/ops/recoverssm.py\<close>): the
  gate and the table of slow channels, how a recurrent state is stored in a pool, the verify kernel's token loop, and the
  commit kernel, which rebuilds the state of an accepted prefix from the records of the verify. One (layer, head) is
  modelled: every layer and head does the same on its own pool. A tile has a value at every row and key channel; the
  lanes that the kernels mask off take no part. The arithmetic is any type with the operations the kernels use, so
  the definitions hold for floats; laws of a ring are assumed only where a lemma says so.
\<close>

section \<open>The gate and the slow channels\<close>

definition sigmoid :: "real \<Rightarrow> real" where
  "sigmoid x = 1 / (1 + exp (- x))"

definition kda_gate :: "real option \<Rightarrow> real \<Rightarrow> real \<Rightarrow> real \<Rightarrow> real" where
  "kda_gate lower A bias raw =
     (let x = raw + bias
      in case lower of Some b \<Rightarrow> b * sigmoid (A * x) | None \<Rightarrow> - A * (if 20 < x then x else ln (1 + exp x)))"

lemma sigmoid_bounds: "0 < sigmoid x" "sigmoid x < 1"
  by (simp_all add: sigmoid_def add_pos_pos)

lemma sigmoid_mono: "x \<le> y \<Longrightarrow> sigmoid x \<le> sigmoid y"
  unfolding sigmoid_def by (intro divide_left_mono add_left_mono) (simp_all add: add_pos_pos)

lemma gate_decays:
  assumes "0 < A" "\<And>b. lower = Some b \<Longrightarrow> b < 0"
  shows "0 < exp (kda_gate lower A bias raw)" "exp (kda_gate lower A bias raw) < 1"
    and "lower = Some b \<Longrightarrow> exp b < exp (kda_gate lower A bias raw)"
proof -
  show "0 < exp (kda_gate lower A bias raw)" by simp
  have soft: "0 < (if 20 < x then x else ln (1 + exp x))" for x :: real by (simp add: ln_gt_zero)
  have "kda_gate lower A bias raw < 0"
  proof (cases lower)
    case None
    then show ?thesis using assms(1) soft [of "raw + bias"] unfolding kda_gate_def Let_def by (simp add: mult_pos_pos)
  next
    case (Some b)
    then show ?thesis using assms(2) [OF Some] sigmoid_bounds(1) unfolding kda_gate_def Let_def by (simp add: mult_neg_pos)
  qed
  then show "exp (kda_gate lower A bias raw) < 1" by simp
  show "exp b < exp (kda_gate lower A bias raw)" if "lower = Some b"
    using assms(2) [OF that] sigmoid_bounds(2) [of "A * (raw + bias)"] that unfolding kda_gate_def Let_def by simp
qed

definition SLOW_SLOTS :: nat where "SLOW_SLOTS = 8"

definition side_layout :: "bool \<Rightarrow> nat \<Rightarrow> nat \<Rightarrow> bool" where
  "side_layout fp16 last_dim key_dim \<longleftrightarrow> fp16 \<and> last_dim = key_dim + 2 * SLOW_SLOTS"

text \<open>One head's row of the table. \<open>topk xs n\<close> is the tensor library's \<open>topk\<close>: the places of \<open>n\<close> largest values, in any
  order and with any choice among equal ones.\<close>

definition slow_row :: "(real list \<Rightarrow> nat \<Rightarrow> nat list) \<Rightarrow> nat \<Rightarrow> real \<Rightarrow> real list \<Rightarrow> int list" where
  "slow_row topk slots A_log bias =
     (let places = sort (topk (map (\<lambda>d. - (exp A_log * d)) bias) slots)
      in fold (\<lambda>i t. t[places ! i := int i]) [0..<slots] (replicate (length bias) (- 1)))"

type_synonym 'k slot_cache = "'k \<rightharpoonup> int list list"

definition slow_slot_table :: "(real list \<Rightarrow> nat \<Rightarrow> nat list) \<Rightarrow> bool \<Rightarrow> real option \<Rightarrow> real list \<Rightarrow> real list list \<Rightarrow> nat
    \<Rightarrow> 'k \<Rightarrow> 'k slot_cache \<Rightarrow> (int list list \<times> 'k slot_cache) py" where
  "slow_slot_table topk capturing lower A_log bias slots key cache =
     (case lower of None \<Rightarrow> Inl ValueError
      | Some b \<Rightarrow>
        (case cache key of Some t \<Rightarrow> Inr (t, cache)
         | None \<Rightarrow> py_guard capturing RuntimeError (py_guard (0 \<le> b) ValueError
             (let t = map2 (slow_row topk slots) A_log bias in Inr (t, cache(key \<mapsto> t))))))"

definition topk_places :: "real list \<Rightarrow> nat \<Rightarrow> nat list \<Rightarrow> bool" where
  "topk_places xs n js \<longleftrightarrow> length js = n \<and> distinct js \<and> set js \<subseteq> {..<length xs}
     \<and> (\<forall>i \<in> set js. \<forall>j < length xs. j \<notin> set js \<longrightarrow> xs ! j \<le> xs ! i)"

definition is_topk :: "(real list \<Rightarrow> nat \<Rightarrow> nat list) \<Rightarrow> bool" where
  "is_topk topk \<longleftrightarrow> (\<forall>xs n. n \<le> length xs \<longrightarrow> topk_places xs n (topk xs n))"

lemma scatter_ids:
  assumes "distinct ps" "set ps \<subseteq> {..<length t}" "n \<le> length ps"
  shows "i < n \<Longrightarrow> fold (\<lambda>i t. t[ps ! i := int i]) [0..<n] t ! (ps ! i) = int i"
    and "k \<notin> set (take n ps) \<Longrightarrow> fold (\<lambda>i t. t[ps ! i := int i]) [0..<n] t ! k = t ! k"
proof -
  have len: "length (fold (\<lambda>i t. t[ps ! i := int i]) [0..<n] t) = length t" for n by (induction n) auto
  have at: "ps ! j < length t" if "j < length ps" for j using assms(2) nth_mem [OF that] by auto
  show "fold (\<lambda>i t. t[ps ! i := int i]) [0..<n] t ! (ps ! i) = int i" if "i < n"
    using that assms(3)
  proof (induction n)
    case (Suc n)
    then show ?case
      using len [of n] at [of n] nth_eq_iff_index_eq [OF assms(1), of n i] by (cases "i = n") (simp_all add: nth_list_update)
  qed simp
  show "fold (\<lambda>i t. t[ps ! i := int i]) [0..<n] t ! k = t ! k" if "k \<notin> set (take n ps)"
    using that assms(3)
  proof (induction n)
    case (Suc n)
    then have "ps ! n \<noteq> k" "k \<notin> set (take n ps)" by (auto simp: take_Suc_conv_app_nth)
    then show ?case using Suc by simp
  qed simp
qed

text \<open>The slots of a row are distinct, and a channel with a slot decays at raw gate 0 no faster than one without.\<close>

lemma slow_row_slots:
  assumes "is_topk topk" "slots \<le> length bias"
  shows "length (slow_row topk slots A_log bias) = length bias"
    and "i < length bias \<Longrightarrow> j < length bias \<Longrightarrow> 0 \<le> slow_row topk slots A_log bias ! i
      \<Longrightarrow> slow_row topk slots A_log bias ! i = slow_row topk slots A_log bias ! j \<Longrightarrow> i = j"
    and "i < length bias \<Longrightarrow> slow_row topk slots A_log bias ! i < int slots"
    and "i < length bias \<Longrightarrow> j < length bias \<Longrightarrow> 0 \<le> slow_row topk slots A_log bias ! i \<Longrightarrow> slow_row topk slots A_log bias ! j < 0
      \<Longrightarrow> b < 0 \<Longrightarrow> exp (kda_gate (Some b) (exp A_log) (bias ! j) 0) \<le> exp (kda_gate (Some b) (exp A_log) (bias ! i) 0)"
proof -
  define pick where "pick = topk (map (\<lambda>d. - (exp A_log * d)) bias) slots"
  define ps where "ps = sort pick"
  have pick: "length pick = slots" "distinct pick" "set pick \<subseteq> {..<length bias}"
    and best: "\<And>i j. i \<in> set pick \<Longrightarrow> j < length bias \<Longrightarrow> j \<notin> set pick \<Longrightarrow> exp A_log * bias ! i \<le> exp A_log * bias ! j"
  proof -
    have *: "topk_places (map (\<lambda>d. - (exp A_log * d)) bias) slots pick" using assms by (simp add: is_topk_def pick_def)
    then show sub: "length pick = slots" "distinct pick" "set pick \<subseteq> {..<length bias}" unfolding topk_places_def by simp_all
    show "exp A_log * bias ! i \<le> exp A_log * bias ! j" if "i \<in> set pick" "j < length bias" "j \<notin> set pick" for i j
    proof -
      have i: "i < length bias" using that(1) sub(3) by auto
      have "map (\<lambda>d. - (exp A_log * d)) bias ! j \<le> map (\<lambda>d. - (exp A_log * d)) bias ! i"
        using * that unfolding topk_places_def by (metis length_map)
      then show ?thesis using i that(2) by simp
    qed
  qed
  have ps: "length ps = slots" "distinct ps" "set ps = set pick" using pick by (simp_all add: ps_def)
  have row: "slow_row topk slots A_log bias = fold (\<lambda>i t. t[ps ! i := int i]) [0..<slots] (replicate (length bias) (- 1))"
    by (simp add: slow_row_def Let_def ps_def pick_def)
  have len: "length (fold (\<lambda>i t. t[ps ! i := int i]) [0..<n] t) = length t" for n and t :: "int list" by (induction n) auto
  show "length (slow_row topk slots A_log bias) = length bias" by (simp add: row len)
  have ids: "slow_row topk slots A_log bias ! (ps ! m) = int m" if "m < slots" for m
    using scatter_ids(1) [OF ps(2), of "replicate (length bias) (- 1)" slots m] pick(3) ps that by (simp add: row)
  have rest: "slow_row topk slots A_log bias ! k = - 1" if "k < length bias" "k \<notin> set pick" for k
    using scatter_ids(2) [OF ps(2), of "replicate (length bias) (- 1)" slots k] pick(3) ps that by (simp add: row)
  have slow: "\<exists>m < slots. k = ps ! m \<and> slow_row topk slots A_log bias ! k = int m" if "k \<in> set pick" for k
    using that ids ps(1,3) by (metis in_set_conv_nth)
  show "i = j" if "i < length bias" "j < length bias" "0 \<le> slow_row topk slots A_log bias ! i"
    "slow_row topk slots A_log bias ! i = slow_row topk slots A_log bias ! j"
  proof -
    have "i \<in> set pick" "j \<in> set pick" using that rest by force+
    then obtain m m' where "i = ps ! m" "slow_row topk slots A_log bias ! i = int m" "j = ps ! m'" "slow_row topk slots A_log bias ! j = int m'"
      using slow by blast
    then show ?thesis using that(4) by simp
  qed
  show "slow_row topk slots A_log bias ! i < int slots" if "i < length bias"
    using rest [OF that] slow [of i] by (cases "i \<in> set pick") auto
  show "exp (kda_gate (Some b) (exp A_log) (bias ! j) 0) \<le> exp (kda_gate (Some b) (exp A_log) (bias ! i) 0)"
    if "i < length bias" "j < length bias" "0 \<le> slow_row topk slots A_log bias ! i" "slow_row topk slots A_log bias ! j < 0" "b < 0"
  proof -
    have "i \<in> set pick" using that rest by force
    moreover have "j \<notin> set pick" using that(4) slow [of j] by force
    ultimately have "sigmoid (exp A_log * bias ! i) \<le> sigmoid (exp A_log * bias ! j)" using best that by (intro sigmoid_mono) blast
    then show ?thesis using that(5) by (simp add: kda_gate_def mult_left_mono_neg)
  qed
qed

section \<open>States in a pool\<close>

text \<open>A pool of full width, one of a narrow element type, or a narrow one with the slow channels kept exact at its side.\<close>

datatype pool_kind = Wide | Narrow | Sided

type_synonym 'a tile = "nat \<Rightarrow> nat \<Rightarrow> 'a"

record 'a state_block =
  sb_main :: "'a tile"
  sb_side :: "'a tile"

text \<open>\<open>pl_round\<close> is the conversion to the element type of a narrow pool and back.\<close>

record 'a pool_layout =
  pl_kind :: pool_kind
  pl_round :: "'a \<Rightarrow> 'a"
  pl_slot :: "int list"

definition slot_at :: "'a pool_layout \<Rightarrow> nat \<Rightarrow> int" where
  "slot_at L k = (if k < length (pl_slot L) then pl_slot L ! k else - 1)"

definition state_load :: "'a pool_layout \<Rightarrow> 'a state_block \<Rightarrow> 'a tile" where
  "state_load L b v k = (if pl_kind L = Sided \<and> 0 \<le> slot_at L k then sb_side b v (nat (slot_at L k)) else sb_main b v k)"

definition element :: "'a pool_layout \<Rightarrow> 'a \<Rightarrow> 'a" where
  "element L x = (if pl_kind L = Wide then x else pl_round L x)"

definition slot_owner :: "'a pool_layout \<Rightarrow> nat \<Rightarrow> nat option" where
  "slot_owner L s = List.find (\<lambda>k. slot_at L k = int s) [0..<length (pl_slot L)]"

definition state_store :: "'a pool_layout \<Rightarrow> 'a state_block \<Rightarrow> 'a tile \<Rightarrow> 'a state_block" where
  "state_store L b x =
     \<lparr>sb_main = (\<lambda>v k. element L (x v k)),
      sb_side = (if pl_kind L = Sided then (\<lambda>v s. case slot_owner L s of None \<Rightarrow> sb_side b v s | Some k \<Rightarrow> x v k) else sb_side b)\<rparr>"

definition state_as_stored :: "'a pool_layout \<Rightarrow> 'a tile \<Rightarrow> 'a tile" where
  "state_as_stored L x v k = (if pl_kind L = Sided \<and> 0 \<le> slot_at L k then x v k else element L (x v k))"

definition slots_distinct :: "'a pool_layout \<Rightarrow> bool" where
  "slots_distinct L \<longleftrightarrow> (\<forall>i < length (pl_slot L). \<forall>j < length (pl_slot L). 0 \<le> pl_slot L ! i \<longrightarrow> pl_slot L ! i = pl_slot L ! j \<longrightarrow> i = j)"

lemma slot_owner_slot:
  assumes "slots_distinct L" "0 \<le> slot_at L k"
  shows "slot_owner L (nat (slot_at L k)) = Some k"
proof -
  have k: "k < length (pl_slot L)" using assms(2) by (auto simp: slot_at_def split: if_splits)
  show ?thesis
  proof (cases "slot_owner L (nat (slot_at L k))")
    case None
    then have "\<not> (\<exists>x. x \<in> set [0..<length (pl_slot L)] \<and> slot_at L x = int (nat (slot_at L k)))"
      unfolding slot_owner_def find_None_iff .
    then show ?thesis using k assms(2) by auto
  next
    case (Some j)
    then have "j < length (pl_slot L) \<and> slot_at L j = int (nat (slot_at L k))" by (auto simp: slot_owner_def find_Some_iff)
    then have "j = k" using assms k unfolding slots_distinct_def slot_at_def by auto
    then show ?thesis using Some by simp
  qed
qed

lemma load_after_store: "slots_distinct L \<Longrightarrow> state_load L (state_store L b x) = state_as_stored L x"
  by (intro ext) (simp add: state_load_def state_store_def state_as_stored_def slot_owner_slot)

lemma stored_twice:
  assumes "\<And>x. pl_round L (pl_round L x) = pl_round L x"
  shows "state_as_stored L (state_as_stored L x) = state_as_stored L x"
  by (intro ext) (simp add: state_as_stored_def element_def assms)

section \<open>The verify kernel\<close>

record 'a kda_math =
  km_norm :: "(nat \<Rightarrow> 'a) \<Rightarrow> nat \<Rightarrow> 'a"
  km_query :: "(nat \<Rightarrow> 'a) \<Rightarrow> nat \<Rightarrow> 'a"
  km_decay :: "(nat \<Rightarrow> 'a) \<Rightarrow> nat \<Rightarrow> 'a"
  km_beta :: "'a \<Rightarrow> 'a"
  km_sum :: "(nat \<Rightarrow> 'a) \<Rightarrow> 'a"

record 'a kda_token =
  kt_q :: "nat \<Rightarrow> 'a"
  kt_k :: "nat \<Rightarrow> 'a"
  kt_v :: "nat \<Rightarrow> 'a"
  kt_g :: "nat \<Rightarrow> 'a"
  kt_beta :: 'a

record 'a kda_record =
  kr_corr :: "nat \<Rightarrow> 'a"
  kr_key :: "nat \<Rightarrow> 'a"
  kr_gate :: "nat \<Rightarrow> 'a"

definition recurrent_step :: "'a::{plus,minus,times} kda_math \<Rightarrow> 'a tile \<Rightarrow> 'a kda_token \<Rightarrow> 'a tile \<times> (nat \<Rightarrow> 'a)" where
  "recurrent_step M st t =
     (let nk = km_norm M (kt_k t); d = km_decay M (kt_g t);
          decayed = (\<lambda>v k. st v k * d k);
          corr = (\<lambda>v. (kt_v t v - km_sum M (\<lambda>k. decayed v k * nk k)) * km_beta M (kt_beta t))
      in (\<lambda>v k. decayed v k + corr v * nk k, corr))"

text \<open>The tokens of a window in order: the state, the outputs and the records.\<close>

fun verify_tokens :: "'a::{plus,minus,times} kda_math \<Rightarrow> 'a tile \<Rightarrow> 'a kda_token list
    \<Rightarrow> 'a tile \<times> (nat \<Rightarrow> 'a) list \<times> 'a kda_record list" where
  "verify_tokens M st [] = (st, [], [])"
| "verify_tokens M st (t # ts) =
     (let (st1, corr) = recurrent_step M st t;
          out = (\<lambda>v. km_sum M (\<lambda>k. st1 v k * km_query M (kt_q t) k));
          (st2, outs, recs) = verify_tokens M st1 ts
      in (st2, out # outs, \<lparr>kr_corr = corr, kr_key = kt_k t, kr_gate = kt_g t\<rparr> # recs))"

section \<open>The commit kernel\<close>

type_synonym 'a recovery = "(nat \<Rightarrow> 'a) \<times> 'a tile \<times> (nat \<Rightarrow> 'a) \<times> 'a tile"

definition recover_step :: "'a::{zero,one,plus,times} kda_math \<Rightarrow> int \<Rightarrow> (nat \<Rightarrow> 'a kda_record) \<Rightarrow> nat \<Rightarrow> 'a recovery \<Rightarrow> 'a recovery" where
  "recover_step M bl recs tok acc =
     (let (fd, fc, bd, bc) = acc; nk = km_norm M (kr_key (recs tok)); d = km_decay M (kr_gate (recs tok));
          update = (\<lambda>v k. kr_corr (recs tok) v * nk k); inside = int tok < bl
      in (\<lambda>k. fd k * d k, \<lambda>v k. fc v k + update v k * fd k,
          \<lambda>k. bd k * (if inside then d k else 1), \<lambda>v k. bc v k + (if inside then update v k * bd k else 0)))"

text \<open>The final state and the state at the block boundary, from the state before the window.\<close>

definition recover_tiles :: "'a::{zero,one,plus,times} kda_math \<Rightarrow> int \<Rightarrow> nat \<Rightarrow> (nat \<Rightarrow> 'a kda_record) \<Rightarrow> 'a tile \<Rightarrow> 'a tile \<times> 'a tile" where
  "recover_tiles M bl n recs init =
     (case fold (recover_step M bl recs) (rev [0..<n]) (\<lambda>k. 1, \<lambda>v k. 0, \<lambda>k. 1, \<lambda>v k. 0) of (fd, fc, bd, bc) \<Rightarrow>
        (\<lambda>v k. init v k * fd k + fc v k, \<lambda>v k. init v k * bd k + bc v k))"

definition replay_step :: "'a::{plus,times} kda_math \<Rightarrow> (nat \<Rightarrow> 'a kda_record) \<Rightarrow> nat \<Rightarrow> 'a tile \<Rightarrow> 'a tile" where
  "replay_step M recs tok st = (\<lambda>v k. st v k * km_decay M (kr_gate (recs tok)) k + kr_corr (recs tok) v * km_norm M (kr_key (recs tok)) k)"

lemma recover_invariant:
  fixes M :: "'a::comm_ring_1 kda_math"
  assumes "fold (recover_step M bl recs) (rev [0..<n]) (fd, fc, bd, bc) = (fd', fc', bd', bc')"
  shows "init v k * fd' k + fc' v k = fold (replay_step M recs) [0..<n] init v k * fd k + fc v k
    \<and> init v k * bd' k + bc' v k = fold (replay_step M recs) [0..<min n (nat bl)] init v k * bd k + bc v k"
  using assms
proof (induction n arbitrary: fd fc bd bc)
  case (Suc n)
  let ?d = "km_decay M (kr_gate (recs n)) k" and ?u = "kr_corr (recs n) v * km_norm M (kr_key (recs n)) k"
  obtain a b c e where s: "recover_step M bl recs n (fd, fc, bd, bc) = (a, b, c, e)" by (metis prod_cases4)
  have v: "a k = fd k * ?d" "b v k = fc v k + ?u * fd k" "c k = bd k * (if int n < bl then ?d else 1)"
    "e v k = bc v k + (if int n < bl then ?u * bd k else 0)"
    using s by (auto simp: recover_step_def Let_def)
  have run: "fold (recover_step M bl recs) (rev [0..<n]) (a, b, c, e) = (fd', fc', bd', bc')" using Suc.prems s by simp
  note IH = Suc.IH [OF run]
  have last: "fold (replay_step M recs) [0..<Suc m] init v k = fold (replay_step M recs) [0..<m] init v k
      * km_decay M (kr_gate (recs m)) k + kr_corr (recs m) v * km_norm M (kr_key (recs m)) k" for m
    by (simp add: replay_step_def)
  show ?case
  proof (cases "int n < bl")
    case True
    then have m: "min (Suc n) (nat bl) = Suc n" "min n (nat bl) = n" by simp_all
    show ?thesis using IH v True unfolding m last by (simp add: algebra_simps)
  next
    case False
    then have m: "min (Suc n) (nat bl) = min n (nat bl)" by simp
    show ?thesis using IH v False unfolding m last by (simp add: algebra_simps)
  qed
qed simp

lemma verify_lengths [simp]: "length (fst (snd (verify_tokens M st ts))) = length ts" "length (snd (snd (verify_tokens M st ts))) = length ts"
  by (induction ts arbitrary: st) (simp_all add: Let_def case_prod_beta)

text \<open>Replaying the records of a window forward gives the states the verify went through.\<close>

lemma replay_is_verify:
  assumes "n \<le> length ts"
  shows "fold (replay_step M (nth (snd (snd (verify_tokens M st ts))))) [0..<n] st = fst (verify_tokens M st (take n ts))"
  using assms
proof (induction ts arbitrary: st n)
  case (Cons t ts)
  show ?case
  proof (cases n)
    case (Suc m)
    let ?st1 = "fst (recurrent_step M st t)" and ?rs = "snd (snd (verify_tokens M st (t # ts)))"
    have rs: "?rs = \<lparr>kr_corr = snd (recurrent_step M st t), kr_key = kt_k t, kr_gate = kt_g t\<rparr> # snd (snd (verify_tokens M ?st1 ts))"
      by (simp add: Let_def case_prod_beta)
    have one: "replay_step M (nth ?rs) 0 st = ?st1"
      by (intro ext) (simp add: rs replay_step_def recurrent_step_def Let_def del: verify_tokens.simps)
    have shift: "fold (replay_step M (nth ?rs)) (map Suc xs) s = fold (replay_step M (nth (snd (snd (verify_tokens M ?st1 ts))))) xs s" for xs s
      by (induction xs arbitrary: s) (simp_all add: rs replay_step_def del: verify_tokens.simps)
    have "[0..<Suc m] = 0 # map Suc [0..<m]" by (simp add: upt_conv_Cons map_Suc_upt)
    then have "fold (replay_step M (nth ?rs)) [0..<n] st = fold (replay_step M (nth ?rs)) (map Suc [0..<m]) ?st1"
      using one by (simp add: Suc del: verify_tokens.simps upt_Suc)
    also have "\<dots> = fst (verify_tokens M ?st1 (take m ts))"
      unfolding shift using Cons.prems Suc by (intro Cons.IH) simp
    also have "\<dots> = fst (verify_tokens M st (take n (t # ts)))" by (simp add: Suc Let_def case_prod_beta)
    finally show ?thesis .
  qed simp
qed simp

text \<open>
  C41. In exact arithmetic, committing \<open>n\<close> accepted tokens from the records of a verified window
  gives the state the verify had after these tokens, and the boundary state is the state after
  the tokens before the boundary.
\<close>

text \<open>
  C10. In exact arithmetic, committing n accepted tokens from the records of a verified window
  gives the state the verify had after these tokens, and the boundary state is the state after
  the tokens before the boundary.
\<close>

theorem recovery_replays_the_window:
  fixes M :: "'a::comm_ring_1 kda_math"
  assumes "recs = snd (snd (verify_tokens M st ts))" "n \<le> length ts" "0 \<le> bl" "bl \<le> int n"
  shows "recover_tiles M bl n (nth recs) st = (fst (verify_tokens M st (take n ts)), fst (verify_tokens M st (take (nat bl) ts)))"
proof -
  obtain fd fc bd bc where r: "fold (recover_step M bl (nth recs)) (rev [0..<n]) (\<lambda>k. 1, \<lambda>v k. 0, \<lambda>k. 1, \<lambda>v k. 0) = (fd, fc, bd, bc)"
    by (metis prod_cases4)
  have m: "min n (nat bl) = nat bl" "nat bl \<le> length ts" using assms by simp_all
  note replay = replay_is_verify [of _ ts M st, folded assms(1)]
  have "st v k * fd k + fc v k = fst (verify_tokens M st (take n ts)) v k"
    "st v k * bd k + bc v k = fst (verify_tokens M st (take (nat bl) ts)) v k" for v k
    using recover_invariant [OF r, of st v k] replay [OF assms(2)] replay [OF m(2)] m(1) by simp_all
  then show ?thesis unfolding recover_tiles_def r by simp
qed

section \<open>Example\<close>

text \<open>Exact arithmetic on the integers, two channels and two tokens.\<close>

definition demo_math :: "int kda_math" where
  "demo_math = \<lparr>km_norm = (\<lambda>f k. f k), km_query = (\<lambda>f k. f k), km_decay = (\<lambda>g k. g k), km_beta = (\<lambda>b. b), km_sum = (\<lambda>f. f 0 + f 1)\<rparr>"

definition demo_tokens :: "int kda_token list" where
  "demo_tokens =
     [\<lparr>kt_q = (\<lambda>k. 1), kt_k = (\<lambda>k. int k + 1), kt_v = (\<lambda>v. 5), kt_g = (\<lambda>k. 2), kt_beta = 1\<rparr>,
      \<lparr>kt_q = (\<lambda>k. 2), kt_k = (\<lambda>k. 3), kt_v = (\<lambda>v. int v), kt_g = (\<lambda>k. 1), kt_beta = 2\<rparr>]"

lemma demo_replay: "fst (verify_tokens demo_math (\<lambda>v k. 1) demo_tokens) 0 1 = - 18 \<and> fst (verify_tokens demo_math (\<lambda>v k. 1) (take 1 demo_tokens)) 0 1 = 0"
  by (simp add: demo_math_def demo_tokens_def recurrent_step_def Let_def)

theorem recovery_replays_the_window_witness:
  "fst (recover_tiles demo_math 1 2 (nth (snd (snd (verify_tokens demo_math (\<lambda>v k. 1) demo_tokens)))) (\<lambda>v k. 1)) 0 1 = - 18
    \<and> snd (recover_tiles demo_math 1 2 (nth (snd (snd (verify_tokens demo_math (\<lambda>v k. 1) demo_tokens)))) (\<lambda>v k. 1)) 0 1 = 0"
proof -
  have len: "2 \<le> length demo_tokens" "take 2 demo_tokens = demo_tokens" by (simp_all add: demo_tokens_def)
  show ?thesis
    using recovery_replays_the_window [OF refl len(1), of 1 demo_math "\<lambda>v k. 1"] demo_replay by (simp add: len(2))
qed

end
