(* ===== verification/Recover_Commit.thy ===== *)
theory Recover_Commit
  imports Recover_Ssm
begin

text \<open>
  The accepted-state commit (\<open>KDARecoverSSMCommitContext\<close> of
  \<open>src/src/tp4/vllm/models/glm5next/nvidia/ops/recoverssm.py\<close>): the plan of a commit, the compaction of the convolution
  window, the immediate commit, and the fused one, which defers the state commit to the next verify under two ordering
  rules. One layer and head stand for all; an entry is one request of the speculative batch. The device, stride and
  dtype checks are left out: they concern tensors this model does not tell apart.
\<close>

section \<open>The commit plan\<close>

record entry_plan =
  ep_len :: int
  ep_final :: int
  ep_bound :: int
  ep_rec :: int

text \<open>Division as compiled code does it, rounding toward zero.\<close>

definition c_div :: "int \<Rightarrow> int \<Rightarrow> int" where
  "c_div a b = (if a < 0 then - ((- a) div b) else a div b)"

text \<open>One entry; in align mode the request's row of the block table, its computed tokens and the block size.\<close>

definition plan_entry :: "nat \<Rightarrow> int \<Rightarrow> int \<Rightarrow> int \<Rightarrow> (int list \<times> int \<times> int) option \<Rightarrow> entry_plan" where
  "plan_entry sql src accepted query_len align =
     (let len = min (min (max accepted 0) query_len) (int sql);
          (fin, bnd, rl) =
            (case align of None \<Rightarrow> (src, 0, 0)
             | Some (blocks, computed, bs) \<Rightarrow>
               (let total = computed + len;
                    col = min (c_div (total - 1) bs) (int (length blocks) - 1);
                    boundary = (c_div computed bs + 1) * bs
                in (blocks ! nat col, if boundary \<le> total then blocks ! nat (c_div boundary bs - 1) else 0, boundary - computed)))
      in if 0 < src \<and> 0 < len then \<lparr>ep_len = len, ep_final = fin, ep_bound = bnd, ep_rec = rl\<rparr>
         else \<lparr>ep_len = 0, ep_final = 0, ep_bound = 0, ep_rec = 0\<rparr>)"

record commit_call =
  cc_accepted :: "int list"
  cc_source :: "int list"
  cc_start :: "int list"
  cc_requests :: "nat list option"
  cc_table :: "int list list option"
  cc_computed :: "int list option"
  cc_block :: "int option"

definition entry_row :: "commit_call \<Rightarrow> nat \<Rightarrow> nat" where
  "entry_row c e = (case cc_requests c of None \<Rightarrow> e | Some rs \<Rightarrow> rs ! e)"

definition entry_align :: "commit_call \<Rightarrow> nat \<Rightarrow> (int list \<times> int \<times> int) option" where
  "entry_align c e =
     (case (cc_table c, cc_computed c, cc_block c) of
        (Some t, Some nc, Some bs) \<Rightarrow> Some (t ! entry_row c e, nc ! entry_row c e, bs)
      | _ \<Rightarrow> None)"

definition query_len :: "commit_call \<Rightarrow> nat \<Rightarrow> int" where
  "query_len c e = cc_start c ! Suc e - cc_start c ! e"

definition plan_of :: "nat \<Rightarrow> commit_call \<Rightarrow> nat \<Rightarrow> entry_plan" where
  "plan_of sql c e = plan_entry sql (cc_source c ! e) (cc_accepted c ! entry_row c e) (query_len c e) (entry_align c e)"

text \<open>What a plan says about an entry that commits.\<close>

definition planned_len :: "nat \<Rightarrow> commit_call \<Rightarrow> nat \<Rightarrow> int" where
  "planned_len sql c e = min (min (max (cc_accepted c ! entry_row c e) 0) (query_len c e)) (int sql)"

lemma plan_of_None: "entry_align c e = None \<Longrightarrow> plan_of sql c e =
    (if 0 < cc_source c ! e \<and> 0 < planned_len sql c e
     then \<lparr>ep_len = planned_len sql c e, ep_final = cc_source c ! e, ep_bound = 0, ep_rec = 0\<rparr>
     else \<lparr>ep_len = 0, ep_final = 0, ep_bound = 0, ep_rec = 0\<rparr>)"
  by (simp add: plan_of_def plan_entry_def planned_len_def)

lemma plan_of_Some: "entry_align c e = Some (blocks, computed, bs) \<Longrightarrow> plan_of sql c e =
    (if 0 < cc_source c ! e \<and> 0 < planned_len sql c e
     then let total = computed + planned_len sql c e; boundary = (c_div computed bs + 1) * bs
       in \<lparr>ep_len = planned_len sql c e, ep_final = blocks ! nat (min (c_div (total - 1) bs) (int (length blocks) - 1)),
           ep_bound = if boundary \<le> total then blocks ! nat (c_div boundary bs - 1) else 0, ep_rec = boundary - computed\<rparr>
     else \<lparr>ep_len = 0, ep_final = 0, ep_bound = 0, ep_rec = 0\<rparr>)"
  by (simp add: plan_of_def plan_entry_def planned_len_def Let_def)

lemma plan_len_eq: "ep_len (plan_of sql c e) = (if 0 < cc_source c ! e \<and> 0 < planned_len sql c e then planned_len sql c e else 0)"
  by (cases "entry_align c e") (auto simp: plan_of_None plan_of_Some Let_def)

lemma planned_bounds: "planned_len sql c e \<le> int sql" "planned_len sql c e \<le> query_len c e"
  by (simp_all add: planned_len_def)

lemma plan_len: "0 \<le> ep_len (plan_of sql c e)" "ep_len (plan_of sql c e) \<le> int sql"
  "0 < ep_len (plan_of sql c e) \<Longrightarrow> ep_len (plan_of sql c e) \<le> query_len c e"
  "ep_len (plan_of sql c e) \<noteq> 0 \<Longrightarrow> 0 < cc_source c ! e"
  using planned_bounds [of sql c e] by (auto simp: plan_len_eq split: if_splits)

text \<open>In align mode, a state after \<open>n\<close> tokens belongs to the block of column \<open>(n - 1) div bs\<close>: the final state of a commit, and
  the state at the first boundary it reaches, whose place in the window is within the accepted tokens. A commit
  that lands on a boundary has one block for both.\<close>

lemma c_div_nonneg: "0 \<le> a \<Longrightarrow> c_div a b = a div b"
  by (simp add: c_div_def)

text \<open>
  C40. A plan entry in align mode stores the final state in the block of the column that its
  last token belongs to and, exactly when the window reaches a block boundary, the state at
  this boundary in the completed block; the boundary lies inside the accepted tokens, both
  columns are in the table, and a commit that lands on the boundary uses one block for both.
\<close>

theorem plan_keeps_columns:
  assumes "entry_align c e = Some (blocks, computed, bs)" "p = plan_of sql c e" "ep_len p \<noteq> 0"
    and "0 \<le> computed" "int sql \<le> bs" "computed + ep_len p \<le> bs * int (length blocks)"
  shows "ep_final p = blocks ! nat ((computed + ep_len p - 1) div bs) \<and> nat ((computed + ep_len p - 1) div bs) < length blocks
    \<and> (if (computed div bs + 1) * bs \<le> computed + ep_len p
       then ep_bound p = blocks ! nat (computed div bs) \<and> nat (computed div bs) < length blocks \<and> 0 < ep_rec p \<and> ep_rec p \<le> ep_len p
         \<and> computed + ep_rec p = (computed div bs + 1) * bs
         \<and> (ep_rec p = ep_len p \<longrightarrow> ep_final p = ep_bound p)
       else ep_bound p = 0)"
proof -
  define l where "l = planned_len sql c e"
  define B where "B = (computed div bs + 1) * bs"
  have l: "0 < l" "l \<le> int sql" "ep_len p = l" and src: "0 < cc_source c ! e"
    using assms(2,3) planned_bounds [of sql c e] by (auto simp: plan_len_eq l_def split: if_splits)
  have bs: "0 < bs" using l assms(5) by simp
  have mod: "0 \<le> computed mod bs" "computed mod bs < bs" using bs by simp_all
  have B: "B = computed - computed mod bs + bs" by (simp add: B_def minus_mod_eq_div_mult [symmetric] algebra_simps)
  have col: "(computed + l - 1) div bs < int (length blocks)"
  proof -
    have "(computed + l - 1) div bs * bs = computed + l - 1 - (computed + l - 1) mod bs" by (simp add: minus_mod_eq_div_mult)
    also have "\<dots> < int (length blocks) * bs" using assms(6) l pos_mod_sign [OF bs, of "computed + l - 1"] by (simp add: mult.commute)
    finally show ?thesis using bs by simp
  qed
  have "0 \<le> computed div bs" using assms(4) bs by (simp add: pos_imp_zdiv_nonneg_iff)
  then have cd: "c_div ((computed div bs + 1) * bs) bs = computed div bs + 1"
    using bs by (subst c_div_nonneg) simp_all
  have p: "p = \<lparr>ep_len = l, ep_final = blocks ! nat ((computed + l - 1) div bs),
      ep_bound = if B \<le> computed + l then blocks ! nat (computed div bs) else 0, ep_rec = B - computed\<rparr>"
    using assms(1,2,4) l src col bs by (simp add: plan_of_Some cd c_div_nonneg [of "_ - 1"] c_div_nonneg [OF assms(4)] Let_def l_def B_def)
  have nonneg: "0 \<le> (computed + l - 1) div bs" using assms(4) l(1) bs by (simp add: pos_imp_zdiv_nonneg_iff)
  have ncol: "nat ((computed + l - 1) div bs) < length blocks" using col nonneg by linarith
  show ?thesis
  proof (cases "B \<le> computed + l")
    case True
    then have "(computed div bs + 1) * bs \<le> bs * int (length blocks)" using assms(6) l by (simp add: B_def)
    then have "computed div bs < int (length blocks)" using bs by (simp add: mult.commute)
    then have c1: "nat (computed div bs) < length blocks" using \<open>0 \<le> computed div bs\<close> by linarith
    have same: "(computed + l - 1) div bs = computed div bs" if "B - computed = l"
    proof -
      have "computed + l - 1 = computed div bs * bs + (bs - 1)" using that by (simp add: B_def algebra_simps)
      moreover have "(computed div bs * bs + (bs - 1)) div bs = computed div bs + (bs - 1) div bs" using bs by (intro div_mult_self3) simp
      moreover have "(bs - 1) div bs = 0" using bs by (simp add: div_pos_pos_trivial)
      ultimately show ?thesis by (metis add.right_neutral)
    qed
    show ?thesis using True p c1 ncol B mod same bs by (auto simp: B_def [symmetric] l(3))
  next
    case False
    then show ?thesis using p ncol bs by (auto simp: B_def [symmetric] l(3))
  qed
qed

section \<open>The convolution window\<close>

definition compact_entry :: "nat \<Rightarrow> bool \<Rightarrow> int \<Rightarrow> entry_plan \<Rightarrow> (int \<Rightarrow> nat \<Rightarrow> 'a) \<Rightarrow> int \<Rightarrow> nat \<Rightarrow> 'a" where
  "compact_entry history align src p pool =
     (if src \<le> 0 \<or> ep_len p = 0 \<or> ep_final p \<le> 0 then pool
      else let final = (\<lambda>h. pool src (nat (ep_len p - 1 + int h)));
               boundary = (\<lambda>h. pool src (nat (ep_rec p - 1 + int h)));
               pool1 = (if align \<and> 0 < ep_bound p
                        then pool(ep_bound p := (\<lambda>h. if h < history then boundary h else pool (ep_bound p) h)) else pool)
           in pool1(ep_final p := (\<lambda>h. if h < history then final h else pool1 (ep_final p) h)))"

text \<open>The window holds all but the oldest of the history and the inputs, and a commit leaves the last \<open>history\<close> of
  the inputs up to its position.\<close>

lemma compacted_history:
  assumes "0 < src" "0 < ep_len p" "0 < ep_final p" "length hist = history" "ep_len p \<le> int (length xs)"
    and "\<And>i. i < history + length xs - 1 \<Longrightarrow> pool src i = (hist @ xs) ! Suc i" "h < history"
  shows "compact_entry history align src p pool (ep_final p) h = (drop (nat (ep_len p)) (hist @ take (nat (ep_len p)) xs)) ! h"
    and "align \<Longrightarrow> 0 < ep_bound p \<Longrightarrow> ep_bound p \<noteq> ep_final p \<Longrightarrow> 0 < ep_rec p \<Longrightarrow> ep_rec p \<le> int (length xs)
      \<Longrightarrow> compact_entry history align src p pool (ep_bound p) h = (drop (nat (ep_rec p)) (hist @ take (nat (ep_rec p)) xs)) ! h"
proof -
  have at: "pool src (nat (l - 1 + int h)) = drop (nat l) (hist @ take (nat l) xs) ! h" if "0 < l" "l \<le> int (length xs)" for l
  proof -
    define m where "m = nat (l - 1)"
    have m: "l = int (Suc m)" using that(1) by (simp add: m_def)
    have n: "nat (l - 1 + int h) = m + h" "nat l = Suc m" using m by simp_all
    have "pool src (m + h) = (hist @ xs) ! Suc (m + h)" using assms(4,7) that m by (intro assms(6)) simp
    also have "\<dots> = (hist @ take (Suc m) xs) ! (Suc m + h)" using assms(4,7) by (simp add: nth_append)
    also have "\<dots> = drop (Suc m) (hist @ take (Suc m) xs) ! h"
      using assms(4,7) that m by (intro nth_drop [symmetric]) simp
    finally show ?thesis unfolding n .
  qed
  show "compact_entry history align src p pool (ep_final p) h = (drop (nat (ep_len p)) (hist @ take (nat (ep_len p)) xs)) ! h"
    using at [of "ep_len p"] assms by (simp add: compact_entry_def Let_def)
  show "compact_entry history align src p pool (ep_bound p) h = (drop (nat (ep_rec p)) (hist @ take (nat (ep_rec p)) xs)) ! h"
    if "align" "0 < ep_bound p" "ep_bound p \<noteq> ep_final p" "0 < ep_rec p" "ep_rec p \<le> int (length xs)"
    using at [of "ep_rec p"] assms that by (simp add: compact_entry_def Let_def)
qed

section \<open>Committing states\<close>

type_synonym 'a state_pool = "int \<Rightarrow> 'a state_block"

definition commit_entry :: "'a::{zero,one,plus,times} pool_layout \<Rightarrow> 'a kda_math \<Rightarrow> bool \<Rightarrow> int \<Rightarrow> int \<Rightarrow> entry_plan
    \<Rightarrow> (nat \<Rightarrow> 'a kda_record) \<Rightarrow> 'a state_pool \<Rightarrow> 'a state_pool" where
  "commit_entry L M align src len p recs pool =
     (if src \<le> 0 \<or> len = 0 \<or> ep_final p \<le> 0 then pool
      else let (st, bst) = recover_tiles M (ep_rec p) (nat len) recs (state_load L (pool src));
               pool1 = (if align \<and> 0 < ep_bound p then pool(ep_bound p := state_store L (pool (ep_bound p)) bst) else pool)
           in pool1(ep_final p := state_store L (pool1 (ep_final p)) st))"

definition commit_state :: "'a::{zero,one,plus,times} pool_layout \<Rightarrow> 'a kda_math \<Rightarrow> bool \<Rightarrow> nat \<Rightarrow> int list \<Rightarrow> int list \<Rightarrow> entry_plan list
    \<Rightarrow> (nat \<Rightarrow> nat \<Rightarrow> 'a kda_record) \<Rightarrow> 'a state_pool \<Rightarrow> 'a state_pool" where
  "commit_state L M align n srcs lens plan recs =
     fold (\<lambda>e. commit_entry L M align (srcs ! e) (lens ! e) (plan ! e) (recs e)) [0..<n]"

section \<open>The context\<close>

record 'a ssm_ctx =
  sx_fused :: bool
  sx_align :: bool
  sx_sql :: nat
  sx_capacity :: nat
  sx_history :: nat
  sx_plan :: "entry_plan list"
  sx_pend_entry :: "int list"
  sx_pend_src :: "int list"
  sx_pend_map :: "nat list"
  sx_write_buf :: nat
  sx_pending :: bool
  sx_prev :: nat
  sx_pool :: "'a state_pool"
  sx_conv :: "int \<Rightarrow> nat \<Rightarrow> 'a"
  sx_records :: "nat \<Rightarrow> nat \<Rightarrow> nat \<Rightarrow> 'a kda_record"

definition plan_lens :: "entry_plan list \<Rightarrow> int list" where
  "plan_lens = map ep_len"

definition set_lens :: "int list \<Rightarrow> entry_plan list \<Rightarrow> entry_plan list" where
  "set_lens lens ps = map2 (\<lambda>l p. p\<lparr>ep_len := l\<rparr>) lens ps"

text \<open>The checks of \<open>commit\<close> before it launches anything.\<close>

definition commit_rejected :: "nat \<Rightarrow> nat \<Rightarrow> commit_call \<Rightarrow> bool" where
  "commit_rejected sql capacity c \<longleftrightarrow>
     (let n = length (cc_source c); parts = [cc_table c = None, cc_computed c = None, cc_block c = None]
      in capacity < n \<or> length (cc_start c) \<noteq> n + 1 \<or> (\<exists>rs. cc_requests c = Some rs \<and> length rs < n)
         \<or> (list_ex Not parts \<and> list_ex id parts) \<or> (\<exists>bs. cc_block c = Some bs \<and> bs < int sql))"

text \<open>Rule 1: does an entry commit at once?\<close>

definition commits_now :: "nat \<Rightarrow> commit_call \<Rightarrow> nat \<Rightarrow> entry_plan \<Rightarrow> bool" where
  "commits_now sql c e p =
     (case entry_align c e of None \<Rightarrow> ep_len p < 0
      | Some (_, computed, bs) \<Rightarrow> 0 < ep_len p \<and> (0 < ep_bound p \<or> bs < (computed + ep_len p) mod bs + int sql))"

text \<open>\<open>commit\<close>: the plan, the convolution windows, then the states, at once or deferred. A rejected call raises; one without
  align mode does so after the convolution windows are compacted. \<open>skip\<close> is \<open>rule1_host_skip\<close>.\<close>

definition ssm_commit :: "'a::{zero,one,plus,times} pool_layout \<Rightarrow> 'a kda_math \<Rightarrow> bool \<Rightarrow> commit_call \<Rightarrow> 'a ssm_ctx \<Rightarrow> 'a ssm_ctx \<times> unit py" where
  "ssm_commit L M skip c x =
     (let n = length (cc_source c); align = cc_table c \<noteq> None in
      if n = 0 then (x, Inr ())
      else if commit_rejected (sx_sql x) (sx_capacity x) c then (x, Inl ValueError)
      else
        let plan = map (plan_of (sx_sql x) c) [0..<n];
            x1 = x\<lparr>sx_plan := plan,
                   sx_conv := fold (\<lambda>e. compact_entry (sx_history x) align (cc_source c ! e) (plan ! e)) [0..<n] (sx_conv x)\<rparr>
        in if \<not> sx_fused x then
             (x1\<lparr>sx_pool := commit_state L M align n (cc_source c) (plan_lens plan) plan (sx_records x 0) (sx_pool x)\<rparr>, Inr ())
           else if align \<and> \<not> sx_align x then (x1, Inl ValueError)
           else
             let x2 = (if skip \<and> align \<and> cc_requests c = None then x1\<lparr>sx_pend_map := [0..<sx_capacity x]\<rparr>
                       else let now = map (\<lambda>e. if commits_now (sx_sql x) c e (plan ! e) then ep_len (plan ! e) else 0) [0..<n];
                                rest = map (\<lambda>e. if commits_now (sx_sql x) c e (plan ! e) then 0 else ep_len (plan ! e)) [0..<n]
                            in x1\<lparr>sx_plan := set_lens rest plan, sx_pend_map := map (entry_row c) [0..<n],
                                  sx_pool := if align then commit_state L M True n (cc_source c) now plan (sx_records x (sx_write_buf x)) (sx_pool x)
                                             else sx_pool x\<rparr>)
             in (x2\<lparr>sx_pend_src := cc_source c, sx_prev := n, sx_pending := True, sx_write_buf := 1 - sx_write_buf x\<rparr>, Inr ()))"

text \<open>Rule 2: entries of requests that the new step does not schedule are committed before it starts.\<close>

definition flush_absent :: "'a::{zero,one,plus,times} pool_layout \<Rightarrow> 'a kda_math \<Rightarrow> bool list \<Rightarrow> 'a ssm_ctx \<Rightarrow> 'a ssm_ctx" where
  "flush_absent L M keep x =
     (if \<not> sx_pending x then x
      else let n = sx_prev x; ps = sx_plan x;
               gone = (\<lambda>e. 0 < ep_len (ps ! e) \<and> \<not> keep ! (sx_pend_map x ! e));
               flush = map (\<lambda>e. if gone e then ep_len (ps ! e) else 0) [0..<n];
               rest = map (\<lambda>e. if gone e then 0 else ep_len (ps ! e)) [0..<n]
           in x\<lparr>sx_plan := set_lens rest ps,
                sx_pool := commit_state L M (sx_align x) n (sx_pend_src x) flush ps (sx_records x (1 - sx_write_buf x)) (sx_pool x)\<rparr>)"

definition flush_absent_requests :: "'a::{zero,one,plus,times} pool_layout \<Rightarrow> 'a kda_math \<Rightarrow> 'r list \<Rightarrow> 'r set \<Rightarrow> 'r set
    \<Rightarrow> 'a ssm_ctx list \<Rightarrow> 'a ssm_ctx list" where
  "flush_absent_requests L M previous scheduled fresh ctxs =
     (let keep = map (\<lambda>r. r \<in> scheduled \<and> r \<notin> fresh) previous in
      if previous = [] \<or> \<not> list_ex sx_pending ctxs \<or> list_all id keep then ctxs
      else map (\<lambda>x. if sx_pending x then flush_absent L M keep x else x) ctxs)"

text \<open>The last row whose state index is a block.\<close>

definition find_row :: "int list \<Rightarrow> int \<Rightarrow> nat option" where
  "find_row rows blk = fold (\<lambda>r found. if rows ! r = blk then Some r else found) [0..<length rows] None"

text \<open>Before a step's forward: an entry goes to the row that verifies from its final block, or is committed now.\<close>

definition handed_row :: "int list \<Rightarrow> entry_plan \<Rightarrow> nat option" where
  "handed_row rows p = (if ep_len p = 0 \<or> 0 < ep_bound p then None else find_row rows (ep_final p))"

definition prepare_fused :: "'a::{zero,one,plus,times} pool_layout \<Rightarrow> 'a kda_math \<Rightarrow> int list option \<Rightarrow> 'a ssm_ctx \<Rightarrow> 'a ssm_ctx" where
  "prepare_fused L M state_indices x =
     (let none = replicate (sx_capacity x) (- 1) in
      if \<not> sx_pending x then x\<lparr>sx_pend_entry := none\<rparr>
      else let n = sx_prev x; ps = sx_plan x; rows = (case state_indices of None \<Rightarrow> [] | Some r \<Rightarrow> r);
               entry = fold (\<lambda>e t. case handed_row rows (ps ! e) of None \<Rightarrow> t | Some r \<Rightarrow> t[r := int e]) [0..<n] none;
               flush = map (\<lambda>e. if handed_row rows (ps ! e) = None then ep_len (ps ! e) else 0) [0..<n]
           in x\<lparr>sx_pend_entry := entry, sx_pending := False,
                sx_pool := commit_state L M (sx_align x) n (sx_pend_src x) flush ps (sx_records x (1 - sx_write_buf x)) (sx_pool x)\<rparr>)"

section \<open>Verifying a batch\<close>

record 'a spec_row =
  sr_state :: int
  sr_tokens :: "'a kda_token list"

text \<open>One row of the plain verify: a row without a state writes zeros and no records.\<close>

definition verify_row :: "'a::{zero,one,plus,minus,times} pool_layout \<Rightarrow> 'a kda_math \<Rightarrow> 'a state_pool \<Rightarrow> 'a spec_row
    \<Rightarrow> (nat \<Rightarrow> 'a) list \<times> 'a kda_record list" where
  "verify_row L M pool row =
     (if sr_state row \<le> 0 then (map (\<lambda>_ _. 0) (sr_tokens row), [])
      else snd (verify_tokens M (state_load L (pool (sr_state row))) (sr_tokens row)))"

definition put_records :: "nat \<Rightarrow> nat \<Rightarrow> 'a kda_record list \<Rightarrow> (nat \<Rightarrow> nat \<Rightarrow> nat \<Rightarrow> 'a kda_record) \<Rightarrow> nat \<Rightarrow> nat \<Rightarrow> nat \<Rightarrow> 'a kda_record" where
  "put_records buf r recs old = (\<lambda>b e t. if b = buf \<and> e = r \<and> t < length recs then recs ! t else old b e t)"

definition verify_plain :: "'a::{zero,one,plus,minus,times} pool_layout \<Rightarrow> 'a kda_math \<Rightarrow> 'a spec_row list \<Rightarrow> 'a ssm_ctx
    \<Rightarrow> 'a ssm_ctx \<times> (nat \<Rightarrow> 'a) list list" where
  "verify_plain L M rows x =
     (x\<lparr>sx_records := fold (\<lambda>r. put_records 0 r (snd (verify_row L M (sx_pool x) (rows ! r)))) [0..<length rows] (sx_records x)\<rparr>,
      map (\<lambda>row. fst (verify_row L M (sx_pool x) row)) rows)"

text \<open>One row of the fused verify: the pending commit of the row, then the verify from the state as the pool keeps it.\<close>

definition fused_row :: "'a::{zero,one,plus,minus,times} pool_layout \<Rightarrow> 'a kda_math \<Rightarrow> nat \<Rightarrow> 'a spec_row \<Rightarrow> 'a ssm_ctx
    \<Rightarrow> 'a ssm_ctx \<times> (nat \<Rightarrow> 'a) list" where
  "fused_row L M r row x =
     (if sr_state row \<le> 0 then (x, map (\<lambda>_ _. 0) (sr_tokens row))
      else let entry = sx_pend_entry x ! r in
        let (pool, st) =
          (if 0 \<le> entry then
             (let e = nat entry; p = sx_plan x ! e;
                  st = fst (recover_tiles M (ep_rec p) (nat (ep_len p)) (sx_records x (1 - sx_write_buf x) e)
                             (state_load L (sx_pool x (sx_pend_src x ! e))))
              in ((sx_pool x)(ep_final p := state_store L (sx_pool x (ep_final p)) st), state_as_stored L st))
           else (sx_pool x, state_load L (sx_pool x (sr_state row))));
            (_, outs, recs) = verify_tokens M st (sr_tokens row)
        in (x\<lparr>sx_pool := pool, sx_records := put_records (sx_write_buf x) r recs (sx_records x)\<rparr>, outs))"

definition verify_fused :: "'a::{zero,one,plus,minus,times} pool_layout \<Rightarrow> 'a kda_math \<Rightarrow> 'a spec_row list \<Rightarrow> 'a ssm_ctx
    \<Rightarrow> 'a ssm_ctx \<times> (nat \<Rightarrow> 'a) list list" where
  "verify_fused L M rows x =
     fold (\<lambda>r (x, outs). let (x', out) = fused_row L M r (rows ! r) x in (x', outs @ [out])) [0..<length rows] (x, [])"

section \<open>Example\<close>

text \<open>Six computed tokens, four accepted, blocks of eight.\<close>

definition demo_commit :: commit_call where
  "demo_commit = \<lparr>cc_accepted = [4], cc_source = [7], cc_start = [0, 4], cc_requests = None, cc_table = Some [[7, 9]],
     cc_computed = Some [6], cc_block = Some 8\<rparr>"

lemma demo_align: "entry_align demo_commit 0 = Some ([7, 9], 6, 8)"
  by (simp add: demo_commit_def entry_align_def entry_row_def)

lemma demo_len: "ep_len (plan_of 4 demo_commit 0) = 4"
  by (simp add: plan_len_eq planned_len_def query_len_def demo_commit_def entry_row_def)

theorem plan_keeps_columns_witness:
  "ep_final (plan_of 4 demo_commit 0) = 9 \<and> ep_bound (plan_of 4 demo_commit 0) = 7 \<and> 6 + ep_rec (plan_of 4 demo_commit 0) = 8"
  using plan_keeps_columns [OF demo_align refl, of 4] demo_len by simp

end
