(* ===== verification/Recover_Order.thy ===== *)
theory Recover_Order
  imports Recover_Commit
begin

section \<open>Commits of different requests do not interfere\<close>

definition entry_blocks :: "int \<Rightarrow> entry_plan \<Rightarrow> int set" where
  "entry_blocks src p = {src, ep_final p, ep_bound p} \<inter> {0<..}"

lemma commit_entry_zero [simp]: "commit_entry L M align src 0 p recs pool = pool"
  by (simp add: commit_entry_def)

text \<open>A commit of one entry writes only blocks of the entry, and what it writes depends only on these blocks.\<close>

lemma commit_entry_elsewhere: "b \<notin> entry_blocks src p \<Longrightarrow> commit_entry L M align src len p recs pool b = pool b"
  by (auto simp: commit_entry_def entry_blocks_def Let_def case_prod_beta)

lemma commit_entry_cong:
  assumes "\<And>b. b \<in> entry_blocks src p \<Longrightarrow> pool b = pool' b" "b \<in> entry_blocks src p"
  shows "commit_entry L M align src len p recs pool b = commit_entry L M align src len p recs pool' b"
proof (cases "src \<le> 0 \<or> len = 0 \<or> ep_final p \<le> 0")
  case False
  then have "pool src = pool' src" "pool (ep_final p) = pool' (ep_final p)" using assms(1) by (simp_all add: entry_blocks_def)
  moreover have "0 < ep_bound p \<Longrightarrow> pool (ep_bound p) = pool' (ep_bound p)" using assms(1) by (simp add: entry_blocks_def)
  ultimately show ?thesis using False assms by (simp add: commit_entry_def Let_def case_prod_beta)
qed (use assms in \<open>auto simp: commit_entry_def\<close>)

lemma commit_entries_commute:
  assumes "entry_blocks src p \<inter> entry_blocks src' p' = {}"
  shows "commit_entry L M al src len p recs \<circ> commit_entry L M al' src' len' p' recs'
    = commit_entry L M al' src' len' p' recs' \<circ> commit_entry L M al src len p recs"
proof (intro ext)
  fix pool :: "'a state_pool" and b
  let ?f = "commit_entry L M al src len p recs" and ?g = "commit_entry L M al' src' len' p' recs'"
  consider "b \<in> entry_blocks src p" | "b \<in> entry_blocks src' p'" | "b \<notin> entry_blocks src p" "b \<notin> entry_blocks src' p'" by blast
  then have "?f (?g pool) b = ?g (?f pool) b"
  proof cases
    case 1
    then have "b \<notin> entry_blocks src' p'" using assms by blast
    moreover have "?f (?g pool) b = ?f pool b"
      using assms 1 by (intro commit_entry_cong) (auto intro!: commit_entry_elsewhere)
    ultimately show ?thesis by (simp add: commit_entry_elsewhere)
  next
    case 2
    then have "b \<notin> entry_blocks src p" using assms by blast
    moreover have "?g (?f pool) b = ?g pool b"
      using assms 2 by (intro commit_entry_cong) (auto intro!: commit_entry_elsewhere)
    ultimately show ?thesis by (simp add: commit_entry_elsewhere)
  qed (simp add: commit_entry_elsewhere)
  then show "(?f \<circ> ?g) pool b = (?g \<circ> ?f) pool b" by simp
qed

text \<open>A pass over the entries whose steps commute splits into two passes.\<close>

lemma fold_past:
  assumes "\<And>e. e \<in> set es \<Longrightarrow> g \<circ> f e = f e \<circ> g"
  shows "g (fold f es p) = fold f es (g p)"
  using assms
proof (induction es arbitrary: p)
  case (Cons e es)
  have "g (f e p) = f e (g p)" using Cons.prems by (metis comp_apply list.set_intros(1))
  then show ?case using Cons by simp
qed simp

lemma fold_split_passes:
  assumes "distinct es" "\<And>e e'. e \<in> set es \<Longrightarrow> e' \<in> set es \<Longrightarrow> e \<noteq> e' \<Longrightarrow> g e \<circ> f e' = f e' \<circ> g e"
    and "\<And>e p. e \<in> set es \<Longrightarrow> h e p = g e (f e p)"
  shows "fold h es p = fold g es (fold f es p)"
  using assms
proof (induction es arbitrary: p)
  case (Cons e es)
  have "fold h (e # es) p = fold h es (g e (f e p))" using Cons.prems(3) by simp
  also have "\<dots> = fold g es (fold f es (g e (f e p)))" using Cons.prems by (intro Cons.IH) auto
  also have "fold f es (g e (f e p)) = g e (fold f es (f e p))"
  proof (rule fold_past [symmetric])
    fix e' assume "e' \<in> set es"
    then show "g e \<circ> f e' = f e' \<circ> g e" using Cons.prems(1) by (intro Cons.prems(2)) auto
  qed
  finally show ?case by simp
qed simp

definition blocks_apart :: "int list \<Rightarrow> entry_plan list \<Rightarrow> nat \<Rightarrow> bool" where
  "blocks_apart srcs ps n \<longleftrightarrow> (\<forall>e < n. \<forall>e' < n. e \<noteq> e' \<longrightarrow> entry_blocks (srcs ! e) (ps ! e) \<inter> entry_blocks (srcs ! e') (ps ! e') = {})"

text \<open>Committing some of the entries first and the others later is committing them all.\<close>

lemma commit_state_split:
  assumes "blocks_apart srcs ps n"
    and "\<And>e. e < n \<Longrightarrow> (l1 ! e = 0 \<and> l2 ! e = l ! e) \<or> (l1 ! e = l ! e \<and> l2 ! e = 0)"
  shows "commit_state L M al n srcs l ps recs pool = commit_state L M al n srcs l2 ps recs (commit_state L M al n srcs l1 ps recs pool)"
  unfolding commit_state_def
proof (rule fold_split_passes)
  fix e e' assume "e \<in> set [0..<n]" "e' \<in> set [0..<n]" "e \<noteq> e'"
  then show "commit_entry L M al (srcs ! e) (l2 ! e) (ps ! e) (recs e) \<circ> commit_entry L M al (srcs ! e') (l1 ! e') (ps ! e') (recs e')
    = commit_entry L M al (srcs ! e') (l1 ! e') (ps ! e') (recs e') \<circ> commit_entry L M al (srcs ! e) (l2 ! e) (ps ! e) (recs e)"
    using assms(1) by (intro commit_entries_commute) (simp add: blocks_apart_def)
next
  fix e p assume "e \<in> set [0..<n]"
  then show "commit_entry L M al (srcs ! e) (l ! e) (ps ! e) (recs e) p
    = commit_entry L M al (srcs ! e) (l2 ! e) (ps ! e) (recs e) (commit_entry L M al (srcs ! e) (l1 ! e) (ps ! e) (recs e) p)"
    using assms(2) [of e] by auto
qed simp

text \<open>Only the lengths given to a launch count, not those in the plan.\<close>

lemma commit_entry_len [simp]: "commit_entry L M al src len (p\<lparr>ep_len := l\<rparr>) recs = commit_entry L M al src len p recs"
  by (simp add: commit_entry_def Let_def fun_eq_iff case_prod_beta cong: if_cong)

lemma commit_entry_one: "ep_bound p \<le> 0 \<Longrightarrow> commit_entry L M al src len p recs pool =
    (if src \<le> 0 \<or> len = 0 \<or> ep_final p \<le> 0 then pool
     else pool(ep_final p := state_store L (pool (ep_final p)) (fst (recover_tiles M (ep_rec p) (nat len) recs (state_load L (pool src))))))"
  by (simp add: commit_entry_def Let_def case_prod_beta)

lemma commit_state_cong:
  assumes "\<And>e. e < n \<Longrightarrow> srcs ! e = srcs' ! e" "\<And>e. e < n \<Longrightarrow> lens ! e = lens' ! e" "\<And>e. e < n \<Longrightarrow> (ps ! e)\<lparr>ep_len := 0\<rparr> = (ps' ! e)\<lparr>ep_len := 0\<rparr>"
    and "\<And>e t. e < n \<Longrightarrow> int t < lens ! e \<Longrightarrow> recs e t = recs' e t" "\<And>e. e < n \<Longrightarrow> al = al' \<or> ep_bound (ps ! e) \<le> 0"
  shows "commit_state L M al n srcs lens ps recs pool = commit_state L M al' n srcs' lens' ps' recs' pool"
proof -
  have tiles: "recover_tiles M bl m rs init = recover_tiles M bl m rs' init" if "\<And>t. t < m \<Longrightarrow> rs t = rs' t" for bl m rs rs' init
  proof -
    have "fold (recover_step M bl rs) (rev [0..<m]) a = fold (recover_step M bl rs') (rev [0..<m]) a" for a
      using that by (intro fold_cong) (auto simp: recover_step_def)
    then show ?thesis by (simp add: recover_tiles_def)
  qed
  have "commit_entry L M al (srcs ! e) (lens ! e) (ps ! e) (recs e) = commit_entry L M al' (srcs' ! e) (lens' ! e) (ps' ! e) (recs' e)" if e: "e < n" for e
  proof -
    have al: "commit_entry L M al (srcs ! e) (lens ! e) (ps ! e) (recs e) = commit_entry L M al' (srcs ! e) (lens ! e) (ps ! e) (recs e)"
      using assms(5) [OF e] by (auto simp: commit_entry_one)
    have "commit_entry L M al' (srcs ! e) (lens ! e) (ps ! e) (recs e) = commit_entry L M al' (srcs ! e) (lens ! e) ((ps ! e)\<lparr>ep_len := 0\<rparr>) (recs e)" by simp
    also have "\<dots> = commit_entry L M al' (srcs' ! e) (lens' ! e) ((ps' ! e)\<lparr>ep_len := 0\<rparr>) (recs e)"
      using assms(1-3) [OF e] by simp
    also have "\<dots> = commit_entry L M al' (srcs' ! e) (lens' ! e) (ps' ! e) (recs' e)"
    proof (intro ext)
      fix pool b
      have "recs e t = recs' e t" if "t < nat (lens' ! e)" for t using assms(2,4) e that by simp
      then have "recover_tiles M bl (nat (lens' ! e)) (recs e) init = recover_tiles M bl (nat (lens' ! e)) (recs' e) init" for bl init by (rule tiles)
      then show "commit_entry L M al' (srcs' ! e) (lens' ! e) ((ps' ! e)\<lparr>ep_len := 0\<rparr>) (recs e) pool b
        = commit_entry L M al' (srcs' ! e) (lens' ! e) (ps' ! e) (recs' e) pool b" by (simp add: commit_entry_def)
    qed
    finally show ?thesis unfolding al .
  qed
  then show ?thesis unfolding commit_state_def by (intro fold_cong) auto
qed

lemma commit_state_none:
  assumes "\<And>e. e < n \<Longrightarrow> lens ! e = 0"
  shows "commit_state L M al n srcs lens ps recs pool = pool"
proof -
  have "fold (\<lambda>e. commit_entry L M al (srcs ! e) (lens ! e) (ps ! e) (recs e)) [0..<m] pool = pool" if "m \<le> n" for m
    using that
  proof (induction m)
    case (Suc m)
    then show ?case using assms [of m] by simp
  qed simp
  then show ?thesis by (simp add: commit_state_def)
qed

text \<open>What a launch leaves in a block of an entry, and elsewhere.\<close>

lemma commit_state_at:
  assumes "blocks_apart srcs ps n" "e < n" "b \<in> entry_blocks (srcs ! e) (ps ! e)"
  shows "commit_state L M al n srcs lens ps recs pool b = commit_entry L M al (srcs ! e) (lens ! e) (ps ! e) (recs e) pool b"
proof -
  let ?C = "\<lambda>e. commit_entry L M al (srcs ! e) (lens ! e) (ps ! e) (recs e)"
  have other: "fold ?C es q b' = q b'" if "e \<notin> set es" "set es \<subseteq> {..<n}" "b' \<in> entry_blocks (srcs ! e) (ps ! e)" for es q b'
    using that
  proof (induction es arbitrary: q)
    case (Cons a es)
    have "a < n" "a \<noteq> e" using Cons.prems(1,2) by auto
    then have "entry_blocks (srcs ! a) (ps ! a) \<inter> entry_blocks (srcs ! e) (ps ! e) = {}"
      using assms(1,2) unfolding blocks_apart_def by blast
    then have "b' \<notin> entry_blocks (srcs ! a) (ps ! a)" using Cons.prems(3) by blast
    then have "?C a q b' = q b'" by (rule commit_entry_elsewhere)
    moreover have "fold ?C es (?C a q) b' = ?C a q b'" using Cons.prems by (intro Cons.IH) auto
    ultimately show ?case by simp
  qed simp
  have split: "[0..<n] = [0..<e] @ e # [Suc e..<n]" 
    using assms(2) upt_add_eq_append [of 0 e "n - e"] by (simp add: upt_conv_Cons)
  have "fold ?C [0..<n] pool b = fold ?C [Suc e..<n] (?C e (fold ?C [0..<e] pool)) b" unfolding split by simp
  also have "\<dots> = ?C e (fold ?C [0..<e] pool) b" using assms(3) by (intro other) auto
  also have "\<dots> = ?C e pool b" using assms(2,3) by (intro commit_entry_cong other) auto
  finally show ?thesis by (simp add: commit_state_def)
qed

lemma commit_state_elsewhere:
  assumes "\<And>e. e < n \<Longrightarrow> lens ! e \<noteq> 0 \<Longrightarrow> b \<notin> entry_blocks (srcs ! e) (ps ! e)"
  shows "commit_state L M al n srcs lens ps recs pool b = pool b"
proof -
  have "fold (\<lambda>e. commit_entry L M al (srcs ! e) (lens ! e) (ps ! e) (recs e)) [0..<m] pool b = pool b" if "m \<le> n" for m
    using that
  proof (induction m)
    case (Suc m)
    then show ?case using assms [of m] by (cases "lens ! m = 0") (simp_all add: commit_entry_elsewhere)
  qed simp
  then show ?thesis by (simp add: commit_state_def)
qed

section \<open>The pool an immediate commit would have left\<close>

text \<open>What a context with deferred entries stands for: its pool after these entries.\<close>

definition settled :: "'a::{zero,one,plus,times} pool_layout \<Rightarrow> 'a kda_math \<Rightarrow> 'a ssm_ctx \<Rightarrow> 'a state_pool" where
  "settled L M x = commit_state L M (sx_align x) (sx_prev x) (sx_pend_src x) (plan_lens (sx_plan x)) (sx_plan x)
     (sx_records x (1 - sx_write_buf x)) (sx_pool x)"

definition pending_ok :: "'a ssm_ctx \<Rightarrow> bool" where
  "pending_ok x \<longleftrightarrow> sx_pending x \<and> length (sx_plan x) = sx_prev x \<and> sx_prev x \<le> sx_capacity x
     \<and> blocks_apart (sx_pend_src x) (sx_plan x) (sx_prev x)
     \<and> (\<forall>e < sx_prev x. 0 \<le> ep_len (sx_plan x ! e)
          \<and> (0 < ep_len (sx_plan x ! e) \<longrightarrow> ep_bound (sx_plan x ! e) \<le> 0 \<and> 0 < sx_pend_src x ! e))"

lemma length_set_lens [simp]: "length (set_lens lens ps) = min (length lens) (length ps)"
  by (simp add: set_lens_def)

lemma set_lens_nth [simp]: "e < length lens \<Longrightarrow> e < length ps \<Longrightarrow> set_lens lens ps ! e = (ps ! e)\<lparr>ep_len := lens ! e\<rparr>"
  by (simp add: set_lens_def)

lemma plan_lens_nth [simp]: "e < length ps \<Longrightarrow> plan_lens ps ! e = ep_len (ps ! e)"
  by (simp add: plan_lens_def)

lemma entry_blocks_len [simp]: "entry_blocks src (p\<lparr>ep_len := l\<rparr>) = entry_blocks src p"
  by (simp add: entry_blocks_def)

lemma blocks_apart_set_lens: "length lens = n \<Longrightarrow> length ps = n \<Longrightarrow> blocks_apart srcs (set_lens lens ps) n = blocks_apart srcs ps n"
  by (simp add: blocks_apart_def)

text \<open>Committing some of the remaining entries now and taking them off the plan settles to the same pool.\<close>

lemma settle_some:
  assumes "blocks_apart srcs ps n" "length ps = n" "length now = n" "length rest = n"
    and "\<And>e. e < n \<Longrightarrow> (now ! e = 0 \<and> rest ! e = ep_len (ps ! e)) \<or> (now ! e = ep_len (ps ! e) \<and> rest ! e = 0)"
    and "\<And>e. e < n \<Longrightarrow> al = al' \<or> ep_bound (ps ! e) \<le> 0 \<or> rest ! e = 0"
  shows "commit_state L M al' n srcs (plan_lens (set_lens rest ps)) (set_lens rest ps) recs (commit_state L M al n srcs now ps recs pool)
    = commit_state L M al n srcs (plan_lens ps) ps recs pool"
proof -
  let ?p = "commit_state L M al n srcs now ps recs pool"
  have "commit_state L M al' n srcs (plan_lens (set_lens rest ps)) (set_lens rest ps) recs ?p = commit_state L M al n srcs rest ps recs ?p"
  proof -
    have one: "commit_entry L M al' (srcs ! e) (plan_lens (set_lens rest ps) ! e) (set_lens rest ps ! e) (recs e)
        = commit_entry L M al (srcs ! e) (rest ! e) (ps ! e) (recs e)" if e: "e < n" for e
    proof -
      consider "al = al'" | "ep_bound (ps ! e) \<le> 0" | "rest ! e = 0" using assms(6) [OF e] by blast
      then show ?thesis using e assms(2,4) by cases (auto simp: commit_entry_one fun_eq_iff)
    qed
    show ?thesis unfolding commit_state_def by (intro fold_cong) (auto simp: one)
  qed
  also have "\<dots> = commit_state L M al n srcs (plan_lens ps) ps recs pool"
    using assms by (intro commit_state_split [symmetric]) auto
  finally show ?thesis .
qed

section \<open>Deferring a commit\<close>

definition call_plan :: "nat \<Rightarrow> commit_call \<Rightarrow> entry_plan list" where
  "call_plan sql c = map (plan_of sql c) [0..<length (cc_source c)]"

text \<open>The host's test that no entry of a step can need rule 1 (\<open>_glm53_rule1_host_skip\<close>).\<close>

definition host_skip_ok :: "nat \<Rightarrow> commit_call \<Rightarrow> bool" where
  "host_skip_ok sql c \<longleftrightarrow> cc_requests c = None \<and> (\<exists>t nc bs. cc_table c = Some t \<and> cc_computed c = Some nc \<and> cc_block c = Some bs
     \<and> (\<forall>e < length (cc_source c). 0 \<le> nc ! e \<and> nc ! e mod bs + query_len c e \<le> bs - int sql))"

lemma host_skip_none_now:
  assumes "host_skip_ok sql c" "\<not> commit_rejected sql cap c" "e < length (cc_source c)"
  shows "\<not> commits_now sql c e (plan_of sql c e)"
proof
  assume now: "commits_now sql c e (plan_of sql c e)"
  obtain t nc bs where t: "cc_table c = Some t" "cc_computed c = Some nc" "cc_block c = Some bs" and r: "cc_requests c = None"
    and lim: "0 \<le> nc ! e" "nc ! e mod bs + query_len c e \<le> bs - int sql"
    using assms(1,3) unfolding host_skip_ok_def by blast
  define l where "l = planned_len sql c e"
  define m where "m = nc ! e"
  have al: "entry_align c e = Some (t ! e, m, bs)" using t r by (simp add: entry_align_def entry_row_def m_def)
  have l: "0 < l" "ep_len (plan_of sql c e) = l" "0 < cc_source c ! e"
    using now plan_len_eq [of sql c e] unfolding commits_now_def al by (auto simp: l_def split: if_splits)
  have le: "l \<le> int sql" "l \<le> query_len c e" using planned_bounds by (simp_all add: l_def)
  have bs: "0 < bs" using assms(2) t le l(1) by (simp add: commit_rejected_def Let_def)
  have small: "m mod bs + l < bs" "0 \<le> m mod bs" "0 \<le> m" using lim le l(1) bs by (simp_all add: m_def)
  have div: "(m div bs + 1) * bs = m - m mod bs + bs" by (simp add: minus_mod_eq_div_mult [symmetric] algebra_simps)
  have "ep_bound (plan_of sql c e) = 0"
    using small l(1,3) div unfolding plan_of_Some [OF al] by (simp add: Let_def l_def c_div_nonneg)
  moreover have "(m + l) mod bs = m mod bs + l"
  proof -
    have "(m + l) mod bs = (m mod bs + l) mod bs" by (simp add: mod_simps)
    then show ?thesis using small l(1) by (simp add: mod_pos_pos_trivial)
  qed
  ultimately show False using now lim(2) le l unfolding commits_now_def al by (simp add: m_def)
qed

lemma commits_now_active: "commits_now sql c e (plan_of sql c e) \<Longrightarrow> 0 < ep_len (plan_of sql c e) \<and> entry_align c e \<noteq> None"
  using plan_len(1) [of sql c e] by (auto simp: commits_now_def split: option.splits)

lemma deferred_bound:
  assumes "\<not> commits_now sql c e (plan_of sql c e)"
  shows "ep_bound (plan_of sql c e) \<le> 0 \<or> ep_len (plan_of sql c e) = 0"
proof (cases "entry_align c e")
  case (Some a)
  then show ?thesis using assms plan_len(1) [of sql c e] by (cases a) (auto simp: commits_now_def)
qed (simp add: plan_of_None)

lemma align_table: "\<not> commit_rejected sql cap c \<Longrightarrow> entry_align c e = None \<longleftrightarrow> cc_table c = None"
  by (auto simp: commit_rejected_def entry_align_def Let_def split: option.splits)

text \<open>A fused commit of a call with entries. With the host's skip the entries are all deferred.\<close>

definition skips :: "bool \<Rightarrow> commit_call \<Rightarrow> bool" where
  "skips skip c \<longleftrightarrow> skip \<and> cc_table c \<noteq> None \<and> cc_requests c = None"

definition rest_lens :: "nat \<Rightarrow> commit_call \<Rightarrow> int list" where
  "rest_lens sql c = map (\<lambda>e. if commits_now sql c e (call_plan sql c ! e) then 0 else ep_len (call_plan sql c ! e)) [0..<length (cc_source c)]"

definition now_lens :: "nat \<Rightarrow> commit_call \<Rightarrow> int list" where
  "now_lens sql c = map (\<lambda>e. if commits_now sql c e (call_plan sql c ! e) then ep_len (call_plan sql c ! e) else 0) [0..<length (cc_source c)]"

definition compacted :: "nat \<Rightarrow> nat \<Rightarrow> commit_call \<Rightarrow> (int \<Rightarrow> nat \<Rightarrow> 'a) \<Rightarrow> int \<Rightarrow> nat \<Rightarrow> 'a" where
  "compacted history sql c = fold (\<lambda>e. compact_entry history (cc_table c \<noteq> None) (cc_source c ! e) (call_plan sql c ! e)) [0..<length (cc_source c)]"

lemma plain_commit_eq:
  assumes "\<not> sx_fused x" "cc_source c \<noteq> []" "\<not> commit_rejected (sx_sql x) (sx_capacity x) c"
  shows "ssm_commit L M skip c x = (x\<lparr>sx_plan := call_plan (sx_sql x) c, sx_conv := compacted (sx_history x) (sx_sql x) c (sx_conv x),
      sx_pool := commit_state L M (cc_table c \<noteq> None) (length (cc_source c)) (cc_source c) (plan_lens (call_plan (sx_sql x) c))
        (call_plan (sx_sql x) c) (sx_records x 0) (sx_pool x)\<rparr>, Inr ())"
  using assms by (simp add: ssm_commit_def Let_def call_plan_def compacted_def)

lemma fused_commit_eq:
  assumes "sx_fused x" "cc_source c \<noteq> []" "\<not> commit_rejected (sx_sql x) (sx_capacity x) c" "cc_table c \<noteq> None \<longrightarrow> sx_align x"
    and "skips skip c \<longrightarrow> host_skip_ok (sx_sql x) c"
  shows "ssm_commit L M skip c x = (x\<lparr>sx_plan := set_lens (rest_lens (sx_sql x) c) (call_plan (sx_sql x) c),
      sx_conv := compacted (sx_history x) (sx_sql x) c (sx_conv x),
      sx_pool := commit_state L M (cc_table c \<noteq> None) (length (cc_source c)) (cc_source c) (now_lens (sx_sql x) c)
        (call_plan (sx_sql x) c) (sx_records x (sx_write_buf x)) (sx_pool x),
      sx_pend_map := (if skips skip c then [0..<sx_capacity x] else map (entry_row c) [0..<length (cc_source c)]),
      sx_pend_src := cc_source c, sx_prev := length (cc_source c), sx_pending := True, sx_write_buf := 1 - sx_write_buf x\<rparr>, Inr ())"
proof -
  let ?n = "length (cc_source c)" and ?ps = "call_plan (sx_sql x) c"
  have none: "commit_state L M a ?n (cc_source c) (now_lens (sx_sql x) c) ?ps rs p = p"
    if "\<And>e. e < ?n \<Longrightarrow> \<not> commits_now (sx_sql x) c e (?ps ! e)" for a rs p
    using that by (intro commit_state_none) (simp add: now_lens_def)
  show ?thesis
  proof (cases "skips skip c")
    case True
    have no: "\<not> commits_now (sx_sql x) c e (?ps ! e)" if "e < ?n" for e
      using host_skip_none_now [OF mp [OF assms(5) True] assms(3) that] that by (simp add: call_plan_def)
    have "set_lens (rest_lens (sx_sql x) c) ?ps = ?ps"
      by (rule nth_equalityI) (use no in \<open>simp_all add: rest_lens_def call_plan_def\<close>)
    then show ?thesis
      using True assms(1-4) none [OF no]
      by (simp add: ssm_commit_def Let_def skips_def call_plan_def [symmetric] compacted_def)
  next
    case False
    have "commit_state L M False ?n (cc_source c) (now_lens (sx_sql x) c) ?ps rs p = p" if "cc_table c = None" for rs p
      using that align_table [OF assms(3)] by (intro none) (auto simp: call_plan_def dest: commits_now_active)
    note none1 = this
    note defs = ssm_commit_def Let_def call_plan_def [symmetric] compacted_def rest_lens_def [symmetric] now_lens_def [symmetric]
    show ?thesis
    proof (cases "cc_table c")
      case None
      then show ?thesis using False assms(1-3) none1 by (simp add: defs skips_def)
    next
      case (Some t)
      then have "sx_align x" using assms(4) by simp
      then show ?thesis using False Some assms(1-3) by (auto simp: defs skips_def)
    qed
  qed
qed

end
