(* ===== verification/Recover_Fused.thy ===== *)
theory Recover_Fused
  imports Recover_Order
begin

text \<open>
  The fused commit against the immediate one: each operation of the deferral keeps the pool that an immediate commit
  would have left (\<open>settled\<close>), the fused verify makes it real, and a block where the real pool differs from it is one that
  only its own request's next verify reads.
\<close>

section \<open>Every operation keeps the settled pool\<close>

lemma commit_settles:
  assumes "sx_fused x" "cc_source c \<noteq> []" "\<not> commit_rejected (sx_sql x) (sx_capacity x) c" "cc_table c \<noteq> None \<longrightarrow> sx_align x"
    and "skips skip c \<longrightarrow> host_skip_ok (sx_sql x) c" "blocks_apart (cc_source c) (call_plan (sx_sql x) c) (length (cc_source c))"
    and "sx_write_buf x \<le> 1" "y = fst (ssm_commit L M skip c x)"
  shows "pending_ok y"
    and "settled L M y = commit_state L M (cc_table c \<noteq> None) (length (cc_source c)) (cc_source c) (plan_lens (call_plan (sx_sql x) c))
      (call_plan (sx_sql x) c) (sx_records x (sx_write_buf x)) (sx_pool x)"
proof -
  let ?n = "length (cc_source c)" and ?ps = "call_plan (sx_sql x) c"
  have len: "length ?ps = ?n" "length (rest_lens (sx_sql x) c) = ?n" "length (now_lens (sx_sql x) c) = ?n"
    by (simp_all add: call_plan_def rest_lens_def now_lens_def)
  have nth: "?ps ! e = plan_of (sx_sql x) c e" if "e < ?n" for e using that by (simp add: call_plan_def)
  have y: "sx_plan y = set_lens (rest_lens (sx_sql x) c) ?ps" "sx_prev y = ?n" "sx_pend_src y = cc_source c" "sx_pending y"
    "sx_write_buf y = 1 - sx_write_buf x" "sx_records y = sx_records x" "sx_align y = sx_align x" "sx_capacity y = sx_capacity x"
    "sx_pool y = commit_state L M (cc_table c \<noteq> None) ?n (cc_source c) (now_lens (sx_sql x) c) ?ps (sx_records x (sx_write_buf x)) (sx_pool x)"
    unfolding assms(8) fused_commit_eq [OF assms(1-5)] by simp_all
  have rest: "rest_lens (sx_sql x) c ! e = (if commits_now (sx_sql x) c e (plan_of (sx_sql x) c e) then 0 else ep_len (plan_of (sx_sql x) c e))"
    "now_lens (sx_sql x) c ! e = (if commits_now (sx_sql x) c e (plan_of (sx_sql x) c e) then ep_len (plan_of (sx_sql x) c e) else 0)"
    if "e < ?n" for e using that by (simp_all add: rest_lens_def now_lens_def nth)
  have "?n \<le> sx_capacity x" using assms(3) by (simp add: commit_rejected_def Let_def)
  moreover have "0 \<le> ep_len (sx_plan y ! e) \<and> (0 < ep_len (sx_plan y ! e) \<longrightarrow> ep_bound (sx_plan y ! e) \<le> 0 \<and> 0 < sx_pend_src y ! e)"
    if "e < ?n" for e
    using that plan_len [where sql = "sx_sql x" and c = c and e = e] deferred_bound [of "sx_sql x" c e]
    by (auto simp: y len rest nth)
  ultimately show "pending_ok y" using assms(6) by (simp add: pending_ok_def y len blocks_apart_set_lens)
  have b: "1 - (1 - sx_write_buf x) = sx_write_buf x" using assms(7) by simp
  show "settled L M y = commit_state L M (cc_table c \<noteq> None) ?n (cc_source c) (plan_lens ?ps) ?ps (sx_records x (sx_write_buf x)) (sx_pool x)"
    unfolding settled_def y b
  proof (rule settle_some)
    fix e assume e: "e < ?n"
    show "(now_lens (sx_sql x) c ! e = 0 \<and> rest_lens (sx_sql x) c ! e = ep_len (?ps ! e))
      \<or> (now_lens (sx_sql x) c ! e = ep_len (?ps ! e) \<and> rest_lens (sx_sql x) c ! e = 0)" using e by (simp add: rest nth)
    show "(cc_table c \<noteq> None) = sx_align x \<or> ep_bound (?ps ! e) \<le> 0 \<or> rest_lens (sx_sql x) c ! e = 0"
      using e deferred_bound [of "sx_sql x" c e] by (auto simp: rest nth)
  qed (use assms(6) len in simp_all)
qed

lemma flush_absent_settled:
  assumes "pending_ok x"
  shows "pending_ok (flush_absent L M keep x)" "settled L M (flush_absent L M keep x) = settled L M x"
proof -
  let ?n = "sx_prev x" and ?ps = "sx_plan x"
  define gone where "gone = (\<lambda>e. 0 < ep_len (?ps ! e) \<and> \<not> keep ! (sx_pend_map x ! e))"
  define now where "now = map (\<lambda>e. if gone e then ep_len (?ps ! e) else 0) [0..<?n]"
  define rest where "rest = map (\<lambda>e. if gone e then 0 else ep_len (?ps ! e)) [0..<?n]"
  have x: "sx_pending x" "length ?ps = ?n" "blocks_apart (sx_pend_src x) ?ps ?n" using assms by (simp_all add: pending_ok_def)
  have y: "flush_absent L M keep x = x\<lparr>sx_plan := set_lens rest ?ps,
      sx_pool := commit_state L M (sx_align x) ?n (sx_pend_src x) now ?ps (sx_records x (1 - sx_write_buf x)) (sx_pool x)\<rparr>"
    using x(1) by (simp add: flush_absent_def Let_def gone_def now_def rest_def)
  have nth: "e < ?n \<Longrightarrow> now ! e = (if gone e then ep_len (?ps ! e) else 0)" "e < ?n \<Longrightarrow> rest ! e = (if gone e then 0 else ep_len (?ps ! e))" for e
    by (simp_all add: now_def rest_def)
  have len: "length now = ?n" "length rest = ?n" by (simp_all add: now_def rest_def)
  show "pending_ok (flush_absent L M keep x)"
    using assms x len by (auto simp: y pending_ok_def blocks_apart_set_lens nth)
  have "commit_state L M (sx_align x) ?n (sx_pend_src x) (plan_lens (set_lens rest ?ps)) (set_lens rest ?ps) (sx_records x (1 - sx_write_buf x))
      (commit_state L M (sx_align x) ?n (sx_pend_src x) now ?ps (sx_records x (1 - sx_write_buf x)) (sx_pool x))
    = commit_state L M (sx_align x) ?n (sx_pend_src x) (plan_lens ?ps) ?ps (sx_records x (1 - sx_write_buf x)) (sx_pool x)"
    by (rule settle_some) (simp_all add: x len nth)
  then show "settled L M (flush_absent L M keep x) = settled L M x" by (simp add: settled_def y)
qed

text \<open>Copies of whole blocks, as the runner makes them between two steps: \<open>(to, from)\<close> pairs.\<close>

definition pool_copies :: "(int \<times> int) list \<Rightarrow> 'a state_pool \<Rightarrow> 'a state_pool" where
  "pool_copies = fold (\<lambda>(d, s) p. p(d := p s))"

lemma copies_settled:
  assumes "pending_ok x"
    and "\<And>d s e. (d, s) \<in> set cs \<Longrightarrow> e < sx_prev x \<Longrightarrow> 0 < ep_len (sx_plan x ! e)
      \<Longrightarrow> s \<noteq> ep_final (sx_plan x ! e) \<and> d \<noteq> ep_final (sx_plan x ! e) \<and> d \<noteq> sx_pend_src x ! e"
  shows "settled L M (x\<lparr>sx_pool := pool_copies cs (sx_pool x)\<rparr>) = pool_copies cs (settled L M x)"
proof -
  let ?C = "\<lambda>e. commit_entry L M (sx_align x) (sx_pend_src x ! e) (plan_lens (sx_plan x) ! e) (sx_plan x ! e) (sx_records x (1 - sx_write_buf x) e)"
  have one: "(\<lambda>p. p(d := p s)) \<circ> ?C e = ?C e \<circ> (\<lambda>p. p(d := p s))" if ds: "(d, s) \<in> set cs" and e: "e < sx_prev x" for d s e
  proof (cases "0 < ep_len (sx_plan x ! e)")
    case True
    then have "ep_bound (sx_plan x ! e) \<le> 0" using assms(1) e by (simp add: pending_ok_def)
    then show ?thesis using assms(2) [OF ds e True] by (auto simp: commit_entry_one fun_eq_iff)
  next
    case False
    have "e < length (sx_plan x)" "0 \<le> ep_len (sx_plan x ! e)" using assms(1) e by (simp_all add: pending_ok_def)
    then have "plan_lens (sx_plan x) ! e = 0" using False by simp
    then show ?thesis by (simp add: fun_eq_iff)
  qed
  have "fold ?C [0..<sx_prev x] (pool_copies ds p) = pool_copies ds (fold ?C [0..<sx_prev x] p)" if "set ds \<subseteq> set cs" for ds p
    using that
  proof (induction ds arbitrary: p)
    case (Cons a ds)
    obtain d s where a: "a = (d, s)" by (cases a)
    have "fold ?C [0..<sx_prev x] (p(d := p s)) = (\<lambda>p. p(d := p s)) (fold ?C [0..<sx_prev x] p)"
    proof (rule fold_past [symmetric])
      fix e assume "e \<in> set [0..<sx_prev x]"
      then show "(\<lambda>p. p(d := p s)) \<circ> ?C e = ?C e \<circ> (\<lambda>p. p(d := p s))" using Cons.prems a by (intro one) simp_all
    qed
    then show ?case using Cons a by (simp add: pool_copies_def)
  qed (simp add: pool_copies_def)
  then show ?thesis by (simp add: settled_def commit_state_def)
qed

section \<open>Handing entries to rows\<close>

lemma find_row_spec:
  shows "find_row rows blk = Some r \<Longrightarrow> r < length rows \<and> rows ! r = blk"
    and "find_row rows blk = None \<Longrightarrow> blk \<notin> set rows"
proof -
  let ?f = "\<lambda>m. fold (\<lambda>r found. if rows ! r = blk then Some r else found) [0..<m] None"
  have f: "case ?f m of None \<Rightarrow> \<forall>r < m. rows ! r \<noteq> blk | Some r \<Rightarrow> r < m \<and> rows ! r = blk" for m
    by (induction m) (auto simp: less_Suc_eq split: option.splits)
  show "find_row rows blk = Some r \<Longrightarrow> r < length rows \<and> rows ! r = blk"
    using f [of "length rows"] by (simp add: find_row_def)
  show "find_row rows blk = None \<Longrightarrow> blk \<notin> set rows"
    using f [of "length rows"] by (auto simp: find_row_def in_set_conv_nth)
qed

lemma handed_row_spec: "handed_row rows p = Some r \<Longrightarrow> r < length rows \<and> rows ! r = ep_final p \<and> ep_len p \<noteq> 0 \<and> ep_bound p \<le> 0"
  by (auto simp: handed_row_def find_row_spec split: if_splits)

definition hand_table :: "(nat \<Rightarrow> nat option) \<Rightarrow> nat \<Rightarrow> int list \<Rightarrow> int list" where
  "hand_table h n = fold (\<lambda>e t. case h e of None \<Rightarrow> t | Some r \<Rightarrow> t[r := int e]) [0..<n]"

lemma hand_table_nth:
  assumes "r < length t"
  shows "(\<And>e. e < n \<Longrightarrow> h e \<noteq> Some r) \<Longrightarrow> hand_table h n t ! r = t ! r"
    and "e < n \<Longrightarrow> h e = Some r \<Longrightarrow> (\<And>e'. e' < n \<Longrightarrow> h e' = Some r \<Longrightarrow> e' = e) \<Longrightarrow> hand_table h n t ! r = int e"
proof -
  have len: "length (hand_table h m t) = length t" for m
    by (induction m) (simp_all add: hand_table_def split: option.split)
  have last: "hand_table h (Suc m) t = (case h m of None \<Rightarrow> hand_table h m t | Some r \<Rightarrow> (hand_table h m t)[r := int m])" for m
    unfolding hand_table_def by simp
  show none: "hand_table h m t ! r = t ! r" if "\<And>e. e < m \<Longrightarrow> h e \<noteq> Some r" for m
    using that
  proof (induction m)
    case (Suc m)
    have "h m \<noteq> Some r" by (rule Suc.prems) simp
    then show ?case using Suc by (cases "h m") (auto simp: last)
  qed (simp add: hand_table_def)
  show "hand_table h n t ! r = int e" if "e < n" "h e = Some r" "\<And>e'. e' < n \<Longrightarrow> h e' = Some r \<Longrightarrow> e' = e"
    using that
  proof (induction n)
    case (Suc n)
    show ?case
    proof (cases "e = n")
      case True
      then show ?thesis using Suc.prems(2) assms len [of n] by (simp add: last)
    next
      case False
      then have "h n \<noteq> Some r" using Suc.prems(3) [of n] by auto
      moreover have "hand_table h n t ! r = int e"
      proof (rule Suc.IH)
        show "e < n" "h e = Some r" using Suc.prems(1,2) False by simp_all
        show "e' = e" if "e' < n" "h e' = Some r" for e' using that by (intro Suc.prems(3)) simp_all
      qed
      ultimately show ?thesis by (cases "h n") (simp_all add: last)
    qed
  qed simp
qed

section \<open>The fused verify makes the settled pool real\<close>

definition positive_states :: "'a spec_row list \<Rightarrow> bool" where
  "positive_states rows \<longleftrightarrow> (\<forall>r < length rows. \<forall>r' < length rows. 0 < sr_state (rows ! r) \<longrightarrow> sr_state (rows ! r) = sr_state (rows ! r') \<longrightarrow> r = r')"

definition row_records :: "'a::{zero,one,plus,minus,times} pool_layout \<Rightarrow> 'a kda_math \<Rightarrow> 'a state_pool \<Rightarrow> nat \<Rightarrow> 'a spec_row list \<Rightarrow> nat
    \<Rightarrow> (nat \<Rightarrow> nat \<Rightarrow> nat \<Rightarrow> 'a kda_record) \<Rightarrow> nat \<Rightarrow> nat \<Rightarrow> nat \<Rightarrow> 'a kda_record" where
  "row_records L M pool buf rows n = fold (\<lambda>r. put_records buf r (snd (verify_row L M pool (rows ! r)))) [0..<n]"

lemma row_records_Suc: "row_records L M pool buf rows (Suc n) old = put_records buf n (snd (verify_row L M pool (rows ! n))) (row_records L M pool buf rows n old)"
  by (simp add: row_records_def)

lemma row_records_other: "b \<noteq> buf \<Longrightarrow> row_records L M pool buf rows n old b = old b"
  by (induction n) (simp_all add: row_records_Suc, simp_all add: row_records_def put_records_def fun_eq_iff)

lemma row_records_row:
  "r < n \<Longrightarrow> t < length (snd (verify_row L M pool (rows ! r))) \<Longrightarrow> row_records L M pool buf rows n old buf r t = snd (verify_row L M pool (rows ! r)) ! t"
  by (induction n) (auto simp: row_records_Suc put_records_def less_Suc_eq)

text \<open>What the fused verify needs of a row with a state: no entry and the settled state, or the entry whose commit settles it.\<close>

definition row_ready :: "'a::{zero,one,plus,times} pool_layout \<Rightarrow> 'a kda_math \<Rightarrow> 'a ssm_ctx \<Rightarrow> 'a state_pool \<Rightarrow> nat \<Rightarrow> int \<Rightarrow> bool" where
  "row_ready L M y P r b \<longleftrightarrow>
     (sx_pend_entry y ! r < 0 \<and> P b = sx_pool y b)
     \<or> (\<exists>e. sx_pend_entry y ! r = int e \<and> ep_final (sx_plan y ! e) = b \<and> (sx_pend_src y ! e = b \<or> P (sx_pend_src y ! e) = sx_pool y (sx_pend_src y ! e))
        \<and> P b = state_store L (sx_pool y b) (fst (recover_tiles M (ep_rec (sx_plan y ! e)) (nat (ep_len (sx_plan y ! e)))
              (sx_records y (1 - sx_write_buf y) e) (state_load L (sx_pool y (sx_pend_src y ! e))))))"

lemma fused_rows_loop:
  assumes "slots_distinct L" "sx_write_buf y \<le> 1" "positive_states rows"
    and "\<And>r. r < length rows \<Longrightarrow> 0 < sr_state (rows ! r) \<Longrightarrow> row_ready L M y P r (sr_state (rows ! r))"
    and "n \<le> length rows"
  shows "fold (\<lambda>r (x, outs). let (x', out) = fused_row L M r (rows ! r) x in (x', outs @ [out])) [0..<n] (y, [])
    = (y\<lparr>sx_pool := (\<lambda>b. if \<exists>r < n. 0 < b \<and> b = sr_state (rows ! r) then P b else sx_pool y b),
         sx_records := row_records L M P (sx_write_buf y) rows n (sx_records y)\<rparr>, map (\<lambda>r. fst (verify_row L M P (rows ! r))) [0..<n])"
  using assms(5)
proof (induction n)
  case (Suc n)
  define made where "made = (\<lambda>b. if \<exists>r < n. 0 < b \<and> b = sr_state (rows ! r) then P b else sx_pool y b)"
  define recs where "recs = row_records L M P (sx_write_buf y) rows n (sx_records y)"
  define b where "b = sr_state (rows ! n)"
  let ?x = "y\<lparr>sx_pool := made, sx_records := recs\<rparr>"
  have IH: "fold (\<lambda>r (x, outs). let (x', out) = fused_row L M r (rows ! r) x in (x', outs @ [out])) [0..<n] (y, [])
    = (?x, map (\<lambda>r. fst (verify_row L M P (rows ! r))) [0..<n])"
    using Suc by (simp add: made_def recs_def)
  have pool: "(\<lambda>b. if \<exists>r < Suc n. 0 < b \<and> b = sr_state (rows ! r) then P b else sx_pool y b) = (if 0 < b then made(b := P b) else made)"
    by (auto simp: made_def b_def less_Suc_eq fun_eq_iff)
  have row: "fused_row L M n (rows ! n) ?x
    = (y\<lparr>sx_pool := (if 0 < b then made(b := P b) else made), sx_records := put_records (sx_write_buf y) n (snd (verify_row L M P (rows ! n))) recs\<rparr>,
       fst (verify_row L M P (rows ! n)))"
  proof (cases "0 < b")
    case False
    then show ?thesis by (simp add: fused_row_def verify_row_def b_def put_records_def)
  next
    case True
    have new: "made b = sx_pool y b" using assms(3) Suc.prems True unfolding made_def positive_states_def b_def by (metis Suc_le_lessD less_trans order_less_irrefl)
    have buf: "recs (1 - sx_write_buf y) = sx_records y (1 - sx_write_buf y)"
      unfolding recs_def using assms(2) by (intro row_records_other) arith
    have ready: "row_ready L M y P n b" using assms(4) [of n] Suc.prems True by (simp add: b_def)
    then consider (plain) "sx_pend_entry y ! n < 0" "P b = sx_pool y b"
      | (entry) e where "sx_pend_entry y ! n = int e" "ep_final (sx_plan y ! e) = b"
        "sx_pend_src y ! e = b \<or> P (sx_pend_src y ! e) = sx_pool y (sx_pend_src y ! e)"
        "P b = state_store L (sx_pool y b) (fst (recover_tiles M (ep_rec (sx_plan y ! e)) (nat (ep_len (sx_plan y ! e)))
              (sx_records y (1 - sx_write_buf y) e) (state_load L (sx_pool y (sx_pend_src y ! e)))))"
      unfolding row_ready_def by blast
    then show ?thesis
    proof cases
      case plain
      then have "made(b := P b) = made" using new by auto
      then show ?thesis using plain True new
        by (simp add: fused_row_def verify_row_def b_def [symmetric] Let_def case_prod_beta)
    next
      case entry
      define st where "st = fst (recover_tiles M (ep_rec (sx_plan y ! e)) (nat (ep_len (sx_plan y ! e)))
              (sx_records y (1 - sx_write_buf y) e) (state_load L (sx_pool y (sx_pend_src y ! e))))"
      have src: "made (sx_pend_src y ! e) = sx_pool y (sx_pend_src y ! e)" 
      proof (cases "sx_pend_src y ! e = b")
        case False
        then show ?thesis using entry(3) by (simp add: made_def)
      qed (simp add: new)
      have P: "P b = state_store L (sx_pool y b) st" using entry(4) by (simp add: st_def)
      then have load: "state_load L (P b) = state_as_stored L st" using load_after_store [OF assms(1)] by simp
      show ?thesis using entry(1,2) True new src P buf load
        by (simp add: fused_row_def verify_row_def b_def [symmetric] Let_def case_prod_beta st_def [symmetric] del: One_nat_def)
    qed
  qed
  show ?case using IH row by (simp add: pool row_records_Suc recs_def)
qed (simp add: row_records_def)

lemma prepare_ready:
  assumes "pending_ok x" "positive_states rows" "length rows \<le> sx_capacity x" "y = prepare_fused L M (Some (map sr_state rows)) x"
  shows "r < length rows \<Longrightarrow> 0 < sr_state (rows ! r) \<Longrightarrow> row_ready L M y (settled L M x) r (sr_state (rows ! r))"
    and "(\<And>r. r < length rows \<Longrightarrow> 0 < b \<Longrightarrow> b \<noteq> sr_state (rows ! r)) \<Longrightarrow> settled L M x b = sx_pool y b"
    and "\<exists>pend Q. y = x\<lparr>sx_pend_entry := pend, sx_pending := False, sx_pool := Q\<rparr>"
proof -
  let ?n = "sx_prev x" and ?ps = "sx_plan x" and ?R = "map sr_state rows" and ?P = "settled L M x" and ?src = "sx_pend_src x"
  let ?recs = "sx_records x (1 - sx_write_buf x)"
  define h where "h = (\<lambda>e. handed_row ?R (?ps ! e))"
  define flush where "flush = map (\<lambda>e. if h e = None then ep_len (?ps ! e) else 0) [0..<?n]"
  define handed where "handed = map (\<lambda>e. if h e = None then 0 else ep_len (?ps ! e)) [0..<?n]"
  define Q where "Q = commit_state L M (sx_align x) ?n ?src flush ?ps ?recs (sx_pool x)"
  have x: "sx_pending x" "length ?ps = ?n" "blocks_apart ?src ?ps ?n"
    and live: "\<And>e. e < ?n \<Longrightarrow> h e \<noteq> None \<Longrightarrow> 0 < ep_len (?ps ! e) \<and> ep_bound (?ps ! e) \<le> 0 \<and> 0 < ?src ! e"
  proof -
    show "sx_pending x" "length ?ps = ?n" "blocks_apart ?src ?ps ?n" using assms(1) by (simp_all add: pending_ok_def)
    fix e assume e: "e < ?n" "h e \<noteq> None"
    then have "ep_len (?ps ! e) \<noteq> 0" using handed_row_spec by (auto simp: h_def)
    moreover have "0 \<le> ep_len (?ps ! e)" "0 < ep_len (?ps ! e) \<longrightarrow> ep_bound (?ps ! e) \<le> 0 \<and> 0 < ?src ! e"
      using assms(1) e(1) by (simp_all add: pending_ok_def)
    ultimately show "0 < ep_len (?ps ! e) \<and> ep_bound (?ps ! e) \<le> 0 \<and> 0 < ?src ! e" by simp
  qed
  have y: "y = x\<lparr>sx_pend_entry := hand_table h ?n (replicate (sx_capacity x) (- 1)), sx_pending := False, sx_pool := Q\<rparr>"
    unfolding assms(4) prepare_fused_def Let_def hand_table_def h_def Q_def flush_def using x(1) by simp
  then show "\<exists>pend Q. y = x\<lparr>sx_pend_entry := pend, sx_pending := False, sx_pool := Q\<rparr>" by blast
  have P: "?P = commit_state L M (sx_align x) ?n ?src handed ?ps ?recs Q"
    unfolding settled_def Q_def by (rule commit_state_split) (auto simp: x flush_def handed_def)
  have nth: "handed ! e = (if h e = None then 0 else ep_len (?ps ! e))" if "e < ?n" for e using that by (simp add: handed_def)
  have at: "?P (ep_final (?ps ! e)) = state_store L (Q (ep_final (?ps ! e))) (fst (recover_tiles M (ep_rec (?ps ! e)) (nat (ep_len (?ps ! e))) (?recs e) (state_load L (Q (?src ! e)))))"
    if e: "e < ?n" "h e \<noteq> None" "0 < ep_final (?ps ! e)" for e
  proof -
    have b: "ep_final (?ps ! e) \<in> entry_blocks (?src ! e) (?ps ! e)" using e(3) by (simp add: entry_blocks_def)
    show ?thesis
      unfolding P commit_state_at [OF x(3) e(1) b] using live [OF e(1,2)] e by (auto simp: commit_entry_one nth)
  qed
  have off: "?P b = Q b" if no: "\<And>e. e < ?n \<Longrightarrow> h e \<noteq> None \<Longrightarrow> 0 < b \<Longrightarrow> b \<noteq> ep_final (?ps ! e)" for b
  proof (cases "\<exists>e < ?n. b \<in> entry_blocks (?src ! e) (?ps ! e)")
    case True
    then obtain e where e: "e < ?n" "b \<in> entry_blocks (?src ! e) (?ps ! e)" by blast
    show ?thesis
    proof (cases "h e = None")
      case False
      have "b \<noteq> ep_final (?ps ! e) \<or> ep_final (?ps ! e) \<le> 0" using no [OF e(1) False] by linarith
      then show ?thesis unfolding P commit_state_at [OF x(3) e] using live [OF e(1) False] by (auto simp: commit_entry_one)
    qed (simp add: P commit_state_at [OF x(3) e] nth [OF e(1)])
  next
    case False
    then show ?thesis unfolding P by (intro commit_state_elsewhere) blast
  qed
  have one: "e = e'" if "e < ?n" "e' < ?n" "b \<in> entry_blocks (?src ! e) (?ps ! e)" "b \<in> entry_blocks (?src ! e') (?ps ! e')" for e e' b
    using x(3) that unfolding blocks_apart_def by blast
  have row: "r < length rows \<and> sr_state (rows ! r) = ep_final (?ps ! e)" if "h e = Some r" for e r
    using handed_row_spec [of ?R "?ps ! e" r] that by (auto simp: h_def)
  show "?P b = sx_pool y b" if "\<And>r. r < length rows \<Longrightarrow> 0 < b \<Longrightarrow> b \<noteq> sr_state (rows ! r)"
  proof -
    have "?P b = Q b"
    proof (rule off)
      fix e assume e: "e < ?n" "h e \<noteq> None" "0 < b"
      then obtain r where "h e = Some r" by blast
      then show "b \<noteq> ep_final (?ps ! e)" using row that e(3) by metis
    qed
    then show ?thesis by (simp add: y)
  qed
  show "row_ready L M y ?P r (sr_state (rows ! r))" if r: "r < length rows" "0 < sr_state (rows ! r)"
  proof -
    define b where "b = sr_state (rows ! r)"
    have cap: "r < length (replicate (sx_capacity x) (- 1 :: int))" using r(1) assms(3) by simp
    show ?thesis
    proof (cases "\<exists>e < ?n. h e = Some r")
      case True
      then obtain e where e: "e < ?n" "h e = Some r" by blast
      have fin: "ep_final (?ps ! e) = b" using row [OF e(2)] by (simp add: b_def)
      have mine: "b \<in> entry_blocks (?src ! e) (?ps ! e)" using fin r(2) by (simp add: entry_blocks_def b_def)
      have unique: "e' = e" if "e' < ?n" "h e' = Some r" for e'
      proof -
        have "b \<in> entry_blocks (?src ! e') (?ps ! e')" using row [OF that(2)] r(2) by (simp add: entry_blocks_def b_def)
        then show ?thesis using one that(1) e(1) mine by blast
      qed
      have "hand_table h ?n (replicate (sx_capacity x) (- 1)) ! r = int e"
        by (rule hand_table_nth(2) [where h = h and n = ?n and e = e and r = r, OF cap e]) (rule unique)
      then have entry: "sx_pend_entry y ! r = int e" by (simp add: y)
      have src: "?src ! e = b \<or> ?P (?src ! e) = Q (?src ! e)"
      proof (rule disjCI)
        assume "?P (?src ! e) \<noteq> Q (?src ! e)"
        then obtain e' where e': "e' < ?n" "h e' \<noteq> None" "0 < ?src ! e" "?src ! e = ep_final (?ps ! e')" using off by metis
        then have "?src ! e \<in> entry_blocks (?src ! e') (?ps ! e')" "?src ! e \<in> entry_blocks (?src ! e) (?ps ! e)" by (simp_all add: entry_blocks_def)
        then have "e' = e" using one e'(1) e(1) by blast
        then show "?src ! e = b" using e'(4) fin by simp
      qed
      have "?P b = state_store L (Q b) (fst (recover_tiles M (ep_rec (?ps ! e)) (nat (ep_len (?ps ! e))) (?recs e) (state_load L (Q (?src ! e)))))"
        using at [of e] e fin r(2) by (simp add: b_def)
      then show ?thesis unfolding row_ready_def b_def [symmetric] using entry fin src by (intro disjI2 exI [of _ e]) (simp add: y)
    next
      case False
      then have "sx_pend_entry y ! r = - 1" using hand_table_nth(1) [OF cap, of ?n h] cap by (auto simp: y)
      moreover have "?P b = Q b"
      proof (rule off)
        fix e assume e: "e < ?n" "h e \<noteq> None" "0 < b"
        then obtain r' where r': "h e = Some r'" by blast
        then have "r' \<noteq> r" using False e(1) by blast
        then have "sr_state (rows ! r') \<noteq> b" using row [OF r'] r assms(2) unfolding positive_states_def b_def by metis
        then show "b \<noteq> ep_final (?ps ! e)" using row [OF r'] by simp
      qed
      ultimately show ?thesis unfolding row_ready_def b_def [symmetric] by (intro disjI1) (simp add: y)
    qed
  qed
qed

section \<open>Decoding steps\<close>

text \<open>One step as the runner makes it: the commit of the last step's verify, the flush of absent requests, the runner's
  copies of whole blocks, the hand-over and the verify of the new rows.\<close>

record 'a decode_step =
  ds_call :: commit_call
  ds_skip :: bool
  ds_keep :: "bool list"
  ds_copies :: "(int \<times> int) list"
  ds_rows :: "'a spec_row list"

definition fused_step :: "'a::{zero,one,plus,minus,times} pool_layout \<Rightarrow> 'a kda_math \<Rightarrow> 'a decode_step \<Rightarrow> 'a ssm_ctx \<Rightarrow> 'a ssm_ctx \<times> (nat \<Rightarrow> 'a) list list" where
  "fused_step L M s x =
     (let x1 = fst (ssm_commit L M (ds_skip s) (ds_call s) x);
          x2 = flush_absent L M (ds_keep s) x1;
          x3 = x2\<lparr>sx_pool := pool_copies (ds_copies s) (sx_pool x2)\<rparr>
      in verify_fused L M (ds_rows s) (prepare_fused L M (Some (map sr_state (ds_rows s))) x3))"

definition plain_step :: "'a::{zero,one,plus,minus,times} pool_layout \<Rightarrow> 'a kda_math \<Rightarrow> 'a decode_step \<Rightarrow> 'a ssm_ctx \<Rightarrow> 'a ssm_ctx \<times> (nat \<Rightarrow> 'a) list list" where
  "plain_step L M s x =
     (let x1 = fst (ssm_commit L M (ds_skip s) (ds_call s) x)
      in verify_plain L M (ds_rows s) (x1\<lparr>sx_pool := pool_copies (ds_copies s) (sx_pool x1)\<rparr>))"

text \<open>The entries that both rules leave deferred.\<close>

definition stays_deferred :: "nat \<Rightarrow> commit_call \<Rightarrow> bool list \<Rightarrow> nat \<Rightarrow> bool" where
  "stays_deferred sql c keep e \<longleftrightarrow> 0 < ep_len (plan_of sql c e) \<and> \<not> commits_now sql c e (plan_of sql c e) \<and> keep ! entry_row c e"

text \<open>What the runner guarantees of a step: the commit is one the context accepts, requests own their blocks, the copies
  leave the blocks of deferred entries alone, the host's skip is justified, and no two rows share a state.\<close>

definition commit_ok :: "bool \<Rightarrow> nat \<Rightarrow> nat \<Rightarrow> bool \<Rightarrow> commit_call \<Rightarrow> bool" where
  "commit_ok align sql cap skip c \<longleftrightarrow> \<not> commit_rejected sql cap c \<and> (cc_table c \<noteq> None \<longrightarrow> align)
     \<and> blocks_apart (cc_source c) (call_plan sql c) (length (cc_source c)) \<and> (skips skip c \<longrightarrow> host_skip_ok sql c)"

definition copies_ok :: "nat \<Rightarrow> commit_call \<Rightarrow> bool list \<Rightarrow> (int \<times> int) list \<Rightarrow> bool" where
  "copies_ok sql c keep cs \<longleftrightarrow> (\<forall>(d, s) \<in> set cs. \<forall>e < length (cc_source c). stays_deferred sql c keep e
     \<longrightarrow> s \<noteq> ep_final (plan_of sql c e) \<and> d \<noteq> ep_final (plan_of sql c e) \<and> d \<noteq> cc_source c ! e)"

definition step_ok :: "bool \<Rightarrow> nat \<Rightarrow> nat \<Rightarrow> 'a decode_step \<Rightarrow> bool" where
  "step_ok align sql cap s \<longleftrightarrow> (cc_source (ds_call s) \<noteq> [] \<longrightarrow> commit_ok align sql cap (ds_skip s) (ds_call s))
     \<and> copies_ok sql (ds_call s) (ds_keep s) (ds_copies s) \<and> positive_states (ds_rows s) \<and> length (ds_rows s) \<le> cap"

text \<open>A commit is about the rows verified last: an entry commits tokens whose records that verify wrote.\<close>

definition follows :: "nat \<Rightarrow> 'a spec_row list \<Rightarrow> commit_call \<Rightarrow> bool" where
  "follows sql rows c \<longleftrightarrow> (\<forall>e < length (cc_source c). 0 < ep_len (plan_of sql c e)
     \<longrightarrow> e < length rows \<and> 0 < sr_state (rows ! e) \<and> ep_len (plan_of sql c e) \<le> int (length (sr_tokens (rows ! e))))"

text \<open>The fused context \<open>x\<close> tracks the plain one \<open>u\<close> after a verify of \<open>rows\<close>.\<close>

definition tracks :: "'a spec_row list \<Rightarrow> 'a ssm_ctx \<Rightarrow> 'a ssm_ctx \<Rightarrow> bool" where
  "tracks rows x u \<longleftrightarrow> sx_fused x \<and> \<not> sx_fused u \<and> \<not> sx_pending x \<and> sx_write_buf x \<le> 1
     \<and> sx_sql x = sx_sql u \<and> sx_capacity x = sx_capacity u \<and> sx_history x = sx_history u
     \<and> sx_pool x = sx_pool u \<and> sx_conv x = sx_conv u
     \<and> (\<forall>r < length rows. 0 < sr_state (rows ! r) \<longrightarrow> (\<forall>t < length (sr_tokens (rows ! r)). sx_records x (sx_write_buf x) r t = sx_records u 0 r t))"

lemma flush_absent_fields: "\<exists>ps Q. flush_absent L M keep x = x\<lparr>sx_plan := ps, sx_pool := Q\<rparr>"
proof (cases "sx_pending x")
  case False
  then show ?thesis by (intro exI [of _ "sx_plan x"] exI [of _ "sx_pool x"]) (simp add: flush_absent_def)
next
  case True
  then show ?thesis unfolding flush_absent_def Let_def by (simp only: if_False not_True_eq_False) blast
qed

lemma flush_absent_lens:
  assumes "pending_ok x" "e < sx_prev x"
  shows "sx_plan (flush_absent L M keep x) ! e
    = (sx_plan x ! e)\<lparr>ep_len := if 0 < ep_len (sx_plan x ! e) \<and> \<not> keep ! (sx_pend_map x ! e) then 0 else ep_len (sx_plan x ! e)\<rparr>"
  using assms by (simp add: flush_absent_def Let_def pending_ok_def)

text \<open>The verify after the hand-over works on the settled pool.\<close>

lemma verify_ready:
  assumes "slots_distinct L" "sx_write_buf y \<le> 1" "positive_states rows"
    and "\<And>r. r < length rows \<Longrightarrow> 0 < sr_state (rows ! r) \<Longrightarrow> row_ready L M y P r (sr_state (rows ! r))"
    and "\<And>b. (\<And>r. r < length rows \<Longrightarrow> 0 < b \<Longrightarrow> b \<noteq> sr_state (rows ! r)) \<Longrightarrow> P b = sx_pool y b"
  shows "verify_fused L M rows y = (y\<lparr>sx_pool := P, sx_records := row_records L M P (sx_write_buf y) rows (length rows) (sx_records y)\<rparr>,
    map (\<lambda>row. fst (verify_row L M P row)) rows)"
proof -
  have pool: "(\<lambda>b. if \<exists>r < length rows. 0 < b \<and> b = sr_state (rows ! r) then P b else sx_pool y b) = P"
  proof
    fix b show "(if \<exists>r < length rows. 0 < b \<and> b = sr_state (rows ! r) then P b else sx_pool y b) = P b"
      using assms(5) [of b] by auto
  qed
  have outs: "map (\<lambda>r. fst (verify_row L M P (rows ! r))) [0..<length rows] = map (\<lambda>row. fst (verify_row L M P row)) rows"
    by (rule nth_equalityI) simp_all
  have "verify_fused L M rows y = (y\<lparr>sx_pool := (\<lambda>b. if \<exists>r < length rows. 0 < b \<and> b = sr_state (rows ! r) then P b else sx_pool y b),
         sx_records := row_records L M P (sx_write_buf y) rows (length rows) (sx_records y)\<rparr>,
       map (\<lambda>r. fst (verify_row L M P (rows ! r))) [0..<length rows])"
    unfolding verify_fused_def by (rule fused_rows_loop [OF assms(1-3) _ order_refl]) (fact assms(4))
  then show ?thesis by (simp only: pool outs)
qed

lemma verify_settles:
  assumes "pending_ok x" "slots_distinct L" "sx_write_buf x \<le> 1" "positive_states rows" "length rows \<le> sx_capacity x"
  shows "\<exists>pend. verify_fused L M rows (prepare_fused L M (Some (map sr_state rows)) x)
    = (x\<lparr>sx_pend_entry := pend, sx_pending := False, sx_pool := settled L M x,
         sx_records := row_records L M (settled L M x) (sx_write_buf x) rows (length rows) (sx_records x)\<rparr>,
       map (\<lambda>row. fst (verify_row L M (settled L M x) row)) rows)"
proof -
  define y where "y = prepare_fused L M (Some (map sr_state rows)) x"
  note ready = prepare_ready [OF assms(1,4,5) y_def]
  obtain pend Q where y: "y = x\<lparr>sx_pend_entry := pend, sx_pending := False, sx_pool := Q\<rparr>" using ready(3) by blast
  have buf: "sx_write_buf y \<le> 1" using assms(3) by (simp add: y)
  have "verify_fused L M rows y = (y\<lparr>sx_pool := settled L M x, sx_records := row_records L M (settled L M x) (sx_write_buf y) rows (length rows) (sx_records y)\<rparr>,
      map (\<lambda>row. fst (verify_row L M (settled L M x) row)) rows)"
    by (rule verify_ready [OF assms(2) buf assms(4)]) (fact ready(1), rule ready(2))
  then show ?thesis unfolding y_def [symmetric] by (intro exI [of _ pend]) (simp add: y)
qed

lemma verify_fresh:
  assumes "\<not> sx_pending x" "slots_distinct L" "sx_write_buf x \<le> 1" "positive_states rows" "length rows \<le> sx_capacity x"
  shows "\<exists>pend. verify_fused L M rows (prepare_fused L M (Some (map sr_state rows)) x)
    = (x\<lparr>sx_pend_entry := pend, sx_records := row_records L M (sx_pool x) (sx_write_buf x) rows (length rows) (sx_records x)\<rparr>,
       map (\<lambda>row. fst (verify_row L M (sx_pool x) row)) rows)"
proof -
  define y where "y = x\<lparr>sx_pend_entry := replicate (sx_capacity x) (- 1)\<rparr>"
  have prep: "prepare_fused L M (Some (map sr_state rows)) x = y" using assms(1) by (simp add: prepare_fused_def y_def)
  have buf: "sx_write_buf y \<le> 1" using assms(3) by (simp add: y_def)
  have "verify_fused L M rows y = (y\<lparr>sx_pool := sx_pool x, sx_records := row_records L M (sx_pool x) (sx_write_buf y) rows (length rows) (sx_records y)\<rparr>,
      map (\<lambda>row. fst (verify_row L M (sx_pool x) row)) rows)"
    by (rule verify_ready [OF assms(2) buf assms(4)]) (use assms(5) in \<open>simp_all add: row_ready_def y_def\<close>)
  then show ?thesis unfolding prep by (intro exI [of _ "replicate (sx_capacity x) (- 1)"]) (simp add: y_def)
qed

lemma verify_plain_eq: "verify_plain L M rows u
    = (u\<lparr>sx_records := row_records L M (sx_pool u) 0 rows (length rows) (sx_records u)\<rparr>, map (\<lambda>row. fst (verify_row L M (sx_pool u) row)) rows)"
  by (simp add: verify_plain_def row_records_def)

lemma verify_row_records: "0 < sr_state row \<Longrightarrow> length (snd (verify_row L M P row)) = length (sr_tokens row)"
  by (simp add: verify_row_def)

text \<open>Records of the rows agree after both verifies.\<close>

lemma rows_agree:
  assumes "r < length rows" "0 < sr_state (rows ! r)" "t < length (sr_tokens (rows ! r))"
  shows "row_records L M P buf rows (length rows) old buf r t = row_records L M P buf' rows (length rows) old' buf' r t"
  using assms by (simp add: row_records_row verify_row_records)

text \<open>The deferral up to the start of the forward: the plan that is left, and the pool it settles to.\<close>

lemma deferred_plan:
  assumes "sx_fused x" "cc_source c \<noteq> []" "commit_ok (sx_align x) (sx_sql x) (sx_capacity x) skip c" "sx_write_buf x \<le> 1"
    and "x2 = flush_absent L M keep (fst (ssm_commit L M skip c x))" "e < length (cc_source c)"
  shows "ep_final (sx_plan x2 ! e) = ep_final (plan_of (sx_sql x) c e)" "ep_bound (sx_plan x2 ! e) = ep_bound (plan_of (sx_sql x) c e)"
    and "sx_pend_src x2 = cc_source c" "sx_prev x2 = length (cc_source c)"
    and "0 < ep_len (sx_plan x2 ! e) \<Longrightarrow> stays_deferred (sx_sql x) c keep e"
proof -
  let ?n = "length (cc_source c)" and ?ps = "call_plan (sx_sql x) c"
  note ok = assms(3) [unfolded commit_ok_def]
  define x1 where "x1 = fst (ssm_commit L M skip c x)"
  have rej: "\<not> commit_rejected (sx_sql x) (sx_capacity x) c" and al: "cc_table c \<noteq> None \<longrightarrow> sx_align x"
    and apart: "blocks_apart (cc_source c) ?ps ?n" and host: "skips skip c \<longrightarrow> host_skip_ok (sx_sql x) c"
    using ok by blast+
  note eq = fused_commit_eq [OF assms(1,2) rej al host, of L M]
  have p1: "pending_ok x1" unfolding x1_def by (rule commit_settles(1) [OF assms(1,2) rej al host apart assms(4) refl])
  have f: "sx_prev x1 = ?n" "sx_pend_src x1 = cc_source c" "sx_plan x1 = set_lens (rest_lens (sx_sql x) c) ?ps"
    "sx_pend_map x1 = (if skips skip c then [0..<sx_capacity x] else map (entry_row c) [0..<?n])"
    by (simp_all add: x1_def eq)
  obtain ps Q where x2: "x2 = x1\<lparr>sx_plan := ps, sx_pool := Q\<rparr>" using flush_absent_fields assms(5) unfolding x1_def by blast
  show "sx_pend_src x2 = cc_source c" "sx_prev x2 = ?n" by (simp_all add: x2 f)
  have e1: "e < sx_prev x1" using assms(6) f by simp
  have plan1: "sx_plan x1 ! e = (plan_of (sx_sql x) c e)\<lparr>ep_len := if commits_now (sx_sql x) c e (plan_of (sx_sql x) c e) then 0 else ep_len (plan_of (sx_sql x) c e)\<rparr>"
    using assms(6) by (simp add: f rest_lens_def call_plan_def)
  have plan2: "sx_plan x2 ! e = (sx_plan x1 ! e)\<lparr>ep_len := if 0 < ep_len (sx_plan x1 ! e) \<and> \<not> keep ! (sx_pend_map x1 ! e) then 0 else ep_len (sx_plan x1 ! e)\<rparr>"
    unfolding assms(5) x1_def [symmetric] by (rule flush_absent_lens [OF p1 e1])
  show "ep_final (sx_plan x2 ! e) = ep_final (plan_of (sx_sql x) c e)" "ep_bound (sx_plan x2 ! e) = ep_bound (plan_of (sx_sql x) c e)"
    by (simp_all add: plan2 plan1)
  have row: "sx_pend_map x1 ! e = entry_row c e"
  proof (cases "skips skip c")
    case True
    then have "cc_requests c = None" by (simp add: skips_def)
    moreover have "e < sx_capacity x" using p1 e1 by (simp add: pending_ok_def x1_def eq)
    ultimately show ?thesis using True by (simp add: f entry_row_def)
  qed (use assms(6) f in simp)
  show "stays_deferred (sx_sql x) c keep e" if "0 < ep_len (sx_plan x2 ! e)"
    using that unfolding plan2 plan1 row by (auto simp: stays_deferred_def split: if_splits)
qed

lemma outcome_tracks:
  assumes "sx_pool v = P" "sx_fused z" "\<not> sx_fused v" "\<not> sx_pending z" "sx_write_buf z \<le> 1" "sx_sql z = sx_sql v" "sx_capacity z = sx_capacity v"
    and "sx_history z = sx_history v" "sx_pool z = P" "sx_conv z = sx_conv v"
    and "sx_records z = row_records L M P (sx_write_buf z) rows (length rows) old"
  shows "snd (z, map (\<lambda>row. fst (verify_row L M P row)) rows) = snd (verify_plain L M rows v)
    \<and> tracks rows (fst (z, map (\<lambda>row. fst (verify_row L M P row)) rows)) (fst (verify_plain L M rows v))"
  unfolding verify_plain_eq tracks_def using assms by (simp add: rows_agree)

lemma commit_agrees:
  assumes "tracks rows x u" "cc_source c \<noteq> []" "commit_ok (sx_align x) (sx_sql x) (sx_capacity x) skip c" "follows (sx_sql x) rows c"
  shows "pending_ok (fst (ssm_commit L M skip c x))"
    and "settled L M (fst (ssm_commit L M skip c x)) = sx_pool (fst (ssm_commit L M skip c u))"
proof -
  let ?n = "length (cc_source c)"
  note t = assms(1) [unfolded tracks_def]
  have buf: "sx_write_buf x \<le> 1" and fx: "sx_fused x" and fu: "\<not> sx_fused u" using t by blast+
  have rej: "\<not> commit_rejected (sx_sql x) (sx_capacity x) c" and al: "cc_table c \<noteq> None \<longrightarrow> sx_align x"
    and apart: "blocks_apart (cc_source c) (call_plan (sx_sql x) c) ?n" and host: "skips skip c \<longrightarrow> host_skip_ok (sx_sql x) c"
    using assms(3) unfolding commit_ok_def by blast+
  have rej_u: "\<not> commit_rejected (sx_sql u) (sx_capacity u) c" using t rej by simp
  note cs = commit_settles [OF fx assms(2) rej al host apart buf refl, of L M]
  show "pending_ok (fst (ssm_commit L M skip c x))" by (rule cs(1))
  show "settled L M (fst (ssm_commit L M skip c x)) = sx_pool (fst (ssm_commit L M skip c u))"
    unfolding cs(2) plain_commit_eq [OF fu assms(2) rej_u]
  proof (simp add: t, rule commit_state_cong)
    fix e k assume e: "e < ?n" and k: "int k < plan_lens (call_plan (sx_sql u) c) ! e"
    have "ep_len (plan_of (sx_sql x) c e) = plan_lens (call_plan (sx_sql u) c) ! e" using e t by (simp add: plan_lens_def call_plan_def)
    then have len: "int k < ep_len (plan_of (sx_sql x) c e)" using k by simp
    then have "e < length rows \<and> 0 < sr_state (rows ! e) \<and> ep_len (plan_of (sx_sql x) c e) \<le> int (length (sr_tokens (rows ! e)))"
      using assms(4) e unfolding follows_def by simp
    then show "sx_records x (sx_write_buf x) e k = sx_records u 0 e k" using len t by simp
  qed simp_all
qed

lemma step_tracks:
  assumes "tracks rows x u" "slots_distinct L" "step_ok (sx_align x) (sx_sql x) (sx_capacity x) s" "follows (sx_sql x) rows (ds_call s)"
  shows "snd (fused_step L M s x) = snd (plain_step L M s u) \<and> tracks (ds_rows s) (fst (fused_step L M s x)) (fst (plain_step L M s u))
    \<and> sx_align (fst (fused_step L M s x)) = sx_align x"
proof -
  let ?c = "ds_call s" and ?rows = "ds_rows s" and ?n = "length (cc_source (ds_call s))"
  note t = assms(1) [unfolded tracks_def] and ok = assms(3) [unfolded step_ok_def]
  have buf: "sx_write_buf x \<le> 1" using t by blast
  show ?thesis
  proof (cases "cc_source ?c = []")
    case True
    then have x1: "fst (ssm_commit L M (ds_skip s) ?c x) = x" and u1: "fst (ssm_commit L M (ds_skip s) ?c u) = u"
      by (simp_all add: ssm_commit_def)
    define x3 where "x3 = x\<lparr>sx_pool := pool_copies (ds_copies s) (sx_pool x)\<rparr>"
    have idle: "\<not> sx_pending x3" "sx_write_buf x3 \<le> 1" "length ?rows \<le> sx_capacity x3" using t ok by (simp_all add: x3_def)
    have "flush_absent L M (ds_keep s) x = x" using t by (simp add: flush_absent_def)
    then have F: "fused_step L M s x = verify_fused L M ?rows (prepare_fused L M (Some (map sr_state ?rows)) x3)"
      by (simp add: fused_step_def Let_def x1 x3_def)
    obtain pend where V: "verify_fused L M ?rows (prepare_fused L M (Some (map sr_state ?rows)) x3)
      = (x3\<lparr>sx_pend_entry := pend, sx_records := row_records L M (sx_pool x3) (sx_write_buf x3) ?rows (length ?rows) (sx_records x3)\<rparr>,
         map (\<lambda>row. fst (verify_row L M (sx_pool x3) row)) ?rows)"
      using verify_fresh [OF idle(1) assms(2) idle(2) _ idle(3)] ok by blast
    have "snd (fused_step L M s x) = snd (plain_step L M s u) \<and> tracks ?rows (fst (fused_step L M s x)) (fst (plain_step L M s u))"
      unfolding F V plain_step_def Let_def u1
      by (rule outcome_tracks [where P = "sx_pool x3" and old = "sx_records x3"]) (use t in \<open>simp_all add: x3_def\<close>)
    moreover have "sx_align (fst (fused_step L M s x)) = sx_align x" unfolding F V by (simp add: x3_def)
    ultimately show ?thesis by blast
  next
    case False
    have co: "commit_ok (sx_align x) (sx_sql x) (sx_capacity x) (ds_skip s) ?c" using ok False by blast
    have rej: "\<not> commit_rejected (sx_sql x) (sx_capacity x) ?c" and al: "cc_table ?c \<noteq> None \<longrightarrow> sx_align x"
      and apart: "blocks_apart (cc_source ?c) (call_plan (sx_sql x) ?c) ?n" and host: "skips (ds_skip s) ?c \<longrightarrow> host_skip_ok (sx_sql x) ?c"
      using co unfolding commit_ok_def by blast+
    have fx: "sx_fused x" and fu: "\<not> sx_fused u" and rej_u: "\<not> commit_rejected (sx_sql u) (sx_capacity u) ?c" using t rej by simp_all
    define x1 where "x1 = fst (ssm_commit L M (ds_skip s) ?c x)"
    define x2 where "x2 = flush_absent L M (ds_keep s) x1"
    define x3 where "x3 = x2\<lparr>sx_pool := pool_copies (ds_copies s) (sx_pool x2)\<rparr>"
    define u1 where "u1 = fst (ssm_commit L M (ds_skip s) ?c u)"
    note ca = commit_agrees [OF assms(1) False co assms(4), of L M, folded x1_def u1_def]
    note fs = flush_absent_settled [OF ca(1), of L M "ds_keep s", folded x2_def]
    have u1: "u1 = u\<lparr>sx_plan := call_plan (sx_sql u) ?c, sx_conv := compacted (sx_history u) (sx_sql u) ?c (sx_conv u),
        sx_pool := commit_state L M (cc_table ?c \<noteq> None) ?n (cc_source ?c) (plan_lens (call_plan (sx_sql u) ?c))
          (call_plan (sx_sql u) ?c) (sx_records u 0) (sx_pool u)\<rparr>"
      by (simp add: u1_def plain_commit_eq [OF fu False rej_u])
    note eq = fused_commit_eq [OF fx False rej al host, of L M]
    obtain ps Q where x2f: "x2 = x1\<lparr>sx_plan := ps, sx_pool := Q\<rparr>" using flush_absent_fields unfolding x2_def by blast
    note dp = deferred_plan [OF fx False co buf, of x2 L M "ds_keep s", unfolded x1_def [symmetric] x2_def [symmetric], OF refl]
    have pool3: "settled L M x3 = pool_copies (ds_copies s) (sx_pool u1)"
      unfolding x3_def ca(2) [symmetric] fs(2) [symmetric]
    proof (rule copies_settled [OF fs(1)])
      fix d s' e assume ds: "(d, s') \<in> set (ds_copies s)" and e: "e < sx_prev x2" "0 < ep_len (sx_plan x2 ! e)"
      have n: "sx_prev x2 = ?n" by (simp add: x2f x1_def eq)
      have "stays_deferred (sx_sql x) ?c (ds_keep s) e" using dp(5) e n by simp
      then show "s' \<noteq> ep_final (sx_plan x2 ! e) \<and> d \<noteq> ep_final (sx_plan x2 ! e) \<and> d \<noteq> sx_pend_src x2 ! e"
        using ok ds e n dp(1,3) unfolding copies_ok_def by fastforce
    qed
    have p3: "pending_ok x3" using fs(1) by (simp add: x3_def pending_ok_def)
    have b3: "sx_write_buf x3 \<le> 1" "length ?rows \<le> sx_capacity x3" "sx_write_buf x3 = 1 - sx_write_buf x"
      using ok by (simp_all add: x3_def x2f x1_def eq)
    obtain pend where V: "verify_fused L M ?rows (prepare_fused L M (Some (map sr_state ?rows)) x3)
      = (x3\<lparr>sx_pend_entry := pend, sx_pending := False, sx_pool := settled L M x3,
           sx_records := row_records L M (settled L M x3) (sx_write_buf x3) ?rows (length ?rows) (sx_records x3)\<rparr>,
         map (\<lambda>row. fst (verify_row L M (settled L M x3) row)) ?rows)"
      using verify_settles [OF p3 assms(2) b3(1) _ b3(2), where M = M] ok by blast
    have F: "fused_step L M s x = verify_fused L M ?rows (prepare_fused L M (Some (map sr_state ?rows)) x3)"
      by (simp add: fused_step_def Let_def x1_def [symmetric] x2_def [symmetric] x3_def [symmetric])
    have U: "plain_step L M s u = verify_plain L M ?rows (u1\<lparr>sx_pool := pool_copies (ds_copies s) (sx_pool u1)\<rparr>)"
      by (simp add: plain_step_def Let_def u1_def [symmetric])
    have f3: "sx_fused x3" "sx_sql x3 = sx_sql x" "sx_capacity x3 = sx_capacity x" "sx_history x3 = sx_history x" "sx_align x3 = sx_align x"
      "sx_conv x3 = compacted (sx_history x) (sx_sql x) ?c (sx_conv x)"
      using fx by (simp_all add: x3_def x2f x1_def eq)
    have "snd (fused_step L M s x) = snd (plain_step L M s u) \<and> tracks ?rows (fst (fused_step L M s x)) (fst (plain_step L M s u))"
      unfolding F U V
      by (rule outcome_tracks [where P = "settled L M x3" and old = "sx_records x3"])
         (use t b3 f3 fu in \<open>simp_all add: pool3 u1\<close>)
    then show ?thesis by (simp add: F V f3)
  qed
qed

lemma plain_step_frame: "sx_sql (fst (plain_step L M s u)) = sx_sql u \<and> sx_capacity (fst (plain_step L M s u)) = sx_capacity u"
  by (simp add: plain_step_def verify_plain_eq Let_def ssm_commit_def)

section \<open>What the fused commit promises\<close>

fun run_steps :: "('s \<Rightarrow> 'c \<Rightarrow> 'c \<times> 'o) \<Rightarrow> 's list \<Rightarrow> 'c \<Rightarrow> 'c \<times> 'o list" where
  "run_steps f [] x = (x, [])"
| "run_steps f (s # ss) x = (let (y, out) = f s x; (z, outs) = run_steps f ss y in (z, out # outs))"

fun legal_run :: "bool \<Rightarrow> nat \<Rightarrow> nat \<Rightarrow> 'a spec_row list \<Rightarrow> 'a decode_step list \<Rightarrow> bool" where
  "legal_run align sql cap rows [] = True"
| "legal_run align sql cap rows (s # ss) \<longleftrightarrow> step_ok align sql cap s \<and> follows sql rows (ds_call s) \<and> legal_run align sql cap (ds_rows s) ss"

text \<open>
  C8. Over any number of legal steps, a context that defers its state commits gives bit for
  bit the outputs of one that commits at once, and ends with the same state pool and
  convolution windows, whatever the arithmetic.
\<close>

theorem fused_runs_equal_plain:
  assumes "tracks rows x u" "slots_distinct L" "legal_run (sx_align x) (sx_sql x) (sx_capacity x) rows ss"
  shows "snd (run_steps (fused_step L M) ss x) = snd (run_steps (plain_step L M) ss u)
    \<and> sx_pool (fst (run_steps (fused_step L M) ss x)) = sx_pool (fst (run_steps (plain_step L M) ss u))
    \<and> sx_conv (fst (run_steps (fused_step L M) ss x)) = sx_conv (fst (run_steps (plain_step L M) ss u))"
  using assms(1,3)
proof (induction ss arbitrary: x u rows)
  case Nil
  then show ?case by (simp add: tracks_def)
next
  case (Cons s ss)
  let ?x = "fst (fused_step L M s x)" and ?u = "fst (plain_step L M s u)"
  have st: "step_ok (sx_align x) (sx_sql x) (sx_capacity x) s" "follows (sx_sql x) rows (ds_call s)"
    and rest: "legal_run (sx_align x) (sx_sql x) (sx_capacity x) (ds_rows s) ss" using Cons.prems(2) by simp_all
  note s = step_tracks [OF Cons.prems(1) assms(2) st, of M]
  have "sx_sql ?x = sx_sql x \<and> sx_capacity ?x = sx_capacity x"
    using s Cons.prems(1) plain_step_frame [of L M s u] unfolding tracks_def by metis
  then have "legal_run (sx_align ?x) (sx_sql ?x) (sx_capacity ?x) (ds_rows s) ss" using rest s by simp
  note IH = Cons.IH [OF conjunct1 [OF conjunct2 [OF s]] this]
  show ?case using IH s by (simp add: case_prod_beta)
qed

text \<open>
  C9. After the two ordering rules, a block whose contents differ from those after an
  immediate commit is the final block of a deferred entry: its request is scheduled in the
  step, it writes no boundary state, and its next window cannot leave the block.
\<close>

theorem deferred_blocks_are_private:
  assumes "tracks rows x u" "cc_source c \<noteq> []" "commit_ok (sx_align x) (sx_sql x) (sx_capacity x) skip c" "follows (sx_sql x) rows c"
    and "sx_pool (flush_absent L M keep (fst (ssm_commit L M skip c x))) b \<noteq> sx_pool (fst (ssm_commit L M skip c u)) b"
  shows "\<exists>e < length (cc_source c). stays_deferred (sx_sql x) c keep e \<and> b = ep_final (plan_of (sx_sql x) c e) \<and> ep_bound (plan_of (sx_sql x) c e) \<le> 0
    \<and> (case entry_align c e of None \<Rightarrow> True
       | Some (_, computed, bs) \<Rightarrow> (computed + ep_len (plan_of (sx_sql x) c e)) mod bs + int (sx_sql x) \<le> bs)"
proof -
  define y where "y = flush_absent L M keep (fst (ssm_commit L M skip c x))"
  note ca = commit_agrees [OF assms(1-4), of L M]
  note fs = flush_absent_settled [OF ca(1), of L M keep, folded y_def]
  have buf: "sx_write_buf x \<le> 1" and fx: "sx_fused x" using assms(1) by (simp_all add: tracks_def)
  note dp = deferred_plan [OF fx assms(2,3) buf y_def]
  have "cc_source c \<noteq> []" by (rule assms(2))
  then have n: "sx_prev y = length (cc_source c)" using dp(4) [of 0] by simp
  have ok: "blocks_apart (sx_pend_src y) (sx_plan y) (sx_prev y)" "length (sx_plan y) = sx_prev y" using fs(1) by (simp_all add: pending_ok_def)
  have "settled L M y b \<noteq> sx_pool y b" using assms(5) fs(2) ca(2) by (simp add: y_def)
  then obtain e where e: "e < sx_prev y" "plan_lens (sx_plan y) ! e \<noteq> 0" "b \<in> entry_blocks (sx_pend_src y ! e) (sx_plan y ! e)"
    using commit_state_elsewhere unfolding settled_def by metis
  have live: "0 < ep_len (sx_plan y ! e)" "ep_bound (sx_plan y ! e) \<le> 0"
    using fs(1) e ok(2) by (auto simp: pending_ok_def)
  have "b = ep_final (sx_plan y ! e)"
    using \<open>settled L M y b \<noteq> sx_pool y b\<close> live(2) unfolding settled_def commit_state_at [OF ok(1) e(1,3)]
    by (auto simp: commit_entry_one split: if_splits)
  moreover have st: "stays_deferred (sx_sql x) c keep e" using dp(5) live(1) e(1) n by simp
  moreover have "case entry_align c e of None \<Rightarrow> True
       | Some (_, computed, bs) \<Rightarrow> (computed + ep_len (plan_of (sx_sql x) c e)) mod bs + int (sx_sql x) \<le> bs"
    using st by (auto simp: stays_deferred_def commits_now_def split: option.splits)
  ultimately show ?thesis using e(1) n live(2) dp(1,2) by (intro exI [of _ e]) simp
qed

section \<open>Example\<close>

text \<open>One row in block 7, two accepted tokens of a block of sixteen, a side-layout pool; the runner copies block 8 to 9.\<close>

definition demo_layout :: "int pool_layout" where
  "demo_layout = \<lparr>pl_kind = Sided, pl_round = (\<lambda>x. x div 2 * 2), pl_slot = [- 1, 0]\<rparr>"

definition demo_window :: "int spec_row" where
  "demo_window = \<lparr>sr_state = 7, sr_tokens = demo_tokens\<rparr>"

definition demo_ctx :: "bool \<Rightarrow> int ssm_ctx" where
  "demo_ctx fused = \<lparr>sx_fused = fused, sx_align = True, sx_sql = 2, sx_capacity = 2, sx_history = 1, sx_plan = [],
     sx_pend_entry = [- 1, - 1], sx_pend_src = [], sx_pend_map = [], sx_write_buf = 0, sx_pending = False, sx_prev = 0,
     sx_pool = (\<lambda>_. \<lparr>sb_main = (\<lambda>v k. 1), sb_side = (\<lambda>v k. 1)\<rparr>), sx_conv = (\<lambda>_ _. 0),
     sx_records = (\<lambda>_ _ t. \<lparr>kr_corr = (\<lambda>v. 1), kr_key = (\<lambda>k. 1), kr_gate = (\<lambda>k. 1)\<rparr>)\<rparr>"

definition demo_deferred :: commit_call where
  "demo_deferred = \<lparr>cc_accepted = [2], cc_source = [7], cc_start = [0, 2], cc_requests = None, cc_table = Some [[7]],
     cc_computed = Some [2], cc_block = Some 16\<rparr>"

definition demo_step :: "int decode_step" where
  "demo_step = \<lparr>ds_call = demo_deferred, ds_skip = False, ds_keep = [True], ds_copies = [(9, 8)], ds_rows = [demo_window]\<rparr>"

lemma demo_planned: "plan_of 2 demo_deferred 0 = \<lparr>ep_len = 2, ep_final = 7, ep_bound = 0, ep_rec = 14\<rparr>"
proof -
  have al: "entry_align demo_deferred 0 = Some ([7], 2, 16)" by (simp add: demo_deferred_def entry_align_def entry_row_def)
  have "planned_len 2 demo_deferred 0 = 2" by (simp add: planned_len_def query_len_def demo_deferred_def entry_row_def)
  then show ?thesis using plan_of_Some [OF al, of 2] by (simp add: demo_deferred_def c_div_def)
qed

lemma demo_fields: "cc_source demo_deferred = [7]" "cc_requests demo_deferred = None" "cc_table demo_deferred = Some [[7]]" "entry_row demo_deferred e = e"
  by (simp_all add: demo_deferred_def entry_row_def)

lemma demo_legal:
  "tracks [demo_window] (demo_ctx True) (demo_ctx False)" "slots_distinct demo_layout"
  "commit_ok True 2 2 False demo_deferred" "follows 2 [demo_window] demo_deferred"
  "cc_source demo_deferred = [7]"
proof -
  show "tracks [demo_window] (demo_ctx True) (demo_ctx False)" by (simp add: tracks_def demo_ctx_def)
  show "slots_distinct demo_layout" by (simp add: slots_distinct_def demo_layout_def less_Suc_eq)
  show src: "cc_source demo_deferred = [7]" by (simp add: demo_deferred_def)
  show "commit_ok True 2 2 False demo_deferred"
    by (simp add: commit_ok_def commit_rejected_def Let_def demo_deferred_def blocks_apart_def skips_def)
  show "follows 2 [demo_window] demo_deferred"
    by (simp add: follows_def src demo_planned demo_window_def demo_tokens_def)
qed

lemma demo_steps: "legal_run True 2 2 [demo_window] [demo_step]"
proof -
  have "step_ok True 2 2 demo_step"
    using demo_legal(3) by (simp add: step_ok_def demo_step_def copies_ok_def demo_legal(5) demo_planned positive_states_def)
  then show ?thesis using demo_legal(4) by (simp add: demo_step_def)
qed

theorem fused_runs_equal_plain_witness:
  "snd (run_steps (fused_step demo_layout demo_math) [demo_step] (demo_ctx True))
    = snd (run_steps (plain_step demo_layout demo_math) [demo_step] (demo_ctx False))"
proof -
  have d: "sx_align (demo_ctx True) = True" "sx_sql (demo_ctx True) = 2" "sx_capacity (demo_ctx True) = 2" by (simp_all add: demo_ctx_def)
  show ?thesis
    using fused_runs_equal_plain [OF demo_legal(1,2), of "[demo_step]" demo_math] demo_steps unfolding d by blast
qed

lemma demo_differs:
  "sx_pool (flush_absent demo_layout demo_math [True] (fst (ssm_commit demo_layout demo_math False demo_deferred (demo_ctx True)))) 7
    \<noteq> sx_pool (fst (ssm_commit demo_layout demo_math False demo_deferred (demo_ctx False))) 7"
proof -
  have ctx: "sx_fused (demo_ctx f) = f" "sx_align (demo_ctx f)" "sx_sql (demo_ctx f) = 2" "sx_capacity (demo_ctx f) = 2" "sx_write_buf (demo_ctx f) = 0" for f
    by (simp_all add: demo_ctx_def)
  have rej: "\<not> commit_rejected 2 2 demo_deferred" using demo_legal(3) by (simp add: commit_ok_def)
  have src: "cc_source demo_deferred \<noteq> []" by (simp add: demo_legal(5))
  have al: "entry_align demo_deferred 0 = Some ([7], 2, 16)" by (simp add: demo_deferred_def entry_align_def entry_row_def)
  have later: "\<not> commits_now 2 demo_deferred 0 (plan_of 2 demo_deferred 0)" by (simp add: commits_now_def al demo_planned)
  have no: "\<not> skips False demo_deferred" by (simp add: skips_def)
  have plan: "call_plan 2 demo_deferred = [plan_of 2 demo_deferred 0]" by (simp add: call_plan_def demo_legal(5))
  have fused: "sx_pool (flush_absent demo_layout demo_math [True] (fst (ssm_commit demo_layout demo_math False demo_deferred (demo_ctx True)))) = sx_pool (demo_ctx True)"
    using fused_commit_eq [of "demo_ctx True" demo_deferred False demo_layout demo_math] ctx rej src no later
    by (simp add: now_lens_def rest_lens_def plan demo_fields flush_absent_def commit_state_def Let_def demo_planned)
  have "sx_pool (fst (ssm_commit demo_layout demo_math False demo_deferred (demo_ctx False))) 7
      = commit_entry demo_layout demo_math True 7 2 (plan_of 2 demo_deferred 0) (sx_records (demo_ctx False) 0 0) (sx_pool (demo_ctx False)) 7"
    using plain_commit_eq [of "demo_ctx False" demo_deferred demo_layout demo_math False] ctx rej src
    by (simp add: plan demo_fields commit_state_def plan_lens_def demo_planned)
  also have "sb_main \<dots> 0 0 = 2"
    using upt_rec [of 0 2] upt_rec [of 1 2]
    by (simp add: demo_planned commit_entry_one state_store_def element_def demo_layout_def state_load_def slot_at_def recover_tiles_def
        recover_step_def demo_math_def demo_ctx_def)
  finally show ?thesis unfolding fused by (auto simp: demo_ctx_def)
qed

theorem deferred_blocks_are_private_witness:
  "stays_deferred 2 demo_deferred [True] 0 \<and> ep_final (plan_of 2 demo_deferred 0) = 7"
proof -
  have d: "sx_align (demo_ctx True) = True" "sx_sql (demo_ctx True) = 2" "sx_capacity (demo_ctx True) = 2" by (simp_all add: demo_ctx_def)
  have src: "cc_source demo_deferred \<noteq> []" by (simp add: demo_legal(5))
  show ?thesis
    using deferred_blocks_are_private [OF demo_legal(1) src, unfolded d, OF demo_legal(3,4) demo_differs] by (auto simp: demo_legal(5))
qed

end
