(* ===== verification/Kda_Staging.thy ===== *)
theory Kda_Staging
  imports Recover_Ssm
begin

text \<open>
  Narrow storage of the recurrent state (\<open>src/src/tp4/vllm/models/glm5next/nvidia/kda_state_store.py\<close>): a prefill call
  runs on a full-width staging copy of its rows, in separate launches or in one fused launch each way. One head stands
  for all, and a program handles a whole row of the state or of the convolution: the tiles of a row touch disjoint
  parts. Programs of a launch run in any order, so a launch takes the order as an argument. Shapes, strides, dtypes and
  devices are checks on tensors that this model does not tell apart; they are the one argument \<open>fits\<close>.
\<close>

section \<open>The stage\<close>

record 'a stage =
  sg_max_seqs :: nat
  sg_export_rows :: nat
  sg_side :: bool
  sg_fused :: bool
  sg_state :: "nat \<Rightarrow> 'a tile"
  sg_conv :: "(nat \<Rightarrow> nat \<Rightarrow> 'a) option"
  sg_export_slots :: "nat \<Rightarrow> int"

definition seq_slots :: "'a stage \<Rightarrow> nat" where
  "seq_slots g = sg_max_seqs g + 1"

definition export_base :: "'a stage \<Rightarrow> nat" where
  "export_base g = seq_slots g"

definition stage_slots :: "'a stage \<Rightarrow> nat" where
  "stage_slots g = seq_slots g + sg_export_rows g"

definition new_stage :: "bool \<Rightarrow> bool \<Rightarrow> int \<Rightarrow> bool \<Rightarrow> int \<Rightarrow> 'a::zero stage py" where
  "new_stage side fused_env max_seqs with_conv export_rows =
     py_guard (export_rows < 0) ValueError
       (Inr \<lparr>sg_max_seqs = nat max_seqs, sg_export_rows = nat export_rows, sg_side = side, sg_fused = side \<and> fused_env,
          sg_state = (\<lambda>_ _ _. 0), sg_conv = (if with_conv then Some (\<lambda>_ _. 0) else None), sg_export_slots = (\<lambda>_. 0)\<rparr>)"

text \<open>The process-wide stages, one per geometry.\<close>

definition get_stage :: "('k \<Rightarrow> 'a stage py) \<Rightarrow> 'k \<Rightarrow> ('k \<rightharpoonup> 'a stage) \<Rightarrow> ('a stage \<times> ('k \<rightharpoonup> 'a stage)) py" where
  "get_stage build key stages =
     (case stages key of Some g \<Rightarrow> Inr (g, stages) | None \<Rightarrow> py_bind (build key) (\<lambda>g. Inr (g, stages(key \<mapsto> g))))"

definition stage_check :: "nat \<Rightarrow> int list \<Rightarrow> nat py" where
  "stage_check cap idx = py_guard (cap < length idx) ValueError (Inr (length idx))"

section \<open>Separate launches\<close>

type_synonym 'a blocks = "int \<Rightarrow> 'a state_block"
type_synonym 'a conv_rows = "int \<Rightarrow> nat \<Rightarrow> 'a"

definition rows_in :: "'a pool_layout \<Rightarrow> 'a blocks \<Rightarrow> int list \<Rightarrow> nat list \<Rightarrow> (nat \<Rightarrow> 'a tile) \<Rightarrow> nat \<Rightarrow> 'a tile" where
  "rows_in L pool idx = fold (\<lambda>r st. st(r + 1 := state_load L (pool (idx ! r))))"

text \<open>Rows out of the stage, from row \<open>base\<close> on; the null block and negative ones are skipped.\<close>

definition rows_out :: "'a pool_layout \<Rightarrow> (nat \<Rightarrow> 'a tile) \<Rightarrow> nat \<Rightarrow> int list \<Rightarrow> nat list \<Rightarrow> 'a blocks \<Rightarrow> 'a blocks" where
  "rows_out L st base idx =
     fold (\<lambda>r p. if 0 < idx ! r then p(idx ! r := state_store L (p (idx ! r)) (st (base + r))) else p)"

definition conv_in :: "'a conv_rows \<Rightarrow> int list \<Rightarrow> nat list \<Rightarrow> (nat \<Rightarrow> nat \<Rightarrow> 'a) \<Rightarrow> nat \<Rightarrow> nat \<Rightarrow> 'a" where
  "conv_in pool idx = fold (\<lambda>r st. st(r + 1 := pool (idx ! r)))"

definition conv_out :: "(nat \<Rightarrow> nat \<Rightarrow> 'a) \<Rightarrow> int list \<Rightarrow> nat list \<Rightarrow> 'a conv_rows \<Rightarrow> 'a conv_rows" where
  "conv_out st idx = fold (\<lambda>r p. if 0 < idx ! r then p(idx ! r := st (r + 1)) else p)"

definition stage_in :: "'a pool_layout \<Rightarrow> bool \<Rightarrow> 'a blocks \<Rightarrow> int list \<Rightarrow> 'a conv_rows option \<Rightarrow> 'a stage \<Rightarrow> ('a stage \<times> int list) py" where
  "stage_in L fits pool idx conv g =
     py_bind (stage_check (sg_max_seqs g) idx) (\<lambda>n.
       py_guard (0 < n \<and> \<not> fits) ValueError
         (let g1 = g\<lparr>sg_state := rows_in L pool idx [0..<n] (sg_state g)\<rparr>; out = map int [1..<n + 1] in
          case conv of None \<Rightarrow> Inr (g1, out)
          | Some cp \<Rightarrow> (case sg_conv g of None \<Rightarrow> Inl ValueError
              | Some cs \<Rightarrow> Inr (g1\<lparr>sg_conv := Some (conv_in cp idx [0..<n] cs)\<rparr>, out))))"

definition stage_out :: "'a pool_layout \<Rightarrow> bool \<Rightarrow> int list \<Rightarrow> 'a stage \<Rightarrow> 'a blocks \<Rightarrow> 'a conv_rows option
    \<Rightarrow> ('a blocks \<times> 'a conv_rows option) py" where
  "stage_out L fits idx g pool conv =
     py_bind (stage_check (sg_max_seqs g) idx) (\<lambda>n.
       py_guard (0 < n \<and> \<not> fits) ValueError
         (let p = rows_out L (sg_state g) 1 idx [0..<n] pool in
          case conv of None \<Rightarrow> Inr (p, None)
          | Some cp \<Rightarrow> (case sg_conv g of None \<Rightarrow> (if n = 0 then Inr (p, Some cp) else Inl TypeError)
              | Some cs \<Rightarrow> Inr (p, Some (conv_out cs idx [0..<n] cp)))))"

text \<open>The checkpoint slots of a call, each real one replaced by its own export row.\<close>

definition staged_slot :: "'a stage \<Rightarrow> int list \<Rightarrow> nat \<Rightarrow> int" where
  "staged_slot g slots i = (if slots ! i \<noteq> 0 then int (export_base g + i) else slots ! i)"

definition export_checkpoints :: "bool \<Rightarrow> int list \<Rightarrow> 'a stage \<Rightarrow> int list py" where
  "export_checkpoints fits slots g =
     py_guard (sg_export_rows g < length slots) ValueError
       (py_guard (\<not> fits) ValueError (Inr (map (staged_slot g slots) [0..<length slots])))"

definition stage_out_exports :: "'a pool_layout \<Rightarrow> bool \<Rightarrow> int list \<Rightarrow> 'a stage \<Rightarrow> 'a blocks \<Rightarrow> 'a blocks py" where
  "stage_out_exports L fits slots g pool =
     (if slots = [] then Inr pool
      else py_bind (stage_check (sg_export_rows g) slots) (\<lambda>n.
        py_guard (\<not> fits) ValueError (Inr (rows_out L (sg_state g) (export_base g) slots [0..<n] pool))))"

section \<open>Fused launches\<close>

text \<open>The metadata a prefill call reads: the initial indices and the two counters.\<close>

record prefill_meta =
  pm_initial :: "nat \<Rightarrow> int"
  pm_seqs :: int
  pm_tokens :: int

text \<open>A program: the state part or the convolution part of a row.\<close>

datatype stage_part = State nat | Conv nat

definition in_program :: "'a pool_layout \<Rightarrow> 'a blocks \<Rightarrow> int list \<Rightarrow> 'a conv_rows option \<Rightarrow> bool list \<Rightarrow> int list \<Rightarrow> int \<Rightarrow> stage_part
    \<Rightarrow> 'a stage \<times> prefill_meta \<Rightarrow> 'a stage \<times> prefill_meta" where
  "in_program L pool idx conv has slots tokens p gm =
     (case p of
        Conv r \<Rightarrow> (case conv of None \<Rightarrow> gm
          | Some cp \<Rightarrow> ((fst gm)\<lparr>sg_conv := map_option (\<lambda>cs. cs(r + 1 := cp (idx ! r))) (sg_conv (fst gm))\<rparr>, snd gm))
      | State r \<Rightarrow>
        (let g = fst gm; m = (snd gm)\<lparr>pm_initial := (pm_initial (snd gm))(r := if has ! r then int (r + 1) else 0)\<rparr>;
             g1 = g\<lparr>sg_state := (sg_state g)(r + 1 := state_load L (pool (idx ! r)))\<rparr>
         in if r \<noteq> 0 then (g1, m)
            else (g1\<lparr>sg_export_slots := (\<lambda>i. if i < length slots then staged_slot g slots i else sg_export_slots g i)\<rparr>,
                  m\<lparr>pm_seqs := int (length idx), pm_tokens := tokens\<rparr>)))"

definition stage_in_prefill :: "'a pool_layout \<Rightarrow> bool \<Rightarrow> 'a blocks \<Rightarrow> int list \<Rightarrow> 'a conv_rows option \<Rightarrow> bool list \<Rightarrow> int list option \<Rightarrow> int
    \<Rightarrow> stage_part list \<Rightarrow> 'a stage \<Rightarrow> prefill_meta \<Rightarrow> (('a stage \<times> prefill_meta) \<times> int list \<times> int list option) py" where
  "stage_in_prefill L fits pool idx conv has ckpt tokens order g m =
     py_bind (stage_check (sg_max_seqs g) idx) (\<lambda>n.
       py_guard (n = 0 \<or> length has < n \<or> \<not> fits \<or> \<not> sg_fused g) ValueError
         (py_guard (conv \<noteq> None \<and> sg_conv g = None) ValueError
           (py_guard (\<exists>s. ckpt = Some s \<and> sg_export_rows g < length s) ValueError
             (let slots = (case ckpt of None \<Rightarrow> [] | Some s \<Rightarrow> s);
                  (g1, m1) = fold (in_program L pool idx conv has slots tokens) order (g, m)
              in Inr ((g1, m1), map int [1..<n + 1], map_option (\<lambda>s. map (sg_export_slots g1) [0..<length s]) ckpt)))))"

definition out_program :: "'a pool_layout \<Rightarrow> 'a stage \<Rightarrow> int list \<Rightarrow> int list \<Rightarrow> stage_part \<Rightarrow> 'a blocks \<times> 'a conv_rows option
    \<Rightarrow> 'a blocks \<times> 'a conv_rows option" where
  "out_program L g idx slots p pc =
     (case p of
        Conv r \<Rightarrow> (case (snd pc, sg_conv g) of
            (Some cp, Some cs) \<Rightarrow> (if r < length idx \<and> 0 < idx ! r then (fst pc, Some (cp(idx ! r := cs (r + 1)))) else pc)
          | _ \<Rightarrow> pc)
      | State r \<Rightarrow>
        (let final = r < length idx; blk = (if final then idx ! r else slots ! (r - length idx));
             row = (if final then r + 1 else export_base g + (r - length idx))
         in if 0 < blk \<and> \<not> (final \<and> blk \<in> set slots)
            then ((fst pc)(blk := state_store L (fst pc blk) (sg_state g row)), snd pc) else pc))"

definition stage_out_prefill :: "'a pool_layout \<Rightarrow> bool \<Rightarrow> int list \<Rightarrow> int list option \<Rightarrow> stage_part list \<Rightarrow> 'a stage \<Rightarrow> 'a blocks \<Rightarrow> 'a conv_rows option
    \<Rightarrow> ('a blocks \<times> 'a conv_rows option) py" where
  "stage_out_prefill L fits idx ckpt order g pool conv =
     py_bind (stage_check (sg_max_seqs g) idx) (\<lambda>n.
       py_guard (\<not> fits \<or> \<not> sg_fused g \<or> (conv \<noteq> None \<and> sg_conv g = None)) ValueError
         (py_guard (\<exists>s. ckpt = Some s \<and> sg_export_rows g < length s) ValueError
           (let slots = (case ckpt of None \<Rightarrow> [] | Some s \<Rightarrow> s) in
            Inr (if n + length slots = 0 then (pool, conv) else fold (out_program L g idx slots) order (pool, conv)))))"

text \<open>The programs of a launch, without the order they run in.\<close>

definition launch_parts :: "nat \<Rightarrow> nat \<Rightarrow> stage_part list \<Rightarrow> bool" where
  "launch_parts states convs order \<longleftrightarrow> distinct order \<and> set order = State ` {..<states} \<union> Conv ` {..<convs}"

section \<open>Launches whose programs touch different places\<close>

text \<open>Updates at the places \<open>w\<close> names: a place named once gets its update, any other keeps its value.\<close>

definition scatter :: "('k \<Rightarrow> ('b \<times> ('v \<Rightarrow> 'v)) option) \<Rightarrow> 'k list \<Rightarrow> ('b \<Rightarrow> 'v) \<Rightarrow> 'b \<Rightarrow> 'v" where
  "scatter w = fold (\<lambda>k p. case w k of None \<Rightarrow> p | Some (b, f) \<Rightarrow> p(b := f (p b)))"

lemma scatter_miss:
  assumes "\<And>k. k \<in> set ks \<Longrightarrow> map_option fst (w k) \<noteq> Some b"
  shows "scatter w ks p b = p b"
  using assms
proof (induction ks arbitrary: p)
  case (Cons k ks)
  have "map_option fst (w k) \<noteq> Some b" using Cons.prems by simp
  then have "(case w k of None \<Rightarrow> p | Some (b', f) \<Rightarrow> p(b' := f (p b'))) b = p b" by (cases "w k") auto
  moreover have "scatter w ks q b = q b" for q using Cons.prems by (intro Cons.IH) simp
  ultimately show ?case by (simp add: scatter_def)
qed (simp add: scatter_def)

lemma scatter_hit:
  assumes "distinct ks" "k \<in> set ks" "w k = Some (b, f)" "\<And>k'. k' \<in> set ks \<Longrightarrow> k' \<noteq> k \<Longrightarrow> map_option fst (w k') \<noteq> Some b"
  shows "scatter w ks p b = f (p b)"
proof -
  obtain as bs where ks: "ks = as @ k # bs" using assms(2) by (meson split_list)
  have "scatter w ks p b = scatter w bs ((scatter w as p)(b := f (scatter w as p b))) b" by (simp add: ks scatter_def assms(3))
  also have "\<dots> = f (scatter w as p b)" using assms(1,4) by (subst scatter_miss) (auto simp: ks)
  also have "scatter w as p b = p b" using assms(1,4) by (intro scatter_miss) (auto simp: ks)
  finally show ?thesis .
qed

text \<open>Two launches over the same places with the same updates agree, whatever their orders.\<close>

lemma scatter_same:
  assumes "distinct ks" "distinct ks'" "inj_on h {k \<in> set ks. w k \<noteq> None}" "h ` {k \<in> set ks. w k \<noteq> None} = {k \<in> set ks'. w' k \<noteq> None}"
    and "\<And>k. k \<in> set ks \<Longrightarrow> w k \<noteq> None \<Longrightarrow> w' (h k) = w k"
    and "\<And>k k'. k \<in> set ks \<Longrightarrow> k' \<in> set ks \<Longrightarrow> w k \<noteq> None \<Longrightarrow> map_option fst (w k) = map_option fst (w k') \<Longrightarrow> k = k'"
  shows "scatter w ks p = scatter w' ks' p"
proof
  fix b
  show "scatter w ks p b = scatter w' ks' p b"
  proof (cases "\<exists>k f. k \<in> set ks \<and> w k = Some (b, f)")
    case True
    then obtain k f where k: "k \<in> set ks" "w k = Some (b, f)" by blast
    have "scatter w ks p b = f (p b)" 
    proof (rule scatter_hit [where w = w and k = k, OF assms(1) k])
      fix k' assume "k' \<in> set ks" "k' \<noteq> k"
      then show "map_option fst (w k') \<noteq> Some b" using assms(6) [of k k'] k by auto
    qed
    moreover have "scatter w' ks' p b = f (p b)"
    proof (rule scatter_hit [where w = w' and k = "h k", OF assms(2)])
      show "h k \<in> set ks'" using assms(4) k by blast
      show "w' (h k) = Some (b, f)" using assms(5) k by simp
      fix k' assume k': "k' \<in> set ks'" "k' \<noteq> h k"
      show "map_option fst (w' k') \<noteq> Some b"
      proof
        assume at: "map_option fst (w' k') = Some b"
        then have "w' k' \<noteq> None" by auto
        then obtain j where j: "j \<in> set ks" "w j \<noteq> None" "k' = h j" using assms(4) k'(1) by blast
        then have "map_option fst (w k) = map_option fst (w j)" using at assms(5) [OF j(1,2)] j(3) k(2) by auto
        then have "k = j" using assms(6) [OF k(1) j(1)] k(2) by blast
        then show False using k'(2) j(3) by simp
      qed
    qed
    ultimately show ?thesis by simp
  next
    case False
    have none: "map_option fst (w k) \<noteq> Some b" if "k \<in> set ks" for k using False that by auto
    have "map_option fst (w' k') \<noteq> Some b" if k': "k' \<in> set ks'" for k'
    proof
      assume at: "map_option fst (w' k') = Some b"
      then have "w' k' \<noteq> None" by auto
      then obtain j where j: "j \<in> set ks" "w j \<noteq> None" "k' = h j" using assms(4) k' by blast
      then have "map_option fst (w j) = Some b" using at assms(5) [OF j(1,2)] j(3) by auto
      then show False using none [OF j(1)] by simp
    qed
    then show ?thesis using none by (simp add: scatter_miss)
  qed
qed

lemma rows_in_scatter: "rows_in L pool idx rs = scatter (\<lambda>r. Some (r + 1, \<lambda>_. state_load L (pool (idx ! r)))) rs"
  by (simp add: rows_in_def scatter_def)

lemma conv_in_scatter: "conv_in pool idx rs = scatter (\<lambda>r. Some (r + 1, \<lambda>_. pool (idx ! r))) rs"
  by (simp add: conv_in_def scatter_def)

lemma rows_out_scatter: "rows_out L st base idx rs = scatter (\<lambda>r. if 0 < idx ! r then Some (idx ! r, \<lambda>b. state_store L b (st (base + r))) else None) rs"
  unfolding rows_out_def scatter_def by (intro arg_cong [where f = "\<lambda>f. fold f rs"] ext) simp

lemma conv_out_scatter: "conv_out st idx rs = scatter (\<lambda>r. if 0 < idx ! r then Some (idx ! r, \<lambda>_. st (r + 1)) else None) rs"
  unfolding conv_out_def scatter_def by (intro arg_cong [where f = "\<lambda>f. fold f rs"] ext) simp

lemma store_twice: "state_store L (state_store L b x) y = state_store L b y"
  by (simp add: state_store_def fun_eq_iff split: option.split)

section \<open>The fused launches do what the separate ones do\<close>

definition part_states :: "'a pool_layout \<Rightarrow> 'a blocks \<Rightarrow> int list \<Rightarrow> stage_part \<Rightarrow> (nat \<times> ('a tile \<Rightarrow> 'a tile)) option" where
  "part_states L pool idx p = (case p of State r \<Rightarrow> Some (r + 1, \<lambda>_. state_load L (pool (idx ! r))) | Conv r \<Rightarrow> None)"

definition part_convs :: "'a conv_rows \<Rightarrow> int list \<Rightarrow> stage_part \<Rightarrow> (nat \<times> ((nat \<Rightarrow> 'a) \<Rightarrow> nat \<Rightarrow> 'a)) option" where
  "part_convs cp idx p = (case p of State r \<Rightarrow> None | Conv r \<Rightarrow> Some (r + 1, \<lambda>_. cp (idx ! r)))"

definition part_initial :: "bool list \<Rightarrow> stage_part \<Rightarrow> (nat \<times> (int \<Rightarrow> int)) option" where
  "part_initial has p = (case p of State r \<Rightarrow> Some (r, \<lambda>_. if has ! r then int (r + 1) else 0) | Conv r \<Rightarrow> None)"

lemma fold_project:
  assumes "\<And>k x. proj (F k x) = (case w k of None \<Rightarrow> proj x | Some (b, f) \<Rightarrow> (proj x)(b := f (proj x b)))"
  shows "proj (fold F ks x) = scatter w ks (proj x)"
proof (induction ks arbitrary: x)
  case (Cons k ks)
  have "proj (fold F (k # ks) x) = scatter w ks (proj (F k x))" using Cons by simp
  then show ?case by (simp add: assms scatter_def)
qed (simp add: scatter_def)

lemma fold_keeps_part:
  assumes "\<And>k x. proj (F k x) = proj x"
  shows "proj (fold F ks x) = proj x"
  by (induction ks arbitrary: x) (simp_all add: assms)

lemma part_places [simp]:
  "part_states L pool idx p = None \<longleftrightarrow> (\<exists>r. p = Conv r)" "part_states L pool idx (State r) = Some (r + 1, \<lambda>_. state_load L (pool (idx ! r)))"
  "part_convs cp idx p = None \<longleftrightarrow> (\<exists>r. p = State r)" "part_convs cp idx (Conv r) = Some (r + 1, \<lambda>_. cp (idx ! r))"
  by (cases p; simp add: part_states_def part_convs_def)+

lemma in_program_fields:
  "sg_max_seqs (fst (in_program L pool idx conv has slots tokens p gm)) = sg_max_seqs (fst gm)"
  "sg_export_rows (fst (in_program L pool idx conv has slots tokens p gm)) = sg_export_rows (fst gm)"
  "sg_side (fst (in_program L pool idx conv has slots tokens p gm)) = sg_side (fst gm)"
  "sg_fused (fst (in_program L pool idx conv has slots tokens p gm)) = sg_fused (fst gm)"
  by (simp_all add: in_program_def Let_def split: stage_part.split option.split)

lemma in_program_state: "sg_state (fst (in_program L pool idx conv has slots tokens p gm))
    = (case part_states L pool idx p of None \<Rightarrow> sg_state (fst gm) | Some (b, f) \<Rightarrow> (sg_state (fst gm))(b := f (sg_state (fst gm) b)))"
  by (simp add: in_program_def part_states_def Let_def split: stage_part.split option.split)

lemma in_program_initial: "pm_initial (snd (in_program L pool idx conv has slots tokens p gm))
    = (case part_initial has p of None \<Rightarrow> pm_initial (snd gm) | Some (b, f) \<Rightarrow> (pm_initial (snd gm))(b := f (pm_initial (snd gm) b)))"
  by (simp add: in_program_def part_initial_def Let_def split: stage_part.split option.split)

lemma in_program_conv: "sg_conv (fst gm) = Some cs \<Longrightarrow> sg_conv (fst (in_program L pool idx (Some cp) has slots tokens p gm))
    = Some (case part_convs cp idx p of None \<Rightarrow> cs | Some (b, f) \<Rightarrow> cs(b := f (cs b)))"
  by (simp add: in_program_def part_convs_def Let_def split: stage_part.split)

lemma in_program_no_conv: "sg_conv (fst (in_program L pool idx None has slots tokens p gm)) = sg_conv (fst gm)"
  by (simp add: in_program_def Let_def split: stage_part.split)

lemma in_programs_conv:
  "sg_conv (fst gm) = Some cs \<Longrightarrow> sg_conv (fst (fold (in_program L pool idx (Some cp) has slots tokens) ps gm)) = Some (scatter (part_convs cp idx) ps cs)"
proof (induction ps arbitrary: gm cs)
  case (Cons p ps)
  show ?case by (simp add: Cons.IH [OF in_program_conv [OF Cons.prems]]) (simp add: scatter_def)
qed (simp add: scatter_def)

lemma staged_slot_stage: "sg_max_seqs g = sg_max_seqs g' \<Longrightarrow> staged_slot g slots = staged_slot g' slots"
  by (simp add: staged_slot_def export_base_def seq_slots_def fun_eq_iff)

text \<open>The counters and the staged map are written by one program, and once.\<close>

lemma in_programs_head:
  "State 0 \<in> set ps \<Longrightarrow> pm_seqs (snd (fold (in_program L pool idx conv has slots tokens) ps gm)) = int (length idx)
    \<and> pm_tokens (snd (fold (in_program L pool idx conv has slots tokens) ps gm)) = tokens
    \<and> sg_export_slots (fst (fold (in_program L pool idx conv has slots tokens) ps gm))
      = (\<lambda>i. if i < length slots then staged_slot (fst gm) slots i else sg_export_slots (fst gm) i)"
proof (induction ps rule: rev_induct)
  case (snoc p ps)
  let ?f = "fold (in_program L pool idx conv has slots tokens)"
  have keep: "sg_max_seqs (fst (?f qs gm)) = sg_max_seqs (fst gm)" for qs
    using fold_keeps_part [where proj = "\<lambda>x. sg_max_seqs (fst x)" and F = "in_program L pool idx conv has slots tokens"] by (simp add: in_program_fields)
  have outside: "i \<ge> length slots \<Longrightarrow> sg_export_slots (fst (?f qs gm)) i = sg_export_slots (fst gm) i" for i qs
    by (rule fold_keeps_part [where proj = "\<lambda>x. sg_export_slots (fst x) i"]) (simp add: in_program_def Let_def split: stage_part.split option.split)
  show ?case
  proof (cases "p = State 0")
    case True
    have "sg_export_slots (fst (in_program L pool idx conv has slots tokens p x))
        = (\<lambda>i. if i < length slots then staged_slot (fst x) slots i else sg_export_slots (fst x) i)"
      "pm_seqs (snd (in_program L pool idx conv has slots tokens p x)) = int (length idx)"
      "pm_tokens (snd (in_program L pool idx conv has slots tokens p x)) = tokens" for x
      by (simp_all add: True in_program_def Let_def)
    then show ?thesis using staged_slot_stage [OF keep [of ps]] outside [of _ ps] by (simp add: fun_eq_iff)
  next
    case False
    then have "State 0 \<in> set ps" using snoc.prems by simp
    moreover have "pm_seqs (snd (in_program L pool idx conv has slots tokens p x)) = pm_seqs (snd x)
      \<and> pm_tokens (snd (in_program L pool idx conv has slots tokens p x)) = pm_tokens (snd x)
      \<and> sg_export_slots (fst (in_program L pool idx conv has slots tokens p x)) = sg_export_slots (fst x)" for x
      using False by (simp add: in_program_def Let_def split: stage_part.split option.split)
    ultimately show ?thesis using snoc.IH by simp
  qed
qed simp

lemma part_states_scatter:
  assumes "launch_parts n c order"
  shows "scatter (part_states L pool idx) order p = rows_in L pool idx [0..<n] p"
  unfolding rows_in_scatter
  by (rule scatter_same [symmetric, where h = State]) (use assms in \<open>auto simp: launch_parts_def inj_on_def\<close>)

lemma part_convs_scatter:
  assumes "launch_parts n c order"
  shows "scatter (part_convs cp idx) order p = conv_in cp idx [0..<c] p"
  unfolding conv_in_scatter
  by (rule scatter_same [symmetric, where h = Conv]) (use assms in \<open>auto simp: launch_parts_def inj_on_def\<close>)

lemma part_initial_scatter:
  assumes "launch_parts n c order"
  shows "scatter (part_initial has) order q r = (if r < n then if has ! r then int (r + 1) else 0 else q r)"
proof (cases "r < n")
  case True
  have "scatter (part_initial has) order q r = (\<lambda>_. if has ! r then int (r + 1) else 0) (q r)"
    by (rule scatter_hit [where w = "part_initial has" and k = "State r"]) (use assms True in \<open>auto simp: launch_parts_def part_initial_def split: stage_part.splits\<close>)
  then show ?thesis using True by simp
next
  case False
  then show ?thesis using assms by (subst scatter_miss) (auto simp: launch_parts_def part_initial_def split: stage_part.splits)
qed

lemma fused_stage_in:
  assumes "idx \<noteq> []" "length idx \<le> sg_max_seqs g" "length idx \<le> length has" "sg_fused g" "conv \<noteq> None \<longrightarrow> sg_conv g \<noteq> None"
    and "ckpt = Some slots \<or> ckpt = None \<and> slots = []" "length slots \<le> sg_export_rows g"
    and "launch_parts (length idx) (if conv = None then 0 else length idx) order"
  shows "\<exists>g1. stage_in L True pool idx conv g = Inr (g1, map int [1..<length idx + 1])
    \<and> stage_in_prefill L True pool idx conv has ckpt tokens order g m
      = Inr ((g1\<lparr>sg_export_slots := (\<lambda>i. if i < length slots then staged_slot g slots i else sg_export_slots g i)\<rparr>,
          m\<lparr>pm_initial := (\<lambda>r. if r < length idx then if has ! r then int (r + 1) else 0 else pm_initial m r),
            pm_seqs := int (length idx), pm_tokens := tokens\<rparr>),
        map int [1..<length idx + 1], map_option (\<lambda>s. map (staged_slot g s) [0..<length s]) ckpt)"
proof -
  let ?n = "length idx" and ?F = "fold (in_program L pool idx conv has slots tokens) order (g, m)"
  define g1 where "g1 = g\<lparr>sg_state := rows_in L pool idx [0..<?n] (sg_state g),
      sg_conv := (case conv of None \<Rightarrow> sg_conv g | Some cp \<Rightarrow> map_option (conv_in cp idx [0..<?n]) (sg_conv g))\<rparr>"
  have first: "State 0 \<in> set order" using assms(1,8) by (auto simp: launch_parts_def)
  note head = in_programs_head [OF first, of L pool idx conv has slots tokens "(g, m)", unfolded fst_conv]
  have st: "sg_state (fst ?F) = rows_in L pool idx [0..<?n] (sg_state g)"
    using fold_project [where proj = "\<lambda>x. sg_state (fst x)" and w = "part_states L pool idx" and F = "in_program L pool idx conv has slots tokens",
        OF in_program_state] part_states_scatter [OF assms(8)] by simp
  have ini: "pm_initial (snd ?F) = (\<lambda>r. if r < ?n then if has ! r then int (r + 1) else 0 else pm_initial m r)"
    using fold_project [where proj = "\<lambda>x. pm_initial (snd x)" and w = "part_initial has" and F = "in_program L pool idx conv has slots tokens",
        OF in_program_initial] part_initial_scatter [OF assms(8)] by (simp add: fun_eq_iff)
  have cv: "sg_conv (fst ?F) = sg_conv g1"
  proof (cases conv)
    case None
    then show ?thesis using fold_keeps_part [where proj = "\<lambda>x. sg_conv (fst x)" and F = "in_program L pool idx None has slots tokens", OF in_program_no_conv]
      by (simp add: g1_def)
  next
    case (Some cp)
    then obtain cs where cs: "sg_conv g = Some cs" using assms(5) by auto
    show ?thesis
      using in_programs_conv [of "(g, m)" cs L pool idx cp has slots tokens order] cs part_convs_scatter [OF assms(8), of cp idx cs] Some by (simp add: g1_def)
  qed
  have fields: "sg_max_seqs (fst ?F) = sg_max_seqs g" "sg_export_rows (fst ?F) = sg_export_rows g" "sg_side (fst ?F) = sg_side g" "sg_fused (fst ?F) = sg_fused g"
    by (simp_all add: fold_keeps_part [where proj = "\<lambda>x. sg_max_seqs (fst x)"] fold_keeps_part [where proj = "\<lambda>x. sg_export_rows (fst x)"]
        fold_keeps_part [where proj = "\<lambda>x. sg_side (fst x)"] fold_keeps_part [where proj = "\<lambda>x. sg_fused (fst x)"] in_program_fields)
  have F1: "fst ?F = g1\<lparr>sg_export_slots := (\<lambda>i. if i < length slots then staged_slot g slots i else sg_export_slots g i)\<rparr>"
    using head st cv fields by (intro stage.equality) (simp_all add: g1_def)
  have F2: "snd ?F = m\<lparr>pm_initial := (\<lambda>r. if r < ?n then if has ! r then int (r + 1) else 0 else pm_initial m r),
      pm_seqs := int ?n, pm_tokens := tokens\<rparr>"
    using head ini by (intro prefill_meta.equality) simp_all
  have plain: "stage_in L True pool idx conv g = Inr (g1, map int [1..<?n + 1])"
    using assms(2,5) by (cases conv; cases "sg_conv g") (simp_all add: stage_in_def stage_check_def Let_def g1_def)
  have s: "(case ckpt of None \<Rightarrow> [] | Some s \<Rightarrow> s) = slots" using assms(6) by auto
  have "stage_in_prefill L True pool idx conv has ckpt tokens order g m
      = Inr (?F, map int [1..<?n + 1], map_option (\<lambda>s. map (sg_export_slots (fst ?F)) [0..<length s]) ckpt)"
    using assms(1-7) by (auto simp: stage_in_prefill_def stage_check_def Let_def case_prod_beta)
  moreover have "map_option (\<lambda>s. map (sg_export_slots (fst ?F)) [0..<length s]) ckpt = map_option (\<lambda>s. map (staged_slot g s) [0..<length s]) ckpt"
    using assms(6) head by auto
  ultimately show ?thesis using plain F1 F2 by (intro exI [of _ g1]) (metis prod.collapse)
qed

text \<open>Where a program of the way out writes a state.\<close>

definition out_states :: "'a pool_layout \<Rightarrow> 'a stage \<Rightarrow> int list \<Rightarrow> int list \<Rightarrow> stage_part \<Rightarrow> (int \<times> ('a state_block \<Rightarrow> 'a state_block)) option" where
  "out_states L g idx slots p =
     (case p of Conv r \<Rightarrow> None
      | State r \<Rightarrow>
        (let final = r < length idx; blk = (if final then idx ! r else slots ! (r - length idx));
             row = (if final then r + 1 else export_base g + (r - length idx))
         in if 0 < blk \<and> \<not> (final \<and> blk \<in> set slots) then Some (blk, \<lambda>b. state_store L b (sg_state g row)) else None))"

lemma out_program_state: "fst (out_program L g idx slots p pc)
    = (case out_states L g idx slots p of None \<Rightarrow> fst pc | Some (b, f) \<Rightarrow> (fst pc)(b := f (fst pc b)))"
  by (simp add: out_program_def out_states_def Let_def split: stage_part.split option.split)

definition out_convs :: "(nat \<Rightarrow> nat \<Rightarrow> 'a) \<Rightarrow> int list \<Rightarrow> stage_part \<Rightarrow> (int \<times> ((nat \<Rightarrow> 'a) \<Rightarrow> nat \<Rightarrow> 'a)) option" where
  "out_convs cs idx p = (case p of State r \<Rightarrow> None | Conv r \<Rightarrow> if r < length idx \<and> 0 < idx ! r then Some (idx ! r, \<lambda>_. cs (r + 1)) else None)"

lemma out_convs_at: "out_convs cs idx p \<noteq> None \<longleftrightarrow> (\<exists>r < length idx. p = Conv r \<and> 0 < idx ! r)"
  by (cases p) (auto simp: out_convs_def)

lemma out_programs_conv:
  "sg_conv g = Some cs \<Longrightarrow> snd (fold (out_program L g idx slots) ps (p, Some cp)) = Some (scatter (out_convs cs idx) ps cp)"
proof (induction ps arbitrary: p cp)
  case (Cons q ps)
  have "snd (out_program L g idx slots q (p, Some cp))
      = Some (case out_convs cs idx q of None \<Rightarrow> cp | Some (b, f) \<Rightarrow> cp(b := f (cp b)))"
    using Cons.prems by (simp add: out_program_def out_convs_def Let_def split: stage_part.split)
  then obtain p' where "out_program L g idx slots q (p, Some cp) = (p', Some (case out_convs cs idx q of None \<Rightarrow> cp | Some (b, f) \<Rightarrow> cp(b := f (cp b))))"
    by (metis prod.collapse)
  then show ?case using Cons.IH [OF Cons.prems] by (simp add: scatter_def)
qed (simp add: scatter_def)

lemma out_programs_no_conv: "snd (fold (out_program L g idx slots) ps (p, None)) = None"
proof (induction ps arbitrary: p)
  case (Cons q ps)
  have "snd (out_program L g idx slots q (p, None)) = None" by (simp add: out_program_def Let_def split: stage_part.split)
  then show ?case using Cons.IH by (metis fold_simps(2) prod.collapse)
qed simp

definition distinct_blocks :: "int list \<Rightarrow> bool" where
  "distinct_blocks idx \<longleftrightarrow> (\<forall>r < length idx. \<forall>r' < length idx. 0 < idx ! r \<longrightarrow> idx ! r = idx ! r' \<longrightarrow> r = r')"

lemma rows_out_at:
  assumes "distinct_blocks idx"
  shows "r < length idx \<Longrightarrow> 0 < idx ! r \<Longrightarrow> rows_out L st base idx [0..<length idx] p (idx ! r) = state_store L (p (idx ! r)) (st (base + r))"
    and "\<not> (0 < b \<and> b \<in> set idx) \<Longrightarrow> rows_out L st base idx [0..<length idx] p b = p b"
proof -
  show "rows_out L st base idx [0..<length idx] p (idx ! r) = state_store L (p (idx ! r)) (st (base + r))" if "r < length idx" "0 < idx ! r"
    unfolding rows_out_scatter
  proof (rule scatter_hit [where k = r])
    fix k' assume k': "k' \<in> set [0..<length idx]" "k' \<noteq> r"
    then have "idx ! k' \<noteq> idx ! r" using assms that unfolding distinct_blocks_def by auto
    then show "map_option fst (if 0 < idx ! k' then Some (idx ! k', \<lambda>b. state_store L b (st (base + k'))) else None) \<noteq> Some (idx ! r)" by simp
  qed (use that in simp_all)
  show "rows_out L st base idx [0..<length idx] p b = p b" if "\<not> (0 < b \<and> b \<in> set idx)"
    unfolding rows_out_scatter using that by (intro scatter_miss) auto
qed

lemma fused_states_out:
  assumes "distinct_blocks idx" "distinct_blocks slots" "launch_parts (length idx + length slots) c order"
  shows "scatter (out_states L g idx slots) order p
    = rows_out L (sg_state g) (export_base g) slots [0..<length slots] (rows_out L (sg_state g) 1 idx [0..<length idx] p)"
proof
  fix b
  let ?n = "length idx" and ?w = "out_states L g idx slots"
  have ord: "distinct order" "State r \<in> set order \<longleftrightarrow> r < ?n + length slots" for r using assms(3) by (auto simp: launch_parts_def)
  have at: "\<exists>r. k = State r \<and> (r < ?n \<and> b = idx ! r \<and> b \<notin> set slots \<or> ?n \<le> r \<and> b = slots ! (r - ?n)) \<and> 0 < b"
    if "map_option fst (?w k) = Some b" for k
    using that by (cases k) (auto simp: out_states_def Let_def split: if_splits)
  consider (export) "0 < b" "b \<in> set slots" | (final) "0 < b" "b \<in> set idx" "b \<notin> set slots"
    | (other) "\<not> (0 < b \<and> b \<in> set slots)" "\<not> (0 < b \<and> b \<in> set idx)" by blast
  then show "scatter ?w order p b = rows_out L (sg_state g) (export_base g) slots [0..<length slots] (rows_out L (sg_state g) 1 idx [0..<?n] p) b"
  proof cases
    case e: export
    then obtain i where "i < length slots" "b = slots ! i" by (metis in_set_conv_nth)
    note export = this e(1)
    have "scatter ?w order p b = (\<lambda>x. state_store L x (sg_state g (export_base g + i))) (p b)"
    proof (rule scatter_hit [where w = ?w and k = "State (?n + i)", OF ord(1)])
      show "State (?n + i) \<in> set order" using ord(2) export(1) by simp
      show "?w (State (?n + i)) = Some (b, \<lambda>x. state_store L x (sg_state g (export_base g + i)))" using export by (simp add: out_states_def)
      fix k' assume k': "k' \<in> set order" "k' \<noteq> State (?n + i)"
      show "map_option fst (?w k') \<noteq> Some b"
      proof
        assume "map_option fst (?w k') = Some b"
        then obtain r where r: "k' = State r" "r < ?n \<and> b = idx ! r \<and> b \<notin> set slots \<or> ?n \<le> r \<and> b = slots ! (r - ?n)" using at by blast
        have far: "?n \<le> r" "b = slots ! (r - ?n)" using r(2) e(2) by blast+
        have "r < ?n + length slots" using r(1) k'(1) ord(2) by simp
        then have "?n \<le> r" "slots ! i = slots ! (r - ?n)" "r - ?n < length slots" using far export(2) by simp_all
        then have "i = r - ?n" using assms(2) export unfolding distinct_blocks_def by auto
        then show False using k'(2) r(1) \<open>?n \<le> r\<close> by simp
      qed
    qed
    also have "\<dots> = state_store L (rows_out L (sg_state g) 1 idx [0..<?n] p b) (sg_state g (export_base g + i))"
    proof (cases "b \<in> set idx")
      case True
      then obtain r where "r < ?n" "b = idx ! r" by (auto simp: in_set_conv_nth)
      then show ?thesis using export(3) by (simp add: rows_out_at(1) [OF assms(1)] store_twice)
    qed (simp add: rows_out_at(2) [OF assms(1)])
    finally show ?thesis using export(3) unfolding export(2) by (simp add: rows_out_at(1) [OF assms(2) export(1)])
  next
    case f: final
    then obtain r where "r < ?n" "b = idx ! r" by (metis in_set_conv_nth)
    note final = this f(1,3)
    have "scatter ?w order p b = (\<lambda>x. state_store L x (sg_state g (r + 1))) (p b)"
    proof (rule scatter_hit [where w = ?w and k = "State r", OF ord(1)])
      show "State r \<in> set order" using ord(2) final(1) by simp
      show "?w (State r) = Some (b, \<lambda>x. state_store L x (sg_state g (r + 1)))" using final by (simp add: out_states_def)
      fix k' assume k': "k' \<in> set order" "k' \<noteq> State r"
      show "map_option fst (?w k') \<noteq> Some b"
      proof
        assume "map_option fst (?w k') = Some b"
        then obtain r' where r': "k' = State r'" "r' < ?n \<and> b = idx ! r' \<or> ?n \<le> r' \<and> b = slots ! (r' - ?n)" using at by blast
        have "\<not> (?n \<le> r' \<and> b = slots ! (r' - ?n))" using final(4) k'(1) r'(1) ord(2) [of r'] by auto
        then have "r = r'" using r'(2) assms(1) final unfolding distinct_blocks_def by auto
        then show False using k'(2) r'(1) by simp
      qed
    qed
    moreover have "rows_out L (sg_state g) 1 idx [0..<?n] p b = state_store L (p b) (sg_state g (1 + r))"
      using final(3) unfolding final(2) by (simp add: rows_out_at(1) [OF assms(1) final(1)])
    ultimately show ?thesis using final(4) by (simp add: rows_out_at(2) [OF assms(2)])
  next
    case other
    have "scatter ?w order p b = p b"
    proof (rule scatter_miss)
      fix k assume k: "k \<in> set order"
      show "map_option fst (?w k) \<noteq> Some b"
      proof
        assume "map_option fst (?w k) = Some b"
        then obtain r where r: "k = State r" "r < ?n \<and> b = idx ! r \<or> ?n \<le> r \<and> b = slots ! (r - ?n)" "0 < b" using at by blast
        then have "r < ?n + length slots" using k ord(2) by simp
        then have "b \<in> set idx \<or> b \<in> set slots" using r(2) by auto
        then show False using other r(3) by blast
      qed
    qed
    then show ?thesis using other by (simp add: rows_out_at(2) [OF assms(1)] rows_out_at(2) [OF assms(2)])
  qed
qed

lemma fused_convs_out:
  assumes "distinct_blocks idx" "launch_parts s c order" "length idx \<le> c"
  shows "scatter (out_convs cs idx) order p = conv_out cs idx [0..<length idx] p"
  unfolding conv_out_scatter
proof (rule scatter_same [symmetric, where h = Conv])
  let ?w = "\<lambda>r. if 0 < idx ! r then Some (idx ! r, \<lambda>_. cs (r + 1)) else None"
  show "Conv ` {k \<in> set [0..<length idx]. ?w k \<noteq> None} = {k \<in> set order. out_convs cs idx k \<noteq> None}"
    unfolding out_convs_at using assms(2,3) by (auto simp: launch_parts_def split: if_splits)
  show "k = k'" if k: "k \<in> set [0..<length idx]" "k' \<in> set [0..<length idx]" "?w k \<noteq> None" "map_option fst (?w k) = map_option fst (?w k')" for k k'
  proof -
    have "0 < idx ! k" "idx ! k = idx ! k'" using k(3,4) by (auto split: if_splits)
    then show ?thesis using assms(1) k(1,2) unfolding distinct_blocks_def by simp
  qed
qed (use assms(2) in \<open>auto simp: launch_parts_def out_convs_def inj_on_def\<close>)

text \<open>
  C11. Whatever the order of their programs, the fused launches do exactly what the separate
  ones do: the way in fills the same staging rows and convolution rows and writes the indices,
  counters and staged checkpoint map those calls are given, and the way out leaves the pools
  as storing the final rows and then the exported states does.
\<close>

theorem fused_staging_is_exact:
  assumes "idx \<noteq> []" "length idx \<le> sg_max_seqs g" "length idx \<le> length has" "sg_fused g" "conv \<noteq> None \<longrightarrow> sg_conv g \<noteq> None"
    and "length slots \<le> sg_export_rows g" "distinct_blocks idx" "distinct_blocks slots"
    and "launch_parts (length idx) (if conv = None then 0 else length idx) ins"
    and "launch_parts (length idx + length slots) (if conv = None then 0 else length idx + length slots) outs"
  shows "(\<exists>g1. stage_in L True pool idx conv g = Inr (g1, map int [1..<length idx + 1])
      \<and> stage_in_prefill L True pool idx conv has (Some slots) tokens ins g m
        = Inr ((g1\<lparr>sg_export_slots := (\<lambda>i. if i < length slots then staged_slot g slots i else sg_export_slots g i)\<rparr>,
            m\<lparr>pm_initial := (\<lambda>r. if r < length idx then if has ! r then int (r + 1) else 0 else pm_initial m r),
              pm_seqs := int (length idx), pm_tokens := tokens\<rparr>),
          map int [1..<length idx + 1], Some (map (staged_slot g slots) [0..<length slots]))
      \<and> export_checkpoints True slots g = Inr (map (staged_slot g slots) [0..<length slots]))
    \<and> (\<exists>p1 p2 c2. stage_out L True idx g pool conv = Inr (p1, c2) \<and> stage_out_exports L True slots g p1 = Inr p2
      \<and> stage_out_prefill L True idx (Some slots) outs g pool conv = Inr (p2, c2))"
proof (rule conjI)
  show "\<exists>g1. stage_in L True pool idx conv g = Inr (g1, map int [1..<length idx + 1])
      \<and> stage_in_prefill L True pool idx conv has (Some slots) tokens ins g m
        = Inr ((g1\<lparr>sg_export_slots := (\<lambda>i. if i < length slots then staged_slot g slots i else sg_export_slots g i)\<rparr>,
            m\<lparr>pm_initial := (\<lambda>r. if r < length idx then if has ! r then int (r + 1) else 0 else pm_initial m r),
              pm_seqs := int (length idx), pm_tokens := tokens\<rparr>),
          map int [1..<length idx + 1], Some (map (staged_slot g slots) [0..<length slots]))
      \<and> export_checkpoints True slots g = Inr (map (staged_slot g slots) [0..<length slots])"
    using fused_stage_in [OF assms(1-5) disjI1 [OF refl] assms(6,9), of L pool tokens m] assms(6) by (simp add: export_checkpoints_def)
  let ?p1 = "rows_out L (sg_state g) 1 idx [0..<length idx] pool"
  let ?p2 = "rows_out L (sg_state g) (export_base g) slots [0..<length slots] ?p1"
  define c2 where "c2 = (case conv of None \<Rightarrow> None | Some cp \<Rightarrow> Some (conv_out (the (sg_conv g)) idx [0..<length idx] cp))"
  have pool: "fst (fold (out_program L g idx slots) outs (pool, conv)) = ?p2"
    using fold_project [where proj = fst and w = "out_states L g idx slots" and F = "out_program L g idx slots", OF out_program_state]
      fused_states_out [OF assms(7,8,10)] by simp
  have cv: "snd (fold (out_program L g idx slots) outs (pool, conv)) = c2"
  proof (cases conv)
    case (Some cp)
    then obtain cs where "sg_conv g = Some cs" using assms(5) by auto
    then show ?thesis
      using out_programs_conv [of g cs L idx slots outs pool cp] fused_convs_out [OF assms(7,10)] Some by (simp add: c2_def)
  qed (simp add: c2_def out_programs_no_conv)
  have "stage_out L True idx g pool conv = Inr (?p1, c2)"
    using assms(1,2,5) by (cases conv; cases "sg_conv g") (simp_all add: stage_out_def stage_check_def Let_def c2_def)
  moreover have "stage_out_exports L True slots g ?p1 = Inr ?p2"
    using assms(6) by (simp add: stage_out_exports_def stage_check_def rows_out_def)
  moreover have "stage_out_prefill L True idx (Some slots) outs g pool conv = Inr (?p2, c2)"
    using assms(1,2,4,5,6) pool cv by (auto simp: stage_out_prefill_def stage_check_def Let_def intro: prod_eqI)
  ultimately show "\<exists>p1 p2 c2. stage_out L True idx g pool conv = Inr (p1, c2) \<and> stage_out_exports L True slots g p1 = Inr p2
      \<and> stage_out_prefill L True idx (Some slots) outs g pool conv = Inr (p2, c2)" by blast
qed

section \<open>Example\<close>

text \<open>Two rows, the second without an initial state, two checkpoint entries of which one is null, programs out of order.\<close>

definition staged_layout :: "int pool_layout" where
  "staged_layout = \<lparr>pl_kind = Sided, pl_round = (\<lambda>x. x div 2 * 2), pl_slot = [0]\<rparr>"

definition staged_pool :: "int blocks" where
  "staged_pool b = \<lparr>sb_main = (\<lambda>v k. b), sb_side = (\<lambda>v k. b + 1)\<rparr>"

definition staged_stage :: "int stage" where
  "staged_stage = \<lparr>sg_max_seqs = 3, sg_export_rows = 2, sg_side = True, sg_fused = True, sg_state = (\<lambda>i v k. int i),
     sg_conv = Some (\<lambda>_ _. 0), sg_export_slots = (\<lambda>_. 0)\<rparr>"

definition staged_meta :: prefill_meta where
  "staged_meta = \<lparr>pm_initial = (\<lambda>_. 9), pm_seqs = 0, pm_tokens = 0\<rparr>"

definition staged_ins :: "stage_part list" where
  "staged_ins = [State 1, Conv 0, State 0, Conv 1]"

definition staged_outs :: "stage_part list" where
  "staged_outs = [State 3, Conv 1, State 0, State 2, Conv 0, Conv 2, State 1, Conv 3]"

lemma staged_parts: "launch_parts 2 2 staged_ins" "launch_parts 4 4 staged_outs"
proof -
  have two: "{..<2} = {0, 1 :: nat}" and four: "{..<4} = {0, 1, 2, 3 :: nat}" by auto
  show "launch_parts 2 2 staged_ins" "launch_parts 4 4 staged_outs"
    unfolding launch_parts_def staged_ins_def staged_outs_def two four by auto
qed

theorem fused_staging_is_exact_witness:
  "export_checkpoints True [0, 6] staged_stage = Inr [0, 5]
    \<and> (\<exists>p1 p2 c2. stage_out staged_layout True [5, 7] staged_stage staged_pool (Some (\<lambda>b _. b)) = Inr (p1, c2)
      \<and> stage_out_exports staged_layout True [0, 6] staged_stage p1 = Inr p2
      \<and> stage_out_prefill staged_layout True [5, 7] (Some [0, 6]) staged_outs staged_stage staged_pool (Some (\<lambda>b _. b)) = Inr (p2, c2))"
proof -
  have d: "distinct_blocks [5, 7]" "distinct_blocks [0, 6]" by (auto simp: distinct_blocks_def less_Suc_eq)
  have parts: "launch_parts (length [5, 7 :: int]) (if Some (\<lambda>b _. b :: int) = None then 0 else length [5, 7 :: int]) staged_ins"
    "launch_parts (length [5, 7 :: int] + length [0, 6 :: int]) (if Some (\<lambda>b _. b :: int) = None then 0 else length [5, 7 :: int] + length [0, 6 :: int]) staged_outs"
    using staged_parts by (simp_all add: numeral_eq_Suc)
  have map: "map (staged_slot staged_stage [0, 6]) [0..<length [0, 6 :: int]] = [0, 5]"
    by (simp add: staged_slot_def export_base_def seq_slots_def staged_stage_def)
  have fits: "[5, 7 :: int] \<noteq> []" "length [5, 7 :: int] \<le> sg_max_seqs staged_stage" "length [5, 7 :: int] \<le> length [True, False]" "sg_fused staged_stage"
    "Some (\<lambda>b _. b :: int) \<noteq> None \<longrightarrow> sg_conv staged_stage \<noteq> None" "length [0, 6 :: int] \<le> sg_export_rows staged_stage"
    by (simp_all add: staged_stage_def)
  show ?thesis
    using fused_staging_is_exact [OF fits d parts, of staged_layout staged_pool 17 staged_meta] unfolding map by blast
qed

end
