(* ===== verification/Kda_Handoff.thy ===== *)
theory Kda_Handoff
  imports Ringside_Prelude
begin

text \<open>
  The KDA FP8 hand-off (\<open>src/src/tp4/vllm/models/glm5next/nvidia/kda_fp8_handoff.py\<close>): a KDA layer's owner rows are quantized
  once, their bytes and scales are gathered over one of three transports, and the projection runs on the gathered parts.
  The quantizer and the matrix product belong to the engine and are parameters; the two gathers are parameters too, and
  copy bytes in rank order.
  What \<open>torch.empty\<close> leaves in a buffer is the argument \<open>junk\<close>. The log lines are left out.
\<close>

section \<open>Settings\<close>

record handoff_config =
  hc_enabled :: bool
  hc_block :: bool
  hc_min_rows :: int
  hc_ring :: bool
  hc_ring_min_rows :: int
  hc_tuned :: bool
  hc_tuned_min_rows :: int

definition HANDOFF :: string where "HANDOFF = ''GLM53_KDA_FP8_HANDOFF''"

definition BLOCK_ALIGN :: nat where "BLOCK_ALIGN = 16"

definition RING_ROW_BYTES :: nat where "RING_ROW_BYTES = 8192"

text \<open>What importing the module reads and refuses.\<close>

definition handoff_settings :: "environ \<Rightarrow> handoff_config py" where
  "handoff_settings env =
     (let raw = env_get env HANDOFF ''0''; mode = env_get env (HANDOFF @ ''_GATHER'') ''block'';
          ring = env_get env (HANDOFF @ ''_RING'') ''0''; tuned = env_get env (HANDOFF @ ''_TUNED'') ''0''
      in py_guard (raw \<notin> {''0'', ''1''} \<or> mode \<notin> {''two'', ''block''}) RuntimeError
        (py_bind (env_int env (HANDOFF @ ''_MIN_ROWS'') 0) (\<lambda>mr. py_guard (mr < 0) RuntimeError
          (py_guard (ring \<notin> {''0'', ''1''}) RuntimeError
            (py_bind (env_int env (HANDOFF @ ''_RING_MIN_ROWS'') 4608) (\<lambda>rr. py_guard (rr < 0) RuntimeError
              (py_guard (tuned \<notin> {''0'', ''1''}) RuntimeError
                (py_bind (env_int env (HANDOFF @ ''_TUNED_MIN_ROWS'') 1536) (\<lambda>tr. py_guard (tr < 129) RuntimeError
                  (Inr \<lparr>hc_enabled = (raw = ''1''), hc_block = (mode = ''block''), hc_min_rows = mr, hc_ring = (ring = ''1''),
                        hc_ring_min_rows = rr, hc_tuned = (tuned = ''1''), hc_tuned_min_rows = tr\<rparr>))))))))))"

text \<open>The layer as \<open>eligible\<close> reads it; \<open>None\<close> is a missing attribute, \<open>ip_bias\<close> whether
  the bias is set, and the answer is kept on the layer.\<close>

record in_projection =
  ip_method :: "string option"
  ip_family :: "string option"
  ip_prefill_mode :: "string option"
  ip_weight :: bool
  ip_scale :: bool
  ip_bias :: "bool option"
  ip_gather_output :: bool
  ip_fp8 :: bool

record kda_attn =
  ka_cached :: "bool option"
  ka_projection :: "in_projection option"

definition eligible_projection :: "in_projection option \<Rightarrow> bool" where
  "eligible_projection p =
     (case p of None \<Rightarrow> False
      | Some l \<Rightarrow> ip_method l = Some ''DualPathFp8DenseLinearMethod'' \<and> ip_family l = Some ''kda_in'' \<and> ip_prefill_mode l = Some ''w8a8''
          \<and> ip_weight l \<and> ip_scale l \<and> ip_bias l = Some False \<and> \<not> ip_gather_output l \<and> ip_fp8 l)"

definition handoff_eligible :: "kda_attn \<Rightarrow> bool \<times> kda_attn" where
  "handoff_eligible a =
     (case ka_cached a of Some b \<Rightarrow> (b, a)
      | None \<Rightarrow> (let ok = eligible_projection (ka_projection a) in (ok, a\<lparr>ka_cached := Some ok\<rparr>)))"

record handoff_owner =
  ho_rows :: nat
  ho_owner_rows :: nat
  ho_available :: bool
  ho_ring :: "nat option"
  ho_gathers :: nat

text \<open>\<open>ho_ring\<close> is the ring's largest number of rows, when this forward has a ring.\<close>

definition engage :: "handoff_config \<Rightarrow> kda_attn \<Rightarrow> handoff_owner \<Rightarrow> bool \<times> kda_attn" where
  "engage c a ow =
     (if \<not> hc_enabled c \<or> int (ho_rows ow) < hc_min_rows c then (False, a) else handoff_eligible a)"

section \<open>Buffers\<close>

text \<open>
  A quantized row: its bytes and the four bytes of its scale. \<open>view_rows\<close> is \<open>view\<close> on a flat buffer: its rows of
  \<open>w\<close> bytes.
\<close>

type_synonym 'b qrow = "'b list \<times> 'b list"

definition view_rows :: "nat \<Rightarrow> nat \<Rightarrow> 'b list \<Rightarrow> 'b list list" where
  "view_rows w n bs = map (\<lambda>i. take w (drop (i * w) bs)) [0..<n]"

text \<open>A rank's send buffer: \<open>junk\<close> is what \<open>torch.empty\<close> left in it.\<close>

definition send_block :: "nat \<Rightarrow> (nat \<Rightarrow> 'b) \<Rightarrow> 'b qrow list \<Rightarrow> 'b list" where
  "send_block blk junk qs =
     (let used = concat (map fst qs) @ concat (map snd qs) in used @ drop (length used) (map junk [0..<blk]))"

datatype transport = Ring nat | Two | Block

definition ring_row_count :: "nat \<Rightarrow> nat \<Rightarrow> nat" where
  "ring_row_count q_rows hidden = (q_rows * hidden + 4 * q_rows + RING_ROW_BYTES - 1) div RING_ROW_BYTES"

definition choose_transport :: "handoff_config \<Rightarrow> handoff_owner \<Rightarrow> nat \<Rightarrow> nat \<Rightarrow> transport" where
  "choose_transport c ow q_rows hidden =
     (case (if hc_ring c \<and> hc_ring_min_rows c \<le> int (ho_rows ow) then ho_ring ow else None) of
        Some m \<Rightarrow> (if m < 4 * ring_row_count q_rows hidden then (if hc_block c then Block else Two) else Ring (ring_row_count q_rows hidden))
      | None \<Rightarrow> (if hc_block c then Block else Two))"

definition block_bytes :: "nat \<Rightarrow> nat \<Rightarrow> nat" where
  "block_bytes q_rows hidden = (q_rows * hidden + 4 * q_rows + BLOCK_ALIGN - 1) div BLOCK_ALIGN * BLOCK_ALIGN"

text \<open>The loop over the four blocks of the received buffer; it ends at the first block without a row.\<close>

fun owner_blocks :: "nat \<Rightarrow> nat \<Rightarrow> nat \<Rightarrow> nat \<Rightarrow> 'b list \<Rightarrow> nat list \<Rightarrow> (nat \<times> 'b qrow list) list" where
  "owner_blocks rows q_rows hidden blk recv [] = []"
| "owner_blocks rows q_rows hidden blk recv (b # bs) =
     (let lo = b * q_rows; base = b * blk; n = min (int q_rows) (int rows - int lo) in
      if n \<le> 0 then []
      else (lo, zip (take (nat n) (view_rows hidden q_rows (take (q_rows * hidden) (drop base recv))))
                    (take (nat n) (view_rows 4 q_rows (take (4 * q_rows) (drop (base + q_rows * hidden) recv)))))
        # owner_blocks rows q_rows hidden blk recv bs)"

text \<open>The pair \<open>gather\<close> returns: a list of blocks and the number of rows, or the two full tensors.\<close>

datatype 'b handoff_input = Blocks "(nat \<times> 'b qrow list) list" nat | Whole "'b qrow list"

text \<open>
  What a rank gets when all four gather: \<open>xs r\<close> are the owner rows of rank \<open>r\<close>, \<open>nccl\<close> and \<open>ring\<close> the two
  all-gathers, from the ranks' buffers to the received one.
\<close>

record 'b gathers =
  ga_nccl :: "'b list list \<Rightarrow> 'b list"
  ga_ring :: "'b list list \<Rightarrow> 'b list"

definition handoff_input_of ::
  "'b gathers \<Rightarrow> transport \<Rightarrow> ('x \<Rightarrow> 'b qrow) \<Rightarrow> handoff_owner \<Rightarrow> nat \<Rightarrow> (nat \<Rightarrow> nat \<Rightarrow> 'b) \<Rightarrow> (nat \<Rightarrow> 'x list) \<Rightarrow> 'b handoff_input" where
  "handoff_input_of ga tr quant ow hidden junk xs =
     (let q_rows = ho_owner_rows ow; qs = (\<lambda>r. map quant (xs r)) in
      case tr of
        Ring n \<Rightarrow>
          (let blk = n * RING_ROW_BYTES; recv = ga_ring ga (map (\<lambda>r. send_block blk (junk r) (qs r)) [0..<4])
           in Blocks (owner_blocks (ho_rows ow) q_rows hidden blk recv [0..<4]) (ho_rows ow))
      | Two \<Rightarrow>
          (let q_out = view_rows hidden (4 * q_rows) (ga_nccl ga (map (\<lambda>r. concat (map fst (qs r))) [0..<4]));
               s_out = view_rows 4 (4 * q_rows) (ga_nccl ga (map (\<lambda>r. concat (map snd (qs r))) [0..<4]))
           in Whole (zip (take (ho_rows ow) q_out) (take (ho_rows ow) s_out)))
      | Block \<Rightarrow>
          (let blk = block_bytes q_rows hidden; recv = ga_nccl ga (map (\<lambda>r. send_block blk (junk r) (qs r)) [0..<4])
           in Blocks (owner_blocks (ho_rows ow) q_rows hidden blk recv [0..<4]) (ho_rows ow)))"

text \<open>\<open>gather\<close>: the checks of this rank, then the one accounted gather. \<open>fits\<close> is the dtype, device and layout check.\<close>

definition handoff_gather ::
  "handoff_config \<Rightarrow> 'b gathers \<Rightarrow> ('x \<Rightarrow> 'b qrow) \<Rightarrow> bool \<Rightarrow> nat \<Rightarrow> (nat \<Rightarrow> nat \<Rightarrow> 'b) \<Rightarrow> (nat \<Rightarrow> 'x list) \<Rightarrow> nat \<Rightarrow> handoff_owner
    \<Rightarrow> ('b handoff_input \<times> handoff_owner) py" where
  "handoff_gather c ga quant fits hidden junk xs rank ow =
     py_guard (\<not> ho_available ow) RuntimeError
       (py_guard (length (xs rank) \<noteq> ho_owner_rows ow \<or> \<not> fits) RuntimeError
         (Inr (handoff_input_of ga (choose_transport c ow (length (xs rank)) hidden) quant ow hidden junk xs,
               ow\<lparr>ho_gathers := ho_gathers ow + 1\<rparr>)))"

section \<open>The projection\<close>

text \<open>The dense layer: its chunk rule, and the configuration its rule table gives for a number of rows.\<close>

record 'g dense_rules =
  dr_chunk :: nat
  dr_chunk_min :: nat
  dr_rules :: bool
  dr_choice :: "nat \<Rightarrow> 'g option"

definition tuned_choice :: "handoff_config \<Rightarrow> 'g dense_rules \<Rightarrow> nat \<Rightarrow> 'g option" where
  "tuned_choice c l rows =
     (if \<not> hc_tuned c \<or> int rows < hc_tuned_min_rows c \<or> \<not> dr_rules l then None else dr_choice l rows)"

fun chunks_of :: "nat \<Rightarrow> nat \<Rightarrow> 'a list \<Rightarrow> 'a list list" where
  "chunks_of 0 chunk xs = []"
| "chunks_of (Suc n) chunk xs = (if xs = [] then [] else take chunk xs # chunks_of n chunk (drop chunk xs))"

text \<open>One call's result written into the output from its first row on.\<close>

definition write_rows :: "nat \<Rightarrow> 'y list \<Rightarrow> 'y list \<Rightarrow> 'y list" where
  "write_rows lo ys out = take lo out @ ys @ drop (lo + length ys) out"

text \<open>\<open>q[0][1].device\<close> needs a first block.\<close>

definition handoff_project ::
  "handoff_config \<Rightarrow> ('g option \<Rightarrow> 'b qrow list \<Rightarrow> 'y list) \<Rightarrow> 'g dense_rules \<Rightarrow> (nat \<Rightarrow> 'y) \<Rightarrow> 'b handoff_input \<Rightarrow> 'y list py" where
  "handoff_project c gemm l junk g =
     (case g of
        Blocks bs rows \<Rightarrow>
          py_guard (bs = []) IndexError
            (Inr (fold (\<lambda>(lo, qs). write_rows lo (gemm (tuned_choice c l (length qs)) qs)) bs (map junk [0..<rows])))
      | Whole qs \<Rightarrow>
        Inr (if dr_chunk l \<noteq> 0 \<and> dr_chunk l < length qs \<and> dr_chunk_min l \<le> length qs
             then concat (map (\<lambda>part. gemm (tuned_choice c l (length part)) part) (chunks_of (length qs) (dr_chunk l) qs))
             else gemm (tuned_choice c l (length qs)) qs))"

section \<open>What the hand-off computes\<close>

lemma concat_rows_length: "(\<And>x. x \<in> set xs \<Longrightarrow> length (f x) = w) \<Longrightarrow> length (concat (map f xs)) = length xs * w"
  by (induction xs) auto

lemma drop_concat_rows:
  assumes "\<And>x. x \<in> set xs \<Longrightarrow> length (f x) = w" "i < length xs"
  shows "drop (i * w) (concat (map f xs)) = f (xs ! i) @ concat (map f (drop (Suc i) xs))"
  using assms
proof (induction xs arbitrary: i)
  case (Cons x xs)
  then show ?case by (cases i) (simp_all add: add.commute)
qed simp

lemma view_rows_concat:
  assumes "\<And>x. x \<in> set xs \<Longrightarrow> length (f x) = w" "length xs = n"
  shows "view_rows w n (concat (map f xs)) = map f xs"
proof (rule nth_equalityI)
  fix i assume "i < length (view_rows w n (concat (map f xs)))"
  then have i: "i < length xs" by (simp add: view_rows_def assms(2))
  then show "view_rows w n (concat (map f xs)) ! i = map f xs ! i"
    by (simp add: view_rows_def drop_concat_rows [OF assms(1)] assms(1) flip: assms(2))
qed (simp add: view_rows_def assms(2))

text \<open>What the hand-off relies on: rows of fixed width, and gathers that copy the ranks' bytes in rank order.\<close>

definition quant_ok :: "nat \<Rightarrow> ('x \<Rightarrow> 'b qrow) \<Rightarrow> bool" where
  "quant_ok hidden quant \<longleftrightarrow> (\<forall>x. length (fst (quant x)) = hidden \<and> length (snd (quant x)) = 4)"

definition gathers_ok :: "'b gathers \<Rightarrow> bool" where
  "gathers_ok ga \<longleftrightarrow> (\<forall>parts. ga_nccl ga parts = concat parts \<and> ga_ring ga parts = concat parts)"

lemma send_block_shape:
  assumes "quant_ok hidden quant"
  obtains pad where "send_block blk junk (map quant xs) = concat (map (\<lambda>x. fst (quant x)) xs) @ concat (map (\<lambda>x. snd (quant x)) xs) @ pad"
    "length xs * hidden + 4 * length xs \<le> blk \<Longrightarrow> length (send_block blk junk (map quant xs)) = blk"
proof
  have "length (concat (map (\<lambda>x. fst (quant x)) xs)) = length xs * hidden" "length (concat (map (\<lambda>x. snd (quant x)) xs)) = length xs * 4"
    using assms by (intro concat_rows_length; simp add: quant_ok_def)+
  then show "length (send_block blk junk (map quant xs)) = blk" if "length xs * hidden + 4 * length xs \<le> blk"
    using that by (simp add: send_block_def Let_def comp_def)
qed (simp add: send_block_def Let_def comp_def)

text \<open>A block read back gives the sender's rows.\<close>

lemma read_block:
  assumes "quant_ok hidden quant" "length xs = q_rows"
  shows "zip (take n (view_rows hidden q_rows (take (q_rows * hidden) (send_block blk junk (map quant xs) @ rest))))
      (take n (view_rows 4 q_rows (take (4 * q_rows) (drop (q_rows * hidden) (send_block blk junk (map quant xs) @ rest))))) = take n (map quant xs)"
proof -
  have f: "\<And>x. length (fst (quant x)) = hidden" and s: "\<And>x. length (snd (quant x)) = 4" using assms(1) by (simp_all add: quant_ok_def)
  obtain pad where b: "send_block blk junk (map quant xs) = concat (map (\<lambda>x. fst (quant x)) xs) @ concat (map (\<lambda>x. snd (quant x)) xs) @ pad"
    using send_block_shape [OF assms(1)] by metis
  have lf: "length (concat (map (\<lambda>x. fst (quant x)) xs)) = q_rows * hidden" and ls: "length (concat (map (\<lambda>x. snd (quant x)) xs)) = 4 * q_rows"
    using concat_rows_length [of xs "\<lambda>x. fst (quant x)" hidden] concat_rows_length [of xs "\<lambda>x. snd (quant x)" 4] f s assms(2) by simp_all
  have "take (q_rows * hidden) (send_block blk junk (map quant xs) @ rest) = concat (map (\<lambda>x. fst (quant x)) xs)"
    using lf unfolding b append_assoc by (metis append_eq_conv_conj)
  moreover have "take (4 * q_rows) (drop (q_rows * hidden) (send_block blk junk (map quant xs) @ rest)) = concat (map (\<lambda>x. snd (quant x)) xs)"
    using lf ls unfolding b append_assoc by (metis append_eq_conv_conj)
  moreover have "view_rows hidden q_rows (concat (map (\<lambda>x. fst (quant x)) xs)) = map (\<lambda>x. fst (quant x)) xs"
    by (rule view_rows_concat [OF f assms(2)])
  moreover have "view_rows 4 q_rows (concat (map (\<lambda>x. snd (quant x)) xs)) = map (\<lambda>x. snd (quant x)) xs"
    by (rule view_rows_concat [OF s assms(2)])
  moreover have "zip (map (\<lambda>x. fst (quant x)) xs) (map (\<lambda>x. snd (quant x)) xs) = map quant xs" by (induction xs) auto
  ultimately show ?thesis by (simp only: take_zip [symmetric])
qed

text \<open>The loop over the blocks, with the projection's writes: after the first \<open>k\<close> blocks their rows are in place.\<close>

lemma blocks_project:
  assumes q: "quant_ok hidden quant" and xs: "\<And>r. r < m \<Longrightarrow> length (xs r) = q_rows"
    and fit: "q_rows * hidden + 4 * q_rows \<le> blk" and gemm: "\<And>t qs. gemm t qs = map f qs"
    and recv: "recv = concat (map (\<lambda>r. send_block blk (junk r) (map quant (xs r))) [0..<m])"
    and rows: "rows \<le> m * q_rows" and k: "k \<le> m"
    and out: "out = take rows (concat (map (\<lambda>r. map (\<lambda>x. f (quant x)) (xs r)) [0..<k])) @ rest" "length out = rows"
  shows "fold (\<lambda>(lo, qs). write_rows lo (gemm (t (length qs)) qs)) (owner_blocks rows q_rows hidden blk recv [k..<m]) out
       = take rows (concat (map (\<lambda>r. map (\<lambda>x. f (quant x)) (xs r)) [0..<m]))"
  using k out
proof (induction "m - k" arbitrary: k out rest)
  case 0
  then have "k = m" by simp
  moreover have "length (concat (map (\<lambda>r. map (\<lambda>x. f (quant x)) (xs r)) [0..<m])) = m * q_rows"
    using xs by (subst concat_rows_length [where w = q_rows]) auto
  ultimately show ?case using 0 rows by simp
next
  case (Suc d)
  let ?F = "\<lambda>r. map (\<lambda>x. f (quant x)) (xs r)"
  have km: "k < m" and upt: "[k..<m] = k # [Suc k..<m]" using Suc.hyps(2) by (simp_all add: upt_conv_Cons)
  have lk: "length (concat (map ?F [0..<k])) = k * q_rows"
    using xs km by (subst concat_rows_length [where w = q_rows]) auto
  have lm: "concat (map ?F [0..<m]) = concat (map ?F [0..<k]) @ ?F k @ concat (map ?F [Suc k..<m])"
    using upt km upt_add_eq_append [of 0 k "m - k"] by simp
  show ?case
  proof (cases "rows \<le> k * q_rows")
    case True
    then have "rest = []" using Suc.prems(2,3) lk by simp
    moreover have "owner_blocks rows q_rows hidden blk recv [k..<m] = []"
      using True unfolding upt by (simp add: Let_def flip: of_nat_mult)
    ultimately show ?thesis using Suc.prems(2) True lk lm by simp
  next
    case False
    let ?n = "min q_rows (rows - k * q_rows)"
    let ?B = "\<lambda>r. send_block blk (junk r) (map quant (xs r))"
    have n: "min (int q_rows) (int rows - int (k * q_rows)) = int ?n" using False by (simp add: of_nat_diff of_nat_min del: of_nat_mult)
    have q0: "0 < q_rows" using False rows by (cases q_rows) auto
    have sent: "length (?B r) = blk" if "r < m" for r
      using send_block_shape [OF q, of blk "junk r" "xs r"] fit xs [OF that] by metis
    obtain R where base: "drop (k * blk) recv = ?B k @ R"
      unfolding recv using drop_concat_rows [of "[0..<m]" ?B blk k] sent km by auto
    have "owner_blocks rows q_rows hidden blk recv [k..<m]
        = (k * q_rows, take ?n (map quant (xs k))) # owner_blocks rows q_rows hidden blk recv [Suc k..<m]"
      unfolding upt owner_blocks.simps Let_def n
      using False q0 read_block [OF q xs [OF km], of ?n blk "junk k" R]
      by (simp add: base add.commute [of "k * blk"] flip: drop_drop)
    moreover have tn: "take ?n (xs k) = take (rows - k * q_rows) (xs k)" using xs [OF km] by (simp add: min_def)
    ultimately have head: "owner_blocks rows q_rows hidden blk recv [k..<m]
        = (k * q_rows, take ?n (map quant (xs k))) # owner_blocks rows q_rows hidden blk recv [Suc k..<m]" by blast
    have "write_rows (k * q_rows) (map f (take ?n (map quant (xs k)))) out
        = take rows (concat (map ?F [0..<Suc k])) @ drop (k * q_rows + ?n) out"
      using Suc.prems(2) False lk xs [OF km] by (simp add: write_rows_def take_map comp_def tn)
    moreover have "length (take rows (concat (map ?F [0..<Suc k])) @ drop (k * q_rows + ?n) out) = rows"
      using Suc.prems(3) False lk xs [OF km] by simp
    ultimately show ?thesis
      using Suc.hyps(1) [of "Suc k" "take rows (concat (map ?F [0..<Suc k])) @ drop (k * q_rows + ?n) out"] Suc.hyps(2) km
      by (simp add: gemm head del: upt_Suc)
  qed
qed

lemma chunks_project: "0 < c \<Longrightarrow> length xs \<le> n \<Longrightarrow> concat (map (map f) (chunks_of n c xs)) = map f xs"
  by (induction n c xs rule: chunks_of.induct) (auto simp flip: map_append)

text \<open>The choices keep each transport within its size: a ring call fits the ring's region and holds every byte.\<close>

lemma ring_row_count_holds: "q_rows * hidden + 4 * q_rows \<le> ring_row_count q_rows hidden * RING_ROW_BYTES"
  using div_mult_mod_eq [of "q_rows * hidden + 4 * q_rows + RING_ROW_BYTES - 1" RING_ROW_BYTES]
    mod_less_divisor [of RING_ROW_BYTES "q_rows * hidden + 4 * q_rows + RING_ROW_BYTES - 1"]
  unfolding ring_row_count_def RING_ROW_BYTES_def by linarith

lemma block_bytes_holds: "q_rows * hidden + 4 * q_rows \<le> block_bytes q_rows hidden"
  using div_mult_mod_eq [of "q_rows * hidden + 4 * q_rows + BLOCK_ALIGN - 1" BLOCK_ALIGN]
    mod_less_divisor [of BLOCK_ALIGN "q_rows * hidden + 4 * q_rows + BLOCK_ALIGN - 1"]
  unfolding block_bytes_def BLOCK_ALIGN_def by linarith

lemma ring_call_fits:
  "choose_transport c ow q_rows hidden = Ring n \<Longrightarrow> n = ring_row_count q_rows hidden \<and> (\<exists>m. ho_ring ow = Some m \<and> 4 * n \<le> m)"
  by (auto simp: choose_transport_def split: option.splits if_splits)

lemma concat_map_owners: "concat (map (\<lambda>r. concat (map g (xs r))) rs) = concat (map g (concat (map xs rs)))"
  by (induction rs) auto

lemma two_input:
  assumes "quant_ok hidden quant" "\<And>r. r < 4 \<Longrightarrow> length (xs r) = q_rows"
  shows "zip (take n (view_rows hidden (4 * q_rows) (concat (map (\<lambda>r. concat (map fst (map quant (xs r)))) [0..<4]))))
      (take n (view_rows 4 (4 * q_rows) (concat (map (\<lambda>r. concat (map snd (map quant (xs r)))) [0..<4]))))
    = map quant (take n (concat (map xs [0..<4])))"
proof -
  let ?X = "concat (map xs [0..<4])"
  have f: "\<And>x. length (fst (quant x)) = hidden" and s: "\<And>x. length (snd (quant x)) = 4" using assms(1) by (simp_all add: quant_ok_def)
  have X: "length ?X = 4 * q_rows" using assms(2) by (subst concat_rows_length [where w = q_rows]) auto
  have "view_rows hidden (4 * q_rows) (concat (map (\<lambda>x. fst (quant x)) ?X)) = map (\<lambda>x. fst (quant x)) ?X"
    by (rule view_rows_concat [OF f X])
  moreover have "view_rows 4 (4 * q_rows) (concat (map (\<lambda>x. snd (quant x)) ?X)) = map (\<lambda>x. snd (quant x)) ?X"
    by (rule view_rows_concat [OF s X])
  moreover have "zip (map (\<lambda>x. fst (quant x)) ys) (map (\<lambda>x. snd (quant x)) ys) = map quant ys" for ys by (induction ys) auto
  ultimately show ?thesis by (simp only: map_map comp_def concat_map_owners take_zip [symmetric] take_map [symmetric])
qed

text \<open>A row of a product depends on that row only, and not on the configuration of the call.\<close>

definition rowwise :: "('t \<Rightarrow> 'q list \<Rightarrow> 'y list) \<Rightarrow> ('q \<Rightarrow> 'y) \<Rightarrow> bool" where
  "rowwise gemm f \<longleftrightarrow> (\<forall>t qs. gemm t qs = map f qs)"

lemma blocks_input_project:
  assumes q: "quant_ok hidden quant" and xs: "\<And>r. r < 4 \<Longrightarrow> length (xs r) = ho_owner_rows ow"
    and fit: "ho_owner_rows ow * hidden + 4 * ho_owner_rows ow \<le> blk" and gemm: "rowwise gemm f"
    and recv: "recv = concat (map (\<lambda>r. send_block blk (junk r) (map quant (xs r))) [0..<4])"
    and rows: "0 < ho_rows ow" "ho_rows ow \<le> 4 * ho_owner_rows ow"
  shows "handoff_project c gemm l junk' (Blocks (owner_blocks (ho_rows ow) (ho_owner_rows ow) hidden blk recv [0..<4]) (ho_rows ow))
       = Inr (take (ho_rows ow) (map (\<lambda>x. f (quant x)) (concat (map xs [0..<4]))))"
proof -
  have g: "\<And>t qs. gemm t qs = map f qs" using gemm by (simp add: rowwise_def)
  have "owner_blocks (ho_rows ow) (ho_owner_rows ow) hidden blk recv [0..<4] \<noteq> []"
    using rows by (subst upt_conv_Cons) (auto simp: Let_def)
  moreover have "fold (\<lambda>(lo, qs). write_rows lo (gemm (tuned_choice c l (length qs)) qs))
      (owner_blocks (ho_rows ow) (ho_owner_rows ow) hidden blk recv [0..<4]) (map junk' [0..<ho_rows ow])
    = take (ho_rows ow) (concat (map (\<lambda>r. map (\<lambda>x. f (quant x)) (xs r)) [0..<4]))"
    by (rule blocks_project [OF q xs fit g recv rows(2), where rest = "map junk' [0..<ho_rows ow]"]) simp_all
  ultimately show ?thesis by (simp add: handoff_project_def map_concat comp_def)
qed

text \<open>
  C12. Whatever the transport, the chunk rule and the tuned choices, and whatever the buffers
  held before, the projection of the gathered input is, row by row, the product of the
  quantized owner rows in rank order, cut to the rows of the forward, and the gather is
  counted once.
\<close>

lemma handoff_is_exact:
  assumes "quant_ok hidden quant" "gathers_ok ga" "rowwise gemm f"
    and "\<And>r. r < 4 \<Longrightarrow> length (xs r) = ho_owner_rows ow" "rank < 4" "ho_available ow"
    and "0 < ho_rows ow" "ho_rows ow \<le> 4 * ho_owner_rows ow"
  shows "\<exists>g. handoff_gather c ga quant True hidden junk xs rank ow = Inr (g, ow\<lparr>ho_gathers := ho_gathers ow + 1\<rparr>)
    \<and> handoff_project c gemm l junk' g = Inr (take (ho_rows ow) (map (\<lambda>x. f (quant x)) (concat (map xs [0..<4]))))"
proof -
  let ?q = "ho_owner_rows ow"
  have nccl: "\<And>p. ga_nccl ga p = concat p" and ring: "\<And>p. ga_ring ga p = concat p" using assms(2) by (simp_all add: gathers_ok_def)
  have gemm: "\<And>t qs. gemm t qs = map f qs" using assms(3) by (simp add: rowwise_def)
  have "handoff_project c gemm l junk' (handoff_input_of ga (choose_transport c ow ?q hidden) quant ow hidden junk xs)
      = Inr (take (ho_rows ow) (map (\<lambda>x. f (quant x)) (concat (map xs [0..<4]))))"
  proof (cases "choose_transport c ow ?q hidden")
    case (Ring n)
    then show ?thesis
      using ring_call_fits [OF Ring] ring_row_count_holds [of ?q hidden]
      by (simp add: handoff_input_of_def ring Let_def blocks_input_project [OF assms(1,4) _ assms(3) refl assms(7,8)] del: upt_conv_Cons)
  next
    case Block
    then show ?thesis
      by (simp add: handoff_input_of_def nccl Let_def blocks_input_project [OF assms(1,4) block_bytes_holds assms(3) refl assms(7,8)])
  next
    case Two
    then show ?thesis
      unfolding handoff_input_of_def Let_def nccl
      by (simp only: transport.case two_input [OF assms(1,4)])
        (simp add: handoff_project_def gemm chunks_project take_map comp_def)
  qed
  then show ?thesis using assms(4) [OF assms(5)] assms(6) by (simp add: handoff_gather_def)
qed

text \<open>Seven rows of two bytes over four ranks of two rows: the last rank's second row is padding.\<close>

definition demo_handoff_config :: handoff_config where
  "demo_handoff_config = \<lparr>hc_enabled = True, hc_block = True, hc_min_rows = 0, hc_ring = True, hc_ring_min_rows = 4608,
     hc_tuned = False, hc_tuned_min_rows = 1536\<rparr>"

definition demo_handoff_owner :: handoff_owner where
  "demo_handoff_owner = \<lparr>ho_rows = 7, ho_owner_rows = 2, ho_available = True, ho_ring = None, ho_gathers = 0\<rparr>"

lemma handoff_is_exact_witness:
  "\<exists>g. handoff_gather demo_handoff_config \<lparr>ga_nccl = concat, ga_ring = concat\<rparr> (\<lambda>x. ([x, x + 1], [x, 0, 0, 0])) True 2 (\<lambda>r i. 99)
        (\<lambda>r. [int r, int r + 10]) 1 demo_handoff_owner = Inr (g, demo_handoff_owner\<lparr>ho_gathers := 1\<rparr>)
    \<and> handoff_project demo_handoff_config (\<lambda>t. map (\<lambda>(q, s). sum_list q * hd s)) \<lparr>dr_chunk = 0, dr_chunk_min = 0, dr_rules = False, dr_choice = (\<lambda>_. None :: nat option)\<rparr> (\<lambda>i. 5) g
        = Inr [0, 210, 3, 253, 10, 300, (21 :: int)]"
  using handoff_is_exact [where quant = "\<lambda>x. ([x, x + 1], [x, 0, 0, 0])" and hidden = 2
      and ga = "\<lparr>ga_nccl = concat, ga_ring = concat\<rparr>" and f = "\<lambda>(q, s). sum_list q * hd s" and gemm = "\<lambda>t. map (\<lambda>(q, s). sum_list q * hd s)"
      and xs = "\<lambda>r. [int r, int r + 10]" and ow = demo_handoff_owner and rank = 1 and c = demo_handoff_config and junk = "\<lambda>r i. 99"
      and l = "\<lparr>dr_chunk = 0, dr_chunk_min = 0, dr_rules = False, dr_choice = (\<lambda>_. None :: nat option)\<rparr>" and junk' = "\<lambda>i. 5"]
  by (simp add: quant_ok_def gathers_ok_def rowwise_def demo_handoff_owner_def upt_rec)

section \<open>The settings and the gate\<close>

lemma handoff_settings_bounds:
  "handoff_settings env = Inr c \<Longrightarrow> 0 \<le> hc_min_rows c \<and> 0 \<le> hc_ring_min_rows c \<and> 129 \<le> hc_tuned_min_rows c"
  by (auto simp: handoff_settings_def Let_def)

lemma eligible_is_kept: "handoff_eligible a = (b, a') \<Longrightarrow> handoff_eligible a' = (b, a')"
  by (auto simp: handoff_eligible_def Let_def split: option.splits)

text \<open>A cached refusal or a layer outside the family never engages; a refused engagement leaves the owner's gather to the caller.\<close>

lemma engage_needs_family:
  "engage c a ow = (True, a') \<Longrightarrow> ka_cached a = None \<Longrightarrow>
     \<exists>l. ka_projection a = Some l \<and> ip_family l = Some ''kda_in'' \<and> ip_prefill_mode l = Some ''w8a8'' \<and> ip_weight l \<and> ip_bias l = Some False"
  by (auto simp: engage_def handoff_eligible_def eligible_projection_def Let_def split: option.splits if_splits)

lemma short_calls_keep_the_served_kernel:
  "handoff_settings env = Inr c \<Longrightarrow> rows \<le> 128 \<Longrightarrow> tuned_choice c l rows = None"
  by (frule handoff_settings_bounds) (simp add: tuned_choice_def)

end
