(* ===== verification/Spec2Isabelle.thy ===== *)
theory Spec2Isabelle
  imports Utf8_Guard Ring_Values Ring_Region Bf16_Word Bridge_Startup Kda_Checkpoint Boundary_Registry
    Topk_Canonical Row_Split Greedy_Verify Mhc_Ownership Compose_Service Lean_Runtime Ring_Runtime Kda_Pipeline
    Tile_Major Overlay_Build Recover_Fused Kda_Staging Kda_Handoff
begin

text \<open>
  A verification library for the serving stack's own code: the Python modules under \<open>src/src/tp4\<close> that are laid over
  an inference engine to serve one model on four machines without a switch, the launch renderers under
  \<open>src/launch\<close>, and the overlay builder under \<open>src/sources\<close>.

  \<^bold>\<open>The parts and how they interact.\<close>
  The builder (\<open>sources/apply.py\<close>) makes the served files from a base image, the repository and pinned copies; the
  renderers (\<open>launch/render.py\<close>, \<open>launch/compose.py\<close>) turn a site file into the command line of each rank. In the
  running engine, every scheduler step goes through the speedup bridge (\<open>glm53_speedup/scheduler.py\<close>), which asks the
  fair planner how much prefill each request may run, the cadence whether this step is for prefill or for decode, and
  the length policy how many draft tokens are verified; the graphs captured at boot bound that number. A prefill chunk
  ends where the checkpoint planner says (\<open>glm53_kda_ckpt_plan.py\<close> and \<open>glm53_replay_boundary.py\<close>), because the
  recurrent state has to be exported there: \<open>glm53_kda_ckpt.py\<close> runs the recurrence window by window and exports from
  inside it, and the boundary registry keeps these states until a later prompt hits them. Prefill tensors are reduced
  over the ring (\<open>glm53_prefill_rdma\<close>) or owned row by row (\<open>mhc_prefill_sharding.py\<close>), decode tensors over the
  small all-reduce (\<open>glm53_lean_allreduce\<close>). The indexer splits its rows over the ranks and orders its
  selections canonically, drafts are verified greedily across the vocabulary shards, and the sampler's guard masks every
  token that would break the UTF-8 text.

  \<^bold>\<open>Conventions.\<close>
  \<open>Ringside_Prelude\<close> has the exceptions as the datatype \<open>py_error\<close> and results as the sum \<open>'a py\<close>: a raise is \<open>Inl\<close>, a
  return \<open>Inr\<close>; \<open>py_guard\<close> is \<open>if bad: raise\<close> and \<open>py_bind\<close> the sequence of two calls. The collection
  \<open>py_defs\<close> unfolds them. The environment is a function from names to values (\<open>environ\<close>), Python's integers are \<open>int\<close>
  or \<open>nat\<close>, device integers that wrap are words, dictionaries are maps or lists of their items where the order counts,
  objects are records, and a method returns the updated record. A value that a call reads from the outside (a clock, a
  file, a gathered list, what a compiled library returns) is an argument.
\<close>

text \<open>
  \<^bold>\<open>The UTF-8 guard\<close> (\<open>glm53_utf8_guard.py\<close>).
  \<open>Utf8_Decoder\<close>: the strict decoder as a state machine of eight states, and its specification \<open>utf8_encode\<close>; it accepts
  exactly the concatenations of encodings of scalar values, a pending character ends within three bytes, and two runs agree
  after a completed character. \<open>Utf8_Guard\<close>: the byte-level alphabet, the token table, the precomputed tables, the two
  kernels as functions of one row and the counters. The locale \<open>guard_tables\<close> states what a table promises and
  \<open>built\<close> interprets it on the tables the module builds. A row the guard leaves allows only tokens that continue the
  text as valid UTF-8, and allows one that completes the character.

  \<^bold>\<open>The prefill ring\<close> (\<open>glm53_prefill_rdma/protocol.py\<close>, \<open>ring.py\<close>).
  \<open>Ring_Protocol\<close>: paths, geometry, the twelve send steps and the merged work list, whose \<open>item_at\<close> equals the sorted merge.
  \<open>Ring_Schedule\<close>: every dependency of an item is staged earlier in every rank's list, so four ranks that fetch in order
  and keep any positive number in flight always progress. \<open>Ring_Values\<close>: what the chunks carry; the reduce-scatter has
  NCCL's association of the four contributions and the all-gather copies. \<open>Ring_Region\<close>: the byte layout of the
  registered region, whose areas are disjoint, and the call sequencer. \<open>Bf16_Word\<close>: BF16 rounding on 32-bit words, proved
  nearest-even. \<open>Ring_Runtime\<close>: the voted construction on four ranks (all hold a ring or none does), the checks of a
  call, health, watchdog and close; a call either raises or takes the sequencer's next step.

  \<^bold>\<open>The small all-reduce\<close> (\<open>glm53_lean_allreduce\<close>).
  \<open>Lean_Kernel\<close>: topology, path map and the kernel of the four ranks over slots, doorbells, waits that run out and the
  election of the last block; a launch gives the canonical sum on every rank whatever the order of the threads, and one
  whose wait runs out ends poisoned and changes nothing afterwards. \<open>Lean_Runtime\<close>: preflight, votes, allocation, eligibility, launchers and capture; a launched
  call stays within every bound the kernel and the proxy rely on.

  \<^bold>\<open>Speedup\<close> (\<open>glm53_speedup\<close>).
  \<open>Engine_Model\<close>: the records of what is read of the engine's scheduler and requests. \<open>Float64\<close>: binary64 arithmetic as
  round-to-nearest-even on rationals. \<open>Request_History\<close> (exponential averages, over the locale \<open>float_rounding\<close>, interpreted
  by \<open>f64\<close>), \<open>Cost_Table\<close> (validation of a JSON cost document), \<open>Saturation_Growth\<close>, \<open>Speedup_Geometry\<close> (capture axes, decode
  shapes, graph descriptors) and \<open>Speedup_Policy\<close> (settings, the choice of the proposal length with its baseline, batch trimming):
  the policy's choice is always captured. \<open>Fair_Prefill\<close>: one step's grants stay within the budget and a deferred long
  request is bypassed at most as often as there are requests before it. \<open>Split_Cadence\<close>: prefill-only and decode-only turns, repay and burst.
  \<open>Speedup_Bridge\<close>: one scheduler step through all of them, and the runtime override, which fails safe.
  \<open>Bridge_Startup\<close>: the construction establishes the bridge's invariant.
\<close>

text \<open>
  \<^bold>\<open>KDA prefill\<close> (\<open>glm53_kda_ckpt_plan.py\<close>, \<open>glm53_kda_ckpt.py\<close>, the prologue kernel it pins, \<open>glm53_replay_boundary.py\<close>).
  \<open>Kda_Checkpoint\<close>: where a chunk ends and which positions it exports, with and without the replay boundary; no
  requested stop is passed over. \<open>Kda_Bands\<close>: the prologue's scan, tile counts, bands and window table, and the plan's
  capacities; the locale \<open>banding\<close> states what the tables promise, \<open>prologue_run\<close> is one run of the prologue, a
  \<open>sublocale\<close> of it, and \<open>arrival\<close> interprets it. \<open>Kda_Windows\<close>: which tiles a grid row runs and the tile loop with its
  exports, resume and empty copies, inside the locale \<open>prologue_tables\<close>; every exported state is the state after that prefix.
  \<open>Kda_Slots\<close>: the duplicate table of the metadata validation under every interleaving of its threads (locale \<open>probing\<close>,
  interpreted by \<open>dup_table\<close>); insertion ends, and the error code is 0 exactly on legal metadata. \<open>Kda_Pipeline\<close>: the
  host's checks, tables, launch cache and conv history, and the two-stream window pipeline, which has no race.
  \<open>Boundary_Registry\<close>: the retained boundary states over the engine's block pool; the number of prefixes stays bounded.

  \<^bold>\<open>Speculative verify and commit\<close> (\<open>recoverssm.py\<close>).
  \<open>Recover_Ssm\<close>: the gate, the table of slow channels, how a state is kept in a pool, the verify's token loop and the
  recovery of an accepted prefix from its records, which in exact arithmetic is the state the verify had there.
  \<open>Recover_Commit\<close>: the plan of a commit, the convolution windows, the context with its immediate and its fused commit, the
  two ordering rules, the hand-over and both verifies. \<open>Recover_Order\<close>: commits of requests that own their blocks commute
  and split; \<open>settled\<close> maps a context with deferred entries to the pool an immediate commit would have left; the host's
  skip of rule 1 is exact. \<open>Recover_Fused\<close>: every operation keeps the settled pool and the fused verify makes it real, so a run that
  defers gives the outputs of one that does not, bit for bit; a block that differs meanwhile is private to its request.
  \<open>Kda_Staging\<close> (\<open>kda_state_store.py\<close>): the full-width staging copy a prefill call runs on; its fused launches, in any
  order of their programs, do what the separate ones do. \<open>Kda_Handoff\<close> (\<open>kda_fp8_handoff.py\<close>): the quantized rows sent
  over three transports and projected in blocks or chunks; the result is the row-wise product of all owners' rows.

  \<^bold>\<open>Selection and verification.\<close>
  \<open>Topk_Canonical\<close> (\<open>deterministic_sparse_topk.py\<close>): both kernel paths give the canonical order of the selection, in any
  order of the program instances. \<open>Row_Split\<close> (\<open>glm53_indexer_rowsplit.py\<close>): the ranks' shares together select what one rank
  would. \<open>Greedy_Verify\<close> (\<open>glm53_greedy_verify.py\<close>): gathered shard maxima verify drafts as the full argmax does.
  \<open>Mhc_Ownership\<close>: the votes, and scatter followed by gather is the identity on the rows.
  \<open>Tile_Major\<close> (\<open>_tp4_tile_major.py\<close>): the repacked expert weights; the locale \<open>tile_order\<close> is interpreted for both weight
  tensors (\<open>w13_order\<close>, \<open>w2_order\<close>), a box reads the same bytes in both layouts and the repack has an inverse.

  \<^bold>\<open>Build and launch.\<close>
  \<open>Overlay_Build\<close> (\<open>sources/apply.py\<close>): every entry kind and its checks; a build that exits with 0 wrote every served
  file with its recorded digest, or records it as rebuilt under the option that allows it. \<open>Site_Render\<close> (\<open>launch/render.py\<close>): every placeholder of a rendered command line has a value, no
  site value brings in a control character or a mount option, and a replaced image is pinned by digest. \<open>Compose_Service\<close> (\<open>launch/compose.py\<close>): the service, after Compose's interpolation, runs the same
  container as the rendered command line, and the written \<open>.env\<close> file reads back.
\<close>

text \<open>
  \<^bold>\<open>Bounds and fuel.\<close>
  Loops are structural recursions or have a termination proof. Where a definition counts down, the count is one the
  code cannot exceed: the eviction of the registry gets one more than its entries, because each round removes one; the
  prologue's scan takes eight doubling steps because its block has 256 threads. The probe loop of the slot table,
  \<open>contains_from\<close>, may run for ever on a full table: it is a partial function, shown to return on the tables
  that validation builds, whose size is at least twice the number of slots; an insertion pass is a step relation, and every
  run of it is at most the table size times the number of slots long. Slots are below \<open>2 ^ 31\<close>, as the kernel's types are.

  \<^bold>\<open>Parameters.\<close>
  Code outside the repository enters as an argument or as a value: the engine's block pool and its scheduler, the
  register arithmetic of a recurrence tile, the addition and the conversions of the collectives, the device's
  log-sum-exp, the sum of a list of floats (interpreter versions differ), SHA-256 and \<open>git apply\<close>, what the compiled
  rings return, the quantizer, product and all-gathers of the FP8 hand-off, and CUDA's rules for streams and events, which \<open>executes\<close> of \<open>Kda_Pipeline\<close> writes out.

  \<^bold>\<open>Not modelled.\<close>
  GPU kernels whose meaning is tensor-core or floating-point code (the conv-fused
  prepare, the FP8 layers), instruction wrappers and loaders of compiled extensions, the C
  proxies, memory fences and the per-dtype register code of the small all-reduce; tables of launch constants; the
  vendored engine and kernel packages under \<open>src/docker\<close>, of which only the pinned prologue is modelled; one-off source
  patchers; superseded and TP2 copies of modules modelled here; tools that download, compare or print (preflight,
  telemetry, manifest import, benchmark pages). In the modelled modules, log lines, printed summaries and cached
  singletons are left out, and file reading, hashing and JSON decoding enter as values.
\<close>

end
